(* ===== verification/Prelude.thy ===== *)
theory Prelude
  imports Main "HOL-Library.Monad_Syntax"
begin

text \<open>
  Shared vocabulary of the development: Rust's integer arithmetic at an explicit width,
  the panic layer, and the generic contract of a component whose operations keep an
  invariant.

  An unsigned Rust integer of width \<open>w\<close> is a \<open>nat\<close> that satisfies \<open>fits w\<close>, a signed one
  an \<open>int\<close> that satisfies \<open>ifits w\<close>. The checked operations return \<open>None\<close> exactly where the
  Rust method of the same name does, the saturating ones clip at the bounds of the width.
  A function that may panic (a plain \<open>+\<close>, \<open>-\<close> or \<open>*\<close> that overflows with overflow checks on,
  a division by zero, an index out of range) returns an \<open>option\<close> as well, with \<open>None\<close> for the
  panic; the type synonym \<open>panics\<close> marks this use. A theorem that such a function
  returns \<open>Some\<close> shows that the plain operators do not overflow, so that a build with and one
  without overflow checks agree there.
\<close>

named_theorems rust_int "definitions of Rust integer operations"

type_synonym 'a panics = "'a option"

type_synonym 'e unit_result = "'e + unit"

text \<open>Rust's \<open>?\<close> on a \<open>Result\<close>: continue with the value, or return the error.\<close>

definition res_bind :: "'e + 'a \<Rightarrow> ('a \<Rightarrow> 'e + 'b) \<Rightarrow> 'e + 'b" where
  "res_bind r f = (case r of Inl e \<Rightarrow> Inl e | Inr x \<Rightarrow> f x)"

definition map_err :: "('e \<Rightarrow> 'f) \<Rightarrow> 'e + 'a \<Rightarrow> 'f + 'a" where
  "map_err g r = (case r of Inl e \<Rightarrow> Inl (g e) | Inr x \<Rightarrow> Inr x)"

lemma res_bind_simps [simp]: "res_bind (Inl e) f = Inl e" "res_bind (Inr x) f = f x"
  by (simp_all add: res_bind_def)

lemma map_err_simps [simp]: "map_err g (Inl e) = Inl (g e)" "map_err g (Inr x) = Inr x"
  by (simp_all add: map_err_def)

lemma res_bind_Inr_iff: "res_bind r f = Inr y \<longleftrightarrow> (\<exists>x. r = Inr x \<and> f x = Inr y)"
  by (cases r) simp_all

lemma map_err_Inr_iff [simp]: "map_err g r = Inr y \<longleftrightarrow> r = Inr y"
  by (cases r) simp_all

subsection \<open>Unsigned integers\<close>

definition fits :: "nat \<Rightarrow> nat \<Rightarrow> bool" where
  [rust_int]: "fits w n \<longleftrightarrow> n < 2 ^ w"

definition checked_add :: "nat \<Rightarrow> nat \<Rightarrow> nat \<Rightarrow> nat option" where
  [rust_int]: "checked_add w a b = (if a + b < 2 ^ w then Some (a + b) else None)"

definition checked_sub :: "nat \<Rightarrow> nat \<Rightarrow> nat option" where
  [rust_int]: "checked_sub a b = (if b \<le> a then Some (a - b) else None)"

definition checked_mul :: "nat \<Rightarrow> nat \<Rightarrow> nat \<Rightarrow> nat option" where
  [rust_int]: "checked_mul w a b = (if a * b < 2 ^ w then Some (a * b) else None)"

definition checked_div :: "nat \<Rightarrow> nat \<Rightarrow> nat option" where
  [rust_int]: "checked_div a b = (if b = 0 then None else Some (a div b))"

definition saturating_add :: "nat \<Rightarrow> nat \<Rightarrow> nat \<Rightarrow> nat" where
  [rust_int]: "saturating_add w a b = min (a + b) (2 ^ w - 1)"

definition saturating_mul :: "nat \<Rightarrow> nat \<Rightarrow> nat \<Rightarrow> nat" where
  [rust_int]: "saturating_mul w a b = min (a * b) (2 ^ w - 1)"

definition saturating_sub :: "nat \<Rightarrow> nat \<Rightarrow> nat" where
  [rust_int]: "saturating_sub a b = (if b \<le> a then a - b else 0)"

subsection \<open>Signed integers\<close>

definition ifits :: "nat \<Rightarrow> int \<Rightarrow> bool" where
  [rust_int]: "ifits w x \<longleftrightarrow> - (2 ^ (w - 1)) \<le> x \<and> x < 2 ^ (w - 1)"

definition ichecked :: "nat \<Rightarrow> int \<Rightarrow> int option" where
  [rust_int]: "ichecked w x = (if ifits w x then Some x else None)"

definition ichecked_add :: "nat \<Rightarrow> int \<Rightarrow> int \<Rightarrow> int option" where
  [rust_int]: "ichecked_add w a b = ichecked w (a + b)"

definition ichecked_sub :: "nat \<Rightarrow> int \<Rightarrow> int \<Rightarrow> int option" where
  [rust_int]: "ichecked_sub w a b = ichecked w (a - b)"

definition ichecked_mul :: "nat \<Rightarrow> int \<Rightarrow> int \<Rightarrow> int option" where
  [rust_int]: "ichecked_mul w a b = ichecked w (a * b)"

definition ichecked_neg :: "nat \<Rightarrow> int \<Rightarrow> int option" where
  [rust_int]: "ichecked_neg w a = ichecked w (- a)"

subsection \<open>Facts on the checked operations\<close>

lemma checked_add_Some [simp]:
  "checked_add w a b = Some c \<longleftrightarrow> c = a + b \<and> a + b < 2 ^ w"
  by (auto simp: checked_add_def)

lemma checked_add_None [simp]: "checked_add w a b = None \<longleftrightarrow> 2 ^ w \<le> a + b"
  by (auto simp: checked_add_def not_less)

lemma checked_sub_Some [simp]: "checked_sub a b = Some c \<longleftrightarrow> b \<le> a \<and> c = a - b"
  by (auto simp: checked_sub_def)

lemma checked_sub_None [simp]: "checked_sub a b = None \<longleftrightarrow> a < b"
  by (auto simp: checked_sub_def not_le)

lemma checked_mul_Some [simp]:
  "checked_mul w a b = Some c \<longleftrightarrow> c = a * b \<and> a * b < 2 ^ w"
  by (auto simp: checked_mul_def)

lemma checked_mul_None [simp]: "checked_mul w a b = None \<longleftrightarrow> 2 ^ w \<le> a * b"
  by (auto simp: checked_mul_def not_less)

lemma checked_div_Some [simp]: "checked_div a b = Some c \<longleftrightarrow> b \<noteq> 0 \<and> c = a div b"
  by (auto simp: checked_div_def)

lemma checked_div_None [simp]: "checked_div a b = None \<longleftrightarrow> b = 0"
  by (auto simp: checked_div_def)

lemma ichecked_Some [simp]: "ichecked w x = Some y \<longleftrightarrow> y = x \<and> ifits w x"
  by (auto simp: ichecked_def)

lemma ichecked_None [simp]: "ichecked w x = None \<longleftrightarrow> \<not> ifits w x"
  by (auto simp: ichecked_def)

lemma saturating_sub_diff [simp]: "saturating_sub a b = a - b"
  by (auto simp: saturating_sub_def)

lemma saturating_add_fits: "fits w (saturating_add w a b)"
  by (simp add: fits_def saturating_add_def min_less_iff_disj)

lemma saturating_add_exact: "a + b < 2 ^ w \<Longrightarrow> saturating_add w a b = a + b"
  by (simp add: saturating_add_def)

lemma saturating_add_ge: "fits w a \<Longrightarrow> a \<le> saturating_add w a b"
  by (auto simp: saturating_add_def fits_def)

subsection \<open>Components driven by a sequence of operations\<close>

text \<open>
  \<open>run_ops step s ops\<close> applies the operations in order; a panic in one of them ends the run
  (\<open>None\<close>), while an operation that returns an error is still followed by the next one, on
  the state the failing operation left behind.
\<close>

fun run_ops :: "('s \<Rightarrow> 'op \<Rightarrow> 's panics) \<Rightarrow> 's \<Rightarrow> 'op list \<Rightarrow> 's panics" where
  "run_ops step s [] = Some s"
| "run_ops step s (a # as) =
     (case step s a of None \<Rightarrow> None | Some s' \<Rightarrow> run_ops step s' as)"

lemma run_ops_append:
  "run_ops step s (as @ bs) = Option.bind (run_ops step s as) (\<lambda>s'. run_ops step s' bs)"
  by (induction as arbitrary: s) (auto split: option.splits)

text \<open>
  The contract of a component: an invariant that every operation keeps. Its clients get
  the invariant for whole runs. \<open>monotone_component\<close> adds a quantity no operation
  decreases.
\<close>

locale component =
  fixes step :: "'s \<Rightarrow> 'op \<Rightarrow> 's panics"
    and inv :: "'s \<Rightarrow> bool"
  assumes step_inv: "inv s \<Longrightarrow> step s a = Some s' \<Longrightarrow> inv s'"
begin

lemma run_inv: "inv s \<Longrightarrow> run_ops step s as = Some s' \<Longrightarrow> inv s'"
proof (induction as arbitrary: s)
  case Nil
  then show ?case by simp
next
  case (Cons a as)
  then show ?case by (auto split: option.splits dest: step_inv)
qed

end

locale monotone_component = component step inv
  for step :: "'s \<Rightarrow> 'op \<Rightarrow> 's panics" and inv :: "'s \<Rightarrow> bool" +
  fixes level :: "'s \<Rightarrow> nat"
  assumes step_mono: "inv s \<Longrightarrow> step s a = Some s' \<Longrightarrow> level s \<le> level s'"
begin

lemma run_mono: "inv s \<Longrightarrow> run_ops step s as = Some s' \<Longrightarrow> level s \<le> level s'"
proof (induction as arbitrary: s)
  case Nil
  then show ?case by simp
next
  case (Cons a as)
  from Cons.prems obtain t where t: "step s a = Some t" "run_ops step t as = Some s'"
    by (auto split: option.splits)
  from Cons.prems(1) t(1) have "inv t" by (rule step_inv)
  with Cons.IH t(2) have "level t \<le> level s'" by blast
  with step_mono [OF Cons.prems(1) t(1)] show ?case by simp
qed

end

text \<open>
  A component whose operations never panic from a state of the invariant: its runs always
  return.
\<close>

locale total_component = component step inv
  for step :: "'s \<Rightarrow> 'op \<Rightarrow> 's panics" and inv :: "'s \<Rightarrow> bool" +
  assumes step_total: "inv s \<Longrightarrow> step s a \<noteq> None"
begin

lemma run_total: "inv s \<Longrightarrow> \<exists>s'. run_ops step s as = Some s' \<and> inv s'"
proof (induction as arbitrary: s)
  case Nil
  then show ?case by simp
next
  case (Cons a as)
  from step_total [OF Cons.prems] obtain t where t: "step s a = Some t" by blast
  from Cons.prems t have "inv t" by (rule step_inv)
  with Cons.IH t show ?case by auto
qed

end

subsection \<open>Refinement of an abstract component\<close>

text \<open>
  A component whose calls return a result, and the abstract component it implements: related
  states give the same result and stay related, and the implementation does not panic. Then whole
  runs return the same results.
\<close>

fun run_calls :: "('s \<Rightarrow> 'op \<Rightarrow> ('s \<times> 'r) panics) \<Rightarrow> 's \<Rightarrow> 'op list \<Rightarrow> ('s \<times> 'r list) panics" where
  "run_calls call s [] = Some (s, [])"
| "run_calls call s (a # as) = do {
     (s', r) \<leftarrow> call s a;
     (s'', rs) \<leftarrow> run_calls call s' as;
     Some (s'', r # rs)
   }"

fun run_spec :: "('a \<Rightarrow> 'op \<Rightarrow> 'a \<times> 'r) \<Rightarrow> 'a \<Rightarrow> 'op list \<Rightarrow> 'a \<times> 'r list" where
  "run_spec spec m [] = (m, [])"
| "run_spec spec m (a # as) =
     (let (m', r) = spec m a; (m'', rs) = run_spec spec m' as in (m'', r # rs))"

locale simulation =
  fixes call :: "'s \<Rightarrow> 'op \<Rightarrow> ('s \<times> 'r) panics"
    and spec :: "'a \<Rightarrow> 'op \<Rightarrow> 'a \<times> 'r"
    and rel :: "'s \<Rightarrow> 'a \<Rightarrow> bool"
  assumes simulates: "rel s m \<Longrightarrow> \<exists>s'. call s a = Some (s', snd (spec m a)) \<and> rel s' (fst (spec m a))"
begin

lemma run_simulates:
  "rel s m \<Longrightarrow> \<exists>s'. run_calls call s as = Some (s', snd (run_spec spec m as)) \<and> rel s' (fst (run_spec spec m as))"
proof (induction as arbitrary: s m)
  case Nil
  then show ?case by simp
next
  case (Cons a as)
  from simulates [OF Cons.prems, of a] obtain t where t: "call s a = Some (t, snd (spec m a))"
    "rel t (fst (spec m a))" by blast
  from Cons.IH [OF t(2)] t(1) show ?case by (auto simp: split_beta Let_def)
qed

end

subsection \<open>Lists\<close>

lemma sum_list_map_le:
  "(\<And>x. x \<in> set xs \<Longrightarrow> f x \<le> g x) \<Longrightarrow> sum_list (map f xs) \<le> (sum_list (map g xs) :: nat)"
  by (induction xs) (auto intro: add_mono)

lemma sum_list_map_filter_le:
  "sum_list (map f (filter P xs)) \<le> (sum_list (map f xs) :: nat)"
  by (induction xs) auto

end
