(* ===== verification/Ledger.thy ===== *)
theory Ledger
  imports Prelude
begin

text \<open>
  The ledger's base types and schedules (\<open>koinon-ledger\<close>): token amounts, accounts,
  timestamps, the OIKOS emission schedule, genesis pools and vesting, and the state of the
  elastic Koin supply.

  \<open>OikosAmount\<close> wraps a \<open>u128\<close> and \<open>KoinAmount\<close> an \<open>i128\<close>; both are represented by the
  wrapped number. The parts computed in \<open>f64\<close> (the supply adjustment and the proportional
  split of the genesis pools over weighted accounts) are not modelled.
\<close>

subsection \<open>Tokens (token.rs)\<close>

type_synonym oikos = nat
type_synonym koin = int
type_synonym account_id = nat

datatype token_id = TokenOikos | TokenKoin

definition OIKOS_MAX_SUPPLY :: oikos where
  "OIKOS_MAX_SUPPLY = 1000000000 * 10 ^ 18"

definition oikos_from_tokens :: "nat \<Rightarrow> oikos panics" where
  "oikos_from_tokens tokens = checked_mul 128 tokens (10 ^ 18)"

definition oikos_checked_add :: "oikos \<Rightarrow> oikos \<Rightarrow> oikos option" where
  "oikos_checked_add a b = checked_add 128 a b"

definition oikos_checked_sub :: "oikos \<Rightarrow> oikos \<Rightarrow> oikos option" where
  "oikos_checked_sub a b = checked_sub a b"

definition koin_checked_add :: "koin \<Rightarrow> koin \<Rightarrow> koin option" where
  "koin_checked_add a b = ichecked_add 128 a b"

definition koin_checked_sub :: "koin \<Rightarrow> koin \<Rightarrow> koin option" where
  "koin_checked_sub a b = ichecked_sub 128 a b"

definition koin_abs :: "koin \<Rightarrow> koin panics" where
  "koin_abs a = ichecked 128 \<bar>a\<bar>"

definition koin_is_negative :: "koin \<Rightarrow> bool" where
  "koin_is_negative a \<longleftrightarrow> a < 0"

subsection \<open>Accounts (account.rs)\<close>

record account =
  acc_id :: account_id
  acc_oikos :: oikos
  acc_koin :: koin
  acc_nonce :: nat

definition account_new :: "account_id \<Rightarrow> account" where
  "account_new i = \<lparr>acc_id = i, acc_oikos = 0, acc_koin = 0, acc_nonce = 0\<rparr>"

definition has_sufficient_oikos :: "account \<Rightarrow> oikos \<Rightarrow> bool" where
  "has_sufficient_oikos a amount \<longleftrightarrow> amount \<le> acc_oikos a"

definition has_sufficient_koin :: "account \<Rightarrow> koin \<Rightarrow> bool" where
  "has_sufficient_koin a amount \<longleftrightarrow> koin_is_negative amount \<or> amount \<le> acc_koin a"

subsection \<open>Timestamps (timestamp.rs)\<close>

definition ts_is_expired :: "nat \<Rightarrow> nat \<Rightarrow> bool" where
  "ts_is_expired t now \<longleftrightarrow> now > t"

definition ts_is_valid :: "nat \<Rightarrow> nat \<Rightarrow> bool" where
  "ts_is_valid t now \<longleftrightarrow> t = 0 \<or> \<not> ts_is_expired t now"

subsection \<open>Emission schedule (emission.rs)\<close>

definition YEAR_1_EMISSION :: nat where "YEAR_1_EMISSION = 50000000"
definition DECAY_FACTOR_NUM :: nat where "DECAY_FACTOR_NUM = 8"
definition DECAY_FACTOR_DEN :: nat where "DECAY_FACTOR_DEN = 10"
definition EMISSION_HALT_YEAR :: nat where "EMISSION_HALT_YEAR = 20"

record emission_entry =
  ee_year :: nat
  ee_annual_emission :: nat
  ee_cumulative_supply :: nat

fun emission_loop :: "nat \<Rightarrow> nat \<Rightarrow> nat" where
  "emission_loop 0 e = e"
| "emission_loop (Suc n) e = emission_loop n (e * DECAY_FACTOR_NUM div DECAY_FACTOR_DEN)"

definition emission_at_year :: "nat \<Rightarrow> nat" where
  "emission_at_year year =
     (if year = 0 \<or> year > EMISSION_HALT_YEAR then 0
      else emission_loop (year - 1) YEAR_1_EMISSION)"

definition cumulative_supply_at_year :: "nat \<Rightarrow> nat" where
  "cumulative_supply_at_year year =
     (if year = 0 then 0
      else foldl (\<lambda>c y. c + emission_at_year y) 400000000
             [1..<min year EMISSION_HALT_YEAR + 1])"

definition emission_schedule :: "emission_entry list" where
  "emission_schedule =
     fst (foldl (\<lambda>(sch, cum) year.
            let e = emission_at_year year; cum' = cum + e
            in (sch @ [\<lparr>ee_year = year, ee_annual_emission = e,
                        ee_cumulative_supply = cum'\<rparr>], cum'))
          ([], 0) [1..<EMISSION_HALT_YEAR + 1])"

lemmas emission_consts =
  YEAR_1_EMISSION_def DECAY_FACTOR_NUM_def DECAY_FACTOR_DEN_def EMISSION_HALT_YEAR_def

subsection \<open>Genesis (genesis.rs)\<close>

definition GENESIS_VALIDATORS_BP :: nat where "GENESIS_VALIDATORS_BP = 4000"
definition GENESIS_TREASURY_BP :: nat where "GENESIS_TREASURY_BP = 3000"
definition GENESIS_ECOSYSTEM_BP :: nat where "GENESIS_ECOSYSTEM_BP = 2000"
definition GENESIS_TEAM_BP :: nat where "GENESIS_TEAM_BP = 1000"

record genesis_allocation =
  ga_account :: account_id
  ga_amount :: oikos
  ga_vesting_months :: nat
  ga_months_vested :: nat

definition vested_amount :: "genesis_allocation \<Rightarrow> oikos panics" where
  "vested_amount g =
     (if ga_vesting_months g = 0 then Some (ga_amount g)
      else do {
        let fraction = min (ga_months_vested g) (ga_vesting_months g);
        p \<leftarrow> checked_mul 128 (ga_amount g) fraction;
        checked_div p (ga_vesting_months g)
      })"

definition claimed_so_far :: "genesis_allocation \<Rightarrow> oikos" where
  "claimed_so_far g = 0"

definition claimable :: "genesis_allocation \<Rightarrow> oikos panics" where
  "claimable g = do {
     v \<leftarrow> vested_amount g;
     Some (case oikos_checked_sub v (claimed_so_far g) of Some r \<Rightarrow> r | None \<Rightarrow> 0)
   }"

record genesis_pools =
  gp_total_allocated :: oikos
  gp_validator :: oikos
  gp_treasury :: oikos
  gp_ecosystem :: oikos
  gp_team :: oikos

definition genesis_pool :: "oikos \<Rightarrow> nat \<Rightarrow> oikos panics" where
  "genesis_pool cap bp = do { p \<leftarrow> checked_mul 128 cap bp; checked_div p 10000 }"

definition compute_genesis_pools :: "oikos \<Rightarrow> genesis_pools panics" where
  "compute_genesis_pools cap = do {
     v \<leftarrow> genesis_pool cap GENESIS_VALIDATORS_BP;
     t \<leftarrow> genesis_pool cap GENESIS_TREASURY_BP;
     e \<leftarrow> genesis_pool cap GENESIS_ECOSYSTEM_BP;
     m \<leftarrow> genesis_pool cap GENESIS_TEAM_BP;
     s1 \<leftarrow> checked_add 128 v t;
     s2 \<leftarrow> checked_add 128 s1 e;
     s3 \<leftarrow> checked_add 128 s2 m;
     Some \<lparr>gp_total_allocated = s3, gp_validator = v, gp_treasury = t,
           gp_ecosystem = e, gp_team = m\<rparr>
   }"

definition verify_genesis_invariant :: "genesis_pools \<Rightarrow> bool panics" where
  "verify_genesis_invariant r = do {
     s1 \<leftarrow> checked_add 128 (gp_validator r) (gp_treasury r);
     s2 \<leftarrow> checked_add 128 s1 (gp_ecosystem r);
     s3 \<leftarrow> checked_add 128 s2 (gp_team r);
     Some (gp_total_allocated r = s3 \<and> gp_total_allocated r \<le> OIKOS_MAX_SUPPLY)
   }"

lemmas genesis_consts =
  GENESIS_VALIDATORS_BP_def GENESIS_TREASURY_BP_def GENESIS_ECOSYSTEM_BP_def GENESIS_TEAM_BP_def

subsection \<open>Elastic supply (elastic.rs)\<close>

definition ADJUSTMENT_INTERVAL :: nat where "ADJUSTMENT_INTERVAL = 1000"

datatype supply_adjustment = AdjNone | AdjMint nat | AdjBurn nat

record elastic_supply_state =
  es_current_supply :: nat
  es_last_adjustment_block :: nat

definition elastic_new :: "nat \<Rightarrow> elastic_supply_state" where
  "elastic_new s = \<lparr>es_current_supply = s, es_last_adjustment_block = 0\<rparr>"

definition should_adjust :: "elastic_supply_state \<Rightarrow> nat \<Rightarrow> bool panics" where
  "should_adjust s current_block = do {
     due \<leftarrow> checked_add 64 (es_last_adjustment_block s) ADJUSTMENT_INTERVAL;
     Some (due \<le> current_block)
   }"

fun apply_adjustment ::
  "elastic_supply_state \<Rightarrow> supply_adjustment \<Rightarrow> nat \<Rightarrow> elastic_supply_state \<times> bool" where
  "apply_adjustment s AdjNone b = (s, True)"
| "apply_adjustment s (AdjMint a) b =
     (s\<lparr>es_current_supply := saturating_add 128 (es_current_supply s) a,
        es_last_adjustment_block := b\<rparr>, True)"
| "apply_adjustment s (AdjBurn a) b =
     (if a > es_current_supply s then (s, False)
      else (s\<lparr>es_current_supply := es_current_supply s - a,
              es_last_adjustment_block := b\<rparr>, True))"

definition elastic_conservation_check :: "elastic_supply_state \<Rightarrow> nat \<Rightarrow> nat \<Rightarrow> bool panics" where
  "elastic_conservation_check s circulating treasury = do {
     t \<leftarrow> checked_add 128 circulating treasury;
     Some (t \<le> es_current_supply s)
   }"

subsection \<open>Facts on the emission schedule\<close>

lemma emission_loop_le: "emission_loop n e \<le> e"
proof (induction n arbitrary: e)
  case 0
  then show ?case by simp
next
  case (Suc n)
  have "e * DECAY_FACTOR_NUM div DECAY_FACTOR_DEN \<le> e"
    by (simp add: emission_consts)
  with Suc.IH [of "e * DECAY_FACTOR_NUM div DECAY_FACTOR_DEN"] show ?case by simp
qed

lemma emission_loop_Suc:
  "emission_loop (Suc n) e = emission_loop n e * DECAY_FACTOR_NUM div DECAY_FACTOR_DEN"
  by (induction n arbitrary: e) simp_all

lemma emission_at_year_le: "emission_at_year y \<le> YEAR_1_EMISSION"
  by (simp add: emission_at_year_def emission_loop_le)

lemma emission_at_year_decays:
  "1 \<le> y \<Longrightarrow> y < EMISSION_HALT_YEAR \<Longrightarrow>
     emission_at_year (Suc y) = emission_at_year y * DECAY_FACTOR_NUM div DECAY_FACTOR_DEN"
  by (cases y) (simp_all add: emission_at_year_def emission_loop_Suc del: emission_loop.simps)

lemma emission_loop_numeral [simp]:
  "emission_loop (numeral k) e =
     emission_loop (pred_numeral k) (e * DECAY_FACTOR_NUM div DECAY_FACTOR_DEN)"
  by (simp add: numeral_eq_Suc)

text \<open>The schedule lists every year with its emission and the running total.\<close>

lemma emission_schedule_prefix:
  "foldl (\<lambda>(sch, cum) year.
      let e = emission_at_year year; cum' = cum + e
      in (sch @ [\<lparr>ee_year = year, ee_annual_emission = e, ee_cumulative_supply = cum'\<rparr>], cum'))
     ([], 0) [1..<n + 1] =
   (map (\<lambda>y. \<lparr>ee_year = y, ee_annual_emission = emission_at_year y,
              ee_cumulative_supply = (\<Sum>k = 1..y. emission_at_year k)\<rparr>) [1..<n + 1],
    \<Sum>k = 1..n. emission_at_year k)"
  by (induction n) (simp_all add: Let_def)

lemma emission_schedule_eq:
  "emission_schedule =
     map (\<lambda>y. \<lparr>ee_year = y, ee_annual_emission = emission_at_year y,
               ee_cumulative_supply = (\<Sum>k = 1..y. emission_at_year k)\<rparr>)
       [1..<EMISSION_HALT_YEAR + 1]"
  unfolding emission_schedule_def emission_schedule_prefix by simp

subsection \<open>Facts on genesis\<close>

lemma compute_genesis_pools_max:
  "compute_genesis_pools OIKOS_MAX_SUPPLY =
     Some \<lparr>gp_total_allocated = OIKOS_MAX_SUPPLY, gp_validator = 400000000 * 10 ^ 18,
           gp_treasury = 300000000 * 10 ^ 18, gp_ecosystem = 200000000 * 10 ^ 18,
           gp_team = 100000000 * 10 ^ 18\<rparr>"
  by (simp add: compute_genesis_pools_def genesis_pool_def genesis_consts OIKOS_MAX_SUPPLY_def
      checked_mul_def checked_div_def checked_add_def)

lemma genesis_pool_bounds:
  assumes "cap \<le> OIKOS_MAX_SUPPLY" and "bp \<le> 10000"
  shows "genesis_pool cap bp = Some (cap * bp div 10000)"
proof -
  have "cap * bp \<le> OIKOS_MAX_SUPPLY * 10000" by (rule mult_le_mono) fact+
  also have "\<dots> < 2 ^ 128" by (simp add: OIKOS_MAX_SUPPLY_def)
  finally show ?thesis by (simp add: genesis_pool_def checked_mul_def checked_div_def)
qed

text \<open>
  The four pools never hand out more than the supply cap, and lose at most three base units
  to rounding.
\<close>

lemma genesis_pools_conserve:
  assumes "cap \<le> OIKOS_MAX_SUPPLY"
  shows "\<exists>r. compute_genesis_pools cap = Some r \<and> verify_genesis_invariant r = Some True \<and>
     gp_total_allocated r \<le> cap \<and> cap \<le> gp_total_allocated r + 3"
proof -
  let ?v = "cap * 4000 div 10000" and ?t = "cap * 3000 div 10000"
  let ?e = "cap * 2000 div 10000" and ?m = "cap * 1000 div 10000"
  have sum: "?v + ?t + ?e + ?m \<le> cap" "cap \<le> ?v + ?t + ?e + ?m + 3" by linarith+
  have small: "cap < 2 ^ 128" using assms by (simp add: OIKOS_MAX_SUPPLY_def)
  have adds: "?v + ?t < 2 ^ 128" "?v + ?t + ?e < 2 ^ 128" "?v + ?t + ?e + ?m < 2 ^ 128"
    using sum small by linarith+
  let ?r = "\<lparr>gp_total_allocated = ?v + ?t + ?e + ?m, gp_validator = ?v, gp_treasury = ?t,
             gp_ecosystem = ?e, gp_team = ?m\<rparr>"
  have "compute_genesis_pools cap = Some ?r"
    using adds unfolding compute_genesis_pools_def genesis_consts
    by (simp add: genesis_pool_bounds [OF assms] checked_add_def)
  moreover have "verify_genesis_invariant ?r = Some True"
    using adds sum(1) assms unfolding verify_genesis_invariant_def
    by (simp add: checked_add_def)
  ultimately show ?thesis using sum by auto
qed

lemma vested_amount_value:
  assumes "ga_amount g \<le> OIKOS_MAX_SUPPLY" and "fits 32 (ga_vesting_months g)"
  shows "vested_amount g =
    Some (if ga_vesting_months g = 0 then ga_amount g
          else ga_amount g * min (ga_months_vested g) (ga_vesting_months g)
                 div ga_vesting_months g)"
proof -
  have "ga_amount g * min (ga_months_vested g) (ga_vesting_months g)
      \<le> OIKOS_MAX_SUPPLY * 2 ^ 32"
    using assms by (intro mult_le_mono) (auto simp: fits_def)
  also have "\<dots> < 2 ^ 128" by (simp add: OIKOS_MAX_SUPPLY_def)
  finally show ?thesis
    by (simp add: vested_amount_def checked_mul_def checked_div_def)
qed

end
