(* ===== verification/Conservation.thy ===== *)
theory Conservation
  imports Ledger
begin

text \<open>
  \<open>TotalValueConservation\<close> (\<open>koinon-ledger/src/invariant.rs\<close>): the tracker of minted,
  burned, staked, circulating and treasury amounts. Each \<open>record_*\<close> method returns the
  tracker it leaves behind together with its Boolean result; a failing method may have
  changed the tracker already, as in the code.
\<close>

record tvc =
  minted :: oikos
  burned :: oikos
  total_oikos :: oikos
  total_staked :: oikos
  total_circulating_oikos :: oikos
  total_treasury_oikos :: oikos
  total_koin :: nat
  total_circulating_koin :: nat
  total_treasury_koin :: nat

definition tvc_new :: tvc where
  "tvc_new = \<lparr>minted = 0, burned = 0, total_oikos = 0, total_staked = 0,
     total_circulating_oikos = 0, total_treasury_oikos = 0, total_koin = 0,
     total_circulating_koin = 0, total_treasury_koin = 0\<rparr>"

definition net_supply :: "tvc \<Rightarrow> oikos option" where
  "net_supply t = checked_sub (minted t) (burned t)"

definition check_invariant :: "tvc \<Rightarrow> bool" where
  "check_invariant t \<longleftrightarrow> minted t \<ge> burned t"

definition oikos_sum :: "tvc \<Rightarrow> nat option" where
  "oikos_sum t = Option.bind (checked_add 128 (total_staked t) (total_circulating_oikos t))
     (\<lambda>v. checked_add 128 v (total_treasury_oikos t))"

definition koin_sum :: "tvc \<Rightarrow> nat option" where
  "koin_sum t = checked_add 128 (total_circulating_koin t) (total_treasury_koin t)"

definition check_full_invariant :: "tvc \<Rightarrow> bool" where
  "check_full_invariant t =
     (case oikos_sum t of
        None \<Rightarrow> False
      | Some os \<Rightarrow>
          let oikos_equation = (total_oikos t = os) in
          (case koin_sum t of
             None \<Rightarrow> False
           | Some ks \<Rightarrow>
               let koin_equation = (total_koin t = ks);
                   supply_ok = (saturating_sub (minted t) (burned t) \<le> OIKOS_MAX_SUPPLY)
               in oikos_equation \<and> koin_equation \<and> supply_ok))"

datatype invariant_error =
    OikosOverflow nat nat nat
  | OikosMismatch nat nat
  | KoinOverflow nat nat
  | KoinMismatch nat nat
  | BurnedExceedsMinted nat nat
  | SupplyExceedsMax nat nat

definition check_full_invariant_ok :: "tvc \<Rightarrow> invariant_error + unit" where
  "check_full_invariant_ok t =
     (case oikos_sum t of
        None \<Rightarrow> Inl (OikosOverflow (total_staked t) (total_circulating_oikos t)
                        (total_treasury_oikos t))
      | Some os \<Rightarrow>
          if total_oikos t \<noteq> os then Inl (OikosMismatch (total_oikos t) os)
          else (case koin_sum t of
            None \<Rightarrow> Inl (KoinOverflow (total_circulating_koin t) (total_treasury_koin t))
          | Some ks \<Rightarrow>
              if total_koin t \<noteq> ks then Inl (KoinMismatch (total_koin t) ks)
              else (case checked_sub (minted t) (burned t) of
                None \<Rightarrow> Inl (BurnedExceedsMinted (minted t) (burned t))
              | Some supply \<Rightarrow>
                  if supply > OIKOS_MAX_SUPPLY
                  then Inl (SupplyExceedsMax supply OIKOS_MAX_SUPPLY)
                  else Inr ())))"

definition record_mint :: "tvc \<Rightarrow> oikos \<Rightarrow> tvc \<times> bool" where
  "record_mint t amount =
     (case checked_add 128 (minted t) amount of
        None \<Rightarrow> (t, False)
      | Some new_minted \<Rightarrow>
          if new_minted > OIKOS_MAX_SUPPLY then (t, False)
          else let t' = t\<lparr>minted := new_minted\<rparr> in
            (case checked_add 128 (total_oikos t') amount of
               Some v \<Rightarrow> (t'\<lparr>total_oikos := v\<rparr>, True)
             | None \<Rightarrow> (t', False)))"

definition record_burn :: "tvc \<Rightarrow> oikos \<Rightarrow> tvc \<times> bool" where
  "record_burn t amount =
     (case checked_add 128 (burned t) amount of
        Some new \<Rightarrow>
          let t' = t\<lparr>burned := new,
                     total_circulating_oikos :=
                       saturating_sub (total_circulating_oikos t) amount\<rparr>
          in (t', check_invariant t')
      | None \<Rightarrow> (t, False))"

definition record_stake :: "tvc \<Rightarrow> oikos \<Rightarrow> tvc \<times> bool" where
  "record_stake t amount =
     (case (checked_add 128 (total_staked t) amount,
            checked_sub (total_circulating_oikos t) amount) of
        (Some new_staked, Some new_circ) \<Rightarrow>
          (t\<lparr>total_staked := new_staked, total_circulating_oikos := new_circ\<rparr>, True)
      | _ \<Rightarrow> (t, False))"

definition record_unstake :: "tvc \<Rightarrow> oikos \<Rightarrow> tvc \<times> bool" where
  "record_unstake t amount =
     (case (checked_sub (total_staked t) amount,
            checked_add 128 (total_circulating_oikos t) amount) of
        (Some new_staked, Some new_circ) \<Rightarrow>
          (t\<lparr>total_staked := new_staked, total_circulating_oikos := new_circ\<rparr>, True)
      | _ \<Rightarrow> (t, False))"

definition record_treasury_oikos :: "tvc \<Rightarrow> oikos \<Rightarrow> tvc \<times> bool" where
  "record_treasury_oikos t amount =
     (case checked_add 128 (total_treasury_oikos t) amount of
        Some new \<Rightarrow> (t\<lparr>total_treasury_oikos := new\<rparr>, True)
      | None \<Rightarrow> (t, False))"

definition record_treasury_koin :: "tvc \<Rightarrow> nat \<Rightarrow> tvc \<times> bool" where
  "record_treasury_koin t amount =
     (case checked_add 128 (total_treasury_koin t) amount of
        Some new \<Rightarrow> (t\<lparr>total_treasury_koin := new\<rparr>, True)
      | None \<Rightarrow> (t, False))"

definition record_circulating_koin :: "tvc \<Rightarrow> nat \<Rightarrow> tvc \<times> bool" where
  "record_circulating_koin t amount =
     (case checked_add 128 (total_circulating_koin t) amount of
        Some new \<Rightarrow> (t\<lparr>total_circulating_koin := new\<rparr>, True)
      | None \<Rightarrow> (t, False))"

definition record_koin_mint :: "tvc \<Rightarrow> nat \<Rightarrow> tvc \<times> bool" where
  "record_koin_mint t amount =
     (case checked_add 128 (total_koin t) amount of
        None \<Rightarrow> (t, False)
      | Some new_total \<Rightarrow>
          (case checked_add 128 (total_circulating_koin t) amount of
             None \<Rightarrow> (t, False)
           | Some new_circ \<Rightarrow>
               (t\<lparr>total_koin := new_total, total_circulating_koin := new_circ\<rparr>, True)))"

definition record_koin_burn :: "tvc \<Rightarrow> nat \<Rightarrow> tvc \<times> bool" where
  "record_koin_burn t amount =
     (case checked_sub (total_koin t) amount of
        None \<Rightarrow> (t, False)
      | Some new_total \<Rightarrow>
          (case checked_sub (total_circulating_koin t) amount of
             None \<Rightarrow> (t, False)
           | Some new_circ \<Rightarrow>
               (t\<lparr>total_koin := new_total, total_circulating_koin := new_circ\<rparr>, True)))"

text \<open>The tracker's methods as the operations of a component.\<close>

datatype tvc_op =
    OpMint oikos | OpBurn oikos | OpStake oikos | OpUnstake oikos | OpTreasuryOikos oikos
  | OpTreasuryKoin nat | OpCirculatingKoin nat | OpKoinMint nat | OpKoinBurn nat

fun tvc_apply :: "tvc \<Rightarrow> tvc_op \<Rightarrow> tvc \<times> bool" where
  "tvc_apply t (OpMint a) = record_mint t a"
| "tvc_apply t (OpBurn a) = record_burn t a"
| "tvc_apply t (OpStake a) = record_stake t a"
| "tvc_apply t (OpUnstake a) = record_unstake t a"
| "tvc_apply t (OpTreasuryOikos a) = record_treasury_oikos t a"
| "tvc_apply t (OpTreasuryKoin a) = record_treasury_koin t a"
| "tvc_apply t (OpCirculatingKoin a) = record_circulating_koin t a"
| "tvc_apply t (OpKoinMint a) = record_koin_mint t a"
| "tvc_apply t (OpKoinBurn a) = record_koin_burn t a"

definition tvc_step :: "tvc \<Rightarrow> tvc_op \<Rightarrow> tvc panics" where
  "tvc_step t a = Some (fst (tvc_apply t a))"

subsection \<open>Well-formedness and the supply cap\<close>

lemmas record_defs =
  record_mint_def record_burn_def record_stake_def record_unstake_def
  record_treasury_oikos_def record_treasury_koin_def record_circulating_koin_def
  record_koin_mint_def record_koin_burn_def

definition tvc_bounded :: "tvc \<Rightarrow> bool" where
  "tvc_bounded t \<longleftrightarrow>
     fits 128 (minted t) \<and> fits 128 (burned t) \<and> fits 128 (total_oikos t) \<and>
     fits 128 (total_staked t) \<and> fits 128 (total_circulating_oikos t) \<and>
     fits 128 (total_treasury_oikos t) \<and> fits 128 (total_koin t) \<and>
     fits 128 (total_circulating_koin t) \<and> fits 128 (total_treasury_koin t)"

definition tvc_capped :: "tvc \<Rightarrow> bool" where
  "tvc_capped t \<longleftrightarrow> tvc_bounded t \<and> minted t \<le> OIKOS_MAX_SUPPLY"

lemma tvc_apply_bounded: "tvc_bounded t \<Longrightarrow> tvc_bounded (fst (tvc_apply t a))"
  by (cases a)
    (auto simp: record_defs tvc_bounded_def fits_def Let_def
      intro: le_less_trans [OF diff_le_self] split: option.split)

lemma tvc_apply_minted:
  "minted t \<le> OIKOS_MAX_SUPPLY \<Longrightarrow> minted (fst (tvc_apply t a)) \<le> OIKOS_MAX_SUPPLY"
  by (cases a) (auto simp: record_defs Let_def split: option.split)

lemma tvc_apply_minted_mono: "minted t \<le> minted (fst (tvc_apply t a))"
  by (cases a) (auto simp: record_defs Let_def split: option.split)

lemma tvc_new_capped: "tvc_capped tvc_new"
  by (simp add: tvc_capped_def tvc_bounded_def tvc_new_def fits_def)

interpretation tracker: total_component tvc_step tvc_capped
  by unfold_locales (auto simp: tvc_step_def tvc_capped_def tvc_apply_bounded tvc_apply_minted)

interpretation tracker_supply: monotone_component tvc_step tvc_capped minted
  by unfold_locales (auto simp: tvc_step_def tvc_apply_minted_mono)

subsection \<open>The full invariant\<close>

lemma check_full_invariant_iff:
  "check_full_invariant t \<longleftrightarrow>
     total_staked t + total_circulating_oikos t + total_treasury_oikos t < 2 ^ 128 \<and>
     total_oikos t = total_staked t + total_circulating_oikos t + total_treasury_oikos t \<and>
     total_circulating_koin t + total_treasury_koin t < 2 ^ 128 \<and>
     total_koin t = total_circulating_koin t + total_treasury_koin t \<and>
     minted t - burned t \<le> OIKOS_MAX_SUPPLY"
  by (auto simp: check_full_invariant_def oikos_sum_def koin_sum_def checked_add_def Let_def
      split: option.splits)

lemma check_full_invariant_ok_iff:
  "check_full_invariant_ok t = Inr () \<longleftrightarrow> check_full_invariant t \<and> check_invariant t"
  unfolding check_full_invariant_iff check_full_invariant_ok_def check_invariant_def
  by (auto simp: oikos_sum_def koin_sum_def checked_add_def checked_sub_def split: option.splits)

lemma record_stake_full: "check_full_invariant t \<Longrightarrow> check_full_invariant (fst (record_stake t a))"
  by (auto simp: record_stake_def check_full_invariant_iff split: option.split)

lemma record_unstake_full:
  "check_full_invariant t \<Longrightarrow> check_full_invariant (fst (record_unstake t a))"
  by (auto simp: record_unstake_def check_full_invariant_iff split: option.split)

lemma record_koin_mint_full:
  "check_full_invariant t \<Longrightarrow> check_full_invariant (fst (record_koin_mint t a))"
  by (auto simp: record_koin_mint_def check_full_invariant_iff split: option.split)

lemma record_koin_burn_full:
  "check_full_invariant t \<Longrightarrow> check_full_invariant (fst (record_koin_burn t a))"
  by (auto simp: record_koin_burn_def check_full_invariant_iff split: option.split)

text \<open>
  The four transfers that name both sides of a movement keep the full invariant, so a run
  of them does.
\<close>

fun is_transfer :: "tvc_op \<Rightarrow> bool" where
  "is_transfer (OpStake _) = True"
| "is_transfer (OpUnstake _) = True"
| "is_transfer (OpKoinMint _) = True"
| "is_transfer (OpKoinBurn _) = True"
| "is_transfer _ = False"

definition tvc_transfer_step :: "tvc \<Rightarrow> tvc_op \<Rightarrow> tvc panics" where
  "tvc_transfer_step t a = (if is_transfer a then tvc_step t a else Some t)"

interpretation transfers: total_component tvc_transfer_step check_full_invariant
proof unfold_locales
  fix t a t'
  assume "check_full_invariant t" and "tvc_transfer_step t a = Some t'"
  then show "check_full_invariant t'"
    by (cases a) (auto simp: tvc_transfer_step_def tvc_step_def record_stake_full
        record_unstake_full record_koin_mint_full record_koin_burn_full)
next
  fix t a
  show "tvc_transfer_step t a \<noteq> None"
    by (simp add: tvc_transfer_step_def tvc_step_def)
qed

lemma run_transfers:
  "list_all is_transfer ops \<Longrightarrow> run_ops tvc_step t ops = run_ops tvc_transfer_step t ops"
  by (induction ops arbitrary: t) (auto simp: tvc_transfer_step_def split: option.split)

subsection \<open>Properties\<close>

text \<open>
  Whatever sequence of \<open>record_*\<close> calls a client makes on a fresh tracker, no call
  panics, every amount stays within 128 bits, the minted total never exceeds the cap of
  \<open>10^27\<close> base units, and further calls never decrease it.
\<close>

theorem tvc_run_capped:
  "\<exists>t1 t2. run_ops tvc_step tvc_new ops1 = Some t1 \<and> run_ops tvc_step t1 ops2 = Some t2 \<and>
     tvc_bounded t2 \<and> minted t1 \<le> minted t2 \<and> minted t2 \<le> OIKOS_MAX_SUPPLY"
proof -
  obtain t1 where t1: "run_ops tvc_step tvc_new ops1 = Some t1" "tvc_capped t1"
    using tracker.run_total [OF tvc_new_capped] by blast
  obtain t2 where t2: "run_ops tvc_step t1 ops2 = Some t2" "tvc_capped t2"
    using tracker.run_total [OF t1(2)] by blast
  from tracker_supply.run_mono [OF t1(2) t2(1)] t1 t2 show ?thesis
    by (auto simp: tvc_capped_def)
qed

text \<open>
  C35. From a tracker that satisfies the full conservation equation, any sequence of stake,
  unstake, Koin-mint and Koin-burn records, successful or failing, leaves a tracker that
  satisfies it again.
\<close>

theorem tvc_transfers_conserve:
  assumes "check_full_invariant t" and "list_all is_transfer ops"
  shows "\<exists>t'. run_ops tvc_step t ops = Some t' \<and> check_full_invariant t'"
  using transfers.run_total [OF assms(1)] run_transfers [OF assms(2)] by simp

theorem tvc_transfers_conserve_witness:
  "\<exists>t'. run_ops tvc_step tvc_new [OpKoinMint 5, OpKoinBurn 7, OpKoinBurn 2] = Some t' \<and>
     check_full_invariant t'"
  by (rule tvc_transfers_conserve)
    (simp_all add: check_full_invariant_iff tvc_new_def OIKOS_MAX_SUPPLY_def)

text \<open>
  \<open>check_full_invariant_ok\<close> accepts exactly the trackers that both
  \<open>check_full_invariant\<close> and \<open>check_invariant\<close> accept: the two checks differ only where
  more was burned than minted.
\<close>

theorem full_invariant_checks_agree:
  "(check_full_invariant_ok t = Inr ()) = (check_full_invariant t \<and> check_invariant t)"
  by (rule check_full_invariant_ok_iff)

text \<open>
  A mint or burn of a positive amount on its own breaks the full conservation
  equation: \<open>record_mint\<close> adds to \<open>total_oikos\<close> without placing the amount in a bucket, and
  \<open>record_burn\<close> takes it from circulation without lowering \<open>total_oikos\<close>. Booking a
  successful mint to the treasury restores the equation.
\<close>

theorem mint_burn_imbalance:
  assumes "check_full_invariant t" and "0 < a"
  shows "(snd (record_mint t a) \<longrightarrow>
      \<not> check_full_invariant (fst (record_mint t a)) \<and>
      check_full_invariant (fst (record_treasury_oikos (fst (record_mint t a)) a))) \<and>
    (0 < total_circulating_oikos t \<and> snd (record_burn t a) \<longrightarrow>
      \<not> check_full_invariant (fst (record_burn t a)))"
  using assms
  by (auto simp: record_mint_def record_burn_def record_treasury_oikos_def
      check_full_invariant_iff Let_def split: option.splits if_splits)

theorem mint_burn_imbalance_witness:
  "check_full_invariant tvc_new \<and> snd (record_mint tvc_new 100) \<and>
   \<not> check_full_invariant (fst (record_mint tvc_new 100)) \<and>
   check_full_invariant (fst (record_treasury_oikos (fst (record_mint tvc_new 100)) 100))"
proof -
  have "check_full_invariant tvc_new" "snd (record_mint tvc_new 100)"
    by (simp_all add: check_full_invariant_iff tvc_new_def record_mint_def checked_add_def
        OIKOS_MAX_SUPPLY_def)
  then show ?thesis using mint_burn_imbalance [of tvc_new 100] by simp
qed

end
