(* ===== verification/Fees.thy ===== *)
theory Fees
  imports Ledger
begin

text \<open>
  Gas pricing (\<open>koinon-gas\<close>) and the split of collected fees (\<open>koinon-fee\<close>). The reported
  percentages of a split (\<open>burn_pct\<close> and its siblings, in \<open>f64\<close>) are display helpers and
  are not modelled.
\<close>

subsection \<open>Gas (config.rs, pricing.rs)\<close>

record gas_config =
  base_cost :: nat
  per_step :: nat
  per_storage_byte :: nat

definition gas_config_default :: gas_config where
  "gas_config_default = \<lparr>base_cost = 1000, per_step = 10, per_storage_byte = 100\<rparr>"

definition gas_config_new :: "nat \<Rightarrow> nat \<Rightarrow> nat \<Rightarrow> gas_config" where
  "gas_config_new b s p = \<lparr>base_cost = b, per_step = s, per_storage_byte = p\<rparr>"

definition calculate_gas_with_config :: "gas_config \<Rightarrow> nat \<Rightarrow> nat \<Rightarrow> nat" where
  "calculate_gas_with_config config steps storage_bytes =
     saturating_add 64
       (saturating_add 64 (base_cost config) (saturating_mul 64 steps (per_step config)))
       (saturating_mul 64 storage_bytes (per_storage_byte config))"

definition calculate_gas :: "nat \<Rightarrow> nat \<Rightarrow> nat" where
  "calculate_gas steps storage_bytes =
     calculate_gas_with_config gas_config_default steps storage_bytes"

subsection \<open>Fee configuration (config.rs)\<close>

record fee_config =
  burn_pct :: nat
  validator_pct :: nat
  treasury_pct :: nat

definition fee_config_default :: fee_config where
  "fee_config_default = \<lparr>burn_pct = 70, validator_pct = 20, treasury_pct = 10\<rparr>"

definition fee_config_new :: "nat \<Rightarrow> nat \<Rightarrow> nat \<Rightarrow> fee_config option panics" where
  "fee_config_new b v t = do {
     s1 \<leftarrow> checked_add 32 b v;
     s2 \<leftarrow> checked_add 32 s1 t;
     Some (if s2 \<noteq> 100 then None
           else Some \<lparr>burn_pct = b, validator_pct = v, treasury_pct = t\<rparr>)
   }"

definition fee_config_validate :: "fee_config \<Rightarrow> bool panics" where
  "fee_config_validate c = do {
     s1 \<leftarrow> checked_add 32 (burn_pct c) (validator_pct c);
     s2 \<leftarrow> checked_add 32 s1 (treasury_pct c);
     Some (s2 = 100)
   }"

subsection \<open>Fee split (split.rs)\<close>

record fee_split =
  fs_burn :: koin
  fs_validator :: koin
  fs_treasury :: koin

definition fee_split_from_config :: "fee_config \<Rightarrow> koin \<Rightarrow> fee_split panics" where
  "fee_split_from_config config fee =
     (let raw = fee in
      if raw < 0 then Some \<lparr>fs_burn = 0, fs_validator = 0, fs_treasury = 0\<rparr>
      else do {
        bp \<leftarrow> ichecked_mul 128 raw (int (burn_pct config));
        let burn = bp div 100;
        vp \<leftarrow> ichecked_mul 128 raw (int (validator_pct config));
        let validator = vp div 100;
        r1 \<leftarrow> ichecked_sub 128 raw burn;
        treasury \<leftarrow> ichecked_sub 128 r1 validator;
        Some \<lparr>fs_burn = burn, fs_validator = validator, fs_treasury = treasury\<rparr>
      })"

definition fee_split_from_total :: "koin \<Rightarrow> fee_split panics" where
  "fee_split_from_total fee = fee_split_from_config fee_config_default fee"

definition fee_split_total :: "fee_split \<Rightarrow> koin panics" where
  "fee_split_total s = do {
     a \<leftarrow> ichecked_add 128 (fs_burn s) (fs_validator s);
     ichecked_add 128 a (fs_treasury s)
   }"

definition fee_split_check_conservation :: "fee_split \<Rightarrow> koin \<Rightarrow> bool panics" where
  "fee_split_check_conservation s fee_paid = do {
     distributed \<leftarrow> fee_split_total s;
     Some (fee_paid = distributed)
   }"

subsection \<open>Facts\<close>

lemma calculate_gas_with_config_eq:
  "calculate_gas_with_config c steps storage =
     min (base_cost c + steps * per_step c + storage * per_storage_byte c) (2 ^ 64 - 1)"
  by (auto simp: calculate_gas_with_config_def saturating_add_def saturating_mul_def min_def)

lemma fee_split_shape:
  assumes "fee_split_from_config c fee = Some s" and "0 \<le> fee"
  shows "fs_burn s = fee * int (burn_pct c) div 100"
    and "fs_validator s = fee * int (validator_pct c) div 100"
    and "fs_treasury s = fee - fs_burn s - fs_validator s"
  using assms
  by (auto simp: fee_split_from_config_def ichecked_mul_def ichecked_sub_def Let_def
      bind_eq_Some_conv)

lemma fee_split_defined:
  assumes fee: "0 \<le> fee"
    and pcts: "burn_pct c + validator_pct c \<le> 100"
    and small: "fee * 100 < 2 ^ 127"
  shows "\<exists>s. fee_split_from_config c fee = Some s"
proof -
  have mono: "fee * int p \<le> fee * 100" if "p \<le> 100" for p
    using fee that by (intro mult_left_mono) auto
  have ok: "ifits 128 (fee * int (burn_pct c))" "ifits 128 (fee * int (validator_pct c))"
    using mono [of "burn_pct c"] mono [of "validator_pct c"] small fee pcts
    by (auto simp: ifits_def order_trans [of _ 0] intro: order_trans [of _ "0::int"])
  have nonneg: "0 \<le> fee * int (burn_pct c) div 100" "0 \<le> fee * int (validator_pct c) div 100"
    using fee by (simp_all add: pos_imp_zdiv_nonneg_iff)
  have "fee * int (burn_pct c) + fee * int (validator_pct c) \<le> fee * 100"
    using mono [of "burn_pct c + validator_pct c"] pcts by (simp add: distrib_left)
  then have "fee * int (burn_pct c) div 100 + fee * int (validator_pct c) div 100 \<le> fee"
    by linarith
  with ok nonneg fee small show ?thesis
    by (auto simp: fee_split_from_config_def ichecked_mul_def ichecked_sub_def ichecked_def
        ifits_def Let_def)
qed

subsection \<open>Properties\<close>

text \<open>
  Splitting a non-negative fee under a configuration whose burn and validator shares
  total at most 100 percent never panics while the fee stays below \<open>2^127 / 100\<close>, every part
  is non-negative, the parts add up to exactly the fee paid (rounding goes to the treasury),
  and the code's own conservation check accepts the split.
\<close>

theorem fee_split_conserves:
  assumes "0 \<le> fee" and "burn_pct c + validator_pct c \<le> 100" and "fee * 100 < 2 ^ 127"
  shows "\<exists>s. fee_split_from_config c fee = Some s \<and>
    0 \<le> fs_burn s \<and> 0 \<le> fs_validator s \<and> 0 \<le> fs_treasury s \<and>
    fs_burn s + fs_validator s + fs_treasury s = fee \<and>
    fee_split_check_conservation s fee = Some True"
proof -
  obtain s where s: "fee_split_from_config c fee = Some s"
    using fee_split_defined [OF assms] by blast
  note shape = fee_split_shape [OF s assms(1)]
  have nonneg: "0 \<le> fs_burn s" "0 \<le> fs_validator s"
    using assms(1) by (simp_all add: shape(1,2) pos_imp_zdiv_nonneg_iff)
  have "fee * int (burn_pct c) + fee * int (validator_pct c) \<le> fee * 100"
    using assms(1,2) mult_left_mono [of "int (burn_pct c + validator_pct c)" 100 fee]
    by (simp add: distrib_left)
  then have rest: "0 \<le> fs_treasury s"
    unfolding shape by linarith
  have "fee_split_check_conservation s fee = Some True"
    using nonneg rest shape(3) assms(1,3)
    by (auto simp: fee_split_check_conservation_def fee_split_total_def ichecked_add_def
        ichecked_def ifits_def)
  with s nonneg rest shape(3) show ?thesis by auto
qed

theorem fee_split_conserves_witness:
  "\<exists>s. fee_split_from_config fee_config_default 1005 = Some s \<and>
    0 \<le> fs_burn s \<and> 0 \<le> fs_validator s \<and> 0 \<le> fs_treasury s \<and>
    fs_burn s + fs_validator s + fs_treasury s = 1005 \<and>
    fee_split_check_conservation s 1005 = Some True"
  by (rule fee_split_conserves) (simp_all add: fee_config_default_def)

text \<open>
  The gas price is the exact linear formula \<open>base + steps * per_step + bytes *
  per_storage_byte\<close>, clipped at the largest 64-bit value: no input makes it wrap around, and
  a larger job never costs less.
\<close>

theorem gas_exact_and_monotone:
  "calculate_gas_with_config c steps storage =
     min (base_cost c + steps * per_step c + storage * per_storage_byte c) (2 ^ 64 - 1) \<and>
   calculate_gas_with_config c steps storage
     \<le> calculate_gas_with_config c (steps + more_steps) (storage + more_storage)"
proof -
  have "base_cost c + steps * per_step c + storage * per_storage_byte c
      \<le> base_cost c + (steps + more_steps) * per_step c
          + (storage + more_storage) * per_storage_byte c"
    by (simp add: distrib_right)
  then show ?thesis unfolding calculate_gas_with_config_eq
    by (meson min.mono order.refl)
qed

end
