(* ===== verification/Rewards.thy ===== *)
theory Rewards
  imports Conservation Fees
begin

text \<open>
  Block rewards (\<open>koinon-rewards\<close>): the per-block OIKOS emission and the split of the
  block's gas fees, over a processor that tracks mints in a \<open>TotalValueConservation\<close>.
\<close>

record block_reward_config =
  blocks_per_year :: nat
  min_gas_per_block :: nat

definition block_reward_config_default :: block_reward_config where
  "block_reward_config_default = \<lparr>blocks_per_year = 31536000, min_gas_per_block = 1000\<rparr>"

record block_reward =
  br_block_number :: nat
  br_year :: nat
  br_base_reward :: oikos
  br_fee_burn :: koin
  br_fee_validator :: koin
  br_fee_treasury :: koin

record block_reward_processor =
  brp_config :: block_reward_config
  brp_conservation :: tvc
  brp_current_year :: nat

datatype reward_error = ConservationViolation

definition brp_new :: "block_reward_config \<Rightarrow> block_reward_processor" where
  "brp_new config = \<lparr>brp_config = config, brp_conservation = tvc_new, brp_current_year = 1\<rparr>"

definition year_for_block :: "block_reward_processor \<Rightarrow> nat \<Rightarrow> nat" where
  "year_for_block p block_number =
     (if block_number = 0 then 0
      else let bpy = blocks_per_year (brp_config p) in
        if bpy = 0 then 0
        else let year = (block_number - 1) div bpy + 1 in
          if year > 20 then 0 else year)"

definition process_block ::
  "block_reward_processor \<Rightarrow> nat \<Rightarrow> koin
     \<Rightarrow> (block_reward_processor \<times> (reward_error + block_reward)) panics" where
  "process_block p block_number block_gas_fees = do {
     let year = year_for_block p block_number;
     let annual_emission = emission_at_year year;
     base_reward \<leftarrow> checked_div annual_emission (blocks_per_year (brp_config p));
     let (c, ok) = (if base_reward > 0 then record_mint (brp_conservation p) base_reward
                    else (brp_conservation p, True));
     let p' = p\<lparr>brp_conservation := c\<rparr>;
     if \<not> ok then Some (p', Inl ConservationViolation)
     else do {
       split \<leftarrow> fee_split_from_total block_gas_fees;
       Some (p'\<lparr>brp_current_year := year\<rparr>,
             Inr \<lparr>br_block_number = block_number, br_year = year, br_base_reward = base_reward,
                  br_fee_burn = fs_burn split, br_fee_validator = fs_validator split,
                  br_fee_treasury = fs_treasury split\<rparr>)
     }
   }"

definition brp_check_conservation :: "block_reward_processor \<Rightarrow> bool" where
  "brp_check_conservation p \<longleftrightarrow>
     check_invariant (brp_conservation p) \<and> minted (brp_conservation p) \<le> OIKOS_MAX_SUPPLY"

text \<open>A caller that processes blocks one after the other, whatever their results.\<close>

definition brp_step :: "block_reward_processor \<Rightarrow> nat \<times> koin \<Rightarrow> block_reward_processor panics" where
  "brp_step p b = map_option fst (process_block p (fst b) (snd b))"

subsection \<open>Facts\<close>

lemma process_block_Some:
  assumes "process_block p n fees = Some (p', res)"
  shows "brp_config p' = brp_config p"
    and "brp_conservation p' = brp_conservation p \<or>
         (\<exists>a. brp_conservation p' = fst (record_mint (brp_conservation p) a))"
proof -
  let ?base = "emission_at_year (year_for_block p n) div blocks_per_year (brp_config p)"
  obtain c ok where cok: "(if ?base > 0 then record_mint (brp_conservation p) ?base
      else (brp_conservation p, True)) = (c, ok)"
    by (cases "if ?base > 0 then record_mint (brp_conservation p) ?base
      else (brp_conservation p, True)")
  have "p' = p\<lparr>brp_conservation := c\<rparr> \<or>
      (\<exists>y. p' = p\<lparr>brp_conservation := c, brp_current_year := y\<rparr>)"
    using assms cok
    by (auto simp: process_block_def Let_def bind_eq_Some_conv split: if_splits)
  moreover have "c = brp_conservation p \<or> c = fst (record_mint (brp_conservation p) ?base)"
    using cok by (metis fst_conv)
  ultimately show "brp_config p' = brp_config p"
    and "brp_conservation p' = brp_conservation p \<or>
         (\<exists>a. brp_conservation p' = fst (record_mint (brp_conservation p) a))"
    by auto
qed

lemma process_block_reward:
  assumes "process_block p n fees = Some (p', Inr r)"
  shows "br_base_reward r = emission_at_year (year_for_block p n) div blocks_per_year (brp_config p)"
    and "br_year r = year_for_block p n"
    and "br_block_number r = n"
    and "\<exists>s. fee_split_from_total fees = Some s \<and> br_fee_burn r = fs_burn s \<and>
           br_fee_validator r = fs_validator s \<and> br_fee_treasury r = fs_treasury s"
  using assms
  by (auto simp: process_block_def Let_def bind_eq_Some_conv split: if_splits prod.splits)

definition brp_inv :: "block_reward_processor \<Rightarrow> bool" where
  "brp_inv p \<longleftrightarrow> tvc_capped (brp_conservation p) \<and> burned (brp_conservation p) = 0"

lemma record_mint_capped:
  "tvc_capped t \<Longrightarrow> tvc_capped (fst (record_mint t a))"
  using tracker.step_inv [of t "OpMint a"] by (simp add: tvc_step_def)

lemma record_mint_burned [simp]: "burned (fst (record_mint t a)) = burned t"
  by (auto simp: record_mint_def Let_def split: option.split)

lemma process_block_inv:
  "brp_inv p \<Longrightarrow> process_block p n fees = Some (p', res) \<Longrightarrow> brp_inv p'"
  by (auto simp: brp_inv_def dest!: process_block_Some(2) intro: record_mint_capped)

interpretation rewards: component brp_step brp_inv
  by unfold_locales (auto simp: brp_step_def intro: process_block_inv)

lemma brp_new_inv: "brp_inv (brp_new config)"
  using tvc_new_capped by (simp add: brp_inv_def brp_new_def) (simp add: tvc_new_def)

lemma default_emission_per_block:
  "emission_at_year y div 31536000 = (if 1 \<le> y \<and> y \<le> 3 then 1 else 0)"
proof (cases "4 \<le> y")
  case True
  have "emission_at_year y \<le> emission_at_year 4"
  proof (cases "y \<le> EMISSION_HALT_YEAR")
    case True
    with \<open>4 \<le> y\<close> show ?thesis
    proof (induction y rule: dec_induct)
      case base
      show ?case by simp
    next
      case (step m)
      then have "emission_at_year (Suc m) \<le> emission_at_year m"
        by (simp add: emission_at_year_decays) (simp add: emission_consts)
      with step show ?case by simp
    qed
  next
    case False
    then show ?thesis by (simp add: emission_at_year_def)
  qed
  also have "\<dots> < 31536000"
    by (simp add: emission_at_year_def emission_consts)
  finally show ?thesis using True by simp
next
  case False
  then consider "y = 0" | "y = 1" | "y = 2" | "y = 3" by linarith
  then show ?thesis
    by cases (simp_all add: emission_at_year_def emission_consts)
qed

subsection \<open>Properties\<close>

text \<open>
  C34. A reward processor that starts fresh and processes any sequence of blocks, in any
  order and with any fees, only reaches states in which its conservation check holds: what it
  minted covers what was burned and stays within the supply cap.
\<close>

theorem rewards_conservation:
  assumes "run_ops brp_step (brp_new config) blocks = Some p"
  shows "brp_check_conservation p \<and> tvc_bounded (brp_conservation p)"
  using rewards.run_inv [OF brp_new_inv assms]
  by (auto simp: brp_inv_def brp_check_conservation_def check_invariant_def tvc_capped_def)

theorem rewards_conservation_witness:
  "\<exists>p. run_ops brp_step (brp_new block_reward_config_default) [(1, 1000), (2, 0)] = Some p \<and>
     brp_check_conservation p \<and> tvc_bounded (brp_conservation p)"
proof -
  obtain p where "run_ops brp_step (brp_new block_reward_config_default) [(1, 1000), (2, 0)] = Some p"
    by (simp add: brp_step_def process_block_def brp_new_def block_reward_config_default_def
        year_for_block_def Let_def checked_div_def emission_at_year_def emission_consts
        fee_split_from_total_def fee_split_from_config_def fee_config_default_def rust_int
        record_mint_def tvc_new_def OIKOS_MAX_SUPPLY_def)
  with rewards_conservation show ?thesis by blast
qed

text \<open>
  With the default configuration the reward of a block is one base unit (\<open>10^-18\<close> OIKOS)
  in the first three years and zero ever after: the annual emission is a number of whole
  tokens, and it is divided by the blocks of a year without the \<open>10^18\<close> base units of a
  token.
\<close>

theorem default_block_reward:
  assumes "brp_config p = block_reward_config_default"
    and "process_block p n fees = Some (p', Inr r)"
  shows "br_base_reward r = (if 1 \<le> n \<and> n \<le> 3 * 31536000 then 1 else 0)"
proof -
  have "br_base_reward r = emission_at_year (year_for_block p n) div 31536000"
    using process_block_reward(1) [OF assms(2)] assms(1)
    by (simp add: block_reward_config_default_def)
  also have "\<dots> = (if 1 \<le> year_for_block p n \<and> year_for_block p n \<le> 3 then 1 else 0)"
    by (rule default_emission_per_block)
  also have "(1 \<le> year_for_block p n \<and> year_for_block p n \<le> 3) = (1 \<le> n \<and> n \<le> 3 * 31536000)"
    using assms(1) by (auto simp: year_for_block_def block_reward_config_default_def Let_def)
  finally show ?thesis .
qed

theorem default_block_reward_witness:
  "\<exists>p' r. process_block (brp_new block_reward_config_default) 5 1000 = Some (p', Inr r) \<and>
     br_base_reward r = 1"
proof -
  obtain p' r where "process_block (brp_new block_reward_config_default) 5 1000 = Some (p', Inr r)"
    by (simp add: process_block_def brp_new_def block_reward_config_default_def
        year_for_block_def Let_def checked_div_def emission_at_year_def emission_consts
        fee_split_from_total_def fee_split_from_config_def fee_config_default_def rust_int
        record_mint_def tvc_new_def OIKOS_MAX_SUPPLY_def)
  with default_block_reward [of "brp_new block_reward_config_default" 5 1000 p' r] show ?thesis
    by (auto simp: brp_new_def)
qed

text \<open>
  \<open>process_block\<close> panics exactly when the configured number of blocks per year is zero
  (the division is not guarded, although the year lookup is) or when the fee times 70 leaves
  the range of \<open>i128\<close>, unless the mint was already refused.
\<close>

theorem process_block_panics_iff:
  assumes "ifits 128 fees"
  shows "process_block p n fees = None \<longleftrightarrow>
     blocks_per_year (brp_config p) = 0 \<or>
     (2 ^ 127 \<le> fees * 70 \<and>
      (let b = emission_at_year (year_for_block p n) div blocks_per_year (brp_config p)
       in 0 < b \<longrightarrow> snd (record_mint (brp_conservation p) b)))"
proof -
  have split: "fee_split_from_total fees = None \<longleftrightarrow> 2 ^ 127 \<le> fees * 70"
  proof (cases "0 \<le> fees")
    case True
    then have "0 \<le> fees * 70 div 100" "0 \<le> fees * 20 div 100"
      "fees * 70 div 100 + fees * 20 div 100 \<le> fees"
      by linarith+
    with True assms show ?thesis
      by (auto simp: fee_split_from_total_def fee_split_from_config_def fee_config_default_def
          rust_int Let_def)
  next
    case False
    then show ?thesis
      by (simp add: fee_split_from_total_def fee_split_from_config_def)
  qed
  show ?thesis
  proof (cases "blocks_per_year (brp_config p) = 0")
    case True
    then show ?thesis by (simp add: process_block_def checked_div_def)
  next
    case False
    then show ?thesis
      by (auto simp: process_block_def checked_div_def Let_def split bind_eq_None_conv
          split: prod.splits if_splits)
  qed
qed

theorem process_block_panics_iff_witness:
  "process_block (brp_new \<lparr>blocks_per_year = 0, min_gas_per_block = 1000\<rparr>) 1 0 = None"
proof -
  have "ifits 128 0" by (simp add: ifits_def)
  from process_block_panics_iff [OF this] show ?thesis by (simp add: brp_new_def)
qed

end
