(* ===== verification/Rust_Maps.thy ===== *)
theory Rust_Maps
  imports Prelude "HOL-Library.AList"
begin

text \<open>
  The vectors and the two map types of the Rust standard library that the program uses.

  A \<open>HashMap\<close> is an association list with distinct keys: the list is the map together with
  the order in which an iteration visits it. Rust leaves that order unspecified; a theorem
  that holds for every such list holds for every iteration order. Writing through
  \<open>get_mut\<close> and overwriting a present key keep the order. A \<open>HashSet\<close> is in the same way a list
  without duplicates, in iteration order.

  A \<open>BTreeMap\<close> is an association list sorted strictly by key, so iteration is in key
  order.

  Both meet the contract \<open>kv_map\<close>: lookups after insertion and removal, and the
  representation invariant kept by every operation.
\<close>

subsection \<open>Vectors\<close>

text \<open>Access by index, insertion, removal and splitting of a \<open>Vec\<close>: \<open>None\<close> is the panic out of range.\<close>

definition vec_get :: "'a list \<Rightarrow> nat \<Rightarrow> 'a panics" where
  "vec_get xs i = (if i < length xs then Some (xs ! i) else None)"

definition vec_insert :: "nat \<Rightarrow> 'a \<Rightarrow> 'a list \<Rightarrow> 'a list panics" where
  "vec_insert i x xs = (if i \<le> length xs then Some (take i xs @ x # drop i xs) else None)"

definition vec_remove :: "nat \<Rightarrow> 'a list \<Rightarrow> ('a \<times> 'a list) panics" where
  "vec_remove i xs = (if i < length xs then Some (xs ! i, take i xs @ drop (Suc i) xs) else None)"

definition vec_split_off :: "nat \<Rightarrow> 'a list \<Rightarrow> ('a list \<times> 'a list) panics" where
  "vec_split_off i xs = (if i \<le> length xs then Some (take i xs, drop i xs) else None)"

text \<open>The first position of an element with a property, as \<open>Iterator::position\<close>.\<close>

fun position :: "('a \<Rightarrow> bool) \<Rightarrow> 'a list \<Rightarrow> nat option" where
  "position P [] = None"
| "position P (x # xs) = (if P x then Some 0 else map_option Suc (position P xs))"

lemma position_Some: "position P xs = Some i \<longleftrightarrow> i < length xs \<and> P (xs ! i) \<and> (\<forall>j < i. \<not> P (xs ! j))"
proof (induction xs arbitrary: i)
  case (Cons x xs)
  show ?case
  proof (cases i)
    case (Suc k)
    with Cons show ?thesis by (auto simp: less_Suc_eq_0_disj)
  qed auto
qed simp

lemma position_None: "position P xs = None \<longleftrightarrow> (\<forall>x \<in> set xs. \<not> P x)"
  by (induction xs) auto

lemma position_less: "position P xs = Some i \<Longrightarrow> i < length xs"
  by (simp add: position_Some)

lemma position_SomeD: "position P xs = Some i \<Longrightarrow> i < length xs \<and> P (xs ! i)"
  by (simp add: position_Some)

subsection \<open>Formatting\<close>

fun nat_to_string :: "nat \<Rightarrow> string" where
  "nat_to_string n = (if n < 10 then [char_of (48 + n)] else nat_to_string (n div 10) @ [char_of (48 + n mod 10)])"

declare nat_to_string.simps [simp del]

definition int_to_string :: "int \<Rightarrow> string" where
  "int_to_string i = (if i < 0 then ''-'' @ nat_to_string (nat (- i)) else nat_to_string (nat i))"

fun comma_join :: "string list \<Rightarrow> string" where
  "comma_join [] = ''''"
| "comma_join [x] = x"
| "comma_join (x # y # xs) = x @ '', '' @ comma_join (y # xs)"

subsection \<open>The contract of a map\<close>

locale kv_map =
  fixes empty_m :: "'m"
    and get_m :: "'m \<Rightarrow> 'k \<Rightarrow> 'v option"
    and insert_m :: "'k \<Rightarrow> 'v \<Rightarrow> 'm \<Rightarrow> 'm"
    and remove_m :: "'k \<Rightarrow> 'm \<Rightarrow> 'm"
    and wf_m :: "'m \<Rightarrow> bool"
  assumes get_empty: "get_m empty_m k = None"
    and get_insert: "wf_m m \<Longrightarrow> get_m (insert_m k v m) = (get_m m)(k \<mapsto> v)"
    and get_remove: "wf_m m \<Longrightarrow> get_m (remove_m k m) = (get_m m)(k := None)"
    and wf_empty: "wf_m empty_m"
    and wf_insert: "wf_m m \<Longrightarrow> wf_m (insert_m k v m)"
    and wf_remove: "wf_m m \<Longrightarrow> wf_m (remove_m k m)"
begin

lemma insert_all:
  "wf_m m \<Longrightarrow> wf_m (foldl (\<lambda>m (k, v). insert_m k v m) m kvs) \<and>
     get_m (foldl (\<lambda>m (k, v). insert_m k v m) m kvs) = get_m m ++ map_of (rev kvs)"
proof (induction kvs arbitrary: m)
  case Nil
  then show ?case by simp
next
  case (Cons kv kvs)
  obtain k v where kv: "kv = (k, v)" by (cases kv)
  from Cons.prems have "wf_m (insert_m k v m)" by (rule wf_insert)
  from Cons.IH [OF this] Cons.prems kv show ?case
    by (auto simp: get_insert map_add_def fun_eq_iff split: option.splits)
qed

lemma insert_remove_same: "wf_m m \<Longrightarrow> get_m (remove_m k (insert_m k v m)) k = None"
  by (simp add: get_remove wf_insert)

lemma dom_insert: "wf_m m \<Longrightarrow> dom (get_m (insert_m k v m)) = insert k (dom (get_m m))"
  by (simp add: get_insert)

end

subsection \<open>HashMap\<close>

type_synonym ('k, 'v) hmap = "('k \<times> 'v) list"

definition hm_wf :: "('k, 'v) hmap \<Rightarrow> bool" where
  "hm_wf m \<longleftrightarrow> distinct (map fst m)"

definition hm_get :: "('k, 'v) hmap \<Rightarrow> 'k \<Rightarrow> 'v option" where
  "hm_get m k = map_of m k"

definition hm_insert :: "'k \<Rightarrow> 'v \<Rightarrow> ('k, 'v) hmap \<Rightarrow> ('k, 'v) hmap" where
  "hm_insert k v m = AList.update k v m"

definition hm_remove :: "'k \<Rightarrow> ('k, 'v) hmap \<Rightarrow> ('k, 'v) hmap" where
  "hm_remove k m = AList.delete k m"

definition hm_contains :: "('k, 'v) hmap \<Rightarrow> 'k \<Rightarrow> bool" where
  "hm_contains m k \<longleftrightarrow> hm_get m k \<noteq> None"

definition hm_keys :: "('k, 'v) hmap \<Rightarrow> 'k list" where
  "hm_keys m = map fst m"

definition hm_values :: "('k, 'v) hmap \<Rightarrow> 'v list" where
  "hm_values m = map snd m"

definition hm_sum :: "('v \<Rightarrow> nat) \<Rightarrow> ('k, 'v) hmap \<Rightarrow> nat" where
  "hm_sum f m = sum_list (map f (hm_values m))"

interpretation hm: kv_map "[]" hm_get hm_insert hm_remove hm_wf
  by unfold_locales
    (auto simp: hm_get_def hm_insert_def hm_remove_def hm_wf_def update_conv' delete_conv'
      distinct_update distinct_delete)

lemmas hm_laws [simp] = hm.get_insert hm.get_remove hm.wf_insert hm.wf_remove

lemma hm_get_Nil [simp]: "hm_get [] k = None"
  by (simp add: hm_get_def)

lemma hm_wf_Nil [simp]: "hm_wf []"
  by (simp add: hm_wf_def)

lemma hm_sum_Nil [simp]: "hm_sum f [] = 0"
  by (simp add: hm_sum_def hm_values_def)

lemma hm_contains_insert [simp]:
  "hm_wf m \<Longrightarrow> hm_contains (hm_insert k v m) j \<longleftrightarrow> j = k \<or> hm_contains m j"
  by (auto simp: hm_contains_def)

lemma set_hm_keys: "set (hm_keys m) = {k. hm_contains m k}"
  by (auto simp: hm_keys_def hm_contains_def hm_get_def map_of_eq_None_iff)

lemma set_hm_values: "hm_wf m \<Longrightarrow> set (hm_values m) = ran (hm_get m)"
  unfolding hm_values_def hm_wf_def hm_get_def [abs_def] by (simp add: ran_distinct)

lemma hm_sum_update:
  assumes "hm_wf m" and "hm_get m k = Some v"
  shows "hm_sum f (hm_insert k v' m) + f v = hm_sum f m + f v'"
  using assms
  unfolding hm_sum_def hm_values_def hm_get_def hm_insert_def hm_wf_def
proof (induction m)
  case Nil
  then show ?case by simp
next
  case (Cons a m)
  then show ?case by (cases a) (auto split: if_splits)
qed

lemma hm_sum_fresh:
  "hm_get m k = None \<Longrightarrow> hm_sum f (hm_insert k v m) = hm_sum f m + f v"
  unfolding hm_sum_def hm_values_def hm_get_def hm_insert_def
proof (induction m)
  case Nil
  then show ?case by simp
next
  case (Cons a m)
  then show ?case by (cases a) (auto split: if_splits)
qed

lemma hm_sum_member:
  assumes "hm_get m k = Some v"
  shows "f v \<le> hm_sum f m"
proof -
  from assms have "f v \<in> set (map f (hm_values m))"
    unfolding hm_get_def hm_values_def by (force dest: map_of_SomeD)
  then show ?thesis
    unfolding hm_sum_def by (rule member_le_sum_list) simp
qed

lemma hm_sum_cong_get:
  assumes "hm_wf m" and "hm_get m k = Some v" and "f v' = f v"
  shows "hm_sum f (hm_insert k v' m) = hm_sum f m"
  using hm_sum_update [OF assms(1,2), of f v'] assms(3) by simp

lemma hm_keys_update:
  "hm_get m k \<noteq> None \<Longrightarrow> hm_keys (hm_insert k v m) = hm_keys m"
  unfolding hm_keys_def hm_insert_def hm_get_def
  by (simp add: map_of_eq_None_iff update_keys)

subsection \<open>BTreeMap\<close>

type_synonym ('k, 'v) bmap = "('k \<times> 'v) list"

definition bt_wf :: "('k::linorder, 'v) bmap \<Rightarrow> bool" where
  "bt_wf m \<longleftrightarrow> sorted_wrt (<) (map fst m)"

definition bt_get :: "('k, 'v) bmap \<Rightarrow> 'k \<Rightarrow> 'v option" where
  "bt_get m k = map_of m k"

fun bt_insert :: "'k::linorder \<Rightarrow> 'v \<Rightarrow> ('k, 'v) bmap \<Rightarrow> ('k, 'v) bmap" where
  "bt_insert k v [] = [(k, v)]"
| "bt_insert k v ((j, u) # m) =
     (if k < j then (k, v) # (j, u) # m
      else if k = j then (k, v) # m
      else (j, u) # bt_insert k v m)"

definition bt_remove :: "'k \<Rightarrow> ('k, 'v) bmap \<Rightarrow> ('k, 'v) bmap" where
  "bt_remove k m = filter (\<lambda>(j, _). j \<noteq> k) m"

definition bt_contains :: "('k, 'v) bmap \<Rightarrow> 'k \<Rightarrow> bool" where
  "bt_contains m k \<longleftrightarrow> bt_get m k \<noteq> None"

definition bt_keys :: "('k, 'v) bmap \<Rightarrow> 'k list" where
  "bt_keys m = map fst m"

lemma set_bt_insert: "set (map fst (bt_insert k v m)) = insert k (set (map fst m))"
  by (induction k v m rule: bt_insert.induct) auto

lemma bt_wf_insert: "bt_wf m \<Longrightarrow> bt_wf (bt_insert k v m)"
proof (induction k v m rule: bt_insert.induct)
  case (1 k v)
  then show ?case by (simp add: bt_wf_def)
next
  case (2 k v j u m)
  from 2 show ?case
    unfolding bt_wf_def
    by (cases k j rule: linorder_cases) (auto simp: set_bt_insert simp del: set_map)
qed

lemma bt_get_insert: "bt_get (bt_insert k v m) = (bt_get m)(k \<mapsto> v)"
  by (induction k v m rule: bt_insert.induct) (auto simp: bt_get_def fun_eq_iff)

lemma bt_get_remove: "bt_get (bt_remove k m) = (bt_get m)(k := None)"
  by (induction m) (auto simp: bt_get_def bt_remove_def fun_eq_iff)

lemma bt_wf_remove: "bt_wf m \<Longrightarrow> bt_wf (bt_remove k m)"
  by (induction m) (auto simp: bt_wf_def bt_remove_def)

interpretation bt: kv_map "[]" bt_get "bt_insert :: 'k::linorder \<Rightarrow> _" bt_remove bt_wf
  by unfold_locales
    (auto simp: bt_get_insert bt_get_remove bt_wf_insert bt_wf_remove, auto simp: bt_get_def bt_wf_def)

lemma bt_wf_distinct: "bt_wf m \<Longrightarrow> distinct (map fst m)"
  unfolding bt_wf_def using strict_sorted_iff by blast

end
