(* ===== verification/Treasury.thy ===== *)
theory Treasury
  imports Rust_Maps Ledger
begin

text \<open>
  Treasury governance (\<open>koinon-treasury\<close>): a balance, the submitted spend proposals, voting
  and execution. Every operation returns the pool it leaves behind with its result; a tally
  that fails for lack of votes or funds has marked the proposal rejected.
\<close>

subsection \<open>State\<close>

datatype proposal_status = Pending | Approved | Rejected | Executed | Expired

record treasury_proposal =
  pr_id :: nat
  pr_proposer :: string
  pr_recipient :: string
  pr_amount :: oikos
  pr_description :: string
  pr_status :: proposal_status
  pr_votes_for :: nat
  pr_votes_against :: nat
  pr_total_staked :: nat
  pr_created_at :: nat
  pr_expires_at :: nat

record treasury_pool =
  tp_balance :: oikos
  tp_proposals :: "(nat, treasury_proposal) hmap"
  tp_next_proposal_id :: nat
  tp_quorum_pct :: nat

datatype treasury_error =
  ProposalNotFound | InsufficientBalance | AlreadyVoted | NotVotingPeriod | QuorumNotMet
  | AlreadyExecuted

definition treasury_pool_new :: "oikos \<Rightarrow> treasury_pool" where
  "treasury_pool_new initial_balance = \<lparr>tp_balance = initial_balance, tp_proposals = [],
     tp_next_proposal_id = 1, tp_quorum_pct = 67\<rparr>"

subsection \<open>Operations\<close>

definition create_proposal ::
  "treasury_pool \<Rightarrow> string \<Rightarrow> string \<Rightarrow> oikos \<Rightarrow> string \<Rightarrow> nat \<Rightarrow> nat \<Rightarrow> nat
     \<Rightarrow> (treasury_pool \<times> (treasury_error + nat)) panics" where
  "create_proposal p proposer recipient amount description staked current_block voting_period =
     (let i = tp_next_proposal_id p in
      case checked_add 64 (tp_next_proposal_id p) 1 of
        None \<Rightarrow> Some (p, Inl ProposalNotFound)
      | Some next_id \<Rightarrow> do {
          expires \<leftarrow> checked_add 64 current_block voting_period;
          let proposal = \<lparr>pr_id = i, pr_proposer = proposer, pr_recipient = recipient,
                pr_amount = amount, pr_description = description, pr_status = Pending,
                pr_votes_for = 0, pr_votes_against = 0, pr_total_staked = staked,
                pr_created_at = current_block, pr_expires_at = expires\<rparr>;
          Some (p\<lparr>tp_next_proposal_id := next_id,
                  tp_proposals := hm_insert i proposal (tp_proposals p)\<rparr>, Inr i)
        })"

definition vote ::
  "treasury_pool \<Rightarrow> nat \<Rightarrow> nat \<Rightarrow> bool \<Rightarrow> treasury_pool \<times> treasury_error unit_result" where
  "vote p i voter_stake in_favor =
     (case hm_get (tp_proposals p) i of
        None \<Rightarrow> (p, Inl ProposalNotFound)
      | Some pr \<Rightarrow>
          if pr_status pr \<noteq> Pending then (p, Inl NotVotingPeriod)
          else if in_favor
          then (case checked_add 64 (pr_votes_for pr) voter_stake of
              None \<Rightarrow> (p, Inl ProposalNotFound)
            | Some n \<Rightarrow>
                (p\<lparr>tp_proposals := hm_insert i (pr\<lparr>pr_votes_for := n\<rparr>) (tp_proposals p)\<rparr>, Inr ()))
          else (case checked_add 64 (pr_votes_against pr) voter_stake of
              None \<Rightarrow> (p, Inl ProposalNotFound)
            | Some n \<Rightarrow>
                (p\<lparr>tp_proposals := hm_insert i (pr\<lparr>pr_votes_against := n\<rparr>) (tp_proposals p)\<rparr>,
                 Inr ())))"

definition set_status :: "treasury_pool \<Rightarrow> nat \<Rightarrow> treasury_proposal \<Rightarrow> proposal_status \<Rightarrow> treasury_pool" where
  "set_status p i pr st = p\<lparr>tp_proposals := hm_insert i (pr\<lparr>pr_status := st\<rparr>) (tp_proposals p)\<rparr>"

definition quorum_needed :: "treasury_pool \<Rightarrow> treasury_proposal \<Rightarrow> nat" where
  "quorum_needed p pr = pr_total_staked pr * tp_quorum_pct p div 100"

definition tally_and_execute ::
  "treasury_pool \<Rightarrow> nat \<Rightarrow> treasury_pool \<times> treasury_error unit_result" where
  "tally_and_execute p i =
     (case hm_get (tp_proposals p) i of
        None \<Rightarrow> (p, Inl ProposalNotFound)
      | Some pr \<Rightarrow>
          if pr_status pr = Executed then (p, Inl AlreadyExecuted)
          else if pr_status pr \<noteq> Pending then (p, Inl NotVotingPeriod)
          else if pr_votes_for pr < quorum_needed p pr
          then (set_status p i pr Rejected, Inl QuorumNotMet)
          else if tp_balance p < pr_amount pr
          then (set_status p i pr Rejected, Inl InsufficientBalance)
          else (set_status (p\<lparr>tp_balance := tp_balance p - pr_amount pr\<rparr>) i pr Executed, Inr ()))"

definition get_proposal :: "treasury_pool \<Rightarrow> nat \<Rightarrow> treasury_proposal option" where
  "get_proposal p i = hm_get (tp_proposals p) i"

text \<open>The pool driven by its clients.\<close>

datatype treasury_op =
    OpCreate string string oikos string nat nat nat
  | OpVote nat nat bool
  | OpTally nat

fun treasury_step :: "treasury_pool \<Rightarrow> treasury_op \<Rightarrow> treasury_pool panics" where
  "treasury_step p (OpCreate a b c d e f g) = map_option fst (create_proposal p a b c d e f g)"
| "treasury_step p (OpVote i s y) = Some (fst (vote p i s y))"
| "treasury_step p (OpTally i) = Some (fst (tally_and_execute p i))"

subsection \<open>Invariants\<close>

definition executed_amount :: "treasury_proposal \<Rightarrow> nat" where
  "executed_amount pr = (if pr_status pr = Executed then pr_amount pr else 0)"

definition spent_total :: "treasury_pool \<Rightarrow> nat" where
  "spent_total p = hm_sum executed_amount (tp_proposals p)"

definition treasury_inv :: "oikos \<Rightarrow> nat \<Rightarrow> treasury_pool \<Rightarrow> bool" where
  "treasury_inv b q p \<longleftrightarrow>
     hm_wf (tp_proposals p) \<and> tp_quorum_pct p = q \<and> tp_balance p + spent_total p = b \<and>
     (\<forall>i pr. hm_get (tp_proposals p) i = Some pr \<longrightarrow>
        pr_id pr = i \<and> i < tp_next_proposal_id p \<and>
        (pr_status pr = Executed \<longrightarrow> quorum_needed p pr \<le> pr_votes_for pr))"

lemma treasury_inv_update:
  assumes inv: "treasury_inv b q p" and pr: "hm_get (tp_proposals p) i = Some pr"
    and same: "pr_id pr' = pr_id pr"
    and bal: "bal + executed_amount pr' = tp_balance p + executed_amount pr"
    and exec: "pr_status pr' = Executed \<Longrightarrow>
      pr_total_staked pr' * q div 100 \<le> pr_votes_for pr'"
  shows "treasury_inv b q (p\<lparr>tp_balance := bal, tp_proposals := hm_insert i pr' (tp_proposals p)\<rparr>)"
proof -
  have "hm_sum executed_amount (hm_insert i pr' (tp_proposals p)) + executed_amount pr
      = hm_sum executed_amount (tp_proposals p) + executed_amount pr'"
    using inv pr by (intro hm_sum_update) (auto simp: treasury_inv_def)
  then have "bal + hm_sum executed_amount (hm_insert i pr' (tp_proposals p)) = b"
    using bal inv by (auto simp: treasury_inv_def spent_total_def)
  with inv pr same exec show ?thesis
    by (auto simp: treasury_inv_def spent_total_def quorum_needed_def)
qed

lemma executed_amount_simps [simp]:
  "pr_status pr = Pending \<Longrightarrow> executed_amount pr = 0"
  "executed_amount (pr\<lparr>pr_status := Rejected\<rparr>) = 0"
  "executed_amount (pr\<lparr>pr_status := Executed\<rparr>) = pr_amount pr"
  "executed_amount (pr\<lparr>pr_votes_for := n\<rparr>) = executed_amount pr"
  "executed_amount (pr\<lparr>pr_votes_against := n\<rparr>) = executed_amount pr"
  by (simp_all add: executed_amount_def)

lemma treasury_inv_update_same:
  assumes "treasury_inv b q p" "hm_get (tp_proposals p) i = Some pr" "pr_status pr = Pending"
    and "pr_id pr' = pr_id pr" "executed_amount pr' = 0" "pr_status pr' \<noteq> Executed"
  shows "treasury_inv b q (p\<lparr>tp_proposals := hm_insert i pr' (tp_proposals p)\<rparr>)"
  using treasury_inv_update [OF assms(1,2,4), of "tp_balance p"] assms(3,5,6) by simp

lemma vote_inv: "treasury_inv b q p \<Longrightarrow> treasury_inv b q (fst (vote p i s y))"
  by (auto simp: vote_def intro: treasury_inv_update_same split: option.split)

lemma tally_inv:
  assumes inv: "treasury_inv b q p"
  shows "treasury_inv b q (fst (tally_and_execute p i))"
proof (cases "hm_get (tp_proposals p) i")
  case None
  with inv show ?thesis by (simp add: tally_and_execute_def)
next
  case (Some pr)
  show ?thesis
  proof (cases "pr_status pr = Pending \<and> quorum_needed p pr \<le> pr_votes_for pr \<and>
      pr_amount pr \<le> tp_balance p")
    case True
    have "tp_quorum_pct p = q" using inv by (simp add: treasury_inv_def)
    with True have "treasury_inv b q (p\<lparr>tp_balance := tp_balance p - pr_amount pr,
        tp_proposals := hm_insert i (pr\<lparr>pr_status := Executed\<rparr>) (tp_proposals p)\<rparr>)"
      by (intro treasury_inv_update [OF inv Some]) (auto simp: quorum_needed_def)
    with True Some show ?thesis by (simp add: tally_and_execute_def set_status_def)
  next
    case False
    with inv Some show ?thesis
      by (auto simp: tally_and_execute_def set_status_def not_le intro: treasury_inv_update_same)
  qed
qed

lemma create_inv:
  assumes inv: "treasury_inv b q p"
    and res: "create_proposal p a1 a2 a3 a4 a5 a6 a7 = Some (p', r)"
  shows "treasury_inv b q p'"
proof -
  have fresh: "hm_get (tp_proposals p) (tp_next_proposal_id p) = None"
    using inv unfolding treasury_inv_def by (metis less_irrefl option.exhaust)
  from inv res fresh show ?thesis
    by (auto simp: create_proposal_def treasury_inv_def spent_total_def hm_sum_fresh Let_def
        executed_amount_def quorum_needed_def bind_eq_Some_conv less_Suc_eq
        split: option.splits if_splits)
qed

interpretation treasury: component treasury_step "treasury_inv b q" for b q
proof unfold_locales
  fix p a p'
  assume "treasury_inv b q p" and "treasury_step p a = Some p'"
  then show "treasury_inv b q p'"
    by (cases a) (auto intro: vote_inv tally_inv create_inv)
qed

lemma treasury_new_inv: "treasury_inv b 67 (treasury_pool_new b)"
  by (simp add: treasury_inv_def treasury_pool_new_def spent_total_def)

text \<open>A proposal that has left \<open>Pending\<close> is never touched again.\<close>

definition finalised :: "nat \<Rightarrow> treasury_proposal \<Rightarrow> treasury_pool \<Rightarrow> bool" where
  "finalised i pr p \<longleftrightarrow> (\<exists>b q. treasury_inv b q p) \<and>
     hm_get (tp_proposals p) i = Some pr \<and> pr_status pr \<noteq> Pending"

lemma treasury_step_finalised:
  assumes fin: "finalised i pr p" and step: "treasury_step p a = Some p'"
  shows "finalised i pr p'"
proof -
  obtain b q where inv: "treasury_inv b q p" and pr: "hm_get (tp_proposals p) i = Some pr"
    "pr_status pr \<noteq> Pending" using fin by (auto simp: finalised_def)
  have wf: "hm_wf (tp_proposals p)" and lt: "i < tp_next_proposal_id p"
    using inv pr by (auto simp: treasury_inv_def)
  have "hm_get (tp_proposals p') i = Some pr"
    using step pr wf lt
    by (cases a)
      (auto simp: create_proposal_def vote_def tally_and_execute_def set_status_def Let_def
        bind_eq_Some_conv split: option.splits if_splits)
  with treasury.step_inv [OF inv step] pr show ?thesis by (auto simp: finalised_def)
qed

interpretation final: component treasury_step "finalised i pr" for i pr
  by unfold_locales (rule treasury_step_finalised)

subsection \<open>Properties\<close>

text \<open>
  C21. From a fresh treasury, after any sequence of proposals, votes and tallies, the
  balance plus the amounts of all executed proposals is the initial balance, and every
  executed proposal reached the 67 percent threshold of the stake recorded with it.
\<close>

theorem treasury_conserves:
  assumes "run_ops treasury_step (treasury_pool_new b) ops = Some p"
  shows "tp_balance p + spent_total p = b \<and>
    (\<forall>i pr. get_proposal p i = Some pr \<and> pr_status pr = Executed \<longrightarrow>
       pr_total_staked pr * 67 div 100 \<le> pr_votes_for pr)"
  using treasury.run_inv [OF treasury_new_inv assms]
  by (auto simp: treasury_inv_def get_proposal_def quorum_needed_def)

definition example_treasury_ops :: "treasury_op list" where
  "example_treasury_ops =
     [OpCreate ''alice'' ''bob'' 100 ''dev'' 1000 0 100, OpVote 1 670 True, OpTally 1, OpTally 1]"

theorem treasury_conserves_witness:
  "\<exists>p. run_ops treasury_step (treasury_pool_new 1000) example_treasury_ops = Some p \<and>
     tp_balance p = 900 \<and> tp_balance p + spent_total p = 1000"
proof -
  obtain p where p: "run_ops treasury_step (treasury_pool_new 1000) example_treasury_ops = Some p"
    "tp_balance p = 900"
    by (simp add: example_treasury_ops_def treasury_pool_new_def create_proposal_def vote_def
        tally_and_execute_def set_status_def quorum_needed_def checked_add_def hm_get_def
        hm_insert_def Let_def)
  from treasury_conserves [OF p(1)] p show ?thesis by auto
qed

text \<open>
  A proposal that was executed, rejected or otherwise left the pending state keeps its
  record, votes and status through every later operation: it is executed at most once and no
  vote counts after the decision.
\<close>

theorem treasury_decisions_final:
  assumes "run_ops treasury_step (treasury_pool_new b) ops1 = Some p"
    and "get_proposal p i = Some pr" and "pr_status pr \<noteq> Pending"
    and "run_ops treasury_step p ops2 = Some p'"
  shows "get_proposal p' i = Some pr"
proof -
  have "treasury_inv b 67 p" by (rule treasury.run_inv [OF treasury_new_inv assms(1)])
  with assms(2,3) have "finalised i pr p" by (auto simp: finalised_def get_proposal_def)
  from final.run_inv [OF this assms(4)] show ?thesis
    by (simp add: finalised_def get_proposal_def)
qed

theorem treasury_decisions_final_witness:
  "\<exists>p pr p'. run_ops treasury_step (treasury_pool_new 1000) example_treasury_ops = Some p \<and>
     get_proposal p 1 = Some pr \<and> pr_status pr = Executed \<and>
     run_ops treasury_step p [OpVote 1 9 False, OpTally 1] = Some p' \<and> get_proposal p' 1 = Some pr"
proof -
  obtain p pr where p: "run_ops treasury_step (treasury_pool_new 1000) example_treasury_ops = Some p"
    "get_proposal p 1 = Some pr" "pr_status pr = Executed"
    by (simp add: example_treasury_ops_def treasury_pool_new_def create_proposal_def vote_def
        tally_and_execute_def set_status_def quorum_needed_def checked_add_def hm_get_def
        hm_insert_def Let_def get_proposal_def)
  obtain p' where p': "run_ops treasury_step p [OpVote 1 9 False, OpTally 1] = Some p'" by simp
  from treasury_decisions_final [OF p(1,2) _ p'] p p' show ?thesis by auto
qed

text \<open>
  The exact outcome of a tally on a pending proposal: it succeeds iff the votes in
  favour reach \<open>total_staked * quorum_pct / 100\<close> (rounded down) and the balance covers the
  amount. It then debits exactly the amount; otherwise it leaves the balance and rejects the
  proposal for good, lack of votes being reported before lack of funds.
\<close>

theorem tally_outcome:
  assumes "hm_wf (tp_proposals p)"
    and "get_proposal p i = Some pr" and "pr_status pr = Pending"
  shows "let (p', res) = tally_and_execute p i;
             enough = pr_total_staked pr * tp_quorum_pct p div 100 \<le> pr_votes_for pr;
             funded = pr_amount pr \<le> tp_balance p
         in (res = Inr ()) = (enough \<and> funded) \<and>
            (\<not> enough \<longrightarrow> res = Inl QuorumNotMet) \<and>
            (enough \<and> \<not> funded \<longrightarrow> res = Inl InsufficientBalance) \<and>
            tp_balance p' = tp_balance p - (if enough \<and> funded then pr_amount pr else 0) \<and>
            get_proposal p' i =
              Some (pr\<lparr>pr_status := if enough \<and> funded then Executed else Rejected\<rparr>)"
  using assms
  by (simp add: tally_and_execute_def get_proposal_def set_status_def quorum_needed_def Let_def)

theorem tally_outcome_witness:
  "\<exists>p pr. run_ops treasury_step (treasury_pool_new 1000) [OpCreate ''a'' ''b'' 100 ''c'' 0 0 1] = Some p \<and>
     get_proposal p 1 = Some pr \<and> snd (tally_and_execute p 1) = Inr ()"
proof -
  obtain p pr where p: "run_ops treasury_step (treasury_pool_new 1000)
      [OpCreate ''a'' ''b'' 100 ''c'' 0 0 1] = Some p"
    and pr: "get_proposal p 1 = Some pr" "pr_status pr = Pending" "pr_total_staked pr = 0"
      "pr_amount pr = 100" "tp_balance p = 1000"
    by (simp add: treasury_pool_new_def create_proposal_def checked_add_def get_proposal_def
        hm_get_def hm_insert_def Let_def)
  have "hm_wf (tp_proposals p)"
    using treasury.run_inv [OF treasury_new_inv p] by (simp add: treasury_inv_def)
  from tally_outcome [OF this pr(1,2)] pr p show ?thesis
    by (auto simp: Let_def split: prod.splits)
qed

end
