(* ===== verification/Mandates.thy ===== *)
theory Mandates
  imports Ledger
begin

text \<open>
  Agent mandates (\<open>koinon-mandates\<close>): budgets an agent may spend on behalf of a principal,
  the scopes and contracts it may touch, and the enforcement checks made before a spend.
\<close>

subsection \<open>Scopes (scope.rs)\<close>

type_synonym contract_address = string

datatype mandate_scope =
    ScopeTransferOikos | ScopeTransferKoin | ScopeMintKoin | ScopeBurnKoin | ScopeEscrowManage
  | ScopeStreamManage | ScopeRfpPublish | ScopeRfpRespond | ScopeDelegateTo string
  | ScopeCustom string

definition allows_transfer_oikos :: "mandate_scope \<Rightarrow> bool" where
  "allows_transfer_oikos s \<longleftrightarrow> s = ScopeTransferOikos"

definition allows_transfer_koin :: "mandate_scope \<Rightarrow> bool" where
  "allows_transfer_koin s \<longleftrightarrow> s = ScopeTransferKoin"

definition allows_escrow :: "mandate_scope \<Rightarrow> bool" where
  "allows_escrow s \<longleftrightarrow> s = ScopeEscrowManage"

definition allows_stream :: "mandate_scope \<Rightarrow> bool" where
  "allows_stream s \<longleftrightarrow> s = ScopeStreamManage"

subsection \<open>Mandates (mandate.rs)\<close>

record mandate_config =
  mc_did :: string
  mc_principal_did :: string
  mc_agent_did :: string
  mc_oikos_budget :: oikos
  mc_koin_budget :: koin
  mc_scopes :: "mandate_scope list"
  mc_allowed_contracts :: "contract_address list"
  mc_time_bound :: "nat option"

record agent_mandate =
  am_id :: nat
  am_did :: string
  am_principal_did :: string
  am_agent_did :: string
  am_oikos_budget :: oikos
  am_oikos_spent :: oikos
  am_koin_budget :: koin
  am_koin_spent :: koin
  am_scopes :: "mandate_scope list"
  am_allowed_contracts :: "contract_address list"
  am_time_bound :: "nat option"
  am_active :: bool

definition mandate_create :: "nat \<Rightarrow> mandate_config \<Rightarrow> agent_mandate" where
  "mandate_create i c = \<lparr>am_id = i, am_did = mc_did c, am_principal_did = mc_principal_did c,
     am_agent_did = mc_agent_did c, am_oikos_budget = mc_oikos_budget c, am_oikos_spent = 0,
     am_koin_budget = mc_koin_budget c, am_koin_spent = 0, am_scopes = mc_scopes c,
     am_allowed_contracts = mc_allowed_contracts c, am_time_bound = mc_time_bound c,
     am_active = True\<rparr>"

definition oikos_remaining :: "agent_mandate \<Rightarrow> oikos option" where
  "oikos_remaining m = oikos_checked_sub (am_oikos_budget m) (am_oikos_spent m)"

definition koin_remaining :: "agent_mandate \<Rightarrow> koin option" where
  "koin_remaining m = do {
     r \<leftarrow> koin_checked_sub (am_koin_budget m) (am_koin_spent m);
     if koin_is_negative r then None else Some r
   }"

definition record_oikos_spend :: "agent_mandate \<Rightarrow> oikos \<Rightarrow> agent_mandate \<times> bool" where
  "record_oikos_spend m amount =
     (if \<not> am_active m then (m, False)
      else (case oikos_remaining m of
          Some remaining \<Rightarrow>
            if remaining \<ge> amount
            then (case oikos_checked_add (am_oikos_spent m) amount of
                Some new_spent \<Rightarrow> (m\<lparr>am_oikos_spent := new_spent\<rparr>, True)
              | None \<Rightarrow> (m, False))
            else (m, False)
        | None \<Rightarrow> (m, False)))"

definition record_koin_spend :: "agent_mandate \<Rightarrow> koin \<Rightarrow> agent_mandate \<times> bool" where
  "record_koin_spend m amount =
     (if \<not> am_active m \<or> koin_is_negative amount then (m, False)
      else (case koin_checked_add (am_koin_spent m) amount of
          Some new_spent \<Rightarrow>
            if new_spent \<le> am_koin_budget m then (m\<lparr>am_koin_spent := new_spent\<rparr>, True)
            else (m, False)
        | None \<Rightarrow> (m, False)))"

definition revoke :: "agent_mandate \<Rightarrow> agent_mandate" where
  "revoke m = m\<lparr>am_active := False\<rparr>"

definition set_time_bound :: "agent_mandate \<Rightarrow> nat \<Rightarrow> agent_mandate" where
  "set_time_bound m t = m\<lparr>am_time_bound := Some t\<rparr>"

definition add_allowed_contract :: "agent_mandate \<Rightarrow> contract_address \<Rightarrow> agent_mandate" where
  "add_allowed_contract m c =
     (if c \<in> set (am_allowed_contracts m) then m
      else m\<lparr>am_allowed_contracts := am_allowed_contracts m @ [c]\<rparr>)"

definition mandate_check_invariant :: "agent_mandate \<Rightarrow> bool" where
  "mandate_check_invariant m =
     (let budget_invariant = am_oikos_spent m \<le> am_oikos_budget m \<and>
            am_koin_spent m \<le> am_koin_budget m;
          time_invariant = am_time_bound m = None \<or>
            (case am_time_bound m of None \<Rightarrow> True | Some tb \<Rightarrow> tb > 0)
      in budget_invariant \<and> time_invariant)"

subsection \<open>Enforcement (enforcement.rs)\<close>

datatype enforcement_error =
    MandateInactive
  | MandateExpired
  | OikosBudgetExceeded nat nat
  | KoinBudgetExceeded int int
  | ScopeNotAllowed mandate_scope
  | ContractNotAllowed contract_address

definition check_oikos_budget :: "agent_mandate \<Rightarrow> nat \<Rightarrow> enforcement_error unit_result" where
  "check_oikos_budget m oikos_cost =
     (if oikos_cost > 0
      then (case oikos_remaining m of
          None \<Rightarrow> Inl (OikosBudgetExceeded 0 oikos_cost)
        | Some remaining \<Rightarrow>
            if remaining < oikos_cost then Inl (OikosBudgetExceeded remaining oikos_cost)
            else Inr ())
      else Inr ())"

definition check_koin_budget :: "agent_mandate \<Rightarrow> int \<Rightarrow> enforcement_error unit_result" where
  "check_koin_budget m koin_cost =
     (if koin_cost > 0
      then (case koin_remaining m of
          None \<Rightarrow> Inl (KoinBudgetExceeded 0 koin_cost)
        | Some remaining \<Rightarrow>
            if remaining < koin_cost then Inl (KoinBudgetExceeded remaining koin_cost)
            else Inr ())
      else Inr ())"

definition check_budget :: "agent_mandate \<Rightarrow> nat \<Rightarrow> int \<Rightarrow> enforcement_error unit_result" where
  "check_budget m oikos_cost koin_cost =
     (if \<not> am_active m then Inl MandateInactive
      else (case check_oikos_budget m oikos_cost of
          Inl e \<Rightarrow> Inl e
        | Inr _ \<Rightarrow> check_koin_budget m koin_cost))"

definition check_budget_with_time ::
  "agent_mandate \<Rightarrow> nat \<Rightarrow> int \<Rightarrow> nat \<Rightarrow> enforcement_error unit_result" where
  "check_budget_with_time m oikos_cost koin_cost current_time =
     (if \<not> am_active m then Inl MandateInactive
      else (case am_time_bound m of
          Some time_bound \<Rightarrow>
            if current_time > time_bound then Inl MandateExpired
            else check_budget m oikos_cost koin_cost
        | None \<Rightarrow> check_budget m oikos_cost koin_cost))"

definition check_scope :: "agent_mandate \<Rightarrow> mandate_scope \<Rightarrow> enforcement_error unit_result" where
  "check_scope m required =
     (if \<not> am_active m then Inl MandateInactive
      else if required \<in> set (am_scopes m) then Inr ()
      else Inl (ScopeNotAllowed required))"

definition check_contract :: "agent_mandate \<Rightarrow> contract_address \<Rightarrow> enforcement_error unit_result" where
  "check_contract m contract =
     (if \<not> am_active m then Inl MandateInactive
      else if am_allowed_contracts m = [] then Inr ()
      else if contract \<in> set (am_allowed_contracts m) then Inr ()
      else Inl (ContractNotAllowed contract))"

definition check_all ::
  "agent_mandate \<Rightarrow> nat \<Rightarrow> int \<Rightarrow> contract_address \<Rightarrow> nat \<Rightarrow> enforcement_error unit_result" where
  "check_all m oikos_cost koin_cost contract current_time =
     (case check_budget_with_time m oikos_cost koin_cost current_time of
        Inl e \<Rightarrow> Inl e
      | Inr _ \<Rightarrow> check_contract m contract)"

text \<open>The mandate driven by its holder and its principal.\<close>

datatype mandate_op =
    OpSpendOikos oikos | OpSpendKoin koin | OpRevoke | OpSetTimeBound nat
  | OpAddContract contract_address

fun mandate_step :: "agent_mandate \<Rightarrow> mandate_op \<Rightarrow> agent_mandate panics" where
  "mandate_step m (OpSpendOikos a) = Some (fst (record_oikos_spend m a))"
| "mandate_step m (OpSpendKoin a) = Some (fst (record_koin_spend m a))"
| "mandate_step m OpRevoke = Some (revoke m)"
| "mandate_step m (OpSetTimeBound t) = Some (set_time_bound m t)"
| "mandate_step m (OpAddContract c) = Some (add_allowed_contract m c)"

lemmas mandate_op_defs =
  record_oikos_spend_def record_koin_spend_def revoke_def set_time_bound_def
  add_allowed_contract_def

lemmas mandate_amount_defs =
  oikos_remaining_def koin_remaining_def oikos_checked_sub_def oikos_checked_add_def
  koin_checked_add_def koin_checked_sub_def koin_is_negative_def ichecked_add_def ichecked_sub_def

subsection \<open>The budget invariant\<close>

definition mandate_inv :: "agent_mandate \<Rightarrow> bool" where
  "mandate_inv m \<longleftrightarrow>
     am_oikos_spent m \<le> am_oikos_budget m \<and> fits 128 (am_oikos_budget m) \<and>
     0 \<le> am_koin_spent m \<and> am_koin_spent m \<le> am_koin_budget m \<and> ifits 128 (am_koin_budget m)"

lemma mandate_step_inv: "mandate_inv m \<Longrightarrow> mandate_step m a = Some m' \<Longrightarrow> mandate_inv m'"
  by (cases a)
    (auto simp: mandate_op_defs mandate_inv_def mandate_amount_defs split: option.splits if_splits)

interpretation mandate: total_component mandate_step mandate_inv
proof unfold_locales
  fix m a
  show "mandate_step m a \<noteq> None" by (cases a) simp_all
qed (rule mandate_step_inv)

interpretation mandate_oikos: monotone_component mandate_step mandate_inv am_oikos_spent
proof unfold_locales
  fix m a m'
  assume "mandate_inv m" and "mandate_step m a = Some m'"
  then show "am_oikos_spent m \<le> am_oikos_spent m'"
    by (cases a) (auto simp: mandate_op_defs mandate_amount_defs split: option.splits)
qed

interpretation mandate_koin: monotone_component mandate_step mandate_inv "\<lambda>m. nat (am_koin_spent m)"
proof unfold_locales
  fix m a m'
  assume "mandate_inv m" and "mandate_step m a = Some m'"
  then show "nat (am_koin_spent m) \<le> nat (am_koin_spent m')"
    by (cases a) (auto simp: mandate_op_defs mandate_amount_defs split: option.splits)
qed

lemma mandate_create_inv:
  "fits 128 (mc_oikos_budget c) \<Longrightarrow> 0 \<le> mc_koin_budget c \<Longrightarrow> ifits 128 (mc_koin_budget c) \<Longrightarrow>
   mandate_inv (mandate_create i c)"
  by (simp add: mandate_inv_def mandate_create_def)

text \<open>A revoked mandate's amounts are frozen.\<close>

definition revoked_at :: "oikos \<Rightarrow> koin \<Rightarrow> agent_mandate \<Rightarrow> bool" where
  "revoked_at a b m \<longleftrightarrow> \<not> am_active m \<and> am_oikos_spent m = a \<and> am_koin_spent m = b"

interpretation revoked: total_component mandate_step "revoked_at a b" for a b
proof unfold_locales
  fix m x m'
  assume "revoked_at a b m" and "mandate_step m x = Some m'"
  then show "revoked_at a b m'" by (cases x) (auto simp: mandate_op_defs revoked_at_def split: if_splits)
next
  fix m x
  show "mandate_step m x \<noteq> None" by (cases x) simp_all
qed

lemma check_oikos_budget_iff:
  "mandate_inv m \<Longrightarrow> check_oikos_budget m a = Inr () \<longleftrightarrow> am_oikos_spent m + a \<le> am_oikos_budget m"
  by (auto simp: check_oikos_budget_def mandate_inv_def mandate_amount_defs checked_sub_def)

lemma check_koin_budget_iff:
  "mandate_inv m \<Longrightarrow> 0 \<le> a \<Longrightarrow>
   check_koin_budget m a = Inr () \<longleftrightarrow> am_koin_spent m + a \<le> am_koin_budget m"
  by (auto simp: check_koin_budget_def mandate_inv_def mandate_amount_defs ichecked_def ifits_def)

lemma record_oikos_spend_iff:
  "mandate_inv m \<Longrightarrow>
   snd (record_oikos_spend m a) \<longleftrightarrow> am_active m \<and> am_oikos_spent m + a \<le> am_oikos_budget m"
  by (auto simp: record_oikos_spend_def mandate_inv_def mandate_amount_defs checked_sub_def
      checked_add_def fits_def)

lemma record_koin_spend_iff:
  "mandate_inv m \<Longrightarrow> 0 \<le> a \<Longrightarrow>
   snd (record_koin_spend m a) \<longleftrightarrow> am_active m \<and> am_koin_spent m + a \<le> am_koin_budget m"
  by (auto simp: record_koin_spend_def mandate_inv_def mandate_amount_defs ichecked_def ifits_def)

lemma check_budget_iff:
  assumes "mandate_inv m" and "0 \<le> koin_cost"
  shows "check_budget m oikos_cost koin_cost = Inr () \<longleftrightarrow>
    snd (record_oikos_spend m oikos_cost) \<and> snd (record_koin_spend m koin_cost)"
  using check_oikos_budget_iff [OF assms(1), of oikos_cost] check_koin_budget_iff [OF assms]
    record_oikos_spend_iff [OF assms(1), of oikos_cost] record_koin_spend_iff [OF assms]
  by (auto simp: check_budget_def split: sum.split)

subsection \<open>Properties\<close>

text \<open>
  C31. A mandate created with a non-negative Koin budget never spends more than its
  budgets, whatever sequence of spends (of any sign), revocations, deadline changes and
  contract additions is tried, and what it has spent never decreases.
\<close>

theorem mandate_within_budget:
  assumes "fits 128 (mc_oikos_budget c)" and "0 \<le> mc_koin_budget c" and "ifits 128 (mc_koin_budget c)"
  shows "\<exists>m m'. run_ops mandate_step (mandate_create i c) ops = Some m \<and>
    run_ops mandate_step m ops' = Some m' \<and>
    am_oikos_spent m \<le> am_oikos_spent m' \<and> am_oikos_spent m' \<le> am_oikos_budget m' \<and>
    nat (am_koin_spent m) \<le> nat (am_koin_spent m') \<and>
    0 \<le> am_koin_spent m' \<and> am_koin_spent m' \<le> am_koin_budget m'"
proof -
  obtain m where m: "run_ops mandate_step (mandate_create i c) ops = Some m" "mandate_inv m"
    using mandate.run_total [OF mandate_create_inv [OF assms]] by blast
  obtain m' where m': "run_ops mandate_step m ops' = Some m'" "mandate_inv m'"
    using mandate.run_total [OF m(2)] by blast
  from mandate_oikos.run_mono [OF m(2) m'(1)] mandate_koin.run_mono [OF m(2) m'(1)] m m'
  show ?thesis by (auto simp: mandate_inv_def)
qed

definition example_config :: mandate_config where
  "example_config = \<lparr>mc_did = ''did'', mc_principal_did = ''p'', mc_agent_did = ''a'',
     mc_oikos_budget = 1000, mc_koin_budget = 500, mc_scopes = [ScopeTransferKoin],
     mc_allowed_contracts = [''c1''], mc_time_bound = Some 100\<rparr>"

theorem mandate_within_budget_witness:
  "\<exists>m m'. run_ops mandate_step (mandate_create 1 example_config) [OpSpendKoin 400] = Some m \<and>
    run_ops mandate_step m [OpSpendKoin 200, OpSpendKoin (-5), OpSpendOikos 1000] = Some m' \<and>
    am_oikos_spent m \<le> am_oikos_spent m' \<and> am_oikos_spent m' \<le> am_oikos_budget m' \<and>
    nat (am_koin_spent m) \<le> nat (am_koin_spent m') \<and>
    0 \<le> am_koin_spent m' \<and> am_koin_spent m' \<le> am_koin_budget m'"
  by (rule mandate_within_budget) (simp_all add: example_config_def fits_def ifits_def)

text \<open>
  The enforcement check is exact: for a mandate within its budgets and a non-negative
  Koin cost, \<open>check_all\<close> accepts precisely when the mandate is not past its deadline, the
  contract is allowed, and recording both spends would succeed. A request that passes the
  check can never be refused by the booking that follows it, and conversely.
\<close>

theorem enforcement_agrees_with_booking:
  assumes "mandate_inv m" and "0 \<le> koin_cost"
  shows "check_all m oikos_cost koin_cost contract now = Inr () \<longleftrightarrow>
    (\<forall>t. am_time_bound m = Some t \<longrightarrow> now \<le> t) \<and>
    (am_allowed_contracts m = [] \<or> contract \<in> set (am_allowed_contracts m)) \<and>
    snd (record_oikos_spend m oikos_cost) \<and> snd (record_koin_spend m koin_cost)"
proof (cases "am_active m")
  case True
  then show ?thesis
    using check_budget_iff [OF assms, of oikos_cost]
    by (auto simp: check_all_def check_budget_with_time_def check_contract_def not_less
        split: option.splits sum.splits if_splits)
next
  case False
  then show ?thesis
    by (simp add: check_all_def check_budget_with_time_def record_oikos_spend_def)
qed

theorem enforcement_agrees_with_booking_witness:
  "check_all (mandate_create 1 example_config) 1000 500 ''c1'' 100 = Inr ()"
proof -
  let ?m = "mandate_create 1 example_config"
  have "mandate_inv ?m"
    by (rule mandate_create_inv) (simp_all add: example_config_def fits_def ifits_def)
  moreover have "snd (record_oikos_spend ?m 1000)" "snd (record_koin_spend ?m 500)"
    by (simp_all add: record_oikos_spend_def record_koin_spend_def mandate_amount_defs
        mandate_create_def example_config_def checked_sub_def checked_add_def ichecked_def ifits_def)
  ultimately show ?thesis
    using enforcement_agrees_with_booking [of ?m 500 1000 "''c1''" 100]
    by (simp add: mandate_create_def example_config_def)
qed

text \<open>
  Revocation is final: after \<open>revoke\<close> no sequence of operations changes what was
  spent, and every enforcement check answers that the mandate is inactive.
\<close>

theorem revoked_mandate_frozen:
  "\<exists>m'. run_ops mandate_step (revoke m) ops = Some m' \<and>
    am_oikos_spent m' = am_oikos_spent m \<and> am_koin_spent m' = am_koin_spent m \<and>
    check_all m' oikos_cost koin_cost contract now = Inl MandateInactive \<and>
    check_scope m' scope = Inl MandateInactive \<and>
    check_contract m' contract = Inl MandateInactive"
proof -
  have "revoked_at (am_oikos_spent m) (am_koin_spent m) (revoke m)"
    by (simp add: revoked_at_def revoke_def)
  from revoked.run_total [OF this, of ops] show ?thesis
    by (auto simp: revoked_at_def check_all_def check_budget_with_time_def check_scope_def
        check_contract_def)
qed

end
