(* ===== verification/Escrow.thy ===== *)
theory Escrow
  imports Ledger
begin

text \<open>
  The escrow account of \<open>koinon-escrow\<close> (\<open>escrow.rs\<close>): its conditions, its operations, and
  the lifecycle they implement. The lifecycle is the inductive relation \<open>escrow_trans\<close> on
  the states; every operation either leaves the escrow's state alone or makes one step of
  it.
\<close>

subsection \<open>Data\<close>

datatype escrow_state = Funded | Released | Disputed | Refunded | Completed

datatype escrow_error =
  NotFunded | InsufficientFunds | Unauthorized | AlreadyFinalized | ConditionsNotSatisfied | CannotDispute

datatype escrow_condition =
  TimeLock nat
| MultiSig nat "nat list"
| Oracle string

record escrow =
  es_id :: nat
  es_sender :: nat
  es_receiver :: nat
  es_oikos_amount :: oikos
  es_koin_amount :: koin
  es_state :: escrow_state
  es_conditions :: "escrow_condition list"

definition escrow_new :: "nat \<Rightarrow> nat \<Rightarrow> nat \<Rightarrow> oikos \<Rightarrow> koin \<Rightarrow> escrow" where
  "escrow_new i sender receiver oikos_amount koin_amount =
     \<lparr>es_id = i, es_sender = sender, es_receiver = receiver, es_oikos_amount = oikos_amount,
      es_koin_amount = koin_amount, es_state = Funded, es_conditions = []\<rparr>"

subsection \<open>Operations\<close>

definition add_condition :: "escrow \<Rightarrow> escrow_condition \<Rightarrow> escrow" where
  "add_condition e c = e\<lparr>es_conditions := es_conditions e @ [c]\<rparr>"

definition can_release :: "escrow \<Rightarrow> bool" where
  "can_release e \<longleftrightarrow> es_state e = Funded"

text \<open>
  The number of approvals that come from a signer is counted in \<open>usize\<close> and then cast to
  \<open>u32\<close>, which keeps the low 32 bits.
\<close>

fun evaluate_condition :: "nat \<Rightarrow> nat list \<Rightarrow> escrow_condition \<Rightarrow> bool" where
  "evaluate_condition current_time approvals (TimeLock lock_time) \<longleftrightarrow> lock_time \<le> current_time"
| "evaluate_condition current_time approvals (MultiSig required signers) \<longleftrightarrow>
     required \<le> length (filter (\<lambda>a. a \<in> set signers) approvals) mod 2 ^ 32"
| "evaluate_condition current_time approvals (Oracle name) \<longleftrightarrow> True"

definition evaluate_conditions :: "escrow \<Rightarrow> nat \<Rightarrow> nat list \<Rightarrow> bool" where
  "evaluate_conditions e current_time approvals \<longleftrightarrow>
     list_all (evaluate_condition current_time approvals) (es_conditions e)"

definition dispute :: "escrow \<Rightarrow> escrow \<times> escrow_error unit_result" where
  "dispute e =
     (if es_state e \<noteq> Funded then (e, Inl CannotDispute)
      else (e\<lparr>es_state := Disputed\<rparr>, Inr ()))"

definition check_release_authorization :: "escrow \<Rightarrow> nat \<Rightarrow> escrow_error unit_result" where
  "check_release_authorization e releaser =
     (if releaser \<noteq> es_sender e then Inl Unauthorized else Inr ())"

definition release :: "escrow \<Rightarrow> escrow \<times> escrow_error unit_result" where
  "release e =
     (if \<not> can_release e then (e, Inl AlreadyFinalized)
      else (e\<lparr>es_state := Completed\<rparr>, Inr ()))"

definition release_checked :: "escrow \<Rightarrow> nat \<Rightarrow> nat list \<Rightarrow> escrow \<times> escrow_error unit_result" where
  "release_checked e current_time approvals =
     (if \<not> can_release e then (e, Inl AlreadyFinalized)
      else if \<not> evaluate_conditions e current_time approvals then (e, Inl ConditionsNotSatisfied)
      else (e\<lparr>es_state := Completed\<rparr>, Inr ()))"

definition refund :: "escrow \<Rightarrow> escrow \<times> escrow_error unit_result" where
  "refund e =
     (case es_state e of
        Funded \<Rightarrow> (e\<lparr>es_state := Refunded\<rparr>, Inr ())
      | Disputed \<Rightarrow> (e\<lparr>es_state := Refunded\<rparr>, Inr ())
      | _ \<Rightarrow> (e, Inl AlreadyFinalized))"

subsection \<open>The lifecycle\<close>

inductive escrow_trans :: "escrow_state \<Rightarrow> escrow_state \<Rightarrow> bool" where
  trans_dispute: "escrow_trans Funded Disputed"
| trans_release: "escrow_trans Funded Completed"
| trans_refund: "escrow_trans Funded Refunded"
| trans_refund_disputed: "escrow_trans Disputed Refunded"

inductive_simps escrow_trans_from [simp]:
  "escrow_trans Funded t" "escrow_trans Disputed t" "escrow_trans Completed t"
  "escrow_trans Refunded t" "escrow_trans Released t"

declare escrow_trans.intros [intro]

datatype escrow_op =
  OpAddCondition escrow_condition
| OpDispute
| OpRelease
| OpReleaseChecked nat "nat list"
| OpRefund

fun escrow_call :: "escrow \<Rightarrow> escrow_op \<Rightarrow> escrow \<times> escrow_error unit_result" where
  "escrow_call e (OpAddCondition c) = (add_condition e c, Inr ())"
| "escrow_call e OpDispute = dispute e"
| "escrow_call e OpRelease = release e"
| "escrow_call e (OpReleaseChecked t as) = release_checked e t as"
| "escrow_call e OpRefund = refund e"

fun escrow_step :: "escrow \<Rightarrow> escrow_op \<Rightarrow> escrow panics" where
  "escrow_step e a = Some (fst (escrow_call e a))"

lemmas escrow_op_defs =
  add_condition_def dispute_def release_def release_checked_def refund_def can_release_def

text \<open>What no operation changes: the identity, the parties and the amounts.\<close>

definition terms :: "escrow \<Rightarrow> nat \<times> nat \<times> nat \<times> oikos \<times> koin" where
  "terms e = (es_id e, es_sender e, es_receiver e, es_oikos_amount e, es_koin_amount e)"

lemma escrow_call_refines:
  "terms (fst (escrow_call e a)) = terms e \<and>
   (es_state (fst (escrow_call e a)) = es_state e \<or>
    escrow_trans (es_state e) (es_state (fst (escrow_call e a))))"
  by (cases a; cases "es_state e") (auto simp: escrow_op_defs terms_def)

lemma escrow_call_error_unchanged:
  "snd (escrow_call e a) = Inl err \<Longrightarrow> fst (escrow_call e a) = e"
  by (cases a; cases "es_state e") (auto simp: escrow_op_defs split: if_splits)

text \<open>A finished escrow: no later call succeeds but the addition of a condition.\<close>

definition finished :: "escrow_state \<Rightarrow> bool" where
  "finished s \<longleftrightarrow> s = Completed \<or> s = Refunded"

definition follows :: "escrow \<Rightarrow> escrow \<Rightarrow> bool" where
  "follows e0 e \<longleftrightarrow> terms e = terms e0 \<and> escrow_trans\<^sup>*\<^sup>* (es_state e0) (es_state e)"

interpretation escrow_life: total_component escrow_step "follows e0" for e0
proof unfold_locales
  fix e a e'
  assume "follows e0 e" and "escrow_step e a = Some e'"
  with escrow_call_refines [of e a] show "follows e0 e'"
    by (auto simp: follows_def intro: rtranclp.rtrancl_into_rtrancl)
qed simp

lemma finished_absorbing:
  assumes "escrow_trans\<^sup>*\<^sup>* s t" and "finished s"
  shows "t = s"
  using assms by (induction rule: rtranclp_induct) (auto simp: finished_def)

lemma reachable_from_funded: "escrow_trans\<^sup>*\<^sup>* Funded t \<Longrightarrow> t \<noteq> Released"
  by (induction rule: rtranclp_induct) (auto elim: escrow_trans.cases)

lemma finished_call_fails:
  "finished (es_state e) \<Longrightarrow> (\<forall>c. a \<noteq> OpAddCondition c) \<Longrightarrow> \<exists>err. snd (escrow_call e a) = Inl err"
  by (cases a) (auto simp: finished_def escrow_op_defs)

subsection \<open>Properties\<close>

text \<open>
  C32. An escrow settles at most once. Whatever calls are made on a fresh escrow, its
  parties and amounts never change and its state follows the lifecycle; once it is
  completed or refunded it stays so whatever is called later, and every later call that
  would move the money (dispute, release, checked release, refund) fails and leaves the
  escrow as it was. The state \<open>Released\<close> is never reached.
\<close>

theorem escrow_settles_once:
  "\<exists>e. run_ops escrow_step (escrow_new i s r oa ka) ops = Some e \<and>
     terms e = (i, s, r, oa, ka) \<and> es_state e \<noteq> Released \<and>
     (finished (es_state e) \<longrightarrow>
        (\<forall>ops'. \<exists>e'. run_ops escrow_step e ops' = Some e' \<and> es_state e' = es_state e) \<and>
        (\<forall>a. (\<forall>c. a \<noteq> OpAddCondition c) \<longrightarrow>
           fst (escrow_call e a) = e \<and> (\<exists>err. snd (escrow_call e a) = Inl err)))"
proof -
  let ?e0 = "escrow_new i s r oa ka"
  have "follows ?e0 ?e0" by (simp add: follows_def)
  then obtain e where e: "run_ops escrow_step ?e0 ops = Some e" "follows ?e0 e"
    using escrow_life.run_total by blast
  have later: "\<exists>e'. run_ops escrow_step e ops' = Some e' \<and> es_state e' = es_state e"
    if "finished (es_state e)" for ops'
  proof -
    have "follows e e" by (simp add: follows_def)
    then obtain e' where "run_ops escrow_step e ops' = Some e'" "follows e e'"
      using escrow_life.run_total by blast
    with that show ?thesis by (auto simp: follows_def dest: finished_absorbing)
  qed
  have calls: "fst (escrow_call e a) = e \<and> (\<exists>err. snd (escrow_call e a) = Inl err)"
    if "finished (es_state e)" and "\<forall>c. a \<noteq> OpAddCondition c" for a
    using finished_call_fails [OF that] escrow_call_error_unchanged by blast
  from e have "terms e = (i, s, r, oa, ka)" and "es_state e \<noteq> Released"
    by (auto simp: follows_def terms_def escrow_new_def dest: reachable_from_funded)
  with e(1) later calls show ?thesis by blast
qed

theorem escrow_settles_once_witness:
  "\<exists>e. run_ops escrow_step (escrow_new 1 100 200 10 50) [OpDispute, OpRelease, OpRefund] = Some e \<and>
     es_state e = Refunded \<and> (\<exists>e'. run_ops escrow_step e [OpRelease] = Some e' \<and> es_state e' = Refunded)"
  using escrow_settles_once [of 1 100 200 10 50 "[OpDispute, OpRelease, OpRefund]"]
  by (auto simp: escrow_op_defs escrow_new_def finished_def)

text \<open>
  A checked release succeeds exactly on a funded escrow all of whose time locks have
  passed and all of whose multi-signature conditions count enough approvals. The count is
  of approvals, not of signers: a single signer who approves \<open>required\<close> times satisfies the
  condition alone.
\<close>

theorem release_checked_iff:
  assumes "length approvals < 2 ^ 32"
  shows "(snd (release_checked e now approvals) = Inr () \<longleftrightarrow>
      es_state e = Funded \<and> (\<forall>t. TimeLock t \<in> set (es_conditions e) \<longrightarrow> t \<le> now) \<and>
      (\<forall>n signers. MultiSig n signers \<in> set (es_conditions e) \<longrightarrow>
         n \<le> length (filter (\<lambda>a. a \<in> set signers) approvals))) \<and>
    (a \<in> set signers \<longrightarrow> n < 2 ^ 32 \<longrightarrow> evaluate_condition now (replicate n a) (MultiSig n signers))"
proof -
  have count: "length (filter P approvals) mod 2 ^ 32 = length (filter P approvals)" for P
    using le_less_trans [OF length_filter_le assms, of P] by simp
  have "evaluate_condition now approvals c \<longleftrightarrow>
      (case c of TimeLock t \<Rightarrow> t \<le> now
       | MultiSig n signers \<Rightarrow> n \<le> length (filter (\<lambda>a. a \<in> set signers) approvals)
       | Oracle _ \<Rightarrow> True)" for c
    using count by (cases c) simp_all
  then have "evaluate_conditions e now approvals \<longleftrightarrow>
      (\<forall>t. TimeLock t \<in> set (es_conditions e) \<longrightarrow> t \<le> now) \<and>
      (\<forall>n signers. MultiSig n signers \<in> set (es_conditions e) \<longrightarrow>
         n \<le> length (filter (\<lambda>a. a \<in> set signers) approvals))"
    by (auto simp: evaluate_conditions_def list_all_iff split: escrow_condition.splits)
  then show ?thesis
    by (auto simp: release_checked_def can_release_def)
qed

theorem release_checked_iff_witness:
  "snd (release_checked (add_condition (escrow_new 1 100 200 10 50) (MultiSig 2 [7, 8])) 0 [7, 7]) = Inr ()"
proof -
  have "length [7, 7 :: nat] < 2 ^ 32" by simp
  from release_checked_iff [OF this, of "add_condition (escrow_new 1 100 200 10 50) (MultiSig 2 [7, 8])" 0]
  show ?thesis by (simp add: add_condition_def escrow_new_def)
qed

end
