(* ===== verification/Streaming.thy ===== *)
theory Streaming
  imports Ledger
begin

text \<open>
  The streaming payment of \<open>koinon-escrow\<close> (\<open>streaming.rs\<close>): an amount that accrues to the
  receiver at a constant rate per second, and can be paused, resumed, stopped and completed.
  Times and rates are 64-bit, amounts 128-bit; the product of an elapsed time and a rate
  fits into 128 bits (\<open>accrued_fits\<close>), so the plain multiplication of the source is the
  exact one.
\<close>

subsection \<open>Data\<close>

datatype stream_state = StreamActive | StreamPaused | StreamStopped | StreamCompleted

datatype stream_token = StreamOikos | StreamKoin

record stream_config =
  sc_rate_per_second :: nat
  sc_duration_seconds :: nat
  sc_token :: stream_token

record streaming_payment =
  sp_id :: nat
  sp_sender :: nat
  sp_receiver :: nat
  sp_total_amount :: nat
  sp_streamed_amount :: nat
  sp_config :: stream_config
  sp_state :: stream_state
  sp_start_time :: nat
  sp_pause_time :: "nat option"

definition stream_new :: "nat \<Rightarrow> nat \<Rightarrow> nat \<Rightarrow> nat \<Rightarrow> stream_config \<Rightarrow> nat \<Rightarrow> streaming_payment" where
  "stream_new i sender receiver total_amount config current_time =
     \<lparr>sp_id = i, sp_sender = sender, sp_receiver = receiver, sp_total_amount = total_amount,
      sp_streamed_amount = 0, sp_config = config, sp_state = StreamActive,
      sp_start_time = current_time, sp_pause_time = None\<rparr>"

subsection \<open>Operations\<close>

definition accrued_until :: "streaming_payment \<Rightarrow> nat \<Rightarrow> nat" where
  "accrued_until s t =
     (let elapsed = saturating_sub t (sp_start_time s);
          streamed = elapsed * sc_rate_per_second (sp_config s)
      in min streamed (sp_total_amount s))"

definition streamed_so_far :: "streaming_payment \<Rightarrow> nat \<Rightarrow> nat" where
  "streamed_so_far s current_time =
     (case sp_state s of
        StreamActive \<Rightarrow> accrued_until s current_time
      | StreamPaused \<Rightarrow>
          (case sp_pause_time s of
             Some pt \<Rightarrow> accrued_until s pt
           | None \<Rightarrow> sp_streamed_amount s)
      | _ \<Rightarrow> sp_streamed_amount s)"

definition update_streamed :: "streaming_payment \<Rightarrow> nat \<Rightarrow> streaming_payment" where
  "update_streamed s current_time =
     (if sp_state s = StreamActive then s\<lparr>sp_streamed_amount := streamed_so_far s current_time\<rparr> else s)"

definition can_complete :: "streaming_payment \<Rightarrow> nat \<Rightarrow> bool" where
  "can_complete s current_time \<longleftrightarrow>
     sp_state s = StreamActive \<and> sp_total_amount s \<le> streamed_so_far s current_time"

definition try_complete :: "streaming_payment \<Rightarrow> nat \<Rightarrow> streaming_payment \<times> bool" where
  "try_complete s current_time =
     (if can_complete s current_time
      then (s\<lparr>sp_streamed_amount := sp_total_amount s, sp_state := StreamCompleted\<rparr>, True)
      else (s, False))"

definition remaining :: "streaming_payment \<Rightarrow> nat \<Rightarrow> nat" where
  "remaining s current_time = saturating_sub (sp_total_amount s) (streamed_so_far s current_time)"

definition pause :: "streaming_payment \<Rightarrow> nat \<Rightarrow> streaming_payment" where
  "pause s current_time =
     (if sp_state s = StreamActive
      then s\<lparr>sp_streamed_amount := streamed_so_far s current_time, sp_state := StreamPaused,
             sp_pause_time := Some current_time\<rparr>
      else s)"

definition resume :: "streaming_payment \<Rightarrow> nat \<Rightarrow> streaming_payment panics" where
  "resume s current_time =
     (if sp_state s = StreamPaused
      then do {
        pre_streamed \<leftarrow> checked_div (sp_streamed_amount s) (sc_rate_per_second (sp_config s));
        Some (s\<lparr>sp_start_time := saturating_sub current_time (pre_streamed mod 2 ^ 64),
                sp_pause_time := None, sp_state := StreamActive\<rparr>)
      }
      else Some s)"

definition can_stop :: "streaming_payment \<Rightarrow> bool" where
  "can_stop s \<longleftrightarrow> sp_state s = StreamActive \<or> sp_state s = StreamPaused"

definition stop :: "streaming_payment \<Rightarrow> streaming_payment" where
  "stop s = (if can_stop s then s\<lparr>sp_state := StreamStopped\<rparr> else s)"

definition stream_conservation_check :: "streaming_payment \<Rightarrow> bool" where
  "stream_conservation_check s \<longleftrightarrow> sp_streamed_amount s \<le> sp_total_amount s"

subsection \<open>Runs\<close>

datatype stream_op =
  OpUpdateStreamed nat | OpTryComplete nat | OpPause nat | OpResume nat | OpStop

fun stream_step :: "streaming_payment \<Rightarrow> stream_op \<Rightarrow> streaming_payment panics" where
  "stream_step s (OpUpdateStreamed t) = Some (update_streamed s t)"
| "stream_step s (OpTryComplete t) = Some (fst (try_complete s t))"
| "stream_step s (OpPause t) = Some (pause s t)"
| "stream_step s (OpResume t) = resume s t"
| "stream_step s OpStop = Some (stop s)"

lemmas stream_op_defs =
  update_streamed_def try_complete_def pause_def resume_def stop_def can_stop_def can_complete_def
  bind_eq_Some_conv

lemma accrued_le: "accrued_until s t \<le> sp_total_amount s"
  by (simp add: accrued_until_def Let_def)

lemma accrued_mono: "t \<le> t' \<Longrightarrow> accrued_until s t \<le> accrued_until s t'"
  unfolding accrued_until_def Let_def saturating_sub_diff
  by (rule min.mono) (simp_all add: diff_le_mono)

lemma accrued_fits:
  assumes "fits 64 t" and "fits 64 (sc_rate_per_second (sp_config s))"
  shows "fits 128 (saturating_sub t (sp_start_time s) * sc_rate_per_second (sp_config s))"
proof -
  have "(t - sp_start_time s) * sc_rate_per_second (sp_config s) \<le> (2 ^ 64 - 1) * (2 ^ 64 - 1)"
    using assms by (intro mult_le_mono) (auto simp: fits_def)
  then show ?thesis by (simp add: fits_def)
qed

text \<open>
  The invariant for a fixed total: the recorded amount is within it, and a paused stream
  has recorded what it had accrued when it was paused.
\<close>

definition stream_inv :: "nat \<Rightarrow> streaming_payment \<Rightarrow> bool" where
  "stream_inv n s \<longleftrightarrow>
     sp_total_amount s = n \<and> sp_streamed_amount s \<le> n \<and> 0 < sc_rate_per_second (sp_config s) \<and>
     (case sp_state s of
        StreamPaused \<Rightarrow> (\<exists>pt. sp_pause_time s = Some pt \<and> sp_streamed_amount s = accrued_until s pt)
      | StreamCompleted \<Rightarrow> sp_streamed_amount s = n
      | _ \<Rightarrow> True)"

interpretation stream: total_component stream_step "stream_inv n" for n
proof unfold_locales
  fix s a s'
  assume inv: "stream_inv n s" and step: "stream_step s a = Some s'"
  show "stream_inv n s'"
  proof (cases a)
    case (OpPause t)
    then show ?thesis
      using inv step accrued_le [of s t]
      by (auto simp: stream_inv_def stream_op_defs streamed_so_far_def accrued_until_def split: if_splits)
  next
    case (OpUpdateStreamed t)
    then show ?thesis
      using inv step accrued_le [of s t]
      by (auto simp: stream_inv_def stream_op_defs streamed_so_far_def split: if_splits)
  qed (use inv step in \<open>auto simp: stream_inv_def stream_op_defs split: if_splits stream_state.splits\<close>)
next
  fix s a
  assume "stream_inv n s"
  then show "stream_step s a \<noteq> None"
    by (cases a) (auto simp: resume_def stream_inv_def checked_div_def)
qed

lemma stream_new_inv:
  "0 < sc_rate_per_second c \<Longrightarrow> stream_inv n (stream_new i a b n c t)"
  by (simp add: stream_inv_def stream_new_def)

lemma streamed_so_far_le:
  "sp_streamed_amount s \<le> sp_total_amount s \<Longrightarrow> streamed_so_far s t \<le> sp_total_amount s"
  using accrued_le by (auto simp: streamed_so_far_def split: stream_state.splits option.splits)

lemma streamed_so_far_mono:
  "t \<le> t' \<Longrightarrow> streamed_so_far s t \<le> streamed_so_far s t'"
  using accrued_mono by (auto simp: streamed_so_far_def split: stream_state.splits option.splits)

lemma resume_panics_iff:
  "resume s t = None \<longleftrightarrow> sp_state s = StreamPaused \<and> sc_rate_per_second (sp_config s) = 0"
  by (auto simp: resume_def checked_div_def)

subsection \<open>Properties\<close>

text \<open>
  C30. A stream with a positive rate never panics and never pays out more than its total:
  after any sequence of updates, completions, pauses, resumes and stops, at any times in
  any order, the recorded amount passes the conservation check, what has been streamed and
  what remains add up to the total at every moment, and the streamed amount only grows
  with time.
\<close>

theorem stream_never_overpays:
  assumes "0 < sc_rate_per_second c"
  shows "\<exists>s. run_ops stream_step (stream_new i a b n c t0) ops = Some s \<and>
    stream_conservation_check s \<and> sp_total_amount s = n \<and>
    (sp_state s = StreamCompleted \<longrightarrow> sp_streamed_amount s = n) \<and>
    (\<forall>t t'. t \<le> t' \<longrightarrow> streamed_so_far s t + remaining s t = n \<and> streamed_so_far s t \<le> streamed_so_far s t')"
proof -
  obtain s where s: "run_ops stream_step (stream_new i a b n c t0) ops = Some s" "stream_inv n s"
    using stream.run_total [OF stream_new_inv [OF assms]] by blast
  from s(2) streamed_so_far_le [of s] have "streamed_so_far s t + remaining s t = n" for t
    by (auto simp: remaining_def stream_inv_def)
  with s streamed_so_far_mono [of _ _ s] show ?thesis
    by (auto simp: stream_inv_def stream_conservation_check_def)
qed

definition example_stream :: streaming_payment where
  "example_stream = stream_new 1 100 200 1000 \<lparr>sc_rate_per_second = 10, sc_duration_seconds = 100, sc_token = StreamKoin\<rparr> 0"

theorem stream_never_overpays_witness:
  "\<exists>s. run_ops stream_step example_stream [OpPause 10, OpResume 50, OpUpdateStreamed 60, OpStop] = Some s \<and>
    stream_conservation_check s \<and> sp_total_amount s = 1000 \<and>
    (sp_state s = StreamCompleted \<longrightarrow> sp_streamed_amount s = 1000) \<and>
    (\<forall>t t'. t \<le> t' \<longrightarrow> streamed_so_far s t + remaining s t = 1000 \<and> streamed_so_far s t \<le> streamed_so_far s t')"
  unfolding example_stream_def by (rule stream_never_overpays) simp

text \<open>
  A pause costs the receiver nothing. If an active stream is paused at \<open>t1\<close> and resumed
  at \<open>t2\<close>, then from one second after the resume it shows the amount the stream would have
  shown had the time between the two not passed; in the very second of the resume it does
  so too, unless the stream had already accrued its whole total, where it shows the total
  rounded down to a multiple of the rate.
\<close>

theorem pause_resume_transparent:
  assumes "sp_state s = StreamActive" and "0 < sc_rate_per_second (sp_config s)"
    and "sp_start_time s \<le> t1" and "t1 \<le> t2" and "fits 64 t1"
  shows "\<exists>s'. resume (pause s t1) t2 = Some s' \<and> sp_state s' = StreamActive \<and>
    (\<forall>d > 0. streamed_so_far s' (t2 + d) = streamed_so_far s (t1 + d)) \<and>
    streamed_so_far s' t2 =
      (if (t1 - sp_start_time s) * sc_rate_per_second (sp_config s) \<le> sp_total_amount s
       then streamed_so_far s t1
       else sp_total_amount s - sp_total_amount s mod sc_rate_per_second (sp_config s))"
proof -
  let ?r = "sc_rate_per_second (sp_config s)"
  let ?n = "sp_total_amount s"
  let ?e = "t1 - sp_start_time s"
  let ?q = "min (?e * ?r) ?n div ?r"
  have q: "?q \<le> ?e"
    using div_le_mono [of "min (?e * ?r) ?n" "?e * ?r" ?r] assms(2) by simp
  with assms(5) have q64: "?q mod 2 ^ 64 = ?q" by (simp add: fits_def)
  define s' where "s' = s\<lparr>sp_streamed_amount := min (?e * ?r) ?n, sp_state := StreamActive,
    sp_pause_time := None, sp_start_time := t2 - ?q\<rparr>"
  have res: "resume (pause s t1) t2 = Some s'"
    using assms(1,2) q64
    by (simp add: resume_def pause_def s'_def streamed_so_far_def accrued_until_def Let_def checked_div_def)
  have elapsed: "t2 + d - (t2 - ?q) = ?q + d" for d
    using q assms(3,4) by simp
  have so_far: "streamed_so_far s' (t2 + d) = min ((?q + d) * ?r) ?n" for d
    using elapsed [of d] by (simp add: streamed_so_far_def accrued_until_def s'_def Let_def)
  have so_far0: "streamed_so_far s (t1 + d) = min ((?e + d) * ?r) ?n" for d
    using assms(1,3) by (simp add: streamed_so_far_def accrued_until_def Let_def)
  show ?thesis
  proof (cases "?e * ?r \<le> ?n")
    case True
    then have "?q = ?e" using assms(2) by simp
    with True res so_far so_far0 so_far [of 0] so_far0 [of 0] assms(1) show ?thesis
      by (auto simp: s'_def)
  next
    case False
    then have qn: "?q = ?n div ?r" by simp
    have "?n \<le> (?n div ?r + d) * ?r" if "0 < d" for d
    proof -
      have "?n < (?n div ?r + 1) * ?r"
        using assms(2) by (simp add: div_mult_mod_eq [symmetric] mult.commute dividend_less_times_div)
      also have "\<dots> \<le> (?n div ?r + d) * ?r" using that by (intro mult_le_mono1) simp
      finally show ?thesis by simp
    qed
    moreover have "?n \<le> (?e + d) * ?r" for d
    proof -
      have "?e * ?r \<le> (?e + d) * ?r" by (intro mult_le_mono1) simp
      with False show ?thesis by linarith
    qed
    ultimately have "streamed_so_far s' (t2 + d) = streamed_so_far s (t1 + d)" if "0 < d" for d
      using that unfolding so_far so_far0 qn by (simp add: min_absorb2)
    moreover have "streamed_so_far s' t2 = ?n - ?n mod ?r"
      using so_far [of 0] unfolding qn by (simp add: minus_mod_eq_div_mult)
    ultimately show ?thesis using False res by (simp add: s'_def)
  qed
qed

theorem pause_resume_transparent_witness:
  "\<exists>s'. resume (pause example_stream 10) 50 = Some s' \<and> sp_state s' = StreamActive \<and>
    streamed_so_far s' 60 = streamed_so_far example_stream 20 \<and> streamed_so_far s' 50 = 100"
proof -
  have "\<exists>s'. resume (pause example_stream 10) 50 = Some s' \<and> sp_state s' = StreamActive \<and>
    (\<forall>d > 0. streamed_so_far s' (50 + d) = streamed_so_far example_stream (10 + d)) \<and>
    streamed_so_far s' 50 =
      (if (10 - sp_start_time example_stream) * sc_rate_per_second (sp_config example_stream)
            \<le> sp_total_amount example_stream
       then streamed_so_far example_stream 10
       else sp_total_amount example_stream -
            sp_total_amount example_stream mod sc_rate_per_second (sp_config example_stream))"
    by (rule pause_resume_transparent)
      (simp_all add: example_stream_def stream_new_def fits_def)
  then obtain s' where "resume (pause example_stream 10) 50 = Some s'" "sp_state s' = StreamActive"
    and d: "\<And>d. 0 < d \<Longrightarrow> streamed_so_far s' (50 + d) = streamed_so_far example_stream (10 + d)"
    and "streamed_so_far s' 50 = 100"
    by (auto simp: example_stream_def stream_new_def streamed_so_far_def accrued_until_def)
  with d [of 10] show ?thesis by auto
qed

text \<open>
  Stopping does not settle what has accrued: an active stream that is stopped keeps only
  the amount recorded by its last update, so a stream that accrued since then forfeits the
  difference; a stream never updated is stopped with nothing paid.
\<close>

theorem stop_forfeits_accrual:
  assumes "sp_state s = StreamActive"
  shows "streamed_so_far (stop s) t = sp_streamed_amount s \<and>
    streamed_so_far (stop (update_streamed s t)) t' = streamed_so_far s t \<and>
    streamed_so_far (stop (stream_new i a b n c t0)) t = 0"
  using assms by (simp add: stop_def can_stop_def streamed_so_far_def update_streamed_def stream_new_def)

theorem stop_forfeits_accrual_witness:
  "streamed_so_far (stop example_stream) 50 = 0 \<and> streamed_so_far example_stream 50 = 500"
  using stop_forfeits_accrual [of example_stream 50]
  by (simp add: example_stream_def stream_new_def streamed_so_far_def accrued_until_def)

end
