(* ===== verification/Staking.thy ===== *)
theory Staking
  imports Rust_Maps Conservation
begin

text \<open>
  Validator staking and slashing (\<open>koinon-staking\<close>). A pool holds the validators in a
  hash map, the staked total, the next identifier and a conservation tracker. An operation
  returns the pool it leaves behind with its result, since an operation that fails may have
  written part of its changes already.
\<close>

subsection \<open>State (staking.rs)\<close>

definition MINIMUM_STAKE :: nat where
  "MINIMUM_STAKE = 100000 * 10 ^ 18"

record validator =
  v_id :: nat
  v_operator_did :: string
  v_staked_amount :: oikos
  v_reward_debt :: nat
  v_active :: bool
  v_slashed_amount :: oikos
  v_created_at :: nat
  v_jailed_until :: nat

record staking_pool =
  sp_validators :: "(nat, validator) hmap"
  sp_total_staked :: oikos
  sp_next_validator_id :: nat
  sp_conservation :: tvc

datatype staking_error =
    ValidatorNotFound nat
  | InsufficientStake nat nat
  | BelowMinimumStake nat nat
  | ValidatorNotActive nat
  | ValidatorJailed nat

definition staking_pool_new :: staking_pool where
  "staking_pool_new = \<lparr>sp_validators = [], sp_total_staked = 0, sp_next_validator_id = 1,
     sp_conservation = tvc_new\<rparr>"

subsection \<open>Operations\<close>

definition register_validator ::
  "staking_pool \<Rightarrow> string \<Rightarrow> (staking_pool \<times> (staking_error + nat)) panics" where
  "register_validator p operator_did = do {
     let i = sp_next_validator_id p;
     let v = \<lparr>v_id = i, v_operator_did = operator_did, v_staked_amount = 0, v_reward_debt = 0,
              v_active = True, v_slashed_amount = 0, v_created_at = 0, v_jailed_until = 0\<rparr>;
     let vs = hm_insert i v (sp_validators p);
     next_id \<leftarrow> checked_add 64 (sp_next_validator_id p) 1;
     Some (p\<lparr>sp_validators := vs, sp_next_validator_id := next_id\<rparr>, Inr i)
   }"

definition stake ::
  "staking_pool \<Rightarrow> nat \<Rightarrow> oikos \<Rightarrow> staking_pool \<times> staking_error unit_result" where
  "stake p i amount =
     (case hm_get (sp_validators p) i of
        None \<Rightarrow> (p, Inl (ValidatorNotFound i))
      | Some v \<Rightarrow>
          if \<not> v_active v then (p, Inl (ValidatorNotActive i))
          else if v_jailed_until v > 0 then (p, Inl (ValidatorJailed i))
          else (case oikos_checked_add (v_staked_amount v) amount of
            None \<Rightarrow> (p, Inl (InsufficientStake (v_staked_amount v) amount))
          | Some new_staked \<Rightarrow>
              if new_staked < MINIMUM_STAKE
              then (p, Inl (BelowMinimumStake new_staked MINIMUM_STAKE))
              else let p1 = p\<lparr>sp_validators :=
                          hm_insert i (v\<lparr>v_staked_amount := new_staked\<rparr>) (sp_validators p)\<rparr>
                in (case oikos_checked_add (sp_total_staked p1) amount of
                  None \<Rightarrow> (p1, Inl (InsufficientStake (sp_total_staked p1) amount))
                | Some t \<Rightarrow>
                    (p1\<lparr>sp_total_staked := t,
                        sp_conservation := fst (record_stake (sp_conservation p1) amount)\<rparr>,
                     Inr ()))))"

definition unstake ::
  "staking_pool \<Rightarrow> nat \<Rightarrow> oikos \<Rightarrow> staking_pool \<times> staking_error unit_result" where
  "unstake p i amount =
     (case hm_get (sp_validators p) i of
        None \<Rightarrow> (p, Inl (ValidatorNotFound i))
      | Some v \<Rightarrow>
          if \<not> v_active v then (p, Inl (ValidatorNotActive i))
          else (case oikos_checked_sub (v_staked_amount v) amount of
            None \<Rightarrow> (p, Inl (InsufficientStake (v_staked_amount v) amount))
          | Some new_staked \<Rightarrow>
              if new_staked \<noteq> 0 \<and> new_staked < MINIMUM_STAKE
              then (p, Inl (BelowMinimumStake new_staked MINIMUM_STAKE))
              else let p1 = p\<lparr>sp_validators :=
                          hm_insert i (v\<lparr>v_staked_amount := new_staked\<rparr>) (sp_validators p)\<rparr>
                in (case oikos_checked_sub (sp_total_staked p1) amount of
                  None \<Rightarrow> (p1, Inl (InsufficientStake (sp_total_staked p1) amount))
                | Some t \<Rightarrow>
                    (p1\<lparr>sp_total_staked := t,
                        sp_conservation := fst (record_unstake (sp_conservation p1) amount)\<rparr>,
                     Inr ()))))"

definition eligible :: "validator \<Rightarrow> bool" where
  "eligible v \<longleftrightarrow> v_active v \<and> v_jailed_until v = 0"

definition active_validators :: "staking_pool \<Rightarrow> validator list" where
  "active_validators p = filter eligible (hm_values (sp_validators p))"

definition is_active :: "staking_pool \<Rightarrow> nat \<Rightarrow> bool" where
  "is_active p i =
     (case hm_get (sp_validators p) i of None \<Rightarrow> False | Some v \<Rightarrow> eligible v)"

definition pro_rata_share :: "nat \<Rightarrow> nat \<Rightarrow> nat \<Rightarrow> nat panics" where
  "pro_rata_share a b c =
     (if c = 0 then Some 0
      else (case checked_mul 128 a b of
        Some product \<Rightarrow> Some (product div c)
      | None \<Rightarrow>
          let scale = 10 ^ 18; a_s = a div scale; b_s = b div scale; c_s = c div scale in
          if c_s = 0 then Some 0
          else do {
            p \<leftarrow> checked_mul 128 a_s b_s;
            checked_mul 128 (p div c_s) scale
          }))"

fun reward_loop ::
  "nat \<Rightarrow> nat \<Rightarrow> nat list \<Rightarrow> (nat, validator) hmap \<times> nat
     \<Rightarrow> ((nat, validator) hmap \<times> nat) panics" where
  "reward_loop total_reward t [] st = Some st"
| "reward_loop total_reward t (vid # rest) (vs, distributed) = do {
     share \<leftarrow> (if rest = [] then Some (saturating_sub total_reward distributed)
                else (case hm_get vs vid of
                    None \<Rightarrow> None
                  | Some v \<Rightarrow> pro_rata_share (v_staked_amount v) total_reward t));
     let st' = (if share > 0
                then (case hm_get vs vid of
                    Some v \<Rightarrow>
                      (hm_insert vid
                         (v\<lparr>v_reward_debt := saturating_add 128 (v_reward_debt v) share\<rparr>) vs,
                       saturating_add 128 distributed share)
                  | None \<Rightarrow> (vs, distributed))
                else (vs, distributed));
     reward_loop total_reward t rest st'
   }"

definition distribute_rewards :: "staking_pool \<Rightarrow> oikos \<Rightarrow> staking_pool panics" where
  "distribute_rewards p total_reward =
     (if total_reward = 0 then Some p
      else if sp_total_staked p = 0 then Some p
      else let active_ids = filter (is_active p) (hm_keys (sp_validators p)) in
        if active_ids = [] then Some p
        else map_option (\<lambda>(vs, _). p\<lparr>sp_validators := vs\<rparr>)
               (reward_loop total_reward (sp_total_staked p) active_ids (sp_validators p, 0)))"

definition claim_rewards ::
  "staking_pool \<Rightarrow> nat \<Rightarrow> staking_pool \<times> (staking_error + oikos)" where
  "claim_rewards p i =
     (case hm_get (sp_validators p) i of
        None \<Rightarrow> (p, Inl (ValidatorNotFound i))
      | Some v \<Rightarrow>
          (p\<lparr>sp_validators := hm_insert i (v\<lparr>v_reward_debt := 0\<rparr>) (sp_validators p)\<rparr>,
           Inr (v_reward_debt v)))"

fun checked_sum :: "nat \<Rightarrow> nat list \<Rightarrow> nat \<Rightarrow> nat panics" where
  "checked_sum w [] acc = Some acc"
| "checked_sum w (x # xs) acc = Option.bind (checked_add w acc x) (checked_sum w xs)"

definition staking_check_invariant :: "staking_pool \<Rightarrow> bool panics" where
  "staking_check_invariant p = do {
     computed_total \<leftarrow> checked_sum 128 (map v_staked_amount (hm_values (sp_validators p))) 0;
     Some (computed_total = sp_total_staked p)
   }"

subsection \<open>Slashing (slashing.rs)\<close>

datatype slashing_reason = DoubleSigning | Downtime nat | InvalidStateProof

record slashing_result =
  sr_validator_id :: nat
  sr_reason :: slashing_reason
  sr_original_stake :: oikos
  sr_slash_amount :: oikos
  sr_remaining_stake :: oikos
  sr_jailed :: bool
  sr_jailed_until :: nat

fun calculate_slash :: "validator \<Rightarrow> slashing_reason \<Rightarrow> oikos" where
  "calculate_slash v DoubleSigning = v_staked_amount v div 2"
| "calculate_slash v (Downtime duration_blocks) =
     (if duration_blocks > 3600 then v_staked_amount v div 100 else 0)"
| "calculate_slash v InvalidStateProof = v_staked_amount v div 10"

fun jail_duration :: "slashing_reason \<Rightarrow> nat" where
  "jail_duration DoubleSigning = 10000"
| "jail_duration (Downtime _) = 0"
| "jail_duration InvalidStateProof = 5000"

fun slash_jails :: "slashing_reason \<Rightarrow> bool" where
  "slash_jails DoubleSigning = True"
| "slash_jails InvalidStateProof = True"
| "slash_jails (Downtime _) = False"

definition apply_slashing ::
  "staking_pool \<Rightarrow> nat \<Rightarrow> slashing_reason \<Rightarrow> nat
     \<Rightarrow> (staking_pool \<times> (staking_error + slashing_result)) panics" where
  "apply_slashing p i reason current_block =
     (case hm_get (sp_validators p) i of
        None \<Rightarrow> Some (p, Inl (ValidatorNotFound i))
      | Some v \<Rightarrow> do {
          let original_stake = v_staked_amount v;
          let slash_amount = calculate_slash v reason;
          let remaining = saturating_sub original_stake slash_amount;
          let jailed = slash_jails reason;
          jailed_until \<leftarrow> (if jailed then checked_add 64 current_block (jail_duration reason)
                           else Some 0);
          let v1 = v\<lparr>v_staked_amount := remaining,
                     v_slashed_amount := saturating_add 128 (v_slashed_amount v) slash_amount\<rparr>;
          let v2 = (if jailed then v1\<lparr>v_jailed_until := jailed_until\<rparr> else v1);
          Some (p\<lparr>sp_validators := hm_insert i v2 (sp_validators p),
                  sp_total_staked := saturating_sub (sp_total_staked p) slash_amount\<rparr>,
                Inr \<lparr>sr_validator_id = i, sr_reason = reason, sr_original_stake = original_stake,
                     sr_slash_amount = slash_amount, sr_remaining_stake = remaining,
                     sr_jailed = jailed, sr_jailed_until = jailed_until\<rparr>)
        })"

subsection \<open>The pool invariant\<close>

definition pool_inv :: "staking_pool \<Rightarrow> bool" where
  "pool_inv p \<longleftrightarrow>
     hm_wf (sp_validators p) \<and>
     sp_total_staked p = hm_sum v_staked_amount (sp_validators p) \<and>
     sp_total_staked p < 2 ^ 128 \<and>
     (\<forall>i v. hm_get (sp_validators p) i = Some v \<longrightarrow>
        v_id v = i \<and> i < sp_next_validator_id p \<and> fits 128 (v_reward_debt v))"

lemma checked_sum_iff:
  "acc < 2 ^ w \<Longrightarrow> checked_sum w xs acc =
     (if acc + sum_list xs < 2 ^ w then Some (acc + sum_list xs) else None)"
  by (induction xs arbitrary: acc) (auto simp: checked_add_def)

lemma pool_inv_check: "pool_inv p \<Longrightarrow> staking_check_invariant p = Some True"
  by (simp add: staking_check_invariant_def checked_sum_iff pool_inv_def hm_sum_def)

lemma pool_inv_new: "pool_inv staking_pool_new"
  by (simp add: pool_inv_def staking_pool_new_def)

text \<open>Overwriting a present validator moves the staked total by the change of its stake.\<close>

lemma pool_inv_update:
  assumes inv: "pool_inv p" and v: "hm_get (sp_validators p) i = Some v"
    and v': "v_id v' = v_id v" "fits 128 (v_reward_debt v')"
    and t: "t + v_staked_amount v = sp_total_staked p + v_staked_amount v'" "t < 2 ^ 128"
  shows "pool_inv (p\<lparr>sp_validators := hm_insert i v' (sp_validators p), sp_total_staked := t\<rparr>)"
proof -
  have "t = hm_sum v_staked_amount (hm_insert i v' (sp_validators p))"
    using hm_sum_update [OF _ v, of v_staked_amount v'] inv t(1) by (auto simp: pool_inv_def)
  with assms show ?thesis by (auto simp: pool_inv_def)
qed

lemma pool_inv_conservation [simp]: "pool_inv (p\<lparr>sp_conservation := c\<rparr>) = pool_inv p"
  by (simp add: pool_inv_def)

lemma pool_inv_same_total:
  assumes "pool_inv p" and "hm_get (sp_validators p) i = Some v"
    and "v_id v' = v_id v" "fits 128 (v_reward_debt v')" "v_staked_amount v' = v_staked_amount v"
  shows "pool_inv (p\<lparr>sp_validators := hm_insert i v' (sp_validators p)\<rparr>)"
proof -
  have "sp_total_staked p < 2 ^ 128" using assms(1) by (simp add: pool_inv_def)
  then have "pool_inv (p\<lparr>sp_validators := hm_insert i v' (sp_validators p),
      sp_total_staked := sp_total_staked p\<rparr>)"
    by (intro pool_inv_update [OF assms(1-4)]) (simp_all add: assms(5))
  then show ?thesis by simp
qed

lemma stake_le_total:
  "pool_inv p \<Longrightarrow> hm_get (sp_validators p) i = Some v \<Longrightarrow> v_staked_amount v \<le> sp_total_staked p"
  using hm_sum_member [of "sp_validators p" i v v_staked_amount] by (simp add: pool_inv_def)

lemma register_validator_inv:
  assumes inv: "pool_inv p" and "register_validator p did = Some (p', r)"
  shows "pool_inv p'"
proof -
  have fresh: "hm_get (sp_validators p) (sp_next_validator_id p) = None"
    using inv unfolding pool_inv_def by (metis less_irrefl option.exhaust)
  from assms fresh show ?thesis
    by (auto simp: register_validator_def pool_inv_def hm_sum_fresh fits_def bind_eq_Some_conv
        less_Suc_eq Let_def split: if_splits)
qed

lemma stake_inv:
  assumes inv: "pool_inv p" and room: "sp_total_staked p + amount < 2 ^ 128"
  shows "pool_inv (fst (stake p i amount))"
proof (cases "hm_get (sp_validators p) i")
  case None
  with inv show ?thesis by (simp add: stake_def)
next
  case (Some v)
  have debt: "fits 128 (v_reward_debt v)" using inv Some by (auto simp: pool_inv_def)
  let ?v' = "v\<lparr>v_staked_amount := v_staked_amount v + amount\<rparr>"
  have "pool_inv (p\<lparr>sp_validators := hm_insert i ?v' (sp_validators p),
                    sp_total_staked := sp_total_staked p + amount\<rparr>)"
    by (rule pool_inv_update [OF inv Some]) (use debt room in simp_all)
  with inv Some room show ?thesis
    by (simp add: stake_def Let_def oikos_checked_add_def checked_add_def)
qed

lemma unstake_inv:
  assumes inv: "pool_inv p"
  shows "pool_inv (fst (unstake p i amount))"
proof (cases "hm_get (sp_validators p) i")
  case None
  with inv show ?thesis by (simp add: unstake_def)
next
  case (Some v)
  have debt: "fits 128 (v_reward_debt v)" using inv Some by (auto simp: pool_inv_def)
  have le: "v_staked_amount v \<le> sp_total_staked p" "sp_total_staked p < 2 ^ 128"
    using stake_le_total [OF inv Some] inv by (simp_all add: pool_inv_def)
  let ?v' = "v\<lparr>v_staked_amount := v_staked_amount v - amount\<rparr>"
  have "pool_inv (p\<lparr>sp_validators := hm_insert i ?v' (sp_validators p),
                    sp_total_staked := sp_total_staked p - amount\<rparr>)"
    if "amount \<le> v_staked_amount v"
    by (rule pool_inv_update [OF inv Some]) (use debt le that in simp_all)
  with inv Some le show ?thesis
    by (simp add: unstake_def Let_def oikos_checked_sub_def checked_sub_def)
qed

lemma claim_rewards_inv: "pool_inv p \<Longrightarrow> pool_inv (fst (claim_rewards p i))"
  by (auto simp: claim_rewards_def fits_def intro: pool_inv_same_total split: option.split)

lemma calculate_slash_le: "calculate_slash v reason \<le> v_staked_amount v"
  by (cases reason) auto

lemma apply_slashing_inv:
  assumes inv: "pool_inv p" and res: "apply_slashing p i reason b = Some (p', r)"
  shows "pool_inv p'"
proof (cases "hm_get (sp_validators p) i")
  case None
  with inv res show ?thesis by (simp add: apply_slashing_def)
next
  case (Some v)
  let ?s = "calculate_slash v reason"
  obtain v2 where p': "p' = p\<lparr>sp_validators := hm_insert i v2 (sp_validators p),
        sp_total_staked := sp_total_staked p - ?s\<rparr>"
    and v2: "v_id v2 = v_id v" "v_reward_debt v2 = v_reward_debt v"
      "v_staked_amount v2 = v_staked_amount v - ?s"
    using res Some by (auto simp: apply_slashing_def Let_def bind_eq_Some_conv split: if_splits)
  have "?s \<le> v_staked_amount v" by (rule calculate_slash_le)
  moreover have "v_staked_amount v \<le> sp_total_staked p" by (rule stake_le_total [OF inv Some])
  ultimately show ?thesis
    unfolding p' using inv Some v2
    by (intro pool_inv_update [OF inv Some]) (auto simp: pool_inv_def)
qed

subsection \<open>Reward distribution\<close>

text \<open>The loop changes reward debts only, and only those of the listed validators.\<close>

definition strip_debt :: "validator \<Rightarrow> validator" where
  "strip_debt v = v\<lparr>v_reward_debt := 0\<rparr>"

lemma strip_debt_update [simp]: "strip_debt (v\<lparr>v_reward_debt := d\<rparr>) = strip_debt v"
  by (simp add: strip_debt_def)

lemma strip_debt_eqD:
  "strip_debt v = strip_debt u \<Longrightarrow> v_id v = v_id u \<and> v_staked_amount v = v_staked_amount u \<and>
     v_active v = v_active u \<and> v_jailed_until v = v_jailed_until u"
  by (cases v; cases u) (simp add: strip_debt_def)

lemma reward_loop_frame:
  assumes "reward_loop r t ids (vs, d) = Some (vs', d')" and "hm_wf vs"
  shows "hm_wf vs' \<and>
    (\<forall>k. map_option strip_debt (hm_get vs' k) = map_option strip_debt (hm_get vs k)) \<and>
    (\<forall>k. k \<notin> set ids \<longrightarrow> hm_get vs' k = hm_get vs k) \<and>
    hm_sum v_staked_amount vs' = hm_sum v_staked_amount vs \<and>
    ((\<forall>k v. hm_get vs k = Some v \<longrightarrow> fits 128 (v_reward_debt v)) \<longrightarrow>
     (\<forall>k v. hm_get vs' k = Some v \<longrightarrow> fits 128 (v_reward_debt v)))"
  using assms
proof (induction ids arbitrary: vs d)
  case Nil
  then show ?case by simp
next
  case (Cons vid rest)
  from Cons.prems obtain share vs1 d1 where loop: "reward_loop r t rest (vs1, d1) = Some (vs', d')"
    and st: "(vs1, d1) = (vs, d) \<or>
      (\<exists>v. hm_get vs vid = Some v \<and>
         vs1 = hm_insert vid (v\<lparr>v_reward_debt := saturating_add 128 (v_reward_debt v) share\<rparr>) vs)"
    by (auto simp: bind_eq_Some_conv Let_def split: if_splits option.splits)
  have wf1: "hm_wf vs1" using st Cons.prems(2) by auto
  note IH = Cons.IH [OF loop wf1]
  from st show ?case
  proof
    assume "(vs1, d1) = (vs, d)"
    with IH show ?thesis by auto
  next
    assume "\<exists>v. hm_get vs vid = Some v \<and>
         vs1 = hm_insert vid (v\<lparr>v_reward_debt := saturating_add 128 (v_reward_debt v) share\<rparr>) vs"
    then obtain v where v: "hm_get vs vid = Some v"
      and vs1: "vs1 = hm_insert vid (v\<lparr>v_reward_debt := saturating_add 128 (v_reward_debt v) share\<rparr>) vs"
      by blast
    have sum1: "hm_sum v_staked_amount vs1 = hm_sum v_staked_amount vs"
      unfolding vs1 by (rule hm_sum_cong_get [OF Cons.prems(2) v]) simp
    have strip1: "map_option strip_debt (hm_get vs1 k) = map_option strip_debt (hm_get vs k)" for k
      using v Cons.prems(2) by (simp add: vs1)
    have get1: "hm_get vs1 k = hm_get vs k" if "k \<noteq> vid" for k
      using that Cons.prems(2) by (simp add: vs1)
    have fits1: "(\<forall>k v. hm_get vs k = Some v \<longrightarrow> fits 128 (v_reward_debt v)) \<longrightarrow>
      (\<forall>k v. hm_get vs1 k = Some v \<longrightarrow> fits 128 (v_reward_debt v))"
      using Cons.prems(2) by (auto simp: vs1 saturating_add_fits)
    from IH have strip2: "map_option strip_debt (hm_get vs' k) = map_option strip_debt (hm_get vs1 k)"
      and get2: "k \<notin> set rest \<Longrightarrow> hm_get vs' k = hm_get vs1 k" for k
      by blast+
    from IH have sum2: "hm_sum v_staked_amount vs' = hm_sum v_staked_amount vs1" by blast
    show ?thesis
    proof (intro conjI)
      show "hm_wf vs'" using IH by blast
      show "\<forall>k. map_option strip_debt (hm_get vs' k) = map_option strip_debt (hm_get vs k)"
        unfolding strip2 strip1 by (rule allI, rule refl)
      show "\<forall>k. k \<notin> set (vid # rest) \<longrightarrow> hm_get vs' k = hm_get vs k"
        using get2 get1 by simp
      show "hm_sum v_staked_amount vs' = hm_sum v_staked_amount vs"
        unfolding sum2 by (rule sum1)
      show "(\<forall>k v. hm_get vs k = Some v \<longrightarrow> fits 128 (v_reward_debt v)) \<longrightarrow>
        (\<forall>k v. hm_get vs' k = Some v \<longrightarrow> fits 128 (v_reward_debt v))"
        using IH fits1 by blast
    qed
  qed
qed

text \<open>
  If the shares of the listed validators are bounded by weights that add up to at most
  \<open>T\<close>, the loop hands out exactly the reward: the earlier shares cannot exceed it and the
  last validator takes the rest.
\<close>

lemma reward_loop_total:
  assumes "hm_wf vs" and "distinct ids" and "ids \<noteq> []"
    and "\<And>i. i \<in> set ids \<Longrightarrow> \<exists>v. hm_get vs i = Some v \<and>
           pro_rata_share (v_staked_amount v) r t = Some (sh i) \<and> sh i * T \<le> wt i * R"
    and "0 < T" and "R \<le> r"
    and "d * T + R * sum_list (map wt ids) \<le> R * T"
    and "hm_sum v_reward_debt vs + (r - d) < 2 ^ 128" and "r < 2 ^ 128"
  shows "\<exists>vs'. reward_loop r t ids (vs, d) = Some (vs', r) \<and>
    hm_sum v_reward_debt vs' + d = hm_sum v_reward_debt vs + r"
  using assms(1-4,7,8)
proof (induction ids arbitrary: vs d)
  case Nil
  then show ?case by simp
next
  case (Cons i rest)
  obtain v where v: "hm_get vs i = Some v" and sh: "pro_rata_share (v_staked_amount v) r t = Some (sh i)"
    and sh_le: "sh i * T \<le> wt i * R" using Cons.prems(4) [of i] by auto
  have dT: "d * T + R * wt i + R * sum_list (map wt rest) \<le> R * T"
    using Cons.prems(5) by (simp add: distrib_left)
  then have "d * T + sh i * T \<le> R * T" using sh_le by (simp add: mult.commute [of R])
  then have d_sh: "d + sh i \<le> R" using \<open>0 < T\<close> by (simp flip: distrib_right)
  have debt_le: "v_reward_debt v \<le> hm_sum v_reward_debt vs" by (rule hm_sum_member [OF v])
  define share where "share = (if rest = [] then r - d else sh i)"
  have share: "d + share \<le> r" using d_sh \<open>R \<le> r\<close> by (auto simp: share_def)
  define v' where "v' = v\<lparr>v_reward_debt := v_reward_debt v + share\<rparr>"
  define vs1 where "vs1 = (if share > 0 then hm_insert i v' vs else vs)"
  have sum1: "hm_sum v_reward_debt vs1 = hm_sum v_reward_debt vs + share"
    using hm_sum_update [OF Cons.prems(1) v, of v_reward_debt v'] by (simp add: vs1_def v'_def)
  have wf1: "hm_wf vs1" using Cons.prems(1) by (simp add: vs1_def)
  have step: "reward_loop r t (i # rest) (vs, d) = reward_loop r t rest (vs1, d + share)"
  proof -
    have pick: "(if rest = [] then Some (saturating_sub r d)
        else (case hm_get vs i of None \<Rightarrow> None
              | Some v \<Rightarrow> pro_rata_share (v_staked_amount v) r t)) = Some share"
      by (simp add: share_def v sh)
    have "saturating_add 128 (v_reward_debt v) share = v_reward_debt v + share"
      "saturating_add 128 d share = d + share"
      using share debt_le Cons.prems(6) \<open>r < 2 ^ 128\<close> by (auto intro!: saturating_add_exact)
    then show ?thesis
      unfolding reward_loop.simps pick by (simp add: v vs1_def v'_def)
  qed
  show ?case
  proof (cases "rest = []")
    case True
    with step sum1 share show ?thesis by (auto simp: share_def)
  next
    case False
    have "\<exists>v. hm_get vs1 j = Some v \<and>
       pro_rata_share (v_staked_amount v) r t = Some (sh j) \<and> sh j * T \<le> wt j * R"
      if "j \<in> set rest" for j
      using Cons.prems(1,2,4) that by (auto simp: vs1_def)
    moreover have "(d + share) * T + R * sum_list (map wt rest) \<le> R * T"
      using dT sh_le False by (simp add: share_def distrib_right mult.commute [of R])
    moreover have "hm_sum v_reward_debt vs1 + (r - (d + share)) < 2 ^ 128"
      using Cons.prems(6) sum1 share by simp
    moreover have "distinct rest" using Cons.prems(2) by simp
    ultimately obtain vs' where "reward_loop r t rest (vs1, d + share) = Some (vs', r)"
      "hm_sum v_reward_debt vs' + (d + share) = hm_sum v_reward_debt vs1 + r"
      using Cons.IH [OF wf1 _ False, of "d + share"] by blast
    with step sum1 show ?thesis by auto
  qed
qed

lemma pro_rata_share_direct:
  assumes "a * b < 2 ^ 128" and "0 < c"
  shows "pro_rata_share a b c = Some (a * b div c) \<and> a * b div c * c \<le> a * b"
  using assms by (simp add: pro_rata_share_def checked_mul_def)

lemma pro_rata_share_scaled:
  assumes "2 ^ 128 \<le> a * b" and "a \<le> c" and "c \<le> OIKOS_MAX_SUPPLY" and "b \<le> OIKOS_MAX_SUPPLY"
    and "10 ^ 18 \<le> c"
  shows "\<exists>s. pro_rata_share a b c = Some s \<and>
    s * (c div 10 ^ 18) \<le> (a div 10 ^ 18) * (b div 10 ^ 18 * 10 ^ 18)"
proof -
  define q where "q = a div 10 ^ 18 * (b div 10 ^ 18) div (c div 10 ^ 18)"
  have le: "a div 10 ^ 18 \<le> 10 ^ 9" "b div 10 ^ 18 \<le> 10 ^ 9"
    using assms by (simp_all add: OIKOS_MAX_SUPPLY_def)
  then have prod: "a div 10 ^ 18 * (b div 10 ^ 18) \<le> 10 ^ 9 * 10 ^ 9" by (rule mult_le_mono)
  have "q \<le> a div 10 ^ 18 * (b div 10 ^ 18)" unfolding q_def by (rule div_le_dividend)
  with prod have "q * 10 ^ 18 \<le> 10 ^ 36" by simp
  then have "pro_rata_share a b c = Some (q * 10 ^ 18)"
    using assms prod by (simp add: pro_rata_share_def checked_mul_def q_def Let_def)
  moreover have "q * (c div 10 ^ 18) \<le> a div 10 ^ 18 * (b div 10 ^ 18)"
    unfolding q_def by simp
  then have "q * 10 ^ 18 * (c div 10 ^ 18) \<le> a div 10 ^ 18 * (b div 10 ^ 18 * 10 ^ 18)"
    by (simp add: ac_simps)
  ultimately show ?thesis by blast
qed

definition active_ids :: "staking_pool \<Rightarrow> nat list" where
  "active_ids p = filter (is_active p) (hm_keys (sp_validators p))"

definition stake_of :: "staking_pool \<Rightarrow> nat \<Rightarrow> nat" where
  "stake_of p i = (case hm_get (sp_validators p) i of None \<Rightarrow> 0 | Some v \<Rightarrow> v_staked_amount v)"

lemma distinct_active_ids: "pool_inv p \<Longrightarrow> distinct (active_ids p)"
  by (simp add: active_ids_def pool_inv_def hm_wf_def hm_keys_def)

lemma sum_stake_of_keys:
  "hm_wf m \<Longrightarrow>
   sum_list (map (\<lambda>i. case hm_get m i of None \<Rightarrow> 0 | Some v \<Rightarrow> f v) (hm_keys m)) = hm_sum f m"
  unfolding hm_sum_def hm_keys_def hm_values_def hm_get_def hm_wf_def
  by (auto intro!: arg_cong [where f = sum_list] simp: case_prod_beta)

lemma sum_active_stakes:
  assumes "pool_inv p"
  shows "sum_list (map (stake_of p) (active_ids p)) \<le> sp_total_staked p"
proof -
  have "sum_list (map (stake_of p) (active_ids p))
      \<le> sum_list (map (stake_of p) (hm_keys (sp_validators p)))"
    unfolding active_ids_def by (rule sum_list_map_filter_le)
  also have "\<dots> = sp_total_staked p"
    using assms sum_stake_of_keys [of "sp_validators p" v_staked_amount]
    by (simp add: pool_inv_def stake_of_def [abs_def])
  finally show ?thesis .
qed

lemma sum_list_div_le: "sum_list (map (\<lambda>i. f i div c) xs) \<le> (sum_list (map f xs) :: nat) div c"
proof (induction xs)
  case Nil
  then show ?case by simp
next
  case (Cons x xs)
  have "f x div c + sum_list (map f xs) div c \<le> (f x + sum_list (map f xs)) div c"
    by (subst div_add1_eq) simp
  with Cons show ?case by simp
qed

lemma distribute_rewards_exact:
  assumes inv: "pool_inv p" and act: "active_ids p \<noteq> []" and pos: "0 < r" "0 < sp_total_staked p"
    and room: "hm_sum v_reward_debt (sp_validators p) + r < 2 ^ 128"
    and shares: "\<And>i. i \<in> set (active_ids p) \<Longrightarrow>
      \<exists>s. pro_rata_share (stake_of p i) r (sp_total_staked p) = Some s \<and> s * T \<le> wt i * R"
    and T: "0 < T" "R \<le> r" "sum_list (map wt (active_ids p)) \<le> T"
  shows "\<exists>p'. distribute_rewards p r = Some p' \<and>
    hm_sum v_reward_debt (sp_validators p') = hm_sum v_reward_debt (sp_validators p) + r"
proof -
  obtain sh where sh: "\<And>i. i \<in> set (active_ids p) \<Longrightarrow>
      pro_rata_share (stake_of p i) r (sp_total_staked p) = Some (sh i) \<and> sh i * T \<le> wt i * R"
    using shares by metis
  have "\<exists>v. hm_get (sp_validators p) i = Some v \<and>
      pro_rata_share (v_staked_amount v) r (sp_total_staked p) = Some (sh i) \<and> sh i * T \<le> wt i * R"
    if "i \<in> set (active_ids p)" for i
    using sh [OF that] that
    by (auto simp: active_ids_def is_active_def stake_of_def split: option.splits)
  moreover have "0 * T + R * sum_list (map wt (active_ids p)) \<le> R * T"
    using T(3) by simp
  moreover have "hm_wf (sp_validators p)" using inv by (simp add: pool_inv_def)
  ultimately obtain vs' where loop:
    "reward_loop r (sp_total_staked p) (active_ids p) (sp_validators p, 0) = Some (vs', r)"
    "hm_sum v_reward_debt vs' + 0 = hm_sum v_reward_debt (sp_validators p) + r"
    using reward_loop_total [OF _ distinct_active_ids [OF inv] act, of "sp_validators p" r
        "sp_total_staked p" sh T wt R 0] T room by fastforce
  then show ?thesis
    using act pos by (auto simp: distribute_rewards_def active_ids_def)
qed

lemma distribute_rewards_frame:
  assumes inv: "pool_inv p" and res: "distribute_rewards p r = Some p'"
  shows "pool_inv p' \<and>
    (\<forall>i. map_option strip_debt (hm_get (sp_validators p') i)
        = map_option strip_debt (hm_get (sp_validators p) i)) \<and>
    (\<forall>i. \<not> is_active p i \<longrightarrow> hm_get (sp_validators p') i = hm_get (sp_validators p) i)"
proof -
  consider "p' = p" | vs d where "p' = p\<lparr>sp_validators := vs\<rparr>"
      "reward_loop r (sp_total_staked p) (active_ids p) (sp_validators p, 0) = Some (vs, d)"
    using res by (auto simp: distribute_rewards_def active_ids_def Let_def split: if_splits)
  then show ?thesis
  proof cases
    case 1
    with inv show ?thesis by simp
  next
    case 2
    have "hm_wf (sp_validators p)" using inv by (simp add: pool_inv_def)
    note frame = reward_loop_frame [OF 2(2) this]
    have strip: "map_option strip_debt (hm_get vs i)
        = map_option strip_debt (hm_get (sp_validators p) i)" for i
      using frame by blast
    have "v_id v = i \<and> i < sp_next_validator_id p" if "hm_get vs i = Some v" for i v
    proof -
      from strip [of i] that obtain u where "hm_get (sp_validators p) i = Some u"
        "strip_debt v = strip_debt u" by (cases "hm_get (sp_validators p) i") auto
      with inv show ?thesis by (auto simp: pool_inv_def dest: strip_debt_eqD)
    qed
    moreover have "fits 128 (v_reward_debt v)" if "hm_get vs i = Some v" for i v
      using frame inv that unfolding pool_inv_def by blast
    ultimately have "pool_inv p'"
      using frame inv unfolding pool_inv_def 2(1) by simp
    moreover have "hm_get vs i = hm_get (sp_validators p) i" if "\<not> is_active p i" for i
      using frame that unfolding active_ids_def by auto
    ultimately show ?thesis using strip 2(1) by simp
  qed
qed

subsection \<open>Reachable pools\<close>

text \<open>
  A client may call the pool's methods in any order. The one thing it cannot do is stake
  more OIKOS than exist: the staked total and the amount added stay within the supply cap.
\<close>

inductive pool_reach :: "staking_pool \<Rightarrow> bool" where
  init: "pool_reach staking_pool_new"
| register: "pool_reach p \<Longrightarrow> register_validator p did = Some (p', r) \<Longrightarrow> pool_reach p'"
| stake: "pool_reach p \<Longrightarrow> sp_total_staked p + amount \<le> OIKOS_MAX_SUPPLY \<Longrightarrow>
    pool_reach (fst (stake p i amount))"
| unstake: "pool_reach p \<Longrightarrow> pool_reach (fst (unstake p i amount))"
| distribute: "pool_reach p \<Longrightarrow> distribute_rewards p r = Some p' \<Longrightarrow> pool_reach p'"
| claim: "pool_reach p \<Longrightarrow> pool_reach (fst (claim_rewards p i))"
| slash: "pool_reach p \<Longrightarrow> apply_slashing p i reason b = Some (p', res) \<Longrightarrow> pool_reach p'"

lemma pool_reach_inv: "pool_reach p \<Longrightarrow> pool_inv p"
proof (induction rule: pool_reach.induct)
  case init
  show ?case by (rule pool_inv_new)
next
  case (register p did p' r)
  then show ?case by (blast intro: register_validator_inv)
next
  case (stake p amount i)
  then show ?case by (intro stake_inv) (auto simp: OIKOS_MAX_SUPPLY_def)
next
  case (unstake p i amount)
  then show ?case by (blast intro: unstake_inv)
next
  case (distribute p r p')
  then show ?case using distribute_rewards_frame by blast
next
  case (claim p i)
  then show ?case by (blast intro: claim_rewards_inv)
next
  case (slash p i reason b p' res)
  then show ?case by (blast intro: apply_slashing_inv)
qed

text \<open>
  The pool's own tracker starts with nothing in circulation, so every record of a stake
  is refused and its result dropped.
\<close>

lemma record_stake_new: "fst (record_stake tvc_new a) = tvc_new"
  by (auto simp: record_stake_def tvc_new_def checked_add_def checked_sub_def split: option.split)

lemma record_unstake_new: "fst (record_unstake tvc_new a) = tvc_new"
  by (auto simp: record_unstake_def tvc_new_def checked_add_def checked_sub_def split: option.split)

lemma pool_reach_tracker: "pool_reach p \<Longrightarrow> sp_conservation p = tvc_new"
proof (induction rule: pool_reach.induct)
  case init
  show ?case by (simp add: staking_pool_new_def)
next
  case (register p did p' r)
  then show ?case by (auto simp: register_validator_def Let_def bind_eq_Some_conv)
next
  case (stake p amount i)
  then show ?case
    by (auto simp: stake_def Let_def record_stake_new split: option.split)
next
  case (unstake p i amount)
  then show ?case
    by (auto simp: unstake_def Let_def record_unstake_new split: option.split)
next
  case (distribute p r p')
  then show ?case
    by (auto simp: distribute_rewards_def Let_def split: if_splits)
next
  case (claim p i)
  then show ?case by (auto simp: claim_rewards_def split: option.split)
next
  case (slash p i reason b p' res)
  then show ?case
    by (auto simp: apply_slashing_def Let_def bind_eq_Some_conv split: option.splits if_splits)
qed

lemma distribute_rewards_direct:
  assumes inv: "pool_inv p" and act: "active_ids p \<noteq> []" and pos: "0 < r" "0 < sp_total_staked p"
    and room: "hm_sum v_reward_debt (sp_validators p) + r < 2 ^ 128"
    and direct: "\<forall>i \<in> set (active_ids p). stake_of p i * r < 2 ^ 128"
  shows "\<exists>p'. distribute_rewards p r = Some p' \<and>
    hm_sum v_reward_debt (sp_validators p') = hm_sum v_reward_debt (sp_validators p) + r"
proof -
  have "\<exists>s. pro_rata_share (stake_of p i) r (sp_total_staked p) = Some s \<and>
      s * sp_total_staked p \<le> stake_of p i * r" if "i \<in> set (active_ids p)" for i
    using direct that pro_rata_share_direct [of "stake_of p i" r "sp_total_staked p"] pos by auto
  then show ?thesis
    using distribute_rewards_exact [OF inv act pos room, of "sp_total_staked p" "stake_of p" r]
      pos sum_active_stakes [OF inv] by blast
qed

lemma distribute_rewards_scaled:
  fixes scale :: nat
  defines "scale \<equiv> 10 ^ 18"
  assumes inv: "pool_inv p" and act: "active_ids p \<noteq> []" and pos: "0 < r" "0 < sp_total_staked p"
    and room: "hm_sum v_reward_debt (sp_validators p) + r < 2 ^ 128"
    and big: "(\<forall>i \<in> set (active_ids p). 2 ^ 128 \<le> stake_of p i * r) \<and>
      sp_total_staked p \<le> OIKOS_MAX_SUPPLY \<and> r \<le> OIKOS_MAX_SUPPLY \<and> 10 ^ 18 \<le> sp_total_staked p"
  shows "\<exists>p'. distribute_rewards p r = Some p' \<and>
    hm_sum v_reward_debt (sp_validators p') = hm_sum v_reward_debt (sp_validators p) + r"
proof -
  have le: "stake_of p i \<le> sp_total_staked p" for i
    using stake_le_total [OF inv] by (auto simp: stake_of_def split: option.split)
  have "\<exists>s. pro_rata_share (stake_of p i) r (sp_total_staked p) = Some s \<and>
      s * (sp_total_staked p div scale) \<le> stake_of p i div scale * (r div scale * scale)"
    if "i \<in> set (active_ids p)" for i
    unfolding scale_def using pro_rata_share_scaled [OF _ le] big that by blast
  moreover have "0 < sp_total_staked p div scale"
    using big by (simp add: div_greater_zero_iff scale_def)
  moreover have "r div scale * scale \<le> r" by simp
  moreover have "sum_list (map (\<lambda>i. stake_of p i div scale) (active_ids p))
      \<le> sp_total_staked p div scale"
    using sum_list_div_le [of "stake_of p" scale "active_ids p"]
      div_le_mono [OF sum_active_stakes [OF inv], of scale] by linarith
  ultimately show ?thesis
    using distribute_rewards_exact [OF inv act pos room, of "sp_total_staked p div scale"
        "\<lambda>i. stake_of p i div scale" "r div scale * scale"] by blast
qed

subsection \<open>Properties\<close>

definition example_validator :: "nat \<Rightarrow> nat \<Rightarrow> validator" where
  "example_validator i s = \<lparr>v_id = i, v_operator_did = ''did'', v_staked_amount = s,
     v_reward_debt = 0, v_active = True, v_slashed_amount = 0, v_created_at = 0,
     v_jailed_until = 0\<rparr>"

definition example_pool :: "nat \<Rightarrow> nat \<Rightarrow> staking_pool" where
  "example_pool s1 s2 = \<lparr>sp_validators = [(1, example_validator 1 s1), (2, example_validator 2 s2)],
     sp_total_staked = s1 + s2, sp_next_validator_id = 3, sp_conservation = tvc_new\<rparr>"

lemma example_pool_reach:
  assumes "MINIMUM_STAKE \<le> s1" and "MINIMUM_STAKE \<le> s2" and "s1 + s2 \<le> OIKOS_MAX_SUPPLY"
  shows "pool_reach (example_pool s1 s2)"
proof -
  obtain p1 r1 where p1: "register_validator staking_pool_new ''did'' = Some (p1, r1)"
    by (simp add: register_validator_def staking_pool_new_def checked_add_def)
  obtain p2 r2 where p2: "register_validator p1 ''did'' = Some (p2, r2)"
    using p1 by (auto simp: register_validator_def staking_pool_new_def checked_add_def)
  have reach2: "pool_reach p2"
    by (rule pool_reach.register [OF pool_reach.register [OF pool_reach.init p1] p2])
  have shape2: "sp_validators p2 = [(1, example_validator 1 0), (2, example_validator 2 0)]"
    "sp_total_staked p2 = 0" "sp_next_validator_id p2 = 3" "sp_conservation p2 = tvc_new"
    using p1 p2
    by (auto simp: register_validator_def staking_pool_new_def checked_add_def hm_insert_def
        example_validator_def)
  have small: "s1 + s2 < 2 ^ 128" using assms(3) by (simp add: OIKOS_MAX_SUPPLY_def)
  have "pool_reach (fst (stake p2 1 s1))"
    by (rule pool_reach.stake [OF reach2]) (use assms shape2 in simp)
  then have "pool_reach (fst (stake (fst (stake p2 1 s1)) 2 s2))"
    by (rule pool_reach.stake)
      (use assms small shape2 in \<open>simp add: stake_def hm_get_def example_validator_def
        oikos_checked_add_def checked_add_def Let_def\<close>)
  also have "fst (stake (fst (stake p2 1 s1)) 2 s2) = example_pool s1 s2"
    using assms small shape2
    by (simp add: stake_def hm_get_def example_validator_def oikos_checked_add_def checked_add_def
        Let_def hm_insert_def record_stake_new example_pool_def)
  finally show ?thesis .
qed

text \<open>
  C20. Whatever sequence of registrations, stakes, unstakes, reward distributions, claims and
  slashes a pool has gone through, with successes and errors mixed, as long as no stake takes the
  pool above the maximal supply of the token (a check that \<open>stake\<close> does not make, and without which
  an overflow leaves the pool unbalanced: \<open>stake_overflow_unbalances\<close>), the staked total equals
  the sum of the validators' stakes, the pool's own check returns true without overflowing,
  and every validator is filed under its own identifier, below the next one to be assigned.
\<close>

theorem staking_total_invariant:
  assumes "pool_reach p"
  shows "staking_check_invariant p = Some True \<and>
    sp_total_staked p = hm_sum v_staked_amount (sp_validators p) \<and>
    (\<forall>i v. hm_get (sp_validators p) i = Some v \<longrightarrow> v_id v = i \<and> i < sp_next_validator_id p)"
  using pool_reach_inv [OF assms] pool_inv_check [OF pool_reach_inv [OF assms]]
  by (simp add: pool_inv_def)

theorem staking_total_invariant_witness:
  "staking_check_invariant (fst (unstake (example_pool MINIMUM_STAKE MINIMUM_STAKE) 1 MINIMUM_STAKE))
     = Some True"
proof -
  have "pool_reach (example_pool MINIMUM_STAKE MINIMUM_STAKE)"
    by (rule example_pool_reach) (simp_all add: MINIMUM_STAKE_def OIKOS_MAX_SUPPLY_def)
  from staking_total_invariant [OF pool_reach.unstake [OF this]] show ?thesis by blast
qed

text \<open>
  Distributing a reward over a reachable pool adds exactly the reward to the validators'
  debts, gives nothing to an inactive or jailed validator, and changes nothing but debts,
  provided the shares of all active validators are computed the same way: either no product
  of a stake and the reward overflows 128 bits, or all of them do and the amounts are within
  the supply cap.
\<close>

theorem distribute_rewards_conserves:
  assumes reach: "pool_reach p" and act: "active_ids p \<noteq> []"
    and pos: "0 < r" "0 < sp_total_staked p"
    and room: "hm_sum v_reward_debt (sp_validators p) + r < 2 ^ 128"
    and path: "(\<forall>i \<in> set (active_ids p). stake_of p i * r < 2 ^ 128) \<or>
      (\<forall>i \<in> set (active_ids p). 2 ^ 128 \<le> stake_of p i * r) \<and>
      sp_total_staked p \<le> OIKOS_MAX_SUPPLY \<and> r \<le> OIKOS_MAX_SUPPLY \<and> 10 ^ 18 \<le> sp_total_staked p"
  shows "\<exists>p'. distribute_rewards p r = Some p' \<and>
    hm_sum v_reward_debt (sp_validators p') = hm_sum v_reward_debt (sp_validators p) + r \<and>
    (\<forall>i. \<not> is_active p i \<longrightarrow> hm_get (sp_validators p') i = hm_get (sp_validators p) i) \<and>
    (\<forall>i. map_option strip_debt (hm_get (sp_validators p') i)
        = map_option strip_debt (hm_get (sp_validators p) i))"
proof -
  have inv: "pool_inv p" by (rule pool_reach_inv [OF reach])
  have "\<exists>p'. distribute_rewards p r = Some p' \<and>
    hm_sum v_reward_debt (sp_validators p') = hm_sum v_reward_debt (sp_validators p) + r"
    using path distribute_rewards_direct [OF inv act pos room]
      distribute_rewards_scaled [OF inv act pos room] by blast
  then show ?thesis using distribute_rewards_frame [OF inv] by blast
qed

theorem distribute_rewards_conserves_witness:
  "\<exists>p'. distribute_rewards (example_pool MINIMUM_STAKE (2 * MINIMUM_STAKE)) 1000 = Some p' \<and>
     hm_sum v_reward_debt (sp_validators p') = 1000"
proof -
  let ?p = "example_pool MINIMUM_STAKE (2 * MINIMUM_STAKE)"
  have "pool_reach ?p"
    by (rule example_pool_reach) (simp_all add: MINIMUM_STAKE_def OIKOS_MAX_SUPPLY_def)
  moreover have ids: "active_ids ?p = [1, 2]"
    by (simp add: active_ids_def example_pool_def is_active_def hm_get_def hm_keys_def
        example_validator_def eligible_def)
  moreover have "hm_sum v_reward_debt (sp_validators ?p) = 0"
    by (simp add: example_pool_def hm_sum_def hm_values_def example_validator_def)
  moreover have "\<forall>i \<in> set (active_ids ?p). stake_of ?p i * 1000 < 2 ^ 128"
    unfolding ids
    by (simp add: stake_of_def example_pool_def hm_get_def example_validator_def MINIMUM_STAKE_def)
  moreover have "0 < sp_total_staked ?p" by (simp add: example_pool_def MINIMUM_STAKE_def)
  ultimately show ?thesis
    using distribute_rewards_conserves [of ?p 1000] by auto
qed

text \<open>
  Slashing a validator of a reachable pool takes at most half of its stake, moves the
  staked total by exactly the slashed amount, leaves every other validator alone, and
  excludes the validator from rewards whenever the reason carries a jail term.
\<close>

theorem apply_slashing_effect:
  assumes reach: "pool_reach p" and v: "hm_get (sp_validators p) i = Some v"
    and res: "apply_slashing p i reason b = Some (p', Inr r)"
  shows "sr_original_stake r = v_staked_amount v \<and>
    sr_remaining_stake r + sr_slash_amount r = v_staked_amount v \<and>
    2 * sr_slash_amount r \<le> v_staked_amount v \<and>
    stake_of p' i = sr_remaining_stake r \<and>
    sp_total_staked p' + sr_slash_amount r = sp_total_staked p \<and>
    (jail_duration reason > 0 \<longrightarrow> \<not> is_active p' i) \<and>
    (\<forall>j. j \<noteq> i \<longrightarrow> hm_get (sp_validators p') j = hm_get (sp_validators p) j)"
proof -
  have inv: "pool_inv p" by (rule pool_reach_inv [OF reach])
  then have wf: "hm_wf (sp_validators p)" by (simp add: pool_inv_def)
  have half: "2 * calculate_slash v reason \<le> v_staked_amount v" by (cases reason) auto
  have le: "v_staked_amount v \<le> sp_total_staked p" by (rule stake_le_total [OF inv v])
  from res v wf half le show ?thesis
    by (cases reason)
      (auto simp: apply_slashing_def Let_def bind_eq_Some_conv stake_of_def is_active_def
        eligible_def)
qed

theorem apply_slashing_effect_witness:
  "\<exists>p' r. apply_slashing (example_pool MINIMUM_STAKE MINIMUM_STAKE) 1 DoubleSigning 7
       = Some (p', Inr r) \<and>
     stake_of p' 1 = MINIMUM_STAKE div 2 \<and> \<not> is_active p' 1"
proof -
  let ?p = "example_pool MINIMUM_STAKE MINIMUM_STAKE"
  have reach: "pool_reach ?p"
    by (rule example_pool_reach) (simp_all add: MINIMUM_STAKE_def OIKOS_MAX_SUPPLY_def)
  have v: "hm_get (sp_validators ?p) 1 = Some (example_validator 1 MINIMUM_STAKE)"
    by (simp add: example_pool_def hm_get_def)
  obtain p' r where res: "apply_slashing ?p 1 DoubleSigning 7 = Some (p', Inr r)"
      "sr_remaining_stake r = MINIMUM_STAKE div 2"
    using v by (simp add: apply_slashing_def checked_add_def example_validator_def
        MINIMUM_STAKE_def Let_def)
  from apply_slashing_effect [OF reach v res(1)] res show ?thesis by auto
qed

text \<open>
  When a stake would push the staked total past 128 bits, \<open>stake\<close> reports an error but
  has already credited the validator: the stakes no longer add up to the total, and the
  pool's own check overflows.
\<close>

theorem stake_overflow_unbalances:
  assumes inv: "pool_inv p" and v: "hm_get (sp_validators p) i = Some v" "eligible v"
    and a: "v_staked_amount v + a < 2 ^ 128" "MINIMUM_STAKE \<le> v_staked_amount v + a"
    and over: "2 ^ 128 \<le> sp_total_staked p + a"
  shows "\<exists>p' e. stake p i a = (p', Inl e) \<and> sp_total_staked p' = sp_total_staked p \<and>
    hm_sum v_staked_amount (sp_validators p') = sp_total_staked p + a \<and>
    staking_check_invariant p' = None"
proof -
  let ?v' = "v\<lparr>v_staked_amount := v_staked_amount v + a\<rparr>"
  let ?vs = "hm_insert i ?v' (sp_validators p)"
  have "hm_sum v_staked_amount ?vs = sp_total_staked p + a"
    using hm_sum_update [OF _ v(1), of v_staked_amount ?v'] inv by (simp add: pool_inv_def)
  moreover have "stake p i a =
      (p\<lparr>sp_validators := ?vs\<rparr>, Inl (InsufficientStake (sp_total_staked p) a))"
    using v a over
    by (simp add: stake_def eligible_def oikos_checked_add_def checked_add_def Let_def)
  ultimately show ?thesis
    using over by (simp add: staking_check_invariant_def checked_sum_iff hm_sum_def)
qed

theorem stake_overflow_unbalances_witness:
  "\<exists>p' e. stake (example_pool (2 ^ 127) (2 ^ 127 - 1)) 2 1 = (p', Inl e) \<and>
     staking_check_invariant p' = None"
proof -
  let ?p = "example_pool (2 ^ 127) (2 ^ 127 - 1)"
  have "pool_inv ?p"
    by (auto simp: pool_inv_def example_pool_def example_validator_def hm_wf_def hm_get_def
        hm_sum_def hm_values_def fits_def split: if_splits)
  moreover have "hm_get (sp_validators ?p) 2 = Some (example_validator 2 (2 ^ 127 - 1))"
    by (simp add: example_pool_def hm_get_def)
  ultimately show ?thesis
    using stake_overflow_unbalances [of ?p 2 "example_validator 2 (2 ^ 127 - 1)" 1]
    by (auto simp: example_validator_def eligible_def MINIMUM_STAKE_def example_pool_def)
qed

text \<open>
  The conservation tracker inside a staking pool records nothing: in every reachable
  pool it is the empty tracker, because the tracker starts with no OIKOS in circulation,
  refuses every stake record, and the refusal is ignored.
\<close>

theorem pool_tracker_stays_empty:
  assumes "pool_reach p"
  shows "sp_conservation p = tvc_new"
  by (rule pool_reach_tracker [OF assms])

theorem pool_tracker_stays_empty_witness:
  "sp_conservation (example_pool MINIMUM_STAKE MINIMUM_STAKE) = tvc_new"
proof -
  have "pool_reach (example_pool MINIMUM_STAKE MINIMUM_STAKE)"
    by (rule example_pool_reach) (simp_all add: MINIMUM_STAKE_def OIKOS_MAX_SUPPLY_def)
  then show ?thesis by (rule pool_tracker_stays_empty)
qed

end
