(* ===== verification/Dag.thy ===== *)
theory Dag
  imports Ledger Rust_Maps "HOL-Library.Multiset"
begin

text \<open>
  The transaction DAG of \<open>koinon-dag\<close>: transactions (\<open>tx.rs\<close>), the graph and its insertion
  (\<open>dag.rs\<close>), and the grouping of transactions by depth that parallel execution uses.

  Depths are computed by a memoising recursion over the parents that Rust does not bound.
  The model takes a fuel argument; \<open>None\<close> stands for exhausted fuel as well as for
  the panic of indexing a missing node. For a graph built by insertions, fuel above the
  number of nodes always gives a result (\<open>compute_depths_total\<close>), so neither happens.
\<close>

subsection \<open>Transactions\<close>

type_synonym tx_hash = "nat list"

datatype tx_kind =
  TransferOikos | TransferKoin | MintKoin | BurnKoin | EscrowCreate | EscrowRelease | EscrowCancel
| StreamStart | StreamStop | RfpPublish | RfpRespond | MandateCreate | MandateSpend

datatype tx_status = Pending | Settled | Failed | Conflict

record transaction =
  tx_hash :: tx_hash
  tx_kind :: tx_kind
  tx_sender :: nat
  tx_recipient :: nat
  tx_oikos_amount :: oikos
  tx_koin_amount :: koin
  tx_gas_limit :: nat
  tx_nonce :: nat
  tx_parent_hashes :: "tx_hash list"
  tx_timestamp :: nat

definition conflicts_with :: "transaction \<Rightarrow> transaction \<Rightarrow> bool" where
  "conflicts_with a b \<longleftrightarrow> tx_sender a = tx_sender b \<and> tx_nonce a = tx_nonce b"

subsection \<open>The graph\<close>

datatype dag_error =
  CycleDetected | MissingParent tx_hash | AlreadyExists tx_hash | DagConflict tx_hash tx_hash

record dag_node =
  dn_tx :: transaction
  dn_status :: tx_status
  dn_children :: "tx_hash list"

record dag =
  dag_nodes :: "(tx_hash, dag_node) hmap"
  dag_tip_set :: "tx_hash list"

definition dag_new :: dag where
  "dag_new = \<lparr>dag_nodes = [], dag_tip_set = []\<rparr>"

definition push_child :: "tx_hash \<Rightarrow> (tx_hash, dag_node) hmap \<Rightarrow> tx_hash \<Rightarrow> (tx_hash, dag_node) hmap" where
  "push_child h nodes parent_hash =
     (case hm_get nodes parent_hash of
        Some parent \<Rightarrow> hm_insert parent_hash (parent\<lparr>dn_children := dn_children parent @ [h]\<rparr>) nodes
      | None \<Rightarrow> nodes)"

definition dag_insert :: "dag \<Rightarrow> transaction \<Rightarrow> dag \<times> dag_error unit_result" where
  "dag_insert d tx =
     (if hm_contains (dag_nodes d) (tx_hash tx) then (d, Inl (AlreadyExists (tx_hash tx)))
      else case find (\<lambda>p. \<not> hm_contains (dag_nodes d) p) (tx_parent_hashes tx) of
        Some p \<Rightarrow> (d, Inl (MissingParent p))
      | None \<Rightarrow>
          let node = \<lparr>dn_tx = tx, dn_status = Pending, dn_children = []\<rparr>;
              tips = removeAll (tx_hash tx) (dag_tip_set d);
              linked = foldl (push_child (tx_hash tx)) (dag_nodes d) (tx_parent_hashes tx)
          in (d\<lparr>dag_nodes := hm_insert (tx_hash tx) node linked,
                dag_tip_set := List.insert (tx_hash tx) tips\<rparr>, Inr ()))"

definition dag_get :: "dag \<Rightarrow> tx_hash \<Rightarrow> dag_node option" where
  "dag_get d h = hm_get (dag_nodes d) h"

definition tips :: "dag \<Rightarrow> tx_hash list" where
  "tips d = dag_tip_set d"

definition settled_nodes :: "dag \<Rightarrow> (tx_hash \<times> dag_node) list" where
  "settled_nodes d = filter (\<lambda>(_, node). dn_status node = Settled) (dag_nodes d)"

definition dag_len :: "dag \<Rightarrow> nat" where
  "dag_len d = length (dag_nodes d)"

definition dag_is_empty :: "dag \<Rightarrow> bool" where
  "dag_is_empty d \<longleftrightarrow> dag_nodes d = []"

subsection \<open>Depths and parallel groups\<close>

function compute_depth ::
    "nat \<Rightarrow> (tx_hash, dag_node) hmap \<Rightarrow> tx_hash \<Rightarrow> dag_node \<Rightarrow> (tx_hash, nat) hmap \<Rightarrow> (tx_hash, nat) hmap panics"
  and parent_depths ::
    "nat \<Rightarrow> (tx_hash, dag_node) hmap \<Rightarrow> tx_hash list \<Rightarrow> (tx_hash, nat) hmap \<Rightarrow> ((tx_hash, nat) hmap \<times> nat list) panics"
where
  "compute_depth 0 nodes h node depths = None"
| "compute_depth (Suc n) nodes h node depths =
     (if hm_contains depths h then Some depths
      else do {
        (depths', ds) \<leftarrow> parent_depths n nodes (tx_parent_hashes (dn_tx node)) depths;
        let max_parent_depth = foldr max ds 0;
        Some (hm_insert h max_parent_depth depths')
      })"
| "parent_depths n nodes [] depths = Some (depths, [])"
| "parent_depths n nodes (ph # phs) depths =
     do {
       parent \<leftarrow> hm_get nodes ph;
       depths1 \<leftarrow> compute_depth n nodes ph parent depths;
       d \<leftarrow> hm_get depths1 ph;
       (depths2, ds) \<leftarrow> parent_depths n nodes phs depths1;
       Some (depths2, (d + 1) # ds)
     }"
  by pat_completeness auto
termination
  by (relation "measures [case_sum (\<lambda>(n, _). n) (\<lambda>(n, _). n),
        case_sum (\<lambda>_. 0) (\<lambda>(_, _, phs, _). Suc (length phs))]") auto

fun compute_depths_loop ::
    "nat \<Rightarrow> (tx_hash, dag_node) hmap \<Rightarrow> (tx_hash \<times> dag_node) list \<Rightarrow> (tx_hash, nat) hmap \<Rightarrow> (tx_hash, nat) hmap panics"
where
  "compute_depths_loop fuel nodes [] depths = Some depths"
| "compute_depths_loop fuel nodes ((h, node) # rest) depths =
     do {
       depths' \<leftarrow> compute_depth fuel nodes h node depths;
       compute_depths_loop fuel nodes rest depths'
     }"

definition compute_depths :: "dag \<Rightarrow> (tx_hash, nat) hmap panics" where
  "compute_depths d = compute_depths_loop (Suc (dag_len d)) (dag_nodes d) (dag_nodes d) []"

definition push_group :: "(nat, tx_hash list) hmap \<Rightarrow> tx_hash \<times> nat \<Rightarrow> (nat, tx_hash list) hmap" where
  "push_group groups entry =
     (let (h, depth) = entry;
          group = (case hm_get groups depth of None \<Rightarrow> [] | Some g \<Rightarrow> g)
      in hm_insert depth (group @ [h]) groups)"

definition group_key :: "(tx_hash, nat) hmap \<Rightarrow> tx_hash list \<Rightarrow> nat" where
  "group_key depths g =
     (case g of [] \<Rightarrow> 0 | h # _ \<Rightarrow> (case hm_get depths h of None \<Rightarrow> 0 | Some n \<Rightarrow> n))"

definition parallelizable_groups :: "dag \<Rightarrow> tx_hash list list panics" where
  "parallelizable_groups d =
     do {
       depth_map \<leftarrow> compute_depths d;
       let groups = foldl push_group [] depth_map;
       Some (sort_key (group_key depth_map) (hm_values groups))
     }"

subsection \<open>Insertion\<close>

lemma hm_get_push_child:
  "hm_wf nodes \<Longrightarrow> hm_get (push_child h nodes p) k =
     map_option (\<lambda>n. if k = p then n\<lparr>dn_children := dn_children n @ [h]\<rparr> else n) (hm_get nodes k)"
  by (cases "hm_get nodes p"; cases "hm_get nodes k") (auto simp: push_child_def)

lemma hm_wf_push_child [simp]: "hm_wf nodes \<Longrightarrow> hm_wf (push_child h nodes p)"
  by (auto simp: push_child_def split: option.splits)

lemma hm_keys_push_child [simp]: "hm_keys (push_child h nodes p) = hm_keys nodes"
  by (auto simp: push_child_def hm_keys_update split: option.splits)

definition link :: "tx_hash \<Rightarrow> tx_hash list \<Rightarrow> (tx_hash, dag_node) hmap \<Rightarrow> (tx_hash, dag_node) hmap" where
  "link h ps nodes = foldl (push_child h) nodes ps"

lemma link_keys_wf:
  "hm_wf nodes \<Longrightarrow> hm_wf (link h ps nodes) \<and> hm_keys (link h ps nodes) = hm_keys nodes"
  unfolding link_def by (induction ps arbitrary: nodes) auto

lemma hm_get_link:
  "hm_wf nodes \<Longrightarrow> hm_get (link h ps nodes) k =
     map_option (\<lambda>n. n\<lparr>dn_children := dn_children n @ replicate (count_list ps k) h\<rparr>) (hm_get nodes k)"
  unfolding link_def
proof (induction ps arbitrary: nodes)
  case Nil
  then show ?case by (cases "hm_get nodes k") simp_all
next
  case (Cons p ps)
  then show ?case
    by (cases "hm_get nodes k") (auto simp: hm_get_push_child replicate_app_Cons_same)
qed

text \<open>
  The invariant of the graph: nodes are stored under their hash, parents exist, the children
  lists are the inverse of the parent lists, every node is a tip, and the parent relation
  has a rank bounded by the number of nodes, so that it has no cycle.
\<close>

definition rank_ok :: "(tx_hash \<Rightarrow> nat) \<Rightarrow> (tx_hash, dag_node) hmap \<Rightarrow> bool" where
  "rank_ok r nodes \<longleftrightarrow>
     (\<forall>h n. hm_get nodes h = Some n \<longrightarrow>
        r h < length nodes \<and> (\<forall>p \<in> set (tx_parent_hashes (dn_tx n)). hm_contains nodes p \<and> r p < r h))"

definition parent_of :: "dag \<Rightarrow> tx_hash \<Rightarrow> tx_hash \<Rightarrow> bool" where
  "parent_of d p c \<longleftrightarrow> (\<exists>n. dag_get d c = Some n \<and> p \<in> set (tx_parent_hashes (dn_tx n)))"

definition dag_inv :: "dag \<Rightarrow> bool" where
  "dag_inv d \<longleftrightarrow>
     hm_wf (dag_nodes d) \<and>
     (\<forall>h n. dag_get d h = Some n \<longrightarrow>
        tx_hash (dn_tx n) = h \<and> set (dn_children n) = {c. parent_of d h c}) \<and>
     set (tips d) = {h. dag_get d h \<noteq> None} \<and>
     (\<exists>r. rank_ok r (dag_nodes d))"

lemma dag_inv_new: "dag_inv dag_new"
  by (simp add: dag_inv_def dag_new_def dag_get_def tips_def rank_ok_def)

lemma length_hm_insert_fresh: "hm_get m k = None \<Longrightarrow> length (hm_insert k v m) = Suc (length m)"
  unfolding hm_get_def hm_insert_def
proof (induction m)
  case Nil
  then show ?case by simp
next
  case (Cons a m)
  then show ?case by (cases a) (auto split: if_splits)
qed

lemma dag_insert_Ok:
  assumes "snd (dag_insert d tx) = Inr ()"
  shows "dag_get d (tx_hash tx) = None \<and> (\<forall>p \<in> set (tx_parent_hashes tx). dag_get d p \<noteq> None) \<and>
    fst (dag_insert d tx) =
      d\<lparr>dag_nodes := hm_insert (tx_hash tx) \<lparr>dn_tx = tx, dn_status = Pending, dn_children = []\<rparr>
           (link (tx_hash tx) (tx_parent_hashes tx) (dag_nodes d)),
        dag_tip_set := List.insert (tx_hash tx) (removeAll (tx_hash tx) (dag_tip_set d))\<rparr>"
proof (cases "find (\<lambda>p. \<not> hm_contains (dag_nodes d) p) (tx_parent_hashes tx)")
  case None
  then have "\<forall>p \<in> set (tx_parent_hashes tx). dag_get d p \<noteq> None"
    by (auto simp: find_None_iff hm_contains_def dag_get_def)
  moreover have "dag_get d (tx_hash tx) = None"
    using assms by (auto simp: dag_insert_def hm_contains_def dag_get_def split: if_splits)
  ultimately show ?thesis
    using None by (simp add: dag_insert_def dag_get_def hm_contains_def link_def Let_def)
qed (use assms in \<open>auto simp: dag_insert_def split: if_splits\<close>)

lemma dag_insert_Err: "snd (dag_insert d tx) = Inl e \<Longrightarrow> fst (dag_insert d tx) = d"
  by (auto simp: dag_insert_def Let_def split: if_splits option.splits)

lemma dag_get_insert:
  assumes "hm_wf (dag_nodes d)" and "snd (dag_insert d tx) = Inr ()"
  shows "dag_get (fst (dag_insert d tx)) k =
    (if k = tx_hash tx then Some \<lparr>dn_tx = tx, dn_status = Pending, dn_children = []\<rparr>
     else map_option (\<lambda>n. n\<lparr>dn_children := dn_children n @
            replicate (count_list (tx_parent_hashes tx) k) (tx_hash tx)\<rparr>) (dag_get d k))"
  using dag_insert_Ok [OF assms(2)] link_keys_wf [OF assms(1)] hm_get_link [OF assms(1)]
  by (simp add: dag_get_def)

lemma rank_ok_insert:
  assumes wf: "hm_wf (dag_nodes d)" and ok: "snd (dag_insert d tx) = Inr ()"
    and r: "rank_ok r (dag_nodes d)"
  shows "rank_ok (r(tx_hash tx := dag_len d)) (dag_nodes (fst (dag_insert d tx)))"
proof -
  let ?d = "fst (dag_insert d tx)"
  note ins = dag_insert_Ok [OF ok]
  have "length (hm_keys (link (tx_hash tx) (tx_parent_hashes tx) (dag_nodes d))) = dag_len d"
    using link_keys_wf [OF wf] by (simp add: dag_len_def hm_keys_def)
  then have "length (link (tx_hash tx) (tx_parent_hashes tx) (dag_nodes d)) = dag_len d"
    by (simp add: hm_keys_def)
  then have len: "length (dag_nodes ?d) = Suc (dag_len d)"
    using ins hm_get_link [OF wf] by (simp add: length_hm_insert_fresh dag_get_def)
  note get = dag_get_insert [OF wf ok, unfolded dag_get_def]
  have fresh: "hm_get (dag_nodes d) (tx_hash tx) = None"
    using ins by (simp add: dag_get_def)
  have known: "hm_contains (dag_nodes d) p" if "p \<in> set (tx_parent_hashes tx)" for p
    using ins that by (auto simp: dag_get_def hm_contains_def)
  have rD: "r h < dag_len d \<and> (\<forall>p \<in> set (tx_parent_hashes (dn_tx n)). hm_contains (dag_nodes d) p \<and> r p < r h)"
    if "hm_get (dag_nodes d) h = Some n" for h n
    using r that by (auto simp: rank_ok_def dag_len_def)
  have keep: "hm_contains (dag_nodes ?d) p \<and> p \<noteq> tx_hash tx \<and> r p < dag_len d"
    if "hm_contains (dag_nodes d) p" for p
    using that fresh rD by (auto simp: hm_contains_def get)
  show ?thesis
    unfolding rank_ok_def len
  proof (intro allI impI)
    fix h n
    assume h: "hm_get (dag_nodes ?d) h = Some n"
    show "(r(tx_hash tx := dag_len d)) h < Suc (dag_len d) \<and>
      (\<forall>p \<in> set (tx_parent_hashes (dn_tx n)). hm_contains (dag_nodes ?d) p \<and>
        (r(tx_hash tx := dag_len d)) p < (r(tx_hash tx := dag_len d)) h)"
    proof (cases "h = tx_hash tx")
      case True
      with h have "n = \<lparr>dn_tx = tx, dn_status = Pending, dn_children = []\<rparr>" by (simp add: get)
      with True keep [OF known] show ?thesis by fastforce
    next
      case False
      with h obtain m where m: "hm_get (dag_nodes d) h = Some m" "dn_tx n = dn_tx m" by (auto simp: get)
      from rD [OF m(1)] keep False m(2) show ?thesis by (auto simp: less_SucI)
    qed
  qed
qed

lemma dag_inv_insert:
  assumes "dag_inv d"
  shows "dag_inv (fst (dag_insert d tx))"
proof (cases "snd (dag_insert d tx)")
  case (Inl e)
  with assms show ?thesis by (simp add: dag_insert_Err)
next
  case (Inr u)
  then have ok: "snd (dag_insert d tx) = Inr ()" by simp
  let ?d = "fst (dag_insert d tx)"
  note ins = dag_insert_Ok [OF ok]
  from assms have wf: "hm_wf (dag_nodes d)" by (simp add: dag_inv_def)
  note get = dag_get_insert [OF wf ok]
  have parents: "parent_of ?d p c \<longleftrightarrow>
      (if c = tx_hash tx then p \<in> set (tx_parent_hashes tx) else parent_of d p c)" for p c
    by (auto simp: parent_of_def get)
  have nochild: "\<not> parent_of d (tx_hash tx) c" for c
    using assms conjunct1 [OF ins]
    by (fastforce simp: dag_inv_def rank_ok_def parent_of_def dag_get_def hm_contains_def)
  have "tx_hash (dn_tx n) = h \<and> set (dn_children n) = {c. parent_of ?d h c}"
    if "dag_get ?d h = Some n" for h n
  proof (cases "h = tx_hash tx")
    case True
    have "tx_hash tx \<notin> set (tx_parent_hashes tx)" using ins by auto
    with True that nochild show ?thesis by (auto simp: get parents)
  next
    case False
    with that obtain m where m: "dag_get d h = Some m"
      "n = m\<lparr>dn_children := dn_children m @ replicate (count_list (tx_parent_hashes tx) h) (tx_hash tx)\<rparr>"
      by (auto simp: get)
    from assms m(1) have old: "tx_hash (dn_tx m) = h" "set (dn_children m) = {c. parent_of d h c}"
      by (auto simp: dag_inv_def)
    have "\<not> parent_of d h (tx_hash tx)" using ins by (simp add: parent_of_def)
    then have "{c. parent_of ?d h c} = {c. parent_of d h c} \<union> (if h \<in> set (tx_parent_hashes tx) then {tx_hash tx} else {})"
      by (auto simp: parents)
    moreover have "set (dn_children n) = set (dn_children m) \<union> (if h \<in> set (tx_parent_hashes tx) then {tx_hash tx} else {})"
      using m(2) by (simp add: count_list_0_iff)
    ultimately show ?thesis using old m(2) by simp
  qed
  moreover have "hm_wf (dag_nodes ?d)" using ins link_keys_wf [OF wf] by simp
  moreover have "set (tips ?d) = insert (tx_hash tx) (set (tips d))" using ins by (auto simp: tips_def)
  then have "set (tips ?d) = {h. dag_get ?d h \<noteq> None}"
    using assms by (auto simp: dag_inv_def get)
  moreover have "\<exists>r. rank_ok r (dag_nodes ?d)"
    using assms rank_ok_insert [OF wf ok] by (auto simp: dag_inv_def)
  ultimately show ?thesis by (simp add: dag_inv_def)
qed

subsection \<open>Depths\<close>

text \<open>
  A partial depth table is correct when every entry belongs to a node whose parents are in
  the table too, and is one more than the deepest of them (zero without parents).
\<close>

definition depth_entry :: "(tx_hash, nat) hmap \<Rightarrow> dag_node \<Rightarrow> nat" where
  "depth_entry depths n =
     foldr max (map (\<lambda>p. the (hm_get depths p) + 1) (tx_parent_hashes (dn_tx n))) 0"

definition depths_ok :: "(tx_hash, dag_node) hmap \<Rightarrow> (tx_hash, nat) hmap \<Rightarrow> bool" where
  "depths_ok nodes depths \<longleftrightarrow> hm_wf depths \<and>
     (\<forall>h d. hm_get depths h = Some d \<longrightarrow>
        (\<exists>n. hm_get nodes h = Some n \<and>
           (\<forall>p \<in> set (tx_parent_hashes (dn_tx n)). hm_contains depths p) \<and> d = depth_entry depths n))"

text \<open>Growing a table below a rank: new entries have rank below \<open>b\<close>, old ones are kept.\<close>

definition grows :: "(tx_hash \<Rightarrow> nat) \<Rightarrow> nat \<Rightarrow> (tx_hash, nat) hmap \<Rightarrow> (tx_hash, nat) hmap \<Rightarrow> bool" where
  "grows r b depths depths' \<longleftrightarrow>
     (\<forall>h d. hm_get depths h = Some d \<longrightarrow> hm_get depths' h = Some d) \<and>
     (\<forall>h. hm_contains depths' h \<longrightarrow> hm_contains depths h \<or> r h < b)"

lemma grows_refl: "grows r b depths depths"
  by (simp add: grows_def)

lemma grows_trans:
  "grows r b x y \<Longrightarrow> b \<le> c \<Longrightarrow> grows r c y z \<Longrightarrow> grows r c x z"
  unfolding grows_def by (meson less_le_trans)

lemma grows_contains: "grows r b x y \<Longrightarrow> hm_contains x h \<Longrightarrow> hm_contains y h"
  by (auto simp: grows_def hm_contains_def)

lemma depth_entry_cong:
  "(\<And>p. p \<in> set (tx_parent_hashes (dn_tx n)) \<Longrightarrow> hm_get x p = hm_get y p) \<Longrightarrow> depth_entry x n = depth_entry y n"
  unfolding depth_entry_def by (metis (mono_tags, lifting) map_cong)

lemma depths_ok_insert:
  assumes ok: "depths_ok nodes depths" and h: "hm_get depths h = None"
    and n: "hm_get nodes h = Some n" and ps: "\<forall>p \<in> set (tx_parent_hashes (dn_tx n)). hm_contains depths p"
  shows "depths_ok nodes (hm_insert h (depth_entry depths n) depths)"
proof -
  let ?D = "hm_insert h (depth_entry depths n) depths"
  from ok have wf: "hm_wf depths" by (simp add: depths_ok_def)
  have same: "depth_entry ?D m = depth_entry depths m"
    if "\<forall>p \<in> set (tx_parent_hashes (dn_tx m)). hm_contains depths p" for m
    using that h wf by (intro depth_entry_cong) (auto simp: hm_contains_def)
  have "\<exists>m. hm_get nodes k = Some m \<and>
      (\<forall>p \<in> set (tx_parent_hashes (dn_tx m)). hm_contains ?D p) \<and> d = depth_entry ?D m"
    if "hm_get ?D k = Some d" for k d
  proof (cases "k = h")
    case True
    with that wf n ps same show ?thesis by auto
  next
    case False
    with that wf ok obtain m where "hm_get nodes k = Some m" "d = depth_entry depths m"
      and "\<forall>p \<in> set (tx_parent_hashes (dn_tx m)). hm_contains depths p"
      by (auto simp: depths_ok_def)
    with same wf show ?thesis by auto
  qed
  with wf show ?thesis by (auto simp: depths_ok_def)
qed

lemma compute_depth_step:
  assumes rank: "rank_ok r nodes"
    and IH: "\<And>h n depths. hm_get nodes h = Some n \<Longrightarrow> r h < fuel \<Longrightarrow> depths_ok nodes depths \<Longrightarrow>
      \<exists>D. compute_depth fuel nodes h n depths = Some D \<and> depths_ok nodes D \<and>
          grows r (Suc (r h)) depths D \<and> hm_contains D h"
    and ps: "\<forall>p \<in> set ps. hm_contains nodes p \<and> r p < b" and b: "b \<le> fuel"
    and ok: "depths_ok nodes depths"
  shows "\<exists>D. parent_depths fuel nodes ps depths = Some (D, map (\<lambda>p. the (hm_get D p) + 1) ps) \<and>
    depths_ok nodes D \<and> grows r b depths D \<and> (\<forall>p \<in> set ps. hm_contains D p)"
  using ps ok
proof (induction ps arbitrary: depths)
  case Nil
  then show ?case by (simp add: grows_refl)
next
  case (Cons p ps)
  then obtain n where n: "hm_get nodes p = Some n" by (auto simp: hm_contains_def)
  from Cons.prems(1) b have "r p < fuel" by auto
  from IH [OF n this Cons.prems(2)] obtain D1 where
    D1: "compute_depth fuel nodes p n depths = Some D1" "depths_ok nodes D1"
      "grows r (Suc (r p)) depths D1" "hm_contains D1 p" by blast
  then obtain d where d: "hm_get D1 p = Some d" by (auto simp: hm_contains_def)
  from Cons.IH [OF _ D1(2)] Cons.prems(1) obtain D2 where
    D2: "parent_depths fuel nodes ps D1 = Some (D2, map (\<lambda>p. the (hm_get D2 p) + 1) ps)"
      "depths_ok nodes D2" "grows r b D1 D2" "\<forall>p \<in> set ps. hm_contains D2 p" by auto
  from D2(3) d have "hm_get D2 p = Some d" by (simp add: grows_def)
  moreover have "grows r b depths D2"
    using D1(3) _ D2(3) by (rule grows_trans) (use Cons.prems(1) in auto)
  ultimately show ?case
    using n D1(1) d D2 by (auto simp: hm_contains_def)
qed

lemma compute_depth_total:
  assumes rank: "rank_ok r nodes" and "hm_get nodes h = Some n" and "r h < fuel" and "depths_ok nodes depths"
  shows "\<exists>D. compute_depth fuel nodes h n depths = Some D \<and> depths_ok nodes D \<and>
    grows r (Suc (r h)) depths D \<and> hm_contains D h"
  using assms(2-)
proof (induction fuel arbitrary: h n depths)
  case 0
  then show ?case by simp
next
  case (Suc fuel)
  show ?case
  proof (cases "hm_contains depths h")
    case True
    with Suc.prems show ?thesis by (simp add: grows_refl)
  next
    case False
    from rank Suc.prems(1) have ps: "\<forall>p \<in> set (tx_parent_hashes (dn_tx n)). hm_contains nodes p \<and> r p < r h"
      by (auto simp: rank_ok_def)
    from Suc.prems(2) have "r h \<le> fuel" by simp
    from compute_depth_step [OF rank Suc.IH ps this Suc.prems(3)] obtain D where
      D: "parent_depths fuel nodes (tx_parent_hashes (dn_tx n)) depths =
            Some (D, map (\<lambda>p. the (hm_get D p) + 1) (tx_parent_hashes (dn_tx n)))"
        "depths_ok nodes D" "grows r (r h) depths D"
        "\<forall>p \<in> set (tx_parent_hashes (dn_tx n)). hm_contains D p" by auto
    from D(3) False have fresh: "hm_get D h = None"
      by (auto simp: grows_def hm_contains_def)
    let ?D = "hm_insert h (depth_entry D n) D"
    have "compute_depth (Suc fuel) nodes h n depths = Some ?D"
      using False D(1) by (simp add: depth_entry_def Let_def)
    moreover have "depths_ok nodes ?D"
      using D(2) fresh Suc.prems(1) D(4) by (rule depths_ok_insert)
    moreover have wf: "hm_wf D" using D(2) by (simp add: depths_ok_def)
    have "grows r (Suc (r h)) depths ?D"
      using D(3) fresh wf by (auto simp: grows_def hm_contains_def less_Suc_eq)
    ultimately show ?thesis using wf by (auto simp: hm_contains_def)
  qed
qed

lemma compute_depths_loop_total:
  assumes rank: "rank_ok r nodes" and "\<forall>(h, n) \<in> set todo. hm_get nodes h = Some n"
    and "length nodes < fuel" and "depths_ok nodes depths"
  shows "\<exists>D. compute_depths_loop fuel nodes todo depths = Some D \<and> depths_ok nodes D \<and>
    (\<forall>h. hm_contains depths h \<or> h \<in> fst ` set todo \<longrightarrow> hm_contains D h)"
  using assms(2-)
proof (induction todo arbitrary: depths)
  case Nil
  then show ?case by simp
next
  case (Cons a todo)
  obtain h n where a: "a = (h, n)" by (cases a)
  with Cons.prems(1) have h: "hm_get nodes h = Some n" by simp
  with rank Cons.prems(2) have "r h < fuel" by (auto simp: rank_ok_def intro: less_trans)
  from compute_depth_total [OF rank h this Cons.prems(3)] obtain D where
    D: "compute_depth fuel nodes h n depths = Some D" "depths_ok nodes D"
      "grows r (Suc (r h)) depths D" "hm_contains D h" by blast
  from Cons.IH [OF _ Cons.prems(2) D(2)] Cons.prems(1) obtain D' where
    D': "compute_depths_loop fuel nodes todo D = Some D'" "depths_ok nodes D'"
      "\<forall>h. hm_contains D h \<or> h \<in> fst ` set todo \<longrightarrow> hm_contains D' h" by auto
  with a D grows_contains [OF D(3)] show ?case by auto
qed

lemma hm_get_entry: "hm_wf m \<Longrightarrow> (k, v) \<in> set m \<longleftrightarrow> hm_get m k = Some v"
  by (simp add: hm_wf_def hm_get_def)

lemma compute_depths_total:
  assumes "dag_inv d"
  shows "\<exists>D. compute_depths d = Some D \<and> depths_ok (dag_nodes d) D \<and>
    (\<forall>h. hm_contains D h \<longleftrightarrow> dag_get d h \<noteq> None)"
proof -
  from assms obtain r where r: "rank_ok r (dag_nodes d)" and wf: "hm_wf (dag_nodes d)"
    by (auto simp: dag_inv_def)
  have "depths_ok (dag_nodes d) []" by (simp add: depths_ok_def)
  moreover have "\<forall>(h, n) \<in> set (dag_nodes d). hm_get (dag_nodes d) h = Some n"
    using wf by (auto simp: hm_get_entry)
  ultimately obtain D where D: "compute_depths d = Some D" "depths_ok (dag_nodes d) D"
    "\<forall>h. h \<in> fst ` set (dag_nodes d) \<longrightarrow> hm_contains D h"
    using compute_depths_loop_total [OF r, of "dag_nodes d" "Suc (dag_len d)" "[]"]
    by (auto simp: compute_depths_def dag_len_def)
  have "hm_contains D h \<longleftrightarrow> dag_get d h \<noteq> None" for h
  proof
    assume "hm_contains D h"
    with D(2) show "dag_get d h \<noteq> None" by (fastforce simp: depths_ok_def hm_contains_def dag_get_def)
  next
    assume "dag_get d h \<noteq> None"
    then obtain n where "(h, n) \<in> set (dag_nodes d)" by (auto simp: dag_get_def hm_get_entry [OF wf])
    then have "h \<in> fst ` set (dag_nodes d)" by force
    with D(3) show "hm_contains D h" by blast
  qed
  with D show ?thesis by blast
qed

lemma foldr_max_upper: "x \<in> set xs \<Longrightarrow> x \<le> foldr max xs (0::nat)"
  by (induction xs) auto

lemma depth_parent_less:
  assumes "depths_ok nodes D" and "hm_get nodes h = Some n" and "hm_get D h = Some d"
    and "p \<in> set (tx_parent_hashes (dn_tx n))"
  shows "\<exists>e. hm_get D p = Some e \<and> e < d"
proof -
  from assms(1,3) obtain m where "hm_get nodes h = Some m" "d = depth_entry D m"
    "\<forall>p \<in> set (tx_parent_hashes (dn_tx m)). hm_contains D p" by (auto simp: depths_ok_def)
  with assms(2,4) have "hm_contains D p" "d = depth_entry D n" by auto
  moreover from assms(4) have "the (hm_get D p) + 1 \<le> depth_entry D n"
    unfolding depth_entry_def by (intro foldr_max_upper) auto
  ultimately show ?thesis by (auto simp: hm_contains_def)
qed

subsection \<open>Groups\<close>

abbreviation members_at :: "(tx_hash \<times> nat) list \<Rightarrow> nat \<Rightarrow> tx_hash list" where
  "members_at D k \<equiv> map fst (filter (\<lambda>(h, d). d = k) D)"

lemma push_groups_get:
  "hm_wf (foldl push_group [] D) \<and>
   hm_get (foldl push_group [] D) k = (if members_at D k = [] then None else Some (members_at D k))"
proof (induction D arbitrary: k rule: rev_induct)
  case Nil
  then show ?case by simp
next
  case (snoc x D)
  then show ?case by (cases x) (auto simp: push_group_def Let_def)
qed

lemma mset_values_update:
  assumes "hm_get m k = Some v"
  shows "mset (concat (hm_values (hm_insert k v' m))) + mset v = mset (concat (hm_values m)) + mset v'"
  using assms unfolding hm_values_def hm_get_def hm_insert_def
proof (induction m)
  case Nil
  then show ?case by simp
next
  case (Cons a m)
  then show ?case by (cases a) (auto split: if_splits)
qed

lemma mset_values_fresh:
  assumes "hm_get m k = None"
  shows "mset (concat (hm_values (hm_insert k v m))) = mset (concat (hm_values m)) + mset v"
  using assms unfolding hm_values_def hm_get_def hm_insert_def
proof (induction m)
  case Nil
  then show ?case by simp
next
  case (Cons a m)
  then show ?case by (cases a) (auto split: if_splits)
qed

lemma mset_push_group:
  "mset (concat (hm_values (push_group G (h, d)))) = mset (concat (hm_values G)) + {#h#}"
proof (cases "hm_get G d")
  case None
  then show ?thesis by (simp add: push_group_def mset_values_fresh)
next
  case (Some g)
  from mset_values_update [OF this, of "g @ [h]"] Some show ?thesis by (simp add: push_group_def)
qed

lemma mset_push_groups: "mset (concat (hm_values (foldl push_group [] D))) = mset (map fst D)"
proof (induction D rule: rev_induct)
  case Nil
  then show ?case by (simp add: hm_values_def)
next
  case (snoc x D)
  then show ?case by (cases x) (simp add: mset_push_group)
qed

lemma group_members:
  assumes "hm_wf D" and "g \<in> set (hm_values (foldl push_group [] D))"
  shows "g \<noteq> [] \<and> (\<forall>h \<in> set g. hm_get D h = Some (group_key D g))"
proof -
  from assms(2) obtain k where k: "g = members_at D k" "g \<noteq> []"
    using push_groups_get [of D] by (auto simp: set_hm_values ran_def split: if_splits)
  then have all: "hm_get D h = Some k" if "h \<in> set g" for h
    using that assms(1) by (auto simp: hm_get_entry)
  with k(2) have "group_key D g = k" by (cases g) (auto simp: group_key_def)
  with all k(2) show ?thesis by simp
qed

lemma mset_concat_cong: "mset xs = mset ys \<Longrightarrow> mset (concat xs) = mset (concat ys)"
  by (metis mset_concat mset_map sum_mset_sum_list)

lemma sorted_key_index:
  assumes "sorted (map f xs)" and "i < length xs" and "j < length xs" and "f (xs ! j) < f (xs ! i)"
  shows "j < i"
proof (rule ccontr)
  assume "\<not> j < i"
  then have "f (xs ! i) \<le> f (xs ! j)"
    using sorted_nth_mono [OF assms(1), of i j] assms(2,3) by simp
  with assms(4) show False by simp
qed

subsection \<open>Properties\<close>

fun dag_step :: "dag \<Rightarrow> transaction \<Rightarrow> dag panics" where
  "dag_step d tx = Some (fst (dag_insert d tx))"

interpretation dag_run: total_component dag_step dag_inv
  by unfold_locales (auto simp: dag_inv_insert)

lemma rank_acyclic:
  assumes "rank_ok r (dag_nodes d)" and "(parent_of d)\<^sup>+\<^sup>+ p c"
  shows "r p < r c"
  using assms(2)
  by (induction rule: tranclp_induct)
    (use assms(1) in \<open>auto simp: parent_of_def rank_ok_def dag_get_def intro: less_trans\<close>)

text \<open>
  C38. The graph stays a sound DAG. After any sequence of insertion attempts on the empty
  graph, every node is stored under its hash, all its parents are present, children lists
  are exactly the inverse of the parent lists, the parent relation has no cycle, and failed
  insertions changed nothing. The tip set, though, contains every node, those with children
  included.
\<close>

theorem dag_run_sound:
  "\<exists>d. run_ops dag_step dag_new txs = Some d \<and>
     (\<forall>h n. dag_get d h = Some n \<longrightarrow>
        tx_hash (dn_tx n) = h \<and> set (dn_children n) = {c. parent_of d h c} \<and>
        (\<forall>p \<in> set (tx_parent_hashes (dn_tx n)). dag_get d p \<noteq> None)) \<and>
     (\<nexists>h. (parent_of d)\<^sup>+\<^sup>+ h h) \<and>
     set (tips d) = {h. dag_get d h \<noteq> None}"
proof -
  obtain d where d: "run_ops dag_step dag_new txs = Some d" "dag_inv d"
    using dag_run.run_total [OF dag_inv_new] by blast
  then obtain r where r: "rank_ok r (dag_nodes d)" by (auto simp: dag_inv_def)
  have "\<nexists>h. (parent_of d)\<^sup>+\<^sup>+ h h" using rank_acyclic [OF r] by blast
  moreover have "dag_get d p \<noteq> None" if "dag_get d h = Some n" "p \<in> set (tx_parent_hashes (dn_tx n))" for h n p
    using r that by (auto simp: rank_ok_def dag_get_def hm_contains_def)
  ultimately show ?thesis using d by (auto simp: dag_inv_def)
qed

definition example_tx :: "nat \<Rightarrow> nat \<Rightarrow> nat \<Rightarrow> nat list \<Rightarrow> transaction" where
  "example_tx h s n ps = \<lparr>tx_hash = [h], tx_kind = TransferKoin, tx_sender = s, tx_recipient = 99,
     tx_oikos_amount = 0, tx_koin_amount = 100, tx_gas_limit = 21000, tx_nonce = n,
     tx_parent_hashes = map (\<lambda>p. [p]) ps, tx_timestamp = 1\<rparr>"

definition example_txs :: "transaction list" where
  "example_txs = [example_tx 1 1 0 [], example_tx 2 1 1 [1], example_tx 3 1 2 [9]]"

lemma example_run:
  "run_ops dag_step dag_new example_txs =
     Some \<lparr>dag_nodes =
         [([1], \<lparr>dn_tx = example_tx 1 1 0 [], dn_status = Pending, dn_children = [[2]]\<rparr>),
          ([2], \<lparr>dn_tx = example_tx 2 1 1 [1], dn_status = Pending, dn_children = []\<rparr>)],
       dag_tip_set = [[2], [1]]\<rparr>"
  by (simp add: example_txs_def dag_insert_def dag_new_def example_tx_def push_child_def hm_contains_def
      hm_get_def hm_insert_def)

theorem dag_run_sound_witness:
  "\<exists>d. run_ops dag_step dag_new example_txs = Some d \<and>
     set (tips d) = {[1], [2]} \<and> (\<nexists>h. (parent_of d)\<^sup>+\<^sup>+ h h)"
  using dag_run_sound [of example_txs] by (simp add: example_run tips_def insert_commute)

lemma groups_layering:
  assumes "dag_inv d"
  shows "\<exists>gs. parallelizable_groups d = Some gs \<and> distinct (concat gs) \<and>
    set (concat gs) = {h. dag_get d h \<noteq> None} \<and> [] \<notin> set gs \<and>
    (\<forall>i < length gs. \<forall>h \<in> set (gs ! i). \<forall>p. parent_of d p h \<longrightarrow> (\<exists>j < i. p \<in> set (gs ! j)))"
proof -
  obtain D where D: "compute_depths d = Some D" "depths_ok (dag_nodes d) D"
    "\<And>h. hm_contains D h \<longleftrightarrow> dag_get d h \<noteq> None"
    using compute_depths_total [OF assms] by blast
  from D(2) have wf: "hm_wf D" by (simp add: depths_ok_def)
  define gs where "gs = sort_key (group_key D) (hm_values (foldl push_group [] D))"
  have mset: "mset (concat gs) = mset (map fst D)"
    using mset_push_groups [of D] mset_concat_cong [of gs "hm_values (foldl push_group [] D)"]
    by (simp add: gs_def)
  have members: "g \<noteq> [] \<and> (\<forall>h \<in> set g. hm_get D h = Some (group_key D g))" if "g \<in> set gs" for g
    using group_members [OF wf] that by (simp add: gs_def)
  have nodes: "set (concat gs) = {h. dag_get d h \<noteq> None}"
    using mset_eq_setD [OF mset] D(3) set_hm_keys [of D] by (simp add: hm_keys_def)
  have "\<exists>j < i. p \<in> set (gs ! j)"
    if i: "i < length gs" and h: "h \<in> set (gs ! i)" and p: "parent_of d p h" for i h p
  proof -
    from members [OF nth_mem [OF i]] h have dh: "hm_get D h = Some (group_key D (gs ! i))" by blast
    from p obtain n where "hm_get (dag_nodes d) h = Some n" "p \<in> set (tx_parent_hashes (dn_tx n))"
      by (auto simp: parent_of_def dag_get_def)
    from depth_parent_less [OF D(2) this(1) dh this(2)] obtain e where
      e: "hm_get D p = Some e" "e < group_key D (gs ! i)" by blast
    then have "p \<in> set (concat gs)" unfolding nodes using D(3) by (auto simp: hm_contains_def)
    then obtain g where "g \<in> set gs" "p \<in> set g" by auto
    then obtain j where j: "j < length gs" "p \<in> set (gs ! j)" by (metis in_set_conv_nth)
    from members [OF nth_mem [OF j(1)]] j(2) have "hm_get D p = Some (group_key D (gs ! j))" by blast
    with e have "group_key D (gs ! j) < group_key D (gs ! i)" by simp
    moreover have "sorted (map (group_key D) gs)" by (simp add: gs_def)
    ultimately have "j < i" using sorted_key_index [of "group_key D" gs i j] i j(1) by blast
    with j(2) show ?thesis by blast
  qed
  moreover have "distinct (concat gs)"
    using mset_eq_imp_distinct_iff [OF mset] wf by (simp add: hm_wf_def)
  moreover have "parallelizable_groups d = Some gs" by (simp add: parallelizable_groups_def D(1) gs_def Let_def)
  ultimately show ?thesis using nodes members by blast
qed

text \<open>
  C23. Parallel groups are a layering. On a graph built by insertions the depth computation
  terminates without panicking, the groups contain every transaction exactly once, no group
  is empty, and every parent of a transaction lies in a strictly earlier group, so the
  transactions of one group are independent of one another.
\<close>

theorem parallelizable_groups_layering:
  assumes "dag_inv d"
  shows "\<exists>gs. parallelizable_groups d = Some gs \<and> distinct (concat gs) \<and>
    set (concat gs) = {h. dag_get d h \<noteq> None} \<and> [] \<notin> set gs \<and>
    (\<forall>i < length gs. \<forall>h \<in> set (gs ! i). \<forall>p. parent_of d p h \<longrightarrow> (\<exists>j < i. p \<in> set (gs ! j)))"
  by (rule groups_layering [OF assms])

lemma dag_inv_example:
  "dag_inv (fst (dag_insert (fst (dag_insert dag_new (example_tx 1 1 0 []))) (example_tx 2 1 1 [1])))"
  by (intro dag_inv_insert dag_inv_new)

theorem parallelizable_groups_layering_witness:
  "\<exists>gs. parallelizable_groups (fst (dag_insert (fst (dag_insert dag_new (example_tx 1 1 0 []))) (example_tx 2 1 1 [1])))
       = Some gs \<and> distinct (concat gs) \<and> [] \<notin> set gs"
  using parallelizable_groups_layering [OF dag_inv_example] by blast

end
