(* ===== verification/Settlement.thy ===== *)
theory Settlement
  imports Dag
begin

text \<open>
  Batch settlement of the transaction DAG (\<open>settlement.rs\<close> of \<open>koinon-dag\<close>). A batch is
  classified against the graph as it is before the batch, then the statuses are written.
\<close>

subsection \<open>The settler\<close>

record settlement_result =
  sr_settled :: "tx_hash list"
  sr_failed :: "tx_hash list"
  sr_conflicted :: "tx_hash list"

definition has_conflict :: "dag \<Rightarrow> tx_hash \<Rightarrow> bool" where
  "has_conflict d h =
     (case dag_get d h of
        None \<Rightarrow> False
      | Some node \<Rightarrow>
          list_ex (\<lambda>(g, settled_node). g \<noteq> h \<and> conflicts_with (dn_tx node) (dn_tx settled_node))
            (settled_nodes d))"

definition deps_ok :: "dag \<Rightarrow> dag_node \<Rightarrow> bool" where
  "deps_ok d node \<longleftrightarrow>
     list_all (\<lambda>ph. case dag_get d ph of None \<Rightarrow> False | Some n \<Rightarrow> dn_status n = Settled)
       (tx_parent_hashes (dn_tx node))"

fun classify :: "dag \<Rightarrow> (tx_hash \<times> bool) list \<Rightarrow> settlement_result \<Rightarrow> settlement_result" where
  "classify d [] r = r"
| "classify d ((h, conflict) # rest) r =
     (if conflict then classify d rest (r\<lparr>sr_conflicted := sr_conflicted r @ [h]\<rparr>)
      else case dag_get d h of
        None \<Rightarrow> classify d rest r
      | Some node \<Rightarrow>
          if deps_ok d node then classify d rest (r\<lparr>sr_settled := sr_settled r @ [h]\<rparr>)
          else classify d rest (r\<lparr>sr_failed := sr_failed r @ [h]\<rparr>))"

definition mark :: "tx_status \<Rightarrow> (tx_hash, dag_node) hmap \<Rightarrow> tx_hash \<Rightarrow> (tx_hash, dag_node) hmap" where
  "mark status nodes h =
     (case hm_get nodes h of
        Some node \<Rightarrow> hm_insert h (node\<lparr>dn_status := status\<rparr>) nodes
      | None \<Rightarrow> nodes)"

definition settle_batch :: "dag \<Rightarrow> tx_hash list \<Rightarrow> dag \<times> settlement_result" where
  "settle_batch d batch =
     (let conflict_map = map (\<lambda>h. (h, has_conflict d h)) batch;
          r = classify d conflict_map \<lparr>sr_settled = [], sr_failed = [], sr_conflicted = []\<rparr>;
          nodes1 = foldl (mark Settled) (dag_nodes d) (sr_settled r);
          nodes2 = foldl (mark Failed) nodes1 (sr_failed r);
          nodes3 = foldl (mark Conflict) nodes2 (sr_conflicted r)
      in (d\<lparr>dag_nodes := nodes3\<rparr>, r))"

subsection \<open>What a batch does\<close>

definition present :: "dag \<Rightarrow> tx_hash \<Rightarrow> bool" where
  "present d h \<longleftrightarrow> dag_get d h \<noteq> None"

definition is_settled :: "dag \<Rightarrow> tx_hash \<Rightarrow> bool" where
  "is_settled d h \<longleftrightarrow> (\<exists>n. dag_get d h = Some n \<and> dn_status n = Settled)"

definition ready :: "dag \<Rightarrow> tx_hash \<Rightarrow> bool" where
  "ready d h \<longleftrightarrow> (\<forall>p. parent_of d p h \<longrightarrow> is_settled d p)"

definition same_slot :: "dag \<Rightarrow> tx_hash \<Rightarrow> tx_hash \<Rightarrow> bool" where
  "same_slot d g h \<longleftrightarrow>
     (\<exists>m n. dag_get d g = Some m \<and> dag_get d h = Some n \<and> conflicts_with (dn_tx n) (dn_tx m))"

lemma deps_ok_ready: "dag_get d h = Some n \<Longrightarrow> deps_ok d n \<longleftrightarrow> ready d h"
  by (auto simp: deps_ok_def ready_def list_all_iff parent_of_def is_settled_def split: option.splits)

lemma has_conflict_iff:
  assumes "hm_wf (dag_nodes d)"
  shows "has_conflict d h \<longleftrightarrow> (\<exists>g. g \<noteq> h \<and> is_settled d g \<and> same_slot d g h)"
  by (auto simp: has_conflict_def settled_nodes_def is_settled_def same_slot_def list_ex_iff
      dag_get_def hm_get_entry [OF assms] split: option.splits)
    (metis (mono_tags, lifting) assms case_prodI hm_get_entry)

lemma classify_filter:
  "classify d (map (\<lambda>h. (h, has_conflict d h)) batch) r =
     r\<lparr>sr_settled := sr_settled r @ filter (\<lambda>h. \<not> has_conflict d h \<and> present d h \<and> ready d h) batch,
       sr_failed := sr_failed r @ filter (\<lambda>h. \<not> has_conflict d h \<and> present d h \<and> \<not> ready d h) batch,
       sr_conflicted := sr_conflicted r @ filter (has_conflict d) batch\<rparr>"
proof (induction batch arbitrary: r)
  case Nil
  then show ?case by simp
next
  case (Cons h batch)
  then show ?case
    by (cases "dag_get d h") (auto simp: present_def deps_ok_ready)
qed

lemma mark_get:
  "hm_wf nodes \<Longrightarrow> hm_get (mark s nodes h) k =
     map_option (\<lambda>n. if k = h then n\<lparr>dn_status := s\<rparr> else n) (hm_get nodes k)"
  by (cases "hm_get nodes h"; cases "hm_get nodes k") (auto simp: mark_def)

lemma mark_keys [simp]: "hm_keys (mark s nodes h) = hm_keys nodes"
  by (auto simp: mark_def hm_keys_update split: option.splits)

lemma mark_wf [simp]: "hm_wf nodes \<Longrightarrow> hm_wf (mark s nodes h)"
  by (auto simp: mark_def split: option.splits)

lemma marks_keys [simp]: "hm_keys (foldl (mark s) nodes hs) = hm_keys nodes"
  by (induction hs arbitrary: nodes) simp_all

lemma marks_wf [simp]: "hm_wf nodes \<Longrightarrow> hm_wf (foldl (mark s) nodes hs)"
  by (induction hs arbitrary: nodes) simp_all

lemma marks_get [simp]:
  "hm_wf nodes \<Longrightarrow> hm_get (foldl (mark s) nodes hs) k =
     map_option (\<lambda>n. if k \<in> set hs then n\<lparr>dn_status := s\<rparr> else n) (hm_get nodes k)"
proof (induction hs arbitrary: nodes)
  case Nil
  then show ?case by (simp add: option.map_ident)
next
  case (Cons h hs)
  then show ?case by (cases "hm_get nodes k") (simp_all add: mark_get)
qed

definition batch_status :: "dag \<Rightarrow> tx_hash list \<Rightarrow> tx_hash \<Rightarrow> tx_status \<Rightarrow> tx_status" where
  "batch_status d batch h old =
     (if h \<notin> set batch then old
      else if has_conflict d h then Conflict
      else if ready d h then Settled else Failed)"

lemma settle_batch_get:
  assumes "hm_wf (dag_nodes d)"
  shows "dag_get (fst (settle_batch d batch)) h =
    map_option (\<lambda>n. n\<lparr>dn_status := batch_status d batch h (dn_status n)\<rparr>) (dag_get d h)"
  using assms
  by (cases "hm_get (dag_nodes d) h")
    (auto simp: settle_batch_def Let_def classify_filter dag_get_def batch_status_def present_def)

text \<open>Writing statuses keeps the invariant of the graph.\<close>

lemma parent_of_cong:
  assumes "\<And>k. map_option dn_tx (dag_get d' k) = map_option dn_tx (dag_get d k)"
  shows "parent_of d' = parent_of d"
proof (intro ext iffI)
  fix p c
  show "parent_of d' p c \<Longrightarrow> parent_of d p c" and "parent_of d p c \<Longrightarrow> parent_of d' p c"
    using assms [of c]
    by (cases "dag_get d c"; cases "dag_get d' c"; auto simp: parent_of_def)+
qed

lemma dag_inv_status:
  assumes inv: "dag_inv d"
  shows "dag_inv (fst (settle_batch d batch))"
proof -
  let ?d = "fst (settle_batch d batch)"
  from inv have wf: "hm_wf (dag_nodes d)" by (simp add: dag_inv_def)
  note get = settle_batch_get [OF wf, of batch]
  have keys: "hm_keys (dag_nodes ?d) = hm_keys (dag_nodes d)"
    by (simp add: settle_batch_def Let_def)
  have len: "length (dag_nodes ?d) = length (dag_nodes d)"
    using arg_cong [OF keys, of length] by (simp add: hm_keys_def)
  have pars: "parent_of ?d = parent_of d"
    by (rule parent_of_cong) (auto simp: get option.map_comp comp_def)
  have tips: "tips ?d = tips d" by (simp add: settle_batch_def Let_def tips_def)
  from inv obtain r where r: "rank_ok r (dag_nodes d)" by (auto simp: dag_inv_def)
  have "rank_ok r (dag_nodes ?d)"
    using r get unfolding rank_ok_def len dag_get_def by (auto simp: hm_contains_def)
  moreover have "hm_wf (dag_nodes ?d)" using wf keys by (simp add: hm_wf_def hm_keys_def)
  ultimately show ?thesis
    using inv unfolding dag_inv_def pars tips get by auto
qed

subsection \<open>Settlement histories\<close>

text \<open>
  A history alternates insertions and batches. A batch is well chosen when no two different
  transactions of it spend the same nonce of the same sender.
\<close>

definition batch_conflict_free :: "dag \<Rightarrow> tx_hash list \<Rightarrow> bool" where
  "batch_conflict_free d batch \<longleftrightarrow>
     (\<forall>g \<in> set batch. \<forall>h \<in> set batch. g \<noteq> h \<longrightarrow> \<not> same_slot d g h)"

inductive settle_reachable :: "dag \<Rightarrow> bool" where
  reach_new: "settle_reachable dag_new"
| reach_insert: "settle_reachable d \<Longrightarrow> settle_reachable (fst (dag_insert d tx))"
| reach_settle: "settle_reachable d \<Longrightarrow> batch_conflict_free d batch \<Longrightarrow>
     settle_reachable (fst (settle_batch d batch))"

definition settle_inv :: "dag \<Rightarrow> bool" where
  "settle_inv d \<longleftrightarrow> dag_inv d \<and>
     (\<forall>h. is_settled d h \<longrightarrow> ready d h) \<and>
     (\<forall>g h. is_settled d g \<longrightarrow> is_settled d h \<longrightarrow> g \<noteq> h \<longrightarrow> \<not> same_slot d g h)"

lemma settle_inv_no_conflict:
  "settle_inv d \<Longrightarrow> is_settled d h \<Longrightarrow> \<not> has_conflict d h"
  using has_conflict_iff [of d h] by (auto simp: settle_inv_def dag_inv_def)

lemma is_settled_after:
  assumes "settle_inv d"
  shows "is_settled (fst (settle_batch d batch)) h \<longleftrightarrow>
    is_settled d h \<or> (h \<in> set batch \<and> present d h \<and> \<not> has_conflict d h \<and> ready d h)"
proof -
  have "is_settled d h \<Longrightarrow> ready d h \<and> \<not> has_conflict d h"
    using settle_inv_no_conflict [OF assms] assms by (auto simp: settle_inv_def)
  moreover have "hm_wf (dag_nodes d)" using assms by (simp add: settle_inv_def dag_inv_def)
  ultimately show ?thesis
    by (cases "dag_get d h") (auto simp: is_settled_def settle_batch_get batch_status_def present_def)
qed

lemma same_slot_after:
  assumes "hm_wf (dag_nodes d)"
  shows "same_slot (fst (settle_batch d batch)) g h = same_slot d g h"
  by (auto simp: same_slot_def settle_batch_get [OF assms])

lemma same_slot_commute: "same_slot d g h = same_slot d h g"
  by (auto simp: same_slot_def conflicts_with_def)

lemma settle_inv_batch:
  assumes inv: "settle_inv d" and free: "batch_conflict_free d batch"
  shows "settle_inv (fst (settle_batch d batch))"
proof -
  let ?d = "fst (settle_batch d batch)"
  from inv have di: "dag_inv d" and wf: "hm_wf (dag_nodes d)" by (auto simp: settle_inv_def dag_inv_def)
  note settled = is_settled_after [OF inv, of batch]
  have pars: "parent_of ?d = parent_of d"
    by (rule parent_of_cong) (auto simp: settle_batch_get [OF wf] option.map_comp comp_def)
  have "ready ?d h" if "is_settled ?d h" for h
  proof -
    from that inv have "ready d h" by (auto simp: settled settle_inv_def)
    then show ?thesis by (auto simp: ready_def pars settled)
  qed
  moreover have "\<not> same_slot ?d g h" if "is_settled ?d g" "is_settled ?d h" "g \<noteq> h" for g h
  proof -
    have new: "\<not> same_slot d a b"
      if "is_settled d a" "\<not> has_conflict d b" "a \<noteq> b" for a b
      using that by (auto simp: has_conflict_iff [OF wf])
    have old: "is_settled d g \<Longrightarrow> is_settled d h \<Longrightarrow> \<not> same_slot d g h"
      using inv that(3) by (auto simp: settle_inv_def)
    have both: "g \<in> set batch \<Longrightarrow> h \<in> set batch \<Longrightarrow> \<not> same_slot d g h"
      using free that(3) by (auto simp: batch_conflict_free_def)
    have "\<not> same_slot d g h"
      using that old both new [of g h] new [of h g] same_slot_commute [of d g h]
      unfolding settled by blast
    then show ?thesis by (simp add: same_slot_after [OF wf])
  qed
  ultimately show ?thesis using dag_inv_status [OF di] by (auto simp: settle_inv_def)
qed

lemma settle_inv_insert:
  assumes inv: "settle_inv d"
  shows "settle_inv (fst (dag_insert d tx))"
proof (cases "snd (dag_insert d tx)")
  case (Inl e)
  with inv show ?thesis by (simp add: dag_insert_Err)
next
  case (Inr u)
  then have ok: "snd (dag_insert d tx) = Inr ()" by simp
  let ?d = "fst (dag_insert d tx)"
  from inv have di: "dag_inv d" and wf: "hm_wf (dag_nodes d)" by (auto simp: settle_inv_def dag_inv_def)
  note get = dag_get_insert [OF wf ok]
  have fresh: "dag_get d (tx_hash tx) = None" using dag_insert_Ok [OF ok] by blast
  have settled: "is_settled ?d h \<longleftrightarrow> is_settled d h" for h
    using fresh by (auto simp: is_settled_def get)
  have not_new: "is_settled d h \<Longrightarrow> h \<noteq> tx_hash tx" for h
    using fresh by (auto simp: is_settled_def)
  have pars: "parent_of ?d p h \<longleftrightarrow> parent_of d p h" if "h \<noteq> tx_hash tx" for p h
    using that by (auto simp: parent_of_def get)
  have slot: "same_slot ?d g h \<longleftrightarrow> same_slot d g h" if "g \<noteq> tx_hash tx" "h \<noteq> tx_hash tx" for g h
    using that by (auto simp: same_slot_def get)
  show ?thesis
    using inv dag_inv_insert [OF di] not_new pars slot
    unfolding settle_inv_def settled ready_def by metis
qed

lemma settle_reachable_inv: "settle_reachable d \<Longrightarrow> settle_inv d"
proof (induction rule: settle_reachable.induct)
  case reach_new
  then show ?case
    using dag_inv_new by (auto simp: settle_inv_def is_settled_def dag_new_def dag_get_def)
qed (auto intro: settle_inv_insert settle_inv_batch)

subsection \<open>Properties\<close>

text \<open>
  A batch is classified exactly once and only against the past: a transaction of the
  batch that is in the graph ends as \<open>Conflict\<close> if another settled transaction spends the same
  nonce of the same sender, otherwise as \<open>Settled\<close> if all its parents were settled before
  the batch, otherwise as \<open>Failed\<close>; all other nodes, all transactions and all links are
  unchanged, and the result lists are the batch filtered by these three cases.
\<close>

theorem settle_batch_classifies:
  assumes "hm_wf (dag_nodes d)"
  shows "dag_get (fst (settle_batch d batch)) h =
      map_option (\<lambda>n. if h \<notin> set batch then n
        else if \<exists>g. g \<noteq> h \<and> is_settled d g \<and> same_slot d g h then n\<lparr>dn_status := Conflict\<rparr>
        else if \<forall>p. parent_of d p h \<longrightarrow> is_settled d p then n\<lparr>dn_status := Settled\<rparr>
        else n\<lparr>dn_status := Failed\<rparr>) (dag_get d h) \<and>
    sr_settled (snd (settle_batch d batch)) = filter (\<lambda>h. \<not> has_conflict d h \<and> present d h \<and> ready d h) batch \<and>
    sr_failed (snd (settle_batch d batch)) = filter (\<lambda>h. \<not> has_conflict d h \<and> present d h \<and> \<not> ready d h) batch \<and>
    sr_conflicted (snd (settle_batch d batch)) = filter (has_conflict d) batch"
proof -
  have "dag_get (fst (settle_batch d batch)) h =
      map_option (\<lambda>n. if h \<notin> set batch then n
        else if \<exists>g. g \<noteq> h \<and> is_settled d g \<and> same_slot d g h then n\<lparr>dn_status := Conflict\<rparr>
        else if \<forall>p. parent_of d p h \<longrightarrow> is_settled d p then n\<lparr>dn_status := Settled\<rparr>
        else n\<lparr>dn_status := Failed\<rparr>) (dag_get d h)"
    unfolding settle_batch_get [OF assms] batch_status_def has_conflict_iff [OF assms] ready_def
    by (cases "dag_get d h") simp_all
  moreover have "snd (settle_batch d batch) =
      classify d (map (\<lambda>h. (h, has_conflict d h)) batch) \<lparr>sr_settled = [], sr_failed = [], sr_conflicted = []\<rparr>"
    by (simp add: settle_batch_def Let_def)
  ultimately show ?thesis unfolding classify_filter by simp
qed

definition example_dag :: dag where
  "example_dag = fst (dag_insert (fst (dag_insert dag_new (example_tx 1 7 0 []))) (example_tx 2 7 0 []))"

lemma example_dag_value:
  "example_dag = \<lparr>dag_nodes =
     [([1], \<lparr>dn_tx = example_tx 1 7 0 [], dn_status = Pending, dn_children = []\<rparr>),
      ([2], \<lparr>dn_tx = example_tx 2 7 0 [], dn_status = Pending, dn_children = []\<rparr>)],
     dag_tip_set = [[2], [1]]\<rparr>"
  by (simp add: example_dag_def dag_insert_def dag_new_def example_tx_def push_child_def hm_contains_def
      hm_get_def hm_insert_def)

theorem settle_batch_classifies_witness:
  "sr_settled (snd (settle_batch example_dag [[1], [3]])) = [[1]] \<and>
   sr_failed (snd (settle_batch example_dag [[1], [3]])) = []"
proof -
  have wf: "hm_wf (dag_nodes example_dag)" by (simp add: example_dag_value hm_wf_def)
  from settle_batch_classifies [OF wf, of "[[1], [3]]"] show ?thesis
    by (simp add: example_dag_value has_conflict_def present_def ready_def dag_get_def hm_get_def
        settled_nodes_def parent_of_def example_tx_def)
qed

text \<open>
  C11. Settlement is safe when batches are internally conflict-free. In every graph reached
  from the empty one by insertions and such batches, the parents of a settled transaction
  are settled, no two settled transactions spend the same nonce of the same sender, and a
  further batch, of any transactions, never takes a settled one back.
\<close>

theorem settlement_sound:
  assumes "settle_reachable d"
  shows "(\<forall>h p. is_settled d h \<and> parent_of d p h \<longrightarrow> is_settled d p) \<and>
    (\<forall>g h. is_settled d g \<and> is_settled d h \<and> same_slot d g h \<longrightarrow> g = h) \<and>
    (\<forall>batch h. is_settled d h \<longrightarrow> is_settled (fst (settle_batch d batch)) h)"
  using settle_reachable_inv [OF assms] is_settled_after
  by (auto simp: settle_inv_def ready_def)

theorem settlement_sound_witness:
  "is_settled (fst (settle_batch (fst (settle_batch example_dag [[1]])) [[1], [2]])) [1]"
proof -
  have "settle_reachable (fst (settle_batch example_dag [[1]]))"
    unfolding example_dag_def
    by (intro settle_reachable.intros) (simp add: batch_conflict_free_def)
  moreover have "is_settled (fst (settle_batch example_dag [[1]])) [1]"
    by (simp add: is_settled_def settle_batch_def classify.simps has_conflict_def deps_ok_def mark_def Let_def
        example_dag_value dag_get_def hm_get_def hm_insert_def settled_nodes_def example_tx_def)
  ultimately show ?thesis using settlement_sound by blast
qed

text \<open>
  The conflict check does not look inside the batch: two transactions that spend the
  same nonce of the same sender, neither in conflict with a settled one and both with
  settled parents, are both settled when they are in the same batch, and a later batch with
  one of them turns it from settled to \<open>Conflict\<close>.
\<close>

theorem settle_batch_double_spend:
  assumes "hm_wf (dag_nodes d)" and "g \<noteq> h" and "same_slot d g h"
    and "\<not> has_conflict d g" and "\<not> has_conflict d h" and "ready d g" and "ready d h"
    and "g \<in> set batch" and "h \<in> set batch"
  shows "is_settled (fst (settle_batch d batch)) g \<and> is_settled (fst (settle_batch d batch)) h \<and>
    \<not> is_settled (fst (settle_batch (fst (settle_batch d batch)) [h])) h"
proof -
  let ?d = "fst (settle_batch d batch)"
  have both: "is_settled ?d g" "is_settled ?d h"
    using assms by (auto simp: is_settled_def settle_batch_get batch_status_def same_slot_def)
  have wf: "hm_wf (dag_nodes ?d)"
    using assms(1) by (simp add: settle_batch_def Let_def)
  have "has_conflict ?d h"
    using assms(2,3) both(1) by (auto simp: has_conflict_iff [OF wf] same_slot_after [OF assms(1)])
  then have "\<not> is_settled (fst (settle_batch ?d [h])) h"
    by (auto simp: is_settled_def settle_batch_get [OF wf] batch_status_def)
  with both show ?thesis by blast
qed

theorem settle_batch_double_spend_witness:
  "is_settled (fst (settle_batch example_dag [[1], [2]])) [1] \<and>
   is_settled (fst (settle_batch example_dag [[1], [2]])) [2] \<and>
   \<not> is_settled (fst (settle_batch (fst (settle_batch example_dag [[1], [2]])) [[2]])) [2]"
  by (rule settle_batch_double_spend)
    (simp_all add: example_dag_value hm_wf_def same_slot_def has_conflict_def ready_def dag_get_def hm_get_def
      settled_nodes_def parent_of_def example_tx_def conflicts_with_def)

end
