(* ===== verification/Node.thy ===== *)
theory Node
  imports Rewards Staking Treasury Settlement
begin

text \<open>
  The node binary's state (\<open>tpt-oikos-node/src/main.rs\<close>): it owns the DAG, the conservation
  tracker, the staking pool, the treasury and the reward processor, and drives them. Log
  output is left out.
\<close>

subsection \<open>State and operations\<close>

record node_state =
  ns_dag :: dag
  ns_conservation :: tvc
  ns_staking_pool :: staking_pool
  ns_treasury :: treasury_pool
  ns_block_number :: nat
  ns_block_reward_processor :: block_reward_processor

definition node_new :: node_state where
  "node_new = \<lparr>ns_dag = dag_new, ns_conservation = tvc_new, ns_staking_pool = staking_pool_new,
     ns_treasury = treasury_pool_new 0, ns_block_number = 0,
     ns_block_reward_processor = brp_new block_reward_config_default\<rparr>"

definition node_process_block ::
  "node_state \<Rightarrow> koin \<Rightarrow> (node_state \<times> (reward_error + block_reward)) panics" where
  "node_process_block s block_fees = do {
     n \<leftarrow> checked_add 64 (ns_block_number s) 1;
     (p, res) \<leftarrow> process_block (ns_block_reward_processor s) n block_fees;
     let s' = s\<lparr>ns_block_number := n, ns_block_reward_processor := p\<rparr>;
     case res of
       Inl e \<Rightarrow> Some (s', Inl e)
     | Inr reward \<Rightarrow> do {
         split \<leftarrow> fee_split_from_total block_fees;
         Some (s', Inr reward)
       }
   }"

definition insert_transaction :: "node_state \<Rightarrow> transaction \<Rightarrow> node_state \<times> dag_error unit_result" where
  "insert_transaction s tx =
     (let (d, res) = dag_insert (ns_dag s) tx in (s\<lparr>ns_dag := d\<rparr>, res))"

definition settle_pending :: "node_state \<Rightarrow> node_state" where
  "settle_pending s =
     (let pending = tips (ns_dag s)
      in if pending = [] then s
         else s\<lparr>ns_dag := fst (settle_batch (ns_dag s) pending)\<rparr>)"

definition node_register_validator ::
  "node_state \<Rightarrow> string \<Rightarrow> (node_state \<times> (staking_error + nat)) panics" where
  "node_register_validator s did = do {
     (p, res) \<leftarrow> register_validator (ns_staking_pool s) did;
     Some (s\<lparr>ns_staking_pool := p\<rparr>, res)
   }"

definition stake_validator :: "node_state \<Rightarrow> nat \<Rightarrow> oikos \<Rightarrow> node_state \<times> staking_error unit_result" where
  "stake_validator s i amount =
     (let (p, res) = stake (ns_staking_pool s) i amount in (s\<lparr>ns_staking_pool := p\<rparr>, res))"

definition make_tx :: "nat \<Rightarrow> nat \<Rightarrow> nat \<Rightarrow> tx_hash list \<Rightarrow> transaction panics" where
  "make_tx nonce sender recipient parents = do {
     scaled \<leftarrow> checked_mul 64 sender 1000;
     b \<leftarrow> checked_add 64 nonce scaled;
     Some \<lparr>tx_hash = [b mod 256, recipient mod 256, (nonce div 256) mod 256] @ replicate 29 0,
       tx_kind = TransferKoin, tx_sender = sender, tx_recipient = recipient, tx_oikos_amount = 0,
       tx_koin_amount = 100, tx_gas_limit = 21000, tx_nonce = nonce, tx_parent_hashes = parents,
       tx_timestamp = nonce\<rparr>
   }"

subsection \<open>Runs\<close>

datatype node_op =
  NodeBlock koin
| NodeInsert transaction
| NodeSettle
| NodeRegister string
| NodeStake nat oikos

fun node_step :: "node_state \<Rightarrow> node_op \<Rightarrow> node_state panics" where
  "node_step s (NodeBlock fees) = map_option fst (node_process_block s fees)"
| "node_step s (NodeInsert tx) = Some (fst (insert_transaction s tx))"
| "node_step s NodeSettle = Some (settle_pending s)"
| "node_step s (NodeRegister did) = map_option fst (node_register_validator s did)"
| "node_step s (NodeStake i amount) = Some (fst (stake_validator s i amount))"

definition node_inv :: "node_state \<Rightarrow> bool" where
  "node_inv s \<longleftrightarrow> dag_inv (ns_dag s) \<and> ns_conservation s = tvc_new \<and>
     ns_treasury s = treasury_pool_new 0 \<and> brp_inv (ns_block_reward_processor s)"

lemma settle_pending_dag:
  assumes "dag_inv (ns_dag s)"
  shows "ns_dag (settle_pending s) = fst (settle_batch (ns_dag s) (tips (ns_dag s)))"
proof (cases "tips (ns_dag s) = []")
  case True
  then show ?thesis by (simp add: settle_pending_def settle_batch_def)
next
  case False
  then show ?thesis by (simp add: settle_pending_def)
qed

lemma node_process_block_Some:
  assumes "node_process_block s fees = Some (s', res)"
  shows "ns_dag s' = ns_dag s \<and> ns_conservation s' = ns_conservation s \<and>
     ns_staking_pool s' = ns_staking_pool s \<and> ns_treasury s' = ns_treasury s \<and>
     ns_block_number s' = Suc (ns_block_number s) \<and>
     process_block (ns_block_reward_processor s) (Suc (ns_block_number s)) fees =
       Some (ns_block_reward_processor s', res)"
proof (cases "process_block (ns_block_reward_processor s) (Suc (ns_block_number s)) fees")
  case None
  with assms show ?thesis by (auto simp: node_process_block_def bind_eq_Some_conv)
next
  case (Some pr)
  obtain p r where pr: "pr = (p, r)" by (cases pr)
  with assms Some show ?thesis
    by (cases r) (auto simp: node_process_block_def bind_eq_Some_conv Let_def)
qed

interpretation node: component node_step node_inv
proof unfold_locales
  fix s a s'
  assume inv: "node_inv s" and step: "node_step s a = Some s'"
  show "node_inv s'"
  proof (cases a)
    case (NodeBlock fees)
    with inv step show ?thesis
      by (auto simp: node_inv_def dest!: node_process_block_Some intro: process_block_inv)
  next
    case (NodeInsert tx)
    with inv step dag_inv_insert [of "ns_dag s" tx] show ?thesis
      by (auto simp: node_inv_def insert_transaction_def split: prod.splits)
  next
    case NodeSettle
    with inv step dag_inv_status [of "ns_dag s" "tips (ns_dag s)"] show ?thesis
      by (auto simp: node_inv_def settle_pending_def Let_def)
  next
    case (NodeRegister did)
    with inv step show ?thesis
      by (auto simp: node_inv_def node_register_validator_def bind_eq_Some_conv)
  next
    case (NodeStake i amount)
    with inv step show ?thesis
      by (auto simp: node_inv_def stake_validator_def split: prod.splits)
  qed
qed

lemma node_inv_new: "node_inv node_new"
  using dag_inv_new brp_new_inv by (simp add: node_inv_def node_new_def)

lemma dag_inv_wf: "dag_inv d \<Longrightarrow> hm_wf (dag_nodes d)"
  by (simp add: dag_inv_def)

subsection \<open>Settlement rounds\<close>

definition unique_slots :: "dag \<Rightarrow> bool" where
  "unique_slots d \<longleftrightarrow> (\<forall>g h. g \<noteq> h \<longrightarrow> \<not> same_slot d g h)"

text \<open>One round on the graph: every node is a tip, so every node is reconsidered.\<close>

lemma round_status:
  assumes inv: "dag_inv (ns_dag s)"
  shows "dag_get (ns_dag (settle_pending s)) h =
    map_option (\<lambda>n. n\<lparr>dn_status := (if has_conflict (ns_dag s) h then Conflict
      else if ready (ns_dag s) h then Settled else Failed)\<rparr>) (dag_get (ns_dag s) h)"
proof -
  from inv have "hm_wf (dag_nodes (ns_dag s))" by (simp add: dag_inv_def)
  moreover have "dag_get (ns_dag s) h = None \<or> h \<in> set (tips (ns_dag s))"
    using inv by (auto simp: dag_inv_def)
  ultimately show ?thesis
    using settle_pending_dag [OF inv] by (auto simp: settle_batch_get batch_status_def)
qed

lemma round_frame:
  assumes "dag_inv (ns_dag s)"
  shows "dag_inv (ns_dag (settle_pending s))"
    and "parent_of (ns_dag (settle_pending s)) = parent_of (ns_dag s)"
    and "same_slot (ns_dag (settle_pending s)) = same_slot (ns_dag s)"
    and "present (ns_dag (settle_pending s)) = present (ns_dag s)"
  using dag_inv_status [OF assms, of "tips (ns_dag s)"] settle_pending_dag [OF assms]
    parent_of_cong [of "ns_dag (settle_pending s)" "ns_dag s"] round_status [OF assms]
  by (auto simp: same_slot_def present_def fun_eq_iff option.map_comp comp_def)

lemma round_settles:
  assumes "dag_inv (ns_dag s)" and "unique_slots (ns_dag s)"
  shows "is_settled (ns_dag (settle_pending s)) h \<longleftrightarrow> present (ns_dag s) h \<and> ready (ns_dag s) h"
proof -
  have "\<not> has_conflict (ns_dag s) h"
    using assms has_conflict_iff [of "ns_dag s" h] by (auto simp: unique_slots_def dag_inv_def)
  with round_status [OF assms(1), of h] show ?thesis
    by (auto simp: is_settled_def present_def)
qed

lemma rounds_frame:
  assumes "dag_inv (ns_dag s)"
  shows "dag_inv (ns_dag ((settle_pending ^^ k) s)) \<and>
    parent_of (ns_dag ((settle_pending ^^ k) s)) = parent_of (ns_dag s) \<and>
    same_slot (ns_dag ((settle_pending ^^ k) s)) = same_slot (ns_dag s) \<and>
    present (ns_dag ((settle_pending ^^ k) s)) = present (ns_dag s)"
proof (induction k)
  case 0
  with assms show ?case by simp
next
  case (Suc k)
  with round_frame [of "(settle_pending ^^ k) s"] show ?case by simp
qed

lemma rounds_settle_layers:
  assumes inv: "dag_inv (ns_dag s)" and slots: "unique_slots (ns_dag s)"
    and layers: "\<forall>i < length gs. \<forall>h \<in> set (gs ! i). \<forall>p. parent_of (ns_dag s) p h \<longrightarrow> (\<exists>j < i. p \<in> set (gs ! j))"
    and nodes: "set (concat gs) = {h. dag_get (ns_dag s) h \<noteq> None}"
    and "i < k" "i < length gs" "h \<in> set (gs ! i)"
  shows "is_settled (ns_dag ((settle_pending ^^ k) s)) h"
  using assms(5-)
proof (induction k arbitrary: i h)
  case 0
  then show ?case by simp
next
  case (Suc k)
  let ?s = "(settle_pending ^^ k) s"
  note frame = rounds_frame [OF inv, of k]
  have "h \<in> set (concat gs)" using Suc.prems by auto
  then have "present (ns_dag s) h" unfolding nodes by (simp add: present_def)
  moreover have "is_settled (ns_dag ?s) p" if "parent_of (ns_dag s) p h" for p
  proof -
    from layers Suc.prems that obtain j where "j < i" "p \<in> set (gs ! j)" by blast
    with Suc.IH [of j p] Suc.prems show ?thesis by simp
  qed
  moreover have "unique_slots (ns_dag ?s)" using slots frame by (simp add: unique_slots_def)
  ultimately show ?case
    using round_settles [of ?s h] frame by (simp add: ready_def)
qed

fun is_block :: "node_op \<Rightarrow> bool" where
  "is_block (NodeBlock fees) \<longleftrightarrow> True"
| "is_block _ \<longleftrightarrow> False"

lemma node_step_block_number:
  "node_step s a = Some s' \<Longrightarrow> ns_block_number s' = ns_block_number s + (if is_block a then 1 else 0)"
  by (cases a) (auto simp: insert_transaction_def settle_pending_def node_register_validator_def Let_def
      stake_validator_def bind_eq_Some_conv split: prod.splits dest: node_process_block_Some)

lemma run_block_number:
  "run_ops node_step s ops = Some s' \<Longrightarrow> ns_block_number s' = ns_block_number s + length (filter is_block ops)"
proof (induction ops arbitrary: s)
  case Nil
  then show ?case by simp
next
  case (Cons a ops)
  then show ?case by (auto split: option.splits dest!: node_step_block_number)
qed

lemma insert_two_roots:
  assumes "tx_hash a \<noteq> tx_hash b" and "tx_parent_hashes a = []" and "tx_parent_hashes b = []"
  shows "\<exists>s. run_ops node_step node_new [NodeInsert a, NodeInsert b] = Some s \<and> dag_inv (ns_dag s) \<and>
    dag_get (ns_dag s) (tx_hash a) = Some \<lparr>dn_tx = a, dn_status = Pending, dn_children = []\<rparr> \<and>
    dag_get (ns_dag s) (tx_hash b) = Some \<lparr>dn_tx = b, dn_status = Pending, dn_children = []\<rparr> \<and>
    (\<forall>h. \<not> is_settled (ns_dag s) h)"
proof -
  let ?d = "fst (dag_insert (fst (dag_insert dag_new a)) b)"
  have "dag_inv ?d" by (intro dag_inv_insert dag_inv_new)
  moreover have "dag_nodes ?d = [(tx_hash a, \<lparr>dn_tx = a, dn_status = Pending, dn_children = []\<rparr>),
      (tx_hash b, \<lparr>dn_tx = b, dn_status = Pending, dn_children = []\<rparr>)]"
    using assms by (simp add: dag_insert_def dag_new_def hm_contains_def hm_get_def hm_insert_def)
  ultimately show ?thesis
    using assms(1)
    by (auto simp: insert_transaction_def node_new_def dag_get_def hm_get_def is_settled_def
        split: prod.splits if_splits)
qed

subsection \<open>Properties\<close>

text \<open>
  In every state a node reaches, the block number is the number of \<open>process_block\<close>
  calls made, successful or not, the reward processor satisfies its conservation check,
  the DAG is acyclic with all parents present, and the node's own conservation tracker and
  treasury are still the empty ones: no operation of the node ever books anything there, so
  the conservation status it reports says nothing about the blocks it processed.
\<close>

theorem node_reachable:
  assumes "run_ops node_step node_new ops = Some s"
  shows "ns_block_number s = length (filter is_block ops) \<and>
    brp_check_conservation (ns_block_reward_processor s) \<and>
    (\<nexists>h. (parent_of (ns_dag s))\<^sup>+\<^sup>+ h h) \<and>
    ns_conservation s = tvc_new \<and> ns_treasury s = treasury_pool_new 0"
proof -
  have inv: "node_inv s" by (rule node.run_inv [OF node_inv_new assms])
  then obtain r where "rank_ok r (dag_nodes (ns_dag s))" by (auto simp: node_inv_def dag_inv_def)
  then have "\<nexists>h. (parent_of (ns_dag s))\<^sup>+\<^sup>+ h h" using rank_acyclic by blast
  moreover have "ns_block_number s = length (filter is_block ops)"
    using run_block_number [OF assms] by (simp add: node_new_def)
  moreover have "brp_check_conservation (ns_block_reward_processor s)"
    using inv by (auto simp: node_inv_def brp_inv_def brp_check_conservation_def check_invariant_def tvc_capped_def)
  ultimately show ?thesis using inv by (simp add: node_inv_def)
qed

theorem node_reachable_witness:
  "\<exists>s. run_ops node_step node_new [NodeInsert (example_tx 1 7 0 []), NodeSettle, NodeStake 9 5] = Some s \<and>
     ns_block_number s = 0 \<and> brp_check_conservation (ns_block_reward_processor s)"
  using node_reachable [of "[NodeInsert (example_tx 1 7 0 []), NodeSettle, NodeStake 9 5]"] by simp

text \<open>
  C33. Settlement makes progress layer by layer. If no two transactions of a node's DAG share
  sender and nonce (otherwise a settled transaction can turn into a conflict, \<open>node_double_spend\<close>), the node is in a
  consistent state and its graph has been layered, then after \<open>k\<close> settlement rounds every transaction of the first \<open>k\<close>
  parallel groups is settled, whatever its status before; after as many rounds as there are
  groups the whole DAG is. A transaction that failed because its parents were late is
  settled in a later round.
\<close>

theorem settlement_progress:
  assumes "node_inv s" and "unique_slots (ns_dag s)" and "parallelizable_groups (ns_dag s) = Some gs"
  shows "(\<forall>k. \<forall>g \<in> set (take k gs). \<forall>h \<in> set g. is_settled (ns_dag ((settle_pending ^^ k) s)) h) \<and>
    (\<forall>h. dag_get (ns_dag s) h \<noteq> None \<longrightarrow> is_settled (ns_dag ((settle_pending ^^ length gs) s)) h)"
proof -
  have inv: "dag_inv (ns_dag s)" using assms(1) by (simp add: node_inv_def)
  from groups_layering [OF inv] assms(3) have
    nodes: "set (concat gs) = {h. dag_get (ns_dag s) h \<noteq> None}" and
    layers: "\<forall>i < length gs. \<forall>h \<in> set (gs ! i). \<forall>p. parent_of (ns_dag s) p h \<longrightarrow> (\<exists>j < i. p \<in> set (gs ! j))"
    by auto
  have layer: "is_settled (ns_dag ((settle_pending ^^ k) s)) h"
    if "g \<in> set (take k gs)" "h \<in> set g" for k g h
  proof -
    from that(1) obtain i where "i < k" "i < length gs" "gs ! i = g" by (auto simp: in_set_conv_nth)
    with rounds_settle_layers [OF inv assms(2) layers nodes, of i k h] that(2) show ?thesis by simp
  qed
  moreover have "is_settled (ns_dag ((settle_pending ^^ length gs) s)) h"
    if "dag_get (ns_dag s) h \<noteq> None" for h
  proof -
    from that have "h \<in> set (concat gs)" unfolding nodes by simp
    with layer [of _ "length gs" h] show ?thesis by auto
  qed
  ultimately show ?thesis by blast
qed

lemma example_node_groups:
  "\<exists>s gs. run_ops node_step node_new [NodeInsert (example_tx 1 7 0 []), NodeInsert (example_tx 2 7 1 [1])] = Some s \<and>
     node_inv s \<and> unique_slots (ns_dag s) \<and> parallelizable_groups (ns_dag s) = Some gs \<and>
     dag_get (ns_dag s) [2] \<noteq> None"
proof -
  let ?ops = "[NodeInsert (example_tx 1 7 0 []), NodeInsert (example_tx 2 7 1 [1])]"
  let ?d = "\<lparr>dag_nodes =
      [([1], \<lparr>dn_tx = example_tx 1 7 0 [], dn_status = Pending, dn_children = [[2]]\<rparr>),
       ([2], \<lparr>dn_tx = example_tx 2 7 1 [1], dn_status = Pending, dn_children = []\<rparr>)],
      dag_tip_set = [[2], [1]]\<rparr>"
  have run: "run_ops node_step node_new ?ops = Some (node_new\<lparr>ns_dag := ?d\<rparr>)"
    by (simp add: insert_transaction_def node_new_def dag_insert_def dag_new_def example_tx_def
        push_child_def hm_contains_def hm_get_def hm_insert_def)
  then have inv: "node_inv (node_new\<lparr>ns_dag := ?d\<rparr>)" by (rule node.run_inv [OF node_inv_new])
  then have "dag_inv ?d" by (simp add: node_inv_def)
  moreover have "unique_slots ?d"
    by (auto simp: unique_slots_def same_slot_def dag_get_def hm_get_def conflicts_with_def example_tx_def
        split: if_splits)
  moreover have "dag_get ?d [2] \<noteq> None" by (simp add: dag_get_def hm_get_def)
  ultimately show ?thesis using run inv groups_layering [of ?d] by fastforce
qed

theorem settlement_progress_witness:
  "\<exists>s gs. run_ops node_step node_new [NodeInsert (example_tx 1 7 0 []), NodeInsert (example_tx 2 7 1 [1])] = Some s \<and>
     parallelizable_groups (ns_dag s) = Some gs \<and>
     is_settled (ns_dag ((settle_pending ^^ length gs) s)) [2]"
  using example_node_groups settlement_progress by blast

text \<open>
  A node settles a double spend. Two different transactions without parents that carry the
  same sender and nonce are both settled by the first settlement round after their insertion,
  and both turned from settled to conflicting by the next one.
\<close>

theorem node_double_spend:
  assumes "tx_hash a \<noteq> tx_hash b" and "tx_parent_hashes a = []" and "tx_parent_hashes b = []"
    and "conflicts_with a b"
  shows "\<exists>s s'. run_ops node_step node_new [NodeInsert a, NodeInsert b, NodeSettle] = Some s \<and>
    is_settled (ns_dag s) (tx_hash a) \<and> is_settled (ns_dag s) (tx_hash b) \<and>
    run_ops node_step s [NodeSettle] = Some s' \<and>
    map_option dn_status (dag_get (ns_dag s') (tx_hash a)) = Some Conflict \<and>
    map_option dn_status (dag_get (ns_dag s') (tx_hash b)) = Some Conflict"
proof -
  obtain s0 where s0: "run_ops node_step node_new [NodeInsert a, NodeInsert b] = Some s0"
    and inv: "dag_inv (ns_dag s0)"
    and get: "dag_get (ns_dag s0) (tx_hash a) = Some \<lparr>dn_tx = a, dn_status = Pending, dn_children = []\<rparr>"
      "dag_get (ns_dag s0) (tx_hash b) = Some \<lparr>dn_tx = b, dn_status = Pending, dn_children = []\<rparr>"
    and none: "\<forall>h. \<not> is_settled (ns_dag s0) h"
    using insert_two_roots [OF assms(1-3)] by blast
  let ?s1 = "settle_pending s0"
  have "\<not> has_conflict (ns_dag s0) h" for h
    using none unfolding has_conflict_iff [OF dag_inv_wf [OF inv]] by blast
  moreover have "ready (ns_dag s0) (tx_hash a)" "ready (ns_dag s0) (tx_hash b)"
    using get assms(2,3) by (auto simp: ready_def parent_of_def)
  ultimately have settled: "is_settled (ns_dag ?s1) (tx_hash a)" "is_settled (ns_dag ?s1) (tx_hash b)"
    using get by (simp_all add: is_settled_def round_status [OF inv])
  have inv1: "dag_inv (ns_dag ?s1)" by (rule round_frame(1) [OF inv])
  have "same_slot (ns_dag ?s1) (tx_hash a) (tx_hash b)" "same_slot (ns_dag ?s1) (tx_hash b) (tx_hash a)"
    using get assms(4) unfolding round_frame(3) [OF inv] by (auto simp: same_slot_def conflicts_with_def)
  then have "has_conflict (ns_dag ?s1) (tx_hash a)" "has_conflict (ns_dag ?s1) (tx_hash b)"
    using settled assms(1) unfolding has_conflict_iff [OF dag_inv_wf [OF inv1]] by metis+
  then have "map_option dn_status (dag_get (ns_dag (settle_pending ?s1)) h) = Some Conflict"
    if "h = tx_hash a \<or> h = tx_hash b" for h
    using that get by (auto simp: round_status [OF inv1] round_status [OF inv] option.map_comp)
  with settled s0 show ?thesis
    by (intro exI [of _ ?s1] exI [of _ "settle_pending ?s1"]) (auto split: option.splits)
qed

theorem node_double_spend_witness:
  "\<exists>s. run_ops node_step node_new [NodeInsert (example_tx 1 7 0 []), NodeInsert (example_tx 2 7 0 []), NodeSettle] = Some s \<and>
     is_settled (ns_dag s) [1] \<and> is_settled (ns_dag s) [2]"
  using node_double_spend [of "example_tx 1 7 0 []" "example_tx 2 7 0 []"]
  by (auto simp: example_tx_def conflicts_with_def)

end
