(* ===== verification/Mvcc.thy ===== *)
theory Mvcc
  imports Rust_Maps
begin

text \<open>
  The multi-version store of \<open>tpt-archon-relational\<close> (\<open>mvcc.rs\<close>): optimistic transactions over
  snapshots. After the operations of the store comes the system of concurrent clients that
  use it, as a step relation on the store, the open transactions and the history of the
  committed ones; the main theorem is that the history is a serial execution.
\<close>

subsection \<open>The store\<close>

type_synonym value_bytes = "nat list"

record version =
  ver_commit_ts :: nat
  ver_value :: value_bytes

record mvcc_store =
  ms_versions :: "(nat, version list) bmap"
  ms_clock :: nat

record mvcc_txn =
  mt_snapshot :: nat
  mt_reads :: "nat list"
  mt_writes :: "(nat, value_bytes) bmap"
  mt_committed :: bool

datatype commit_error = CommitConflict

definition get_write :: "mvcc_txn \<Rightarrow> nat \<Rightarrow> value_bytes option" where
  "get_write t key = bt_get (mt_writes t) key"

definition writes_iter :: "mvcc_txn \<Rightarrow> (nat \<times> value_bytes) list" where
  "writes_iter t = mt_writes t"

definition mvcc_new :: mvcc_store where
  "mvcc_new = \<lparr>ms_versions = [], ms_clock = 0\<rparr>"

definition mvcc_begin :: "mvcc_store \<Rightarrow> mvcc_txn" where
  "mvcc_begin s = \<lparr>mt_snapshot = ms_clock s, mt_reads = [], mt_writes = [], mt_committed = False\<rparr>"

definition visible_value :: "mvcc_store \<Rightarrow> nat \<Rightarrow> nat \<Rightarrow> value_bytes option" where
  "visible_value s key as_of = do {
     chain \<leftarrow> bt_get (ms_versions s) key;
     v \<leftarrow> find (\<lambda>v. ver_commit_ts v \<le> as_of) (rev chain);
     Some (ver_value v)
   }"

definition mvcc_read :: "mvcc_store \<Rightarrow> mvcc_txn \<Rightarrow> nat \<Rightarrow> mvcc_txn \<times> value_bytes option" where
  "mvcc_read s t key =
     (let t' = t\<lparr>mt_reads := mt_reads t @ [key]\<rparr>
      in case bt_get (mt_writes t') key of
           Some v \<Rightarrow> (t', Some v)
         | None \<Rightarrow> (t', visible_value s key (mt_snapshot t')))"

definition mvcc_write :: "mvcc_txn \<Rightarrow> nat \<Rightarrow> value_bytes \<Rightarrow> mvcc_txn" where
  "mvcc_write t key v = t\<lparr>mt_writes := bt_insert key v (mt_writes t)\<rparr>"

definition last_version :: "mvcc_store \<Rightarrow> nat \<Rightarrow> version option" where
  "last_version s key = do {
     chain \<leftarrow> bt_get (ms_versions s) key;
     if chain = [] then None else Some (last chain)
   }"

definition latest_commit_ts :: "mvcc_store \<Rightarrow> nat \<Rightarrow> nat option" where
  "latest_commit_ts s key = map_option ver_commit_ts (last_version s key)"

definition latest :: "mvcc_store \<Rightarrow> nat \<Rightarrow> value_bytes option" where
  "latest s key = map_option ver_value (last_version s key)"

definition stale :: "mvcc_store \<Rightarrow> mvcc_txn \<Rightarrow> nat \<Rightarrow> bool" where
  "stale s t key =
     (case latest_commit_ts s key of None \<Rightarrow> False | Some ts \<Rightarrow> mt_snapshot t < ts)"

definition push_version ::
  "nat \<Rightarrow> (nat, version list) bmap \<Rightarrow> nat \<times> value_bytes \<Rightarrow> (nat, version list) bmap" where
  "push_version commit_ts versions kv =
     (let (key, v) = kv;
          chain = (case bt_get versions key of None \<Rightarrow> [] | Some c \<Rightarrow> c)
      in bt_insert key (chain @ [\<lparr>ver_commit_ts = commit_ts, ver_value = v\<rparr>]) versions)"

definition mvcc_commit :: "mvcc_store \<Rightarrow> mvcc_txn \<Rightarrow> (mvcc_store \<times> (commit_error + nat)) panics" where
  "mvcc_commit s t =
     (if list_ex (stale s t) (mt_reads t @ bt_keys (mt_writes t)) then Some (s, Inl CommitConflict)
      else do {
        commit_ts \<leftarrow> checked_add 64 (ms_clock s) 1;
        Some (s\<lparr>ms_clock := commit_ts,
                ms_versions := foldl (push_version commit_ts) (ms_versions s) (mt_writes t)\<rparr>,
              Inr commit_ts)
      })"

subsection \<open>Chains\<close>

text \<open>Every version chain is non-empty, ascending, and not ahead of the clock.\<close>

definition chain_ok :: "nat \<Rightarrow> version list \<Rightarrow> bool" where
  "chain_ok clock c \<longleftrightarrow> c \<noteq> [] \<and> sorted (map ver_commit_ts c) \<and> (\<forall>v \<in> set c. ver_commit_ts v \<le> clock)"

definition mvcc_inv :: "mvcc_store \<Rightarrow> bool" where
  "mvcc_inv s \<longleftrightarrow> (\<forall>k c. bt_get (ms_versions s) k = Some c \<longrightarrow> chain_ok (ms_clock s) c)"

lemma mvcc_inv_new: "mvcc_inv mvcc_new"
  by (simp add: mvcc_inv_def mvcc_new_def bt_get_def)

lemma chain_last_max: "chain_ok n c \<Longrightarrow> v \<in> set c \<Longrightarrow> ver_commit_ts v \<le> ver_commit_ts (last c)"
  by (cases c rule: rev_cases) (auto simp: chain_ok_def sorted_append)

lemma find_rev_last:
  assumes "c \<noteq> []" and "P (last c)"
  shows "find P (rev c) = Some (last c)"
  using assms by (cases c rule: rev_cases) simp_all

text \<open>What a snapshot shows of a key whose newest version is not younger is the newest value.\<close>

lemma visible_fresh:
  assumes "mvcc_inv s" and "\<And>ts. latest_commit_ts s k = Some ts \<Longrightarrow> ts \<le> as_of"
  shows "visible_value s k as_of = latest s k"
proof (cases "bt_get (ms_versions s) k")
  case None
  then show ?thesis by (simp add: visible_value_def latest_def last_version_def)
next
  case (Some c)
  with assms(1) have "c \<noteq> []" by (auto simp: mvcc_inv_def chain_ok_def)
  with Some assms(2) show ?thesis
    by (simp add: visible_value_def latest_def latest_commit_ts_def last_version_def find_rev_last)
qed

lemma visible_at_clock:
  assumes "mvcc_inv s" and "ms_clock s \<le> as_of"
  shows "visible_value s k as_of = latest s k"
proof (rule visible_fresh [OF assms(1)])
  fix ts
  assume "latest_commit_ts s k = Some ts"
  then obtain c where "bt_get (ms_versions s) k = Some c" "c \<noteq> []" "ts = ver_commit_ts (last c)"
    by (auto simp: latest_commit_ts_def last_version_def bind_eq_Some_conv split: if_splits)
  moreover from this assms(1) have "ver_commit_ts (last c) \<le> ms_clock s"
    by (simp add: mvcc_inv_def chain_ok_def)
  ultimately show "ts \<le> as_of" using assms(2) by simp
qed

lemma bt_get_push_version:
  "bt_get (push_version ts vs (k, v)) j =
     (if j = k then Some ((case bt_get vs k of None \<Rightarrow> [] | Some c \<Rightarrow> c) @ [\<lparr>ver_commit_ts = ts, ver_value = v\<rparr>])
      else bt_get vs j)"
  by (simp add: push_version_def bt_get_insert)

lemma bt_get_push_versions:
  "distinct (map fst ws) \<Longrightarrow> bt_get (foldl (push_version ts) vs ws) j =
     (case map_of ws j of
        None \<Rightarrow> bt_get vs j
      | Some v \<Rightarrow> Some ((case bt_get vs j of None \<Rightarrow> [] | Some c \<Rightarrow> c) @ [\<lparr>ver_commit_ts = ts, ver_value = v\<rparr>]))"
proof (induction ws arbitrary: vs)
  case Nil
  then show ?case by simp
next
  case (Cons w ws)
  obtain k v where w: "w = (k, v)" by (cases w)
  have "map_of ws k = None" using Cons.prems w by (simp add: map_of_eq_None_iff)
  with Cons w show ?case by (auto simp: bt_get_push_version split: option.splits)
qed

lemma commit_get:
  assumes "mvcc_commit s t = Some (s', Inr ts)" and "bt_wf (mt_writes t)"
  shows "bt_get (ms_versions s') j =
    (case bt_get (mt_writes t) j of
       None \<Rightarrow> bt_get (ms_versions s) j
     | Some v \<Rightarrow> Some ((case bt_get (ms_versions s) j of None \<Rightarrow> [] | Some c \<Rightarrow> c) @
                       [\<lparr>ver_commit_ts = ts, ver_value = v\<rparr>]))"
    and "ms_clock s' = Suc (ms_clock s)" and "ts = Suc (ms_clock s)"
    and "\<forall>k \<in> set (mt_reads t) \<union> dom (bt_get (mt_writes t)). \<not> stale s t k"
proof -
  from assms(1) have eqs: "ts = Suc (ms_clock s)" "ms_clock s' = ts"
    "ms_versions s' = foldl (push_version ts) (ms_versions s) (mt_writes t)"
    and ok: "\<not> list_ex (stale s t) (mt_reads t @ bt_keys (mt_writes t))"
    by (auto simp: mvcc_commit_def bind_eq_Some_conv split: if_splits)
  show "ms_clock s' = Suc (ms_clock s)" "ts = Suc (ms_clock s)" using eqs by simp_all
  show "bt_get (ms_versions s') j =
    (case bt_get (mt_writes t) j of
       None \<Rightarrow> bt_get (ms_versions s) j
     | Some v \<Rightarrow> Some ((case bt_get (ms_versions s) j of None \<Rightarrow> [] | Some c \<Rightarrow> c) @
                       [\<lparr>ver_commit_ts = ts, ver_value = v\<rparr>]))"
    using eqs(3) bt_get_push_versions [OF bt_wf_distinct [OF assms(2)], of ts "ms_versions s" j]
    by (simp add: bt_get_def)
  show "\<forall>k \<in> set (mt_reads t) \<union> dom (bt_get (mt_writes t)). \<not> stale s t k"
    using ok by (force simp: list_ex_iff bt_keys_def bt_get_def dest: map_of_SomeD)
qed

lemma commit_inv:
  assumes "mvcc_inv s" and "mvcc_commit s t = Some (s', Inr ts)" and "bt_wf (mt_writes t)"
  shows "mvcc_inv s'"
  unfolding mvcc_inv_def
proof (intro allI impI)
  fix k c'
  assume c': "bt_get (ms_versions s') k = Some c'"
  note get = commit_get [OF assms(2,3)]
  have old: "chain_ok (ms_clock s) c" if "bt_get (ms_versions s) k = Some c" for c
    using assms(1) that by (simp add: mvcc_inv_def)
  show "chain_ok (ms_clock s') c'"
  proof (cases "bt_get (ms_versions s) k")
    case None
    with c' show ?thesis
      unfolding get(1) get(2) by (auto simp: chain_ok_def get(3) split: option.splits)
  next
    case (Some c)
    from c' Some old [OF Some] show ?thesis
      unfolding get(1) get(2)
      by (auto simp: chain_ok_def get(3) sorted_append split: option.splits) (use le_SucI in blast)+
  qed
qed

lemma commit_latest:
  assumes "mvcc_commit s t = Some (s', Inr ts)" and "bt_wf (mt_writes t)"
  shows "latest s' = latest s ++ bt_get (mt_writes t)"
proof
  fix k
  show "latest s' k = (latest s ++ bt_get (mt_writes t)) k"
    using commit_get(1) [OF assms, of k]
    by (cases "bt_get (mt_writes t) k")
      (simp_all add: latest_def last_version_def map_add_def split: option.splits)
qed

lemma commit_visible:
  assumes "mvcc_inv s" and "mvcc_commit s t = Some (s', Inr ts)" and "bt_wf (mt_writes t)"
    and "as_of \<le> ms_clock s"
  shows "visible_value s' k as_of = visible_value s k as_of"
  using commit_get(1,3) [OF assms(2,3)] assms(4)
  by (auto simp: visible_value_def split: option.splits)

subsection \<open>Concurrent clients\<close>

text \<open>
  A client's log records its reads with the values they returned and its writes, in program
  order. Executing a log against a database checks every read and applies every write;
  executing several logs one after the other is a serial execution.
\<close>

datatype access = Read nat "value_bytes option" | Write nat value_bytes

fun execute :: "(nat \<rightharpoonup> value_bytes) \<Rightarrow> access list \<Rightarrow> (nat \<rightharpoonup> value_bytes) option" where
  "execute db [] = Some db"
| "execute db (Read k v # l) = (if db k = v then execute db l else None)"
| "execute db (Write k v # l) = execute (db(k \<mapsto> v)) l"

fun read_keys :: "access list \<Rightarrow> nat set" where
  "read_keys [] = {}"
| "read_keys (Read k v # l) = insert k (read_keys l)"
| "read_keys (Write k v # l) = read_keys l"

fun buffer :: "(nat \<rightharpoonup> value_bytes) \<Rightarrow> access list \<Rightarrow> (nat \<rightharpoonup> value_bytes)" where
  "buffer u [] = u"
| "buffer u (Read k v # l) = buffer u l"
| "buffer u (Write k v # l) = buffer (u(k \<mapsto> v)) l"

lemma execute_append: "execute db (l @ l') = Option.bind (execute db l) (\<lambda>db'. execute db' l')"
  by (induction db l rule: execute.induct) (simp_all del: fun_upd_apply)

lemma read_keys_append: "read_keys (l @ l') = read_keys l \<union> read_keys l'"
  by (induction l rule: read_keys.induct) auto

lemma buffer_append: "buffer u (l @ l') = buffer (buffer u l) l'"
  by (induction u l rule: buffer.induct) (simp_all del: fun_upd_apply)

text \<open>Execution only looks at the keys it reads, and leaves behind its buffered writes.\<close>

lemma execute_cong:
  assumes "execute (db ++ u) l = Some d" and "\<And>k. k \<in> read_keys l \<Longrightarrow> db k = db' k"
  shows "execute (db' ++ u) l = Some (db' ++ buffer u l)"
  using assms
proof (induction l arbitrary: u)
  case Nil
  then show ?case by simp
next
  case (Cons a l)
  show ?case
  proof (cases a)
    case (Read k v)
    from Cons.prems(1) Read have hd: "(db ++ u) k = v" and tl: "execute (db ++ u) l = Some d"
      by (auto split: if_splits)
    from Cons.prems(2) [of k] Read have "db k = db' k" by simp
    with hd have "(db' ++ u) k = v" by (cases "u k") (auto simp: map_add_def)
    moreover have "execute (db' ++ u) l = Some (db' ++ buffer u l)"
      using tl Cons.prems(2) Read by (intro Cons.IH) auto
    ultimately show ?thesis using Read by simp
  next
    case (Write k v)
    from Cons.prems(1) Write have "execute (db ++ u(k \<mapsto> v)) l = Some d" by simp
    moreover have "\<And>j. j \<in> read_keys l \<Longrightarrow> db j = db' j" using Cons.prems(2) Write by simp
    ultimately have "execute (db' ++ u(k \<mapsto> v)) l = Some (db' ++ buffer (u(k \<mapsto> v)) l)"
      by (rule Cons.IH)
    with Write show ?thesis by (simp del: fun_upd_apply)
  qed
qed

text \<open>
  The system: the store, the open transactions with their logs, and the logs of the
  committed ones in commit order.
\<close>

record mvcc_system =
  sys_store :: mvcc_store
  sys_open :: "nat \<rightharpoonup> mvcc_txn \<times> access list"
  sys_history :: "access list list"

definition sys_init :: mvcc_system where
  "sys_init = \<lparr>sys_store = mvcc_new, sys_open = Map.empty, sys_history = []\<rparr>"

inductive sys_step :: "mvcc_system \<Rightarrow> mvcc_system \<Rightarrow> bool" where
  step_begin: "sys_open s i = None \<Longrightarrow>
    sys_step s (s\<lparr>sys_open := (sys_open s)(i \<mapsto> (mvcc_begin (sys_store s), []))\<rparr>)"
| step_read: "sys_open s i = Some (t, l) \<Longrightarrow> mvcc_read (sys_store s) t k = (t', v) \<Longrightarrow>
    sys_step s (s\<lparr>sys_open := (sys_open s)(i \<mapsto> (t', l @ [Read k v]))\<rparr>)"
| step_write: "sys_open s i = Some (t, l) \<Longrightarrow>
    sys_step s (s\<lparr>sys_open := (sys_open s)(i \<mapsto> (mvcc_write t k v, l @ [Write k v]))\<rparr>)"
| step_commit: "sys_open s i = Some (t, l) \<Longrightarrow> mvcc_commit (sys_store s) t = Some (st, Inr ts) \<Longrightarrow>
    sys_step s (s\<lparr>sys_store := st, sys_open := (sys_open s)(i := None), sys_history := sys_history s @ [l]\<rparr>)"
| step_abort: "sys_open s i = Some (t, l) \<Longrightarrow> mvcc_commit (sys_store s) t = Some (st, Inl e) \<Longrightarrow>
    sys_step s (s\<lparr>sys_store := st, sys_open := (sys_open s)(i := None)\<rparr>)"
| step_drop: "sys_open s i = Some (t, l) \<Longrightarrow>
    sys_step s (s\<lparr>sys_open := (sys_open s)(i := None)\<rparr>)"

inductive_cases sys_stepE: "sys_step s s'"

abbreviation snapshot_view :: "mvcc_store \<Rightarrow> mvcc_txn \<Rightarrow> (nat \<rightharpoonup> value_bytes)" where
  "snapshot_view st t \<equiv> (\<lambda>k. visible_value st k (mt_snapshot t))"

definition txn_ok :: "mvcc_store \<Rightarrow> mvcc_txn \<Rightarrow> access list \<Rightarrow> bool" where
  "txn_ok st t l \<longleftrightarrow>
     mt_snapshot t \<le> ms_clock st \<and> bt_wf (mt_writes t) \<and>
     read_keys l \<subseteq> set (mt_reads t) \<and> buffer Map.empty l = bt_get (mt_writes t) \<and>
     execute (snapshot_view st t) l = Some (snapshot_view st t ++ bt_get (mt_writes t))"

definition sys_inv :: "mvcc_system \<Rightarrow> bool" where
  "sys_inv s \<longleftrightarrow> mvcc_inv (sys_store s) \<and>
     (\<forall>i t l. sys_open s i = Some (t, l) \<longrightarrow> txn_ok (sys_store s) t l) \<and>
     execute Map.empty (concat (sys_history s)) = Some (latest (sys_store s))"

lemma sys_inv_init: "sys_inv sys_init"
  using mvcc_inv_new
  by (auto simp: sys_inv_def sys_init_def latest_def last_version_def mvcc_new_def bt_get_def fun_eq_iff)

lemma txn_ok_begin: "txn_ok st (mvcc_begin st) []"
  by (simp add: txn_ok_def mvcc_begin_def bt_wf_def bt_get_def fun_eq_iff map_add_def)

lemma txn_ok_read:
  assumes "txn_ok st t l" and "mvcc_read st t k = (t', v)"
  shows "txn_ok st t' (l @ [Read k v])"
proof -
  have t': "t' = t\<lparr>mt_reads := mt_reads t @ [k]\<rparr>"
    and v: "v = (snapshot_view st t ++ bt_get (mt_writes t)) k"
    using assms(2) by (auto simp: mvcc_read_def Let_def map_add_def split: option.splits)
  show ?thesis
    using assms(1) unfolding txn_ok_def t' v
    by (auto simp: execute_append read_keys_append buffer_append)
qed

lemma txn_ok_write:
  assumes "txn_ok st t l"
  shows "txn_ok st (mvcc_write t k v) (l @ [Write k v])"
  using assms
  by (simp add: txn_ok_def mvcc_write_def execute_append read_keys_append buffer_append bt_get_insert bt_wf_insert)

lemma txn_ok_later:
  assumes "mvcc_inv st" and "mvcc_commit st u = Some (st', Inr ts)" and "bt_wf (mt_writes u)"
    and "txn_ok st t l"
  shows "txn_ok st' t l"
proof -
  have "snapshot_view st' t = snapshot_view st t"
    using commit_visible [OF assms(1-3)] assms(4) by (auto simp: txn_ok_def)
  with assms(4) commit_get(2) [OF assms(2,3)] show ?thesis by (simp add: txn_ok_def)
qed

text \<open>
  The heart of serializability: a transaction that passes validation has only seen values
  that are still the newest ones, so running its log now, against the newest state, gives
  the same reads.
\<close>

lemma commit_serial:
  assumes inv: "mvcc_inv st" and ok: "txn_ok st t l" and commit: "mvcc_commit st t = Some (st', Inr ts)"
  shows "execute (latest st) l = Some (latest st')"
proof -
  from ok have wf: "bt_wf (mt_writes t)" by (simp add: txn_ok_def)
  have "visible_value st k (mt_snapshot t) = latest st k" if "k \<in> read_keys l" for k
  proof (rule visible_fresh [OF inv])
    fix u
    assume u: "latest_commit_ts st k = Some u"
    from that ok commit_get(4) [OF commit wf] have "\<not> stale st t k" by (auto simp: txn_ok_def)
    with u show "u \<le> mt_snapshot t" by (simp add: stale_def)
  qed
  with ok have "execute (latest st ++ Map.empty) l = Some (latest st ++ buffer Map.empty l)"
    by (intro execute_cong [of "snapshot_view st t"]) (auto simp: txn_ok_def)
  with ok commit_latest [OF commit wf] show ?thesis by (simp add: txn_ok_def)
qed

lemma sys_step_inv:
  assumes "sys_step s s'" and "sys_inv s"
  shows "sys_inv s'"
  using assms
proof (cases rule: sys_step.cases)
  case (step_commit i t l st ts)
  from assms(2) step_commit(2) have inv: "mvcc_inv (sys_store s)" and ok: "txn_ok (sys_store s) t l"
    by (auto simp: sys_inv_def)
  then have wf: "bt_wf (mt_writes t)" by (simp add: txn_ok_def)
  have "mvcc_inv st" by (rule commit_inv [OF inv step_commit(3) wf])
  moreover have "txn_ok st u m" if "sys_open s j = Some (u, m)" for j u m
    using assms(2) that by (intro txn_ok_later [OF inv step_commit(3) wf]) (auto simp: sys_inv_def)
  moreover have "execute Map.empty (concat (sys_history s @ [l])) = Some (latest st)"
    using assms(2) commit_serial [OF inv ok step_commit(3)] by (simp add: sys_inv_def execute_append)
  ultimately show ?thesis using step_commit(1) by (auto simp: sys_inv_def split: if_splits)
next
  case (step_abort i t l st e)
  then have "st = sys_store s" by (auto simp: mvcc_commit_def bind_eq_Some_conv split: if_splits)
  with step_abort(1) assms(2) show ?thesis by (auto simp: sys_inv_def split: if_splits)
qed (auto simp: sys_inv_def txn_ok_begin txn_ok_write intro: txn_ok_read split: if_splits)

lemma sys_reachable_inv: "sys_step\<^sup>*\<^sup>* sys_init s \<Longrightarrow> sys_inv s"
  by (induction rule: rtranclp_induct) (auto intro: sys_inv_init sys_step_inv)

subsection \<open>Properties\<close>

text \<open>
  C1. Serializability. In every state that any number of concurrent clients can reach, with
  their begins, reads, writes, commits, aborts and abandoned transactions interleaved in any
  way, running the committed transactions one after the other in commit order from the empty
  database reproduces every value they read and ends in exactly the newest committed state.
  A client that is still open has so far seen one consistent snapshot overlaid with its own
  writes.
\<close>

theorem mvcc_serializable:
  assumes "sys_step\<^sup>*\<^sup>* sys_init s"
  shows "execute Map.empty (concat (sys_history s)) = Some (latest (sys_store s)) \<and>
    (\<forall>i t l. sys_open s i = Some (t, l) \<longrightarrow>
       execute (\<lambda>k. visible_value (sys_store s) k (mt_snapshot t)) l \<noteq> None)"
  using sys_reachable_inv [OF assms] by (auto simp: sys_inv_def txn_ok_def)

definition example_txn :: mvcc_txn where
  "example_txn = mvcc_write (mvcc_begin mvcc_new) 1 [10]"

lemma example_commit:
  "mvcc_commit mvcc_new example_txn =
     Some (\<lparr>ms_versions = [(1, [\<lparr>ver_commit_ts = 1, ver_value = [10]\<rparr>])], ms_clock = 1\<rparr>, Inr 1)"
  by (simp add: example_txn_def mvcc_commit_def mvcc_write_def mvcc_begin_def mvcc_new_def stale_def
      latest_commit_ts_def last_version_def bt_get_def bt_keys_def push_version_def checked_add_def)

theorem mvcc_serializable_witness:
  "\<exists>s. sys_step\<^sup>*\<^sup>* sys_init s \<and> sys_history s = [[Write 1 [10]]] \<and> latest (sys_store s) = [1 \<mapsto> [10]]"
proof -
  let ?st = "\<lparr>ms_versions = [(1, [\<lparr>ver_commit_ts = 1, ver_value = [10]\<rparr>])], ms_clock = 1\<rparr>"
  let ?s1 = "sys_init\<lparr>sys_open := [0 \<mapsto> (mvcc_begin mvcc_new, [])]\<rparr>"
  let ?s2 = "sys_init\<lparr>sys_open := [0 \<mapsto> (example_txn, [Write 1 [10]])]\<rparr>"
  let ?s3 = "sys_init\<lparr>sys_store := ?st, sys_history := [[Write 1 [10]]]\<rparr>"
  have "sys_step sys_init ?s1"
    using step_begin [of sys_init 0] by (simp add: sys_init_def)
  moreover have "sys_step ?s1 ?s2"
    using step_write [of ?s1 0 "mvcc_begin mvcc_new" "[]" 1 "[10]"] by (simp add: example_txn_def)
  moreover have "sys_step ?s2 ?s3"
    using step_commit [of ?s2 0 example_txn "[Write 1 [10]]" ?st 1] example_commit
    by (simp add: sys_init_def)
  ultimately have reach: "sys_step\<^sup>*\<^sup>* sys_init ?s3"
    by (meson rtranclp.rtrancl_refl rtranclp.rtrancl_into_rtrancl)
  from mvcc_serializable [OF this] reach show ?thesis
    by (intro exI [of _ ?s3]) simp
qed

text \<open>
  Commit is exact. On a store whose chains are in order, below the last timestamp, a commit
  is refused exactly when some key the transaction read or wrote has a version younger than
  its snapshot, and then the store is unchanged; otherwise the newest state is overwritten
  by the buffered writes and nothing else, and every snapshot taken before still shows the
  same values.
\<close>

theorem mvcc_commit_exact:
  assumes "mvcc_inv s" and "bt_wf (mt_writes t)" and "ms_clock s < 2 ^ 64 - 1"
  shows "if \<exists>k ts. (k \<in> set (mt_reads t) \<or> bt_get (mt_writes t) k \<noteq> None) \<and>
              latest_commit_ts s k = Some ts \<and> mt_snapshot t < ts
    then mvcc_commit s t = Some (s, Inl CommitConflict)
    else \<exists>s'. mvcc_commit s t = Some (s', Inr (ms_clock s + 1)) \<and> mvcc_inv s' \<and>
      latest s' = latest s ++ bt_get (mt_writes t) \<and>
      (\<forall>k as_of. as_of \<le> ms_clock s \<longrightarrow> visible_value s' k as_of = visible_value s k as_of)"
proof -
  have stale: "list_ex (stale s t) (mt_reads t @ bt_keys (mt_writes t)) \<longleftrightarrow>
      (\<exists>k ts. (k \<in> set (mt_reads t) \<or> bt_get (mt_writes t) k \<noteq> None) \<and>
         latest_commit_ts s k = Some ts \<and> mt_snapshot t < ts)"
    by (auto simp: list_ex_iff stale_def bt_keys_def bt_get_def domIff [symmetric] dom_map_of_conv_image_fst
        simp del: not_None_eq split: option.splits)
  show ?thesis
  proof (cases "list_ex (stale s t) (mt_reads t @ bt_keys (mt_writes t))")
    case True
    then show ?thesis unfolding stale [symmetric] by (simp add: mvcc_commit_def)
  next
    case False
    then obtain s' where s': "mvcc_commit s t = Some (s', Inr (ms_clock s + 1))"
      using assms(3) by (auto simp: mvcc_commit_def checked_add_def)
    from commit_inv [OF assms(1) s' assms(2)] commit_latest [OF s' assms(2)]
      commit_visible [OF assms(1) s' assms(2)] s' False
    show ?thesis unfolding stale [symmetric] by simp
  qed
qed

theorem mvcc_commit_exact_witness:
  "\<exists>s'. mvcc_commit mvcc_new example_txn = Some (s', Inr 1) \<and> latest s' 1 = Some [10]"
proof -
  have "bt_wf (mt_writes example_txn)" "ms_clock mvcc_new < 2 ^ 64 - 1"
    by (simp_all add: example_txn_def mvcc_write_def mvcc_begin_def mvcc_new_def bt_wf_def)
  from mvcc_commit_exact [OF mvcc_inv_new this] show ?thesis
    by (auto simp: example_commit latest_def last_version_def bt_get_def split: if_splits)
qed

end
