(* ===== verification/Capability.thy ===== *)
theory Capability
  imports Rust_Maps
begin

text \<open>
  Capabilities of \<open>tpt-archon-bridge\<close> (\<open>capability.rs\<close>) and the message router of
  \<open>tpt-archon-kernel\<close> that checks them (\<open>ipc.rs\<close>). The live serials of an issuer, a
  \<open>BTreeSet\<close>, are a set.
\<close>

subsection \<open>Rights, resources, capabilities\<close>

datatype right = RightRead | RightWrite | RightReadWrite

fun allows_read :: "right \<Rightarrow> bool" where
  "allows_read RightRead = True"
| "allows_read RightReadWrite = True"
| "allows_read RightWrite = False"

fun allows_write :: "right \<Rightarrow> bool" where
  "allows_write RightWrite = True"
| "allows_write RightReadWrite = True"
| "allows_write RightRead = False"

datatype resource = ResPage nat | ResChannel nat

record capability =
  cap_serial :: nat
  cap_resource :: resource
  cap_right :: right

definition authorizes :: "capability \<Rightarrow> resource \<Rightarrow> right \<Rightarrow> bool" where
  "authorizes cap res r \<longleftrightarrow>
     cap_resource cap = res \<and>
     (case r of
        RightRead \<Rightarrow> allows_read (cap_right cap)
      | RightWrite \<Rightarrow> allows_write (cap_right cap)
      | RightReadWrite \<Rightarrow> allows_read (cap_right cap) \<and> allows_write (cap_right cap))"

subsection \<open>The issuer\<close>

record capability_issuer =
  ci_next_serial :: nat
  ci_live :: "nat set"

definition issuer_new :: capability_issuer where
  "issuer_new = \<lparr>ci_next_serial = 0, ci_live = {}\<rparr>"

definition mint :: "capability_issuer \<Rightarrow> resource \<Rightarrow> right \<Rightarrow> (capability_issuer \<times> capability) panics" where
  "mint iss res r = do {
     let serial = ci_next_serial iss;
     next_serial \<leftarrow> checked_add 64 (ci_next_serial iss) 1;
     Some (iss\<lparr>ci_next_serial := next_serial, ci_live := insert serial (ci_live iss)\<rparr>,
           \<lparr>cap_serial = serial, cap_resource = res, cap_right = r\<rparr>)
   }"

definition revoke_cap :: "capability_issuer \<Rightarrow> capability \<Rightarrow> capability_issuer" where
  "revoke_cap iss cap = iss\<lparr>ci_live := ci_live iss - {cap_serial cap}\<rparr>"

definition validate :: "capability_issuer \<Rightarrow> capability \<Rightarrow> bool" where
  "validate iss cap \<longleftrightarrow> cap_serial cap \<in> ci_live iss"

subsection \<open>The message router\<close>

record message =
  msg_channel :: nat
  msg_payload :: "nat list"

datatype ipc_error = Denied | NoSuchChannel

type_synonym message_router = "(nat, message list) bmap"

definition router_new :: message_router where
  "router_new = []"

definition register_channel :: "message_router \<Rightarrow> nat \<Rightarrow> message_router" where
  "register_channel r channel =
     (case bt_get r channel of None \<Rightarrow> bt_insert channel [] r | Some inbox \<Rightarrow> r)"

definition ipc_send :: "message_router \<Rightarrow> capability \<Rightarrow> message \<Rightarrow> message_router \<times> ipc_error unit_result" where
  "ipc_send r cap m =
     (if \<not> authorizes cap (ResChannel (msg_channel m)) RightWrite then (r, Inl Denied)
      else case bt_get r (msg_channel m) of
        None \<Rightarrow> (r, Inl NoSuchChannel)
      | Some inbox \<Rightarrow> (bt_insert (msg_channel m) (inbox @ [m]) r, Inr ()))"

definition ipc_receive ::
  "message_router \<Rightarrow> capability \<Rightarrow> nat \<Rightarrow> message_router \<times> (ipc_error + message list)" where
  "ipc_receive r cap channel =
     (if \<not> authorizes cap (ResChannel channel) RightRead then (r, Inl Denied)
      else case bt_get r channel of
        None \<Rightarrow> (r, Inl NoSuchChannel)
      | Some inbox \<Rightarrow> (bt_insert channel [] r, Inr inbox))"

subsection \<open>Issuer histories\<close>

text \<open>
  A history of one issuer: the capabilities it has minted, and those revoked through it.
\<close>

inductive issued :: "capability_issuer \<Rightarrow> capability set \<Rightarrow> capability set \<Rightarrow> bool" where
  issued_new: "issued issuer_new {} {}"
| issued_mint: "issued iss M R \<Longrightarrow> mint iss res r = Some (iss', cap) \<Longrightarrow> issued iss' (insert cap M) R"
| issued_revoke: "issued iss M R \<Longrightarrow> cap \<in> M \<Longrightarrow> issued (revoke_cap iss cap) M (insert cap R)"

lemma mint_Some:
  "mint iss res r = Some (iss', cap) \<longleftrightarrow>
     ci_next_serial iss < 2 ^ 64 - 1 \<and>
     iss' = iss\<lparr>ci_next_serial := Suc (ci_next_serial iss), ci_live := insert (ci_next_serial iss) (ci_live iss)\<rparr> \<and>
     cap = \<lparr>cap_serial = ci_next_serial iss, cap_resource = res, cap_right = r\<rparr>"
  by (auto simp: mint_def Let_def bind_eq_Some_conv)

lemma issued_inv:
  assumes "issued iss M R"
  shows "(\<forall>c \<in> M. cap_serial c < ci_next_serial iss) \<and> inj_on cap_serial M \<and> R \<subseteq> M \<and>
    ci_live iss = cap_serial ` (M - R)"
  using assms
proof (induction rule: issued.induct)
  case issued_new
  then show ?case by (simp add: issuer_new_def)
next
  case (issued_mint iss M R res r iss' cap)
  from issued_mint.hyps(2) have cap: "cap_serial cap = ci_next_serial iss"
    and iss': "ci_next_serial iss' = Suc (ci_next_serial iss)"
      "ci_live iss' = insert (ci_next_serial iss) (ci_live iss)"
    by (auto simp: mint_Some)
  from issued_mint.IH cap have new: "cap \<notin> M" "cap_serial cap \<notin> cap_serial ` M" by fastforce+
  have "ci_live iss' = cap_serial ` (insert cap M - R)"
    using issued_mint.IH iss'(2) cap new(1) by (auto simp: insert_Diff_if)
  with issued_mint.IH cap iss'(1) new show ?case
    by (auto simp: less_Suc_eq inj_on_insert)
next
  case (issued_revoke iss M R cap)
  have "ci_live (revoke_cap iss cap) = cap_serial ` (M - insert cap R)"
    using issued_revoke by (auto simp: revoke_cap_def inj_on_def)
  with issued_revoke show ?case by (auto simp: revoke_cap_def)
qed

subsection \<open>Channels\<close>

text \<open>The router as a step function over its calls, with the messages a channel has accepted.\<close>

datatype ipc_op = OpRegister nat | OpSend capability message | OpReceive capability nat

fun router_step :: "message_router \<Rightarrow> ipc_op \<Rightarrow> message_router panics" where
  "router_step r (OpRegister c) = Some (register_channel r c)"
| "router_step r (OpSend cap m) = Some (fst (ipc_send r cap m))"
| "router_step r (OpReceive cap c) = Some (fst (ipc_receive r cap c))"

lemmas router_defs = register_channel_def ipc_send_def ipc_receive_def

definition inboxes_ok :: "message_router \<Rightarrow> bool" where
  "inboxes_ok r \<longleftrightarrow> bt_wf r \<and> (\<forall>c inbox. bt_get r c = Some inbox \<longrightarrow> (\<forall>m \<in> set inbox. msg_channel m = c))"

interpretation router: total_component router_step inboxes_ok
proof unfold_locales
  fix r a r'
  assume "inboxes_ok r" and "router_step r a = Some r'"
  then show "inboxes_ok r'"
    by (cases a)
      (auto simp: router_defs inboxes_ok_def bt_get_insert bt_wf_insert split: option.splits if_splits)
next
  fix r a
  show "router_step r a \<noteq> None" by (cases a) simp_all
qed

text \<open>What the calls of a trace deliver to channel \<open>c\<close>, and what its receivers have drained.\<close>

fun channel_trace ::
  "message_router \<Rightarrow> nat \<Rightarrow> ipc_op list \<Rightarrow> message list \<times> message list" where
  "channel_trace r c [] = ([], [])"
| "channel_trace r c (OpRegister d # as) = channel_trace (register_channel r d) c as"
| "channel_trace r c (OpSend cap m # as) =
     (let (r', res) = ipc_send r cap m; (ins, outs) = channel_trace r' c as
      in if res = Inr () \<and> msg_channel m = c then (m # ins, outs) else (ins, outs))"
| "channel_trace r c (OpReceive cap d # as) =
     (let (r', res) = ipc_receive r cap d; (ins, outs) = channel_trace r' c as
      in case res of
           Inr ms \<Rightarrow> if d = c then (ins, ms @ outs) else (ins, outs)
         | Inl e \<Rightarrow> (ins, outs))"

abbreviation inbox_of :: "message_router \<Rightarrow> nat \<Rightarrow> message list" where
  "inbox_of r c \<equiv> (case bt_get r c of None \<Rightarrow> [] | Some inbox \<Rightarrow> inbox)"

lemma channel_fifo:
  assumes "run_ops router_step r as = Some r'"
  shows "inbox_of r c @ fst (channel_trace r c as) = snd (channel_trace r c as) @ inbox_of r' c"
  using assms
proof (induction as arbitrary: r)
  case Nil
  then show ?case by simp
next
  case (Cons a as)
  from Cons.prems obtain q where q: "router_step r a = Some q" "run_ops router_step q as = Some r'"
    by (auto split: option.splits)
  note IH = Cons.IH [OF q(2)]
  show ?case
  proof (cases a)
    case (OpRegister d)
    with IH q(1) show ?thesis
      by (auto simp: register_channel_def bt_get_insert split: option.splits if_splits)
  next
    case (OpSend cap m)
    with IH q(1) show ?thesis
      by (auto simp: ipc_send_def bt_get_insert Let_def split: option.splits if_splits prod.splits)
  next
    case (OpReceive cap d)
    with IH q(1) show ?thesis
      by (auto simp: ipc_receive_def bt_get_insert Let_def split: option.splits if_splits prod.splits)
  qed
qed

subsection \<open>Properties\<close>

text \<open>
  Capabilities are unforgeable and revocable: over any history of one issuer, minted
  capabilities have pairwise different serials, and of everything minted exactly the
  capabilities that were not revoked validate; a serial the issuer has not handed out never
  validates. Revoking one capability leaves every other one valid.
\<close>

theorem issuer_validates_live:
  assumes "issued iss minted revoked"
  shows "inj_on cap_serial minted \<and>
    (\<forall>cap \<in> minted. validate iss cap \<longleftrightarrow> cap \<notin> revoked) \<and>
    (\<forall>cap. validate iss cap \<longrightarrow> cap_serial cap \<in> cap_serial ` minted)"
  using issued_inv [OF assms] by (auto simp: validate_def inj_on_def)

theorem issuer_validates_live_witness:
  "\<exists>iss cap cap'. issued iss {cap, cap'} {cap} \<and> \<not> validate iss cap \<and> validate iss cap'"
proof -
  let ?c0 = "\<lparr>cap_serial = 0, cap_resource = ResPage 3, cap_right = RightRead\<rparr>"
  let ?c1 = "\<lparr>cap_serial = 1, cap_resource = ResPage 3, cap_right = RightRead\<rparr>"
  let ?i1 = "\<lparr>ci_next_serial = 1, ci_live = {0}\<rparr>"
  let ?i2 = "\<lparr>ci_next_serial = 2, ci_live = {1, 0}\<rparr>"
  have "issued ?i1 {?c0} {}"
    by (rule issued_mint [OF issued_new, of "ResPage 3" RightRead]) (simp add: mint_Some issuer_new_def)
  then have "issued ?i2 {?c1, ?c0} {}"
    by (rule issued_mint [of _ _ _ "ResPage 3" RightRead]) (simp add: mint_Some)
  then have iss: "issued (revoke_cap ?i2 ?c0) {?c1, ?c0} {?c0}" by (rule issued_revoke) simp
  from issuer_validates_live [OF iss] iss show ?thesis
    by (intro exI [of _ "revoke_cap ?i2 ?c0"] exI [of _ ?c0] exI [of _ ?c1]) (simp add: insert_commute)
qed

text \<open>
  Channels are FIFO queues that lose and duplicate nothing: over any sequence of calls on
  a router, what was in a channel's inbox followed by what was accepted for it equals what
  its receivers got, in order, followed by what is in the inbox at the end; and every message
  in an inbox is addressed to that channel.
\<close>

theorem router_fifo:
  assumes "inboxes_ok r"
  shows "\<exists>r'. run_ops router_step r as = Some r' \<and> inboxes_ok r' \<and>
    inbox_of r c @ fst (channel_trace r c as) = snd (channel_trace r c as) @ inbox_of r' c"
  using router.run_total [OF assms, of as] channel_fifo by blast

definition example_cap :: "nat \<Rightarrow> right \<Rightarrow> capability" where
  "example_cap c r = \<lparr>cap_serial = 0, cap_resource = ResChannel c, cap_right = r\<rparr>"

theorem router_fifo_witness:
  "\<exists>r'. run_ops router_step router_new [OpRegister 7, OpSend (example_cap 7 RightWrite) \<lparr>msg_channel = 7, msg_payload = [1]\<rparr>] = Some r' \<and>
     inbox_of r' 7 = [\<lparr>msg_channel = 7, msg_payload = [1]\<rparr>]"
proof -
  have "inboxes_ok router_new" by (simp add: inboxes_ok_def router_new_def bt_wf_def bt_get_def)
  from router_fifo [OF this, of "[OpRegister 7, OpSend (example_cap 7 RightWrite) \<lparr>msg_channel = 7, msg_payload = [1]\<rparr>]" 7]
  show ?thesis
    by (auto simp: router_new_def register_channel_def ipc_send_def authorizes_def example_cap_def bt_get_def)
qed

text \<open>
  Access control of the router: a message is accepted exactly when the capability names the
  addressed channel with a writing right and the channel is registered, an inbox is drained
  exactly when the capability names the channel with a reading right and it is registered;
  a refused call changes nothing. Revocation is not consulted: the outcome does not depend on
  any issuer's live set.
\<close>

theorem router_access_control:
  "(snd (ipc_send r cap m) = Inr () \<longleftrightarrow>
      cap_resource cap = ResChannel (msg_channel m) \<and> allows_write (cap_right cap) \<and>
      bt_get r (msg_channel m) \<noteq> None) \<and>
   ((\<exists>ms. snd (ipc_receive r cap c) = Inr ms) \<longleftrightarrow>
      cap_resource cap = ResChannel c \<and> allows_read (cap_right cap) \<and> bt_get r c \<noteq> None) \<and>
   (snd (ipc_send r cap m) = Inr () \<or> fst (ipc_send r cap m) = r) \<and>
   ((\<exists>ms. snd (ipc_receive r cap c) = Inr ms) \<or> fst (ipc_receive r cap c) = r)"
  by (auto simp: ipc_send_def ipc_receive_def authorizes_def split: option.splits)

end
