(* ===== verification/Scheduler.thy ===== *)
theory Scheduler
  imports Prelude
begin

text \<open>
  The cooperative scheduler of \<open>tpt-archon-kernel\<close> (\<open>scheduler.rs\<close>). A task is whatever
  implements the \<open>Task\<close> trait, so its \<open>poll\<close> is a parameter: a function of the task's own
  state and of a world that tasks may share (tasks can hold shared handles), which returns
  both updated with the poll result. \<open>run_to_completion\<close> loops as long as tasks are left;
  not returning is \<open>None\<close>.
\<close>

datatype poll_result = PollPending | PollReady

type_synonym ('w, 't) poll_fn = "'w \<Rightarrow> 't \<Rightarrow> 'w \<times> 't \<times> poll_result"

record 't sched_entry =
  ent_id :: nat
  ent_task :: 't

record 't scheduler =
  sch_ready :: "'t sched_entry list"
  sch_next_id :: nat

definition scheduler_new :: "'t scheduler" where
  "scheduler_new = \<lparr>sch_ready = [], sch_next_id = 0\<rparr>"

definition spawn :: "'t scheduler \<Rightarrow> 't \<Rightarrow> ('t scheduler \<times> nat) panics" where
  "spawn s task = do {
     let i = sch_next_id s;
     next_id \<leftarrow> checked_add 64 (sch_next_id s) 1;
     Some (s\<lparr>sch_next_id := next_id, sch_ready := sch_ready s @ [\<lparr>ent_id = i, ent_task = task\<rparr>]\<rparr>, i)
   }"

definition task_count :: "'t scheduler \<Rightarrow> nat" where
  "task_count s = length (sch_ready s)"

definition tick ::
  "('w, 't) poll_fn \<Rightarrow> 'w \<Rightarrow> 't scheduler \<Rightarrow> ('w \<times> 't scheduler) \<times> (nat \<times> poll_result) option" where
  "tick poll w s =
     (case sch_ready s of
        [] \<Rightarrow> ((w, s), None)
      | entry # rest \<Rightarrow>
          let (w', task', result) = poll w (ent_task entry);
              entry' = entry\<lparr>ent_task := task'\<rparr>;
              rest' = (if result = PollPending then rest @ [entry'] else rest)
          in ((w', s\<lparr>sch_ready := rest'\<rparr>), Some (ent_id entry', result)))"

partial_function (option) run_loop ::
  "('w, 't) poll_fn \<Rightarrow> 'w \<Rightarrow> 't scheduler \<Rightarrow> nat \<Rightarrow> ('w \<times> 't scheduler \<times> nat) option" where
  "run_loop poll w s ticks =
     (case tick poll w s of
        ((w', s'), None) \<Rightarrow> Some (w', s', ticks)
      | ((w', s'), Some res) \<Rightarrow>
          Option.bind (checked_add 64 ticks 1) (\<lambda>ticks'. run_loop poll w' s' ticks'))"

definition run_to_completion ::
  "('w, 't) poll_fn \<Rightarrow> 'w \<Rightarrow> 't scheduler \<Rightarrow> ('w \<times> 't scheduler \<times> nat) option" where
  "run_to_completion poll w s = run_loop poll w s 0"

subsection \<open>Ticks\<close>

text \<open>
  The contract of a task that finishes: a bound on the number of polls it still needs,
  whatever the world does in between.
\<close>

locale finishing_tasks =
  fixes poll :: "('w, 't) poll_fn"
    and polls_left :: "'t \<Rightarrow> nat"
  assumes poll_progress: "poll w t = (w', t', PollPending) \<Longrightarrow> polls_left t' < polls_left t"
begin

definition work :: "'t scheduler \<Rightarrow> nat" where
  "work s = sum_list (map (\<lambda>e. polls_left (ent_task e) + 1) (sch_ready s))"

lemma tick_None: "tick poll w s = ((w', s'), None) \<longleftrightarrow> w' = w \<and> s' = s \<and> sch_ready s = []"
  by (auto simp: tick_def split: list.splits prod.splits)

lemma tick_work:
  assumes "tick poll w s = ((w', s'), Some res)"
  shows "work s' < work s"
proof -
  from assms obtain e rest t' r where e: "sch_ready s = e # rest" "poll w (ent_task e) = (w', t', r)"
    "s' = s\<lparr>sch_ready := (if r = PollPending then rest @ [e\<lparr>ent_task := t'\<rparr>] else rest)\<rparr>"
    by (auto simp: tick_def split: list.splits prod.splits)
  show ?thesis
  proof (cases r)
    case PollPending
    with e poll_progress [of w "ent_task e" w' t'] show ?thesis by (simp add: work_def)
  next
    case PollReady
    with e show ?thesis by (simp add: work_def)
  qed
qed

lemma run_loop_total:
  assumes "ticks + work s < 2 ^ 64"
  shows "\<exists>w' s' n. run_loop poll w s ticks = Some (w', s', ticks + n) \<and> sch_ready s' = [] \<and>
    sch_next_id s' = sch_next_id s \<and> length (sch_ready s) \<le> n \<and> n \<le> work s"
  using assms
proof (induction "work s" arbitrary: s w ticks rule: less_induct)
  case less
  obtain w1 s1 res where t: "tick poll w s = ((w1, s1), res)" by (metis prod.exhaust)
  show ?case
  proof (cases res)
    case None
    with t have "sch_ready s = []" "s1 = s" "w1 = w" by (auto simp: tick_None)
    with t None show ?thesis by (subst run_loop.simps) (simp add: work_def)
  next
    case (Some r)
    have less': "work s1 < work s" using t Some by (auto intro: tick_work)
    then have ov: "Suc ticks + work s1 < 2 ^ 64" using less.prems by linarith
    from less.hyps [OF less' ov] obtain w' s' n where
      n: "run_loop poll w1 s1 (Suc ticks) = Some (w', s', Suc ticks + n)" "sch_ready s' = []"
        "sch_next_id s' = sch_next_id s1" "length (sch_ready s1) \<le> n" "n \<le> work s1" by blast
    have s1: "sch_next_id s1 = sch_next_id s" "length (sch_ready s) \<le> Suc (length (sch_ready s1))"
      using t Some by (auto simp: tick_def split: list.splits prod.splits)
    have "Suc ticks < 2 ^ 64" using ov by linarith
    then have "run_loop poll w s ticks = Some (w', s', ticks + Suc n)"
      using t Some n(1) by (subst run_loop.simps) (simp add: checked_add_def)
    with n s1 less' show ?thesis by (intro exI [of _ w'] exI [of _ s'] exI [of _ "Suc n"]) auto
  qed
qed

lemma completes:
  assumes "work s < 2 ^ 64"
  shows "\<exists>w' s' n. run_to_completion poll w s = Some (w', s', n) \<and> task_count s' = 0 \<and>
    task_count s \<le> n \<and> n \<le> work s"
  using run_loop_total [of 0 s w] assms by (auto simp: run_to_completion_def task_count_def)

end

text \<open>Ticking \<open>n\<close> times, with the identifiers polled.\<close>

fun ticks :: "('w, 't) poll_fn \<Rightarrow> nat \<Rightarrow> 'w \<Rightarrow> 't scheduler \<Rightarrow> ('w \<times> 't scheduler) \<times> nat list" where
  "ticks poll 0 w s = ((w, s), [])"
| "ticks poll (Suc n) w s =
     (case tick poll w s of
        ((w', s'), None) \<Rightarrow> ((w', s'), [])
      | ((w', s'), Some (i, r)) \<Rightarrow> (case ticks poll n w' s' of (ws, is) \<Rightarrow> (ws, i # is)))"

lemma ticks_round_robin:
  "sch_ready s = xs @ ys \<Longrightarrow> snd (ticks poll (length xs) w s) = map ent_id xs \<and>
     (\<exists>zs. sch_ready (snd (fst (ticks poll (length xs) w s))) = ys @ zs \<and> set (map ent_id zs) \<subseteq> set (map ent_id xs))"
proof (induction xs arbitrary: w s ys)
  case Nil
  then show ?case by simp
next
  case (Cons e xs)
  obtain w' t' r where p: "poll w (ent_task e) = (w', t', r)" by (metis prod.exhaust)
  let ?ys = "ys @ (if r = PollPending then [e\<lparr>ent_task := t'\<rparr>] else [])"
  let ?s = "s\<lparr>sch_ready := xs @ ?ys\<rparr>"
  have t: "tick poll w s = ((w', ?s), Some (ent_id e, r))"
    using Cons.prems p by (simp add: tick_def)
  obtain w2 s2 js where rest: "ticks poll (length xs) w' ?s = ((w2, s2), js)" by (metis prod.exhaust)
  from Cons.IH [of ?s ?ys w'] rest obtain zs where
    zs: "js = map ent_id xs" "sch_ready s2 = ?ys @ zs" "set (map ent_id zs) \<subseteq> set (map ent_id xs)" by auto
  have "ticks poll (length (e # xs)) w s = ((w2, s2), ent_id e # js)" using t rest by simp
  with zs show ?case by (auto split: if_splits)
qed

text \<open>
  The source's own task, the countdown task of the scheduler's tests: it writes its
  identifier into a log shared by all tasks and finishes after a number of polls.
\<close>

definition countdown :: "(nat list, nat \<times> nat) poll_fn" where
  "countdown w t =
     (let (i, remaining) = t
      in if remaining = 0 then (w @ [i], t, PollReady) else (w @ [i], (i, remaining - 1), PollPending))"

interpretation countdown: finishing_tasks countdown snd
  by unfold_locales (auto simp: countdown_def split: if_splits)

subsection \<open>Properties\<close>

text \<open>
  C39. Completion. If every task has a bound on the number of further polls it needs, the
  scheduler's main loop returns, with no task left, after at least one tick per task and at
  most the sum of the bounds plus one tick per task.
\<close>

theorem run_to_completion_terminates:
  assumes "\<And>w t w' t'. poll w t = (w', t', PollPending) \<Longrightarrow> polls_left t' < polls_left t"
    and "sum_list (map (\<lambda>e. polls_left (ent_task e) + 1) (sch_ready s)) < 2 ^ 64"
  shows "\<exists>w' s' n. run_to_completion poll w s = Some (w', s', n) \<and> task_count s' = 0 \<and>
    task_count s \<le> n \<and> n \<le> sum_list (map (\<lambda>e. polls_left (ent_task e) + 1) (sch_ready s))"
proof -
  have f: "finishing_tasks poll polls_left" using assms(1) by unfold_locales
  from finishing_tasks.completes [OF f] assms(2) show ?thesis
    by (simp add: finishing_tasks.work_def [OF f])
qed

theorem run_to_completion_terminates_witness:
  "\<exists>w' s' n. run_to_completion countdown []
      \<lparr>sch_ready = [\<lparr>ent_id = 0, ent_task = (0, 2)\<rparr>, \<lparr>ent_id = 1, ent_task = (1, 1)\<rparr>], sch_next_id = 2\<rparr>
      = Some (w', s', n) \<and> task_count s' = 0 \<and> n \<le> 5"
  using run_to_completion_terminates [of countdown snd
      "\<lparr>sch_ready = [\<lparr>ent_id = 0, ent_task = (0, 2)\<rparr>, \<lparr>ent_id = 1, ent_task = (1, 1)\<rparr>], sch_next_id = 2\<rparr>" "[]"]
    countdown.poll_progress by fastforce

text \<open>
  Fairness. With \<open>n\<close> tasks in the queue, the next \<open>n\<close> ticks poll each of them exactly
  once, in queue order, whatever the tasks do; only unfinished ones are queued again.
\<close>

theorem scheduler_round_robin:
  "snd (ticks poll (task_count s) w s) = map ent_id (sch_ready s) \<and>
   set (map ent_id (sch_ready (snd (fst (ticks poll (task_count s) w s))))) \<subseteq> set (map ent_id (sch_ready s))"
  using ticks_round_robin [of s "sch_ready s" "[]" poll w] by (auto simp: task_count_def)

end
