(* ===== verification/Zerocopy.thy ===== *)
theory Zerocopy
  imports Prelude
begin

text \<open>
  The byte-level primitives of \<open>tpt-archon-core\<close> (\<open>zerocopy.rs\<close>): fixed buffers, and the
  little-endian cursor and reader. A byte is a \<open>nat\<close> below 256, a slice a list of bytes. A
  cursor carries the slice it borrows; the slice's new contents are those of the cursor when
  the borrow ends.
\<close>

type_synonym bytes = "nat list"

definition bytes_ok :: "bytes \<Rightarrow> bool" where
  "bytes_ok bs \<longleftrightarrow> (\<forall>b \<in> set bs. b < 256)"

record out_of_space =
  oos_needed :: nat
  oos_available :: nat

subsection \<open>Little-endian numbers\<close>

fun to_le_bytes :: "nat \<Rightarrow> nat \<Rightarrow> bytes" where
  "to_le_bytes 0 v = []"
| "to_le_bytes (Suc n) v = (v mod 256) # to_le_bytes n (v div 256)"

fun from_le_bytes :: "bytes \<Rightarrow> nat" where
  "from_le_bytes [] = 0"
| "from_le_bytes (b # bs) = b + 256 * from_le_bytes bs"

lemma length_to_le_bytes [simp]: "length (to_le_bytes n v) = n"
  by (induction n v rule: to_le_bytes.induct) simp_all

lemma bytes_ok_to_le: "bytes_ok (to_le_bytes n v)"
  by (induction n v rule: to_le_bytes.induct) (simp_all add: bytes_ok_def)

lemma from_to_le_bytes [simp]: "v < 256 ^ n \<Longrightarrow> from_le_bytes (to_le_bytes n v) = v"
proof (induction n v rule: to_le_bytes.induct)
  case (1 v)
  then show ?case by simp
next
  case (2 n v)
  then have "v div 256 < 256 ^ n" by (simp add: less_mult_imp_div_less mult.commute)
  with 2 show ?case by simp
qed

lemma from_le_bytes_less: "bytes_ok bs \<Longrightarrow> from_le_bytes bs < 256 ^ length bs"
  by (induction bs) (auto simp: bytes_ok_def)

lemma to_from_le_bytes: "bytes_ok bs \<Longrightarrow> to_le_bytes (length bs) (from_le_bytes bs) = bs"
  by (induction bs) (auto simp: bytes_ok_def)

subsection \<open>FixedBuf\<close>

text \<open>\<open>FixedBuf<N>\<close>: the array has length \<open>N\<close>, which stays fixed.\<close>

record fixed_buf =
  fb_bytes :: bytes
  fb_len :: nat

definition fixed_buf_new :: "nat \<Rightarrow> fixed_buf" where
  "fixed_buf_new n = \<lparr>fb_bytes = replicate n 0, fb_len = 0\<rparr>"

definition fb_capacity :: "fixed_buf \<Rightarrow> nat" where
  "fb_capacity b = length (fb_bytes b)"

definition fb_is_empty :: "fixed_buf \<Rightarrow> bool" where
  "fb_is_empty b \<longleftrightarrow> fb_len b = 0"

definition fb_remaining :: "fixed_buf \<Rightarrow> nat" where
  "fb_remaining b = length (fb_bytes b) - fb_len b"

definition fb_as_slice :: "fixed_buf \<Rightarrow> bytes" where
  "fb_as_slice b = take (fb_len b) (fb_bytes b)"

definition fb_set_len :: "fixed_buf \<Rightarrow> nat \<Rightarrow> fixed_buf panics" where
  "fb_set_len b n = (if n \<le> length (fb_bytes b) then Some (b\<lparr>fb_len := n\<rparr>) else None)"

definition splice :: "nat \<Rightarrow> bytes \<Rightarrow> bytes \<Rightarrow> bytes" where
  "splice start data buf = take start buf @ data @ drop (start + length data) buf"

definition fb_extend_from_slice :: "fixed_buf \<Rightarrow> bytes \<Rightarrow> fixed_buf \<times> out_of_space unit_result" where
  "fb_extend_from_slice b data =
     (if fb_remaining b < length data
      then (b, Inl \<lparr>oos_needed = length data, oos_available = fb_remaining b\<rparr>)
      else (b\<lparr>fb_bytes := splice (fb_len b) data (fb_bytes b), fb_len := fb_len b + length data\<rparr>, Inr ()))"

definition fb_from_array :: "bytes \<Rightarrow> fixed_buf" where
  "fb_from_array bs = \<lparr>fb_bytes = bs, fb_len = length bs\<rparr>"

subsection \<open>Cursor\<close>

record cursor =
  cur_buf :: bytes
  cur_pos :: nat

definition cursor_new :: "bytes \<Rightarrow> cursor" where
  "cursor_new buf = \<lparr>cur_buf = buf, cur_pos = 0\<rparr>"

text \<open>
  \<open>take(n)\<close> hands out the next \<open>n\<close> bytes for writing and every caller fills all of them; the
  two steps are one here.
\<close>

definition put_bytes :: "bytes \<Rightarrow> cursor \<Rightarrow> out_of_space + cursor" where
  "put_bytes data c =
     (let available = length (cur_buf c) - cur_pos c
      in if available < length data then Inl \<lparr>oos_needed = length data, oos_available = available\<rparr>
         else Inr \<lparr>cur_buf = splice (cur_pos c) data (cur_buf c), cur_pos = cur_pos c + length data\<rparr>)"

definition put_u8 :: "nat \<Rightarrow> cursor \<Rightarrow> out_of_space + cursor" where
  "put_u8 v = put_bytes [v]"

definition put_u16 :: "nat \<Rightarrow> cursor \<Rightarrow> out_of_space + cursor" where
  "put_u16 v = put_bytes (to_le_bytes 2 v)"

definition put_u32 :: "nat \<Rightarrow> cursor \<Rightarrow> out_of_space + cursor" where
  "put_u32 v = put_bytes (to_le_bytes 4 v)"

definition put_u64 :: "nat \<Rightarrow> cursor \<Rightarrow> out_of_space + cursor" where
  "put_u64 v = put_bytes (to_le_bytes 8 v)"

subsection \<open>Reader\<close>

record reader =
  rd_buf :: bytes
  rd_pos :: nat

definition reader_new :: "bytes \<Rightarrow> reader" where
  "reader_new buf = \<lparr>rd_buf = buf, rd_pos = 0\<rparr>"

definition rd_remaining :: "reader \<Rightarrow> nat" where
  "rd_remaining r = length (rd_buf r) - rd_pos r"

definition read_bytes :: "nat \<Rightarrow> reader \<Rightarrow> out_of_space + (bytes \<times> reader)" where
  "read_bytes n r =
     (if rd_remaining r < n then Inl \<lparr>oos_needed = n, oos_available = rd_remaining r\<rparr>
      else Inr (take n (drop (rd_pos r) (rd_buf r)), r\<lparr>rd_pos := rd_pos r + n\<rparr>))"

definition read_num :: "nat \<Rightarrow> reader \<Rightarrow> out_of_space + (nat \<times> reader)" where
  "read_num n r =
     (case read_bytes n r of Inl e \<Rightarrow> Inl e | Inr (b, r') \<Rightarrow> Inr (from_le_bytes b, r'))"

definition read_u8 :: "reader \<Rightarrow> out_of_space + (nat \<times> reader)" where
  "read_u8 = read_num 1"

definition read_u16 :: "reader \<Rightarrow> out_of_space + (nat \<times> reader)" where
  "read_u16 = read_num 2"

definition read_u32 :: "reader \<Rightarrow> out_of_space + (nat \<times> reader)" where
  "read_u32 = read_num 4"

definition read_u64 :: "reader \<Rightarrow> out_of_space + (nat \<times> reader)" where
  "read_u64 = read_num 8"

subsection \<open>Facts\<close>

lemma length_splice [simp]: "start + length data \<le> length buf \<Longrightarrow> length (splice start data buf) = length buf"
  by (simp add: splice_def)

text \<open>
  Writing appends to what has been written: \<open>written c pre n\<close> says that the cursor has written
  \<open>pre\<close> and has room for \<open>n\<close> more bytes.
\<close>

definition written :: "cursor \<Rightarrow> bytes \<Rightarrow> nat \<Rightarrow> bool" where
  "written c pre n \<longleftrightarrow> (\<exists>rest. cur_buf c = pre @ rest \<and> length rest = n \<and> cur_pos c = length pre)"

lemma written_new: "written (cursor_new buf) [] (length buf)"
  by (simp add: written_def cursor_new_def)

lemma put_bytes_written:
  assumes "written c pre (length data + n)"
  shows "\<exists>c'. put_bytes data c = Inr c' \<and> written c' (pre @ data) n"
  using assms by (auto simp: written_def put_bytes_def Let_def splice_def)

lemma put_bytes_full:
  assumes "written c pre n" and "n < length data"
  shows "\<exists>e. put_bytes data c = Inl e"
  using assms by (auto simp: written_def put_bytes_def Let_def)

text \<open>
  A reader that stands at the start of a field's bytes returns them; \<open>at r pre rest\<close> says that the
  reader has consumed \<open>pre\<close> and has \<open>rest\<close> ahead of it.
\<close>

definition at :: "reader \<Rightarrow> bytes \<Rightarrow> bytes \<Rightarrow> bool" where
  "at r pre rest \<longleftrightarrow> rd_buf r = pre @ rest \<and> rd_pos r = length pre"

lemma at_new: "at (reader_new buf) [] buf"
  by (simp add: at_def reader_new_def)

lemma at_remaining [simp]: "at r pre rest \<Longrightarrow> rd_remaining r = length rest"
  by (simp add: at_def rd_remaining_def)

lemma read_bytes_at:
  assumes "at r pre (field @ rest)" and "length field = n"
  shows "\<exists>r'. read_bytes n r = Inr (field, r') \<and> at r' (pre @ field) rest"
  using assms by (auto simp: at_def read_bytes_def rd_remaining_def)

lemma read_num_at:
  assumes "at r pre (to_le_bytes n v @ rest)" and "v < 256 ^ n"
  shows "\<exists>r'. read_num n r = Inr (v, r') \<and> at r' (pre @ to_le_bytes n v) rest"
  using read_bytes_at [OF assms(1)] assms(2) by (auto simp: read_num_def)

lemma read_num_short: "at r pre rest \<Longrightarrow> length rest < n \<Longrightarrow> \<exists>e. read_num n r = Inl e"
  by (simp add: read_num_def read_bytes_def)

lemma fb_extend_appends:
  assumes "fb_len b \<le> length (fb_bytes b)"
  shows "(case fb_extend_from_slice b data of
      (b', Inr ()) \<Rightarrow> fb_as_slice b' = fb_as_slice b @ data \<and> fb_capacity b' = fb_capacity b
    | (b', Inl e) \<Rightarrow> b' = b \<and> fb_capacity b < length (fb_as_slice b) + length data)"
  using assms
  by (auto simp: fb_extend_from_slice_def fb_as_slice_def fb_remaining_def fb_capacity_def splice_def
      split: unit.splits)

end
