(* ===== verification/Block_Device.thy ===== *)
theory Block_Device
  imports Zerocopy
begin

text \<open>
  Block devices (\<open>block/mod.rs\<close>, \<open>block/memory.rs\<close> of \<open>tpt-archon-core\<close>). The trait is a record of
  operations on a device type; its contract, for a device that does not fail, is the
  locale \<open>block_device\<close>, and the in-memory device meets it.
\<close>

definition BLOCK_SIZE :: nat where
  "BLOCK_SIZE = 4096"

datatype storage_error =
  OutOfBounds nat nat
| ShortRead nat nat
| ShortWrite nat nat
| IoError nat
| SyncFailed
| AllFramesPinned

record 'd device_ops =
  read_block_op :: "'d \<Rightarrow> nat \<Rightarrow> bytes \<Rightarrow> storage_error + bytes"
  write_block_op :: "'d \<Rightarrow> nat \<Rightarrow> bytes \<Rightarrow> 'd \<times> storage_error unit_result"
  sync_op :: "'d \<Rightarrow> 'd \<times> storage_error unit_result"
  block_count_op :: "'d \<Rightarrow> nat"

subsection \<open>The contract\<close>

text \<open>
  \<open>contents\<close> is the abstract state of a device, its blocks as a function of the block number;
  \<open>dev_ok\<close> is its representation invariant.
\<close>

locale block_device =
  fixes ops :: "'d device_ops"
    and dev_ok :: "'d \<Rightarrow> bool"
    and contents :: "'d \<Rightarrow> nat \<Rightarrow> bytes"
  assumes read_ok: "dev_ok d \<Longrightarrow> b < block_count_op ops d \<Longrightarrow> length buf = BLOCK_SIZE \<Longrightarrow>
      read_block_op ops d b buf = Inr (contents d b)"
    and read_out_of_bounds: "dev_ok d \<Longrightarrow> block_count_op ops d \<le> b \<Longrightarrow> length buf = BLOCK_SIZE \<Longrightarrow>
      read_block_op ops d b buf = Inl (OutOfBounds b (block_count_op ops d))"
    and write_ok: "dev_ok d \<Longrightarrow> b < block_count_op ops d \<Longrightarrow> length data = BLOCK_SIZE \<Longrightarrow>
      \<exists>d'. write_block_op ops d b data = (d', Inr ()) \<and> dev_ok d' \<and>
        block_count_op ops d' = block_count_op ops d \<and> contents d' = (contents d)(b := data)"
    and write_out_of_bounds: "dev_ok d \<Longrightarrow> block_count_op ops d \<le> b \<Longrightarrow> length data = BLOCK_SIZE \<Longrightarrow>
      write_block_op ops d b data = (d, Inl (OutOfBounds b (block_count_op ops d)))"
    and sync_ok: "dev_ok d \<Longrightarrow> \<exists>d'. sync_op ops d = (d', Inr ()) \<and> dev_ok d' \<and>
      block_count_op ops d' = block_count_op ops d \<and> contents d' = contents d"
    and contents_length: "dev_ok d \<Longrightarrow> b < block_count_op ops d \<Longrightarrow> length (contents d b) = BLOCK_SIZE"
    and count_bound: "dev_ok d \<Longrightarrow> block_count_op ops d < 2 ^ 64"

subsection \<open>The in-memory device\<close>

record memory_device =
  md_blocks :: bytes
  md_block_count :: nat

definition memory_new :: "nat \<Rightarrow> memory_device panics" where
  "memory_new block_count = do {
     len \<leftarrow> checked_mul 64 block_count BLOCK_SIZE;
     Some \<lparr>md_blocks = replicate len 0, md_block_count = block_count\<rparr>
   }"

definition memory_range :: "memory_device \<Rightarrow> nat \<Rightarrow> storage_error + nat" where
  "memory_range d block_id =
     (if md_block_count d \<le> block_id then Inl (OutOfBounds block_id (md_block_count d))
      else Inr (block_id * BLOCK_SIZE))"

definition memory_read_block :: "memory_device \<Rightarrow> nat \<Rightarrow> bytes \<Rightarrow> storage_error + bytes" where
  "memory_read_block d block_id buffer =
     (if length buffer \<noteq> BLOCK_SIZE then Inl (ShortRead (length buffer) BLOCK_SIZE)
      else res_bind (memory_range d block_id) (\<lambda>start.
        Inr (take BLOCK_SIZE (drop start (md_blocks d)))))"

definition memory_write_block :: "memory_device \<Rightarrow> nat \<Rightarrow> bytes \<Rightarrow> memory_device \<times> storage_error unit_result" where
  "memory_write_block d block_id data =
     (if length data \<noteq> BLOCK_SIZE then (d, Inl (ShortWrite (length data) BLOCK_SIZE))
      else case memory_range d block_id of
        Inl e \<Rightarrow> (d, Inl e)
      | Inr start \<Rightarrow> (d\<lparr>md_blocks := splice start data (md_blocks d)\<rparr>, Inr ()))"

definition memory_sync :: "memory_device \<Rightarrow> memory_device \<times> storage_error unit_result" where
  "memory_sync d = (d, Inr ())"

definition memory_ops :: "memory_device device_ops" where
  "memory_ops = \<lparr>read_block_op = memory_read_block, write_block_op = memory_write_block,
     sync_op = memory_sync, block_count_op = md_block_count\<rparr>"

definition memory_ok :: "memory_device \<Rightarrow> bool" where
  "memory_ok d \<longleftrightarrow> length (md_blocks d) = md_block_count d * BLOCK_SIZE \<and> md_block_count d * BLOCK_SIZE < 2 ^ 64"

definition memory_contents :: "memory_device \<Rightarrow> nat \<Rightarrow> bytes" where
  "memory_contents d b = take BLOCK_SIZE (drop (b * BLOCK_SIZE) (md_blocks d))"

lemma memory_new_ok:
  "memory_new n = Some d \<Longrightarrow> memory_ok d \<and> md_block_count d = n"
  by (auto simp: memory_new_def memory_ok_def bind_eq_Some_conv)

lemma block_end: "b < n \<Longrightarrow> b * k + k \<le> n * (k :: nat)"
  by (metis Suc_leI mult_Suc add.commute mult_le_mono1)

lemma splice_before:
  "t + k \<le> s \<Longrightarrow> s \<le> length buf \<Longrightarrow> take k (drop t (splice s data buf)) = take k (drop t buf)"
  by (intro nth_equalityI) (auto simp: splice_def nth_append)

lemma splice_after:
  "s + length data \<le> t \<Longrightarrow> s + length data \<le> length buf \<Longrightarrow>
   take k (drop t (splice s data buf)) = take k (drop t buf)"
  by (simp add: splice_def min_absorb2)

text \<open>Writing one block of a flat buffer changes that block and no other.\<close>

lemma splice_other_block:
  assumes "length data = k" and "b < n" and "length buf = n * k" and "c \<noteq> b"
  shows "take k (drop (c * k) (splice (b * k) data buf)) = take k (drop (c * k) buf)"
proof (cases "c < b")
  case True
  then have "c * k + k \<le> b * k" by (rule block_end)
  moreover have "b * k + k \<le> n * k" using assms(2) by (rule block_end)
  ultimately show ?thesis using assms(3) by (intro splice_before) linarith+
next
  case False
  with assms(4) have "b * k + k \<le> c * k" by (intro block_end) simp
  moreover have "b * k + k \<le> n * k" using assms(2) by (rule block_end)
  ultimately show ?thesis using assms(1,3) by (intro splice_after) simp_all
qed

lemma splice_same_block:
  assumes "length data = k" and "b < n" and "length buf = n * k"
  shows "take k (drop (b * k) (splice (b * k) data buf)) = data"
  using block_end [OF assms(2), of k] assms by (simp add: splice_def)

interpretation memory: block_device memory_ops memory_ok memory_contents
proof unfold_locales
  fix d :: memory_device and b :: nat and data :: bytes
  assume d: "memory_ok d" "b < block_count_op memory_ops d" "length data = BLOCK_SIZE"
  let ?d = "d\<lparr>md_blocks := splice (b * BLOCK_SIZE) data (md_blocks d)\<rparr>"
  have "write_block_op memory_ops d b data = (?d, Inr ())"
    using d by (simp add: memory_ops_def memory_write_block_def memory_range_def)
  moreover have "memory_ok ?d"
    using d block_end [of b "md_block_count d" BLOCK_SIZE] by (simp add: memory_ok_def memory_ops_def)
  moreover have "memory_contents ?d = (memory_contents d)(b := data)"
    using d by (auto simp: memory_contents_def memory_ok_def memory_ops_def splice_same_block splice_other_block)
  ultimately show "\<exists>d'. write_block_op memory_ops d b data = (d', Inr ()) \<and> memory_ok d' \<and>
      block_count_op memory_ops d' = block_count_op memory_ops d \<and> memory_contents d' = (memory_contents d)(b := data)"
    by (auto simp: memory_ops_def)
next
  fix d b
  assume "memory_ok d" "b < block_count_op memory_ops d"
  then show "length (memory_contents d b) = BLOCK_SIZE"
    using block_end [of b "md_block_count d" BLOCK_SIZE] by (simp add: memory_contents_def memory_ok_def memory_ops_def)
next
  fix d
  assume "memory_ok d"
  then show "block_count_op memory_ops d < 2 ^ 64"
    by (simp add: memory_ok_def memory_ops_def BLOCK_SIZE_def)
qed (auto simp: memory_ops_def memory_read_block_def memory_write_block_def memory_range_def memory_contents_def
      memory_sync_def)

end
