(* ===== verification/Buffer_Pool.thy ===== *)
theory Buffer_Pool
  imports Block_Device Rust_Maps
begin

text \<open>
  The LRU buffer pool of \<open>tpt-archon-core\<close> (\<open>page.rs\<close>) over any block device. Its abstract
  state is an array of blocks: what a block holds is the page of the frame that carries it,
  or, when no frame does, the device's block. The refinement is proved in the context of the
  device contract.

  A mutable page reference that \<open>fetch_mut\<close> returns is the index of its frame;
  writing through it is \<open>write_frame\<close>. An index out of range is a panic.
\<close>

definition PAGE_SIZE :: nat where
  "PAGE_SIZE = 4096"

datatype page_state = Free | Clean | Dirty | Pinned nat

record pool_frame =
  pf_block_id :: nat
  pf_page :: bytes
  pf_state :: page_state
  pf_dirty_intent :: bool

record 'd buffer_pool =
  bp_device :: 'd
  bp_capacity :: nat
  bp_frames :: "pool_frame list"
  bp_lru :: "nat list"

abbreviation page_zeroed :: bytes where
  "page_zeroed \<equiv> replicate PAGE_SIZE 0"

definition is_pinned :: "page_state \<Rightarrow> bool" where
  "is_pinned s = (case s of Pinned n \<Rightarrow> True | _ \<Rightarrow> False)"

definition pool_new :: "'d \<Rightarrow> nat \<Rightarrow> 'd buffer_pool panics" where
  "pool_new device capacity =
     (if 0 < capacity
      then Some \<lparr>bp_device = device, bp_capacity = capacity, bp_frames = [], bp_lru = []\<rparr>
      else None)"

definition resident :: "'d buffer_pool \<Rightarrow> nat" where
  "resident p = length (bp_frames p)"

definition state_of :: "'d buffer_pool \<Rightarrow> nat \<Rightarrow> page_state option" where
  "state_of p block_id = map_option pf_state (find (\<lambda>f. pf_block_id f = block_id) (bp_frames p))"

definition find_frame :: "'d buffer_pool \<Rightarrow> nat \<Rightarrow> nat option" where
  "find_frame p block_id = position (\<lambda>f. pf_block_id f = block_id) (bp_frames p)"

definition touch :: "'d buffer_pool \<Rightarrow> nat \<Rightarrow> 'd buffer_pool" where
  "touch p idx =
     (let lru = (case position (\<lambda>i. i = idx) (bp_lru p) of
                   Some k \<Rightarrow> take k (bp_lru p) @ drop (Suc k) (bp_lru p)
                 | None \<Rightarrow> bp_lru p)
      in p\<lparr>bp_lru := lru @ [idx]\<rparr>)"

fun find_victim :: "pool_frame list \<Rightarrow> nat list \<Rightarrow> nat option panics" where
  "find_victim frames [] = Some None"
| "find_victim frames (i # is) =
     (if i < length frames
      then if \<not> is_pinned (pf_state (frames ! i)) then Some (Some i) else find_victim frames is
      else None)"

definition evict ::
  "'d device_ops \<Rightarrow> 'd buffer_pool \<Rightarrow> ('d buffer_pool \<times> (storage_error + nat option)) panics" where
  "evict ops p = do {
     victim \<leftarrow> find_victim (bp_frames p) (bp_lru p);
     case victim of
       None \<Rightarrow> Some (p, Inr None)
     | Some idx \<Rightarrow>
         let f = bp_frames p ! idx;
             (dev, res) = (if pf_state f = Dirty then write_block_op ops (bp_device p) (pf_block_id f) (pf_page f)
                           else (bp_device p, Inr ()));
             p1 = p\<lparr>bp_device := dev\<rparr>
         in (case res of
               Inl e \<Rightarrow> Some (p1, Inl e)
             | Inr u \<Rightarrow>
                 let lru = (case position (\<lambda>i. i = idx) (bp_lru p1) of
                              Some k \<Rightarrow> take k (bp_lru p1) @ drop (Suc k) (bp_lru p1)
                            | None \<Rightarrow> bp_lru p1)
                 in Some (p1\<lparr>bp_lru := lru,
                             bp_frames := (bp_frames p1)[idx := f\<lparr>pf_state := Free, pf_dirty_intent := False\<rparr>]\<rparr>,
                          Inr (Some idx)))
   }"

definition acquire_frame ::
  "'d device_ops \<Rightarrow> 'd buffer_pool \<Rightarrow> ('d buffer_pool \<times> (storage_error + nat)) panics" where
  "acquire_frame ops p =
     (case position (\<lambda>f. pf_state f = Free) (bp_frames p) of
        Some idx \<Rightarrow> Some (p, Inr idx)
      | None \<Rightarrow>
          if length (bp_frames p) < bp_capacity p
          then Some (p\<lparr>bp_frames := bp_frames p @
                        [\<lparr>pf_block_id = 2 ^ 64 - 1, pf_page = page_zeroed, pf_state = Free, pf_dirty_intent = False\<rparr>]\<rparr>,
                     Inr (length (bp_frames p)))
          else do {
            (p', r) \<leftarrow> evict ops p;
            Some (p', case r of
                        Inl e \<Rightarrow> Inl e
                      | Inr None \<Rightarrow> Inl AllFramesPinned
                      | Inr (Some idx) \<Rightarrow> Inr idx)
          })"

definition pin_frame :: "'d buffer_pool \<Rightarrow> nat \<Rightarrow> 'd buffer_pool panics" where
  "pin_frame p idx = do {
     let f = bp_frames p ! idx;
     s \<leftarrow> (case pf_state f of Pinned n \<Rightarrow> map_option Pinned (checked_add 32 n 1) | _ \<Rightarrow> Some (Pinned 1));
     Some (p\<lparr>bp_frames := (bp_frames p)[idx := f\<lparr>pf_state := s\<rparr>]\<rparr>)
   }"

definition mark_dirty_pinned :: "'d buffer_pool \<Rightarrow> nat \<Rightarrow> 'd buffer_pool" where
  "mark_dirty_pinned p idx =
     p\<lparr>bp_frames := (bp_frames p)[idx := (bp_frames p ! idx)\<lparr>pf_dirty_intent := True\<rparr>]\<rparr>"

text \<open>The miss path that \<open>fetch\<close> and \<open>fetch_mut\<close> share: acquire a frame and load the block into it.\<close>

definition load_frame ::
  "'d device_ops \<Rightarrow> 'd buffer_pool \<Rightarrow> nat \<Rightarrow> ('d buffer_pool \<times> (storage_error + nat)) panics" where
  "load_frame ops p block_id = do {
     (p1, r) \<leftarrow> acquire_frame ops p;
     case r of
       Inl e \<Rightarrow> Some (p1, Inl e)
     | Inr idx \<Rightarrow>
         (case read_block_op ops (bp_device p1) block_id page_zeroed of
            Inl e \<Rightarrow> Some (p1, Inl e)
          | Inr page \<Rightarrow>
              Some (p1\<lparr>bp_frames := (bp_frames p1)[idx :=
                      \<lparr>pf_block_id = block_id, pf_page = page, pf_state = Pinned 1, pf_dirty_intent = False\<rparr>]\<rparr>,
                    Inr idx))
   }"

definition fetch ::
  "'d device_ops \<Rightarrow> 'd buffer_pool \<Rightarrow> nat \<Rightarrow> ('d buffer_pool \<times> (storage_error + bytes)) panics" where
  "fetch ops p block_id =
     (case find_frame p block_id of
        Some idx \<Rightarrow> do {
          p1 \<leftarrow> pin_frame p idx;
          let p2 = touch p1 idx;
          Some (p2, Inr (pf_page (bp_frames p2 ! idx)))
        }
      | None \<Rightarrow> do {
          (p1, r) \<leftarrow> load_frame ops p block_id;
          case r of
            Inl e \<Rightarrow> Some (p1, Inl e)
          | Inr idx \<Rightarrow> let p2 = touch p1 idx in Some (p2, Inr (pf_page (bp_frames p2 ! idx)))
        })"

definition fetch_mut ::
  "'d device_ops \<Rightarrow> 'd buffer_pool \<Rightarrow> nat \<Rightarrow> ('d buffer_pool \<times> (storage_error + nat)) panics" where
  "fetch_mut ops p block_id = do {
     (p1, r) \<leftarrow> (case find_frame p block_id of
                   Some idx \<Rightarrow> map_option (\<lambda>p1. (p1, Inr idx)) (pin_frame p idx)
                 | None \<Rightarrow> load_frame ops p block_id);
     case r of
       Inl e \<Rightarrow> Some (p1, Inl e)
     | Inr idx \<Rightarrow> Some (mark_dirty_pinned (touch p1 idx) idx, Inr idx)
   }"

definition write_frame :: "'d buffer_pool \<Rightarrow> nat \<Rightarrow> bytes \<Rightarrow> 'd buffer_pool" where
  "write_frame p idx page = p\<lparr>bp_frames := (bp_frames p)[idx := (bp_frames p ! idx)\<lparr>pf_page := page\<rparr>]\<rparr>"

definition unpin :: "'d buffer_pool \<Rightarrow> nat \<Rightarrow> 'd buffer_pool" where
  "unpin p block_id =
     (case find_frame p block_id of
        None \<Rightarrow> p
      | Some idx \<Rightarrow>
          let f = bp_frames p ! idx
          in (case pf_state f of
                Pinned n \<Rightarrow>
                  p\<lparr>bp_frames := (bp_frames p)[idx := f\<lparr>pf_state :=
                      (if 1 < n then Pinned (n - 1) else if pf_dirty_intent f then Dirty else Clean)\<rparr>]\<rparr>
              | _ \<Rightarrow> p))"

definition needs_flush :: "pool_frame \<Rightarrow> bool" where
  "needs_flush f \<longleftrightarrow> pf_state f = Dirty \<or> (pf_dirty_intent f \<and> is_pinned (pf_state f))"

text \<open>The loop over the frames; \<open>visited\<close> are the frames already visited, in order.\<close>

fun flush_loop ::
  "'d device_ops \<Rightarrow> 'd \<Rightarrow> pool_frame list \<Rightarrow> pool_frame list \<Rightarrow> 'd \<times> pool_frame list \<times> storage_error unit_result" where
  "flush_loop ops dev visited [] = (dev, visited, Inr ())"
| "flush_loop ops dev visited (f # fs) =
     (if needs_flush f
      then case write_block_op ops dev (pf_block_id f) (pf_page f) of
             (dev', Inl e) \<Rightarrow> (dev', visited @ f # fs, Inl e)
           | (dev', Inr u) \<Rightarrow>
               flush_loop ops dev'
                 (visited @ [f\<lparr>pf_dirty_intent := False, pf_state := (if pf_state f = Dirty then Clean else pf_state f)\<rparr>]) fs
      else flush_loop ops dev (visited @ [f]) fs)"

definition flush_all :: "'d device_ops \<Rightarrow> 'd buffer_pool \<Rightarrow> 'd buffer_pool \<times> storage_error unit_result" where
  "flush_all ops p =
     (let (dev, frames, res) = flush_loop ops (bp_device p) [] (bp_frames p);
          p1 = p\<lparr>bp_device := dev, bp_frames := frames\<rparr>
      in case res of
           Inl e \<Rightarrow> (p1, Inl e)
         | Inr u \<Rightarrow> let (dev', res') = sync_op ops (bp_device p1) in (p1\<lparr>bp_device := dev'\<rparr>, res'))"

subsection \<open>Positions and keyed lists\<close>

lemma position_remove:
  "distinct xs \<Longrightarrow> (case position (\<lambda>x. x = a) xs of Some k \<Rightarrow> take k xs @ drop (Suc k) xs | None \<Rightarrow> xs) = remove1 a xs"
  by (induction xs) (auto split: option.splits)

lemma map_of_list_update:
  assumes "distinct (map fst xs)" and "i < length xs" and "k' \<notin> set (map fst xs) - {fst (xs ! i)}"
  shows "map_of (xs[i := (k', v')]) = ((map_of xs)(fst (xs ! i) := None))(k' \<mapsto> v')"
  using assms
proof (induction xs arbitrary: i)
  case Nil
  then show ?case by simp
next
  case (Cons x xs)
  show ?case
  proof (cases i)
    case 0
    from Cons.prems(1) have "map_of xs (fst x) = None" by (simp add: map_of_eq_None_iff)
    with 0 show ?thesis by (cases x) (auto simp: fun_eq_iff)
  next
    case (Suc j)
    have "fst (xs ! j) \<in> fst ` set xs" using Cons.prems(2) Suc by simp
    with Cons.prems Suc have "fst x \<noteq> fst (xs ! j)" "fst x \<noteq> k'" by auto
    moreover have "map_of (xs[j := (k', v')]) = ((map_of xs)(fst (xs ! j) := None))(k' \<mapsto> v')"
      using Cons.prems Suc by (intro Cons.IH) auto
    ultimately show ?thesis using Suc by (cases x) (auto simp: fun_eq_iff)
  qed
qed

lemma distinct_list_update_key:
  "distinct xs \<Longrightarrow> i < length xs \<Longrightarrow> k \<notin> set xs - {xs ! i} \<Longrightarrow> distinct (xs[i := k])"
  by (rule distinct_list_update) auto

subsection \<open>The abstract state and the invariant\<close>

abbreviation NO_BLOCK :: nat where
  "NO_BLOCK \<equiv> 2 ^ 64 - 1"

definition keyed :: "pool_frame list \<Rightarrow> (nat \<times> bytes) list" where
  "keyed fs = map (\<lambda>f. (pf_block_id f, pf_page f)) fs"

definition lru_ok :: "'d buffer_pool \<Rightarrow> bool" where
  "lru_ok p \<longleftrightarrow> distinct (bp_lru p) \<and> set (bp_lru p) \<subseteq> {..<length (bp_frames p)} \<and>
     (\<forall>i < length (bp_frames p). pf_state (bp_frames p ! i) \<noteq> Free \<longrightarrow> i \<in> set (bp_lru p))"

lemma keyed_simps [simp]:
  "map fst (keyed fs) = map pf_block_id fs" "length (keyed fs) = length fs"
  "keyed (fs[i := f]) = (keyed fs)[i := (pf_block_id f, pf_page f)]"
  "i < length fs \<Longrightarrow> keyed fs ! i = (pf_block_id (fs ! i), pf_page (fs ! i))"
  "keyed (fs @ gs) = keyed fs @ keyed gs"
  by (simp_all add: keyed_def map_update comp_def)

lemma find_frame_keyed:
  assumes "distinct (map pf_block_id (bp_frames p))"
  shows "find_frame p b = Some i \<Longrightarrow>
      i < length (bp_frames p) \<and> pf_block_id (bp_frames p ! i) = b \<and>
      map_of (keyed (bp_frames p)) b = Some (pf_page (bp_frames p ! i))"
    and "find_frame p b = None \<Longrightarrow> map_of (keyed (bp_frames p)) b = None \<and> b \<notin> set (map pf_block_id (bp_frames p))"
proof -
  assume "find_frame p b = Some i"
  then have i: "i < length (bp_frames p)" "pf_block_id (bp_frames p ! i) = b"
    by (auto simp: find_frame_def dest: position_SomeD)
  then have "(b, pf_page (bp_frames p ! i)) \<in> set (keyed (bp_frames p))"
    by (auto simp: keyed_def)
  then have "map_of (keyed (bp_frames p)) b = Some (pf_page (bp_frames p ! i))"
    using assms by (intro map_of_is_SomeI) simp_all
  with i show "i < length (bp_frames p) \<and> pf_block_id (bp_frames p ! i) = b \<and>
      map_of (keyed (bp_frames p)) b = Some (pf_page (bp_frames p ! i))" by simp
next
  assume "find_frame p b = None"
  then have "b \<notin> set (map pf_block_id (bp_frames p))" by (auto simp: find_frame_def position_None)
  then show "map_of (keyed (bp_frames p)) b = None \<and> b \<notin> set (map pf_block_id (bp_frames p))"
    by (auto simp: map_of_eq_None_iff keyed_def)
qed

lemma lru_ok_touch:
  assumes "distinct (bp_lru p)" and "set (bp_lru p) \<subseteq> {..<length (bp_frames p)}" and "idx < length (bp_frames p)"
    and "\<forall>i < length (bp_frames p). i \<noteq> idx \<longrightarrow> pf_state (bp_frames p ! i) \<noteq> Free \<longrightarrow> i \<in> set (bp_lru p)"
  shows "lru_ok (touch p idx)"
  using assms by (auto simp: lru_ok_def touch_def Let_def position_remove)

text \<open>
  A client's calls with their results, and the array of blocks they are meant to implement. A
  write goes through \<open>fetch_mut\<close> and the returned reference. The array accepts a trace when
  every successful fetch returned the block; a call refused because all frames are pinned has
  no effect.
\<close>

datatype pool_op = PoolFetch nat | PoolWrite nat bytes | PoolUnpin nat | PoolFlush

fun pool_call :: "'d device_ops \<Rightarrow> 'd buffer_pool \<Rightarrow> pool_op \<Rightarrow> ('d buffer_pool \<times> (storage_error + bytes)) panics" where
  "pool_call ops p (PoolFetch b) = fetch ops p b"
| "pool_call ops p (PoolWrite b page) = do {
     (p1, r) \<leftarrow> fetch_mut ops p b;
     Some (case r of Inl e \<Rightarrow> (p1, Inl e) | Inr i \<Rightarrow> (write_frame p1 i page, Inr page))
   }"
| "pool_call ops p (PoolUnpin b) = Some (unpin p b, Inr [])"
| "pool_call ops p PoolFlush =
     (case flush_all ops p of (p', Inl e) \<Rightarrow> Some (p', Inl e) | (p', Inr u) \<Rightarrow> Some (p', Inr []))"

fun pool_trace ::
  "'d device_ops \<Rightarrow> 'd buffer_pool \<Rightarrow> pool_op list \<Rightarrow> ('d buffer_pool \<times> (pool_op \<times> (storage_error + bytes)) list) panics" where
  "pool_trace ops p [] = Some (p, [])"
| "pool_trace ops p (a # as) = do {
     (p1, r) \<leftarrow> pool_call ops p a;
     (p2, rs) \<leftarrow> pool_trace ops p1 as;
     Some (p2, (a, r) # rs)
   }"

fun array_accepts :: "(nat \<Rightarrow> bytes) \<Rightarrow> (pool_op \<times> (storage_error + bytes)) list \<Rightarrow> (nat \<Rightarrow> bytes) option" where
  "array_accepts arr [] = Some arr"
| "array_accepts arr ((PoolFetch b, Inr page) # rs) = (if page = arr b then array_accepts arr rs else None)"
| "array_accepts arr ((PoolWrite b page, Inr _) # rs) = array_accepts (arr(b := page)) rs"
| "array_accepts arr ((PoolUnpin b, Inr _) # rs) = array_accepts arr rs"
| "array_accepts arr ((PoolFlush, Inr _) # rs) = array_accepts arr rs"
| "array_accepts arr ((a, Inl e) # rs) = (if e = AllFramesPinned then array_accepts arr rs else None)"

fun op_ok :: "nat \<Rightarrow> pool_op \<Rightarrow> bool" where
  "op_ok n (PoolFetch b) \<longleftrightarrow> b < n"
| "op_ok n (PoolWrite b page) \<longleftrightarrow> b < n \<and> length page = PAGE_SIZE"
| "op_ok n (PoolUnpin b) \<longleftrightarrow> True"
| "op_ok n PoolFlush \<longleftrightarrow> True"

lemma find_victim_pinned: "\<forall>i \<in> set is. i < length fs \<and> is_pinned (pf_state (fs ! i)) \<Longrightarrow> find_victim fs is = Some None"
  by (induction "is") auto

text \<open>
  There is room for a block: its frame can be pinned once more, or some frame can be had for it.
\<close>

definition has_room :: "'d buffer_pool \<Rightarrow> nat \<Rightarrow> bool" where
  "has_room p b = (case find_frame p b of
     Some i \<Rightarrow> (case pf_state (bp_frames p ! i) of Pinned n \<Rightarrow> n + 1 < 2 ^ 32 | _ \<Rightarrow> True)
   | None \<Rightarrow> length (bp_frames p) < bp_capacity p \<or> list_ex (\<lambda>f. \<not> is_pinned (pf_state f)) (bp_frames p))"

lemma pin_room: "find_frame p b = Some i \<Longrightarrow> pin_frame p i \<noteq> None \<longleftrightarrow> has_room p b"
  by (auto simp: pin_frame_def has_room_def checked_add_def split: page_state.split)

context block_device
begin

abbreviation count :: "'d \<Rightarrow> nat" where
  "count d \<equiv> block_count_op ops d"

definition frame_ok :: "'d \<Rightarrow> pool_frame \<Rightarrow> bool" where
  "frame_ok d f \<longleftrightarrow>
     (pf_block_id f < count d \<or> (pf_block_id f = NO_BLOCK \<and> pf_state f = Free)) \<and>
     length (pf_page f) = PAGE_SIZE \<and>
     (pf_state f = Free \<or> pf_state f = Clean \<longrightarrow> \<not> pf_dirty_intent f) \<and>
     (pf_state f = Dirty \<longrightarrow> pf_dirty_intent f) \<and>
     (\<not> pf_dirty_intent f \<longrightarrow> pf_block_id f < count d \<longrightarrow> pf_page f = contents d (pf_block_id f))"

definition pool_ok :: "'d buffer_pool \<Rightarrow> bool" where
  "pool_ok p \<longleftrightarrow> dev_ok (bp_device p) \<and> list_all (frame_ok (bp_device p)) (bp_frames p) \<and>
     distinct (map pf_block_id (bp_frames p)) \<and> lru_ok p \<and>
     length (bp_frames p) \<le> bp_capacity p \<and> 0 < bp_capacity p"

text \<open>The blocks as a client of the pool sees them.\<close>

definition blocks :: "'d buffer_pool \<Rightarrow> nat \<Rightarrow> bytes" where
  "blocks p b = (case map_of (keyed (bp_frames p)) b of Some page \<Rightarrow> page | None \<Rightarrow> contents (bp_device p) b)"

lemma blocks_lru [simp]: "blocks (p\<lparr>bp_lru := l\<rparr>) = blocks p"
  by (simp add: blocks_def fun_eq_iff cong: option.case_cong)

text \<open>\<open>same_blocks p p'\<close>: the client sees the same blocks, on a device of the same size.\<close>

definition same_blocks :: "'d buffer_pool \<Rightarrow> 'd buffer_pool \<Rightarrow> bool" where
  "same_blocks p p' \<longleftrightarrow> count (bp_device p') = count (bp_device p) \<and>
     (\<forall>b < count (bp_device p). blocks p' b = blocks p b)"

lemma same_blocks_refl [simp]: "same_blocks p p"
  by (simp add: same_blocks_def)

lemma same_blocks_trans: "same_blocks p q \<Longrightarrow> same_blocks q r \<Longrightarrow> same_blocks p r"
  by (simp add: same_blocks_def)

lemma pool_new_ok: "dev_ok d \<Longrightarrow> pool_new d n = Some p \<Longrightarrow> pool_ok p \<and> bp_device p = d"
  by (auto simp: pool_new_def pool_ok_def lru_ok_def split: if_splits)

lemma pool_ok_nth: "pool_ok p \<Longrightarrow> i < length (bp_frames p) \<Longrightarrow> frame_ok (bp_device p) (bp_frames p ! i)"
  by (simp add: pool_ok_def list_all_length)

text \<open>Replacing a frame by one with the same block.\<close>

lemma pool_ok_update:
  assumes "pool_ok p" and "i < length (bp_frames p)" and "frame_ok (bp_device p) f"
    and "pf_block_id f = pf_block_id (bp_frames p ! i)" and "pf_state f = Free \<or> i \<in> set (bp_lru p)"
  shows "pool_ok (p\<lparr>bp_frames := (bp_frames p)[i := f]\<rparr>)"
proof -
  have "map pf_block_id ((bp_frames p)[i := f]) = map pf_block_id (bp_frames p)"
    using assms(2,4) by (metis list_update_id map_update nth_map)
  with assms show ?thesis
    by (auto simp: pool_ok_def lru_ok_def list_all_length nth_list_update)
qed

lemma blocks_update:
  assumes "distinct (map pf_block_id (bp_frames p))" and "i < length (bp_frames p)"
    and "pf_block_id f = pf_block_id (bp_frames p ! i)"
  shows "blocks (p\<lparr>bp_frames := (bp_frames p)[i := f]\<rparr>) = (blocks p)(pf_block_id f := pf_page f)"
proof
  fix b
  have "map_of (keyed ((bp_frames p)[i := f])) = (map_of (keyed (bp_frames p)))(pf_block_id f \<mapsto> pf_page f)"
    using assms map_of_list_update [of "keyed (bp_frames p)" i "pf_block_id f" "pf_page f"] by simp
  then show "blocks (p\<lparr>bp_frames := (bp_frames p)[i := f]\<rparr>) b = ((blocks p)(pf_block_id f := pf_page f)) b"
    by (simp add: blocks_def split: option.split)
qed

lemma blocks_nth:
  assumes "distinct (map pf_block_id (bp_frames p))" and "i < length (bp_frames p)"
  shows "blocks p (pf_block_id (bp_frames p ! i)) = pf_page (bp_frames p ! i)"
proof -
  have "(pf_block_id (bp_frames p ! i), pf_page (bp_frames p ! i)) \<in> set (keyed (bp_frames p))"
    using assms(2) by (auto simp: keyed_def)
  with assms(1) show ?thesis by (simp add: blocks_def map_of_is_SomeI)
qed

lemma same_blocks_update:
  assumes "distinct (map pf_block_id (bp_frames p))" and "i < length (bp_frames p)"
    and "pf_block_id f = pf_block_id (bp_frames p ! i)" and "pf_page f = pf_page (bp_frames p ! i)"
  shows "same_blocks p (p\<lparr>bp_frames := (bp_frames p)[i := f]\<rparr>)"
  using blocks_update [OF assms(1-3)] blocks_nth [OF assms(1,2)] assms(3,4)
  by (auto simp: same_blocks_def)

lemma find_victim_ok:
  assumes "set is \<subseteq> {..<length fs}"
  shows "\<exists>v. find_victim fs is = Some v \<and>
    (case v of None \<Rightarrow> \<forall>i \<in> set is. is_pinned (pf_state (fs ! i))
     | Some i \<Rightarrow> i \<in> set is \<and> \<not> is_pinned (pf_state (fs ! i)))"
  using assms by (induction "is") (auto split: option.splits)

lemma frame_ok_write:
  assumes "frame_ok d f" and "count d' = count d" and "contents d' = (contents d)(b := data)"
    and "pf_block_id f = b \<Longrightarrow> pf_page f = data"
  shows "frame_ok d' f"
  using assms by (auto simp: frame_ok_def)

text \<open>
  Writing a frame's page back to the device keeps the invariant of all frames and the blocks a
  client sees.
\<close>

lemma write_back:
  assumes inv: "pool_ok p" and i: "i < length (bp_frames p)" "pf_block_id (bp_frames p ! i) < count (bp_device p)"
  shows "\<exists>d'. write_block_op ops (bp_device p) (pf_block_id (bp_frames p ! i)) (pf_page (bp_frames p ! i)) = (d', Inr ()) \<and>
    pool_ok (p\<lparr>bp_device := d'\<rparr>) \<and> same_blocks p (p\<lparr>bp_device := d'\<rparr>) \<and>
    contents d' = (contents (bp_device p))(pf_block_id (bp_frames p ! i) := pf_page (bp_frames p ! i))"
proof -
  let ?f = "bp_frames p ! i"
  have ok: "frame_ok (bp_device p) ?f" by (rule pool_ok_nth [OF inv i(1)])
  then have "length (pf_page ?f) = BLOCK_SIZE" by (simp add: frame_ok_def PAGE_SIZE_def BLOCK_SIZE_def)
  with write_ok [of "bp_device p" "pf_block_id ?f" "pf_page ?f"] inv i(2) obtain d' where
    d': "write_block_op ops (bp_device p) (pf_block_id ?f) (pf_page ?f) = (d', Inr ())" "dev_ok d'"
      "count d' = count (bp_device p)" "contents d' = (contents (bp_device p))(pf_block_id ?f := pf_page ?f)"
    by (auto simp: pool_ok_def)
  have dist: "distinct (map pf_block_id (bp_frames p))" using inv by (simp add: pool_ok_def)
  have frames: "frame_ok d' (bp_frames p ! j)" if j: "j < length (bp_frames p)" for j
  proof (rule frame_ok_write [OF pool_ok_nth [OF inv j] d'(3,4)])
    assume "pf_block_id (bp_frames p ! j) = pf_block_id ?f"
    with dist i(1) j have "j = i" by (metis length_map nth_eq_iff_index_eq nth_map)
    then show "pf_page (bp_frames p ! j) = pf_page ?f" by simp
  qed
  have "pool_ok (p\<lparr>bp_device := d'\<rparr>)"
    using inv d'(2) frames by (auto simp: pool_ok_def list_all_length lru_ok_def)
  moreover have "blocks (p\<lparr>bp_device := d'\<rparr>) b = blocks p b" for b
    using blocks_nth [OF dist i(1)] d'(4) by (auto simp: blocks_def split: option.splits)
  ultimately show ?thesis using d' by (auto simp: same_blocks_def)
qed

lemma evict_ok:
  assumes inv: "pool_ok p" and nofree: "\<forall>f \<in> set (bp_frames p). pf_state f \<noteq> Free"
  shows "(\<exists>p' i. evict ops p = Some (p', Inr (Some i)) \<and> pool_ok p' \<and> same_blocks p p' \<and>
       i < length (bp_frames p') \<and> pf_state (bp_frames p' ! i) = Free \<and>
       map pf_block_id (bp_frames p') = map pf_block_id (bp_frames p)) \<or>
    (evict ops p = Some (p, Inr None) \<and> (\<forall>f \<in> set (bp_frames p). is_pinned (pf_state f)))"
proof -
  have lru: "distinct (bp_lru p)" "set (bp_lru p) = {..<length (bp_frames p)}"
    using inv nofree by (auto simp: pool_ok_def lru_ok_def)
  from find_victim_ok [of "bp_lru p" "bp_frames p"] lru(2) obtain v where
    v: "find_victim (bp_frames p) (bp_lru p) = Some v"
      "case v of None \<Rightarrow> \<forall>i \<in> set (bp_lru p). is_pinned (pf_state (bp_frames p ! i))
       | Some i \<Rightarrow> i \<in> set (bp_lru p) \<and> \<not> is_pinned (pf_state (bp_frames p ! i))" by auto
  show ?thesis
  proof (cases v)
    case None
    with v lru(2) show ?thesis by (auto simp: evict_def in_set_conv_nth)
  next
    case (Some i)
    let ?f = "bp_frames p ! i"
    let ?g = "?f\<lparr>pf_state := Free, pf_dirty_intent := False\<rparr>"
    from v(2) Some lru(2) have i: "i < length (bp_frames p)" "\<not> is_pinned (pf_state ?f)" by auto
    have st: "pf_state ?f \<noteq> Free" using nofree i(1) by simp
    have fok: "frame_ok (bp_device p) ?f" by (rule pool_ok_nth [OF inv i(1)])
    with st have id: "pf_block_id ?f < count (bp_device p)" by (auto simp: frame_ok_def)
    obtain d' where d': "(if pf_state ?f = Dirty then write_block_op ops (bp_device p) (pf_block_id ?f) (pf_page ?f)
        else (bp_device p, Inr ())) = (d', Inr ())" "pool_ok (p\<lparr>bp_device := d'\<rparr>)"
      "same_blocks p (p\<lparr>bp_device := d'\<rparr>)" "contents d' (pf_block_id ?f) = pf_page ?f" "count d' = count (bp_device p)"
    proof (cases "pf_state ?f = Dirty")
      case True
      with write_back [OF inv i(1) id] that show ?thesis by (auto simp: same_blocks_def)
    next
      case False
      with i(2) st have "pf_state ?f = Clean" by (cases "pf_state ?f") (auto simp: is_pinned_def)
      with fok id that [of "bp_device p"] inv show ?thesis by (auto simp: frame_ok_def)
    qed
    let ?p1 = "p\<lparr>bp_device := d'\<rparr>"
    let ?p2 = "?p1\<lparr>bp_frames := (bp_frames ?p1)[i := ?g]\<rparr>"
    let ?p' = "?p2\<lparr>bp_lru := remove1 i (bp_lru p)\<rparr>"
    have "evict ops p = Some (?p', Inr (Some i))"
      using v(1) Some d'(1) position_remove [OF lru(1), of i] by (simp add: evict_def Let_def cong: option.case_cong)
    moreover have "frame_ok d' ?g" using fok d'(4,5) by (auto simp: frame_ok_def)
    then have "pool_ok ?p2" using i(1) by (intro pool_ok_update [OF d'(2)]) auto
    then have "pool_ok ?p'"
      using lru i(1) by (auto simp: pool_ok_def lru_ok_def nth_list_update)
    moreover have "same_blocks ?p1 ?p2"
      using d'(2) i(1) by (intro same_blocks_update) (auto simp: pool_ok_def)
    then have "same_blocks p ?p'" using d'(3) by (simp add: same_blocks_def)
    moreover have "map pf_block_id (bp_frames ?p') = map pf_block_id (bp_frames p)"
      using i(1) by (simp add: map_update list_update_same_conv)
    ultimately show ?thesis using i(1) by auto
  qed
qed

lemma acquire_ok:
  assumes inv: "pool_ok p"
  shows "(\<exists>p' i. acquire_frame ops p = Some (p', Inr i) \<and> pool_ok p' \<and> same_blocks p p' \<and>
       i < length (bp_frames p') \<and> pf_state (bp_frames p' ! i) = Free \<and>
       set (map pf_block_id (bp_frames p')) \<subseteq> insert NO_BLOCK (set (map pf_block_id (bp_frames p)))) \<or>
    (acquire_frame ops p = Some (p, Inl AllFramesPinned) \<and>
       bp_capacity p \<le> length (bp_frames p) \<and> (\<forall>f \<in> set (bp_frames p). is_pinned (pf_state f)))"
proof (cases "position (\<lambda>f. pf_state f = Free) (bp_frames p)")
  case (Some i)
  with inv position_SomeD [OF Some] show ?thesis by (auto simp: acquire_frame_def)
next
  case None
  then have nofree: "\<forall>f \<in> set (bp_frames p). pf_state f \<noteq> Free" by (simp add: position_None)
  let ?new = "\<lparr>pf_block_id = NO_BLOCK, pf_page = page_zeroed, pf_state = Free, pf_dirty_intent = False\<rparr>"
  show ?thesis
  proof (cases "length (bp_frames p) < bp_capacity p")
    case True
    let ?p' = "p\<lparr>bp_frames := bp_frames p @ [?new]\<rparr>"
    have cnt: "count (bp_device p) < 2 ^ 64" using inv count_bound by (simp add: pool_ok_def)
    have "frame_ok (bp_device p) ?new" using cnt by (simp add: frame_ok_def)
    moreover have fresh: "NO_BLOCK \<notin> set (map pf_block_id (bp_frames p))"
      using inv nofree cnt by (force simp: pool_ok_def list_all_iff frame_ok_def)
    ultimately have "pool_ok ?p'"
      using inv True by (auto simp: pool_ok_def lru_ok_def nth_append)
    moreover have "same_blocks p ?p'"
      using cnt by (auto simp: same_blocks_def blocks_def keyed_def map_add_def split: option.splits)
    ultimately show ?thesis using None True by (simp add: acquire_frame_def)
  next
    case False
    from evict_ok [OF inv nofree] show ?thesis
    proof (elim disjE exE conjE)
      fix p' i
      assume "evict ops p = Some (p', Inr (Some i))" "pool_ok p'" "same_blocks p p'"
        "i < length (bp_frames p')" "pf_state (bp_frames p' ! i) = Free"
        "map pf_block_id (bp_frames p') = map pf_block_id (bp_frames p)"
      with None False show ?thesis by (auto simp: acquire_frame_def simp flip: set_map)
    next
      assume "evict ops p = Some (p, Inr None)" "\<forall>f \<in> set (bp_frames p). is_pinned (pf_state f)"
      with None False show ?thesis by (simp add: acquire_frame_def)
    qed
  qed
qed

text \<open>A frame of the pool that is pinned and holds a given block.\<close>

definition holds :: "'d buffer_pool \<Rightarrow> nat \<Rightarrow> nat \<Rightarrow> bool" where
  "holds p i b \<longleftrightarrow> i < length (bp_frames p) \<and> pf_block_id (bp_frames p ! i) = b \<and> is_pinned (pf_state (bp_frames p ! i))"

lemma load_ok:
  assumes inv: "pool_ok p" and b: "b < count (bp_device p)" and miss: "find_frame p b = None"
  shows "(\<exists>p' i. load_frame ops p b = Some (p', Inr i) \<and> pool_ok (touch p' i) \<and> same_blocks p (touch p' i) \<and>
       holds (touch p' i) i b) \<or>
    (load_frame ops p b = Some (p, Inl AllFramesPinned) \<and>
       bp_capacity p \<le> length (bp_frames p) \<and> (\<forall>f \<in> set (bp_frames p). is_pinned (pf_state f)))"
  using acquire_ok [OF inv]
proof (elim disjE exE conjE)
  fix p1 i
  assume a: "acquire_frame ops p = Some (p1, Inr i)" "pool_ok p1" "same_blocks p p1"
    "i < length (bp_frames p1)" "pf_state (bp_frames p1 ! i) = Free"
    "set (map pf_block_id (bp_frames p1)) \<subseteq> insert NO_BLOCK (set (map pf_block_id (bp_frames p)))"
  let ?f = "\<lparr>pf_block_id = b, pf_page = contents (bp_device p1) b, pf_state = Pinned 1, pf_dirty_intent = False\<rparr>"
  let ?p2 = "p1\<lparr>bp_frames := (bp_frames p1)[i := ?f]\<rparr>"
  have dist: "distinct (map pf_block_id (bp_frames p))" "distinct (map pf_block_id (bp_frames p1))"
    using inv a(2) by (auto simp: pool_ok_def)
  have b1: "b < count (bp_device p1)" "dev_ok (bp_device p1)"
    using a(2,3) b by (auto simp: same_blocks_def pool_ok_def)
  have "count (bp_device p1) < 2 ^ 64" using b1(2) by (rule count_bound)
  then have notin: "b \<notin> set (map pf_block_id (bp_frames p1))"
    using find_frame_keyed(2) [OF dist(1) miss] a(6) b1(1) by auto
  have len: "length (contents (bp_device p1) b) = BLOCK_SIZE" using contents_length b1 by blast
  then have load: "load_frame ops p b = Some (?p2, Inr i)"
    using a(1) read_ok [OF b1(2,1), of page_zeroed] by (simp add: load_frame_def PAGE_SIZE_def BLOCK_SIZE_def)
  have fok: "frame_ok (bp_device p1) ?f"
    using b1(1) len by (simp add: frame_ok_def PAGE_SIZE_def BLOCK_SIZE_def)
  have "distinct (map pf_block_id (bp_frames ?p2))"
    using dist(2) notin by (simp add: map_update distinct_list_update)
  moreover have "list_all (frame_ok (bp_device p1)) (bp_frames ?p2)"
    using a(2,4) fok by (auto simp: pool_ok_def list_all_length nth_list_update)
  moreover have "lru_ok (touch ?p2 i)"
    using a(2,4) by (intro lru_ok_touch) (auto simp: pool_ok_def lru_ok_def nth_list_update)
  ultimately have "pool_ok (touch ?p2 i)"
    using a(2) by (auto simp: pool_ok_def touch_def Let_def)
  moreover have "blocks ?p2 c = blocks p1 c" if "c < count (bp_device p1)" for c
  proof -
    have old: "blocks p1 (pf_block_id (bp_frames p1 ! i)) = pf_page (bp_frames p1 ! i)"
      by (rule blocks_nth [OF dist(2) a(4)])
    have coh: "pf_block_id (bp_frames p1 ! i) < count (bp_device p1) \<Longrightarrow>
        pf_page (bp_frames p1 ! i) = contents (bp_device p1) (pf_block_id (bp_frames p1 ! i))"
      using pool_ok_nth [OF a(2,4)] a(5) by (simp add: frame_ok_def)
    have "map_of (keyed (bp_frames ?p2)) =
        ((map_of (keyed (bp_frames p1)))(pf_block_id (bp_frames p1 ! i) := None))(b \<mapsto> contents (bp_device p1) b)"
      using map_of_list_update [of "keyed (bp_frames p1)" i b] dist(2) a(4) notin by simp
    moreover have "map_of (keyed (bp_frames p1)) b = None"
      using notin by (simp add: map_of_eq_None_iff keyed_def image_image)
    ultimately show ?thesis
      using old coh that by (auto simp: blocks_def split: option.splits if_splits)
  qed
  then have "same_blocks p (touch ?p2 i)"
    using a(3) by (simp add: same_blocks_def touch_def Let_def)
  moreover have "holds (touch ?p2 i) i b"
    using a(4) by (simp add: holds_def touch_def Let_def is_pinned_def)
  ultimately show ?thesis using load by blast
next
  assume "acquire_frame ops p = Some (p, Inl AllFramesPinned)" "bp_capacity p \<le> length (bp_frames p)"
    "\<forall>f \<in> set (bp_frames p). is_pinned (pf_state f)"
  then show ?thesis by (simp add: load_frame_def)
qed

text \<open>A block that is not resident is loaded unless every frame is in use and pinned.\<close>

lemma load_full:
  assumes "pool_ok p" and "bp_capacity p \<le> length (bp_frames p)" and pinned: "\<forall>f \<in> set (bp_frames p). is_pinned (pf_state f)"
  shows "load_frame ops p b = Some (p, Inl AllFramesPinned)"
proof -
  have "position (\<lambda>f. pf_state f = Free) (bp_frames p) = None" using pinned by (auto simp: position_None is_pinned_def)
  moreover have "find_victim (bp_frames p) (bp_lru p) = Some None"
    using assms(1) pinned by (intro find_victim_pinned) (auto simp: pool_ok_def lru_ok_def)
  ultimately show ?thesis using assms(2) by (simp add: load_frame_def acquire_frame_def evict_def)
qed

lemma load_room:
  assumes "pool_ok p" and "b < count (bp_device p)" and miss: "find_frame p b = None"
  shows "(\<exists>p' i. load_frame ops p b = Some (p', Inr i)) \<longleftrightarrow> has_room p b"
proof (cases "has_room p b")
  case True
  then have "length (bp_frames p) < bp_capacity p \<or> (\<exists>f \<in> set (bp_frames p). \<not> is_pinned (pf_state f))"
    by (simp add: has_room_def miss list_ex_iff)
  with load_ok [OF assms] True show ?thesis by auto
next
  case False
  then have "bp_capacity p \<le> length (bp_frames p)" "\<forall>f \<in> set (bp_frames p). is_pinned (pf_state f)"
    by (simp_all add: has_room_def miss list_ex_iff)
  from load_full [OF assms(1) this] False show ?thesis by simp
qed

lemma touch_same: "bp_frames (touch p i) = bp_frames p" "bp_device (touch p i) = bp_device p"
    "blocks (touch p i) = blocks p"
  by (simp_all add: touch_def Let_def)

lemma hit_ok:
  assumes inv: "pool_ok p" and hit: "find_frame p b = Some i" and b: "b < count (bp_device p)"
    and pin: "pin_frame p i = Some p1"
  shows "pool_ok (touch p1 i) \<and> same_blocks p (touch p1 i) \<and> holds (touch p1 i) i b"
proof -
  have dist: "distinct (map pf_block_id (bp_frames p))" using inv by (simp add: pool_ok_def)
  have i: "i < length (bp_frames p)" "pf_block_id (bp_frames p ! i) = b"
    using find_frame_keyed(1) [OF dist hit] by auto
  from pin obtain n where p1: "p1 = p\<lparr>bp_frames := (bp_frames p)[i := (bp_frames p ! i)\<lparr>pf_state := Pinned n\<rparr>]\<rparr>"
    by (auto simp: pin_frame_def Let_def bind_eq_Some_conv split: page_state.splits)
  let ?g = "(bp_frames p ! i)\<lparr>pf_state := Pinned n\<rparr>"
  have fok: "frame_ok (bp_device p) ?g"
    using pool_ok_nth [OF inv i(1)] i(2) b by (auto simp: frame_ok_def)
  have "map pf_block_id (bp_frames p1) = map pf_block_id (bp_frames p)"
    using i(1) unfolding p1 by (simp add: map_update list_update_same_conv)
  moreover have "list_all (frame_ok (bp_device p)) (bp_frames p1)"
    using inv fok i(1) unfolding p1 by (auto simp: pool_ok_def list_all_length nth_list_update)
  moreover have "lru_ok (touch p1 i)"
    using inv i(1) unfolding p1 by (intro lru_ok_touch) (auto simp: pool_ok_def lru_ok_def nth_list_update)
  ultimately have "pool_ok (touch p1 i)"
    using inv unfolding p1 by (auto simp: pool_ok_def touch_same) (auto simp: touch_def Let_def)
  moreover have "same_blocks p p1" unfolding p1 by (intro same_blocks_update [OF dist i(1)]) simp_all
  ultimately show ?thesis
    using i unfolding p1 by (simp add: holds_def same_blocks_def touch_same is_pinned_def)
qed

lemma fetch_ok:
  assumes inv: "pool_ok p" and b: "b < count (bp_device p)" and run: "fetch ops p b = Some (p', r)"
  shows "pool_ok p' \<and> same_blocks p p' \<and>
    (case r of
       Inr page \<Rightarrow> page = blocks p b \<and> (\<exists>i. holds p' i b)
     | Inl e \<Rightarrow> e = AllFramesPinned \<and> p' = p \<and> find_frame p b = None \<and> bp_capacity p \<le> length (bp_frames p) \<and>
         (\<forall>f \<in> set (bp_frames p). is_pinned (pf_state f)))"
proof (cases "find_frame p b")
  case (Some i)
  then obtain p1 where p1: "pin_frame p i = Some p1" "p' = touch p1 i" "r = Inr (pf_page (bp_frames p' ! i))"
    using run by (auto simp: fetch_def Let_def bind_eq_Some_conv)
  have h: "pool_ok p'" "same_blocks p p'" "holds p' i b" using hit_ok [OF inv Some b p1(1)] p1(2) by auto
  then have "blocks p' b = pf_page (bp_frames p' ! i)"
    using blocks_nth [of p' i] by (auto simp: pool_ok_def holds_def)
  with h p1(3) b show ?thesis by (auto simp: same_blocks_def)
next
  case None
  from load_ok [OF inv b None] show ?thesis
  proof (elim disjE exE conjE)
    fix p1 i
    assume l: "load_frame ops p b = Some (p1, Inr i)" "pool_ok (touch p1 i)" "same_blocks p (touch p1 i)"
      "holds (touch p1 i) i b"
    then have r: "p' = touch p1 i" "r = Inr (pf_page (bp_frames p' ! i))"
      using run None by (auto simp: fetch_def Let_def)
    have "blocks p' b = pf_page (bp_frames p' ! i)"
      using blocks_nth [of p' i] l(2,4) r(1) by (auto simp: pool_ok_def holds_def)
    with l r b show ?thesis by (auto simp: same_blocks_def)
  next
    assume "load_frame ops p b = Some (p, Inl AllFramesPinned)" "bp_capacity p \<le> length (bp_frames p)"
      "\<forall>f \<in> set (bp_frames p). is_pinned (pf_state f)"
    with run None inv show ?thesis by (auto simp: fetch_def)
  qed
qed

lemma fetch_room:
  assumes "pool_ok p" and "b < count (bp_device p)"
  shows "(\<exists>p' page. fetch ops p b = Some (p', Inr page)) \<longleftrightarrow> has_room p b"
    and "(\<exists>p' i. fetch_mut ops p b = Some (p', Inr i)) \<longleftrightarrow> has_room p b"
proof -
  have "((\<exists>p' page. fetch ops p b = Some (p', Inr page)) \<longleftrightarrow> has_room p b) \<and> ((\<exists>p' i. fetch_mut ops p b = Some (p', Inr i)) \<longleftrightarrow> has_room p b)"
  proof (cases "find_frame p b")
    case (Some i)
    with pin_room [OF Some] show ?thesis by (auto simp: fetch_def fetch_mut_def Let_def bind_eq_Some_conv)
  next
    case None
    obtain q r where "load_frame ops p b = Some (q, r)" using load_ok [OF assms None] by blast
    with load_room [OF assms None] None show ?thesis by (cases r) (auto simp: fetch_def fetch_mut_def Let_def)
  qed
  then show "(\<exists>p' page. fetch ops p b = Some (p', Inr page)) \<longleftrightarrow> has_room p b"
    "(\<exists>p' i. fetch_mut ops p b = Some (p', Inr i)) \<longleftrightarrow> has_room p b" by simp_all
qed

text \<open>Writing through a mutable reference: the client's view of that block, and no other, changes.\<close>

lemma fetch_mut_ok:
  assumes inv: "pool_ok p" and b: "b < count (bp_device p)" and run: "fetch_mut ops p b = Some (p1, r)"
    and page: "length page = PAGE_SIZE"
  shows "case r of
      Inr i \<Rightarrow> pool_ok (write_frame p1 i page) \<and> count (bp_device (write_frame p1 i page)) = count (bp_device p) \<and>
        (\<forall>c < count (bp_device p). blocks (write_frame p1 i page) c = ((blocks p)(b := page)) c)
    | Inl e \<Rightarrow> e = AllFramesPinned \<and> p1 = p"
proof -
  have main: "pool_ok (write_frame (mark_dirty_pinned q i) i page) \<and>
      count (bp_device (write_frame (mark_dirty_pinned q i) i page)) = count (bp_device p) \<and>
      (\<forall>c < count (bp_device p). blocks (write_frame (mark_dirty_pinned q i) i page) c = ((blocks p)(b := page)) c)"
    if q: "pool_ok q" "same_blocks p q" "holds q i b" for q i
  proof -
    let ?g = "(bp_frames q ! i)\<lparr>pf_dirty_intent := True, pf_page := page\<rparr>"
    have i: "i < length (bp_frames q)" "pf_block_id (bp_frames q ! i) = b" "is_pinned (pf_state (bp_frames q ! i))"
      using q(3) by (auto simp: holds_def)
    have w: "write_frame (mark_dirty_pinned q i) i page = q\<lparr>bp_frames := (bp_frames q)[i := ?g]\<rparr>"
      using i(1) by (simp add: write_frame_def mark_dirty_pinned_def)
    have "pf_state (bp_frames q ! i) \<noteq> Free" using i(3) by (auto simp: is_pinned_def)
    then have lru: "i \<in> set (bp_lru q)" using q(1) i(1) by (auto simp: pool_ok_def lru_ok_def)
    have "frame_ok (bp_device q) ?g"
      using pool_ok_nth [OF q(1) i(1)] i(3) page by (auto simp: frame_ok_def is_pinned_def)
    then have "pool_ok (q\<lparr>bp_frames := (bp_frames q)[i := ?g]\<rparr>)"
      using lru by (intro pool_ok_update [OF q(1) i(1)]) simp_all
    moreover have "blocks (q\<lparr>bp_frames := (bp_frames q)[i := ?g]\<rparr>) = (blocks q)(b := page)"
      using blocks_update [of q i ?g] q(1) i by (simp add: pool_ok_def)
    ultimately show ?thesis using q(2) unfolding w by (simp add: same_blocks_def)
  qed
  show ?thesis
  proof (cases "find_frame p b")
    case (Some i)
    then obtain q where q: "pin_frame p i = Some q" "p1 = mark_dirty_pinned (touch q i) i" "r = Inr i"
      using run by (auto simp: fetch_mut_def bind_eq_Some_conv)
    with main [of "touch q i" i] hit_ok [OF inv Some b q(1)] show ?thesis by simp
  next
    case None
    from load_ok [OF inv b None] show ?thesis
    proof (elim disjE exE conjE)
      fix q i
      assume l: "load_frame ops p b = Some (q, Inr i)" "pool_ok (touch q i)" "same_blocks p (touch q i)"
        "holds (touch q i) i b"
      then have "p1 = mark_dirty_pinned (touch q i) i" "r = Inr i"
        using run None by (auto simp: fetch_mut_def)
      with main [OF l(2-4)] show ?thesis by simp
    next
      assume "load_frame ops p b = Some (p, Inl AllFramesPinned)"
      with run None show ?thesis by (auto simp: fetch_mut_def)
    qed
  qed
qed

lemma unpin_ok:
  assumes inv: "pool_ok p"
  shows "pool_ok (unpin p b) \<and> same_blocks p (unpin p b)"
proof (cases "find_frame p b")
  case None
  with inv show ?thesis by (simp add: unpin_def)
next
  case (Some i)
  have dist: "distinct (map pf_block_id (bp_frames p))" using inv by (simp add: pool_ok_def)
  have i: "i < length (bp_frames p)" using find_frame_keyed(1) [OF dist Some] by simp
  let ?f = "bp_frames p ! i"
  show ?thesis
  proof (cases "pf_state ?f")
    case (Pinned n)
    let ?g = "?f\<lparr>pf_state := (if 1 < n then Pinned (n - 1) else if pf_dirty_intent ?f then Dirty else Clean)\<rparr>"
    have "i \<in> set (bp_lru p)" using inv i Pinned by (auto simp: pool_ok_def lru_ok_def)
    moreover have "frame_ok (bp_device p) ?g"
      using pool_ok_nth [OF inv i] Pinned by (auto simp: frame_ok_def)
    ultimately have "pool_ok (p\<lparr>bp_frames := (bp_frames p)[i := ?g]\<rparr>)"
      by (intro pool_ok_update [OF inv i]) simp_all
    moreover have "same_blocks p (p\<lparr>bp_frames := (bp_frames p)[i := ?g]\<rparr>)"
      by (intro same_blocks_update [OF dist i]) simp_all
    ultimately show ?thesis using Some Pinned by (simp add: unpin_def Let_def)
  qed (use Some inv in \<open>simp_all add: unpin_def Let_def\<close>)
qed

lemma flush_loop_ok:
  assumes "pool_ok p" and "bp_frames p = vis @ fs" and "\<forall>f \<in> set vis. \<not> needs_flush f"
  shows "\<exists>d' fs'. flush_loop ops (bp_device p) vis fs = (d', fs', Inr ()) \<and>
    pool_ok (p\<lparr>bp_device := d', bp_frames := fs'\<rparr>) \<and> same_blocks p (p\<lparr>bp_device := d', bp_frames := fs'\<rparr>) \<and>
    (\<forall>f \<in> set fs'. \<not> needs_flush f)"
  using assms
proof (induction fs arbitrary: p vis)
  case Nil
  then have vis: "vis = bp_frames p" by simp
  show ?case using Nil unfolding vis by simp
next
  case (Cons f fs)
  let ?i = "length vis"
  have i: "?i < length (bp_frames p)" "bp_frames p ! ?i = f" using Cons.prems(2) by simp_all
  show ?case
  proof (cases "needs_flush f")
    case False
    with Cons.IH [of p "vis @ [f]"] Cons.prems show ?thesis by simp
  next
    case True
    let ?g = "f\<lparr>pf_dirty_intent := False, pf_state := (if pf_state f = Dirty then Clean else pf_state f)\<rparr>"
    have fok: "frame_ok (bp_device p) f" using pool_ok_nth [OF Cons.prems(1) i(1)] i(2) by simp
    have nofree: "pf_state f \<noteq> Free" using True by (auto simp: needs_flush_def is_pinned_def)
    with fok have id: "pf_block_id f < count (bp_device p)" by (auto simp: frame_ok_def)
    from write_back [OF Cons.prems(1) i(1)] i(2) id obtain d1 where
      d1: "write_block_op ops (bp_device p) (pf_block_id f) (pf_page f) = (d1, Inr ())"
        "pool_ok (p\<lparr>bp_device := d1\<rparr>)" "same_blocks p (p\<lparr>bp_device := d1\<rparr>)"
        "contents d1 (pf_block_id f) = pf_page f" by auto
    let ?p1 = "p\<lparr>bp_device := d1\<rparr>"
    let ?p2 = "?p1\<lparr>bp_frames := (bp_frames ?p1)[?i := ?g]\<rparr>"
    have "?i \<in> set (bp_lru p)"
      using Cons.prems(1) i nofree unfolding pool_ok_def lru_ok_def by metis
    moreover have "frame_ok d1 ?g"
      using pool_ok_nth [OF d1(2)] i d1(4) True by (auto simp: frame_ok_def needs_flush_def is_pinned_def)
    ultimately have p2: "pool_ok ?p2" using i by (intro pool_ok_update [OF d1(2)]) simp_all
    have "same_blocks ?p1 ?p2"
      using d1(2) i by (intro same_blocks_update) (auto simp: pool_ok_def)
    with d1(3) have sb: "same_blocks p ?p2" by (rule same_blocks_trans)
    have fr: "bp_frames ?p2 = (vis @ [?g]) @ fs" using Cons.prems(2) by simp
    have "\<not> needs_flush ?g" by (simp add: needs_flush_def)
    with Cons.IH [OF p2 fr] Cons.prems(3) obtain d' fs' where
      IH: "flush_loop ops d1 (vis @ [?g]) fs = (d', fs', Inr ())" "pool_ok (?p2\<lparr>bp_device := d', bp_frames := fs'\<rparr>)"
        "same_blocks ?p2 (?p2\<lparr>bp_device := d', bp_frames := fs'\<rparr>)" "\<forall>f \<in> set fs'. \<not> needs_flush f" by auto
    have eq: "?p2\<lparr>bp_device := d', bp_frames := fs'\<rparr> = p\<lparr>bp_device := d', bp_frames := fs'\<rparr>" by simp
    show ?thesis
      using True d1(1) IH(1,2,4) same_blocks_trans [OF sb IH(3)] unfolding eq by simp
  qed
qed

lemma flush_ok:
  assumes "pool_ok p"
  shows "\<exists>p'. flush_all ops p = (p', Inr ()) \<and> pool_ok p' \<and> same_blocks p p' \<and>
    (\<forall>b < count (bp_device p). contents (bp_device p') b = blocks p b)"
proof -
  from flush_loop_ok [OF assms, of "[]" "bp_frames p"] obtain d1 fs where
    fl: "flush_loop ops (bp_device p) [] (bp_frames p) = (d1, fs, Inr ())"
      "pool_ok (p\<lparr>bp_device := d1, bp_frames := fs\<rparr>)" "same_blocks p (p\<lparr>bp_device := d1, bp_frames := fs\<rparr>)"
      "\<forall>f \<in> set fs. \<not> needs_flush f" by auto
  let ?p1 = "p\<lparr>bp_device := d1, bp_frames := fs\<rparr>"
  have "dev_ok d1" using fl(2) by (simp add: pool_ok_def)
  from sync_ok [OF this] obtain d2 where
    d2: "sync_op ops d1 = (d2, Inr ())" "dev_ok d2" "count d2 = count d1" "contents d2 = contents d1" by blast
  let ?p2 = "?p1\<lparr>bp_device := d2\<rparr>"
  have "frame_ok d2 f = frame_ok d1 f" for f using d2(3,4) by (simp add: frame_ok_def)
  then have ok: "pool_ok ?p2" using fl(2) d2(2) by (simp add: pool_ok_def lru_ok_def list_all_iff)
  have bl: "blocks ?p2 = blocks ?p1" using d2(4) by (simp add: blocks_def fun_eq_iff cong: option.case_cong)
  then have sb: "same_blocks p ?p2" using fl(3) d2(3) by (simp add: same_blocks_def)
  have clean: "\<not> pf_dirty_intent f" if "f \<in> set fs" for f
    using fl(2,4) that by (cases "pf_state f") (auto simp: pool_ok_def list_all_iff frame_ok_def needs_flush_def is_pinned_def)
  have "contents d2 b = blocks ?p2 b" if b: "b < count (bp_device p)" for b
  proof (cases "map_of (keyed fs) b")
    case None
    then show ?thesis by (simp add: blocks_def)
  next
    case (Some page)
    then obtain f where "f \<in> set fs" "pf_block_id f = b" "pf_page f = page"
      using map_of_SomeD [OF Some] by (auto simp: keyed_def)
    moreover have "frame_ok d2 f" using ok calculation(1) by (simp add: pool_ok_def list_all_iff)
    moreover have "b < count d2" using b sb by (simp add: same_blocks_def)
    ultimately show ?thesis using Some clean by (auto simp: frame_ok_def blocks_def)
  qed
  with sb have "\<forall>b < count (bp_device p). contents d2 b = blocks p b" by (simp add: same_blocks_def)
  moreover have "flush_all ops p = (?p2, Inr ())" using fl(1) d2(1) by (simp add: flush_all_def Let_def)
  ultimately show ?thesis using ok sb by auto
qed

lemma trace_refines:
  assumes "pool_ok p" and "pool_trace ops p as = Some (p', rs)" and "\<forall>a \<in> set as. op_ok (count (bp_device p)) a"
    and "\<forall>b < count (bp_device p). arr b = blocks p b"
  shows "\<exists>arr'. array_accepts arr rs = Some arr' \<and> pool_ok p' \<and> count (bp_device p') = count (bp_device p) \<and>
    (\<forall>b < count (bp_device p). arr' b = blocks p' b)"
  using assms
proof (induction as arbitrary: p arr rs)
  case Nil
  then show ?case by auto
next
  case (Cons a as)
  then obtain p1 r rs' where c: "pool_call ops p a = Some (p1, r)" "pool_trace ops p1 as = Some (p', rs')"
    "rs = (a, r) # rs'" by (auto simp: bind_eq_Some_conv)
  have step: "pool_ok p1 \<and> count (bp_device p1) = count (bp_device p) \<and>
      (\<exists>arr1. array_accepts arr rs = array_accepts arr1 rs' \<and> (\<forall>b < count (bp_device p). arr1 b = blocks p1 b))"
  proof (cases a)
    case (PoolFetch b)
    with fetch_ok [OF Cons.prems(1), of b p1 r] c(1) Cons.prems(3,4) show ?thesis
      unfolding c(3) by (cases r) (auto simp: same_blocks_def)
  next
    case (PoolWrite b page)
    then obtain q i where "fetch_mut ops p b = Some (q, i)"
      "(p1, r) = (case i of Inl e \<Rightarrow> (q, Inl e) | Inr i \<Rightarrow> (write_frame q i page, Inr page))"
      using c(1) by (auto simp: bind_eq_Some_conv)
    moreover have "b < count (bp_device p)" "length page = PAGE_SIZE" using Cons.prems(3) PoolWrite by auto
    ultimately have "case i of
        Inr i \<Rightarrow> r = Inr page \<and> p1 = write_frame q i page \<and> pool_ok p1 \<and> count (bp_device p1) = count (bp_device p) \<and>
          (\<forall>c < count (bp_device p). blocks p1 c = ((blocks p)(b := page)) c)
      | Inl e \<Rightarrow> r = Inl AllFramesPinned \<and> p1 = p"
      using fetch_mut_ok [OF Cons.prems(1), of b q i page] by (cases i) auto
    then consider "r = Inl AllFramesPinned" "p1 = p" |
      "r = Inr page" "pool_ok p1" "count (bp_device p1) = count (bp_device p)"
        "\<forall>c < count (bp_device p). (arr(b := page)) c = blocks p1 c"
      using Cons.prems(4) by (cases i) auto
    then show ?thesis
    proof cases
      case 1
      with PoolWrite Cons.prems(1,4) show ?thesis unfolding c(3) by auto
    next
      case 2
      with PoolWrite show ?thesis unfolding c(3) by (intro conjI exI [of _ "arr(b := page)"]) simp_all
    qed
  next
    case (PoolUnpin b)
    with unpin_ok [OF Cons.prems(1), of b] c(1) Cons.prems(4) show ?thesis
      unfolding c(3) by (auto simp: same_blocks_def)
  next
    case PoolFlush
    with flush_ok [OF Cons.prems(1)] c(1) Cons.prems(4) show ?thesis
      unfolding c(3) by (auto simp: same_blocks_def intro!: exI [of _ arr])
  qed
  then obtain arr1 where "array_accepts arr rs = array_accepts arr1 rs'" "\<forall>b < count (bp_device p). arr1 b = blocks p1 b"
    by blast
  with Cons.IH [of p1 rs' arr1] step c(2) Cons.prems(3) show ?case by auto
qed

end

subsection \<open>Properties\<close>

text \<open>
  C9. The buffer pool implements an array of blocks. Take a fresh pool of any capacity over a
  fresh in-memory device and any sequence of fetches, writes through mutable references,
  unpins and flushes on blocks of the device that does not panic. Then every successful fetch
  returned the bytes last written to that block (zeroes at first), whatever was evicted in
  between, the only error ever returned is that all frames are pinned, and a final flush
  succeeds and leaves the device itself holding exactly these blocks.
\<close>

theorem pool_implements_array:
  assumes "memory_new n = Some d" and "pool_new d capacity = Some p"
    and "pool_trace memory_ops p as = Some (p', rs)" and "\<forall>a \<in> set as. op_ok n a"
  shows "\<exists>arr p''. array_accepts (\<lambda>b. page_zeroed) rs = Some arr \<and>
    flush_all memory_ops p' = (p'', Inr ()) \<and> (\<forall>b < n. memory_contents (bp_device p'') b = arr b)"
proof -
  have d: "memory_ok d" "md_block_count d = n" using memory_new_ok [OF assms(1)] by auto
  have p: "memory.pool_ok p" "bp_device p = d" using memory.pool_new_ok [OF d(1) assms(2)] by auto
  have cnt: "block_count_op memory_ops (bp_device p) = n" using p(2) d(2) by (simp add: memory_ops_def)
  have zero: "memory.blocks p b = page_zeroed" if "b < n" for b
  proof -
    have "bp_frames p = []" using assms(2) by (auto simp: pool_new_def split: if_splits)
    then have "memory.blocks p b = memory_contents d b" by (simp add: memory.blocks_def keyed_def p(2))
    also have "\<dots> = page_zeroed"
      using assms(1) block_end [OF that, of BLOCK_SIZE]
      by (auto simp: memory_contents_def memory_new_def bind_eq_Some_conv PAGE_SIZE_def BLOCK_SIZE_def)
    finally show ?thesis .
  qed
  from memory.trace_refines [OF p(1) assms(3), of "\<lambda>b. page_zeroed"] assms(4) cnt zero obtain arr where
    arr: "array_accepts (\<lambda>b. page_zeroed) rs = Some arr" "memory.pool_ok p'"
      "block_count_op memory_ops (bp_device p') = n" "\<forall>b < n. arr b = memory.blocks p' b" by auto
  from memory.flush_ok [OF arr(2)] arr show ?thesis by auto
qed

definition example_pool_ops :: "pool_op list" where
  "example_pool_ops = [PoolWrite 0 (replicate PAGE_SIZE 7), PoolUnpin 0, PoolFetch 1, PoolUnpin 1, PoolFetch 0]"

lemma example_memory: "memory_new 2 = Some \<lparr>md_blocks = replicate 8192 0, md_block_count = 2\<rparr>"
  by (simp add: memory_new_def checked_mul_def BLOCK_SIZE_def)

lemma example_pool_trace:
  "\<exists>p' rs. pool_trace memory_ops \<lparr>bp_device = \<lparr>md_blocks = replicate 8192 0, md_block_count = 2\<rparr>, bp_capacity = 1,
     bp_frames = [], bp_lru = []\<rparr> example_pool_ops = Some (p', rs)"
  by (simp add: example_pool_ops_def find_frame_def fetch_mut_def fetch_def load_frame_def acquire_frame_def evict_def
      pin_frame_def touch_def mark_dirty_pinned_def write_frame_def unpin_def Let_def is_pinned_def memory_ops_def
      memory_read_block_def memory_write_block_def memory_range_def PAGE_SIZE_def BLOCK_SIZE_def)

theorem pool_implements_array_witness:
  "\<exists>p' rs arr p''. pool_trace memory_ops \<lparr>bp_device = \<lparr>md_blocks = replicate 8192 0, md_block_count = 2\<rparr>, bp_capacity = 1,
     bp_frames = [], bp_lru = []\<rparr> example_pool_ops = Some (p', rs) \<and>
     array_accepts (\<lambda>b. page_zeroed) rs = Some arr \<and> flush_all memory_ops p' = (p'', Inr ()) \<and>
     memory_contents (bp_device p'') 0 = arr 0"
proof -
  let ?d = "\<lparr>md_blocks = replicate 8192 0, md_block_count = 2\<rparr>"
  let ?p = "\<lparr>bp_device = ?d, bp_capacity = 1, bp_frames = [], bp_lru = []\<rparr>"
  obtain p' rs where t: "pool_trace memory_ops ?p example_pool_ops = Some (p', rs)"
    using example_pool_trace by blast
  have "pool_new ?d 1 = Some ?p" by (simp add: pool_new_def)
  moreover have "\<forall>a \<in> set example_pool_ops. op_ok 2 a" by (simp add: example_pool_ops_def)
  ultimately obtain arr p'' where "array_accepts (\<lambda>b. page_zeroed) rs = Some arr" "flush_all memory_ops p' = (p'', Inr ())"
    "\<forall>b < 2. memory_contents (bp_device p'') b = arr b"
    using pool_implements_array [OF example_memory _ t] by blast
  with t show ?thesis by auto
qed

end
