(* ===== verification/Wal.thy ===== *)
theory Wal
  imports Zerocopy "HOL-Library.Word"
begin

text \<open>
  The write-ahead log of \<open>tpt-archon-core\<close> (\<open>wal.rs\<close>): the framing of records with a CRC-32
  checksum, the append-only log, its replay and its recovery from raw bytes. The
  callback that replay invokes on every record is represented by the list of records it is
  invoked on.
\<close>

unbundle bit_operations_syntax

subsection \<open>Records\<close>

datatype record_kind = PageWrite | CommitMark | Checkpoint

fun kind_tag :: "record_kind \<Rightarrow> nat" where
  "kind_tag PageWrite = 1"
| "kind_tag CommitMark = 2"
| "kind_tag Checkpoint = 3"

definition kind_from_u8 :: "nat \<Rightarrow> record_kind option" where
  "kind_from_u8 v =
     (if v = 1 then Some PageWrite else if v = 2 then Some CommitMark
      else if v = 3 then Some Checkpoint else None)"

record wal_record =
  wr_lsn :: nat
  wr_kind :: record_kind
  wr_block_id :: nat
  wr_payload :: bytes

datatype wal_error = WalOutOfSpace | Malformed | BadChecksum | UnknownKind nat

definition HEADER_LEN :: nat where
  "HEADER_LEN = 8 + 1 + 8 + 4"

subsection \<open>CRC-32\<close>

definition crc_shift :: "32 word \<Rightarrow> 32 word" where
  "crc_shift crc = (let mask = - (crc AND 1) in drop_bit 1 crc XOR (0xEDB88320 AND mask))"

definition crc_byte :: "32 word \<Rightarrow> nat \<Rightarrow> 32 word" where
  "crc_byte crc b = (crc_shift ^^ 8) (crc XOR word_of_nat b)"

definition crc32 :: "bytes \<Rightarrow> nat" where
  "crc32 data = unat (NOT (foldl crc_byte 0xFFFFFFFF data))"

subsection \<open>Encoding and decoding\<close>

definition encoded_len :: "wal_record \<Rightarrow> nat" where
  "encoded_len r = 4 + HEADER_LEN + length (wr_payload r) + 4"

text \<open>
  \<open>encode\<close> returns the buffer with the record written into it. On an error the partially
  written buffer is dropped, as the only caller does.
\<close>

definition encode :: "wal_record \<Rightarrow> bytes \<Rightarrow> wal_error + (bytes \<times> nat)" where
  "encode r out =
     (let body_len = HEADER_LEN + length (wr_payload r) + 4;
          put = (\<lambda>f c. map_err (\<lambda>_. WalOutOfSpace) (f c))
      in res_bind (put (put_u32 (body_len mod 2 ^ 32)) (cursor_new out)) (\<lambda>c.
         res_bind (put (put_u64 (wr_lsn r)) c) (\<lambda>c.
         res_bind (put (put_u8 (kind_tag (wr_kind r))) c) (\<lambda>c.
         res_bind (put (put_u64 (wr_block_id r)) c) (\<lambda>c.
         res_bind (put (put_u32 (length (wr_payload r) mod 2 ^ 32)) c) (\<lambda>c.
         res_bind (put (put_bytes (wr_payload r)) c) (\<lambda>c.
           let end_before_crc = cur_pos c;
               out' = cur_buf c;
               crc = crc32 (drop 4 (take end_before_crc out'))
           in res_bind (put (put_u32 crc) (cursor_new (drop end_before_crc out'))) (\<lambda>c'.
                Inr (take end_before_crc out' @ cur_buf c', end_before_crc + 4)))))))))"

abbreviation or_malformed :: "out_of_space + 'a \<Rightarrow> wal_error + 'a" where
  "or_malformed r \<equiv> map_err (\<lambda>_. Malformed) r"

definition decode :: "bytes \<Rightarrow> wal_error + (wal_record \<times> nat)" where
  "decode data =
     res_bind (or_malformed (read_u32 (reader_new data))) (\<lambda>(body_len, r).
      if rd_remaining r < body_len then Inl Malformed
      else let body_start = rd_pos r in
      res_bind (or_malformed (read_u64 r)) (\<lambda>(lsn, r).
      res_bind (or_malformed (read_u8 r)) (\<lambda>(tag, r).
      res_bind (case kind_from_u8 tag of None \<Rightarrow> Inl (UnknownKind tag) | Some k \<Rightarrow> Inr k) (\<lambda>kind.
      res_bind (or_malformed (read_u64 r)) (\<lambda>(block_id, r).
      res_bind (or_malformed (read_u32 r)) (\<lambda>(payload_len, r).
      res_bind (or_malformed (read_bytes payload_len r)) (\<lambda>(payload, r).
      res_bind (or_malformed (read_u32 r)) (\<lambda>(stored_crc, r).
        let crc_region_end = rd_pos r - 4;
            computed = crc32 (drop body_start (take crc_region_end data))
        in if computed \<noteq> stored_crc then Inl BadChecksum
           else Inr (\<lparr>wr_lsn = lsn, wr_kind = kind, wr_block_id = block_id, wr_payload = payload\<rparr>,
                     4 + body_len)))))))))"

subsection \<open>The log\<close>

record wal =
  wal_bytes :: bytes
  wal_next_lsn :: nat

definition wal_new :: wal where
  "wal_new = \<lparr>wal_bytes = [], wal_next_lsn = 0\<rparr>"

definition wal_append :: "wal \<Rightarrow> record_kind \<Rightarrow> nat \<Rightarrow> bytes \<Rightarrow> (wal \<times> nat) panics" where
  "wal_append w kind block_id payload =
     (let lsn = wal_next_lsn w;
          r = \<lparr>wr_lsn = lsn, wr_kind = kind, wr_block_id = block_id, wr_payload = payload\<rparr>
      in case encode r (replicate (encoded_len r) 0) of
           Inl e \<Rightarrow> None
         | Inr (frame, n) \<Rightarrow> do {
             next_lsn \<leftarrow> checked_add 64 (wal_next_lsn w) 1;
             Some (w\<lparr>wal_bytes := wal_bytes w @ take n frame, wal_next_lsn := next_lsn\<rparr>, lsn)
           })"

lemma decode_consumed: "decode data = Inr (r, n) \<Longrightarrow> 0 < n"
  by (auto simp: decode_def Let_def res_bind_Inr_iff split: if_splits)

function replay_loop :: "bytes \<Rightarrow> nat \<Rightarrow> wal_record list" where
  "replay_loop bs offset =
     (if offset < length bs
      then case decode (drop offset bs) of
             Inr (r, consumed) \<Rightarrow> r # replay_loop bs (offset + consumed)
           | Inl e \<Rightarrow> []
      else [])"
  by pat_completeness auto
termination
  by (relation "measure (\<lambda>(bs, offset). length bs - offset)") (auto dest: decode_consumed)

declare replay_loop.simps [simp del]

definition replay :: "wal \<Rightarrow> wal_record list \<times> nat" where
  "replay w = (let rs = replay_loop (wal_bytes w) 0 in (rs, length rs))"

function scan_loop :: "bytes \<Rightarrow> nat \<Rightarrow> nat option \<Rightarrow> nat \<times> nat option" where
  "scan_loop bs offset last_lsn =
     (if offset < length bs
      then case decode (drop offset bs) of
             Inr (r, consumed) \<Rightarrow> scan_loop bs (offset + consumed) (Some (wr_lsn r))
           | Inl e \<Rightarrow> (offset, last_lsn)
      else (offset, last_lsn))"
  by pat_completeness auto
termination
  by (relation "measure (\<lambda>(bs, offset, l). length bs - offset)") (auto dest: decode_consumed)

declare scan_loop.simps [simp del]

definition from_bytes :: "bytes \<Rightarrow> wal panics" where
  "from_bytes bs =
     (case scan_loop bs 0 None of
        (offset, None) \<Rightarrow> Some \<lparr>wal_bytes = take offset bs, wal_next_lsn = 0\<rparr>
      | (offset, Some l) \<Rightarrow> do {
          next_lsn \<leftarrow> checked_add 64 l 1;
          Some \<lparr>wal_bytes = take offset bs, wal_next_lsn = next_lsn\<rparr>
        })"

subsection \<open>Frames\<close>

definition record_ok :: "wal_record \<Rightarrow> bool" where
  "record_ok r \<longleftrightarrow> wr_lsn r < 2 ^ 64 \<and> wr_block_id r < 2 ^ 64 \<and> length (wr_payload r) + 25 < 2 ^ 32"

definition body :: "wal_record \<Rightarrow> bytes" where
  "body r = to_le_bytes 8 (wr_lsn r) @ to_le_bytes 1 (kind_tag (wr_kind r)) @ to_le_bytes 8 (wr_block_id r) @
     to_le_bytes 4 (length (wr_payload r)) @ wr_payload r"

definition frame :: "wal_record \<Rightarrow> bytes" where
  "frame r = to_le_bytes 4 (length (wr_payload r) + 25) @ body r @ to_le_bytes 4 (crc32 (body r))"

lemma length_body [simp]: "length (body r) = length (wr_payload r) + 21"
  by (simp add: body_def)

lemma length_frame: "length (frame r) = encoded_len r"
  by (simp add: frame_def encoded_len_def HEADER_LEN_def)

lemma kind_round_trip [simp]: "kind_from_u8 (kind_tag k) = Some k" "kind_tag k < 256"
  by (cases k; simp add: kind_from_u8_def)+

lemma crc32_less: "crc32 data < 256 ^ 4"
proof -
  have "crc32 data < 2 ^ LENGTH(32)" unfolding crc32_def by (rule unsigned_less)
  then show ?thesis by simp
qed

lemma encode_frame:
  assumes "record_ok r" and "length out = encoded_len r"
  shows "encode r out = Inr (frame r, encoded_len r)"
proof -
  let ?n = "length (wr_payload r)"
  from assms(1) have small: "?n + 25 < 2 ^ 32" by (simp add: record_ok_def)
  define l where "l = to_le_bytes 4 (?n + 25)"
  define hd where "hd = to_le_bytes 8 (wr_lsn r)"
  define kd where "kd = [kind_tag (wr_kind r)]"
  define bl where "bl = to_le_bytes 8 (wr_block_id r)"
  define pl where "pl = to_le_bytes 4 ?n"
  note defs = l_def hd_def kd_def bl_def pl_def
  have w0: "written (cursor_new out) [] (length l + (21 + ?n + 4))"
    using written_new [of out] assms(2) by (simp add: encoded_len_def HEADER_LEN_def l_def)
  from put_bytes_written [OF w0] obtain c1 where
    c1: "put_bytes l (cursor_new out) = Inr c1" "written c1 ([] @ l) (21 + ?n + 4)" by blast
  then have "written c1 l (length hd + (13 + ?n + 4))" by (simp add: hd_def)
  from put_bytes_written [OF this] obtain c2 where
    c2: "put_bytes hd c1 = Inr c2" "written c2 (l @ hd) (13 + ?n + 4)" by blast
  then have "written c2 (l @ hd) (length kd + (12 + ?n + 4))" by (simp add: kd_def)
  from put_bytes_written [OF this] obtain c3 where
    c3: "put_bytes kd c2 = Inr c3" "written c3 ((l @ hd) @ kd) (12 + ?n + 4)" by blast
  then have "written c3 (l @ hd @ kd) (length bl + (4 + ?n + 4))" by (simp add: bl_def)
  from put_bytes_written [OF this] obtain c4 where
    c4: "put_bytes bl c3 = Inr c4" "written c4 ((l @ hd @ kd) @ bl) (4 + ?n + 4)" by blast
  then have "written c4 (l @ hd @ kd @ bl) (length pl + (?n + 4))" by (simp add: pl_def)
  from put_bytes_written [OF this] obtain c5 where
    c5: "put_bytes pl c4 = Inr c5" "written c5 ((l @ hd @ kd @ bl) @ pl) (?n + 4)" by blast
  then have "written c5 (l @ hd @ kd @ bl @ pl) (?n + 4)" by simp
  from put_bytes_written [OF this] obtain c6 where
    c6: "put_bytes (wr_payload r) c5 = Inr c6" "written c6 ((l @ hd @ kd @ bl @ pl) @ wr_payload r) 4" by blast
  have body: "body r = hd @ kd @ bl @ pl @ wr_payload r"
    by (cases "wr_kind r") (simp_all add: body_def defs)
  then obtain rest where rest: "cur_buf c6 = l @ body r @ rest" "length rest = 4" "cur_pos c6 = ?n + 25"
    using c6(2) by (auto simp: written_def defs)
  have crc: "put_bytes (to_le_bytes 4 (crc32 (body r))) (cursor_new rest) =
      Inr \<lparr>cur_buf = to_le_bytes 4 (crc32 (body r)), cur_pos = 4\<rparr>"
    using rest(2) by (simp add: put_bytes_def cursor_new_def splice_def)
  have lens: "length l = 4" "length (l @ body r) = ?n + 25" by (simp_all add: l_def)
  have cut: "take (?n + 25) (cur_buf c6) = l @ body r" "drop (?n + 25) (cur_buf c6) = rest"
    using lens rest(1) by simp_all
  have puts: "put_u32 ((HEADER_LEN + ?n + 4) mod 2 ^ 32) = put_bytes l" "put_u64 (wr_lsn r) = put_bytes hd"
    "put_u8 (kind_tag (wr_kind r)) = put_bytes kd" "put_u64 (wr_block_id r) = put_bytes bl"
    "put_u32 (?n mod 2 ^ 32) = put_bytes pl"
    using small by (simp_all add: put_u32_def put_u64_def put_u8_def defs HEADER_LEN_def add.commute)
  have "encode r out = Inr ((l @ body r) @ to_le_bytes 4 (crc32 (body r)), ?n + 25 + 4)"
    unfolding encode_def Let_def puts
    using lens by (simp add: c1(1) c2(1) c3(1) c4(1) c5(1) c6(1) rest(3) cut put_u32_def crc)
  then show ?thesis by (simp add: frame_def l_def encoded_len_def HEADER_LEN_def)
qed

lemma decode_frame:
  assumes "record_ok r"
  shows "decode (frame r @ rest) = Inr (r, encoded_len r)"
proof -
  let ?n = "length (wr_payload r)"
  let ?data = "frame r @ rest"
  from assms have small: "?n + 25 < 256 ^ 4" "?n < 256 ^ 4" "wr_lsn r < 256 ^ 8" "wr_block_id r < 256 ^ 8"
    by (simp_all add: record_ok_def)
  define tail where "tail = to_le_bytes 4 (crc32 (body r)) @ rest"
  have "at (reader_new ?data) [] (to_le_bytes 4 (?n + 25) @ body r @ tail)"
    using at_new [of ?data] by (simp add: frame_def tail_def)
  from read_num_at [OF this small(1)] obtain r1 where
    r1: "read_num 4 (reader_new ?data) = Inr (?n + 25, r1)" "at r1 (to_le_bytes 4 (?n + 25)) (body r @ tail)"
    by auto
  have rem: "rd_remaining r1 = ?n + 25 + length rest" "rd_pos r1 = 4"
    using r1(2) by (auto simp: tail_def at_def rd_remaining_def)
  from r1(2) have "at r1 (to_le_bytes 4 (?n + 25)) (to_le_bytes 8 (wr_lsn r) @
      to_le_bytes 1 (kind_tag (wr_kind r)) @ to_le_bytes 8 (wr_block_id r) @ to_le_bytes 4 ?n @ wr_payload r @ tail)"
    by (simp add: body_def)
  from read_num_at [OF this small(3)] obtain r2 where
    r2: "read_num 8 r1 = Inr (wr_lsn r, r2)" "at r2 (to_le_bytes 4 (?n + 25) @ to_le_bytes 8 (wr_lsn r))
      (to_le_bytes 1 (kind_tag (wr_kind r)) @ to_le_bytes 8 (wr_block_id r) @ to_le_bytes 4 ?n @ wr_payload r @ tail)"
    by blast
  from read_num_at [OF r2(2)] obtain r3 where
    r3: "read_num 1 r2 = Inr (kind_tag (wr_kind r), r3)" "at r3 ((to_le_bytes 4 (?n + 25) @ to_le_bytes 8 (wr_lsn r)) @
       to_le_bytes 1 (kind_tag (wr_kind r))) (to_le_bytes 8 (wr_block_id r) @ to_le_bytes 4 ?n @ wr_payload r @ tail)"
    by auto
  from read_num_at [OF r3(2) small(4)] obtain r4 where
    r4: "read_num 8 r3 = Inr (wr_block_id r, r4)" "at r4 (((to_le_bytes 4 (?n + 25) @ to_le_bytes 8 (wr_lsn r)) @
       to_le_bytes 1 (kind_tag (wr_kind r))) @ to_le_bytes 8 (wr_block_id r)) (to_le_bytes 4 ?n @ wr_payload r @ tail)"
    by blast
  from read_num_at [OF r4(2) small(2)] obtain r5 where
    r5: "read_num 4 r4 = Inr (?n, r5)" "at r5 ((((to_le_bytes 4 (?n + 25) @ to_le_bytes 8 (wr_lsn r)) @
       to_le_bytes 1 (kind_tag (wr_kind r))) @ to_le_bytes 8 (wr_block_id r)) @ to_le_bytes 4 ?n) (wr_payload r @ tail)"
    by blast
  from read_bytes_at [OF r5(2)] obtain r6 where
    r6: "read_bytes ?n r5 = Inr (wr_payload r, r6)" "at r6 (to_le_bytes 4 (?n + 25) @ body r) tail"
    by (auto simp: body_def)
  from read_num_at [OF r6(2) [unfolded tail_def] crc32_less] obtain r7 where
    r7: "read_num 4 r6 = Inr (crc32 (body r), r7)"
      "at r7 ((to_le_bytes 4 (?n + 25) @ body r) @ to_le_bytes 4 (crc32 (body r))) rest" by blast
  have "rd_pos r7 - 4 = 4 + length (body r)" using r7(2) by (simp add: at_def)
  then have "drop 4 (take (rd_pos r7 - 4) ?data) = body r"
    by (simp add: frame_def)
  with rem show ?thesis
    unfolding decode_def read_u32_def read_u64_def read_u8_def
    by (simp add: r1(1) r2(1) r3(1) r4(1) r5(1) r6(1) r7(1) encoded_len_def HEADER_LEN_def
        del: One_nat_def take_append)
qed

lemma decode_torn:
  assumes "record_ok r" and "m < encoded_len r"
  shows "decode (take m (frame r)) = Inl Malformed"
proof (cases "m < 4")
  case True
  then have "length (take m (frame r)) < 4" by simp
  then obtain e where "read_num 4 (reader_new (take m (frame r))) = Inl e"
    using read_num_short [OF at_new] by blast
  then show ?thesis by (simp add: decode_def read_u32_def)
next
  case False
  let ?n = "length (wr_payload r)"
  have split: "take m (frame r) =
      to_le_bytes 4 (?n + 25) @ take (m - 4) (body r @ to_le_bytes 4 (crc32 (body r)))"
    using False by (simp add: frame_def)
  have "?n + 25 < 256 ^ 4" using assms(1) by (simp add: record_ok_def)
  with read_num_at [of "reader_new (take m (frame r))" "[]" 4 "?n + 25"
      "take (m - 4) (body r @ to_le_bytes 4 (crc32 (body r)))"] at_new [of "take m (frame r)"] split
  obtain r1 where r1: "read_num 4 (reader_new (take m (frame r))) = Inr (?n + 25, r1)"
      "at r1 (to_le_bytes 4 (?n + 25)) (take (m - 4) (body r @ to_le_bytes 4 (crc32 (body r))))"
    by auto
  have "rd_remaining r1 < ?n + 25"
    using at_remaining [OF r1(2)] assms(2) False by (simp add: encoded_len_def HEADER_LEN_def)
  then show ?thesis by (simp add: decode_def read_u32_def r1(1))
qed

subsection \<open>Scanning a log\<close>

lemma replay_loop_shift: "replay_loop (pre @ bs) (length pre + k) = replay_loop bs k"
proof (induction bs k rule: replay_loop.induct)
  case (1 bs k)
  then show ?case
    by (subst (1 2) replay_loop.simps) (auto simp: add.assoc split: sum.split)
qed

lemma scan_loop_shift:
  "scan_loop (pre @ bs) (length pre + k) l = map_prod ((+) (length pre)) id (scan_loop bs k l)"
proof (induction bs k l rule: scan_loop.induct)
  case (1 bs k l)
  then show ?case
    by (subst (1 2) scan_loop.simps) (auto simp: add.assoc id_def split: sum.split)
qed

lemma replay_frames:
  assumes "\<forall>r \<in> set rs. record_ok r"
  shows "replay_loop (concat (map frame rs) @ g) 0 = rs @ replay_loop g 0"
  using assms
proof (induction rs)
  case Nil
  then show ?case by simp
next
  case (Cons r rs)
  let ?rest = "concat (map frame rs) @ g"
  have "frame r \<noteq> []" using length_frame [of r] by (auto simp: encoded_len_def)
  then have "replay_loop (frame r @ ?rest) 0 = r # replay_loop (frame r @ ?rest) (encoded_len r)"
    using Cons.prems by (subst replay_loop.simps) (simp add: decode_frame)
  also have "replay_loop (frame r @ ?rest) (encoded_len r) = replay_loop ?rest 0"
    using replay_loop_shift [of "frame r" ?rest 0] by (simp add: length_frame)
  finally show ?case using Cons by simp
qed

lemma scan_frames:
  assumes "\<forall>r \<in> set rs. record_ok r"
  shows "scan_loop (concat (map frame rs) @ g) 0 l =
    map_prod ((+) (length (concat (map frame rs)))) id
      (scan_loop g 0 (if rs = [] then l else Some (wr_lsn (last rs))))"
  using assms
proof (induction rs arbitrary: l)
  case Nil
  then show ?case by (simp add: prod.map_ident_strong)
next
  case (Cons r rs)
  let ?rest = "concat (map frame rs) @ g"
  have "frame r \<noteq> []" using length_frame [of r] by (auto simp: encoded_len_def)
  then have "scan_loop (frame r @ ?rest) 0 l = scan_loop (frame r @ ?rest) (encoded_len r) (Some (wr_lsn r))"
    using Cons.prems by (subst scan_loop.simps) (simp add: decode_frame)
  also have "\<dots> = map_prod ((+) (length (frame r))) id (scan_loop ?rest 0 (Some (wr_lsn r)))"
    using scan_loop_shift [of "frame r" ?rest 0] by (simp add: length_frame)
  also have "scan_loop ?rest 0 (Some (wr_lsn r)) = map_prod ((+) (length (concat (map frame rs)))) id
      (scan_loop g 0 (if rs = [] then Some (wr_lsn r) else Some (wr_lsn (last rs))))"
    using Cons by (simp add: id_def)
  finally show ?case by (simp add: prod.map_comp comp_def add.assoc)
qed

text \<open>The number of records whose frames lie entirely within the first \<open>m\<close> bytes.\<close>

fun intact :: "nat \<Rightarrow> wal_record list \<Rightarrow> nat" where
  "intact m [] = 0"
| "intact m (r # rs) = (if encoded_len r \<le> m then Suc (intact (m - encoded_len r) rs) else 0)"

lemma take_frames:
  assumes "\<forall>r \<in> set rs. record_ok r"
  shows "\<exists>torn. take m (concat (map frame rs)) = concat (map frame (take (intact m rs) rs)) @ torn \<and>
    (torn = [] \<or> decode torn = Inl Malformed)"
  using assms
proof (induction m rs rule: intact.induct)
  case (1 m)
  then show ?case by simp
next
  case (2 m r rs)
  show ?case
  proof (cases "encoded_len r \<le> m")
    case True
    with 2 show ?thesis by (auto simp: length_frame)
  next
    case False
    with decode_torn [of r m] 2(2) show ?thesis by (auto simp: length_frame)
  qed
qed

lemma scan_torn:
  assumes "torn = [] \<or> decode torn = Inl e"
  shows "scan_loop torn 0 l = (0, l)" and "replay_loop torn 0 = []"
  using assms by (subst scan_loop.simps; auto) (subst replay_loop.simps; use assms in auto)

subsection \<open>Appending\<close>

fun wal_step :: "wal \<Rightarrow> record_kind \<times> nat \<times> bytes \<Rightarrow> wal panics" where
  "wal_step w (kind, block_id, payload) = map_option fst (wal_append w kind block_id payload)"

fun logged :: "nat \<Rightarrow> (record_kind \<times> nat \<times> bytes) list \<Rightarrow> wal_record list" where
  "logged n [] = []"
| "logged n ((kind, block_id, payload) # ops) =
     \<lparr>wr_lsn = n, wr_kind = kind, wr_block_id = block_id, wr_payload = payload\<rparr> # logged (Suc n) ops"

definition entry_ok :: "record_kind \<times> nat \<times> bytes \<Rightarrow> bool" where
  "entry_ok e \<longleftrightarrow> (case e of (kind, block_id, payload) \<Rightarrow> block_id < 2 ^ 64 \<and> length payload + 25 < 2 ^ 32)"

lemma length_logged [simp]: "length (logged n ops) = length ops"
  by (induction n ops rule: logged.induct) simp_all

lemma logged_Nil_iff [simp]: "logged n ops = [] \<longleftrightarrow> ops = []"
  using length_logged [of n ops] by (metis length_0_conv)

lemma take_logged: "take k (logged n ops) = logged n (take k ops)"
proof (induction n ops arbitrary: k rule: logged.induct)
  case (1 n)
  then show ?case by simp
next
  case (2 n kind block_id payload ops)
  then show ?case by (cases k) simp_all
qed

lemma last_lsn_logged: "ops \<noteq> [] \<Longrightarrow> wr_lsn (last (logged n ops)) = n + length ops - 1"
proof (induction n ops rule: logged.induct)
  case (1 n)
  then show ?case by simp
next
  case (2 n kind block_id payload ops)
  then show ?case by (cases "ops = []") auto
qed

lemma logged_ok:
  assumes "\<forall>e \<in> set ops. entry_ok e" and "n + length ops \<le> 2 ^ 64"
  shows "\<forall>r \<in> set (logged n ops). record_ok r"
  using assms
  by (induction n ops rule: logged.induct) (auto simp: entry_ok_def record_ok_def)

lemma wal_append_frame:
  assumes "record_ok \<lparr>wr_lsn = wal_next_lsn w, wr_kind = kind, wr_block_id = b, wr_payload = p\<rparr>"
    and "wal_next_lsn w < 2 ^ 64 - 1"
  shows "wal_append w kind b p =
    Some (w\<lparr>wal_bytes := wal_bytes w @ frame \<lparr>wr_lsn = wal_next_lsn w, wr_kind = kind, wr_block_id = b, wr_payload = p\<rparr>,
            wal_next_lsn := Suc (wal_next_lsn w)\<rparr>, wal_next_lsn w)"
  using encode_frame [OF assms(1)] assms(2)
  by (simp add: wal_append_def Let_def checked_add_def length_frame [symmetric])

lemma run_appends:
  assumes "\<forall>e \<in> set ops. entry_ok e" and "wal_next_lsn w + length ops < 2 ^ 64"
  shows "run_ops wal_step w ops = Some \<lparr>wal_bytes = wal_bytes w @ concat (map frame (logged (wal_next_lsn w) ops)),
    wal_next_lsn = wal_next_lsn w + length ops\<rparr>"
  using assms
proof (induction ops arbitrary: w)
  case Nil
  then show ?case by simp
next
  case (Cons e ops)
  obtain k b p where e: "e = (k, b, p)" by (cases e)
  have "record_ok \<lparr>wr_lsn = wal_next_lsn w, wr_kind = k, wr_block_id = b, wr_payload = p\<rparr>"
    using Cons.prems e by (auto simp: entry_ok_def record_ok_def)
  from wal_append_frame [OF this] Cons e show ?case by simp
qed

subsection \<open>Properties\<close>

text \<open>
  Records survive the round trip through their frame: encoding a record into a buffer of its
  encoded length succeeds and fills it, and decoding the frame, whatever bytes follow it,
  returns the record and the length of the frame.
\<close>

theorem wal_record_roundtrip:
  assumes "record_ok r" and "length out = encoded_len r"
  shows "\<exists>bs. encode r out = Inr (bs, encoded_len r) \<and> length bs = encoded_len r \<and>
    decode (bs @ rest) = Inr (r, encoded_len r)"
  using encode_frame [OF assms] decode_frame [OF assms(1), of rest] length_frame by simp

theorem wal_record_roundtrip_witness:
  "\<exists>bs. encode \<lparr>wr_lsn = 7, wr_kind = PageWrite, wr_block_id = 42, wr_payload = [1, 2, 3]\<rparr> (replicate 32 0) = Inr (bs, 32) \<and>
    decode (bs @ [9]) = Inr (\<lparr>wr_lsn = 7, wr_kind = PageWrite, wr_block_id = 42, wr_payload = [1, 2, 3]\<rparr>, 32)"
  using wal_record_roundtrip [of "\<lparr>wr_lsn = 7, wr_kind = PageWrite, wr_block_id = 42, wr_payload = [1, 2, 3]\<rparr>"
      "replicate 32 0" "[9]"]
  by (auto simp: record_ok_def encoded_len_def HEADER_LEN_def)

lemma recovered_log:
  assumes "\<forall>e \<in> set ops. entry_ok e" and "length ops < 2 ^ 64" and k: "k = intact m (logged 0 ops)"
  shows "\<exists>w w'. run_ops wal_step wal_new ops = Some w \<and> run_ops wal_step wal_new (take k ops) = Some w' \<and>
    from_bytes (take m (wal_bytes w)) = Some w' \<and> replay w' = (logged 0 (take k ops), min k (length ops))"
proof -
  let ?rs = "logged 0 ops"
  let ?k = "k"
  let ?w = "\<lparr>wal_bytes = concat (map frame ?rs), wal_next_lsn = length ops\<rparr>"
  let ?w' = "\<lparr>wal_bytes = concat (map frame (logged 0 (take ?k ops))), wal_next_lsn = length (take ?k ops)\<rparr>"
  have ok: "\<forall>e \<in> set (take ?k ops). entry_ok e" using assms(1) by (meson in_set_takeD)
  have run: "run_ops wal_step wal_new ops = Some ?w"
    using run_appends [OF assms(1), of wal_new] assms(2) by (simp add: wal_new_def)
  have run': "run_ops wal_step wal_new (take ?k ops) = Some ?w'"
    using run_appends [OF ok, of wal_new] assms(2) by (simp add: wal_new_def min_def)
  have rs_ok: "\<forall>r \<in> set ?rs. record_ok r"
    using logged_ok [OF assms(1), of 0] assms(2) by simp
  then have pre_ok: "\<forall>r \<in> set (logged 0 (take ?k ops)). record_ok r"
    by (metis in_set_takeD take_logged)
  from take_frames [OF rs_ok, of m, folded k] obtain torn where
    torn: "take m (wal_bytes ?w) = concat (map frame (logged 0 (take ?k ops))) @ torn"
      "torn = [] \<or> decode torn = Inl Malformed" by (auto simp: take_logged)
  have scan: "scan_loop (take m (wal_bytes ?w)) 0 None =
      (length (wal_bytes ?w'), if take ?k ops = [] then None else Some (length (take ?k ops) - 1))"
    unfolding torn(1) scan_frames [OF pre_ok]
    using scan_torn(1) [OF torn(2)] last_lsn_logged [of "take ?k ops" 0]
    by (cases "take ?k ops = []") auto
  have "take (length (wal_bytes ?w')) (take m (wal_bytes ?w)) = wal_bytes ?w'"
    unfolding torn(1) by simp
  with scan have from_b: "from_bytes (take m (wal_bytes ?w)) = Some ?w'"
    using assms(2) by (cases "take ?k ops = []") (auto simp: from_bytes_def checked_add_def)
  have "replay ?w' = (logged 0 (take ?k ops), min ?k (length ops))"
    using replay_frames [OF pre_ok, of "[]"] scan_torn(2) [of "[]"] by (simp add: replay_def min.commute)
  with run run' from_b show ?thesis by blast
qed

text \<open>
  C12. Crash recovery yields exactly the durable prefix. Let a log be the result of a sequence of
  appends, and let a crash keep only its first \<open>m\<close> bytes. Recovering from them gives exactly
  the log that the first \<open>k\<close> appends alone would have produced, bytes and next sequence
  number alike, where \<open>k\<close> is the number of records that lie entirely within the \<open>m\<close> bytes; and
  replaying it hands out these \<open>k\<close> records, in order, with sequence numbers counting from
  zero.
\<close>

theorem wal_recovers_durable_prefix:
  assumes "\<forall>e \<in> set ops. entry_ok e" and "length ops < 2 ^ 64"
  shows "\<exists>w k. run_ops wal_step wal_new ops = Some w \<and> k = intact m (logged 0 ops) \<and>
    from_bytes (take m (wal_bytes w)) = run_ops wal_step wal_new (take k ops) \<and>
    map_option replay (from_bytes (take m (wal_bytes w))) = Some (logged 0 (take k ops), min k (length ops))"
  using recovered_log [OF assms refl, of m] by force

theorem wal_recovers_durable_prefix_witness:
  "\<exists>w. run_ops wal_step wal_new [(PageWrite, 1, [5]), (CommitMark, 0, [])] = Some w \<and>
     map_option replay (from_bytes (take 40 (wal_bytes w))) =
       Some ([\<lparr>wr_lsn = 0, wr_kind = PageWrite, wr_block_id = 1, wr_payload = [5]\<rparr>], 1)"
  using wal_recovers_durable_prefix [of "[(PageWrite, 1, [5]), (CommitMark, 0, [])]" 40]
  by (auto simp: entry_ok_def encoded_len_def HEADER_LEN_def)

end
