(* ===== verification/Storage_Engine.thy ===== *)
theory Storage_Engine
  imports Buffer_Pool Wal
begin

text \<open>
  The storage engine of \<open>tpt-archon-core\<close> (\<open>storage.rs\<close>): a buffer pool whose page writes are
  first recorded in the write-ahead log, and recovery from a persisted log.
\<close>

subsection \<open>The engine\<close>

record 'd storage_engine =
  se_pool :: "'d buffer_pool"
  se_wal :: wal

definition engine_new :: "'d \<Rightarrow> nat \<Rightarrow> 'd storage_engine panics" where
  "engine_new device capacity = do {
     pool \<leftarrow> pool_new device capacity;
     Some \<lparr>se_pool = pool, se_wal = wal_new\<rparr>
   }"

definition write_page ::
  "'d device_ops \<Rightarrow> 'd storage_engine \<Rightarrow> nat \<Rightarrow> bytes \<Rightarrow> ('d storage_engine \<times> storage_error unit_result) panics" where
  "write_page ops e block_id page =
     (if length page \<noteq> PAGE_SIZE then Some (e, Inl (ShortWrite (length page) PAGE_SIZE))
      else do {
        (w, lsn) \<leftarrow> wal_append (se_wal e) PageWrite block_id page;
        (p, r) \<leftarrow> fetch_mut ops (se_pool e) block_id;
        case r of
          Inl err \<Rightarrow> Some (e\<lparr>se_wal := w, se_pool := p\<rparr>, Inl err)
        | Inr idx \<Rightarrow> Some (e\<lparr>se_wal := w, se_pool := unpin (write_frame p idx page) block_id\<rparr>, Inr ())
      })"

definition read_page ::
  "'d device_ops \<Rightarrow> 'd storage_engine \<Rightarrow> nat \<Rightarrow> ('d storage_engine \<times> (storage_error + bytes)) panics" where
  "read_page ops e block_id = do {
     (p, r) \<leftarrow> fetch ops (se_pool e) block_id;
     Some (e\<lparr>se_pool := p\<rparr>, r)
   }"

definition engine_commit ::
  "'d device_ops \<Rightarrow> 'd storage_engine \<Rightarrow> ('d storage_engine \<times> storage_error unit_result) panics" where
  "engine_commit ops e = do {
     (w, lsn) \<leftarrow> wal_append (se_wal e) CommitMark 0 [];
     let (p, r) = flush_all ops (se_pool e);
     Some (e\<lparr>se_wal := w, se_pool := p\<rparr>, r)
   }"

definition apply_record :: "'d device_ops \<Rightarrow> 'd \<times> nat \<Rightarrow> wal_record \<Rightarrow> 'd \<times> nat" where
  "apply_record ops acc r =
     (let (d, applied) = acc
      in if wr_kind r = PageWrite \<and> length (wr_payload r) = PAGE_SIZE
         then case write_block_op ops d (wr_block_id r) (wr_payload r) of
                (d', Inr u) \<Rightarrow> (d', applied + 1)
              | (d', Inl e) \<Rightarrow> (d', applied)
         else (d, applied))"

definition engine_recover ::
  "'d device_ops \<Rightarrow> 'd storage_engine \<Rightarrow> bytes \<Rightarrow> ('d storage_engine \<times> nat) panics" where
  "engine_recover ops e log_bytes = do {
     w \<leftarrow> from_bytes log_bytes;
     let (records, n) = replay w;
     let (d, applied) = foldl (apply_record ops) (bp_device (se_pool e), 0) records;
     Some (e\<lparr>se_pool := (se_pool e)\<lparr>bp_device := d\<rparr>, se_wal := w\<rparr>, applied)
   }"

subsection \<open>Clients of the engine\<close>

datatype engine_op = EngineWrite nat bytes | EngineCommit

fun engine_call :: "'d device_ops \<Rightarrow> 'd storage_engine \<Rightarrow> engine_op \<Rightarrow> ('d storage_engine \<times> storage_error unit_result) panics" where
  "engine_call ops e (EngineWrite b page) = write_page ops e b page"
| "engine_call ops e EngineCommit = engine_commit ops e"

fun log_entry :: "engine_op \<Rightarrow> record_kind \<times> nat \<times> bytes" where
  "log_entry (EngineWrite b page) = (PageWrite, b, page)"
| "log_entry EngineCommit = (CommitMark, 0, [])"

fun write_ok_op :: "nat \<Rightarrow> engine_op \<Rightarrow> bool" where
  "write_ok_op n (EngineWrite b page) \<longleftrightarrow> b < n \<and> length page = PAGE_SIZE"
| "write_ok_op n EngineCommit \<longleftrightarrow> True"

text \<open>The array of blocks after a sequence of writes.\<close>

fun apply_ops :: "(nat \<Rightarrow> bytes) \<Rightarrow> engine_op list \<Rightarrow> (nat \<Rightarrow> bytes)" where
  "apply_ops arr [] = arr"
| "apply_ops arr (EngineWrite b page # as) = apply_ops (arr(b := page)) as"
| "apply_ops arr (EngineCommit # as) = apply_ops arr as"

fun is_write :: "engine_op \<Rightarrow> bool" where
  "is_write (EngineWrite b page) = True"
| "is_write EngineCommit = False"

definition engine_step :: "'d device_ops \<Rightarrow> 'd storage_engine \<Rightarrow> engine_op \<Rightarrow> 'd storage_engine panics" where
  "engine_step ops e a = map_option fst (engine_call ops e a)"

lemma write_ok_entry: "write_ok_op n a \<Longrightarrow> n < 2 ^ 64 \<Longrightarrow> entry_ok (log_entry a)"
  by (cases a) (auto simp: entry_ok_def PAGE_SIZE_def)

subsection \<open>Pools without pins\<close>

definition quiet :: "'d buffer_pool \<Rightarrow> bool" where
  "quiet p \<longleftrightarrow> (\<forall>f \<in> set (bp_frames p). \<not> is_pinned (pf_state f))"

lemma quiet_update:
  "quiet p \<Longrightarrow> \<not> is_pinned (pf_state f) \<Longrightarrow> quiet (p\<lparr>bp_frames := (bp_frames p)[i := f]\<rparr>)"
  unfolding quiet_def using set_update_subset_insert [of "bp_frames p" i f] by auto

lemma quiet_device [simp]: "quiet (p\<lparr>bp_device := d\<rparr>) = quiet p" "quiet (p\<lparr>bp_lru := l\<rparr>) = quiet p"
  by (simp_all add: quiet_def)

lemma evict_quiet:
  assumes "quiet p" and "evict ops p = Some (p', r)"
  shows "quiet p'"
proof -
  from assms(2) obtain v where v: "find_victim (bp_frames p) (bp_lru p) = Some v"
    by (auto simp: evict_def bind_eq_Some_conv)
  show ?thesis
  proof (cases v)
    case None
    with v assms show ?thesis by (simp add: evict_def)
  next
    case (Some i)
    let ?f = "bp_frames p ! i"
    obtain d res where d: "(if pf_state ?f = Dirty then write_block_op ops (bp_device p) (pf_block_id ?f) (pf_page ?f)
        else (bp_device p, Inr ())) = (d, res)" by (metis prod.exhaust)
    show ?thesis
    proof (cases res)
      case (Inl err)
      with v Some d assms show ?thesis by (auto simp: evict_def Let_def)
    next
      case (Inr u)
      then obtain l where "p' = (p\<lparr>bp_device := d, bp_lru := l\<rparr>)\<lparr>bp_frames :=
          (bp_frames p)[i := ?f\<lparr>pf_state := Free, pf_dirty_intent := False\<rparr>]\<rparr>"
        using v Some d assms(2) by (auto simp: evict_def Let_def)
      with quiet_update [of "p\<lparr>bp_device := d, bp_lru := l\<rparr>" "?f\<lparr>pf_state := Free, pf_dirty_intent := False\<rparr>" i] assms(1)
      show ?thesis by (simp add: is_pinned_def)
    qed
  qed
qed

lemma acquire_quiet:
  assumes "quiet p" and "acquire_frame ops p = Some (p', r)"
  shows "quiet p'"
  using assms evict_quiet [OF assms(1)]
  by (auto simp: acquire_frame_def bind_eq_Some_conv quiet_def is_pinned_def split: option.splits if_splits)

text \<open>On a quiet pool a fetch for writing, the write and the unpin leave a quiet pool.\<close>

lemma pinned_once_unpin:
  assumes "distinct (map pf_block_id (bp_frames p))" and "i < length (bp_frames p)"
    and "pf_block_id (bp_frames p ! i) = b" and "pf_state (bp_frames p ! i) = Pinned 1"
    and "\<forall>j < length (bp_frames p). j \<noteq> i \<longrightarrow> \<not> is_pinned (pf_state (bp_frames p ! j))"
  shows "quiet (unpin p b)"
proof -
  have "find_frame p b = Some i"
  proof (cases "find_frame p b")
    case None
    with assms(2,3) find_frame_keyed(2) [OF assms(1) None] show ?thesis by auto
  next
    case (Some j)
    with find_frame_keyed(1) [OF assms(1) Some] assms(1-3) have "j = i"
      by (metis length_map nth_eq_iff_index_eq nth_map)
    with Some show ?thesis by simp
  qed
  then obtain g where g: "unpin p b = p\<lparr>bp_frames := (bp_frames p)[i := g]\<rparr>" "\<not> is_pinned (pf_state g)"
    using assms(4) by (auto simp: unpin_def Let_def is_pinned_def)
  have "\<not> is_pinned (pf_state ((bp_frames p)[i := g] ! j))" if "j < length (bp_frames p)" for j
    using that g(2) assms(5) by (cases "j = i") simp_all
  with g(1) show ?thesis by (auto simp: quiet_def in_set_conv_nth)
qed

lemma flush_loop_quiet:
  "\<forall>f \<in> set (vis @ fs). \<not> is_pinned (pf_state f) \<Longrightarrow> flush_loop ops d vis fs = (d', fs', r) \<Longrightarrow>
   \<forall>f \<in> set fs'. \<not> is_pinned (pf_state f)"
proof (induction fs arbitrary: vis d)
  case Nil
  then show ?case by simp
next
  case (Cons f fs)
  let ?g = "f\<lparr>pf_dirty_intent := False, pf_state := (if pf_state f = Dirty then Clean else pf_state f)\<rparr>"
  have g: "\<not> is_pinned (pf_state ?g)" using Cons.prems(1) by (auto simp: is_pinned_def)
  show ?case
  proof (cases "needs_flush f")
    case False
    with Cons.IH [of "vis @ [f]" d] Cons.prems show ?thesis by simp
  next
    case True
    obtain d1 r1 where w: "write_block_op ops d (pf_block_id f) (pf_page f) = (d1, r1)" by (metis prod.exhaust)
    show ?thesis
    proof (cases r1)
      case (Inl x)
      with True w Cons.prems show ?thesis by auto
    next
      case (Inr u)
      with True w Cons.prems have "flush_loop ops d1 (vis @ [?g]) fs = (d', fs', r)" by simp
      from Cons.IH [OF _ this] g Cons.prems(1) show ?thesis by auto
    qed
  qed
qed

lemma flush_quiet:
  assumes "quiet p" and "flush_all ops p = (p', r)"
  shows "quiet p'"
proof -
  obtain d fs r1 where fl: "flush_loop ops (bp_device p) [] (bp_frames p) = (d, fs, r1)" by (metis prod_cases3)
  have "bp_frames p' = fs" using assms(2) fl by (auto simp: flush_all_def Let_def split: sum.splits prod.splits)
  with flush_loop_quiet [OF _ fl] assms(1) show ?thesis by (simp add: quiet_def)
qed

context block_device
begin

lemma fetch_mut_quiet:
  assumes inv: "pool_ok p" and q: "quiet p" and b: "b < count (bp_device p)"
  shows "\<exists>p1 i. fetch_mut ops p b = Some (p1, Inr i) \<and> i < length (bp_frames p1) \<and>
    pf_block_id (bp_frames p1 ! i) = b \<and> pf_state (bp_frames p1 ! i) = Pinned 1 \<and>
    (\<forall>j < length (bp_frames p1). j \<noteq> i \<longrightarrow> \<not> is_pinned (pf_state (bp_frames p1 ! j)))"
proof (cases "find_frame p b")
  case (Some i)
  have "distinct (map pf_block_id (bp_frames p))" using inv by (simp add: pool_ok_def)
  from find_frame_keyed(1) [OF this Some] have i: "i < length (bp_frames p)" "pf_block_id (bp_frames p ! i) = b" by auto
  with q have "\<not> is_pinned (pf_state (bp_frames p ! i))" by (auto simp: quiet_def)
  then have "pin_frame p i = Some (p\<lparr>bp_frames := (bp_frames p)[i := (bp_frames p ! i)\<lparr>pf_state := Pinned 1\<rparr>]\<rparr>)"
    by (cases "pf_state (bp_frames p ! i)") (simp_all add: pin_frame_def is_pinned_def)
  with Some i q show ?thesis
    by (auto simp: fetch_mut_def mark_dirty_pinned_def touch_same nth_list_update quiet_def)
next
  case None
  from load_ok [OF inv b None] show ?thesis
  proof (elim disjE exE conjE)
    fix p1 i
    assume l: "load_frame ops p b = Some (p1, Inr i)" "holds (touch p1 i) i b"
    then obtain q1 r where r: "acquire_frame ops p = Some (q1, r)"
      by (auto simp: load_frame_def bind_eq_Some_conv)
    with l(1) obtain page where a: "acquire_frame ops p = Some (q1, Inr i)"
      "p1 = q1\<lparr>bp_frames := (bp_frames q1)[i := \<lparr>pf_block_id = b, pf_page = page, pf_state = Pinned 1, pf_dirty_intent = False\<rparr>]\<rparr>"
      by (cases r; cases "read_block_op ops (bp_device q1) b page_zeroed") (auto simp: load_frame_def)
    have "quiet q1" by (rule acquire_quiet [OF q a(1)])
    with None l a(2) show ?thesis
      by (auto simp: fetch_mut_def mark_dirty_pinned_def touch_same nth_list_update quiet_def holds_def)
  next
    assume full: "bp_capacity p \<le> length (bp_frames p)" "\<forall>f \<in> set (bp_frames p). is_pinned (pf_state f)"
    moreover have "0 < bp_capacity p" using inv by (simp add: pool_ok_def)
    ultimately have "\<exists>f \<in> set (bp_frames p). is_pinned (pf_state f)" by (cases "bp_frames p") auto
    with q show ?thesis by (auto simp: quiet_def)
  qed
qed

lemma write_page_ok:
  assumes inv: "pool_ok (se_pool e)" and q: "quiet (se_pool e)"
    and b: "b < count (bp_device (se_pool e))" and page: "length page = PAGE_SIZE"
    and wal: "wal_append (se_wal e) PageWrite b page = Some (w, lsn)"
  shows "\<exists>e'. write_page ops e b page = Some (e', Inr ()) \<and> se_wal e' = w \<and>
    pool_ok (se_pool e') \<and> quiet (se_pool e') \<and> count (bp_device (se_pool e')) = count (bp_device (se_pool e)) \<and>
    (\<forall>c < count (bp_device (se_pool e)). blocks (se_pool e') c = ((blocks (se_pool e))(b := page)) c)"
proof -
  from fetch_mut_quiet [OF inv q b] obtain p1 i where
    f: "fetch_mut ops (se_pool e) b = Some (p1, Inr i)" "i < length (bp_frames p1)"
      "pf_block_id (bp_frames p1 ! i) = b" "pf_state (bp_frames p1 ! i) = Pinned 1"
      "\<forall>j < length (bp_frames p1). j \<noteq> i \<longrightarrow> \<not> is_pinned (pf_state (bp_frames p1 ! j))" by blast
  let ?p2 = "write_frame p1 i page"
  have p2: "pool_ok ?p2" "count (bp_device ?p2) = count (bp_device (se_pool e))"
    "\<forall>c < count (bp_device (se_pool e)). blocks ?p2 c = ((blocks (se_pool e))(b := page)) c"
    using fetch_mut_ok [OF inv b f(1) page] by auto
  have "quiet (unpin ?p2 b)"
    using p2(1) f by (intro pinned_once_unpin [of _ i]) (auto simp: pool_ok_def write_frame_def nth_list_update)
  with unpin_ok [OF p2(1), of b] p2 page wal f(1) show ?thesis
    by (auto simp: write_page_def same_blocks_def)
qed

lemma engine_run_ok:
  assumes "pool_ok (se_pool e)" and "quiet (se_pool e)"
    and "\<forall>a \<in> set as. write_ok_op (count (bp_device (se_pool e))) a"
    and "wal_next_lsn (se_wal e) + length as < 2 ^ 64"
    and "\<forall>b < count (bp_device (se_pool e)). arr b = blocks (se_pool e) b"
  shows "\<exists>e'. run_ops (engine_step ops) e as = Some e' \<and> pool_ok (se_pool e') \<and> quiet (se_pool e') \<and>
    count (bp_device (se_pool e')) = count (bp_device (se_pool e)) \<and>
    run_ops wal_step (se_wal e) (map log_entry as) = Some (se_wal e') \<and>
    (\<forall>b < count (bp_device (se_pool e)). blocks (se_pool e') b = apply_ops arr as b)"
  using assms
proof (induction as arbitrary: e arr)
  case Nil
  then show ?case by simp
next
  case (Cons a as)
  have cnt: "count (bp_device (se_pool e)) < 2 ^ 64"
    using Cons.prems(1) count_bound by (simp add: pool_ok_def)
  obtain k b payload where ent: "log_entry a = (k, b, payload)" by (metis prod_cases3)
  have "entry_ok (k, b, payload)" using write_ok_entry [OF _ cnt, of a] Cons.prems(3) ent by simp
  then have "record_ok \<lparr>wr_lsn = wal_next_lsn (se_wal e), wr_kind = k, wr_block_id = b, wr_payload = payload\<rparr>"
    using Cons.prems(4) by (auto simp: entry_ok_def record_ok_def)
  from wal_append_frame [OF this] Cons.prems(4) obtain w where
    w: "wal_append (se_wal e) k b payload = Some (w, wal_next_lsn (se_wal e))" "wal_next_lsn w = Suc (wal_next_lsn (se_wal e))"
    by auto
  have step: "\<exists>e1. engine_step ops e a = Some e1 \<and> se_wal e1 = w \<and> pool_ok (se_pool e1) \<and> quiet (se_pool e1) \<and>
      count (bp_device (se_pool e1)) = count (bp_device (se_pool e)) \<and>
      (\<forall>c < count (bp_device (se_pool e)). blocks (se_pool e1) c = apply_ops arr [a] c)"
  proof (cases a)
    case (EngineWrite c page)
    with ent w(1) write_page_ok [OF Cons.prems(1,2), of c page w "wal_next_lsn (se_wal e)"] Cons.prems(3,5)
    show ?thesis by (auto simp: engine_step_def)
  next
    case EngineCommit
    obtain p1 where p1: "flush_all ops (se_pool e) = (p1, Inr ())" "pool_ok p1" "same_blocks (se_pool e) p1"
      using flush_ok [OF Cons.prems(1)] by blast
    have "quiet p1" using flush_quiet [OF Cons.prems(2) p1(1)] .
    with EngineCommit ent w(1) p1 Cons.prems(5) show ?thesis
      by (auto simp: engine_step_def engine_commit_def Let_def same_blocks_def)
  qed
  then obtain e1 where e1: "engine_step ops e a = Some e1" "se_wal e1 = w" "pool_ok (se_pool e1)" "quiet (se_pool e1)"
    "count (bp_device (se_pool e1)) = count (bp_device (se_pool e))"
    "\<forall>c < count (bp_device (se_pool e)). blocks (se_pool e1) c = apply_ops arr [a] c" by blast
  have "wal_step (se_wal e) (log_entry a) = Some w" using w(1) ent by simp
  moreover have "apply_ops (apply_ops arr [a]) as = apply_ops arr (a # as)" by (cases a) simp_all
  ultimately show ?case
    using Cons.IH [OF e1(3,4), of "apply_ops arr [a]"] Cons.prems(3,4) e1 w(2) by auto
qed

end

subsection \<open>Recovery\<close>

fun record_write :: "(nat \<Rightarrow> bytes) \<Rightarrow> wal_record \<Rightarrow> (nat \<Rightarrow> bytes)" where
  "record_write arr r = (if wr_kind r = PageWrite then arr(wr_block_id r := wr_payload r) else arr)"

lemma replay_writes:
  assumes "memory_ok d" and "\<forall>a \<in> set as. write_ok_op (md_block_count d) a"
  shows "\<exists>d' n'. foldl (apply_record memory_ops) (d, n) (logged l (map log_entry as)) = (d', n') \<and>
    memory_ok d' \<and> md_block_count d' = md_block_count d \<and> n' = n + length (filter is_write as) \<and>
    memory_contents d' = apply_ops (memory_contents d) as"
  using assms
proof (induction as arbitrary: d n l)
  case Nil
  then show ?case by simp
next
  case (Cons a as)
  show ?case
  proof (cases a)
    case (EngineWrite b page)
    with Cons.prems have b: "b < block_count_op memory_ops d" "length page = BLOCK_SIZE"
      by (auto simp: memory_ops_def PAGE_SIZE_def BLOCK_SIZE_def)
    from memory.write_ok [OF Cons.prems(1) this] obtain d1 where
      d1: "write_block_op memory_ops d b page = (d1, Inr ())" "memory_ok d1"
        "md_block_count d1 = md_block_count d" "memory_contents d1 = (memory_contents d)(b := page)"
      by (auto simp: memory_ops_def)
    from Cons.IH [OF d1(2), of "n + 1" "Suc l"] Cons.prems(2) d1 b EngineWrite show ?thesis
      by (auto simp: apply_record_def PAGE_SIZE_def BLOCK_SIZE_def simp del: fun_upd_apply)
  next
    case EngineCommit
    with Cons.IH [OF Cons.prems(1), of n "Suc l"] Cons.prems(2) show ?thesis by (simp add: apply_record_def)
  qed
qed

subsection \<open>Reads keep their pins\<close>

definition loaded :: "memory_device \<Rightarrow> nat \<Rightarrow> pool_frame" where
  "loaded d b = \<lparr>pf_block_id = b, pf_page = memory_contents d b, pf_state = Pinned 1, pf_dirty_intent = False\<rparr>"

definition reading :: "memory_device \<Rightarrow> nat \<Rightarrow> nat \<Rightarrow> memory_device storage_engine" where
  "reading d capacity k = \<lparr>se_pool = \<lparr>bp_device = d, bp_capacity = capacity, bp_frames = map (loaded d) [0..<k],
     bp_lru = [0..<k]\<rparr>, se_wal = wal_new\<rparr>"

definition read_step :: "memory_device storage_engine \<Rightarrow> nat \<Rightarrow> memory_device storage_engine panics" where
  "read_step e b = map_option fst (read_page memory_ops e b)"

lemma reading_miss:
  assumes "k \<le> b"
  shows "find_frame (se_pool (reading d c k)) b = None"
    and "position (\<lambda>f. pf_state f = Free) (bp_frames (se_pool (reading d c k))) = None"
  using assms by (auto simp: find_frame_def position_None reading_def loaded_def)

lemma read_page_reading:
  assumes "memory_ok d" and "k < c" and "k < md_block_count d"
  shows "read_page memory_ops (reading d c k) k = Some (reading d c (Suc k), Inr (memory_contents d k))"
proof -
  have "read_block_op memory_ops d k page_zeroed = Inr (memory_contents d k)"
    using memory.read_ok [OF assms(1), of k page_zeroed] assms(3) by (simp add: memory_ops_def PAGE_SIZE_def BLOCK_SIZE_def)
  moreover have "position (\<lambda>i. i = k) [0..<k] = None" by (simp add: position_None)
  ultimately show ?thesis
    using reading_miss [of k k d c] assms(2)
    by (simp add: read_page_def fetch_def load_frame_def acquire_frame_def touch_def Let_def)
      (simp add: reading_def loaded_def nth_append list_update_append)
qed

lemma read_page_full:
  assumes "c \<le> b"
  shows "read_page memory_ops (reading d c c) b = Some (reading d c c, Inl AllFramesPinned)"
proof -
  have "find_victim (map (loaded d) [0..<c]) [0..<c] = Some None"
    by (rule find_victim_pinned) (auto simp: loaded_def is_pinned_def)
  then have "evict memory_ops (se_pool (reading d c c)) = Some (se_pool (reading d c c), Inr None)"
    by (simp add: evict_def reading_def)
  then show ?thesis
    using reading_miss [OF assms, of d c]
    by (simp add: read_page_def fetch_def load_frame_def acquire_frame_def) (simp add: reading_def)
qed

lemma run_reads:
  assumes "memory_ok d" and "k \<le> c" and "k \<le> md_block_count d"
  shows "run_ops read_step (reading d c 0) [0..<k] = Some (reading d c k)"
  using assms
proof (induction k)
  case 0
  then show ?case by simp
next
  case (Suc k)
  then have "read_step (reading d c k) k = Some (reading d c (Suc k))"
    using read_page_reading [of d k c] by (simp add: read_step_def)
  with Suc show ?case by (simp add: run_ops_append)
qed

subsection \<open>Properties\<close>

text \<open>
  C22. The engine implements an array of pages behind its log. From a fresh engine over an
  in-memory device, any sequence of page writes to blocks of the device and commits succeeds,
  the log holds exactly one record per operation, in order, and the blocks seen through the
  pool are the device's, overwritten by the writes in order, however small the pool is; after a
  final flush they are on the device.
\<close>

theorem engine_implements_array:
  assumes "memory_ok d" and "engine_new d capacity = Some e"
    and "\<forall>a \<in> set as. write_ok_op (md_block_count d) a" and "length as < 2 ^ 64"
  shows "\<exists>e' p. run_ops (engine_step memory_ops) e as = Some e' \<and>
    run_ops wal_step wal_new (map log_entry as) = Some (se_wal e') \<and>
    flush_all memory_ops (se_pool e') = (p, Inr ()) \<and>
    (\<forall>b < md_block_count d. memory_contents (bp_device p) b = apply_ops (memory_contents d) as b)"
proof -
  from assms(2) obtain q where q: "pool_new d capacity = Some q" "e = \<lparr>se_pool = q, se_wal = wal_new\<rparr>"
    by (auto simp: engine_new_def bind_eq_Some_conv)
  have ok: "memory.pool_ok q" "bp_device q = d" using memory.pool_new_ok [OF assms(1) q(1)] by auto
  have fr: "bp_frames q = []" using q(1) by (auto simp: pool_new_def split: if_splits)
  have bl: "memory.blocks q b = memory_contents d b" for b by (simp add: memory.blocks_def keyed_def fr ok(2))
  have cnt: "block_count_op memory_ops (bp_device (se_pool e)) = md_block_count d" by (simp add: q(2) ok(2) memory_ops_def)
  have "\<exists>e'. run_ops (engine_step memory_ops) e as = Some e' \<and> memory.pool_ok (se_pool e') \<and> quiet (se_pool e') \<and>
      block_count_op memory_ops (bp_device (se_pool e')) = block_count_op memory_ops (bp_device (se_pool e)) \<and>
      run_ops wal_step (se_wal e) (map log_entry as) = Some (se_wal e') \<and>
      (\<forall>b < block_count_op memory_ops (bp_device (se_pool e)). memory.blocks (se_pool e') b = apply_ops (memory_contents d) as b)"
    using ok(1) assms(3,4) bl by (intro memory.engine_run_ok) (simp_all add: q(2) quiet_def fr cnt ok(2) wal_new_def memory_ops_def)
  then obtain e' where e': "run_ops (engine_step memory_ops) e as = Some e'" "memory.pool_ok (se_pool e')"
    "block_count_op memory_ops (bp_device (se_pool e')) = md_block_count d"
    "run_ops wal_step wal_new (map log_entry as) = Some (se_wal e')"
    "\<forall>b < md_block_count d. memory.blocks (se_pool e') b = apply_ops (memory_contents d) as b"
    using cnt by (auto simp: q(2))
  from memory.flush_ok [OF e'(2)] e' show ?thesis by auto
qed

definition example_device :: memory_device where
  "example_device = \<lparr>md_blocks = replicate 8192 0, md_block_count = 2\<rparr>"

lemma example_device_ok: "memory_ok example_device"
  by (simp add: memory_ok_def example_device_def BLOCK_SIZE_def)

definition example_engine :: "memory_device storage_engine" where
  "example_engine = \<lparr>se_pool = \<lparr>bp_device = example_device, bp_capacity = 1, bp_frames = [], bp_lru = []\<rparr>, se_wal = wal_new\<rparr>"

lemma example_engine_new: "engine_new example_device 1 = Some example_engine"
  by (simp add: engine_new_def pool_new_def example_engine_def)

theorem engine_implements_array_witness:
  "\<exists>e' p. run_ops (engine_step memory_ops) example_engine
       [EngineWrite 0 (replicate PAGE_SIZE 7), EngineWrite 1 (replicate PAGE_SIZE 9), EngineCommit] = Some e' \<and>
     flush_all memory_ops (se_pool e') = (p, Inr ()) \<and>
     memory_contents (bp_device p) 0 = replicate PAGE_SIZE 7"
  using engine_implements_array [OF example_device_ok example_engine_new,
      of "[EngineWrite 0 (replicate PAGE_SIZE 7), EngineWrite 1 (replicate PAGE_SIZE 9), EngineCommit]"]
  by (fastforce simp: example_device_def)

text \<open>
  Recovery replays the durable prefix of the log. Let the log of an engine be that of a
  sequence of writes and commits, and let only its first \<open>m\<close> bytes survive. Recovering from
  them on any device of the same size gives the device's blocks overwritten, in order, by the
  writes among the first \<open>k\<close> operations, where \<open>k\<close> is the number of log records that survived
  whole, and reports their number. Commit records play no part: writes that no commit
  follows are replayed like all others.
\<close>

theorem engine_recovers_prefix:
  assumes "memory_ok d" and "engine_new d capacity = Some e"
    and "\<forall>a \<in> set as. write_ok_op (md_block_count d) a" and "length as < 2 ^ 64"
    and "run_ops wal_step wal_new (map log_entry as) = Some w"
  shows "\<exists>e' k. engine_recover memory_ops e (take m (wal_bytes w)) = Some (e', length (filter is_write (take k as))) \<and>
    k = intact m (logged 0 (map log_entry as)) \<and>
    (\<forall>b < md_block_count d. memory_contents (bp_device (se_pool e')) b = apply_ops (memory_contents d) (take k as) b)"
proof -
  let ?es = "map log_entry as"
  let ?k = "intact m (logged 0 ?es)"
  have "md_block_count d < 2 ^ 64" using assms(1) by (simp add: memory_ok_def BLOCK_SIZE_def)
  then have ok: "\<forall>x \<in> set ?es. entry_ok x" using assms(3) write_ok_entry by auto
  from recovered_log [OF ok _ refl, of m] assms(4,5) obtain w' where
    w': "from_bytes (take m (wal_bytes w)) = Some w'" "fst (replay w') = logged 0 (take ?k ?es)"
    by auto
  from assms(2) have dev: "bp_device (se_pool e) = d"
    by (auto simp: engine_new_def pool_new_def bind_eq_Some_conv split: if_splits)
  have "\<forall>a \<in> set (take ?k as). write_ok_op (md_block_count d) a" using assms(3) by (meson in_set_takeD)
  from replay_writes [OF assms(1) this, of 0 0] obtain d' n' where
    r: "foldl (apply_record memory_ops) (d, 0) (logged 0 (map log_entry (take ?k as))) = (d', n')"
      "n' = length (filter is_write (take ?k as))" "memory_contents d' = apply_ops (memory_contents d) (take ?k as)"
    by auto
  have "engine_recover memory_ops e (take m (wal_bytes w)) =
      Some (e\<lparr>se_pool := (se_pool e)\<lparr>bp_device := d'\<rparr>, se_wal := w'\<rparr>, n')"
    using w' r(1) dev by (auto simp: engine_recover_def Let_def take_map split: prod.splits)
  with r show ?thesis by auto
qed

theorem engine_recovers_prefix_witness:
  "\<exists>w e'. run_ops wal_step wal_new (map log_entry [EngineWrite 0 (replicate PAGE_SIZE 7)]) = Some w \<and>
     engine_recover memory_ops example_engine (wal_bytes w) = Some (e', 1) \<and>
     memory_contents (bp_device (se_pool e')) 0 = replicate PAGE_SIZE 7"
proof -
  let ?as = "[EngineWrite 0 (replicate PAGE_SIZE 7)]"
  have as: "\<forall>a \<in> set ?as. write_ok_op (md_block_count example_device) a" by (simp add: example_device_def)
  then have "\<forall>x \<in> set (map log_entry ?as). entry_ok x"
    using write_ok_entry by (auto simp: example_device_def entry_ok_def PAGE_SIZE_def)
  from run_appends [OF this, of wal_new] obtain w where
    w: "run_ops wal_step wal_new (map log_entry ?as) = Some w" "wal_bytes w = concat (map frame (logged 0 (map log_entry ?as)))"
    by (auto simp: wal_new_def)
  have "length (wal_bytes w) = 4125" using w(2) by (simp add: length_frame encoded_len_def HEADER_LEN_def PAGE_SIZE_def)
  with engine_recovers_prefix [OF example_device_ok example_engine_new as _ w(1), of 4125] w(1)
  show ?thesis by (auto simp: encoded_len_def HEADER_LEN_def PAGE_SIZE_def example_device_def)
qed

text \<open>
  Reading pages leaks pins. A fresh engine with a pool of \<open>capacity\<close> frames that has read the
  blocks \<open>0\<close> to \<open>capacity - 1\<close>, each successfully, refuses to read any other block: every read
  keeps its page pinned and the engine offers no way to release it.
\<close>

theorem read_page_exhausts_pool:
  assumes "memory_ok d" and "engine_new d capacity = Some e" and "capacity \<le> b" and "b < md_block_count d"
  shows "\<exists>e'. run_ops read_step e [0..<capacity] = Some e' \<and>
    read_page memory_ops e' b = Some (e', Inl AllFramesPinned)"
proof -
  have "e = reading d capacity 0"
    using assms(2) by (auto simp: engine_new_def pool_new_def reading_def bind_eq_Some_conv split: if_splits)
  with run_reads [OF assms(1), of capacity capacity] assms(3,4) read_page_full [OF assms(3)] show ?thesis by simp
qed

theorem read_page_exhausts_pool_witness:
  "\<exists>e'. run_ops read_step example_engine [0] = Some e' \<and>
     read_page memory_ops e' 1 = Some (e', Inl AllFramesPinned)"
  using read_page_exhausts_pool [OF example_device_ok example_engine_new, of 1] by (simp add: example_device_def)

end
