(* ===== verification/Page_Cache.thy ===== *)
theory Page_Cache
  imports Capability Buffer_Pool
begin

text \<open>
  The unified page cache: \<open>CorePageCache\<close> of \<open>tpt-archon-bridge\<close> (\<open>page_cache.rs\<close>), which gates the
  buffer pool by capabilities, the zero-copy grants on top of it (\<open>grant.rs\<close>), and the kernel's
  memory manager that forwards to it (\<open>memory.rs\<close> of \<open>tpt-archon-kernel\<close>). A borrowed page is
  its bytes for reading and its frame index for writing, as in the pool.
\<close>

datatype cache_error = CacheDenied | CacheStorage storage_error

record 'd core_page_cache =
  cpc_pool :: "'d buffer_pool"

definition map_read ::
  "'d device_ops \<Rightarrow> 'd core_page_cache \<Rightarrow> capability \<Rightarrow> nat \<Rightarrow> ('d core_page_cache \<times> (cache_error + bytes)) panics" where
  "map_read ops c cap block_id =
     (if \<not> authorizes cap (ResPage block_id) RightRead then Some (c, Inl CacheDenied)
      else do {
        (p, r) \<leftarrow> fetch ops (cpc_pool c) block_id;
        Some (c\<lparr>cpc_pool := p\<rparr>, map_err CacheStorage r)
      })"

definition map_write ::
  "'d device_ops \<Rightarrow> 'd core_page_cache \<Rightarrow> capability \<Rightarrow> nat \<Rightarrow> ('d core_page_cache \<times> (cache_error + nat)) panics" where
  "map_write ops c cap block_id =
     (if \<not> authorizes cap (ResPage block_id) RightWrite then Some (c, Inl CacheDenied)
      else do {
        (p, r) \<leftarrow> fetch_mut ops (cpc_pool c) block_id;
        Some (c\<lparr>cpc_pool := p\<rparr>, map_err CacheStorage r)
      })"

definition unmap :: "'d core_page_cache \<Rightarrow> nat \<Rightarrow> 'd core_page_cache" where
  "unmap c block_id = c\<lparr>cpc_pool := unpin (cpc_pool c) block_id\<rparr>"

definition grant_read ::
  "'d device_ops \<Rightarrow> 'd core_page_cache \<Rightarrow> capability \<Rightarrow> nat \<Rightarrow> ('d core_page_cache \<times> (cache_error + bytes)) panics" where
  "grant_read ops c cap block_id = map_read ops c cap block_id"

definition grant_write ::
  "'d device_ops \<Rightarrow> 'd core_page_cache \<Rightarrow> capability \<Rightarrow> nat \<Rightarrow> ('d core_page_cache \<times> (cache_error + nat)) panics" where
  "grant_write ops c cap block_id = map_write ops c cap block_id"

text \<open>Writing through a mutable view.\<close>

definition view_write :: "'d core_page_cache \<Rightarrow> nat \<Rightarrow> bytes \<Rightarrow> 'd core_page_cache" where
  "view_write c idx page = c\<lparr>cpc_pool := write_frame (cpc_pool c) idx page\<rparr>"

record 'd unified_memory =
  um_cache :: "'d core_page_cache"

definition um_map_read ::
  "'d device_ops \<Rightarrow> 'd unified_memory \<Rightarrow> capability \<Rightarrow> nat \<Rightarrow> ('d unified_memory \<times> (cache_error + bytes)) panics" where
  "um_map_read ops m cap block_id = map_option (\<lambda>(c, r). (m\<lparr>um_cache := c\<rparr>, r)) (map_read ops (um_cache m) cap block_id)"

definition um_map_write ::
  "'d device_ops \<Rightarrow> 'd unified_memory \<Rightarrow> capability \<Rightarrow> nat \<Rightarrow> ('d unified_memory \<times> (cache_error + nat)) panics" where
  "um_map_write ops m cap block_id = map_option (\<lambda>(c, r). (m\<lparr>um_cache := c\<rparr>, r)) (map_write ops (um_cache m) cap block_id)"

definition um_unmap :: "'d unified_memory \<Rightarrow> nat \<Rightarrow> 'd unified_memory" where
  "um_unmap m block_id = m\<lparr>um_cache := unmap (um_cache m) block_id\<rparr>"

lemma memory_count: "block_count_op memory_ops d = md_block_count d"
  by (simp add: memory_ops_def)

text \<open>A call is granted when the capability authorises it and the pool has a frame for the block.\<close>

lemma granted_read:
  "(\<exists>c' bs. grant_read ops c cap b = Some (c', Inr bs)) \<longleftrightarrow>
     authorizes cap (ResPage b) RightRead \<and> (\<exists>p bs. fetch ops (cpc_pool c) b = Some (p, Inr bs))"
  by (auto simp: grant_read_def map_read_def bind_eq_Some_conv)

lemma granted_write:
  "(\<exists>c' i. grant_write ops c cap b = Some (c', Inr i)) \<longleftrightarrow>
     authorizes cap (ResPage b) RightWrite \<and> (\<exists>p i. fetch_mut ops (cpc_pool c) b = Some (p, Inr i))"
  by (auto simp: grant_write_def map_write_def bind_eq_Some_conv)

subsection \<open>Properties\<close>

text \<open>
  C36. Pages are reached exactly through capabilities, and what is reached is the stored page. On a
  cache over an in-memory device in a consistent state, for a block of the device: a read is
  granted if and only if the capability is for that page with a reading right and the pool
  has room for the block (the block is resident and not pinned \<open>2 ^ 32 - 1\<close> times, or a frame is
  unused or not pinned), and a write likewise with a writing right; a call without the right is denied and
  changes nothing. A granted read returns the bytes of the block and changes no block; bytes
  written through a granted write view are what every later granted read of that block, with any capability,
  returns, and no other block changes.
\<close>

theorem page_access_mediated:
  assumes "memory.pool_ok (cpc_pool c)" and "b < md_block_count (bp_device (cpc_pool c))"
  shows "((\<exists>c' bs. grant_read memory_ops c cap b = Some (c', Inr bs)) \<longleftrightarrow>
        cap_resource cap = ResPage b \<and> allows_read (cap_right cap) \<and> has_room (cpc_pool c) b) \<and>
    ((\<exists>c' i. grant_write memory_ops c cap b = Some (c', Inr i)) \<longleftrightarrow>
        cap_resource cap = ResPage b \<and> allows_write (cap_right cap) \<and> has_room (cpc_pool c) b) \<and>
    (\<not> (cap_resource cap = ResPage b \<and> allows_read (cap_right cap)) \<longrightarrow>
        grant_read memory_ops c cap b = Some (c, Inl CacheDenied)) \<and>
    (\<not> (cap_resource cap = ResPage b \<and> allows_write (cap_right cap)) \<longrightarrow>
        grant_write memory_ops c cap b = Some (c, Inl CacheDenied)) \<and>
    (\<forall>c' bs. grant_read memory_ops c cap b = Some (c', Inr bs) \<longrightarrow>
        bs = memory.blocks (cpc_pool c) b \<and> memory.pool_ok (cpc_pool c') \<and>
        (\<forall>d < md_block_count (bp_device (cpc_pool c)). memory.blocks (cpc_pool c') d = memory.blocks (cpc_pool c) d)) \<and>
    (\<forall>c' i page. grant_write memory_ops c cap b = Some (c', Inr i) \<longrightarrow> length page = PAGE_SIZE \<longrightarrow>
        memory.pool_ok (cpc_pool (view_write c' i page)) \<and>
        (\<forall>d < md_block_count (bp_device (cpc_pool c)).
           memory.blocks (cpc_pool (view_write c' i page)) d = ((memory.blocks (cpc_pool c))(b := page)) d))"
proof -
  have b: "b < block_count_op memory_ops (bp_device (cpc_pool c))" using assms(2) by (simp add: memory_count)
  have reads: "bs = memory.blocks (cpc_pool c) b \<and> memory.pool_ok (cpc_pool c') \<and>
      (\<forall>d < md_block_count (bp_device (cpc_pool c)). memory.blocks (cpc_pool c') d = memory.blocks (cpc_pool c) d)"
    if "grant_read memory_ops c cap b = Some (c', Inr bs)" for c' bs
  proof -
    from that obtain p where p: "fetch memory_ops (cpc_pool c) b = Some (p, Inr bs)" "cpc_pool c' = p"
      by (auto simp: grant_read_def map_read_def bind_eq_Some_conv split: if_splits)
    from memory.fetch_ok [OF assms(1) b p(1)] p(2) show ?thesis
      by (simp add: memory.same_blocks_def memory_count)
  qed
  have writes: "memory.pool_ok (cpc_pool (view_write c' i page)) \<and>
      (\<forall>d < md_block_count (bp_device (cpc_pool c)).
         memory.blocks (cpc_pool (view_write c' i page)) d = ((memory.blocks (cpc_pool c))(b := page)) d)"
    if "grant_write memory_ops c cap b = Some (c', Inr i)" "length page = PAGE_SIZE" for c' i page
  proof -
    from that(1) obtain p where p: "fetch_mut memory_ops (cpc_pool c) b = Some (p, Inr i)" "cpc_pool c' = p"
      by (auto simp: grant_write_def map_write_def bind_eq_Some_conv split: if_splits)
    from memory.fetch_mut_ok [OF assms(1) b p(1) that(2)] p(2) show ?thesis
      by (simp add: view_write_def memory_count)
  qed
  have "(\<exists>c' bs. grant_read memory_ops c cap b = Some (c', Inr bs)) \<longleftrightarrow>
      cap_resource cap = ResPage b \<and> allows_read (cap_right cap) \<and> has_room (cpc_pool c) b"
    using granted_read [of memory_ops c cap b] memory.fetch_room(1) [OF assms(1) b] by (simp add: authorizes_def)
  moreover have "(\<exists>c' i. grant_write memory_ops c cap b = Some (c', Inr i)) \<longleftrightarrow>
      cap_resource cap = ResPage b \<and> allows_write (cap_right cap) \<and> has_room (cpc_pool c) b"
    using granted_write [of memory_ops c cap b] memory.fetch_room(2) [OF assms(1) b] by (simp add: authorizes_def)
  moreover have "\<not> (cap_resource cap = ResPage b \<and> allows_read (cap_right cap)) \<Longrightarrow> grant_read memory_ops c cap b = Some (c, Inl CacheDenied)"
    "\<not> (cap_resource cap = ResPage b \<and> allows_write (cap_right cap)) \<Longrightarrow> grant_write memory_ops c cap b = Some (c, Inl CacheDenied)"
    by (auto simp: grant_read_def map_read_def grant_write_def map_write_def authorizes_def)
  ultimately show ?thesis using reads writes by blast
qed

definition example_cache :: "memory_device core_page_cache" where
  "example_cache = \<lparr>cpc_pool = \<lparr>bp_device = \<lparr>md_blocks = replicate 8192 0, md_block_count = 2\<rparr>, bp_capacity = 1, bp_frames = [], bp_lru = []\<rparr>\<rparr>"

theorem page_access_mediated_witness:
  "(\<exists>c' i. grant_write memory_ops example_cache \<lparr>cap_serial = 0, cap_resource = ResPage 0, cap_right = RightWrite\<rparr> 0 = Some (c', Inr i)) \<and>
   grant_read memory_ops example_cache \<lparr>cap_serial = 0, cap_resource = ResPage 0, cap_right = RightWrite\<rparr> 0 = Some (example_cache, Inl CacheDenied)"
proof -
  let ?d = "\<lparr>md_blocks = replicate 8192 0, md_block_count = 2\<rparr>"
  let ?cap = "\<lparr>cap_serial = 0, cap_resource = ResPage 0, cap_right = RightWrite\<rparr>"
  have "memory_ok ?d" by (simp add: memory_ok_def BLOCK_SIZE_def)
  moreover have "pool_new ?d 1 = Some (cpc_pool example_cache)" by (simp add: pool_new_def example_cache_def)
  ultimately have "memory.pool_ok (cpc_pool example_cache)" using memory.pool_new_ok by blast
  moreover have "0 < md_block_count (bp_device (cpc_pool example_cache))" "has_room (cpc_pool example_cache) 0"
    by (simp_all add: example_cache_def has_room_def find_frame_def)
  ultimately show ?thesis using page_access_mediated [of example_cache 0 ?cap] by simp
qed

end
