(* ===== verification/Blink_Tree.thy ===== *)
theory Blink_Tree
  imports Rust_Maps Buffer_Pool
begin

text \<open>
  The B-Link tree of \<open>archon-core\<close> (\<open>btree.rs\<close>): an ordered index in an arena of nodes, with a right link and a
  high key at every node.

  The arena is a list, a node id an index into it. \<open>Vec::binary_search\<close> is modelled on sorted
  vectors without duplicates, where the documentation fixes its result: the position of the key,
  or the position where it would be inserted. Every other vector access is checked: \<open>None\<close> is a
  panic, or a descent that does not end.

  The invariant \<open>node_wf\<close> relates the arena to a tree of node ids: separators bound the subtrees,
  high keys are the upper bounds, the right link of every node is the next node of its level.
  Under it every operation returns and does what the same operation does on a sorted association list.
\<close>

subsection \<open>Vectors\<close>

definition binary_search :: "nat list \<Rightarrow> nat \<Rightarrow> nat + nat" where
  "binary_search keys key =
     (let i = length (takeWhile (\<lambda>k. k < key) keys) in
      if i < length keys \<and> keys ! i = key then Inr i else Inl i)"

subsection \<open>Nodes\<close>

definition NODE_CAPACITY :: nat where
  "NODE_CAPACITY = 64"

definition VALUE_SLOT_BYTES :: nat where
  "VALUE_SLOT_BYTES = 48"

definition NODE_HEADER_BYTES :: nat where
  "NODE_HEADER_BYTES = 1 + 2 + 8"

definition assert_node_fits_page :: "nat panics" where
  "assert_node_fits_page =
     (let per_key = 8 + VALUE_SLOT_BYTES;
          mx = NODE_HEADER_BYTES + NODE_CAPACITY * per_key
      in if mx \<le> PAGE_SIZE then Some mx else None)"

datatype bnode =
    BLeaf (bn_keys: "nat list") (bn_vals: "bytes list") (bn_right: "nat option") (bn_high: "nat option")
  | BInternal (bn_keys: "nat list") (bn_children: "nat list") (bn_right: "nat option") (bn_high: "nat option")

record blink =
  bl_nodes :: "bnode list"
  bl_root :: nat

definition blink_new :: blink where
  "blink_new = \<lparr>bl_nodes = [BLeaf [] [] None None], bl_root = 0\<rparr>"

text \<open>The right link to follow when the key is beyond the node's coverage.\<close>

definition beyond :: "nat \<Rightarrow> nat option \<Rightarrow> nat option \<Rightarrow> nat option" where
  "beyond key right high = (case high of Some hk \<Rightarrow> if hk \<le> key then right else None | None \<Rightarrow> None)"

definition child_index :: "nat list \<Rightarrow> nat \<Rightarrow> nat" where
  "child_index keys key = (case binary_search keys key of Inr i \<Rightarrow> i + 1 | Inl i \<Rightarrow> i)"

partial_function (option) blink_get_loop :: "bnode list \<Rightarrow> nat \<Rightarrow> nat \<Rightarrow> bytes option panics" where
  "blink_get_loop nodes key i =
     Option.bind (vec_get nodes i) (\<lambda>node.
       case beyond key (bn_right node) (bn_high node) of
         Some r \<Rightarrow> blink_get_loop nodes key r
       | None \<Rightarrow>
           (case node of
              BInternal keys children _ _ \<Rightarrow>
                Option.bind (vec_get children (child_index keys key)) (blink_get_loop nodes key)
            | BLeaf keys vals _ _ \<Rightarrow>
                (case binary_search keys key of
                   Inr j \<Rightarrow> Option.bind (vec_get vals j) (\<lambda>v. Some (Some v))
                 | Inl _ \<Rightarrow> Some None)))"

definition blink_get :: "blink \<Rightarrow> nat \<Rightarrow> bytes option panics" where
  "blink_get t key = blink_get_loop (bl_nodes t) key (bl_root t)"

definition blink_contains :: "blink \<Rightarrow> nat \<Rightarrow> bool panics" where
  "blink_contains t key = map_option (\<lambda>r. r \<noteq> None) (blink_get t key)"

partial_function (option) leftmost_leaf_for_loop :: "bnode list \<Rightarrow> nat \<Rightarrow> nat \<Rightarrow> nat panics" where
  "leftmost_leaf_for_loop nodes key i =
     Option.bind (vec_get nodes i) (\<lambda>node.
       case node of
         BInternal keys children _ _ \<Rightarrow>
           Option.bind (vec_get children (child_index keys key)) (leftmost_leaf_for_loop nodes key)
       | BLeaf _ _ _ _ \<Rightarrow> Some i)"

definition leftmost_leaf_for :: "blink \<Rightarrow> nat \<Rightarrow> nat panics" where
  "leftmost_leaf_for t key = leftmost_leaf_for_loop (bl_nodes t) key (bl_root t)"

text \<open>One leaf of a range scan: the pairs taken, and whether the scan is over.\<close>

fun range_leaf :: "nat \<Rightarrow> nat \<Rightarrow> nat list \<Rightarrow> bytes list \<Rightarrow> (nat \<times> bytes) list \<Rightarrow> ((nat \<times> bytes) list \<times> bool) panics" where
  "range_leaf lo hi [] vals out = Some (out, False)"
| "range_leaf lo hi (k # keys) vals out =
     (if hi \<le> k then Some (out, True)
      else if lo \<le> k
      then (case vals of [] \<Rightarrow> None | v # vs \<Rightarrow> range_leaf lo hi keys vs (out @ [(k, v)]))
      else range_leaf lo hi keys (tl vals) out)"

partial_function (option) blink_range_loop ::
    "bnode list \<Rightarrow> nat \<Rightarrow> nat \<Rightarrow> nat \<Rightarrow> (nat \<times> bytes) list \<Rightarrow> (nat \<times> bytes) list panics" where
  "blink_range_loop nodes lo hi i out =
     Option.bind (vec_get nodes i) (\<lambda>node.
       case node of
         BInternal _ _ _ _ \<Rightarrow> None
       | BLeaf keys vals right _ \<Rightarrow>
           Option.bind (range_leaf lo hi keys vals out) (\<lambda>(out', stop).
             if stop then Some out'
             else (case right of Some r \<Rightarrow> blink_range_loop nodes lo hi r out' | None \<Rightarrow> Some out')))"

definition blink_range :: "blink \<Rightarrow> nat \<Rightarrow> nat \<Rightarrow> (nat \<times> bytes) list panics" where
  "blink_range t lo hi =
     (if hi \<le> lo then Some []
      else Option.bind (leftmost_leaf_for t lo) (\<lambda>i. blink_range_loop (bl_nodes t) lo hi i []))"

partial_function (option) blink_delete_loop ::
    "bnode list \<Rightarrow> nat \<Rightarrow> nat \<Rightarrow> (bnode list \<times> bytes option) panics" where
  "blink_delete_loop nodes key i =
     Option.bind (vec_get nodes i) (\<lambda>node.
       case beyond key (bn_right node) (bn_high node) of
         Some r \<Rightarrow> blink_delete_loop nodes key r
       | None \<Rightarrow>
           (case node of
              BInternal keys children _ _ \<Rightarrow>
                Option.bind (vec_get children (child_index keys key)) (blink_delete_loop nodes key)
            | BLeaf keys vals right high \<Rightarrow>
                (case binary_search keys key of
                   Inr j \<Rightarrow>
                     Option.bind (vec_remove j keys) (\<lambda>(_, keys').
                       Option.bind (vec_remove j vals) (\<lambda>(v, vals').
                         Some (nodes[i := BLeaf keys' vals' right high], Some v)))
                 | Inl _ \<Rightarrow> Some (nodes, None))))"

definition blink_delete :: "blink \<Rightarrow> nat \<Rightarrow> (blink \<times> bytes option) panics" where
  "blink_delete t key =
     Option.bind (blink_delete_loop (bl_nodes t) key (bl_root t))
       (\<lambda>(nodes, r). Some (t\<lparr>bl_nodes := nodes\<rparr>, r))"

definition split_mid :: nat where
  "split_mid = (NODE_CAPACITY + 1) div 2"

definition split_leaf :: "bnode list \<Rightarrow> nat \<Rightarrow> (bnode list \<times> nat \<times> nat) panics" where
  "split_leaf nodes i =
     Option.bind (vec_get nodes i) (\<lambda>node.
       case node of
         BInternal _ _ _ _ \<Rightarrow> None
       | BLeaf keys vals right high \<Rightarrow> do {
           (l_keys, r_keys) \<leftarrow> vec_split_off split_mid keys;
           (l_vals, r_vals) \<leftarrow> vec_split_off split_mid vals;
           sep \<leftarrow> vec_get r_keys 0;
           let new_id = length nodes;
           Some (nodes[i := BLeaf l_keys l_vals (Some new_id) (Some sep)] @ [BLeaf r_keys r_vals right high], sep, new_id)
         })"

definition split_internal :: "bnode list \<Rightarrow> nat \<Rightarrow> (bnode list \<times> nat \<times> nat) panics" where
  "split_internal nodes i =
     Option.bind (vec_get nodes i) (\<lambda>node.
       case node of
         BLeaf _ _ _ _ \<Rightarrow> None
       | BInternal keys children right high \<Rightarrow> do {
           sep \<leftarrow> vec_get keys split_mid;
           (l_keys, r_keys) \<leftarrow> vec_split_off (split_mid + 1) keys;
           (l_children, r_children) \<leftarrow> vec_split_off (split_mid + 1) children;
           let new_id = length nodes;
           Some (nodes[i := BInternal (butlast l_keys) l_children (Some new_id) (Some sep)]
                   @ [BInternal r_keys r_children right high], sep, new_id)
         })"

partial_function (option) insert_rec ::
    "bnode list \<Rightarrow> nat \<Rightarrow> nat \<Rightarrow> bytes \<Rightarrow> (bnode list \<times> (nat \<times> nat) option) panics" where
  "insert_rec nodes i key v =
     Option.bind (vec_get nodes i) (\<lambda>node.
       case node of
         BLeaf keys vals right high \<Rightarrow>
           (case binary_search keys key of
              Inr j \<Rightarrow>
                (if j < length vals then Some (nodes[i := BLeaf keys (vals[j := v]) right high], None) else None)
            | Inl j \<Rightarrow>
                Option.bind (vec_insert j key keys) (\<lambda>keys'.
                  Option.bind (vec_insert j v vals) (\<lambda>vals'.
                    let nodes' = nodes[i := BLeaf keys' vals' right high] in
                    if NODE_CAPACITY < length keys'
                    then Option.bind (split_leaf nodes' i) (\<lambda>(nodes'', s). Some (nodes'', Some s))
                    else Some (nodes', None))))
       | BInternal keys children _ _ \<Rightarrow>
           Option.bind (vec_get children (child_index keys key)) (\<lambda>child.
             Option.bind (insert_rec nodes child key v) (\<lambda>(nodes1, split).
               case split of
                 None \<Rightarrow> Some (nodes1, None)
               | Some (sep, right_id) \<Rightarrow>
                   Option.bind (vec_get nodes1 i) (\<lambda>node1.
                     case node1 of
                       BLeaf _ _ _ _ \<Rightarrow> Some (nodes1, None)
                     | BInternal keys1 children1 right1 high1 \<Rightarrow>
                         let pos = (case binary_search keys1 sep of Inr j \<Rightarrow> j | Inl j \<Rightarrow> j) in
                         Option.bind (vec_insert pos sep keys1) (\<lambda>keys2.
                           Option.bind (vec_insert (pos + 1) right_id children1) (\<lambda>children2.
                             let nodes2 = nodes1[i := BInternal keys2 children2 right1 high1] in
                             if NODE_CAPACITY < length keys2
                             then Option.bind (split_internal nodes2 i) (\<lambda>(nodes3, s). Some (nodes3, Some s))
                             else Some (nodes2, None)))))))"

definition blink_insert :: "blink \<Rightarrow> nat \<Rightarrow> bytes \<Rightarrow> blink panics" where
  "blink_insert t key v =
     Option.bind (insert_rec (bl_nodes t) (bl_root t) key v) (\<lambda>(nodes, split).
       case split of
         None \<Rightarrow> Some (t\<lparr>bl_nodes := nodes\<rparr>)
       | Some (sep, right_id) \<Rightarrow>
           Some \<lparr>bl_nodes = nodes @ [BInternal [sep] [bl_root t, right_id] None None], bl_root = length nodes\<rparr>)"

partial_function (option) leftmost_leaf_loop :: "bnode list \<Rightarrow> nat \<Rightarrow> nat panics" where
  "leftmost_leaf_loop nodes i =
     Option.bind (vec_get nodes i) (\<lambda>node.
       case node of
         BInternal _ children _ _ \<Rightarrow> Option.bind (vec_get children 0) (leftmost_leaf_loop nodes)
       | BLeaf _ _ _ _ \<Rightarrow> Some i)"

partial_function (option) blink_len_loop :: "bnode list \<Rightarrow> nat \<Rightarrow> nat \<Rightarrow> nat panics" where
  "blink_len_loop nodes i n =
     Option.bind (vec_get nodes i) (\<lambda>node.
       case node of
         BInternal _ _ _ _ \<Rightarrow> None
       | BLeaf keys _ right _ \<Rightarrow>
           (case right of Some r \<Rightarrow> blink_len_loop nodes r (n + length keys) | None \<Rightarrow> Some (n + length keys)))"

definition blink_len :: "blink \<Rightarrow> nat panics" where
  "blink_len t =
     Option.bind (leftmost_leaf_loop (bl_nodes t) (bl_root t)) (\<lambda>i. blink_len_loop (bl_nodes t) i 0)"

definition blink_is_empty :: "blink \<Rightarrow> bool panics" where
  "blink_is_empty t = map_option (\<lambda>n. n = 0) (blink_len t)"

subsection \<open>The tree in the arena\<close>

datatype shape = SLeaf nat | SNode nat "shape list"

fun sid :: "shape \<Rightarrow> nat" where
  "sid (SLeaf i) = i"
| "sid (SNode i _) = i"

fun ids :: "shape \<Rightarrow> nat list" where
  "ids (SLeaf i) = [i]"
| "ids (SNode i cs) = i # concat (map ids cs)"

fun leaves :: "shape \<Rightarrow> nat list" where
  "leaves (SLeaf i) = [i]"
| "leaves (SNode i cs) = concat (map leaves cs)"

text \<open>The leftmost node of every level.\<close>

fun spine :: "shape \<Rightarrow> nat list" where
  "spine (SLeaf i) = [i]"
| "spine (SNode i []) = [i]"
| "spine (SNode i (c # cs)) = i # spine c"

definition leaf_entries :: "bnode list \<Rightarrow> nat \<Rightarrow> (nat \<times> bytes) list" where
  "leaf_entries nodes i = zip (bn_keys (nodes ! i)) (bn_vals (nodes ! i))"

definition entries :: "bnode list \<Rightarrow> shape \<Rightarrow> (nat \<times> bytes) list" where
  "entries nodes s = concat (map (leaf_entries nodes) (leaves s))"

definition lo_le :: "nat option \<Rightarrow> nat \<Rightarrow> bool" where
  "lo_le lo k \<longleftrightarrow> (case lo of None \<Rightarrow> True | Some l \<Rightarrow> l \<le> k)"

definition lo_less :: "nat option \<Rightarrow> nat \<Rightarrow> bool" where
  "lo_less lo k \<longleftrightarrow> (case lo of None \<Rightarrow> True | Some l \<Rightarrow> l < k)"

definition less_hi :: "nat \<Rightarrow> nat option \<Rightarrow> bool" where
  "less_hi k hi \<longleftrightarrow> (case hi of None \<Rightarrow> True | Some h \<Rightarrow> k < h)"

text \<open>
  The children \<open>cs\<close> of a node with separators \<open>ks\<close>, between \<open>lo\<close> and \<open>hi\<close>: \<open>P\<close> holds of each with its bounds
  and with the right neighbours of its levels, the left spine of the next child.
\<close>

fun siblings ::
    "(shape \<Rightarrow> nat option \<Rightarrow> nat option \<Rightarrow> nat option list \<Rightarrow> bool) \<Rightarrow>
     shape list \<Rightarrow> nat list \<Rightarrow> nat option \<Rightarrow> nat option \<Rightarrow> nat option list \<Rightarrow> bool" where
  "siblings P [c] [] lo hi outs \<longleftrightarrow> P c lo hi outs"
| "siblings P (c # d # cs) (k # ks) lo hi outs \<longleftrightarrow>
     lo_less lo k \<and> less_hi k hi \<and> P c lo (Some k) (map Some (spine d)) \<and> siblings P (d # cs) ks (Some k) hi outs"
| "siblings P _ _ lo hi outs \<longleftrightarrow> False"

fun node_wf :: "bnode list \<Rightarrow> nat \<Rightarrow> shape \<Rightarrow> nat option \<Rightarrow> nat option \<Rightarrow> nat option list \<Rightarrow> bool" where
  "node_wf nodes 0 s lo hi outs \<longleftrightarrow>
     (\<exists>i keys vals right. s = SLeaf i \<and> i < length nodes \<and> nodes ! i = BLeaf keys vals right hi \<and> outs = [right] \<and>
        length keys = length vals \<and> sorted_wrt (<) keys \<and> (\<forall>k \<in> set keys. lo_le lo k \<and> less_hi k hi) \<and>
        length keys \<le> NODE_CAPACITY)"
| "node_wf nodes (Suc h) s lo hi outs \<longleftrightarrow>
     (\<exists>i keys cs right os. s = SNode i cs \<and> i < length nodes \<and> nodes ! i = BInternal keys (map sid cs) right hi \<and>
        outs = right # os \<and> length keys \<le> NODE_CAPACITY \<and> siblings (node_wf nodes h) cs keys lo hi os)"

text \<open>The invariant of a tree, with the shape \<open>s\<close> of height \<open>h\<close>.\<close>

definition blink_repr :: "blink \<Rightarrow> nat \<Rightarrow> shape \<Rightarrow> bool" where
  "blink_repr t h s \<longleftrightarrow>
     sid s = bl_root t \<and> distinct (ids s) \<and> node_wf (bl_nodes t) h s None None (replicate (Suc h) None)"

subsection \<open>Searching a node\<close>

lemma binary_search_Inr:
  assumes "binary_search keys key = Inr j"
  shows "j < length keys" and "keys ! j = key" and "j = length (takeWhile (\<lambda>k. k < key) keys)"
  using assms by (auto simp: binary_search_def Let_def split: if_splits)

lemma binary_search_Inl:
  assumes "binary_search keys key = Inl j" and "sorted_wrt (<) keys"
  shows "j = length (takeWhile (\<lambda>k. k < key) keys)" and "key \<notin> set keys"
proof -
  let ?n = "length (takeWhile (\<lambda>k. k < key) keys)"
  from assms(1) show j: "j = ?n" by (auto simp: binary_search_def Let_def split: if_splits)
  from assms(1) j have nth: "?n < length keys \<Longrightarrow> keys ! ?n \<noteq> key"
    by (auto simp: binary_search_def Let_def split: if_splits)
  show "key \<notin> set keys"
  proof
    assume "key \<in> set keys"
    then obtain m where m: "m < length keys" "keys ! m = key" by (auto simp: in_set_conv_nth)
    have "\<not> m < ?n" using m nth_length_takeWhile set_takeWhileD [of "keys ! m" "\<lambda>k. k < key" keys]
      by (metis nth_mem takeWhile_nth less_irrefl)
    then have "?n < length keys" "?n \<le> m" using m by auto
    moreover have "\<not> keys ! ?n < key" by (rule nth_length_takeWhile) (use \<open>?n < length keys\<close> in simp)
    ultimately have "key < keys ! ?n" using nth by simp
    moreover have "keys ! ?n \<le> keys ! m"
      using \<open>?n \<le> m\<close> m(1) sorted_wrt_nth_less [OF assms(2), of ?n m] by (cases "?n = m") auto
    ultimately show False using m(2) by simp
  qed
qed

lemma child_index_Cons:
  assumes "sorted_wrt (<) (k # ks)"
  shows "child_index (k # ks) key = (if k \<le> key then Suc (child_index ks key) else 0)"
proof -
  have "key = k \<Longrightarrow> takeWhile (\<lambda>j. j < key) ks = []"
    using assms by (cases ks) auto
  moreover have "key = k \<Longrightarrow> ks \<noteq> [] \<Longrightarrow> ks ! 0 \<noteq> key" using assms by (cases ks) auto
  ultimately show ?thesis
    by (auto simp: child_index_def binary_search_def Let_def split: sum.splits)
qed

lemma child_index_Nil [simp]: "child_index [] key = 0"
  by (simp add: child_index_def binary_search_def)

subsection \<open>Siblings\<close>

lemma bounds_trans:
  "lo_less lo k \<Longrightarrow> k \<le> j \<Longrightarrow> lo_less lo j" "lo_le lo k \<Longrightarrow> k < j \<Longrightarrow> lo_less lo j"
  "lo_less lo k \<Longrightarrow> lo_le lo k" "lo_le lo k \<Longrightarrow> k \<le> j \<Longrightarrow> lo_le lo j"
  "less_hi k hi \<Longrightarrow> j \<le> k \<Longrightarrow> less_hi j hi"
  by (auto simp: lo_less_def lo_le_def less_hi_def split: option.splits)

lemma bound_simps [simp]:
  "lo_le None k" "lo_less None k" "less_hi k None"
  "lo_le (Some l) k \<longleftrightarrow> l \<le> k" "lo_less (Some l) k \<longleftrightarrow> l < k" "less_hi k (Some h) \<longleftrightarrow> k < h"
  by (auto simp: lo_less_def lo_le_def less_hi_def)

lemma siblings_keys:
  "siblings P cs ks lo hi outs \<Longrightarrow>
     length cs = Suc (length ks) \<and> sorted_wrt (<) ks \<and> (\<forall>k \<in> set ks. lo_less lo k \<and> less_hi k hi)"
  by (induction P cs ks lo hi outs rule: siblings.induct) (auto intro: bounds_trans)

lemma siblings_mono:
  "siblings P cs ks lo hi outs \<Longrightarrow> (\<And>c l u os. c \<in> set cs \<Longrightarrow> P c l u os \<Longrightarrow> P' c l u os) \<Longrightarrow>
     siblings P' cs ks lo hi outs"
  by (induction P cs ks lo hi outs rule: siblings.induct) auto

lemma siblings_member:
  "siblings P cs ks lo hi outs \<Longrightarrow> c \<in> set cs \<Longrightarrow> \<exists>l u os. P c l u os"
  by (induction P cs ks lo hi outs rule: siblings.induct) auto

text \<open>
  The child that covers a key, and what replacing or splitting it leaves of the siblings. \<open>e\<close> is any
  view of a child whose keys lie within its bounds.
\<close>

definition keys_in :: "nat option \<Rightarrow> nat option \<Rightarrow> (nat \<times> 'v) list \<Rightarrow> bool" where
  "keys_in lo hi m \<longleftrightarrow> sorted_wrt (<) (map fst m) \<and> (\<forall>k \<in> set (map fst m). lo_le lo k \<and> less_hi k hi)"

definition covers :: "nat \<Rightarrow> nat option \<Rightarrow> nat option \<Rightarrow> bool" where
  "covers key l u \<longleftrightarrow> lo_le l key \<and> less_hi key u"

lemma siblings_view:
  assumes "siblings P cs ks lo hi outs" and "\<And>c l u os. c \<in> set cs \<Longrightarrow> P c l u os \<Longrightarrow> keys_in l u (e c)"
  shows "keys_in lo hi (concat (map e cs))"
  using assms
proof (induction P cs ks lo hi outs rule: siblings.induct)
  case (2 P c d cs k ks lo hi outs)
  then have tl: "keys_in (Some k) hi (concat (map e (d # cs)))" by auto
  from 2 have hd: "keys_in lo (Some k) (e c)" by auto
  from 2(2) have k: "lo_less lo k" "less_hi k hi" by auto
  have "\<forall>a \<in> set (map fst (e c)). \<forall>b \<in> set (map fst (concat (map e (d # cs)))). a < b"
    using hd tl unfolding keys_in_def by (meson bound_simps(4,6) less_le_trans)
  moreover have "\<forall>a \<in> set (map fst (e c)). less_hi a hi"
    using hd k(2) unfolding keys_in_def by (meson bound_simps(6) bounds_trans(5) less_imp_le)
  moreover have "\<forall>a \<in> set (map fst (concat (map e (d # cs)))). lo_le lo a"
    using tl k(1) unfolding keys_in_def by (meson bound_simps(4) bounds_trans(3,4))
  moreover have "concat (map e (c # d # cs)) = e c @ concat (map e (d # cs))" by simp
  ultimately show ?case using hd tl unfolding keys_in_def
    by (simp only: map_append sorted_wrt_append set_append Un_iff) blast
qed auto

lemma siblings_child:
  assumes "siblings P cs ks lo hi outs" and "covers key lo hi"
    and "\<And>c l u os. c \<in> set cs \<Longrightarrow> P c l u os \<Longrightarrow> keys_in l u (e c)"
  obtains cs1 c cs2 l u os where "cs = cs1 @ c # cs2" and "length cs1 = child_index ks key"
    and "P c l u os" and "covers key l u"
    and "\<forall>k \<in> set (map fst (concat (map e cs1))). k < key"
    and "\<forall>k \<in> set (map fst (concat (map e cs2))). key < k"
    and "\<And>P' c'. (\<And>d l u os. d \<in> set cs1 \<union> set cs2 \<Longrightarrow> P d l u os \<Longrightarrow> P' d l u os) \<Longrightarrow> P' c' l u os \<Longrightarrow>
           spine c' = spine c \<Longrightarrow> siblings P' (cs1 @ c' # cs2) ks lo hi outs"
    and "\<And>P' c1 c2 sep. (\<And>d l u os. d \<in> set cs1 \<union> set cs2 \<Longrightarrow> P d l u os \<Longrightarrow> P' d l u os) \<Longrightarrow>
           P' c1 l (Some sep) (map Some (spine c2)) \<Longrightarrow> P' c2 (Some sep) u os \<Longrightarrow> spine c1 = spine c \<Longrightarrow>
           lo_less l sep \<Longrightarrow> less_hi sep u \<Longrightarrow>
           siblings P' (cs1 @ c1 # c2 # cs2) (take (length cs1) ks @ sep # drop (length cs1) ks) lo hi outs \<and>
           binary_search ks sep = Inl (length cs1)"
  using assms
proof (induction P cs ks lo hi outs arbitrary: thesis rule: siblings.induct)
  case (1 P c lo hi outs)
  from "1.prems"(2,3) show ?case
    by (intro "1.prems"(1) [of "[]" c "[]" lo hi outs]) (auto simp: binary_search_def)
next
  case (2 P c d cs k ks lo hi outs)
  from "2.prems"(2) have k: "lo_less lo k" "less_hi k hi" and c: "P c lo (Some k) (map Some (spine d))"
    and rest: "siblings P (d # cs) ks (Some k) hi outs" by auto
  have sorted: "sorted_wrt (<) (k # ks)" using siblings_keys [OF "2.prems"(2)] by blast
  show ?case
  proof (cases "k \<le> key")
    case False
    have post: "\<forall>j \<in> set (map fst (concat (map e (d # cs)))). key < j"
      using siblings_view [OF rest, of e] "2.prems"(4) False
      unfolding keys_in_def by (metis bound_simps(4) insert_iff leD leI less_le_trans list.simps(15))
    show ?thesis
    proof (rule "2.prems"(1) [of "[]" c "d # cs" lo "Some k" "map Some (spine d)"])
      show "length [] = child_index (k # ks) key" using False child_index_Cons [OF sorted, of key] by simp
      show "covers key lo (Some k)" using "2.prems"(3) False by (simp add: covers_def)
      show "siblings P' ([] @ c' # d # cs) (k # ks) lo hi outs"
        if "\<And>d' l u os. d' \<in> set [] \<union> set (d # cs) \<Longrightarrow> P d' l u os \<Longrightarrow> P' d' l u os" "P' c' lo (Some k) (map Some (spine d))"
        for P' c'
        using that k siblings_mono [OF rest, of P'] by simp
      show "siblings P' ([] @ c1 # c2 # d # cs) (take (length []) (k # ks) @ sep # drop (length []) (k # ks)) lo hi outs \<and>
          binary_search (k # ks) sep = Inl (length [])"
        if "\<And>d' l u os. d' \<in> set [] \<union> set (d # cs) \<Longrightarrow> P d' l u os \<Longrightarrow> P' d' l u os"
          "P' c1 lo (Some sep) (map Some (spine c2))" "P' c2 (Some sep) (Some k) (map Some (spine d))"
          "lo_less lo sep" "less_hi sep (Some k)" for P' c1 c2 sep
        using that k siblings_mono [OF rest, of P'] bounds_trans(5) [OF k(2), of sep]
        by (simp add: binary_search_def)
    qed (use c post in simp_all)
  next
    case True
    show ?thesis
    proof (rule "2.IH" [OF _ rest])
      show "covers key (Some k) hi" using "2.prems"(3) True by (simp add: covers_def)
      show "keys_in l u (e c')" if "c' \<in> set (d # cs)" "P c' l u os" for c' l u os
        using "2.prems"(4) that by auto
    next
      fix cs1 c' cs2 l u os
      assume eq: "d # cs = cs1 @ c' # cs2" and len: "length cs1 = child_index ks key" and P: "P c' l u os"
        and cov: "covers key l u" and pre: "\<forall>k \<in> set (map fst (concat (map e cs1))). k < key"
        and post: "\<forall>k \<in> set (map fst (concat (map e cs2))). key < k"
        and rep: "\<And>P' c''. (\<And>d l u os. d \<in> set cs1 \<union> set cs2 \<Longrightarrow> P d l u os \<Longrightarrow> P' d l u os) \<Longrightarrow> P' c'' l u os \<Longrightarrow>
           spine c'' = spine c' \<Longrightarrow> siblings P' (cs1 @ c'' # cs2) ks (Some k) hi outs"
        and spl: "\<And>P' c1 c2 sep. (\<And>d l u os. d \<in> set cs1 \<union> set cs2 \<Longrightarrow> P d l u os \<Longrightarrow> P' d l u os) \<Longrightarrow>
           P' c1 l (Some sep) (map Some (spine c2)) \<Longrightarrow> P' c2 (Some sep) u os \<Longrightarrow> spine c1 = spine c' \<Longrightarrow>
           lo_less l sep \<Longrightarrow> less_hi sep u \<Longrightarrow>
           siblings P' (cs1 @ c1 # c2 # cs2) (take (length cs1) ks @ sep # drop (length cs1) ks) (Some k) hi outs \<and>
           binary_search ks sep = Inl (length cs1)"
      have hd: "\<exists>y ys. cs1 @ x # zs = y # ys \<and> spine y = spine d" if "spine x = spine c'" for x zs
        using eq that by (cases cs1) auto
      have pre_c: "\<forall>j \<in> set (map fst (e c)). j < key"
        using "2.prems"(4) [OF _ c] True unfolding keys_in_def
        by (metis bound_simps(6) less_le_trans list.set_intros(1))
      show ?thesis
      proof (rule "2.prems"(1) [of "c # cs1" c' cs2 l u os])
        show "length (c # cs1) = child_index (k # ks) key"
          using len True child_index_Cons [OF sorted, of key] by simp
        show "siblings P' ((c # cs1) @ c'' # cs2) (k # ks) lo hi outs"
          if "\<And>d l u os. d \<in> set (c # cs1) \<union> set cs2 \<Longrightarrow> P d l u os \<Longrightarrow> P' d l u os" "P' c'' l u os" "spine c'' = spine c'"
          for P' c''
        proof -
          have "siblings P' (cs1 @ c'' # cs2) ks (Some k) hi outs" by (rule rep) (use that in auto)
          moreover have "P' c lo (Some k) (map Some (spine d))" using that(1) [OF _ c] by simp
          ultimately show ?thesis using hd [OF that(3), of cs2] k by (metis append_Cons siblings.simps(2))
        qed
        show "siblings P' ((c # cs1) @ c1 # c2 # cs2)
            (take (length (c # cs1)) (k # ks) @ sep # drop (length (c # cs1)) (k # ks)) lo hi outs \<and>
          binary_search (k # ks) sep = Inl (length (c # cs1))"
          if "\<And>d l u os. d \<in> set (c # cs1) \<union> set cs2 \<Longrightarrow> P d l u os \<Longrightarrow> P' d l u os"
            "P' c1 l (Some sep) (map Some (spine c2))" "P' c2 (Some sep) u os" "spine c1 = spine c'"
            "lo_less l sep" "less_hi sep u" for P' c1 c2 sep
        proof -
          have *: "siblings P' (cs1 @ c1 # c2 # cs2) (take (length cs1) ks @ sep # drop (length cs1) ks) (Some k) hi outs \<and>
             binary_search ks sep = Inl (length cs1)" by (rule spl) (use that in auto)
          moreover have "P' c lo (Some k) (map Some (spine d))" using that(1) [OF _ c] by simp
          ultimately have sib: "siblings P' (c # cs1 @ c1 # c2 # cs2) (k # take (length cs1) ks @ sep # drop (length cs1) ks) lo hi outs"
            using hd [OF that(4), of "c2 # cs2"] k by (metis siblings.simps(2))
          have "k < sep" using siblings_keys * by fastforce
          then have "binary_search (k # ks) sep = Inl (Suc (length cs1))"
            using * by (auto simp: binary_search_def Let_def split: if_splits)
          with sib show ?thesis by simp
        qed
      qed (use eq P cov pre post pre_c in auto)
    qed
  qed
qed auto

text \<open>The same, with the two rules as one relation.\<close>

definition hole ::
    "(shape \<Rightarrow> nat option \<Rightarrow> nat option \<Rightarrow> nat option list \<Rightarrow> bool) \<Rightarrow> shape list \<Rightarrow> shape \<Rightarrow> shape list \<Rightarrow>
     nat list \<Rightarrow> nat option \<Rightarrow> nat option \<Rightarrow> nat option list \<Rightarrow> nat option \<Rightarrow> nat option \<Rightarrow> nat option list \<Rightarrow> bool" where
  "hole P cs1 c cs2 ks lo hi outs l u os \<longleftrightarrow>
     (\<forall>P'. (\<forall>d \<in> set cs1 \<union> set cs2. \<forall>l u os. P d l u os \<longrightarrow> P' d l u os) \<longrightarrow>
        (\<forall>c'. P' c' l u os \<longrightarrow> spine c' = spine c \<longrightarrow> siblings P' (cs1 @ c' # cs2) ks lo hi outs) \<and>
        (\<forall>c1 c2 sep. P' c1 l (Some sep) (map Some (spine c2)) \<longrightarrow> P' c2 (Some sep) u os \<longrightarrow> spine c1 = spine c \<longrightarrow>
           lo_less l sep \<longrightarrow> less_hi sep u \<longrightarrow>
           siblings P' (cs1 @ c1 # c2 # cs2) (take (length cs1) ks @ sep # drop (length cs1) ks) lo hi outs \<and>
           binary_search ks sep = Inl (length cs1)))"

lemma siblings_hole:
  assumes "siblings P cs ks lo hi outs" and "covers key lo hi"
    and "\<And>c l u os. c \<in> set cs \<Longrightarrow> P c l u os \<Longrightarrow> keys_in l u (e c)"
  shows "\<exists>cs1 c cs2 l u os. cs = cs1 @ c # cs2 \<and> length cs1 = child_index ks key \<and> P c l u os \<and> covers key l u \<and>
    (\<forall>k \<in> set (map fst (concat (map e cs1))). k < key) \<and> (\<forall>k \<in> set (map fst (concat (map e cs2))). key < k) \<and>
    hole P cs1 c cs2 ks lo hi outs l u os"
proof (rule siblings_child [OF assms], assumption)
  fix cs1 c cs2 l u os
  assume *: "cs = cs1 @ c # cs2" "length cs1 = child_index ks key" "P c l u os" "covers key l u"
    "\<forall>k \<in> set (map fst (concat (map e cs1))). k < key" "\<forall>k \<in> set (map fst (concat (map e cs2))). key < k"
    and rep: "\<And>P' c'. (\<And>d l u os. d \<in> set cs1 \<union> set cs2 \<Longrightarrow> P d l u os \<Longrightarrow> P' d l u os) \<Longrightarrow> P' c' l u os \<Longrightarrow>
           spine c' = spine c \<Longrightarrow> siblings P' (cs1 @ c' # cs2) ks lo hi outs"
    and spl: "\<And>P' c1 c2 sep. (\<And>d l u os. d \<in> set cs1 \<union> set cs2 \<Longrightarrow> P d l u os \<Longrightarrow> P' d l u os) \<Longrightarrow>
           P' c1 l (Some sep) (map Some (spine c2)) \<Longrightarrow> P' c2 (Some sep) u os \<Longrightarrow> spine c1 = spine c \<Longrightarrow>
           lo_less l sep \<Longrightarrow> less_hi sep u \<Longrightarrow>
           siblings P' (cs1 @ c1 # c2 # cs2) (take (length cs1) ks @ sep # drop (length cs1) ks) lo hi outs \<and>
           binary_search ks sep = Inl (length cs1)"
  have "hole P cs1 c cs2 ks lo hi outs l u os"
    unfolding hole_def by (intro allI impI conjI rep conjunct1 [OF spl] conjunct2 [OF spl]) simp_all
  with * show ?thesis by blast
qed

subsection \<open>Frames and views\<close>

lemma leaves_subset: "set (leaves s) \<subseteq> set (ids s)"
  by (induction s) auto

lemma sid_in_ids: "sid s \<in> set (ids s)"
  by (cases s) auto

lemma node_wf_ids: "node_wf nodes h s lo hi outs \<Longrightarrow> set (ids s) \<subseteq> {..<length nodes}"
proof (induction h arbitrary: s lo hi outs)
  case 0
  then show ?case by auto
next
  case (Suc h)
  then obtain i keys cs os where "s = SNode i cs" "i < length nodes"
    and sib: "siblings (node_wf nodes h) cs keys lo hi os" by auto
  moreover have "c \<in> set cs \<Longrightarrow> set (ids c) \<subseteq> {..<length nodes}" for c
    using siblings_member [OF sib] Suc.IH by blast
  ultimately show ?case by auto
qed

lemma node_wf_frame:
  assumes "node_wf nodes h s lo hi outs"
    and "\<And>i. i \<in> set (ids s) \<Longrightarrow> i < length nodes' \<and> nodes' ! i = nodes ! i"
  shows "node_wf nodes' h s lo hi outs"
  using assms
proof (induction h arbitrary: s lo hi outs)
  case 0
  then show ?case by auto
next
  case (Suc h)
  then obtain i keys cs r os where s: "s = SNode i cs" "i < length nodes"
    "nodes ! i = BInternal keys (map sid cs) r hi" "outs = r # os" "length keys \<le> NODE_CAPACITY"
    and sib: "siblings (node_wf nodes h) cs keys lo hi os" by auto
  have "siblings (node_wf nodes' h) cs keys lo hi os"
    by (rule siblings_mono [OF sib]) (rule Suc.IH, assumption, use Suc.prems(2) s(1) in auto)
  with s Suc.prems(2) [of i] show ?case by auto
qed

lemma entries_simps [simp]:
  "entries nodes (SLeaf i) = leaf_entries nodes i"
  "entries nodes (SNode i cs) = concat (map (entries nodes) cs)"
  by (simp add: entries_def) (induction cs, simp_all add: entries_def)

lemma entries_frame:
  "(\<And>i. i \<in> set (ids s) \<Longrightarrow> nodes' ! i = nodes ! i) \<Longrightarrow> entries nodes' s = entries nodes s"
  unfolding entries_def leaf_entries_def
  by (rule arg_cong [where f = concat], rule map_cong) (use leaves_subset [of s] in auto)

lemma node_wf_view: "node_wf nodes h s lo hi outs \<Longrightarrow> keys_in lo hi (entries nodes s)"
proof (induction h arbitrary: s lo hi outs)
  case 0
  then show ?case by (auto simp: leaf_entries_def keys_in_def simp del: set_map)
next
  case (Suc h)
  then obtain i keys cs os where s: "s = SNode i cs"
    and sib: "siblings (node_wf nodes h) cs keys lo hi os" by auto
  have "keys_in lo hi (concat (map (entries nodes) cs))"
    by (rule siblings_view [OF sib]) (rule Suc.IH)
  with s show ?case by simp
qed

lemma node_hole:
  assumes "siblings (node_wf nodes h) cs ks lo hi outs" and "covers key lo hi"
  shows "\<exists>cs1 c cs2 l u os. cs = cs1 @ c # cs2 \<and> length cs1 = child_index ks key \<and> node_wf nodes h c l u os \<and>
    covers key l u \<and> (\<forall>k \<in> set (map fst (concat (map (entries nodes) cs1))). k < key) \<and>
    (\<forall>k \<in> set (map fst (concat (map (entries nodes) cs2))). key < k) \<and>
    hole (node_wf nodes h) cs1 c cs2 ks lo hi outs l u os"
  by (rule siblings_hole [OF assms]) (rule node_wf_view)

lemma bt_wf_keys_in: "keys_in lo hi m \<Longrightarrow> bt_wf m"
  by (simp add: keys_in_def bt_wf_def)

text \<open>Operations on a sorted association list act inside the part that covers the key.\<close>

lemma bt_get_middle:
  assumes "\<forall>k \<in> set (map fst xs). k < key" and "\<forall>k \<in> set (map fst zs). (key :: nat) < k"
  shows "bt_get (xs @ ys @ zs) key = bt_get ys key"
proof -
  have "map_of xs key = None" "map_of zs key = None"
    using assms by (auto simp: map_of_eq_None_iff)
  then show ?thesis by (simp add: bt_get_def map_add_def split: option.split)
qed

lemma bt_insert_middle:
  assumes "\<forall>k \<in> set (map fst xs). k < key" and "\<forall>k \<in> set (map fst zs). (key :: nat) < k"
  shows "bt_insert key v (xs @ ys @ zs) = xs @ bt_insert key v ys @ zs"
proof -
  have post: "bt_insert key v (ys @ zs) = bt_insert key v ys @ zs"
    using assms(2)
  proof (induction ys)
    case Nil
    then show ?case by (cases zs) auto
  next
    case (Cons y ys)
    then show ?case by (cases y) auto
  qed
  show ?thesis using assms(1)
  proof (induction xs)
    case Nil
    then show ?case using post by simp
  next
    case (Cons x xs)
    then show ?case by (cases x) auto
  qed
qed

lemma bt_remove_middle:
  assumes "\<forall>k \<in> set (map fst xs). k < key" and "\<forall>k \<in> set (map fst zs). (key :: nat) < k"
  shows "bt_remove key (xs @ ys @ zs) = xs @ bt_remove key ys @ zs"
proof -
  have "filter (\<lambda>(j, _). j \<noteq> key) xs = xs" "filter (\<lambda>(j, _). j \<noteq> key) zs = zs"
    using assms by (auto simp: filter_id_conv)
  then show ?thesis by (simp add: bt_remove_def)
qed

subsection \<open>Lookup\<close>

lemma beyond_inside: "covers key lo hi \<Longrightarrow> beyond key r hi = None"
  by (auto simp: beyond_def covers_def split: option.splits)

lemma zip_lookup:
  assumes "length keys = length vals" and "sorted_wrt (<) keys"
  shows "(case binary_search keys key of Inr j \<Rightarrow> Some (vals ! j) | Inl _ \<Rightarrow> None) = bt_get (zip keys vals) key"
proof (cases "binary_search keys key")
  case (Inl j)
  from binary_search_Inl(2) [OF Inl assms(2)] have "map_of (zip keys vals) key = None"
    by (auto simp: map_of_eq_None_iff dest: set_zip_leftD)
  with Inl show ?thesis by (simp add: bt_get_def)
next
  case (Inr j)
  have "distinct keys" using assms(2) strict_sorted_iff by blast
  then have "map_of (zip keys vals) (keys ! j) = Some (vals ! j)"
    using binary_search_Inr(1) [OF Inr] assms(1) by (intro map_of_zip_nth) auto
  then show ?thesis
    using binary_search_Inr(2) [OF Inr] Inr by (simp add: bt_get_def)
qed

lemma blink_get_loop_correct:
  "node_wf nodes h s lo hi outs \<Longrightarrow> covers key lo hi \<Longrightarrow>
     blink_get_loop nodes key (sid s) = Some (bt_get (entries nodes s) key)"
proof (induction h arbitrary: s lo hi outs)
  case 0
  then obtain i keys vals right where s: "s = SLeaf i" "i < length nodes" "nodes ! i = BLeaf keys vals right hi"
    "length keys = length vals" "sorted_wrt (<) keys" by auto
  have "blink_get_loop nodes key i =
      (case binary_search keys key of Inr j \<Rightarrow> Option.bind (vec_get vals j) (\<lambda>v. Some (Some v)) | Inl _ \<Rightarrow> Some None)"
    using s beyond_inside [OF 0(2)] by (subst blink_get_loop.simps) (simp add: vec_get_def)
  also have "\<dots> = Some (case binary_search keys key of Inr j \<Rightarrow> Some (vals ! j) | Inl _ \<Rightarrow> None)"
    using s(4) by (auto simp: vec_get_def split: sum.split dest: binary_search_Inr(1))
  finally show ?case using s zip_lookup [OF s(4,5), of key] by (simp add: leaf_entries_def)
next
  case (Suc h)
  then obtain i keys cs r os where s: "s = SNode i cs" "i < length nodes"
    "nodes ! i = BInternal keys (map sid cs) r hi"
    and sib: "siblings (node_wf nodes h) cs keys lo hi os" by auto
  obtain cs1 c cs2 l u os' where
    c: "cs = cs1 @ c # cs2" "length cs1 = child_index keys key" "node_wf nodes h c l u os'" "covers key l u"
    "\<forall>k \<in> set (map fst (concat (map (entries nodes) cs1))). k < key"
    "\<forall>k \<in> set (map fst (concat (map (entries nodes) cs2))). key < k"
    using node_hole [OF sib Suc.prems(2)] by blast
  have "blink_get_loop nodes key i = blink_get_loop nodes key (sid c)"
    using s c(1,2) beyond_inside [OF Suc.prems(2)]
    by (subst blink_get_loop.simps) (simp add: vec_get_def nth_append flip: c(2))
  with Suc.IH [OF c(3,4)] s(1) c(1) bt_get_middle [OF c(5,6)] show ?case by simp
qed

subsection \<open>Changing a leaf\<close>

lemma zip_insert_new:
  fixes keys :: "nat list"
  assumes "length keys = length vals" and "sorted_wrt (<) keys" and "key \<notin> set keys"
  shows "zip (take (length (takeWhile (\<lambda>k. k < key) keys)) keys @ key # drop (length (takeWhile (\<lambda>k. k < key) keys)) keys)
      (take (length (takeWhile (\<lambda>k. k < key) keys)) vals @ v # drop (length (takeWhile (\<lambda>k. k < key) keys)) vals) =
    bt_insert key v (zip keys vals)"
  using assms by (induction keys vals rule: list_induct2) auto

lemma zip_insert_old:
  assumes "length keys = length vals" and "sorted_wrt (<) keys" and "binary_search keys key = Inr j"
  shows "zip keys (vals[j := v]) = bt_insert key v (zip keys vals)"
proof -
  have "length keys = length vals \<Longrightarrow> sorted_wrt (<) keys \<Longrightarrow> j < length keys \<Longrightarrow> keys ! j = key \<Longrightarrow>
      zip keys (vals[j := v]) = bt_insert key v (zip keys vals)"
  proof (induction keys vals arbitrary: j rule: list_induct2)
    case Nil
    then show ?case by simp
  next
    case (Cons x xs y ys)
    show ?case
    proof (cases j)
      case 0
      with Cons.prems show ?thesis by simp
    next
      case (Suc m)
      with Cons.prems Cons.hyps have "xs ! m = key" "m < length xs" "x < key" by auto
      with Cons Suc show ?thesis by simp
    qed
  qed
  with assms binary_search_Inr [OF assms(3)] show ?thesis by blast
qed

lemma zip_remove:
  assumes "length keys = length vals" and "sorted_wrt (<) keys" and "binary_search keys key = Inr j"
  shows "zip (take j keys @ drop (Suc j) keys) (take j vals @ drop (Suc j) vals) = bt_remove key (zip keys vals)"
proof -
  have "length keys = length vals \<Longrightarrow> sorted_wrt (<) keys \<Longrightarrow> j < length keys \<Longrightarrow> keys ! j = key \<Longrightarrow>
      zip (take j keys @ drop (Suc j) keys) (take j vals @ drop (Suc j) vals) = bt_remove key (zip keys vals)"
  proof (induction keys vals arbitrary: j rule: list_induct2)
    case Nil
    then show ?case by simp
  next
    case (Cons x xs y ys)
    show ?case
    proof (cases j)
      case 0
      with Cons.prems have "x = key" and "key \<notin> set xs" by auto
      then have "bt_remove key (zip xs ys) = zip xs ys"
        by (auto simp: bt_remove_def filter_id_conv dest: set_zip_leftD)
      with 0 \<open>x = key\<close> show ?thesis by (simp add: bt_remove_def)
    next
      case (Suc m)
      with Cons.prems have "xs ! m = key" "m < length xs" "x \<noteq> key" by auto
      with Cons Suc show ?thesis by (simp add: bt_remove_def)
    qed
  qed
  with assms binary_search_Inr [OF assms(3)] show ?thesis by blast
qed

lemma zip_remove_none:
  assumes "length keys = length vals" and "sorted_wrt (<) keys" and "binary_search keys key = Inl j"
  shows "bt_remove key (zip keys vals) = zip keys vals"
  using binary_search_Inl(2) [OF assms(3,2)]
  by (auto simp: bt_remove_def filter_id_conv dest: set_zip_leftD)

lemma sorted_insert_pos:
  fixes keys :: "nat list"
  assumes "sorted_wrt (<) keys" and "key \<notin> set keys"
  shows "sorted_wrt (<) (take (length (takeWhile (\<lambda>k. k < key) keys)) keys @ key #
    drop (length (takeWhile (\<lambda>k. k < key) keys)) keys)"
  using assms
proof (induction keys)
  case Nil
  then show ?case by simp
next
  case (Cons x xs)
  have "x < key \<or> key < x" using Cons.prems(2) by (cases x key rule: linorder_cases) auto
  moreover have "set (take n xs) \<subseteq> set xs" "set (drop n xs) \<subseteq> set xs" for n
    by (simp_all add: set_take_subset set_drop_subset)
  ultimately show ?case using Cons by (auto dest!: subsetD)
qed

subsection \<open>Deletion\<close>

lemma blink_delete_loop_correct:
  "node_wf nodes h s lo hi outs \<Longrightarrow> covers key lo hi \<Longrightarrow> distinct (ids s) \<Longrightarrow>
     \<exists>nodes'. blink_delete_loop nodes key (sid s) = Some (nodes', bt_get (entries nodes s) key) \<and>
       length nodes' = length nodes \<and> (\<forall>i < length nodes. i \<notin> set (ids s) \<longrightarrow> nodes' ! i = nodes ! i) \<and>
       node_wf nodes' h s lo hi outs \<and> entries nodes' s = bt_remove key (entries nodes s)"
proof (induction h arbitrary: s lo hi outs)
  case 0
  then obtain i keys vals right where s: "s = SLeaf i" "i < length nodes" "nodes ! i = BLeaf keys vals right hi"
    "outs = [right]" "length keys = length vals" "sorted_wrt (<) keys" "\<forall>k \<in> set keys. lo_le lo k \<and> less_hi k hi"
    "length keys \<le> NODE_CAPACITY" by auto
  note look = zip_lookup [OF s(5,6), of key]
  show ?case
  proof (cases "binary_search keys key")
    case (Inl j)
    have "blink_delete_loop nodes key i = Some (nodes, None)"
      using s Inl beyond_inside [OF 0(2)] by (subst blink_delete_loop.simps) (simp add: vec_get_def)
    with s Inl look zip_remove_none [OF s(5,6) Inl] 0 show ?thesis by (auto simp: leaf_entries_def)
  next
    case (Inr j)
    let ?ks = "take j keys @ drop (Suc j) keys" and ?vs = "take j vals @ drop (Suc j) vals"
    let ?nodes = "nodes[i := BLeaf ?ks ?vs right hi]"
    have j: "j < length keys" using binary_search_Inr(1) [OF Inr] .
    have loop: "blink_delete_loop nodes key i = Some (?nodes, Some (vals ! j))"
      using s Inr j beyond_inside [OF 0(2)]
      by (subst blink_delete_loop.simps) (simp add: vec_get_def vec_remove_def)
    have sub: "set ?ks \<subseteq> set keys" by (auto dest: in_set_takeD in_set_dropD)
    have "sorted_wrt (<) (take j keys @ drop j keys)" using s(6) by simp
    then have srt: "sorted_wrt (<) ?ks"
      unfolding sorted_wrt_append by (metis Cons_nth_drop_Suc j list.set_intros(2) sorted_wrt.simps(2))
    have "node_wf ?nodes 0 s lo hi outs"
      using s j sub srt by auto
    with loop s look Inr zip_remove [OF s(5,6) Inr] show ?thesis
      by (intro exI [of _ ?nodes]) (auto simp: leaf_entries_def)
  qed
next
  case (Suc h)
  then obtain i keys cs r os where s: "s = SNode i cs" "i < length nodes"
    "nodes ! i = BInternal keys (map sid cs) r hi" "outs = r # os" "length keys \<le> NODE_CAPACITY"
    and sib: "siblings (node_wf nodes h) cs keys lo hi os" by auto
  obtain cs1 c cs2 l u os' where
    c: "cs = cs1 @ c # cs2" "length cs1 = child_index keys key" "node_wf nodes h c l u os'" "covers key l u"
    "\<forall>k \<in> set (map fst (concat (map (entries nodes) cs1))). k < key"
    "\<forall>k \<in> set (map fst (concat (map (entries nodes) cs2))). key < k"
    and hole: "hole (node_wf nodes h) cs1 c cs2 keys lo hi os l u os'"
    using node_hole [OF sib Suc.prems(2)] by blast
  have step: "blink_delete_loop nodes key i = blink_delete_loop nodes key (sid c)"
    using s c(1,2) beyond_inside [OF Suc.prems(2)]
    by (subst blink_delete_loop.simps) (simp add: vec_get_def nth_append flip: c(2))
  have dist: "distinct (ids c)" "i \<notin> set (ids c)"
    "\<And>d. d \<in> set cs1 \<union> set cs2 \<Longrightarrow> set (ids d) \<inter> set (ids c) = {}"
    using Suc.prems(3) s(1) c(1) by auto
  from Suc.IH [OF c(3,4) dist(1)] obtain nodes' where
    del: "blink_delete_loop nodes key (sid c) = Some (nodes', bt_get (entries nodes c) key)"
    "length nodes' = length nodes" "\<forall>i < length nodes. i \<notin> set (ids c) \<longrightarrow> nodes' ! i = nodes ! i"
    "node_wf nodes' h c l u os'" "entries nodes' c = bt_remove key (entries nodes c)" by blast
  have same: "nodes' ! j = nodes ! j" if "d \<in> set cs1 \<union> set cs2" "j \<in> set (ids d)" for d j
  proof -
    have "j < length nodes" using node_wf_ids [OF Suc.prems(1)] that s(1) c(1) by auto
    with del(3) dist(3) [OF that(1)] that(2) show ?thesis by blast
  qed
  have "node_wf nodes' h d l u os" if "d \<in> set cs1 \<union> set cs2" "node_wf nodes h d l u os" for d l u os
    using node_wf_frame [OF that(2), of nodes'] node_wf_ids [OF that(2)] same [OF that(1)] del(2) by auto
  then have "siblings (node_wf nodes' h) (cs1 @ c # cs2) keys lo hi os"
    using hole del(4) unfolding hole_def by blast
  then have wf: "node_wf nodes' (Suc h) s lo hi outs"
    using s c(1) del(2,3) dist(2) by auto
  have "concat (map (entries nodes') xs) = concat (map (entries nodes) xs)" if "set xs \<subseteq> set cs1 \<union> set cs2" for xs
    using that same by (intro arg_cong [where f = concat] map_cong) (auto intro!: entries_frame)
  then have "entries nodes' s = bt_remove key (entries nodes s)"
    using s(1) c(1) del(5) bt_remove_middle [OF c(5,6), of "entries nodes c"] by simp
  with wf step del(1,2,3) s(1) c(1) bt_get_middle [OF c(5,6), of "entries nodes c"] show ?case by auto
qed

subsection \<open>Insertion\<close>

lemma siblings_split:
  assumes "siblings P cs ks lo hi outs" and "m < length ks"
  shows "siblings P (take (Suc m) cs) (take m ks) lo (Some (ks ! m)) (map Some (spine (cs ! Suc m))) \<and>
    siblings P (drop (Suc m) cs) (drop (Suc m) ks) (Some (ks ! m)) hi outs"
  using assms
proof (induction P cs ks lo hi outs arbitrary: m rule: siblings.induct)
  case (2 P c d cs k ks lo hi outs)
  have sorted: "sorted_wrt (<) (k # ks)" using siblings_keys [OF "2.prems"(1)] by blast
  show ?case
  proof (cases m)
    case 0
    with "2.prems" show ?thesis by simp
  next
    case (Suc n)
    with "2.prems"(2) have n: "n < length ks" by simp
    then have "k < ks ! n" using sorted by simp
    with "2.IH" [OF _ n] "2.prems"(1) Suc show ?thesis by simp
  qed
qed auto

text \<open>What a call of \<open>insert_rec\<close> leaves: the arena outside the subtree, and one subtree or two.\<close>

definition untouched :: "bnode list \<Rightarrow> bnode list \<Rightarrow> nat set \<Rightarrow> bool" where
  "untouched nodes nodes' S \<longleftrightarrow>
     length nodes \<le> length nodes' \<and> (\<forall>i < length nodes. i \<notin> S \<longrightarrow> nodes' ! i = nodes ! i)"

definition new_ids :: "bnode list \<Rightarrow> bnode list \<Rightarrow> shape \<Rightarrow> nat list \<Rightarrow> bool" where
  "new_ids nodes nodes' s is \<longleftrightarrow>
     distinct is \<and> set is \<subseteq> set (ids s) \<union> {length nodes..<length nodes'}"

definition grown ::
    "bnode list \<Rightarrow> bnode list \<Rightarrow> nat \<Rightarrow> shape \<Rightarrow> nat option \<Rightarrow> nat option \<Rightarrow> nat option list \<Rightarrow>
     (nat \<times> bytes) list \<Rightarrow> (nat \<times> nat) option \<Rightarrow> bool" where
  "grown nodes nodes' h s lo hi outs m r \<longleftrightarrow>
     (case r of
        None \<Rightarrow> (\<exists>s'. node_wf nodes' h s' lo hi outs \<and> sid s' = sid s \<and> spine s' = spine s \<and>
                  new_ids nodes nodes' s (ids s') \<and> entries nodes' s' = m)
      | Some (sep, rid) \<Rightarrow>
          (\<exists>s1 s2. node_wf nodes' h s1 lo (Some sep) (map Some (spine s2)) \<and> node_wf nodes' h s2 (Some sep) hi outs \<and>
             sid s1 = sid s \<and> sid s2 = rid \<and> spine s1 = spine s \<and> lo_less lo sep \<and> less_hi sep hi \<and>
             new_ids nodes nodes' s (ids s1 @ ids s2) \<and> entries nodes' s1 @ entries nodes' s2 = m))"

lemma grown_NoneI:
  "node_wf nodes' h s' lo hi outs \<Longrightarrow> sid s' = sid s \<Longrightarrow> spine s' = spine s \<Longrightarrow> new_ids nodes nodes' s (ids s') \<Longrightarrow>
   entries nodes' s' = m \<Longrightarrow> grown nodes nodes' h s lo hi outs m None"
  unfolding grown_def option.case by blast

lemma grown_SomeI:
  "node_wf nodes' h s1 lo (Some sep) (map Some (spine s2)) \<Longrightarrow> node_wf nodes' h s2 (Some sep) hi outs \<Longrightarrow>
   sid s1 = sid s \<Longrightarrow> sid s2 = rid \<Longrightarrow> spine s1 = spine s \<Longrightarrow> lo_less lo sep \<Longrightarrow> less_hi sep hi \<Longrightarrow>
   new_ids nodes nodes' s (ids s1 @ ids s2) \<Longrightarrow> entries nodes' s1 @ entries nodes' s2 = m \<Longrightarrow>
   grown nodes nodes' h s lo hi outs m (Some (sep, rid))"
  unfolding grown_def option.case prod.case by blast

lemma split_leaf_correct:
  assumes "i < length nodes" and "nodes ! i = BLeaf keys vals right hi" and "length keys = length vals"
    and "sorted_wrt (<) keys" and "\<forall>k \<in> set keys. lo_le lo k \<and> less_hi k hi" and "length keys = Suc NODE_CAPACITY"
  shows "\<exists>nodes' sep. split_leaf nodes i = Some (nodes', sep, length nodes) \<and> untouched nodes nodes' {i} \<and>
    grown nodes nodes' 0 (SLeaf i) lo hi [right] (zip keys vals) (Some (sep, length nodes))"
proof -
  let ?m = "split_mid"
  let ?sep = "keys ! ?m"
  let ?nodes = "nodes[i := BLeaf (take ?m keys) (take ?m vals) (Some (length nodes)) (Some ?sep)] @
    [BLeaf (drop ?m keys) (drop ?m vals) right hi]"
  have m: "?m < length keys" "0 < ?m" "?m \<le> NODE_CAPACITY" "length keys - ?m \<le> NODE_CAPACITY"
    using assms(6) by (simp_all add: split_mid_def NODE_CAPACITY_def)
  have split: "split_leaf nodes i = Some (?nodes, ?sep, length nodes)"
    using assms(1,2,3) m(1) by (simp add: split_leaf_def vec_get_def vec_split_off_def Let_def)
  have left: "k < ?sep" if "k \<in> set (take ?m keys)" for k
    using that assms(4) m(1) by (auto simp: in_set_conv_nth sorted_wrt_iff_nth_less)
  have right: "?sep \<le> k" if "k \<in> set (drop ?m keys)" for k
  proof -
    from that obtain j where "j < length keys - ?m" "k = keys ! (?m + j)" by (auto simp: in_set_conv_nth)
    moreover from this have "?m + j < length keys" by simp
    ultimately show ?thesis using sorted_wrt_nth_less [OF assms(4), of ?m "?m + j"] by (cases "j = 0") auto
  qed
  have sub: "set (take ?m keys) \<subseteq> set keys" "set (drop ?m keys) \<subseteq> set keys"
    by (simp_all add: set_take_subset set_drop_subset)
  have srt: "sorted_wrt (<) (take ?m keys)" "sorted_wrt (<) (drop ?m keys)"
    using assms(4) by (simp_all add: sorted_wrt_take sorted_wrt_drop)
  have "keys ! 0 < ?sep" using sorted_wrt_nth_less [OF assms(4), of 0 ?m] m(1,2) by simp
  moreover have "keys ! 0 \<in> set keys" "?sep \<in> set keys" using m(1) by (auto simp del: length_greater_0_conv)
  ultimately have sep: "lo_less lo ?sep" "less_hi ?sep hi" using assms(5) bounds_trans(2) by blast+
  have "grown nodes ?nodes 0 (SLeaf i) lo hi [right] (zip keys vals) (Some (?sep, length nodes))"
  proof (rule grown_SomeI)
    show "node_wf ?nodes 0 (SLeaf i) lo (Some ?sep) (map Some (spine (SLeaf (length nodes))))"
      using assms(1,3,5) m left sub(1) srt(1) by (auto simp: nth_append)
    show "node_wf ?nodes 0 (SLeaf (length nodes)) (Some ?sep) hi [right]"
      using assms(3,5) m right sub(2) srt(2) by (auto simp: nth_append)
    show "entries ?nodes (SLeaf i) @ entries ?nodes (SLeaf (length nodes)) = zip keys vals"
      using assms(1,3) by (simp add: leaf_entries_def nth_append zip_append [symmetric] del: zip_append)
  qed (use sep assms(1) in \<open>auto simp: new_ids_def\<close>)
  moreover have "untouched nodes ?nodes {i}" by (auto simp: untouched_def nth_append)
  ultimately show ?thesis using split by blast
qed

lemma split_internal_correct:
  assumes "i < length nodes" and "nodes ! i = BInternal keys (map sid cs) right hi"
    and sib: "siblings (node_wf nodes h) cs keys lo hi os" and "length keys = Suc NODE_CAPACITY"
    and "distinct (ids (SNode i cs))"
  shows "\<exists>nodes' sep. split_internal nodes i = Some (nodes', sep, length nodes) \<and> untouched nodes nodes' {i} \<and>
    grown nodes nodes' (Suc h) (SNode i cs) lo hi (right # os) (concat (map (entries nodes) cs)) (Some (sep, length nodes))"
proof -
  let ?m = "split_mid"
  let ?sep = "keys ! ?m"
  let ?l = "take (Suc ?m) cs" and ?r = "drop (Suc ?m) cs"
  let ?nodes = "nodes[i := BInternal (take ?m keys) (map sid ?l) (Some (length nodes)) (Some ?sep)] @
    [BInternal (drop (Suc ?m) keys) (map sid ?r) right hi]"
  have m: "Suc ?m < length keys" "?m \<le> NODE_CAPACITY"
    using assms(4) by (simp_all add: split_mid_def NODE_CAPACITY_def)
  from siblings_keys [OF sib] have len: "length cs = Suc (length keys)"
    and keys: "\<forall>k \<in> set keys. lo_less lo k \<and> less_hi k hi" by auto
  have "butlast (take (Suc ?m) keys) = take ?m keys" using m(1) by (simp add: butlast_take)
  then have split: "split_internal nodes i = Some (?nodes, ?sep, length nodes)"
    using assms(1,2) m(1) len by (simp add: split_internal_def vec_get_def vec_split_off_def Let_def take_map drop_map)
  have ids: "set (ids c) \<subseteq> {..<length nodes}" "i \<notin> set (ids c)" if "c \<in> set cs" for c
    using siblings_member [OF sib that] node_wf_ids [of nodes h c] assms(5) that by (blast, simp)
  have same: "?nodes ! j = nodes ! j \<and> j < length ?nodes" if "c \<in> set cs" "j \<in> set (ids c)" for c j
  proof -
    have "j < length nodes" "i \<noteq> j" using ids [OF that(1)] that(2) by auto
    then show ?thesis by (simp add: nth_append)
  qed
  have frame: "node_wf ?nodes h c l u os" if "c \<in> set cs" "node_wf nodes h c l u os" for c l u os
    using node_wf_frame [OF that(2), of ?nodes] same [OF that(1)] by blast
  have sib': "siblings (node_wf ?nodes h) cs keys lo hi os" by (rule siblings_mono [OF sib frame])
  note parts = siblings_split [OF sib' Suc_lessD [OF m(1)]]
  have r_ne: "?r \<noteq> []" "hd ?r = cs ! Suc ?m" using m(1) len by (simp_all add: hd_drop_conv_nth)
  then have spine_r: "spine (SNode (length nodes) ?r) = length nodes # spine (cs ! Suc ?m)" by (cases ?r) auto
  have spine_l: "spine (SNode i ?l) = spine (SNode i cs)" using len by (cases cs) auto
  have "grown nodes ?nodes (Suc h) (SNode i cs) lo hi (right # os) (concat (map (entries nodes) cs))
      (Some (?sep, length nodes))"
  proof (rule grown_SomeI)
    show "node_wf ?nodes (Suc h) (SNode i ?l) lo (Some ?sep) (map Some (spine (SNode (length nodes) ?r)))"
      unfolding spine_r using parts assms(1) m by (auto simp: nth_append)
    show "node_wf ?nodes (Suc h) (SNode (length nodes) ?r) (Some ?sep) hi (right # os)"
      using parts assms(4) by (auto simp: nth_append)
    show "lo_less lo ?sep" "less_hi ?sep hi" using keys m(1) by (auto simp: nth_mem)
    have eq: "concat (map ids cs) = concat (map ids ?l) @ concat (map ids ?r)"
      by (simp flip: concat_append map_append)
    have d: "distinct (concat (map ids ?l) @ concat (map ids ?r))" "i \<notin> set (concat (map ids ?l) @ concat (map ids ?r))"
      using assms(5) unfolding eq [symmetric] by auto
    have "set (concat (map ids ?l) @ concat (map ids ?r)) \<subseteq> {..<length nodes}"
      unfolding eq [symmetric] using ids(1) by auto
    with d assms(1) eq show "new_ids nodes ?nodes (SNode i cs) (ids (SNode i ?l) @ ids (SNode (length nodes) ?r))"
      by (auto simp: new_ids_def)
    have "map (entries ?nodes) cs = map (entries nodes) cs"
      using same by (intro map_cong) (auto intro: entries_frame)
    then show "entries ?nodes (SNode i ?l) @ entries ?nodes (SNode (length nodes) ?r) = concat (map (entries nodes) cs)"
      unfolding entries_simps concat_append [symmetric] map_append [symmetric] append_take_drop_id by (rule arg_cong)
  qed (use spine_l in auto)
  moreover have "untouched nodes ?nodes {i}" by (auto simp: untouched_def nth_append)
  ultimately show ?thesis using split by blast
qed

lemma insert_leaf_correct:
  assumes "node_wf nodes 0 s lo hi outs" and "covers key lo hi"
  shows "\<exists>nodes' r. insert_rec nodes (sid s) key v = Some (nodes', r) \<and> untouched nodes nodes' (set (ids s)) \<and>
    grown nodes nodes' 0 s lo hi outs (bt_insert key v (entries nodes s)) r"
proof -
  from assms(1) obtain i keys vals right where s: "s = SLeaf i" "i < length nodes" "nodes ! i = BLeaf keys vals right hi"
    "outs = [right]" "length keys = length vals" "sorted_wrt (<) keys" "\<forall>k \<in> set keys. lo_le lo k \<and> less_hi k hi"
    "length keys \<le> NODE_CAPACITY" by auto
  have e: "entries nodes s = zip keys vals" using s by (simp add: leaf_entries_def)
  show ?thesis
  proof (cases "binary_search keys key")
    case (Inr j)
    let ?nodes = "nodes[i := BLeaf keys (vals[j := v]) right hi]"
    have "insert_rec nodes i key v = Some (?nodes, None)"
      using s Inr binary_search_Inr(1) [OF Inr] by (subst insert_rec.simps) (simp add: vec_get_def)
    moreover have "entries ?nodes s = bt_insert key v (zip keys vals)"
      using s zip_insert_old [OF s(5,6) Inr] by (simp add: leaf_entries_def)
    moreover have "node_wf ?nodes 0 s lo hi outs" using s by auto
    ultimately show ?thesis using s e
      by (intro exI [of _ ?nodes] exI [of _ None])
        (auto simp: untouched_def new_ids_def simp del: node_wf.simps entries_simps intro: grown_NoneI)
  next
    case (Inl j)
    let ?ks = "take j keys @ key # drop j keys" and ?vs = "take j vals @ v # drop j vals"
    let ?nodes = "nodes[i := BLeaf ?ks ?vs right hi]"
    note pos = binary_search_Inl [OF Inl s(6)]
    have j: "j \<le> length keys" using pos(1) length_takeWhile_le by metis
    have zip: "zip ?ks ?vs = bt_insert key v (zip keys vals)"
      using zip_insert_new [OF s(5,6) pos(2), of v] pos(1) by simp
    have srt: "sorted_wrt (<) ?ks" using sorted_insert_pos [OF s(6) pos(2)] pos(1) by simp
    have mem: "\<forall>k \<in> set ?ks. lo_le lo k \<and> less_hi k hi"
      using s(7) assms(2) by (auto simp: covers_def dest: in_set_takeD in_set_dropD)
    have len: "length ?ks = Suc (length keys)" "length ?ks = length ?vs" using j s(5) by auto
    show ?thesis
    proof (cases "NODE_CAPACITY < length ?ks")
      case False
      have "insert_rec nodes i key v = Some (?nodes, None)"
        using s Inl j False len by (subst insert_rec.simps) (simp add: vec_get_def vec_insert_def Let_def)
      moreover have "entries ?nodes s = bt_insert key v (zip keys vals)"
        using s zip by (simp add: leaf_entries_def)
      moreover have "node_wf ?nodes 0 s lo hi outs" using s srt mem len False by auto
      ultimately show ?thesis using s e
        by (intro exI [of _ ?nodes] exI [of _ None])
          (auto simp: untouched_def new_ids_def simp del: node_wf.simps entries_simps intro: grown_NoneI)
    next
      case True
      have full: "length ?ks = Suc NODE_CAPACITY" using True s(8) len by simp
      have "i < length ?nodes" "?nodes ! i = BLeaf ?ks ?vs right hi" using s(2) by simp_all
      from split_leaf_correct [OF this len(2) srt mem full] obtain nodes' sep where
        split: "split_leaf ?nodes i = Some (nodes', sep, length nodes)" "untouched ?nodes nodes' {i}"
        and g: "grown ?nodes nodes' 0 (SLeaf i) lo hi [right] (zip ?ks ?vs) (Some (sep, length nodes))" by auto
      have "insert_rec nodes i key v = Some (nodes', Some (sep, length nodes))"
        using s Inl j True len split(1) by (subst insert_rec.simps) (simp add: vec_get_def vec_insert_def Let_def)
      moreover have "grown nodes nodes' 0 s lo hi outs (bt_insert key v (zip keys vals)) (Some (sep, length nodes))"
        using g s zip by (simp add: grown_def new_ids_def del: node_wf.simps)
      moreover have "untouched nodes nodes' (set (ids s))"
        using split(2) s(1) by (auto simp: untouched_def)
      ultimately show ?thesis using s e by auto
    qed
  qed
qed

lemma untouched_trans:
  "untouched a b S \<Longrightarrow> untouched b c T \<Longrightarrow> S \<union> T \<subseteq> U \<Longrightarrow> untouched a c U"
  by (auto simp: untouched_def) (metis le_trans less_le_trans subsetD)+

text \<open>A subtree of the arena that the change of another subtree leaves alone.\<close>

lemma untouched_frame:
  assumes "untouched nodes nodes' S" and "node_wf nodes h d l u os" and "set (ids d) \<inter> S = {}"
  shows "node_wf nodes' h d l u os" and "entries nodes' d = entries nodes d"
proof -
  have same: "j < length nodes' \<and> nodes' ! j = nodes ! j" if "j \<in> set (ids d)" for j
    using node_wf_ids [OF assms(2)] that assms(1,3) unfolding untouched_def
    by (metis IntI empty_iff lessThan_iff order.strict_trans2 subsetD)
  show "node_wf nodes' h d l u os" by (rule node_wf_frame [OF assms(2) same])
  show "entries nodes' d = entries nodes d" by (rule entries_frame) (use same in blast)
qed

lemma new_ids_node:
  assumes "distinct (ids (SNode i (cs1 @ c # cs2)))" and "set (ids (SNode i (cs1 @ c # cs2))) \<subseteq> {..<length nodes}"
    and "new_ids nodes nodes' c js"
  shows "new_ids nodes nodes' (SNode i (cs1 @ c # cs2)) (i # concat (map ids cs1) @ js @ concat (map ids cs2))"
proof -
  let ?a = "concat (map ids cs1)" and ?b = "concat (map ids cs2)"
  have d: "distinct (i # ?a @ ids c @ ?b)" using assms(1) by simp
  have b: "set (i # ?a @ ids c @ ?b) \<subseteq> {..<length nodes}" using assms(2) by simp
  from assms(3) have j: "distinct js" "set js \<subseteq> set (ids c) \<union> {length nodes..<length nodes'}"
    by (auto simp: new_ids_def)
  have "set js \<inter> set (i # ?a @ ?b) = {}"
  proof -
    have "set (i # ?a @ ?b) \<inter> set (ids c) = {}" using d by auto
    moreover have "set (i # ?a @ ?b) \<inter> {length nodes..<length nodes'} = {}" using b by auto
    ultimately show ?thesis using j(2) by blast
  qed
  with d j(1) have "distinct (i # ?a @ js @ ?b)" by auto
  moreover have "set (i # ?a @ js @ ?b) \<subseteq> set (ids (SNode i (cs1 @ c # cs2))) \<union> {length nodes..<length nodes'}"
    using j(2) by auto
  ultimately show ?thesis by (simp only: new_ids_def)
qed

lemma new_ids_trans:
  assumes "new_ids a b s (ids t)" and "new_ids b' c t js" and "length b = length b'"
    and "length a \<le> length b" and "length b \<le> length c"
  shows "new_ids a c s js"
proof -
  have "set js \<subseteq> set (ids t) \<union> {length b..<length c}" "distinct js"
    "set (ids t) \<subseteq> set (ids s) \<union> {length a..<length b}"
    using assms(1,2,3) by (auto simp: new_ids_def)
  moreover have "{length a..<length b} \<union> {length b..<length c} \<subseteq> {length a..<length c}"
    using assms(4,5) by auto
  ultimately have "set js \<subseteq> set (ids s) \<union> {length a..<length c}" by blast
  with \<open>distinct js\<close> show ?thesis by (simp add: new_ids_def)
qed

lemma insert_rec_correct:
  "node_wf nodes h s lo hi outs \<Longrightarrow> covers key lo hi \<Longrightarrow> distinct (ids s) \<Longrightarrow>
     \<exists>nodes' r. insert_rec nodes (sid s) key v = Some (nodes', r) \<and> untouched nodes nodes' (set (ids s)) \<and>
       grown nodes nodes' h s lo hi outs (bt_insert key v (entries nodes s)) r"
proof (induction h arbitrary: s lo hi outs)
  case 0
  then show ?case using insert_leaf_correct by blast
next
  case (Suc h)
  from Suc.prems(1) obtain i keys cs right os where s: "s = SNode i cs" "i < length nodes"
    "nodes ! i = BInternal keys (map sid cs) right hi" "outs = right # os" "length keys \<le> NODE_CAPACITY"
    and sib: "siblings (node_wf nodes h) cs keys lo hi os" by auto
  obtain cs1 c cs2 l u os' where
    c: "cs = cs1 @ c # cs2" "length cs1 = child_index keys key" "node_wf nodes h c l u os'" "covers key l u"
    "\<forall>k \<in> set (map fst (concat (map (entries nodes) cs1))). k < key"
    "\<forall>k \<in> set (map fst (concat (map (entries nodes) cs2))). key < k"
    and hole: "hole (node_wf nodes h) cs1 c cs2 keys lo hi os l u os'"
    using node_hole [OF sib Suc.prems(2)] by blast
  have child: "vec_get (map sid cs) (child_index keys key) = Some (sid c)"
    using c(1) by (simp add: vec_get_def nth_append flip: c(2))
  have dist: "distinct (ids c)" "i \<notin> set (ids c)"
    "\<And>d. d \<in> set cs1 \<union> set cs2 \<Longrightarrow> set (ids d) \<inter> set (ids c) = {}"
    using Suc.prems(3) s(1) c(1) by auto
  have below: "set (ids d) \<subseteq> {..<length nodes}" if "d \<in> set cs" for d
    using node_wf_ids [OF Suc.prems(1)] that s(1) by auto
  from Suc.IH [OF c(3,4) dist(1)] obtain nodes' r where
    ins: "insert_rec nodes (sid c) key v = Some (nodes', r)" and un: "untouched nodes nodes' (set (ids c))"
    and gr: "grown nodes nodes' h c l u os' (bt_insert key v (entries nodes c)) r" by blast
  have i': "nodes' ! i = BInternal keys (map sid cs) right hi" "i < length nodes'"
    using un s(2,3) dist(2) by (auto simp: untouched_def)
  have keep: "\<forall>d \<in> set cs1 \<union> set cs2. \<forall>l u os. node_wf nodes h d l u os \<longrightarrow> node_wf nodes' h d l u os"
    using untouched_frame(1) [OF un] dist(3) by blast
  have ent: "concat (map (entries nodes') xs) = concat (map (entries nodes) xs)" if "set xs \<subseteq> set cs1 \<union> set cs2" for xs
  proof -
    have "entries nodes' d = entries nodes d" if "d \<in> set cs1 \<union> set cs2" for d
      using siblings_member [OF sib, of d] that c(1) untouched_frame(2) [OF un] dist(3) by fastforce
    then show ?thesis using that by (intro arg_cong [where f = concat] map_cong) auto
  qed
  have mid: "bt_insert key v (entries nodes s) =
      concat (map (entries nodes) cs1) @ bt_insert key v (entries nodes c) @ concat (map (entries nodes) cs2)"
    using s(1) c(1) bt_insert_middle [OF c(5,6), of v "entries nodes c"] by simp
  have un_s: "untouched nodes nodes' (set (ids s))"
    using un s(1) c(1) by (auto simp: untouched_def)
  show ?case
  proof (cases r)
    case None
    with gr obtain c' where c': "node_wf nodes' h c' l u os'" "sid c' = sid c" "spine c' = spine c"
      "new_ids nodes nodes' c (ids c')" "entries nodes' c' = bt_insert key v (entries nodes c)"
      by (auto simp: grown_def)
    let ?s = "SNode i (cs1 @ c' # cs2)"
    have "insert_rec nodes i key v = Some (nodes', None)"
      using s child ins None by (subst insert_rec.simps) (simp add: vec_get_def)
    moreover have "grown nodes nodes' (Suc h) s lo hi outs (bt_insert key v (entries nodes s)) None"
    proof (rule grown_NoneI)
      have "siblings (node_wf nodes' h) (cs1 @ c' # cs2) keys lo hi os"
        using hole keep c'(1,3) unfolding hole_def by blast
      then show "node_wf nodes' (Suc h) ?s lo hi outs" using s i' c(1) c'(2) by auto
      show "spine ?s = spine s" using s(1) c(1) c'(3) by (cases cs1) auto
      show "new_ids nodes nodes' s (ids ?s)"
        using new_ids_node [OF _ _ c'(4), of i cs1 cs2] Suc.prems(3) node_wf_ids [OF Suc.prems(1)] s(1) c(1) by simp
      show "entries nodes' ?s = bt_insert key v (entries nodes s)"
        using mid ent [of cs1] ent [of cs2] c'(5) by simp
    qed (use s in simp)
    ultimately show ?thesis using s(1) un_s by auto
  next
    case (Some q)
    then obtain sep rid where r: "r = Some (sep, rid)" by (cases q) auto
    with gr obtain c1 c2 where c12: "node_wf nodes' h c1 l (Some sep) (map Some (spine c2))"
      "node_wf nodes' h c2 (Some sep) u os'" "sid c1 = sid c" "sid c2 = rid" "spine c1 = spine c"
      "lo_less l sep" "less_hi sep u" "new_ids nodes nodes' c (ids c1 @ ids c2)"
      "entries nodes' c1 @ entries nodes' c2 = bt_insert key v (entries nodes c)"
      by (auto simp: grown_def)
    let ?ks = "take (length cs1) keys @ sep # drop (length cs1) keys" and ?cs = "cs1 @ c1 # c2 # cs2"
    let ?node = "BInternal ?ks (map sid ?cs) right hi"
    let ?nodes = "nodes'[i := ?node]"
    have sib2: "siblings (node_wf nodes' h) ?cs ?ks lo hi os" and pos: "binary_search keys sep = Inl (length cs1)"
      using hole keep c12(1,2,5,6,7) unfolding hole_def by blast+
    have len: "length cs1 \<le> length keys" using siblings_keys [OF sib] c(1) by simp
    have kk: "vec_insert (length cs1) sep keys = Some ?ks" using len by (simp add: vec_insert_def)
    have kids: "vec_insert (Suc (length cs1)) rid (map sid cs) = Some (map sid ?cs)"
      using c(1) c12(3,4) by (simp add: vec_insert_def)
    have rec: "insert_rec nodes i key v =
        (if NODE_CAPACITY < length ?ks then Option.bind (split_internal ?nodes i) (\<lambda>(n, s). Some (n, Some s))
         else Some (?nodes, None))"
      using s(2,3) child ins r i' pos kids kk
      by (subst insert_rec.simps) (simp add: vec_get_def Let_def del: map_append list.map)
    have new: "new_ids nodes nodes' s (ids (SNode i ?cs))"
      using new_ids_node [OF _ _ c12(8), of i cs1 cs2] Suc.prems(3) node_wf_ids [OF Suc.prems(1)] s(1) c(1) by simp
    have i_new: "\<forall>d \<in> set ?cs. i \<notin> set (ids d)" using new by (auto simp: new_ids_def)
    have un_n: "untouched nodes' ?nodes {i}" by (auto simp: untouched_def)
    have sib3: "siblings (node_wf ?nodes h) ?cs ?ks lo hi os"
      by (rule siblings_mono [OF sib2]) (rule untouched_frame(1) [OF un_n], assumption, use i_new in blast)
    have "entries ?nodes d = entries nodes' d" if "d \<in> set ?cs" for d
      using siblings_member [OF sib2 that] untouched_frame(2) [OF un_n] i_new that by blast
    then have "concat (map (entries ?nodes) ?cs) = concat (map (entries nodes') ?cs)"
      by (intro arg_cong [where f = concat] map_cong) auto
    then have ent2: "concat (map (entries ?nodes) ?cs) = bt_insert key v (entries nodes s)"
      using mid ent [of cs1] ent [of cs2] c12(9) by simp
    have un2: "untouched nodes ?nodes (set (ids s))" by (rule untouched_trans [OF un_s un_n]) (simp add: s(1))
    have spine: "spine (SNode i ?cs) = spine s" using s(1) c(1) c12(5) by (cases cs1) auto
    show ?thesis
    proof (cases "NODE_CAPACITY < length ?ks")
      case False
      have "grown nodes ?nodes (Suc h) s lo hi outs (bt_insert key v (entries nodes s)) None"
      proof (rule grown_NoneI)
        show "node_wf ?nodes (Suc h) (SNode i ?cs) lo hi outs" using sib3 i'(2) s(4) False by auto
        show "new_ids nodes ?nodes s (ids (SNode i ?cs))" using new by (simp add: new_ids_def)
      qed (use s spine ent2 in auto)
      with rec False un2 s(1) show ?thesis by auto
    next
      case True
      have full: "length ?ks = Suc NODE_CAPACITY" using True s(5) len by simp
      have at: "i < length ?nodes" "?nodes ! i = ?node" using i'(2) by simp_all
      have "distinct (ids (SNode i ?cs))" using new by (simp only: new_ids_def)
      from split_internal_correct [OF at sib3 full this] obtain nodes3 sep3 where
        sp: "split_internal ?nodes i = Some (nodes3, sep3, length ?nodes)" and un3: "untouched ?nodes nodes3 {i}"
        and g3: "grown ?nodes nodes3 (Suc h) (SNode i ?cs) lo hi (right # os) (concat (map (entries ?nodes) ?cs))
           (Some (sep3, length ?nodes))" by blast
      from g3 obtain s1 s2 where s12: "node_wf nodes3 (Suc h) s1 lo (Some sep3) (map Some (spine s2))"
        "node_wf nodes3 (Suc h) s2 (Some sep3) hi (right # os)" "sid s1 = sid (SNode i ?cs)" "sid s2 = length ?nodes"
        "spine s1 = spine (SNode i ?cs)" "lo_less lo sep3" "less_hi sep3 hi"
        "new_ids ?nodes nodes3 (SNode i ?cs) (ids s1 @ ids s2)"
        "entries nodes3 s1 @ entries nodes3 s2 = concat (map (entries ?nodes) ?cs)"
        unfolding grown_def option.case prod.case by blast
      have le: "length nodes \<le> length nodes'" "length nodes' \<le> length nodes3"
        using un un3 by (auto simp: untouched_def)
      have "new_ids nodes nodes3 s (ids s1 @ ids s2)"
        by (rule new_ids_trans [OF new s12(8)]) (use le in simp_all)
      then have "grown nodes nodes3 (Suc h) s lo hi outs (bt_insert key v (entries nodes s)) (Some (sep3, length ?nodes))"
        using s12 s(1,4) spine ent2 by (intro grown_SomeI [where ?s1.0 = s1 and ?s2.0 = s2]) auto
      moreover have "untouched nodes nodes3 (set (ids s))" by (rule untouched_trans [OF un2 un3]) (simp add: s(1))
      ultimately show ?thesis using rec True sp s(1) by auto
    qed
  qed
qed

subsection \<open>The chain of leaves\<close>

fun chain :: "bnode list \<Rightarrow> nat list \<Rightarrow> nat option \<Rightarrow> bool" where
  "chain nodes [] out \<longleftrightarrow> False"
| "chain nodes (i # is) out \<longleftrightarrow>
     i < length nodes \<and>
     (\<exists>keys vals high. nodes ! i = BLeaf keys vals (case is of [] \<Rightarrow> out | j # _ \<Rightarrow> Some j) high \<and> length keys = length vals) \<and>
     (is = [] \<or> chain nodes is out)"

lemma chain_append:
  "chain nodes xs (Some j) \<Longrightarrow> chain nodes (j # ys) out \<Longrightarrow> chain nodes (xs @ j # ys) out"
proof (induction xs)
  case Nil
  then show ?case by simp
next
  case (Cons x xs)
  then show ?case by (cases xs) auto
qed

lemma chain_suffix: "chain nodes (xs @ i # ys) out \<Longrightarrow> chain nodes (i # ys) out"
proof (induction xs)
  case Nil
  then show ?case by simp
next
  case (Cons x xs)
  then show ?case by (cases xs) auto
qed

lemma chain_join:
  "chain nodes xs (Some (hd ys)) \<Longrightarrow> chain nodes ys out \<Longrightarrow> chain nodes (xs @ ys) out"
  using chain_append by (cases ys) auto

lemma siblings_chain:
  assumes "siblings P cs ks lo hi outs"
    and "\<And>c l u os. P c l u os \<Longrightarrow> os \<noteq> [] \<and> last (spine c) = hd (leaves c) \<and> spine c \<noteq> [] \<and> chain nodes (leaves c) (last os)"
  shows "outs \<noteq> [] \<and> hd (concat (map leaves cs)) = hd (leaves (hd cs)) \<and> chain nodes (concat (map leaves cs)) (last outs)"
  using assms
proof (induction P cs ks lo hi outs rule: siblings.induct)
  case (1 P c lo hi outs)
  then show ?case by auto
next
  case (2 P c d cs k ks lo hi outs)
  from "2.prems"(1) have c: "P c lo (Some k) (map Some (spine d))" and rest: "siblings P (d # cs) ks (Some k) hi outs" by auto
  from siblings_member [OF rest, of d] obtain l u os where d: "P d l u os" by auto
  note IH = "2.IH" [OF rest "2.prems"(2)]
  have "chain nodes (leaves c) (Some (hd (leaves d)))"
    using "2.prems"(2) [OF c] "2.prems"(2) [OF d] by (simp add: last_map)
  then have "chain nodes (leaves c @ concat (map leaves (d # cs))) (last outs)"
    using IH by (intro chain_join) auto
  moreover have "leaves c \<noteq> []" using "2.prems"(2) [OF c] by auto
  ultimately show ?case using IH by simp
qed auto

lemma node_wf_chain:
  "node_wf nodes h s lo hi outs \<Longrightarrow>
     outs \<noteq> [] \<and> last (spine s) = hd (leaves s) \<and> spine s \<noteq> [] \<and> chain nodes (leaves s) (last outs)"
proof (induction h arbitrary: s lo hi outs)
  case 0
  then show ?case by auto
next
  case (Suc h)
  then obtain i keys cs r os where s: "s = SNode i cs" "outs = r # os"
    and sib: "siblings (node_wf nodes h) cs keys lo hi os" by auto
  from siblings_chain [OF sib Suc.IH] have ch: "os \<noteq> []" "hd (concat (map leaves cs)) = hd (leaves (hd cs))"
    "chain nodes (concat (map leaves cs)) (last os)" by auto
  obtain c cs' where cs: "cs = c # cs'" using siblings_keys [OF sib] by (cases cs) auto
  with siblings_member [OF sib, of c] Suc.IH have "last (spine c) = hd (leaves c)" "spine c \<noteq> []" by auto
  with s ch cs show ?case by simp
qed

subsection \<open>Scans\<close>

lemma leftmost_leaf_correct:
  "node_wf nodes h s lo hi outs \<Longrightarrow> leftmost_leaf_loop nodes (sid s) = Some (hd (leaves s))"
proof (induction h arbitrary: s lo hi outs)
  case 0
  then show ?case by (auto simp: vec_get_def leftmost_leaf_loop.simps)
next
  case (Suc h)
  then obtain i keys cs r os where s: "s = SNode i cs" "i < length nodes"
    "nodes ! i = BInternal keys (map sid cs) r hi"
    and sib: "siblings (node_wf nodes h) cs keys lo hi os" by auto
  obtain c cs' where cs: "cs = c # cs'" using siblings_keys [OF sib] by (cases cs) auto
  obtain l u os' where c: "node_wf nodes h c l u os'" using siblings_member [OF sib, of c] cs by auto
  from Suc.IH [OF c] s cs have "leftmost_leaf_loop nodes i = Some (hd (leaves c))"
    by (subst leftmost_leaf_loop.simps) (simp add: vec_get_def)
  moreover have "leaves c \<noteq> []" using node_wf_chain [OF c] by auto
  ultimately show ?case using s(1) cs by simp
qed

lemma leftmost_leaf_for_correct:
  "node_wf nodes h s lo hi outs \<Longrightarrow> covers key lo hi \<Longrightarrow>
     \<exists>pre i post. leftmost_leaf_for_loop nodes key (sid s) = Some i \<and> leaves s = pre @ i # post \<and>
       (\<forall>k \<in> set (map fst (concat (map (leaf_entries nodes) pre))). k < key)"
proof (induction h arbitrary: s lo hi outs)
  case 0
  then show ?case
    by (auto simp: vec_get_def leftmost_leaf_for_loop.simps intro: exI [of _ "[]"])
next
  case (Suc h)
  then obtain i keys cs r os where s: "s = SNode i cs" "i < length nodes"
    "nodes ! i = BInternal keys (map sid cs) r hi"
    and sib: "siblings (node_wf nodes h) cs keys lo hi os" by auto
  obtain cs1 c cs2 l u os' where
    c: "cs = cs1 @ c # cs2" "length cs1 = child_index keys key" "node_wf nodes h c l u os'" "covers key l u"
    "\<forall>k \<in> set (map fst (concat (map (entries nodes) cs1))). k < key"
    using node_hole [OF sib Suc.prems(2)] by blast
  from Suc.IH [OF c(3,4)] obtain pre j post where j: "leftmost_leaf_for_loop nodes key (sid c) = Some j"
    "leaves c = pre @ j # post" "\<forall>k \<in> set (map fst (concat (map (leaf_entries nodes) pre))). k < key" by blast
  have "leftmost_leaf_for_loop nodes key i = Some j"
    using s c(1) j(1) by (subst leftmost_leaf_for_loop.simps) (simp add: vec_get_def nth_append flip: c(2))
  moreover have "leaves s = (concat (map leaves cs1) @ pre) @ j # (post @ concat (map leaves cs2))"
    using s(1) c(1) j(2) by simp
  moreover have "concat (map (leaf_entries nodes) (concat (map leaves cs1))) = concat (map (entries nodes) cs1)"
    by (induction cs1) (simp_all add: entries_def)
  then have "\<forall>k \<in> set (map fst (concat (map (leaf_entries nodes) (concat (map leaves cs1) @ pre)))). k < key"
    using c(5) j(3) by (simp only: map_append concat_append set_append ball_Un)
  ultimately show ?case unfolding s(1) sid.simps by blast
qed

lemma blink_len_loop_correct:
  "chain nodes ls None \<Longrightarrow> blink_len_loop nodes (hd ls) n = Some (n + length (concat (map (leaf_entries nodes) ls)))"
proof (induction ls arbitrary: n)
  case Nil
  then show ?case by simp
next
  case (Cons i ls)
  then obtain keys vals high where i: "i < length nodes"
    "nodes ! i = BLeaf keys vals (case ls of [] \<Rightarrow> None | j # _ \<Rightarrow> Some j) high" "length keys = length vals" by auto
  then have e: "length (leaf_entries nodes i) = length keys" by (simp add: leaf_entries_def)
  show ?case
  proof (cases ls)
    case Nil
    with i e show ?thesis by (subst list.sel, subst blink_len_loop.simps) (simp add: vec_get_def)
  next
    case (Cons j js)
    with Cons.prems have "chain nodes ls None" by simp
    from Cons.IH [OF this, of "n + length keys"] Cons i e show ?thesis
      by (subst list.sel, subst blink_len_loop.simps) (simp add: vec_get_def)
  qed
qed

definition in_range :: "nat \<Rightarrow> nat \<Rightarrow> nat \<times> bytes \<Rightarrow> bool" where
  "in_range lo hi kv \<longleftrightarrow> lo \<le> fst kv \<and> fst kv < hi"

lemma range_leaf_correct:
  "length keys = length vals \<Longrightarrow> sorted_wrt (<) keys \<Longrightarrow>
     range_leaf lo hi keys vals out =
       Some (out @ filter (in_range lo hi) (zip keys vals), list_ex (\<lambda>k. hi \<le> k) keys)"
proof (induction keys vals arbitrary: out rule: list_induct2)
  case Nil
  then show ?case by simp
next
  case (Cons k ks v vs)
  show ?case
  proof (cases "hi \<le> k")
    case True
    have "filter (in_range lo hi) (zip ks vs) = []"
      using Cons.prems True by (force simp: in_range_def filter_empty_conv dest: set_zip_leftD)
    moreover have "\<not> in_range lo hi (k, v)" using True by (simp add: in_range_def)
    ultimately show ?thesis using True by simp
  next
    case False
    then have "in_range lo hi (k, v) \<longleftrightarrow> lo \<le> k" by (simp add: in_range_def)
    with Cons False show ?thesis by simp
  qed
qed

lemma blink_range_loop_correct:
  "chain nodes ls None \<Longrightarrow> sorted_wrt (<) (map fst (concat (map (leaf_entries nodes) ls))) \<Longrightarrow>
     blink_range_loop nodes lo hi (hd ls) out =
       Some (out @ filter (in_range lo hi) (concat (map (leaf_entries nodes) ls)))"
proof (induction ls arbitrary: out)
  case Nil
  then show ?case by simp
next
  case (Cons i ls)
  then obtain keys vals high where i: "i < length nodes"
    "nodes ! i = BLeaf keys vals (case ls of [] \<Rightarrow> None | j # _ \<Rightarrow> Some j) high" "length keys = length vals" by auto
  have e: "leaf_entries nodes i = zip keys vals" using i by (simp add: leaf_entries_def)
  have srt: "sorted_wrt (<) keys" and ls: "sorted_wrt (<) (map fst (concat (map (leaf_entries nodes) ls)))"
    and less: "\<forall>a \<in> set keys. \<forall>b \<in> set (map fst (concat (map (leaf_entries nodes) ls))). a < b"
    using Cons.prems(2) e i(3) by (simp_all add: sorted_wrt_append del: set_map set_concat)
  note leaf = range_leaf_correct [OF i(3) srt, of lo hi out]
  show ?case
  proof (cases "list_ex (\<lambda>k. hi \<le> k) keys")
    case True
    then have "filter (in_range lo hi) (concat (map (leaf_entries nodes) ls)) = []"
      using less by (fastforce simp: list_ex_iff in_range_def filter_empty_conv)
    then show ?thesis using i True leaf e
      by (subst list.sel, subst blink_range_loop.simps) (simp add: vec_get_def)
  next
    case False
    show ?thesis
    proof (cases ls)
      case Nil
      with i False leaf e show ?thesis
        by (subst list.sel, subst blink_range_loop.simps) (simp add: vec_get_def)
    next
      case (Cons j js)
      with Cons.prems(1) have "chain nodes ls None" by simp
      from Cons.IH [OF this ls, of "out @ filter (in_range lo hi) (zip keys vals)"] Cons i False leaf e show ?thesis
        by (subst list.sel, subst blink_range_loop.simps) (simp add: vec_get_def)
    qed
  qed
qed

subsection \<open>The whole tree\<close>

definition blink_rel :: "blink \<Rightarrow> (nat, bytes) bmap \<Rightarrow> bool" where
  "blink_rel t m \<longleftrightarrow> (\<exists>h s. blink_repr t h s \<and> m = entries (bl_nodes t) s)"

lemma covers_all: "covers key None None"
  by (simp add: covers_def)

lemma blink_relE:
  assumes "blink_rel t m"
  obtains h s where "sid s = bl_root t" "distinct (ids s)"
    "node_wf (bl_nodes t) h s None None (replicate (Suc h) None)" "m = entries (bl_nodes t) s"
  using assms by (auto simp: blink_rel_def blink_repr_def)

lemma blink_relI:
  "sid s = bl_root t \<Longrightarrow> distinct (ids s) \<Longrightarrow> node_wf (bl_nodes t) h s None None (replicate (Suc h) None) \<Longrightarrow>
   entries (bl_nodes t) s = m \<Longrightarrow> blink_rel t m"
  unfolding blink_rel_def blink_repr_def by blast

lemma tree_chain: "node_wf nodes h s None None (replicate (Suc h) None) \<Longrightarrow> chain nodes (leaves s) None"
  using node_wf_chain [of nodes h s None None "replicate (Suc h) None"] last_replicate [of "Suc h" None]
  by (simp del: replicate_Suc node_wf.simps)

lemma blink_rel_new: "blink_rel blink_new []"
  unfolding blink_rel_def blink_repr_def
  by (rule exI [of _ 0], rule exI [of _ "SLeaf 0"]) (simp add: blink_new_def leaf_entries_def)

lemma blink_get_correct: "blink_rel t m \<Longrightarrow> blink_get t key = Some (bt_get m key)"
  by (erule blink_relE) (metis blink_get_def blink_get_loop_correct covers_all)

lemma blink_delete_correct:
  assumes "blink_rel t m"
  shows "\<exists>t'. blink_delete t key = Some (t', bt_get m key) \<and> blink_rel t' (bt_remove key m)"
proof -
  from assms obtain h s where s: "sid s = bl_root t" "distinct (ids s)"
    "node_wf (bl_nodes t) h s None None (replicate (Suc h) None)" "m = entries (bl_nodes t) s"
    by (rule blink_relE)
  from blink_delete_loop_correct [OF s(3) covers_all s(2), of key] obtain nodes' where
    d: "blink_delete_loop (bl_nodes t) key (sid s) = Some (nodes', bt_get (entries (bl_nodes t) s) key)"
    "node_wf nodes' h s None None (replicate (Suc h) None)" "entries nodes' s = bt_remove key (entries (bl_nodes t) s)"
    by blast
  have "blink_rel (t\<lparr>bl_nodes := nodes'\<rparr>) (bt_remove key m)"
    by (rule blink_relI [of s _ h]) (use s d(2,3) in \<open>simp_all del: replicate_Suc node_wf.simps\<close>)
  with d(1) s(1,4) show ?thesis by (auto simp: blink_delete_def)
qed

lemma node_wf_append: "node_wf nodes h s lo hi outs \<Longrightarrow> node_wf (nodes @ xs) h s lo hi outs"
  and entries_append: "node_wf nodes h s lo hi outs \<Longrightarrow> entries (nodes @ xs) s = entries nodes s"
proof -
  assume wf: "node_wf nodes h s lo hi outs"
  have "untouched nodes (nodes @ xs) {}" by (auto simp: untouched_def nth_append)
  from untouched_frame [OF this wf] show "node_wf (nodes @ xs) h s lo hi outs" "entries (nodes @ xs) s = entries nodes s"
    by simp_all
qed

lemma blink_insert_correct:
  assumes "blink_rel t m"
  shows "\<exists>t'. blink_insert t key v = Some t' \<and> blink_rel t' (bt_insert key v m)"
proof -
  from assms obtain h s where s: "sid s = bl_root t" "distinct (ids s)"
    "node_wf (bl_nodes t) h s None None (replicate (Suc h) None)" "m = entries (bl_nodes t) s"
    by (rule blink_relE)
  from insert_rec_correct [OF s(3) covers_all s(2), of key v] obtain nodes' r where
    i: "insert_rec (bl_nodes t) (bl_root t) key v = Some (nodes', r)"
    and un: "untouched (bl_nodes t) nodes' (set (ids s))"
    and g: "grown (bl_nodes t) nodes' h s None None (replicate (Suc h) None) (bt_insert key v m) r"
    using s(1,4) by auto
  show ?thesis
  proof (cases r)
    case None
    with g obtain s' where s': "node_wf nodes' h s' None None (replicate (Suc h) None)" "sid s' = sid s"
      "new_ids (bl_nodes t) nodes' s (ids s')" "entries nodes' s' = bt_insert key v m"
      unfolding grown_def by auto
    then have "blink_rel (t\<lparr>bl_nodes := nodes'\<rparr>) (bt_insert key v m)"
      using s(1) by (intro blink_relI [of s' _ h]) (simp_all add: new_ids_def del: replicate_Suc node_wf.simps)
    with i None show ?thesis by (simp add: blink_insert_def)
  next
    case (Some q)
    then obtain sep rid where r: "r = Some (sep, rid)" by (cases q) auto
    from g [unfolded r grown_def option.case prod.case] obtain s1 s2 where s12: "node_wf nodes' h s1 None (Some sep) (map Some (spine s2))"
      "node_wf nodes' h s2 (Some sep) None (replicate (Suc h) None)" "sid s1 = sid s" "sid s2 = rid"
      "new_ids (bl_nodes t) nodes' s (ids s1 @ ids s2)" "entries nodes' s1 @ entries nodes' s2 = bt_insert key v m"
      by blast
    let ?n = "length nodes'"
    let ?nodes = "nodes' @ [BInternal [sep] [bl_root t, rid] None None]" and ?s = "SNode ?n [s1, s2]"
    have "node_wf ?nodes (Suc h) ?s None None (replicate (Suc (Suc h)) None)"
      using node_wf_append [OF s12(1)] node_wf_append [OF s12(2)] s12(3,4) s(1)
      by (simp add: NODE_CAPACITY_def del: replicate_Suc node_wf.simps(1)) simp
    moreover have "distinct (ids ?s)"
      using s12(5) node_wf_ids [OF s12(1)] node_wf_ids [OF s12(2)] by (auto simp: new_ids_def)
    moreover have "entries ?nodes ?s = bt_insert key v m"
      using s12(6) entries_append [OF s12(1)] entries_append [OF s12(2)] by simp
    ultimately have "blink_rel \<lparr>bl_nodes = ?nodes, bl_root = ?n\<rparr> (bt_insert key v m)"
      by (intro blink_relI [of ?s _ "Suc h"]) (simp_all del: replicate_Suc node_wf.simps entries_simps)
    with i r show ?thesis by (simp add: blink_insert_def)
  qed
qed

lemma blink_range_correct:
  assumes "blink_rel t m"
  shows "blink_range t lo hi = Some (filter (in_range lo hi) m)"
proof (cases "hi \<le> lo")
  case True
  then have "filter (in_range lo hi) m = []" by (auto simp: in_range_def filter_empty_conv)
  with True show ?thesis by (simp add: blink_range_def)
next
  case False
  let ?n = "bl_nodes t"
  from assms obtain h s where s: "sid s = bl_root t"
    "node_wf ?n h s None None (replicate (Suc h) None)" "m = entries ?n s"
    by (rule blink_relE)
  from leftmost_leaf_for_correct [OF s(2) covers_all, of lo] obtain pre i post where
    i: "leftmost_leaf_for t lo = Some i" "leaves s = pre @ i # post"
    "\<forall>k \<in> set (map fst (concat (map (leaf_entries ?n) pre))). k < lo"
    using s(1) by (auto simp: leftmost_leaf_for_def)
  have m: "m = concat (map (leaf_entries ?n) pre) @ concat (map (leaf_entries ?n) (i # post))"
    using s(3) i(2) by (simp add: entries_def)
  have "sorted_wrt (<) (map fst m)" using node_wf_view [OF s(2)] s(3) by (simp add: keys_in_def)
  then have "sorted_wrt (<) (map fst (concat (map (leaf_entries ?n) (i # post))))"
    unfolding m map_append sorted_wrt_append by blast
  moreover have "chain ?n (i # post) None"
    using tree_chain [OF s(2)] chain_suffix [of ?n pre i post None] i(2) by simp
  ultimately have "blink_range_loop ?n lo hi i [] = Some (filter (in_range lo hi) (concat (map (leaf_entries ?n) (i # post))))"
    using blink_range_loop_correct [of ?n "i # post" lo hi "[]"] by simp
  moreover have "filter (in_range lo hi) (concat (map (leaf_entries ?n) pre)) = []"
    using i(3) by (fastforce simp: in_range_def filter_empty_conv)
  ultimately show ?thesis using False i(1) by (simp add: blink_range_def m)
qed

lemma blink_len_correct:
  assumes "blink_rel t m"
  shows "blink_len t = Some (length m)"
proof -
  from assms obtain h s where s: "sid s = bl_root t"
    "node_wf (bl_nodes t) h s None None (replicate (Suc h) None)" "m = entries (bl_nodes t) s"
    by (rule blink_relE)
  have "chain (bl_nodes t) (leaves s) None" by (rule tree_chain [OF s(2)])
  from blink_len_loop_correct [OF this, of 0] leftmost_leaf_correct [OF s(2)] s(1,3) show ?thesis
    by (simp add: blink_len_def entries_def)
qed

subsection \<open>The index as a map\<close>

datatype index_op = IxGet nat | IxInsert nat bytes | IxDelete nat | IxRange nat nat | IxLen

datatype index_result = RxValue "bytes option" | RxDone | RxPairs "(nat \<times> bytes) list" | RxCount nat

fun blink_call :: "blink \<Rightarrow> index_op \<Rightarrow> (blink \<times> index_result) panics" where
  "blink_call t (IxGet k) = map_option (\<lambda>r. (t, RxValue r)) (blink_get t k)"
| "blink_call t (IxInsert k v) = map_option (\<lambda>t'. (t', RxDone)) (blink_insert t k v)"
| "blink_call t (IxDelete k) = map_option (\<lambda>(t', r). (t', RxValue r)) (blink_delete t k)"
| "blink_call t (IxRange lo hi) = map_option (\<lambda>r. (t, RxPairs r)) (blink_range t lo hi)"
| "blink_call t IxLen = map_option (\<lambda>n. (t, RxCount n)) (blink_len t)"

fun map_call :: "(nat, bytes) bmap \<Rightarrow> index_op \<Rightarrow> (nat, bytes) bmap \<times> index_result" where
  "map_call m (IxGet k) = (m, RxValue (bt_get m k))"
| "map_call m (IxInsert k v) = (bt_insert k v m, RxDone)"
| "map_call m (IxDelete k) = (bt_remove k m, RxValue (bt_get m k))"
| "map_call m (IxRange lo hi) = (m, RxPairs (filter (in_range lo hi) m))"
| "map_call m IxLen = (m, RxCount (length m))"

interpretation index: simulation blink_call map_call blink_rel
proof
  fix t m a
  assume rel: "blink_rel t m"
  show "\<exists>t'. blink_call t a = Some (t', snd (map_call m a)) \<and> blink_rel t' (fst (map_call m a))"
  proof (cases a)
    case (IxInsert k v)
    with blink_insert_correct [OF rel, of k v] show ?thesis by auto
  next
    case (IxDelete k)
    with blink_delete_correct [OF rel, of k] show ?thesis by auto
  qed (use rel blink_get_correct [OF rel] blink_range_correct [OF rel] blink_len_correct [OF rel] in auto)
qed

text \<open>
  C2. The B-Link tree implements an ordered map. Starting from the empty tree, any sequence of lookups,
  insertions, deletions, range scans and counts returns (no index out of bounds, no endless descent or scan),
  and the results are those of the same sequence on a list of pairs sorted by key: a lookup finds what was
  last inserted and not deleted, a range scan lists exactly the pairs in the range in key order, the count is the number of
  keys. Node splits at every level, the new root, right links and high keys included.
\<close>
theorem blink_implements_map:
  "\<exists>t. run_calls blink_call blink_new ops = Some (t, snd (run_spec map_call [] ops))"
  using index.run_simulates [OF blink_rel_new, of ops] by blast

lemma node_fits_page: "assert_node_fits_page = Some 3595"
  by (simp add: assert_node_fits_page_def NODE_HEADER_BYTES_def NODE_CAPACITY_def VALUE_SLOT_BYTES_def PAGE_SIZE_def)

end
