(* ===== verification/F64.thy ===== *)
theory F64
  imports Prelude Complex_Main "HOL-Library.Log_Nat"
begin

text \<open>
  Rust's \<open>f64\<close>, as far as the linear-arithmetic solver uses it.

  A double is represented by its IEEE-754 bit pattern, a 64-bit natural number: sign bit, 11 bits
  of exponent, 52 bits of fraction. \<open>f64_value\<close> is the real number a finite pattern
  stands for, written as in the standard (with the implicit leading bit and the exponent bias).
  The arithmetic rounds to nearest, ties to even. Not-a-number results are the one quiet pattern;
  the program does not look at their payload.
\<close>

type_synonym f64 = nat

definition f64_sign :: "f64 \<Rightarrow> nat" where
  "f64_sign b = b div 2 ^ 63"

definition f64_exp_bits :: "f64 \<Rightarrow> nat" where
  "f64_exp_bits b = (b div 2 ^ 52) mod 2 ^ 11"

definition f64_frac :: "f64 \<Rightarrow> nat" where
  "f64_frac b = b mod 2 ^ 52"

definition f64_is_finite :: "f64 \<Rightarrow> bool" where
  "f64_is_finite b \<longleftrightarrow> f64_exp_bits b \<noteq> 2047"

definition f64_is_nan :: "f64 \<Rightarrow> bool" where
  "f64_is_nan b \<longleftrightarrow> f64_exp_bits b = 2047 \<and> f64_frac b \<noteq> 0"

definition f64_is_zero :: "f64 \<Rightarrow> bool" where
  "f64_is_zero b \<longleftrightarrow> f64_exp_bits b = 0 \<and> f64_frac b = 0"

text \<open>The value of a finite double, by the standard's formula.\<close>

definition f64_value :: "f64 \<Rightarrow> real" where
  "f64_value b =
     (- 1) ^ f64_sign b *
     (if f64_exp_bits b = 0
      then (real (f64_frac b) / 2 ^ 52) * 2 powi (- 1022)
      else (1 + real (f64_frac b) / 2 ^ 52) * 2 powi (int (f64_exp_bits b) - 1023))"

text \<open>Integer mantissa and exponent of a finite double: its value is \<open>mantissa * 2 ^ exponent\<close>.\<close>

definition f64_mantissa :: "f64 \<Rightarrow> nat" where
  "f64_mantissa b = (if f64_exp_bits b = 0 then f64_frac b else 2 ^ 52 + f64_frac b)"

definition f64_exponent :: "f64 \<Rightarrow> int" where
  "f64_exponent b = (if f64_exp_bits b = 0 then - 1074 else int (f64_exp_bits b) - 1075)"

definition f64_signed_mantissa :: "f64 \<Rightarrow> int" where
  "f64_signed_mantissa b = (if f64_sign b = 1 then - int (f64_mantissa b) else int (f64_mantissa b))"

lemma f64_frac_less: "f64_frac b < 2 ^ 52"
  by (simp add: f64_frac_def)

lemma f64_mantissa_less: "f64_mantissa b < 2 ^ 53"
  using f64_frac_less [of b] by (auto simp: f64_mantissa_def)

lemma f64_exp_bits_le: "f64_exp_bits b \<le> 2047"
  using mod_less_divisor [of "2 ^ 11" "b div 2 ^ 52"] by (simp add: f64_exp_bits_def)

lemma f64_sign_le: "fits 64 b \<Longrightarrow> f64_sign b \<le> 1"
  by (simp add: f64_sign_def fits_def)

lemma powi_shift: "(2 :: real) powi (e - 52) = 2 powi e / 2 ^ 52"
  by (simp add: power_int_diff)

lemma f64_value_parts:
  assumes "fits 64 b"
  shows "f64_value b = of_int (f64_signed_mantissa b) * 2 powi f64_exponent b"
proof -
  have sg: "(- 1 :: real) ^ f64_sign b = (if f64_sign b = 1 then - 1 else 1)"
    using f64_sign_le [OF assms] by (cases "f64_sign b") auto
  show ?thesis
  proof (cases "f64_exp_bits b = 0")
    case True
    then have "(2 :: real) powi f64_exponent b = 2 powi (- 1022) / 2 ^ 52"
      using powi_shift [of "- 1022"] by (simp add: f64_exponent_def)
    with True sg show ?thesis
      by (simp add: f64_value_def f64_signed_mantissa_def f64_mantissa_def)
  next
    case False
    then have e: "(2 :: real) powi f64_exponent b = 2 powi (int (f64_exp_bits b) - 1023) / 2 ^ 52"
      using powi_shift [of "int (f64_exp_bits b) - 1023"] by (simp add: f64_exponent_def)
    have "(1 + real (f64_frac b) / 2 ^ 52) * 2 ^ 52 = real (2 ^ 52 + f64_frac b)"
      by (simp add: field_simps)
    with False sg e show ?thesis
      by (simp add: f64_value_def f64_signed_mantissa_def f64_mantissa_def field_simps)
  qed
qed

subsection \<open>Rounding\<close>

definition round_half_even :: "nat \<Rightarrow> nat \<Rightarrow> nat" where
  "round_half_even p q =
     (let d = p div q; r = p mod q in
      if 2 * r < q then d else if q < 2 * r then d + 1 else if even d then d else d + 1)"

text \<open>The exponent of the leading bit of \<open>p / q\<close>.\<close>

definition ilog2_frac :: "nat \<Rightarrow> nat \<Rightarrow> int" where
  "ilog2_frac p q =
     (let d = int (floorlog 2 p) - int (floorlog 2 q) in
      if (if 0 \<le> d then q * 2 ^ nat d \<le> p else q \<le> p * 2 ^ nat (- d)) then d else d - 1)"

text \<open>The pattern of the double nearest to \<open>p / q\<close>; a magnitude beyond the range is infinity.\<close>

definition f64_round :: "nat \<Rightarrow> nat \<Rightarrow> f64" where
  "f64_round p q =
     (if p = 0 then 0
      else let e = max (- 1022) (ilog2_frac p q); s = e - 52;
               m = (if 0 \<le> s then round_half_even p (q * 2 ^ nat s)
                    else round_half_even (p * 2 ^ nat (- s)) q)
           in min (nat (e + 1022) * 2 ^ 52 + m) (2047 * 2 ^ 52))"

definition f64_signed :: "bool \<Rightarrow> f64 \<Rightarrow> f64" where
  "f64_signed neg b = (if neg then 2 ^ 63 + b else b)"

definition f64_inf :: f64 where
  "f64_inf = 2047 * 2 ^ 52"

definition f64_nan :: f64 where
  "f64_nan = 4095 * 2 ^ 51"

definition f64_neg :: "f64 \<Rightarrow> f64" where
  "f64_neg b = (if f64_sign b = 1 then b - 2 ^ 63 else b + 2 ^ 63)"

text \<open>An integer times a power of two, rounded.\<close>

definition f64_of_scaled :: "int \<Rightarrow> int \<Rightarrow> f64" where
  "f64_of_scaled m e =
     f64_signed (m < 0)
       (if 0 \<le> e then f64_round (nat \<bar>m\<bar> * 2 ^ nat e) 1 else f64_round (nat \<bar>m\<bar>) (2 ^ nat (- e)))"

definition f64_of_int :: "int \<Rightarrow> f64" where
  "f64_of_int i = f64_of_scaled i 0"

definition f64_add :: "f64 \<Rightarrow> f64 \<Rightarrow> f64" where
  "f64_add a b =
     (if f64_is_nan a \<or> f64_is_nan b then f64_nan
      else if \<not> f64_is_finite a then (if f64_is_finite b \<or> a = b then a else f64_nan)
      else if \<not> f64_is_finite b then b
      else if f64_is_zero a \<and> f64_is_zero b then f64_signed (f64_sign a = 1 \<and> f64_sign b = 1) 0
      else let e = min (f64_exponent a) (f64_exponent b) in
           f64_of_scaled
             (f64_signed_mantissa a * 2 ^ nat (f64_exponent a - e)
                + f64_signed_mantissa b * 2 ^ nat (f64_exponent b - e)) e)"

definition f64_mul :: "f64 \<Rightarrow> f64 \<Rightarrow> f64" where
  "f64_mul a b =
     (let neg = (f64_sign a \<noteq> f64_sign b) in
      if f64_is_nan a \<or> f64_is_nan b then f64_nan
      else if \<not> f64_is_finite a \<or> \<not> f64_is_finite b
      then (if f64_is_zero a \<or> f64_is_zero b then f64_nan else f64_signed neg f64_inf)
      else let e = f64_exponent a + f64_exponent b; m = f64_mantissa a * f64_mantissa b in
           f64_signed neg
             (if 0 \<le> e then f64_round (m * 2 ^ nat e) 1 else f64_round m (2 ^ nat (- e))))"

definition f64_div :: "f64 \<Rightarrow> f64 \<Rightarrow> f64" where
  "f64_div a b =
     (let neg = (f64_sign a \<noteq> f64_sign b) in
      if f64_is_nan a \<or> f64_is_nan b then f64_nan
      else if \<not> f64_is_finite a then (if f64_is_finite b then f64_signed neg f64_inf else f64_nan)
      else if \<not> f64_is_finite b then f64_signed neg 0
      else if f64_is_zero b then (if f64_is_zero a then f64_nan else f64_signed neg f64_inf)
      else let e = f64_exponent a - f64_exponent b in
           f64_signed neg
             (if 0 \<le> e then f64_round (f64_mantissa a * 2 ^ nat e) (f64_mantissa b)
              else f64_round (f64_mantissa a) (f64_mantissa b * 2 ^ nat (- e))))"

lemma f64_neg_parts:
  assumes "fits 64 b"
  shows "f64_exp_bits (f64_neg b) = f64_exp_bits b" and "f64_frac (f64_neg b) = f64_frac b"
    and "f64_sign (f64_neg b) = 1 - f64_sign b" and "fits 64 (f64_neg b)"
proof -
  have s: "f64_sign b = 0 \<or> f64_sign b = 1" using f64_sign_le [OF assms] by linarith
  have b: "b = f64_sign b * 2 ^ 63 + b mod 2 ^ 63"
    unfolding f64_sign_def by simp
  define c where "c = b mod 2 ^ 63"
  have c: "c < 2 ^ 63" by (simp add: c_def)
  from s b have cases: "(f64_sign b = 0 \<and> b = c \<and> f64_neg b = c + 2 ^ 63) \<or>
      (f64_sign b = 1 \<and> b = c + 2 ^ 63 \<and> f64_neg b = c)"
    unfolding f64_neg_def c_def [symmetric] by auto
  have fr: "(c + 2 ^ 63) mod 2 ^ 52 = c mod 2 ^ 52"
    using mod_mult_self1 [of c "2 ^ 11" "2 ^ 52"] by simp
  have ex: "(c + 2 ^ 63) div 2 ^ 52 mod 2 ^ 11 = c div 2 ^ 52 mod 2 ^ 11"
  proof -
    have "(c + 2 ^ 63) div 2 ^ 52 = c div 2 ^ 52 + 2 ^ 11"
      using div_mult_self1 [of "2 ^ 52" c "2 ^ 11"] by simp
    then show ?thesis by simp
  qed
  from cases fr ex c show "f64_exp_bits (f64_neg b) = f64_exp_bits b"
    and "f64_frac (f64_neg b) = f64_frac b"
    and "f64_sign (f64_neg b) = 1 - f64_sign b" and "fits 64 (f64_neg b)"
    by (auto simp: f64_exp_bits_def f64_frac_def f64_sign_def fits_def)
qed

lemma f64_neg_value: "fits 64 b \<Longrightarrow> f64_value (f64_neg b) = - f64_value b"
  using f64_sign_le [of b]
  by (cases "f64_sign b") (auto simp: f64_value_def f64_neg_parts)

end
