(* ===== verification/Exact_Rational.thy ===== *)
theory Exact_Rational
  imports F64 "HOL-Library.Signed_Division"
begin

text \<open>
  Exact rationals on 128-bit integers (\<open>mod rat\<close> of \<open>eidos-verifier\<close>), the number type of the
  linear-arithmetic solver.

  Every operation is checked: \<open>None\<close> is an overflow (or a zero denominator). The lemmas
  show that whatever is returned is the exact result, reduced to lowest terms with a positive
  denominator, and that the conversion from a double is lossless. The greatest common divisor is
  cast from \<open>u128\<close> to \<open>i128\<close> in the source; \<open>as_i128\<close> is that cast, and the divisions are
  Rust's truncating ones.
\<close>

record xrat =
  rnum :: int
  rden :: int

fun gcd_loop :: "nat \<Rightarrow> nat \<Rightarrow> nat" where
  "gcd_loop a b = (if b = 0 then a else gcd_loop b (a mod b))"

declare gcd_loop.simps [simp del]

definition gcd_u128 :: "nat \<Rightarrow> nat \<Rightarrow> nat" where
  "gcd_u128 a b = (let g = gcd_loop a b in if g = 0 then 1 else g)"

definition as_i128 :: "nat \<Rightarrow> int" where
  "as_i128 n = (if n < 2 ^ 127 then int n else int n - 2 ^ 128)"

definition unsigned_abs :: "int \<Rightarrow> nat" where
  "unsigned_abs i = nat \<bar>i\<bar>"

definition rat_zero :: xrat where
  "rat_zero = \<lparr>rnum = 0, rden = 1\<rparr>"

definition rat_new :: "int \<Rightarrow> int \<Rightarrow> xrat option" where
  "rat_new num den =
     (if den = 0 then None
      else do {
        (n, d) \<leftarrow> (if den < 0 then do { n \<leftarrow> ichecked_neg 128 num; d \<leftarrow> ichecked_neg 128 den; Some (n, d) }
                   else Some (num, den));
        (if n = 0 then Some \<lparr>rnum = 0, rden = 1\<rparr>
         else let g = as_i128 (gcd_u128 (unsigned_abs n) (unsigned_abs d)) in
              Some \<lparr>rnum = n sdiv g, rden = d sdiv g\<rparr>)
      })"

definition checked_pow2 :: "nat \<Rightarrow> int option" where
  "checked_pow2 e = ichecked 128 (2 ^ e)"

definition rat_from_f64 :: "f64 \<Rightarrow> xrat option" where
  "rat_from_f64 f =
     (if \<not> f64_is_finite f then None
      else if f64_is_zero f then Some rat_zero
      else let sign = (if f64_sign f = 1 then - 1 else 1 :: int);
               exp_bits = f64_exp_bits f;
               frac = int (f64_frac f);
               (mantissa, exp) = (if exp_bits = 0 then (frac, - 1074) else (2 ^ 52 + frac, int exp_bits - 1075))
           in do {
             signed_mantissa \<leftarrow> ichecked_mul 128 sign mantissa;
             (if 0 \<le> exp
              then do { factor \<leftarrow> checked_pow2 (nat exp); num \<leftarrow> ichecked_mul 128 signed_mantissa factor; rat_new num 1 }
              else do { den \<leftarrow> checked_pow2 (nat (- exp)); rat_new signed_mantissa den })
           })"

definition rat_to_f64 :: "xrat \<Rightarrow> f64" where
  "rat_to_f64 r = f64_div (f64_of_int (rnum r)) (f64_of_int (rden r))"

definition rat_is_zero :: "xrat \<Rightarrow> bool" where
  "rat_is_zero r \<longleftrightarrow> rnum r = 0"

definition rat_is_pos :: "xrat \<Rightarrow> bool" where
  "rat_is_pos r \<longleftrightarrow> rnum r > 0"

definition rat_is_neg :: "xrat \<Rightarrow> bool" where
  "rat_is_neg r \<longleftrightarrow> rnum r < 0"

definition rat_neg :: "xrat \<Rightarrow> xrat option" where
  "rat_neg r = do { n \<leftarrow> ichecked_neg 128 (rnum r); Some \<lparr>rnum = n, rden = rden r\<rparr> }"

definition rat_add :: "xrat \<Rightarrow> xrat \<Rightarrow> xrat option" where
  "rat_add a b =
     (let g = as_i128 (gcd_u128 (unsigned_abs (rden a)) (unsigned_abs (rden b)));
          da = rden a sdiv g; db = rden b sdiv g
      in do {
        x \<leftarrow> ichecked_mul 128 (rnum a) db;
        y \<leftarrow> ichecked_mul 128 (rnum b) da;
        num \<leftarrow> ichecked_add 128 x y;
        den \<leftarrow> ichecked_mul 128 da (rden b);
        rat_new num den
      })"

definition rat_sub :: "xrat \<Rightarrow> xrat \<Rightarrow> xrat option" where
  "rat_sub a b = do { c \<leftarrow> rat_neg b; rat_add a c }"

definition rat_mul :: "xrat \<Rightarrow> xrat \<Rightarrow> xrat option" where
  "rat_mul a b =
     (let g1 = as_i128 (gcd_u128 (unsigned_abs (rnum a)) (unsigned_abs (rden b)));
          g2 = as_i128 (gcd_u128 (unsigned_abs (rnum b)) (unsigned_abs (rden a)))
      in do {
        num \<leftarrow> ichecked_mul 128 (rnum a sdiv g1) (rnum b sdiv g2);
        den \<leftarrow> ichecked_mul 128 (rden a sdiv g2) (rden b sdiv g1);
        rat_new num den
      })"

definition rat_recip :: "xrat \<Rightarrow> xrat option" where
  "rat_recip r = (if rnum r = 0 then None else rat_new (rden r) (rnum r))"

datatype ordering = Less | Equal | Greater

definition rat_cmp :: "xrat \<Rightarrow> xrat \<Rightarrow> ordering option" where
  "rat_cmp a b = do {
     diff \<leftarrow> rat_sub a b;
     Some (if rat_is_pos diff then Greater else if rat_is_neg diff then Less else Equal)
   }"

subsection \<open>The value of a fraction and its normal form\<close>

definition rval :: "xrat \<Rightarrow> real" where
  "rval r = of_int (rnum r) / of_int (rden r)"

definition rat_wf :: "xrat \<Rightarrow> bool" where
  "rat_wf r \<longleftrightarrow> ifits 128 (rnum r) \<and> ifits 128 (rden r) \<and> rden r > 0 \<and> coprime (rnum r) (rden r)"

lemma gcd_loop_gcd: "gcd_loop a b = gcd a b"
proof (induction a b rule: gcd_loop.induct)
  case (1 a b)
  then show ?case by (subst gcd_loop.simps) (simp add: gcd_red_nat [of a b] gcd.commute)
qed

text \<open>The casts and divisions around the common divisor are exact.\<close>

lemma gcd_cast:
  assumes "0 < d" and "ifits 128 d"
  shows "as_i128 (gcd_u128 (unsigned_abs n) (unsigned_abs d)) = gcd n d"
    and "as_i128 (gcd_u128 (unsigned_abs d) (unsigned_abs n)) = gcd n d"
proof -
  define h where "h = gcd (nat \<bar>n\<bar>) (nat \<bar>d\<bar>)"
  have h: "gcd n d = int h" by (simp only: h_def gcd_int_def)
  have "0 < h" using assms(1) by (simp add: h_def)
  moreover have "gcd n d \<le> d" using assms(1) by (simp add: gcd_le2_int)
  with assms(2) h have "h < 2 ^ 127" by (simp add: ifits_def)
  moreover have "gcd_u128 (unsigned_abs n) (unsigned_abs d) = (if h = 0 then 1 else h)"
    unfolding gcd_u128_def gcd_loop_gcd unsigned_abs_def h_def Let_def ..
  ultimately have "as_i128 (gcd_u128 (unsigned_abs n) (unsigned_abs d)) = int h"
    unfolding as_i128_def by (simp only: if_True less_not_refl if_False neq0_conv [symmetric])
  moreover have "gcd_u128 (unsigned_abs d) (unsigned_abs n) = gcd_u128 (unsigned_abs n) (unsigned_abs d)"
    by (simp add: gcd_u128_def gcd_loop_gcd gcd.commute)
  ultimately show "as_i128 (gcd_u128 (unsigned_abs n) (unsigned_abs d)) = gcd n d"
    and "as_i128 (gcd_u128 (unsigned_abs d) (unsigned_abs n)) = gcd n d"
    using h by simp_all
qed

lemma sdiv_exact: "0 < g \<Longrightarrow> g dvd n \<Longrightarrow> n sdiv g = n div (g :: int)"
  by (auto simp: signed_divide_int_def sgn_if dvd_def abs_mult simp flip: mult_minus_right)

lemma of_int_div_exact: "g dvd n \<Longrightarrow> (of_int (n div g) :: real) = of_int n / of_int g" for g n :: int
  by (rule real_of_int_div)

lemma ifits_div:
  assumes "ifits w n" and "0 < g"
  shows "ifits w (n div g)"
proof -
  have "n div g \<ge> - (2 ^ (w - 1))"
  proof (cases "0 \<le> n")
    case True
    then have "0 \<le> n div g" using assms(2) by (simp add: pos_imp_zdiv_nonneg_iff)
    then show ?thesis by (rule order.trans [rotated]) simp
  next
    case False
    then have "n \<le> n div g"
      using assms(2) div_int_pos_iff [of n g] by (smt (verit) int_div_less_self zdiv_mono2_neg div_by_1)
    with assms(1) show ?thesis by (simp add: ifits_def)
  qed
  moreover have "n div g < 2 ^ (w - 1)"
  proof (cases "0 \<le> n")
    case True
    then have "n div g \<le> n" using assms(2) by (smt (verit) div_by_1 zdiv_mono2)
    with assms(1) show ?thesis by (simp add: ifits_def)
  next
    case False
    then have "n div g < 0" using assms(2) by (simp add: div_neg_pos_less0)
    then show ?thesis by (rule less_le_trans) simp
  qed
  ultimately show ?thesis by (simp add: ifits_def)
qed

lemma rat_new_positive:
  assumes "0 < d" and "ifits 128 n" and "ifits 128 d" and "n \<noteq> 0"
  defines "g \<equiv> as_i128 (gcd_u128 (unsigned_abs n) (unsigned_abs d))"
  shows "rat_wf \<lparr>rnum = n sdiv g, rden = d sdiv g\<rparr>"
    and "rval \<lparr>rnum = n sdiv g, rden = d sdiv g\<rparr> = of_int n / of_int d"
proof -
  have g: "g = gcd n d" unfolding g_def by (rule gcd_cast(1)) (use assms in auto)
  have pos: "0 < g" using assms(1) by (simp add: g)
  have dn: "g dvd n" and dd: "g dvd d" by (simp_all add: g)
  have s: "n sdiv g = n div g" "d sdiv g = d div g"
    using sdiv_exact [OF pos dn] sdiv_exact [OF pos dd] by auto
  have "0 < d div g" using assms(1) pos dd by (simp add: zdvd_imp_le pos_imp_zdiv_pos_iff)
  moreover have "coprime (n div g) (d div g)"
    unfolding g using assms(1) by (intro div_gcd_coprime) auto
  ultimately show "rat_wf \<lparr>rnum = n sdiv g, rden = d sdiv g\<rparr>"
    using assms(2,3) pos by (simp add: rat_wf_def s ifits_div)
  show "rval \<lparr>rnum = n sdiv g, rden = d sdiv g\<rparr> = of_int n / of_int d"
    using pos by (simp add: rval_def s of_int_div_exact dn dd)
qed

lemma rat_new_exact:
  assumes "rat_new n d = Some r" and "ifits 128 n" and "ifits 128 d"
  shows "rat_wf r \<and> d \<noteq> 0 \<and> rval r = of_int n / of_int d"
proof (cases "n = 0")
  case True
  with assms show ?thesis
    by (auto simp: rat_new_def rat_wf_def rval_def ichecked_neg_def ifits_def ichecked_def
        split: if_splits option.splits bind_splits)
next
  case False
  show ?thesis
  proof (cases "0 < d")
    case True
    with False assms have "r = \<lparr>rnum = n sdiv as_i128 (gcd_u128 (unsigned_abs n) (unsigned_abs d)),
        rden = d sdiv as_i128 (gcd_u128 (unsigned_abs n) (unsigned_abs d))\<rparr>"
      by (simp add: rat_new_def Let_def)
    with rat_new_positive [OF True assms(2,3) False] True show ?thesis by simp
  next
    case neg: False
    with assms False have d: "d < 0" and fit: "ifits 128 (- n)" "ifits 128 (- d)"
      and r: "r = \<lparr>rnum = (- n) sdiv as_i128 (gcd_u128 (unsigned_abs (- n)) (unsigned_abs (- d))),
        rden = (- d) sdiv as_i128 (gcd_u128 (unsigned_abs (- n)) (unsigned_abs (- d)))\<rparr>"
      by (auto simp: rat_new_def Let_def ichecked_neg_def split: if_splits bind_splits)
    from d have "0 < - d" by simp
    from rat_new_positive [OF this fit] False d r show ?thesis by simp
  qed
qed

subsection \<open>Every operation is exact\<close>

lemma rat_zero_wf [simp]: "rat_wf rat_zero" "rval rat_zero = 0"
  by (simp_all add: rat_wf_def rat_zero_def rval_def ifits_def)

lemma rat_wf_den: "rat_wf r \<Longrightarrow> 0 < rden r" "rat_wf r \<Longrightarrow> ifits 128 (rden r)"
    "rat_wf r \<Longrightarrow> ifits 128 (rnum r)"
  by (simp_all add: rat_wf_def)

lemma rat_sign:
  assumes "rat_wf r"
  shows "rat_is_zero r \<longleftrightarrow> rval r = 0" and "rat_is_pos r \<longleftrightarrow> rval r > 0" and "rat_is_neg r \<longleftrightarrow> rval r < 0"
  using rat_wf_den(1) [OF assms]
  by (auto simp: rat_is_zero_def rat_is_pos_def rat_is_neg_def rval_def
      zero_less_divide_iff divide_less_0_iff)

lemma rat_neg_exact: "rat_neg r = Some s \<Longrightarrow> rat_wf r \<Longrightarrow> rat_wf s \<and> rval s = - rval r"
  by (auto simp: rat_neg_def ichecked_neg_def rat_wf_def rval_def split: bind_splits)

lemma rat_add_exact:
  assumes "rat_add a b = Some c" and "rat_wf a" and "rat_wf b"
  shows "rat_wf c \<and> rval c = rval a + rval b"
proof -
  define g where "g = gcd (rden a) (rden b)"
  have pos: "0 < g" and da: "g dvd rden a" and db: "g dvd rden b"
    using rat_wf_den(1) [OF assms(2)] by (simp_all add: g_def)
  have cast: "as_i128 (gcd_u128 (unsigned_abs (rden a)) (unsigned_abs (rden b))) = g"
    unfolding g_def by (rule gcd_cast(1)) (use assms(3) in \<open>simp_all add: rat_wf_def\<close>)
  from assms(1) have new: "rat_new (rnum a * (rden b div g) + rnum b * (rden a div g)) (rden a div g * rden b) = Some c"
    and fit: "ifits 128 (rnum a * (rden b div g) + rnum b * (rden a div g))" "ifits 128 (rden a div g * rden b)"
    by (auto simp: rat_add_def cast Let_def sdiv_exact [OF pos da] sdiv_exact [OF pos db]
        ichecked_mul_def ichecked_add_def split: bind_splits)
  have "rval c = of_int (rnum a * (rden b div g) + rnum b * (rden a div g)) / of_int (rden a div g * rden b)"
    using rat_new_exact [OF new fit] by simp
  also have "\<dots> = rval a + rval b"
    using rat_wf_den(1) [OF assms(2)] rat_wf_den(1) [OF assms(3)] pos
    by (simp add: rval_def of_int_div_exact da db field_simps)
  finally show ?thesis using rat_new_exact [OF new fit] by simp
qed

lemma rat_sub_exact:
  "rat_sub a b = Some c \<Longrightarrow> rat_wf a \<Longrightarrow> rat_wf b \<Longrightarrow> rat_wf c \<and> rval c = rval a - rval b"
  by (auto simp: rat_sub_def split: bind_splits dest!: rat_neg_exact rat_add_exact)

lemma rat_mul_exact:
  assumes "rat_mul a b = Some c" and "rat_wf a" and "rat_wf b"
  shows "rat_wf c \<and> rval c = rval a * rval b"
proof -
  define g1 where "g1 = gcd (rnum a) (rden b)"
  define g2 where "g2 = gcd (rnum b) (rden a)"
  have pos: "0 < g1" "0 < g2" and dvd: "g1 dvd rnum a" "g1 dvd rden b" "g2 dvd rnum b" "g2 dvd rden a"
    using rat_wf_den(1) [OF assms(2)] rat_wf_den(1) [OF assms(3)] by (simp_all add: g1_def g2_def)
  have cast: "as_i128 (gcd_u128 (unsigned_abs (rnum a)) (unsigned_abs (rden b))) = g1"
    "as_i128 (gcd_u128 (unsigned_abs (rnum b)) (unsigned_abs (rden a))) = g2"
    unfolding g1_def g2_def by (rule gcd_cast(1); use assms(2,3) in \<open>simp add: rat_wf_def\<close>)+
  from assms(1) have new: "rat_new (rnum a div g1 * (rnum b div g2)) (rden a div g2 * (rden b div g1)) = Some c"
    and fit: "ifits 128 (rnum a div g1 * (rnum b div g2))" "ifits 128 (rden a div g2 * (rden b div g1))"
    by (auto simp: rat_mul_def cast Let_def sdiv_exact [OF pos(1)] sdiv_exact [OF pos(2)] dvd
        ichecked_mul_def split: bind_splits)
  have "rval c = of_int (rnum a div g1 * (rnum b div g2)) / of_int (rden a div g2 * (rden b div g1))"
    using rat_new_exact [OF new fit] by simp
  also have "\<dots> = rval a * rval b"
    using pos by (simp add: rval_def of_int_div_exact dvd field_simps)
  finally show ?thesis using rat_new_exact [OF new fit] by simp
qed

lemma rat_recip_exact:
  "rat_recip r = Some s \<Longrightarrow> rat_wf r \<Longrightarrow> rat_wf s \<and> rval r \<noteq> 0 \<and> rval s = 1 / rval r"
  using rat_new_exact [of "rden r" "rnum r" s]
  by (auto simp: rat_recip_def rval_def rat_wf_den split: if_splits dest: rat_wf_den(1))

lemma rat_cmp_exact:
  assumes "rat_cmp a b = Some c" and "rat_wf a" and "rat_wf b"
  shows "c = (if rval a < rval b then Less else if rval a = rval b then Equal else Greater)"
proof -
  from assms(1) obtain d where d: "rat_sub a b = Some d"
    and c: "c = (if rat_is_pos d then Greater else if rat_is_neg d then Less else Equal)"
    by (auto simp: rat_cmp_def split: bind_splits)
  from rat_sub_exact [OF d assms(2,3)] show ?thesis unfolding c by (auto simp: rat_sign)
qed

lemma powi_nat: "0 \<le> e \<Longrightarrow> (2 :: real) powi e = 2 ^ nat e"
  "e < 0 \<Longrightarrow> (2 :: real) powi e = 1 / 2 ^ nat (- e)"
  by (simp_all add: power_int_def power_one_over inverse_eq_divide)

lemma rat_from_f64_parts:
  "rat_from_f64 f =
     (if \<not> f64_is_finite f then None else if f64_is_zero f then Some rat_zero
      else do {
        sm \<leftarrow> ichecked 128 (f64_signed_mantissa f);
        (if 0 \<le> f64_exponent f
         then do { factor \<leftarrow> checked_pow2 (nat (f64_exponent f)); num \<leftarrow> ichecked_mul 128 sm factor; rat_new num 1 }
         else do { den \<leftarrow> checked_pow2 (nat (- f64_exponent f)); rat_new sm den })
      })"
  unfolding rat_from_f64_def f64_signed_mantissa_def f64_mantissa_def f64_exponent_def
  by (cases "f64_exp_bits f = 0"; cases "f64_sign f = 1")
    (simp_all add: ichecked_mul_def Let_def cong: if_cong)

lemma rat_from_f64_exact:
  assumes "rat_from_f64 f = Some r" and "fits 64 f"
  shows "rat_wf r \<and> f64_is_finite f \<and> rval r = f64_value f"
proof (cases "f64_is_zero f")
  case True
  with assms show ?thesis
    by (auto simp: rat_from_f64_def f64_is_zero_def f64_value_def split: if_splits)
next
  case False
  have one: "ifits 128 1" by (simp add: ifits_def)
  from assms(1) False obtain sm where fin: "f64_is_finite f" and sm: "ichecked 128 (f64_signed_mantissa f) = Some sm"
    and rest: "(if 0 \<le> f64_exponent f
         then do { factor \<leftarrow> checked_pow2 (nat (f64_exponent f)); num \<leftarrow> ichecked_mul 128 sm factor; rat_new num 1 }
         else do { den \<leftarrow> checked_pow2 (nat (- f64_exponent f)); rat_new sm den }) = Some r"
    unfolding rat_from_f64_parts by (auto split: if_split_asm simp: bind_eq_Some_conv)
  have "rat_wf r \<and> rval r = of_int (f64_signed_mantissa f) * 2 powi f64_exponent f"
  proof (cases "0 \<le> f64_exponent f")
    case True
    with rest sm have "ifits 128 (f64_signed_mantissa f * 2 ^ nat (f64_exponent f))"
      and "rat_new (f64_signed_mantissa f * 2 ^ nat (f64_exponent f)) 1 = Some r"
      by (auto simp: bind_eq_Some_conv checked_pow2_def ichecked_mul_def)
    from rat_new_exact [OF this(2,1) one] True show ?thesis by (simp add: powi_nat)
  next
    case False
    with rest sm have "ifits 128 (f64_signed_mantissa f)" "ifits 128 (2 ^ nat (- f64_exponent f))"
      and "rat_new (f64_signed_mantissa f) (2 ^ nat (- f64_exponent f)) = Some r"
      by (auto simp: bind_eq_Some_conv checked_pow2_def)
    from rat_new_exact [OF this(3,1,2)] False show ?thesis by (simp add: powi_nat)
  qed
  with fin show ?thesis by (simp add: f64_value_parts [OF assms(2)])
qed

lemmas rat_exact = rat_neg_exact rat_add_exact rat_sub_exact rat_mul_exact rat_recip_exact

end
