(* ===== verification/Linear_Solver.thy ===== *)
theory Linear_Solver
  imports Rust_Maps Exact_Rational "HOL-Library.List_Lexorder" "HOL-Library.Char_ord"
begin

text \<open>
  The decision procedure for linear real arithmetic (\<open>eidos-verifier\<close>): linear expressions with
  double coefficients, their exact rational form, Fourier-Motzkin elimination, the search for a
  model, entailment and counterexamples.

  A system is eliminated one variable at a time, in the order of the variable names; both the
  refutation \<open>fm_unsat\<close> and the search \<open>solve\<close> give up on an overflow of the rationals and when a
  round would make more than \<open>MAX_CONSTRAINTS\<close> constraints. The split of a system into upper bounds,
  lower bounds and the rest, and the combination of the bounds, are written twice in the
  source and once here. Vector lengths are unbounded numbers.
\<close>

subsection \<open>Linear expressions (LinExpr)\<close>

record lin_expr =
  le_coeffs :: "(string, f64) bmap"
  le_constant :: f64

definition f64_one :: f64 where "f64_one = 4607182418800017408"
definition f64_half :: f64 where "f64_half = 4602678819172646912"

definition lin_zero :: lin_expr where
  "lin_zero = \<lparr>le_coeffs = [], le_constant = 0\<rparr>"

definition lin_var :: "string \<Rightarrow> lin_expr" where
  "lin_var name = \<lparr>le_coeffs = [(name, f64_one)], le_constant = 0\<rparr>"

definition lin_constant :: "f64 \<Rightarrow> lin_expr" where
  "lin_constant v = \<lparr>le_coeffs = [], le_constant = v\<rparr>"

definition lin_add :: "lin_expr \<Rightarrow> lin_expr \<Rightarrow> lin_expr" where
  "lin_add a b =
     \<lparr>le_coeffs = foldl (\<lambda>cs (k, v).
          bt_insert k (f64_add (case bt_get cs k of None \<Rightarrow> 0 | Some u \<Rightarrow> u) v) cs) (le_coeffs a) (le_coeffs b),
      le_constant = f64_add (le_constant a) (le_constant b)\<rparr>"

definition lin_neg :: "lin_expr \<Rightarrow> lin_expr" where
  "lin_neg a = \<lparr>le_coeffs = map (\<lambda>(k, v). (k, f64_neg v)) (le_coeffs a), le_constant = f64_neg (le_constant a)\<rparr>"

definition lin_sub :: "lin_expr \<Rightarrow> lin_expr \<Rightarrow> lin_expr" where
  "lin_sub a b = lin_add a (lin_neg b)"

definition lin_scale :: "lin_expr \<Rightarrow> f64 \<Rightarrow> lin_expr" where
  "lin_scale a s =
     \<lparr>le_coeffs = map (\<lambda>(k, v). (k, f64_mul v s)) (le_coeffs a), le_constant = f64_mul (le_constant a) s\<rparr>"

definition lin_evaluate :: "lin_expr \<Rightarrow> (string, f64) bmap \<Rightarrow> f64" where
  "lin_evaluate a model =
     foldl (\<lambda>s (k, v). f64_add s (f64_mul v (case bt_get model k of None \<Rightarrow> 0 | Some u \<Rightarrow> u)))
       (le_constant a) (le_coeffs a)"

subsection \<open>Constraints\<close>

datatype rel = RelLe | RelLt | RelGe | RelGt | RelEq

record lin_constraint =
  c_rel :: rel
  c_e :: lin_expr

definition mk_lt :: "lin_expr \<Rightarrow> lin_constraint" where "mk_lt e = \<lparr>c_rel = RelLt, c_e = e\<rparr>"
definition mk_le :: "lin_expr \<Rightarrow> lin_constraint" where "mk_le e = \<lparr>c_rel = RelLe, c_e = e\<rparr>"
definition mk_gt :: "lin_expr \<Rightarrow> lin_constraint" where "mk_gt e = \<lparr>c_rel = RelGt, c_e = e\<rparr>"
definition mk_ge :: "lin_expr \<Rightarrow> lin_constraint" where "mk_ge e = \<lparr>c_rel = RelGe, c_e = e\<rparr>"
definition mk_eq :: "lin_expr \<Rightarrow> lin_constraint" where "mk_eq e = \<lparr>c_rel = RelEq, c_e = e\<rparr>"

subsection \<open>Exact expressions (RatExpr)\<close>

record rat_expr =
  re_coeffs :: "(string, xrat) bmap"
  re_constant :: xrat

text \<open>
  The loops that build a new coefficient map entry by entry: \<open>f\<close> computes an entry or fails, and
  entries that \<open>keep\<close> rejects are not stored.
\<close>

fun map_entries ::
    "('a \<Rightarrow> xrat option) \<Rightarrow> (xrat \<Rightarrow> bool) \<Rightarrow> (string \<times> 'a) list \<Rightarrow> (string, xrat) bmap \<Rightarrow> (string, xrat) bmap option" where
  "map_entries f keep [] acc = Some acc"
| "map_entries f keep ((k, v) # kvs) acc =
     (case f v of None \<Rightarrow> None
      | Some r \<Rightarrow> map_entries f keep kvs (if keep r then bt_insert k r acc else acc))"

definition re_from_lin :: "lin_expr \<Rightarrow> rat_expr option" where
  "re_from_lin e = do {
     coeffs \<leftarrow> map_entries rat_from_f64 (\<lambda>r. \<not> rat_is_zero r) (le_coeffs e) [];
     constant \<leftarrow> rat_from_f64 (le_constant e);
     Some \<lparr>re_coeffs = coeffs, re_constant = constant\<rparr>
   }"

fun add_entries :: "(string, xrat) bmap \<Rightarrow> (string \<times> xrat) list \<Rightarrow> (string, xrat) bmap option" where
  "add_entries coeffs [] = Some coeffs"
| "add_entries coeffs ((k, v) # kvs) =
     (case rat_add (case bt_get coeffs k of None \<Rightarrow> rat_zero | Some r \<Rightarrow> r) v of
        None \<Rightarrow> None
      | Some r \<Rightarrow> add_entries (bt_insert k r coeffs) kvs)"

definition re_add :: "rat_expr \<Rightarrow> rat_expr \<Rightarrow> rat_expr option" where
  "re_add a b = do {
     coeffs \<leftarrow> add_entries (re_coeffs a) (re_coeffs b);
     constant \<leftarrow> rat_add (re_constant a) (re_constant b);
     Some \<lparr>re_coeffs = filter (\<lambda>(_, v). \<not> rat_is_zero v) coeffs, re_constant = constant\<rparr>
   }"

definition re_neg :: "rat_expr \<Rightarrow> rat_expr option" where
  "re_neg a = do {
     coeffs \<leftarrow> map_entries rat_neg (\<lambda>_. True) (re_coeffs a) [];
     constant \<leftarrow> rat_neg (re_constant a);
     Some \<lparr>re_coeffs = coeffs, re_constant = constant\<rparr>
   }"

definition re_sub :: "rat_expr \<Rightarrow> rat_expr \<Rightarrow> rat_expr option" where
  "re_sub a b = do { c \<leftarrow> re_neg b; re_add a c }"

definition re_scale :: "rat_expr \<Rightarrow> xrat \<Rightarrow> rat_expr option" where
  "re_scale a s = do {
     coeffs \<leftarrow> map_entries (\<lambda>v. rat_mul v s) (\<lambda>r. \<not> rat_is_zero r) (re_coeffs a) [];
     constant \<leftarrow> rat_mul (re_constant a) s;
     Some \<lparr>re_coeffs = coeffs, re_constant = constant\<rparr>
   }"

fun eval_entries :: "(string, xrat) bmap \<Rightarrow> xrat \<Rightarrow> (string \<times> xrat) list \<Rightarrow> xrat option" where
  "eval_entries model s [] = Some s"
| "eval_entries model s ((k, v) # kvs) = do {
     p \<leftarrow> rat_mul v (case bt_get model k of None \<Rightarrow> rat_zero | Some r \<Rightarrow> r);
     s' \<leftarrow> rat_add s p;
     eval_entries model s' kvs
   }"

definition re_evaluate :: "rat_expr \<Rightarrow> (string, xrat) bmap \<Rightarrow> xrat option" where
  "re_evaluate e model = eval_entries model (re_constant e) (re_coeffs e)"

subsection \<open>Normal form\<close>

datatype norm_rel = NLe | NLt

type_synonym norm = "(norm_rel \<times> rat_expr) list"

definition normalize :: "lin_constraint \<Rightarrow> norm option" where
  "normalize c = do {
     re \<leftarrow> re_from_lin (c_e c);
     (case c_rel c of
        RelLe \<Rightarrow> Some [(NLe, re)]
      | RelLt \<Rightarrow> Some [(NLt, re)]
      | RelGe \<Rightarrow> do { n \<leftarrow> re_neg re; Some [(NLe, n)] }
      | RelGt \<Rightarrow> do { n \<leftarrow> re_neg re; Some [(NLt, n)] }
      | RelEq \<Rightarrow> do { n \<leftarrow> re_neg re; Some [(NLe, re), (NLe, n)] })
   }"

fun normalize_loop :: "norm \<Rightarrow> lin_constraint list \<Rightarrow> norm option" where
  "normalize_loop out [] = Some out"
| "normalize_loop out (c # cs) = do { n \<leftarrow> normalize c; normalize_loop (out @ n) cs }"

definition normalize_all :: "lin_constraint list \<Rightarrow> norm option" where
  "normalize_all constraints = normalize_loop [] constraints"

definition collect_vars :: "norm \<Rightarrow> string list" where
  "collect_vars exprs =
     map fst (foldl (\<lambda>vars (_, e). foldl (\<lambda>vars (k, _). bt_insert k () vars) vars (re_coeffs e)) [] exprs)"

subsection \<open>One round of elimination\<close>

definition MAX_CONSTRAINTS :: nat where
  "MAX_CONSTRAINTS = 200000"

type_synonym bound = "rat_expr \<times> bool"

text \<open>The bound that a constraint with coefficient \<open>cv\<close> puts on the variable \<open>v\<close>.\<close>

definition bound_of :: "string \<Rightarrow> xrat \<Rightarrow> rat_expr \<Rightarrow> rat_expr option" where
  "bound_of v cv e = do {
     inv \<leftarrow> rat_recip cv;
     n \<leftarrow> re_neg (e\<lparr>re_coeffs := bt_remove v (re_coeffs e)\<rparr>);
     re_scale n inv
   }"

fun split_bounds ::
    "string \<Rightarrow> norm \<Rightarrow> bound list \<times> bound list \<times> norm \<Rightarrow> (bound list \<times> bound list \<times> norm) option" where
  "split_bounds v [] acc = Some acc"
| "split_bounds v ((r, e) # exprs) (uppers, lowers, rest) =
     (let cv = (case bt_get (re_coeffs e) v of None \<Rightarrow> rat_zero | Some c \<Rightarrow> c) in
      if rat_is_zero cv then split_bounds v exprs (uppers, lowers, rest @ [(r, e)])
      else do {
        b \<leftarrow> bound_of v cv e;
        (if rat_is_pos cv then split_bounds v exprs (uppers @ [(b, r = NLt)], lowers, rest)
         else split_bounds v exprs (uppers, lowers @ [(b, r = NLt)], rest))
      })"

fun combine_one :: "bound \<Rightarrow> bound list \<Rightarrow> norm \<Rightarrow> norm option" where
  "combine_one u [] next = Some next"
| "combine_one (ue, us) ((le, ls) # lowers) next = do {
     combined \<leftarrow> re_sub le ue;
     combine_one (ue, us) lowers (next @ [(if us \<or> ls then NLt else NLe, combined)])
   }"

fun combine :: "bound list \<Rightarrow> bound list \<Rightarrow> norm \<Rightarrow> norm option" where
  "combine [] lowers next = Some next"
| "combine (u # uppers) lowers next = do {
     next' \<leftarrow> combine_one u lowers next;
     combine uppers lowers next'
   }"

text \<open>One round: the bounds on \<open>v\<close> and the system without it, or \<open>None\<close> when the round gives up.\<close>

definition eliminate :: "string \<Rightarrow> norm \<Rightarrow> (bound list \<times> bound list \<times> norm) option" where
  "eliminate v exprs = do {
     (uppers, lowers, rest) \<leftarrow> split_bounds v exprs ([], [], []);
     (if length rest + length uppers * length lowers > MAX_CONSTRAINTS then None
      else do { next \<leftarrow> combine uppers lowers rest; Some (uppers, lowers, next) })
   }"

subsection \<open>Refutation, entailment and search\<close>

text \<open>
  The recursions end when no variable is left. As functions on all values of the type they need not: a
  coefficient map that stores a zero is not changed by a round. \<open>None\<close> is a call that does not
  return; the solver's own give-up values are inside.
\<close>

definition refuted :: "norm_rel \<times> rat_expr \<Rightarrow> bool" where
  "refuted c = (case fst c of NLe \<Rightarrow> rat_is_pos (re_constant (snd c)) | NLt \<Rightarrow> \<not> rat_is_neg (re_constant (snd c)))"

partial_function (option) fm_unsat :: "norm \<Rightarrow> bool option" where
  "fm_unsat exprs =
     (case collect_vars exprs of
        [] \<Rightarrow> Some (list_ex refuted exprs)
      | v # _ \<Rightarrow>
          (case eliminate v exprs of
             None \<Rightarrow> Some False
           | Some (uppers, lowers, next) \<Rightarrow> fm_unsat next))"

definition unsat :: "lin_constraint list \<Rightarrow> bool option" where
  "unsat constraints =
     (case normalize_all constraints of Some nf \<Rightarrow> fm_unsat nf | None \<Rightarrow> Some False)"

definition negate :: "lin_constraint \<Rightarrow> lin_constraint list" where
  "negate c =
     (case c_rel c of
        RelLe \<Rightarrow> [mk_gt (c_e c)]
      | RelLt \<Rightarrow> [mk_ge (c_e c)]
      | RelGe \<Rightarrow> [mk_lt (c_e c)]
      | RelGt \<Rightarrow> [mk_le (c_e c)]
      | RelEq \<Rightarrow> [mk_lt (c_e c), mk_gt (c_e c)])"

definition append_constraint :: "lin_constraint list \<Rightarrow> lin_constraint \<Rightarrow> lin_constraint list" where
  "append_constraint premises extra = premises @ [extra]"

definition entails :: "lin_constraint list \<Rightarrow> lin_constraint \<Rightarrow> bool option" where
  "entails premises conclusion =
     (if c_rel conclusion = RelEq
      then do {
        a \<leftarrow> unsat (append_constraint premises (mk_lt (c_e conclusion)));
        (if a then unsat (append_constraint premises (mk_gt (c_e conclusion))) else Some False)
      }
      else unsat (premises @ negate conclusion))"

text \<open>The least upper bound (\<open>want = Less\<close>) or the greatest lower bound (\<open>want = Greater\<close>).\<close>

fun tightest :: "ordering \<Rightarrow> (string, xrat) bmap \<Rightarrow> bound list \<Rightarrow> xrat option \<Rightarrow> xrat option option" where
  "tightest want model [] cur = Some cur"
| "tightest want model ((e, _) # bs) cur = do {
     val \<leftarrow> re_evaluate e model;
     cur' \<leftarrow> (case cur of
                None \<Rightarrow> Some val
              | Some c \<Rightarrow> do { ord \<leftarrow> rat_cmp val c; Some (if ord = want then val else c) });
     tightest want model bs (Some cur')
   }"

definition pick_value :: "xrat option \<Rightarrow> xrat option \<Rightarrow> xrat option" where
  "pick_value upper_val lower_val = do {
     one \<leftarrow> rat_from_f64 f64_one;
     half \<leftarrow> rat_from_f64 f64_half;
     (case (upper_val, lower_val) of
        (Some u, Some l) \<Rightarrow> do { s \<leftarrow> rat_add u l; rat_mul s half }
      | (Some u, None) \<Rightarrow> rat_sub u one
      | (None, Some l) \<Rightarrow> rat_add l one
      | (None, None) \<Rightarrow> Some rat_zero)
   }"

definition assign_var ::
    "string \<Rightarrow> bound list \<Rightarrow> bound list \<Rightarrow> (string, xrat) bmap \<Rightarrow> (string, xrat) bmap option" where
  "assign_var v uppers lowers model = do {
     upper_val \<leftarrow> tightest Less model uppers None;
     lower_val \<leftarrow> tightest Greater model lowers None;
     val \<leftarrow> pick_value upper_val lower_val;
     Some (bt_insert v val model)
   }"

partial_function (option) solve :: "norm \<Rightarrow> (string, xrat) bmap option option" where
  "solve exprs =
     (case collect_vars exprs of
        [] \<Rightarrow> Some (if list_all (\<lambda>c. \<not> refuted c) exprs then Some [] else None)
      | v # _ \<Rightarrow>
          (case eliminate v exprs of
             None \<Rightarrow> Some None
           | Some (uppers, lowers, next) \<Rightarrow>
               Option.bind (solve next)
                 (\<lambda>r. Some (Option.bind r (assign_var v uppers lowers)))))"

definition find_model :: "lin_constraint list \<Rightarrow> (string, f64) bmap option option" where
  "find_model constraints =
     (case normalize_all constraints of
        None \<Rightarrow> Some None
      | Some nf \<Rightarrow>
          Option.bind (solve nf)
            (\<lambda>r. Some (map_option (map (\<lambda>(k, v). (k, rat_to_f64 v))) r)))"

definition counterexample ::
    "lin_constraint list \<Rightarrow> lin_constraint \<Rightarrow> (string, f64) bmap option option" where
  "counterexample premises conclusion =
     (if c_rel conclusion = RelEq
      then Option.bind (find_model (append_constraint premises (mk_lt (c_e conclusion))))
             (\<lambda>r. case r of Some m \<Rightarrow> Some (Some m)
                | None \<Rightarrow> find_model (append_constraint premises (mk_gt (c_e conclusion))))
      else find_model (premises @ negate conclusion))"

subsection \<open>Variables\<close>

definition keys_of :: "('k \<times> 'v) list \<Rightarrow> 'k set" where
  "keys_of m = fst ` set m"

definition norm_vars :: "norm \<Rightarrow> string set" where
  "norm_vars exprs = (\<Union>c \<in> set exprs. keys_of (re_coeffs (snd c)))"

lemma keys_of_simps [simp]:
  "keys_of [] = {}" "keys_of (kv # m) = insert (fst kv) (keys_of m)"
  "keys_of (bt_insert k v m) = insert k (keys_of m)"
  "keys_of (bt_remove k m) = keys_of m - {k}"
  using set_bt_insert [of k v m] by (auto simp: keys_of_def bt_remove_def)

lemma keys_of_filter: "keys_of (filter P m) \<subseteq> keys_of m"
  by (auto simp: keys_of_def)

lemma norm_vars_simps [simp]:
  "norm_vars [] = {}" "norm_vars (c # cs) = keys_of (re_coeffs (snd c)) \<union> norm_vars cs"
  "norm_vars (cs @ ds) = norm_vars cs \<union> norm_vars ds"
  by (auto simp: norm_vars_def)

lemma finite_norm_vars: "finite (norm_vars exprs)"
  by (simp add: norm_vars_def keys_of_def)

lemma keys_collect:
  "keys_of (foldl (\<lambda>vars (k, _). bt_insert k () vars) vs kvs) = keys_of kvs \<union> keys_of vs"
  by (induction kvs arbitrary: vs) (simp_all add: split_beta)

lemma collect_vars_loop:
  "keys_of (foldl (\<lambda>vars (_, e). foldl (\<lambda>vars (k, _). bt_insert k () vars) vars (re_coeffs e)) vs exprs) =
     norm_vars exprs \<union> keys_of vs"
  by (induction exprs arbitrary: vs) (auto simp: keys_collect split_beta)

lemma set_collect_vars: "set (collect_vars exprs) = norm_vars exprs"
  using collect_vars_loop [of "[]" exprs] by (simp add: collect_vars_def keys_of_def)

lemma keys_map_entries:
  "map_entries f keep kvs acc = Some out \<Longrightarrow> keys_of out \<subseteq> keys_of kvs \<union> keys_of acc"
  by (induction f keep kvs acc rule: map_entries.induct) (auto split: option.splits if_splits)

lemma keys_add_entries:
  "add_entries cs kvs = Some out \<Longrightarrow> keys_of out \<subseteq> keys_of kvs \<union> keys_of cs"
  by (induction cs kvs rule: add_entries.induct) (auto split: option.splits)

abbreviation re_vars :: "rat_expr \<Rightarrow> string set" where
  "re_vars e \<equiv> keys_of (re_coeffs e)"

lemma re_neg_vars: "re_neg a = Some b \<Longrightarrow> re_vars b \<subseteq> re_vars a"
  by (auto simp: re_neg_def bind_eq_Some_conv dest!: keys_map_entries)

lemma re_scale_vars: "re_scale a s = Some b \<Longrightarrow> re_vars b \<subseteq> re_vars a"
  by (auto simp: re_scale_def bind_eq_Some_conv dest!: keys_map_entries)

lemma re_add_vars: "re_add a b = Some c \<Longrightarrow> re_vars c \<subseteq> re_vars a \<union> re_vars b"
  using keys_of_filter keys_add_entries by (fastforce simp: re_add_def bind_eq_Some_conv)

lemma re_sub_vars:
  assumes "re_sub a b = Some c"
  shows "re_vars c \<subseteq> re_vars a \<union> re_vars b"
  using assms re_add_vars re_neg_vars by (fastforce simp: re_sub_def bind_eq_Some_conv)

lemma bound_of_vars:
  assumes "bound_of v cv e = Some b"
  shows "re_vars b \<subseteq> re_vars e - {v}"
proof -
  from assms obtain inv n where "re_neg (e\<lparr>re_coeffs := bt_remove v (re_coeffs e)\<rparr>) = Some n"
    and "re_scale n inv = Some b"
    by (auto simp: bound_of_def bind_eq_Some_conv)
  from re_neg_vars [OF this(1)] re_scale_vars [OF this(2)] show ?thesis by simp
qed

subsection \<open>The value of an expression\<close>

type_synonym assignment = "string \<Rightarrow> real"

definition coeff_sum :: "assignment \<Rightarrow> (string \<times> xrat) list \<Rightarrow> real" where
  "coeff_sum \<sigma> m = sum_list (map (\<lambda>(k, v). rval v * \<sigma> k) m)"

definition re_val :: "assignment \<Rightarrow> rat_expr \<Rightarrow> real" where
  "re_val \<sigma> e = rval (re_constant e) + coeff_sum \<sigma> (re_coeffs e)"

definition entries_ok :: "(string, xrat) bmap \<Rightarrow> bool" where
  "entries_ok m \<longleftrightarrow> bt_wf m \<and> (\<forall>kv \<in> set m. rat_wf (snd kv))"

definition re_wf :: "rat_expr \<Rightarrow> bool" where
  "re_wf e \<longleftrightarrow> entries_ok (re_coeffs e) \<and> (\<forall>kv \<in> set (re_coeffs e). \<not> rat_is_zero (snd kv)) \<and>
     rat_wf (re_constant e)"

abbreviation get0 :: "(string, xrat) bmap \<Rightarrow> string \<Rightarrow> xrat" where
  "get0 m k \<equiv> (case bt_get m k of None \<Rightarrow> rat_zero | Some r \<Rightarrow> r)"

lemma coeff_sum_simps [simp]:
  "coeff_sum \<sigma> [] = 0" "coeff_sum \<sigma> (kv # m) = rval (snd kv) * \<sigma> (fst kv) + coeff_sum \<sigma> m"
  by (simp_all add: coeff_sum_def split_beta)

lemma bt_get_fresh: "k \<notin> keys_of m \<Longrightarrow> bt_get m k = None"
  by (auto simp: bt_get_def keys_of_def map_of_eq_None_iff)

lemma bt_wf_Cons: "bt_wf (kv # m) \<longleftrightarrow> (\<forall>j \<in> keys_of m. fst kv < j) \<and> bt_wf m"
  by (auto simp: bt_wf_def keys_of_def)

lemma coeff_sum_insert:
  "bt_wf m \<Longrightarrow> coeff_sum \<sigma> (bt_insert k v m) = coeff_sum \<sigma> m + (rval v - rval (get0 m k)) * \<sigma> k"
proof (induction k v m rule: bt_insert.induct)
  case (1 k v)
  then show ?case by (simp add: bt_get_def)
next
  case (2 k v j u m)
  have "k < j \<Longrightarrow> bt_get ((j, u) # m) k = None"
    using 2(2) by (intro bt_get_fresh) (auto simp: bt_wf_Cons)
  moreover have "k \<noteq> j \<Longrightarrow> bt_get ((j, u) # m) k = bt_get m k" by (simp add: bt_get_def)
  moreover have "bt_get ((k, u) # m) k = Some u" by (simp add: bt_get_def)
  ultimately show ?case using 2 by (auto simp: bt_wf_Cons algebra_simps)
qed

lemma set_bt_insert_subset: "set (bt_insert k v m) \<subseteq> insert (k, v) (set m)"
  by (induction k v m rule: bt_insert.induct) auto

lemma entries_ok_insert: "entries_ok m \<Longrightarrow> rat_wf v \<Longrightarrow> entries_ok (bt_insert k v m)"
  using set_bt_insert_subset [of k v m] by (auto simp: entries_ok_def bt_wf_insert)

lemma entries_ok_get: "entries_ok m \<Longrightarrow> rat_wf (get0 m k)"
  by (auto simp: entries_ok_def bt_get_def split: option.split dest!: map_of_SomeD)

lemma entries_ok_Nil [simp]: "entries_ok []"
  by (simp add: entries_ok_def bt_wf_def)

lemma coeff_sum_filter:
  "\<forall>kv \<in> set m. rat_wf (snd kv) \<Longrightarrow> coeff_sum \<sigma> (filter (\<lambda>(_, v). \<not> rat_is_zero v) m) = coeff_sum \<sigma> m"
  by (induction m) (auto simp: rat_sign)

lemma entries_ok_filter: "entries_ok m \<Longrightarrow> entries_ok (filter P m)"
  by (induction m) (use keys_of_filter in \<open>force simp: entries_ok_def bt_wf_Cons\<close>)+

lemma coeff_sum_upd: "v \<notin> keys_of m \<Longrightarrow> coeff_sum (\<sigma>(v := x)) m = coeff_sum \<sigma> m"
  by (induction m) auto

lemma coeff_sum_remove:
  "bt_wf m \<Longrightarrow> coeff_sum \<sigma> m = coeff_sum \<sigma> (bt_remove k m) + rval (get0 m k) * \<sigma> k"
proof (induction m)
  case Nil
  then show ?case by (simp add: bt_remove_def bt_get_def)
next
  case (Cons kv m)
  then have IH: "coeff_sum \<sigma> m = coeff_sum \<sigma> (bt_remove k m) + rval (get0 m k) * \<sigma> k"
    by (simp add: bt_wf_Cons)
  have "fst kv = k \<Longrightarrow> bt_get m k = None"
    using Cons.prems by (intro bt_get_fresh) (auto simp: bt_wf_Cons)
  with IH show ?case by (auto simp: bt_remove_def bt_get_def split_beta)
qed

lemma map_entries_exact:
  assumes "map_entries f keep kvs acc = Some out"
    and "entries_ok acc" and "distinct (map fst kvs)" and "keys_of kvs \<inter> keys_of acc = {}"
    and "\<And>k v r. (k, v) \<in> set kvs \<Longrightarrow> f v = Some r \<Longrightarrow>
           rat_wf r \<and> rval r = g v \<and> (\<not> keep r \<longrightarrow> rval r = 0)"
  shows "entries_ok out \<and>
    coeff_sum \<sigma> out = coeff_sum \<sigma> acc + sum_list (map (\<lambda>(k, v). g v * \<sigma> k) kvs)"
  using assms
proof (induction f keep kvs acc rule: map_entries.induct)
  case (1 f keep acc)
  then show ?case by simp
next
  case (2 f keep k v kvs acc)
  from "2.prems"(1) obtain r where r: "f v = Some r"
    and out: "map_entries f keep kvs (if keep r then bt_insert k r acc else acc) = Some out"
    by (auto split: option.splits)
  let ?acc = "if keep r then bt_insert k r acc else acc"
  from "2.prems"(5) [of k v r] r have rr: "rat_wf r" "rval r = g v" "\<not> keep r \<Longrightarrow> rval r = 0" by auto
  have fresh: "bt_get acc k = None" by (rule bt_get_fresh) (use "2.prems"(4) in auto)
  have ok: "entries_ok ?acc" using "2.prems"(2) rr(1) by (simp add: entries_ok_insert)
  have sum: "coeff_sum \<sigma> ?acc = coeff_sum \<sigma> acc + g v * \<sigma> k"
    using "2.prems"(2) rr(2,3) fresh by (auto simp: coeff_sum_insert entries_ok_def)
  have "k \<notin> keys_of kvs" using "2.prems"(3) by (auto simp: keys_of_def)
  then have dis: "keys_of kvs \<inter> keys_of ?acc = {}" using "2.prems"(4) by auto
  have "entries_ok out \<and> coeff_sum \<sigma> out = coeff_sum \<sigma> ?acc + sum_list (map (\<lambda>(k, v). g v * \<sigma> k) kvs)"
    by (rule "2.IH" [OF r out ok _ dis]) (use "2.prems"(3,5) in auto)
  with sum show ?case by simp
qed

lemma map_entries_values:
  "map_entries f keep kvs acc = Some out \<Longrightarrow> \<forall>kv \<in> set acc. Q (snd kv) \<Longrightarrow>
   (\<And>k v r. (k, v) \<in> set kvs \<Longrightarrow> f v = Some r \<Longrightarrow> keep r \<Longrightarrow> Q r) \<Longrightarrow> \<forall>kv \<in> set out. Q (snd kv)"
proof (induction f keep kvs acc rule: map_entries.induct)
  case (1 f keep acc)
  then show ?case by simp
next
  case (2 f keep k v kvs acc)
  from "2.prems"(1) obtain r where r: "f v = Some r"
    and out: "map_entries f keep kvs (if keep r then bt_insert k r acc else acc) = Some out"
    by (auto split: option.splits)
  have "\<forall>kv \<in> set (if keep r then bt_insert k r acc else acc). Q (snd kv)"
    using "2.prems"(2) "2.prems"(3) [of k v r] r set_bt_insert_subset [of k r acc] by auto
  from "2.IH" [OF r out this] "2.prems"(3) show ?case by auto
qed

lemma re_wf_distinct: "re_wf e \<Longrightarrow> distinct (map fst (re_coeffs e))"
  by (simp add: re_wf_def entries_ok_def bt_wf_distinct)

lemma re_wf_entry: "re_wf e \<Longrightarrow> (k, v) \<in> set (re_coeffs e) \<Longrightarrow> rat_wf v \<and> \<not> rat_is_zero v"
  by (auto simp: re_wf_def entries_ok_def)

lemma sum_coeff_scale:
  "sum_list (map (\<lambda>(k, v). rval v * c * \<sigma> k) m) = c * coeff_sum \<sigma> m"
  by (induction m) (auto simp: algebra_simps)

lemma re_neg_exact:
  assumes "re_neg a = Some b" and "re_wf a"
  shows "re_wf b \<and> re_val \<sigma> b = - re_val \<sigma> a"
proof -
  from assms(1) obtain cs c where cs: "map_entries rat_neg (\<lambda>_. True) (re_coeffs a) [] = Some cs"
    and c: "rat_neg (re_constant a) = Some c" and b: "b = \<lparr>re_coeffs = cs, re_constant = c\<rparr>"
    by (auto simp: re_neg_def bind_eq_Some_conv)
  have step: "rat_wf r \<and> rval r = rval v * - 1 \<and> (\<not> True \<longrightarrow> rval r = 0)"
    if "(k, v) \<in> set (re_coeffs a)" "rat_neg v = Some r" for k v r
    using rat_neg_exact [OF that(2)] re_wf_entry [OF assms(2) that(1)] by simp
  from map_entries_exact [OF cs _ re_wf_distinct [OF assms(2)] _ step]
  have ok: "entries_ok cs" and sum: "coeff_sum \<sigma> cs = - coeff_sum \<sigma> (re_coeffs a)"
    using sum_coeff_scale [where c = "- 1"] by auto
  have "\<forall>kv \<in> set cs. \<not> rat_is_zero (snd kv)"
    by (rule map_entries_values [OF cs])
      (use re_wf_entry [OF assms(2)] in \<open>auto simp: rat_neg_def rat_is_zero_def ichecked_neg_def bind_eq_Some_conv\<close>)
  with ok sum rat_neg_exact [OF c] assms(2) b show ?thesis
    by (simp add: re_wf_def re_val_def)
qed

lemma re_scale_exact:
  assumes "re_scale a s = Some b" and "re_wf a" and "rat_wf s"
  shows "re_wf b \<and> re_val \<sigma> b = rval s * re_val \<sigma> a"
proof -
  from assms(1) obtain cs c
    where cs: "map_entries (\<lambda>v. rat_mul v s) (\<lambda>r. \<not> rat_is_zero r) (re_coeffs a) [] = Some cs"
    and c: "rat_mul (re_constant a) s = Some c" and b: "b = \<lparr>re_coeffs = cs, re_constant = c\<rparr>"
    by (auto simp: re_scale_def bind_eq_Some_conv)
  have step: "rat_wf r \<and> rval r = rval v * rval s \<and> (\<not> \<not> rat_is_zero r \<longrightarrow> rval r = 0)"
    if "(k, v) \<in> set (re_coeffs a)" "rat_mul v s = Some r" for k v r
    using rat_mul_exact [OF that(2) _ assms(3)] re_wf_entry [OF assms(2) that(1)] by (simp add: rat_sign)
  from map_entries_exact [OF cs _ re_wf_distinct [OF assms(2)] _ step]
  have ok: "entries_ok cs" and sum: "coeff_sum \<sigma> cs = rval s * coeff_sum \<sigma> (re_coeffs a)"
    by (auto simp: sum_coeff_scale)
  have "\<forall>kv \<in> set cs. \<not> rat_is_zero (snd kv)"
    by (rule map_entries_values [OF cs]) auto
  moreover have "rat_wf c \<and> rval c = rval s * rval (re_constant a)"
    using rat_mul_exact [OF c _ assms(3)] assms(2) by (simp add: re_wf_def)
  ultimately show ?thesis using ok sum b
    by (simp add: re_wf_def re_val_def algebra_simps)
qed

lemma add_entries_exact:
  assumes "add_entries cs kvs = Some out" and "entries_ok cs" and "\<forall>kv \<in> set kvs. rat_wf (snd kv)"
  shows "entries_ok out \<and> coeff_sum \<sigma> out = coeff_sum \<sigma> cs + coeff_sum \<sigma> kvs"
  using assms
proof (induction cs kvs rule: add_entries.induct)
  case (1 cs)
  then show ?case by simp
next
  case (2 cs k v kvs)
  from "2.prems"(1) obtain r where r: "rat_add (get0 cs k) v = Some r"
    and out: "add_entries (bt_insert k r cs) kvs = Some out"
    by (auto split: option.splits)
  have rr: "rat_wf r" "rval r = rval (get0 cs k) + rval v"
    using rat_add_exact [OF r entries_ok_get [OF "2.prems"(2)]] "2.prems"(3) by auto
  from "2.IH" [OF r out entries_ok_insert [OF "2.prems"(2) rr(1)]] "2.prems"(2,3) rr(2) show ?case
    by (simp add: coeff_sum_insert entries_ok_def algebra_simps)
qed

lemma re_add_exact:
  assumes "re_add a b = Some c" and "re_wf a" and "re_wf b"
  shows "re_wf c \<and> re_val \<sigma> c = re_val \<sigma> a + re_val \<sigma> b"
proof -
  from assms(1) obtain cs k where cs: "add_entries (re_coeffs a) (re_coeffs b) = Some cs"
    and k: "rat_add (re_constant a) (re_constant b) = Some k"
    and c: "c = \<lparr>re_coeffs = filter (\<lambda>(_, v). \<not> rat_is_zero v) cs, re_constant = k\<rparr>"
    by (auto simp: re_add_def bind_eq_Some_conv)
  from add_entries_exact [OF cs, of \<sigma>] assms(2,3)
  have ok: "entries_ok cs" and sum: "coeff_sum \<sigma> cs = coeff_sum \<sigma> (re_coeffs a) + coeff_sum \<sigma> (re_coeffs b)"
    by (auto simp: re_wf_def entries_ok_def)
  have "coeff_sum \<sigma> (filter (\<lambda>(_, v). \<not> rat_is_zero v) cs) = coeff_sum \<sigma> cs"
    by (rule coeff_sum_filter) (use ok in \<open>simp add: entries_ok_def\<close>)
  moreover have "rat_wf k \<and> rval k = rval (re_constant a) + rval (re_constant b)"
    using rat_add_exact [OF k] assms(2,3) by (simp add: re_wf_def)
  ultimately show ?thesis
    using entries_ok_filter [OF ok] sum c by (auto simp: re_wf_def re_val_def)
qed

lemma re_sub_exact:
  assumes "re_sub a b = Some c" and "re_wf a" and "re_wf b"
  shows "re_wf c \<and> re_val \<sigma> c = re_val \<sigma> a - re_val \<sigma> b"
proof -
  from assms(1) obtain d where d: "re_neg b = Some d" "re_add a d = Some c"
    by (auto simp: re_sub_def bind_eq_Some_conv)
  from re_neg_exact [OF d(1) assms(3), of \<sigma>] re_add_exact [OF d(2) assms(2), of \<sigma>] show ?thesis by simp
qed

subsection \<open>Elimination is exact\<close>

fun holds :: "assignment \<Rightarrow> norm_rel \<times> rat_expr \<Rightarrow> bool" where
  "holds \<sigma> (NLe, e) = (re_val \<sigma> e \<le> 0)"
| "holds \<sigma> (NLt, e) = (re_val \<sigma> e < 0)"

definition sat :: "assignment \<Rightarrow> norm \<Rightarrow> bool" where
  "sat \<sigma> exprs \<longleftrightarrow> (\<forall>c \<in> set exprs. holds \<sigma> c)"

definition norm_wf :: "norm \<Rightarrow> bool" where
  "norm_wf exprs \<longleftrightarrow> (\<forall>c \<in> set exprs. re_wf (snd c))"

definition above :: "assignment \<Rightarrow> bound \<Rightarrow> real \<Rightarrow> bool" where
  "above \<sigma> b x \<longleftrightarrow> (if snd b then x < re_val \<sigma> (fst b) else x \<le> re_val \<sigma> (fst b))"

definition below :: "assignment \<Rightarrow> bound \<Rightarrow> real \<Rightarrow> bool" where
  "below \<sigma> b x \<longleftrightarrow> (if snd b then re_val \<sigma> (fst b) < x else re_val \<sigma> (fst b) \<le> x)"

text \<open>The bounds of one round say about the value \<open>x\<close> of the variable what the constraints say.\<close>

definition meets :: "assignment \<Rightarrow> bound list \<times> bound list \<times> norm \<Rightarrow> real \<Rightarrow> bool" where
  "meets \<sigma> acc x \<longleftrightarrow>
     (case acc of (us, ls, rest) \<Rightarrow>
        (\<forall>u \<in> set us. above \<sigma> u x) \<and> (\<forall>l \<in> set ls. below \<sigma> l x) \<and> sat \<sigma> rest)"

definition round_ok :: "string \<Rightarrow> string set \<Rightarrow> bound list \<times> bound list \<times> norm \<Rightarrow> bool" where
  "round_ok v vars acc \<longleftrightarrow>
     (case acc of (us, ls, rest) \<Rightarrow>
        (\<forall>b \<in> set us \<union> set ls. re_wf (fst b) \<and> re_vars (fst b) \<subseteq> vars - {v}) \<and>
        norm_wf rest \<and> norm_vars rest \<subseteq> vars - {v})"

lemma sat_simps [simp]:
  "sat \<sigma> []" "sat \<sigma> (c # cs) \<longleftrightarrow> holds \<sigma> c \<and> sat \<sigma> cs" "sat \<sigma> (cs @ ds) \<longleftrightarrow> sat \<sigma> cs \<and> sat \<sigma> ds"
  by (auto simp: sat_def)

lemma norm_wf_simps [simp]:
  "norm_wf []" "norm_wf (c # cs) \<longleftrightarrow> re_wf (snd c) \<and> norm_wf cs"
  "norm_wf (cs @ ds) \<longleftrightarrow> norm_wf cs \<and> norm_wf ds"
  by (auto simp: norm_wf_def)

lemma re_val_upd: "v \<notin> re_vars e \<Longrightarrow> re_val (\<sigma>(v := x)) e = re_val \<sigma> e"
  by (simp add: re_val_def coeff_sum_upd)

lemma holds_upd: "v \<notin> re_vars (snd c) \<Longrightarrow> holds (\<sigma>(v := x)) c \<longleftrightarrow> holds \<sigma> c"
  by (cases "(\<sigma>, c)" rule: holds.cases) (auto simp: re_val_upd)

lemma re_wf_get:
  assumes "re_wf e"
  shows "rat_wf (get0 (re_coeffs e) v)" and "rat_is_zero (get0 (re_coeffs e) v) \<longleftrightarrow> v \<notin> re_vars e"
proof -
  show "rat_wf (get0 (re_coeffs e) v)"
    using assms by (intro entries_ok_get) (simp add: re_wf_def)
  show "rat_is_zero (get0 (re_coeffs e) v) \<longleftrightarrow> v \<notin> re_vars e"
  proof (cases "v \<in> re_vars e")
    case True
    then obtain c where c: "bt_get (re_coeffs e) v = Some c"
      by (cases "bt_get (re_coeffs e) v") (auto simp: keys_of_def bt_get_def map_of_eq_None_iff)
    then have "(v, c) \<in> set (re_coeffs e)" by (auto simp: bt_get_def dest: map_of_SomeD)
    with True c re_wf_entry [OF assms] show ?thesis by auto
  next
    case False
    then show ?thesis by (simp add: bt_get_fresh rat_zero_def rat_is_zero_def)
  qed
qed

lemma bound_of_exact:
  assumes "bound_of v (get0 (re_coeffs e) v) e = Some b" and "re_wf e"
  shows "re_wf b \<and> re_vars b \<subseteq> re_vars e - {v} \<and>
    re_val \<sigma> e = rval (get0 (re_coeffs e) v) * (\<sigma> v - re_val \<sigma> b)"
proof -
  let ?cv = "get0 (re_coeffs e) v" and ?a = "e\<lparr>re_coeffs := bt_remove v (re_coeffs e)\<rparr>"
  from assms(1) obtain inv n where inv: "rat_recip ?cv = Some inv" and n: "re_neg ?a = Some n"
    and b: "re_scale n inv = Some b"
    by (auto simp: bound_of_def bind_eq_Some_conv)
  have a: "re_wf ?a"
    using assms(2) by (auto simp: re_wf_def entries_ok_def bt_wf_remove) (auto simp: bt_remove_def)
  have i: "rat_wf inv" "rval ?cv \<noteq> 0" "rval inv = 1 / rval ?cv"
    using rat_recip_exact [OF inv re_wf_get(1) [OF assms(2)]] by auto
  have "re_val \<sigma> e = re_val \<sigma> ?a + rval ?cv * \<sigma> v"
    using assms(2) coeff_sum_remove [of "re_coeffs e" \<sigma> v]
    by (simp add: re_val_def re_wf_def entries_ok_def)
  moreover have "re_wf n \<and> re_val \<sigma> n = - re_val \<sigma> ?a" by (rule re_neg_exact [OF n a])
  then have "re_wf b \<and> re_val \<sigma> b = rval inv * - re_val \<sigma> ?a"
    using re_scale_exact [OF b _ i(1), of \<sigma>] by simp
  ultimately show ?thesis using i(2,3) bound_of_vars [OF assms(1)] by (simp add: field_simps)
qed

lemma split_bounds_exact:
  assumes "split_bounds v exprs acc = Some out" and "norm_wf exprs" and "norm_vars exprs \<subseteq> V"
    and "round_ok v V acc"
  shows "round_ok v V out \<and> (meets \<sigma> out (\<sigma> v) \<longleftrightarrow> meets \<sigma> acc (\<sigma> v) \<and> sat \<sigma> exprs)"
  using assms
proof (induction v exprs acc rule: split_bounds.induct)
  case (1 v acc)
  then show ?case by simp
next
  case (2 v r e exprs us ls rest)
  let ?cv = "get0 (re_coeffs e) v"
  have e: "re_wf e" using "2.prems"(2) by simp
  show ?case
  proof (cases "rat_is_zero ?cv")
    case True
    then have out: "split_bounds v exprs (us, ls, rest @ [(r, e)]) = Some out"
      using "2.prems"(1) by simp
    have "v \<notin> re_vars e" using True re_wf_get(2) [OF e] by blast
    then have "round_ok v V (us, ls, rest @ [(r, e)])"
      using "2.prems"(2,3,4) by (auto simp: round_ok_def)
    from "2.IH"(1) [OF refl True out _ _ this] "2.prems"(2,3) show ?thesis
      by (auto simp: meets_def)
  next
    case False
    then obtain b where b: "bound_of v ?cv e = Some b"
      and out: "split_bounds v exprs (if rat_is_pos ?cv then us @ [(b, r = NLt)] else us,
         if rat_is_pos ?cv then ls else ls @ [(b, r = NLt)], rest) = Some out"
      using "2.prems"(1) by (auto simp: bind_eq_Some_conv Let_def split: if_splits)
    have cv: "rval ?cv \<noteq> 0" using False rat_sign(1) [OF re_wf_get(1) [OF e]] by simp
    have pos: "rat_is_pos ?cv \<longleftrightarrow> 0 < rval ?cv" by (rule rat_sign(2) [OF re_wf_get(1) [OF e]])
    have bb: "re_wf b \<and> re_vars b \<subseteq> re_vars e - {v} \<and> re_val \<sigma> e = rval ?cv * (\<sigma> v - re_val \<sigma> b)"
      by (rule bound_of_exact [OF b e])
    then have ok: "round_ok v V (if rat_is_pos ?cv then us @ [(b, r = NLt)] else us,
         if rat_is_pos ?cv then ls else ls @ [(b, r = NLt)], rest)"
      using "2.prems"(3,4) by (auto simp: round_ok_def)
    have sem: "meets \<sigma> (if rat_is_pos ?cv then us @ [(b, r = NLt)] else us,
         if rat_is_pos ?cv then ls else ls @ [(b, r = NLt)], rest) (\<sigma> v) \<longleftrightarrow>
       meets \<sigma> (us, ls, rest) (\<sigma> v) \<and> holds \<sigma> (r, e)"
      using bb cv pos
      by (cases r) (auto simp: meets_def above_def below_def mult_le_0_iff mult_less_0_iff)
    show ?thesis
    proof (cases "rat_is_pos ?cv")
      case True
      with out ok sem "2.IH"(2) [OF refl False b True] "2.prems"(2,3) show ?thesis by auto
    next
      case neg: False
      with out ok sem "2.IH"(3) [OF refl False b neg] "2.prems"(2,3) show ?thesis by auto
    qed
  qed
qed

definition pair_holds :: "assignment \<Rightarrow> bound \<Rightarrow> bound \<Rightarrow> bool" where
  "pair_holds \<sigma> u l \<longleftrightarrow>
     (if snd u \<or> snd l then re_val \<sigma> (fst l) < re_val \<sigma> (fst u) else re_val \<sigma> (fst l) \<le> re_val \<sigma> (fst u))"

lemma combine_one_exact:
  assumes "combine_one u lowers next = Some out"
    and "re_wf (fst u)" "re_vars (fst u) \<subseteq> V" "\<forall>l \<in> set lowers. re_wf (fst l) \<and> re_vars (fst l) \<subseteq> V"
    and "norm_wf next" "norm_vars next \<subseteq> V"
  shows "norm_wf out \<and> norm_vars out \<subseteq> V \<and>
    (sat \<sigma> out \<longleftrightarrow> sat \<sigma> next \<and> (\<forall>l \<in> set lowers. pair_holds \<sigma> u l))"
  using assms
proof (induction u lowers "next" rule: combine_one.induct)
  case (1 u nx)
  then show ?case by simp
next
  case (2 ue us le ls lowers nx)
  from "2.prems"(1) obtain d where d: "re_sub le ue = Some d"
    and out: "combine_one (ue, us) lowers (nx @ [(if us \<or> ls then NLt else NLe, d)]) = Some out"
    by (auto simp: bind_eq_Some_conv)
  have dd: "re_wf d \<and> re_val \<sigma> d = re_val \<sigma> le - re_val \<sigma> ue" "re_vars d \<subseteq> V"
    using re_sub_exact [OF d, of \<sigma>] re_sub_vars [OF d] "2.prems"(2,3,4) by auto
  have "norm_wf (nx @ [(if us \<or> ls then NLt else NLe, d)])" "norm_vars (nx @ [(if us \<or> ls then NLt else NLe, d)]) \<subseteq> V"
    using dd "2.prems"(5,6) by auto
  from "2.IH" [OF d out "2.prems"(2,3) _ this] "2.prems"(4) dd show ?case
    by (auto simp: pair_holds_def)
qed

lemma combine_exact:
  assumes "combine uppers lowers next = Some out"
    and "\<forall>b \<in> set uppers \<union> set lowers. re_wf (fst b) \<and> re_vars (fst b) \<subseteq> V"
    and "norm_wf next" "norm_vars next \<subseteq> V"
  shows "norm_wf out \<and> norm_vars out \<subseteq> V \<and>
    (sat \<sigma> out \<longleftrightarrow> sat \<sigma> next \<and> (\<forall>u \<in> set uppers. \<forall>l \<in> set lowers. pair_holds \<sigma> u l))"
  using assms
proof (induction uppers lowers "next" rule: combine.induct)
  case (1 lowers nx)
  then show ?case by simp
next
  case (2 u uppers lowers nx)
  from "2.prems"(1) obtain nx' where nx': "combine_one u lowers nx = Some nx'"
    and out: "combine uppers lowers nx' = Some out"
    by (auto simp: bind_eq_Some_conv)
  have one: "norm_wf nx' \<and> norm_vars nx' \<subseteq> V \<and>
      (sat \<sigma> nx' \<longleftrightarrow> sat \<sigma> nx \<and> (\<forall>l \<in> set lowers. pair_holds \<sigma> u l))"
    by (rule combine_one_exact [OF nx']) (use "2.prems"(2,3,4) in auto)
  from "2.IH" [OF nx' out] one "2.prems"(2) show ?case by auto
qed

lemma above_below_upd:
  "v \<notin> re_vars (fst b) \<Longrightarrow> above (\<sigma>(v := y)) b x \<longleftrightarrow> above \<sigma> b x"
  "v \<notin> re_vars (fst b) \<Longrightarrow> below (\<sigma>(v := y)) b x \<longleftrightarrow> below \<sigma> b x"
  by (auto simp: above_def below_def re_val_upd)

lemma sat_upd: "v \<notin> norm_vars exprs \<Longrightarrow> sat (\<sigma>(v := x)) exprs \<longleftrightarrow> sat \<sigma> exprs"
  by (induction exprs) (auto simp: holds_upd)

lemma eliminate_exact:
  assumes "eliminate v exprs = Some (us, ls, nx)" and "norm_wf exprs"
  shows "round_ok v (norm_vars exprs) (us, ls, nx)"
    and "sat \<sigma> exprs \<Longrightarrow> sat \<sigma> nx"
    and "sat \<sigma> nx \<Longrightarrow> \<forall>u \<in> set us. \<forall>l \<in> set ls. pair_holds \<sigma> u l"
    and "sat \<sigma> nx \<Longrightarrow> \<forall>u \<in> set us. above \<sigma> u x \<Longrightarrow> \<forall>l \<in> set ls. below \<sigma> l x \<Longrightarrow> sat (\<sigma>(v := x)) exprs"
proof -
  let ?V = "norm_vars exprs"
  from assms(1) obtain rest where split: "split_bounds v exprs ([], [], []) = Some (us, ls, rest)"
    and comb: "combine us ls rest = Some nx"
    by (auto simp: eliminate_def bind_eq_Some_conv split: if_splits)
  have "round_ok v ?V ([], [], [])" by (simp add: round_ok_def)
  note sb = split_bounds_exact [OF split assms(2) subset_refl this]
  then have ok: "round_ok v ?V (us, ls, rest)" by blast
  have sem: "meets \<sigma> (us, ls, rest) (\<sigma> v) \<longleftrightarrow> sat \<sigma> exprs" for \<sigma>
    using sb [of \<sigma>] by (simp add: meets_def)
  have ce: "norm_wf nx \<and> norm_vars nx \<subseteq> ?V - {v} \<and>
      (sat \<sigma> nx \<longleftrightarrow> sat \<sigma> rest \<and> (\<forall>u \<in> set us. \<forall>l \<in> set ls. pair_holds \<sigma> u l))" for \<sigma>
    by (rule combine_exact [OF comb]) (use ok in \<open>auto simp: round_ok_def\<close>)
  from ok ce show "round_ok v ?V (us, ls, nx)" by (simp add: round_ok_def)
  from ce show "sat \<sigma> nx \<Longrightarrow> \<forall>u \<in> set us. \<forall>l \<in> set ls. pair_holds \<sigma> u l" by blast
  show "sat \<sigma> nx" if "sat \<sigma> exprs"
  proof -
    from that sem [of \<sigma>] have m: "meets \<sigma> (us, ls, rest) (\<sigma> v)" by simp
    have "pair_holds \<sigma> u l" if "u \<in> set us" "l \<in> set ls" for u l
      using m that by (fastforce simp: meets_def pair_holds_def above_def below_def split: if_splits)
    with m ce [of \<sigma>] show ?thesis by (auto simp: meets_def)
  qed
  show "sat (\<sigma>(v := x)) exprs"
    if nx: "sat \<sigma> nx" and us: "\<forall>u \<in> set us. above \<sigma> u x" and ls: "\<forall>l \<in> set ls. below \<sigma> l x"
  proof -
    from ok have v: "v \<notin> norm_vars rest" "\<forall>b \<in> set us \<union> set ls. v \<notin> re_vars (fst b)"
      by (auto simp: round_ok_def)
    from nx ce [of \<sigma>] have "sat \<sigma> rest" by simp
    then have "meets (\<sigma>(v := x)) (us, ls, rest) x"
      using us ls v by (simp add: meets_def above_below_upd sat_upd)
    with sem [of "\<sigma>(v := x)"] show ?thesis by simp
  qed
qed

lemma eliminate_progress:
  assumes "collect_vars exprs = v # vs" and "eliminate v exprs = Some (us, ls, nx)" and "norm_wf exprs"
  shows "norm_wf nx" and "card (norm_vars nx) < card (norm_vars exprs)"
proof -
  from assms(1) have v: "v \<in> norm_vars exprs" by (simp flip: set_collect_vars)
  from eliminate_exact(1) [OF assms(2,3)] show "norm_wf nx" by (simp add: round_ok_def)
  from eliminate_exact(1) [OF assms(2,3)] v have "norm_vars nx \<subset> norm_vars exprs"
    by (auto simp: round_ok_def)
  then show "card (norm_vars nx) < card (norm_vars exprs)" by (simp add: psubset_card_mono finite_norm_vars)
qed

text \<open>A value between the tightest bounds, chosen as the search chooses it.\<close>

definition extremal :: "ordering \<Rightarrow> real set \<Rightarrow> real option \<Rightarrow> bool" where
  "extremal want S m \<longleftrightarrow>
     (case m of None \<Rightarrow> S = {}
      | Some y \<Rightarrow> y \<in> S \<and> (\<forall>z \<in> S. if want = Less then y \<le> z else z \<le> y))"

fun middle :: "real option \<Rightarrow> real option \<Rightarrow> real" where
  "middle (Some u) (Some l) = (u + l) / 2"
| "middle (Some u) None = u - 1"
| "middle None (Some l) = l + 1"
| "middle None None = 0"

abbreviation bound_vals :: "assignment \<Rightarrow> bound list \<Rightarrow> real set" where
  "bound_vals \<sigma> bs \<equiv> (\<lambda>b. re_val \<sigma> (fst b)) ` set bs"

lemma middle_between:
  assumes pairs: "\<forall>u \<in> set us. \<forall>l \<in> set ls. pair_holds \<sigma> u l"
    and u: "extremal Less (bound_vals \<sigma> us) mu" and l: "extremal Greater (bound_vals \<sigma> ls) ml"
  shows "\<forall>u \<in> set us. above \<sigma> u (middle mu ml)" and "\<forall>l \<in> set ls. below \<sigma> l (middle mu ml)"
proof -
  have "above \<sigma> b (middle mu ml)" if b: "b \<in> set us" for b
  proof (cases mu)
    case None
    with u b show ?thesis by (simp add: extremal_def)
  next
    case (Some y)
    with u b have y: "y \<le> re_val \<sigma> (fst b)" by (simp add: extremal_def)
    show ?thesis
    proof (cases ml)
      case None
      with Some y show ?thesis by (simp add: above_def)
    next
      case ml: (Some z)
      with l obtain c where c: "c \<in> set ls" "re_val \<sigma> (fst c) = z" by (auto simp: extremal_def)
      from u Some obtain a where a: "a \<in> set us" "re_val \<sigma> (fst a) = y" by (auto simp: extremal_def)
      from pairs a c have "z \<le> y" by (fastforce simp: pair_holds_def split: if_splits)
      moreover from pairs b c have "snd b \<Longrightarrow> z < re_val \<sigma> (fst b)" by (fastforce simp: pair_holds_def)
      ultimately show ?thesis using Some ml y by (auto simp: above_def field_simps)
    qed
  qed
  moreover have "below \<sigma> b (middle mu ml)" if b: "b \<in> set ls" for b
  proof (cases ml)
    case None
    with l b show ?thesis by (simp add: extremal_def)
  next
    case (Some z)
    with l b have z: "re_val \<sigma> (fst b) \<le> z" by (simp add: extremal_def)
    show ?thesis
    proof (cases mu)
      case None
      with Some z show ?thesis by (simp add: below_def)
    next
      case mu: (Some y)
      with u obtain a where a: "a \<in> set us" "re_val \<sigma> (fst a) = y" by (auto simp: extremal_def)
      from l Some obtain c where c: "c \<in> set ls" "re_val \<sigma> (fst c) = z" by (auto simp: extremal_def)
      from pairs a c have "z \<le> y" by (fastforce simp: pair_holds_def split: if_splits)
      moreover from pairs a b have "snd b \<Longrightarrow> re_val \<sigma> (fst b) < y" by (fastforce simp: pair_holds_def)
      ultimately show ?thesis using Some mu z by (auto simp: below_def field_simps)
    qed
  qed
  ultimately show "\<forall>u \<in> set us. above \<sigma> u (middle mu ml)" and "\<forall>l \<in> set ls. below \<sigma> l (middle mu ml)"
    by blast+
qed

lemma extremal_exists: "finite S \<Longrightarrow> \<exists>m. extremal want S m"
proof (cases "S = {}")
  case True
  then have "extremal want S None" by (simp add: extremal_def)
  then show ?thesis ..
next
  case False
  assume "finite S"
  with False have "extremal want S (Some (if want = Less then Min S else Max S))"
    by (auto simp: extremal_def)
  then show ?thesis ..
qed

lemma eliminate_extends:
  assumes "eliminate v exprs = Some (us, ls, nx)" and "norm_wf exprs" and "sat \<sigma> nx"
  shows "\<exists>x. sat (\<sigma>(v := x)) exprs"
proof -
  obtain mu where mu: "extremal Less (bound_vals \<sigma> us) mu" using extremal_exists by blast
  obtain ml where ml: "extremal Greater (bound_vals \<sigma> ls) ml" using extremal_exists by blast
  from eliminate_exact(3) [OF assms] have "\<forall>u \<in> set us. \<forall>l \<in> set ls. pair_holds \<sigma> u l" .
  from eliminate_exact(4) [OF assms middle_between [OF this mu ml]] show ?thesis ..
qed

subsection \<open>The refutation\<close>

text \<open>A run of the elimination in which some round gives up.\<close>

inductive gives_up :: "norm \<Rightarrow> bool" where
  now: "collect_vars exprs = v # vs \<Longrightarrow> eliminate v exprs = None \<Longrightarrow> gives_up exprs"
| later: "collect_vars exprs = v # vs \<Longrightarrow> eliminate v exprs = Some (us, ls, nx) \<Longrightarrow> gives_up nx \<Longrightarrow> gives_up exprs"

lemma ground_value: "norm_vars exprs = {} \<Longrightarrow> c \<in> set exprs \<Longrightarrow> re_val \<sigma> (snd c) = rval (re_constant (snd c))"
  by (force simp: norm_vars_def keys_of_def re_val_def)

lemma ground_sat:
  assumes "collect_vars exprs = []" and "norm_wf exprs"
  shows "list_ex refuted exprs \<longleftrightarrow> \<not> sat \<sigma> exprs"
proof -
  from assms(1) have ground: "norm_vars exprs = {}" by (simp flip: set_collect_vars)
  have "refuted c \<longleftrightarrow> \<not> holds \<sigma> c" if c: "c \<in> set exprs" for c
  proof (cases "(\<sigma>, c)" rule: holds.cases)
    case (1 \<sigma>' e)
    with c assms(2) have "rat_wf (re_constant e)" by (auto simp: norm_wf_def re_wf_def)
    with 1 ground_value [OF ground c, of \<sigma>] show ?thesis by (auto simp: refuted_def rat_sign)
  next
    case (2 \<sigma>' e)
    with c assms(2) have "rat_wf (re_constant e)" by (auto simp: norm_wf_def re_wf_def)
    with 2 ground_value [OF ground c, of \<sigma>] show ?thesis by (auto simp: refuted_def rat_sign)
  qed
  then show ?thesis by (auto simp: sat_def list_ex_iff)
qed

lemma fm_unsat_exact:
  "norm_wf exprs \<Longrightarrow>
     \<exists>b. fm_unsat exprs = Some b \<and> (b \<longrightarrow> (\<forall>\<sigma>. \<not> sat \<sigma> exprs)) \<and> (b \<or> gives_up exprs \<or> (\<exists>\<sigma>. sat \<sigma> exprs))"
proof (induction "card (norm_vars exprs)" arbitrary: exprs rule: less_induct)
  case less
  show ?case
  proof (cases "collect_vars exprs")
    case Nil
    then have "fm_unsat exprs = Some (list_ex refuted exprs)" by (subst fm_unsat.simps) simp
    with ground_sat [OF Nil less.prems] show ?thesis by blast
  next
    case (Cons v vs)
    show ?thesis
    proof (cases "eliminate v exprs")
      case None
      then have "fm_unsat exprs = Some False" using Cons by (subst fm_unsat.simps) simp
      with gives_up.now [OF Cons None] show ?thesis by blast
    next
      case (Some r)
      obtain us ls nx where r: "eliminate v exprs = Some (us, ls, nx)" using Some by (cases r) auto
      then have eq: "fm_unsat exprs = fm_unsat nx" using Cons by (subst fm_unsat.simps) simp
      note progress = eliminate_progress [OF Cons r less.prems]
      from less.hyps [OF progress(2,1)] obtain b where b: "fm_unsat nx = Some b"
        "b \<longrightarrow> (\<forall>\<sigma>. \<not> sat \<sigma> nx)" "b \<or> gives_up nx \<or> (\<exists>\<sigma>. sat \<sigma> nx)" by blast
      have "b \<longrightarrow> (\<forall>\<sigma>. \<not> sat \<sigma> exprs)" using b(2) eliminate_exact(2) [OF r less.prems] by blast
      moreover have "b \<or> gives_up exprs \<or> (\<exists>\<sigma>. sat \<sigma> exprs)"
        using b(3) gives_up.later [OF Cons r] eliminate_extends [OF r less.prems] by blast
      ultimately show ?thesis using b(1) eq by auto
    qed
  qed
qed

subsection \<open>The search\<close>

definition model_val :: "(string, xrat) bmap \<Rightarrow> assignment" where
  "model_val m = (\<lambda>k. rval (get0 m k))"

lemma model_val_insert: "model_val (bt_insert v r m) = (model_val m)(v := rval r)"
  by (auto simp: model_val_def bt_get_insert fun_eq_iff)

lemma eval_entries_exact:
  assumes "eval_entries model s kvs = Some r" and "rat_wf s" and "\<forall>kv \<in> set kvs. rat_wf (snd kv)"
    and "entries_ok model"
  shows "rat_wf r \<and> rval r = rval s + coeff_sum (model_val model) kvs"
  using assms
proof (induction model s kvs rule: eval_entries.induct)
  case (1 model s)
  then show ?case by simp
next
  case (2 model s k v kvs)
  from "2.prems"(1) obtain q s' where q: "rat_mul v (get0 model k) = Some q" and s': "rat_add s q = Some s'"
    and r: "eval_entries model s' kvs = Some r"
    by (auto simp: bind_eq_Some_conv)
  have qq: "rat_wf q \<and> rval q = rval v * model_val model k"
    unfolding model_val_def by (rule rat_mul_exact [OF q]) (use "2.prems" entries_ok_get in auto)
  with rat_add_exact [OF s' "2.prems"(2)] have "rat_wf s' \<and> rval s' = rval s + rval v * model_val model k"
    by simp
  with "2.IH" [OF q s' r] "2.prems"(3,4) show ?case by simp
qed

lemma re_evaluate_exact:
  "re_evaluate e model = Some r \<Longrightarrow> re_wf e \<Longrightarrow> entries_ok model \<Longrightarrow>
     rat_wf r \<and> rval r = re_val (model_val model) e"
  unfolding re_evaluate_def re_val_def
  by (rule eval_entries_exact) (auto simp: re_wf_def entries_ok_def)

abbreviation opt_set :: "xrat option \<Rightarrow> real set" where
  "opt_set c \<equiv> (case c of None \<Rightarrow> {} | Some r \<Rightarrow> {rval r})"

lemma tightest_exact:
  assumes "tightest want model bs cur = Some out" and "want \<noteq> Equal" and "entries_ok model"
    and "\<forall>b \<in> set bs. re_wf (fst b)" and "\<forall>c. cur = Some c \<longrightarrow> rat_wf c"
  shows "(\<forall>r. out = Some r \<longrightarrow> rat_wf r) \<and>
    (\<forall>S. extremal want S (map_option rval cur) \<longrightarrow>
       extremal want (S \<union> bound_vals (model_val model) bs) (map_option rval out))"
  using assms
proof (induction want model bs cur rule: tightest.induct)
  case (1 want model cur)
  then show ?case by simp
next
  case (2 want model e st bs cur)
  from "2.prems"(1) obtain val cur' where val: "re_evaluate e model = Some val"
    and cur': "(case cur of None \<Rightarrow> Some val
         | Some c \<Rightarrow> do { ord \<leftarrow> rat_cmp val c; Some (if ord = want then val else c) }) = Some cur'"
    and out: "tightest want model bs (Some cur') = Some out"
    by (auto simp: bind_eq_Some_conv)
  have v: "rat_wf val" "rval val = re_val (model_val model) e"
    using re_evaluate_exact [OF val] "2.prems"(3,4) by auto
  have new: "rat_wf cur' \<and> (\<forall>S. extremal want S (map_option rval cur) \<longrightarrow>
      extremal want (insert (rval val) S) (Some (rval cur')))"
  proof (cases cur)
    case None
    with cur' v show ?thesis by (simp add: extremal_def)
  next
    case (Some c)
    then obtain ord where ord: "rat_cmp val c = Some ord" and c': "cur' = (if ord = want then val else c)"
      using cur' by (auto simp: bind_eq_Some_conv)
    have "ord = (if rval val < rval c then Less else if rval val = rval c then Equal else Greater)"
      by (rule rat_cmp_exact [OF ord]) (use v "2.prems"(5) Some in auto)
    then show ?thesis using Some c' v "2.prems"(2,5)
      by (cases want) (auto simp: extremal_def)
  qed
  from "2.IH" [OF val cur' out "2.prems"(2,3)] "2.prems"(4) new
  have wf: "\<forall>r. out = Some r \<longrightarrow> rat_wf r"
    and ext: "\<forall>S. extremal want S (Some (rval cur')) \<longrightarrow>
        extremal want (S \<union> bound_vals (model_val model) bs) (map_option rval out)" by auto
  have "extremal want (S \<union> bound_vals (model_val model) ((e, st) # bs)) (map_option rval out)"
    if "extremal want S (map_option rval cur)" for S
    using ext new that v(2) by (auto simp: insert_commute)
  with wf show ?case by blast
qed

lemma f64_literals: "f64_value f64_one = 1" "f64_value f64_half = 1 / 2" "fits 64 f64_one" "fits 64 f64_half"
  by (simp_all add: f64_value_def f64_one_def f64_half_def f64_exp_bits_def f64_frac_def f64_sign_def fits_def)

lemma pick_value_exact:
  assumes "pick_value mu ml = Some x" and "\<forall>r. mu = Some r \<longrightarrow> rat_wf r" and "\<forall>r. ml = Some r \<longrightarrow> rat_wf r"
  shows "rat_wf x \<and> rval x = middle (map_option rval mu) (map_option rval ml)"
proof -
  from assms(1) obtain one half where o: "rat_from_f64 f64_one = Some one" and h: "rat_from_f64 f64_half = Some half"
    and x: "(case (mu, ml) of (Some u, Some l) \<Rightarrow> do { s \<leftarrow> rat_add u l; rat_mul s half }
      | (Some u, None) \<Rightarrow> rat_sub u one | (None, Some l) \<Rightarrow> rat_add l one | (None, None) \<Rightarrow> Some rat_zero) = Some x"
    by (auto simp: pick_value_def bind_eq_Some_conv)
  have one: "rat_wf one" "rval one = 1" and half: "rat_wf half" "rval half = 1 / 2"
    using rat_from_f64_exact [OF o] rat_from_f64_exact [OF h] f64_literals by auto
  show ?thesis
    using x one half assms(2,3)
    by (cases mu; cases ml) (auto simp: bind_eq_Some_conv dest!: rat_add_exact rat_mul_exact rat_sub_exact)
qed

lemma assign_var_exact:
  assumes "assign_var v us ls model = Some m" and "round_ok v V (us, ls, nx)" and "entries_ok model"
    and "\<forall>u \<in> set us. \<forall>l \<in> set ls. pair_holds (model_val model) u l"
  shows "\<exists>x. entries_ok m \<and> model_val m = (model_val model)(v := x) \<and>
    (\<forall>u \<in> set us. above (model_val model) u x) \<and> (\<forall>l \<in> set ls. below (model_val model) l x)"
proof -
  from assms(1) obtain mu ml r where mu: "tightest Less model us None = Some mu"
    and ml: "tightest Greater model ls None = Some ml" and r: "pick_value mu ml = Some r"
    and m: "m = bt_insert v r model"
    by (auto simp: assign_var_def bind_eq_Some_conv)
  have none: "extremal w {} (map_option rval None)" for w by (simp add: extremal_def)
  have "(\<forall>r. mu = Some r \<longrightarrow> rat_wf r) \<and> (\<forall>S. extremal Less S (map_option rval None) \<longrightarrow>
      extremal Less (S \<union> bound_vals (model_val model) us) (map_option rval mu))"
    by (rule tightest_exact [OF mu _ assms(3)]) (use assms(2) in \<open>auto simp: round_ok_def\<close>)
  with none [of Less] have u: "\<forall>r. mu = Some r \<longrightarrow> rat_wf r"
      "extremal Less (bound_vals (model_val model) us) (map_option rval mu)" by (metis sup_bot_left)+
  have "(\<forall>r. ml = Some r \<longrightarrow> rat_wf r) \<and> (\<forall>S. extremal Greater S (map_option rval None) \<longrightarrow>
      extremal Greater (S \<union> bound_vals (model_val model) ls) (map_option rval ml))"
    by (rule tightest_exact [OF ml _ assms(3)]) (use assms(2) in \<open>auto simp: round_ok_def\<close>)
  with none [of Greater] have l: "\<forall>r. ml = Some r \<longrightarrow> rat_wf r"
      "extremal Greater (bound_vals (model_val model) ls) (map_option rval ml)" by (metis sup_bot_left)+
  from pick_value_exact [OF r u(1) l(1)] have "rat_wf r"
    and x: "rval r = middle (map_option rval mu) (map_option rval ml)" by auto
  with assms(3) m have "entries_ok m" "model_val m = (model_val model)(v := rval r)"
    by (auto simp: entries_ok_insert model_val_insert)
  with middle_between [OF assms(4) u(2) l(2)] x show ?thesis by auto
qed

lemma solve_exact:
  "norm_wf exprs \<Longrightarrow>
     \<exists>r. solve exprs = Some r \<and> (\<forall>m. r = Some m \<longrightarrow> entries_ok m \<and> sat (model_val m) exprs)"
proof (induction "card (norm_vars exprs)" arbitrary: exprs rule: less_induct)
  case less
  show ?case
  proof (cases "collect_vars exprs")
    case Nil
    then have "solve exprs = Some (if list_all (\<lambda>c. \<not> refuted c) exprs then Some [] else None)"
      by (subst solve.simps) simp
    with ground_sat [OF Nil less.prems, of "model_val []"] show ?thesis
      by (auto simp: list_ex_iff list_all_iff)
  next
    case (Cons v vs)
    show ?thesis
    proof (cases "eliminate v exprs")
      case None
      then show ?thesis using Cons by (subst solve.simps) simp
    next
      case (Some r)
      obtain us ls nx where r: "eliminate v exprs = Some (us, ls, nx)" using Some by (cases r) auto
      note progress = eliminate_progress [OF Cons r less.prems]
      from less.hyps [OF progress(2,1)] obtain q where q: "solve nx = Some q"
        "\<And>m. q = Some m \<Longrightarrow> entries_ok m \<and> sat (model_val m) nx" by blast
      have eq: "solve exprs = Some (Option.bind q (assign_var v us ls))"
        using Cons r q(1) by (subst solve.simps) simp
      have "entries_ok m \<and> sat (model_val m) exprs"
        if m: "q = Some m0" "assign_var v us ls m0 = Some m" for m0 m
      proof -
        from q(2) [OF m(1)] have m0: "entries_ok m0" "sat (model_val m0) nx" by auto
        from assign_var_exact [OF m(2) eliminate_exact(1) [OF r less.prems] m0(1)
            eliminate_exact(3) [OF r less.prems m0(2)]]
        obtain x where x: "entries_ok m" "model_val m = (model_val m0)(v := x)"
          "\<forall>u \<in> set us. above (model_val m0) u x" "\<forall>l \<in> set ls. below (model_val m0) l x" by blast
        from eliminate_exact(4) [OF r less.prems m0(2) x(3,4)] x(1,2) show ?thesis by simp
      qed
      with eq show ?thesis by (auto simp: bind_eq_Some_conv)
    qed
  qed
qed

subsection \<open>Constraints as the caller writes them\<close>

definition lin_ok :: "lin_expr \<Rightarrow> bool" where
  "lin_ok e \<longleftrightarrow> bt_wf (le_coeffs e) \<and> (\<forall>kv \<in> set (le_coeffs e). fits 64 (snd kv)) \<and> fits 64 (le_constant e)"

definition lin_val :: "assignment \<Rightarrow> lin_expr \<Rightarrow> real" where
  "lin_val \<sigma> e = f64_value (le_constant e) + sum_list (map (\<lambda>(k, v). f64_value v * \<sigma> k) (le_coeffs e))"

definition constraint_holds :: "assignment \<Rightarrow> lin_constraint \<Rightarrow> bool" where
  "constraint_holds \<sigma> c =
     (case c_rel c of
        RelLe \<Rightarrow> lin_val \<sigma> (c_e c) \<le> 0
      | RelLt \<Rightarrow> lin_val \<sigma> (c_e c) < 0
      | RelGe \<Rightarrow> lin_val \<sigma> (c_e c) \<ge> 0
      | RelGt \<Rightarrow> lin_val \<sigma> (c_e c) > 0
      | RelEq \<Rightarrow> lin_val \<sigma> (c_e c) = 0)"

definition all_hold :: "assignment \<Rightarrow> lin_constraint list \<Rightarrow> bool" where
  "all_hold \<sigma> cs \<longleftrightarrow> (\<forall>c \<in> set cs. constraint_holds \<sigma> c)"

definition all_ok :: "lin_constraint list \<Rightarrow> bool" where
  "all_ok cs \<longleftrightarrow> list_all (\<lambda>c. lin_ok (c_e c)) cs"

lemma re_from_lin_exact:
  assumes "re_from_lin e = Some re" and "lin_ok e"
  shows "re_wf re \<and> re_val \<sigma> re = lin_val \<sigma> e"
proof -
  from assms(1) obtain cs c
    where cs: "map_entries rat_from_f64 (\<lambda>r. \<not> rat_is_zero r) (le_coeffs e) [] = Some cs"
    and c: "rat_from_f64 (le_constant e) = Some c" and re: "re = \<lparr>re_coeffs = cs, re_constant = c\<rparr>"
    by (auto simp: re_from_lin_def bind_eq_Some_conv)
  have dist: "distinct (map fst (le_coeffs e))" using assms(2) by (simp add: lin_ok_def bt_wf_distinct)
  have step: "rat_wf r \<and> rval r = f64_value v \<and> (\<not> \<not> rat_is_zero r \<longrightarrow> rval r = 0)"
    if "(k, v) \<in> set (le_coeffs e)" "rat_from_f64 v = Some r" for k v r
    using rat_from_f64_exact [OF that(2)] assms(2) that(1) by (auto simp: lin_ok_def rat_sign)
  from map_entries_exact [OF cs _ dist _ step]
  have "entries_ok cs" "coeff_sum \<sigma> cs = sum_list (map (\<lambda>(k, v). f64_value v * \<sigma> k) (le_coeffs e))" by auto
  moreover have "\<forall>kv \<in> set cs. \<not> rat_is_zero (snd kv)" by (rule map_entries_values [OF cs]) auto
  moreover have "rat_wf c \<and> rval c = f64_value (le_constant e)"
    using rat_from_f64_exact [OF c] assms(2) by (simp add: lin_ok_def)
  ultimately show ?thesis using re by (simp add: re_wf_def re_val_def lin_val_def)
qed

lemma normalize_exact:
  assumes "normalize c = Some n" and "lin_ok (c_e c)"
  shows "norm_wf n \<and> (sat \<sigma> n \<longleftrightarrow> constraint_holds \<sigma> c)"
proof -
  from assms(1) obtain re where re: "re_from_lin (c_e c) = Some re" by (auto simp: normalize_def bind_eq_Some_conv)
  note ex = re_from_lin_exact [OF re assms(2), of \<sigma>]
  have ng: "re_neg re = Some d \<Longrightarrow> re_wf d \<and> re_val \<sigma> d = - lin_val \<sigma> (c_e c)" for d
    using re_neg_exact [of re d \<sigma>] ex by simp
  show ?thesis using assms(1) re ex
    by (cases "c_rel c") (auto simp: normalize_def constraint_holds_def bind_eq_Some_conv dest!: ng)
qed

lemma normalize_loop_exact:
  assumes "normalize_loop out cs = Some n" and "all_ok cs" and "norm_wf out"
  shows "norm_wf n \<and> (sat \<sigma> n \<longleftrightarrow> sat \<sigma> out \<and> all_hold \<sigma> cs)"
  using assms
proof (induction out cs rule: normalize_loop.induct)
  case (1 out)
  then show ?case by (simp add: all_hold_def)
next
  case (2 out c cs)
  from "2.prems"(1) obtain k where k: "normalize c = Some k" and n: "normalize_loop (out @ k) cs = Some n"
    by (auto simp: bind_eq_Some_conv)
  have "norm_wf k \<and> (sat \<sigma> k \<longleftrightarrow> constraint_holds \<sigma> c)"
    by (rule normalize_exact [OF k]) (use "2.prems"(2) in \<open>simp add: all_ok_def\<close>)
  with "2.IH" [OF k n] "2.prems"(2,3) show ?case by (auto simp: all_ok_def all_hold_def)
qed

lemma normalize_all_exact:
  assumes "normalize_all cs = Some n" and "all_ok cs"
  shows "norm_wf n" and "sat \<sigma> n \<longleftrightarrow> all_hold \<sigma> cs"
  using normalize_loop_exact [of "[]" cs n \<sigma>] assms by (simp_all add: normalize_all_def)

lemma unsat_total:
  assumes "all_ok cs"
  shows "\<exists>b. unsat cs = Some b \<and> (b \<longrightarrow> (\<forall>\<sigma>. \<not> all_hold \<sigma> cs))"
proof (cases "normalize_all cs")
  case None
  then have "unsat cs = Some False" by (simp add: unsat_def)
  then show ?thesis by blast
next
  case (Some n)
  from fm_unsat_exact [OF normalize_all_exact(1) [OF Some assms]] normalize_all_exact(2) [OF Some assms]
  have "\<exists>b. fm_unsat n = Some b \<and> (b \<longrightarrow> (\<forall>\<sigma>. \<not> all_hold \<sigma> cs))" by blast
  with Some show ?thesis by (simp add: unsat_def)
qed

lemma find_model_total:
  assumes "all_ok cs"
  shows "\<exists>r. find_model cs = Some r \<and>
    (\<forall>m. r = Some m \<longrightarrow> (\<exists>q. m = map (\<lambda>(k, v). (k, rat_to_f64 v)) q \<and> all_hold (model_val q) cs))"
proof (cases "normalize_all cs")
  case None
  then show ?thesis by (simp add: find_model_def)
next
  case (Some n)
  from solve_exact [OF normalize_all_exact(1) [OF Some assms]] obtain r where
    r: "solve n = Some r" "\<forall>m. r = Some m \<longrightarrow> entries_ok m \<and> sat (model_val m) n" by blast
  with Some normalize_all_exact(2) [OF Some assms] show ?thesis
    by (cases r) (auto simp: find_model_def)
qed

lemma negation:
  assumes "c_rel c \<noteq> RelEq"
  shows "all_hold \<sigma> (ps @ negate c) \<longleftrightarrow> all_hold \<sigma> ps \<and> \<not> constraint_holds \<sigma> c"
    and "all_ok (ps @ negate c) \<longleftrightarrow> all_ok ps \<and> lin_ok (c_e c)"
  using assms
  by (cases "c_rel c"; auto simp: all_hold_def all_ok_def negate_def constraint_holds_def
      mk_lt_def mk_le_def mk_gt_def mk_ge_def)+

lemma append_sides:
  "all_hold \<sigma> (append_constraint ps (mk_lt e)) \<longleftrightarrow> all_hold \<sigma> ps \<and> lin_val \<sigma> e < 0"
  "all_hold \<sigma> (append_constraint ps (mk_gt e)) \<longleftrightarrow> all_hold \<sigma> ps \<and> lin_val \<sigma> e > 0"
  "all_ok (append_constraint ps (mk_lt e)) \<longleftrightarrow> all_ok ps \<and> lin_ok e"
  "all_ok (append_constraint ps (mk_gt e)) \<longleftrightarrow> all_ok ps \<and> lin_ok e"
  by (auto simp: append_constraint_def all_hold_def all_ok_def constraint_holds_def mk_lt_def mk_gt_def)

lemma entails_true:
  assumes "all_ok premises" and "lin_ok (c_e conclusion)"
  shows "\<exists>b. entails premises conclusion = Some b \<and>
    (b \<longrightarrow> (\<forall>\<sigma>. all_hold \<sigma> premises \<longrightarrow> constraint_holds \<sigma> conclusion))"
proof (cases "c_rel conclusion = RelEq")
  case True
  let ?lt = "append_constraint premises (mk_lt (c_e conclusion))"
  let ?gt = "append_constraint premises (mk_gt (c_e conclusion))"
  obtain a where a: "unsat ?lt = Some a" "a \<longrightarrow> (\<forall>\<sigma>. \<not> all_hold \<sigma> ?lt)"
    using unsat_total [of ?lt] assms by (auto simp: append_sides)
  obtain b where b: "unsat ?gt = Some b" "b \<longrightarrow> (\<forall>\<sigma>. \<not> all_hold \<sigma> ?gt)"
    using unsat_total [of ?gt] assms by (auto simp: append_sides)
  have "entails premises conclusion = Some (a \<and> b)"
    using True a(1) b(1) by (simp add: entails_def)
  moreover have "constraint_holds \<sigma> conclusion" if "a \<and> b" "all_hold \<sigma> premises" for \<sigma>
    using a(2) b(2) that True by (force simp: append_sides constraint_holds_def)
  ultimately show ?thesis by blast
next
  case False
  obtain b where b: "unsat (premises @ negate conclusion) = Some b"
    "b \<longrightarrow> (\<forall>\<sigma>. \<not> all_hold \<sigma> (premises @ negate conclusion))"
    using unsat_total [of "premises @ negate conclusion"] negation(2) [OF False] assms by blast
  moreover from b(2) have "b \<longrightarrow> (\<forall>\<sigma>. all_hold \<sigma> premises \<longrightarrow> constraint_holds \<sigma> conclusion)"
    unfolding negation(1) [OF False] by blast
  ultimately show ?thesis using False by (simp add: entails_def)
qed

subsection \<open>Properties\<close>

text \<open>
  C8. Proved entailments are true. On any premises and conclusion whose expressions are well-formed,
  \<open>entails\<close> returns, and when it returns true, every assignment of real numbers to the
  variables that satisfies the premises satisfies the conclusion, where the double literals stand for their exact
  values: rounding, overflow and the bound on the number of constraints never make a false
  entailment provable.
\<close>
theorem entails_sound:
  assumes "all_ok premises" and "lin_ok (c_e conclusion)"
  shows "\<exists>b. entails premises conclusion = Some b \<and>
    (b \<longrightarrow> (\<forall>\<sigma>. all_hold \<sigma> premises \<longrightarrow> constraint_holds \<sigma> conclusion))"
  using assms by (rule entails_true)

text \<open>The system \<open>x - 1 >= 0\<close> and the conclusion \<open>x > 0\<close>.\<close>

definition x_ge_1 :: lin_constraint where
  "x_ge_1 = mk_ge \<lparr>le_coeffs = [(''x'', f64_one)], le_constant = 13830554455654793216\<rparr>"

definition x_gt_0 :: lin_constraint where
  "x_gt_0 = mk_gt (lin_var ''x'')"

lemma example_ok: "all_ok [x_ge_1]" "lin_ok (c_e x_gt_0)"
  by (simp_all add: all_ok_def x_ge_1_def x_gt_0_def mk_ge_def mk_gt_def lin_ok_def lin_var_def bt_wf_def
      fits_def f64_one_def)

lemmas f64_eval = f64_is_finite_def f64_is_zero_def f64_sign_def f64_exp_bits_def f64_frac_def

lemmas rat_eval = rat_zero_def rat_new_def gcd_u128_def gcd_loop.simps as_i128_def unsigned_abs_def
  ichecked_def ichecked_neg_def ichecked_mul_def ichecked_add_def ifits_def checked_pow2_def
  signed_divide_int_def rat_is_zero_def rat_is_pos_def rat_is_neg_def rat_neg_def rat_add_def
  rat_mul_def rat_recip_def

abbreviation whole :: "int \<Rightarrow> xrat" where
  "whole n \<equiv> \<lparr>rnum = n, rden = 1\<rparr>"

lemma whole_literals:
  "rat_from_f64 f64_one = Some (whole 1)" "rat_from_f64 13830554455654793216 = Some (whole (- 1))"
  "rat_from_f64 0 = Some (whole 0)" "rat_zero = whole 0"
  by (simp_all add: rat_from_f64_def f64_one_def f64_eval rat_eval)

lemma whole_ops:
  "rat_neg (whole 1) = Some (whole (- 1))" "rat_neg (whole (- 1)) = Some (whole 1)"
  "rat_neg (whole 0) = Some (whole 0)"
  "rat_recip (whole 1) = Some (whole 1)" "rat_recip (whole (- 1)) = Some (whole (- 1))"
  "rat_mul (whole 0) (whole 1) = Some (whole 0)" "rat_mul (whole (- 1)) (whole (- 1)) = Some (whole 1)"
  "rat_add (whole 1) (whole 0) = Some (whole 1)"
  by (simp_all add: rat_eval)

lemma whole_sign:
  "rat_is_zero (whole n) \<longleftrightarrow> n = 0" "rat_is_pos (whole n) \<longleftrightarrow> n > 0" "rat_is_neg (whole n) \<longleftrightarrow> n < 0"
  by (simp_all add: rat_is_zero_def rat_is_pos_def rat_is_neg_def)

definition example_norm :: norm where
  "example_norm =
     [(NLe, \<lparr>re_coeffs = [(''x'', whole (- 1))], re_constant = whole 1\<rparr>),
      (NLe, \<lparr>re_coeffs = [(''x'', whole 1)], re_constant = whole 0\<rparr>)]"

lemma example_entails: "entails [x_ge_1] x_gt_0 = fm_unsat example_norm"
  by (simp add: entails_def x_gt_0_def x_ge_1_def mk_ge_def mk_gt_def mk_le_def negate_def unsat_def
      normalize_all_def normalize_def re_from_lin_def lin_var_def whole_literals whole_ops whole_sign
      re_neg_def example_norm_def)

lemma example_round:
  "collect_vars example_norm = [''x'']"
  "eliminate ''x'' example_norm =
     Some ([(\<lparr>re_coeffs = [], re_constant = whole 0\<rparr>, False)],
           [(\<lparr>re_coeffs = [], re_constant = whole 1\<rparr>, False)],
           [(NLe, \<lparr>re_coeffs = [], re_constant = whole 1\<rparr>)])"
  by (simp_all add: example_norm_def collect_vars_def eliminate_def bt_get_def whole_ops whole_sign
      bound_of_def re_neg_def re_scale_def bt_remove_def MAX_CONSTRAINTS_def re_sub_def re_add_def
      whole_literals)

lemma example_proved: "entails [x_ge_1] x_gt_0 = Some True"
proof -
  have "fm_unsat [(NLe, \<lparr>re_coeffs = [], re_constant = whole 1\<rparr>)] = Some True"
    by (subst fm_unsat.simps) (simp add: collect_vars_def refuted_def whole_sign)
  then have "fm_unsat example_norm = Some True"
    using example_round by (subst fm_unsat.simps) simp
  with example_entails show ?thesis by simp
qed

theorem entails_sound_witness:
  "entails [x_ge_1] x_gt_0 = Some True \<and>
    Collect (\<lambda>\<sigma>. all_hold \<sigma> [x_ge_1]) \<subseteq> Collect (\<lambda>\<sigma>. constraint_holds \<sigma> x_gt_0)"
  using entails_sound [OF example_ok] example_proved by auto

text \<open>
  C24. The refutation decides. \<open>unsat\<close> returns on all well-formed constraints; true means that no assignment of
  real numbers satisfies them all, and false means that some assignment does, unless a literal has no exact
  128-bit form or a round of the elimination gave up.
\<close>
theorem unsat_decides:
  assumes "all_ok constraints"
  shows "\<exists>b. unsat constraints = Some b \<and>
    (if b then \<not> (\<exists>\<sigma>. all_hold \<sigma> constraints)
     else (\<exists>\<sigma>. all_hold \<sigma> constraints) \<or>
       (case normalize_all constraints of None \<Rightarrow> True | Some n \<Rightarrow> gives_up n))"
proof (cases "normalize_all constraints")
  case None
  then have "unsat constraints = Some False" by (simp add: unsat_def)
  with None show ?thesis by auto
next
  case (Some n)
  from fm_unsat_exact [OF normalize_all_exact(1) [OF Some assms]] obtain b where
    b: "fm_unsat n = Some b" "b \<longrightarrow> (\<forall>\<sigma>. \<not> sat \<sigma> n)" "b \<or> gives_up n \<or> (\<exists>\<sigma>. sat \<sigma> n)" by blast
  from b(2,3) normalize_all_exact(2) [OF Some assms]
  have "if b then \<not> (\<exists>\<sigma>. all_hold \<sigma> constraints) else (\<exists>\<sigma>. all_hold \<sigma> constraints) \<or> gives_up n" by auto
  with b(1) Some show ?thesis by (auto simp: unsat_def)
qed

theorem unsat_decides_witness:
  "\<exists>b. unsat [x_ge_1] = Some b \<and>
    (if b then \<not> (\<exists>\<sigma>. all_hold \<sigma> [x_ge_1])
     else (\<exists>\<sigma>. all_hold \<sigma> [x_ge_1]) \<or> (case normalize_all [x_ge_1] of None \<Rightarrow> True | Some n \<Rightarrow> gives_up n))"
  by (rule unsat_decides [OF example_ok(1)])

text \<open>
  Reported counterexamples are real. \<open>counterexample\<close> returns on well-formed input; a reported
  assignment is the rounding to doubles of an exact rational assignment that satisfies the premises and
  violates the conclusion, and then \<open>entails\<close> answers false.
\<close>
theorem counterexample_real:
  assumes "all_ok premises" and "lin_ok (c_e conclusion)"
  shows "\<exists>r. counterexample premises conclusion = Some r \<and>
    (\<forall>m. r = Some m \<longrightarrow>
       (\<exists>q. m = map (\<lambda>(k, v). (k, rat_to_f64 v)) q \<and> all_hold (model_val q) premises \<and>
            \<not> constraint_holds (model_val q) conclusion) \<and>
       entails premises conclusion = Some False)"
proof -
  let ?lt = "append_constraint premises (mk_lt (c_e conclusion))"
  let ?gt = "append_constraint premises (mk_gt (c_e conclusion))"
  let ?real = "\<lambda>m. \<exists>q. m = map (\<lambda>(k, v). (k, rat_to_f64 v)) q \<and> all_hold (model_val q) premises \<and>
    \<not> constraint_holds (model_val q) conclusion"
  have "\<exists>r. counterexample premises conclusion = Some r \<and> (\<forall>m. r = Some m \<longrightarrow> ?real m)"
  proof (cases "c_rel conclusion = RelEq")
    case True
    obtain r1 where r1: "find_model ?lt = Some r1"
      "\<forall>m. r1 = Some m \<longrightarrow> (\<exists>q. m = map (\<lambda>(k, v). (k, rat_to_f64 v)) q \<and> all_hold (model_val q) ?lt)"
      using find_model_total [of ?lt] assms by (auto simp: append_sides)
    obtain r2 where r2: "find_model ?gt = Some r2"
      "\<forall>m. r2 = Some m \<longrightarrow> (\<exists>q. m = map (\<lambda>(k, v). (k, rat_to_f64 v)) q \<and> all_hold (model_val q) ?gt)"
      using find_model_total [of ?gt] assms by (auto simp: append_sides)
    have "?real m" if "all_hold (model_val q) ?lt \<or> all_hold (model_val q) ?gt"
      "m = map (\<lambda>(k, v). (k, rat_to_f64 v)) q" for m q
      using that True unfolding append_sides constraint_holds_def by auto
    then have real: "r1 = Some m \<or> r2 = Some m \<Longrightarrow> ?real m" for m using r1(2) r2(2) by blast
    show ?thesis
    proof (cases r1)
      case None
      with True r1(1) r2(1) have "counterexample premises conclusion = Some r2" by (simp add: counterexample_def)
      with real show ?thesis by blast
    next
      case (Some m)
      with True r1(1) have "counterexample premises conclusion = Some (Some m)" by (simp add: counterexample_def)
      with real Some show ?thesis by blast
    qed
  next
    case False
    from find_model_total [of "premises @ negate conclusion"] negation [OF False] assms
    have "\<exists>r. find_model (premises @ negate conclusion) = Some r \<and> (\<forall>m. r = Some m \<longrightarrow> ?real m)" by simp
    with False show ?thesis by (simp add: counterexample_def)
  qed
  moreover have "entails premises conclusion = Some False" if "?real m" for m
    using entails_true [OF assms] that by auto
  ultimately show ?thesis by blast
qed

text \<open>Without premises, \<open>x > 0\<close> is refuted by \<open>x = -1\<close>.\<close>

lemma example_model:
  "solve [(NLe, \<lparr>re_coeffs = [(''x'', whole 1)], re_constant = whole 0\<rparr>)] = Some (Some [(''x'', whole (- 1))])"
proof -
  let ?c = "(NLe, \<lparr>re_coeffs = [(''x'', whole 1)], re_constant = whole 0\<rparr>)"
  have vars: "collect_vars [?c] = [''x'']" by (simp add: collect_vars_def)
  have elim: "eliminate ''x'' [?c] = Some ([(\<lparr>re_coeffs = [], re_constant = whole 0\<rparr>, False)], [], [])"
    by (simp add: eliminate_def bt_get_def whole_ops whole_sign bound_of_def re_neg_def re_scale_def
        bt_remove_def MAX_CONSTRAINTS_def)
  have base: "solve [] = Some (Some [])" by (subst solve.simps) (simp add: collect_vars_def)
  have half: "rat_from_f64 f64_half = Some \<lparr>rnum = 1, rden = 2\<rparr>"
    by (simp add: rat_from_f64_def f64_half_def f64_eval rat_eval)
  have "rat_add (whole 0) (whole (- 1)) = Some (whole (- 1))" by (simp add: rat_eval)
  then have "assign_var ''x'' [(\<lparr>re_coeffs = [], re_constant = whole 0\<rparr>, False)] [] [] = Some [(''x'', whole (- 1))]"
    by (simp add: assign_var_def re_evaluate_def pick_value_def whole_literals half rat_sub_def whole_ops)
  with vars elim base show ?thesis by (subst solve.simps) simp
qed

lemma example_counterexample: "counterexample [] x_gt_0 = Some (Some [(''x'', rat_to_f64 (whole (- 1)))])"
  by (simp add: counterexample_def find_model_def x_gt_0_def mk_gt_def mk_le_def negate_def normalize_all_def
      normalize_def re_from_lin_def lin_var_def whole_literals whole_sign example_model)

theorem counterexample_real_witness:
  "counterexample [] x_gt_0 = Some (Some [(''x'', rat_to_f64 (whole (- 1)))]) \<and> entails [] x_gt_0 = Some False"
proof -
  have "all_ok []" by (simp add: all_ok_def)
  from counterexample_real [OF this example_ok(2)] example_counterexample show ?thesis by force
qed

end
