(* ===== verification/Eidos_Syntax.thy ===== *)
theory Eidos_Syntax
  imports Linear_Solver
begin

text \<open>
  The abstract syntax of the eidos language (\<open>eidos-parser/src/ast.rs\<close>) and the syntactic functions of the
  checker (\<open>eidos-kernel/src/lib.rs\<close>): printing, substitution, simplification, linear form.

  Numbers are doubles, as bit patterns. Printing a number is left to a parameter \<open>fmt\<close>, the formatting
  of the standard library; the checker uses the printed form as the name of an opaque
  variable for \<open>magnitude\<close> calls.
\<close>

subsection \<open>Syntax (ast.rs)\<close>

datatype binop = OpAdd | OpSub | OpMul | OpDiv | OpRem | OpLt | OpGt | OpLe | OpGe | OpEq | OpNe | OpAnd | OpOr

datatype unop = UnNeg | UnNot

datatype pattern = PVar string | PTuple "pattern list"

datatype expr =
    ENum f64
  | EBool bool
  | EVar string
  | EArrayLit "expr list"
  | EBin binop expr expr
  | EUn unop expr
  | EIf expr expr expr
  | ELet string expr expr
  | ECall string "expr list"
  | EMethod expr string "expr list"
  | ELambda "pattern list" expr
  | ERecord "(string \<times> expr) list"
  | ECast expr etype
  | EReturn expr
and etype =
    TBase string
  | TArray etype nat
  | TRefine string etype expr
  | TNamed string

record efun =
  f_name :: string
  f_params :: "(string \<times> etype) list"
  f_ret :: etype
  f_requires :: "expr option"
  f_ensures :: "expr option"
  f_effects :: "string list"
  f_body :: expr

datatype item = TypeAlias string etype | FnItem efun

type_synonym module = "item list"

subsection \<open>Printing\<close>

definition binop_str :: "binop \<Rightarrow> string" where
  "binop_str op =
     (case op of OpAdd \<Rightarrow> ''+'' | OpSub \<Rightarrow> ''-'' | OpMul \<Rightarrow> ''*'' | OpDiv \<Rightarrow> ''/'' | OpRem \<Rightarrow> ''%''
      | OpLt \<Rightarrow> ''<'' | OpGt \<Rightarrow> ''>'' | OpLe \<Rightarrow> ''<='' | OpGe \<Rightarrow> ''>='' | OpEq \<Rightarrow> ''=='' | OpNe \<Rightarrow> ''!=''
      | OpAnd \<Rightarrow> ''&&'' | OpOr \<Rightarrow> ''||'')"

definition unop_str :: "unop \<Rightarrow> string" where
  "unop_str op = (case op of UnNeg \<Rightarrow> ''-'' | UnNot \<Rightarrow> ''!'')"

fun join :: "string list \<Rightarrow> string" where
  "join [] = ''''"
| "join [x] = x"
| "join (x # y # xs) = x @ '', '' @ join (y # xs)"

fun pattern_to_string :: "pattern \<Rightarrow> string" where
  "pattern_to_string (PVar v) = v"
| "pattern_to_string (PTuple ps) = ''('' @ join (map pattern_to_string ps) @ '')''"

definition patterns_to_string :: "pattern list \<Rightarrow> string" where
  "patterns_to_string ps = join (map pattern_to_string ps)"

fun expr_to_string :: "(f64 \<Rightarrow> string) \<Rightarrow> expr \<Rightarrow> string" where
  "expr_to_string fmt (ENum n) = fmt n"
| "expr_to_string fmt (EBool b) = (if b then ''true'' else ''false'')"
| "expr_to_string fmt (EVar v) = v"
| "expr_to_string fmt (EBin op a b) =
     ''('' @ expr_to_string fmt a @ '' '' @ binop_str op @ '' '' @ expr_to_string fmt b @ '')''"
| "expr_to_string fmt (EUn op a) = unop_str op @ expr_to_string fmt a"
| "expr_to_string fmt (EArrayLit es) = ''['' @ join (map (expr_to_string fmt) es) @ '']''"
| "expr_to_string fmt (ECall f args) = f @ ''('' @ join (map (expr_to_string fmt) args) @ '')''"
| "expr_to_string fmt (EMethod recv name args) =
     (if args = [] then expr_to_string fmt recv @ ''.'' @ name
      else expr_to_string fmt recv @ ''.'' @ name @ ''('' @ join (map (expr_to_string fmt) args) @ '')'')"
| "expr_to_string fmt (ELambda params body) = ''|'' @ patterns_to_string params @ ''| ..''"
| "expr_to_string fmt (ERecord fs) = ''{'' @ join (map fst fs) @ ''}''"
| "expr_to_string fmt (ECast v t) = ''cast''"
| "expr_to_string fmt (EReturn e) = ''return''"
| "expr_to_string fmt (EIf c t e) = ''if''"
| "expr_to_string fmt (ELet n v b) = ''let''"

subsection \<open>Substitution and simplification\<close>

fun pattern_binds_one :: "pattern \<Rightarrow> string \<Rightarrow> bool" where
  "pattern_binds_one (PVar v) var \<longleftrightarrow> v = var"
| "pattern_binds_one (PTuple ps) var \<longleftrightarrow> list_ex (\<lambda>p. pattern_binds_one p var) ps"

definition pattern_binds :: "pattern list \<Rightarrow> string \<Rightarrow> bool" where
  "pattern_binds params var \<longleftrightarrow> list_ex (\<lambda>p. pattern_binds_one p var) params"

fun subst :: "string \<Rightarrow> expr \<Rightarrow> expr \<Rightarrow> expr" where
  "subst var val (EVar v) = (if v = var then val else EVar v)"
| "subst var val (ENum n) = ENum n"
| "subst var val (EBool b) = EBool b"
| "subst var val (EBin op a b) = EBin op (subst var val a) (subst var val b)"
| "subst var val (EUn op a) = EUn op (subst var val a)"
| "subst var val (EIf c t e) = EIf (subst var val c) (subst var val t) (subst var val e)"
| "subst var val (EArrayLit es) = EArrayLit (map (subst var val) es)"
| "subst var val (EMethod recv name args) = EMethod (subst var val recv) name (map (subst var val) args)"
| "subst var val (ECall f args) = ECall f (map (subst var val) args)"
| "subst var val (ELambda params body) =
     (if pattern_binds params var then ELambda params body else ELambda params (subst var val body))"
| "subst var val (ERecord fs) = ERecord (map (\<lambda>(f, v). (f, subst var val v)) fs)"
| "subst var val (ECast v t) = ECast (subst var val v) t"
| "subst var val (EReturn e) = EReturn e"
| "subst var val (ELet n v b) = ELet n v b"

text \<open>
  The field found in a simplified record is simplified again in the source; \<open>simplify\<close> of an
  already simplified expression changes nothing (\<open>simplify_idem\<close>), so the recursion stops at the field.
\<close>

definition record_field :: "expr \<Rightarrow> string \<Rightarrow> expr option" where
  "record_field r name = (case r of ERecord fs \<Rightarrow> map_of fs name | _ \<Rightarrow> None)"

fun simplify :: "expr \<Rightarrow> expr" where
  "simplify (ECast v t) = simplify v"
| "simplify (EMethod recv name args) =
     (let r = simplify recv in
      case (if args = [] then record_field r name else None) of
        Some v \<Rightarrow> v
      | None \<Rightarrow> EMethod r name (map simplify args))"
| "simplify (EBin op a b) = EBin op (simplify a) (simplify b)"
| "simplify (EUn op a) = EUn op (simplify a)"
| "simplify (EArrayLit es) = EArrayLit (map simplify es)"
| "simplify (ERecord fs) = ERecord (map (\<lambda>(f, v). (f, simplify v)) fs)"
| "simplify (EIf c t e) = EIf (simplify c) (simplify t) (simplify e)"
| "simplify e = e"

lemma map_fixed: "map f xs = xs \<Longrightarrow> x \<in> set xs \<Longrightarrow> f x = x"
  by (induction xs) auto

lemma record_field_simplified:
  assumes "record_field r name = Some v" and "simplify r = r"
  shows "simplify v = v"
proof -
  from assms(1) obtain fs where r: "r = ERecord fs" and v: "map_of fs name = Some v"
    by (auto simp: record_field_def split: expr.splits)
  from assms(2) r have "map (\<lambda>(f, v). (f, simplify v)) fs = fs" by simp
  moreover from v have "(name, v) \<in> set fs" by (rule map_of_SomeD)
  ultimately have "(\<lambda>(f, v). (f, simplify v)) (name, v) = (name, v)"
    by (rule map_fixed)
  then show ?thesis by simp
qed

lemma simplify_idem: "simplify (simplify e) = simplify e"
proof (induction e rule: simplify.induct)
  case (2 recv name args)
  let ?r = "simplify recv"
  show ?case
  proof (cases "if args = [] then record_field ?r name else None")
    case None
    then have "(if map simplify args = [] then record_field ?r name else None) = None" by (auto split: if_splits)
    with None 2 show ?thesis by (simp add: comp_def)
  next
    case (Some v)
    then have "record_field ?r name = Some v" by (auto split: if_splits)
    from record_field_simplified [OF this 2(1)] Some show ?thesis by simp
  qed
qed (auto simp: comp_def)

text \<open>The equation of the source, which simplifies the field again.\<close>

lemma simplify_method:
  "simplify (EMethod recv name args) =
     (let r = simplify recv in
      case (if args = [] then record_field r name else None) of
        Some v \<Rightarrow> simplify v
      | None \<Rightarrow> EMethod r name (map simplify args))"
  using record_field_simplified [OF _ simplify_idem, of recv name]
  by (auto simp: Let_def split: option.split if_splits)

subsection \<open>Linear form\<close>

text \<open>\<open>k.abs() > 1e-12\<close> on doubles.\<close>

definition f64_abs_gt_tiny :: "f64 \<Rightarrow> bool" where
  "f64_abs_gt_tiny k \<longleftrightarrow> \<not> f64_is_nan k \<and> 4427486594234968593 < k mod 2 ^ 63"

fun linearize :: "(f64 \<Rightarrow> string) \<Rightarrow> expr \<Rightarrow> lin_expr option" where
  "linearize fmt (ENum n) = Some (lin_constant n)"
| "linearize fmt (EVar v) = Some (lin_var v)"
| "linearize fmt (EUn op a) =
     (case op of UnNeg \<Rightarrow> map_option lin_neg (linearize fmt a) | UnNot \<Rightarrow> None)"
| "linearize fmt (EBin op a b) = do {
     la \<leftarrow> linearize fmt a;
     lb \<leftarrow> linearize fmt b;
     (case op of
        OpAdd \<Rightarrow> Some (lin_add la lb)
      | OpSub \<Rightarrow> Some (lin_sub la lb)
      | OpMul \<Rightarrow>
          (case a of ENum k \<Rightarrow> Some (lin_scale lb k)
           | _ \<Rightarrow> (case b of ENum k \<Rightarrow> Some (lin_scale la k) | _ \<Rightarrow> None))
      | OpDiv \<Rightarrow>
          (case b of ENum k \<Rightarrow> if f64_abs_gt_tiny k then Some (lin_scale la (f64_div f64_one k)) else None
           | _ \<Rightarrow> None)
      | _ \<Rightarrow> None)
   }"
| "linearize fmt (EMethod recv name args) =
     (if name = ''magnitude'' \<and> args = []
      then Some (lin_var (expr_to_string fmt (EMethod recv name args))) else None)"
| "linearize fmt _ = None"

definition cmp :: "(f64 \<Rightarrow> string) \<Rightarrow> expr \<Rightarrow> expr \<Rightarrow> rel \<Rightarrow> lin_constraint list" where
  "cmp fmt a b r =
     (case (linearize fmt a, linearize fmt b) of
        (Some la, Some lb) \<Rightarrow> [\<lparr>c_rel = r, c_e = lin_sub la lb\<rparr>]
      | _ \<Rightarrow> [])"

definition to_constraint :: "(f64 \<Rightarrow> string) \<Rightarrow> expr \<Rightarrow> lin_constraint option" where
  "to_constraint fmt e =
     (case e of
        EBin op a b \<Rightarrow> do {
          la \<leftarrow> linearize fmt a;
          lb \<leftarrow> linearize fmt b;
          r \<leftarrow> (case op of OpGt \<Rightarrow> Some RelGt | OpGe \<Rightarrow> Some RelGe | OpLt \<Rightarrow> Some RelLt
                | OpLe \<Rightarrow> Some RelLe | OpEq \<Rightarrow> Some RelEq | _ \<Rightarrow> None);
          Some \<lparr>c_rel = r, c_e = lin_sub la lb\<rparr>
        }
      | _ \<Rightarrow> None)"

fun path_constraints :: "(f64 \<Rightarrow> string) \<Rightarrow> expr \<Rightarrow> lin_constraint list" where
  "path_constraints fmt (EBin op a b) =
     (case op of
        OpAnd \<Rightarrow> path_constraints fmt a @ path_constraints fmt b
      | OpGt \<Rightarrow> cmp fmt a b RelGt
      | OpGe \<Rightarrow> cmp fmt a b RelGe
      | OpLt \<Rightarrow> cmp fmt a b RelLt
      | OpLe \<Rightarrow> cmp fmt a b RelLe
      | OpEq \<Rightarrow> cmp fmt a b RelEq
      | _ \<Rightarrow> [])"
| "path_constraints fmt _ = []"

fun negate_constraints :: "(f64 \<Rightarrow> string) \<Rightarrow> expr \<Rightarrow> lin_constraint list option" where
  "negate_constraints fmt (EBin op a b) =
     (case op of
        OpAnd \<Rightarrow> do {
          na \<leftarrow> negate_constraints fmt a;
          nb \<leftarrow> negate_constraints fmt b;
          Some (na @ nb)
        }
      | OpGt \<Rightarrow> Some (cmp fmt a b RelLe)
      | OpGe \<Rightarrow> Some (cmp fmt a b RelLt)
      | OpLt \<Rightarrow> Some (cmp fmt a b RelGe)
      | OpLe \<Rightarrow> Some (cmp fmt a b RelGt)
      | OpEq \<Rightarrow> Some (cmp fmt a b RelLt @ cmp fmt a b RelGt)
      | OpNe \<Rightarrow> Some (cmp fmt a b RelEq)
      | _ \<Rightarrow> None)"
| "negate_constraints fmt (EUn op a) = (case op of UnNot \<Rightarrow> Some (path_constraints fmt a) | UnNeg \<Rightarrow> None)"
| "negate_constraints fmt _ = None"

end
