(* ===== verification/Eidos_Kernel.thy ===== *)
theory Eidos_Kernel
  imports Eidos_Syntax
begin

text \<open>
  The refinement checker of eidos (\<open>eidos-kernel/src/lib.rs\<close>): it walks a module, proves with the linear
  solver that no denominator is zero and that refinements and \<open>ensures\<close> clauses hold, falls
  back on a table of trusted lemmas, and checks recursive calls for a decreasing argument.

  A run threads the report. \<open>None\<close> is a run that does not return (an alias that refers to itself makes the
  checker recurse for ever). Errors carry the data their messages print; the message text itself is not
  modelled. Obligation descriptions are the printed strings.
\<close>

subsection \<open>Reports\<close>

datatype obligation_status = Verified | Trusted | Unverified

record obligation =
  o_description :: string
  o_status :: obligation_status

datatype check_error =
    ContradictoryRequires
  | PossibleZero string "(string, f64) bmap option"
  | NonLinearDenominator string string
  | CouldNotVerify string
  | NonLinearObligation string
  | ArrayLength string nat nat
  | RefinementReturn string
  | MayNotTerminate string

record report =
  r_errors :: "check_error list"
  r_obligations :: "obligation list"

definition report_ok :: "report \<Rightarrow> bool" where
  "report_ok r \<longleftrightarrow> r_errors r = []"

definition report_default :: report where
  "report_default = \<lparr>r_errors = [], r_obligations = []\<rparr>"

definition push_error :: "check_error \<Rightarrow> report \<Rightarrow> report" where
  "push_error e r = r\<lparr>r_errors := r_errors r @ [e]\<rparr>"

definition push_obligation :: "string \<Rightarrow> obligation_status \<Rightarrow> report \<Rightarrow> report" where
  "push_obligation d st r = r\<lparr>r_obligations := r_obligations r @ [\<lparr>o_description = d, o_status = st\<rparr>]\<rparr>"

fun show_nat :: "nat \<Rightarrow> string" where
  "show_nat n = (if n < 10 then [char_of (48 + n)] else show_nat (n div 10) @ [char_of (48 + n mod 10)])"

declare show_nat.simps [simp del]

fun type_name :: "etype \<Rightarrow> string" where
  "type_name (TBase s) = s"
| "type_name (TNamed s) = s"
| "type_name (TArray t n) = ''Array<'' @ type_name t @ '', '' @ show_nat n @ ''>''"
| "type_name (TRefine b t p) = ''{ '' @ b @ '': '' @ type_name t @ '' | .. }''"

subsection \<open>Trusted lemmas\<close>

type_synonym lin_context = "lin_constraint list"

record klemma =
  l_name :: string
  l_apply :: "expr \<Rightarrow> lin_context \<Rightarrow> lin_constraint list option panics"

fun isqrt :: "nat \<Rightarrow> nat" where
  "isqrt n = (if n < 2 then n else let r = 2 * isqrt (n div 4) in if (r + 1) * (r + 1) \<le> n then r + 1 else r)"

declare isqrt.simps [simp del]

text \<open>The square root of a double: integer square root with two guard bits and a sticky bit, rounded.\<close>

definition f64_sqrt :: "f64 \<Rightarrow> f64" where
  "f64_sqrt b =
     (if f64_is_nan b then f64_nan
      else if f64_is_zero b then b
      else if f64_sign b = 1 then f64_nan
      else if \<not> f64_is_finite b then b
      else let s = (if even (f64_exponent b) then 110 else 111);
               m = f64_mantissa b * 2 ^ s; e = (f64_exponent b - int s) div 2; r = isqrt m
           in if r * r = m then f64_of_scaled (int r) e else f64_of_scaled (2 * int r + 1) (e - 1))"

definition f64_key :: "f64 \<Rightarrow> int" where
  "f64_key b = (if f64_sign b = 1 then - int (b mod 2 ^ 63) else int (b mod 2 ^ 63))"

definition f64_le :: "f64 \<Rightarrow> f64 \<Rightarrow> bool" where
  "f64_le a b \<longleftrightarrow> \<not> f64_is_nan a \<and> \<not> f64_is_nan b \<and> f64_key a \<le> f64_key b"

fun sum_squares :: "f64 \<Rightarrow> expr list \<Rightarrow> f64 option" where
  "sum_squares acc [] = Some acc"
| "sum_squares acc (e # es) = (case e of ENum n \<Rightarrow> sum_squares (f64_add acc (f64_mul n n)) es | _ \<Rightarrow> None)"

text \<open>The literal \<open>1e-9\<close>.\<close>

definition f64_nano :: f64 where
  "f64_nano = 4472406533629990549"

definition literal_magnitude_le :: "expr list \<Rightarrow> f64 \<Rightarrow> bool" where
  "literal_magnitude_le elems bnd =
     (case sum_squares 0 elems of None \<Rightarrow> False | Some q \<Rightarrow> f64_le (f64_sqrt q) (f64_add bnd f64_nano))"

definition normalized_vector_shape :: "(f64 \<Rightarrow> string) \<Rightarrow> expr \<Rightarrow> lin_context \<Rightarrow> bool panics" where
  "normalized_vector_shape fmt x ctx =
     (case x of
        EArrayLit elems \<Rightarrow> Some (literal_magnitude_le elems f64_one)
      | EMethod recv name args \<Rightarrow>
          (if name = ''map''
           then (case args of
                   ELambda params (EBin OpDiv a b) # _ \<Rightarrow>
                     (if length params = 1
                      then (case linearize fmt b of Some mc \<Rightarrow> entails ctx (mk_gt mc) | None \<Rightarrow> Some False)
                      else Some False)
                 | _ \<Rightarrow> Some False)
           else Some False)
      | _ \<Rightarrow> Some False)"

definition lemma_normalized_vector :: "(f64 \<Rightarrow> string) \<Rightarrow> expr \<Rightarrow> lin_context \<Rightarrow> lin_constraint list option panics" where
  "lemma_normalized_vector fmt pred ctx =
     (case pred of
        EBin op (EMethod recv name args) (ENum n) \<Rightarrow>
          (if (op = OpLe \<or> op = OpLt) \<and> n = f64_one \<and> name = ''magnitude'' \<and> args = []
           then do { ok \<leftarrow> normalized_vector_shape fmt recv ctx; Some (if ok then Some [] else None) }
           else Some None)
      | _ \<Rightarrow> Some None)"

definition DEFAULT_LEMMAS :: "(f64 \<Rightarrow> string) \<Rightarrow> klemma list" where
  "DEFAULT_LEMMAS fmt = [\<lparr>l_name = ''normalized_vector'', l_apply = lemma_normalized_vector fmt\<rparr>]"

fun all_entailed :: "lin_context \<Rightarrow> lin_constraint list \<Rightarrow> bool panics" where
  "all_entailed ctx [] = Some True"
| "all_entailed ctx (c # cs) = do { ok \<leftarrow> entails ctx c; (if ok then all_entailed ctx cs else Some False) }"

fun try_lemma :: "klemma list \<Rightarrow> expr \<Rightarrow> lin_context \<Rightarrow> string option panics" where
  "try_lemma [] pred ctx = Some None"
| "try_lemma (l # ls) pred ctx = do {
     side \<leftarrow> l_apply l pred ctx;
     (case side of
        None \<Rightarrow> try_lemma ls pred ctx
      | Some cs \<Rightarrow> do {
          provable \<leftarrow> all_entailed ctx cs;
          (if provable then Some (Some (l_name l)) else try_lemma ls pred ctx)
        })
   }"

subsection \<open>Obligations\<close>

record checker =
  ck_fmt :: "f64 \<Rightarrow> string"
  ck_aliases :: "(string, etype) hmap"
  ck_lemmas :: "klemma list"
  ck_ensures :: "expr option"
  ck_ret :: etype
  ck_current_fn :: string

partial_function (option) resolve :: "(string, etype) hmap \<Rightarrow> etype \<Rightarrow> etype panics" where
  "resolve aliases ty =
     (case ty of
        TNamed n \<Rightarrow> (case hm_get aliases n of Some t \<Rightarrow> resolve aliases t | None \<Rightarrow> Some ty)
      | _ \<Rightarrow> Some ty)"

text \<open>\<open>as_refine\<close>: the binder and predicate of a refinement type.\<close>

definition as_refine :: "(string, etype) hmap \<Rightarrow> etype \<Rightarrow> (string \<times> expr) option panics" where
  "as_refine aliases ty = do {
     t \<leftarrow> resolve aliases ty;
     Some (case t of TRefine b _ p \<Rightarrow> Some (b, p) | _ \<Rightarrow> None)
   }"

partial_function (option) array_len_of :: "(string, etype) hmap \<Rightarrow> etype \<Rightarrow> nat option panics" where
  "array_len_of aliases ty =
     (case ty of
        TArray _ n \<Rightarrow> Some (Some n)
      | TRefine _ t _ \<Rightarrow> array_len_of aliases t
      | TNamed n \<Rightarrow> (case hm_get aliases n of Some t \<Rightarrow> array_len_of aliases t | None \<Rightarrow> Some None)
      | TBase _ \<Rightarrow> Some None)"

definition check_division :: "checker \<Rightarrow> expr \<Rightarrow> lin_context \<Rightarrow> string \<Rightarrow> report \<Rightarrow> report panics" where
  "check_division ck denom ctx kind rep =
     (let text = expr_to_string (ck_fmt ck) denom;
          desc = kind @ '' by zero: '' @ text @ '' != 0''
      in case linearize (ck_fmt ck) denom of
           Some d \<Rightarrow> do {
             let cs = ctx @ [mk_eq d];
             u \<leftarrow> unsat cs;
             (if u then Some (push_obligation desc Verified rep)
              else do {
                ce \<leftarrow> find_model cs;
                Some (push_obligation desc Unverified (push_error (PossibleZero kind ce) rep))
              })
           }
         | None \<Rightarrow> Some (push_obligation desc Unverified (push_error (NonLinearDenominator kind text) rep)))"

definition conj_of :: "expr \<Rightarrow> (expr \<times> expr) option" where
  "conj_of e = (case e of EBin op a b \<Rightarrow> if op = OpAnd then Some (a, b) else None | _ \<Rightarrow> None)"

text \<open>An obligation that is not a conjunction; \<open>failed\<close> is the error of the branch.\<close>

definition discharge_lemma :: "checker \<Rightarrow> expr \<Rightarrow> lin_context \<Rightarrow> string \<Rightarrow> check_error \<Rightarrow> report \<Rightarrow> report panics" where
  "discharge_lemma ck pred ctx desc failed rep = do {
     l \<leftarrow> try_lemma (ck_lemmas ck) pred ctx;
     Some (case l of
         Some name \<Rightarrow> push_obligation (desc @ '' (trusted lemma: '' @ name @ '')'') Trusted rep
       | None \<Rightarrow> push_obligation desc Unverified (push_error failed rep))
   }"

definition discharge_atom :: "checker \<Rightarrow> expr \<Rightarrow> lin_context \<Rightarrow> string \<Rightarrow> report \<Rightarrow> report panics" where
  "discharge_atom ck pred ctx desc rep =
     (case to_constraint (ck_fmt ck) pred of
        Some c \<Rightarrow> do {
          ok \<leftarrow> entails ctx c;
          (if ok then Some (push_obligation desc Verified rep)
           else discharge_lemma ck pred ctx desc (CouldNotVerify desc) rep)
        }
      | None \<Rightarrow> discharge_lemma ck pred ctx desc (NonLinearObligation desc) rep)"

lemma size_record_field: "record_field r name = Some v \<Longrightarrow> size v < size r"
  by (auto simp: record_field_def split: expr.splits dest!: map_of_SomeD
      intro!: less_SucI elim!: size_list_estimation)

lemma size_list_map_le:
  "(\<And>x. x \<in> set xs \<Longrightarrow> g (f x) \<le> g' x) \<Longrightarrow> size_list g (map f xs) \<le> size_list g' xs"
  by (induction xs) (auto intro: add_mono)

lemma size_simplify: "size (simplify e) \<le> size e"
proof (induction e rule: simplify.induct)
  case (2 recv name args)
  show ?case
  proof (cases "if args = [] then record_field (simplify recv) name else None")
    case None
    have "size_list size (map simplify args) \<le> size_list size args"
      by (rule size_list_map_le) (rule 2(2) [OF refl None])
    with None 2(1) show ?thesis by simp
  next
    case (Some v)
    then have "record_field (simplify recv) name = Some v" by (auto split: if_splits)
    then have "size v < size (simplify recv)" by (rule size_record_field)
    with Some 2(1) show ?thesis by simp
  qed
next
  case (5 es)
  then show ?case using size_list_map_le [of es size simplify size] by simp
next
  case (6 fs)
  have "size_list (size_prod (\<lambda>_. 0) size) (map (\<lambda>(f, v). (f, simplify v)) fs) \<le> size_list (size_prod (\<lambda>_. 0) size) fs"
    by (rule size_list_map_le) (use 6 in auto)
  then show ?case by simp
qed auto

lemma conj_of_size: "conj_of (simplify e) = Some (a, b) \<Longrightarrow> size a < size e \<and> size b < size e"
  using size_simplify [of e] by (auto simp: conj_of_def split: expr.splits if_splits)

function discharge :: "checker \<Rightarrow> expr \<Rightarrow> lin_context \<Rightarrow> string \<Rightarrow> report \<Rightarrow> report panics" where
  "discharge ck pred ctx desc rep =
     (let p = simplify pred in
      case conj_of p of
        Some (a, b) \<Rightarrow> do {
          rep1 \<leftarrow> discharge ck a ctx (desc @ '' (conjunct 1)'') rep;
          discharge ck b ctx (desc @ '' (conjunct 2)'') rep1
        }
      | None \<Rightarrow> discharge_atom ck p ctx desc rep)"
  by auto

termination
  by (relation "measure (\<lambda>(ck, pred, ctx, desc, rep). size pred)") (auto dest!: conj_of_size)

declare discharge.simps [simp del]

subsection \<open>The walk\<close>

text \<open>The target of a refinement cast: the record field named like the binder, or the value itself.\<close>

definition cast_target :: "expr \<Rightarrow> string \<Rightarrow> expr" where
  "cast_target v bnd =
     (case v of ERecord fs \<Rightarrow> (case map_of fs bnd of Some x \<Rightarrow> x | None \<Rightarrow> v) | _ \<Rightarrow> v)"

definition check_cast :: "checker \<Rightarrow> expr \<Rightarrow> etype \<Rightarrow> lin_context \<Rightarrow> report \<Rightarrow> report panics" where
  "check_cast ck v ty ctx rep = do {
     ref \<leftarrow> as_refine (ck_aliases ck) ty;
     (case ref of
        None \<Rightarrow> Some rep
      | Some (bnd, pred) \<Rightarrow>
          let inst = subst bnd (cast_target v bnd) pred in
          discharge ck inst ctx (''refinement '' @ type_name ty @ '': '' @ expr_to_string (ck_fmt ck) inst) rep)
   }"

text \<open>The three checks of a \<open>return\<close>: the length of an array literal, the introduction of a refinement, \<open>ensures\<close>.\<close>

definition check_array_length :: "checker \<Rightarrow> expr \<Rightarrow> report \<Rightarrow> report panics" where
  "check_array_length ck e rep =
     (case e of
        EArrayLit es \<Rightarrow> do {
          len \<leftarrow> array_len_of (ck_aliases ck) (ck_ret ck);
          Some (case len of
              Some n \<Rightarrow> if length es \<noteq> n then push_error (ArrayLength (ck_current_fn ck) (length es) n) rep else rep
            | None \<Rightarrow> rep)
        }
      | _ \<Rightarrow> Some rep)"

definition check_introduced :: "checker \<Rightarrow> expr \<Rightarrow> report \<Rightarrow> report panics" where
  "check_introduced ck e rep = do {
     ref \<leftarrow> as_refine (ck_aliases ck) (ck_ret ck);
     Some (if ref \<noteq> None \<and> (case e of ECast _ _ \<Rightarrow> False | _ \<Rightarrow> True)
           then push_error (RefinementReturn (ck_current_fn ck)) rep else rep)
   }"

definition check_ensures :: "checker \<Rightarrow> expr \<Rightarrow> lin_context \<Rightarrow> report \<Rightarrow> report panics" where
  "check_ensures ck e ctx rep =
     (case ck_ensures ck of
        Some (ELambda (PVar p # _) body) \<Rightarrow>
          let inst = subst p e body in
          discharge ck inst ctx (''ensures: '' @ expr_to_string (ck_fmt ck) inst) rep
      | _ \<Rightarrow> Some rep)"

definition check_return :: "checker \<Rightarrow> expr \<Rightarrow> lin_context \<Rightarrow> report \<Rightarrow> report panics" where
  "check_return ck e ctx rep = do {
     rep1 \<leftarrow> check_array_length ck e rep;
     rep2 \<leftarrow> check_introduced ck e rep1;
     check_ensures ck e ctx rep2
   }"

function (sequential) walk :: "checker \<Rightarrow> expr \<Rightarrow> lin_context \<Rightarrow> report \<Rightarrow> report panics"
  and walk_all :: "checker \<Rightarrow> expr list \<Rightarrow> lin_context \<Rightarrow> report \<Rightarrow> report panics"
  and walk_fields :: "checker \<Rightarrow> (string \<times> expr) list \<Rightarrow> lin_context \<Rightarrow> report \<Rightarrow> report panics" where
  "walk ck (ENum n) ctx rep = Some rep"
| "walk ck (EBool b) ctx rep = Some rep"
| "walk ck (EVar v) ctx rep = Some rep"
| "walk ck (EArrayLit es) ctx rep = walk_all ck es ctx rep"
| "walk ck (EBin op a b) ctx rep = do {
     rep1 \<leftarrow> walk ck a ctx rep;
     rep2 \<leftarrow> walk ck b ctx rep1;
     (if op = OpDiv then check_division ck b ctx ''division'' rep2
      else if op = OpRem then check_division ck b ctx ''remainder'' rep2
      else Some rep2)
   }"
| "walk ck (EUn op a) ctx rep = walk ck a ctx rep"
| "walk ck (EIf c t e) ctx rep = do {
     let then_ctx = ctx @ path_constraints (ck_fmt ck) c;
     let else_ctx = ctx @ (case negate_constraints (ck_fmt ck) c of Some n \<Rightarrow> n | None \<Rightarrow> []);
     rep1 \<leftarrow> walk ck t then_ctx rep;
     walk ck e else_ctx rep1
   }"
| "walk ck (ELet name v body) ctx rep = do {
     rep1 \<leftarrow> walk ck v ctx rep;
     let body_ctx = ctx @ (case linearize (ck_fmt ck) v of
         Some lv \<Rightarrow> [mk_eq (lin_sub (lin_var name) lv)] | None \<Rightarrow> []);
     walk ck body body_ctx rep1
   }"
| "walk ck (ECall f args) ctx rep = walk_all ck args ctx rep"
| "walk ck (EMethod recv name args) ctx rep = do {
     rep1 \<leftarrow> walk ck recv ctx rep;
     walk_all ck args ctx rep1
   }"
| "walk ck (ELambda ps body) ctx rep = walk ck body ctx rep"
| "walk ck (ERecord fs) ctx rep = walk_fields ck fs ctx rep"
| "walk ck (ECast v ty) ctx rep = do {
     rep1 \<leftarrow> walk ck v ctx rep;
     check_cast ck v ty ctx rep1
   }"
| "walk ck (EReturn e) ctx rep = do {
     rep1 \<leftarrow> walk ck e ctx rep;
     check_return ck e ctx rep1
   }"
| "walk_all ck [] ctx rep = Some rep"
| "walk_all ck (e # es) ctx rep = do { rep1 \<leftarrow> walk ck e ctx rep; walk_all ck es ctx rep1 }"
| "walk_fields ck [] ctx rep = Some rep"
| "walk_fields ck ((f, e) # fs) ctx rep = do { rep1 \<leftarrow> walk ck e ctx rep; walk_fields ck fs ctx rep1 }"
  by pat_completeness auto

termination
  by (relation "measure (case_sum (\<lambda>(ck, e, _). size e)
      (case_sum (\<lambda>(ck, es, _). size_list size es) (\<lambda>(ck, fs, _). size_list (size_prod (\<lambda>_. 0) size) fs)))") auto

text \<open>The checker of one function, as \<open>check_fun\<close> sets its fields.\<close>

definition checker_of :: "(f64 \<Rightarrow> string) \<Rightarrow> (string, etype) hmap \<Rightarrow> klemma list \<Rightarrow> efun \<Rightarrow> checker" where
  "checker_of fmt aliases lemmas_k f =
     \<lparr>ck_fmt = fmt, ck_aliases = aliases, ck_lemmas = lemmas_k, ck_ensures = f_ensures f,
      ck_ret = f_ret f, ck_current_fn = f_name f\<rparr>"

definition check_fun :: "(f64 \<Rightarrow> string) \<Rightarrow> (string, etype) hmap \<Rightarrow> klemma list \<Rightarrow> efun \<Rightarrow> report \<Rightarrow> report panics" where
  "check_fun fmt aliases lemmas_k f rep =
     (let req_cs = (case f_requires f of Some r \<Rightarrow> path_constraints fmt r | None \<Rightarrow> []) in do {
        contra \<leftarrow> (if req_cs = [] then Some False else unsat req_cs);
        let rep1 = (if contra then push_error ContradictoryRequires rep else rep);
        walk (checker_of fmt aliases lemmas_k f) (f_body f) req_cs rep1
      })"

subsection \<open>Recursion\<close>

function (sequential) collect_calls ::
    "expr \<Rightarrow> (string \<times> expr list) list \<times> string list \<Rightarrow> (string \<times> expr list) list \<times> string list"
  and collect_calls_all ::
    "expr list \<Rightarrow> (string \<times> expr list) list \<times> string list \<Rightarrow> (string \<times> expr list) list \<times> string list"
  and collect_calls_fields ::
    "(string \<times> expr) list \<Rightarrow> (string \<times> expr list) list \<times> string list \<Rightarrow> (string \<times> expr list) list \<times> string list" where
  "collect_calls (EBin op a b) acc = collect_calls b (collect_calls a acc)"
| "collect_calls (EUn op a) acc = collect_calls a acc"
| "collect_calls (EIf c t e) acc = collect_calls e (collect_calls t (collect_calls c acc))"
| "collect_calls (ELet n v b) acc = collect_calls b (collect_calls v acc)"
| "collect_calls (ECall f args) acc =
     (let (out, adj) = acc in
      collect_calls_all args (out @ [(f, args)], if f \<in> set adj then adj else adj @ [f]))"
| "collect_calls (EMethod recv name args) acc = collect_calls_all args (collect_calls recv acc)"
| "collect_calls (ELambda ps body) acc = collect_calls body acc"
| "collect_calls (ERecord fs) acc = collect_calls_fields fs acc"
| "collect_calls (ECast v t) acc = collect_calls v acc"
| "collect_calls (EReturn e) acc = collect_calls e acc"
| "collect_calls (ENum n) acc = acc"
| "collect_calls (EBool b) acc = acc"
| "collect_calls (EVar v) acc = acc"
| "collect_calls (EArrayLit es) acc = acc"
| "collect_calls_all [] acc = acc"
| "collect_calls_all (e # es) acc = collect_calls_all es (collect_calls e acc)"
| "collect_calls_fields [] acc = acc"
| "collect_calls_fields ((f, e) # fs) acc = collect_calls_fields fs (collect_calls e acc)"
  by pat_completeness auto

termination
  by (relation "measure (case_sum (\<lambda>(e, _). size e)
      (case_sum (\<lambda>(es, _). size_list size es) (\<lambda>(fs, _). size_list (size_prod (\<lambda>_. 0) size) fs)))") auto

partial_function (option) reachable_loop ::
    "(string, string list) hmap \<Rightarrow> string list \<Rightarrow> string list \<Rightarrow> string list panics" where
  "reachable_loop callees seen stack =
     (if stack = [] then Some seen
      else let n = last stack; stack1 = butlast stack in
           if n \<in> set seen then reachable_loop callees seen stack1
           else let seen1 = seen @ [n];
                    new = (case hm_get callees n of Some cs \<Rightarrow> filter (\<lambda>c. c \<notin> set seen1) cs | None \<Rightarrow> [])
                in reachable_loop callees seen1 (stack1 @ new))"

definition reachable :: "(string, string list) hmap \<Rightarrow> string \<Rightarrow> string list panics" where
  "reachable callees start = reachable_loop callees [] [start]"

definition expr_decreases :: "(f64 \<Rightarrow> string) \<Rightarrow> expr \<Rightarrow> string \<Rightarrow> bool panics" where
  "expr_decreases fmt arg param =
     (case linearize fmt arg of
        Some la \<Rightarrow> entails [] (mk_lt (lin_sub la (lin_var param)))
      | None \<Rightarrow> Some False)"

fun any_decreases :: "(f64 \<Rightarrow> string) \<Rightarrow> (expr \<times> string) list \<Rightarrow> bool panics" where
  "any_decreases fmt [] = Some False"
| "any_decreases fmt ((a, p) # aps) = do {
     d \<leftarrow> expr_decreases fmt a p;
     (if d then Some True else any_decreases fmt aps)
   }"

text \<open>Whether some call to a function of \<open>reach\<close> has no decreasing argument.\<close>

fun bad_call ::
    "(f64 \<Rightarrow> string) \<Rightarrow> (string, string list) hmap \<Rightarrow> string list \<Rightarrow> (string \<times> expr list) list \<Rightarrow> bool panics" where
  "bad_call fmt params_of reach [] = Some False"
| "bad_call fmt params_of reach ((callee, args) # calls) =
     (if callee \<notin> set reach then bad_call fmt params_of reach calls
      else case hm_get params_of callee of
             None \<Rightarrow> bad_call fmt params_of reach calls
           | Some ps \<Rightarrow> do {
               d \<leftarrow> any_decreases fmt (zip args ps);
               (if d then bad_call fmt params_of reach calls else Some True)
             })"

fun funs_of :: "module \<Rightarrow> efun list" where
  "funs_of [] = []"
| "funs_of (FnItem f # its) = f # funs_of its"
| "funs_of (TypeAlias n t # its) = funs_of its"

fun check_recursion ::
    "(f64 \<Rightarrow> string) \<Rightarrow> (string, string list) hmap \<Rightarrow> (string, (string \<times> expr list) list) hmap \<Rightarrow> (string, string list) hmap \<Rightarrow>
     efun list \<Rightarrow> report \<Rightarrow> report panics" where
  "check_recursion fmt params_of calls_of callees [] rep = Some rep"
| "check_recursion fmt params_of calls_of callees (f # fs) rep = do {
     reach \<leftarrow> reachable callees (f_name f);
     (if f_name f \<notin> set reach then check_recursion fmt params_of calls_of callees fs rep
      else do {
        calls \<leftarrow> hm_get calls_of (f_name f);
        bad \<leftarrow> bad_call fmt params_of reach calls;
        check_recursion fmt params_of calls_of callees fs
          (if bad then push_error (MayNotTerminate (f_name f)) rep else rep)
      })
   }"

definition check_termination :: "(f64 \<Rightarrow> string) \<Rightarrow> module \<Rightarrow> report \<Rightarrow> report panics" where
  "check_termination fmt m rep =
     (let fs = funs_of m;
          params_of = foldl (\<lambda>h f. hm_insert (f_name f) (map fst (f_params f)) h) [] fs;
          calls_of = foldl (\<lambda>h f. hm_insert (f_name f) (fst (collect_calls (f_body f) ([], []))) h) [] fs;
          callees = foldl (\<lambda>h f. hm_insert (f_name f) (snd (collect_calls (f_body f) ([], []))) h) [] fs
      in check_recursion fmt params_of calls_of callees fs rep)"

fun aliases_of :: "(string, etype) hmap \<Rightarrow> module \<Rightarrow> (string, etype) hmap" where
  "aliases_of h [] = h"
| "aliases_of h (TypeAlias n t # its) = aliases_of (hm_insert n t h) its"
| "aliases_of h (FnItem f # its) = aliases_of h its"

fun check_funs :: "(f64 \<Rightarrow> string) \<Rightarrow> (string, etype) hmap \<Rightarrow> klemma list \<Rightarrow> efun list \<Rightarrow> report \<Rightarrow> report panics" where
  "check_funs fmt aliases lemmas_k [] rep = Some rep"
| "check_funs fmt aliases lemmas_k (f # fs) rep = do {
     rep1 \<leftarrow> check_fun fmt aliases lemmas_k f rep;
     check_funs fmt aliases lemmas_k fs rep1
   }"

definition check_with :: "(f64 \<Rightarrow> string) \<Rightarrow> module \<Rightarrow> klemma list \<Rightarrow> report panics" where
  "check_with fmt m lemmas_k = do {
     rep \<leftarrow> check_funs fmt (aliases_of [] m) lemmas_k (funs_of m) report_default;
     check_termination fmt m rep
   }"

definition check :: "(f64 \<Rightarrow> string) \<Rightarrow> module \<Rightarrow> report panics" where
  "check fmt m = check_with fmt m (DEFAULT_LEMMAS fmt)"

end
