(* ===== verification/Eidos_Safety.thy ===== *)
theory Eidos_Safety
  imports Eidos_Kernel
begin

text \<open>
  What an accepted eidos function does when it runs. \<open>eval\<close> gives the code its meaning over the real
  numbers, which is the arithmetic the checker reasons in; the generated code computes with \<open>f64\<close>, and rounding is not
  part of this meaning. Operands go from left to right, \<open>&&\<close> and \<open>||\<close> short-circuiting, a division or a remainder by zero
  the outcome \<open>DivZero\<close>, a value that leaves its refinement type or its \<open>ensures\<close> clause the outcome
  \<open>Broken\<close>. Operands of the wrong type are the outcome \<open>Stuck\<close>. Lambdas are values whose bodies are not run. The results of calls and methods are parameters. The theorem of this
  theory is that accepted code has neither outcome, for code in the class \<open>wf_code\<close>; the theorems after it
  show code outside that class which is accepted and divides by zero.
\<close>

subsection \<open>Meaning of the code\<close>

datatype sval = Num real | Truth bool | Other

datatype outcome = Val sval | Ret sval | DivZero | Broken | Stuck

type_synonym env = "string \<Rightarrow> sval"

record world =
  w_call :: "string \<Rightarrow> sval list \<Rightarrow> sval"
  w_method :: "string \<Rightarrow> sval \<Rightarrow> sval list \<Rightarrow> sval"

definition then_val :: "outcome \<Rightarrow> (sval \<Rightarrow> outcome) \<Rightarrow> outcome" where
  "then_val r k = (case r of Val v \<Rightarrow> k v | _ \<Rightarrow> r)"

definition real_rem :: "real \<Rightarrow> real \<Rightarrow> real" where
  "real_rem x y = x - y * of_int (if x / y \<ge> 0 then \<lfloor>x / y\<rfloor> else \<lceil>x / y\<rceil>)"

definition num_bin :: "binop \<Rightarrow> real \<Rightarrow> real \<Rightarrow> outcome" where
  "num_bin op x y =
     (case op of
        OpAdd \<Rightarrow> Val (Num (x + y)) | OpSub \<Rightarrow> Val (Num (x - y)) | OpMul \<Rightarrow> Val (Num (x * y))
      | OpDiv \<Rightarrow> if y = 0 then DivZero else Val (Num (x / y))
      | OpRem \<Rightarrow> if y = 0 then DivZero else Val (Num (real_rem x y))
      | OpLt \<Rightarrow> Val (Truth (x < y)) | OpGt \<Rightarrow> Val (Truth (x > y))
      | OpLe \<Rightarrow> Val (Truth (x \<le> y)) | OpGe \<Rightarrow> Val (Truth (x \<ge> y))
      | OpEq \<Rightarrow> Val (Truth (x = y)) | OpNe \<Rightarrow> Val (Truth (x \<noteq> y))
      | _ \<Rightarrow> Stuck)"

definition truth_bin :: "binop \<Rightarrow> bool \<Rightarrow> bool \<Rightarrow> outcome" where
  "truth_bin op p q =
     (case op of
        OpAnd \<Rightarrow> Val (Truth (p \<and> q)) | OpOr \<Rightarrow> Val (Truth (p \<or> q))
      | OpEq \<Rightarrow> Val (Truth (p = q)) | OpNe \<Rightarrow> Val (Truth (p \<noteq> q))
      | _ \<Rightarrow> Stuck)"

definition bin_sem :: "binop \<Rightarrow> sval \<Rightarrow> sval \<Rightarrow> outcome" where
  "bin_sem op v w =
     (case (v, w) of (Num x, Num y) \<Rightarrow> num_bin op x y | (Truth p, Truth q) \<Rightarrow> truth_bin op p q | _ \<Rightarrow> Stuck)"

text \<open>The left operand decides alone.\<close>

definition decided :: "binop \<Rightarrow> sval \<Rightarrow> bool" where
  "decided op v \<longleftrightarrow> op = OpAnd \<and> v = Truth False \<or> op = OpOr \<and> v = Truth True"

definition un_sem :: "unop \<Rightarrow> sval \<Rightarrow> outcome" where
  "un_sem op v =
     (case (op, v) of (UnNeg, Num x) \<Rightarrow> Val (Num (- x)) | (UnNot, Truth p) \<Rightarrow> Val (Truth (\<not> p)) | _ \<Rightarrow> Stuck)"

text \<open>Predicates: expressions over literals, variables and operators.\<close>

fun pure :: "expr \<Rightarrow> bool" where
  "pure (ENum n) \<longleftrightarrow> True"
| "pure (EBool b) \<longleftrightarrow> True"
| "pure (EVar x) \<longleftrightarrow> True"
| "pure (EBin op a b) \<longleftrightarrow> pure a \<and> pure b"
| "pure (EUn op a) \<longleftrightarrow> pure a"
| "pure _ \<longleftrightarrow> False"

fun peval :: "env \<Rightarrow> expr \<Rightarrow> outcome" where
  "peval \<rho> (ENum n) = Val (Num (f64_value n))"
| "peval \<rho> (EBool b) = Val (Truth b)"
| "peval \<rho> (EVar x) = Val (\<rho> x)"
| "peval \<rho> (EBin op a b) =
     then_val (peval \<rho> a) (\<lambda>v. if decided op v then Val v else then_val (peval \<rho> b) (bin_sem op v))"
| "peval \<rho> (EUn op a) = then_val (peval \<rho> a) (un_sem op)"
| "peval \<rho> _ = Stuck"

text \<open>A value against a predicate over the name \<open>b\<close>.\<close>

definition meets_pred :: "env \<Rightarrow> string \<Rightarrow> sval \<Rightarrow> expr \<Rightarrow> (sval \<Rightarrow> outcome) \<Rightarrow> outcome" where
  "meets_pred \<rho> b v p k =
     (case peval (\<rho>(b := v)) p of Val (Truth True) \<Rightarrow> k v | Stuck \<Rightarrow> Stuck | _ \<Rightarrow> Broken)"

definition refinement_of :: "checker \<Rightarrow> etype \<Rightarrow> (string \<times> expr) option" where
  "refinement_of ck ty = (case as_refine (ck_aliases ck) ty of Some r \<Rightarrow> r | None \<Rightarrow> None)"

definition ensures_of :: "checker \<Rightarrow> (string \<times> expr) option" where
  "ensures_of ck = (case ck_ensures ck of Some (ELambda (PVar p # _) body) \<Rightarrow> Some (p, body) | _ \<Rightarrow> None)"

definition contract :: "env \<Rightarrow> (string \<times> expr) option \<Rightarrow> sval \<Rightarrow> (sval \<Rightarrow> outcome) \<Rightarrow> outcome" where
  "contract \<rho> c v k = (case c of Some (b, p) \<Rightarrow> meets_pred \<rho> b v p k | None \<Rightarrow> k v)"

function (sequential) eval :: "world \<Rightarrow> checker \<Rightarrow> env \<Rightarrow> expr \<Rightarrow> outcome"
  and eval_all :: "world \<Rightarrow> checker \<Rightarrow> env \<Rightarrow> expr list \<Rightarrow> outcome + sval list"
  and eval_fields :: "world \<Rightarrow> checker \<Rightarrow> env \<Rightarrow> (string \<times> expr) list \<Rightarrow> outcome" where
  "eval w ck \<rho> (ENum n) = Val (Num (f64_value n))"
| "eval w ck \<rho> (EBool b) = Val (Truth b)"
| "eval w ck \<rho> (EVar x) = Val (\<rho> x)"
| "eval w ck \<rho> (EArrayLit es) = (case eval_all w ck \<rho> es of Inl r \<Rightarrow> r | Inr vs \<Rightarrow> Val Other)"
| "eval w ck \<rho> (EBin op a b) =
     then_val (eval w ck \<rho> a) (\<lambda>v. if decided op v then Val v else then_val (eval w ck \<rho> b) (bin_sem op v))"
| "eval w ck \<rho> (EUn op a) = then_val (eval w ck \<rho> a) (un_sem op)"
| "eval w ck \<rho> (EIf c t e) =
     then_val (eval w ck \<rho> c)
       (\<lambda>v. case v of Truth True \<Rightarrow> eval w ck \<rho> t | Truth False \<Rightarrow> eval w ck \<rho> e | _ \<Rightarrow> Stuck)"
| "eval w ck \<rho> (ELet name v body) = then_val (eval w ck \<rho> v) (\<lambda>x. eval w ck (\<rho>(name := x)) body)"
| "eval w ck \<rho> (ECall f args) = (case eval_all w ck \<rho> args of Inl r \<Rightarrow> r | Inr vs \<Rightarrow> Val (w_call w f vs))"
| "eval w ck \<rho> (EMethod recv name args) =
     then_val (eval w ck \<rho> recv)
       (\<lambda>v. case eval_all w ck \<rho> args of Inl r \<Rightarrow> r | Inr vs \<Rightarrow> Val (w_method w name v vs))"
| "eval w ck \<rho> (ELambda ps body) = Val Other"
| "eval w ck \<rho> (ERecord fs) = eval_fields w ck \<rho> fs"
| "eval w ck \<rho> (ECast v ty) = then_val (eval w ck \<rho> v) (\<lambda>x. contract \<rho> (refinement_of ck ty) x Val)"
| "eval w ck \<rho> (EReturn e) = then_val (eval w ck \<rho> e) (\<lambda>x. contract \<rho> (ensures_of ck) x Ret)"
| "eval_all w ck \<rho> [] = Inr []"
| "eval_all w ck \<rho> (e # es) =
     (case eval w ck \<rho> e of
        Val v \<Rightarrow> (case eval_all w ck \<rho> es of Inl r \<Rightarrow> Inl r | Inr vs \<Rightarrow> Inr (v # vs))
      | r \<Rightarrow> Inl r)"
| "eval_fields w ck \<rho> [] = Val Other"
| "eval_fields w ck \<rho> ((f, e) # fs) = then_val (eval w ck \<rho> e) (\<lambda>v. eval_fields w ck \<rho> fs)"
  by pat_completeness auto

termination
  by (relation "measure (case_sum (\<lambda>(w, ck, \<rho>, e). size e)
      (case_sum (\<lambda>(w, ck, \<rho>, es). size_list size es) (\<lambda>(w, ck, \<rho>, fs). size_list (size_prod (\<lambda>_. 0) size) fs)))")
    auto

text \<open>Neither a division by zero nor a broken contract.\<close>

definition safe :: "outcome \<Rightarrow> bool" where
  "safe r \<longleftrightarrow> r \<noteq> DivZero \<and> r \<noteq> Broken"

subsection \<open>Exact coefficients\<close>

text \<open>
  The checker computes with double coefficients. The predicates below say that no operation on the way to a
  linear form rounds.
\<close>

definition coeff0 :: "(string, f64) bmap \<Rightarrow> string \<Rightarrow> f64" where
  "coeff0 cs k = (case bt_get cs k of None \<Rightarrow> 0 | Some u \<Rightarrow> u)"

definition exact_sum :: "f64 \<Rightarrow> f64 \<Rightarrow> bool" where
  "exact_sum a b \<longleftrightarrow> fits 64 (f64_add a b) \<and> f64_value (f64_add a b) = f64_value a + f64_value b"

definition exact_product :: "f64 \<Rightarrow> f64 \<Rightarrow> bool" where
  "exact_product a b \<longleftrightarrow> fits 64 (f64_mul a b) \<and> f64_value (f64_mul a b) = f64_value a * f64_value b"

fun exact_adds :: "(string, f64) bmap \<Rightarrow> (string \<times> f64) list \<Rightarrow> bool" where
  "exact_adds cs [] \<longleftrightarrow> True"
| "exact_adds cs ((k, v) # kvs) \<longleftrightarrow> exact_sum (coeff0 cs k) v \<and> exact_adds (bt_insert k (f64_add (coeff0 cs k) v) cs) kvs"

definition exact_add :: "lin_expr \<Rightarrow> lin_expr \<Rightarrow> bool" where
  "exact_add a b \<longleftrightarrow> exact_adds (le_coeffs a) (le_coeffs b) \<and> exact_sum (le_constant a) (le_constant b)"

definition exact_sub :: "lin_expr \<Rightarrow> lin_expr \<Rightarrow> bool" where
  "exact_sub a b \<longleftrightarrow> exact_add a (lin_neg b)"

definition exact_scale :: "lin_expr \<Rightarrow> f64 \<Rightarrow> bool" where
  "exact_scale a s \<longleftrightarrow>
     list_all (\<lambda>kv. exact_product (snd kv) s) (le_coeffs a) \<and> exact_product (le_constant a) s"

definition exact_inverse :: "f64 \<Rightarrow> bool" where
  "exact_inverse k \<longleftrightarrow> f64_value k \<noteq> 0 \<and> f64_value (f64_div f64_one k) = 1 / f64_value k"

definition exact_op :: "binop \<Rightarrow> expr \<Rightarrow> expr \<Rightarrow> lin_expr \<Rightarrow> lin_expr \<Rightarrow> bool" where
  "exact_op op a b la lb \<longleftrightarrow>
     (case op of
        OpAdd \<Rightarrow> exact_add la lb
      | OpMul \<Rightarrow> (case a of ENum k \<Rightarrow> exact_scale lb k
                  | _ \<Rightarrow> (case b of ENum k \<Rightarrow> exact_scale la k | _ \<Rightarrow> True))
      | OpDiv \<Rightarrow> (case b of ENum k \<Rightarrow> exact_inverse k \<and> exact_scale la (f64_div f64_one k) | _ \<Rightarrow> True)
      | OpRem \<Rightarrow> True | OpAnd \<Rightarrow> True | OpOr \<Rightarrow> True
      | _ \<Rightarrow> exact_sub la lb)"

fun exact :: "(f64 \<Rightarrow> string) \<Rightarrow> expr \<Rightarrow> bool" where
  "exact fmt (ENum n) \<longleftrightarrow> fits 64 n"
| "exact fmt (EUn op a) \<longleftrightarrow> exact fmt a"
| "exact fmt (EBin op a b) \<longleftrightarrow>
     exact fmt a \<and> exact fmt b \<and>
     (case (linearize fmt a, linearize fmt b) of (Some la, Some lb) \<Rightarrow> exact_op op a b la lb | _ \<Rightarrow> True)"
| "exact fmt (EMethod recv name args) \<longleftrightarrow> name \<noteq> ''magnitude'' \<or> args \<noteq> []"
| "exact fmt _ \<longleftrightarrow> True"

abbreviation lin_vars :: "lin_expr \<Rightarrow> string set" where
  "lin_vars l \<equiv> keys_of (le_coeffs l)"

definition fsum :: "assignment \<Rightarrow> (string \<times> f64) list \<Rightarrow> real" where
  "fsum \<sigma> m = sum_list (map (\<lambda>(k, v). f64_value v * \<sigma> k) m)"

definition coeffs_ok :: "(string, f64) bmap \<Rightarrow> bool" where
  "coeffs_ok m \<longleftrightarrow> bt_wf m \<and> (\<forall>kv \<in> set m. fits 64 (snd kv))"

lemma lin_ok_coeffs: "lin_ok l \<longleftrightarrow> coeffs_ok (le_coeffs l) \<and> fits 64 (le_constant l)"
  by (auto simp: lin_ok_def coeffs_ok_def)

lemma lin_val_fsum: "lin_val \<sigma> l = f64_value (le_constant l) + fsum \<sigma> (le_coeffs l)"
  by (simp add: lin_val_def fsum_def)

lemma fsum_simps [simp]:
  "fsum \<sigma> [] = 0" "fsum \<sigma> (kv # m) = f64_value (snd kv) * \<sigma> (fst kv) + fsum \<sigma> m"
  by (simp_all add: fsum_def split_beta)

lemma f64_value_zero [simp]: "f64_value 0 = 0"
  by (simp add: f64_value_def f64_sign_def f64_exp_bits_def f64_frac_def)

lemma fsum_insert:
  "bt_wf m \<Longrightarrow> fsum \<sigma> (bt_insert k v m) = fsum \<sigma> m + (f64_value v - f64_value (coeff0 m k)) * \<sigma> k"
proof (induction k v m rule: bt_insert.induct)
  case (1 k v)
  then show ?case by (simp add: bt_get_def coeff0_def)
next
  case (2 k v j u m)
  have "k < j \<Longrightarrow> bt_get ((j, u) # m) k = None"
    using 2(2) by (intro bt_get_fresh) (auto simp: bt_wf_Cons)
  moreover have "k \<noteq> j \<Longrightarrow> bt_get ((j, u) # m) k = bt_get m k" by (simp add: bt_get_def)
  moreover have "bt_get ((k, u) # m) k = Some u" by (simp add: bt_get_def)
  ultimately show ?case using 2 by (auto simp: bt_wf_Cons coeff0_def algebra_simps)
qed

lemma coeffs_ok_insert: "coeffs_ok m \<Longrightarrow> fits 64 v \<Longrightarrow> coeffs_ok (bt_insert k v m)"
  using set_bt_insert_subset [of k v m] by (auto simp: coeffs_ok_def bt_wf_insert)

lemma keys_bt_insert: "keys_of (bt_insert k v m) = insert k (keys_of m)"
  using set_bt_insert [of k v m] by (auto simp: keys_of_def)

abbreviation add_coeffs :: "(string, f64) bmap \<Rightarrow> (string \<times> f64) list \<Rightarrow> (string, f64) bmap" where
  "add_coeffs \<equiv> foldl (\<lambda>cs (k, v). bt_insert k (f64_add (case bt_get cs k of None \<Rightarrow> 0 | Some u \<Rightarrow> u) v) cs)"

lemma exact_adds_sum:
  assumes "exact_adds cs kvs" and "coeffs_ok cs"
  shows "coeffs_ok (add_coeffs cs kvs) \<and> fsum \<sigma> (add_coeffs cs kvs) = fsum \<sigma> cs + fsum \<sigma> kvs"
  using assms
proof (induction cs kvs rule: exact_adds.induct)
  case (2 cs k v kvs)
  then have "coeffs_ok (bt_insert k (f64_add (coeff0 cs k) v) cs)"
    by (auto simp: exact_sum_def intro: coeffs_ok_insert)
  with 2 show ?case
    by (simp add: coeff0_def [symmetric] exact_sum_def coeffs_ok_def fsum_insert algebra_simps)
qed simp

lemma keys_add_coeffs: "keys_of (add_coeffs cs kvs) = keys_of cs \<union> keys_of kvs"
  by (induction kvs arbitrary: cs) (auto simp: keys_bt_insert)

lemma lin_add_exact:
  assumes "exact_add a b" and "lin_ok a"
  shows "lin_ok (lin_add a b) \<and> lin_val \<sigma> (lin_add a b) = lin_val \<sigma> a + lin_val \<sigma> b"
  using assms exact_adds_sum [of "le_coeffs a" "le_coeffs b" \<sigma>]
  by (simp add: exact_add_def lin_ok_coeffs lin_val_fsum lin_add_def exact_sum_def)

lemma fst_map_value: "fst \<circ> (\<lambda>(k, v). (k, g v)) = fst"
  by auto

lemma lin_neg_exact:
  assumes "lin_ok a"
  shows "lin_ok (lin_neg a) \<and> lin_val \<sigma> (lin_neg a) = - lin_val \<sigma> a"
proof -
  have "fsum \<sigma> (map (\<lambda>(k, v). (k, f64_neg v)) m) = - fsum \<sigma> m" if "\<forall>kv \<in> set m. fits 64 (snd kv)" for m
    using that by (induction m) (auto simp: f64_neg_value algebra_simps)
  then show ?thesis using assms
    by (auto simp: lin_ok_def lin_val_fsum lin_neg_def bt_wf_def f64_neg_value f64_neg_parts fst_map_value)
qed

lemma lin_sub_exact:
  assumes "exact_sub a b" and "lin_ok a" and "lin_ok b"
  shows "lin_ok (lin_sub a b) \<and> lin_val \<sigma> (lin_sub a b) = lin_val \<sigma> a - lin_val \<sigma> b"
  using assms lin_add_exact [of a "lin_neg b"] lin_neg_exact [of b \<sigma>] by (simp add: lin_sub_def exact_sub_def)

lemma lin_scale_exact:
  assumes "exact_scale a s" and "lin_ok a"
  shows "lin_ok (lin_scale a s) \<and> lin_val \<sigma> (lin_scale a s) = lin_val \<sigma> a * f64_value s"
proof -
  have "fsum \<sigma> (map (\<lambda>(k, v). (k, f64_mul v s)) m) = fsum \<sigma> m * f64_value s"
    if "list_all (\<lambda>kv. exact_product (snd kv) s) m" for m
    using that by (induction m) (auto simp: exact_product_def algebra_simps)
  then show ?thesis using assms
    by (auto simp: exact_scale_def lin_ok_def lin_val_fsum lin_scale_def bt_wf_def exact_product_def
        list_all_iff fst_map_value algebra_simps)
qed

lemma lin_vars_ops:
  "lin_vars (lin_constant n) = {}" "lin_vars (lin_var x) = {x}"
  "lin_vars (lin_neg a) = lin_vars a" "lin_vars (lin_scale a s) = lin_vars a"
  "lin_vars (lin_add a b) = lin_vars a \<union> lin_vars b" "lin_vars (lin_sub a b) = lin_vars a \<union> lin_vars b"
proof -
  show n: "lin_vars (lin_neg a) = lin_vars a" for a by (auto simp: lin_neg_def keys_of_def image_image split_beta)
  show p: "lin_vars (lin_add a b) = lin_vars a \<union> lin_vars b" for b by (simp add: lin_add_def keys_add_coeffs)
  show "lin_vars (lin_scale a s) = lin_vars a" by (auto simp: lin_scale_def keys_of_def image_image split_beta)
  show "lin_vars (lin_sub a b) = lin_vars a \<union> lin_vars b" by (simp add: lin_sub_def n p)
qed (simp_all add: lin_constant_def lin_var_def)

lemma lin_leaf_exact:
  "fits 64 n \<Longrightarrow> lin_ok (lin_constant n)" "lin_val \<sigma> (lin_constant n) = f64_value n"
  "lin_ok (lin_var x)" "lin_val \<sigma> (lin_var x) = \<sigma> x"
  by (simp_all add: lin_constant_def lin_var_def lin_ok_def lin_val_fsum bt_wf_def f64_literals)
    (simp add: fits_def)

subsection \<open>Linear forms and values\<close>

fun num_of :: "sval \<Rightarrow> real" where
  "num_of (Num x) = x"
| "num_of (Truth p) = of_bool p"
| "num_of Other = 0"

definition reals :: "env \<Rightarrow> assignment" where
  "reals \<rho> = num_of \<circ> \<rho>"

lemma reals_upd: "reals (\<rho>(x := v)) = (reals \<rho>)(x := num_of v)"
  by (simp add: reals_def fun_upd_comp)

lemma then_val_simps [simp]:
  "then_val (Val v) k = k v" "then_val (Ret v) k = Ret v" "then_val DivZero k = DivZero"
  "then_val Broken k = Broken" "then_val Stuck k = Stuck"
  by (simp_all add: then_val_def)

text \<open>The value of a linear expression, unless it is ill-typed, is that of its linear form.\<close>

definition has_value :: "outcome \<Rightarrow> real \<Rightarrow> bool" where
  "has_value r x \<longleftrightarrow> r = Stuck \<or> (\<exists>v. r = Val v \<and> num_of v = x)"

lemma has_value_intros [simp, intro]: "has_value Stuck x" "has_value (Val v) (num_of v)"
  by (auto simp: has_value_def)

lemma has_value_bin:
  assumes "has_value r x" and "has_value s y"
    and "op \<in> {OpAdd, OpSub, OpMul, OpDiv}" and "op = OpDiv \<Longrightarrow> y \<noteq> 0"
  shows "has_value (then_val r (\<lambda>v. if decided op v then Val v else then_val s (bin_sem op v)))
    (case op of OpAdd \<Rightarrow> x + y | OpSub \<Rightarrow> x - y | OpMul \<Rightarrow> x * y | _ \<Rightarrow> x / y)"
  using assms
  by (auto simp: has_value_def decided_def bin_sem_def num_bin_def truth_bin_def split: sval.split)

lemma has_value_neg:
  "has_value r x \<Longrightarrow> has_value (then_val r (un_sem UnNeg)) (- x)"
  by (auto simp: has_value_def un_sem_def split: sval.splits)

lemma linearize_bin_cases:
  assumes "linearize fmt (EBin op a b) = Some l"
  shows "\<exists>la lb. linearize fmt a = Some la \<and> linearize fmt b = Some lb \<and>
    (op = OpAdd \<and> l = lin_add la lb \<or> op = OpSub \<and> l = lin_sub la lb \<or>
     op = OpMul \<and> (\<exists>k. a = ENum k \<and> l = lin_scale lb k) \<or>
     op = OpMul \<and> (\<exists>k. b = ENum k \<and> (\<forall>j. a \<noteq> ENum j) \<and> l = lin_scale la k) \<or>
     op = OpDiv \<and> (\<exists>k. b = ENum k \<and> l = lin_scale la (f64_div f64_one k)))"
proof -
  from assms obtain la lb where "linearize fmt a = Some la" "linearize fmt b = Some lb"
    by (auto simp: bind_eq_Some_conv)
  moreover from this assms have "op = OpAdd \<and> l = lin_add la lb \<or> op = OpSub \<and> l = lin_sub la lb \<or>
     op = OpMul \<and> (\<exists>k. a = ENum k \<and> l = lin_scale lb k) \<or>
     op = OpMul \<and> (\<exists>k. b = ENum k \<and> (\<forall>j. a \<noteq> ENum j) \<and> l = lin_scale la k) \<or>
     op = OpDiv \<and> (\<exists>k. b = ENum k \<and> l = lin_scale la (f64_div f64_one k))"
    by (cases op) (auto split: expr.splits if_splits)
  ultimately show ?thesis by blast
qed

lemma linearize_exact:
  assumes "linearize fmt e = Some l" and "exact fmt e"
  shows "lin_ok l \<and> has_value (eval w ck \<rho> e) (lin_val (reals \<rho>) l)"
  using assms
proof (induction fmt e arbitrary: l rule: linearize.induct)
  case (1 fmt n)
  then show ?case using has_value_intros(2) [of "Num (f64_value n)"] by (auto simp: lin_leaf_exact)
next
  case (2 fmt v)
  then show ?case by (auto simp: lin_leaf_exact reals_def)
next
  case (3 fmt op a)
  then obtain la where la: "linearize fmt a = Some la" "op = UnNeg" "l = lin_neg la" by (auto split: unop.splits)
  with 3 have "lin_ok la \<and> has_value (eval w ck \<rho> a) (lin_val (reals \<rho>) la)" by auto
  with la show ?case using lin_neg_exact [of la "reals \<rho>"] by (auto intro!: has_value_neg)
next
  case (4 fmt op a b)
  from linearize_bin_cases [OF "4.prems"(1)] obtain la lb where
    lin: "linearize fmt a = Some la" "linearize fmt b = Some lb" and
    cases: "op = OpAdd \<and> l = lin_add la lb \<or> op = OpSub \<and> l = lin_sub la lb \<or>
     op = OpMul \<and> (\<exists>k. a = ENum k \<and> l = lin_scale lb k) \<or>
     op = OpMul \<and> (\<exists>k. b = ENum k \<and> (\<forall>j. a \<noteq> ENum j) \<and> l = lin_scale la k) \<or>
     op = OpDiv \<and> (\<exists>k. b = ENum k \<and> l = lin_scale la (f64_div f64_one k))" by blast
  let ?va = "lin_val (reals \<rho>) la" and ?vb = "lin_val (reals \<rho>) lb"
  from 4 lin have a: "lin_ok la" "has_value (eval w ck \<rho> a) ?va"
    and b: "lin_ok lb" "has_value (eval w ck \<rho> b) ?vb" and op: "exact_op op a b la lb" by auto
  have num: "lin_val (reals \<rho>) l' = f64_value k" if "linearize fmt (ENum k) = Some l'" for k l'
    using that by (auto simp: lin_leaf_exact)
  have "lin_ok l \<and> lin_val (reals \<rho>) l =
      (case op of OpAdd \<Rightarrow> ?va + ?vb | OpSub \<Rightarrow> ?va - ?vb | OpMul \<Rightarrow> ?va * ?vb | _ \<Rightarrow> ?va / ?vb) \<and>
      op \<in> {OpAdd, OpSub, OpMul, OpDiv} \<and> (op = OpDiv \<longrightarrow> ?vb \<noteq> 0)"
    using cases
  proof (elim disjE conjE exE)
    assume "op = OpAdd" "l = lin_add la lb"
    with op a b show ?thesis using lin_add_exact [of la lb "reals \<rho>"] by (simp add: exact_op_def)
  next
    assume "op = OpSub" "l = lin_sub la lb"
    with op a b show ?thesis using lin_sub_exact [of la lb "reals \<rho>"] by (simp add: exact_op_def)
  next
    fix k assume "op = OpMul" "a = ENum k" "l = lin_scale lb k"
    with op lin b show ?thesis using lin_scale_exact [of lb k "reals \<rho>"] num [of k la] by (simp add: exact_op_def)
  next
    fix k assume "op = OpMul" "b = ENum k" "\<forall>j. a \<noteq> ENum j" "l = lin_scale la k"
    with op lin a show ?thesis using lin_scale_exact [of la k "reals \<rho>"] num [of k lb]
      by (cases a) (simp_all add: exact_op_def)
  next
    fix k assume "op = OpDiv" "b = ENum k" "l = lin_scale la (f64_div f64_one k)"
    with op lin a show ?thesis using lin_scale_exact [of la "f64_div f64_one k" "reals \<rho>"] num [of k lb]
      by (simp add: exact_op_def exact_inverse_def)
  qed
  with has_value_bin [OF a(2) b(2), of op] show ?case by simp
next
  case (5 fmt recv name args)
  then show ?case by (auto split: if_splits)
qed auto

definition compare :: "binop \<Rightarrow> real \<Rightarrow> bool" where
  "compare op d =
     (case op of OpLt \<Rightarrow> d < 0 | OpGt \<Rightarrow> d > 0 | OpLe \<Rightarrow> d \<le> 0 | OpGe \<Rightarrow> d \<ge> 0 | OpEq \<Rightarrow> d = 0 | _ \<Rightarrow> d \<noteq> 0)"

lemma compare_values:
  assumes "has_value r x" and "has_value s y" and "op \<in> {OpLt, OpGt, OpLe, OpGe, OpEq, OpNe}"
  shows "then_val r (\<lambda>v. if decided op v then Val v else then_val s (bin_sem op v)) \<in>
    {Stuck, Val (Truth (compare op (x - y)))}"
  using assms
  by (auto simp: has_value_def decided_def bin_sem_def num_bin_def truth_bin_def compare_def split: sval.splits)

definition rel_holds :: "rel \<Rightarrow> real \<Rightarrow> bool" where
  "rel_holds r x = (case r of RelLe \<Rightarrow> x \<le> 0 | RelLt \<Rightarrow> x < 0 | RelGe \<Rightarrow> x \<ge> 0 | RelGt \<Rightarrow> x > 0 | RelEq \<Rightarrow> x = 0)"

lemma constraint_holds_rel: "constraint_holds \<sigma> c \<longleftrightarrow> rel_holds (c_rel c) (lin_val \<sigma> (c_e c))"
  by (simp add: constraint_holds_def rel_holds_def split: rel.split)

text \<open>A comparison of two linear expressions means what its constraint means.\<close>

lemma comparison_exact:
  assumes "linearize fmt a = Some la" and "linearize fmt b = Some lb" and "exact fmt (EBin op a b)"
    and "op \<in> {OpLt, OpGt, OpLe, OpGe, OpEq, OpNe}"
  shows "lin_ok (lin_sub la lb)"
    and "eval w ck \<rho> (EBin op a b) \<in> {Stuck, Val (Truth (compare op (lin_val (reals \<rho>) (lin_sub la lb))))}"
proof -
  from assms(3) have ea: "exact fmt a" and eb: "exact fmt b" by auto
  from assms have "exact_sub la lb" by (auto simp: exact_op_def)
  note d = lin_sub_exact [OF this, of "reals \<rho>"]
  note a = linearize_exact [OF assms(1) ea, of w ck \<rho>] and b = linearize_exact [OF assms(2) eb, of w ck \<rho>]
  from a b d show "lin_ok (lin_sub la lb)" by simp
  from a b d compare_values [OF _ _ assms(4), of "eval w ck \<rho> a" "lin_val (reals \<rho>) la"
      "eval w ck \<rho> b" "lin_val (reals \<rho>) lb"]
  show "eval w ck \<rho> (EBin op a b) \<in> {Stuck, Val (Truth (compare op (lin_val (reals \<rho>) (lin_sub la lb))))}"
    by simp
qed

subsection \<open>Path conditions\<close>

definition constraints_ok :: "env \<Rightarrow> lin_constraint list \<Rightarrow> bool" where
  "constraints_ok \<rho> cs \<longleftrightarrow> all_ok cs \<and> all_hold (reals \<rho>) cs"

lemma constraints_ok_simps [simp]:
  "constraints_ok \<rho> []" "constraints_ok \<rho> (xs @ ys) \<longleftrightarrow> constraints_ok \<rho> xs \<and> constraints_ok \<rho> ys"
  by (auto simp: constraints_ok_def all_ok_def all_hold_def)

definition rel_of :: "binop \<Rightarrow> rel option" where
  "rel_of op = (case op of OpGt \<Rightarrow> Some RelGt | OpGe \<Rightarrow> Some RelGe | OpLt \<Rightarrow> Some RelLt
     | OpLe \<Rightarrow> Some RelLe | OpEq \<Rightarrow> Some RelEq | _ \<Rightarrow> None)"

lemma rel_of_cases:
  "rel_of op = Some r \<Longrightarrow> op \<in> {OpLt, OpGt, OpLe, OpGe, OpEq, OpNe}"
  "rel_of op = Some r \<Longrightarrow> rel_holds r d = compare op d"
  by (auto simp: rel_of_def rel_holds_def compare_def split: binop.splits)

lemma cmp_holds:
  assumes "exact fmt (EBin op a b)" and "op \<in> {OpLt, OpGt, OpLe, OpGe, OpEq, OpNe}"
    and "eval w ck \<rho> (EBin op a b) = Val (Truth t)" and "\<And>d. compare op d = t \<Longrightarrow> rel_holds r d"
  shows "constraints_ok \<rho> (cmp fmt a b r)"
proof (cases "linearize fmt a = None \<or> linearize fmt b = None")
  case False
  then obtain la lb where l: "linearize fmt a = Some la" "linearize fmt b = Some lb" by auto
  from comparison_exact(1) [OF l assms(1,2)] comparison_exact(2) [OF l assms(1,2), of w ck \<rho>] assms(3)
  have "lin_ok (lin_sub la lb)" "compare op (lin_val (reals \<rho>) (lin_sub la lb)) = t" by auto
  with assms(4) l show ?thesis
    by (simp add: constraints_ok_def cmp_def all_ok_def all_hold_def constraint_holds_rel)
qed (auto simp: cmp_def split: option.splits)

lemma path_constraints_rel: "rel_of op = Some r \<Longrightarrow> path_constraints fmt (EBin op a b) = cmp fmt a b r"
  by (auto simp: rel_of_def split: binop.splits)

lemma path_constraints_other: "rel_of op = None \<Longrightarrow> op \<noteq> OpAnd \<Longrightarrow> path_constraints fmt (EBin op a b) = []"
  by (auto simp: rel_of_def split: binop.splits)

lemma and_true:
  assumes "eval w ck \<rho> (EBin OpAnd a b) = Val (Truth True)"
  shows "eval w ck \<rho> a = Val (Truth True) \<and> eval w ck \<rho> b = Val (Truth True)"
  using assms
  by (cases "eval w ck \<rho> a"; cases "eval w ck \<rho> b")
    (auto simp: decided_def bin_sem_def num_bin_def truth_bin_def split: if_splits sval.splits)

text \<open>On the branch where the condition is true, its path constraints hold.\<close>

lemma path_constraints_hold:
  "exact fmt c \<Longrightarrow> eval w ck \<rho> c = Val (Truth True) \<Longrightarrow> constraints_ok \<rho> (path_constraints fmt c)"
proof (induction fmt c rule: path_constraints.induct)
  case (1 fmt op a b)
  show ?case
  proof (cases "op = OpAnd")
    case True
    with 1 and_true [of w ck \<rho> a b] show ?thesis by (auto simp del: eval.simps)
  next
    case False
    show ?thesis
    proof (cases "rel_of op")
      case None
      then show ?thesis using False by (simp add: path_constraints_other del: path_constraints.simps)
    next
      case (Some r)
      from cmp_holds [OF "1.prems"(1) rel_of_cases(1) [OF Some] "1.prems"(2), of r] Some show ?thesis
        unfolding path_constraints_rel [OF Some] by (simp add: rel_of_cases(2))
    qed
  qed
qed auto

text \<open>
  On the other branch the negated constraints hold, unless the condition is a conjunction or an equality.
\<close>

definition negatable :: "expr \<Rightarrow> bool" where
  "negatable c = (case c of EBin op a b \<Rightarrow> op \<noteq> OpAnd \<and> op \<noteq> OpEq | _ \<Rightarrow> True)"

lemma negate_cmp:
  assumes "exact fmt (EBin op a b)" and "eval w ck \<rho> (EBin op a b) = Val (Truth False)"
    and "negate_constraints fmt (EBin op a b) = Some cs" and "op \<noteq> OpAnd" and "op \<noteq> OpEq"
  shows "constraints_ok \<rho> cs"
proof -
  obtain r where op: "op \<in> {OpLt, OpGt, OpLe, OpGe, OpEq, OpNe}" "cs = cmp fmt a b r"
    "\<And>d. compare op d = False \<Longrightarrow> rel_holds r d"
    using assms(3-5) by (cases op) (auto simp: compare_def rel_holds_def)
  from cmp_holds [OF assms(1) op(1) assms(2) op(3)] op(2) show ?thesis by simp
qed

lemma negate_constraints_hold:
  assumes "exact fmt c" and "eval w ck \<rho> c = Val (Truth False)" and "negatable c"
    and "negate_constraints fmt c = Some cs"
  shows "constraints_ok \<rho> cs"
proof (cases c)
  case (EBin op a b)
  with assms negate_cmp [of fmt op a b w ck \<rho> cs] show ?thesis
    by (simp add: negatable_def del: eval.simps negate_constraints.simps exact.simps)
next
  case (EUn op a)
  with assms(4) have op: "op = UnNot" "cs = path_constraints fmt a" by (auto split: unop.splits)
  with EUn assms(2) have "eval w ck \<rho> a = Val (Truth True)"
    by (cases "eval w ck \<rho> a") (auto simp: un_sem_def split: sval.splits)
  with op EUn assms(1) show ?thesis by (simp add: path_constraints_hold)
qed (use assms(4) in auto)

text \<open>Conditions without a division have no bad outcome.\<close>

fun no_div :: "expr \<Rightarrow> bool" where
  "no_div (EBin op a b) \<longleftrightarrow> op \<noteq> OpDiv \<and> op \<noteq> OpRem \<and> no_div a \<and> no_div b"
| "no_div (EUn op a) \<longleftrightarrow> no_div a"
| "no_div _ \<longleftrightarrow> True"

definition calm :: "outcome \<Rightarrow> bool" where
  "calm r \<longleftrightarrow> r = Stuck \<or> (\<exists>v. r = Val v)"

lemma calm_bin: "op \<noteq> OpDiv \<Longrightarrow> op \<noteq> OpRem \<Longrightarrow> calm (bin_sem op v u)"
  by (auto simp: calm_def bin_sem_def num_bin_def truth_bin_def split: sval.splits binop.splits)

lemma calm_then: "calm r \<Longrightarrow> (\<And>v. calm (k v)) \<Longrightarrow> calm (then_val r k)"
  unfolding calm_def by (cases r) fastforce+

lemma calm_un: "calm (un_sem op v)"
  by (auto simp: calm_def un_sem_def split: sval.splits unop.splits)

lemma calm_pure: "pure c \<Longrightarrow> no_div c \<Longrightarrow> calm (eval w ck \<rho> c)"
  by (induction c rule: pure.induct)
    (auto intro!: calm_then calm_bin calm_un simp: calm_def [of "Val _"])

subsection \<open>Obligations\<close>

text \<open>Values without field projections, which \<open>simplify\<close> only frees of casts.\<close>

fun projection_free :: "expr \<Rightarrow> bool" where
  "projection_free (EBin op a b) \<longleftrightarrow> projection_free a \<and> projection_free b"
| "projection_free (EUn op a) \<longleftrightarrow> projection_free a"
| "projection_free (EIf c t e) \<longleftrightarrow> projection_free c \<and> projection_free t \<and> projection_free e"
| "projection_free (ECast v ty) \<longleftrightarrow> projection_free v"
| "projection_free (EMethod recv name args) \<longleftrightarrow> False"
| "projection_free (EArrayLit es) \<longleftrightarrow> False"
| "projection_free (ERecord fs) \<longleftrightarrow> False"
| "projection_free _ \<longleftrightarrow> True"

lemma then_val_eq_Val: "then_val r k = Val v \<longleftrightarrow> (\<exists>u. r = Val u \<and> k u = Val v)"
  by (cases r) auto

lemma contract_Val: "contract \<rho> c x Val = Val v \<Longrightarrow> v = x"
  by (auto simp: contract_def meets_pred_def split: option.splits outcome.splits sval.splits bool.splits)

lemma contract_Ret: "contract \<rho> c x Ret \<noteq> Val v"
  by (auto simp: contract_def meets_pred_def split: option.splits outcome.splits sval.splits bool.splits)

lemma eval_simplify:
  "projection_free e \<Longrightarrow> eval w ck \<rho> e = Val v \<Longrightarrow> eval w ck \<rho> (simplify e) = Val v"
proof (induction e arbitrary: v rule: projection_free.induct)
  case (1 op a b)
  then show ?case by (auto simp: then_val_eq_Val split: if_splits)
next
  case (2 op a)
  then show ?case by (auto simp: then_val_eq_Val)
next
  case (3 c t e)
  then obtain u where u: "eval w ck \<rho> c = Val u" by (auto simp: then_val_eq_Val)
  with 3 have "eval w ck \<rho> (simplify c) = Val u" by auto
  with 3 u show ?case by (cases u) (auto split: bool.splits)
next
  case (4 x ty)
  then show ?case by (auto simp: then_val_eq_Val dest: contract_Val)
qed auto

lemma eval_subst:
  assumes "pure p" and "projection_free x" and "eval w ck \<rho> x = Val v"
  shows "eval w ck \<rho> (simplify (subst b x p)) = peval (\<rho>(b := v)) p"
  using assms(1)
  by (induction p rule: pure.induct) (auto simp: eval_simplify [OF assms(2,3)] cong: if_cong)

lemma projection_free_subst:
  "pure p \<Longrightarrow> projection_free x \<Longrightarrow> projection_free (subst b x p)"
  by (induction p rule: pure.induct) auto

lemma projection_free_simplify: "projection_free e \<Longrightarrow> projection_free (simplify e)"
  by (induction e rule: projection_free.induct) auto

lemma no_lemma_applies:
  assumes "projection_free p"
  shows "try_lemma (DEFAULT_LEMMAS fmt) p ctx = Some None"
proof -
  have "lemma_normalized_vector fmt p ctx = Some None"
    using assms by (auto simp: lemma_normalized_vector_def split: expr.split)
  then show ?thesis by (simp add: DEFAULT_LEMMAS_def)
qed

lemma errors_pushed [simp]:
  "r_errors (push_error e r) = r_errors r @ [e]" "r_errors (push_obligation d st r) = r_errors r"
  by (simp_all add: push_error_def push_obligation_def)

lemma discharge_atom_true:
  assumes "discharge_atom ck p ctx desc rep = Some rep'" and "r_errors rep' = []"
    and "ck_lemmas ck = DEFAULT_LEMMAS (ck_fmt ck)" and "projection_free p" and "exact (ck_fmt ck) p"
    and "constraints_ok \<rho> ctx"
  shows "eval w ck \<rho> p \<in> {Stuck, Val (Truth True)}"
proof -
  have no: "discharge_lemma ck p ctx desc err rep = Some (push_obligation desc Unverified (push_error err rep))" for err
    using assms(3) no_lemma_applies [OF assms(4)] by (simp add: discharge_lemma_def)
  from assms(1,2) obtain c where c: "to_constraint (ck_fmt ck) p = Some c"
    by (cases "to_constraint (ck_fmt ck) p") (auto simp: discharge_atom_def no)
  then obtain op a b la lb r where p: "p = EBin op a b" and lin: "linearize (ck_fmt ck) a = Some la"
    "linearize (ck_fmt ck) b = Some lb" and r: "rel_of op = Some r" and ce: "c = \<lparr>c_rel = r, c_e = lin_sub la lb\<rparr>"
    by (auto simp: to_constraint_def rel_of_def bind_eq_Some_conv split: expr.splits)
  note ex = assms(5) [unfolded p]
  from comparison_exact(1) [OF lin ex rel_of_cases(1) [OF r]] have "lin_ok (c_e c)" using ce by simp
  with entails_true [of ctx c] assms(6) obtain t where t: "entails ctx c = Some t"
    "t \<longrightarrow> constraint_holds (reals \<rho>) c" unfolding constraints_ok_def by blast
  with c assms(1,2) no have "t" by (cases t) (auto simp: discharge_atom_def)
  with t ce have "compare op (lin_val (reals \<rho>) (lin_sub la lb))"
    by (simp add: constraint_holds_rel rel_of_cases(2) [OF r])
  with comparison_exact(2) [OF lin ex rel_of_cases(1) [OF r], of w ck \<rho>] p show ?thesis by auto
qed

lemma discharge_errors: "discharge ck p ctx desc rep = Some rep' \<Longrightarrow> \<exists>xs. r_errors rep' = r_errors rep @ xs"
proof (induction ck p ctx desc rep arbitrary: rep' rule: discharge.induct)
  case (1 ck pred ctx desc rep)
  show ?case
  proof (cases "conj_of (simplify pred)")
    case None
    with 1(3) show ?thesis
      by (auto simp: discharge.simps [of ck pred] Let_def discharge_atom_def discharge_lemma_def bind_eq_Some_conv
          split: option.splits if_splits)
  next
    case (Some ab)
    obtain a b where ab: "ab = (a, b)" by force
    from 1(3) Some ab obtain rep1 where r1: "discharge ck a ctx (desc @ '' (conjunct 1)'') rep = Some rep1"
      and r2: "discharge ck b ctx (desc @ '' (conjunct 2)'') rep1 = Some rep'"
      by (auto simp: discharge.simps [of ck pred] bind_eq_Some_conv)
    from 1(1) [OF refl Some ab [symmetric] r1] 1(2) [OF refl Some ab [symmetric] r1 r2] show ?thesis by force
  qed
qed

lemma discharge_true:
  assumes "discharge ck p ctx desc rep = Some rep'" and "r_errors rep' = []"
    and "ck_lemmas ck = DEFAULT_LEMMAS (ck_fmt ck)" and "projection_free p" and "exact (ck_fmt ck) (simplify p)"
    and "constraints_ok \<rho> ctx"
  shows "eval w ck \<rho> (simplify p) \<in> {Stuck, Val (Truth True)}"
  using assms
proof (induction ck p ctx desc rep arbitrary: rep' rule: discharge.induct)
  case (1 ck pred ctx desc rep)
  show ?case
  proof (cases "conj_of (simplify pred)")
    case None
    with 1(3) have "discharge_atom ck (simplify pred) ctx desc rep = Some rep'"
      by (simp add: discharge.simps [of ck pred])
    from discharge_atom_true [OF this 1(4,5) projection_free_simplify [OF 1(6)] 1(7,8)] show ?thesis .
  next
    case (Some ab)
    obtain a b where ab: "ab = (a, b)" by force
    from Some ab have p: "simplify pred = EBin OpAnd a b"
      by (auto simp: conj_of_def split: expr.splits if_splits)
    from 1(3) Some ab obtain rep1 where r1: "discharge ck a ctx (desc @ '' (conjunct 1)'') rep = Some rep1"
      and r2: "discharge ck b ctx (desc @ '' (conjunct 2)'') rep1 = Some rep'"
      by (auto simp: discharge.simps [of ck pred] bind_eq_Some_conv)
    from p simplify_idem [of pred] have s: "simplify a = a" "simplify b = b" by auto
    from projection_free_simplify [OF 1(6)] 1(7) p
    have f: "projection_free a" "projection_free b" and ex: "exact (ck_fmt ck) a" "exact (ck_fmt ck) b" by auto
    from discharge_errors [OF r2] 1(4) have "r_errors rep1 = []" by auto
    with 1(1) [OF refl Some ab [symmetric] r1 _ 1(5) f(1) _ 1(8)] 1(2) [OF refl Some ab [symmetric] r1 r2 1(4,5) f(2) _ 1(8)] s ex
    have "eval w ck \<rho> a \<in> {Stuck, Val (Truth True)}" "eval w ck \<rho> b \<in> {Stuck, Val (Truth True)}" by auto
    then show ?thesis unfolding p by (auto simp: decided_def bin_sem_def truth_bin_def)
  qed
qed

text \<open>A value whose instantiated predicate was discharged meets the predicate.\<close>

lemma discharged_contract:
  assumes "discharge ck (subst b x p) ctx desc rep = Some rep'" and "r_errors rep' = []"
    and "ck_lemmas ck = DEFAULT_LEMMAS (ck_fmt ck)" and "pure p" and "projection_free x"
    and "exact (ck_fmt ck) (simplify (subst b x p))" and "constraints_ok \<rho> ctx" and "eval w ck \<rho> x = Val v"
    and "safe (k v)"
  shows "safe (contract \<rho> (Some (b, p)) v k)"
proof -
  from discharge_true [OF assms(1-3) projection_free_subst [OF assms(4,5)] assms(6,7), of w]
  have "peval (\<rho>(b := v)) p \<in> {Stuck, Val (Truth True)}"
    unfolding eval_subst [OF assms(4,5,8)] .
  with assms(9) show ?thesis by (auto simp: contract_def meets_pred_def safe_def)
qed

subsection \<open>The class of code\<close>

text \<open>
  \<open>wf_code ck vs e\<close>, with \<open>vs\<close> the names in scope: every variable is in scope and a \<open>let\<close> binds a new name;
  conditions are free of divisions and calls and are neither conjunctions nor equalities; refinement predicates
  and \<open>ensures\<close> clauses are operators over variables and literals, applied to values without projections; linear
  forms do not round and do not mention \<open>magnitude\<close>.
\<close>

definition cond_ok :: "(f64 \<Rightarrow> string) \<Rightarrow> expr \<Rightarrow> bool" where
  "cond_ok fmt c \<longleftrightarrow> pure c \<and> no_div c \<and> exact fmt c \<and> negatable c"

definition contract_ok :: "(f64 \<Rightarrow> string) \<Rightarrow> (string \<times> expr) option \<Rightarrow> expr \<Rightarrow> bool" where
  "contract_ok fmt c x =
     (case c of None \<Rightarrow> True
      | Some (b, p) \<Rightarrow> pure p \<and> projection_free x \<and> exact fmt (simplify (subst b x p)))"

definition let_ok :: "(f64 \<Rightarrow> string) \<Rightarrow> string \<Rightarrow> expr \<Rightarrow> bool" where
  "let_ok fmt name v =
     (case linearize fmt v of None \<Rightarrow> True | Some lv \<Rightarrow> exact fmt v \<and> exact_sub (lin_var name) lv)"

fun wf_code :: "checker \<Rightarrow> string list \<Rightarrow> expr \<Rightarrow> bool" where
  "wf_code ck vs (ENum n) \<longleftrightarrow> f64_is_finite n"
| "wf_code ck vs (EBool b) \<longleftrightarrow> True"
| "wf_code ck vs (EVar x) \<longleftrightarrow> x \<in> set vs"
| "wf_code ck vs (EArrayLit es) \<longleftrightarrow> list_all (\<lambda>e. wf_code ck vs e) es"
| "wf_code ck vs (EBin op a b) \<longleftrightarrow>
     wf_code ck vs a \<and> wf_code ck vs b \<and> (if op = OpDiv \<or> op = OpRem then exact (ck_fmt ck) b else True)"
| "wf_code ck vs (EUn op a) \<longleftrightarrow> wf_code ck vs a"
| "wf_code ck vs (EIf c t e) \<longleftrightarrow> cond_ok (ck_fmt ck) c \<and> wf_code ck vs c \<and> wf_code ck vs t \<and> wf_code ck vs e"
| "wf_code ck vs (ELet name v body) \<longleftrightarrow>
     name \<notin> set vs \<and> wf_code ck vs v \<and> let_ok (ck_fmt ck) name v \<and> wf_code ck (name # vs) body"
| "wf_code ck vs (ECall f args) \<longleftrightarrow> list_all (\<lambda>e. wf_code ck vs e) args"
| "wf_code ck vs (EMethod recv name args) \<longleftrightarrow> wf_code ck vs recv \<and> list_all (\<lambda>e. wf_code ck vs e) args"
| "wf_code ck vs (ELambda ps body) \<longleftrightarrow> True"
| "wf_code ck vs (ERecord fs) \<longleftrightarrow> list_all (\<lambda>(f, e). wf_code ck vs e) fs"
| "wf_code ck vs (ECast v ty) \<longleftrightarrow> wf_code ck vs v \<and> contract_ok (ck_fmt ck) (refinement_of ck ty) v"
| "wf_code ck vs (EReturn e) \<longleftrightarrow> wf_code ck vs e \<and> contract_ok (ck_fmt ck) (ensures_of ck) e"

definition scoped :: "string list \<Rightarrow> lin_constraint list \<Rightarrow> bool" where
  "scoped vs cs \<longleftrightarrow> list_all (\<lambda>c. lin_vars (c_e c) \<subseteq> set vs) cs"

lemma scoped_simps [simp]:
  "scoped vs []" "scoped vs (xs @ ys) \<longleftrightarrow> scoped vs xs \<and> scoped vs ys"
  by (auto simp: scoped_def)

lemma linearize_scoped:
  "linearize (ck_fmt ck) e = Some l \<Longrightarrow> exact (ck_fmt ck) e \<Longrightarrow> wf_code ck vs e \<Longrightarrow> lin_vars l \<subseteq> set vs"
proof (induction "ck_fmt ck" e arbitrary: l rule: linearize.induct)
  case (3 op a)
  then show ?case by (auto simp: lin_vars_ops split: unop.splits)
next
  case (4 op a b)
  from linearize_bin_cases [OF "4.prems"(1)] obtain la lb where lin: "linearize (ck_fmt ck) a = Some la"
    "linearize (ck_fmt ck) b = Some lb" and "lin_vars l \<subseteq> lin_vars la \<union> lin_vars lb"
    by (auto simp: lin_vars_ops)
  moreover have "lin_vars la \<subseteq> set vs" "lin_vars lb \<subseteq> set vs"
    using "4.hyps"(1) [OF lin(1)] "4.hyps"(2) [OF lin(1,2)] "4.prems"(2,3) by auto
  ultimately show ?case by blast
qed (auto simp: lin_vars_ops split: if_splits)

lemma cmp_scoped:
  "exact (ck_fmt ck) (EBin op a b) \<Longrightarrow> wf_code ck vs (EBin op a b) \<Longrightarrow> scoped vs (cmp (ck_fmt ck) a b r)"
  using linearize_scoped [of ck a _ vs] linearize_scoped [of ck b _ vs]
  by (auto simp: cmp_def scoped_def lin_vars_ops split: option.splits)

lemma path_scoped:
  "exact (ck_fmt ck) c \<Longrightarrow> wf_code ck vs c \<Longrightarrow> scoped vs (path_constraints (ck_fmt ck) c)"
proof (induction "ck_fmt ck" c rule: path_constraints.induct)
  case (1 op a b)
  from cmp_scoped [OF "1.prems"] have "scoped vs (cmp (ck_fmt ck) a b r)" for r .
  with 1 show ?case by (auto split: binop.split)
qed auto

lemma negate_scoped:
  assumes "exact (ck_fmt ck) c" and "wf_code ck vs c" and "negatable c"
    and "negate_constraints (ck_fmt ck) c = Some cs"
  shows "scoped vs cs"
proof (cases c)
  case (EBin op a b)
  from assms(1,2) [unfolded EBin] have "scoped vs (cmp (ck_fmt ck) a b r)" for r by (rule cmp_scoped)
  with EBin assms(3,4) show ?thesis by (auto simp: negatable_def split: binop.splits)
next
  case (EUn op a)
  with assms path_scoped [of ck a vs] show ?thesis by (auto split: unop.splits)
qed (use assms(4) in auto)

text \<open>The context of a walk at an environment.\<close>

definition ctx_ok :: "string list \<Rightarrow> env \<Rightarrow> lin_constraint list \<Rightarrow> bool" where
  "ctx_ok vs \<rho> ctx \<longleftrightarrow> constraints_ok \<rho> ctx \<and> scoped vs ctx"

lemma ctx_ok_append [simp]: "ctx_ok vs \<rho> (xs @ ys) \<longleftrightarrow> ctx_ok vs \<rho> xs \<and> ctx_ok vs \<rho> ys"
  by (auto simp: ctx_ok_def)

lemma lin_val_upd: "x \<notin> lin_vars l \<Longrightarrow> lin_val (\<sigma>(x := v)) l = lin_val \<sigma> l"
proof -
  have "x \<notin> keys_of m \<Longrightarrow> fsum (\<sigma>(x := v)) m = fsum \<sigma> m" for m by (induction m) auto
  then show "x \<notin> lin_vars l \<Longrightarrow> lin_val (\<sigma>(x := v)) l = lin_val \<sigma> l" by (simp add: lin_val_fsum)
qed

lemma ctx_ok_upd:
  assumes "ctx_ok vs \<rho> ctx" and "x \<notin> set vs"
  shows "ctx_ok (x # vs) (\<rho>(x := v)) ctx"
proof -
  have "constraint_holds (reals (\<rho>(x := v))) c = constraint_holds (reals \<rho>) c" if "c \<in> set ctx" for c
    using assms that
    by (auto simp: ctx_ok_def scoped_def list_all_iff constraint_holds_rel reals_upd intro!: lin_val_upd arg_cong2 [where f = rel_holds])
  with assms show ?thesis
    by (auto simp: ctx_ok_def scoped_def constraints_ok_def all_hold_def list_all_iff)
qed

lemma ctx_ok_let:
  assumes "ctx_ok vs \<rho> ctx" and "x \<notin> set vs" and "wf_code ck vs e" and "let_ok (ck_fmt ck) x e"
    and "eval w ck \<rho> e = Val v"
  shows "ctx_ok (x # vs) (\<rho>(x := v)) (ctx @ (case linearize (ck_fmt ck) e of
      Some lv \<Rightarrow> [mk_eq (lin_sub (lin_var x) lv)] | None \<Rightarrow> []))"
proof (cases "linearize (ck_fmt ck) e")
  case None
  with ctx_ok_upd [OF assms(1,2)] show ?thesis by simp
next
  case (Some l)
  with assms(4) have ex: "exact (ck_fmt ck) e" "exact_sub (lin_var x) l" by (auto simp: let_ok_def)
  have vars: "lin_vars l \<subseteq> set vs" by (rule linearize_scoped [OF Some ex(1) assms(3)])
  from linearize_exact [OF Some ex(1), of w ck \<rho>] assms(5)
  have l: "lin_ok l" "lin_val (reals \<rho>) l = num_of v" by (auto simp: has_value_def)
  from vars assms(2) have "x \<notin> lin_vars l" by blast
  then have "lin_val (reals (\<rho>(x := v))) l = num_of v"
    using l(2) by (simp add: reals_upd lin_val_upd)
  with lin_sub_exact [OF ex(2) _ l(1), of "reals (\<rho>(x := v))"]
  have "ctx_ok (x # vs) (\<rho>(x := v)) [mk_eq (lin_sub (lin_var x) l)]" using vars
    by (auto simp: ctx_ok_def constraints_ok_def scoped_def all_ok_def all_hold_def constraint_holds_rel mk_eq_def
        rel_holds_def lin_leaf_exact lin_vars_ops reals_upd)
  with Some ctx_ok_upd [OF assms(1,2)] show ?thesis by simp
qed

subsection \<open>Accepted code is safe\<close>

lemma division_checked:
  assumes "check_division ck b ctx kind rep = Some rep'" and "r_errors rep' = []"
    and "exact (ck_fmt ck) b" and "constraints_ok \<rho> ctx"
  shows "\<exists>d. linearize (ck_fmt ck) b = Some d \<and> lin_val (reals \<rho>) d \<noteq> 0"
proof (cases "linearize (ck_fmt ck) b")
  case None
  with assms(1) have "r_errors rep' \<noteq> []" by (auto simp: check_division_def Let_def)
  with assms(2) show ?thesis by blast
next
  case (Some d)
  from linearize_exact [OF Some assms(3)] have "lin_ok d" by blast
  with assms(4) have "all_ok (ctx @ [mk_eq d])"
    by (simp add: constraints_ok_def all_ok_def mk_eq_def)
  from unsat_total [OF this] obtain u where u: "unsat (ctx @ [mk_eq d]) = Some u"
    "u \<longrightarrow> \<not> all_hold (reals \<rho>) (ctx @ [mk_eq d])" by blast
  with Some assms(1,2) have u
    by (cases u) (auto simp: check_division_def Let_def bind_eq_Some_conv)
  with u(2) assms(4) have "lin_val (reals \<rho>) d \<noteq> 0"
    by (auto simp: constraints_ok_def all_hold_def constraint_holds_rel rel_holds_def mk_eq_def)
  with Some show ?thesis by blast
qed

lemma division_errors:
  "check_division ck b ctx kind rep = Some rep' \<Longrightarrow> \<exists>xs. r_errors rep' = r_errors rep @ xs"
  by (auto simp: check_division_def Let_def bind_eq_Some_conv split: option.splits if_splits)

lemma cast_errors: "check_cast ck v ty ctx rep = Some rep' \<Longrightarrow> \<exists>xs. r_errors rep' = r_errors rep @ xs"
  by (auto simp: check_cast_def Let_def bind_eq_Some_conv split: option.splits dest: discharge_errors)

lemma return_errors:
  assumes "check_return ck e ctx rep = Some rep'"
  shows "\<exists>xs. r_errors rep' = r_errors rep @ xs"
proof -
  from assms obtain rep1 rep2 where c: "check_array_length ck e rep = Some rep1"
    "check_introduced ck e rep1 = Some rep2" "check_ensures ck e ctx rep2 = Some rep'"
    by (auto simp: check_return_def bind_eq_Some_conv)
  from c(1) have "\<exists>xs. r_errors rep1 = r_errors rep @ xs"
    by (cases e) (auto simp: check_array_length_def bind_eq_Some_conv split: option.splits)
  moreover from c(2) have "\<exists>xs. r_errors rep2 = r_errors rep1 @ xs"
    by (auto simp: check_introduced_def bind_eq_Some_conv)
  moreover from c(3) have "\<exists>xs. r_errors rep' = r_errors rep2 @ xs"
    by (auto simp: check_ensures_def Let_def split: option.splits expr.splits list.splits pattern.splits
        dest: discharge_errors)
  ultimately show ?thesis by force
qed

lemma walk_errors:
  "walk ck e ctx rep = Some rep' \<Longrightarrow> \<exists>xs. r_errors rep' = r_errors rep @ xs"
  "walk_all ck es ctx rep = Some rep' \<Longrightarrow> \<exists>xs. r_errors rep' = r_errors rep @ xs"
  "walk_fields ck fs ctx rep = Some rep' \<Longrightarrow> \<exists>xs. r_errors rep' = r_errors rep @ xs"
proof (induction ck e ctx rep and ck es ctx rep and ck fs ctx rep arbitrary: rep' and rep' and rep'
    rule: walk_walk_all_walk_fields.induct)
  case (5 ck op a b ctx rep)
  then obtain r1 r2 where "walk ck a ctx rep = Some r1" "walk ck b ctx r1 = Some r2"
    and "\<exists>xs. r_errors rep' = r_errors r2 @ xs"
    by (auto simp: bind_eq_Some_conv split: if_splits dest: division_errors)
  with 5 show ?case by force
next
  case (13 ck v ty ctx rep)
  then obtain r1 where "walk ck v ctx rep = Some r1" and "check_cast ck v ty ctx r1 = Some rep'"
    by (auto simp: bind_eq_Some_conv)
  with 13 show ?case by (force dest: cast_errors)
next
  case (14 ck e ctx rep)
  then obtain r1 where "walk ck e ctx rep = Some r1" and "check_return ck e ctx r1 = Some rep'"
    by (auto simp: bind_eq_Some_conv)
  with 14 show ?case by (force dest: return_errors)
qed (force simp: bind_eq_Some_conv Let_def)+

lemma safe_simps [simp]: "safe (Val v)" "safe (Ret v)" "safe Stuck" "\<not> safe DivZero" "\<not> safe Broken"
  by (simp_all add: safe_def)

lemma safe_then: "safe r \<Longrightarrow> (\<And>v. r = Val v \<Longrightarrow> safe (k v)) \<Longrightarrow> safe (then_val r k)"
  by (cases r) auto

lemma calm_safe: "calm r \<Longrightarrow> safe r"
  by (auto simp: calm_def)

lemma safe_bin:
  assumes "safe r" and "safe s"
    and "\<And>x y. s = Val (Num y) \<Longrightarrow> op = OpDiv \<or> op = OpRem \<Longrightarrow> y \<noteq> 0"
  shows "safe (then_val r (\<lambda>v. if decided op v then Val v else then_val s (bin_sem op v)))"
proof -
  have "safe (bin_sem op v u)" if "s = Val u" for v u
    using assms(3) that
    by (auto simp: bin_sem_def num_bin_def truth_bin_def split: sval.splits binop.splits)
  with assms(1,2) show ?thesis by (auto intro!: safe_then)
qed

lemma walk_bin_steps:
  assumes "walk ck (EBin op a b) ctx rep = Some rep'" and "r_errors rep' = []"
  shows "\<exists>r1 r2. walk ck a ctx rep = Some r1 \<and> r_errors r1 = [] \<and> walk ck b ctx r1 = Some r2 \<and> r_errors r2 = [] \<and>
    (op = OpDiv \<or> op = OpRem \<longrightarrow> (\<exists>kind. check_division ck b ctx kind r2 = Some rep'))"
proof -
  from assms(1) obtain r1 r2 where w: "walk ck a ctx rep = Some r1" "walk ck b ctx r1 = Some r2"
    and f: "(if op = OpDiv then check_division ck b ctx ''division'' r2
      else if op = OpRem then check_division ck b ctx ''remainder'' r2 else Some r2) = Some rep'"
    by (auto simp: bind_eq_Some_conv)
  from f have d: "op = OpDiv \<or> op = OpRem \<longrightarrow> (\<exists>kind. check_division ck b ctx kind r2 = Some rep')"
    by (auto split: if_splits)
  from f have "\<exists>xs. r_errors rep' = r_errors r2 @ xs" by (auto split: if_splits dest: division_errors)
  with assms(2) have "r_errors r2 = []" by auto
  moreover from this walk_errors(1) [OF w(2)] have "r_errors r1 = []" by auto
  ultimately show ?thesis using w d by blast
qed

lemma denominator_safe:
  assumes "check_division ck b ctx kind rep = Some rep'" and "r_errors rep' = []"
    and "exact (ck_fmt ck) b" and "ctx_ok vs \<rho> ctx" and "eval w ck \<rho> b = Val (Num y)"
  shows "y \<noteq> 0"
proof -
  from division_checked [OF assms(1-3), of \<rho>] assms(4) obtain d
    where d: "linearize (ck_fmt ck) b = Some d" "lin_val (reals \<rho>) d \<noteq> 0" by (auto simp: ctx_ok_def)
  from linearize_exact [OF d(1) assms(3), of w ck \<rho>] assms(5) d(2) show ?thesis by (auto simp: has_value_def)
qed

lemma branch_contexts:
  assumes "cond_ok (ck_fmt ck) c" and "wf_code ck vs c" and "ctx_ok vs \<rho> ctx" and "eval w ck \<rho> c = Val (Truth t)"
  shows "t \<Longrightarrow> ctx_ok vs \<rho> (ctx @ path_constraints (ck_fmt ck) c)"
    and "\<not> t \<Longrightarrow> ctx_ok vs \<rho> (ctx @ (case negate_constraints (ck_fmt ck) c of Some n \<Rightarrow> n | None \<Rightarrow> []))"
  using assms path_constraints_hold [of "ck_fmt ck" c w ck \<rho>] path_scoped [of ck c vs]
    negate_constraints_hold [of "ck_fmt ck" c w ck \<rho>] negate_scoped [of ck c vs]
  by (auto simp: cond_ok_def ctx_ok_def split: option.split)

lemma cast_safe:
  assumes "check_cast ck x ty ctx rep = Some rep'" and "r_errors rep' = []"
    and "ck_lemmas ck = DEFAULT_LEMMAS (ck_fmt ck)" and "contract_ok (ck_fmt ck) (refinement_of ck ty) x"
    and "ctx_ok vs \<rho> ctx" and "eval w ck \<rho> x = Val v"
  shows "safe (contract \<rho> (refinement_of ck ty) v Val)"
proof (cases "refinement_of ck ty")
  case None
  then show ?thesis by (simp add: contract_def)
next
  case (Some bp)
  obtain b p where bp: "bp = (b, p)" by force
  with Some assms(4) have c: "pure p" "projection_free x" "exact (ck_fmt ck) (simplify (subst b x p))"
    by (auto simp: contract_ok_def)
  from c(2) have "cast_target x b = x" by (cases x) (auto simp: cast_target_def)
  with Some bp assms(1) obtain desc where "discharge ck (subst b x p) ctx desc rep = Some rep'"
    by (auto simp: check_cast_def refinement_of_def bind_eq_Some_conv Let_def split: option.splits)
  from discharged_contract [OF this assms(2,3) c _ assms(6)] assms(5) Some bp show ?thesis
    by (simp add: ctx_ok_def)
qed

lemma return_safe:
  assumes "check_return ck x ctx rep = Some rep'" and "r_errors rep' = []"
    and "ck_lemmas ck = DEFAULT_LEMMAS (ck_fmt ck)" and "contract_ok (ck_fmt ck) (ensures_of ck) x"
    and "ctx_ok vs \<rho> ctx" and "eval w ck \<rho> x = Val v"
  shows "safe (contract \<rho> (ensures_of ck) v Ret)"
proof (cases "ensures_of ck")
  case None
  then show ?thesis by (simp add: contract_def)
next
  case (Some bp)
  obtain b p where bp: "bp = (b, p)" by force
  with Some assms(4) have c: "pure p" "projection_free x" "exact (ck_fmt ck) (simplify (subst b x p))"
    by (auto simp: contract_ok_def)
  from assms(1) obtain rep2 where "check_ensures ck x ctx rep2 = Some rep'"
    by (auto simp: check_return_def bind_eq_Some_conv)
  with Some bp obtain desc where "discharge ck (subst b x p) ctx desc rep2 = Some rep'"
    by (auto simp: check_ensures_def ensures_of_def Let_def split: option.splits expr.splits list.splits pattern.splits)
  from discharged_contract [OF this assms(2,3) c _ assms(6)] assms(5) Some bp show ?thesis
    by (simp add: ctx_ok_def)
qed

abbreviation else_ctx :: "checker \<Rightarrow> expr \<Rightarrow> lin_context \<Rightarrow> lin_context" where
  "else_ctx ck c ctx \<equiv> ctx @ (case negate_constraints (ck_fmt ck) c of Some n \<Rightarrow> n | None \<Rightarrow> [])"

abbreviation let_ctx :: "checker \<Rightarrow> string \<Rightarrow> expr \<Rightarrow> lin_context \<Rightarrow> lin_context" where
  "let_ctx ck name v ctx \<equiv> ctx @ (case linearize (ck_fmt ck) v of
     Some lv \<Rightarrow> [mk_eq (lin_sub (lin_var name) lv)] | None \<Rightarrow> [])"

text \<open>A walk without errors, as the two walks it is made of.\<close>

lemma walk_steps:
  assumes "r_errors rep' = []"
  shows "walk ck (EIf c t e) ctx rep = Some rep' \<Longrightarrow>
      \<exists>r1. walk ck t (ctx @ path_constraints (ck_fmt ck) c) rep = Some r1 \<and> r_errors r1 = [] \<and>
        walk ck e (else_ctx ck c ctx) r1 = Some rep'"
    and "walk ck (ELet name v body) ctx rep = Some rep' \<Longrightarrow>
      \<exists>r1. walk ck v ctx rep = Some r1 \<and> r_errors r1 = [] \<and> walk ck body (let_ctx ck name v ctx) r1 = Some rep'"
    and "walk ck (EMethod recv m args) ctx rep = Some rep' \<Longrightarrow>
      \<exists>r1. walk ck recv ctx rep = Some r1 \<and> r_errors r1 = [] \<and> walk_all ck args ctx r1 = Some rep'"
    and "walk ck (ECast v ty) ctx rep = Some rep' \<Longrightarrow>
      \<exists>r1. walk ck v ctx rep = Some r1 \<and> r_errors r1 = [] \<and> check_cast ck v ty ctx r1 = Some rep'"
    and "walk ck (EReturn e) ctx rep = Some rep' \<Longrightarrow>
      \<exists>r1. walk ck e ctx rep = Some r1 \<and> r_errors r1 = [] \<and> check_return ck e ctx r1 = Some rep'"
    and "walk_all ck (e # es) ctx rep = Some rep' \<Longrightarrow>
      \<exists>r1. walk ck e ctx rep = Some r1 \<and> r_errors r1 = [] \<and> walk_all ck es ctx r1 = Some rep'"
    and "walk_fields ck ((f, e) # fs) ctx rep = Some rep' \<Longrightarrow>
      \<exists>r1. walk ck e ctx rep = Some r1 \<and> r_errors r1 = [] \<and> walk_fields ck fs ctx r1 = Some rep'"
  using assms
  by (force simp: bind_eq_Some_conv Let_def dest: walk_errors cast_errors return_errors)+

lemma walk_safe:
  "walk ck e ctx rep = Some rep' \<Longrightarrow> r_errors rep' = [] \<Longrightarrow> ck_lemmas ck = DEFAULT_LEMMAS (ck_fmt ck) \<Longrightarrow>
     wf_code ck vs e \<Longrightarrow> ctx_ok vs \<rho> ctx \<Longrightarrow> safe (eval w ck \<rho> e)"
  "walk_all ck es ctx rep = Some rep' \<Longrightarrow> r_errors rep' = [] \<Longrightarrow> ck_lemmas ck = DEFAULT_LEMMAS (ck_fmt ck) \<Longrightarrow>
     list_all (wf_code ck vs) es \<Longrightarrow> ctx_ok vs \<rho> ctx \<Longrightarrow> eval_all w ck \<rho> es = Inl r \<Longrightarrow> safe r"
  "walk_fields ck fs ctx rep = Some rep' \<Longrightarrow> r_errors rep' = [] \<Longrightarrow> ck_lemmas ck = DEFAULT_LEMMAS (ck_fmt ck) \<Longrightarrow>
     list_all (\<lambda>(f, e). wf_code ck vs e) fs \<Longrightarrow> ctx_ok vs \<rho> ctx \<Longrightarrow> safe (eval_fields w ck \<rho> fs)"
proof (induction ck e ctx rep and ck es ctx rep and ck fs ctx rep
    arbitrary: rep' vs \<rho> and rep' vs \<rho> r and rep' vs \<rho> rule: walk_walk_all_walk_fields.induct)
  case (4 ck es ctx rep)
  then show ?case by (force split: sum.splits)
next
  case (5 ck op a b ctx rep)
  from walk_bin_steps [OF 5(3,4)] obtain r1 r2 where w: "walk ck a ctx rep = Some r1" "r_errors r1 = []"
    "walk ck b ctx r1 = Some r2" "r_errors r2 = []"
    and d: "op = OpDiv \<or> op = OpRem \<longrightarrow> (\<exists>kind. check_division ck b ctx kind r2 = Some rep')" by blast
  from 5(6) have wf: "wf_code ck vs a" "wf_code ck vs b"
    "op = OpDiv \<or> op = OpRem \<Longrightarrow> exact (ck_fmt ck) b" by auto
  have "y \<noteq> 0" if "eval w ck \<rho> b = Val (Num y)" "op = OpDiv \<or> op = OpRem" for y
    using d that denominator_safe [OF _ 5(4) wf(3) 5(7)] by blast
  with 5(1) [OF w(1,2) 5(5) wf(1) 5(7)] 5(2) [OF w(1) w(3,4) 5(5) wf(2) 5(7)] show ?case
    by (simp add: safe_bin)
next
  case (6 ck op a ctx rep)
  then show ?case using calm_safe [OF calm_un] by (auto intro!: safe_then)
next
  case (7 ck c t e ctx rep)
  from walk_steps(1) [OF 7(4,3)] obtain r1 where w: "walk ck t (ctx @ path_constraints (ck_fmt ck) c) rep = Some r1"
    "walk ck e (else_ctx ck c ctx) r1 = Some rep'" and r1: "r_errors r1 = []" by blast
  from 7(6) have c: "cond_ok (ck_fmt ck) c" "wf_code ck vs c" "wf_code ck vs t" "wf_code ck vs e" by auto
  have "safe (eval w ck \<rho> t)" if "eval w ck \<rho> c = Val (Truth True)"
    by (rule 7(1) [OF refl refl w(1) r1 7(5) c(3) branch_contexts(1) [OF c(1,2) 7(7) that]]) simp
  moreover have "safe (eval w ck \<rho> e)" if "eval w ck \<rho> c = Val (Truth False)"
    by (rule 7(2) [OF refl refl w(1) w(2) 7(4,5) c(4) branch_contexts(2) [OF c(1,2) 7(7) that]]) simp
  moreover have "safe (eval w ck \<rho> c)" using c(1) calm_pure [of c] calm_safe by (auto simp: cond_ok_def)
  ultimately show ?case by (auto intro!: safe_then split: sval.split bool.split)
next
  case (8 ck name v body ctx rep)
  from walk_steps(2) [OF 8(4,3)] obtain r1 where w: "walk ck v ctx rep = Some r1"
    "walk ck body (let_ctx ck name v ctx) r1 = Some rep'" and r1: "r_errors r1 = []" by blast
  from 8(6) have c: "name \<notin> set vs" "wf_code ck vs v" "let_ok (ck_fmt ck) name v" "wf_code ck (name # vs) body" by auto
  have "safe (eval w ck (\<rho>(name := x)) body)" if "eval w ck \<rho> v = Val x" for x
    by (rule 8(2) [OF w(1) refl w(2) 8(4,5) c(4) ctx_ok_let [OF 8(7) c(1-3) that]])
  with 8(1) [OF w(1) r1 8(5) c(2) 8(7)] show ?case by (auto intro!: safe_then)
next
  case (9 ck f args ctx rep)
  then show ?case by (force split: sum.splits)
next
  case (10 ck recv name args ctx rep)
  from walk_steps(3) [OF 10(4,3)] obtain r1 where w: "walk ck recv ctx rep = Some r1" "walk_all ck args ctx r1 = Some rep'"
    and r1: "r_errors r1 = []" by blast
  from 10(6) have c: "wf_code ck vs recv" "list_all (wf_code ck vs) args" by auto
  from 10(1) [OF w(1) r1 10(5) c(1) 10(7)] 10(2) [OF w(1) w(2) 10(4,5) c(2) 10(7)] show ?case
    by (auto intro!: safe_then split: sum.split)
next
  case (13 ck v ty ctx rep)
  from walk_steps(4) [OF 13(3,2)] obtain r1 where w: "walk ck v ctx rep = Some r1" "check_cast ck v ty ctx r1 = Some rep'"
    and r1: "r_errors r1 = []" by blast
  from 13(5) have c: "wf_code ck vs v" "contract_ok (ck_fmt ck) (refinement_of ck ty) v" by auto
  from 13(1) [OF w(1) r1 13(4) c(1) 13(6)] cast_safe [OF w(2) 13(3,4) c(2) 13(6)] show ?case
    by (auto intro!: safe_then)
next
  case (14 ck e ctx rep)
  from walk_steps(5) [OF 14(3,2)] obtain r1 where w: "walk ck e ctx rep = Some r1" "check_return ck e ctx r1 = Some rep'"
    and r1: "r_errors r1 = []" by blast
  from 14(5) have c: "wf_code ck vs e" "contract_ok (ck_fmt ck) (ensures_of ck) e" by auto
  from 14(1) [OF w(1) r1 14(4) c(1) 14(6)] return_safe [OF w(2) 14(3,4) c(2) 14(6)] show ?case
    by (auto intro!: safe_then)
next
  case (16 ck e es ctx rep)
  from walk_steps(6) [OF 16(4,3)] obtain r1 where w: "walk ck e ctx rep = Some r1" "walk_all ck es ctx r1 = Some rep'"
    and r1: "r_errors r1 = []" by blast
  from 16(6) have c: "wf_code ck vs e" "list_all (wf_code ck vs) es" by auto
  from 16(1) [OF w(1) r1 16(5) c(1) 16(7)] 16(2) [OF w(1) w(2) 16(4,5) c(2) 16(7)] 16(8) show ?case
    by (cases "eval w ck \<rho> e") (auto split: sum.splits)
next
  case (18 ck f e fs ctx rep)
  from walk_steps(7) [OF 18(4,3)] obtain r1 where w: "walk ck e ctx rep = Some r1" "walk_fields ck fs ctx r1 = Some rep'"
    and r1: "r_errors r1 = []" by blast
  from 18(6) have c: "wf_code ck vs e" "list_all (\<lambda>(f, e). wf_code ck vs e) fs" by auto
  from 18(1) [OF w(1) r1 18(5) c(1) 18(7)] 18(2) [OF w(1) w(2) 18(4,5) c(2) 18(7)] show ?case
    by (auto intro!: safe_then)
qed auto

subsection \<open>Accepted modules\<close>

lemma check_fun_errors:
  assumes "check_fun fmt al ls f rep = Some rep'"
  shows "\<exists>xs. r_errors rep' = r_errors rep @ xs"
proof -
  from assms obtain t ctx where "walk (checker_of fmt al ls f) (f_body f) ctx
      (if t then push_error ContradictoryRequires rep else rep) = Some rep'"
    by (auto simp: check_fun_def Let_def bind_eq_Some_conv)
  from walk_errors(1) [OF this] show ?thesis by (cases t) auto
qed

lemma check_funs_errors:
  "check_funs fmt al ls fs rep = Some rep' \<Longrightarrow> \<exists>xs. r_errors rep' = r_errors rep @ xs"
  by (induction fs arbitrary: rep) (force simp: bind_eq_Some_conv dest: check_fun_errors)+

lemma check_recursion_errors:
  "check_recursion fmt ps cs callees fs rep = Some rep' \<Longrightarrow> \<exists>xs. r_errors rep' = r_errors rep @ xs"
proof (induction fs arbitrary: rep)
  case (Cons f fs)
  from Cons.prems obtain reach where reach: "reachable callees (f_name f) = Some reach"
    by (cases "reachable callees (f_name f)") simp_all
  show ?case
  proof (cases "f_name f \<in> set reach")
    case False
    with Cons reach show ?thesis by simp
  next
    case True
    with Cons.prems reach obtain calls where calls: "hm_get cs (f_name f) = Some calls"
      by (cases "hm_get cs (f_name f)") simp_all
    with True Cons.prems reach obtain t where t: "bad_call fmt ps reach calls = Some t"
      by (cases "bad_call fmt ps reach calls") simp_all
    with True Cons.prems reach calls
    have "check_recursion fmt ps cs callees fs (if t then push_error (MayNotTerminate (f_name f)) rep else rep) = Some rep'"
      by simp
    from Cons.IH [OF this] show ?thesis by (cases t) auto
  qed
qed simp

lemma check_funs_each:
  assumes "check_funs fmt al ls fs rep = Some rep'" and "r_errors rep' = []" and "f \<in> set fs"
  shows "\<exists>r1 r2. check_fun fmt al ls f r1 = Some r2 \<and> r_errors r2 = []"
  using assms
proof (induction fs arbitrary: rep)
  case (Cons g fs)
  then obtain r1 where r1: "check_fun fmt al ls g rep = Some r1" "check_funs fmt al ls fs r1 = Some rep'"
    by (auto simp: bind_eq_Some_conv)
  from check_funs_errors [OF r1(2)] Cons.prems(2) have "r_errors r1 = []" by auto
  with r1 Cons show ?case by auto
qed simp

abbreviation fun_checker :: "(f64 \<Rightarrow> string) \<Rightarrow> module \<Rightarrow> efun \<Rightarrow> checker" where
  "fun_checker fmt m \<equiv> checker_of fmt (aliases_of [] m) (DEFAULT_LEMMAS fmt)"

definition wf_fun :: "(f64 \<Rightarrow> string) \<Rightarrow> module \<Rightarrow> efun \<Rightarrow> bool" where
  "wf_fun fmt m f \<longleftrightarrow>
     wf_code (fun_checker fmt m f) (map fst (f_params f)) (f_body f) \<and>
     (case f_requires f of None \<Rightarrow> True
      | Some r \<Rightarrow> exact fmt r \<and> wf_code (fun_checker fmt m f) (map fst (f_params f)) r)"

definition requires_hold :: "world \<Rightarrow> (f64 \<Rightarrow> string) \<Rightarrow> module \<Rightarrow> efun \<Rightarrow> env \<Rightarrow> bool" where
  "requires_hold w fmt m f \<rho> =
     (case f_requires f of None \<Rightarrow> True | Some r \<Rightarrow> eval w (fun_checker fmt m f) \<rho> r = Val (Truth True))"

lemma checker_of_simps [simp]:
  "ck_fmt (checker_of fmt al ls f) = fmt" "ck_lemmas (checker_of fmt al ls f) = ls"
  by (simp_all add: checker_of_def)

lemma requires_context:
  assumes "wf_fun fmt m f" and "requires_hold w fmt m f \<rho>"
  shows "ctx_ok (map fst (f_params f)) \<rho> (case f_requires f of Some r \<Rightarrow> path_constraints fmt r | None \<Rightarrow> [])"
proof (cases "f_requires f")
  case (Some r)
  with assms have r: "exact fmt r" "wf_code (fun_checker fmt m f) (map fst (f_params f)) r"
    "eval w (fun_checker fmt m f) \<rho> r = Val (Truth True)" by (auto simp: wf_fun_def requires_hold_def)
  from path_constraints_hold [OF r(1,3)] path_scoped [of "fun_checker fmt m f" r, simplified, OF r(1) r(2)] Some
  show ?thesis by (simp add: ctx_ok_def)
qed (simp add: ctx_ok_def)

lemma accepted_safe:
  assumes "check fmt m = Some rep" and "report_ok rep" and "f \<in> set (funs_of m)"
    and "wf_fun fmt m f" and "requires_hold w fmt m f \<rho>"
  shows "safe (eval w (fun_checker fmt m f) \<rho> (f_body f))"
proof -
  from assms(1) obtain r0 where r0: "check_funs fmt (aliases_of [] m) (DEFAULT_LEMMAS fmt) (funs_of m) report_default = Some r0"
    and t: "check_termination fmt m r0 = Some rep"
    by (auto simp: check_def check_with_def bind_eq_Some_conv)
  from t have "\<exists>xs. r_errors rep = r_errors r0 @ xs"
    by (auto simp: check_termination_def Let_def dest: check_recursion_errors)
  with assms(2) have "r_errors r0 = []" by (auto simp: report_ok_def)
  from check_funs_each [OF r0 this assms(3)] obtain r1 r2
    where "check_fun fmt (aliases_of [] m) (DEFAULT_LEMMAS fmt) f r1 = Some r2" and ok: "r_errors r2 = []" by blast
  then obtain r3 where "walk (fun_checker fmt m f) (f_body f)
      (case f_requires f of Some r \<Rightarrow> path_constraints fmt r | None \<Rightarrow> []) r3 = Some r2"
    by (auto simp: check_fun_def Let_def bind_eq_Some_conv)
  from walk_safe(1) [OF this ok _ _ requires_context [OF assms(4,5)]] assms(4) show ?thesis
    by (simp add: wf_fun_def)
qed


text \<open>
  A function with a precondition, a division and a postcondition:
  \<open>fn f(x: f64) -> f64 requires x >= 1.0 ensures |r| r > 0.0 { let q = 1.0 / x; return x; }\<close>
\<close>

lemmas f64_arith = f64_add_def f64_neg_def f64_one_def f64_is_nan_def f64_eval f64_exponent_def
  f64_signed_mantissa_def f64_mantissa_def f64_of_scaled_def f64_round_def ilog2_frac_def round_half_even_def
  f64_signed_def floorlog_def

lemma literal_sums:
  "f64_add 0 (f64_neg f64_one) = 13830554455654793216" "f64_add 0 (f64_neg 0) = 0"
  by (simp_all add: f64_arith Let_def)

lemma literal_values: "f64_value 13830554455654793216 = - 1" "f64_value (f64_neg f64_one) = - 1" "f64_value (f64_neg 0) = 0"
  by (simp_all add: f64_value_def f64_eval f64_neg_def f64_one_def)

definition sample_fn :: efun where
  "sample_fn = \<lparr>f_name = ''f'', f_params = [(''x'', TBase ''f64'')], f_ret = TBase ''f64'',
     f_requires = Some (EBin OpGe (EVar ''x'') (ENum f64_one)),
     f_ensures = Some (ELambda [PVar ''r''] (EBin OpGt (EVar ''r'') (ENum 0))), f_effects = [],
     f_body = ELet ''q'' (EBin OpDiv (ENum f64_one) (EVar ''x'')) (EReturn (EVar ''x''))\<rparr>"

definition sample_fmt :: "f64 \<Rightarrow> string" where
  "sample_fmt n = ''n''"

lemma sample_context: "path_constraints fmt (EBin OpGe (EVar ''x'') (ENum f64_one)) = [x_ge_1]"
  by (simp add: cmp_def x_ge_1_def mk_ge_def lin_sub_def lin_add_def lin_neg_def lin_var_def lin_constant_def literal_sums)

lemma sample_ensures: "to_constraint fmt (EBin OpGt (EVar ''x'') (ENum 0)) = Some x_gt_0"
  by (simp add: to_constraint_def x_gt_0_def mk_gt_def lin_sub_def lin_add_def lin_neg_def lin_var_def lin_constant_def literal_sums)

lemma sample_requires: "unsat [x_ge_1] = Some False"
proof -
  have "all_hold (\<lambda>_. 1) [x_ge_1]"
    by (simp add: all_hold_def constraint_holds_rel rel_holds_def x_ge_1_def mk_ge_def lin_val_fsum f64_literals literal_values)
  with unsat_total [OF example_ok(1)] show ?thesis by (auto simp: x_ge_1_def)
qed

definition sample_norm :: norm where
  "sample_norm =
     [(NLe, \<lparr>re_coeffs = [(''x'', whole (- 1))], re_constant = whole 1\<rparr>),
      (NLe, \<lparr>re_coeffs = [(''x'', whole 1)], re_constant = whole 0\<rparr>),
      (NLe, \<lparr>re_coeffs = [(''x'', whole (- 1))], re_constant = whole 0\<rparr>)]"

lemma sample_normalize: "unsat [x_ge_1, mk_eq (lin_var ''x'')] = fm_unsat sample_norm"
  by (simp add: x_ge_1_def mk_ge_def mk_eq_def unsat_def
      normalize_all_def normalize_def re_from_lin_def lin_var_def whole_literals whole_ops whole_sign
      re_neg_def sample_norm_def)

lemma more_whole_ops: "rat_add (whole 0) (whole 0) = Some (whole 0)" "rat_add (whole 0) (whole 1) = Some (whole 1)"
  "rat_mul (whole 0) (whole (- 1)) = Some (whole 0)"
  by (simp_all add: rat_eval)

lemma sample_round:
  "collect_vars sample_norm = [''x'']"
  "eliminate ''x'' sample_norm =
     Some ([(\<lparr>re_coeffs = [], re_constant = whole 0\<rparr>, False)],
           [(\<lparr>re_coeffs = [], re_constant = whole 1\<rparr>, False), (\<lparr>re_coeffs = [], re_constant = whole 0\<rparr>, False)],
           [(NLe, \<lparr>re_coeffs = [], re_constant = whole 1\<rparr>), (NLe, \<lparr>re_coeffs = [], re_constant = whole 0\<rparr>)])"
  by (simp_all add: sample_norm_def collect_vars_def eliminate_def bt_get_def whole_ops whole_sign
      bound_of_def re_neg_def re_scale_def bt_remove_def MAX_CONSTRAINTS_def re_sub_def re_add_def
      whole_literals more_whole_ops)

lemma sample_division: "unsat [x_ge_1, mk_eq (lin_var ''x'')] = Some True"
proof -
  have "fm_unsat [(NLe, \<lparr>re_coeffs = [], re_constant = whole 1\<rparr>), (NLe, \<lparr>re_coeffs = [], re_constant = whole 0\<rparr>)] = Some True"
    by (subst fm_unsat.simps) (simp add: collect_vars_def refuted_def whole_sign)
  then have "fm_unsat sample_norm = Some True"
    using sample_round by (subst fm_unsat.simps) simp
  with sample_normalize show ?thesis by simp
qed

lemma reachable_alone: "reachable [(f, [])] f = Some [f]"
proof -
  have "reachable_loop [(f, [])] [f] [] = Some [f]" by (subst reachable_loop.simps) simp
  then have "reachable_loop [(f, [])] [] [f] = Some [f]"
    by (subst reachable_loop.simps) (simp add: hm_get_def)
  then show ?thesis by (simp add: reachable_def)
qed

lemma resolve_base: "resolve al (TBase b) = Some (TBase b)"
  by (subst resolve.simps) simp

lemma sample_walk:
  defines "ck \<equiv> checker_of sample_fmt [] (DEFAULT_LEMMAS sample_fmt) sample_fn"
  shows "\<exists>rep. walk ck (f_body sample_fn) [x_ge_1] report_default = Some rep \<and> report_ok rep"
proof -
  have ck: "ck_fmt ck = sample_fmt" "ck_aliases ck = []" "ck_ret ck = TBase ''f64''"
    "ck_ensures ck = Some (ELambda [PVar ''r''] (EBin OpGt (EVar ''r'') (ENum 0)))"
    by (simp_all add: ck_def checker_of_def sample_fn_def)
  have d: "\<exists>r. check_division ck (EVar ''x'') [x_ge_1] k rep = Some r \<and> r_errors r = r_errors rep" for k rep
    by (simp add: check_division_def Let_def sample_division)
  obtain r1 where r1: "check_division ck (EVar ''x'') [x_ge_1] ''division'' report_default = Some r1" "r_errors r1 = []"
    using d [of "''division''" report_default] by (auto simp: report_default_def)
  have e: "\<exists>r. check_return ck (EVar ''x'') [x_ge_1] rep = Some r \<and> r_errors r = r_errors rep" for rep
    by (simp add: check_return_def check_array_length_def check_introduced_def check_ensures_def ck as_refine_def
        resolve_base discharge.simps conj_of_def discharge_atom_def sample_ensures example_proved Let_def)
  obtain r2 where r2: "check_return ck (EVar ''x'') [x_ge_1] r1 = Some r2" "r_errors r2 = []"
    using e [of r1] r1 by auto
  from r1 r2 show ?thesis by (simp add: sample_fn_def report_ok_def)
qed

lemma sample_accepted: "\<exists>rep. check sample_fmt [FnItem sample_fn] = Some rep \<and> report_ok rep"
proof -
  obtain rep where rep: "walk (checker_of sample_fmt [] (DEFAULT_LEMMAS sample_fmt) sample_fn) (f_body sample_fn)
      [x_ge_1] report_default = Some rep" "report_ok rep" using sample_walk by blast
  have fn: "f_requires sample_fn = Some (EBin OpGe (EVar ''x'') (ENum f64_one))"
    "collect_calls (f_body sample_fn) ([], []) = ([], [])" by (simp_all add: sample_fn_def)
  have "check_fun sample_fmt [] (DEFAULT_LEMMAS sample_fmt) sample_fn report_default = Some rep"
    using rep by (simp add: check_fun_def fn sample_context sample_requires del: path_constraints.simps)
  with rep(2) show ?thesis
    by (simp add: check_def check_with_def check_termination_def fn reachable_alone hm_get_def hm_insert_def)
qed

definition opaque :: world where
  "opaque = \<lparr>w_call = \<lambda>f vs. Other, w_method = \<lambda>n v vs. Other\<rparr>"

lemma exact_literals: "exact_sum 0 (f64_neg f64_one)" "exact_sum 0 (f64_neg 0)"
  by (simp_all add: exact_sum_def literal_sums literal_values fits_def)

lemma sample_wf: "wf_fun sample_fmt [FnItem sample_fn] sample_fn"
proof -
  have "f64_is_finite f64_one" "fits 64 f64_one" "f64_is_finite 0" "fits 64 0"
    by (simp_all add: f64_eval f64_one_def fits_def)
  then show ?thesis
    by (simp add: wf_fun_def sample_fn_def let_ok_def contract_ok_def ensures_of_def checker_of_def exact_op_def
        exact_sub_def exact_add_def exact_literals lin_neg_def lin_var_def lin_constant_def)
qed


subsection \<open>Code outside the class\<close>

definition eq_fn :: efun where
  "eq_fn = \<lparr>f_name = ''f'', f_params = [(''x'', TBase ''f64'')], f_ret = TBase ''f64'',
     f_requires = None, f_ensures = None, f_effects = [],
     f_body = EIf (EBin OpEq (EVar ''x'') (ENum f64_one)) (EReturn (ENum 0))
       (EReturn (EBin OpDiv (ENum f64_one) (ENum 0)))\<rparr>"

definition eq_else :: "lin_constraint list" where
  "eq_else = [\<lparr>c_rel = RelLt, c_e = c_e x_ge_1\<rparr>, \<lparr>c_rel = RelGt, c_e = c_e x_ge_1\<rparr>]"

lemma eq_else_context:
  "negate_constraints fmt (EBin OpEq (EVar ''x'') (ENum f64_one)) = Some eq_else"
  by (simp add: cmp_def eq_else_def x_ge_1_def mk_ge_def lin_sub_def lin_add_def lin_neg_def lin_var_def
      lin_constant_def literal_sums)

definition eq_norm :: norm where
  "eq_norm =
     [(NLt, \<lparr>re_coeffs = [(''x'', whole 1)], re_constant = whole (- 1)\<rparr>),
      (NLt, \<lparr>re_coeffs = [(''x'', whole (- 1))], re_constant = whole 1\<rparr>),
      (NLe, \<lparr>re_coeffs = [], re_constant = whole 0\<rparr>), (NLe, \<lparr>re_coeffs = [], re_constant = whole 0\<rparr>)]"

lemma eq_normalize: "unsat (eq_else @ [mk_eq (lin_constant 0)]) = fm_unsat eq_norm"
  by (simp add: eq_else_def x_ge_1_def mk_ge_def mk_eq_def unsat_def
      normalize_all_def normalize_def re_from_lin_def lin_constant_def whole_literals whole_ops whole_sign
      re_neg_def eq_norm_def)

lemma eq_whole_ops: "rat_mul (whole 1) (whole 1) = Some (whole 1)" "rat_add (whole 1) (whole (- 1)) = Some (whole 0)"
  by (simp_all add: rat_eval)

lemma eq_round:
  "collect_vars eq_norm = [''x'']"
  "eliminate ''x'' eq_norm =
     Some ([(\<lparr>re_coeffs = [], re_constant = whole 1\<rparr>, True)], [(\<lparr>re_coeffs = [], re_constant = whole 1\<rparr>, True)],
       [(NLe, \<lparr>re_coeffs = [], re_constant = whole 0\<rparr>), (NLe, \<lparr>re_coeffs = [], re_constant = whole 0\<rparr>),
        (NLt, \<lparr>re_coeffs = [], re_constant = whole 0\<rparr>)])"
  by (simp_all add: eq_norm_def collect_vars_def eliminate_def bt_get_def whole_ops whole_sign
      bound_of_def re_neg_def re_scale_def bt_remove_def MAX_CONSTRAINTS_def re_sub_def re_add_def
      whole_literals more_whole_ops eq_whole_ops Let_def)

lemma eq_contradictory: "unsat (eq_else @ [mk_eq (lin_constant 0)]) = Some True"
proof -
  have "fm_unsat [(NLe, \<lparr>re_coeffs = [], re_constant = whole 0\<rparr>), (NLe, \<lparr>re_coeffs = [], re_constant = whole 0\<rparr>),
      (NLt, \<lparr>re_coeffs = [], re_constant = whole 0\<rparr>)] = Some True"
    by (subst fm_unsat.simps) (simp add: collect_vars_def refuted_def whole_sign)
  then have "fm_unsat eq_norm = Some True" using eq_round by (subst fm_unsat.simps) simp
  with eq_normalize show ?thesis by simp
qed

lemma plain_return:
  assumes "ck_ensures ck = None" and "ck_ret ck = TBase b" and "\<not> (\<exists>es. e = EArrayLit es)"
  shows "check_return ck e ctx rep = Some rep"
  using assms
  by (cases e) (simp_all add: check_return_def check_array_length_def check_introduced_def check_ensures_def
      as_refine_def resolve_base)

lemma eq_walk:
  defines "ck \<equiv> checker_of sample_fmt [] (DEFAULT_LEMMAS sample_fmt) eq_fn"
  shows "\<exists>rep. walk ck (f_body eq_fn) [] report_default = Some rep \<and> report_ok rep"
proof -
  have ck: "ck_fmt ck = sample_fmt" "ck_ensures ck = None" "ck_ret ck = TBase ''f64''"
    by (simp_all add: ck_def checker_of_def eq_fn_def)
  have "\<exists>r. check_division ck (ENum 0) eq_else ''division'' report_default = Some r \<and> report_ok r"
    by (simp add: check_division_def Let_def eq_contradictory report_ok_def report_default_def)
  then obtain r where "check_division ck (ENum 0) eq_else ''division'' report_default = Some r" "report_ok r" by blast
  then show ?thesis
    by (simp add: eq_fn_def ck eq_else_context plain_return [OF ck(2,3)] del: negate_constraints.simps path_constraints.simps)
qed

lemma eq_accepted: "\<exists>rep. check sample_fmt [FnItem eq_fn] = Some rep \<and> report_ok rep"
proof -
  obtain rep where rep: "walk (checker_of sample_fmt [] (DEFAULT_LEMMAS sample_fmt) eq_fn) (f_body eq_fn)
      [] report_default = Some rep" "report_ok rep" using eq_walk by blast
  have fn: "f_requires eq_fn = None" "collect_calls (f_body eq_fn) ([], []) = ([], [])" by (simp_all add: eq_fn_def)
  have "check_fun sample_fmt [] (DEFAULT_LEMMAS sample_fmt) eq_fn report_default = Some rep"
    using rep by (simp add: check_fun_def fn)
  with rep(2) show ?thesis
    by (simp add: check_def check_with_def check_termination_def fn reachable_alone hm_get_def hm_insert_def)
qed

text \<open>
  The branch of a failed equality test is not checked. The checker gives the \<open>else\<close> branch of
  \<open>if a == b\<close> the constraints \<open>a < b\<close> and \<open>a > b\<close> together, which no values satisfy, so it accepts anything there:
  \<open>fn f(x: f64) -> f64 { if x == 1.0 { return 0.0; } else { return 1.0 / 0.0; } }\<close> is accepted,
  and divides by zero on every argument other than one.
\<close>
theorem equality_else_unchecked:
  "(\<exists>rep. check sample_fmt [FnItem eq_fn] = Some rep \<and> report_ok rep) \<and>
   {x. eval w (fun_checker sample_fmt [FnItem eq_fn] eq_fn) (\<lambda>_. Num x) (f_body eq_fn) = DivZero} = {x. x \<noteq> 1}"
  using eq_accepted
  by (auto simp: eq_fn_def f64_literals decided_def bin_sem_def num_bin_def contract_def
      ensures_of_def checker_of_def)

text \<open>
  Rounding is outside the meaning: under \<open>requires x > 0.0\<close> the checker accepts \<open>1.0 / (x * 0.5)\<close>, which over the reals does not
  divide by zero; in \<open>f64\<close> the product of the least positive number and one half is zero.
\<close>

lemma underflow_round: "f64_round (2 ^ 52) (2 ^ 1127) = 0"
proof -
  have f: "floorlog 2 (2 ^ n) = Suc n" for n :: nat
    using floorlog_power [of 2 1 n] by (simp add: floorlog_def)
  have "ilog2_frac (2 ^ 52) (2 ^ 1127) \<le> - 1074" unfolding ilog2_frac_def f Let_def by simp
  then have "max (- 1022) (ilog2_frac (2 ^ 52) (2 ^ 1127)) = - 1022" by simp
  moreover have "round_half_even (2 ^ 52 * 2 ^ 1074) (2 ^ 1127) = 0"
    unfolding round_half_even_def Let_def by simp
  ultimately show ?thesis unfolding f64_round_def Let_def by simp
qed

lemma product_underflows: "0 < f64_value 1 \<and> f64_value 4602678819172646912 = 1 / 2 \<and> f64_is_zero (f64_mul 1 4602678819172646912)"
proof (intro conjI)
  have "f64_mul 1 4602678819172646912 = 0"
    using underflow_round by (simp add: f64_mul_def Let_def f64_sign_def f64_is_nan_def f64_is_finite_def f64_exp_bits_def f64_frac_def
        f64_exponent_def f64_mantissa_def f64_signed_def)
  then show "f64_is_zero (f64_mul 1 4602678819172646912)" by (simp add: f64_eval)
qed (simp_all add: f64_value_def f64_sign_def f64_exp_bits_def f64_frac_def)

end
