(* ===== verification/Eidos_Calls.thy ===== *)
theory Eidos_Calls
  imports Eidos_Safety
begin

text \<open>
  The call graph of the termination check (\<open>reachable\<close> of \<open>eidos-kernel/src/lib.rs\<close>): the search returns on every
  graph and finds exactly the functions reachable from the start, the start included. Because the start
  is always found, the test that is meant to leave non-recursive functions alone never does; the last theorem is a
  module without recursion that the check rejects.
\<close>

subsection \<open>The search\<close>

definition edges :: "(string, string list) hmap \<Rightarrow> (string \<times> string) set" where
  "edges callees = {(a, b). \<exists>bs. hm_get callees a = Some bs \<and> b \<in> set bs}"

definition successors :: "(string, string list) hmap \<Rightarrow> string \<Rightarrow> string list" where
  "successors callees n = (case hm_get callees n of Some cs \<Rightarrow> cs | None \<Rightarrow> [])"

lemma edges_successors: "(a, b) \<in> edges callees \<longleftrightarrow> b \<in> set (successors callees a)"
  by (cases "hm_get callees a") (auto simp: edges_def successors_def)

definition names :: "(string, string list) hmap \<Rightarrow> string set" where
  "names callees = (\<Union>bs \<in> snd ` set callees. set bs)"

lemma finite_names: "finite (names callees)"
  by (simp add: names_def)

lemma successors_names: "set (successors callees n) \<subseteq> names callees"
proof (cases "map_of callees n")
  case (Some cs)
  then have "(n, cs) \<in> set callees" by (rule map_of_SomeD)
  with Some show ?thesis by (force simp: successors_def names_def hm_get_def)
qed (simp add: successors_def hm_get_def)

text \<open>The states of the search: everything on the stack is known, found functions have their callees found or waiting.\<close>

definition search_inv ::
    "(string, string list) hmap \<Rightarrow> string \<Rightarrow> string list \<Rightarrow> string list \<Rightarrow> bool" where
  "search_inv callees start seen stack \<longleftrightarrow>
     start \<in> set seen \<union> set stack \<and>
     set seen \<union> set stack \<subseteq> {n. (start, n) \<in> (edges callees)\<^sup>*} \<and>
     set seen \<union> set stack \<subseteq> insert start (names callees) \<and>
     (\<forall>a \<in> set seen. set (successors callees a) \<subseteq> set seen \<union> set stack)"

lemma reachable_loop_step:
  assumes "stack \<noteq> []" and "last stack \<notin> set seen"
  shows "reachable_loop callees seen stack =
    reachable_loop callees (seen @ [last stack])
      (butlast stack @ filter (\<lambda>c. c \<notin> set (seen @ [last stack])) (successors callees (last stack)))"
  using assms by (subst reachable_loop.simps) (auto simp: Let_def successors_def split: option.split)

lemma reachable_loop_skip:
  "stack \<noteq> [] \<Longrightarrow> last stack \<in> set seen \<Longrightarrow> reachable_loop callees seen stack = reachable_loop callees seen (butlast stack)"
  by (subst reachable_loop.simps) (auto simp: Let_def)

lemma set_stack: "stack \<noteq> [] \<Longrightarrow> set stack = insert (last stack) (set (butlast stack))"
  by (cases stack rule: rev_cases) auto

lemma search_inv_step:
  assumes "search_inv callees start seen stack" and "stack \<noteq> []"
  shows "search_inv callees start (seen @ [last stack])
    (butlast stack @ filter (\<lambda>c. c \<notin> set (seen @ [last stack])) (successors callees (last stack)))"
proof -
  have "(start, c) \<in> (edges callees)\<^sup>*" if "c \<in> set (successors callees (last stack))" for c
    using assms that by (auto simp: search_inv_def set_stack edges_successors [symmetric] intro: rtrancl_into_rtrancl)
  with assms successors_names [of callees "last stack"] show ?thesis
    by (auto simp: search_inv_def set_stack)
qed

lemma search_inv_skip:
  "search_inv callees start seen stack \<Longrightarrow> stack \<noteq> [] \<Longrightarrow> last stack \<in> set seen \<Longrightarrow>
    search_inv callees start seen (butlast stack)"
  by (auto simp: search_inv_def set_stack)

lemma search_inv_done:
  assumes "search_inv callees start seen []"
  shows "set seen = {n. (start, n) \<in> (edges callees)\<^sup>*}"
proof -
  have "n \<in> set seen" if "(start, n) \<in> (edges callees)\<^sup>*" for n
    using that by induction (use assms in \<open>auto simp: search_inv_def edges_successors\<close>)
  with assms show ?thesis by (auto simp: search_inv_def)
qed

definition unseen :: "(string, string list) hmap \<Rightarrow> string \<Rightarrow> string list \<Rightarrow> nat" where
  "unseen callees start seen = card (insert start (names callees) - set seen)"

lemma unseen_decreases:
  assumes "search_inv callees start seen stack" and "stack \<noteq> []" and "last stack \<notin> set seen"
  shows "unseen callees start (seen @ [last stack]) < unseen callees start seen"
proof -
  have "last stack \<in> insert start (names callees) - set seen"
    using assms by (auto simp: search_inv_def set_stack)
  then show ?thesis unfolding unseen_def
    by (intro psubset_card_mono) (auto simp: finite_names)
qed

lemma reachable_loop_exact:
  assumes "search_inv callees start seen stack"
  shows "\<exists>r. reachable_loop callees seen stack = Some r \<and> set r = {n. (start, n) \<in> (edges callees)\<^sup>*}"
  using assms
proof (induction "(unseen callees start seen, length stack)" arbitrary: seen stack
    rule: wf_induct_rule [OF wf_lex_prod [OF wf_less_than wf_less_than]])
  case (1 seen stack)
  show ?case
  proof (cases "stack = []")
    case True
    then have "reachable_loop callees seen stack = Some seen" by (subst reachable_loop.simps) simp
    with search_inv_done 1(2) True show ?thesis by auto
  next
    case False
    show ?thesis
    proof (cases "last stack \<in> set seen")
      case True
      from 1(1) [OF _ search_inv_skip [OF 1(2) False True]] False show ?thesis
        by (simp add: reachable_loop_skip [OF False True])
    next
      case False2: False
      from 1(1) [OF _ search_inv_step [OF 1(2) False]] unseen_decreases [OF 1(2) False False2] show ?thesis
        unfolding reachable_loop_step [OF False False2] by simp
    qed
  qed
qed

text \<open>
  The call graph search is exact. On every call graph, cyclic ones included, \<open>reachable\<close> returns, and the names it
  returns are exactly those reachable from the start by zero or more calls.
\<close>
theorem reachable_exact:
  "\<exists>r. reachable callees start = Some r \<and> set r = {n. (start, n) \<in> (edges callees)\<^sup>*}"
  unfolding reachable_def by (rule reachable_loop_exact) (auto simp: search_inv_def)

subsection \<open>A call that is not recursive\<close>

text \<open>\<open>fn g(x: f64) -> f64 { return x; }\<close> and \<open>fn f(x: f64) -> f64 { return g(x); }\<close>\<close>

definition callee_fn :: efun where
  "callee_fn = \<lparr>f_name = ''g'', f_params = [(''x'', TBase ''f64'')], f_ret = TBase ''f64'',
     f_requires = None, f_ensures = None, f_effects = [], f_body = EReturn (EVar ''x'')\<rparr>"

definition caller_fn :: efun where
  "caller_fn = \<lparr>f_name = ''f'', f_params = [(''x'', TBase ''f64'')], f_ret = TBase ''f64'',
     f_requires = None, f_ensures = None, f_effects = [], f_body = EReturn (ECall ''g'' [EVar ''x''])\<rparr>"

lemma unchanged_argument: "expr_decreases fmt (EVar ''x'') ''x'' = Some False"
proof -
  have add: "f64_add f64_one (f64_neg f64_one) = 0" by (simp add: f64_arith Let_def)
  have l: "lin_sub (lin_var ''x'') (lin_var ''x'') = \<lparr>le_coeffs = [(''x'', 0)], le_constant = 0\<rparr>"
    by (simp add: lin_sub_def lin_add_def lin_neg_def lin_var_def bt_get_def add literal_sums)
  let ?c = "mk_lt \<lparr>le_coeffs = [(''x'', 0)], le_constant = 0\<rparr>"
  have "all_ok []" "lin_ok (c_e ?c)" by (simp_all add: all_ok_def lin_ok_def mk_lt_def bt_wf_def fits_def)
  from entails_true [OF this] obtain b where b: "entails [] ?c = Some b"
    "b \<longrightarrow> (\<forall>\<sigma>. all_hold \<sigma> [] \<longrightarrow> constraint_holds \<sigma> ?c)" by blast
  moreover have "\<not> constraint_holds (\<lambda>_. 0) ?c" "all_hold (\<lambda>_. 0) []"
    by (simp_all add: constraint_holds_rel rel_holds_def mk_lt_def lin_val_fsum all_hold_def)
  ultimately show ?thesis by (auto simp: expr_decreases_def l)
qed

lemma graph_edges: "edges [(''g'', []), (''f'', [''g''])] = {(''f'', ''g'')}"
  by (auto simp: edges_def hm_get_def split: if_splits)

lemma graph_reach:
  "\<exists>r. reachable [(''g'', []), (''f'', [''g''])] ''g'' = Some r \<and> set r = {''g''}"
  "\<exists>r. reachable [(''g'', []), (''f'', [''g''])] ''f'' = Some r \<and> set r = {''f'', ''g''}"
proof -
  let ?G = "[(''g'', []), (''f'', [''g''])]"
  have loop: "\<exists>r. reachable ?G n = Some r \<and> set r = {k. (n, k) \<in> (edges ?G)\<^sup>*}" for n
    unfolding reachable_def by (rule reachable_loop_exact) (auto simp: search_inv_def)
  have "{k. (''g'', k) \<in> (edges ?G)\<^sup>*} = {''g''}" unfolding graph_edges by (auto elim: converse_rtranclE)
  with loop [of "''g''"] show "\<exists>r. reachable ?G ''g'' = Some r \<and> set r = {''g''}" by simp
  have "{k. (''f'', k) \<in> (edges ?G)\<^sup>*} = {''f'', ''g''}" unfolding graph_edges by (auto elim: converse_rtranclE)
  with loop [of "''f''"] show "\<exists>r. reachable ?G ''f'' = Some r \<and> set r = {''f'', ''g''}" by simp
qed

text \<open>
  Functions that are not recursive can be rejected. The check is documented to let non-recursive functions pass, but
  the set of functions it takes to be on a cycle with \<open>f\<close> is everything \<open>f\<close> can reach, so a plain call from
  \<open>f\<close> to \<open>g\<close> that passes its argument on unchanged is reported as a recursion that may not terminate.
\<close>
theorem plain_call_rejected:
  "\<exists>rep. check sample_fmt [FnItem callee_fn, FnItem caller_fn] = Some rep \<and>
     r_errors rep = [MayNotTerminate ''f''] \<and> (''f'', ''f'') \<notin> (edges [(''g'', []), (''f'', [''g''])])\<^sup>+"
proof -
  let ?G = "[(''g'', []), (''f'', [''g''])]"
  have walks: "check_fun sample_fmt [] (DEFAULT_LEMMAS sample_fmt) callee_fn rep = Some rep"
    "check_fun sample_fmt [] (DEFAULT_LEMMAS sample_fmt) caller_fn rep = Some rep" for rep
    by (simp_all add: check_fun_def callee_fn_def caller_fn_def plain_return checker_of_def)
  let ?ps = "[(''g'', [''x'']), (''f'', [''x''])]"
  let ?cs = "[(''g'', []), (''f'', [(''g'', [EVar ''x''])])]"
  have fn: "f_name callee_fn = ''g''" "f_name caller_fn = ''f''"
    by (simp_all add: callee_fn_def caller_fn_def)
  have calls: "collect_calls (f_body callee_fn) ([], []) = ([], [])" "map fst (f_params callee_fn) = [''x'']"
    "collect_calls (f_body caller_fn) ([], []) = ([(''g'', [EVar ''x''])], [''g''])" "map fst (f_params caller_fn) = [''x'']"
    by (simp_all add: callee_fn_def caller_fn_def)
  have graph: "hm_insert ''f'' b (hm_insert ''g'' a []) = [(''g'', a), (''f'', b)]" for a b :: 'b
    by (simp add: hm_insert_def)
  from graph_reach(1) obtain rg where g: "reachable ?G ''g'' = Some rg" "set rg = {''g''}" by (elim exE conjE)
  from graph_reach(2) obtain rf where f: "reachable ?G ''f'' = Some rf" "set rf = {''f'', ''g''}" by (elim exE conjE)
  have "check_recursion sample_fmt ?ps ?cs ?G [callee_fn, caller_fn] rep = Some (push_error (MayNotTerminate ''f'') rep)"
    for rep by (simp add: fn g f hm_get_def unchanged_argument)
  then have "\<exists>rep. check sample_fmt [FnItem callee_fn, FnItem caller_fn] = Some rep \<and> r_errors rep = [MayNotTerminate ''f'']"
    by (simp add: check_def check_with_def walks check_termination_def fn calls graph report_default_def del: check_recursion.simps)
  moreover have "(''f'', ''f'') \<notin> (edges ?G)\<^sup>+"
    unfolding graph_edges by (auto dest: tranclD2 tranclD)
  ultimately show ?thesis by blast
qed

end
