(* ===== verification/Eidos_Erasure.thy ===== *)
theory Eidos_Erasure
  imports Eidos_Safety
begin

text \<open>
  Proof-term erasure (\<open>eidos-erasure/src/lib.rs\<close>): refinements, casts and contracts are dropped and every expression is
  annotated with its erased type. The eraser is threaded as a state: the generated structs, the counter of
  anonymous refinements, the return types; the typing environment is threaded too, since a \<open>let\<close> removes its
  name from it. \<open>None\<close> is an alias cycle or an overflow of the counter.

  \<open>ceval\<close> gives the core the meaning that \<open>eval\<close> gives the source, without the contracts; the theorems are that
  erasure keeps the outcome, and that the erased body of an accepted function never divides by zero.
\<close>

subsection \<open>The core language\<close>

datatype core_type = CBase string | CArray core_type nat | CNamed string

record struct_def =
  sd_name :: string
  sd_fields :: "(string \<times> core_type) list"

datatype cexpr_kind =
    KNum f64
  | KBool bool
  | KVar string
  | KArrayLit "cexpr list"
  | KBin binop cexpr cexpr
  | KUn unop cexpr
  | KIf cexpr cexpr cexpr
  | KLet string cexpr cexpr
  | KCall string "cexpr list"
  | KMethod cexpr string "cexpr list"
  | KLambda "pattern list" cexpr
  | KRecord "(string \<times> cexpr) list"
  | KReturn cexpr
and cexpr = CExpr (ce_ty: core_type) (ce_kind: cexpr_kind)

record core_fun =
  cf_name :: string
  cf_params :: "(string \<times> core_type) list"
  cf_ret :: core_type
  cf_body :: cexpr

record core_module =
  cm_structs :: "struct_def list"
  cm_fns :: "core_fun list"

subsection \<open>The eraser\<close>

record eraser =
  er_aliases :: "(string, etype) hmap"
  er_struct_of :: "(string, string) hmap"
  er_structs :: "struct_def list"
  er_ret_of :: "(string, core_type) hmap"
  er_counter :: nat

definition eraser_new :: "module \<Rightarrow> eraser" where
  "eraser_new m = \<lparr>er_aliases = aliases_of [] m, er_struct_of = [], er_structs = [], er_ret_of = [], er_counter = 0\<rparr>"

definition is_refine :: "etype \<Rightarrow> bool" where
  "is_refine ty = (case ty of TRefine _ _ _ \<Rightarrow> True | _ \<Rightarrow> False)"

partial_function (option) erase_type :: "eraser \<Rightarrow> etype \<Rightarrow> (core_type \<times> eraser) panics" where
  "erase_type er ty =
     (case ty of
        TNamed n \<Rightarrow>
          (case hm_get (er_aliases er) n of
             Some aliased \<Rightarrow>
               if is_refine aliased \<and> hm_contains (er_struct_of er) n then Some (CNamed n, er)
               else erase_type er aliased
           | None \<Rightarrow> Some (CNamed n, er))
      | TBase s \<Rightarrow> Some (CBase s, er)
      | TArray inner n \<Rightarrow> do {
          (c, er1) \<leftarrow> erase_type er inner;
          Some (CArray c n, er1)
        }
      | TRefine b base _ \<Rightarrow> do {
          (field_ty, er1) \<leftarrow> erase_type er base;
          let name = ''_Ref'' @ show_nat (er_counter er1);
          k \<leftarrow> checked_add 64 (er_counter er1) 1;
          Some (CNamed name, er1\<lparr>er_counter := k,
            er_structs := er_structs er1 @ [\<lparr>sd_name = name, sd_fields = [(b, field_ty)]\<rparr>]\<rparr>)
        })"

definition declare_struct_for :: "eraser \<Rightarrow> string \<Rightarrow> etype \<Rightarrow> eraser panics" where
  "declare_struct_for er alias ty =
     (case ty of
        TRefine b base _ \<Rightarrow> do {
          (field_ty, er1) \<leftarrow> erase_type er base;
          Some (er1\<lparr>er_structs := er_structs er1 @ [\<lparr>sd_name = alias, sd_fields = [(b, field_ty)]\<rparr>],
                    er_struct_of := hm_insert alias alias (er_struct_of er1)\<rparr>)
        }
      | _ \<Rightarrow> Some er)"

definition unknown_type :: core_type where
  "unknown_type = CBase ''_''"

definition bin_type :: "binop \<Rightarrow> core_type" where
  "bin_type op =
     (if op \<in> {OpLt, OpGt, OpLe, OpGe, OpEq, OpNe, OpAnd, OpOr} then CBase ''bool'' else CBase ''f64'')"

definition array_or :: "core_type \<Rightarrow> (core_type \<Rightarrow> nat \<Rightarrow> core_type) \<Rightarrow> core_type" where
  "array_or ty k = (case ty of CArray inner n \<Rightarrow> k inner n | _ \<Rightarrow> CArray (CBase ''f64'') 0)"

definition method_type :: "cexpr \<Rightarrow> string \<Rightarrow> core_type" where
  "method_type recv name =
     (if name = ''len'' then CBase ''usize''
      else if name = ''magnitude'' then CBase ''f64''
      else if name = ''map'' then array_or (ce_ty recv) (\<lambda>inner n. CArray inner n)
      else if name = ''zip'' then array_or (ce_ty recv) (\<lambda>inner n. CArray (CBase ''f64'') n)
      else CBase ''f64'')"

text \<open>The struct whose fields are, in order, those of a record.\<close>

definition witness_struct :: "struct_def list \<Rightarrow> string list \<Rightarrow> struct_def option" where
  "witness_struct structs names = find (\<lambda>s. map fst (sd_fields s) = names) structs"

type_synonym typing = "(string, core_type) hmap"

function (sequential) erase_expr :: "eraser \<Rightarrow> typing \<Rightarrow> expr \<Rightarrow> (cexpr \<times> eraser \<times> typing) panics"
  and erase_exprs :: "eraser \<Rightarrow> typing \<Rightarrow> expr list \<Rightarrow> (cexpr list \<times> eraser \<times> typing) panics"
  and erase_fields :: "eraser \<Rightarrow> typing \<Rightarrow> (string \<times> expr) list \<Rightarrow> ((string \<times> cexpr) list \<times> eraser \<times> typing) panics" where
  "erase_expr er env (ENum n) = Some (CExpr (CBase ''f64'') (KNum n), er, env)"
| "erase_expr er env (EBool b) = Some (CExpr (CBase ''bool'') (KBool b), er, env)"
| "erase_expr er env (EVar v) =
     Some (CExpr (case hm_get env v of Some t \<Rightarrow> t | None \<Rightarrow> unknown_type) (KVar v), er, env)"
| "erase_expr er env (EArrayLit es) = do {
     (cs, er1, env1) \<leftarrow> erase_exprs er env es;
     let elem = (if cs = [] then unknown_type else ce_ty (last cs));
     Some (CExpr (CArray elem (length cs)) (KArrayLit cs), er1, env1)
   }"
| "erase_expr er env (EBin op a b) = do {
     (ca, er1, env1) \<leftarrow> erase_expr er env a;
     (cb, er2, env2) \<leftarrow> erase_expr er1 env1 b;
     Some (CExpr (bin_type op) (KBin op ca cb), er2, env2)
   }"
| "erase_expr er env (EUn op a) = do {
     (ca, er1, env1) \<leftarrow> erase_expr er env a;
     Some (CExpr (case op of UnNeg \<Rightarrow> CBase ''f64'' | UnNot \<Rightarrow> CBase ''bool'') (KUn op ca), er1, env1)
   }"
| "erase_expr er env (EIf c t e) = do {
     (cc, er1, env1) \<leftarrow> erase_expr er env c;
     (ct, er2, env2) \<leftarrow> erase_expr er1 env1 t;
     (ce, er3, env3) \<leftarrow> erase_expr er2 env2 e;
     Some (CExpr (ce_ty ct) (KIf cc ct ce), er3, env3)
   }"
| "erase_expr er env (ELet name v body) = do {
     (cv, er1, env1) \<leftarrow> erase_expr er env v;
     (cb, er2, env2) \<leftarrow> erase_expr er1 (hm_insert name (ce_ty cv) env1) body;
     Some (CExpr (ce_ty cb) (KLet name cv cb), er2, hm_remove name env2)
   }"
| "erase_expr er env (ECall f args) = do {
     (cs, er1, env1) \<leftarrow> erase_exprs er env args;
     let ty = (case hm_get (er_ret_of er1) f of Some t \<Rightarrow> t | None \<Rightarrow> unknown_type);
     Some (CExpr ty (KCall f cs), er1, env1)
   }"
| "erase_expr er env (EMethod recv name args) = do {
     (cr, er1, env1) \<leftarrow> erase_expr er env recv;
     (cs, er2, env2) \<leftarrow> erase_exprs er1 env1 args;
     Some (CExpr (method_type cr name) (KMethod cr name cs), er2, env2)
   }"
| "erase_expr er env (ELambda ps body) = do {
     (cb, er1, env1) \<leftarrow> erase_expr er env body;
     Some (CExpr (ce_ty cb) (KLambda ps cb), er1, env1)
   }"
| "erase_expr er env (ERecord fs) = do {
     (cf, er1, env1) \<leftarrow> erase_fields er env fs;
     let ty = (case witness_struct (er_structs er1) (map fst fs) of
         Some s \<Rightarrow> CNamed (sd_name s) | None \<Rightarrow> unknown_type);
     Some (CExpr ty (KRecord cf), er1, env1)
   }"
| "erase_expr er env (ECast v ty) = do {
     (target, er1) \<leftarrow> erase_type er ty;
     (cv, er2, env2) \<leftarrow> erase_expr er1 env v;
     Some (CExpr target (ce_kind cv), er2, env2)
   }"
| "erase_expr er env (EReturn e) = do {
     (ce, er1, env1) \<leftarrow> erase_expr er env e;
     Some (CExpr (ce_ty ce) (KReturn ce), er1, env1)
   }"
| "erase_exprs er env [] = Some ([], er, env)"
| "erase_exprs er env (e # es) = do {
     (c, er1, env1) \<leftarrow> erase_expr er env e;
     (cs, er2, env2) \<leftarrow> erase_exprs er1 env1 es;
     Some (c # cs, er2, env2)
   }"
| "erase_fields er env [] = Some ([], er, env)"
| "erase_fields er env ((f, e) # fs) = do {
     (c, er1, env1) \<leftarrow> erase_expr er env e;
     (cs, er2, env2) \<leftarrow> erase_fields er1 env1 fs;
     Some ((f, c) # cs, er2, env2)
   }"
  by pat_completeness auto

termination
  by (relation "measure (case_sum (\<lambda>(er, env, e). size e)
      (case_sum (\<lambda>(er, env, es). size_list size es) (\<lambda>(er, env, fs). size_list (size_prod (\<lambda>_. 0) size) fs)))") auto

fun erase_params :: "eraser \<Rightarrow> typing \<Rightarrow> (string \<times> etype) list \<Rightarrow> ((string \<times> core_type) list \<times> eraser \<times> typing) panics" where
  "erase_params er env [] = Some ([], er, env)"
| "erase_params er env ((p, ty) # ps) = do {
     (ct, er1) \<leftarrow> erase_type er ty;
     (cs, er2, env2) \<leftarrow> erase_params er1 (hm_insert p ct env) ps;
     Some ((p, ct) # cs, er2, env2)
   }"

definition erase_fun :: "eraser \<Rightarrow> efun \<Rightarrow> (core_fun \<times> eraser) panics" where
  "erase_fun er f = do {
     (params, er1, env) \<leftarrow> erase_params er [] (f_params f);
     (ret, er2) \<leftarrow> (case hm_get (er_ret_of er1) (f_name f) of
         Some t \<Rightarrow> Some (t, er1) | None \<Rightarrow> erase_type er1 (f_ret f));
     (body, er3, env3) \<leftarrow> erase_expr er2 env (f_body f);
     Some (\<lparr>cf_name = f_name f, cf_params = params, cf_ret = ret, cf_body = body\<rparr>, er3)
   }"

fun declare_structs :: "eraser \<Rightarrow> module \<Rightarrow> eraser panics" where
  "declare_structs er [] = Some er"
| "declare_structs er (TypeAlias n ty # its) = do { er1 \<leftarrow> declare_struct_for er n ty; declare_structs er1 its }"
| "declare_structs er (FnItem f # its) = declare_structs er its"

fun declare_returns :: "eraser \<Rightarrow> efun list \<Rightarrow> eraser panics" where
  "declare_returns er [] = Some er"
| "declare_returns er (f # fs) = do {
     (ret, er1) \<leftarrow> erase_type er (f_ret f);
     declare_returns (er1\<lparr>er_ret_of := hm_insert (f_name f) ret (er_ret_of er1)\<rparr>) fs
   }"

fun erase_funs :: "eraser \<Rightarrow> efun list \<Rightarrow> (core_fun list \<times> eraser) panics" where
  "erase_funs er [] = Some ([], er)"
| "erase_funs er (f # fs) = do {
     (c, er1) \<leftarrow> erase_fun er f;
     (cs, er2) \<leftarrow> erase_funs er1 fs;
     Some (c # cs, er2)
   }"

text \<open>\<open>erase\<close> and \<open>Eraser::run\<close>.\<close>

definition erase :: "module \<Rightarrow> core_module panics" where
  "erase m = do {
     er1 \<leftarrow> declare_structs (eraser_new m) m;
     er2 \<leftarrow> declare_returns er1 (funs_of m);
     (fns, er3) \<leftarrow> erase_funs er2 (funs_of m);
     Some \<lparr>cm_structs = er_structs er3, cm_fns = fns\<rparr>
   }"

subsection \<open>Meaning of the core\<close>

function (sequential) ceval :: "world \<Rightarrow> env \<Rightarrow> cexpr \<Rightarrow> outcome"
  and keval :: "world \<Rightarrow> env \<Rightarrow> cexpr_kind \<Rightarrow> outcome"
  and ceval_all :: "world \<Rightarrow> env \<Rightarrow> cexpr list \<Rightarrow> outcome + sval list"
  and ceval_fields :: "world \<Rightarrow> env \<Rightarrow> (string \<times> cexpr) list \<Rightarrow> outcome" where
  "ceval w \<rho> (CExpr ty k) = keval w \<rho> k"
| "keval w \<rho> (KNum n) = Val (Num (f64_value n))"
| "keval w \<rho> (KBool b) = Val (Truth b)"
| "keval w \<rho> (KVar x) = Val (\<rho> x)"
| "keval w \<rho> (KArrayLit es) = (case ceval_all w \<rho> es of Inl r \<Rightarrow> r | Inr vs \<Rightarrow> Val Other)"
| "keval w \<rho> (KBin op a b) =
     then_val (ceval w \<rho> a) (\<lambda>v. if decided op v then Val v else then_val (ceval w \<rho> b) (bin_sem op v))"
| "keval w \<rho> (KUn op a) = then_val (ceval w \<rho> a) (un_sem op)"
| "keval w \<rho> (KIf c t e) =
     then_val (ceval w \<rho> c)
       (\<lambda>v. case v of Truth True \<Rightarrow> ceval w \<rho> t | Truth False \<Rightarrow> ceval w \<rho> e | _ \<Rightarrow> Stuck)"
| "keval w \<rho> (KLet name v body) = then_val (ceval w \<rho> v) (\<lambda>x. ceval w (\<rho>(name := x)) body)"
| "keval w \<rho> (KCall f args) = (case ceval_all w \<rho> args of Inl r \<Rightarrow> r | Inr vs \<Rightarrow> Val (w_call w f vs))"
| "keval w \<rho> (KMethod recv name args) =
     then_val (ceval w \<rho> recv)
       (\<lambda>v. case ceval_all w \<rho> args of Inl r \<Rightarrow> r | Inr vs \<Rightarrow> Val (w_method w name v vs))"
| "keval w \<rho> (KLambda ps body) = Val Other"
| "keval w \<rho> (KRecord fs) = ceval_fields w \<rho> fs"
| "keval w \<rho> (KReturn e) = then_val (ceval w \<rho> e) Ret"
| "ceval_all w \<rho> [] = Inr []"
| "ceval_all w \<rho> (e # es) =
     (case ceval w \<rho> e of
        Val v \<Rightarrow> (case ceval_all w \<rho> es of Inl r \<Rightarrow> Inl r | Inr vs \<Rightarrow> Inr (v # vs))
      | r \<Rightarrow> Inl r)"
| "ceval_fields w \<rho> [] = Val Other"
| "ceval_fields w \<rho> ((f, e) # fs) = then_val (ceval w \<rho> e) (\<lambda>v. ceval_fields w \<rho> fs)"
  by pat_completeness auto

termination
  by (relation "measure (case_sum (case_sum (\<lambda>(w, \<rho>, e). size e) (\<lambda>(w, \<rho>, k). size k))
      (case_sum (\<lambda>(w, \<rho>, es). size_list size es) (\<lambda>(w, \<rho>, fs). size_list (size_prod (\<lambda>_. 0) size) fs)))") auto

lemma keval_kind [simp]: "keval w \<rho> (ce_kind c) = ceval w \<rho> c"
  by (cases c) simp

text \<open>An outcome that does not come from a contract.\<close>

definition plain :: "outcome \<Rightarrow> bool" where
  "plain r \<longleftrightarrow> r \<noteq> Broken \<and> r \<noteq> Stuck"

lemma plain_simps [simp]: "plain (Val v)" "plain (Ret v)" "plain DivZero" "\<not> plain Broken" "\<not> plain Stuck"
  by (simp_all add: plain_def)

lemma then_val_plain:
  assumes "plain (then_val r k)" and "plain r \<Longrightarrow> r' = r" and "\<And>v. r = Val v \<Longrightarrow> plain (k v) \<Longrightarrow> k' v = k v"
  shows "then_val r' k' = then_val r k"
  using assms by (cases r) auto

lemma contract_plain: "plain (contract \<rho> c v k) \<Longrightarrow> contract \<rho> c v k = k v"
  by (auto simp: contract_def meets_pred_def split: option.splits outcome.splits sval.splits bool.splits)

text \<open>Erasure keeps every outcome except a failed or ill-typed contract.\<close>

lemma erase_keeps:
  "erase_expr er env e = Some (c, er', env') \<Longrightarrow> plain (eval w ck \<rho> e) \<Longrightarrow> ceval w \<rho> c = eval w ck \<rho> e"
  "erase_exprs er env es = Some (cs, er', env') \<Longrightarrow>
     (case eval_all w ck \<rho> es of Inl r \<Rightarrow> plain r | Inr vs \<Rightarrow> True) \<Longrightarrow> ceval_all w \<rho> cs = eval_all w ck \<rho> es"
  "erase_fields er env fs = Some (cf, er', env') \<Longrightarrow> plain (eval_fields w ck \<rho> fs) \<Longrightarrow>
     ceval_fields w \<rho> cf = eval_fields w ck \<rho> fs"
proof (induction er env e and er env es and er env fs
    arbitrary: c er' env' \<rho> and cs er' env' \<rho> and cf er' env' \<rho> rule: erase_expr_erase_exprs_erase_fields.induct)
  case (4 er env es)
  then show ?case by (fastforce simp: bind_eq_Some_conv split: sum.splits)
next
  case (5 er env op a b)
  then obtain ca er1 env1 cb where e: "erase_expr er env a = Some (ca, er1, env1)"
    "erase_expr er1 env1 b = Some (cb, er', env')" "c = CExpr (bin_type op) (KBin op ca cb)"
    by (auto simp: bind_eq_Some_conv)
  from 5(1) [OF e(1)] 5(2) [OF e(1) refl refl e(2)] 5(4) e(3) show ?case
    by (auto intro!: then_val_plain split: if_splits)
next
  case (6 er env op a)
  then show ?case by (fastforce simp: bind_eq_Some_conv intro!: then_val_plain)
next
  case (7 er env b t e)
  then obtain cb er1 env1 ct er2 env2 ce where x: "erase_expr er env b = Some (cb, er1, env1)"
    "erase_expr er1 env1 t = Some (ct, er2, env2)" "erase_expr er2 env2 e = Some (ce, er', env')"
    "c = CExpr (ce_ty ct) (KIf cb ct ce)"
    by (auto simp: bind_eq_Some_conv)
  from 7(1) [OF x(1)] 7(2) [OF x(1) refl refl x(2)] 7(3) [OF x(1) refl refl x(2) refl refl x(3)] 7(5) x(4) show ?case
    by (auto intro!: then_val_plain split: sval.splits bool.splits)
next
  case (8 er env name v body)
  then obtain cv er1 env1 cb env2 where x: "erase_expr er env v = Some (cv, er1, env1)"
    "erase_expr er1 (hm_insert name (ce_ty cv) env1) body = Some (cb, er', env2)"
    "c = CExpr (ce_ty cb) (KLet name cv cb)"
    by (auto simp: bind_eq_Some_conv)
  from 8(1) [OF x(1)] 8(2) [OF x(1) refl refl x(2)] 8(4) x(3) show ?case by (auto intro!: then_val_plain)
next
  case (9 er env f args)
  then show ?case by (fastforce simp: bind_eq_Some_conv split: sum.splits)
next
  case (10 er env recv name args)
  then obtain cr er1 env1 cs where x: "erase_expr er env recv = Some (cr, er1, env1)"
    "erase_exprs er1 env1 args = Some (cs, er', env')" "c = CExpr (method_type cr name) (KMethod cr name cs)"
    by (auto simp: bind_eq_Some_conv)
  from 10(1) [OF x(1)] 10(2) [OF x(1) refl refl x(2)] 10(4) x(3) show ?case
    by (auto intro!: then_val_plain split: sum.splits)
next
  case (12 er env fs)
  then show ?case by (fastforce simp: bind_eq_Some_conv)
next
  case (13 er env v ty)
  then obtain target er1 cv where x: "erase_type er ty = Some (target, er1)"
    "erase_expr er1 env v = Some (cv, er', env')" "c = CExpr target (ce_kind cv)"
    by (auto simp: bind_eq_Some_conv)
  have "then_val (ceval w \<rho> cv) Val = then_val (eval w ck \<rho> v) (\<lambda>x. contract \<rho> (refinement_of ck ty) x Val)"
    using 13(1) [OF x(1) refl x(2)] 13(3) by (auto intro!: then_val_plain simp: contract_plain)
  moreover have "then_val (ceval w \<rho> cv) Val = ceval w \<rho> cv" by (cases "ceval w \<rho> cv") auto
  ultimately show ?case using x(3) by simp
next
  case (14 er env e)
  then obtain ce where x: "erase_expr er env e = Some (ce, er', env')" "c = CExpr (ce_ty ce) (KReturn ce)"
    by (auto simp: bind_eq_Some_conv)
  from 14(1) [OF x(1)] 14(3) x(2) show ?case by (auto intro!: then_val_plain simp: contract_plain)
next
  case (16 er env e es)
  then obtain ce er1 env1 ces where x: "erase_expr er env e = Some (ce, er1, env1)"
    "erase_exprs er1 env1 es = Some (ces, er', env')" "cs = ce # ces"
    by (auto simp: bind_eq_Some_conv)
  from 16(4) have "plain (eval w ck \<rho> e)" by (cases "eval w ck \<rho> e") auto
  from 16(1) [OF x(1) this] 16(2) [OF x(1) refl refl x(2)] 16(4) x(3) show ?case
    by (cases "eval w ck \<rho> e") (auto split: sum.splits)
next
  case (18 er env f e fs)
  then obtain ce er1 env1 ces where x: "erase_expr er env e = Some (ce, er1, env1)"
    "erase_fields er1 env1 fs = Some (ces, er', env')" "cf = (f, ce) # ces"
    by (auto simp: bind_eq_Some_conv)
  from 18(1) [OF x(1)] 18(2) [OF x(1) refl refl x(2)] 18(4) x(3) show ?case by (auto intro!: then_val_plain)
qed (auto simp: bind_eq_Some_conv)

subsection \<open>Whole modules\<close>

lemma erase_params_names:
  "erase_params er env ps = Some (cs, er', env') \<Longrightarrow> map fst cs = map fst ps"
  by (induction er env ps arbitrary: cs er' env' rule: erase_params.induct) (fastforce simp: bind_eq_Some_conv)+

lemma erase_fun_keeps:
  assumes "erase_fun er f = Some (c, er')"
  shows "cf_name c = f_name f" and "map fst (cf_params c) = map fst (f_params f)"
    and "plain (eval w ck \<rho> (f_body f)) \<Longrightarrow> ceval w \<rho> (cf_body c) = eval w ck \<rho> (f_body f)"
  using assms erase_params_names erase_keeps(1) by (fastforce simp: erase_fun_def bind_eq_Some_conv)+

lemma erase_funs_each:
  assumes "erase_funs er fs = Some (cs, er')"
  shows "length cs = length fs \<and> (\<forall>i < length fs. \<exists>er1 er2. erase_fun er1 (fs ! i) = Some (cs ! i, er2))"
  using assms
proof (induction fs arbitrary: er cs)
  case (Cons f fs)
  then obtain c er1 cs' where x: "erase_fun er f = Some (c, er1)" "erase_funs er1 fs = Some (cs', er')" "cs = c # cs'"
    by (auto simp: bind_eq_Some_conv)
  from Cons.IH [OF x(2)] x(1,3) show ?case by (auto simp: nth_Cons less_Suc_eq_0_disj split: nat.split)
qed simp

lemma compiled_core_safe:
  assumes "check fmt m = Some rep" and "report_ok rep" and "erase m = Some core" and "i < length (funs_of m)"
    and "wf_fun fmt m (funs_of m ! i)" and "requires_hold w fmt m (funs_of m ! i) \<rho>"
  shows "length (cm_fns core) = length (funs_of m)"
    and "cf_name (cm_fns core ! i) = f_name (funs_of m ! i)"
    and "map fst (cf_params (cm_fns core ! i)) = map fst (f_params (funs_of m ! i))"
    and "eval w (fun_checker fmt m (funs_of m ! i)) \<rho> (f_body (funs_of m ! i)) = Stuck \<or>
      (ceval w \<rho> (cf_body (cm_fns core ! i)) = eval w (fun_checker fmt m (funs_of m ! i)) \<rho> (f_body (funs_of m ! i)) \<and>
       safe (ceval w \<rho> (cf_body (cm_fns core ! i))))"
proof -
  let ?f = "funs_of m ! i"
  from assms(3) obtain er er' where er: "erase_funs er (funs_of m) = Some (cm_fns core, er')"
    by (auto simp: erase_def bind_eq_Some_conv)
  from erase_funs_each [OF er] assms(4) obtain er1 er2 where e: "erase_fun er1 ?f = Some (cm_fns core ! i, er2)"
    and n: "length (cm_fns core) = length (funs_of m)" by blast
  show "length (cm_fns core) = length (funs_of m)" by (rule n)
  show "cf_name (cm_fns core ! i) = f_name ?f" by (rule erase_fun_keeps(1) [OF e])
  show "map fst (cf_params (cm_fns core ! i)) = map fst (f_params ?f)" by (rule erase_fun_keeps(2) [OF e])
  have safe: "safe (eval w (fun_checker fmt m ?f) \<rho> (f_body ?f))"
    by (rule accepted_safe [OF assms(1,2) _ assms(5,6)]) (use assms(4) in simp)
  show "eval w (fun_checker fmt m ?f) \<rho> (f_body ?f) = Stuck \<or>
      (ceval w \<rho> (cf_body (cm_fns core ! i)) = eval w (fun_checker fmt m ?f) \<rho> (f_body ?f) \<and>
       safe (ceval w \<rho> (cf_body (cm_fns core ! i))))"
  proof (cases "eval w (fun_checker fmt m ?f) \<rho> (f_body ?f) = Stuck")
    case False
    with safe have "plain (eval w (fun_checker fmt m ?f) \<rho> (f_body ?f))" by (auto simp: plain_def)
    from erase_fun_keeps(3) [OF e this] safe show ?thesis by simp
  qed simp
qed


lemma erase_type_base: "erase_type er (TBase b) = Some (CBase b, er)"
  by (subst erase_type.simps) simp

lemma sample_erased:
  "erase [FnItem sample_fn] = Some \<lparr>cm_structs = [], cm_fns = [\<lparr>cf_name = ''f'', cf_params = [(''x'', CBase ''f64'')],
     cf_ret = CBase ''f64'',
     cf_body = CExpr (CBase ''f64'') (KLet ''q''
       (CExpr (CBase ''f64'') (KBin OpDiv (CExpr (CBase ''f64'') (KNum f64_one)) (CExpr (CBase ''f64'') (KVar ''x''))))
       (CExpr (CBase ''f64'') (KReturn (CExpr (CBase ''f64'') (KVar ''x'')))))\<rparr>]\<rparr>"
  by (simp add: erase_def eraser_new_def sample_fn_def erase_fun_def erase_type_base hm_insert_def hm_get_def bin_type_def)


end
