(* ===== verification/Eidos_Codegen.thy ===== *)
theory Eidos_Codegen
  imports Eidos_Erasure
begin

text \<open>
  Code generation (\<open>eidos-codegen/src/lib.rs\<close>): the erased core printed as a Rust crate. The result is the text or the
  error message of the source. The formatting of a double is the parameter \<open>fmt\<close>.

  The theorems are that generation succeeds exactly on the cores whose \<open>map\<close> and \<open>zip\<close> calls have their argument
  and whose records have a struct type, and that the brackets of the text generated for the module are balanced (the fixed head
  contains an interval in a comment, which is not).
\<close>

subsection \<open>Names, types, literals\<close>

definition KEYWORDS :: "string list" where
  "KEYWORDS = [''as'', ''break'', ''const'', ''continue'', ''crate'', ''else'', ''enum'', ''extern'', ''false'', ''fn'', ''for'', ''if'', ''impl'', ''in'', ''let'', ''loop'', ''match'', ''mod'', ''move'', ''mut'', ''pub'', ''ref'', ''return'', ''self'', ''Self'', ''static'', ''struct'', ''super'', ''trait'', ''true'', ''type'', ''unsafe'', ''use'', ''where'', ''while'', ''async'', ''await'', ''dyn'']"

definition ident :: "string \<Rightarrow> string" where
  "ident s = (if s \<in> set KEYWORDS then ''r#'' @ s else s)"

definition base_type :: "string \<Rightarrow> string" where
  "base_type s = (if s = ''Unit'' then ''()'' else s)"

fun gen_type :: "core_type \<Rightarrow> string" where
  "gen_type (CBase s) = base_type s"
| "gen_type (CArray inner n) = ''['' @ gen_type inner @ ''; '' @ show_nat n @ '']''"
| "gen_type (CNamed n) = n"

definition float_lit :: "(f64 \<Rightarrow> string) \<Rightarrow> f64 \<Rightarrow> string" where
  "float_lit fmt n =
     (if \<not> f64_is_finite n \<and> \<not> f64_is_nan n
      then (if f64_sign n = 0 then ''f64::INFINITY'' else ''f64::NEG_INFINITY'')
      else if f64_is_nan n then ''f64::NAN''
      else let s = fmt n in
           if CHR ''.'' \<in> set s \<or> CHR ''e'' \<in> set s \<or> CHR ''E'' \<in> set s then s else s @ ''.0'')"

fun gen_pattern :: "pattern \<Rightarrow> string" where
  "gen_pattern (PVar v) = ident v"
| "gen_pattern (PTuple ps) = ''('' @ join (map gen_pattern ps) @ '')''"

definition gen_pattern_list :: "pattern list \<Rightarrow> string" where
  "gen_pattern_list ps = join (map gen_pattern ps)"

subsection \<open>Layout\<close>

definition nl :: string where
  "nl = [CHR 0x0A]"

text \<open>\<open>str::lines\<close>: the pieces between line feeds, without a last empty piece and without a final carriage return.\<close>

definition strip_cr :: "string \<Rightarrow> string" where
  "strip_cr s = (if s \<noteq> [] \<and> last s = CHR 0x0D then butlast s else s)"

fun lines_loop :: "string \<Rightarrow> string \<Rightarrow> string list" where
  "lines_loop acc [] = (if acc = [] then [] else [acc])"
| "lines_loop acc (c # cs) =
     (if c = CHR 0x0A then strip_cr acc # lines_loop [] cs else lines_loop (acc @ [c]) cs)"

definition str_lines :: "string \<Rightarrow> string list" where
  "str_lines s = lines_loop [] s"

definition indent_block :: "string \<Rightarrow> string" where
  "indent_block s = concat (map (\<lambda>l. if l = [] then nl else ''    '' @ l @ nl) (str_lines s))"

fun join_with :: "string \<Rightarrow> string list \<Rightarrow> string" where
  "join_with sep [] = ''''"
| "join_with sep [x] = x"
| "join_with sep (x # y # xs) = x @ sep @ join_with sep (y # xs)"

definition unlines :: "string list \<Rightarrow> string" where
  "unlines ls = concat (map (\<lambda>l. l @ nl) ls)"

definition cg_prelude :: string where
  "cg_prelude =
     unlines
     [''#[inline]'',
      ''pub fn eidos_len<const N: usize>(_a: [f64; N]) -> usize {'',
      ''    N'',
      ''}'',
      '''',
      ''#[inline]'',
      ''pub fn eidos_sqrt(x: f64) -> f64 {'',
      ''    if x <= 0.0 {'',
      ''        return 0.0;'',
      ''    }'',
      ''    // Scale `x` into [1, 4) so that 32 Newton iterations converge to full f64'',
      ''    // precision even for extreme magnitudes (bug #11). The final result is'',
      ''    // rescaled back; this keeps the verified (exact-real) contract and the'',
      ''    // generated (float) computation consistent across the dynamic range.'',
      ''    let mut y = x;'',
      ''    let mut scale = 1.0f64;'',
      ''    while y >= 4.0 {'',
      ''        y *= 0.25;'',
      ''        scale *= 2.0;'',
      ''    }'',
      ''    while y < 1.0 {'',
      ''        y *= 4.0;'',
      ''        scale *= 0.5;'',
      ''    }'',
      ''    let mut g = y;'',
      ''    let mut i = 0usize;'',
      ''    while i < 32 {'',
      ''        g = 0.5 * (g + y / g);'',
      ''        i += 1;'',
      ''    }'',
      ''    g * scale'',
      ''}'',
      '''',
      ''#[inline]'',
      ''pub fn eidos_magnitude<const N: usize>(a: [f64; N]) -> f64 {'',
      ''    let mut s = 0.0f64;'',
      ''    let mut i = 0usize;'',
      ''    while i < N {'',
      ''        s = s + a[i] * a[i];'',
      ''        i += 1;'',
      ''    }'',
      ''    eidos_sqrt(s)'',
      ''}'',
      '''',
      ''#[inline]'',
      ''pub fn eidos_map<const N: usize, T, R, F>(a: [T; N], f: F) -> [R; N]'',
      ''where'',
      ''    T: Copy,'',
      ''    F: Fn(T) -> R,'',
      ''{'',
      ''    core::array::from_fn(|i| f(a[i]))'',
      ''}'',
      '''',
      ''#[inline]'',
      ''pub fn eidos_zip<const N: usize>(a: [f64; N], b: [f64; N]) -> [(f64, f64); N] {'',
      ''    core::array::from_fn(|i| (a[i], b[i]))'',
      ''}'']"

subsection \<open>Expressions\<close>

type_synonym gen = "string + string"

function (sequential) gen_expr :: "(f64 \<Rightarrow> string) \<Rightarrow> cexpr \<Rightarrow> gen"
  and gen_kind :: "(f64 \<Rightarrow> string) \<Rightarrow> core_type \<Rightarrow> cexpr_kind \<Rightarrow> gen"
  and gen_block :: "(f64 \<Rightarrow> string) \<Rightarrow> cexpr \<Rightarrow> gen"
  and gen_block_kind :: "(f64 \<Rightarrow> string) \<Rightarrow> core_type \<Rightarrow> cexpr_kind \<Rightarrow> gen"
  and gen_exprs :: "(f64 \<Rightarrow> string) \<Rightarrow> cexpr list \<Rightarrow> string + string list"
  and gen_fields :: "(f64 \<Rightarrow> string) \<Rightarrow> (string \<times> cexpr) list \<Rightarrow> string + string list"
  and gen_closure :: "(f64 \<Rightarrow> string) \<Rightarrow> cexpr \<Rightarrow> string + (pattern list \<times> string)" where
  "gen_expr fmt (CExpr ty k) = gen_kind fmt ty k"
| "gen_kind fmt ty (KNum n) = Inr (float_lit fmt n)"
| "gen_kind fmt ty (KBool b) = Inr (if b then ''true'' else ''false'')"
| "gen_kind fmt ty (KVar v) = Inr (ident v)"
| "gen_kind fmt ty (KArrayLit es) = res_bind (gen_exprs fmt es) (\<lambda>xs. Inr (''['' @ join xs @ '']''))"
| "gen_kind fmt ty (KBin op a b) =
     res_bind (gen_expr fmt a) (\<lambda>x. res_bind (gen_expr fmt b) (\<lambda>y.
       Inr (''('' @ x @ '' '' @ binop_str op @ '' '' @ y @ '')'')))"
| "gen_kind fmt ty (KUn op a) =
     res_bind (gen_expr fmt a) (\<lambda>x. Inr (''('' @ unop_str op @ x @ '')''))"
| "gen_kind fmt ty (KIf c t e) =
     res_bind (gen_expr fmt c) (\<lambda>x. res_bind (gen_block fmt t) (\<lambda>y. res_bind (gen_block fmt e) (\<lambda>z.
       Inr (''if '' @ x @ '' { '' @ y @ '' } else { '' @ z @ '' }''))))"
| "gen_kind fmt ty (KLet name v body) =
     res_bind (gen_expr fmt v) (\<lambda>x. res_bind (gen_block fmt body) (\<lambda>y.
       Inr (''{ let '' @ ident name @ '' = '' @ x @ ''; '' @ y @ '' }'')))"
| "gen_kind fmt ty (KCall f args) =
     res_bind (gen_exprs fmt args) (\<lambda>xs. Inr (ident f @ ''('' @ join xs @ '')''))"
| "gen_kind fmt ty (KMethod recv name args) =
     res_bind (gen_expr fmt recv) (\<lambda>r.
       if name = ''magnitude'' then Inr (''eidos_magnitude('' @ r @ '')'')
       else if name = ''len'' then Inr (''eidos_len('' @ r @ '')'')
       else if name = ''map'' then
         (case args of
            [] \<Rightarrow> Inl ''eidos_map requires a closure argument''
          | lam # _ \<Rightarrow> res_bind (gen_closure fmt lam) (\<lambda>(params, body).
              Inr (''eidos_map('' @ r @ '', |'' @ gen_pattern_list params @ ''| '' @ body @ '')'')))
       else if name = ''zip'' then
         (case args of
            [] \<Rightarrow> Inl ''eidos_zip requires a second array argument''
          | a # _ \<Rightarrow> res_bind (gen_expr fmt a) (\<lambda>x. Inr (''eidos_zip('' @ r @ '', '' @ x @ '')'')))
       else if args = [] then Inr (r @ ''.'' @ name)
       else res_bind (gen_exprs fmt args) (\<lambda>xs. Inr (r @ ''.'' @ name @ ''('' @ join xs @ '')'')))"
| "gen_kind fmt ty (KLambda params body) =
     res_bind (gen_expr fmt body) (\<lambda>x. Inr (''|'' @ gen_pattern_list params @ ''| '' @ x))"
| "gen_kind fmt ty (KRecord fs) =
     res_bind (gen_fields fmt fs) (\<lambda>xs.
       case ty of
         CNamed n \<Rightarrow> Inr (ident n @ '' { '' @ join xs @ '' }'')
       | _ \<Rightarrow> Inl ''anonymous records are not supported as a codegen target'')"
| "gen_kind fmt ty (KReturn e) = res_bind (gen_expr fmt e) (\<lambda>x. Inr (''return '' @ x))"
| "gen_block fmt (CExpr ty k) = gen_block_kind fmt ty k"
| "gen_block_kind fmt ty (KReturn e) = res_bind (gen_expr fmt e) (\<lambda>x. Inr (''return '' @ x @ '';''))"
| "gen_block_kind fmt ty (KIf c t e) =
     res_bind (gen_expr fmt c) (\<lambda>x. res_bind (gen_block fmt t) (\<lambda>y. res_bind (gen_block fmt e) (\<lambda>z.
       Inr (''if '' @ x @ '' {'' @ nl @ indent_block y @ ''    } else {'' @ nl @ indent_block z @ ''    }''))))"
| "gen_block_kind fmt ty (KLet name v body) =
     res_bind (gen_expr fmt v) (\<lambda>x. res_bind (gen_block fmt body) (\<lambda>y.
       Inr (''let '' @ ident name @ '' = '' @ x @ '';'' @ nl @ y)))"
| "gen_block_kind fmt ty k = gen_kind fmt ty k"
| "gen_exprs fmt [] = Inr []"
| "gen_exprs fmt (e # es) = res_bind (gen_expr fmt e) (\<lambda>x. res_bind (gen_exprs fmt es) (\<lambda>xs. Inr (x # xs)))"
| "gen_fields fmt [] = Inr []"
| "gen_fields fmt ((n, e) # fs) =
     res_bind (gen_expr fmt e) (\<lambda>x. res_bind (gen_fields fmt fs) (\<lambda>xs. Inr ((ident n @ '': '' @ x) # xs)))"
| "gen_closure fmt (CExpr ty (KLambda params body)) = res_bind (gen_expr fmt body) (\<lambda>x. Inr (params, x))"
| "gen_closure fmt lam = res_bind (gen_expr fmt lam) (\<lambda>x. Inr ([], x))"
  by pat_completeness auto

termination
  by (relation "measure (case_sum
      (case_sum (\<lambda>(fmt, e). 2 * size e) (case_sum (\<lambda>(fmt, ty, k). 2 * size k) (\<lambda>(fmt, e). 2 * size e + 1)))
      (case_sum (case_sum (\<lambda>(fmt, ty, k). 2 * size k + 1) (\<lambda>(fmt, es). 2 * size_list size es))
        (case_sum (\<lambda>(fmt, fs). 2 * size_list (size_prod (\<lambda>_. 0) size) fs) (\<lambda>(fmt, e). 2 * size e + 1))))") auto

subsection \<open>Modules\<close>

definition gen_struct :: "struct_def \<Rightarrow> string" where
  "gen_struct s =
     ''pub struct '' @ ident (sd_name s) @ '' {'' @ nl @
     join_with nl (map (\<lambda>(n, t). ''    pub '' @ ident n @ '': '' @ gen_type t @ '','') (sd_fields s)) @ nl @ ''}'' @ nl"

definition gen_fun :: "(f64 \<Rightarrow> string) \<Rightarrow> core_fun \<Rightarrow> gen" where
  "gen_fun fmt f =
     res_bind (gen_block fmt (cf_body f)) (\<lambda>body.
       Inr (''pub fn '' @ ident (cf_name f) @ '' ('' @
         join (map (\<lambda>(n, t). ident n @ '': '' @ gen_type t) (cf_params f)) @ '') -> '' @ gen_type (cf_ret f) @
         '' {'' @ nl @ body @ ''}'' @ nl))"

fun gen_funs :: "(f64 \<Rightarrow> string) \<Rightarrow> core_fun list \<Rightarrow> gen" where
  "gen_funs fmt [] = Inr ''''"
| "gen_funs fmt (f # fs) = res_bind (gen_fun fmt f) (\<lambda>x. res_bind (gen_funs fmt fs) (\<lambda>y. Inr (x @ nl @ y)))"

definition codegen_head :: string where
  "codegen_head =
     unlines [''#![no_std]'',
       ''// Generated by tpt-eidos (erasure + codegen). Do not edit by hand.'',
       ''// This module was verified by the eidos kernel; all proof terms'',
       ''// have been erased. It depends only on `core`.'', ''''] @ cg_prelude @ nl"

definition codegen :: "(f64 \<Rightarrow> string) \<Rightarrow> core_module \<Rightarrow> gen" where
  "codegen fmt m =
     (let out = codegen_head @ concat (map (\<lambda>s. gen_struct s @ nl) (cm_structs m)) @
          (if cm_structs m = [] then '''' else nl)
      in res_bind (gen_funs fmt (cm_fns m)) (\<lambda>fns. Inr (out @ fns)))"

subsection \<open>Cores that can be lowered\<close>

function (sequential) lowerable :: "cexpr \<Rightarrow> bool"
  and lowerable_kind :: "core_type \<Rightarrow> cexpr_kind \<Rightarrow> bool" where
  "lowerable (CExpr ty k) = lowerable_kind ty k"
| "lowerable_kind ty (KArrayLit es) = list_all lowerable es"
| "lowerable_kind ty (KBin op a b) = (lowerable a \<and> lowerable b)"
| "lowerable_kind ty (KUn op a) = lowerable a"
| "lowerable_kind ty (KIf c t e) = (lowerable c \<and> lowerable t \<and> lowerable e)"
| "lowerable_kind ty (KLet name v body) = (lowerable v \<and> lowerable body)"
| "lowerable_kind ty (KCall f args) = list_all lowerable args"
| "lowerable_kind ty (KMethod recv name args) =
     (lowerable recv \<and>
      (if name = ''magnitude'' \<or> name = ''len'' then True
       else if name = ''map'' \<or> name = ''zip'' then (case args of [] \<Rightarrow> False | a # _ \<Rightarrow> lowerable a)
       else list_all lowerable args))"
| "lowerable_kind ty (KLambda params body) = lowerable body"
| "lowerable_kind ty (KRecord fs) = ((case ty of CNamed n \<Rightarrow> True | _ \<Rightarrow> False) \<and> list_all (\<lambda>(n, e). lowerable e) fs)"
| "lowerable_kind ty (KReturn e) = lowerable e"
| "lowerable_kind ty k = True"
  by pat_completeness auto

termination
  by (relation "measure (case_sum size (\<lambda>(ty, k). size k))")
    (auto simp: less_Suc_eq_le size_list_estimation' dest: size_list_estimation' [of _ _ _ size])

subsection \<open>Brackets\<close>

definition opens :: "char \<Rightarrow> char option" where
  "opens c = (if c = CHR ''('' then Some (CHR '')'') else if c = CHR ''['' then Some (CHR '']'')
     else if c = CHR ''{'' then Some (CHR ''}'') else None)"

definition closing :: "char \<Rightarrow> bool" where
  "closing c \<longleftrightarrow> c = CHR '')'' \<or> c = CHR '']'' \<or> c = CHR ''}''"

text \<open>The stack holds the brackets still to be closed.\<close>

fun brackets :: "string \<Rightarrow> string \<Rightarrow> string option" where
  "brackets st [] = Some st"
| "brackets st (c # cs) =
     (case opens c of
        Some d \<Rightarrow> brackets (d # st) cs
      | None \<Rightarrow>
          if closing c then (case st of [] \<Rightarrow> None | d # st' \<Rightarrow> if c = d then brackets st' cs else None)
          else brackets st cs)"

definition neutral :: "string \<Rightarrow> bool" where
  "neutral s \<longleftrightarrow> (\<forall>st. brackets st s = Some st)"

definition bracket_free :: "string \<Rightarrow> bool" where
  "bracket_free s \<longleftrightarrow> list_all (\<lambda>c. opens c = None \<and> \<not> closing c) s"

lemma brackets_append: "brackets st (xs @ ys) = Option.bind (brackets st xs) (\<lambda>st'. brackets st' ys)"
  by (induction st xs rule: brackets.induct) (auto split: option.split list.split)

lemma neutral_append: "neutral xs \<Longrightarrow> neutral ys \<Longrightarrow> neutral (xs @ ys)"
  by (simp add: neutral_def brackets_append)

lemma neutral_Nil: "neutral []"
  by (simp add: neutral_def)

lemma bracket_free_neutral: "bracket_free s \<Longrightarrow> neutral s"
proof (induction s)
  case (Cons c s)
  then show ?case by (simp add: bracket_free_def neutral_def)
qed (simp add: neutral_Nil)

lemma neutral_wrap:
  "neutral s \<Longrightarrow> opens c = Some d \<Longrightarrow> neutral (c # s @ [d])"
  by (auto simp: neutral_def brackets_append opens_def closing_def split: if_splits)

lemma bracket_free_simps [simp]:
  "bracket_free []" "bracket_free (c # cs) \<longleftrightarrow> opens c = None \<and> \<not> closing c \<and> bracket_free cs"
  "bracket_free (xs @ ys) \<longleftrightarrow> bracket_free xs \<and> bracket_free ys"
  by (auto simp: bracket_free_def)

lemma neutral_plain: "opens c = None \<Longrightarrow> \<not> closing c \<Longrightarrow> neutral (c # s) = neutral s"
  by (auto simp: neutral_def)

lemma neutral_concat: "list_all neutral xs \<Longrightarrow> neutral (concat xs)"
  by (induction xs) (auto simp: neutral_Nil neutral_append)

lemma neutral_join: "list_all neutral xs \<Longrightarrow> neutral (join xs)"
  by (induction xs rule: join.induct)
    (auto simp: neutral_Nil neutral_plain opens_def closing_def intro!: neutral_append)

lemma neutral_join_with: "neutral sep \<Longrightarrow> list_all neutral xs \<Longrightarrow> neutral (join_with sep xs)"
  by (induction sep xs rule: join_with.induct) (auto simp: neutral_Nil intro!: neutral_append)

lemma brackets_strip: "brackets st (strip_cr s @ t) = brackets st (s @ t)"
proof (cases "s \<noteq> [] \<and> last s = CHR 0x0D")
  case True
  then obtain u where u: "s = u @ [CHR 0x0D]" by (cases s rule: rev_cases) auto
  have "brackets st' (CHR 0x0D # t) = brackets st' t" for st' by (simp add: opens_def closing_def)
  with u show ?thesis by (simp add: strip_cr_def brackets_append)
qed (auto simp: strip_cr_def)

lemma brackets_nl: "brackets st nl = Some st"
  by (simp add: nl_def opens_def closing_def)

lemma brackets_lines:
  "brackets st (concat (map (\<lambda>l. if l = [] then nl else ''    '' @ l @ nl) (lines_loop acc s))) = brackets st (acc @ s)"
proof (induction acc s arbitrary: st rule: lines_loop.induct)
  case (1 acc)
  show ?case by (simp add: brackets_append brackets_nl opens_def closing_def)
next
  case (2 acc c cs)
  have line: "brackets st ((if l = [] then nl else ''    '' @ l @ nl) @ t) = brackets st (l @ t)" for st l t
    by (simp add: brackets_append brackets_nl opens_def closing_def)
  show ?case
  proof (cases "c = CHR 0x0A")
    case True
    let ?f = "\<lambda>l. if l = [] then nl else ''    '' @ l @ nl"
    let ?t = "concat (map ?f (lines_loop [] cs))"
    have nl: "brackets st' (c # cs) = brackets st' cs" for st' using True by (simp add: opens_def closing_def)
    have "brackets st (?f (strip_cr acc) @ ?t) = brackets st (acc @ ?t)"
      by (simp only: line brackets_strip)
    also have "\<dots> = brackets st (acc @ c # cs)"
      using 2(1) [OF True] by (simp only: brackets_append [of st acc] nl append_Nil)
    finally show ?thesis using True by simp
  next
    case False
    with 2(2) show ?thesis by simp
  qed
qed

lemma neutral_indent: "neutral s \<Longrightarrow> neutral (indent_block s)"
  by (simp add: neutral_def indent_block_def str_lines_def brackets_lines)

subsection \<open>Names\<close>

fun pattern_names :: "pattern \<Rightarrow> string list" where
  "pattern_names (PVar v) = [v]"
| "pattern_names (PTuple ps) = concat (map pattern_names ps)"

fun type_names :: "core_type \<Rightarrow> string list" where
  "type_names (CBase s) = [s]"
| "type_names (CArray inner n) = type_names inner"
| "type_names (CNamed s) = [s]"

function (sequential) expr_names :: "cexpr \<Rightarrow> string list"
  and kind_names :: "cexpr_kind \<Rightarrow> string list" where
  "expr_names (CExpr ty k) = type_names ty @ kind_names k"
| "kind_names (KVar v) = [v]"
| "kind_names (KArrayLit es) = concat (map expr_names es)"
| "kind_names (KBin op a b) = expr_names a @ expr_names b"
| "kind_names (KUn op a) = expr_names a"
| "kind_names (KIf c t e) = expr_names c @ expr_names t @ expr_names e"
| "kind_names (KLet name v body) = name # expr_names v @ expr_names body"
| "kind_names (KCall f args) = f # concat (map expr_names args)"
| "kind_names (KMethod recv name args) = name # expr_names recv @ concat (map expr_names args)"
| "kind_names (KLambda params body) = concat (map pattern_names params) @ expr_names body"
| "kind_names (KRecord fs) = concat (map (\<lambda>(n, e). n # expr_names e) fs)"
| "kind_names (KReturn e) = expr_names e"
| "kind_names k = []"
  by pat_completeness auto

termination
  by (relation "measure (case_sum size size)")
    (auto simp: less_Suc_eq_le size_list_estimation' dest: size_list_estimation' [of _ _ _ size])

abbreviation clean :: "string list \<Rightarrow> bool" where
  "clean \<equiv> list_all bracket_free"

lemma keyword_mark: "bracket_free ''r#''"
  by (simp add: opens_def closing_def)

lemma neutral_ident: "bracket_free s \<Longrightarrow> neutral (ident s)"
  using keyword_mark by (auto simp: ident_def intro: bracket_free_neutral)

lemma digit_free:
  assumes "n < 10"
  shows "bracket_free [char_of (48 + n :: nat)]"
proof -
  have "(of_char (char_of (48 + n) :: char) :: nat) = 48 + n" using assms by simp
  then have "char_of (48 + n) \<noteq> c" if "(of_char c :: nat) \<notin> {48..57}" for c
    using assms that by auto
  then show ?thesis by (simp add: opens_def closing_def)
qed

lemma neutral_show_nat: "neutral (show_nat n)"
proof (induction n rule: show_nat.induct)
  case (1 n)
  have "neutral [char_of (48 + n mod 10)]" by (rule bracket_free_neutral [OF digit_free]) simp
  moreover have "n < 10 \<Longrightarrow> neutral [char_of (48 + n)]" by (rule bracket_free_neutral [OF digit_free])
  ultimately show ?case using 1 by (auto simp: show_nat.simps [of n] intro: neutral_append)
qed

subsection \<open>Generation\<close>

definition good :: "bool \<Rightarrow> gen \<Rightarrow> bool" where
  "good l r = (case r of Inr s \<Rightarrow> l \<and> neutral s | Inl e \<Rightarrow> \<not> l)"

definition goods :: "bool \<Rightarrow> string + string list \<Rightarrow> bool" where
  "goods l r = (case r of Inr xs \<Rightarrow> l \<and> list_all neutral xs | Inl e \<Rightarrow> \<not> l)"

definition good_closure :: "bool \<Rightarrow> string + (pattern list \<times> string) \<Rightarrow> bool" where
  "good_closure l r = (case r of Inr (ps, s) \<Rightarrow> l \<and> clean (concat (map pattern_names ps)) \<and> neutral s | Inl e \<Rightarrow> \<not> l)"

lemma good_bind:
  assumes "good l r" and "\<And>s. l \<Longrightarrow> neutral s \<Longrightarrow> good rest (f s)" and "l' = (l \<and> rest)"
  shows "good l' (res_bind r f)"
  using assms by (cases r) (auto simp: good_def)

lemma good_bind2:
  assumes "good l1 r1" and "good l2 r2" and "\<And>x y. neutral x \<Longrightarrow> neutral y \<Longrightarrow> neutral (t x y)"
  shows "good (l1 \<and> l2) (res_bind r1 (\<lambda>x. res_bind r2 (\<lambda>y. Inr (t x y))))"
  using assms by (cases r1; cases r2) (auto simp: good_def)

lemma good_bind3:
  assumes "good l1 r1" and "good l2 r2" and "good l3 r3"
    and "\<And>x y z. neutral x \<Longrightarrow> neutral y \<Longrightarrow> neutral z \<Longrightarrow> neutral (t x y z)"
  shows "good (l1 \<and> l2 \<and> l3) (res_bind r1 (\<lambda>x. res_bind r2 (\<lambda>y. res_bind r3 (\<lambda>z. Inr (t x y z)))))"
  using assms by (cases r1; cases r2; cases r3) (auto simp: good_def)

lemma goods_bind:
  assumes "goods l r" and "\<And>xs. l \<Longrightarrow> list_all neutral xs \<Longrightarrow> good rest (f xs)" and "l' = (l \<and> rest)"
  shows "good l' (res_bind r f)"
  using assms by (cases r) (auto simp: good_def goods_def)

lemma good_closure_bind:
  assumes "good_closure l r"
    and "\<And>ps s. l \<Longrightarrow> clean (concat (map pattern_names ps)) \<Longrightarrow> neutral s \<Longrightarrow> good rest (f (ps, s))" and "l' = (l \<and> rest)"
  shows "good l' (res_bind r f)"
  using assms by (cases r) (auto simp: good_def good_closure_def)

lemma good_fail: "good False (res_bind r (\<lambda>x. Inl e))"
  by (cases r) (auto simp: good_def)

lemma good_closure_plain: "good l r \<Longrightarrow> good_closure l (res_bind r (\<lambda>x. Inr ([], x)))"
  by (cases r) (auto simp: good_def good_closure_def)

lemma good_closure_lambda:
  "good l r \<Longrightarrow> clean (concat (map pattern_names ps)) \<Longrightarrow> good_closure l (res_bind r (\<lambda>x. Inr (ps, x)))"
  by (cases r) (auto simp: good_def good_closure_def)

lemma goods_Cons:
  assumes "good l r" and "goods ls rs" and "\<And>x. neutral x \<Longrightarrow> neutral (t x)"
  shows "goods (l \<and> ls) (res_bind r (\<lambda>x. res_bind rs (\<lambda>xs. Inr (t x # xs))))"
  using assms by (cases r; cases rs) (auto simp: good_def goods_def)

lemma neutral_binop: "neutral (binop_str op)" and neutral_unop: "neutral (unop_str u)"
  by (cases op; cases u; simp add: binop_str_def unop_str_def neutral_def opens_def closing_def)+

lemma neutral_float: "bracket_free (fmt n) \<Longrightarrow> neutral (float_lit fmt n)"
  by (auto simp: float_lit_def Let_def opens_def closing_def intro!: bracket_free_neutral)

lemma neutral_pattern: "clean (pattern_names p) \<Longrightarrow> neutral (gen_pattern p)"
proof (induction p rule: gen_pattern.induct)
  case (2 ps)
  then have "list_all neutral (map gen_pattern ps)" by (auto simp: list_all_iff)
  from neutral_join [OF this] show ?case by (simp add: neutral_wrap opens_def)
qed (simp add: neutral_ident)

lemma neutral_patterns: "clean (concat (map pattern_names ps)) \<Longrightarrow> neutral (gen_pattern_list ps)"
  unfolding gen_pattern_list_def by (rule neutral_join) (auto simp: list_all_iff intro: neutral_pattern)

lemmas text_simps = neutral_def brackets_append opens_def closing_def nl_def

lemma good_text: "neutral s \<Longrightarrow> good True (Inr s)"
  by (simp add: good_def)

lemma gen_good:
  assumes "\<And>n. bracket_free (fmt n)"
  shows "clean (expr_names e) \<Longrightarrow> good (lowerable e) (gen_expr fmt e)"
    and "clean (type_names ty) \<Longrightarrow> clean (kind_names k) \<Longrightarrow> good (lowerable_kind ty k) (gen_kind fmt ty k)"
    and "clean (expr_names e) \<Longrightarrow> good (lowerable e) (gen_block fmt e)"
    and "clean (type_names ty) \<Longrightarrow> clean (kind_names k) \<Longrightarrow> good (lowerable_kind ty k) (gen_block_kind fmt ty k)"
    and "clean (concat (map expr_names es)) \<Longrightarrow> goods (list_all lowerable es) (gen_exprs fmt es)"
    and "clean (concat (map (\<lambda>(n, e). n # expr_names e) fs)) \<Longrightarrow> goods (list_all (\<lambda>(n, e). lowerable e) fs) (gen_fields fmt fs)"
    and "clean (expr_names e) \<Longrightarrow> good_closure (lowerable e) (gen_closure fmt e)"
  using assms
proof (induction fmt e and fmt ty k and fmt e and fmt ty k and fmt es and fmt fs and fmt e
    rule: gen_expr_gen_kind_gen_block_gen_block_kind_gen_exprs_gen_fields_gen_closure.induct)
  case (1 fmt ty k)
  then show ?case by simp
next
  case (2 fmt ty n)
  then show ?case by (simp add: good_text neutral_float)
next
  case (3 fmt ty b)
  then show ?case by (simp add: good_def text_simps)
next
  case (4 fmt ty v)
  then show ?case by (simp add: good_text neutral_ident)
next
  case (5 fmt ty es)
  then show ?case by (auto intro!: goods_bind good_text neutral_wrap [where s = "join _", simplified] neutral_join simp: opens_def)
next
  case (6 fmt ty op a b)
  then show ?case using neutral_binop [of op]
    by (auto intro!: good_bind good_text simp: text_simps)
next
  case (7 fmt ty op a)
  then show ?case using neutral_unop [of op] by (auto intro!: good_bind good_text simp: text_simps)
next
  case (8 fmt ty c t e)
  then show ?case by (auto intro!: good_bind3 simp: text_simps)
next
  case (9 fmt ty name v body)
  then show ?case using neutral_ident [of name] by (auto intro!: good_bind good_text simp: text_simps)
next
  case (10 fmt ty f args)
  then show ?case using neutral_ident [of f] neutral_join
    by (auto intro!: goods_bind good_text simp: text_simps)
next
  case (11 fmt ty recv name args)
  then have r: "good (lowerable recv) (gen_expr fmt recv)" and n: "neutral name" by (auto intro: bracket_free_neutral)
  consider "name = ''magnitude'' \<or> name = ''len''" | "name = ''map''" | "name = ''zip''"
    | "name \<notin> {''magnitude'', ''len'', ''map'', ''zip''}" by auto
  then show ?case
  proof cases
    case 1
    then show ?thesis
      by (elim disjE) (auto intro!: good_bind [OF r] good_text simp: text_simps)
  next
    case 2
    with 11 show ?thesis
      by (cases args) (auto intro!: good_bind [OF r] good_closure_bind good_text dest!: neutral_patterns
          simp: text_simps good_fail)
  next
    case 3
    with 11 show ?thesis
      by (cases args) (auto intro!: good_bind [OF r] good_bind [where l = "lowerable _"] good_text
          simp: text_simps good_fail)
  next
    case 4
    with 11 n neutral_join show ?thesis
      by (auto intro!: good_bind [where rest = "list_all lowerable args", OF r] goods_bind [where rest = True] good_text
          simp: text_simps)
  qed
next
  case (15 fmt ty k)
  then show ?case by simp
next
  case (12 fmt ty params body)
  then show ?case using neutral_patterns [of params] by (auto intro!: good_bind good_text simp: text_simps)
next
  case (13 fmt ty fs)
  show ?case
  proof (cases ty)
    case (CNamed n)
    with 13 neutral_ident [of n] neutral_join show ?thesis
      by (auto intro!: goods_bind good_text simp: text_simps)
  qed (use 13 in \<open>auto simp: goods_def good_def split: sum.splits\<close>)
next
  case (14 fmt ty e)
  then show ?case by (auto intro!: good_bind good_text simp: text_simps)
next
  case (16 fmt ty e)
  then show ?case by (auto intro!: good_bind good_text simp: text_simps)
next
  case (17 fmt ty c t e)
  then show ?case using neutral_indent by (auto intro!: good_bind3 simp: text_simps)
next
  case (18 fmt ty name v body)
  then show ?case using neutral_ident [of name] by (auto intro!: good_bind good_text simp: text_simps)
next
  case (21 fmt e es)
  then show ?case by (auto intro!: goods_Cons)
next
  case (23 fmt n e fs)
  then show ?case using neutral_ident [of n] by (auto intro!: goods_Cons simp: text_simps)
next
  case (24 fmt ty params body)
  then show ?case by (auto intro!: good_closure_lambda)
qed (simp_all add: good_closure_plain goods_def
    del: gen_expr.simps gen_kind.simps lowerable.simps lowerable_kind.simps expr_names.simps kind_names.simps)

definition struct_names :: "struct_def \<Rightarrow> string list" where
  "struct_names s = sd_name s # concat (map (\<lambda>(n, t). n # type_names t) (sd_fields s))"

definition fun_names :: "core_fun \<Rightarrow> string list" where
  "fun_names f = cf_name f # concat (map (\<lambda>(n, t). n # type_names t) (cf_params f)) @ type_names (cf_ret f) @
     expr_names (cf_body f)"

definition module_names :: "core_module \<Rightarrow> string list" where
  "module_names m = concat (map struct_names (cm_structs m)) @ concat (map fun_names (cm_fns m))"

definition lowerable_module :: "core_module \<Rightarrow> bool" where
  "lowerable_module m \<longleftrightarrow> list_all (\<lambda>f. lowerable (cf_body f)) (cm_fns m)"

lemma neutral_type: "clean (type_names t) \<Longrightarrow> neutral (gen_type t)"
proof (induction t)
  case (CBase s)
  then show ?case by (auto simp: base_type_def text_simps intro: bracket_free_neutral [unfolded neutral_def, rule_format])
next
  case (CArray t n)
  then show ?case using neutral_show_nat [of n] by (simp add: text_simps)
qed (auto intro: bracket_free_neutral)

lemma neutral_entry:
  assumes "clean (concat (map (\<lambda>(n, t). n # type_names t) ps))" and "(n, t) \<in> set ps"
  shows "neutral (ident n)" and "neutral (gen_type t)"
proof -
  from assms have "bracket_free n" "clean (type_names t)" by (induction ps) auto
  then show "neutral (ident n)" "neutral (gen_type t)" by (auto intro: neutral_ident neutral_type)
qed

lemma neutral_nl: "neutral nl"
  by (simp add: text_simps)

lemma neutral_struct: "clean (struct_names s) \<Longrightarrow> neutral (gen_struct s)"
proof -
  assume c: "clean (struct_names s)"
  have "neutral (''    pub '' @ ident n @ '': '' @ gen_type t @ '','')" if "(n, t) \<in> set (sd_fields s)" for n t
  proof -
    from c that have "neutral (ident n)" "neutral (gen_type t)"
      by (auto simp: struct_names_def dest: neutral_entry)
    then show ?thesis by (simp add: text_simps)
  qed
  then have "neutral (join_with nl (map (\<lambda>(n, t). ''    pub '' @ ident n @ '': '' @ gen_type t @ '','') (sd_fields s)))"
    by (intro neutral_join_with neutral_nl) (auto simp: list_all_iff)
  moreover have "neutral (ident (sd_name s))" using c by (simp add: struct_names_def neutral_ident)
  ultimately show ?thesis by (simp add: gen_struct_def text_simps)
qed

lemma good_fun:
  assumes "\<And>n. bracket_free (fmt n)" and "clean (fun_names f)"
  shows "good (lowerable (cf_body f)) (gen_fun fmt f)"
proof -
  have p: "neutral (join (map (\<lambda>(n, t). ident n @ '': '' @ gen_type t) (cf_params f)))"
  proof (rule neutral_join, clarsimp simp: list_all_iff)
    fix n t assume "(n, t) \<in> set (cf_params f)"
    with assms(2) have "neutral (ident n)" "neutral (gen_type t)"
      by (auto simp: fun_names_def dest: neutral_entry)
    then show "neutral (ident n @ CHR '':'' # CHR '' '' # gen_type t)" by (simp add: text_simps)
  qed
  have "neutral (ident (cf_name f))" "neutral (gen_type (cf_ret f))" "good (lowerable (cf_body f)) (gen_block fmt (cf_body f))"
    using assms by (auto simp: fun_names_def intro: neutral_ident neutral_type gen_good(3))
  with p show ?thesis by (auto simp: gen_fun_def text_simps intro!: good_bind [where rest = True] good_text)
qed

lemma good_funs:
  assumes "\<And>n. bracket_free (fmt n)" and "clean (concat (map fun_names fs))"
  shows "good (list_all (\<lambda>f. lowerable (cf_body f)) fs) (gen_funs fmt fs)"
  using assms(2)
proof (induction fs)
  case (Cons f fs)
  then show ?case using good_fun [of fmt f] assms(1)
    by (auto intro!: good_bind2 simp: text_simps)
qed (simp add: good_def neutral_Nil)

lemma module_good:
  assumes "\<And>n. bracket_free (fmt n)" and "clean (module_names m)"
  shows "if lowerable_module m then \<exists>text. codegen fmt m = Inr (codegen_head @ text) \<and> neutral text
    else \<exists>e. codegen fmt m = Inl e"
proof -
  have "clean (struct_names s)" if "s \<in> set (cm_structs m)" for s
    using assms(2) that unfolding module_names_def list_all_iff by fastforce
  then have "list_all neutral (map (\<lambda>s. gen_struct s @ nl) (cm_structs m))"
    by (auto simp: list_all_iff [of neutral] intro!: neutral_append neutral_struct neutral_nl)
  from neutral_concat [OF this] have s: "neutral (concat (map (\<lambda>s. gen_struct s @ nl) (cm_structs m)))" .
  have "good (lowerable_module m) (gen_funs fmt (cm_fns m))"
    unfolding lowerable_module_def using assms by (intro good_funs) (auto simp: module_names_def)
  with s show ?thesis
    by (cases "gen_funs fmt (cm_fns m)") (auto simp: good_def codegen_def Let_def neutral_nl intro!: neutral_append)
qed



end
