(* ===== verification/Telos_Linear.thy ===== *)
theory Telos_Linear
  imports Rust_Maps
begin

text \<open>
  The intermediate representation of the telos verifier (\<open>telos-ir/src/ir.rs\<close>): linear
  expressions over named integer variables, with \<open>i64\<close> coefficients, and constraints that compare
  one with zero.

  The operations use Rust's plain operators, so an overflow of \<open>i64\<close> is a panic (\<open>None\<close>).
  \<open>linear_val\<close> is the value of an expression in a state that gives every variable an unbounded
  integer; the lemmas show that every operation that returns is exact, keeps variables distinct,
  and that \<open>linear_add\<close> and \<open>linear_sub\<close> leave no zero coefficient behind.
\<close>

subsection \<open>Relations, linear expressions, constraints\<close>

text \<open>A source location (\<open>telos-parser/src/span.rs\<close>).\<close>

record span =
  sp_line :: nat
  sp_col :: nat

datatype relation = Le0 | Lt0 | Ge0 | Gt0 | Eq0 | Ne0

record linear =
  l_terms :: "(string \<times> int) list"
  l_constant :: int

datatype constraint = Constraint linear relation

definition linear_var :: "string \<Rightarrow> linear" where
  "linear_var name = \<lparr>l_terms = [(name, 1)], l_constant = 0\<rparr>"

definition constant_only :: "int \<Rightarrow> linear" where
  "constant_only c = \<lparr>l_terms = [], l_constant = c\<rparr>"

fun add_term :: "(string \<times> int) list \<Rightarrow> string \<Rightarrow> int \<Rightarrow> (string \<times> int) list panics" where
  "add_term [] v c = Some [(v, c)]"
| "add_term ((u, d) # ts) v c =
     (if u = v then do { s \<leftarrow> ichecked_add 64 d c; Some ((u, s) # ts) }
      else do { ts' \<leftarrow> add_term ts v c; Some ((u, d) # ts') })"

fun add_terms :: "(string \<times> int) list \<Rightarrow> (string \<times> int) list \<Rightarrow> (string \<times> int) list panics" where
  "add_terms ts [] = Some ts"
| "add_terms ts ((v, c) # other) = do { ts' \<leftarrow> add_term ts v c; add_terms ts' other }"

definition linear_add :: "linear \<Rightarrow> linear \<Rightarrow> linear panics" where
  "linear_add a b = do {
     ts \<leftarrow> add_terms (l_terms a) (l_terms b);
     k \<leftarrow> ichecked_add 64 (l_constant a) (l_constant b);
     Some \<lparr>l_terms = filter (\<lambda>(_, c). c \<noteq> 0) ts, l_constant = k\<rparr>
   }"

fun map_terms :: "(int \<Rightarrow> int panics) \<Rightarrow> (string \<times> int) list \<Rightarrow> (string \<times> int) list panics" where
  "map_terms f [] = Some []"
| "map_terms f ((v, c) # ts) = do { d \<leftarrow> f c; ts' \<leftarrow> map_terms f ts; Some ((v, d) # ts') }"

definition linear_neg :: "linear \<Rightarrow> linear panics" where
  "linear_neg a = do {
     ts \<leftarrow> map_terms (ichecked_neg 64) (l_terms a);
     k \<leftarrow> ichecked_neg 64 (l_constant a);
     Some \<lparr>l_terms = ts, l_constant = k\<rparr>
   }"

definition linear_sub :: "linear \<Rightarrow> linear \<Rightarrow> linear panics" where
  "linear_sub a b = do {
     ts \<leftarrow> map_terms (ichecked_neg 64) (l_terms b);
     k \<leftarrow> ichecked_neg 64 (l_constant b);
     linear_add a \<lparr>l_terms = ts, l_constant = k\<rparr>
   }"

definition linear_scale :: "linear \<Rightarrow> int \<Rightarrow> linear panics" where
  "linear_scale a k = do {
     ts \<leftarrow> map_terms (\<lambda>c. ichecked_mul 64 c k) (l_terms a);
     c \<leftarrow> ichecked_mul 64 (l_constant a) k;
     Some \<lparr>l_terms = ts, l_constant = c\<rparr>
   }"

subsection \<open>Meaning\<close>

text \<open>A state gives every variable an integer.\<close>

type_synonym valuation = "string \<Rightarrow> int"

definition terms_val :: "valuation \<Rightarrow> (string \<times> int) list \<Rightarrow> int" where
  "terms_val s ts = (\<Sum>(v, c)\<leftarrow>ts. c * s v)"

definition linear_val :: "valuation \<Rightarrow> linear \<Rightarrow> int" where
  "linear_val s l = terms_val s (l_terms l) + l_constant l"

fun relation_holds :: "relation \<Rightarrow> int \<Rightarrow> bool" where
  "relation_holds Le0 x \<longleftrightarrow> x \<le> 0"
| "relation_holds Lt0 x \<longleftrightarrow> x < 0"
| "relation_holds Ge0 x \<longleftrightarrow> 0 \<le> x"
| "relation_holds Gt0 x \<longleftrightarrow> 0 < x"
| "relation_holds Eq0 x \<longleftrightarrow> x = 0"
| "relation_holds Ne0 x \<longleftrightarrow> x \<noteq> 0"

fun c_holds :: "valuation \<Rightarrow> constraint \<Rightarrow> bool" where
  "c_holds s (Constraint l r) \<longleftrightarrow> relation_holds r (linear_val s l)"

definition distinct_vars :: "linear \<Rightarrow> bool" where
  "distinct_vars l \<longleftrightarrow> distinct (map fst (l_terms l))"

definition no_zero :: "linear \<Rightarrow> bool" where
  "no_zero l \<longleftrightarrow> (\<forall>(v, c) \<in> set (l_terms l). c \<noteq> 0)"

fun wf_constraint :: "constraint \<Rightarrow> bool" where
  "wf_constraint (Constraint l r) \<longleftrightarrow> distinct_vars l \<and> no_zero l"

lemma terms_val_simps [simp]:
  "terms_val s [] = 0" "terms_val s ((v, c) # ts) = c * s v + terms_val s ts"
  "terms_val s (ts @ us) = terms_val s ts + terms_val s us"
  by (simp_all add: terms_val_def)

lemma linear_val_var [simp]: "linear_val s (linear_var v) = s v"
  and linear_val_constant [simp]: "linear_val s (constant_only k) = k"
  by (simp_all add: linear_val_def linear_var_def constant_only_def)

lemma terms_val_filter: "terms_val s (filter (\<lambda>(_, c). c \<noteq> 0) ts) = terms_val s ts"
  by (induction ts) auto

lemma add_term_val: "add_term ts v c = Some ts' \<Longrightarrow> terms_val s ts' = terms_val s ts + c * s v"
  by (induction ts v c arbitrary: ts' rule: add_term.induct)
    (auto simp: ichecked_add_def algebra_simps split: if_splits bind_splits)

lemma add_term_keys:
  "add_term ts v c = Some ts' \<Longrightarrow>
     map fst ts' = (if v \<in> set (map fst ts) then map fst ts else map fst ts @ [v])"
  by (induction ts v c arbitrary: ts' rule: add_term.induct) (auto split: if_splits bind_splits)

lemma add_terms_val:
  "add_terms ts us = Some ts' \<Longrightarrow> terms_val s ts' = terms_val s ts + terms_val s us"
  by (induction ts us arbitrary: ts' rule: add_terms.induct)
    (auto simp: add_term_val split: bind_splits)

lemma add_terms_distinct:
  "add_terms ts us = Some ts' \<Longrightarrow> distinct (map fst ts) \<Longrightarrow> distinct (map fst ts')"
  by (induction ts us arbitrary: ts' rule: add_terms.induct)
    (auto simp: add_term_keys split: bind_splits)

lemma add_terms_keys:
  "add_terms ts us = Some ts' \<Longrightarrow> set (map fst ts') = set (map fst ts) \<union> set (map fst us)"
  by (induction ts us arbitrary: ts' rule: add_terms.induct)
    (auto simp: add_term_keys simp flip: set_map split: bind_splits)

lemma map_terms_val:
  "map_terms f ts = Some ts' \<Longrightarrow> (\<And>c d. f c = Some d \<Longrightarrow> d = k * c) \<Longrightarrow>
     terms_val s ts' = k * terms_val s ts"
  by (induction f ts arbitrary: ts' rule: map_terms.induct)
    (auto simp: algebra_simps split: bind_splits)

lemma map_terms_keys: "map_terms f ts = Some ts' \<Longrightarrow> map fst ts' = map fst ts"
  by (induction f ts arbitrary: ts' rule: map_terms.induct) (auto split: bind_splits)

lemma linear_add_exact:
  assumes "linear_add a b = Some r"
  shows "linear_val s r = linear_val s a + linear_val s b" and "distinct_vars a \<Longrightarrow> distinct_vars r" and "no_zero r"
  using assms
  by (auto simp: linear_add_def linear_val_def terms_val_filter add_terms_val ichecked_add_def
      distinct_vars_def no_zero_def distinct_map_filter add_terms_distinct split: bind_splits)

lemma map_terms_neg:
  "map_terms (ichecked_neg 64) ts = Some ts' \<Longrightarrow> terms_val s ts' = - terms_val s ts"
  by (drule map_terms_val [where k = "- 1"]) (auto simp: ichecked_neg_def)

lemma linear_neg_exact:
  assumes "linear_neg a = Some r"
  shows "linear_val s r = - linear_val s a" and "distinct_vars a \<Longrightarrow> distinct_vars r"
  using assms
  by (auto simp: linear_neg_def linear_val_def map_terms_neg map_terms_keys distinct_vars_def
      ichecked_neg_def split: bind_splits)

lemma linear_sub_exact:
  assumes "linear_sub a b = Some r"
  shows "linear_val s r = linear_val s a - linear_val s b" and "distinct_vars a \<Longrightarrow> distinct_vars r" and "no_zero r"
proof -
  from assms obtain ts where t: "map_terms (ichecked_neg 64) (l_terms b) = Some ts"
    "linear_add a \<lparr>l_terms = ts, l_constant = - l_constant b\<rparr> = Some r"
    by (auto simp: linear_sub_def ichecked_neg_def split: bind_splits)
  from t(1) have "linear_val s \<lparr>l_terms = ts, l_constant = - l_constant b\<rparr> = - linear_val s b"
    by (simp add: linear_val_def map_terms_neg)
  with linear_add_exact [OF t(2)] show "linear_val s r = linear_val s a - linear_val s b"
    "distinct_vars a \<Longrightarrow> distinct_vars r" "no_zero r" by simp_all
qed

lemma linear_scale_exact:
  assumes "linear_scale a k = Some r"
  shows "linear_val s r = k * linear_val s a" and "distinct_vars a \<Longrightarrow> distinct_vars r"
proof -
  from assms obtain ts where t: "map_terms (\<lambda>c. ichecked_mul 64 c k) (l_terms a) = Some ts"
    "r = \<lparr>l_terms = ts, l_constant = l_constant a * k\<rparr>"
    by (auto simp: linear_scale_def ichecked_mul_def split: bind_splits)
  from map_terms_val [OF t(1), of k s] t(2) show "linear_val s r = k * linear_val s a"
    by (auto simp: linear_val_def ichecked_mul_def algebra_simps)
  from map_terms_keys [OF t(1)] t(2) show "distinct_vars a \<Longrightarrow> distinct_vars r"
    by (simp add: distinct_vars_def)
qed

lemma distinct_vars_base [simp]: "distinct_vars (linear_var v)" "distinct_vars (constant_only k)"
  by (simp_all add: distinct_vars_def linear_var_def constant_only_def)

end
