(* ===== verification/Telos_Solver.thy ===== *)
theory Telos_Solver
  imports Telos_Linear Exact_Rational "HOL-Library.Multiset"
begin

text \<open>
  The Fourier-Motzkin solver of the telos verifier (\<open>telos-verifier/src/solver.rs\<close>): refutation
  (\<open>telos_unsat\<close>), entailment, the search for an integer model and counterexamples.

  Coefficients are \<open>i128\<close> and the operators plain ones, so an overflow is a panic (\<open>None\<close>). A
  \<open>HashMap\<close> is iterated in an order the program cannot know; where the order can matter, the
  iteration goes through the parameter \<open>hash_order\<close>, which may return any permutation of
  the map, and the theorems hold for all of them.
\<close>

subsection \<open>Inequalities\<close>

type_synonym coeffs = "(string, int) hmap"

type_synonym hash_order = "coeffs \<Rightarrow> coeffs"

record lin_ineq =
  li_coeffs :: coeffs
  li_c :: int

text \<open>\<open>collect\<close> of an iterator into a \<open>HashMap\<close>: a later entry replaces an earlier one.\<close>

definition collect_map :: "(string \<times> int) list \<Rightarrow> coeffs" where
  "collect_map ts = foldl (\<lambda>m (v, c). hm_insert v c m) [] ts"

text \<open>Coefficients and constants are \<open>i64\<close> values cast to \<open>i128\<close> here, so nothing overflows.\<close>

definition neg_terms :: "(string \<times> int) list \<Rightarrow> coeffs" where
  "neg_terms terms = collect_map (map (\<lambda>(v, c). (v, - c)) terms)"

fun inequalities_of :: "constraint \<Rightarrow> lin_ineq list" where
  "inequalities_of (Constraint lin rel) =
     (let k = l_constant lin; base = collect_map (l_terms lin) in
      case rel of
        Le0 \<Rightarrow> [\<lparr>li_coeffs = base, li_c = - k\<rparr>]
      | Lt0 \<Rightarrow> [\<lparr>li_coeffs = base, li_c = - k - 1\<rparr>]
      | Ge0 \<Rightarrow> [\<lparr>li_coeffs = neg_terms (l_terms lin), li_c = k\<rparr>]
      | Gt0 \<Rightarrow> [\<lparr>li_coeffs = neg_terms (l_terms lin), li_c = k - 1\<rparr>]
      | Eq0 \<Rightarrow> [\<lparr>li_coeffs = base, li_c = - k\<rparr>, \<lparr>li_coeffs = neg_terms (l_terms lin), li_c = k\<rparr>]
      | Ne0 \<Rightarrow> [])"

definition to_inequalities :: "constraint list \<Rightarrow> lin_ineq list" where
  "to_inequalities cs = concat (map inequalities_of cs)"

definition remove_var :: "coeffs \<Rightarrow> string \<Rightarrow> coeffs" where
  "remove_var coeffs v = filter (\<lambda>(k, _). k \<noteq> v) coeffs"

definition merge_keys :: "coeffs \<Rightarrow> coeffs \<Rightarrow> string list" where
  "merge_keys a b = hm_keys a @ filter (\<lambda>k. k \<notin> set (hm_keys a)) (hm_keys b)"

definition coeff_or_zero :: "coeffs \<Rightarrow> string \<Rightarrow> int" where
  "coeff_or_zero m k = (case hm_get m k of None \<Rightarrow> 0 | Some c \<Rightarrow> c)"

text \<open>The loop that collects the variable names, in the order of the iterations.\<close>

definition add_name :: "string list \<Rightarrow> string \<times> int \<Rightarrow> string list" where
  "add_name vars kc = (if fst kc \<in> set vars then vars else vars @ [fst kc])"

definition ineq_vars :: "hash_order \<Rightarrow> lin_ineq list \<Rightarrow> string list" where
  "ineq_vars hash ineqs = foldl (\<lambda>vars i. foldl add_name vars (hash (li_coeffs i))) [] ineqs"

text \<open>The loop over the merged keys that builds a new coefficient map without zeros.\<close>

fun combine_coeffs :: "(int \<Rightarrow> int \<Rightarrow> int panics) \<Rightarrow> coeffs \<Rightarrow> coeffs \<Rightarrow> string list \<Rightarrow> coeffs \<Rightarrow> coeffs panics" where
  "combine_coeffs f uc lc [] acc = Some acc"
| "combine_coeffs f uc lc (k # keys) acc = do {
     coeff \<leftarrow> f (coeff_or_zero uc k) (coeff_or_zero lc k);
     combine_coeffs f uc lc keys (if coeff \<noteq> 0 then hm_insert k coeff acc else acc)
   }"

subsection \<open>Refutation\<close>

type_synonym ineq_bound = "int \<times> int \<times> coeffs"

fun neg_values :: "coeffs \<Rightarrow> coeffs panics" where
  "neg_values [] = Some []"
| "neg_values ((k, c) # m) = do { d \<leftarrow> ichecked_neg 128 c; m' \<leftarrow> neg_values m; Some ((k, d) # m') }"

fun split_unsat ::
    "string \<Rightarrow> lin_ineq list \<Rightarrow> ineq_bound list \<times> ineq_bound list \<times> lin_ineq list \<Rightarrow>
       (ineq_bound list \<times> ineq_bound list \<times> lin_ineq list) panics" where
  "split_unsat v [] acc = Some acc"
| "split_unsat v (ineq # ineqs) (uppers, lowers, rest) =
     (case hm_get (li_coeffs ineq) v of
        None \<Rightarrow> split_unsat v ineqs (uppers, lowers, rest @ [ineq])
      | Some tv \<Rightarrow>
          if tv > 0 then
            split_unsat v ineqs (uppers @ [(tv, li_c ineq, remove_var (li_coeffs ineq) v)], lowers, rest)
          else if tv < 0 then do {
            e \<leftarrow> ichecked_neg 128 tv;
            d \<leftarrow> ichecked_neg 128 (li_c ineq);
            m \<leftarrow> neg_values (remove_var (li_coeffs ineq) v);
            split_unsat v ineqs (uppers, lowers @ [(e, d, m)], rest)
          }
          else split_unsat v ineqs (uppers, lowers, rest @ [ineq]))"

text \<open>\<open>x * y - z * w\<close> with the checks of the plain operators.\<close>

definition cross_i128 :: "int \<Rightarrow> int \<Rightarrow> int \<Rightarrow> int \<Rightarrow> int panics" where
  "cross_i128 x y z w = do {
     p \<leftarrow> ichecked_mul 128 x y; q \<leftarrow> ichecked_mul 128 z w; ichecked_sub 128 p q }"

definition combine_unsat :: "ineq_bound \<Rightarrow> ineq_bound \<Rightarrow> lin_ineq panics" where
  "combine_unsat u l = (case u of (a, b, uc) \<Rightarrow> case l of (e, d, lc) \<Rightarrow> do {
     coeffs \<leftarrow> combine_coeffs (\<lambda>bi ei. cross_i128 e bi a ei) uc lc (merge_keys uc lc) [];
     c \<leftarrow> cross_i128 e b a d;
     Some \<lparr>li_coeffs = coeffs, li_c = c\<rparr>
   })"

text \<open>The two nested loops over the upper and the lower bounds.\<close>

fun combine_all ::
    "(ineq_bound \<Rightarrow> ineq_bound \<Rightarrow> lin_ineq panics) \<Rightarrow> (ineq_bound \<times> ineq_bound) list \<Rightarrow> lin_ineq list \<Rightarrow> lin_ineq list panics" where
  "combine_all comb [] out = Some out"
| "combine_all comb ((u, l) # pairs) out = do { i \<leftarrow> comb u l; combine_all comb pairs (out @ [i]) }"

definition eliminate_unsat :: "string \<Rightarrow> lin_ineq list \<Rightarrow> lin_ineq list panics" where
  "eliminate_unsat v ineqs = do {
     (uppers, lowers, rest) \<leftarrow> split_unsat v ineqs ([], [], []);
     combine_all combine_unsat (List.product uppers lowers) rest
   }"

fun eliminate_vars :: "string list \<Rightarrow> lin_ineq list \<Rightarrow> lin_ineq list panics" where
  "eliminate_vars [] ineqs = Some ineqs"
| "eliminate_vars (v # vars) ineqs = do { ineqs' \<leftarrow> eliminate_unsat v ineqs; eliminate_vars vars ineqs' }"

definition unsat_ineqs :: "hash_order \<Rightarrow> lin_ineq list \<Rightarrow> bool panics" where
  "unsat_ineqs hash ineqs = do {
     final \<leftarrow> eliminate_vars (ineq_vars hash ineqs) ineqs;
     Some (list_ex (\<lambda>i. li_coeffs i = [] \<and> li_c i < 0) final)
   }"

definition telos_unsat :: "hash_order \<Rightarrow> constraint list \<Rightarrow> bool panics" where
  "telos_unsat hash cs = unsat_ineqs hash (to_inequalities cs)"

fun telos_negate :: "constraint \<Rightarrow> constraint list list" where
  "telos_negate (Constraint lin rel) =
     (let branch = (\<lambda>r. [Constraint lin r]) in
      case rel of
        Eq0 \<Rightarrow> [branch Lt0, branch Gt0]
      | Ne0 \<Rightarrow> [branch Eq0]
      | Le0 \<Rightarrow> [branch Gt0]
      | Lt0 \<Rightarrow> [branch Ge0]
      | Ge0 \<Rightarrow> [branch Lt0]
      | Gt0 \<Rightarrow> [branch Le0])"

fun all_unsat :: "hash_order \<Rightarrow> constraint list \<Rightarrow> constraint list list \<Rightarrow> bool panics" where
  "all_unsat hash premises [] = Some True"
| "all_unsat hash premises (branch # branches) = do {
     u \<leftarrow> telos_unsat hash (premises @ branch);
     (if \<not> u then Some False else all_unsat hash premises branches)
   }"

definition telos_entails :: "hash_order \<Rightarrow> constraint list \<Rightarrow> constraint \<Rightarrow> bool panics" where
  "telos_entails hash premises concl = all_unsat hash premises (telos_negate concl)"

subsection \<open>Meaning of inequalities\<close>

text \<open>
  An inequality is read over the rationals; a state over the integers is one over the rationals.
\<close>

definition cval :: "(string \<Rightarrow> rat) \<Rightarrow> coeffs \<Rightarrow> rat" where
  "cval r m = (\<Sum>(k, c)\<leftarrow>m. of_int c * r k)"

definition ineq_sat :: "(string \<Rightarrow> rat) \<Rightarrow> lin_ineq \<Rightarrow> bool" where
  "ineq_sat r i \<longleftrightarrow> cval r (li_coeffs i) \<le> of_int (li_c i)"

definition nonzero_map :: "coeffs \<Rightarrow> bool" where
  "nonzero_map m \<longleftrightarrow> (\<forall>k. hm_get m k \<noteq> Some 0)"

definition ineqs_wf :: "string set \<Rightarrow> lin_ineq list \<Rightarrow> bool" where
  "ineqs_wf V ineqs \<longleftrightarrow> (\<forall>i \<in> set ineqs.
     hm_wf (li_coeffs i) \<and> nonzero_map (li_coeffs i) \<and> set (hm_keys (li_coeffs i)) \<subseteq> V)"

definition iter_order :: "hash_order \<Rightarrow> bool" where
  "iter_order hash \<longleftrightarrow> (\<forall>m. mset (hash m) = mset m)"

lemma cval_simps [simp]: "cval r [] = 0" "cval r ((k, c) # m) = of_int c * r k + cval r m"
  by (simp_all add: cval_def)

lemma coeff_or_zero_simps [simp]:
  "coeff_or_zero [] j = 0"
  "coeff_or_zero ((k, c) # m) j = (if j = k then c else coeff_or_zero m j)"
  by (simp_all add: coeff_or_zero_def hm_get_def)

lemma coeff_or_zero_insert: "hm_wf m \<Longrightarrow> coeff_or_zero (hm_insert k c m) j = (if j = k then c else coeff_or_zero m j)"
  by (simp add: coeff_or_zero_def)

lemma coeff_or_zero_absent: "k \<notin> set (hm_keys m) \<Longrightarrow> coeff_or_zero m k = 0"
  by (simp add: coeff_or_zero_def set_hm_keys hm_contains_def)

text \<open>The value of a map as a sum over any set of variables that contains its own.\<close>

lemma cval_sum:
  "hm_wf m \<Longrightarrow> finite S \<Longrightarrow> set (hm_keys m) \<subseteq> S \<Longrightarrow> cval r m = (\<Sum>k\<in>S. of_int (coeff_or_zero m k) * r k)"
proof (induction m)
  case Nil
  then show ?case by simp
next
  case (Cons kc m)
  obtain k c where kc: "kc = (k, c)" by (cases kc)
  from Cons.prems kc have m: "hm_wf m" "k \<notin> set (hm_keys m)" "set (hm_keys m) \<subseteq> S" "k \<in> S"
    by (auto simp: hm_wf_def hm_keys_def)
  have "(\<Sum>j\<in>S. of_int (coeff_or_zero (kc # m) j) * r j)
      = of_int c * r k + (\<Sum>j\<in>S - {k}. of_int (coeff_or_zero m j) * r j)"
    using m(4) Cons.prems(2) kc by (simp add: sum.remove [of S k])
  also have "(\<Sum>j\<in>S - {k}. of_int (coeff_or_zero m j) * r j) = (\<Sum>j\<in>S. of_int (coeff_or_zero m j) * r j)"
    using m(2,4) Cons.prems(2) by (simp add: sum.remove [of S k] coeff_or_zero_absent)
  also have "\<dots> = cval r m" using Cons.IH [OF m(1) Cons.prems(2) m(3)] by simp
  finally show ?case by (simp add: kc)
qed

lemma cval_update:
  "hm_wf m \<Longrightarrow> cval (r(v := x)) m = cval r (remove_var m v) + of_int (coeff_or_zero m v) * x"
proof (induction m)
  case Nil
  then show ?case by (simp add: remove_var_def)
next
  case (Cons kc m)
  obtain k c where kc: "kc = (k, c)" by (cases kc)
  from Cons.prems kc have m: "hm_wf m" "k \<notin> set (hm_keys m)" by (auto simp: hm_wf_def hm_keys_def)
  show ?case
    using Cons.IH [OF m(1)] m(2) coeff_or_zero_absent [of k m] by (auto simp: kc remove_var_def)
qed

lemma cval_cong: "(\<And>k. k \<in> set (hm_keys m) \<Longrightarrow> r k = q k) \<Longrightarrow> cval r m = cval q m"
  by (induction m) (auto simp: hm_keys_def)

lemma hm_keys_insert_subset: "set (hm_keys (hm_insert k c m)) \<subseteq> insert k (set (hm_keys m))"
  by (auto simp: hm_keys_def hm_insert_def update_conv' simp flip: dom_map_of_conv_image_fst split: if_splits)

lemma nonzero_insert: "hm_wf m \<Longrightarrow> nonzero_map m \<Longrightarrow> c \<noteq> 0 \<Longrightarrow> nonzero_map (hm_insert k c m)"
  by (simp add: nonzero_map_def)

lemma nonzero_Nil [simp]: "nonzero_map []"
  by (simp add: nonzero_map_def)

lemma combine_coeffs_spec:
  assumes f: "\<And>x y z. f x y = Some z \<Longrightarrow> z = p * x + q * y"
  shows "combine_coeffs f uc lc keys acc = Some m \<Longrightarrow> hm_wf acc \<Longrightarrow> nonzero_map acc \<Longrightarrow>
     distinct keys \<Longrightarrow> set keys \<inter> set (hm_keys acc) = {} \<Longrightarrow>
     hm_wf m \<and> nonzero_map m \<and> set (hm_keys m) \<subseteq> set keys \<union> set (hm_keys acc) \<and>
     (\<forall>k. coeff_or_zero m k =
        (if k \<in> set keys then p * coeff_or_zero uc k + q * coeff_or_zero lc k else coeff_or_zero acc k))"
proof (induction keys arbitrary: acc)
  case Nil
  then show ?case by simp
next
  case (Cons k keys)
  from Cons.prems(1) obtain z where z: "f (coeff_or_zero uc k) (coeff_or_zero lc k) = Some z"
    "combine_coeffs f uc lc keys (if z \<noteq> 0 then hm_insert k z acc else acc) = Some m"
    by (auto split: bind_splits)
  let ?acc = "if z \<noteq> 0 then hm_insert k z acc else acc"
  note zv = f [OF z(1)]
  have keys: "set (hm_keys ?acc) \<subseteq> insert k (set (hm_keys acc))"
    using hm_keys_insert_subset [of k z acc] by auto
  have a: "hm_wf ?acc" "nonzero_map ?acc" using Cons.prems(2,3) by (auto simp: nonzero_insert)
  have d: "distinct keys" "set keys \<inter> set (hm_keys ?acc) = {}"
    using Cons.prems(4,5) keys by auto
  have k0: "coeff_or_zero acc k = 0" using Cons.prems(5) by (simp add: coeff_or_zero_absent)
  from Cons.IH [OF z(2) a d] keys zv k0 Cons.prems(2,4) show ?case
    by (auto simp: coeff_or_zero_insert)
qed

lemma merge_keys_props:
  assumes "hm_wf a" and "hm_wf b"
  shows "distinct (merge_keys a b)" and "set (merge_keys a b) = set (hm_keys a) \<union> set (hm_keys b)"
  using assms by (auto simp: merge_keys_def hm_wf_def hm_keys_def)

lemma combine_merged:
  assumes "combine_coeffs f uc lc (merge_keys uc lc) [] = Some m" and "hm_wf uc" and "hm_wf lc"
    and "\<And>x y z. f x y = Some z \<Longrightarrow> z = p * x + q * y"
  shows "hm_wf m" and "nonzero_map m" and "set (hm_keys m) \<subseteq> set (hm_keys uc) \<union> set (hm_keys lc)"
    and "cval r m = of_int p * cval r uc + of_int q * cval r lc"
proof -
  let ?S = "set (hm_keys uc) \<union> set (hm_keys lc)"
  have k0: "set (merge_keys uc lc) \<inter> set (hm_keys []) = {}" by (simp add: hm_keys_def)
  from combine_coeffs_spec [OF assms(4,1) hm_wf_Nil nonzero_Nil merge_keys_props(1) [OF assms(2,3)] k0]
  have m: "hm_wf m" "nonzero_map m" "set (hm_keys m) \<subseteq> ?S"
    "\<And>k. k \<in> ?S \<Longrightarrow> coeff_or_zero m k = p * coeff_or_zero uc k + q * coeff_or_zero lc k"
    by (auto simp: merge_keys_props [OF assms(2,3)] hm_keys_def)
  show "hm_wf m" "nonzero_map m" "set (hm_keys m) \<subseteq> ?S" by (rule m)+
  have "cval r m = (\<Sum>k\<in>?S. of_int (coeff_or_zero m k) * r k)" by (rule cval_sum) (use m in auto)
  also have "\<dots> = (\<Sum>k\<in>?S. of_int p * (of_int (coeff_or_zero uc k) * r k)
      + of_int q * (of_int (coeff_or_zero lc k) * r k))"
    by (intro sum.cong refl) (simp add: m(4) algebra_simps)
  also have "\<dots> = of_int p * (\<Sum>k\<in>?S. of_int (coeff_or_zero uc k) * r k)
      + of_int q * (\<Sum>k\<in>?S. of_int (coeff_or_zero lc k) * r k)"
    by (simp add: sum.distrib sum_distrib_left)
  also have "\<dots> = of_int p * cval r uc + of_int q * cval r lc"
    using assms(2,3) by (simp add: cval_sum [where S = ?S])
  finally show "cval r m = of_int p * cval r uc + of_int q * cval r lc" .
qed

subsection \<open>A round of elimination is exact over the rationals\<close>

fun upper_sat :: "(string \<Rightarrow> rat) \<Rightarrow> string \<Rightarrow> ineq_bound \<Rightarrow> bool" where
  "upper_sat r v (a, b, m) \<longleftrightarrow> of_int a * r v + cval r m \<le> of_int b"

fun lower_sat :: "(string \<Rightarrow> rat) \<Rightarrow> string \<Rightarrow> ineq_bound \<Rightarrow> bool" where
  "lower_sat r v (e, d, m) \<longleftrightarrow> of_int d \<le> of_int e * r v + cval r m"

fun bound_wf :: "string set \<Rightarrow> ineq_bound \<Rightarrow> bool" where
  "bound_wf V (a, b, m) \<longleftrightarrow> 0 < a \<and> hm_wf m \<and> set (hm_keys m) \<subseteq> V"

lemma cval_split: "hm_wf m \<Longrightarrow> hm_get m v = Some t \<Longrightarrow> cval r m = of_int t * r v + cval r (remove_var m v)"
  using cval_update [of m r v "r v"] by (simp add: coeff_or_zero_def)

lemma remove_var_props:
  assumes "hm_wf m"
  shows "hm_wf (remove_var m v)" and "set (hm_keys (remove_var m v)) = set (hm_keys m) - {v}"
  using assms by (auto simp: hm_wf_def hm_keys_def remove_var_def distinct_map_filter)

lemma neg_values_props:
  "neg_values m = Some m' \<Longrightarrow> cval r m' = - cval r m \<and> hm_keys m' = hm_keys m"
  by (induction m arbitrary: m' rule: neg_values.induct)
    (auto simp: hm_keys_def ichecked_neg_def split: bind_splits)

lemma hm_wf_keys_cong: "hm_keys m = hm_keys m' \<Longrightarrow> hm_wf m \<longleftrightarrow> hm_wf m'"
  by (simp add: hm_wf_def hm_keys_def)

lemma ineqs_wf_Cons [simp]:
  "ineqs_wf V [] " "ineqs_wf V (i # is) \<longleftrightarrow> hm_wf (li_coeffs i) \<and> nonzero_map (li_coeffs i) \<and>
     set (hm_keys (li_coeffs i)) \<subseteq> V \<and> ineqs_wf V is"
  "ineqs_wf V (is @ js) \<longleftrightarrow> ineqs_wf V is \<and> ineqs_wf V js"
  by (auto simp: ineqs_wf_def)

text \<open>What a split loses nothing of: the bounds and the rest are together equivalent to the system.\<close>

definition split_inv ::
    "string set \<Rightarrow> string \<Rightarrow> ineq_bound list \<times> ineq_bound list \<times> lin_ineq list \<Rightarrow> bool" where
  "split_inv V v acc = (case acc of (U, L, R) \<Rightarrow>
     list_all (bound_wf (V - {v})) U \<and> list_all (bound_wf (V - {v})) L \<and> ineqs_wf (V - {v}) R)"

definition split_sat ::
    "(string \<Rightarrow> rat) \<Rightarrow> string \<Rightarrow> ineq_bound list \<times> ineq_bound list \<times> lin_ineq list \<Rightarrow> bool" where
  "split_sat r v acc = (case acc of (U, L, R) \<Rightarrow>
     list_all (upper_sat r v) U \<and> list_all (lower_sat r v) L \<and> list_all (ineq_sat r) R)"

lemma split_step_upper:
  assumes "hm_wf (li_coeffs i)" and "hm_get (li_coeffs i) v = Some t"
  shows "upper_sat r v (t, li_c i, remove_var (li_coeffs i) v) \<longleftrightarrow> ineq_sat r i"
  using cval_split [OF assms, of r] by (simp add: ineq_sat_def)

lemma split_step_lower:
  assumes "hm_wf (li_coeffs i)" and "hm_get (li_coeffs i) v = Some t"
    and "neg_values (remove_var (li_coeffs i) v) = Some m"
  shows "lower_sat r v (- t, - li_c i, m) \<longleftrightarrow> ineq_sat r i"
  using cval_split [OF assms(1,2), of r] neg_values_props [OF assms(3), of r] by (auto simp: ineq_sat_def)

lemma split_unsat_spec:
  "split_unsat v ineqs acc = Some out \<Longrightarrow> ineqs_wf V ineqs \<Longrightarrow> split_inv V v acc \<Longrightarrow>
     split_inv V v out \<and> (\<forall>r. split_sat r v out \<longleftrightarrow> split_sat r v acc \<and> list_all (ineq_sat r) ineqs)"
proof (induction v ineqs acc arbitrary: out rule: split_unsat.induct)
  case (1 v acc)
  then show ?case by simp
next
  case (2 v i ineqs U L R)
  let ?m = "li_coeffs i"
  from "2.prems"(2) have i: "hm_wf ?m" "nonzero_map ?m" "set (hm_keys ?m) \<subseteq> V" and w: "ineqs_wf V ineqs"
    by simp_all
  have rv: "hm_wf (remove_var ?m v)" "set (hm_keys (remove_var ?m v)) \<subseteq> V - {v}"
    using remove_var_props [OF i(1)] i(3) by auto
  show ?case
  proof (cases "hm_get ?m v")
    case None
    then have "v \<notin> set (hm_keys ?m)" by (simp add: set_hm_keys hm_contains_def)
    with "2.prems"(3) i have inv: "split_inv V v (U, L, R @ [i])" by (auto simp: split_inv_def)
    from "2.IH"(1) [OF None _ w inv] "2.prems"(1) None show ?thesis
      by (auto simp: split_sat_def)
  next
    case (Some t)
    with i(2) have t0: "t \<noteq> 0" by (auto simp: nonzero_map_def)
    show ?thesis
    proof (cases "t > 0")
      case True
      let ?u = "(t, li_c i, remove_var ?m v)"
      from "2.prems"(3) rv True have inv: "split_inv V v (U @ [?u], L, R)" by (auto simp: split_inv_def)
      from "2.IH"(2) [OF Some True _ w inv] "2.prems"(1) Some True split_step_upper [OF i(1) Some]
      show ?thesis by (auto simp: split_sat_def)
    next
      case False
      with t0 have neg: "t < 0" by simp
      from "2.prems"(1) Some False neg obtain m where m: "neg_values (remove_var ?m v) = Some m"
        and n: "ichecked_neg 128 t = Some (- t)" "ichecked_neg 128 (li_c i) = Some (- li_c i)"
        and s: "split_unsat v ineqs (U, L @ [(- t, - li_c i, m)], R) = Some out"
        by (auto simp: ichecked_neg_def split: bind_splits)
      from neg_values_props [OF m] rv have "hm_wf m" "set (hm_keys m) \<subseteq> V - {v}"
        using hm_wf_keys_cong by auto
      with "2.prems"(3) neg have inv: "split_inv V v (U, L @ [(- t, - li_c i, m)], R)"
        by (auto simp: split_inv_def)
      from "2.IH"(3) [OF Some False neg n m s w inv] split_step_lower [OF i(1) Some m]
      show ?thesis by (auto simp: split_sat_def)
    qed
  qed
qed

lemma cross_i128_exact: "cross_i128 x y z w = Some t \<Longrightarrow> t = x * y - z * w"
  by (auto simp: cross_i128_def ichecked_mul_def ichecked_sub_def split: bind_splits)

lemma combine_all_set:
  "combine_all comb pairs out = Some res \<Longrightarrow>
     set res = set out \<union> {i. \<exists>(u, l) \<in> set pairs. comb u l = Some i} \<and>
     (\<forall>(u, l) \<in> set pairs. comb u l \<noteq> None)"
  by (induction comb pairs out arbitrary: res rule: combine_all.induct) (auto split: bind_splits)

text \<open>The combination of an upper and a lower bound says that the interval between them is not empty.\<close>

definition gap_sat :: "(string \<Rightarrow> rat) \<Rightarrow> ineq_bound \<Rightarrow> ineq_bound \<Rightarrow> bool" where
  "gap_sat r u l = (case u of (a, b, uc) \<Rightarrow> case l of (e, d, lc) \<Rightarrow>
     (of_int d - cval r lc) / of_int e \<le> (of_int b - cval r uc) / of_int a)"

lemma gap_cross:
  fixes e a :: int and U L b d :: rat
  assumes "0 < e" and "0 < a"
  shows "of_int e * U - of_int a * L \<le> of_int e * b - of_int a * d \<longleftrightarrow> (d - L) / of_int e \<le> (b - U) / of_int a"
  using assms by (auto simp: field_simps)

lemma combine_unsat_spec:
  assumes "combine_unsat u l = Some i" and "bound_wf V u" and "bound_wf V l"
  shows "ineqs_wf V [i]" and "ineq_sat r i \<longleftrightarrow> gap_sat r u l"
proof -
  obtain a b uc e d lc where ul: "u = (a, b, uc)" "l = (e, d, lc)" by (cases u; cases l) auto
  from assms(1) ul obtain m c where m: "combine_coeffs (\<lambda>bi ei. cross_i128 e bi a ei) uc lc (merge_keys uc lc) [] = Some m"
    and c: "cross_i128 e b a d = Some c" and i: "i = \<lparr>li_coeffs = m, li_c = c\<rparr>"
    by (auto simp: combine_unsat_def split: bind_splits)
  have f: "z = e * x + (- a) * y" if "cross_i128 e x a y = Some z" for x y z
    using cross_i128_exact [OF that] by simp
  note w = assms(2,3) [unfolded ul bound_wf.simps]
  have wu: "hm_wf uc" and wl: "hm_wf lc" using w by auto
  note cm = combine_merged [OF m wu wl f]
  from cm(1-3) w show "ineqs_wf V [i]" unfolding i by auto
  have "ineq_sat r i \<longleftrightarrow> of_int e * cval r uc - of_int a * cval r lc \<le> of_int e * of_int b - of_int a * of_int d"
    using cm(4) [of r] cross_i128_exact [OF c] by (simp add: ineq_sat_def i)
  also have "\<dots> \<longleftrightarrow> gap_sat r u l"
    using gap_cross [of e a "cval r uc" "cval r lc" "of_int b" "of_int d"] w by (simp add: gap_sat_def ul)
  finally show "ineq_sat r i \<longleftrightarrow> gap_sat r u l" .
qed

text \<open>Rationals of which every lower bound is below every upper bound leave room for a value.\<close>

lemma between_lists:
  fixes ls us :: "rat list"
  assumes "\<And>l u. l \<in> set ls \<Longrightarrow> u \<in> set us \<Longrightarrow> l \<le> u"
  obtains x where "\<And>l. l \<in> set ls \<Longrightarrow> l \<le> x" and "\<And>u. u \<in> set us \<Longrightarrow> x \<le> u"
proof (cases "ls = []")
  case False
  show ?thesis
    by (rule that [of "Max (set ls)"]) (use False assms in auto)
next
  case True
  show ?thesis
  proof (cases "us = []")
    case False
    show ?thesis by (rule that [of "Min (set us)"]) (use True False in auto)
  qed (use True that [of 0] in simp)
qed

lemma upper_sat_fun_upd:
  assumes "bound_wf V u" and "v \<notin> V"
  shows "upper_sat (r(v := x)) v u \<longleftrightarrow> x \<le> (case u of (a, b, m) \<Rightarrow> (of_int b - cval r m) / of_int a)"
    and "lower_sat (r(v := x)) v u \<longleftrightarrow> (case u of (e, d, m) \<Rightarrow> (of_int d - cval r m) / of_int e) \<le> x"
proof -
  obtain a b m where u: "u = (a, b, m)" by (cases u) auto
  from assms u have "cval (r(v := x)) m = cval r m" by (intro cval_cong) auto
  with assms u show "upper_sat (r(v := x)) v u \<longleftrightarrow> x \<le> (case u of (a, b, m) \<Rightarrow> (of_int b - cval r m) / of_int a)"
    and "lower_sat (r(v := x)) v u \<longleftrightarrow> (case u of (e, d, m) \<Rightarrow> (of_int d - cval r m) / of_int e) \<le> x"
    by (auto simp: field_simps)
qed

lemma ineq_sat_fun_upd:
  assumes "ineqs_wf V is" and "v \<notin> V"
  shows "list_all (ineq_sat (r(v := x))) is \<longleftrightarrow> list_all (ineq_sat r) is"
proof -
  have "cval (r(v := x)) (li_coeffs i) = cval r (li_coeffs i)" if "i \<in> set is" for i
    using that assms by (intro cval_cong) (auto simp: ineqs_wf_def)
  then show ?thesis by (auto simp: list_all_iff ineq_sat_def)
qed

lemma split_sat_exists:
  assumes inv: "split_inv V v (U, L, R)"
  shows "(\<exists>x. split_sat (r(v := x)) v (U, L, R)) \<longleftrightarrow>
     list_all (ineq_sat r) R \<and> (\<forall>u \<in> set U. \<forall>l \<in> set L. gap_sat r u l)" (is "?lhs \<longleftrightarrow> ?rhs")
proof -
  define up where "up = (\<lambda>(a, b, m). (of_int b - cval r m) / of_int a :: rat)"
  define lo where "lo = (\<lambda>(e, d, m). (of_int d - cval r m) / of_int e :: rat)"
  have nv: "v \<notin> V - {v}" by simp
  have sat: "split_sat (r(v := x)) v (U, L, R) \<longleftrightarrow>
      (\<forall>u \<in> set U. x \<le> up u) \<and> (\<forall>l \<in> set L. lo l \<le> x) \<and> list_all (ineq_sat r) R" for x
    using inv upper_sat_fun_upd [OF _ nv] ineq_sat_fun_upd [OF _ nv]
    by (auto simp: split_sat_def split_inv_def list_all_iff up_def lo_def)
  have gap: "gap_sat r u l \<longleftrightarrow> lo l \<le> up u" for u l
    by (simp add: gap_sat_def up_def lo_def split: prod.split)
  show ?thesis
  proof
    assume ?lhs
    then show ?rhs using sat gap by (auto intro: order.trans)
  next
    assume rhs: ?rhs
    then have "\<And>l u. l \<in> set (map lo L) \<Longrightarrow> u \<in> set (map up U) \<Longrightarrow> l \<le> u" using gap by auto
    then obtain x where "\<And>l. l \<in> set (map lo L) \<Longrightarrow> l \<le> x" "\<And>u. u \<in> set (map up U) \<Longrightarrow> x \<le> u"
      using between_lists [of "map lo L" "map up U"] by metis
    with rhs sat [of x] show ?lhs by auto
  qed
qed

lemma eliminate_unsat_exact:
  assumes "eliminate_unsat v ineqs = Some out" and "ineqs_wf V ineqs"
  shows "ineqs_wf (V - {v}) out"
    and "list_all (ineq_sat r) out \<longleftrightarrow> (\<exists>x. list_all (ineq_sat (r(v := x))) ineqs)"
proof -
  from assms(1) obtain U L R where s: "split_unsat v ineqs ([], [], []) = Some (U, L, R)"
    and c: "combine_all combine_unsat (List.product U L) R = Some out"
    by (auto simp: eliminate_unsat_def split: bind_splits)
  from split_unsat_spec [OF s assms(2)] have inv: "split_inv V v (U, L, R)"
    and sat: "\<And>r. split_sat r v (U, L, R) \<longleftrightarrow> list_all (ineq_sat r) ineqs"
    by (auto simp: split_inv_def split_sat_def)
  note out = combine_all_set [OF c]
  have w: "bound_wf (V - {v}) u" "bound_wf (V - {v}) l" if "u \<in> set U" "l \<in> set L" for u l
    using inv that by (auto simp: split_inv_def list_all_iff)
  have "\<forall>i \<in> set out. ineqs_wf (V - {v}) [i]"
    using out inv combine_unsat_spec(1) [OF _ w] by (fastforce simp: split_inv_def ineqs_wf_def)
  then show "ineqs_wf (V - {v}) out" by (auto simp: ineqs_wf_def)
  have "list_all (ineq_sat r) out \<longleftrightarrow>
      list_all (ineq_sat r) R \<and> (\<forall>u \<in> set U. \<forall>l \<in> set L. gap_sat r u l)"
    using out combine_unsat_spec(2) [OF _ w] by (fastforce simp: list_all_iff)
  then show "list_all (ineq_sat r) out \<longleftrightarrow> (\<exists>x. list_all (ineq_sat (r(v := x))) ineqs)"
    using split_sat_exists [OF inv] sat by simp
qed

subsection \<open>The refutation decides satisfiability over the rationals\<close>

lemma foldl_add_name: "set (foldl add_name vars m) = set vars \<union> fst ` set m"
  by (induction m arbitrary: vars) (auto simp: add_name_def)

lemma set_ineq_vars:
  assumes "iter_order hash"
  shows "set (ineq_vars hash ineqs) = (\<Union>i \<in> set ineqs. set (hm_keys (li_coeffs i)))"
proof -
  have h: "set (hash m) = set m" for m using assms unfolding iter_order_def by (metis set_mset_mset)
  have "set (foldl (\<lambda>vars i. foldl add_name vars (hash (li_coeffs i))) vs is)
      = set vs \<union> (\<Union>i \<in> set is. set (hm_keys (li_coeffs i)))" for vs "is"
    by (induction "is" arbitrary: vs) (auto simp: foldl_add_name h hm_keys_def)
  from this [of "[]" ineqs] show ?thesis by (simp add: ineq_vars_def)
qed

lemma eliminate_vars_exact:
  "eliminate_vars vars ineqs = Some out \<Longrightarrow> ineqs_wf V ineqs \<Longrightarrow>
     ineqs_wf (V - set vars) out \<and>
     ((\<exists>r. list_all (ineq_sat r) out) \<longleftrightarrow> (\<exists>r. list_all (ineq_sat r) ineqs))"
proof (induction vars arbitrary: ineqs V)
  case Nil
  then show ?case by simp
next
  case (Cons v vars)
  from Cons.prems(1) obtain mid where m: "eliminate_unsat v ineqs = Some mid" "eliminate_vars vars mid = Some out"
    by (auto split: bind_splits)
  note e = eliminate_unsat_exact [OF m(1) Cons.prems(2)]
  have "(\<exists>r. list_all (ineq_sat r) mid) \<longleftrightarrow> (\<exists>r. list_all (ineq_sat r) ineqs)"
  proof
    assume "\<exists>r. list_all (ineq_sat r) mid"
    then show "\<exists>r. list_all (ineq_sat r) ineqs" unfolding e(2) by blast
  next
    assume "\<exists>r. list_all (ineq_sat r) ineqs"
    then obtain r where "list_all (ineq_sat r) ineqs" by blast
    then have "list_all (ineq_sat (r(v := r v))) ineqs" by simp
    then show "\<exists>r. list_all (ineq_sat r) mid" unfolding e(2) by blast
  qed
  moreover have "V - set (v # vars) = V - {v} - set vars" by auto
  ultimately show ?case using Cons.IH [OF m(2) e(1)] by metis
qed

definition system_wf :: "lin_ineq list \<Rightarrow> bool" where
  "system_wf ineqs \<longleftrightarrow> ineqs_wf UNIV ineqs"

lemma unsat_ineqs_decides:
  assumes "unsat_ineqs hash ineqs = Some b" and "iter_order hash" and "system_wf ineqs"
  shows "b \<longleftrightarrow> \<not> (\<exists>r. list_all (ineq_sat r) ineqs)"
proof -
  from assms(1) obtain out where out: "eliminate_vars (ineq_vars hash ineqs) ineqs = Some out"
    and b: "b \<longleftrightarrow> list_ex (\<lambda>i. li_coeffs i = [] \<and> li_c i < 0) out"
    by (auto simp: unsat_ineqs_def split: bind_splits)
  have "ineqs_wf (set (ineq_vars hash ineqs)) ineqs"
    using assms(2,3) by (auto simp: system_wf_def ineqs_wf_def set_ineq_vars)
  from eliminate_vars_exact [OF out this] have "ineqs_wf {} out"
    and e: "(\<exists>r. list_all (ineq_sat r) out) \<longleftrightarrow> (\<exists>r. list_all (ineq_sat r) ineqs)" by simp_all
  then have nil: "li_coeffs i = []" if "i \<in> set out" for i
    using that by (auto simp: ineqs_wf_def hm_keys_def)
  then have "list_all (ineq_sat r) out \<longleftrightarrow> (\<forall>i \<in> set out. 0 \<le> li_c i)" for r
    by (auto simp: list_all_iff ineq_sat_def)
  with e b nil show ?thesis by (auto simp: list_ex_iff not_less)
qed

subsection \<open>Constraints and their inequalities\<close>

lemma foldl_hm_insert_fresh:
  "distinct (map fst ts) \<Longrightarrow> set (map fst ts) \<inter> set (map fst acc) = {} \<Longrightarrow>
     foldl (\<lambda>m (v, c). hm_insert v c m) acc ts = acc @ ts"
proof (induction ts arbitrary: acc)
  case Nil
  then show ?case by simp
next
  case (Cons t ts)
  obtain v c where t: "t = (v, c)" by (cases t)
  from Cons.prems t have "v \<notin> fst ` set acc" by auto
  then have "hm_insert v c acc = acc @ [(v, c)]" unfolding hm_insert_def by (induction acc) auto
  with Cons t show ?case by auto
qed

lemma collect_map_distinct: "distinct (map fst ts) \<Longrightarrow> collect_map ts = ts"
  by (simp add: collect_map_def foldl_hm_insert_fresh)

lemma neg_terms_distinct: "distinct (map fst ts) \<Longrightarrow> neg_terms ts = map (\<lambda>(v, c). (v, - c)) ts"
  by (simp add: neg_terms_def collect_map_distinct o_def split_beta)

definition rat_state :: "valuation \<Rightarrow> string \<Rightarrow> rat" where
  "rat_state s = (\<lambda>v. of_int (s v))"

lemma cval_terms: "cval (rat_state s) ts = of_int (terms_val s ts)"
  by (induction ts) (auto simp: rat_state_def)

lemma terms_val_neg: "terms_val s (map (\<lambda>(v, c). (v, - c)) ts) = - terms_val s ts"
  by (induction ts) auto

lemma nonzero_map_distinct:
  "distinct (map fst m) \<Longrightarrow> nonzero_map m \<longleftrightarrow> (\<forall>(v, c) \<in> set m. c \<noteq> 0)"
  by (auto simp: nonzero_map_def hm_get_def)

lemma inequalities_of_wf:
  assumes "wf_constraint c"
  shows "ineqs_wf UNIV (inequalities_of c)"
proof -
  obtain l r where c: "c = Constraint l r" by (cases c)
  from assms c have d: "distinct (map fst (l_terms l))" and n: "\<forall>(v, k) \<in> set (l_terms l). k \<noteq> 0"
    by (auto simp: distinct_vars_def no_zero_def)
  have k: "map fst (map (\<lambda>(v, c). (v, - c)) (l_terms l)) = map fst (l_terms l)" by auto
  have "hm_wf (l_terms l)" "hm_wf (map (\<lambda>(v, c). (v, - c)) (l_terms l))"
    "nonzero_map (l_terms l)" "nonzero_map (map (\<lambda>(v, c). (v, - c)) (l_terms l))"
    using d n k by (auto simp: hm_wf_def nonzero_map_distinct simp del: map_map)
  then show ?thesis
    using d by (cases r) (auto simp: c Let_def collect_map_distinct neg_terms_distinct)
qed

lemma inequalities_of_sat:
  assumes "wf_constraint (Constraint l r)"
  shows "list_all (ineq_sat (rat_state s)) (inequalities_of (Constraint l r)) \<longleftrightarrow>
     r = Ne0 \<or> c_holds s (Constraint l r)"
proof -
  from assms have d: "distinct (map fst (l_terms l))" by (simp add: distinct_vars_def)
  have le: "(of_int x \<le> (- of_int k :: rat)) \<longleftrightarrow> x + k \<le> 0" for x k :: int
    using of_int_le_iff [of x "- k", where 'a = rat] by simp linarith
  have lt: "(of_int x \<le> (- of_int k - 1 :: rat)) \<longleftrightarrow> x + k < 0" for x k :: int
    using of_int_le_iff [of x "- k - 1", where 'a = rat] by simp linarith
  have ge: "(- of_int x \<le> (of_int k :: rat)) \<longleftrightarrow> 0 \<le> x + k" for x k :: int
    using of_int_le_iff [of "- x" k, where 'a = rat] by simp linarith
  have gt: "(- of_int x \<le> (of_int k - 1 :: rat)) \<longleftrightarrow> 0 < x + k" for x k :: int
    using of_int_le_iff [of "- x" "k - 1", where 'a = rat] by simp linarith
  show ?thesis
    using d by (cases r)
      (auto simp: Let_def ineq_sat_def collect_map_distinct neg_terms_distinct cval_terms terms_val_neg
        linear_val_def le lt ge gt)
qed

lemma to_inequalities_wf: "list_all wf_constraint cs \<Longrightarrow> system_wf (to_inequalities cs)"
  by (induction cs) (auto simp: to_inequalities_def system_wf_def inequalities_of_wf)

fun is_ne :: "constraint \<Rightarrow> bool" where
  "is_ne (Constraint l r) \<longleftrightarrow> r = Ne0"

lemma to_inequalities_sat:
  "list_all wf_constraint cs \<Longrightarrow>
     list_all (ineq_sat (rat_state s)) (to_inequalities cs) \<longleftrightarrow> (\<forall>c \<in> set cs. is_ne c \<or> c_holds s c)"
proof (induction cs)
  case Nil
  then show ?case by (simp add: to_inequalities_def)
next
  case (Cons c cs)
  then show ?case
    by (cases c) (simp add: to_inequalities_def inequalities_of_sat del: inequalities_of.simps c_holds.simps)
qed

lemma telos_unsat_sound:
  assumes "telos_unsat hash cs = Some True" and "iter_order hash" and "list_all wf_constraint cs"
  shows "\<exists>c \<in> set cs. \<not> c_holds s c"
  using unsat_ineqs_decides [OF assms(1) [unfolded telos_unsat_def] assms(2) to_inequalities_wf [OF assms(3)]]
    to_inequalities_sat [OF assms(3), of s] by auto

lemma negate_covers: "\<not> c_holds s c \<Longrightarrow> \<exists>b \<in> set (telos_negate c). \<forall>d \<in> set b. c_holds s d"
  by (cases c; cases "case c of Constraint l r \<Rightarrow> r") auto

lemma negate_wf: "wf_constraint c \<Longrightarrow> b \<in> set (telos_negate c) \<Longrightarrow> list_all wf_constraint b"
  by (cases c; cases "case c of Constraint l r \<Rightarrow> r") auto

lemma all_unsat_True:
  "all_unsat hash ps bs = Some True \<Longrightarrow> b \<in> set bs \<Longrightarrow> telos_unsat hash (ps @ b) = Some True"
  by (induction hash ps bs rule: all_unsat.induct) (auto split: bind_splits if_splits)

lemma telos_entails_sound:
  assumes "telos_entails hash ps c = Some True" and "iter_order hash" and "list_all wf_constraint ps"
    and "wf_constraint c" and "\<forall>p \<in> set ps. c_holds s p"
  shows "c_holds s c"
proof (rule ccontr)
  assume "\<not> c_holds s c"
  then obtain b where b: "b \<in> set (telos_negate c)" "\<forall>d \<in> set b. c_holds s d"
    using negate_covers by blast
  have "telos_unsat hash (ps @ b) = Some True"
    using assms(1) b(1) by (simp add: telos_entails_def all_unsat_True)
  moreover have "list_all wf_constraint (ps @ b)" using assms(3) negate_wf [OF assms(4) b(1)] by simp
  ultimately have "\<exists>d \<in> set (ps @ b). \<not> c_holds s d" using assms(2) by (intro telos_unsat_sound)
  with b(2) assms(5) show False by auto
qed

end
