(* ===== verification/Telos_Model.thy ===== *)
theory Telos_Model
  imports Telos_Solver
begin

text \<open>
  The search for an integer model and for counterexamples of the telos solver
  (\<open>telos-verifier/src/solver.rs\<close>).

  \<open>solve_model\<close> eliminates the first variable, solves the rest by recursion and recovers a value for
  the variable from its bounds. Its result has three layers: the outer \<open>None\<close> is a
  recursion that does not end, the next \<open>None\<close> a panic (an overflow of \<open>i128\<close>), the innermost one
  the solver's own answer that it found no model. The lemmas show that the recursion ends on
  systems without zero coefficients, and that a model found for a system that bounds every
  variable by \<open>i64\<close> values satisfies it.
\<close>

subsection \<open>Fractions\<close>

record frac =
  fr_num :: int
  fr_den :: int

definition as_u128 :: "int \<Rightarrow> nat" where
  "as_u128 x = nat (x mod 2 ^ 128)"

definition frac_new :: "int \<Rightarrow> int \<Rightarrow> frac panics" where
  "frac_new num den =
     (if den = 0 then None
      else do {
        (n, d) \<leftarrow> (if den < 0 then do { n \<leftarrow> ichecked_neg 128 num; d \<leftarrow> ichecked_neg 128 den; Some (n, d) }
                   else Some (num, den));
        let g = as_i128 (gcd_loop (unsigned_abs n) (as_u128 d)) in
        Some (if g = 0 then \<lparr>fr_num = n, fr_den = d\<rparr> else \<lparr>fr_num = n sdiv g, fr_den = d sdiv g\<rparr>)
      })"

definition div_euclid :: "int \<Rightarrow> int \<Rightarrow> int panics" where
  "div_euclid a b = (if b = 0 then None else ichecked 128 (if 0 < b then a div b else - (a div (- b))))"

definition rem_euclid :: "int \<Rightarrow> int \<Rightarrow> int panics" where
  "rem_euclid a b = (if b = 0 then None else do { _ \<leftarrow> div_euclid a b; Some (a mod \<bar>b\<bar>) })"

definition frac_ceil :: "frac \<Rightarrow> int panics" where
  "frac_ceil f = do {
     q \<leftarrow> div_euclid (fr_num f) (fr_den f);
     r \<leftarrow> rem_euclid (fr_num f) (fr_den f);
     (if r = 0 then Some q else ichecked_add 128 q 1)
   }"

definition frac_floor :: "frac \<Rightarrow> int panics" where
  "frac_floor f = div_euclid (fr_num f) (fr_den f)"

subsection \<open>The search\<close>

type_synonym tmodel = "(string, int) hmap"

fun sum_products :: "tmodel \<Rightarrow> coeffs \<Rightarrow> int \<Rightarrow> int panics" where
  "sum_products m [] acc = Some acc"
| "sum_products m ((v, c) # cs) acc = do {
     p \<leftarrow> ichecked_mul 128 c (coeff_or_zero m v);
     acc' \<leftarrow> ichecked_add 128 acc p;
     sum_products m cs acc'
   }"

definition eval_map :: "hash_order \<Rightarrow> coeffs \<Rightarrow> tmodel \<Rightarrow> int panics" where
  "eval_map hash coeffs m = sum_products m (hash coeffs) 0"

fun split_model ::
    "string \<Rightarrow> lin_ineq list \<Rightarrow> ineq_bound list \<times> ineq_bound list \<times> lin_ineq list \<Rightarrow>
       ineq_bound list \<times> ineq_bound list \<times> lin_ineq list" where
  "split_model v [] acc = acc"
| "split_model v (ineq # ineqs) (uppers, lowers, rest) =
     (case hm_get (li_coeffs ineq) v of
        None \<Rightarrow> split_model v ineqs (uppers, lowers, rest @ [ineq])
      | Some tv \<Rightarrow>
          let others = remove_var (li_coeffs ineq) v in
          if tv > 0 then split_model v ineqs (uppers @ [(tv, li_c ineq, others)], lowers, rest)
          else if tv < 0 then split_model v ineqs (uppers, lowers @ [(tv, li_c ineq, others)], rest)
          else split_model v ineqs (uppers, lowers, rest @ [ineq]))"

definition combine_model :: "ineq_bound \<Rightarrow> ineq_bound \<Rightarrow> lin_ineq panics" where
  "combine_model u l = (case u of (a, cu, uc) \<Rightarrow> case l of (b, c2, lc) \<Rightarrow> do {
     coeffs \<leftarrow> combine_coeffs (\<lambda>bi ei. cross_i128 a ei b bi) uc lc (merge_keys uc lc) [];
     c \<leftarrow> cross_i128 a c2 b cu;
     Some \<lparr>li_coeffs = coeffs, li_c = c\<rparr>
   })"

text \<open>The larger of two lower bounds, the smaller of two upper bounds; the newer one on a tie.\<close>

definition frac_max :: "frac \<Rightarrow> frac option \<Rightarrow> frac panics" where
  "frac_max f low = (case low of None \<Rightarrow> Some f
     | Some x \<Rightarrow> do {
         p \<leftarrow> ichecked_mul 128 (fr_num f) (fr_den x);
         q \<leftarrow> ichecked_mul 128 (fr_num x) (fr_den f);
         Some (if p \<ge> q then f else x)
       })"

definition frac_min :: "frac \<Rightarrow> frac option \<Rightarrow> frac panics" where
  "frac_min f high = (case high of None \<Rightarrow> Some f
     | Some x \<Rightarrow> do {
         p \<leftarrow> ichecked_mul 128 (fr_num f) (fr_den x);
         q \<leftarrow> ichecked_mul 128 (fr_num x) (fr_den f);
         Some (if p \<le> q then f else x)
       })"

fun best_low :: "hash_order \<Rightarrow> tmodel \<Rightarrow> ineq_bound list \<Rightarrow> frac option \<Rightarrow> frac option panics" where
  "best_low hash m [] low = Some low"
| "best_low hash m ((b, c2, lc) # lowers) low = do {
     lc_val \<leftarrow> eval_map hash lc m;
     num \<leftarrow> ichecked_sub 128 lc_val c2;
     den \<leftarrow> ichecked_neg 128 b;
     f \<leftarrow> frac_new num den;
     low' \<leftarrow> frac_max f low;
     best_low hash m lowers (Some low')
   }"

fun best_high :: "hash_order \<Rightarrow> tmodel \<Rightarrow> ineq_bound list \<Rightarrow> frac option \<Rightarrow> frac option panics" where
  "best_high hash m [] high = Some high"
| "best_high hash m ((a, cu, uc) # uppers) high = do {
     uc_val \<leftarrow> eval_map hash uc m;
     num \<leftarrow> ichecked_sub 128 cu uc_val;
     f \<leftarrow> frac_new num a;
     high' \<leftarrow> frac_min f high;
     best_high hash m uppers (Some high')
   }"

definition telos_pick_value :: "frac option \<Rightarrow> frac option \<Rightarrow> int option panics" where
  "telos_pick_value low high =
     (case (low, high) of
        (None, None) \<Rightarrow> Some (Some 0)
      | (Some l, None) \<Rightarrow> do { x \<leftarrow> frac_ceil l; Some (Some x) }
      | (None, Some h) \<Rightarrow> do { x \<leftarrow> frac_floor h; Some (Some x) }
      | (Some l, Some h) \<Rightarrow> do {
          lo \<leftarrow> frac_ceil l;
          hi \<leftarrow> frac_floor h;
          Some (if lo > hi then None else Some lo)
        })"

text \<open>The cast of \<open>i128\<close> to \<open>i64\<close> keeps the low 64 bits.\<close>

definition as_i64 :: "int \<Rightarrow> int" where
  "as_i64 x = (x + 2 ^ 63) mod 2 ^ 64 - 2 ^ 63"

definition recover ::
    "hash_order \<Rightarrow> string \<Rightarrow> ineq_bound list \<Rightarrow> ineq_bound list \<Rightarrow> tmodel option \<Rightarrow> tmodel option panics" where
  "recover hash v uppers lowers r =
     (case r of None \<Rightarrow> Some None
      | Some m \<Rightarrow> do {
          low \<leftarrow> best_low hash m lowers None;
          high \<leftarrow> best_high hash m uppers None;
          val \<leftarrow> telos_pick_value low high;
          Some (map_option (\<lambda>x. hm_insert v (as_i64 x) m) val)
        })"

partial_function (option) solve_model :: "hash_order \<Rightarrow> lin_ineq list \<Rightarrow> tmodel option panics option" where
  "solve_model hash ineqs =
     (case ineq_vars hash ineqs of
        [] \<Rightarrow> Some (Some (if list_ex (\<lambda>i. li_c i < 0) ineqs then None else Some []))
      | v # _ \<Rightarrow>
          (case split_model v ineqs ([], [], []) of
             (uppers, lowers, rest) \<Rightarrow>
               (case combine_all combine_model (List.product uppers lowers) rest of
                  None \<Rightarrow> Some None
                | Some new_ineqs \<Rightarrow>
                    Option.bind (solve_model hash new_ineqs)
                      (\<lambda>r. Some (Option.bind r (recover hash v uppers lowers))))))"

definition search_model :: "hash_order \<Rightarrow> constraint list \<Rightarrow> tmodel option panics option" where
  "search_model hash cs = solve_model hash (to_inequalities cs)"

text \<open>For the callers a recursion that does not end is like a panic: the call does not return.\<close>

definition telos_model :: "hash_order \<Rightarrow> constraint list \<Rightarrow> tmodel option panics" where
  "telos_model hash cs = Option.bind (search_model hash cs) (\<lambda>r. r)"

fun first_model :: "hash_order \<Rightarrow> constraint list \<Rightarrow> constraint list list \<Rightarrow> tmodel option panics" where
  "first_model hash premises [] = Some None"
| "first_model hash premises (branch # branches) = do {
     r \<leftarrow> telos_model hash (premises @ branch);
     (case r of Some m \<Rightarrow> Some (Some m) | None \<Rightarrow> first_model hash premises branches)
   }"

definition telos_counterexample :: "hash_order \<Rightarrow> constraint list \<Rightarrow> constraint \<Rightarrow> tmodel option panics" where
  "telos_counterexample hash premises concl = first_model hash premises (telos_negate concl)"

fun check_ineqs :: "hash_order \<Rightarrow> lin_ineq list \<Rightarrow> tmodel \<Rightarrow> bool panics" where
  "check_ineqs hash [] m = Some True"
| "check_ineqs hash (ineq # ineqs) m = do {
     lhs \<leftarrow> eval_map hash (li_coeffs ineq) m;
     (if lhs > li_c ineq then Some False else check_ineqs hash ineqs m)
   }"

definition satisfies_model :: "hash_order \<Rightarrow> constraint list \<Rightarrow> tmodel \<Rightarrow> bool panics" where
  "satisfies_model hash cs m = check_ineqs hash (to_inequalities cs) m"

subsection \<open>Fractions are exact\<close>

definition fr_val :: "frac \<Rightarrow> rat" where
  "fr_val f = of_int (fr_num f) / of_int (fr_den f)"

lemma frac_new_exact:
  assumes "frac_new n d = Some f" and "0 < d" and "ifits 128 d"
  shows "0 < fr_den f" and "fr_val f = of_int n / of_int d"
proof -
  let ?h = "gcd_loop (unsigned_abs n) (as_u128 d)"
  have ud: "as_u128 d = unsigned_abs d"
    using assms(2,3) by (simp add: as_u128_def unsigned_abs_def ifits_def)
  have "unsigned_abs d \<noteq> 0" using assms(2) by (simp add: unsigned_abs_def)
  then have "?h \<noteq> 0" unfolding ud gcd_loop_gcd gcd_eq_0_iff by blast
  then have h: "?h = gcd_u128 (unsigned_abs n) (unsigned_abs d)" by (simp add: gcd_u128_def ud Let_def)
  then have g: "as_i128 ?h = gcd n d" using gcd_cast(1) [OF assms(2,3), of n] by simp
  have pos: "0 < gcd n d" using gcd_ge_0_int [of n d] assms(2) by (metis gcd_eq_0_iff less_irrefl order_le_less)
  have dn: "gcd n d dvd n" and dd: "gcd n d dvd d" by simp_all
  from assms(1,2) g pos have f: "f = \<lparr>fr_num = n div gcd n d, fr_den = d div gcd n d\<rparr>"
    by (auto simp: frac_new_def Let_def sdiv_exact [OF pos dn] sdiv_exact [OF pos dd])
  have "gcd n d \<le> d" using dd assms(2) by (rule zdvd_imp_le)
  then have "0 < d div gcd n d" using pos by (simp only: pos_imp_zdiv_pos_iff)
  then show "0 < fr_den f" by (simp add: f)
  have "(of_int (n div gcd n d) :: rat) = of_int n / of_int (gcd n d)"
    "(of_int (d div gcd n d) :: rat) = of_int d / of_int (gcd n d)"
    using pos dn dd by (auto simp: field_simps simp flip: of_int_mult)
  then show "fr_val f = of_int n / of_int d" using pos by (simp add: fr_val_def f)
qed

lemma frac_floor_le:
  assumes "frac_floor f = Some x" and "0 < fr_den f"
  shows "of_int x \<le> fr_val f"
proof -
  from assms have "x = fr_num f div fr_den f" by (auto simp: frac_floor_def div_euclid_def)
  then have "x * fr_den f \<le> fr_num f" using assms(2) by (metis div_mod_decomp_int le_add_same_cancel1 pos_mod_sign)
  then have "(of_int (x * fr_den f) :: rat) \<le> of_int (fr_num f)" by (simp only: of_int_le_iff)
  with assms(2) show ?thesis by (simp add: fr_val_def field_simps)
qed

lemma frac_ceil_ge:
  assumes "frac_ceil f = Some x" and "0 < fr_den f"
  shows "fr_val f \<le> of_int x"
proof -
  let ?q = "fr_num f div fr_den f"
  have dm: "fr_num f = ?q * fr_den f + fr_num f mod fr_den f" by simp
  from assms have "(fr_num f mod fr_den f = 0 \<and> x = ?q) \<or> x = ?q + 1"
    by (auto simp: frac_ceil_def div_euclid_def rem_euclid_def ichecked_add_def split: bind_splits if_splits)
  moreover have "fr_num f mod fr_den f < fr_den f" using assms(2) by simp
  ultimately have "fr_num f \<le> x * fr_den f"
  proof (elim disjE conjE)
    assume "fr_num f mod fr_den f = 0" and "x = ?q"
    with dm show ?thesis by simp
  next
    assume m: "fr_num f mod fr_den f < fr_den f" and x: "x = ?q + 1"
    have "x * fr_den f = ?q * fr_den f + fr_den f" unfolding x by (simp add: distrib_right)
    with dm m show ?thesis by linarith
  qed
  then have "(of_int (fr_num f) :: rat) \<le> of_int (x * fr_den f)" by (simp only: of_int_le_iff)
  with assms(2) show ?thesis by (simp add: fr_val_def field_simps)
qed

lemma fr_val_le:
  assumes "0 < fr_den f" and "0 < fr_den x"
  shows "fr_val f \<le> fr_val x \<longleftrightarrow> fr_num f * fr_den x \<le> fr_num x * fr_den f"
proof -
  have "fr_val f \<le> fr_val x \<longleftrightarrow> of_int (fr_num f * fr_den x) \<le> (of_int (fr_num x * fr_den f) :: rat)"
    using assms by (simp add: fr_val_def field_simps)
  then show ?thesis by (simp only: of_int_le_iff)
qed

lemma frac_max_ge:
  assumes "frac_max f low = Some g" and "0 < fr_den f" and "pred_option (\<lambda>x. 0 < fr_den x) low"
  shows "0 < fr_den g" and "fr_val f \<le> fr_val g" and "pred_option (\<lambda>x. fr_val x \<le> fr_val g) low"
  using assms
  by (auto simp: frac_max_def fr_val_le ichecked_mul_def mult.commute split: option.splits bind_splits if_splits)

lemma frac_min_le:
  assumes "frac_min f high = Some g" and "0 < fr_den f" and "pred_option (\<lambda>x. 0 < fr_den x) high"
  shows "0 < fr_den g" and "fr_val g \<le> fr_val f" and "pred_option (\<lambda>x. fr_val g \<le> fr_val x) high"
  using assms
  by (auto simp: frac_min_def fr_val_le ichecked_mul_def mult.commute split: option.splits bind_splits if_splits)

subsection \<open>The bounds a model leaves for a variable\<close>

definition model_state :: "tmodel \<Rightarrow> valuation" where
  "model_state m v = coeff_or_zero m v"

lemma sum_products_val:
  "sum_products m cs acc = Some x \<Longrightarrow> of_int x = of_int acc + cval (rat_state (model_state m)) cs"
  by (induction m cs acc arbitrary: x rule: sum_products.induct)
    (auto simp: ichecked_mul_def ichecked_add_def rat_state_def model_state_def split: bind_splits)

lemma cval_mset: "mset m = mset m' \<Longrightarrow> cval r m = cval r m'"
  by (simp add: cval_def sum_mset_sum_list [symmetric])

lemma eval_map_val:
  "eval_map hash cs m = Some x \<Longrightarrow> iter_order hash \<Longrightarrow> of_int x = cval (rat_state (model_state m)) cs"
  unfolding eval_map_def using sum_products_val [of m "hash cs" 0 x] cval_mset [of "hash cs" cs]
  by (simp add: iter_order_def)

text \<open>The bound on the variable: \<open>(b, c, m)\<close> says \<open>b * v + m \<le> c\<close>.\<close>

definition bound_at :: "(string \<Rightarrow> rat) \<Rightarrow> ineq_bound \<Rightarrow> rat" where
  "bound_at r u = (case u of (b, c, m) \<Rightarrow> (of_int c - cval r m) / of_int b)"

lemma best_low_spec:
  "best_low hash m lowers low = Some out \<Longrightarrow> iter_order hash \<Longrightarrow>
     \<forall>(b, c, lc) \<in> set lowers. b < 0 \<and> ifits 128 b \<Longrightarrow> pred_option (\<lambda>x. 0 < fr_den x) low \<Longrightarrow>
     pred_option (\<lambda>x. 0 < fr_den x) out \<and> (lowers \<noteq> [] \<or> low \<noteq> None \<longleftrightarrow> out \<noteq> None) \<and>
     pred_option (\<lambda>g. (\<forall>u \<in> set lowers. bound_at (rat_state (model_state m)) u \<le> fr_val g) \<and>
        pred_option (\<lambda>x. fr_val x \<le> fr_val g) low) out"
proof (induction hash m lowers low rule: best_low.induct)
  case (1 hash m low)
  then show ?case by (cases low) auto
next
  case (2 hash m b c lc lowers low)
  from "2.prems"(1) obtain e f g where e: "eval_map hash lc m = Some e"
    and n: "ichecked_sub 128 e c = Some (e - c)" "ichecked_neg 128 b = Some (- b)"
    and f: "frac_new (e - c) (- b) = Some f" and g: "frac_max f low = Some g"
    and rest: "best_low hash m lowers (Some g) = Some out"
    by (auto simp: ichecked_sub_def ichecked_neg_def split: bind_splits)
  have pos: "0 < - b" "ifits 128 (- b)" using "2.prems"(3) n(2) by (auto simp: ichecked_neg_def)
  note fe = frac_new_exact [OF f pos]
  note gm = frac_max_ge [OF g fe(1) "2.prems"(4)]
  have low: "\<forall>(b, c, lc) \<in> set lowers. b < 0 \<and> ifits 128 b" using "2.prems"(3) by simp
  have "pred_option (\<lambda>x. 0 < fr_den x) (Some g)" using gm(1) by simp
  from "2.IH" [OF e n f g rest "2.prems"(2) low this]
  obtain h where h: "out = Some h" "0 < fr_den h" "fr_val g \<le> fr_val h"
    "\<forall>u \<in> set lowers. bound_at (rat_state (model_state m)) u \<le> fr_val h"
    by (cases out) auto
  have "bound_at (rat_state (model_state m)) (b, c, lc) = fr_val f"
    using fe(2) eval_map_val [OF e "2.prems"(2)] pos(1)
    by (simp add: bound_at_def minus_divide_left divide_minus_right)
  with h gm(2,3) show ?case by (cases low) auto
qed

lemma best_high_spec:
  "best_high hash m uppers high = Some out \<Longrightarrow> iter_order hash \<Longrightarrow>
     \<forall>(a, c, uc) \<in> set uppers. 0 < a \<and> ifits 128 a \<Longrightarrow> pred_option (\<lambda>x. 0 < fr_den x) high \<Longrightarrow>
     pred_option (\<lambda>x. 0 < fr_den x) out \<and> (uppers \<noteq> [] \<or> high \<noteq> None \<longleftrightarrow> out \<noteq> None) \<and>
     pred_option (\<lambda>g. (\<forall>u \<in> set uppers. fr_val g \<le> bound_at (rat_state (model_state m)) u) \<and>
        pred_option (\<lambda>x. fr_val g \<le> fr_val x) high) out"
proof (induction hash m uppers high rule: best_high.induct)
  case (1 hash m high)
  then show ?case by (cases high) auto
next
  case (2 hash m a c uc uppers high)
  from "2.prems"(1) obtain e f g where e: "eval_map hash uc m = Some e"
    and n: "ichecked_sub 128 c e = Some (c - e)"
    and f: "frac_new (c - e) a = Some f" and g: "frac_min f high = Some g"
    and rest: "best_high hash m uppers (Some g) = Some out"
    by (auto simp: ichecked_sub_def split: bind_splits)
  have pos: "0 < a" "ifits 128 a" using "2.prems"(3) by auto
  note fe = frac_new_exact [OF f pos]
  note gm = frac_min_le [OF g fe(1) "2.prems"(4)]
  have up: "\<forall>(a, c, uc) \<in> set uppers. 0 < a \<and> ifits 128 a" using "2.prems"(3) by simp
  have "pred_option (\<lambda>x. 0 < fr_den x) (Some g)" using gm(1) by simp
  from "2.IH" [OF e n f g rest "2.prems"(2) up this]
  obtain h where h: "out = Some h" "0 < fr_den h" "fr_val h \<le> fr_val g"
    "\<forall>u \<in> set uppers. fr_val h \<le> bound_at (rat_state (model_state m)) u"
    by (cases out) auto
  have "bound_at (rat_state (model_state m)) (a, c, uc) = fr_val f"
    using fe(2) eval_map_val [OF e "2.prems"(2)] by (simp add: bound_at_def)
  with h gm(2,3) show ?case by (cases high) auto
qed

lemma pick_value_between:
  assumes "telos_pick_value low high = Some (Some x)" and "pred_option (\<lambda>f. 0 < fr_den f) low"
    and "pred_option (\<lambda>f. 0 < fr_den f) high"
  shows "pred_option (\<lambda>l. fr_val l \<le> of_int x) low" and "pred_option (\<lambda>h. of_int x \<le> fr_val h) high"
proof -
  have up: "of_int y \<le> fr_val h" if "y \<le> z" "of_int z \<le> fr_val h" for y z h
    using that by (meson of_int_le_iff order.trans)
  show "pred_option (\<lambda>l. fr_val l \<le> of_int x) low" "pred_option (\<lambda>h. of_int x \<le> fr_val h) high"
    using assms frac_ceil_ge frac_floor_le
    by (auto simp: telos_pick_value_def not_less split: option.splits bind_splits if_splits intro: up)
qed

subsection \<open>One round of the search\<close>

definition bound_on :: "string \<Rightarrow> lin_ineq \<Rightarrow> ineq_bound" where
  "bound_on v i = (coeff_or_zero (li_coeffs i) v, li_c i, remove_var (li_coeffs i) v)"

lemma split_model_filter:
  "split_model v ineqs (U, L, R) =
     (U @ map (bound_on v) (filter (\<lambda>i. 0 < coeff_or_zero (li_coeffs i) v) ineqs),
      L @ map (bound_on v) (filter (\<lambda>i. coeff_or_zero (li_coeffs i) v < 0) ineqs),
      R @ filter (\<lambda>i. coeff_or_zero (li_coeffs i) v = 0) ineqs)"
  by (induction v ineqs "(U, L, R)" arbitrary: U L R rule: split_model.induct)
    (auto simp: coeff_or_zero_def bound_on_def Let_def split: option.splits)

definition sys_vars :: "lin_ineq list \<Rightarrow> string set" where
  "sys_vars ineqs = (\<Union>i \<in> set ineqs. set (hm_keys (li_coeffs i)))"

definition map_fits :: "coeffs \<Rightarrow> bool" where
  "map_fits m \<longleftrightarrow> (\<forall>k. ifits 128 (coeff_or_zero m k))"

definition sys_fits :: "lin_ineq list \<Rightarrow> bool" where
  "sys_fits ineqs \<longleftrightarrow> (\<forall>i \<in> set ineqs. map_fits (li_coeffs i))"

lemma ifits_zero [simp]: "ifits 128 0"
  by (simp add: ifits_def)

lemma combine_coeffs_fits:
  assumes "\<And>x y z. f x y = Some z \<Longrightarrow> ifits 128 z"
  shows "combine_coeffs f uc lc keys acc = Some m \<Longrightarrow> hm_wf acc \<Longrightarrow> map_fits acc \<Longrightarrow> map_fits m"
proof (induction keys arbitrary: acc)
  case Nil
  then show ?case by simp
next
  case (Cons k keys)
  then show ?case
    using assms by (auto simp: map_fits_def coeff_or_zero_insert split: bind_splits)
qed

lemma cross_i128_fits: "cross_i128 x y z w = Some t \<Longrightarrow> ifits 128 t"
  by (auto simp: cross_i128_def ichecked_sub_def split: bind_splits)

lemma combine_model_spec:
  assumes "combine_model (bound_on v i) (bound_on v j) = Some n"
    and "hm_wf (li_coeffs i)" and "hm_wf (li_coeffs j)"
  shows "hm_wf (li_coeffs n)" and "nonzero_map (li_coeffs n)" and "map_fits (li_coeffs n)"
    and "set (hm_keys (li_coeffs n)) \<subseteq> set (hm_keys (li_coeffs i)) \<union> set (hm_keys (li_coeffs j)) - {v}"
proof -
  let ?a = "coeff_or_zero (li_coeffs i) v" and ?b = "coeff_or_zero (li_coeffs j) v"
  let ?uc = "remove_var (li_coeffs i) v" and ?lc = "remove_var (li_coeffs j) v"
  from assms(1) obtain c where
    m: "combine_coeffs (\<lambda>bi ei. cross_i128 ?a ei ?b bi) ?uc ?lc (merge_keys ?uc ?lc) [] = Some (li_coeffs n)"
    by (auto simp: combine_model_def bound_on_def split: bind_splits)
  have f: "z = (- ?b) * x + ?a * y" if "cross_i128 ?a y ?b x = Some z" for x y z
    using cross_i128_exact [OF that] by simp
  have w: "hm_wf ?uc" "hm_wf ?lc" using remove_var_props(1) assms(2,3) by auto
  note cm = combine_merged [OF m w f]
  from cm(1,2) show "hm_wf (li_coeffs n)" "nonzero_map (li_coeffs n)" by simp_all
  show "map_fits (li_coeffs n)"
    using combine_coeffs_fits [OF _ m] cross_i128_fits by (auto simp: map_fits_def)
  show "set (hm_keys (li_coeffs n)) \<subseteq> set (hm_keys (li_coeffs i)) \<union> set (hm_keys (li_coeffs j)) - {v}"
    using cm(3) remove_var_props(2) assms(2,3) by auto
qed

lemma zero_coeff_absent: "nonzero_map m \<Longrightarrow> coeff_or_zero m v = 0 \<longleftrightarrow> v \<notin> set (hm_keys m)"
  by (auto simp: nonzero_map_def coeff_or_zero_def set_hm_keys hm_contains_def split: option.splits)

text \<open>
  A round removes the variable and keeps every inequality that does not mention it; the
  system stays well formed.
\<close>

lemma search_round:
  assumes "split_model v ineqs ([], [], []) = (U, L, R)"
    and "combine_all combine_model (List.product U L) R = Some new"
    and "system_wf ineqs" and "sys_fits ineqs"
  shows "system_wf new" and "sys_fits new" and "sys_vars new \<subseteq> sys_vars ineqs - {v}"
    and "i \<in> set ineqs \<Longrightarrow> v \<notin> set (hm_keys (li_coeffs i)) \<Longrightarrow> i \<in> set new"
proof -
  have w: "hm_wf (li_coeffs i)" "nonzero_map (li_coeffs i)" "map_fits (li_coeffs i)" if "i \<in> set ineqs" for i
    using assms(3,4) that by (auto simp: system_wf_def ineqs_wf_def sys_fits_def)
  have ul: "U = map (bound_on v) (filter (\<lambda>i. 0 < coeff_or_zero (li_coeffs i) v) ineqs)"
    "L = map (bound_on v) (filter (\<lambda>i. coeff_or_zero (li_coeffs i) v < 0) ineqs)"
    "R = filter (\<lambda>i. coeff_or_zero (li_coeffs i) v = 0) ineqs"
    using assms(1) by (auto simp: split_model_filter)
  have R: "set R = {i \<in> set ineqs. v \<notin> set (hm_keys (li_coeffs i))}"
    using zero_coeff_absent [OF w(2)] by (auto simp: ul)
  note out = combine_all_set [OF assms(2)]
  have new: "hm_wf (li_coeffs n) \<and> nonzero_map (li_coeffs n) \<and> map_fits (li_coeffs n) \<and>
      set (hm_keys (li_coeffs n)) \<subseteq> sys_vars ineqs - {v}" if n: "n \<in> set new" for n
  proof (cases "n \<in> set R")
    case True
    with R w show ?thesis by (auto simp: sys_vars_def)
  next
    case False
    with out n obtain i j where "i \<in> set ineqs" "j \<in> set ineqs"
      "combine_model (bound_on v i) (bound_on v j) = Some n" by (auto simp: ul)
    with combine_model_spec [OF this(3) w(1) w(1)] show ?thesis by (fastforce simp: sys_vars_def)
  qed
  then show "system_wf new" "sys_fits new" "sys_vars new \<subseteq> sys_vars ineqs - {v}"
    by (auto simp: system_wf_def ineqs_wf_def sys_fits_def sys_vars_def)
  show "i \<in> set ineqs \<Longrightarrow> v \<notin> set (hm_keys (li_coeffs i)) \<Longrightarrow> i \<in> set new"
    using R out by blast
qed

lemma finite_sys_vars [simp]: "finite (sys_vars ineqs)"
  by (simp add: sys_vars_def)

text \<open>Induction along the rounds of the search.\<close>

lemma search_induct [consumes 3, case_names empty panic round]:
  assumes "iter_order hash" and "system_wf ineqs" and "sys_fits ineqs"
    and empty: "\<And>ineqs. ineq_vars hash ineqs = [] \<Longrightarrow> system_wf ineqs \<Longrightarrow> P ineqs"
    and panic: "\<And>ineqs v vs U L R. ineq_vars hash ineqs = v # vs \<Longrightarrow> split_model v ineqs ([], [], []) = (U, L, R) \<Longrightarrow>
       combine_all combine_model (List.product U L) R = None \<Longrightarrow> P ineqs"
    and round: "\<And>ineqs v vs U L R new. ineq_vars hash ineqs = v # vs \<Longrightarrow> split_model v ineqs ([], [], []) = (U, L, R) \<Longrightarrow>
       combine_all combine_model (List.product U L) R = Some new \<Longrightarrow> system_wf ineqs \<Longrightarrow> sys_fits ineqs \<Longrightarrow>
       P new \<Longrightarrow> P ineqs"
  shows "P ineqs"
  using assms(2,3)
proof (induction "card (sys_vars ineqs)" arbitrary: ineqs rule: less_induct)
  case less
  show ?case
  proof (cases "ineq_vars hash ineqs")
    case Nil
    then show ?thesis using less.prems(1) by (rule empty)
  next
    case (Cons v vs)
    obtain U L R where s: "split_model v ineqs ([], [], []) = (U, L, R)" by (metis prod_cases3)
    show ?thesis
    proof (cases "combine_all combine_model (List.product U L) R")
      case None
      with Cons s show ?thesis by (rule panic)
    next
      case (Some new)
      note r = search_round [OF s Some less.prems]
      have "v \<in> sys_vars ineqs" using Cons set_ineq_vars [OF assms(1), of ineqs] by (auto simp: sys_vars_def)
      with r(3) have "sys_vars new \<subset> sys_vars ineqs" by blast
      then have "card (sys_vars new) < card (sys_vars ineqs)" by (simp add: psubset_card_mono)
      then have "P new" using r(1,2) by (rule less.hyps)
      with Cons s Some less.prems show ?thesis by (rule round)
    qed
  qed
qed

lemma solve_model_ends:
  assumes "iter_order hash" and "system_wf ineqs" and "sys_fits ineqs"
  shows "\<exists>r. solve_model hash ineqs = Some r"
  using assms
  by (induction rule: search_induct) (subst solve_model.simps, force)+

subsection \<open>A model that is found satisfies the system\<close>

text \<open>Every variable has a lower and an upper bound among the inequalities, both \<open>i64\<close> values.\<close>

definition boxed :: "lin_ineq list \<Rightarrow> bool" where
  "boxed ineqs \<longleftrightarrow> (\<forall>v \<in> sys_vars ineqs. \<exists>lo hi. ifits 64 lo \<and> ifits 64 hi \<and>
     \<lparr>li_coeffs = [(v, 1)], li_c = hi\<rparr> \<in> set ineqs \<and> \<lparr>li_coeffs = [(v, - 1)], li_c = - lo\<rparr> \<in> set ineqs)"

lemma as_i64_id: "ifits 64 x \<Longrightarrow> as_i64 x = x"
  by (simp add: as_i64_def ifits_def)

lemma boxed_round:
  assumes "split_model v ineqs ([], [], []) = (U, L, R)"
    and "combine_all combine_model (List.product U L) R = Some new"
    and "system_wf ineqs" and "sys_fits ineqs" and "boxed ineqs"
  shows "boxed new"
  unfolding boxed_def
proof
  note r = search_round [OF assms(1-4)]
  fix u assume "u \<in> sys_vars new"
  with r(3) have u: "u \<in> sys_vars ineqs" "u \<noteq> v" by auto
  with assms(5) obtain lo hi where b: "ifits 64 lo" "ifits 64 hi"
    "\<lparr>li_coeffs = [(u, 1)], li_c = hi\<rparr> \<in> set ineqs" "\<lparr>li_coeffs = [(u, - 1)], li_c = - lo\<rparr> \<in> set ineqs"
    unfolding boxed_def by blast
  from r(4) [OF b(3)] r(4) [OF b(4)] u(2) b(1,2)
  show "\<exists>lo hi. ifits 64 lo \<and> ifits 64 hi \<and>
      \<lparr>li_coeffs = [(u, 1)], li_c = hi\<rparr> \<in> set new \<and> \<lparr>li_coeffs = [(u, - 1)], li_c = - lo\<rparr> \<in> set new"
    by (auto simp: hm_keys_def)
qed

text \<open>The value recovered for a variable is within every bound on it.\<close>

lemma bound_sat:
  assumes "hm_wf (li_coeffs i)"
  shows "coeff_or_zero (li_coeffs i) v > 0 \<Longrightarrow> ineq_sat (r(v := x)) i \<longleftrightarrow> x \<le> bound_at r (bound_on v i)"
    and "coeff_or_zero (li_coeffs i) v < 0 \<Longrightarrow> ineq_sat (r(v := x)) i \<longleftrightarrow> bound_at r (bound_on v i) \<le> x"
  using cval_update [OF assms, of r v x]
  by (auto simp: ineq_sat_def bound_at_def bound_on_def field_simps)

lemma model_state_insert:
  "hm_wf m \<Longrightarrow> rat_state (model_state (hm_insert v x m)) = (rat_state (model_state m))(v := of_int x)"
  by (auto simp: rat_state_def model_state_def coeff_or_zero_insert fun_eq_iff)

lemma recover_within:
  assumes "recover hash v U L (Some m) = Some (Some m')" and "iter_order hash"
    and "\<forall>(a, c, uc) \<in> set U. 0 < a \<and> ifits 128 a" and "\<forall>(b, c, lc) \<in> set L. b < 0 \<and> ifits 128 b"
  obtains x where "m' = hm_insert v (as_i64 x) m"
    and "\<And>u. u \<in> set U \<Longrightarrow> of_int x \<le> bound_at (rat_state (model_state m)) u"
    and "\<And>l. l \<in> set L \<Longrightarrow> bound_at (rat_state (model_state m)) l \<le> of_int x"
proof -
  from assms(1) obtain low high x where b: "best_low hash m L None = Some low" "best_high hash m U None = Some high"
    and p: "telos_pick_value low high = Some (Some x)" and m': "m' = hm_insert v (as_i64 x) m"
    by (auto simp: recover_def split: bind_splits)
  note lo = best_low_spec [OF b(1) assms(2,4)] and hi = best_high_spec [OF b(2) assms(2,3)]
  have d: "pred_option (\<lambda>f. 0 < fr_den f) low" "pred_option (\<lambda>f. 0 < fr_den f) high"
    using lo hi by simp_all
  note pb = pick_value_between [OF p d]
  show thesis
  proof (rule that [OF m'])
    fix u assume u: "u \<in> set U"
    then obtain h where h: "high = Some h" "fr_val h \<le> bound_at (rat_state (model_state m)) u"
      using hi by (cases high) auto
    with pb(2) show "of_int x \<le> bound_at (rat_state (model_state m)) u" by simp
  next
    fix l assume l: "l \<in> set L"
    then obtain h where h: "low = Some h" "bound_at (rat_state (model_state m)) l \<le> fr_val h"
      using lo by (cases low) auto
    with pb(1) show "bound_at (rat_state (model_state m)) l \<le> of_int x" by simp
  qed
qed

lemma solve_model_sound:
  assumes "iter_order hash" and "system_wf ineqs" and "sys_fits ineqs"
  shows "solve_model hash ineqs = Some (Some (Some m)) \<Longrightarrow> boxed ineqs \<Longrightarrow>
     hm_wf m \<and> list_all (ineq_sat (rat_state (model_state m))) ineqs"
  using assms
proof (induction arbitrary: m rule: search_induct)
  case (empty ineqs)
  then have nil: "li_coeffs i = []" if "i \<in> set ineqs" for i
    using set_ineq_vars [OF assms(1), of ineqs] that by (auto simp: hm_keys_def)
  from empty show ?case
    using nil by (subst (asm) solve_model.simps)
      (auto simp: list_all_iff list_ex_iff ineq_sat_def split: if_splits)
next
  case (panic ineqs v vs U L R)
  then show ?case by (subst (asm) solve_model.simps) simp
next
  case (round ineqs v vs U L R new)
  let ?c = "\<lambda>i. coeff_or_zero (li_coeffs i) v"
  have w: "hm_wf (li_coeffs i)" "nonzero_map (li_coeffs i)" "map_fits (li_coeffs i)" if "i \<in> set ineqs" for i
    using round(4,5) that by (auto simp: system_wf_def ineqs_wf_def sys_fits_def)
  have ul: "U = map (bound_on v) (filter (\<lambda>i. 0 < ?c i) ineqs)" "L = map (bound_on v) (filter (\<lambda>i. ?c i < 0) ineqs)"
    using round(2) by (auto simp: split_model_filter)
  from round.prems(1) round(1-3) obtain m0 where m0: "solve_model hash new = Some (Some (Some m0))"
    and rec: "recover hash v U L (Some m0) = Some (Some m)"
    by (subst (asm) solve_model.simps) (auto simp: recover_def split: bind_splits option.splits)
  from round.IH [OF m0 boxed_round [OF round(2-5) round.prems(2)]]
  have ih: "hm_wf m0" "list_all (ineq_sat (rat_state (model_state m0))) new" by auto
  have U: "\<forall>(a, c, uc) \<in> set U. 0 < a \<and> ifits 128 a" and L: "\<forall>(b, c, lc) \<in> set L. b < 0 \<and> ifits 128 b"
    using w(3) by (auto simp: ul bound_on_def map_fits_def)
  obtain x where m: "m = hm_insert v (as_i64 x) m0"
    and xu: "\<And>u. u \<in> set U \<Longrightarrow> of_int x \<le> bound_at (rat_state (model_state m0)) u"
    and xl: "\<And>l. l \<in> set L \<Longrightarrow> bound_at (rat_state (model_state m0)) l \<le> of_int x"
    using recover_within [OF rec assms(1) U L] by blast
  have v: "v \<in> sys_vars ineqs" using round(1) set_ineq_vars [OF assms(1), of ineqs] by (auto simp: sys_vars_def)
  then obtain lo hi where box: "ifits 64 lo" "ifits 64 hi" "\<lparr>li_coeffs = [(v, 1)], li_c = hi\<rparr> \<in> set ineqs"
    "\<lparr>li_coeffs = [(v, - 1)], li_c = - lo\<rparr> \<in> set ineqs"
    using round.prems(2) unfolding boxed_def by blast
  have "bound_on v \<lparr>li_coeffs = [(v, 1)], li_c = hi\<rparr> \<in> set U"
    "bound_on v \<lparr>li_coeffs = [(v, - 1)], li_c = - lo\<rparr> \<in> set L"
    using box(3,4) unfolding ul by force+
  from xu [OF this(1)] xl [OF this(2)] have "x \<le> hi" "lo \<le> x"
    by (auto simp: bound_at_def bound_on_def remove_var_def)
  with box(1,2) have "ifits 64 x" by (simp add: ifits_def)
  then have st: "rat_state (model_state m) = (rat_state (model_state m0))(v := of_int x)"
    using ih(1) by (simp add: m as_i64_id model_state_insert)
  have "ineq_sat (rat_state (model_state m)) i" if i: "i \<in> set ineqs" for i
  proof (cases "?c i" "0 :: int" rule: linorder_cases)
    case equal
    then have nv: "v \<notin> set (hm_keys (li_coeffs i))" using zero_coeff_absent [OF w(2) [OF i]] by blast
    with search_round(4) [OF round(2-5) i] ih(2) have "ineq_sat (rat_state (model_state m0)) i"
      by (simp add: list_all_iff)
    moreover have "cval (rat_state (model_state m)) (li_coeffs i) = cval (rat_state (model_state m0)) (li_coeffs i)"
      using nv by (intro cval_cong) (auto simp: st)
    ultimately show ?thesis by (simp add: ineq_sat_def)
  next
    case less
    then have "bound_on v i \<in> set L" using i by (simp add: ul)
    from xl [OF this] bound_sat(2) [OF w(1) [OF i] less] show ?thesis by (simp add: st)
  next
    case greater
    then have "bound_on v i \<in> set U" using i by (simp add: ul)
    from xu [OF this] bound_sat(1) [OF w(1) [OF i] greater] show ?thesis by (simp add: st)
  qed
  with ih(1) show ?case by (simp add: m list_all_iff)
qed

end
