(* ===== verification/Telos_Verify.thy ===== *)
theory Telos_Verify
  imports Telos_Model
begin

text \<open>
  The verification driver of telos (\<open>telos-verifier/src/verify.rs\<close>) on the built-in solver: the
  conclusions of a problem are checked one by one, those of a disjunction group together. The
  backend that calls Z3 is an optional feature and not modelled.

  The group table is a \<open>HashMap\<close>; \<open>groups_order\<close> is the order in which its values are visited.
\<close>

subsection \<open>Problems and results\<close>

record conclusion =
  co_description :: string
  co_constraint :: constraint
  co_is_ensures :: bool
  co_is_approximation :: bool
  co_location :: span
  co_or_group :: "nat option"

record verification_problem =
  vp_func_name :: string
  vp_func_span :: span
  vp_premises :: "constraint list"
  vp_conclusions :: "conclusion list"

record check_result =
  cr_description :: string
  cr_passed :: bool
  cr_is_ensures :: bool
  cr_is_approximation :: bool
  cr_counterexample :: "tmodel option"
  cr_or_group :: "nat option"

record verification_result =
  vr_func_name :: string
  vr_checks :: "check_result list"
  vr_all_passed :: bool

subsection \<open>The driver\<close>

definition check_entails :: "hash_order \<Rightarrow> constraint list \<Rightarrow> constraint \<Rightarrow> bool panics" where
  "check_entails hash premises concl = telos_entails hash premises concl"

definition check_counterexample :: "hash_order \<Rightarrow> constraint list \<Rightarrow> constraint \<Rightarrow> tmodel option panics" where
  "check_counterexample hash premises concl = telos_counterexample hash premises concl"

definition check_conclusion :: "hash_order \<Rightarrow> constraint list \<Rightarrow> conclusion \<Rightarrow> check_result panics" where
  "check_conclusion hash premises concl = do {
     passed \<leftarrow> check_entails hash premises (co_constraint concl);
     ce \<leftarrow> (if passed then Some None else check_counterexample hash premises (co_constraint concl));
     Some \<lparr>cr_description = co_description concl, cr_passed = passed, cr_is_ensures = co_is_ensures concl,
       cr_is_approximation = co_is_approximation concl, cr_counterexample = ce, cr_or_group = co_or_group concl\<rparr>
   }"

fun first_pass ::
    "hash_order \<Rightarrow> constraint list \<Rightarrow> conclusion list \<Rightarrow> check_result list \<times> bool \<Rightarrow> (check_result list \<times> bool) panics" where
  "first_pass hash premises [] acc = Some acc"
| "first_pass hash premises (concl # concls) (checks, all_passed) =
     (if co_or_group concl \<noteq> None then first_pass hash premises concls (checks, all_passed)
      else do {
        r \<leftarrow> check_conclusion hash premises concl;
        first_pass hash premises concls (checks @ [r], all_passed \<and> cr_passed r)
      })"

type_synonym group_table = "(nat, conclusion list) hmap"

definition add_to_group :: "group_table \<Rightarrow> conclusion \<Rightarrow> group_table" where
  "add_to_group groups concl =
     (case co_or_group concl of
        None \<Rightarrow> groups
      | Some g \<Rightarrow> hm_insert g ((case hm_get groups g of None \<Rightarrow> [] | Some cs \<Rightarrow> cs) @ [concl]) groups)"

definition or_groups :: "conclusion list \<Rightarrow> group_table" where
  "or_groups concls = foldl add_to_group [] concls"

fun check_group :: "hash_order \<Rightarrow> constraint list \<Rightarrow> conclusion list \<Rightarrow> check_result list panics" where
  "check_group hash premises [] = Some []"
| "check_group hash premises (concl # concls) = do {
     r \<leftarrow> check_conclusion hash premises concl;
     rs \<leftarrow> check_group hash premises concls;
     Some (r # rs)
   }"

fun second_pass ::
    "hash_order \<Rightarrow> constraint list \<Rightarrow> conclusion list list \<Rightarrow> check_result list \<times> bool \<Rightarrow> (check_result list \<times> bool) panics" where
  "second_pass hash premises [] acc = Some acc"
| "second_pass hash premises (grp # groups) (checks, all_passed) = do {
     rs \<leftarrow> check_group hash premises grp;
     second_pass hash premises groups (checks @ rs, all_passed \<and> list_ex cr_passed rs)
   }"

definition verify ::
    "hash_order \<Rightarrow> (group_table \<Rightarrow> group_table) \<Rightarrow> verification_problem \<Rightarrow> verification_result panics" where
  "verify hash groups_order problem = do {
     acc \<leftarrow> first_pass hash (vp_premises problem) (vp_conclusions problem) ([], True);
     (checks, all_passed) \<leftarrow>
       second_pass hash (vp_premises problem) (hm_values (groups_order (or_groups (vp_conclusions problem)))) acc;
     Some \<lparr>vr_func_name = vp_func_name problem, vr_checks = checks, vr_all_passed = all_passed\<rparr>
   }"

definition is_unsat :: "hash_order \<Rightarrow> constraint list \<Rightarrow> bool panics" where
  "is_unsat hash cs = telos_unsat hash cs"

subsection \<open>What a passed problem promises\<close>

text \<open>
  In a state: every conclusion outside the groups holds, and of the group of every other
  conclusion at least one member.
\<close>

definition conclusions_hold :: "valuation \<Rightarrow> conclusion list \<Rightarrow> bool" where
  "conclusions_hold s concls \<longleftrightarrow> list_all (\<lambda>c.
     case co_or_group c of
       None \<Rightarrow> c_holds s (co_constraint c)
     | Some g \<Rightarrow> list_ex (\<lambda>d. co_or_group d = Some g \<and> c_holds s (co_constraint d)) concls) concls"

definition wf_problem :: "verification_problem \<Rightarrow> bool" where
  "wf_problem p \<longleftrightarrow> list_all wf_constraint (vp_premises p) \<and>
     list_all (\<lambda>c. wf_constraint (co_constraint c)) (vp_conclusions p)"

definition groups_permuted :: "(group_table \<Rightarrow> group_table) \<Rightarrow> bool" where
  "groups_permuted ord \<longleftrightarrow> (\<forall>t. set (ord t) = set t)"

lemma check_conclusion_passed:
  "check_conclusion hash ps c = Some r \<Longrightarrow> cr_passed r \<Longrightarrow> telos_entails hash ps (co_constraint c) = Some True"
  by (auto simp: check_conclusion_def check_entails_def split: bind_splits)

lemma first_pass_passed:
  "first_pass hash ps cs acc = Some out \<Longrightarrow> snd out \<Longrightarrow>
     snd acc \<and> (\<forall>c \<in> set cs. co_or_group c = None \<longrightarrow> telos_entails hash ps (co_constraint c) = Some True)"
proof (induction hash ps cs acc rule: first_pass.induct)
  case (1 hash ps acc)
  then show ?case by simp
next
  case (2 hash ps c cs checks all)
  show ?case
  proof (cases "co_or_group c = None")
    case True
    with "2.prems" obtain r where r: "check_conclusion hash ps c = Some r"
      "first_pass hash ps cs (checks @ [r], all \<and> cr_passed r) = Some out"
      by (auto split: bind_splits)
    from "2.IH"(2) [OF _ r "2.prems"(2)] True check_conclusion_passed [OF r(1)] show ?thesis by auto
  qed (use 2 in auto)
qed

lemma check_group_passed:
  "check_group hash ps cs = Some rs \<Longrightarrow> list_ex cr_passed rs \<Longrightarrow>
     \<exists>c \<in> set cs. telos_entails hash ps (co_constraint c) = Some True"
proof (induction hash ps cs arbitrary: rs rule: check_group.induct)
  case (1 hash ps)
  then show ?case by simp
next
  case (2 hash ps c cs)
  from "2.prems"(1) obtain q qs where "check_conclusion hash ps c = Some q" "check_group hash ps cs = Some qs" "rs = q # qs"
    by (auto split: bind_splits)
  with 2 check_conclusion_passed [of hash ps c q] show ?case by auto
qed

lemma second_pass_passed:
  "second_pass hash ps gs acc = Some out \<Longrightarrow> snd out \<Longrightarrow>
     snd acc \<and> (\<forall>g \<in> set gs. \<exists>c \<in> set g. telos_entails hash ps (co_constraint c) = Some True)"
proof (induction hash ps gs acc rule: second_pass.induct)
  case (1 hash ps acc)
  then show ?case by simp
next
  case (2 hash ps g gs checks all)
  from "2.prems"(1) obtain rs where r: "check_group hash ps g = Some rs"
    "second_pass hash ps gs (checks @ rs, all \<and> list_ex cr_passed rs) = Some out"
    by (auto split: bind_splits)
  from "2.IH" [OF r "2.prems"(2)] check_group_passed [OF r(1)] show ?case by auto
qed

text \<open>The group table holds exactly the conclusions of each group.\<close>

definition members :: "group_table \<Rightarrow> nat \<Rightarrow> conclusion list" where
  "members t g = (case hm_get t g of None \<Rightarrow> [] | Some cs \<Rightarrow> cs)"

lemma members_add:
  "hm_wf t \<Longrightarrow> members (add_to_group t c) g = (if co_or_group c = Some g then members t g @ [c] else members t g)"
  by (auto simp: members_def add_to_group_def split: option.splits)

lemma or_groups_spec:
  "hm_wf (or_groups cs) \<and> (\<forall>g. set (members (or_groups cs) g) = {c \<in> set cs. co_or_group c = Some g})"
proof (induction cs rule: rev_induct)
  case Nil
  then show ?case by (simp add: or_groups_def members_def)
next
  case (snoc c cs)
  have "or_groups (cs @ [c]) = add_to_group (or_groups cs) c" by (simp add: or_groups_def)
  moreover have "hm_wf (add_to_group (or_groups cs) c)"
    using snoc by (auto simp: add_to_group_def split: option.splits)
  ultimately show ?case using snoc by (auto simp: members_add)
qed

lemma verify_passed:
  assumes "verify hash ord p = Some r" and "vr_all_passed r" and "groups_permuted ord"
  shows "\<And>c. c \<in> set (vp_conclusions p) \<Longrightarrow> co_or_group c = None \<Longrightarrow>
      telos_entails hash (vp_premises p) (co_constraint c) = Some True"
    and "\<And>c g. c \<in> set (vp_conclusions p) \<Longrightarrow> co_or_group c = Some g \<Longrightarrow>
      \<exists>d \<in> set (vp_conclusions p). co_or_group d = Some g \<and>
        telos_entails hash (vp_premises p) (co_constraint d) = Some True"
proof -
  from assms(1,2) obtain acc out where
    a: "first_pass hash (vp_premises p) (vp_conclusions p) ([], True) = Some acc"
      "second_pass hash (vp_premises p) (hm_values (ord (or_groups (vp_conclusions p)))) acc = Some out" "snd out"
    by (auto simp: verify_def split: bind_splits)
  note s = second_pass_passed [OF a(2,3)]
  note f = first_pass_passed [OF a(1)]
  show "c \<in> set (vp_conclusions p) \<Longrightarrow> co_or_group c = None \<Longrightarrow>
      telos_entails hash (vp_premises p) (co_constraint c) = Some True" for c
    using f s by blast
  fix c g assume c: "c \<in> set (vp_conclusions p)" "co_or_group c = Some g"
  with or_groups_spec [of "vp_conclusions p"] have
    mem: "set (members (or_groups (vp_conclusions p)) g) = {c \<in> set (vp_conclusions p). co_or_group c = Some g}"
    by blast
  with c obtain m where
    m: "hm_get (or_groups (vp_conclusions p)) g = Some m" "set m = {c \<in> set (vp_conclusions p). co_or_group c = Some g}"
    by (cases "hm_get (or_groups (vp_conclusions p)) g") (auto simp: members_def)
  then have "m \<in> set (hm_values (ord (or_groups (vp_conclusions p))))"
    using assms(3) by (force simp: hm_get_def hm_values_def groups_permuted_def dest: map_of_SomeD)
  then have "\<exists>d \<in> set m. telos_entails hash (vp_premises p) (co_constraint d) = Some True" using s by blast
  with m(2) show "\<exists>d \<in> set (vp_conclusions p). co_or_group d = Some g \<and>
      telos_entails hash (vp_premises p) (co_constraint d) = Some True" by auto
qed

lemma passed_holds:
  assumes "verify hash ord p = Some r" and "vr_all_passed r" and "wf_problem p"
    and "iter_order hash" and "groups_permuted ord" and "list_all (c_holds s) (vp_premises p)"
    and "c \<in> set (vp_conclusions p)"
  shows "co_or_group c = None \<Longrightarrow> c_holds s (co_constraint c)"
    and "co_or_group c = Some g \<Longrightarrow>
      \<exists>d \<in> set (vp_conclusions p). co_or_group d = Some g \<and> c_holds s (co_constraint d)"
proof -
  have e: "c_holds s (co_constraint c)"
    if "c \<in> set (vp_conclusions p)" "telos_entails hash (vp_premises p) (co_constraint c) = Some True" for c
    using that telos_entails_sound [OF that(2) assms(4)] assms(3,6) by (auto simp: wf_problem_def list_all_iff)
  show "co_or_group c = None \<Longrightarrow> c_holds s (co_constraint c)"
    using e verify_passed(1) [OF assms(1,2,5)] assms(7) by blast
  show "co_or_group c = Some g \<Longrightarrow>
      \<exists>d \<in> set (vp_conclusions p). co_or_group d = Some g \<and> c_holds s (co_constraint d)"
    using e verify_passed(2) [OF assms(1,2,5)] assms(7) by blast
qed

subsection \<open>Properties\<close>

text \<open>
  C25. A problem the verifier passes is valid: in every integer state that satisfies
  the premises, every conclusion outside the disjunction groups holds and at least one
  member of every group. It holds for every iteration order of the hash maps.
\<close>

theorem verify_sound:
  assumes "verify hash ord p = Some r" and "vr_all_passed r" and "wf_problem p"
    and "iter_order hash" and "groups_permuted ord" and "list_all (c_holds s) (vp_premises p)"
  shows "conclusions_hold s (vp_conclusions p)"
  unfolding conclusions_hold_def list_all_iff list_ex_iff
  using passed_holds [OF assms] by (auto split: option.split)

definition sample_problem :: verification_problem where
  "sample_problem = \<lparr>vp_func_name = ''f'', vp_func_span = \<lparr>sp_line = 1, sp_col = 1\<rparr>,
     vp_premises = [Constraint \<lparr>l_terms = [(''x'', 1), (''y'', - 1)], l_constant = 0\<rparr> Ge0,
                    Constraint \<lparr>l_terms = [(''y'', 1)], l_constant = - 5\<rparr> Ge0],
     vp_conclusions =
       [\<lparr>co_description = ''a'', co_constraint = Constraint \<lparr>l_terms = [(''x'', 1)], l_constant = - 3\<rparr> Ge0,
         co_is_ensures = True, co_is_approximation = False, co_location = \<lparr>sp_line = 1, sp_col = 1\<rparr>, co_or_group = None\<rparr>,
        \<lparr>co_description = ''b'', co_constraint = Constraint \<lparr>l_terms = [(''x'', 1)], l_constant = - 5\<rparr> Ge0,
         co_is_ensures = True, co_is_approximation = False, co_location = \<lparr>sp_line = 1, sp_col = 1\<rparr>, co_or_group = Some 0\<rparr>,
        \<lparr>co_description = ''b'', co_constraint = Constraint \<lparr>l_terms = [(''x'', 1)], l_constant = - 4\<rparr> Gt0,
         co_is_ensures = True, co_is_approximation = False, co_location = \<lparr>sp_line = 1, sp_col = 1\<rparr>, co_or_group = Some 0\<rparr>]\<rparr>"

lemma sample_problem_passes:
  "map_option vr_all_passed (verify (\<lambda>m. m) (\<lambda>t. t) sample_problem) = Some True"
  by code_simp

lemma identity_orders [simp]: "iter_order (\<lambda>m. m)" "groups_permuted (\<lambda>t. t)"
  by (simp_all add: iter_order_def groups_permuted_def)

theorem verify_sound_witness:
  "conclusions_hold (\<lambda>v. if v = ''x'' then 7 else 6) (vp_conclusions sample_problem)"
proof -
  from sample_problem_passes obtain r where r: "verify (\<lambda>m. m) (\<lambda>t. t) sample_problem = Some r" "vr_all_passed r"
    by auto
  have "wf_problem sample_problem" by code_simp
  moreover have "list_all (c_holds (\<lambda>v. if v = ''x'' then 7 else 6)) (vp_premises sample_problem)" by code_simp
  ultimately show ?thesis using verify_sound [OF r] by simp
qed

text \<open>
  C28. The Fourier-Motzkin procedure is exact over the rationals on the inequalities it is given: for constraints without zero
  coefficients and a call that returns (no intermediate product leaves its integer type), for every iteration order, the answer
  is true exactly when the inequalities that the constraints are turned into have no rational solution. These inequalities are
  the integer reading of the constraints: a strict one is tightened by one, and \<open>!=\<close> is dropped. An answer true
  therefore also means that no integer state satisfies all constraints.
\<close>

theorem unsat_decides_rationals:
  assumes "telos_unsat hash cs = Some b" and "iter_order hash" and "list_all wf_constraint cs"
  shows "(b \<longleftrightarrow> \<not> (\<exists>r. list_all (ineq_sat r) (to_inequalities cs))) \<and> (b \<longrightarrow> \<not> (\<exists>s. list_all (c_holds s) cs))"
proof -
  have "b \<longleftrightarrow> \<not> (\<exists>r. list_all (ineq_sat r) (to_inequalities cs))"
    using assms unfolding telos_unsat_def by (intro unsat_ineqs_decides to_inequalities_wf)
  moreover have "list_all (ineq_sat (rat_state s)) (to_inequalities cs)" if "list_all (c_holds s) cs" for s
    using that to_inequalities_sat [OF assms(3), of s] by (auto simp: list_all_iff)
  ultimately show ?thesis by blast
qed

text \<open>Strict constraints are read over the integers: \<open>0 < x < 1\<close> is called unsatisfiable, though it has real solutions.\<close>

lemma open_interval_unsat:
  "telos_unsat (\<lambda>m. m) [Constraint \<lparr>l_terms = [(''x'', 1)], l_constant = 0\<rparr> Gt0,
     Constraint \<lparr>l_terms = [(''x'', 1)], l_constant = - 1\<rparr> Lt0] = Some True"
  by code_simp

lemma sample_unsat:
  "telos_unsat (\<lambda>m. m) [Constraint \<lparr>l_terms = [(''x'', 2), (''y'', - 1)], l_constant = 1\<rparr> Le0,
     Constraint \<lparr>l_terms = [(''x'', 1)], l_constant = 0\<rparr> Ge0,
     Constraint \<lparr>l_terms = [(''y'', 1)], l_constant = 0\<rparr> Le0] = Some True"
  by code_simp

theorem unsat_decides_rationals_witness:
  "\<not> (\<exists>r. list_all (ineq_sat r) (to_inequalities
     [Constraint \<lparr>l_terms = [(''x'', 2), (''y'', - 1)], l_constant = 1\<rparr> Le0,
      Constraint \<lparr>l_terms = [(''x'', 1)], l_constant = 0\<rparr> Ge0,
      Constraint \<lparr>l_terms = [(''y'', 1)], l_constant = 0\<rparr> Le0]))"
  using unsat_decides_rationals [OF sample_unsat identity_orders(1)]
  by (simp add: distinct_vars_def no_zero_def)

text \<open>Every variable of the constraints has an interval of \<open>i64\<close> values among the premises.\<close>

fun constraint_vars :: "constraint \<Rightarrow> string set" where
  "constraint_vars (Constraint l r) = set (map fst (l_terms l))"

definition interval_premises :: "constraint list \<Rightarrow> string set \<Rightarrow> bool" where
  "interval_premises ps V \<longleftrightarrow> (\<forall>v \<in> V. \<exists>lo hi. ifits 64 lo \<and> ifits 64 hi \<and>
     Constraint \<lparr>l_terms = [(v, 1)], l_constant = - hi\<rparr> Le0 \<in> set ps \<and>
     Constraint \<lparr>l_terms = [(v, 1)], l_constant = - lo\<rparr> Ge0 \<in> set ps)"

fun i64_constraint :: "constraint \<Rightarrow> bool" where
  "i64_constraint (Constraint l r) \<longleftrightarrow> (\<forall>(v, c) \<in> set (l_terms l). ifits 64 c) \<and> ifits 64 (l_constant l)"

lemma inequalities_of_vars:
  "wf_constraint c \<Longrightarrow> i \<in> set (inequalities_of c) \<Longrightarrow> set (hm_keys (li_coeffs i)) \<subseteq> constraint_vars c"
  by (cases c; cases "case c of Constraint l r \<Rightarrow> r")
    (auto simp: Let_def distinct_vars_def collect_map_distinct neg_terms_distinct hm_keys_def o_def
      split_beta simp del: set_map)

lemma map_fits_terms:
  assumes "\<forall>(v, c) \<in> set m. ifits 64 c"
  shows "map_fits m" and "map_fits (map (\<lambda>(v, c). (v, - c)) m)"
proof -
  have w: "ifits 128 c" "ifits 128 (- c)" if "ifits 64 c" for c
    using that by (auto simp: ifits_def)
  show "map_fits m" using assms w(1) by (induction m) (auto simp: map_fits_def)
  show "map_fits (map (\<lambda>(v, c). (v, - c)) m)" using assms w(2) by (induction m) (auto simp: map_fits_def)
qed

lemma to_inequalities_fits:
  "list_all wf_constraint cs \<Longrightarrow> list_all i64_constraint cs \<Longrightarrow> sys_fits (to_inequalities cs)"
proof (induction cs)
  case Nil
  then show ?case by (simp add: to_inequalities_def sys_fits_def)
next
  case (Cons c cs)
  obtain l r where c: "c = Constraint l r" by (cases c)
  from Cons.prems c have d: "distinct (map fst (l_terms l))" "\<forall>(v, k) \<in> set (l_terms l). ifits 64 k"
    by (auto simp: distinct_vars_def)
  have "sys_fits (inequalities_of c)"
    using d map_fits_terms [OF d(2)]
    by (cases r) (auto simp: c Let_def collect_map_distinct neg_terms_distinct sys_fits_def)
  with Cons show ?case by (auto simp: to_inequalities_def sys_fits_def)
qed

lemma interval_boxed:
  assumes "interval_premises ps (\<Union>c \<in> set (ps @ b). constraint_vars c)" and "list_all wf_constraint (ps @ b)"
  shows "boxed (to_inequalities (ps @ b))"
  unfolding boxed_def
proof
  fix v assume "v \<in> sys_vars (to_inequalities (ps @ b))"
  then obtain c i where ci: "c \<in> set (ps @ b)" "i \<in> set (inequalities_of c)" "v \<in> set (hm_keys (li_coeffs i))"
    by (auto simp: sys_vars_def to_inequalities_def)
  with inequalities_of_vars [OF _ ci(2)] assms(2) have "v \<in> constraint_vars c" by (auto simp: list_all_iff)
  with ci(1) assms(1) obtain lo hi where b: "ifits 64 lo" "ifits 64 hi"
    "Constraint \<lparr>l_terms = [(v, 1)], l_constant = - hi\<rparr> Le0 \<in> set ps"
    "Constraint \<lparr>l_terms = [(v, 1)], l_constant = - lo\<rparr> Ge0 \<in> set ps"
    unfolding interval_premises_def by blast
  have "\<lparr>li_coeffs = [(v, 1)], li_c = hi\<rparr> \<in> set (inequalities_of (Constraint \<lparr>l_terms = [(v, 1)], l_constant = - hi\<rparr> Le0))"
    "\<lparr>li_coeffs = [(v, - 1)], li_c = - lo\<rparr> \<in> set (inequalities_of (Constraint \<lparr>l_terms = [(v, 1)], l_constant = - lo\<rparr> Ge0))"
    by (simp_all add: collect_map_def neg_terms_def hm_insert_def)
  with b show "\<exists>lo hi. ifits 64 lo \<and> ifits 64 hi \<and>
      \<lparr>li_coeffs = [(v, 1)], li_c = hi\<rparr> \<in> set (to_inequalities (ps @ b)) \<and>
      \<lparr>li_coeffs = [(v, - 1)], li_c = - lo\<rparr> \<in> set (to_inequalities (ps @ b))"
    unfolding to_inequalities_def by fastforce
qed

lemma telos_model_sound:
  assumes "telos_model hash (ps @ b) = Some (Some m)" and "iter_order hash"
    and "list_all wf_constraint (ps @ b)" and "list_all i64_constraint (ps @ b)"
    and "interval_premises ps (\<Union>c \<in> set (ps @ b). constraint_vars c)"
  shows "\<forall>c \<in> set (ps @ b). is_ne c \<or> c_holds (model_state m) c"
proof -
  from assms(1) have "solve_model hash (to_inequalities (ps @ b)) = Some (Some (Some m))"
    by (auto simp: telos_model_def search_model_def split: bind_splits)
  from solve_model_sound [OF assms(2) to_inequalities_wf [OF assms(3)] to_inequalities_fits [OF assms(3,4)]
      this interval_boxed [OF assms(5,3)]] to_inequalities_sat [OF assms(3)]
  show ?thesis by simp
qed

lemma first_model_found:
  "first_model hash ps bs = Some (Some m) \<Longrightarrow> \<exists>b \<in> set bs. telos_model hash (ps @ b) = Some (Some m)"
  by (induction hash ps bs rule: first_model.induct) (auto split: bind_splits option.splits)

lemma negate_vars:
  "b \<in> set (telos_negate c) \<Longrightarrow> d \<in> set b \<Longrightarrow>
     constraint_vars d = constraint_vars c \<and> \<not> is_ne d \<and> (i64_constraint c \<longrightarrow> i64_constraint d) \<and>
     (c_holds s d \<longrightarrow> \<not> c_holds s c) \<and> b = [d]"
  by (cases c; cases "case c of Constraint l r \<Rightarrow> r") (auto simp del: set_map)

lemma negate_nonempty: "b \<in> set (telos_negate c) \<Longrightarrow> b \<noteq> []"
  by (cases c; cases "case c of Constraint l r \<Rightarrow> r") auto

lemma interval_fits:
  assumes "interval_premises ps V" and "v \<in> V" and "\<forall>p \<in> set ps. is_ne p \<or> c_holds s p"
  shows "ifits 64 (s v)"
proof -
  obtain lo hi where b: "ifits 64 lo" "ifits 64 hi"
    "Constraint \<lparr>l_terms = [(v, 1)], l_constant = - hi\<rparr> Le0 \<in> set ps" "Constraint \<lparr>l_terms = [(v, 1)], l_constant = - lo\<rparr> Ge0 \<in> set ps"
    using assms(1,2) unfolding interval_premises_def by blast
  from assms(3) b(3,4) have "s v \<le> hi" "lo \<le> s v" by (force simp: linear_val_def)+
  with b(1,2) show ?thesis by (auto simp: ifits_def)
qed

text \<open>
  C26. A reported counterexample is genuine up to \<open>!=\<close> premises. The hypotheses: the search returned a model, the constraints have no zero
  coefficients and coefficients of \<open>i64\<close>, and the premises bound every variable by an interval of \<open>i64\<close> values. Then the value of
  every variable of the constraints fits in \<open>i64\<close>, the model satisfies every premise other than the \<open>!=\<close> ones, which the solver drops,
  and it falsifies the conclusion.
\<close>

theorem counterexample_genuine:
  assumes "telos_counterexample hash ps c = Some (Some m)" and "iter_order hash"
    and "list_all wf_constraint (c # ps)" and "list_all i64_constraint (c # ps)"
    and "interval_premises ps (\<Union>d \<in> set (c # ps). constraint_vars d)"
  shows "list_all (\<lambda>p. is_ne p \<or> c_holds (model_state m) p) ps \<and> \<not> c_holds (model_state m) c \<and>
    (\<forall>d \<in> set (c # ps). \<forall>v \<in> constraint_vars d. ifits 64 (model_state m v))"
proof -
  from assms(1) obtain b where b: "b \<in> set (telos_negate c)" "telos_model hash (ps @ b) = Some (Some m)"
    unfolding telos_counterexample_def using first_model_found by blast
  then obtain d where d: "b = [d]" "constraint_vars d = constraint_vars c" "\<not> is_ne d" "i64_constraint d"
    "c_holds (model_state m) d \<Longrightarrow> \<not> c_holds (model_state m) c"
    using negate_vars [OF b(1)] negate_nonempty [OF b(1)] assms(4) by (metis list.set_intros(1) list.pred_inject(2) neq_Nil_conv)
  have w: "list_all wf_constraint (ps @ b)" using assms(3) negate_wf [OF _ b(1)] by simp
  have i: "list_all i64_constraint (ps @ b)" using assms(4) d by simp
  have "interval_premises ps (\<Union>c \<in> set (ps @ b). constraint_vars c)"
    using assms(5) d(1,2) by (simp add: Un_commute)
  from telos_model_sound [OF b(2) assms(2) w i this] have sound: "\<forall>p \<in> set ps. is_ne p \<or> c_holds (model_state m) p" "\<not> c_holds (model_state m) c"
    using d by auto
  moreover have "ifits 64 (model_state m v)" if "v \<in> (\<Union>d \<in> set (c # ps). constraint_vars d)" for v
    by (rule interval_fits [OF assms(5) that sound(1)])
  ultimately show ?thesis by (auto simp: list_all_iff)
qed

text \<open>
  C29. The search for a model ends: on constraints without zero coefficients the recursion reaches a
  result (a model, no model, or the panic of an overflow).
\<close>

theorem search_terminates:
  assumes "iter_order hash" and "list_all wf_constraint cs" and "list_all i64_constraint cs"
  shows "\<exists>r. search_model hash cs = Some r"
  unfolding search_model_def
  by (rule solve_model_ends) (use assms in \<open>auto simp: to_inequalities_wf to_inequalities_fits\<close>)

theorem search_terminates_witness:
  "\<exists>r. search_model (\<lambda>m. m) [Constraint \<lparr>l_terms = [(''x'', 2)], l_constant = - 1\<rparr> Eq0] = Some r"
  using search_terminates [of "\<lambda>m. m" "[Constraint \<lparr>l_terms = [(''x'', 2)], l_constant = - 1\<rparr> Eq0]"]
  by (simp add: distinct_vars_def no_zero_def ifits_def)

text \<open>A zero coefficient is never eliminated: the recursion does not end.\<close>

lemma solve_model_diverges: "solve_model (\<lambda>m. m) [\<lparr>li_coeffs = [(''x'', 0)], li_c = 0\<rparr>] = None"
proof -
  let ?bad = "\<lambda>h ineqs. h = (\<lambda>m. m) \<and> ineqs = [\<lparr>li_coeffs = [(''x'', 0)], li_c = 0\<rparr>]"
  have "\<not> ?bad h ineqs" if "solve_model h ineqs = Some y" for h ineqs y
    using _ that
  proof (rule solve_model.raw_induct [where P = "\<lambda>h ineqs y. \<not> ?bad h ineqs"])
    fix f h ineqs y
    assume ih: "\<And>h ineqs y. f h ineqs = Some y \<Longrightarrow> \<not> ?bad h ineqs"
      and body: "(case ineq_vars h ineqs of
          [] \<Rightarrow> Some (Some (if list_ex (\<lambda>i. li_c i < 0) ineqs then None else Some []))
        | v # _ \<Rightarrow> (case split_model v ineqs ([], [], []) of (uppers, lowers, rest) \<Rightarrow>
            (case combine_all combine_model (List.product uppers lowers) rest of
               None \<Rightarrow> Some None
             | Some new_ineqs \<Rightarrow> Option.bind (f h new_ineqs)
                 (\<lambda>r. Some (Option.bind r (recover h v uppers lowers)))))) = Some y"
    show "\<not> ?bad h ineqs"
    proof
      assume bad: "?bad h ineqs"
      with body have "\<exists>z. f h ineqs = Some z"
        by (auto simp: ineq_vars_def add_name_def hm_get_def split: bind_splits)
      with ih [of h ineqs] bad show False by blast
    qed
  qed
  then show ?thesis by (cases "solve_model (\<lambda>m. m) [\<lparr>li_coeffs = [(''x'', 0)], li_c = 0\<rparr>]") auto
qed

text \<open>Evaluation of the search on concrete inequalities, round by round.\<close>

lemmas solver_eval = ineq_vars_def add_name_def split_model_filter bound_on_def remove_var_def
  combine_model_def merge_keys_def hm_keys_def cross_i128_def ichecked_mul_def ichecked_sub_def
  ichecked_add_def ichecked_neg_def ichecked_def ifits_def hm_insert_def recover_def eval_map_def
  frac_new_def as_u128_def unsigned_abs_def gcd_loop_gcd as_i128_def frac_max_def frac_min_def
  telos_pick_value_def frac_ceil_def frac_floor_def div_euclid_def rem_euclid_def as_i64_def sdiv_exact

lemma solve_interval:
  "solve_model (\<lambda>m. m) [\<lparr>li_coeffs = [(''x'', 1)], li_c = 10\<rparr>, \<lparr>li_coeffs = [(''x'', - 1)], li_c = 0\<rparr>,
     \<lparr>li_coeffs = [(''x'', 1)], li_c = 4\<rparr>] = Some (Some (Some [(''x'', 0)]))"
  apply (subst solve_model.simps)
  apply (simp add: solver_eval)
  apply (subst solve_model.simps)
  apply (simp add: solver_eval)
  done

lemma sample_counterexample:
  "telos_counterexample (\<lambda>m. m)
     [Constraint \<lparr>l_terms = [(''x'', 1)], l_constant = - 10\<rparr> Le0, Constraint \<lparr>l_terms = [(''x'', 1)], l_constant = 0\<rparr> Ge0]
     (Constraint \<lparr>l_terms = [(''x'', 1)], l_constant = - 5\<rparr> Ge0) = Some (Some [(''x'', 0)])"
  by (simp add: telos_counterexample_def telos_model_def search_model_def to_inequalities_def collect_map_def
      neg_terms_def hm_insert_def solve_interval)

theorem counterexample_genuine_witness:
  "c_holds (model_state [(''x'', 0)]) (Constraint \<lparr>l_terms = [(''x'', 1)], l_constant = - 10\<rparr> Le0) \<and> ifits 64 (model_state [(''x'', 0)] ''x'') \<and>
   \<not> c_holds (model_state [(''x'', 0)]) (Constraint \<lparr>l_terms = [(''x'', 1)], l_constant = - 5\<rparr> Ge0)"
proof -
  let ?ps = "[Constraint \<lparr>l_terms = [(''x'', 1)], l_constant = - 10\<rparr> Le0,
    Constraint \<lparr>l_terms = [(''x'', 1)], l_constant = - 0\<rparr> Ge0]"
  have "interval_premises ?ps {''x''}"
    unfolding interval_premises_def by (rule ballI, rule exI [of _ 0], rule exI [of _ 10]) (simp add: ifits_def)
  then show ?thesis
    using counterexample_genuine [OF sample_counterexample] identity_orders(1)
    by (simp add: distinct_vars_def no_zero_def ifits_def)
qed

text \<open>A \<open>!=\<close> premise is dropped: the counterexample reported for \<open>0 \<le> x \<le> 10\<close> and \<open>x \<noteq> 0\<close> is \<open>x = 0\<close>.\<close>

lemma counterexample_violates_premise:
  "telos_counterexample (\<lambda>m. m)
     [Constraint \<lparr>l_terms = [(''x'', 1)], l_constant = - 10\<rparr> Le0, Constraint \<lparr>l_terms = [(''x'', 1)], l_constant = 0\<rparr> Ge0,
      Constraint \<lparr>l_terms = [(''x'', 1)], l_constant = 0\<rparr> Ne0]
     (Constraint \<lparr>l_terms = [(''x'', 1)], l_constant = - 5\<rparr> Ge0) = Some (Some [(''x'', 0)])"
  by (simp add: telos_counterexample_def telos_model_def search_model_def to_inequalities_def collect_map_def
      neg_terms_def hm_insert_def solve_interval)

text \<open>
  The search is not complete for the integers: it fixes the first value it can give a variable.
  Here \<open>2 y = x\<close> and \<open>1 \<le> x \<le> 2\<close> has the solution \<open>x = 2, y = 1\<close>, but with \<open>y\<close> eliminated first the search
  takes \<open>x = 1\<close> and gives up.
\<close>

lemma search_misses_model:
  "solve_model (\<lambda>m. m)
     [\<lparr>li_coeffs = [(''y'', 2), (''x'', - 1)], li_c = 0\<rparr>, \<lparr>li_coeffs = [(''y'', - 2), (''x'', 1)], li_c = 0\<rparr>,
      \<lparr>li_coeffs = [(''x'', - 1)], li_c = - 1\<rparr>, \<lparr>li_coeffs = [(''x'', 1)], li_c = 2\<rparr>] = Some (Some None)"
  apply (subst solve_model.simps)
  apply (simp add: solver_eval)
  apply (subst solve_model.simps)
  apply (simp add: solver_eval)
  apply (subst solve_model.simps)
  apply (simp add: solver_eval)
  done

end
