(* ===== verification/Telos_Pool.thy ===== *)
theory Telos_Pool
  imports Telos_Verify
begin

text \<open>
  The worker pool of the telos verifier (\<open>telos-verifier/src/cluster.rs\<close>): one call of
  \<open>verify_all\<close>, as the interleaving of the caller and the worker threads.

  The state holds the task channel of every worker, whether its thread still runs, the shared result
  channel, and the caller's position: how many problems it has sent, the result slots and the
  number of results received. A worker takes a task, runs the solver and sends the result
  in one step, as nothing of the middle is visible to another thread. A worker whose solver panics ends
  its thread and its channel; sending to it is ignored by the caller. The worker is any function
  from problems to results (the trait \<open>SolverWorker\<close>), with \<open>None\<close> for a panic.
\<close>

subsection \<open>State and steps\<close>

record ('p, 'r) pool =
  task_queues :: "(nat \<times> 'p) list list"
  running :: "bool list"
  result_queue :: "(nat \<times> 'r) list"
  sent :: nat
  slots :: "'r option list"
  received :: nat

definition pool_start :: "nat \<Rightarrow> 'p list \<Rightarrow> ('p, 'r) pool" where
  "pool_start num_workers problems =
     \<lparr>task_queues = replicate num_workers [], running = replicate num_workers True, result_queue = [],
      sent = 0, slots = replicate (length problems) None, received = 0\<rparr>"

definition worker_idx :: "('p, 'r) pool \<Rightarrow> nat" where
  "worker_idx s = sent s mod length (task_queues s)"

definition send_task :: "'p list \<Rightarrow> ('p, 'r) pool \<Rightarrow> ('p, 'r) pool" where
  "send_task problems s =
     s\<lparr>sent := sent s + 1,
       task_queues :=
         (if running s ! worker_idx s
          then (task_queues s)[worker_idx s := task_queues s ! worker_idx s @ [(sent s, problems ! sent s)]]
          else task_queues s)\<rparr>"

definition work_task :: "nat \<Rightarrow> 'r \<Rightarrow> ('p, 'r) pool \<Rightarrow> ('p, 'r) pool" where
  "work_task w r s =
     s\<lparr>task_queues := (task_queues s)[w := tl (task_queues s ! w)],
       result_queue := result_queue s @ [(fst (hd (task_queues s ! w)), r)]\<rparr>"

definition stop_worker :: "nat \<Rightarrow> ('p, 'r) pool \<Rightarrow> ('p, 'r) pool" where
  "stop_worker w s = s\<lparr>task_queues := (task_queues s)[w := []], running := (running s)[w := False]\<rparr>"

definition receive_result :: "('p, 'r) pool \<Rightarrow> ('p, 'r) pool" where
  "receive_result s =
     (case hd (result_queue s) of (idx, r) \<Rightarrow>
        s\<lparr>result_queue := tl (result_queue s), slots := (slots s)[idx := Some r], received := received s + 1\<rparr>)"

inductive pool_step :: "('p \<Rightarrow> 'r panics) \<Rightarrow> 'p list \<Rightarrow> ('p, 'r) pool \<Rightarrow> ('p, 'r) pool \<Rightarrow> bool"
  for work :: "'p \<Rightarrow> 'r panics" and problems :: "'p list" where
  send: "sent s < length problems \<Longrightarrow> task_queues s \<noteq> [] \<Longrightarrow> pool_step work problems s (send_task problems s)"
| work: "w < length (task_queues s) \<Longrightarrow> running s ! w \<Longrightarrow> task_queues s ! w = (i, p) # rest \<Longrightarrow>
    work p = Some r \<Longrightarrow> pool_step work problems s (work_task w r s)"
| stop: "w < length (task_queues s) \<Longrightarrow> running s ! w \<Longrightarrow> task_queues s ! w = (i, p) # rest \<Longrightarrow>
    work p = None \<Longrightarrow> pool_step work problems s (stop_worker w s)"
| receive: "sent s = length problems \<Longrightarrow> received s < length problems \<Longrightarrow> result_queue s \<noteq> [] \<Longrightarrow>
    pool_step work problems s (receive_result s)"

inductive_cases pool_stepE: "pool_step work problems s t"

inductive pool_reachable :: "('p \<Rightarrow> 'r panics) \<Rightarrow> nat \<Rightarrow> 'p list \<Rightarrow> ('p, 'r) pool \<Rightarrow> bool"
  for work :: "'p \<Rightarrow> 'r panics" and num_workers :: nat and problems :: "'p list" where
  start: "pool_reachable work num_workers problems (pool_start num_workers problems)"
| step: "pool_reachable work num_workers problems s \<Longrightarrow> pool_step work problems s t \<Longrightarrow>
    pool_reachable work num_workers problems t"

text \<open>The loop of the caller has ended, and what it returns.\<close>

definition pool_done :: "'p list \<Rightarrow> ('p, 'r) pool \<Rightarrow> bool" where
  "pool_done problems s \<longleftrightarrow> sent s = length problems \<and> received s = length problems"

subsection \<open>The invariant\<close>

text \<open>
  The indices in flight: queued, in the result channel, or in a slot. With no worker stopped,
  they are exactly the indices sent so far, each once.
\<close>

definition filled :: "'r option list \<Rightarrow> nat list" where
  "filled xs = filter (\<lambda>i. xs ! i \<noteq> None) [0..<length xs]"

definition in_flight :: "('p, 'r) pool \<Rightarrow> nat list" where
  "in_flight s = concat (map (map fst) (task_queues s)) @ map fst (result_queue s) @ filled (slots s)"

definition solver_pool_inv :: "('p \<Rightarrow> 'r panics) \<Rightarrow> nat \<Rightarrow> 'p list \<Rightarrow> ('p, 'r) pool \<Rightarrow> bool" where
  "solver_pool_inv work k problems s \<longleftrightarrow>
     length (task_queues s) = k \<and> running s = replicate k True \<and>
     length (slots s) = length problems \<and> sent s \<le> length problems \<and>
     mset (in_flight s) = mset [0..<sent s] \<and>
     received s = length (filled (slots s)) \<and>
     (\<forall>q \<in> set (task_queues s). \<forall>(i, p) \<in> set q. p = problems ! i) \<and>
     (\<forall>(i, r) \<in> set (result_queue s). work (problems ! i) = Some r) \<and>
     (\<forall>i < length problems. \<forall>r. slots s ! i = Some r \<longrightarrow> work (problems ! i) = Some r)"

lemma filled_replicate [simp]: "filled (replicate n None) = []"
  by (simp add: filled_def filter_empty_conv)

lemma set_filled: "set (filled xs) = {i. i < length xs \<and> xs ! i \<noteq> None}"
  by (auto simp: filled_def)

lemma distinct_filled: "distinct (filled xs)"
  by (simp add: filled_def)

lemma mset_filled_update:
  assumes "i < length xs" and "xs ! i = None"
  shows "mset (filled (xs[i := Some r])) = add_mset i (mset (filled xs))"
proof -
  have "set (filled (xs[i := Some r])) = set (i # filled xs)"
    using assms by (auto simp: set_filled nth_list_update split: if_splits)
  moreover have "distinct (i # filled xs)" using assms by (simp add: distinct_filled set_filled)
  ultimately have "mset (filled (xs[i := Some r])) = mset (i # filled xs)"
    using distinct_filled by (metis set_eq_iff_mset_eq_distinct)
  then show ?thesis by simp
qed

lemma mset_concat_update:
  "w < length qs \<Longrightarrow> mset (concat (qs[w := q])) + mset (qs ! w) = mset (concat qs) + mset q"
proof (induction qs arbitrary: w)
  case Nil
  then show ?case by simp
next
  case (Cons a qs)
  then show ?case by (cases w) (auto simp: ac_simps)
qed

lemma pool_inv_start: "solver_pool_inv work k problems (pool_start k problems)"
proof -
  have "concat (map (map fst) (replicate k [])) = []" by (induction k) auto
  then show ?thesis by (simp add: solver_pool_inv_def pool_start_def in_flight_def)
qed

lemma in_flight_facts:
  assumes "solver_pool_inv work k problems s"
  shows "set (in_flight s) = {..<sent s}" and "distinct (in_flight s)"
proof -
  from assms have m: "mset (in_flight s) = mset [0..<sent s]" by (simp add: solver_pool_inv_def)
  from mset_eq_setD [OF m] show "set (in_flight s) = {..<sent s}" by (simp only: set_upt atLeast0LessThan)
  from mset_eq_imp_distinct_iff [OF m] show "distinct (in_flight s)" by (simp only: distinct_upt)
qed

lemma pool_inv_send:
  assumes "solver_pool_inv work k problems s" and "sent s < length problems" and "task_queues s \<noteq> []"
  shows "solver_pool_inv work k problems (send_task problems s)"
proof -
  let ?w = "worker_idx s" and ?qs = "task_queues s"
  have k: "length ?qs = k" "running s = replicate k True" using assms(1) by (simp_all add: solver_pool_inv_def)
  have "0 < k" using assms(3) k(1) by auto
  then have w: "?w < k" by (simp add: worker_idx_def k(1))
  let ?q = "?qs ! ?w @ [(sent s, problems ! sent s)]"
  have s': "task_queues (send_task problems s) = ?qs[?w := ?q]" "sent (send_task problems s) = sent s + 1"
    "running (send_task problems s) = running s" "slots (send_task problems s) = slots s"
    "result_queue (send_task problems s) = result_queue s" "received (send_task problems s) = received s"
    using w k by (simp_all add: send_task_def)
  have "mset (concat (map (map fst) (?qs[?w := ?q]))) = mset (concat (map (map fst) ?qs)) + {# sent s #}"
    using mset_concat_update [of ?w "map (map fst) ?qs" "map fst ?q"] w k by (simp add: map_update)
  then have "mset (in_flight (send_task problems s)) = mset [0..<sent (send_task problems s)]"
    using assms(1) by (simp add: in_flight_def s' solver_pool_inv_def)
  moreover have old: "\<forall>q \<in> set ?qs. \<forall>(i, p) \<in> set q. p = problems ! i"
    using assms(1) by (simp add: solver_pool_inv_def)
  then have "\<forall>(i, p) \<in> set ?q. p = problems ! i" using w k(1) by (auto dest: nth_mem)
  with old have "\<forall>q \<in> set (?qs[?w := ?q]). \<forall>(i, p) \<in> set q. p = problems ! i"
    using set_update_subset_insert [of ?qs ?w ?q] by blast
  ultimately show ?thesis using assms(1,2) unfolding solver_pool_inv_def s' by simp
qed

lemma pool_inv_work:
  assumes "solver_pool_inv work k problems s" and "w < length (task_queues s)"
    and "task_queues s ! w = (i, p) # rest" and "work p = Some r"
  shows "solver_pool_inv work k problems (work_task w r s)"
proof -
  let ?qs = "task_queues s"
  have s': "task_queues (work_task w r s) = ?qs[w := rest]" "sent (work_task w r s) = sent s"
    "running (work_task w r s) = running s" "slots (work_task w r s) = slots s"
    "result_queue (work_task w r s) = result_queue s @ [(i, r)]" "received (work_task w r s) = received s"
    using assms(3) by (simp_all add: work_task_def)
  have "mset (concat (map (map fst) ?qs)) = mset (concat (map (map fst) (?qs[w := rest]))) + {# i #}"
    using mset_concat_update [of w "map (map fst) ?qs" "map fst rest"] assms(2,3) by (simp add: map_update)
  then have "mset (in_flight (work_task w r s)) = mset (in_flight s)"
    by (simp add: in_flight_def s')
  then have "mset (in_flight (work_task w r s)) = mset [0..<sent s]"
    using assms(1) by (simp only: solver_pool_inv_def)
  moreover have q: "(i, p) # rest \<in> set ?qs" using assms(2,3) nth_mem by metis
  then have "p = problems ! i" "\<forall>(i, p) \<in> set rest. p = problems ! i"
    using assms(1) unfolding solver_pool_inv_def by fastforce+
  moreover from this(2) have "\<forall>q \<in> set (?qs[w := rest]). \<forall>(i, p) \<in> set q. p = problems ! i"
    using assms(1) by (auto simp: solver_pool_inv_def dest!: set_update_subset_insert [THEN subsetD])
  ultimately show ?thesis using assms(1,4) unfolding solver_pool_inv_def s' by auto
qed

lemma pool_inv_receive:
  assumes "solver_pool_inv work k problems s" and "sent s = length problems" and "result_queue s \<noteq> []"
  shows "solver_pool_inv work k problems (receive_result s)"
proof -
  obtain i r rs where q: "result_queue s = (i, r) # rs" using assms(3) by (metis list.exhaust surj_pair)
  have s': "task_queues (receive_result s) = task_queues s" "sent (receive_result s) = sent s"
    "running (receive_result s) = running s" "slots (receive_result s) = (slots s)[i := Some r]"
    "result_queue (receive_result s) = rs" "received (receive_result s) = received s + 1"
    by (simp_all add: receive_result_def q)
  note fl = in_flight_facts [OF assms(1)]
  have len: "length (slots s) = length problems" using assms(1) by (simp add: solver_pool_inv_def)
  have i: "i < length (slots s)" "slots s ! i = None"
    using fl assms(2) len by (auto simp: in_flight_def q set_filled)
  note f = mset_filled_update [OF i, of r]
  have "mset (in_flight (receive_result s)) = mset (in_flight s)"
    using f by (simp add: in_flight_def s' q)
  then have "mset (in_flight (receive_result s)) = mset [0..<sent s]"
    using assms(1) by (simp only: solver_pool_inv_def)
  moreover have "length (filled ((slots s)[i := Some r])) = received s + 1"
    using assms(1) arg_cong [OF f, of size] by (simp add: solver_pool_inv_def)
  moreover have "work (problems ! i) = Some r" using assms(1) by (auto simp: solver_pool_inv_def q)
  then have "\<forall>j < length problems. \<forall>x. (slots s)[i := Some r] ! j = Some x \<longrightarrow> work (problems ! j) = Some x"
    using assms(1) len i(1) by (auto simp: solver_pool_inv_def nth_list_update split: if_splits)
  ultimately show ?thesis using assms(1) q unfolding solver_pool_inv_def s' by simp
qed

text \<open>The queued problems are among the given ones, so no worker stops when none of them panics.\<close>

lemma queued_problem:
  assumes "solver_pool_inv work k problems s" and "w < length (task_queues s)" and "task_queues s ! w = (i, p) # rest"
  shows "p \<in> set problems"
proof -
  have q: "(i, p) # rest \<in> set (task_queues s)" using assms(2,3) nth_mem by metis
  then have "i \<in> set (in_flight s)" by (force simp: in_flight_def)
  with in_flight_facts(1) [OF assms(1)] assms(1) have "i < length problems" by (auto simp: solver_pool_inv_def)
  moreover from q assms(1) have "p = problems ! i" unfolding solver_pool_inv_def by fastforce
  ultimately show ?thesis by simp
qed

lemma pool_reachable_inv:
  assumes "pool_reachable work k problems s" and "\<forall>p \<in> set problems. work p \<noteq> None"
  shows "solver_pool_inv work k problems s"
  using assms(1)
proof (induction rule: pool_reachable.induct)
  case start
  show ?case by (rule pool_inv_start)
next
  case (step s t)
  from step(2) show ?case
  proof (rule pool_stepE)
    assume "t = send_task problems s" "sent s < length problems" "task_queues s \<noteq> []"
    then show ?thesis using pool_inv_send [OF step.IH] by simp
  next
    fix w i p rest r
    assume "t = work_task w r s" "w < length (task_queues s)" "task_queues s ! w = (i, p) # rest" "work p = Some r"
    then show ?thesis using pool_inv_work [OF step.IH] by simp
  next
    fix w i p rest assume w: "w < length (task_queues s)" "task_queues s ! w = (i, p) # rest" "work p = None"
    from queued_problem [OF step.IH w(1,2)] assms(2) w(3) show ?thesis by fastforce
  next
    assume "t = receive_result s" "sent s = length problems" "result_queue s \<noteq> []"
    then show ?thesis using pool_inv_receive [OF step.IH] by simp
  qed
qed

subsection \<open>Progress\<close>

definition pool_measure :: "'p list \<Rightarrow> ('p, 'r) pool \<Rightarrow> nat" where
  "pool_measure problems s =
     3 * (length problems - sent s) + 2 * length (concat (task_queues s)) + length (result_queue s)"

lemma length_concat_update:
  "w < length qs \<Longrightarrow> length (concat (qs[w := q])) + length (qs ! w) = length (concat qs) + length q"
  using arg_cong [OF mset_concat_update [of w qs q], of size] by simp

lemma pool_measure_step:
  assumes "pool_step work problems s t" and "length (running s) = length (task_queues s)"
  shows "pool_measure problems t < pool_measure problems s"
  using assms(1)
proof (rule pool_stepE)
  assume t: "t = send_task problems s" and lt: "sent s < length problems" and ne: "task_queues s \<noteq> []"
  then have w: "worker_idx s < length (task_queues s)" by (simp add: worker_idx_def)
  show ?thesis
    using length_concat_update [OF w, of "task_queues s ! worker_idx s @ [(sent s, problems ! sent s)]"] lt
    by (auto simp: t send_task_def pool_measure_def)
next
  fix w i p rest r
  assume "t = work_task w r s" "w < length (task_queues s)" "task_queues s ! w = (i, p) # rest"
  then show ?thesis using length_concat_update [of w "task_queues s" rest]
    by (simp add: work_task_def pool_measure_def)
next
  fix w i p rest
  assume "t = stop_worker w s" "w < length (task_queues s)" "task_queues s ! w = (i, p) # rest"
  then show ?thesis using length_concat_update [of w "task_queues s" "[]"]
    by (simp add: stop_worker_def pool_measure_def)
next
  assume "t = receive_result s" "result_queue s \<noteq> []"
  then show ?thesis by (cases "result_queue s") (auto simp: receive_result_def pool_measure_def)
qed

lemma pool_not_stuck:
  assumes "solver_pool_inv work k problems s" and "0 < k" and "\<forall>p \<in> set problems. work p \<noteq> None"
    and "\<not> pool_done problems s"
  shows "\<exists>t. pool_step work problems s t"
proof (cases "sent s < length problems")
  case True
  moreover have "task_queues s \<noteq> []" using assms(1,2) by (auto simp: solver_pool_inv_def)
  ultimately show ?thesis using pool_step.send by blast
next
  case False
  with assms(1) have all: "sent s = length problems" by (simp add: solver_pool_inv_def)
  have "mset (in_flight s) = mset [0..<length problems]" using assms(1) all by (simp only: solver_pool_inv_def)
  then have len: "length (in_flight s) = length problems" by (metis diff_zero length_upt size_mset)
  have rec: "received s = length (filled (slots s))" and k: "length (task_queues s) = k" "running s = replicate k True"
    using assms(1) by (auto simp: solver_pool_inv_def)
  from assms(4) all have nd: "received s \<noteq> length problems" by (simp add: pool_done_def)
  with len rec have lt: "received s < length problems" by (simp add: in_flight_def)
  show ?thesis
  proof (cases "result_queue s = []")
    case False
    with all lt show ?thesis using pool_step.receive by blast
  next
    case True
    then have "length (in_flight s) = length (concat (task_queues s)) + length (filled (slots s))"
      by (simp add: in_flight_def flip: map_concat)
    with len rec lt have "0 < length (concat (task_queues s))" by linarith
    then have "concat (task_queues s) \<noteq> []" by fastforce
    then obtain q where "q \<in> set (task_queues s)" "q \<noteq> []" by (auto simp: concat_eq_Nil_conv)
    then obtain w where w: "w < length (task_queues s)" "task_queues s ! w \<noteq> []" by (metis in_set_conv_nth)
    then obtain i p rest where q: "task_queues s ! w = (i, p) # rest" by (metis list.exhaust surj_pair)
    from queued_problem [OF assms(1) w(1) q] assms(3) obtain r where "work p = Some r" by auto
    with w(1) q k have "pool_step work problems s (work_task w r s)" by (auto intro: pool_step.work)
    then show ?thesis by blast
  qed
qed

lemma pool_done_slots:
  assumes "solver_pool_inv work k problems s" and "pool_done problems s"
  shows "slots s = map work problems"
proof (rule nth_equalityI)
  show len: "length (slots s) = length (map work problems)" using assms(1) by (simp add: solver_pool_inv_def)
  fix i assume i: "i < length (slots s)"
  have "length (filled (slots s)) = length (slots s)"
    using assms len by (simp add: solver_pool_inv_def pool_done_def)
  then have "card (set (filled (slots s))) = card {..<length (slots s)}"
    by (simp add: distinct_card distinct_filled)
  moreover have "set (filled (slots s)) \<subseteq> {..<length (slots s)}" by (auto simp: set_filled)
  ultimately have "set (filled (slots s)) = {..<length (slots s)}" by (intro card_subset_eq) auto
  with i obtain r where "slots s ! i = Some r" by (auto simp: set_filled)
  with i len assms(1) show "slots s ! i = map work problems ! i" by (simp add: solver_pool_inv_def)
qed

subsection \<open>Properties\<close>

text \<open>
  C27. Parallel verification: with at least one worker and a solver that does not panic on the
  problems, in every interleaving a state that has not finished has a next step, every step makes the
  remaining work smaller (so every run ends), and a finished state holds the results in the order
  of the problems, one for each.
\<close>

theorem pool_verifies_in_order:
  assumes "pool_reachable work num_workers problems s" and "0 < num_workers"
    and "list_all (\<lambda>p. work p \<noteq> None) problems"
  shows "(if pool_done problems s then slots s = map work problems else \<exists>t. pool_step work problems s t) \<and>
     {t. pool_step work problems s t} \<subseteq> {t. pool_measure problems t < pool_measure problems s}"
proof -
  from assms(3) have np: "\<forall>p \<in> set problems. work p \<noteq> None" by (simp add: list_all_iff)
  note inv = pool_reachable_inv [OF assms(1) np]
  have "length (running s) = length (task_queues s)" using inv by (simp add: solver_pool_inv_def)
  then show ?thesis
    using pool_done_slots [OF inv] pool_not_stuck [OF inv assms(2) np] pool_measure_step by auto
qed

text \<open>
  A panic of the solver leaves the caller waiting: its worker is gone, the result it waits for never
  comes, and no step is left.
\<close>

lemma pool_hangs_on_panic:
  "\<exists>s. pool_reachable (\<lambda>p :: nat. None :: nat option) 1 [7] s \<and> \<not> pool_done [7] s \<and>
     (\<forall>t. \<not> pool_step (\<lambda>p. None :: nat option) [7] s t)"
proof -
  let ?s0 = "pool_start 1 [7 :: nat] :: (nat, nat) pool"
  let ?s1 = "send_task [7] ?s0"
  let ?s2 = "stop_worker 0 ?s1"
  have "pool_step (\<lambda>p. None) [7] ?s0 ?s1" by (rule pool_step.send) (simp_all add: pool_start_def)
  moreover have "pool_step (\<lambda>p. None) [7] ?s1 ?s2"
    by (rule pool_step.stop [where i = 0 and p = 7 and rest = "[]"])
      (simp_all add: pool_start_def send_task_def worker_idx_def)
  ultimately have "pool_reachable (\<lambda>p. None) 1 [7] ?s2"
    using pool_reachable.start pool_reachable.step by metis
  moreover have "\<not> pool_done [7] ?s2" by (simp add: pool_done_def pool_start_def send_task_def stop_worker_def)
  moreover have "\<not> pool_step (\<lambda>p. None) [7] ?s2 t" for t
    by (rule notI, erule pool_stepE) (auto simp: pool_start_def send_task_def stop_worker_def worker_idx_def)
  ultimately show ?thesis by blast
qed

text \<open>A run of two workers on two problems, the second one finished first.\<close>

lemma sample_pool_run:
  "\<exists>s :: (nat, nat) pool. pool_reachable Some 2 [4, 6] s \<and> pool_done [4, 6] s"
proof -
  let ?s0 = "pool_start 2 [4, 6 :: nat] :: (nat, nat) pool"
  let ?s1 = "send_task [4, 6] ?s0"
  let ?s2 = "send_task [4, 6] ?s1"
  let ?s3 = "work_task 1 6 ?s2"
  let ?s4 = "work_task 0 4 ?s3"
  let ?s5 = "receive_result ?s4"
  let ?s6 = "receive_result ?s5"
  note e = pool_start_def send_task_def work_task_def receive_result_def worker_idx_def numeral_2_eq_2
  have "pool_step Some [4, 6] ?s0 ?s1" by (rule pool_step.send) (simp_all add: e)
  moreover have "pool_step Some [4, 6] ?s1 ?s2" by (rule pool_step.send) (simp_all add: e)
  moreover have "pool_step Some [4, 6] ?s2 ?s3"
    by (rule pool_step.work [where i = 1 and p = 6 and rest = "[]"]) (simp_all add: e)
  moreover have "pool_step Some [4, 6] ?s3 ?s4"
    by (rule pool_step.work [where i = 0 and p = 4 and rest = "[]"]) (simp_all add: e)
  moreover have "pool_step Some [4, 6] ?s4 ?s5" by (rule pool_step.receive) (simp_all add: e)
  moreover have "pool_step Some [4, 6] ?s5 ?s6" by (rule pool_step.receive) (simp_all add: e)
  ultimately have "pool_reachable Some 2 [4, 6] ?s6"
    by (meson pool_reachable.start pool_reachable.step)
  moreover have "pool_done [4, 6] ?s6" by (simp add: e pool_done_def)
  ultimately show ?thesis by blast
qed

theorem pool_verifies_in_order_witness:
  "\<exists>s :: (nat, nat) pool. pool_done [4, 6] s \<and> slots s = [Some 4, Some 6]"
proof -
  from sample_pool_run obtain s :: "(nat, nat) pool" where
    s: "pool_reachable Some 2 [4, 6] s" "pool_done [4, 6] s" by blast
  from pool_verifies_in_order [OF s(1)] s(2) show ?thesis by auto
qed

end
