(* ===== verification/Telos_Syntax.thy ===== *)
theory Telos_Syntax
  imports Telos_Linear
begin

text \<open>
  The abstract syntax of the telos language (\<open>telos-parser/src/ast.rs\<close>) and the syntactic
  helpers of the extraction (\<open>telos-ir/src/extract.rs\<close>): printing, substitution, the fields
  and variables of an expression. The struct an enum variant of the source wraps is written as the
  arguments of the constructor.
\<close>

subsection \<open>Types, patterns, expressions, statements\<close>

datatype ttype =
    TyNamed string
  | TyGeneric string "ttype list"
  | TyTuple "ttype list"
  | TyArray ttype nat
  | TySlice ttype

fun ttype_name :: "ttype \<Rightarrow> string" where
  "ttype_name (TyNamed s) = s"
| "ttype_name (TyGeneric s _) = s"
| "ttype_name (TyTuple _) = ''Tuple''"
| "ttype_name (TyArray _ _) = ''Array''"
| "ttype_name (TySlice _) = ''Slice''"

datatype tpattern =
    PatLiteral int
  | PatVar string
  | PatConstructor string "tpattern list"
  | PatWildcard

datatype tunop = TNeg

datatype tbinop = TAdd | TSub | TMul | TDiv | TEq | TNe | TLt | TLe | TGt | TGe | TAnd | TOr

datatype aggregate_op = AggSum | AggMin | AggMax | AggCount

fun op_name :: "aggregate_op \<Rightarrow> string" where
  "op_name AggSum = ''sum''"
| "op_name AggMin = ''min''"
| "op_name AggMax = ''max''"
| "op_name AggCount = ''count''"

datatype texpr =
    TInt int
  | TVar string
  | TField string string
  | TOld texpr
  | TUnary tunop texpr
  | TBin tbinop texpr texpr
  | TCall string "texpr list"
  | TMethodCall texpr string "texpr list"
  | TIndex texpr texpr
  | TIf texpr texpr texpr
  | TMatch texpr "(tpattern \<times> texpr) list"
  | TTry texpr
  | TForall string ttype "texpr option" texpr
  | TAggregate aggregate_op "texpr list"
  | TRange texpr texpr

datatype assign_op = AssignSet | AssignAdd | AssignSub

record assign =
  as_target :: texpr
  as_op :: assign_op
  as_value :: texpr

datatype tstmt =
    SMutateState "assign list"
  | SAssign assign
  | SLet string "ttype option" texpr
  | SIf texpr "tstmt list" "tstmt list option"
  | SMatch texpr "(tpattern \<times> tstmt list) list"
  | SReturn "texpr option"

subsection \<open>Modules\<close>

datatype tliteral = LitInt int | LitIdent string

datatype targ = ArgFlag string | ArgKv string tliteral

record attribute =
  at_name :: string
  at_args :: "targ list"

record invariant =
  in_name :: string
  in_constraints :: "texpr list"
  in_span :: span
  in_constraint_spans :: "span list"

datatype param_mutability = ParamImmutable | ParamMutable

record param =
  pa_name :: string
  pa_ty :: ttype
  pa_mutability :: param_mutability

record tfunc =
  fn_attributes :: "attribute list"
  fn_name :: string
  fn_params :: "param list"
  fn_return_ty :: "ttype option"
  fn_requires :: "texpr list"
  fn_ensures :: "texpr list"
  fn_body :: "tstmt list"
  fn_elided :: bool
  fn_span :: span
  fn_requires_spans :: "span list"
  fn_ensures_spans :: "span list"

record field_def =
  fd_name :: string
  fd_ty :: ttype

record struct_decl =
  sd_name :: string
  sd_fields :: "field_def list"

record variant_def =
  va_name :: string
  va_fields :: "field_def list"

record enum_decl =
  ed_name :: string
  ed_variants :: "variant_def list"

datatype titem = ItInvariant invariant | ItFunc tfunc | ItStruct struct_decl | ItEnum enum_decl

fun item_name :: "titem \<Rightarrow> string" where
  "item_name (ItFunc f) = fn_name f"
| "item_name (ItInvariant i) = in_name i"
| "item_name (ItStruct s) = sd_name s"
| "item_name (ItEnum e) = ed_name e"

record tmodule =
  mo_attributes :: "attribute list"
  mo_name :: string
  mo_items :: "titem list"

definition is_ejected :: "tfunc \<Rightarrow> bool" where
  "is_ejected f = list_ex (\<lambda>a. at_name a = ''eject'') (fn_attributes f)"

fun first_flag :: "targ list \<Rightarrow> string option" where
  "first_flag [] = None"
| "first_flag (ArgFlag f # _) = Some f"
| "first_flag (ArgKv _ _ # args) = first_flag args"

fun eject_flag :: "attribute list \<Rightarrow> string option" where
  "eject_flag [] = None"
| "eject_flag (a # as) =
     (if at_name a = ''eject''
      then (case first_flag (at_args a) of Some f \<Rightarrow> Some f | None \<Rightarrow> eject_flag as)
      else eject_flag as)"

definition eject_lang :: "tfunc \<Rightarrow> string option" where
  "eject_lang f = eject_flag (fn_attributes f)"

definition returns_result :: "tfunc \<Rightarrow> bool" where
  "returns_result f = (case fn_return_ty f of Some (TyGeneric name _) \<Rightarrow> name = ''Result'' | _ \<Rightarrow> False)"

subsection \<open>Printing\<close>

fun tbinop_str :: "tbinop \<Rightarrow> string" where
  "tbinop_str TAdd = ''+''"
| "tbinop_str TSub = ''-''"
| "tbinop_str TMul = ''*''"
| "tbinop_str TDiv = ''/''"
| "tbinop_str TEq = ''==''"
| "tbinop_str TNe = ''!=''"
| "tbinop_str TLt = ''<''"
| "tbinop_str TLe = ''<=''"
| "tbinop_str TGt = ''>''"
| "tbinop_str TGe = ''>=''"
| "tbinop_str TAnd = ''&&''"
| "tbinop_str TOr = ''||''"

fun pretty :: "texpr \<Rightarrow> string" where
  "pretty (TInt n) = int_to_string n"
| "pretty (TVar v) = v"
| "pretty (TField base field) = base @ ''.'' @ field"
| "pretty (TOld e) = ''old('' @ pretty e @ '')''"
| "pretty (TUnary TNeg e) = ''-'' @ pretty e"
| "pretty (TBin op lhs rhs) = pretty lhs @ '' '' @ tbinop_str op @ '' '' @ pretty rhs"
| "pretty (TCall f args) = f @ ''('' @ comma_join (map pretty args) @ '')''"
| "pretty (TMethodCall r meth args) = pretty r @ ''.'' @ meth @ ''('' @ comma_join (map pretty args) @ '')''"
| "pretty (TIndex r i) = pretty r @ ''['' @ pretty i @ '']''"
| "pretty (TIf c a b) = ''if '' @ pretty c @ '' { '' @ pretty a @ '' } else { '' @ pretty b @ '' }''"
| "pretty (TMatch s arms) =
     ''match '' @ pretty s @ '' { '' @ comma_join (map (\<lambda>(_, e). ''... => '' @ pretty e) arms) @ '' }''"
| "pretty (TTry e) = pretty e @ ''?''"
| "pretty (TForall v ty _ body) = ''forall '' @ v @ '': '' @ ttype_name ty @ '' { '' @ pretty body @ '' }''"
| "pretty (TAggregate op args) = op_name op @ ''('' @ comma_join (map pretty args) @ '')''"
| "pretty (TRange lo hi) = pretty lo @ ''..'' @ pretty hi"

subsection \<open>Names, substitution, fields and variables\<close>

type_synonym naming = "string \<Rightarrow> string \<Rightarrow> string"

definition pre_field :: naming where
  "pre_field base field = base @ ''.'' @ field"

definition post_field :: naming where
  "post_field base field = base @ ''.'' @ field @ [CHR 0x27]"

fun instantiate :: "texpr \<Rightarrow> string \<Rightarrow> texpr" where
  "instantiate (TVar v) base = TField base v"
| "instantiate (TUnary op e) base = TUnary op (instantiate e base)"
| "instantiate (TBin op lhs rhs) base = TBin op (instantiate lhs base) (instantiate rhs base)"
| "instantiate e base = e"

fun substitute_var :: "texpr \<Rightarrow> string \<Rightarrow> texpr \<Rightarrow> texpr" where
  "substitute_var (TVar v) x r = (if v = x then r else TVar v)"
| "substitute_var (TOld e) x r = TOld (substitute_var e x r)"
| "substitute_var (TUnary op e) x r = TUnary op (substitute_var e x r)"
| "substitute_var (TBin op lhs rhs) x r = TBin op (substitute_var lhs x r) (substitute_var rhs x r)"
| "substitute_var (TForall v ty domain body) x r =
     TForall v ty (map_option (\<lambda>d. substitute_var d x r) domain) (substitute_var body x r)"
| "substitute_var (TAggregate op args) x r = TAggregate op (map (\<lambda>e. substitute_var e x r) args)"
| "substitute_var (TRange lo hi) x r = TRange (substitute_var lo x r) (substitute_var hi x r)"
| "substitute_var e x r = e"

definition instantiate_forall :: "string \<Rightarrow> texpr \<Rightarrow> int \<Rightarrow> texpr" where
  "instantiate_forall v body i = substitute_var body v (TInt i)"

text \<open>A \<open>HashSet\<close> under construction: insertion of an element that may be present.\<close>

definition hs_insert :: "'a \<Rightarrow> 'a list \<Rightarrow> 'a list" where
  "hs_insert x xs = (if x \<in> set xs then xs else xs @ [x])"

fun collect_fields :: "texpr \<Rightarrow> (string \<times> string) list \<Rightarrow> (string \<times> string) list" where
  "collect_fields (TField base field) out = hs_insert (base, field) out"
| "collect_fields (TOld e) out = collect_fields e out"
| "collect_fields (TUnary op e) out = collect_fields e out"
| "collect_fields (TBin op lhs rhs) out = collect_fields rhs (collect_fields lhs out)"
| "collect_fields (TIndex r i) out = collect_fields i (collect_fields r out)"
| "collect_fields (TCall f args) out = fold collect_fields args out"
| "collect_fields (TMethodCall r meth args) out = fold collect_fields args (collect_fields r out)"
| "collect_fields (TIf c a b) out = collect_fields b (collect_fields a (collect_fields c out))"
| "collect_fields (TMatch s arms) out = fold (\<lambda>(_, e). collect_fields e) arms (collect_fields s out)"
| "collect_fields e out = out"

fun collect_var_names :: "texpr \<Rightarrow> string list \<Rightarrow> string list" where
  "collect_var_names (TVar v) out = hs_insert v out"
| "collect_var_names (TOld e) out = collect_var_names e out"
| "collect_var_names (TUnary op e) out = collect_var_names e out"
| "collect_var_names (TBin op lhs rhs) out = collect_var_names rhs (collect_var_names lhs out)"
| "collect_var_names (TIndex r i) out = collect_var_names i (collect_var_names r out)"
| "collect_var_names (TCall f args) out = fold collect_var_names args out"
| "collect_var_names (TMethodCall r meth args) out = fold collect_var_names args (collect_var_names r out)"
| "collect_var_names (TIf c a b) out = collect_var_names b (collect_var_names a (collect_var_names c out))"
| "collect_var_names (TMatch s arms) out = fold (\<lambda>(_, e). collect_var_names e) arms (collect_var_names s out)"
| "collect_var_names e out = out"

definition target_field :: "assign \<Rightarrow> (string \<times> string) option" where
  "target_field a = (case as_target a of TField base field \<Rightarrow> Some (base, field) | _ \<Rightarrow> None)"

definition collect_assign_fields :: "assign \<Rightarrow> (string \<times> string) list \<Rightarrow> (string \<times> string) list" where
  "collect_assign_fields a out =
     (let out1 = collect_fields (as_value a) out in
      case target_field a of None \<Rightarrow> out1 | Some bf \<Rightarrow> hs_insert bf out1)"

lemma size_arm:
  assumes "x \<in> set b" and "(p, b) \<in> set arms"
  shows "size x \<le> size_list (size_prod (\<lambda>x. 0) (size_list size)) arms"
proof -
  have "size x \<le> size_list size b" using assms(1) by (rule size_list_estimation') simp
  also have "\<dots> \<le> size_prod (\<lambda>x. 0) (size_list size) (p, b)" by simp
  also have "\<dots> \<le> size_list (size_prod (\<lambda>x. 0) (size_list size)) arms"
    using assms(2) by (rule size_list_estimation') simp
  finally show ?thesis .
qed

function collect_stmt_fields :: "tstmt \<Rightarrow> (string \<times> string) list \<Rightarrow> (string \<times> string) list" where
  "collect_stmt_fields (SMutateState assigns) out = fold collect_assign_fields assigns out"
| "collect_stmt_fields (SAssign a) out = collect_assign_fields a out"
| "collect_stmt_fields (SIf c then_body else_body) out =
     (let out1 = fold collect_stmt_fields then_body out in
      case else_body of None \<Rightarrow> out1 | Some b \<Rightarrow> fold collect_stmt_fields b out1)"
| "collect_stmt_fields (SMatch s arms) out = fold collect_stmt_fields (concat (map snd arms)) out"
| "collect_stmt_fields (SLet x ty e) out = out"
| "collect_stmt_fields (SReturn e) out = out"
  by pat_completeness auto
termination
  by (relation "measure (\<lambda>(s, out). size s)")
    (auto simp: less_Suc_eq_le dest: size_list_estimation' [OF _ order.refl, of _ _ size] intro: size_arm)

definition collect_body_referenced_fields :: "tstmt list \<Rightarrow> (string \<times> string) list \<Rightarrow> (string \<times> string) list" where
  "collect_body_referenced_fields body out = fold collect_stmt_fields body out"

end
