(* ===== verification/Telos_Extract.thy ===== *)
theory Telos_Extract
  imports Telos_Syntax Telos_Verify
begin

text \<open>
  The extraction of verification problems from telos functions (\<open>telos-ir/src/extract.rs\<close>).

  A result is \<open>Some (Inr x)\<close>, the error of a contract that cannot be lowered is \<open>Some (Inl e)\<close>,
  and \<open>None\<close> is the panic of an \<open>i64\<close> overflow. The error constructors stand for the messages. Every
  caller passes the identity as the naming of variables, so only the naming of fields is a
  parameter. Hash sets and hash maps are lists in insertion order; where their iteration
  order shows in the result, it goes through a parameter.
\<close>

subsection \<open>Results\<close>

datatype extract_error =
    NonLinear texpr texpr
  | DivisionByZero
  | NonConstantDivision
  | NonIntegerDivision
  | NotArithmetic
  | BadIndexReceiver
  | NonConstantIndex
  | NotLowerable texpr
  | NotBoolean
  | DisjunctionNotAllowed
  | RangeBoundNotConstant texpr
  | ForallDomainNotRange texpr
  | ForallWithoutDomain
  | AggregateBoundNotConstant
  | AggregateUnsupported aggregate_op
  | AggregateNotCompared
  | AggregateNotSupported
  | IfConditionNotComparison texpr
  | MatchMutates texpr
  | TargetNotField texpr

type_synonym 'a ext = "(extract_error + 'a) panics"

definition ext_ok :: "'a \<Rightarrow> 'a ext" where
  "ext_ok x = Some (Inr x)"

definition ext_err :: "extract_error \<Rightarrow> 'a ext" where
  "ext_err e = Some (Inl e)"

definition ext_lift :: "'a panics \<Rightarrow> 'a ext" where
  "ext_lift p = map_option Inr p"

definition ext_bind :: "'a ext \<Rightarrow> ('a \<Rightarrow> 'b ext) \<Rightarrow> 'b ext" where
  "ext_bind x f = (case x of None \<Rightarrow> None | Some (Inl e) \<Rightarrow> Some (Inl e) | Some (Inr a) \<Rightarrow> f a)"

text \<open>A loop that threads an accumulator and stops at the first error.\<close>

fun ext_fold :: "('x \<Rightarrow> 'a \<Rightarrow> 'a ext) \<Rightarrow> 'x list \<Rightarrow> 'a \<Rightarrow> 'a ext" where
  "ext_fold f [] acc = ext_ok acc"
| "ext_fold f (x # xs) acc = ext_bind (f x acc) (ext_fold f xs)"

subsection \<open>Linear expressions\<close>

fun as_int :: "texpr \<Rightarrow> int option" where
  "as_int (TInt n) = Some n"
| "as_int _ = None"

text \<open>Rust's truncating remainder and quotient on \<open>i64\<close>; the quotient of the minimum by \<open>-1\<close> overflows.\<close>

definition i64_rem :: "int \<Rightarrow> int \<Rightarrow> int panics" where
  "i64_rem a b = (if b = 0 \<or> a = - (2 ^ 63) \<and> b = - 1 then None else Some (a smod b))"

definition i64_div :: "int \<Rightarrow> int \<Rightarrow> int panics" where
  "i64_div a b = (if b = 0 \<or> a = - (2 ^ 63) \<and> b = - 1 then None else Some (a sdiv b))"

fun scale_exact_terms :: "(string \<times> int) list \<Rightarrow> int \<Rightarrow> (string \<times> int) list ext" where
  "scale_exact_terms [] k = ext_ok []"
| "scale_exact_terms ((v, c) # ts) k =
     ext_bind (ext_lift (i64_rem c k)) (\<lambda>r.
       if r \<noteq> 0 then ext_err NonIntegerDivision
       else ext_bind (ext_lift (i64_div c k)) (\<lambda>d.
         ext_bind (scale_exact_terms ts k) (\<lambda>ts'. ext_ok ((v, d) # ts'))))"

definition scale_exact :: "linear \<Rightarrow> int \<Rightarrow> linear ext" where
  "scale_exact l k =
     ext_bind (ext_lift (i64_rem (l_constant l) k)) (\<lambda>r.
       if r \<noteq> 0 then ext_err NonIntegerDivision
       else ext_bind (scale_exact_terms (l_terms l) k) (\<lambda>ts.
         ext_bind (ext_lift (i64_div (l_constant l) k)) (\<lambda>c.
           ext_ok \<lparr>l_terms = ts, l_constant = c\<rparr>)))"

text \<open>The arms of the operators that both lowerings share.\<close>

definition lower_div :: "linear \<Rightarrow> texpr \<Rightarrow> linear ext" where
  "lower_div l rhs = (case as_int rhs of
     Some k \<Rightarrow> if k = 0 then ext_err DivisionByZero else scale_exact l k
   | None \<Rightarrow> ext_err NonConstantDivision)"

definition lower_index :: "naming \<Rightarrow> texpr \<Rightarrow> texpr \<Rightarrow> linear ext" where
  "lower_index nm receiver index = (case as_int index of
     None \<Rightarrow> ext_err NonConstantIndex
   | Some idx \<Rightarrow> (case receiver of
       TField base _ \<Rightarrow> ext_ok (linear_var (nm base (int_to_string idx)))
     | TVar name \<Rightarrow> ext_ok (linear_var (name @ ''.'' @ int_to_string idx))
     | _ \<Rightarrow> ext_err BadIndexReceiver))"

fun linearize_t :: "naming \<Rightarrow> texpr \<Rightarrow> linear ext" where
  "linearize_t nm (TInt n) = ext_ok (constant_only n)"
| "linearize_t nm (TVar name) = ext_ok (linear_var name)"
| "linearize_t nm (TField base field) = ext_ok (linear_var (nm base field))"
| "linearize_t nm (TOld e) = linearize_t pre_field e"
| "linearize_t nm (TUnary TNeg e) = ext_bind (linearize_t nm e) (\<lambda>l. ext_lift (linear_neg l))"
| "linearize_t nm (TBin op lhs rhs) =
     ext_bind (linearize_t nm lhs) (\<lambda>l. ext_bind (linearize_t nm rhs) (\<lambda>r.
       case op of
         TAdd \<Rightarrow> ext_lift (linear_add l r)
       | TSub \<Rightarrow> ext_lift (linear_sub l r)
       | TMul \<Rightarrow>
           (case as_int rhs of Some k \<Rightarrow> ext_lift (linear_scale l k)
            | None \<Rightarrow> (case as_int lhs of Some k \<Rightarrow> ext_lift (linear_scale r k)
                | None \<Rightarrow> ext_err (NonLinear lhs rhs)))
       | TDiv \<Rightarrow> lower_div l rhs
       | _ \<Rightarrow> ext_err NotArithmetic))"
| "linearize_t nm (TIndex receiver index) = lower_index nm receiver index"
| "linearize_t nm e = ext_err (NotLowerable e)"

subsection \<open>Interval bounds\<close>

type_synonym var_bounds = "(string, int option \<times> int option) hmap"

text \<open>The bounds one constraint gives its variable, or none.\<close>

fun bound_deltas :: "int \<Rightarrow> relation \<Rightarrow> int \<Rightarrow> (int option \<times> int option) option panics" where
  "bound_deltas coeff rel c =
     (let neg = ichecked_neg 64 c in
      if coeff = 1 then
        (case rel of
           Ge0 \<Rightarrow> do { x \<leftarrow> neg; Some (Some (Some x, None)) }
         | Gt0 \<Rightarrow> do { x \<leftarrow> neg; y \<leftarrow> ichecked_add 64 x 1; Some (Some (Some y, None)) }
         | Le0 \<Rightarrow> do { x \<leftarrow> neg; Some (Some (None, Some x)) }
         | Lt0 \<Rightarrow> do { x \<leftarrow> neg; y \<leftarrow> ichecked_sub 64 x 1; Some (Some (None, Some y)) }
         | Eq0 \<Rightarrow> do { x \<leftarrow> neg; Some (Some (Some x, Some x)) }
         | Ne0 \<Rightarrow> Some None)
      else if coeff = - 1 then
        (case rel of
           Ge0 \<Rightarrow> Some (Some (None, Some c))
         | Gt0 \<Rightarrow> do { y \<leftarrow> ichecked_sub 64 c 1; Some (Some (None, Some y)) }
         | Le0 \<Rightarrow> Some (Some (Some c, None))
         | Lt0 \<Rightarrow> do { y \<leftarrow> ichecked_add 64 c 1; Some (Some (Some y, None)) }
         | _ \<Rightarrow> Some None)
      else Some None)"

definition tighten :: "(int option \<times> int option) \<Rightarrow> (int option \<times> int option) \<Rightarrow> int option \<times> int option" where
  "tighten entry delta =
     ((case fst delta of None \<Rightarrow> fst entry
       | Some lo \<Rightarrow> Some (case fst entry of None \<Rightarrow> lo | Some e \<Rightarrow> max e lo)),
      (case snd delta of None \<Rightarrow> snd entry
       | Some hi \<Rightarrow> Some (case snd entry of None \<Rightarrow> hi | Some e \<Rightarrow> min e hi)))"

fun collect_var_bounds :: "constraint list \<Rightarrow> var_bounds \<Rightarrow> var_bounds panics" where
  "collect_var_bounds [] bounds = Some bounds"
| "collect_var_bounds (Constraint lin rel # cs) bounds =
     (case l_terms lin of
        [(var, coeff)] \<Rightarrow> do {
          d \<leftarrow> bound_deltas coeff rel (l_constant lin);
          collect_var_bounds cs (case d of None \<Rightarrow> bounds
            | Some delta \<Rightarrow> hm_insert var
                (tighten (case hm_get bounds var of None \<Rightarrow> (None, None) | Some e \<Rightarrow> e) delta) bounds)
        }
      | _ \<Rightarrow> collect_var_bounds cs bounds)"

definition lookup_bounds :: "var_bounds \<Rightarrow> string \<Rightarrow> (int option \<times> int option) option" where
  "lookup_bounds bounds var = (case hm_get bounds var of
     Some b \<Rightarrow> Some b
   | None \<Rightarrow> if var \<noteq> [] \<and> last var = CHR 0x27 then hm_get bounds (butlast var) else None)"

fun expr_var_name :: "naming \<Rightarrow> texpr \<Rightarrow> string option" where
  "expr_var_name nm (TVar name) = Some name"
| "expr_var_name nm (TField base field) = Some (nm base field)"
| "expr_var_name nm _ = None"

definition saturating_mul_i64 :: "int \<Rightarrow> int \<Rightarrow> int" where
  "saturating_mul_i64 a b = max (- (2 ^ 63)) (min (2 ^ 63 - 1) (a * b))"

definition product_bound :: "naming \<Rightarrow> var_bounds \<Rightarrow> texpr \<Rightarrow> texpr \<Rightarrow> int option" where
  "product_bound nm bounds lhs rhs =
     (case (expr_var_name nm lhs, expr_var_name nm rhs) of
        (Some a, Some b) \<Rightarrow>
          (case (lookup_bounds bounds a, lookup_bounds bounds b) of
             (Some (Some a_lo, Some a_hi), Some (Some b_lo, Some b_hi)) \<Rightarrow>
               Some (max (max (saturating_mul_i64 a_lo b_lo) (saturating_mul_i64 a_lo b_hi))
                         (max (saturating_mul_i64 a_hi b_lo) (saturating_mul_i64 a_hi b_hi)))
           | _ \<Rightarrow> None)
      | _ \<Rightarrow> None)"

text \<open>The flag \<open>approximated\<close> travels with the result.\<close>

fun linearize_bounded :: "naming \<Rightarrow> var_bounds \<Rightarrow> texpr \<Rightarrow> bool \<Rightarrow> (linear \<times> bool) ext" where
  "linearize_bounded nm bounds (TInt n) ap = ext_ok (constant_only n, ap)"
| "linearize_bounded nm bounds (TVar name) ap = ext_ok (linear_var name, ap)"
| "linearize_bounded nm bounds (TField base field) ap = ext_ok (linear_var (nm base field), ap)"
| "linearize_bounded nm bounds (TOld e) ap = linearize_bounded pre_field bounds e ap"
| "linearize_bounded nm bounds (TUnary TNeg e) ap =
     ext_bind (linearize_bounded nm bounds e ap) (\<lambda>(l, ap1). ext_bind (ext_lift (linear_neg l)) (\<lambda>r. ext_ok (r, ap1)))"
| "linearize_bounded nm bounds (TBin op lhs rhs) ap =
     ext_bind (linearize_bounded nm bounds lhs ap) (\<lambda>(l, ap1).
     ext_bind (linearize_bounded nm bounds rhs ap1) (\<lambda>(r, ap2).
       let keep = (\<lambda>p. ext_bind p (\<lambda>x. ext_ok (x, ap2))) in
       case op of
         TAdd \<Rightarrow> keep (ext_lift (linear_add l r))
       | TSub \<Rightarrow> keep (ext_lift (linear_sub l r))
       | TMul \<Rightarrow>
           (case as_int rhs of Some k \<Rightarrow> keep (ext_lift (linear_scale l k))
            | None \<Rightarrow> (case as_int lhs of Some k \<Rightarrow> keep (ext_lift (linear_scale r k))
                | None \<Rightarrow> (case product_bound nm bounds lhs rhs of
                      Some b \<Rightarrow> ext_ok (constant_only b, True)
                    | None \<Rightarrow> ext_err (NonLinear lhs rhs))))
       | TDiv \<Rightarrow> keep (lower_div l rhs)
       | _ \<Rightarrow> ext_err NotArithmetic))"
| "linearize_bounded nm bounds (TIndex receiver index) ap =
     ext_bind (lower_index nm receiver index) (\<lambda>l. ext_ok (l, ap))"
| "linearize_bounded nm bounds e ap = ext_err (NotLowerable e)"

fun relation_of :: "tbinop \<Rightarrow> relation option" where
  "relation_of TEq = Some Eq0"
| "relation_of TNe = Some Ne0"
| "relation_of TLt = Some Lt0"
| "relation_of TLe = Some Le0"
| "relation_of TGt = Some Gt0"
| "relation_of TGe = Some Ge0"
| "relation_of _ = None"

definition compare_bounded ::
    "naming \<Rightarrow> var_bounds \<Rightarrow> relation \<Rightarrow> texpr \<Rightarrow> texpr \<Rightarrow> bool \<Rightarrow> (constraint \<times> bool) ext" where
  "compare_bounded nm bounds rel lhs rhs ap =
     ext_bind (linearize_bounded nm bounds lhs ap) (\<lambda>(l, ap1).
     ext_bind (linearize_bounded nm bounds rhs ap1) (\<lambda>(r, ap2).
     ext_bind (ext_lift (linear_sub l r)) (\<lambda>diff. ext_ok (Constraint diff rel, ap2))))"

fun to_constraints_bounded :: "naming \<Rightarrow> var_bounds \<Rightarrow> texpr \<Rightarrow> bool \<Rightarrow> (constraint list \<times> bool) ext" where
  "to_constraints_bounded nm bounds (TBin op lhs rhs) ap =
     (if op = TAnd then
        ext_bind (to_constraints_bounded nm bounds lhs ap) (\<lambda>(out, ap1).
        ext_bind (to_constraints_bounded nm bounds rhs ap1) (\<lambda>(out2, ap2). ext_ok (out @ out2, ap2)))
      else (case relation_of op of
        Some rel \<Rightarrow> ext_bind (compare_bounded nm bounds rel lhs rhs ap) (\<lambda>(c, ap1). ext_ok ([c], ap1))
      | None \<Rightarrow> ext_err NotBoolean))"
| "to_constraints_bounded nm bounds e ap = ext_err NotBoolean"

type_synonym dnf = "constraint list list"

definition combine_dnf :: "dnf \<Rightarrow> dnf \<Rightarrow> dnf" where
  "combine_dnf a b = concat (map (\<lambda>x. map (\<lambda>y. x @ y) b) a)"

fun to_constraints_bounded_dnf :: "naming \<Rightarrow> var_bounds \<Rightarrow> texpr \<Rightarrow> bool \<Rightarrow> (dnf \<times> bool) ext" where
  "to_constraints_bounded_dnf nm bounds (TBin op lhs rhs) ap =
     (if op = TOr then
        ext_bind (to_constraints_bounded_dnf nm bounds lhs ap) (\<lambda>(left, ap1).
        ext_bind (to_constraints_bounded_dnf nm bounds rhs ap1) (\<lambda>(right, ap2). ext_ok (left @ right, ap2)))
      else if op = TAnd then
        ext_bind (to_constraints_bounded_dnf nm bounds lhs ap) (\<lambda>(left, ap1).
        ext_bind (to_constraints_bounded_dnf nm bounds rhs ap1) (\<lambda>(right, ap2). ext_ok (combine_dnf left right, ap2)))
      else (case relation_of op of
        Some rel \<Rightarrow> ext_bind (compare_bounded nm bounds rel lhs rhs ap) (\<lambda>(c, ap1). ext_ok ([[c]], ap1))
      | None \<Rightarrow> ext_err NotBoolean))"
| "to_constraints_bounded_dnf nm bounds e ap = ext_err NotBoolean"

subsection \<open>Disjunctive normal form\<close>

fun eval_const_expr :: "texpr \<Rightarrow> int option panics" where
  "eval_const_expr (TInt n) = Some (Some n)"
| "eval_const_expr (TUnary TNeg e) = do {
     r \<leftarrow> eval_const_expr e;
     (case r of None \<Rightarrow> Some None | Some v \<Rightarrow> do { n \<leftarrow> ichecked_neg 64 v; Some (Some n) })
   }"
| "eval_const_expr (TBin op lhs rhs) = do {
     a \<leftarrow> eval_const_expr lhs;
     (case a of None \<Rightarrow> Some None
      | Some l \<Rightarrow> do {
          b \<leftarrow> eval_const_expr rhs;
          (case b of None \<Rightarrow> Some None
           | Some r \<Rightarrow>
               (case op of
                  TAdd \<Rightarrow> map_option Some (ichecked_add 64 l r)
                | TSub \<Rightarrow> map_option Some (ichecked_sub 64 l r)
                | TMul \<Rightarrow> map_option Some (ichecked_mul 64 l r)
                | TDiv \<Rightarrow> (if r = 0 then Some None else map_option Some (i64_div l r))
                | _ \<Rightarrow> Some None))
        })
   }"
| "eval_const_expr _ = Some None"

definition const_or :: "extract_error \<Rightarrow> texpr \<Rightarrow> int ext" where
  "const_or err e = ext_bind (ext_lift (eval_const_expr e)) (\<lambda>r. case r of Some n \<Rightarrow> ext_ok n | None \<Rightarrow> ext_err err)"

text \<open>The loop that unrolls an aggregate; its sum is computed and then not used.\<close>

fun unroll_aggregate :: "naming \<Rightarrow> aggregate_op \<Rightarrow> string \<Rightarrow> texpr \<Rightarrow> int list \<Rightarrow> linear \<Rightarrow> bool \<Rightarrow> linear ext" where
  "unroll_aggregate nm op v body [] result fst_round = ext_ok result"
| "unroll_aggregate nm op v body (i # is) result fst_round =
     ext_bind (linearize_t nm (instantiate_forall v body i)) (\<lambda>val.
     ext_bind
       (case op of
          AggSum \<Rightarrow> if fst_round then ext_ok val else ext_lift (linear_add result val)
        | AggCount \<Rightarrow> if fst_round then ext_ok (constant_only 1) else ext_lift (linear_add result (constant_only 1))
        | _ \<Rightarrow> ext_err (AggregateUnsupported op))
       (\<lambda>res. unroll_aggregate nm op v body is res False))"

definition lower_aggregate :: "naming \<Rightarrow> aggregate_op \<Rightarrow> texpr list \<Rightarrow> dnf ext" where
  "lower_aggregate nm op args = (case args of
     [TForall v ty (Some (TRange lo hi)) body] \<Rightarrow>
       ext_bind (const_or AggregateBoundNotConstant lo) (\<lambda>lo_val.
       ext_bind (const_or AggregateBoundNotConstant hi) (\<lambda>hi_val.
         if lo_val \<ge> hi_val then ext_ok [[]]
         else ext_bind (unroll_aggregate nm op v body [lo_val..hi_val - 1] (constant_only 0) True)
                (\<lambda>_. ext_err AggregateNotCompared)))
   | _ \<Rightarrow> ext_err AggregateNotSupported)"

definition compare_linear :: "naming \<Rightarrow> relation \<Rightarrow> texpr \<Rightarrow> texpr \<Rightarrow> constraint ext" where
  "compare_linear nm rel lhs rhs =
     ext_bind (linearize_t nm lhs) (\<lambda>l. ext_bind (linearize_t nm rhs) (\<lambda>r.
     ext_bind (ext_lift (linear_sub l r)) (\<lambda>diff. ext_ok (Constraint diff rel))))"

fun texpr_size :: "texpr \<Rightarrow> nat" where
  "texpr_size (TOld e) = Suc (texpr_size e)"
| "texpr_size (TUnary op e) = Suc (texpr_size e)"
| "texpr_size (TBin op a b) = Suc (texpr_size a + texpr_size b)"
| "texpr_size (TIf c a b) = Suc (texpr_size c + texpr_size a + texpr_size b)"
| "texpr_size (TMatch s arms) = Suc (sum_list (map (\<lambda>(_, e). Suc (texpr_size e)) arms))"
| "texpr_size (TForall v ty d body) = Suc (Suc (texpr_size body))"
| "texpr_size _ = 1"

lemma texpr_size_substitute: "texpr_size (substitute_var e x (TInt i)) = texpr_size e"
  by (induction e x "TInt i" rule: substitute_var.induct) auto

function (sequential)
  to_constraints_dnf :: "naming \<Rightarrow> texpr \<Rightarrow> dnf ext"
  and dnf_arms :: "naming \<Rightarrow> (tpattern \<times> texpr) list \<Rightarrow> dnf \<Rightarrow> dnf ext"
  and dnf_unroll :: "naming \<Rightarrow> string \<Rightarrow> texpr \<Rightarrow> int list \<Rightarrow> dnf \<Rightarrow> dnf ext" where
  "to_constraints_dnf nm (TBin op lhs rhs) =
     (if op = TOr then
        ext_bind (to_constraints_dnf nm lhs) (\<lambda>left.
        ext_bind (to_constraints_dnf nm rhs) (\<lambda>right. ext_ok (left @ right)))
      else if op = TAnd then
        ext_bind (to_constraints_dnf nm lhs) (\<lambda>left.
        ext_bind (to_constraints_dnf nm rhs) (\<lambda>right. ext_ok (combine_dnf left right)))
      else (case relation_of op of
        Some rel \<Rightarrow> ext_bind (compare_linear nm rel lhs rhs) (\<lambda>c. ext_ok [[c]])
      | None \<Rightarrow> ext_err NotBoolean))"
| "to_constraints_dnf nm (TIf c a b) =
     ext_bind (to_constraints_dnf nm c) (\<lambda>cond_branch.
     ext_bind (to_constraints_dnf nm a) (\<lambda>then_branch.
     ext_bind (to_constraints_dnf nm b) (\<lambda>else_branch.
       ext_ok (combine_dnf cond_branch then_branch @ else_branch))))"
| "to_constraints_dnf nm (TMatch s arms) =
     ext_bind (dnf_arms nm arms []) (\<lambda>out. ext_ok (if out = [] then [[]] else out))"
| "to_constraints_dnf nm (TForall v ty domain body) =
     (case domain of
        None \<Rightarrow> ext_err ForallWithoutDomain
      | Some (TRange lo hi) \<Rightarrow>
          ext_bind (const_or (RangeBoundNotConstant lo) lo) (\<lambda>lo_val.
          ext_bind (const_or (RangeBoundNotConstant hi) hi) (\<lambda>hi_val.
            if lo_val \<ge> hi_val then ext_ok [[]]
            else dnf_unroll nm v body [lo_val..hi_val - 1] [[]]))
      | Some d \<Rightarrow> ext_err (ForallDomainNotRange d))"
| "to_constraints_dnf nm (TAggregate op args) = lower_aggregate nm op args"
| "to_constraints_dnf nm e = ext_err NotBoolean"
| "dnf_arms nm [] out = ext_ok out"
| "dnf_arms nm ((p, e) # arms) out =
     ext_bind (to_constraints_dnf nm e) (\<lambda>branch. dnf_arms nm arms (out @ branch))"
| "dnf_unroll nm v body [] combined = ext_ok combined"
| "dnf_unroll nm v body (i # is) combined =
     ext_bind (to_constraints_dnf nm (instantiate_forall v body i)) (\<lambda>branch.
       dnf_unroll nm v body is (combine_dnf combined branch))"
  by pat_completeness auto
termination
  by (relation "measures
      [case_sum (\<lambda>(nm, e). texpr_size e)
         (case_sum (\<lambda>(nm, arms, out). sum_list (map (\<lambda>(_, e). Suc (texpr_size e)) arms))
            (\<lambda>(nm, v, body, is, c). Suc (texpr_size body))),
       case_sum (\<lambda>_. 0) (case_sum (\<lambda>_. 0) (\<lambda>(nm, v, body, is, c). length is))]")
    (auto simp: instantiate_forall_def texpr_size_substitute)

definition to_constraints :: "naming \<Rightarrow> texpr \<Rightarrow> constraint list ext" where
  "to_constraints nm e =
     ext_bind (to_constraints_dnf nm e) (\<lambda>d. case d of [cs] \<Rightarrow> ext_ok cs | _ \<Rightarrow> ext_err DisjunctionNotAllowed)"

subsection \<open>Function bodies\<close>

fun negate_relation :: "relation \<Rightarrow> relation" where
  "negate_relation Eq0 = Ne0"
| "negate_relation Ne0 = Eq0"
| "negate_relation Le0 = Gt0"
| "negate_relation Lt0 = Ge0"
| "negate_relation Ge0 = Lt0"
| "negate_relation Gt0 = Le0"

record body_branch =
  bb_extra_premises :: "constraint list"
  bb_mutations :: "constraint list"
  bb_assigned :: "(string \<times> string) list"

definition assign_constraint :: "naming \<Rightarrow> assign \<Rightarrow> constraint ext" where
  "assign_constraint nm a = (case target_field a of
     None \<Rightarrow> ext_err (TargetNotField (as_target a))
   | Some (base, field) \<Rightarrow>
       (let post = linear_var (post_field base field); pre = linear_var (pre_field base field) in
        ext_bind (linearize_t nm (as_value a)) (\<lambda>value.
        ext_bind (ext_lift (case as_op a of
            AssignSet \<Rightarrow> linear_sub post value
          | AssignAdd \<Rightarrow> do { d \<leftarrow> linear_sub post pre; linear_sub d value }
          | AssignSub \<Rightarrow> do { d \<leftarrow> linear_sub post pre; linear_add d value }))
          (\<lambda>terms. ext_ok (Constraint terms Eq0)))))"

definition push_mutation :: "assign \<Rightarrow> constraint \<Rightarrow> body_branch \<Rightarrow> body_branch" where
  "push_mutation a c b =
     b\<lparr>bb_mutations := bb_mutations b @ [c],
       bb_assigned := (case target_field a of None \<Rightarrow> bb_assigned b | Some f \<Rightarrow> hs_insert f (bb_assigned b))\<rparr>"

definition process_assign :: "naming \<Rightarrow> assign \<Rightarrow> body_branch list \<Rightarrow> body_branch list ext" where
  "process_assign nm a branches =
     ext_bind (assign_constraint nm a) (\<lambda>c. ext_ok (map (push_mutation a c) branches))"

definition push_premise :: "constraint \<Rightarrow> body_branch \<Rightarrow> body_branch" where
  "push_premise c b = b\<lparr>bb_extra_premises := bb_extra_premises b @ [c]\<rparr>"

fun branch_condition :: "naming \<Rightarrow> texpr \<Rightarrow> (linear \<times> relation) ext" where
  "branch_condition nm (TBin op lhs rhs) =
     (case relation_of op of
        Some rel \<Rightarrow>
          ext_bind (linearize_t nm lhs) (\<lambda>l. ext_bind (linearize_t nm rhs) (\<lambda>r.
          ext_bind (ext_lift (linear_sub l r)) (\<lambda>diff. ext_ok (diff, rel))))
      | None \<Rightarrow> ext_err (IfConditionNotComparison (TBin op lhs rhs)))"
| "branch_condition nm e = ext_err (IfConditionNotComparison e)"

fun is_mutating :: "tstmt \<Rightarrow> bool" where
  "is_mutating (SMutateState _) = True"
| "is_mutating (SAssign _) = True"
| "is_mutating (SIf _ _ _) = True"
| "is_mutating (SMatch _ _) = True"
| "is_mutating _ = False"

function process_body_stmts :: "naming \<Rightarrow> tstmt list \<Rightarrow> body_branch list \<Rightarrow> body_branch list ext" where
  "process_body_stmts nm [] branches = ext_ok branches"
| "process_body_stmts nm (SMutateState assigns # stmts) branches =
     ext_bind (ext_fold (process_assign nm) assigns branches) (process_body_stmts nm stmts)"
| "process_body_stmts nm (SAssign a # stmts) branches =
     ext_bind (process_assign nm a branches) (process_body_stmts nm stmts)"
| "process_body_stmts nm (SIf condition then_body else_body # stmts) branches =
     ext_bind (branch_condition nm condition) (\<lambda>(diff, rel).
     ext_bind (process_body_stmts nm then_body (map (push_premise (Constraint diff rel)) branches)) (\<lambda>then_branches.
     ext_bind (process_body_stmts nm (case else_body of None \<Rightarrow> [] | Some b \<Rightarrow> b)
         (map (push_premise (Constraint diff (negate_relation rel))) branches)) (\<lambda>else_branches.
       process_body_stmts nm stmts (then_branches @ else_branches))))"
| "process_body_stmts nm (SMatch scrutinee arms # stmts) branches =
     (if list_ex (\<lambda>(_, body). list_ex is_mutating body) arms then ext_err (MatchMutates scrutinee)
      else process_body_stmts nm stmts branches)"
| "process_body_stmts nm (SLet _ _ _ # stmts) branches = process_body_stmts nm stmts branches"
| "process_body_stmts nm (SReturn _ # stmts) branches = process_body_stmts nm stmts branches"
  by pat_completeness auto
termination
  by (relation "measure (\<lambda>(nm, stmts, branches). size_list size stmts)") (auto split: option.splits)

subsection \<open>Contracts of called functions\<close>

type_synonym func_specs = "(string, tfunc) hmap"

definition substitute_args :: "param list \<Rightarrow> texpr list \<Rightarrow> texpr \<Rightarrow> texpr" where
  "substitute_args params args e = foldl (\<lambda>e (p, a). substitute_var e (pa_name p) a) e (zip params args)"

definition callee_ensures :: "naming \<Rightarrow> tfunc \<Rightarrow> texpr list \<Rightarrow> constraint list \<Rightarrow> constraint list ext" where
  "callee_ensures nm callee args premises =
     ext_fold (\<lambda>e ps. ext_bind (to_constraints nm (substitute_args (fn_params callee) args e)) (\<lambda>cs. ext_ok (ps @ cs)))
       (fn_ensures callee) premises"

function (sequential)
  collect_call_ensures :: "naming \<Rightarrow> func_specs \<Rightarrow> texpr \<Rightarrow> constraint list \<times> string list \<Rightarrow> (constraint list \<times> string list) ext"
  and collect_call_ensures_all :: "naming \<Rightarrow> func_specs \<Rightarrow> texpr list \<Rightarrow> constraint list \<times> string list \<Rightarrow> (constraint list \<times> string list) ext" where
  "collect_call_ensures nm specs (TCall f args) (premises, visited) =
     (case hm_get specs f of
        None \<Rightarrow> ext_ok (premises, visited)
      | Some callee \<Rightarrow>
          ext_bind
            (if f \<notin> set visited then
               ext_bind (callee_ensures nm callee args premises) (\<lambda>ps. ext_ok (ps, hs_insert (fn_name callee) visited))
             else ext_ok (premises, visited))
            (collect_call_ensures_all nm specs args))"
| "collect_call_ensures nm specs (TMethodCall r meth args) st =
     ext_bind (collect_call_ensures nm specs r st) (collect_call_ensures_all nm specs args)"
| "collect_call_ensures nm specs (TBin op lhs rhs) st =
     ext_bind (collect_call_ensures nm specs lhs st) (collect_call_ensures nm specs rhs)"
| "collect_call_ensures nm specs (TUnary op e) st = collect_call_ensures nm specs e st"
| "collect_call_ensures nm specs (TOld e) st = collect_call_ensures nm specs e st"
| "collect_call_ensures nm specs (TIf c a b) st =
     ext_bind (collect_call_ensures nm specs c st) (\<lambda>st1.
     ext_bind (collect_call_ensures nm specs a st1) (collect_call_ensures nm specs b))"
| "collect_call_ensures nm specs (TForall v ty d body) st = collect_call_ensures nm specs body st"
| "collect_call_ensures nm specs e st = ext_ok st"
| "collect_call_ensures_all nm specs [] st = ext_ok st"
| "collect_call_ensures_all nm specs (e # es) st =
     ext_bind (collect_call_ensures nm specs e st) (collect_call_ensures_all nm specs es)"
  by pat_completeness auto
termination
  by (relation "measure (case_sum (\<lambda>(nm, specs, e, st). size e) (\<lambda>(nm, specs, es, st). size_list size es))") auto

subsection \<open>The problems of a function\<close>

type_synonym invariants = "(string, invariant) hmap"
type_synonym invariant_fields = "(string, string list) hmap"

definition requires_dnf :: "texpr list \<Rightarrow> dnf ext" where
  "requires_dnf requires =
     ext_fold (\<lambda>r acc. ext_bind (to_constraints_dnf pre_field r) (\<lambda>branches. ext_ok (combine_dnf acc branches)))
       requires [[]]"

definition call_premises :: "func_specs \<Rightarrow> tfunc \<Rightarrow> constraint list ext" where
  "call_premises specs f =
     ext_bind (collect_call_ensures_all pre_field specs (fn_requires f) ([], [])) (\<lambda>st.
     ext_bind (collect_call_ensures_all pre_field specs (fn_ensures f) st) (\<lambda>(ps, _). ext_ok ps))"

definition starts_with :: "string \<Rightarrow> string \<Rightarrow> bool" where
  "starts_with s p \<longleftrightarrow> take (length p) s = p"

definition type_constraints :: "param list \<Rightarrow> constraint list ext" where
  "type_constraints params =
     ext_fold (\<lambda>p acc.
       if starts_with (ttype_name (pa_ty p)) ''Positive''
       then ext_bind (ext_lift (linear_sub (linear_var (pa_name p)) (constant_only 1)))
              (\<lambda>ge. ext_ok (acc @ [Constraint ge Ge0]))
       else ext_ok acc) params []"

definition inv_constraints :: "invariants \<Rightarrow> param list \<Rightarrow> constraint list ext" where
  "inv_constraints invs params =
     ext_fold (\<lambda>p acc. case hm_get invs (ttype_name (pa_ty p)) of
       None \<Rightarrow> ext_ok acc
     | Some iv \<Rightarrow>
         ext_fold (\<lambda>c acc. ext_bind (to_constraints pre_field (instantiate c (pa_name p))) (\<lambda>cs. ext_ok (acc @ cs)))
           (in_constraints iv) acc) params []"

definition referenced_fields :: "invariant_fields \<Rightarrow> tfunc \<Rightarrow> (string \<times> string) list" where
  "referenced_fields inv_fields f =
     fold (\<lambda>p out. case hm_get inv_fields (ttype_name (pa_ty p)) of
         None \<Rightarrow> out
       | Some fs \<Rightarrow> fold (\<lambda>g out. hs_insert (pa_name p, g) out) fs out)
       (fn_params f)
       (collect_body_referenced_fields (fn_body f)
          (fold collect_fields (fn_ensures f) (fold collect_fields (fn_requires f) [])))"

definition frame_axioms :: "(string \<times> string) list \<Rightarrow> (string \<times> string) list \<Rightarrow> constraint list ext" where
  "frame_axioms referenced assigned =
     ext_fold (\<lambda>(base, field) acc.
       if (base, field) \<in> set assigned then ext_ok acc
       else ext_bind (ext_lift (linear_sub (linear_var (post_field base field)) (linear_var (pre_field base field))))
              (\<lambda>d. ext_ok (acc @ [Constraint d Eq0]))) referenced []"

definition combine_branches ::
    "(string \<times> string) list \<Rightarrow> dnf \<Rightarrow> body_branch list \<Rightarrow> dnf ext" where
  "combine_branches referenced premise_dnf body_branches =
     ext_fold (\<lambda>(premise_branch, bb) acc.
       ext_bind (frame_axioms referenced (bb_assigned bb)) (\<lambda>frame.
         ext_ok (acc @ [premise_branch @ bb_extra_premises bb @ bb_mutations bb @ frame])))
       (List.product premise_dnf body_branches) []"

definition span_or :: "span list \<Rightarrow> nat \<Rightarrow> span \<Rightarrow> span" where
  "span_or spans i dflt = (if i < length spans then spans ! i else dflt)"

definition mk_conclusion :: "string \<Rightarrow> bool \<Rightarrow> bool \<Rightarrow> span \<Rightarrow> nat option \<Rightarrow> constraint \<Rightarrow> conclusion" where
  "mk_conclusion description is_ensures approximated location grp c =
     \<lparr>co_description = description, co_constraint = c, co_is_ensures = is_ensures,
      co_is_approximation = approximated, co_location = location, co_or_group = grp\<rparr>"

definition group_conclusions :: "texpr \<Rightarrow> bool \<Rightarrow> span \<Rightarrow> nat \<Rightarrow> dnf \<Rightarrow> conclusion list" where
  "group_conclusions e approximated location group_id d =
     concat (map (\<lambda>(branch_idx, branch).
       map (mk_conclusion (''ensures: '' @ pretty e @ '' [branch '' @ nat_to_string branch_idx @ '']'')
              True approximated location (Some group_id)) branch) (enumerate 0 d))"

definition ensures_conclusions ::
    "var_bounds \<Rightarrow> tfunc \<Rightarrow> nat \<times> texpr \<Rightarrow> conclusion list \<times> nat \<Rightarrow> (conclusion list \<times> nat) ext" where
  "ensures_conclusions bounds f ie acc = (case ie of (i, e) \<Rightarrow> case acc of (conclusions, next_or_group) \<Rightarrow>
     ext_bind (to_constraints_bounded_dnf post_field bounds e False) (\<lambda>(d, approximated).
       let location = span_or (fn_ensures_spans f) i (fn_span f) in
       ext_ok (case d of
         [cs] \<Rightarrow> (conclusions @ map (mk_conclusion (''ensures: '' @ pretty e) True approximated location None) cs, next_or_group)
       | _ \<Rightarrow> (conclusions @ group_conclusions e approximated location next_or_group d, next_or_group + 1))))"

definition invariant_conclusions ::
    "var_bounds \<Rightarrow> invariants \<Rightarrow> param \<Rightarrow> conclusion list \<Rightarrow> conclusion list ext" where
  "invariant_conclusions bounds invs p conclusions = (case hm_get invs (ttype_name (pa_ty p)) of
     None \<Rightarrow> ext_ok conclusions
   | Some iv \<Rightarrow>
       ext_fold (\<lambda>(j, c) acc.
         let inst = instantiate c (pa_name p) in
         ext_bind (to_constraints_bounded post_field bounds inst False) (\<lambda>(cs, approximated).
           ext_ok (acc @ map (mk_conclusion (''invariant '' @ in_name iv @ '' maintained: '' @ pretty inst)
             False approximated (span_or (in_constraint_spans iv) j (in_span iv)) None) cs)))
         (enumerate 0 (in_constraints iv)) conclusions)"

definition build_problem ::
    "tfunc \<Rightarrow> invariants \<Rightarrow> nat \<Rightarrow> nat \<times> constraint list \<Rightarrow> verification_problem ext" where
  "build_problem f invs branches idx_premises = (case idx_premises of (idx, premises) \<Rightarrow>
     ext_bind (ext_lift (collect_var_bounds premises [])) (\<lambda>bounds.
     ext_bind (ext_fold (ensures_conclusions bounds f) (enumerate 0 (fn_ensures f)) ([], 0)) (\<lambda>(conclusions, _).
     ext_bind (ext_fold (invariant_conclusions bounds invs) (fn_params f) conclusions) (\<lambda>all_conclusions.
       ext_ok \<lparr>vp_func_name = (if branches = 1 then fn_name f
                 else fn_name f @ ''[branch '' @ nat_to_string idx @ '']''),
               vp_func_span = fn_span f, vp_premises = premises, vp_conclusions = all_conclusions\<rparr>))))"

definition build_problems ::
    "((string \<times> string) list \<Rightarrow> (string \<times> string) list) \<Rightarrow> invariants \<Rightarrow> invariant_fields \<Rightarrow> func_specs \<Rightarrow>
       tfunc \<Rightarrow> verification_problem list ext" where
  "build_problems set_order invs inv_fields specs f =
     ext_bind (requires_dnf (fn_requires f)) (\<lambda>req.
     ext_bind (call_premises specs f) (\<lambda>calls.
     ext_bind (type_constraints (fn_params f)) (\<lambda>types.
     ext_bind (inv_constraints invs (fn_params f)) (\<lambda>entry.
     let premise_dnf = map (\<lambda>b. b @ calls @ types @ entry) req;
         referenced = referenced_fields inv_fields f in
     ext_bind (process_body_stmts pre_field (fn_body f)
         [\<lparr>bb_extra_premises = [], bb_mutations = [], bb_assigned = []\<rparr>]) (\<lambda>body_branches.
     ext_bind (combine_branches (set_order referenced) premise_dnf body_branches) (\<lambda>combined.
     ext_fold (\<lambda>ip acc. ext_bind (build_problem f invs (length combined) ip) (\<lambda>p. ext_ok (acc @ [p])))
       (enumerate 0 combined) []))))))"

definition items_of :: "tmodule list \<Rightarrow> titem list" where
  "items_of modules = concat (map mo_items modules)"

definition invariants_of :: "tmodule list \<Rightarrow> invariants" where
  "invariants_of modules =
     foldl (\<lambda>m it. case it of ItInvariant iv \<Rightarrow> hm_insert (in_name iv) iv m | _ \<Rightarrow> m) [] (items_of modules)"

definition invariant_fields_of :: "tmodule list \<Rightarrow> invariant_fields" where
  "invariant_fields_of modules =
     foldl (\<lambda>m it. case it of
         ItInvariant iv \<Rightarrow>
           hm_insert (in_name iv)
             (fold collect_var_names (in_constraints iv) (case hm_get m (in_name iv) of None \<Rightarrow> [] | Some s \<Rightarrow> s)) m
       | _ \<Rightarrow> m) [] (items_of modules)"

definition func_specs_of :: "tmodule list \<Rightarrow> func_specs" where
  "func_specs_of modules =
     foldl (\<lambda>m it. case it of ItFunc f \<Rightarrow> hm_insert (fn_name f) f m | _ \<Rightarrow> m) [] (items_of modules)"

definition telos_extract ::
    "((string \<times> string) list \<Rightarrow> (string \<times> string) list) \<Rightarrow> tmodule list \<Rightarrow> verification_problem list ext" where
  "telos_extract set_order modules =
     ext_fold (\<lambda>it acc. case it of
         ItFunc f \<Rightarrow>
           ext_bind (build_problems set_order (invariants_of modules) (invariant_fields_of modules)
               (func_specs_of modules) f) (\<lambda>ps. ext_ok (acc @ ps))
       | _ \<Rightarrow> ext_ok acc) (items_of modules) []"

end
