(* ===== verification/Telos_Sound.thy ===== *)
theory Telos_Sound
  imports Telos_Extract
begin

text \<open>
  Soundness of the telos verifier as a whole: contracts, function bodies, and what extraction and
  solver together prove about running a function.

  A state gives every name an integer: parameters under their own name, the field \<open>f\<close> of \<open>b\<close>
  under \<open>b.f\<close>, and in contracts the value of the field after the call under \<open>b.f'\<close>. Bodies
  run statement by statement on the names of the state before.

  The theorem is about the fragment on which the extraction is sound, as the predicates say:
  contracts of comparisons, \<open>&&\<close> and \<open>||\<close> without index expressions and interval approximations, disjunctive
  ensures clauses of single comparisons, and bodies that assign a field at most once on a path
  and do not read a field assigned before. The lemmas at the end show programs outside the fragment
  that the verifier accepts although they violate their contract.
\<close>

subsection \<open>Meaning of expressions and bodies\<close>

fun ival :: "naming \<Rightarrow> valuation \<Rightarrow> texpr \<Rightarrow> int" where
  "ival nm s (TInt n) = n"
| "ival nm s (TVar v) = s v"
| "ival nm s (TField base field) = s (nm base field)"
| "ival nm s (TOld e) = ival pre_field s e"
| "ival nm s (TUnary TNeg e) = - ival nm s e"
| "ival nm s (TBin op a b) =
     (case op of
        TAdd \<Rightarrow> ival nm s a + ival nm s b
      | TSub \<Rightarrow> ival nm s a - ival nm s b
      | TMul \<Rightarrow> ival nm s a * ival nm s b
      | TDiv \<Rightarrow> ival nm s a sdiv ival nm s b
      | _ \<Rightarrow> 0)"
| "ival nm s _ = 0"

fun btrue :: "naming \<Rightarrow> valuation \<Rightarrow> texpr \<Rightarrow> bool" where
  "btrue nm s (TBin op a b) =
     (if op = TOr then btrue nm s a \<or> btrue nm s b
      else if op = TAnd then btrue nm s a \<and> btrue nm s b
      else (case relation_of op of Some rel \<Rightarrow> relation_holds rel (ival nm s a - ival nm s b) | None \<Rightarrow> False))"
| "btrue nm s (TIf c a b) = (if btrue nm s c then btrue nm s a else btrue nm s b)"
| "btrue nm s _ = False"

definition exec_assign :: "assign \<Rightarrow> valuation \<Rightarrow> valuation" where
  "exec_assign a s = (case target_field a of
     None \<Rightarrow> s
   | Some (base, field) \<Rightarrow>
       (let n = pre_field base field; v = ival pre_field s (as_value a) in
        s(n := (case as_op a of AssignSet \<Rightarrow> v | AssignAdd \<Rightarrow> s n + v | AssignSub \<Rightarrow> s n - v))))"

fun exec_stmt :: "tstmt \<Rightarrow> valuation \<Rightarrow> valuation" where
  "exec_stmt (SMutateState assigns) s = fold exec_assign assigns s"
| "exec_stmt (SAssign a) s = exec_assign a s"
| "exec_stmt (SIf c then_body else_body) s =
     (if btrue pre_field s c then fold exec_stmt then_body s
      else (case else_body of None \<Rightarrow> s | Some b \<Rightarrow> fold exec_stmt b s))"
| "exec_stmt _ s = s"

definition exec_body :: "tstmt list \<Rightarrow> valuation \<Rightarrow> valuation" where
  "exec_body body s = fold exec_stmt body s"

subsection \<open>The fragment\<close>

text \<open>Arithmetic: literals, names, \<open>old\<close>, negation and the operators; no calls and no index access.\<close>

fun plain_arith :: "texpr \<Rightarrow> bool" where
  "plain_arith (TInt n) = True"
| "plain_arith (TVar v) = True"
| "plain_arith (TField base field) = True"
| "plain_arith (TOld e) = plain_arith e"
| "plain_arith (TUnary op e) = plain_arith e"
| "plain_arith (TBin op a b) \<longleftrightarrow> plain_arith a \<and> plain_arith b"
| "plain_arith _ = False"

text \<open>Requirements: comparisons, conjunctions, disjunctions and conditionals.\<close>

fun plain_contract :: "texpr \<Rightarrow> bool" where
  "plain_contract (TBin op a b) \<longleftrightarrow>
     (if op = TOr \<or> op = TAnd then plain_contract a \<and> plain_contract b else plain_arith a \<and> plain_arith b)"
| "plain_contract (TIf c a b) \<longleftrightarrow> plain_contract c \<and> plain_contract a \<and> plain_contract b"
| "plain_contract _ = False"

text \<open>Conjunctions of comparisons, and disjunctions of comparisons.\<close>

fun conj_contract :: "texpr \<Rightarrow> bool" where
  "conj_contract (TBin op a b) \<longleftrightarrow>
     (if op = TAnd then conj_contract a \<and> conj_contract b else op \<noteq> TOr \<and> plain_arith a \<and> plain_arith b)"
| "conj_contract _ = False"

fun disj_contract :: "texpr \<Rightarrow> bool" where
  "disj_contract (TBin op a b) \<longleftrightarrow>
     (if op = TOr then disj_contract a \<and> disj_contract b else op \<noteq> TAnd \<and> plain_arith a \<and> plain_arith b)"
| "disj_contract _ = False"

text \<open>The names an expression of a body reads; \<open>old\<close> and index expressions do not belong to bodies.\<close>

fun reads :: "texpr \<Rightarrow> string list option" where
  "reads (TInt n) = Some []"
| "reads (TVar v) = Some [v]"
| "reads (TField base field) = Some [pre_field base field]"
| "reads (TUnary op e) = reads e"
| "reads (TBin op a b) = do { x \<leftarrow> reads a; y \<leftarrow> reads b; Some (x @ y) }"
| "reads _ = None"

definition reads_only :: "string list \<Rightarrow> texpr \<Rightarrow> bool" where
  "reads_only assigned e = (case reads e of None \<Rightarrow> False | Some ns \<Rightarrow> list_all (\<lambda>n. n \<notin> set assigned) ns)"

definition assign_ok :: "string list \<Rightarrow> assign \<Rightarrow> bool" where
  "assign_ok assigned a = (case target_field a of
     None \<Rightarrow> False
   | Some (base, field) \<Rightarrow> pre_field base field \<notin> set assigned \<and> reads_only assigned (as_value a))"

definition field_name :: "string \<times> string \<Rightarrow> string" where
  "field_name bf = pre_field (fst bf) (snd bf)"

definition target :: "assign \<Rightarrow> string \<times> string" where
  "target a = (case target_field a of None \<Rightarrow> ([], []) | Some f \<Rightarrow> f)"

definition target_name :: "assign \<Rightarrow> string" where
  "target_name a = field_name (target a)"

fun targets :: "tstmt \<Rightarrow> (string \<times> string) list" where
  "targets (SMutateState assigns) = map target assigns"
| "targets (SAssign a) = [target a]"
| "targets (SIf c t e) = concat (map targets t) @ (case e of None \<Rightarrow> [] | Some b \<Rightarrow> concat (map targets b))"
| "targets _ = []"

definition assigned_by :: "tstmt \<Rightarrow> string list" where
  "assigned_by st = map field_name (targets st)"

fun straight_assigns :: "string list \<Rightarrow> assign list \<Rightarrow> bool" where
  "straight_assigns assigned [] = True"
| "straight_assigns assigned (a # as) \<longleftrightarrow> assign_ok assigned a \<and> straight_assigns (target_name a # assigned) as"

text \<open>A \<open>match\<close> statement has no effect when its arms only bind local names.\<close>

fun is_let :: "tstmt \<Rightarrow> bool" where
  "is_let (SLet v ty e) = True"
| "is_let _ = False"

function (sequential) straight :: "string list \<Rightarrow> tstmt list \<Rightarrow> bool" where
  "straight assigned [] = True"
| "straight assigned (SMutateState assigns # stmts) \<longleftrightarrow>
     straight_assigns assigned assigns \<and> straight (rev (map target_name assigns) @ assigned) stmts"
| "straight assigned (SAssign a # stmts) \<longleftrightarrow> assign_ok assigned a \<and> straight (target_name a # assigned) stmts"
| "straight assigned (SIf c t e # stmts) \<longleftrightarrow>
     reads_only assigned c \<and> straight assigned t \<and> straight assigned (case e of None \<Rightarrow> [] | Some b \<Rightarrow> b) \<and>
     straight (assigned_by (SIf c t e) @ assigned) stmts"
| "straight assigned (SMatch s arms # stmts) \<longleftrightarrow> list_all (\<lambda>(p, b). list_all is_let b) arms \<and> straight assigned stmts"
| "straight assigned (_ # stmts) = False"
  by pat_completeness auto
termination
  by (relation "measure (\<lambda>(assigned, stmts). size_list size stmts)") (auto split: option.splits)

subsection \<open>Lowering of arithmetic is exact\<close>

lemma ext_simps [simp]:
  "ext_bind (ext_ok x) f = f x" "ext_bind (ext_err e) f = ext_err e" "ext_bind None f = None"
  "ext_lift None = None" "ext_lift (Some x) = ext_ok x"
  by (simp_all add: ext_bind_def ext_ok_def ext_err_def ext_lift_def)

lemma ext_ok_inject [simp]: "ext_ok x = ext_ok y \<longleftrightarrow> x = y" "ext_err e \<noteq> ext_ok x" "ext_ok x \<noteq> ext_err e" "None \<noteq> ext_ok x"
  by (simp_all add: ext_ok_def ext_err_def)

lemma ext_bind_ok: "ext_bind m f = ext_ok y \<longleftrightarrow> (\<exists>x. m = ext_ok x \<and> f x = ext_ok y)"
  by (auto simp: ext_bind_def ext_ok_def split: option.splits sum.splits)

lemma ext_lift_ok [simp]: "ext_lift p = ext_ok x \<longleftrightarrow> p = Some x"
  by (cases p) auto

lemma ext_fold_ok_Cons: "ext_fold f (x # xs) a = ext_ok y \<longleftrightarrow> (\<exists>b. f x a = ext_ok b \<and> ext_fold f xs b = ext_ok y)"
  by (simp add: ext_bind_ok)

lemma i64_div_exact:
  assumes "i64_rem c k = Some 0" and "i64_div c k = Some d"
  shows "c = k * d"
  using assms sdiv_mult_smod_eq [of c k] by (auto simp: i64_rem_def i64_div_def mult.commute split: if_splits)

lemma scale_exact_terms_val:
  "scale_exact_terms ts k = ext_ok ts' \<Longrightarrow> terms_val s ts = k * terms_val s ts' \<and> map fst ts' = map fst ts"
proof (induction ts k arbitrary: ts' rule: scale_exact_terms.induct)
  case (1 k)
  then show ?case by auto
next
  case (2 v c ts k)
  then obtain d ts1 where "i64_rem c k = Some 0" "i64_div c k = Some d" "scale_exact_terms ts k = ext_ok ts1"
    "ts' = (v, d) # ts1" by (auto simp: ext_bind_ok split: if_splits)
  with 2 i64_div_exact show ?case by (fastforce simp: algebra_simps)
qed

lemma scale_exact_val:
  assumes "scale_exact l k = ext_ok r"
  shows "linear_val s l = k * linear_val s r" and "distinct_vars l \<Longrightarrow> distinct_vars r" and "k \<noteq> 0"
proof -
  from assms obtain ts c where t: "i64_rem (l_constant l) k = Some 0" "scale_exact_terms (l_terms l) k = ext_ok ts"
    "i64_div (l_constant l) k = Some c" "r = \<lparr>l_terms = ts, l_constant = c\<rparr>"
    by (auto simp: scale_exact_def ext_bind_ok split: if_splits)
  note st = scale_exact_terms_val [OF t(2)]
  show "linear_val s l = k * linear_val s r"
    using st [of s] i64_div_exact [OF t(1,3)] by (simp add: linear_val_def t(4) algebra_simps)
  show "distinct_vars l \<Longrightarrow> distinct_vars r" using st by (simp add: distinct_vars_def t(4))
  show "k \<noteq> 0" using t(3) by (auto simp: i64_div_def)
qed

lemma sdiv_mult_cancel:
  assumes "k \<noteq> 0"
  shows "(k * x) sdiv k = (x :: int)"
proof -
  have "sgn k * sgn k = 1" using assms by (simp add: sgn_if)
  then have "(k * x) sdiv k = sgn x * (\<bar>k\<bar> * \<bar>x\<bar> div \<bar>k\<bar>)"
    by (simp add: signed_divide_int_def sgn_mult abs_mult mult.assoc mult.left_commute)
  then show ?thesis using assms by (simp add: sgn_mult_abs)
qed

lemma as_int_Some: "as_int e = Some k \<longleftrightarrow> e = TInt k"
  by (cases e) auto

lemma linearize_t_exact:
  "linearize_t nm e = ext_ok l \<Longrightarrow> plain_arith e \<Longrightarrow> linear_val s l = ival nm s e \<and> distinct_vars l"
proof (induction nm e arbitrary: l rule: linearize_t.induct)
  case (6 nm op lhs rhs)
  from "6.prems"(1) obtain a b where ab: "linearize_t nm lhs = ext_ok a" "linearize_t nm rhs = ext_ok b"
    by (auto simp: ext_bind_ok)
  from 6 ab have ih: "linear_val s a = ival nm s lhs" "distinct_vars a" "linear_val s b = ival nm s rhs" "distinct_vars b"
    by auto
  note ops = linear_add_exact linear_sub_exact linear_scale_exact
  show ?case
  proof (cases op)
    case TAdd
    with "6.prems"(1) ab ih linear_add_exact [of a b l] show ?thesis by simp
  next
    case TSub
    with "6.prems"(1) ab ih linear_sub_exact [of a b l] show ?thesis by simp
  next
    case TMul
    with "6.prems"(1) ab ih linear_scale_exact [of _ _ l] show ?thesis
      by (fastforce simp: as_int_Some split: option.splits)
  next
    case TDiv
    with "6.prems"(1) ab obtain k where k: "rhs = TInt k" "scale_exact a k = ext_ok l"
      by (auto simp: lower_div_def as_int_Some split: option.splits if_splits)
    note sv = scale_exact_val [OF k(2)]
    have "ival nm s lhs sdiv k = linear_val s l"
      using sv(1) [of s] ih(1) sdiv_mult_cancel [OF sv(3)] by metis
    with sv(2) ih(2) k(1) TDiv show ?thesis by simp
  qed (use "6.prems"(1) ab in auto)
next
  case (5 nm e)
  then obtain a where "linearize_t nm e = ext_ok a" "linear_neg a = Some l" by (auto simp: ext_bind_ok)
  with 5 linear_neg_exact [of a l] show ?case by auto
qed auto

text \<open>The lowering with bounds is the same lowering unless it reports an approximation.\<close>

lemma linearize_bounded_exact:
  "linearize_bounded nm bounds e ap = ext_ok (l, False) \<Longrightarrow> \<not> ap \<and> linearize_t nm e = ext_ok l"
proof (induction nm bounds e ap arbitrary: l rule: linearize_bounded.induct)
  case (6 nm bounds op lhs rhs ap)
  from "6.prems" obtain a ap1 b ap2 where ab: "linearize_bounded nm bounds lhs ap = ext_ok (a, ap1)"
    "linearize_bounded nm bounds rhs ap1 = ext_ok (b, ap2)"
    by (auto simp: ext_bind_ok)
  have f: "ap2 = False" using "6.prems" ab
    by (auto simp: ext_bind_ok Let_def split: tbinop.splits option.splits)
  with "6.IH"(2) ab(2) have b: "\<not> ap1" "linearize_t nm rhs = ext_ok b" by auto
  then have "linearize_bounded nm bounds lhs ap = ext_ok (a, False)" using ab(1) by simp
  then have a: "\<not> ap" "linearize_t nm lhs = ext_ok a" using "6.IH"(1) by auto
  from "6.prems" ab a b show ?case
    by (auto simp: ext_bind_ok Let_def split: tbinop.splits option.splits)
qed (auto simp: ext_bind_ok)

subsection \<open>Lowering of contracts\<close>

definition dnf_true :: "valuation \<Rightarrow> dnf \<Rightarrow> bool" where
  "dnf_true s d \<longleftrightarrow> (\<exists>b \<in> set d. \<forall>c \<in> set b. c_holds s c)"

definition dnf_wf :: "dnf \<Rightarrow> bool" where
  "dnf_wf d \<longleftrightarrow> (\<forall>b \<in> set d. \<forall>c \<in> set b. wf_constraint c)"

lemma dnf_simps [simp]:
  "dnf_true s (a @ b) \<longleftrightarrow> dnf_true s a \<or> dnf_true s b" "dnf_true s (combine_dnf a b) \<longleftrightarrow> dnf_true s a \<and> dnf_true s b"
  "dnf_true s [cs] \<longleftrightarrow> (\<forall>c \<in> set cs. c_holds s c)"
  by (auto simp: dnf_true_def combine_dnf_def)

lemma dnf_wf_simps [simp]:
  "dnf_wf (a @ b) \<longleftrightarrow> dnf_wf a \<and> dnf_wf b" "dnf_wf a \<Longrightarrow> dnf_wf b \<Longrightarrow> dnf_wf (combine_dnf a b)"
  "dnf_wf [cs] \<longleftrightarrow> (\<forall>c \<in> set cs. wf_constraint c)"
  by (auto simp: dnf_wf_def combine_dnf_def)

lemma compare_linear_exact:
  assumes "compare_linear nm rel lhs rhs = ext_ok c" and "plain_arith lhs" and "plain_arith rhs"
  shows "c_holds s c \<longleftrightarrow> relation_holds rel (ival nm s lhs - ival nm s rhs)" and "wf_constraint c"
proof -
  from assms(1) obtain l r d where d: "linearize_t nm lhs = ext_ok l" "linearize_t nm rhs = ext_ok r"
    "linear_sub l r = Some d" "c = Constraint d rel"
    by (auto simp: compare_linear_def ext_bind_ok)
  note l = linearize_t_exact [OF d(1) assms(2)] and r = linearize_t_exact [OF d(2) assms(3)]
  from l [of s] r [of s] linear_sub_exact [OF d(3)] d(4)
  show "c_holds s c \<longleftrightarrow> relation_holds rel (ival nm s lhs - ival nm s rhs)" "wf_constraint c" by auto
qed

lemma requires_sound:
  "plain_contract e \<Longrightarrow> to_constraints_dnf nm e = ext_ok d \<Longrightarrow>
     dnf_wf d \<and> (btrue nm s e \<longrightarrow> dnf_true s d)"
proof (induction e arbitrary: d)
  case (TBin op a b)
  show ?case
  proof (cases "op = TOr \<or> op = TAnd")
    case True
    with TBin.prems obtain x y where "to_constraints_dnf nm a = ext_ok x" "to_constraints_dnf nm b = ext_ok y"
      "d = (if op = TOr then x @ y else combine_dnf x y)"
      by (auto simp: ext_bind_ok split: if_splits)
    with TBin True show ?thesis by auto
  next
    case False
    with TBin.prems obtain rel c where "relation_of op = Some rel" "compare_linear nm rel a b = ext_ok c" "d = [[c]]"
      by (auto simp: ext_bind_ok split: option.splits)
    with False TBin.prems compare_linear_exact [of nm rel a b c] show ?thesis by auto
  qed
next
  case (TIf c a b)
  then obtain x y z where "to_constraints_dnf nm c = ext_ok x" "to_constraints_dnf nm a = ext_ok y"
    "to_constraints_dnf nm b = ext_ok z" "d = combine_dnf x y @ z"
    by (auto simp: ext_bind_ok)
  with TIf show ?case by auto
qed auto

lemma compare_bounded_exact:
  assumes "compare_bounded nm bounds rel lhs rhs ap = ext_ok (c, False)" and "plain_arith lhs" and "plain_arith rhs"
  shows "c_holds s c \<longleftrightarrow> relation_holds rel (ival nm s lhs - ival nm s rhs)" and "wf_constraint c" and "\<not> ap"
proof -
  from assms(1) obtain l ap1 r d where d: "linearize_bounded nm bounds lhs ap = ext_ok (l, ap1)"
    "linearize_bounded nm bounds rhs ap1 = ext_ok (r, False)" "linear_sub l r = Some d" "c = Constraint d rel"
    by (auto simp: compare_bounded_def ext_bind_ok)
  from linearize_bounded_exact [OF d(2)] have 2: "\<not> ap1" "linearize_t nm rhs = ext_ok r" by auto
  then have "linearize_bounded nm bounds lhs ap = ext_ok (l, False)" using d(1) by simp
  then have 1: "\<not> ap" "linearize_t nm lhs = ext_ok l" using linearize_bounded_exact by blast+
  have "compare_linear nm rel lhs rhs = ext_ok c" using 1 2 d(3,4) by (simp add: compare_linear_def)
  from compare_linear_exact [OF this assms(2,3)] 1 show
    "c_holds s c \<longleftrightarrow> relation_holds rel (ival nm s lhs - ival nm s rhs)" "wf_constraint c" "\<not> ap" by auto
qed

lemma conj_contract_exact:
  "conj_contract e \<Longrightarrow> to_constraints_bounded nm bounds e ap = ext_ok (cs, False) \<Longrightarrow>
     \<not> ap \<and> (\<forall>c \<in> set cs. wf_constraint c) \<and> ((\<forall>c \<in> set cs. c_holds s c) \<longleftrightarrow> btrue nm s e)"
proof (induction e arbitrary: cs ap)
  case (TBin op a b)
  show ?case
  proof (cases "op = TAnd")
    case True
    with TBin.prems obtain x ap1 y where "to_constraints_bounded nm bounds a ap = ext_ok (x, ap1)"
      "to_constraints_bounded nm bounds b ap1 = ext_ok (y, False)" "cs = x @ y"
      by (auto simp: ext_bind_ok)
    with TBin True show ?thesis by fastforce
  next
    case False
    with TBin.prems obtain rel c where "relation_of op = Some rel"
      "compare_bounded nm bounds rel a b ap = ext_ok (c, False)" "cs = [c]"
      by (auto simp: ext_bind_ok split: option.splits)
    with False TBin.prems compare_bounded_exact [of nm bounds rel a b ap c] show ?thesis by auto
  qed
qed auto

text \<open>A conjunction becomes one branch, a disjunction of comparisons branches of one constraint.\<close>

lemma conj_contract_dnf:
  "conj_contract e \<Longrightarrow> to_constraints_bounded_dnf nm bounds e ap = ext_ok (d, ap') \<Longrightarrow>
     \<exists>cs. d = [cs] \<and> to_constraints_bounded nm bounds e ap = ext_ok (cs, ap')"
proof (induction e arbitrary: d ap ap')
  case (TBin op a b)
  show ?case
  proof (cases "op = TAnd")
    case True
    with TBin.prems obtain x ap1 y where xy: "to_constraints_bounded_dnf nm bounds a ap = ext_ok (x, ap1)"
      "to_constraints_bounded_dnf nm bounds b ap1 = ext_ok (y, ap')" "d = combine_dnf x y"
      by (auto simp: ext_bind_ok)
    from TBin.prems(1) True have "conj_contract a" "conj_contract b" by auto
    with TBin.IH xy obtain cs ds where "x = [cs]" "y = [ds]" "to_constraints_bounded nm bounds a ap = ext_ok (cs, ap1)"
      "to_constraints_bounded nm bounds b ap1 = ext_ok (ds, ap')" by metis
    with xy(3) True show ?thesis by (simp add: combine_dnf_def)
  next
    case False
    with TBin.prems show ?thesis by (auto simp: ext_bind_ok split: option.splits)
  qed
qed auto

lemma disj_contract_exact:
  "disj_contract e \<Longrightarrow> to_constraints_bounded_dnf nm bounds e ap = ext_ok (d, False) \<Longrightarrow>
     \<not> ap \<and> dnf_wf d \<and> d \<noteq> [] \<and> (\<forall>b \<in> set d. \<exists>c. b = [c]) \<and> (dnf_true s d \<longleftrightarrow> btrue nm s e)"
proof (induction e arbitrary: d ap)
  case (TBin op a b)
  show ?case
  proof (cases "op = TOr")
    case True
    with TBin.prems obtain x ap1 y where "to_constraints_bounded_dnf nm bounds a ap = ext_ok (x, ap1)"
      "to_constraints_bounded_dnf nm bounds b ap1 = ext_ok (y, False)" "d = x @ y"
      by (auto simp: ext_bind_ok)
    with TBin True show ?thesis by fastforce
  next
    case False
    with TBin.prems obtain rel c where "relation_of op = Some rel"
      "compare_bounded nm bounds rel a b ap = ext_ok (c, False)" "d = [[c]]"
      by (auto simp: ext_bind_ok split: option.splits if_splits)
    with False TBin.prems compare_bounded_exact [of nm bounds rel a b ap c] show ?thesis by auto
  qed
qed auto

subsection \<open>Lowering of bodies\<close>

definition agrees :: "string list \<Rightarrow> valuation \<Rightarrow> valuation \<Rightarrow> bool" where
  "agrees assigned t s \<longleftrightarrow> (\<forall>n. n \<notin> set assigned \<longrightarrow> t n = s n)"

lemma ival_cong: "reads e = Some ns \<Longrightarrow> \<forall>n \<in> set ns. t n = s n \<Longrightarrow> ival pre_field t e = ival pre_field s e"
proof (induction e arbitrary: ns)
  case (TUnary op e)
  then show ?case by (cases op) auto
next
  case (TBin op a b)
  then obtain x y where "reads a = Some x" "reads b = Some y" "ns = x @ y" by (auto split: bind_splits)
  with TBin have "ival pre_field t a = ival pre_field s a" "ival pre_field t b = ival pre_field s b" by auto
  then show ?case by (simp split: tbinop.split)
qed auto

lemma reads_plain_arith: "reads e = Some ns \<Longrightarrow> plain_arith e"
  by (induction e arbitrary: ns) (auto split: bind_splits)

lemma reads_only_ival:
  assumes "reads_only A e" and "agrees B t s" and "set B \<subseteq> set A"
  shows "ival pre_field t e = ival pre_field s e" and "plain_arith e"
proof -
  from assms(1) obtain ns where ns: "reads e = Some ns" "\<forall>n \<in> set ns. n \<notin> set A"
    by (auto simp: reads_only_def list_all_iff split: option.splits)
  with assms(2,3) have "\<forall>n \<in> set ns. t n = s n" by (auto simp: agrees_def)
  from ival_cong [OF ns(1) this] reads_plain_arith [OF ns(1)]
  show "ival pre_field t e = ival pre_field s e" "plain_arith e" by auto
qed

lemma reads_only_bin: "reads_only A (TBin op a b) \<longleftrightarrow> reads_only A a \<and> reads_only A b"
  by (auto simp: reads_only_def split: option.splits bind_splits)

definition branch_names :: "body_branch \<Rightarrow> string list" where
  "branch_names b = map field_name (bb_assigned b)"

text \<open>A branch describes a run that has reached a state: its constraints hold, and names it does not assign are unchanged.\<close>

definition tracks :: "valuation \<Rightarrow> body_branch \<Rightarrow> valuation \<Rightarrow> bool" where
  "tracks s b t \<longleftrightarrow> (\<forall>c \<in> set (bb_extra_premises b @ bb_mutations b). c_holds s c \<and> wf_constraint c) \<and>
     agrees (branch_names b) t s"

lemma assign_okD:
  assumes "assign_ok A a"
  obtains f where "target_field a = Some f" and "target_name a = field_name f" and "field_name f \<notin> set A"
    and "reads_only A (as_value a)"
  using assms by (auto simp: assign_ok_def target_name_def target_def field_name_def split: option.splits)

lemma exec_assign_other: "target_field a = Some f \<Longrightarrow> n \<noteq> field_name f \<Longrightarrow> exec_assign a t n = t n"
  by (auto simp: exec_assign_def field_name_def Let_def split: prod.splits)

lemma straight_assigns_keep:
  "straight_assigns A as \<Longrightarrow> n \<in> set A \<Longrightarrow> fold exec_assign as t n = t n"
proof (induction A as arbitrary: t rule: straight_assigns.induct)
  case (2 A a as)
  from "2.prems" obtain f where "target_field a = Some f" "field_name f \<notin> set A" "straight_assigns (target_name a # A) as"
    by (auto elim: assign_okD)
  with 2 exec_assign_other [of a f n t] show ?case by auto
qed simp

lemma straight_keep:
  "straight A stmts \<Longrightarrow> n \<in> set A \<Longrightarrow> exec_body stmts t n = t n"
proof (induction A stmts arbitrary: t rule: straight.induct)
  case (2 A as stmts)
  then show ?case using straight_assigns_keep [of A as n t] by (simp add: exec_body_def)
next
  case (3 A a stmts)
  then show ?case using straight_assigns_keep [of A "[a]" n t] by (simp add: exec_body_def)
next
  case (4 A c th el stmts)
  then show ?case by (cases el) (auto simp: exec_body_def)
qed (auto simp: exec_body_def)

lemma assign_constraint_holds:
  assumes "assign_constraint pre_field a = ext_ok c" and "assign_ok A a" and "agrees B t s" and "set B \<subseteq> set A"
    and "target_field a = Some (x, y)" and "s (post_field x y) = exec_assign a t (pre_field x y)"
  shows "c_holds s c \<and> wf_constraint c"
proof -
  from assms(2,5) have n: "pre_field x y \<notin> set A" and r: "reads_only A (as_value a)"
    by (auto simp: assign_ok_def)
  from n assms(3,4) have pre: "t (pre_field x y) = s (pre_field x y)" by (auto simp: agrees_def)
  note v = reads_only_ival [OF r assms(3,4)]
  from assms(1,5) obtain l ts where l: "linearize_t pre_field (as_value a) = ext_ok l" and c: "c = Constraint ts Eq0"
    and ts: "(case as_op a of
            AssignSet \<Rightarrow> linear_sub (linear_var (post_field x y)) l
          | AssignAdd \<Rightarrow> do { d \<leftarrow> linear_sub (linear_var (post_field x y)) (linear_var (pre_field x y)); linear_sub d l }
          | AssignSub \<Rightarrow> do { d \<leftarrow> linear_sub (linear_var (post_field x y)) (linear_var (pre_field x y)); linear_add d l }) = Some ts"
    by (auto simp: assign_constraint_def Let_def ext_bind_ok)
  note le = linearize_t_exact [OF l v(2)]
  have lv: "linear_val s l = ival pre_field t (as_value a)" using le [of s] v(1) by simp
  show ?thesis
  proof (cases "as_op a")
    case AssignSet
    with ts have "linear_sub (linear_var (post_field x y)) l = Some ts" by simp
    note e = linear_sub_exact [OF this]
    from e(1) [of s] e(2,3) c lv assms(5,6) AssignSet show ?thesis by (simp add: exec_assign_def Let_def)
  next
    case AssignAdd
    with ts obtain d where d: "linear_sub (linear_var (post_field x y)) (linear_var (pre_field x y)) = Some d"
      "linear_sub d l = Some ts" by (auto split: bind_splits)
    note e = linear_sub_exact [OF d(1)] linear_sub_exact [OF d(2)]
    from e(1) [of s] e(2) e(4) [of s] e(5,6) c lv pre assms(5,6) AssignAdd show ?thesis
      by (simp add: exec_assign_def Let_def)
  next
    case AssignSub
    with ts obtain d where d: "linear_sub (linear_var (post_field x y)) (linear_var (pre_field x y)) = Some d"
      "linear_add d l = Some ts" by (auto split: bind_splits)
    note e = linear_sub_exact [OF d(1)] linear_add_exact [OF d(2)]
    from e(1) [of s] e(2) e(4) [of s] e(5,6) c lv pre assms(5,6) AssignSub show ?thesis
      by (simp add: exec_assign_def Let_def)
  qed
qed

lemma agrees_exec_assign:
  "agrees B t s \<Longrightarrow> target_field a = Some f \<Longrightarrow> field_name f \<in> set C \<Longrightarrow> set B \<subseteq> set C \<Longrightarrow> agrees C (exec_assign a t) s"
  unfolding agrees_def using exec_assign_other by (metis subsetD)

lemma assigns_tracked:
  "ext_fold (process_assign pre_field) as bs = ext_ok out \<Longrightarrow> straight_assigns A as \<Longrightarrow> b \<in> set bs \<Longrightarrow>
   tracks s b t \<Longrightarrow> set (branch_names b) \<subseteq> set A \<Longrightarrow>
   \<forall>a \<in> set as. \<forall>(x, y) \<in> set_option (target_field a). s (post_field x y) = fold exec_assign as t (pre_field x y) \<Longrightarrow>
   \<exists>b' \<in> set out. tracks s b' (fold exec_assign as t) \<and>
     set (branch_names b') \<subseteq> set (map target_name as) \<union> set A"
proof (induction as arbitrary: bs A b t)
  case Nil
  then show ?case by auto
next
  case (Cons a as)
  from Cons.prems(1) obtain mid where mid: "process_assign pre_field a bs = ext_ok mid"
    "ext_fold (process_assign pre_field) as mid = ext_ok out" by (auto simp: ext_bind_ok)
  then obtain c where c: "assign_constraint pre_field a = ext_ok c" "mid = map (push_mutation a c) bs"
    by (auto simp: process_assign_def ext_bind_ok)
  from Cons.prems(2) have ok: "assign_ok A a" and st: "straight_assigns (target_name a # A) as" by auto
  obtain x y where f: "target_field a = Some (x, y)" "target_name a = pre_field x y" "pre_field x y \<notin> set A"
    using ok by (auto elim!: assign_okD simp: field_name_def)
  have "s (post_field x y) = fold exec_assign as (exec_assign a t) (pre_field x y)"
    using Cons.prems(6) f(1) by simp
  then have post: "s (post_field x y) = exec_assign a t (pre_field x y)"
    using straight_assigns_keep [OF st, of "pre_field x y"] f(2) by simp
  have ag: "agrees (branch_names b) t s" using Cons.prems(4) by (simp add: tracks_def)
  from assign_constraint_holds [OF c(1) ok ag Cons.prems(5) f(1) post] have h: "c_holds s c \<and> wf_constraint c" .
  let ?b = "push_mutation a c b"
  have nb: "set (branch_names ?b) = insert (pre_field x y) (set (branch_names b))"
    by (auto simp: branch_names_def push_mutation_def f(1) hs_insert_def field_name_def intro: rev_image_eqI)
  have "agrees (branch_names ?b) (exec_assign a t) s"
    by (rule agrees_exec_assign [OF ag f(1)]) (use nb in \<open>auto simp: field_name_def\<close>)
  then have tr: "tracks s ?b (exec_assign a t)"
    using Cons.prems(4) h by (auto simp: tracks_def push_mutation_def)
  have mem: "?b \<in> set mid" using Cons.prems(3) c(2) by simp
  have sub: "set (branch_names ?b) \<subseteq> set (target_name a # A)" using nb Cons.prems(5) f(2) by auto
  have fin: "\<forall>a' \<in> set as. \<forall>(x, y) \<in> set_option (target_field a').
      s (post_field x y) = fold exec_assign as (exec_assign a t) (pre_field x y)"
    using Cons.prems(6) by simp
  from Cons.IH [OF mid(2) st mem tr sub fin] show ?case by auto
qed

lemma branch_condition_holds:
  assumes "branch_condition pre_field c = ext_ok (d, rel)" and "reads_only A c" and "agrees B t s" and "set B \<subseteq> set A"
  shows "c_holds s (Constraint d rel) \<longleftrightarrow> btrue pre_field t c"
    and "c_holds s (Constraint d (negate_relation rel)) \<longleftrightarrow> \<not> btrue pre_field t c"
    and "wf_constraint (Constraint d r)"
proof -
  from assms(1) obtain op a b where c: "c = TBin op a b" by (cases c) auto
  with assms(1) obtain l r' where l: "relation_of op = Some rel" "linearize_t pre_field a = ext_ok l"
    "linearize_t pre_field b = ext_ok r'" "linear_sub l r' = Some d"
    by (auto simp: ext_bind_ok split: option.splits)
  have ra: "reads_only A a" and rb: "reads_only A b" using assms(2) c reads_only_bin by auto
  note va = reads_only_ival [OF ra assms(3,4)] and vb = reads_only_ival [OF rb assms(3,4)]
  note la = linearize_t_exact [OF l(2) va(2)] and lb = linearize_t_exact [OF l(3) vb(2)]
  have dv: "linear_val s d = ival pre_field t a - ival pre_field t b"
    using linear_sub_exact(1) [OF l(4), of s] la [of s] lb [of s] va(1) vb(1) by simp
  have bt: "btrue pre_field t c \<longleftrightarrow> relation_holds rel (ival pre_field t a - ival pre_field t b)"
    using l(1) c by (cases op) auto
  show "c_holds s (Constraint d rel) \<longleftrightarrow> btrue pre_field t c" using bt dv by simp
  show "c_holds s (Constraint d (negate_relation rel)) \<longleftrightarrow> \<not> btrue pre_field t c"
    using bt dv by (cases rel) auto
  show "wf_constraint (Constraint d r)" using linear_sub_exact [OF l(4)] la by simp
qed

lemma assigns_before:
  assumes "ext_fold (process_assign pre_field) as bs = ext_ok mid" and "straight_assigns A as"
    and st: "straight (rev (map target_name as) @ A) stmts" and "b \<in> set bs" and "tracks s b t"
    and "set (branch_names b) \<subseteq> set A"
    and fin: "\<forall>(x, y) \<in> set (map target as). s (post_field x y) = exec_body stmts (fold exec_assign as t) (pre_field x y)"
  shows "\<exists>b1 \<in> set mid. tracks s b1 (fold exec_assign as t) \<and>
     set (branch_names b1) \<subseteq> set (rev (map target_name as) @ A)"
proof -
  let ?t = "fold exec_assign as t"
  have keep: "exec_body stmts ?t (target_name a) = ?t (target_name a)" if "a \<in> set as" for a
    using that by (intro straight_keep [OF st]) auto
  have "\<forall>a \<in> set as. \<forall>(x, y) \<in> set_option (target_field a). s (post_field x y) = ?t (pre_field x y)"
  proof (intro ballI, clarify)
    fix a x y assume a: "a \<in> set as" "target_field a = Some (x, y)"
    then have t: "target a = (x, y)" by (simp add: target_def)
    with a(1) have "(x, y) \<in> set (map target as)" by (metis image_eqI set_map)
    with fin have "s (post_field x y) = exec_body stmts ?t (pre_field x y)" by blast
    with keep [OF a(1)] t show "s (post_field x y) = ?t (pre_field x y)" by (simp add: target_name_def field_name_def)
  qed
  from assigns_tracked [OF assms(1,2,4-6) this] show ?thesis by auto
qed

lemma negated_branch:
  "tracks s b t \<Longrightarrow> c_holds s c \<Longrightarrow> wf_constraint c \<Longrightarrow> tracks s (push_premise c b) t \<and> branch_names (push_premise c b) = branch_names b"
  by (auto simp: tracks_def push_premise_def branch_names_def)

lemma body_tracked:
  "process_body_stmts pre_field stmts bs = ext_ok out \<Longrightarrow> straight A stmts \<Longrightarrow> b \<in> set bs \<Longrightarrow>
   tracks s b t \<Longrightarrow> set (branch_names b) \<subseteq> set A \<Longrightarrow>
   \<forall>(x, y) \<in> set (concat (map targets stmts)). s (post_field x y) = exec_body stmts t (pre_field x y) \<Longrightarrow>
   \<exists>b' \<in> set out. tracks s b' (exec_body stmts t) \<and>
     set (branch_names b') \<subseteq> set (concat (map assigned_by stmts)) \<union> set A"
proof (induction A stmts arbitrary: bs b t out rule: straight.induct)
  case (1 A)
  then show ?case by (auto simp: exec_body_def)
next
  case (2 A as stmts)
  from "2.prems"(1) obtain mid where mid: "ext_fold (process_assign pre_field) as bs = ext_ok mid"
    "process_body_stmts pre_field stmts mid = ext_ok out" by (auto simp: ext_bind_ok)
  from "2.prems"(2) have sa: "straight_assigns A as" and st: "straight (rev (map target_name as) @ A) stmts" by auto
  let ?t = "fold exec_assign as t"
  have ex: "exec_body (SMutateState as # stmts) t = exec_body stmts ?t" by (simp add: exec_body_def)
  note fin = "2.prems"(6) [unfolded ex]
  have f1: "\<forall>(x, y) \<in> set (map target as). s (post_field x y) = exec_body stmts ?t (pre_field x y)"
    and f2: "\<forall>(x, y) \<in> set (concat (map targets stmts)). s (post_field x y) = exec_body stmts ?t (pre_field x y)"
    using fin by auto
  from assigns_before [OF mid(1) sa st "2.prems"(3-5) f1] obtain b1 where
    b1: "b1 \<in> set mid" "tracks s b1 ?t" "set (branch_names b1) \<subseteq> set (rev (map target_name as) @ A)" by blast
  from "2.IH" [OF mid(2) st b1 f2] show ?case unfolding ex by (auto simp: assigned_by_def target_name_def)
next
  case (3 A a stmts)
  from "3.prems"(1) obtain mid where mid: "ext_fold (process_assign pre_field) [a] bs = ext_ok mid"
    "process_body_stmts pre_field stmts mid = ext_ok out" by (auto simp: ext_bind_ok)
  from "3.prems"(2) have sa: "straight_assigns A [a]" and st: "straight (target_name a # A) stmts" by auto
  then have st1: "straight (rev (map target_name [a]) @ A) stmts" by simp
  let ?t = "fold exec_assign [a] t"
  have ex: "exec_body (SAssign a # stmts) t = exec_body stmts ?t" by (simp add: exec_body_def)
  note fin = "3.prems"(6) [unfolded ex]
  have f1: "\<forall>(x, y) \<in> set (map target [a]). s (post_field x y) = exec_body stmts ?t (pre_field x y)"
    and f2: "\<forall>(x, y) \<in> set (concat (map targets stmts)). s (post_field x y) = exec_body stmts ?t (pre_field x y)"
    using fin by auto
  from assigns_before [OF mid(1) sa st1 "3.prems"(3-5) f1] obtain b1 where
    b1: "b1 \<in> set mid" "tracks s b1 ?t" "set (branch_names b1) \<subseteq> set (target_name a # A)" by auto
  from "3.IH" [OF mid(2) st b1 f2] show ?case unfolding ex by (auto simp: assigned_by_def target_name_def)
next
  case (4 A c th el stmts)
  let ?el = "case el of None \<Rightarrow> [] | Some b \<Rightarrow> b" and ?T = "btrue pre_field t c"
  from "4.prems"(1) obtain d rel tb eb where d: "branch_condition pre_field c = ext_ok (d, rel)"
    and tb: "process_body_stmts pre_field th (map (push_premise (Constraint d rel)) bs) = ext_ok tb"
    and eb: "process_body_stmts pre_field ?el (map (push_premise (Constraint d (negate_relation rel))) bs) = ext_ok eb"
    and rest: "process_body_stmts pre_field stmts (tb @ eb) = ext_ok out"
    by (auto simp: ext_bind_ok)
  from "4.prems"(2) have rc: "reads_only A c" and sth: "straight A th" and sel: "straight A ?el"
    and st: "straight (assigned_by (SIf c th el) @ A) stmts" by auto
  have ag: "agrees (branch_names b) t s" using "4.prems"(4) by (simp add: tracks_def)
  note cond = branch_condition_holds [OF d rc ag "4.prems"(5)]
  define body where "body = (if ?T then th else ?el)"
  let ?t = "exec_body body t"
  have ex: "exec_body (SIf c th el # stmts) t = exec_body stmts ?t"
    by (cases el) (auto simp: exec_body_def body_def)
  note fin = "4.prems"(6) [unfolded ex]
  have sub1: "set (concat (map targets body)) \<subseteq> set (targets (SIf c th el))"
    by (auto simp: body_def split: option.splits)
  have "set (concat (map assigned_by body)) = field_name ` set (concat (map targets body))"
    by (auto simp: assigned_by_def)
  also have "\<dots> \<subseteq> set (assigned_by (SIf c th el))"
    unfolding assigned_by_def set_map using sub1 by (rule image_mono)
  finally have sub2: "set (concat (map assigned_by body)) \<subseteq> set (assigned_by (SIf c th el))" .
  have keep: "exec_body stmts ?t (field_name f) = ?t (field_name f)" if "f \<in> set (targets (SIf c th el))" for f
    by (rule straight_keep [OF st]) (use that in \<open>auto simp: assigned_by_def\<close>)
  have f1: "\<forall>(x, y) \<in> set (concat (map targets body)). s (post_field x y) = ?t (pre_field x y)"
  proof clarify
    fix x y assume "(x, y) \<in> set (concat (map targets body))"
    then have m: "(x, y) \<in> set (targets (SIf c th el))" using sub1 by blast
    then have "s (post_field x y) = exec_body stmts ?t (pre_field x y)" using fin by auto
    with keep [OF m] show "s (post_field x y) = ?t (pre_field x y)" by (simp add: field_name_def)
  qed
  have f2: "\<forall>(x, y) \<in> set (concat (map targets stmts)). s (post_field x y) = exec_body stmts ?t (pre_field x y)"
    using fin by auto
  have "\<exists>b1 \<in> set (tb @ eb). tracks s b1 ?t \<and> set (branch_names b1) \<subseteq> set (concat (map assigned_by body)) \<union> set A"
  proof (cases ?T)
    case True
    let ?b = "push_premise (Constraint d rel) b"
    have b: "tracks s ?b t" "set (branch_names ?b) \<subseteq> set A" "?b \<in> set (map (push_premise (Constraint d rel)) bs)"
      using negated_branch [OF "4.prems"(4)] cond(1,3) True "4.prems"(3,5) by auto
    have "body = th" using True by (simp add: body_def)
    with "4.IH"(1) [OF tb sth b(3,1,2)] f1 show ?thesis by auto
  next
    case False
    let ?b = "push_premise (Constraint d (negate_relation rel)) b"
    have b: "tracks s ?b t" "set (branch_names ?b) \<subseteq> set A"
      "?b \<in> set (map (push_premise (Constraint d (negate_relation rel))) bs)"
      using negated_branch [OF "4.prems"(4)] cond(2,3) False "4.prems"(3,5) by auto
    have "body = ?el" using False by (simp add: body_def)
    with "4.IH"(2) [OF eb sel b(3,1,2)] f1 show ?thesis by auto
  qed
  then obtain b1 where b1: "b1 \<in> set (tb @ eb)" "tracks s b1 ?t"
    and "set (branch_names b1) \<subseteq> set (concat (map assigned_by body)) \<union> set A" by blast
  then have nb: "set (branch_names b1) \<subseteq> set (assigned_by (SIf c th el) @ A)" using sub2 by auto
  from "4.IH"(3) [OF rest st b1 nb f2] show ?case unfolding ex by (auto simp: assigned_by_def)
next
  case (5 A e arms stmts)
  have ex: "exec_body (SMatch e arms # stmts) t = exec_body stmts t" by (simp add: exec_body_def)
  from "5.prems" "5.IH" [of bs out b t] show ?case
    unfolding ex by (auto simp: assigned_by_def split: if_splits)
qed auto

subsection \<open>Loops that collect\<close>

lemma ext_fold_inv:
  "ext_fold f xs a = ext_ok b \<Longrightarrow> P a \<Longrightarrow> (\<And>x a b. x \<in> set xs \<Longrightarrow> P a \<Longrightarrow> f x a = ext_ok b \<Longrightarrow> P b) \<Longrightarrow> P b"
proof (induction xs arbitrary: a)
  case (Cons x xs)
  from Cons.prems(1) obtain c where c: "f x a = ext_ok c" "ext_fold f xs c = ext_ok b" by (auto simp: ext_bind_ok)
  have "P c" by (rule Cons.prems(3) [OF _ Cons.prems(2) c(1)]) simp
  from Cons.IH [OF c(2) this] Cons.prems(3) show ?case by auto
qed simp

lemma ext_fold_append:
  assumes "ext_fold f xs a = ext_ok b" and "\<And>x acc r. x \<in> set xs \<Longrightarrow> f x acc = ext_ok r \<Longrightarrow> \<exists>ys. r = acc @ ys \<and> Q x ys"
  shows "\<exists>yss. b = a @ concat yss \<and> list_all2 Q xs yss"
  using assms
proof (induction xs arbitrary: a)
  case Nil
  then show ?case by (auto intro: exI [of _ "[]"])
next
  case (Cons x xs)
  from Cons.prems(1) obtain c where c: "f x a = ext_ok c" "ext_fold f xs c = ext_ok b" by (auto simp: ext_bind_ok)
  from Cons.prems(2) [OF _ c(1)] obtain ys where ys: "c = a @ ys" "Q x ys" by auto
  from Cons.IH [OF c(2)] Cons.prems(2) obtain yss where "b = c @ concat yss" "list_all2 Q xs yss" by auto
  with ys show ?case by (intro exI [of _ "ys # yss"]) auto
qed

text \<open>Every element contributes to the collected list, and only the elements do.\<close>

lemma ext_fold_collect:
  assumes "ext_fold f xs a = ext_ok b" and "\<And>x acc r. x \<in> set xs \<Longrightarrow> f x acc = ext_ok r \<Longrightarrow> \<exists>ys. r = acc @ ys \<and> Q x ys"
  shows "y \<in> set b \<Longrightarrow> y \<in> set a \<or> (\<exists>x \<in> set xs. \<exists>ys. Q x ys \<and> y \<in> set ys)"
    and "x \<in> set xs \<Longrightarrow> \<exists>ys. Q x ys \<and> set ys \<subseteq> set b"
    and "set a \<subseteq> set b"
proof -
  have "\<exists>yss. b = a @ concat yss \<and> list_all2 Q xs yss"
    by (rule ext_fold_append [OF assms(1)]) (rule assms(2))
  then obtain yss where yss: "b = a @ concat yss" "list_all2 Q xs yss" by blast
  have rel: "rel_set Q (set xs) (set yss)" using yss(2) by (rule list.set_transfer [THEN rel_funD])
  show "y \<in> set b \<Longrightarrow> y \<in> set a \<or> (\<exists>x \<in> set xs. \<exists>ys. Q x ys \<and> y \<in> set ys)"
  proof -
    assume "y \<in> set b"
    then consider "y \<in> set a" | ys where "ys \<in> set yss" "y \<in> set ys" using yss(1) by auto
    then show ?thesis
    proof cases
      case 2
      with rel_setD2 [OF rel] show ?thesis by blast
    qed simp
  qed
  show "x \<in> set xs \<Longrightarrow> \<exists>ys. Q x ys \<and> set ys \<subseteq> set b"
    using rel_setD1 [OF rel] yss(1) by fastforce
  show "set a \<subseteq> set b" using yss by auto
qed

subsection \<open>Contracts call nothing\<close>

lemma plain_arith_calls: "plain_arith e \<Longrightarrow> collect_call_ensures nm specs e st = ext_ok st"
  by (induction e arbitrary: st) (auto simp: ext_bind_ok)

lemma plain_contract_calls: "plain_contract e \<Longrightarrow> collect_call_ensures nm specs e st = ext_ok st"
  by (induction e arbitrary: st) (auto simp: ext_bind_ok plain_arith_calls split: if_splits)

lemma conj_contract_plain: "conj_contract e \<Longrightarrow> plain_contract e"
  by (induction e) (auto split: if_splits)

lemma disj_contract_plain: "disj_contract e \<Longrightarrow> plain_contract e"
  by (induction e) (auto split: if_splits)

lemma plain_all_calls:
  "list_all plain_contract es \<Longrightarrow> collect_call_ensures_all nm specs es st = ext_ok st"
  by (induction es arbitrary: st) (auto simp: plain_contract_calls)

subsection \<open>The premises of a problem hold\<close>

lemma requires_dnf_sound:
  assumes "requires_dnf es = ext_ok d" and "list_all plain_contract es"
  shows "dnf_wf d \<and> (list_all (btrue pre_field s) es \<longrightarrow> dnf_true s d)"
proof -
  let ?P = "\<lambda>d. dnf_wf d \<and> (list_all (btrue pre_field s) es \<longrightarrow> dnf_true s d)"
  show ?thesis
  proof (rule ext_fold_inv [OF assms(1) [unfolded requires_dnf_def], of ?P])
    show "?P [[]]" by simp
  next
    fix e a b assume e: "e \<in> set es" "?P a"
      "ext_bind (to_constraints_dnf pre_field e) (\<lambda>branches. ext_ok (combine_dnf a branches)) = ext_ok b"
    then obtain d where d: "to_constraints_dnf pre_field e = ext_ok d" "b = combine_dnf a d"
      by (auto simp: ext_bind_ok)
    from requires_sound [OF _ d(1)] assms(2) e(1,2) d(2) show "?P b" by (auto simp: list_all_iff)
  qed
qed

definition positive_params :: "param list \<Rightarrow> valuation \<Rightarrow> bool" where
  "positive_params params s \<longleftrightarrow>
     list_all (\<lambda>p. starts_with (ttype_name (pa_ty p)) ''Positive'' \<longrightarrow> 1 \<le> s (pa_name p)) params"

lemma type_constraints_hold:
  assumes "type_constraints params = ext_ok cs" and "positive_params params s" and "c \<in> set cs"
  shows "c_holds s c \<and> wf_constraint c"
proof -
  let ?good = "\<lambda>ys. \<forall>c \<in> set ys. c_holds s c \<and> wf_constraint c"
  have "?good cs"
  proof (rule ext_fold_inv [OF assms(1) [unfolded type_constraints_def], of ?good])
    fix p a b assume p: "p \<in> set params" "?good a"
      "(if starts_with (ttype_name (pa_ty p)) ''Positive''
        then ext_bind (ext_lift (linear_sub (linear_var (pa_name p)) (constant_only 1)))
               (\<lambda>ge. ext_ok (a @ [Constraint ge Ge0]))
        else ext_ok a) = ext_ok b"
    show "?good b"
    proof (cases "starts_with (ttype_name (pa_ty p)) ''Positive''")
      case True
      with p(3) obtain l where l: "linear_sub (linear_var (pa_name p)) (constant_only 1) = Some l"
        "b = a @ [Constraint l Ge0]" by (auto simp: ext_bind_ok)
      from True p(1) assms(2) have "1 \<le> s (pa_name p)" by (auto simp: positive_params_def list_all_iff)
      with linear_sub_exact [OF l(1)] l(2) p(2) show ?thesis by auto
    qed (use p in auto)
  qed simp
  with assms(3) show ?thesis by blast
qed

text \<open>The invariants of the parameter types, under the naming of a state.\<close>

definition invariants_hold :: "invariants \<Rightarrow> param list \<Rightarrow> naming \<Rightarrow> valuation \<Rightarrow> bool" where
  "invariants_hold invs params nm s \<longleftrightarrow> list_all (\<lambda>p.
     case hm_get invs (ttype_name (pa_ty p)) of
       None \<Rightarrow> True
     | Some iv \<Rightarrow> list_all (\<lambda>c. btrue nm s (instantiate c (pa_name p))) (in_constraints iv)) params"

definition invariants_plain :: "invariants \<Rightarrow> param list \<Rightarrow> bool" where
  "invariants_plain invs params \<longleftrightarrow> list_all (\<lambda>p.
     case hm_get invs (ttype_name (pa_ty p)) of
       None \<Rightarrow> True
     | Some iv \<Rightarrow> list_all (\<lambda>c. conj_contract (instantiate c (pa_name p))) (in_constraints iv)) params"

lemma to_constraints_hold:
  assumes "to_constraints nm e = ext_ok cs" and "conj_contract e" and "btrue nm s e" and "c \<in> set cs"
  shows "c_holds s c \<and> wf_constraint c"
proof -
  from assms(1) obtain d where d: "to_constraints_dnf nm e = ext_ok d"
    "(case d of [cs] \<Rightarrow> ext_ok cs | _ \<Rightarrow> ext_err DisjunctionNotAllowed) = ext_ok cs"
    by (auto simp: to_constraints_def ext_bind_ok)
  from d(2) have "d = [cs]" by (cases d; cases "tl d") auto
  note d = d(1) this
  from requires_sound [OF conj_contract_plain [OF assms(2)] d(1), of s] assms(3,4) d(2) show ?thesis by auto
qed

lemma inv_constraints_hold:
  assumes "inv_constraints invs params = ext_ok cs" and "invariants_plain invs params"
    and "invariants_hold invs params pre_field s" and "c \<in> set cs"
  shows "c_holds s c \<and> wf_constraint c"
proof -
  let ?good = "\<lambda>ys. \<forall>c \<in> set ys. c_holds s c \<and> wf_constraint c"
  have "?good cs"
  proof (rule ext_fold_inv [OF assms(1) [unfolded inv_constraints_def], of ?good])
    fix p a b assume p: "p \<in> set params" "?good a"
      "(case hm_get invs (ttype_name (pa_ty p)) of None \<Rightarrow> ext_ok a
        | Some iv \<Rightarrow> ext_fold (\<lambda>c acc. ext_bind (to_constraints pre_field (instantiate c (pa_name p)))
            (\<lambda>cs. ext_ok (acc @ cs))) (in_constraints iv) a) = ext_ok b"
    show "?good b"
    proof (cases "hm_get invs (ttype_name (pa_ty p))")
      case None
      with p show ?thesis by simp
    next
      case (Some iv)
      have f: "ext_fold (\<lambda>c acc. ext_bind (to_constraints pre_field (instantiate c (pa_name p)))
          (\<lambda>cs. ext_ok (acc @ cs))) (in_constraints iv) a = ext_ok b" using p(3) Some by simp
      show ?thesis
      proof (rule ext_fold_inv [OF f, of ?good])
        fix e x y assume e: "e \<in> set (in_constraints iv)" "?good x"
          "ext_bind (to_constraints pre_field (instantiate e (pa_name p))) (\<lambda>cs. ext_ok (x @ cs)) = ext_ok y"
        then obtain ds where ds: "to_constraints pre_field (instantiate e (pa_name p)) = ext_ok ds" "y = x @ ds"
          by (auto simp: ext_bind_ok)
        have "conj_contract (instantiate e (pa_name p))" "btrue pre_field s (instantiate e (pa_name p))"
          using assms(2,3) p(1) Some e(1) by (auto simp: invariants_plain_def invariants_hold_def list_all_iff split: option.splits)
        from to_constraints_hold [OF ds(1) this] e(2) ds(2) show "?good y" by auto
      qed (use p in simp)
    qed
  qed simp
  with assms(4) show ?thesis by blast
qed

subsection \<open>Fields that the frame covers\<close>

lemma fold_grows:
  "(\<And>x acc. x \<in> set xs \<Longrightarrow> set acc \<subseteq> set (f x acc)) \<Longrightarrow> set out \<subseteq> set (fold f xs out)"
proof (induction xs arbitrary: out)
  case (Cons x xs)
  have "set out \<subseteq> set (f x out)" by (rule Cons.prems) simp
  also have "\<dots> \<subseteq> set (fold f xs (f x out))" by (rule Cons.IH) (use Cons.prems in auto)
  finally show ?case by simp
qed simp

lemma collect_fields_grows: "set out \<subseteq> set (collect_fields e out)"
proof (induction e arbitrary: out)
  case (TBin op a b)
  show ?case using TBin(1) [of out] TBin(2) [of "collect_fields a out"] by simp
next
  case (TIndex a b)
  show ?case using TIndex(1) [of out] TIndex(2) [of "collect_fields a out"] by simp
next
  case (TCall f args)
  then show ?case using fold_grows [of args collect_fields out] by simp
next
  case (TMethodCall r meth args)
  then show ?case using fold_grows [of args collect_fields "collect_fields r out"] by force
next
  case (TIf c a b)
  show ?case
    using TIf(1) [of out] TIf(2) [of "collect_fields c out"] TIf(3) [of "collect_fields a (collect_fields c out)"]
    by simp
next
  case (TMatch e arms)
  have "set acc \<subseteq> set (case x of (_, e) \<Rightarrow> collect_fields e acc)" if "x \<in> set arms" for x acc
    using TMatch(2) that by (cases x) fastforce
  then show ?case
    using TMatch(1) [of out] fold_grows [of arms "\<lambda>(_, e). collect_fields e" "collect_fields e out"]
    by (auto simp: split_beta)
qed (auto simp: hs_insert_def)

lemma collect_assign_grows: "set out \<subseteq> set (collect_assign_fields a out)"
  using collect_fields_grows [of out "as_value a"]
  by (auto simp: collect_assign_fields_def Let_def hs_insert_def split: option.split)

lemma collect_stmt_grows: "set out \<subseteq> set (collect_stmt_fields st out)"
proof (induction st out rule: collect_stmt_fields.induct)
  case (1 as out)
  then show ?case by (simp add: fold_grows collect_assign_grows)
next
  case (2 a out)
  then show ?case by (simp add: collect_assign_grows)
next
  case (3 c th el out)
  have "set out \<subseteq> set (fold collect_stmt_fields th out)" by (rule fold_grows) (rule "3.IH"(1))
  moreover have "set acc \<subseteq> set (fold collect_stmt_fields b acc)" if "el = Some b" for b acc
    by (rule fold_grows) (use 3 that in auto)
  ultimately show ?case by (cases el) (auto simp: Let_def)
next
  case (4 s arms out)
  then show ?case using fold_grows [of "concat (map snd arms)" collect_stmt_fields out] by simp
qed auto

lemma assign_target_collected:
  "assign_ok A a \<Longrightarrow> target a \<in> set (collect_assign_fields a out)"
  by (auto elim!: assign_okD simp: collect_assign_fields_def Let_def hs_insert_def target_def)

lemma assigns_collected:
  "straight_assigns A as \<Longrightarrow> set (map target as) \<subseteq> set (fold collect_assign_fields as out)"
proof (induction A as arbitrary: out rule: straight_assigns.induct)
  case (2 A a as)
  then have "target a \<in> set (collect_assign_fields a out)" using assign_target_collected [of A a out] by simp
  moreover have "set (collect_assign_fields a out) \<subseteq> set (fold collect_assign_fields as (collect_assign_fields a out))"
    by (rule fold_grows) (rule collect_assign_grows)
  ultimately show ?case using 2 by auto
qed simp

lemma targets_collected:
  "straight A stmts \<Longrightarrow> set (concat (map targets stmts)) \<subseteq> set (fold collect_stmt_fields stmts out)"
proof (induction A stmts arbitrary: out rule: straight.induct)
  case (2 A as stmts)
  have "set (map target as) \<subseteq> set (collect_stmt_fields (SMutateState as) out)"
    using "2.prems" assigns_collected [of A as out] by simp
  also have "\<dots> \<subseteq> set (fold collect_stmt_fields stmts (collect_stmt_fields (SMutateState as) out))"
    by (rule fold_grows) (rule collect_stmt_grows)
  finally show ?case using 2 by auto
next
  case (3 A a stmts)
  have "target a \<in> set (collect_stmt_fields (SAssign a) out)"
    using "3.prems" assign_target_collected [of A a out] by simp
  moreover have "\<dots> \<subseteq> set (fold collect_stmt_fields stmts (collect_stmt_fields (SAssign a) out))"
    by (rule fold_grows) (rule collect_stmt_grows)
  ultimately show ?case using 3 by auto
next
  case (4 A c th el stmts)
  let ?o1 = "fold collect_stmt_fields th out" and ?o = "collect_stmt_fields (SIf c th el) out"
  have th: "set (concat (map targets th)) \<subseteq> set ?o1" using 4 by simp
  have el: "set (concat (map targets b)) \<subseteq> set (fold collect_stmt_fields b ?o1)" if "el = Some b" for b
    using "4.IH"(2) "4.prems" that by simp
  have gr: "set ?o1 \<subseteq> set (fold collect_stmt_fields b ?o1)" for b by (rule fold_grows) (rule collect_stmt_grows)
  have "set (targets (SIf c th el)) \<subseteq> set ?o"
  proof (cases el)
    case None
    with th show ?thesis by (simp add: Let_def)
  next
    case (Some b)
    with order_trans [OF th gr [of b]] el [OF Some] show ?thesis by (simp add: Let_def)
  qed
  also have "\<dots> \<subseteq> set (fold collect_stmt_fields stmts ?o)" by (rule fold_grows) (rule collect_stmt_grows)
  finally show ?case using 4 by auto
qed auto

lemma targets_referenced:
  assumes "straight A (fn_body f)"
  shows "set (concat (map targets (fn_body f))) \<subseteq> set (referenced_fields inv_fields f)"
proof -
  let ?o = "fold collect_fields (fn_ensures f) (fold collect_fields (fn_requires f) [])"
  have "set (concat (map targets (fn_body f))) \<subseteq> set (collect_body_referenced_fields (fn_body f) ?o)"
    unfolding collect_body_referenced_fields_def using assms by (rule targets_collected)
  also have "\<dots> \<subseteq> set (referenced_fields inv_fields f)"
    unfolding referenced_fields_def
  proof (rule fold_grows)
    fix p :: param and acc :: "(string \<times> string) list"
    have "set acc \<subseteq> set (fold (\<lambda>g out. hs_insert (pa_name p, g) out) fs acc)" for fs
      by (rule fold_grows) (auto simp: hs_insert_def)
    then show "set acc \<subseteq> set (case hm_get inv_fields (ttype_name (pa_ty p)) of None \<Rightarrow> acc
        | Some fs \<Rightarrow> fold (\<lambda>g out. hs_insert (pa_name p, g) out) fs acc)"
      by (simp split: option.split)
  qed
  finally show ?thesis .
qed

text \<open>The fields a branch assigns are targets of the body.\<close>

lemma process_assigns_assigned:
  assumes "ext_fold (process_assign nm) as bs = ext_ok out" and "set (map target as) \<subseteq> F"
    and "\<forall>b \<in> set bs. set (bb_assigned b) \<subseteq> F"
  shows "\<forall>b \<in> set out. set (bb_assigned b) \<subseteq> F"
proof (rule ext_fold_inv [OF assms(1), of "\<lambda>bs. \<forall>b \<in> set bs. set (bb_assigned b) \<subseteq> F"])
  fix a xs ys assume a: "a \<in> set as" "\<forall>b \<in> set xs. set (bb_assigned b) \<subseteq> F" "process_assign nm a xs = ext_ok ys"
  then obtain c where c: "assign_constraint nm a = ext_ok c" "ys = map (push_mutation a c) xs"
    by (auto simp: process_assign_def ext_bind_ok)
  then obtain f where f: "target_field a = Some f"
    by (auto simp: assign_constraint_def split: option.splits)
  then have "f \<in> F" using a(1) assms(2) by (auto simp: target_def)
  with a(2) c(2) f show "\<forall>b \<in> set ys. set (bb_assigned b) \<subseteq> F"
    by (auto simp: push_mutation_def hs_insert_def)
qed (use assms in auto)

lemma body_assigned:
  "process_body_stmts nm stmts bs = ext_ok out \<Longrightarrow> set (concat (map targets stmts)) \<subseteq> F \<Longrightarrow>
     \<forall>b \<in> set bs. set (bb_assigned b) \<subseteq> F \<Longrightarrow> \<forall>b \<in> set out. set (bb_assigned b) \<subseteq> F"
proof (induction nm stmts bs arbitrary: out rule: process_body_stmts.induct)
  case (2 nm as stmts bs)
  then obtain mid where m: "ext_fold (process_assign nm) as bs = ext_ok mid" "process_body_stmts nm stmts mid = ext_ok out"
    by (auto simp: ext_bind_ok)
  have "\<forall>b \<in> set mid. set (bb_assigned b) \<subseteq> F"
    by (rule process_assigns_assigned [OF m(1)]) (use "2.prems" in auto)
  moreover have "set (concat (map targets stmts)) \<subseteq> F" using "2.prems"(2) by simp
  ultimately show ?case using "2.IH" m(2) by blast
next
  case (3 nm a stmts bs)
  then obtain mid where m: "ext_fold (process_assign nm) [a] bs = ext_ok mid" "process_body_stmts nm stmts mid = ext_ok out"
    by (auto simp: ext_bind_ok)
  have "\<forall>b \<in> set mid. set (bb_assigned b) \<subseteq> F"
    by (rule process_assigns_assigned [OF m(1)]) (use "3.prems" in auto)
  moreover have "set (concat (map targets stmts)) \<subseteq> F" using "3.prems"(2) by simp
  ultimately show ?case using "3.IH" m(2) by blast
next
  case (4 nm c th el stmts bs)
  let ?el = "case el of None \<Rightarrow> [] | Some b \<Rightarrow> b"
  from "4.prems"(1) obtain d rel tb eb where d: "branch_condition nm c = ext_ok (d, rel)"
    and tb: "process_body_stmts nm th (map (push_premise (Constraint d rel)) bs) = ext_ok tb"
    and eb: "process_body_stmts nm ?el (map (push_premise (Constraint d (negate_relation rel))) bs) = ext_ok eb"
    and rest: "process_body_stmts nm stmts (tb @ eb) = ext_ok out"
    by (auto simp: ext_bind_ok)
  have p: "\<forall>b \<in> set (map (push_premise k) bs). set (bb_assigned b) \<subseteq> F" for k
    using "4.prems"(3) by (auto simp: push_premise_def)
  have t1: "set (concat (map targets th)) \<subseteq> F" "set (concat (map targets ?el)) \<subseteq> F"
    using "4.prems"(2) by (cases el; simp)+
  have "\<forall>b \<in> set tb. set (bb_assigned b) \<subseteq> F" using "4.IH"(1) tb t1(1) p by blast
  moreover have "\<forall>b \<in> set eb. set (bb_assigned b) \<subseteq> F" using "4.IH"(2) eb t1(2) p by blast
  ultimately have "\<forall>b \<in> set (tb @ eb). set (bb_assigned b) \<subseteq> F" by auto
  moreover have "set (concat (map targets stmts)) \<subseteq> F" using "4.prems"(2) by simp
  ultimately show ?case using "4.IH"(3) rest by blast
qed (auto split: if_splits)

end
