(* ===== verification/Telos_End_To_End.thy ===== *)
theory Telos_End_To_End
  imports Telos_Sound
begin

text \<open>
  The verifier of telos end to end: when every problem extracted from a function of the sound
  fragment is passed by the solver, running the function from a state that meets its
  requirements ends in a state that meets its guarantees. The last section shows accepted programs
  outside the fragment that violate their contracts.
\<close>

subsection \<open>The hypotheses on a function and a state\<close>

definition sound_fragment :: "invariants \<Rightarrow> invariant_fields \<Rightarrow> tfunc \<Rightarrow> bool" where
  "sound_fragment invs inv_fields f \<longleftrightarrow>
     list_all plain_contract (fn_requires f) \<and>
     list_all (\<lambda>e. conj_contract e \<or> disj_contract e) (fn_ensures f) \<and>
     invariants_plain invs (fn_params f) \<and> straight [] (fn_body f) \<and>
     distinct (map field_name (referenced_fields inv_fields f))"

text \<open>The names of the fields after the call hold what running the body leaves in the fields.\<close>

definition two_state :: "invariant_fields \<Rightarrow> tfunc \<Rightarrow> valuation \<Rightarrow> bool" where
  "two_state inv_fields f s \<longleftrightarrow>
     list_all (\<lambda>(x, y). s (post_field x y) = exec_body (fn_body f) s (pre_field x y)) (referenced_fields inv_fields f)"

definition start_ok :: "invariants \<Rightarrow> tfunc \<Rightarrow> valuation \<Rightarrow> bool" where
  "start_ok invs f s \<longleftrightarrow> list_all (btrue pre_field s) (fn_requires f) \<and> positive_params (fn_params f) s \<and>
     invariants_hold invs (fn_params f) pre_field s"

definition exit_ok :: "invariants \<Rightarrow> tfunc \<Rightarrow> valuation \<Rightarrow> bool" where
  "exit_ok invs f s \<longleftrightarrow> list_all (btrue post_field s) (fn_ensures f) \<and> invariants_hold invs (fn_params f) post_field s"

definition set_permuted :: "((string \<times> string) list \<Rightarrow> (string \<times> string) list) \<Rightarrow> bool" where
  "set_permuted ord \<longleftrightarrow> (\<forall>xs. set (ord xs) = set xs)"

subsection \<open>The premises of one problem hold\<close>

lemma frame_axioms_hold:
  assumes "frame_axioms referenced assigned = ext_ok cs" and "c \<in> set cs"
    and "\<And>x y. (x, y) \<in> set referenced \<Longrightarrow> (x, y) \<notin> set assigned \<Longrightarrow> s (post_field x y) = s (pre_field x y)"
  shows "c_holds s c \<and> wf_constraint c"
proof -
  let ?good = "\<lambda>ys. \<forall>c \<in> set ys. c_holds s c \<and> wf_constraint c"
  have "?good cs"
  proof (rule ext_fold_inv [OF assms(1) [unfolded frame_axioms_def], of ?good])
    fix bf a b assume p: "bf \<in> set referenced" "?good a"
      "(case bf of (base, field) \<Rightarrow> \<lambda>acc. if (base, field) \<in> set assigned then ext_ok acc
        else ext_bind (ext_lift (linear_sub (linear_var (post_field base field)) (linear_var (pre_field base field))))
              (\<lambda>d. ext_ok (acc @ [Constraint d Eq0]))) a = ext_ok b"
    obtain x y where bf: "bf = (x, y)" by (cases bf)
    show "?good b"
    proof (cases "(x, y) \<in> set assigned")
      case False
      with p(3) bf obtain d where d: "linear_sub (linear_var (post_field x y)) (linear_var (pre_field x y)) = Some d"
        "b = a @ [Constraint d Eq0]" by (auto simp: ext_bind_ok)
      from linear_sub_exact [OF d(1)] assms(3) [of x y] False p(1,2) bf d(2) show ?thesis by auto
    qed (use p bf in auto)
  qed simp
  with assms(2) show ?thesis by blast
qed

lemma combine_branches_member:
  assumes "combine_branches referenced req bbs = ext_ok combined" and "r \<in> set req" and "b \<in> set bbs"
  shows "\<exists>frame. frame_axioms referenced (bb_assigned b) = ext_ok frame \<and>
     r @ bb_extra_premises b @ bb_mutations b @ frame \<in> set combined"
proof -
  let ?Q = "\<lambda>(r, b) ys. \<exists>frame. frame_axioms referenced (bb_assigned b) = ext_ok frame \<and>
     ys = [r @ bb_extra_premises b @ bb_mutations b @ frame]"
  have "\<exists>ys. ?Q (r, b) ys \<and> set ys \<subseteq> set combined"
    by (rule ext_fold_collect(2) [OF assms(1) [unfolded combine_branches_def]])
      (use assms(2,3) in \<open>auto simp: ext_bind_ok\<close>)
  then show ?thesis by auto
qed

lemma build_problems_parts:
  assumes "build_problems ord invs inv_fields specs f = ext_ok ps" and "sound_fragment invs inv_fields f"
  obtains req types entry bbs combined where
    "requires_dnf (fn_requires f) = ext_ok req" and "type_constraints (fn_params f) = ext_ok types"
    and "inv_constraints invs (fn_params f) = ext_ok entry"
    and "process_body_stmts pre_field (fn_body f) [\<lparr>bb_extra_premises = [], bb_mutations = [], bb_assigned = []\<rparr>] = ext_ok bbs"
    and "combine_branches (ord (referenced_fields inv_fields f)) (map (\<lambda>b. b @ types @ entry) req) bbs = ext_ok combined"
    and "\<And>pm. pm \<in> set combined \<Longrightarrow> \<exists>p \<in> set ps. \<exists>i. build_problem f invs (length combined) (i, pm) = ext_ok p"
proof -
  have calls: "call_premises specs f = ext_ok []"
  proof -
    have "list_all plain_contract (fn_requires f)" "list_all plain_contract (fn_ensures f)"
      using assms(2) conj_contract_plain disj_contract_plain by (auto simp: sound_fragment_def list_all_iff)
    then show ?thesis by (simp add: call_premises_def plain_all_calls)
  qed
  from assms(1) calls obtain req types entry bbs combined where parts:
    "requires_dnf (fn_requires f) = ext_ok req" "type_constraints (fn_params f) = ext_ok types"
    "inv_constraints invs (fn_params f) = ext_ok entry"
    "process_body_stmts pre_field (fn_body f) [\<lparr>bb_extra_premises = [], bb_mutations = [], bb_assigned = []\<rparr>] = ext_ok bbs"
    "combine_branches (ord (referenced_fields inv_fields f)) (map (\<lambda>b. b @ types @ entry) req) bbs = ext_ok combined"
    "ext_fold (\<lambda>ip acc. ext_bind (build_problem f invs (length combined) ip) (\<lambda>p. ext_ok (acc @ [p])))
       (enumerate 0 combined) [] = ext_ok ps"
    by (auto simp: build_problems_def Let_def ext_bind_ok)
  have "\<exists>p \<in> set ps. \<exists>i. build_problem f invs (length combined) (i, pm) = ext_ok p" if "pm \<in> set combined" for pm
  proof -
    from that obtain i where "i < length combined" "combined ! i = pm" by (auto simp: in_set_conv_nth)
    then have i: "(i, pm) \<in> set (enumerate 0 combined)" by (simp add: in_set_enumerate_eq)
    have "\<exists>ys. (\<exists>p. build_problem f invs (length combined) (i, pm) = ext_ok p \<and> ys = [p]) \<and> set ys \<subseteq> set ps"
      by (rule ext_fold_collect(2) [OF parts(6), where Q = "\<lambda>x ys. \<exists>p. build_problem f invs (length combined) x = ext_ok p \<and> ys = [p]"])
        (use i in \<open>auto simp: ext_bind_ok\<close>)
    then show ?thesis by auto
  qed
  with parts(1-5) show thesis by (rule that)
qed

lemma premises_hold:
  assumes "build_problems ord invs inv_fields specs f = ext_ok ps" and "sound_fragment invs inv_fields f"
    and "set_permuted ord" and "two_state inv_fields f s" and "start_ok invs f s"
  obtains p i n pm where "p \<in> set ps" and "build_problem f invs n (i, pm) = ext_ok p"
    and "\<forall>c \<in> set pm. c_holds s c \<and> wf_constraint c"
proof -
  let ?ref = "referenced_fields inv_fields f" and ?b0 = "\<lparr>bb_extra_premises = [], bb_mutations = [], bb_assigned = []\<rparr>"
  from assms(1,2) obtain req types entry bbs combined where
    req: "requires_dnf (fn_requires f) = ext_ok req" and types: "type_constraints (fn_params f) = ext_ok types"
    and entry: "inv_constraints invs (fn_params f) = ext_ok entry"
    and bbs: "process_body_stmts pre_field (fn_body f) [?b0] = ext_ok bbs"
    and comb: "combine_branches (ord ?ref) (map (\<lambda>b. b @ types @ entry) req) bbs = ext_ok combined"
    and probs: "\<And>pm. pm \<in> set combined \<Longrightarrow>
       \<exists>p \<in> set ps. \<exists>i. build_problem f invs (length combined) (i, pm) = ext_ok p"
    by (rule build_problems_parts) blast
  have st: "straight [] (fn_body f)" and frag: "list_all plain_contract (fn_requires f)" "invariants_plain invs (fn_params f)"
    and inj: "inj_on field_name (set ?ref)"
    using assms(2) by (auto simp: sound_fragment_def distinct_map)
  from requires_dnf_sound [OF req frag(1), of s] assms(5) obtain r where
    r: "r \<in> set req" "\<forall>c \<in> set r. c_holds s c \<and> wf_constraint c"
    by (auto simp: start_ok_def dnf_true_def dnf_wf_def)
  have tgt: "set (concat (map targets (fn_body f))) \<subseteq> set ?ref" using st by (rule targets_referenced)
  have fin: "\<forall>(x, y) \<in> set (concat (map targets (fn_body f))). s (post_field x y) = exec_body (fn_body f) s (pre_field x y)"
    using assms(4) tgt by (auto simp: two_state_def list_all_iff)
  have "tracks s ?b0 s" by (simp add: tracks_def agrees_def)
  from body_tracked [OF bbs st _ this _ fin] obtain b where b: "b \<in> set bbs" "tracks s b (exec_body (fn_body f) s)"
    by (auto simp: branch_names_def)
  have asg: "set (bb_assigned b) \<subseteq> set ?ref" using body_assigned [OF bbs tgt] b(1) by simp
  from combine_branches_member [OF comb, of "r @ types @ entry" b] r(1) b(1) obtain frame where
    frame: "frame_axioms (ord ?ref) (bb_assigned b) = ext_ok frame"
    and mem: "(r @ types @ entry) @ bb_extra_premises b @ bb_mutations b @ frame \<in> set combined" by auto
  have same: "s (post_field x y) = s (pre_field x y)" if "(x, y) \<in> set (ord ?ref)" "(x, y) \<notin> set (bb_assigned b)" for x y
  proof -
    have xy: "(x, y) \<in> set ?ref" using that(1) assms(3) by (simp add: set_permuted_def)
    then have "field_name (x, y) \<notin> set (branch_names b)"
      using inj asg that(2) by (auto simp: branch_names_def inj_on_def)
    then have "exec_body (fn_body f) s (pre_field x y) = s (pre_field x y)"
      using b(2) by (simp add: tracks_def agrees_def field_name_def)
    with assms(4) xy show ?thesis by (auto simp: two_state_def list_all_iff)
  qed
  have all: "c_holds s c \<and> wf_constraint c"
    if "c \<in> set ((r @ types @ entry) @ bb_extra_premises b @ bb_mutations b @ frame)" for c
    using that r(2) b(2) type_constraints_hold [OF types] inv_constraints_hold [OF entry frag(2)]
      frame_axioms_hold [OF frame _ same] assms(5)
    by (auto simp: tracks_def start_ok_def)
  from probs [OF mem] obtain p i where "p \<in> set ps"
    "build_problem f invs (length combined) (i, (r @ types @ entry) @ bb_extra_premises b @ bb_mutations b @ frame) = ext_ok p"
    by blast
  then show thesis using all by (intro that) auto
qed

subsection \<open>Conclusions are well formed\<close>

lemma lower_div_distinct: "lower_div l e = ext_ok r \<Longrightarrow> distinct_vars l \<Longrightarrow> distinct_vars r"
  using scale_exact_val(2) by (auto simp: lower_div_def split: option.splits if_splits)

lemma lower_index_distinct: "lower_index nm r i = ext_ok l \<Longrightarrow> distinct_vars l"
  by (auto simp: lower_index_def split: option.splits texpr.splits)

lemma linearize_bounded_distinct:
  "linearize_bounded nm bounds e ap = ext_ok (l, ap') \<Longrightarrow> distinct_vars l"
proof (induction nm bounds e ap arbitrary: l ap' rule: linearize_bounded.induct)
  case (6 nm bounds op lhs rhs ap)
  from "6.prems" obtain a ap1 b ap2 where ab: "linearize_bounded nm bounds lhs ap = ext_ok (a, ap1)"
    "linearize_bounded nm bounds rhs ap1 = ext_ok (b, ap2)" by (auto simp: ext_bind_ok)
  have d: "distinct_vars a" "distinct_vars b" using "6.IH" ab by auto
  from "6.prems" ab d linear_add_exact(2) linear_sub_exact(2) linear_scale_exact(2) lower_div_distinct show ?case
    by (auto simp: ext_bind_ok Let_def split: tbinop.splits option.splits)
qed (auto simp: ext_bind_ok linear_neg_exact(2) lower_index_distinct)

lemma compare_bounded_wf: "compare_bounded nm bounds rel lhs rhs ap = ext_ok (c, ap') \<Longrightarrow> wf_constraint c"
  using linear_sub_exact(2,3) linearize_bounded_distinct by (fastforce simp: compare_bounded_def ext_bind_ok)

lemma bounded_wf: "to_constraints_bounded nm bounds e ap = ext_ok (cs, ap') \<Longrightarrow> \<forall>c \<in> set cs. wf_constraint c"
proof (induction e arbitrary: cs ap ap')
  case (TBin op a b)
  then show ?case
    using compare_bounded_wf by (fastforce simp: ext_bind_ok split: if_splits option.splits)
qed auto

lemma bounded_dnf_wf: "to_constraints_bounded_dnf nm bounds e ap = ext_ok (d, ap') \<Longrightarrow> dnf_wf d"
proof (induction e arbitrary: d ap ap')
  case (TBin op a b)
  show ?case
  proof (cases "op = TOr \<or> op = TAnd")
    case True
    with TBin.prems obtain x ap1 y where "to_constraints_bounded_dnf nm bounds a ap = ext_ok (x, ap1)"
      "to_constraints_bounded_dnf nm bounds b ap1 = ext_ok (y, ap')" "d = (if op = TOr then x @ y else combine_dnf x y)"
      by (auto simp: ext_bind_ok split: if_splits)
    with TBin.IH show ?thesis by auto
  next
    case False
    with TBin.prems compare_bounded_wf show ?thesis by (auto simp: ext_bind_ok split: option.splits)
  qed
qed auto

subsection \<open>The conclusions of a problem give the contract\<close>

text \<open>How an ensures clause appears among the conclusions.\<close>

definition clause_lowered :: "nat \<Rightarrow> var_bounds \<Rightarrow> texpr \<Rightarrow> conclusion list \<Rightarrow> bool" where
  "clause_lowered n bounds e cs \<longleftrightarrow> (\<exists>d ap. to_constraints_bounded_dnf post_field bounds e False = ext_ok (d, ap) \<and>
     (if length d = 1
      then \<forall>k \<in> set (hd d). \<exists>c \<in> set cs. co_constraint c = k \<and> co_or_group c = None \<and> co_is_approximation c = ap
      else \<exists>g < n. (\<forall>k \<in> set (concat d). \<exists>c \<in> set cs. co_constraint c = k \<and> co_or_group c = Some g \<and> co_is_approximation c = ap) \<and>
         (\<forall>c \<in> set cs. co_or_group c = Some g \<longrightarrow> co_constraint c \<in> set (concat d))))"

definition groups_in :: "nat \<Rightarrow> nat \<Rightarrow> conclusion list \<Rightarrow> bool" where
  "groups_in lo hi cs \<longleftrightarrow> (\<forall>c \<in> set cs. \<forall>g. co_or_group c = Some g \<longrightarrow> lo \<le> g \<and> g < hi)"

lemma clause_lowered_append:
  assumes "clause_lowered n bounds e cs" and "groups_in n m ds" and "n \<le> k"
  shows "clause_lowered k bounds e (cs @ ds)"
proof -
  from assms(1) obtain d ap where d: "to_constraints_bounded_dnf post_field bounds e False = ext_ok (d, ap)"
    and alt: "if length d = 1
      then \<forall>k \<in> set (hd d). \<exists>c \<in> set cs. co_constraint c = k \<and> co_or_group c = None \<and> co_is_approximation c = ap
      else \<exists>g < n. (\<forall>k \<in> set (concat d). \<exists>c \<in> set cs. co_constraint c = k \<and> co_or_group c = Some g \<and> co_is_approximation c = ap) \<and>
         (\<forall>c \<in> set cs. co_or_group c = Some g \<longrightarrow> co_constraint c \<in> set (concat d))"
    unfolding clause_lowered_def by blast
  show ?thesis
  proof (cases "length d = 1")
    case True
    with d alt show ?thesis unfolding clause_lowered_def by (intro exI [of _ d] exI [of _ ap]) auto
  next
    case False
    with alt obtain g where g: "g < n"
      "\<forall>k \<in> set (concat d). \<exists>c \<in> set cs. co_constraint c = k \<and> co_or_group c = Some g \<and> co_is_approximation c = ap"
      "\<forall>c \<in> set cs. co_or_group c = Some g \<longrightarrow> co_constraint c \<in> set (concat d)" by auto
    have "\<forall>c \<in> set ds. co_or_group c \<noteq> Some g" using assms(2) g(1) by (auto simp: groups_in_def)
    with d False g assms(3) show ?thesis
      unfolding clause_lowered_def by (intro exI [of _ d] exI [of _ ap]) (auto intro!: exI [of _ g])
  qed
qed

lemma mk_conclusion_sel [simp]:
  "co_constraint (mk_conclusion de en ap lo g c) = c" "co_or_group (mk_conclusion de en ap lo g c) = g"
  "co_is_approximation (mk_conclusion de en ap lo g c) = ap"
  by (simp_all add: mk_conclusion_def)

lemma group_conclusions_sel:
  "c \<in> set (group_conclusions e ap loc g d) \<Longrightarrow>
     co_or_group c = Some g \<and> co_is_approximation c = ap \<and> co_constraint c \<in> set (concat d)"
  "k \<in> set (concat d) \<Longrightarrow> \<exists>c \<in> set (group_conclusions e ap loc g d). co_constraint c = k"
proof -
  show "c \<in> set (group_conclusions e ap loc g d) \<Longrightarrow>
      co_or_group c = Some g \<and> co_is_approximation c = ap \<and> co_constraint c \<in> set (concat d)"
    by (auto simp: group_conclusions_def in_set_enumerate_eq)
  assume "k \<in> set (concat d)"
  then obtain b where b: "b \<in> set d" "k \<in> set b" by auto
  then obtain i where i: "i < length d" "k \<in> set (d ! i)" by (metis in_set_conv_nth)
  then have "(i, d ! i) \<in> set (enumerate 0 d)" by (simp add: in_set_enumerate_eq)
  with i(2) show "\<exists>c \<in> set (group_conclusions e ap loc g d). co_constraint c = k"
    unfolding group_conclusions_def by (force intro!: bexI)
qed

lemma ensures_step:
  assumes "ensures_conclusions bounds f (i, e) (acc, n) = ext_ok (out, m)" and "groups_in 0 n acc"
  shows "n \<le> m" and "\<exists>new. out = acc @ new \<and> groups_in n m new \<and> (\<forall>c \<in> set new. wf_constraint (co_constraint c))"
    and "clause_lowered m bounds e out"
proof -
  from assms(1) obtain d ap where d: "to_constraints_bounded_dnf post_field bounds e False = ext_ok (d, ap)"
    by (auto simp: ensures_conclusions_def ext_bind_ok)
  note wf = bounded_dnf_wf [OF d]
  let ?loc = "span_or (fn_ensures_spans f) i (fn_span f)"
  show "n \<le> m" "\<exists>new. out = acc @ new \<and> groups_in n m new \<and> (\<forall>c \<in> set new. wf_constraint (co_constraint c))"
    "clause_lowered m bounds e out"
  proof (atomize (full), cases "length d = 1")
    case True
    then obtain cs where cs: "d = [cs]" by (auto simp: length_Suc_conv)
    with assms(1) d have o: "out = acc @ map (mk_conclusion (''ensures: '' @ pretty e) True ap ?loc None) cs" "m = n"
      by (auto simp: ensures_conclusions_def Let_def)
    let ?new = "map (mk_conclusion (''ensures: '' @ pretty e) True ap ?loc None) cs"
    have "\<exists>c \<in> set out. co_constraint c = k \<and> co_or_group c = None \<and> co_is_approximation c = ap" if "k \<in> set cs" for k
      by (rule bexI [of _ "mk_conclusion (''ensures: '' @ pretty e) True ap ?loc None k"]) (use that o in auto)
    then have "clause_lowered m bounds e out"
      using cs d unfolding clause_lowered_def by (intro exI [of _ d] exI [of _ ap]) auto
    moreover have "groups_in n m ?new" "\<forall>c \<in> set ?new. wf_constraint (co_constraint c)"
      using wf cs by (auto simp: groups_in_def)
    ultimately show "n \<le> m \<and> (\<exists>new. out = acc @ new \<and> groups_in n m new \<and> (\<forall>c \<in> set new. wf_constraint (co_constraint c))) \<and>
        clause_lowered m bounds e out"
      using o by blast
  next
    case False
    with assms(1) d have o: "out = acc @ group_conclusions e ap ?loc n d" "m = n + 1"
      by (auto simp: ensures_conclusions_def Let_def split: list.splits)
    note g = group_conclusions_sel(1) [of _ e ap ?loc n d] group_conclusions_sel(2) [of _ d e ap ?loc n]
    have "groups_in n m (group_conclusions e ap ?loc n d)" using g(1) o(2) by (auto simp: groups_in_def)
    moreover have "\<forall>c \<in> set (group_conclusions e ap ?loc n d). wf_constraint (co_constraint c)"
      using g(1) wf by (auto simp: dnf_wf_def)
    moreover have "clause_lowered m bounds e out"
    proof -
      have "\<forall>c \<in> set acc. co_or_group c \<noteq> Some n" using assms(2) by (auto simp: groups_in_def)
      then have "\<forall>c \<in> set out. co_or_group c = Some n \<longrightarrow> co_constraint c \<in> set (concat d)" using g(1) o(1) by auto
      moreover have "\<forall>k \<in> set (concat d). \<exists>c \<in> set out. co_constraint c = k \<and> co_or_group c = Some n \<and> co_is_approximation c = ap"
        using g o(1) by (metis Un_iff set_append)
      ultimately show ?thesis
        using d False o(2) unfolding clause_lowered_def by (intro exI [of _ d] exI [of _ ap]) (auto intro!: exI [of _ n])
    qed
    ultimately show "n \<le> m \<and> (\<exists>new. out = acc @ new \<and> groups_in n m new \<and> (\<forall>c \<in> set new. wf_constraint (co_constraint c))) \<and>
        clause_lowered m bounds e out"
      using o by auto
  qed
qed
lemma ensures_fold:
  assumes "ext_fold (ensures_conclusions bounds f) ies (acc, n) = ext_ok (out, m)" and "groups_in 0 n acc"
  shows "n \<le> m \<and> (\<exists>new. out = acc @ new \<and> groups_in n m new \<and> (\<forall>c \<in> set new. wf_constraint (co_constraint c))) \<and>
     (\<forall>(i, e) \<in> set ies. clause_lowered m bounds e out)"
  using assms
proof (induction ies arbitrary: acc n)
  case Nil
  then show ?case by (auto simp: groups_in_def)
next
  case (Cons ie ies)
  obtain i e where ie: "ie = (i, e)" by (cases ie)
  with Cons.prems(1) obtain out1 m1 where
    one: "ensures_conclusions bounds f (i, e) (acc, n) = ext_ok (out1, m1)"
    and rest: "ext_fold (ensures_conclusions bounds f) ies (out1, m1) = ext_ok (out, m)"
    by (auto simp: ext_bind_ok)
  note step = ensures_step [OF one Cons.prems(2)]
  from step(2) obtain new where new: "out1 = acc @ new" "groups_in n m1 new" "\<forall>c \<in> set new. wf_constraint (co_constraint c)"
    by blast
  have "groups_in 0 m1 out1" using new Cons.prems(2) step(1) by (fastforce simp: groups_in_def)
  from Cons.IH [OF rest this] obtain more where ih: "m1 \<le> m" "out = out1 @ more" "groups_in m1 m more"
    "\<forall>c \<in> set more. wf_constraint (co_constraint c)" "\<forall>(i, e) \<in> set ies. clause_lowered m bounds e out" by blast
  have "clause_lowered m bounds e out" using clause_lowered_append [OF step(3) ih(3,1)] ih(2) by simp
  moreover have "groups_in n m (new @ more)" using new(2) ih(1,3) step(1) by (fastforce simp: groups_in_def)
  ultimately show ?case using step(1) ih new ie by (intro conjI exI [of _ "new @ more"]) auto
qed

text \<open>How the invariants of a parameter appear among the conclusions.\<close>

definition invariant_lowered :: "var_bounds \<Rightarrow> texpr \<Rightarrow> conclusion list \<Rightarrow> bool" where
  "invariant_lowered bounds e cs \<longleftrightarrow> (\<exists>ks ap. to_constraints_bounded post_field bounds e False = ext_ok (ks, ap) \<and>
     (\<forall>k \<in> set ks. \<exists>c \<in> set cs. co_constraint c = k \<and> co_or_group c = None \<and> co_is_approximation c = ap))"

definition plain_conclusions :: "conclusion list \<Rightarrow> bool" where
  "plain_conclusions cs \<longleftrightarrow> (\<forall>c \<in> set cs. co_or_group c = None \<and> wf_constraint (co_constraint c))"

lemma invariant_lowered_mono: "invariant_lowered bounds e cs \<Longrightarrow> set cs \<subseteq> set ds \<Longrightarrow> invariant_lowered bounds e ds"
  unfolding invariant_lowered_def by blast

lemma invariant_step:
  assumes "invariant_conclusions bounds invs p acc = ext_ok out"
  shows "\<exists>new. out = acc @ new \<and> plain_conclusions new \<and>
     (case hm_get invs (ttype_name (pa_ty p)) of None \<Rightarrow> True
      | Some iv \<Rightarrow> \<forall>c \<in> set (in_constraints iv). invariant_lowered bounds (instantiate c (pa_name p)) new)"
proof (cases "hm_get invs (ttype_name (pa_ty p))")
  case None
  with assms show ?thesis by (auto simp: invariant_conclusions_def plain_conclusions_def)
next
  case (Some iv)
  let ?Q = "\<lambda>(j, c) ys. plain_conclusions ys \<and> invariant_lowered bounds (instantiate c (pa_name p)) ys"
  have "\<exists>yss. out = acc @ concat yss \<and> list_all2 ?Q (enumerate 0 (in_constraints iv)) yss"
  proof (rule ext_fold_append [OF assms [unfolded invariant_conclusions_def Some option.case]], goal_cases)
    case (1 x acc r)
    obtain j c where x: "x = (j, c)" by (cases x)
    let ?mk = "\<lambda>ap. mk_conclusion (''invariant '' @ in_name iv @ '' maintained: '' @ pretty (instantiate c (pa_name p)))
       False ap (span_or (in_constraint_spans iv) j (in_span iv)) None"
    from 1(2) x obtain cs ap where l: "to_constraints_bounded post_field bounds (instantiate c (pa_name p)) False = ext_ok (cs, ap)"
      "r = acc @ map (?mk ap) cs"
      by (auto simp: ext_bind_ok Let_def)
    have "invariant_lowered bounds (instantiate c (pa_name p)) (map (?mk ap) cs)"
      unfolding invariant_lowered_def by (rule exI [of _ cs], rule exI [of _ ap]) (simp add: l(1))
    moreover have "plain_conclusions (map (?mk ap) cs)" using bounded_wf [OF l(1)] by (auto simp: plain_conclusions_def)
    ultimately show ?case using l(2) x by auto
  qed
  then obtain yss where yss: "out = acc @ concat yss" "list_all2 ?Q (enumerate 0 (in_constraints iv)) yss" by blast
  have rel: "rel_set ?Q (set (enumerate 0 (in_constraints iv))) (set yss)"
    using yss(2) by (rule list.set_transfer [THEN rel_funD])
  have "invariant_lowered bounds (instantiate c (pa_name p)) (concat yss)" if "c \<in> set (in_constraints iv)" for c
  proof -
    from that obtain j where "j < length (in_constraints iv)" "in_constraints iv ! j = c" by (auto simp: in_set_conv_nth)
    then have "(j, c) \<in> set (enumerate 0 (in_constraints iv))" by (simp add: in_set_enumerate_eq)
    with rel obtain ys where "ys \<in> set yss" "invariant_lowered bounds (instantiate c (pa_name p)) ys"
      by (force simp: rel_set_def)
    moreover from this have "set ys \<subseteq> set (concat yss)" by auto
    ultimately show ?thesis using invariant_lowered_mono by blast
  qed
  moreover have "plain_conclusions (concat yss)"
    using rel by (fastforce simp: rel_set_def plain_conclusions_def)
  ultimately show ?thesis using Some yss(1) by (intro exI [of _ "concat yss"]) simp
qed
text \<open>The conclusions of a problem, in one statement.\<close>

lemma build_problem_conclusions:
  assumes "build_problem f invs n (i, pm) = ext_ok p"
  obtains bounds m where "vp_premises p = pm"
    and "\<forall>c \<in> set (vp_conclusions p). wf_constraint (co_constraint c)"
    and "\<forall>e \<in> set (fn_ensures f). clause_lowered m bounds e (vp_conclusions p)"
    and "\<forall>q \<in> set (fn_params f). case hm_get invs (ttype_name (pa_ty q)) of None \<Rightarrow> True
      | Some iv \<Rightarrow> \<forall>c \<in> set (in_constraints iv). invariant_lowered bounds (instantiate c (pa_name q)) (vp_conclusions p)"
proof -
  let ?R = "\<lambda>bounds q ys. case hm_get invs (ttype_name (pa_ty q)) of None \<Rightarrow> True
      | Some iv \<Rightarrow> \<forall>c \<in> set (in_constraints iv). invariant_lowered bounds (instantiate c (pa_name q)) ys"
  from assms obtain bounds cs m all where
    ens: "ext_fold (ensures_conclusions bounds f) (enumerate 0 (fn_ensures f)) ([], 0) = ext_ok (cs, m)"
    and inva: "ext_fold (invariant_conclusions bounds invs) (fn_params f) cs = ext_ok all"
    and p: "vp_premises p = pm" "vp_conclusions p = all"
    by (auto simp: build_problem_def ext_bind_ok)
  from ensures_fold [OF ens] have cs: "\<forall>c \<in> set cs. wf_constraint (co_constraint c)"
    "\<forall>(i, e) \<in> set (enumerate 0 (fn_ensures f)). clause_lowered m bounds e cs" by (auto simp: groups_in_def)
  have "\<exists>yss. all = cs @ concat yss \<and> list_all2 (\<lambda>q ys. plain_conclusions ys \<and> ?R bounds q ys) (fn_params f) yss"
    by (rule ext_fold_append [OF inva]) (rule invariant_step)
  then obtain yss where yss: "all = cs @ concat yss"
    "list_all2 (\<lambda>q ys. plain_conclusions ys \<and> ?R bounds q ys) (fn_params f) yss" by blast
  have rel: "rel_set (\<lambda>q ys. plain_conclusions ys \<and> ?R bounds q ys) (set (fn_params f)) (set yss)"
    using yss(2) by (rule list.set_transfer [THEN rel_funD])
  have plain: "plain_conclusions (concat yss)" using rel by (fastforce simp: rel_set_def plain_conclusions_def)
  have "clause_lowered m bounds e all" if "e \<in> set (fn_ensures f)" for e
  proof -
    from that obtain j where "j < length (fn_ensures f)" "fn_ensures f ! j = e" by (auto simp: in_set_conv_nth)
    then have "(j, e) \<in> set (enumerate 0 (fn_ensures f))" by (simp add: in_set_enumerate_eq)
    with cs(2) have "clause_lowered m bounds e cs" by blast
    moreover have "groups_in m m (concat yss)" using plain by (auto simp: groups_in_def plain_conclusions_def)
    ultimately show ?thesis using clause_lowered_append yss(1) by blast
  qed
  moreover have "?R bounds q all" if "q \<in> set (fn_params f)" for q
  proof -
    from that rel obtain ys where ys: "ys \<in> set yss" "?R bounds q ys" by (auto simp: rel_set_def)
    have "set ys \<subseteq> set all" using ys(1) yss(1) by auto
    note invariant_lowered_mono [OF _ this, of bounds]
    with ys(2) show ?thesis by (auto split: option.splits)
  qed
  moreover have "\<forall>c \<in> set all. wf_constraint (co_constraint c)"
    using cs(1) plain yss(1) by (auto simp: plain_conclusions_def)
  ultimately show thesis by (intro that [of m bounds] ballI) (simp_all only: p)
qed

lemma combine_dnf_branches: "b \<in> set (combine_dnf x y) \<Longrightarrow> \<exists>u \<in> set x. \<exists>v \<in> set y. b = u @ v"
  by (auto simp: combine_dnf_def)

lemma combine_dnf_Nil: "combine_dnf x y = [] \<longleftrightarrow> x = [] \<or> y = []"
  by (auto simp: combine_dnf_def concat_eq_Nil_conv)

lemma lowered_nonempty:
  "plain_contract e \<Longrightarrow> to_constraints_bounded_dnf nm bounds e ap = ext_ok (d, ap') \<Longrightarrow> d \<noteq> [] \<and> (\<forall>b \<in> set d. b \<noteq> [])"
proof (induction e arbitrary: d ap ap')
  case (TBin op a b)
  show ?case
  proof (cases "op = TOr \<or> op = TAnd")
    case True
    with TBin.prems obtain x ap1 y where "to_constraints_bounded_dnf nm bounds a ap = ext_ok (x, ap1)"
      "to_constraints_bounded_dnf nm bounds b ap1 = ext_ok (y, ap')" "d = (if op = TOr then x @ y else combine_dnf x y)"
      by (auto simp: ext_bind_ok split: if_splits)
    moreover have "plain_contract a" "plain_contract b" using TBin.prems(1) True by auto
    ultimately have "x \<noteq> []" "\<forall>b \<in> set x. b \<noteq> []" "\<forall>b \<in> set y. b \<noteq> []" "y \<noteq> []" "d = (if op = TOr then x @ y else combine_dnf x y)"
      using TBin.IH by blast+
    then show ?thesis by (auto simp: combine_dnf_Nil dest!: combine_dnf_branches split: if_splits)
  next
    case False
    with TBin.prems show ?thesis by (auto simp: ext_bind_ok split: option.splits)
  qed
qed auto
subsection \<open>Passed problems give the contract\<close>

definition exact_conclusions :: "verification_problem \<Rightarrow> bool" where
  "exact_conclusions p \<longleftrightarrow> list_all (\<lambda>c. \<not> co_is_approximation c) (vp_conclusions p)"

definition passes :: "hash_order \<Rightarrow> (group_table \<Rightarrow> group_table) \<Rightarrow> verification_problem \<Rightarrow> bool" where
  "passes hash groups_order p \<longleftrightarrow> map_option vr_all_passed (verify hash groups_order p) = Some True"

lemma lowered_clause_holds:
  assumes "clause_lowered m bounds e cs" and "conj_contract e \<or> disj_contract e"
    and exact: "\<forall>c \<in> set cs. \<not> co_is_approximation c"
    and plain: "\<And>c. c \<in> set cs \<Longrightarrow> co_or_group c = None \<Longrightarrow> c_holds s (co_constraint c)"
    and grouped: "\<And>c g. c \<in> set cs \<Longrightarrow> co_or_group c = Some g \<Longrightarrow> \<exists>d \<in> set cs. co_or_group d = Some g \<and> c_holds s (co_constraint d)"
  shows "btrue post_field s e"
proof -
  from assms(1) obtain d ap where d: "to_constraints_bounded_dnf post_field bounds e False = ext_ok (d, ap)"
    and alt: "if length d = 1
      then \<forall>k \<in> set (hd d). \<exists>c \<in> set cs. co_constraint c = k \<and> co_or_group c = None \<and> co_is_approximation c = ap
      else \<exists>g < m. (\<forall>k \<in> set (concat d). \<exists>c \<in> set cs. co_constraint c = k \<and> co_or_group c = Some g \<and> co_is_approximation c = ap) \<and>
         (\<forall>c \<in> set cs. co_or_group c = Some g \<longrightarrow> co_constraint c \<in> set (concat d))"
    unfolding clause_lowered_def by blast
  have ne: "d \<noteq> []" "\<forall>b \<in> set d. b \<noteq> []"
    using lowered_nonempty [OF _ d] assms(2) conj_contract_plain disj_contract_plain by blast+
  show ?thesis
  proof (cases "length d = 1")
    case True
    then obtain b where b: "d = [b]" by (auto simp: length_Suc_conv)
    have each: "\<forall>k \<in> set b. c_holds s k \<and> \<not> ap" using alt b plain exact by fastforce
    then have ap: "\<not> ap" using ne b by (cases b) auto
    have all: "dnf_true s d" using each b by (auto simp: dnf_true_def)
    from assms(2) show ?thesis
    proof
      assume c: "conj_contract e"
      from conj_contract_dnf [OF c d] b have "to_constraints_bounded post_field bounds e False = ext_ok (b, ap)" by auto
      with conj_contract_exact [OF c, of post_field bounds False b s] ap each show ?thesis by auto
    qed (use disj_contract_exact [of e post_field bounds False d s] d ap all in auto)
  next
    case False
    with alt obtain g where g: "\<forall>k \<in> set (concat d). \<exists>c \<in> set cs. co_constraint c = k \<and> co_or_group c = Some g \<and> co_is_approximation c = ap"
      "\<forall>c \<in> set cs. co_or_group c = Some g \<longrightarrow> co_constraint c \<in> set (concat d)" by auto
    from ne obtain k where "k \<in> set (concat d)" by (cases d; cases "hd d") auto
    with g(1) obtain c where c: "c \<in> set cs" "co_or_group c = Some g" "co_is_approximation c = ap" by blast
    with exact have ap: "\<not> ap" by blast
    have dj: "disj_contract e" using assms(2) conj_contract_dnf [OF _ d] False by auto
    from grouped [OF c(1,2)] g(2) obtain x where x: "x \<in> set (concat d)" "c_holds s x" by blast
    from disj_contract_exact [OF dj, of post_field bounds False d s] d ap have
      "\<forall>b \<in> set d. \<exists>c. b = [c]" "dnf_true s d \<longleftrightarrow> btrue post_field s e" by auto
    with x show ?thesis by (force simp: dnf_true_def)
  qed
qed

lemma conj_nonempty: "conj_contract e \<Longrightarrow> to_constraints_bounded nm bounds e ap = ext_ok (ks, ap') \<Longrightarrow> ks \<noteq> []"
proof (induction e arbitrary: ks ap ap')
  case (TBin op a b)
  then show ?case by (fastforce simp: ext_bind_ok split: if_splits option.splits)
qed auto

lemma lowered_invariant_holds:
  assumes "invariant_lowered bounds e cs" and "conj_contract e" and "\<forall>c \<in> set cs. \<not> co_is_approximation c"
    and "\<And>c. c \<in> set cs \<Longrightarrow> co_or_group c = None \<Longrightarrow> c_holds s (co_constraint c)"
  shows "btrue post_field s e"
proof -
  from assms(1) obtain ks ap where k: "to_constraints_bounded post_field bounds e False = ext_ok (ks, ap)"
    "\<forall>k \<in> set ks. \<exists>c \<in> set cs. co_constraint c = k \<and> co_or_group c = None \<and> co_is_approximation c = ap"
    unfolding invariant_lowered_def by blast
  have "ks \<noteq> []" using assms(2) k(1) by (rule conj_nonempty)
  with k(2) assms(3) have "\<not> ap" by (cases ks) auto
  with conj_contract_exact [OF assms(2), of post_field bounds False ks s] k assms(4) show ?thesis by fastforce
qed

text \<open>
  C7. A verified function keeps its contract. For a function of the sound fragment, if the problems
  extracted from it all pass without approximated conclusions, then every run of the body
  from a state that satisfies the requirements, the positive types and the invariants of
  the parameters ends in a state that satisfies every ensures clause and every invariant.
\<close>

theorem verified_function_correct:
  assumes "build_problems ord invs inv_fields specs f = ext_ok ps"
    and "list_all (passes hash groups_order) ps" and "list_all exact_conclusions ps"
    and "sound_fragment invs inv_fields f" and "set_permuted ord" and "iter_order hash" and "groups_permuted groups_order"
    and "two_state inv_fields f s" and "start_ok invs f s"
  shows "exit_ok invs f s"
proof -
  obtain p i n pm where p: "p \<in> set ps" "build_problem f invs n (i, pm) = ext_ok p"
    "\<forall>c \<in> set pm. c_holds s c \<and> wf_constraint c"
    by (rule premises_hold [OF assms(1,4,5,8,9)])
  obtain bounds m where b: "vp_premises p = pm"
    "\<forall>c \<in> set (vp_conclusions p). wf_constraint (co_constraint c)"
    "\<forall>e \<in> set (fn_ensures f). clause_lowered m bounds e (vp_conclusions p)"
    "\<forall>q \<in> set (fn_params f). case hm_get invs (ttype_name (pa_ty q)) of None \<Rightarrow> True
      | Some iv \<Rightarrow> \<forall>c \<in> set (in_constraints iv). invariant_lowered bounds (instantiate c (pa_name q)) (vp_conclusions p)"
    by (rule build_problem_conclusions [OF p(2)])
  from assms(2) p(1) obtain r where r: "verify hash groups_order p = Some r" "vr_all_passed r"
    by (auto simp: passes_def list_all_iff)
  have wf: "wf_problem p" and pre: "list_all (c_holds s) (vp_premises p)"
    using b(1,2) p(3) by (auto simp: wf_problem_def list_all_iff)
  note held = passed_holds [OF r wf assms(6,7) pre]
  have exact: "\<forall>c \<in> set (vp_conclusions p). \<not> co_is_approximation c"
    using assms(3) p(1) by (auto simp: exact_conclusions_def list_all_iff)
  have frag: "\<forall>e \<in> set (fn_ensures f). conj_contract e \<or> disj_contract e" "invariants_plain invs (fn_params f)"
    using assms(4) by (auto simp: sound_fragment_def list_all_iff)
  have "btrue post_field s e" if "e \<in> set (fn_ensures f)" for e
  proof (rule lowered_clause_holds [OF _ _ exact])
    show "clause_lowered m bounds e (vp_conclusions p)" using b(3) that by (rule bspec)
    show "conj_contract e \<or> disj_contract e" using frag(1) that by (rule bspec)
  qed (fact held)+
  moreover have "btrue post_field s (instantiate c (pa_name q))"
    if "q \<in> set (fn_params f)" "hm_get invs (ttype_name (pa_ty q)) = Some iv" "c \<in> set (in_constraints iv)" for q iv c
  proof (rule lowered_invariant_holds [OF _ _ exact])
    show "invariant_lowered bounds (instantiate c (pa_name q)) (vp_conclusions p)" using bspec [OF b(4) that(1)] that(2,3) by simp
    show "conj_contract (instantiate c (pa_name q))"
      using frag(2) that by (auto simp: invariants_plain_def list_all_iff split: option.splits)
  qed (fact held)
  then have "invariants_hold invs (fn_params f) post_field s"
    by (auto simp: invariants_hold_def list_all_iff split: option.splits)
  ultimately show ?thesis by (simp add: exit_ok_def list_all_iff)
qed
subsection \<open>A verified function\<close>

definition no_span :: span where
  "no_span = \<lparr>sp_line = 1, sp_col = 1\<rparr>"

definition contract_fn :: "texpr list \<Rightarrow> texpr list \<Rightarrow> tstmt list \<Rightarrow> tfunc" where
  "contract_fn req ens body = \<lparr>fn_attributes = [], fn_name = ''f'',
     fn_params = [\<lparr>pa_name = ''w'', pa_ty = TyNamed ''Wallet'', pa_mutability = ParamMutable\<rparr>,
                  \<lparr>pa_name = ''x'', pa_ty = TyNamed ''Int'', pa_mutability = ParamImmutable\<rparr>],
     fn_return_ty = None, fn_requires = req, fn_ensures = ens, fn_body = body, fn_elided = False,
     fn_span = no_span, fn_requires_spans = [], fn_ensures_spans = []\<rparr>"

text \<open>A deposit that counts the large ones: the balance stays non-negative.\<close>

definition wallet_invariants :: invariants where
  "wallet_invariants = [(''Wallet'', \<lparr>in_name = ''Wallet'', in_constraints = [TBin TGe (TVar ''v'') (TInt 0)],
     in_span = no_span, in_constraint_spans = []\<rparr>)]"

definition deposit :: tfunc where
  "deposit = contract_fn [TBin TGe (TVar ''x'') (TInt 0)]
     [TBin TEq (TField ''w'' ''v'') (TBin TAdd (TOld (TField ''w'' ''v'')) (TVar ''x'')),
      TBin TGe (TField ''w'' ''n'') (TOld (TField ''w'' ''n''))]
     [SMutateState [\<lparr>as_target = TField ''w'' ''v'', as_op = AssignAdd, as_value = TVar ''x''\<rparr>],
      SIf (TBin TGt (TVar ''x'') (TInt 100)) [SAssign \<lparr>as_target = TField ''w'' ''n'', as_op = AssignAdd, as_value = TInt 1\<rparr>] None]"

definition wallet_fields :: invariant_fields where
  "wallet_fields = [(''Wallet'', [''v''])]"
definition deposit_problems :: "verification_problem list" where
  "deposit_problems = (case build_problems (\<lambda>xs. xs) wallet_invariants wallet_fields [] deposit of
     Some (Inr ps) \<Rightarrow> ps | _ \<Rightarrow> [])"

lemma deposit_extracted:
  "build_problems (\<lambda>xs. xs) wallet_invariants wallet_fields [] deposit = ext_ok deposit_problems"
  by code_simp

lemma deposit_passes:
  "list_all (passes (\<lambda>m. m) (\<lambda>t. t)) deposit_problems"
  by code_simp

lemma deposit_fragment:
  "list_all exact_conclusions deposit_problems" "sound_fragment wallet_invariants wallet_fields deposit"
  by code_simp+

definition deposit_state :: valuation where
  "deposit_state = (\<lambda>n. 0)(''x'' := 150, ''w.v'' := 7, post_field ''w'' ''v'' := 157, post_field ''w'' ''n'' := 1)"

theorem verified_function_correct_witness: "exit_ok wallet_invariants deposit deposit_state"
proof -
  have "two_state wallet_fields deposit deposit_state" "start_ok wallet_invariants deposit deposit_state" by code_simp+
  moreover have "set_permuted (\<lambda>xs. xs)" by (simp add: set_permuted_def)
  ultimately show ?thesis
    using verified_function_correct [OF deposit_extracted deposit_passes deposit_fragment] identity_orders by blast
qed
subsection \<open>Accepted programs that violate their contract\<close>

definition accepted :: "tfunc \<Rightarrow> bool" where
  "accepted f \<longleftrightarrow> (case build_problems (\<lambda>xs. xs) [] [] [] f of
     Some (Inr ps) \<Rightarrow> list_all (passes (\<lambda>m. m) (\<lambda>t. t)) ps | _ \<Rightarrow> False)"

definition violated :: "tfunc \<Rightarrow> valuation \<Rightarrow> bool" where
  "violated f s \<longleftrightarrow> two_state [] f s \<and> start_ok [] f s \<and> \<not> exit_ok [] f s"

text \<open>
  A field assigned twice: both assignments become equations for the same final value, so the increment is counted once.
\<close>

definition bump_twice :: tfunc where
  "bump_twice = contract_fn [] [TBin TEq (TField ''w'' ''v'') (TBin TAdd (TOld (TField ''w'' ''v'')) (TInt 1))]
     [SMutateState [\<lparr>as_target = TField ''w'' ''v'', as_op = AssignAdd, as_value = TInt 1\<rparr>,
                    \<lparr>as_target = TField ''w'' ''v'', as_op = AssignAdd, as_value = TInt 1\<rparr>]]"

lemma repeated_assignment_unsound:
  "accepted bump_twice \<and> violated bump_twice ((\<lambda>n. 0)(post_field ''w'' ''v'' := 2))"
  by code_simp

text \<open>Two different assignments to a field give contradictory premises: every contract is accepted.\<close>

definition set_twice :: tfunc where
  "set_twice = contract_fn [] [TBin TGe (TField ''w'' ''v'') (TInt 1000)]
     [SAssign \<lparr>as_target = TField ''w'' ''v'', as_op = AssignSet, as_value = TInt 1\<rparr>,
      SAssign \<lparr>as_target = TField ''w'' ''v'', as_op = AssignSet, as_value = TInt 2\<rparr>]"

lemma contradictory_assignments_unsound:
  "accepted set_twice \<and> violated set_twice ((\<lambda>n. 0)(post_field ''w'' ''v'' := 2))"
  by code_simp

text \<open>A product of bounded variables is replaced by its largest value, on whichever side of the comparison it stands.\<close>

definition product_floor :: tfunc where
  "product_floor = contract_fn
     [TBin TGe (TVar ''x'') (TInt 0), TBin TLe (TVar ''x'') (TInt 10), TBin TGe (TVar ''y'') (TInt 0), TBin TLe (TVar ''y'') (TInt 10)]
     [TBin TGe (TBin TMul (TVar ''x'') (TVar ''y'')) (TInt 100)] []"

lemma product_bound_unsound: "accepted product_floor \<and> violated product_floor (\<lambda>n. 0)"
  by code_simp

text \<open>Statements after a \<open>return\<close> are taken to run.\<close>

definition early_return :: tfunc where
  "early_return = contract_fn [] [TBin TEq (TField ''w'' ''v'') (TInt 5)]
     [SReturn None, SAssign \<lparr>as_target = TField ''w'' ''v'', as_op = AssignSet, as_value = TInt 5\<rparr>]"

lemma early_return_accepted: "accepted early_return"
  by code_simp

text \<open>
  The constraints of all arms of a disjunction share one group, so that one conjunct of one arm is enough.
\<close>

definition weak_group :: tfunc where
  "weak_group = contract_fn [TBin TGe (TVar ''x'') (TInt 1)]
     [TBin TOr (TBin TAnd (TBin TGe (TVar ''x'') (TInt 0)) (TBin TGe (TVar ''x'') (TInt 5))) (TBin TGe (TVar ''x'') (TInt 7))] []"

lemma solve_between:
  "solve_model (\<lambda>m. m) [\<lparr>li_coeffs = [(''x'', - 1)], li_c = - 1\<rparr>, \<lparr>li_coeffs = [(''x'', 1)], li_c = 4\<rparr>] = Some (Some (Some [(''x'', 1)]))"
  "solve_model (\<lambda>m. m) [\<lparr>li_coeffs = [(''x'', - 1)], li_c = - 1\<rparr>, \<lparr>li_coeffs = [(''x'', 1)], li_c = 6\<rparr>] = Some (Some (Some [(''x'', 1)]))"
  by (subst solve_model.simps, simp add: solver_eval, subst solve_model.simps, simp add: solver_eval)+
definition at_least :: "int \<Rightarrow> constraint" where
  "at_least k = Constraint \<lparr>l_terms = [(''x'', 1)], l_constant = - k\<rparr> Ge0"

lemma weak_group_extracted:
  "\<exists>p. build_problems (\<lambda>xs. xs) [] [] [] weak_group = ext_ok [p] \<and> vp_premises p = [at_least 1] \<and>
     map co_constraint (vp_conclusions p) = [at_least 0, at_least 5, at_least 7] \<and>
     map co_or_group (vp_conclusions p) = [Some 0, Some 0, Some 0]"
proof -
  have ok: "\<exists>p. r = ext_ok [p] \<and> Q p" if "case r of Some (Inr [p]) \<Rightarrow> Q p | _ \<Rightarrow> False"
    for r :: "verification_problem list ext" and Q
    using that by (auto simp: ext_ok_def split: option.splits sum.splits list.splits)
  show ?thesis by (rule ok) code_simp
qed

lemma weak_group_entails:
  "telos_entails (\<lambda>m. m) [at_least 1] (at_least 0) = Some True"
  "telos_entails (\<lambda>m. m) [at_least 1] (at_least 5) = Some False"
  "telos_entails (\<lambda>m. m) [at_least 1] (at_least 7) = Some False"
  by code_simp+

lemma weak_group_models:
  "telos_counterexample (\<lambda>m. m) [at_least 1] (at_least 5) = Some (Some [(''x'', 1)])"
  "telos_counterexample (\<lambda>m. m) [at_least 1] (at_least 7) = Some (Some [(''x'', 1)])"
  by (simp_all add: at_least_def telos_counterexample_def telos_model_def search_model_def to_inequalities_def
      collect_map_def neg_terms_def hm_insert_def solve_between)

lemma weak_group_unsound: "accepted weak_group \<and> violated weak_group (\<lambda>n. if n = ''x'' then 1 else 0)"
proof
  from weak_group_extracted obtain p where p: "build_problems (\<lambda>xs. xs) [] [] [] weak_group = ext_ok [p]"
    "vp_premises p = [at_least 1]"
    "map co_constraint (vp_conclusions p) = [at_least 0, at_least 5, at_least 7]"
    "map co_or_group (vp_conclusions p) = [Some 0, Some 0, Some 0]"
    by (elim exE conjE)
  from p(3,4) obtain a b c where abc: "vp_conclusions p = [a, b, c]" "co_constraint a = at_least 0"
    "co_constraint b = at_least 5" "co_constraint c = at_least 7"
    "co_or_group a = Some 0" "co_or_group b = Some 0" "co_or_group c = Some 0"
    by (auto simp: map_eq_Cons_conv)
  then have "passes (\<lambda>m. m) (\<lambda>t. t) p"
    by (simp add: passes_def verify_def p(2) or_groups_def add_to_group_def hm_get_def hm_insert_def hm_values_def
        check_conclusion_def check_entails_def check_counterexample_def weak_group_entails weak_group_models)
  with p(1) show "accepted weak_group" by (simp add: accepted_def ext_ok_def)
  show "violated weak_group (\<lambda>n. if n = ''x'' then 1 else 0)" by code_simp
qed

end
