(* ===== verification/Fallible.thy ===== *)
theory Fallible
  imports Rust_Maps
begin

text \<open>
  Functions that return a \<open>Result\<close> and may also panic. \<open>None\<close> is a panic, \<open>Some (Inl e)\<close> the error \<open>e\<close>,
  \<open>Some (Inr x)\<close> the value \<open>x\<close>; \<open>try_bind\<close> is the \<open>?\<close> operator. A fold over a list stops at the first error.
\<close>

type_synonym ('e, 'a) fallible = "('e + 'a) panics"

definition try_ok :: "'a \<Rightarrow> ('e, 'a) fallible" where
  "try_ok x = Some (Inr x)"

definition try_err :: "'e \<Rightarrow> ('e, 'a) fallible" where
  "try_err e = Some (Inl e)"

definition try_lift :: "'a panics \<Rightarrow> ('e, 'a) fallible" where
  "try_lift p = map_option Inr p"

definition try_bind :: "('e, 'a) fallible \<Rightarrow> ('a \<Rightarrow> ('e, 'b) fallible) \<Rightarrow> ('e, 'b) fallible" where
  "try_bind m f = (case m of None \<Rightarrow> None | Some (Inl e) \<Rightarrow> Some (Inl e) | Some (Inr x) \<Rightarrow> f x)"

definition try_some :: "'e \<Rightarrow> 'a option \<Rightarrow> ('e, 'a) fallible" where
  "try_some e r = (case r of None \<Rightarrow> try_err e | Some x \<Rightarrow> try_ok x)"

definition try_map_err :: "('e \<Rightarrow> 'f) \<Rightarrow> ('e, 'a) fallible \<Rightarrow> ('f, 'a) fallible" where
  "try_map_err f m = map_option (map_sum f (\<lambda>x. x)) m"

fun try_map :: "('x \<Rightarrow> ('e, 'a) fallible) \<Rightarrow> 'x list \<Rightarrow> ('e, 'a list) fallible" where
  "try_map f [] = try_ok []"
| "try_map f (x # xs) = try_bind (f x) (\<lambda>y. try_bind (try_map f xs) (\<lambda>ys. try_ok (y # ys)))"

fun try_filter :: "('x \<Rightarrow> ('e, bool) fallible) \<Rightarrow> 'x list \<Rightarrow> ('e, 'x list) fallible" where
  "try_filter f [] = try_ok []"
| "try_filter f (x # xs) = try_bind (f x) (\<lambda>b. try_bind (try_filter f xs) (\<lambda>ys. try_ok (if b then x # ys else ys)))"

fun try_fold :: "('x \<Rightarrow> 'a \<Rightarrow> ('e, 'a) fallible) \<Rightarrow> 'x list \<Rightarrow> 'a \<Rightarrow> ('e, 'a) fallible" where
  "try_fold f [] acc = try_ok acc"
| "try_fold f (x # xs) acc = try_bind (f x acc) (try_fold f xs)"

lemma try_simps [simp]:
  "try_bind (try_ok x) f = f x" "try_bind (try_err e) f = try_err e" "try_bind None f = None"
  "try_lift (Some x) = try_ok x" "try_lift None = None"
  "try_some e (Some x) = try_ok x" "try_some e None = try_err e"
  "try_map_err g (try_ok x) = try_ok x" "try_map_err g (try_err e) = try_err (g e)" "try_map_err g None = None"
  by (simp_all add: try_ok_def try_err_def try_bind_def try_lift_def try_some_def try_map_err_def)

lemma try_inject [simp]:
  "try_ok x = try_ok y \<longleftrightarrow> x = y" "try_err e = try_err f \<longleftrightarrow> e = f" "try_ok x \<noteq> try_err e" "try_err e \<noteq> try_ok x"
  "try_ok x \<noteq> None" "None \<noteq> try_ok x" "try_err e \<noteq> None" "None \<noteq> try_err e"
  by (simp_all add: try_ok_def try_err_def)

lemma try_bind_ok: "try_bind m f = try_ok y \<longleftrightarrow> (\<exists>x. m = try_ok x \<and> f x = try_ok y)"
  by (auto simp: try_bind_def try_ok_def split: option.splits sum.splits)

lemma try_lift_ok: "try_lift p = try_ok x \<longleftrightarrow> p = Some x"
  by (auto simp: try_lift_def try_ok_def)

lemma try_some_ok: "try_some e p = try_ok x \<longleftrightarrow> p = Some x"
  by (cases p) simp_all

lemma try_bind_assoc: "try_bind (try_bind m f) g = try_bind m (\<lambda>x. try_bind (f x) g)"
  by (auto simp: try_bind_def split: option.splits sum.splits)

lemma try_bind_right [simp]: "try_bind m try_ok = m"
  by (auto simp: try_bind_def try_ok_def split: option.splits sum.splits)

lemma try_cases [case_names panic err ok]:
  obtains "m = None" | e where "m = try_err e" | x where "m = try_ok x"
  by (cases m; cases "the m") (auto simp: try_ok_def try_err_def)

lemma try_map_ok: "try_map f xs = try_ok ys \<longleftrightarrow> list_all2 (\<lambda>x y. f x = try_ok y) xs ys"
  by (induction xs arbitrary: ys) (auto simp: try_bind_ok list_all2_Cons1)

lemma try_filter_pure: "(\<And>x. x \<in> set xs \<Longrightarrow> f x = try_ok (P x)) \<Longrightarrow> try_filter f xs = try_ok (filter P xs)"
  by (induction xs) auto

lemma try_filter_ok:
  "try_filter f xs = try_ok ys \<longleftrightarrow> (\<forall>x \<in> set xs. f x = try_ok True \<or> f x = try_ok False) \<and> ys = filter (\<lambda>x. f x = try_ok True) xs"
  by (induction xs arbitrary: ys) (auto simp: try_bind_ok)

lemma try_filter_append:
  "try_filter f (xs @ ys) = try_bind (try_filter f xs) (\<lambda>a. try_bind (try_filter f ys) (\<lambda>b. try_ok (a @ b)))"
  by (induction xs) (auto simp: try_bind_assoc intro!: arg_cong [of _ _ "try_bind _"] ext)

lemma try_fold_append: "try_fold f (xs @ ys) a = try_bind (try_fold f xs a) (try_fold f ys)"
  by (induction xs arbitrary: a) (auto simp: try_bind_assoc intro!: arg_cong [of _ _ "try_bind _"] ext)

lemma try_fold_inv:
  "try_fold f xs a = try_ok b \<Longrightarrow> P a \<Longrightarrow> (\<And>x a b. x \<in> set xs \<Longrightarrow> P a \<Longrightarrow> f x a = try_ok b \<Longrightarrow> P b) \<Longrightarrow> P b"
proof (induction xs arbitrary: a)
  case (Cons x xs)
  from Cons.prems(1) obtain c where c: "f x a = try_ok c" "try_fold f xs c = try_ok b" by (auto simp: try_bind_ok)
  have "P c" by (rule Cons.prems(3) [OF _ Cons.prems(2) c(1)]) simp
  from Cons.IH [OF c(2) this] Cons.prems(3) show ?case by auto
qed simp

subsection \<open>Results without panics\<close>

text \<open>The result is an error, or a value with a property.\<close>

definition try_safe :: "('e, 'a) fallible \<Rightarrow> ('a \<Rightarrow> bool) \<Rightarrow> bool" where
  "try_safe m P \<longleftrightarrow> (case m of None \<Rightarrow> False | Some (Inl e) \<Rightarrow> True | Some (Inr x) \<Rightarrow> P x)"

lemma try_safe_simps [simp]: "try_safe (try_ok x) P = P x" "try_safe (try_err e) P" "\<not> try_safe None P" "try_safe (try_some e q) P = (\<forall>x. q = Some x \<longrightarrow> P x)"
  by (simp_all add: try_safe_def try_ok_def try_err_def try_some_def split: option.splits)

lemma try_safe_bind: "try_safe m P \<Longrightarrow> (\<And>x. P x \<Longrightarrow> try_safe (f x) Q) \<Longrightarrow> try_safe (try_bind m f) Q"
  by (cases m rule: try_cases) simp_all

lemma try_safe_fold:
  "P a \<Longrightarrow> (\<And>x a. x \<in> set xs \<Longrightarrow> P a \<Longrightarrow> try_safe (f x a) P) \<Longrightarrow> try_safe (try_fold f xs a) P"
proof (induction xs arbitrary: a)
  case (Cons x xs)
  have "try_safe (f x a) P" using Cons.prems by simp
  then show ?case using Cons by (auto intro!: try_safe_bind [of _ P])
qed simp

lemma try_safe_map: "(\<And>x. x \<in> set xs \<Longrightarrow> try_safe (f x) P) \<Longrightarrow> try_safe (try_map f xs) (\<lambda>ys. length ys = length xs \<and> list_all P ys)"
proof (induction xs)
  case (Cons x xs)
  have "try_safe (f x) P" "try_safe (try_map f xs) (\<lambda>ys. length ys = length xs \<and> list_all P ys)" using Cons by simp_all
  then show ?case by (auto intro!: try_safe_bind [of "f x" P] try_safe_bind [of "try_map f xs"])
qed simp

lemma try_safe_cases:
  assumes "try_safe m P"
  obtains e where "m = try_err e" | x where "m = try_ok x" "P x"
  using assms by (cases m rule: try_cases) auto

end
