(* ===== verification/Sql_Syntax.thy ===== *)
theory Sql_Syntax
  imports Fallible "HOL-Library.List_Lexorder" "HOL-Library.Char_ord"
begin

text \<open>
  The statements of the SQL dialect of \<open>archon\<close> (\<open>tpt-archon-relational/src/parser.rs\<close>). The mutually recursive Rust
  types become one recursive type: expressions, table references and joins take the type of their subqueries as
  a parameter, and \<open>select_statement\<close> ties the knot.

  A \<open>String\<close> is the list of its UTF-8 bytes, so the order on strings is the order of Rust. An \<open>f32\<close> is its
  bit pattern.
\<close>

datatype cmp_op = CEq | CNe | CLt | CLe | CGt | CGe

type_synonym f32 = nat

datatype literal = LInt int | LText string | LVector "f32 list" | LNull

datatype aggregate_func = ACount | ASum | AAvg | AMin | AMax

datatype 'q sexpr =
    SCmp string cmp_op literal
  | SCmpColumn string cmp_op string
  | SIsNull string bool
  | SLike string string
  | SInInt string "int list"
  | SBetweenInt string int int
  | SAnd "'q sexpr" "'q sexpr"
  | SOr "'q sexpr" "'q sexpr"
  | SNot "'q sexpr"
  | SExists 'q
  | SInSubquery string 'q
  | SScalarCmp string cmp_op 'q
  | SAgg aggregate_func string

record order_by =
  ob_column :: string
  ob_descending :: bool

datatype column_type = CInt | CText | CVector

record column_def =
  cd_name :: string
  cd_ctype :: column_type

datatype join_type = JInner

datatype 'q table_ref =
    TNamed string "string option"
  | TSubquery 'q string

fun table_ref_name :: "'q table_ref \<Rightarrow> string" where
  "table_ref_name (TNamed name alias) = (case alias of Some a \<Rightarrow> a | None \<Rightarrow> name)"
| "table_ref_name (TSubquery q alias) = alias"

fun table_ref_table_name :: "'q table_ref \<Rightarrow> string" where
  "table_ref_table_name (TNamed name alias) = name"
| "table_ref_table_name (TSubquery q alias) = alias"

datatype 'q sql_join =
  Join (jn_jtype: join_type) (jn_table: "'q table_ref") (jn_left_col: string) (jn_right_col: string)

datatype 'q cte = Cte (cte_name: string) (cte_query: 'q)

record order_by_cosine =
  oc_column :: string
  oc_param :: nat
  oc_k :: nat

datatype select_statement = SelectStatement
  (sel_columns: "string list")
  (sel_star: bool)
  (sel_table: "select_statement table_ref")
  (sel_filter: "select_statement sexpr option")
  (sel_joins: "select_statement sql_join list")
  (sel_group_by: "string list")
  (sel_aggregates: "(string \<times> aggregate_func \<times> string) list")
  (sel_order_by: "order_by list")
  (sel_order_by_cosine: "order_by_cosine option")
  (sel_limit: "nat option")
  (sel_having: "select_statement sexpr option")
  (sel_with_ctes: "select_statement cte list")

type_synonym sql_expr = "select_statement sexpr"

record sql_assignment =
  sa_column :: string
  sa_value :: literal

record insert_statement =
  is_table :: string
  is_columns :: "string list"
  is_values :: "literal list"

record update_statement =
  us_table :: string
  us_assignments :: "sql_assignment list"
  us_filter :: "sql_expr option"

record delete_statement =
  ds_table :: string
  ds_filter :: "sql_expr option"

record create_table_statement =
  ct_table :: string
  ct_columns :: "column_def list"

record create_view_statement =
  cv_name :: string
  cv_query :: select_statement

datatype alter_table_op = AddColumn column_def | DropColumn string | RenameColumn string string

record alter_table_statement =
  al_table :: string
  al_op :: alter_table_op

datatype statement =
    StSelect select_statement
  | StInsert insert_statement
  | StUpdate update_statement
  | StDelete delete_statement
  | StCreateTable create_table_statement
  | StCreateView create_view_statement
  | StDropView string
  | StAlterTable alter_table_statement
  | StBegin
  | StCommit
  | StRollback

subsection \<open>Names\<close>

text \<open>The part of a name after its last dot, the whole name when there is none.\<close>

definition unqualified :: "string \<Rightarrow> string" where
  "unqualified c = rev (takeWhile (\<lambda>x. x \<noteq> CHR ''.'') (rev c))"

definition has_dot :: "string \<Rightarrow> bool" where
  "has_dot c \<longleftrightarrow> CHR ''.'' \<in> set c"

text \<open>A name between single quotes.\<close>

definition quoted :: "string \<Rightarrow> string" where
  "quoted name = CHR 0x27 # name @ [CHR 0x27]"

end
