(* ===== verification/Sql_Executor.thy ===== *)
theory Sql_Executor
  imports Sql_Syntax "HOL-Library.Signed_Division" "HOL-Library.Multiset"
begin

text \<open>
  The planner and the executor of the SQL engine (\<open>planner.rs\<close>, \<open>executor.rs\<close>): values and their order,
  the evaluation of predicates, aggregation, and the execution of a plan on an in-memory table. The similarity
  search over embeddings (\<open>vector_topk\<close>) computes with floating-point numbers and is not modelled.

  Indexing a row out of range is a panic. \<open>sort_by\<close> is the stable sort of the standard library; a
  comparison of its comparator panics when it indexes out of range, which for the rows of a table, all
  as wide as its header, happens for all rows or for none.
\<close>

subsection \<open>Values\<close>

datatype sql_value = VInt int | VText string | VVector "f32 list" | VNull

text \<open>Derived equality: floating-point equality inside vectors.\<close>

definition f32_is_nan :: "f32 \<Rightarrow> bool" where
  "f32_is_nan b \<longleftrightarrow> 2139095040 < b mod 2 ^ 31"

definition f32_eq :: "f32 \<Rightarrow> f32 \<Rightarrow> bool" where
  "f32_eq a b \<longleftrightarrow> \<not> f32_is_nan a \<and> \<not> f32_is_nan b \<and> (a = b \<or> a mod 2 ^ 31 = 0 \<and> b mod 2 ^ 31 = 0)"

fun value_eq :: "sql_value \<Rightarrow> sql_value \<Rightarrow> bool" where
  "value_eq (VInt a) (VInt b) \<longleftrightarrow> a = b"
| "value_eq (VText a) (VText b) \<longleftrightarrow> a = b"
| "value_eq (VVector a) (VVector b) \<longleftrightarrow> list_all2 f32_eq a b"
| "value_eq VNull VNull = True"
| "value_eq _ _ = False"

datatype sql_ordering = Less | Equal | Greater

definition ord_cmp :: "'a::linorder \<Rightarrow> 'a \<Rightarrow> sql_ordering" where
  "ord_cmp a b = (if a < b then Less else if a = b then Equal else Greater)"

fun first_difference :: "f32 list \<Rightarrow> f32 list \<Rightarrow> sql_ordering" where
  "first_difference (x # xs) (y # ys) = (if ord_cmp x y \<noteq> Equal then ord_cmp x y else first_difference xs ys)"
| "first_difference _ _ = Equal"

definition vector_cmp :: "f32 list \<Rightarrow> f32 list \<Rightarrow> sql_ordering" where
  "vector_cmp a b = (case ord_cmp (length a) (length b) of Equal \<Rightarrow> first_difference a b | r \<Rightarrow> r)"

fun value_cmp :: "sql_value \<Rightarrow> sql_value \<Rightarrow> sql_ordering" where
  "value_cmp (VInt a) (VInt b) = ord_cmp a b"
| "value_cmp (VText a) (VText b) = ord_cmp a b"
| "value_cmp (VVector a) (VVector b) = vector_cmp a b"
| "value_cmp VNull VNull = Equal"
| "value_cmp VNull _ = Greater"
| "value_cmp _ VNull = Less"
| "value_cmp (VInt _) _ = Less"
| "value_cmp _ (VInt _) = Greater"
| "value_cmp (VText _) _ = Less"
| "value_cmp _ (VText _) = Greater"

definition reverse_ordering :: "sql_ordering \<Rightarrow> sql_ordering" where
  "reverse_ordering r = (case r of Less \<Rightarrow> Greater | Equal \<Rightarrow> Equal | Greater \<Rightarrow> Less)"

lemma cmp_simps [simp]:
  "ord_cmp a b = Less \<longleftrightarrow> a < b" "ord_cmp a b = Equal \<longleftrightarrow> a = b" "ord_cmp a b = Greater \<longleftrightarrow> b < a"
  by (auto simp: ord_cmp_def)

text \<open>The order on vectors is that of the pairs of length and content.\<close>

lemma first_difference_lex: "length a = length b \<Longrightarrow> first_difference a b = ord_cmp a b"
  by (induction a b rule: list_induct2) (auto simp: ord_cmp_def)

lemma vector_cmp_lex: "vector_cmp a b = (if length a = length b then ord_cmp a b else ord_cmp (length a) (length b))"
  by (auto simp: vector_cmp_def first_difference_lex ord_cmp_def)

text \<open>A linear order: the laws that the B-tree map of the grouping and the sort rely on.\<close>

instantiation sql_value :: linorder
begin

definition less_eq_sql_value :: "sql_value \<Rightarrow> sql_value \<Rightarrow> bool" where
  "less_eq_sql_value a b \<longleftrightarrow> value_cmp a b \<noteq> Greater"

definition less_sql_value :: "sql_value \<Rightarrow> sql_value \<Rightarrow> bool" where
  "less_sql_value a b \<longleftrightarrow> value_cmp a b = Less"

instance
proof
  fix x y z :: sql_value
  show "x < y \<longleftrightarrow> x \<le> y \<and> \<not> y \<le> x"
    by (cases x; cases y) (auto simp: less_eq_sql_value_def less_sql_value_def vector_cmp_lex)
  show "x \<le> x"
    by (cases x) (auto simp: less_eq_sql_value_def vector_cmp_lex)
  show "x \<le> y \<Longrightarrow> y \<le> z \<Longrightarrow> x \<le> z"
    by (cases x; cases y; cases z) (auto simp: less_eq_sql_value_def vector_cmp_lex split: if_splits)
  show "x \<le> y \<Longrightarrow> y \<le> x \<Longrightarrow> x = y"
    by (cases x; cases y) (auto simp: less_eq_sql_value_def vector_cmp_lex split: if_splits)
  show "x \<le> y \<or> y \<le> x"
    by (cases x; cases y) (auto simp: less_eq_sql_value_def vector_cmp_lex split: if_splits)
qed

end

lemma value_cmp_cmp [simp]: "value_cmp a b = ord_cmp a b"
proof -
  have "value_cmp a b = Equal \<Longrightarrow> a = b"
    by (cases a; cases b) (auto simp: vector_cmp_lex split: if_splits)
  moreover have "value_cmp b b = Equal" by (cases b) (auto simp: vector_cmp_lex)
  ultimately show ?thesis
    by (cases "value_cmp a b") (auto simp: ord_cmp_def less_sql_value_def less_eq_sql_value_def [symmetric])
qed
subsection \<open>Tables and results\<close>

type_synonym row = "sql_value list"

record table =
  tb_columns :: "string list"
  tb_rows :: "row list"

definition table_new :: "string list \<Rightarrow> table" where
  "table_new columns = \<lparr>tb_columns = columns, tb_rows = []\<rparr>"

definition table_insert :: "row \<Rightarrow> table \<Rightarrow> table" where
  "table_insert row t = t\<lparr>tb_rows := tb_rows t @ [row]\<rparr>"

datatype exec_error = UnknownColumn string | TypeMismatch | GroupByColumnNotFound string | UnresolvedSubquery

record result_set =
  rs_columns :: "string list"
  rs_rows :: "row list"

subsection \<open>Names\<close>

type_synonym scope = "string list \<times> row"

text \<open>The value of the first column of a scope, then of the first of a list of scopes, that satisfies a test.\<close>

definition lookup_in :: "(string \<Rightarrow> bool) \<Rightarrow> scope \<Rightarrow> sql_value option panics" where
  "lookup_in P sc = (case position P (fst sc) of None \<Rightarrow> Some None | Some i \<Rightarrow> map_option Some (vec_get (snd sc) i))"

definition or_else :: "'a option panics \<Rightarrow> 'a option panics \<Rightarrow> 'a option panics" where
  "or_else a b = (case a of Some None \<Rightarrow> b | _ \<Rightarrow> a)"

fun lookup_outer :: "(string \<Rightarrow> bool) \<Rightarrow> scope list \<Rightarrow> sql_value option panics" where
  "lookup_outer P [] = Some None"
| "lookup_outer P (sc # scs) = or_else (lookup_in P sc) (lookup_outer P scs)"

definition find_value :: "string \<Rightarrow> string list \<Rightarrow> row \<Rightarrow> scope list \<Rightarrow> sql_value option panics" where
  "find_value name columns row outer =
     or_else (lookup_in (\<lambda>c. c = name) (columns, row))
       (if has_dot name
        then or_else (lookup_outer (\<lambda>c. c = name) outer)
          (let stripped = unqualified name in
           or_else (lookup_in (\<lambda>c. unqualified c = stripped) (columns, row))
             (lookup_outer (\<lambda>c. unqualified c = stripped) outer))
        else or_else (lookup_in (\<lambda>c. unqualified c = name) (columns, row))
          (lookup_outer (\<lambda>c. unqualified c = name) outer))"

subsection \<open>Predicates\<close>

fun eval_cmp :: "cmp_op \<Rightarrow> 'a::linorder \<Rightarrow> 'a \<Rightarrow> bool" where
  "eval_cmp CEq lhs rhs \<longleftrightarrow> lhs = rhs"
| "eval_cmp CNe lhs rhs \<longleftrightarrow> lhs \<noteq> rhs"
| "eval_cmp CLt lhs rhs \<longleftrightarrow> lhs < rhs"
| "eval_cmp CLe lhs rhs \<longleftrightarrow> lhs \<le> rhs"
| "eval_cmp CGt lhs rhs \<longleftrightarrow> rhs < lhs"
| "eval_cmp CGe lhs rhs \<longleftrightarrow> rhs \<le> lhs"

definition eval_text_cmp :: "cmp_op \<Rightarrow> string \<Rightarrow> string \<Rightarrow> bool" where
  "eval_text_cmp op lhs rhs = eval_cmp op lhs rhs"

fun like_recurse :: "string \<Rightarrow> string \<Rightarrow> bool" where
  "like_recurse text [] = (text = [])"
| "like_recurse text (c # pat) =
     (if c = CHR ''%'' then list_ex (\<lambda>i. like_recurse (drop i text) pat) [0..<Suc (length text)]
      else if c = CHR ''_'' then (case text of [] \<Rightarrow> False | _ # t \<Rightarrow> like_recurse t pat)
      else (case text of [] \<Rightarrow> False | d # t \<Rightarrow> d = c \<and> like_recurse t pat))"

definition like_match :: "string \<Rightarrow> string \<Rightarrow> bool" where
  "like_match text pattern = like_recurse text pattern"

definition agg_default_alias :: "aggregate_func \<Rightarrow> string \<Rightarrow> string" where
  "agg_default_alias func column =
     (let tag = (case func of ACount \<Rightarrow> ''count'' | ASum \<Rightarrow> ''sum'' | AAvg \<Rightarrow> ''avg'' | AMin \<Rightarrow> ''min'' | AMax \<Rightarrow> ''max'') in
      if column = ''*'' then tag else tag @ ''('' @ column @ '')'')"

definition column_value :: "string \<Rightarrow> string list \<Rightarrow> row \<Rightarrow> scope list \<Rightarrow> (exec_error, sql_value) fallible" where
  "column_value name columns row outer =
     try_bind (try_lift (find_value name columns row outer)) (try_some (UnknownColumn name))"

definition cmp_literal :: "cmp_op \<Rightarrow> sql_value \<Rightarrow> literal \<Rightarrow> (exec_error, bool) fallible" where
  "cmp_literal op v l = (case (v, l) of
     (VNull, _) \<Rightarrow> try_ok False
   | (_, LNull) \<Rightarrow> try_ok False
   | (VInt a, LInt b) \<Rightarrow> try_ok (eval_cmp op a b)
   | (VText a, LText b) \<Rightarrow> try_ok (eval_text_cmp op a b)
   | _ \<Rightarrow> try_err TypeMismatch)"

definition cmp_values :: "cmp_op \<Rightarrow> sql_value \<Rightarrow> sql_value \<Rightarrow> (exec_error, bool) fallible" where
  "cmp_values op a b = (case (a, b) of
     (VNull, _) \<Rightarrow> try_ok False
   | (_, VNull) \<Rightarrow> try_ok False
   | (VInt l, VInt r) \<Rightarrow> try_ok (eval_cmp op l r)
   | (VText l, VText r) \<Rightarrow> try_ok (eval_text_cmp op l r)
   | _ \<Rightarrow> try_err TypeMismatch)"

fun eval_expr_scoped :: "'q sexpr \<Rightarrow> string list \<Rightarrow> row \<Rightarrow> scope list \<Rightarrow> (exec_error, bool) fallible" where
  "eval_expr_scoped (SCmp column op v) cols row outer =
     try_bind (column_value column cols row outer) (\<lambda>x. cmp_literal op x v)"
| "eval_expr_scoped (SCmpColumn l op r) cols row outer =
     try_bind (column_value l cols row outer) (\<lambda>x. try_bind (column_value r cols row outer) (cmp_values op x))"
| "eval_expr_scoped (SIsNull column negated) cols row outer =
     try_bind (column_value column cols row outer) (\<lambda>x. try_ok ((x = VNull) \<noteq> negated))"
| "eval_expr_scoped (SLike column pattern) cols row outer =
     try_bind (column_value column cols row outer)
       (\<lambda>x. try_ok (case x of VText t \<Rightarrow> like_match t pattern | _ \<Rightarrow> False))"
| "eval_expr_scoped (SInInt column vals) cols row outer =
     try_bind (column_value column cols row outer) (\<lambda>x. try_ok (case x of VInt v \<Rightarrow> v \<in> set vals | _ \<Rightarrow> False))"
| "eval_expr_scoped (SBetweenInt column low high) cols row outer =
     try_bind (column_value column cols row outer)
       (\<lambda>x. try_ok (case x of VInt v \<Rightarrow> low \<le> v \<and> v \<le> high | _ \<Rightarrow> False))"
| "eval_expr_scoped (SAnd l r) cols row outer =
     try_bind (eval_expr_scoped l cols row outer)
       (\<lambda>a. if a then eval_expr_scoped r cols row outer else try_ok False)"
| "eval_expr_scoped (SOr l r) cols row outer =
     try_bind (eval_expr_scoped l cols row outer)
       (\<lambda>a. if a then try_ok True else eval_expr_scoped r cols row outer)"
| "eval_expr_scoped (SNot e) cols row outer =
     try_bind (eval_expr_scoped e cols row outer) (\<lambda>a. try_ok (\<not> a))"
| "eval_expr_scoped (SAgg func column) cols row outer =
     try_bind (column_value (agg_default_alias func column) cols row outer) (\<lambda>x. try_ok (x \<noteq> VNull))"
| "eval_expr_scoped (SExists q) cols row outer = try_err UnresolvedSubquery"
| "eval_expr_scoped (SInSubquery column q) cols row outer = try_err UnresolvedSubquery"
| "eval_expr_scoped (SScalarCmp column op q) cols row outer = try_err UnresolvedSubquery"

definition eval_expr :: "'q sexpr \<Rightarrow> string list \<Rightarrow> row \<Rightarrow> (exec_error, bool) fallible" where
  "eval_expr e columns row = eval_expr_scoped e columns row []"
subsection \<open>Aggregates\<close>

text \<open>The cast of a length to \<open>i64\<close>, and the sum of a list of \<open>i64\<close>.\<close>

definition wrap_i64 :: "int \<Rightarrow> int" where
  "wrap_i64 n = (n + 2 ^ 63) mod 2 ^ 64 - 2 ^ 63"

fun sum_i64 :: "int \<Rightarrow> int list \<Rightarrow> int panics" where
  "sum_i64 acc [] = Some acc"
| "sum_i64 acc (x # xs) = do { a \<leftarrow> ichecked_add 64 acc x; sum_i64 a xs }"

fun int_values :: "nat \<Rightarrow> row list \<Rightarrow> int list panics" where
  "int_values idx [] = Some []"
| "int_values idx (r # rs) = do {
     v \<leftarrow> vec_get r idx;
     vs \<leftarrow> int_values idx rs;
     Some (case v of VInt i \<Rightarrow> i # vs | _ \<Rightarrow> vs)
   }"

definition eval_aggregate ::
    "aggregate_func \<Rightarrow> string \<Rightarrow> string list \<Rightarrow> row list \<Rightarrow> (exec_error, sql_value) fallible" where
  "eval_aggregate func column columns rows =
     (if func = ACount then try_ok (VInt (wrap_i64 (int (length rows))))
      else try_bind (try_some (UnknownColumn column) (position (\<lambda>c. c = column) columns)) (\<lambda>idx.
        try_bind (try_lift (int_values idx rows)) (\<lambda>vals.
          case func of
            ASum \<Rightarrow> try_lift (map_option VInt (sum_i64 0 vals))
          | AAvg \<Rightarrow> (if vals = [] then try_ok (VInt 0)
                     else try_lift (map_option (\<lambda>s. VInt (s sdiv wrap_i64 (int (length vals)))) (sum_i64 0 vals)))
          | AMin \<Rightarrow> try_ok (VInt (if vals = [] then 0 else Min (set vals)))
          | AMax \<Rightarrow> try_ok (VInt (if vals = [] then 0 else Max (set vals)))
          | ACount \<Rightarrow> None)))"

type_synonym aggregate = "string \<times> aggregate_func \<times> string"

text \<open>The values of a row at given positions.\<close>

fun pick :: "nat list \<Rightarrow> row \<Rightarrow> row panics" where
  "pick [] r = Some []"
| "pick (i # is) r = do { v \<leftarrow> vec_get r i; vs \<leftarrow> pick is r; Some (v # vs) }"

definition push_row_group :: "row \<Rightarrow> row \<Rightarrow> (row, row list) bmap \<Rightarrow> (row, row list) bmap" where
  "push_row_group key r groups = bt_insert key ((case bt_get groups key of None \<Rightarrow> [] | Some rs \<Rightarrow> rs) @ [r]) groups"

fun group_rows :: "nat list \<Rightarrow> row list \<Rightarrow> (row, row list) bmap \<Rightarrow> (row, row list) bmap panics" where
  "group_rows gb [] groups = Some groups"
| "group_rows gb (r # rs) groups = do { key \<leftarrow> pick gb r; group_rows gb rs (push_row_group key r groups) }"

definition column_index :: "string list \<Rightarrow> string \<Rightarrow> (exec_error, nat) fallible" where
  "column_index columns c = try_some (UnknownColumn c) (position (\<lambda>ic. ic = c) columns)"

definition aggregate_values :: "string list \<Rightarrow> row list \<Rightarrow> aggregate list \<Rightarrow> (exec_error, row) fallible" where
  "aggregate_values columns rows aggregates =
     try_map (\<lambda>(alias, func, col). eval_aggregate func col columns rows) aggregates"

definition group_row ::
    "string list \<Rightarrow> nat list \<Rightarrow> aggregate list \<Rightarrow> row list \<Rightarrow> (exec_error, row) fallible" where
  "group_row columns gb aggregates rows =
     try_bind (try_lift (vec_get rows 0)) (\<lambda>r0.
     try_bind (try_lift (pick gb r0)) (\<lambda>key.
     try_bind (aggregate_values columns rows aggregates) (\<lambda>vals. try_ok (key @ vals))))"

definition aggregate_table ::
    "string list \<Rightarrow> row list \<Rightarrow> string list \<Rightarrow> aggregate list \<Rightarrow> (exec_error, result_set) fallible" where
  "aggregate_table columns rows group_by aggregates =
     (if group_by = []
      then try_bind (aggregate_values columns rows aggregates) (\<lambda>out_row.
        try_ok \<lparr>rs_columns = map fst aggregates, rs_rows = [out_row]\<rparr>)
      else
        try_bind (try_map (column_index columns) group_by) (\<lambda>gb.
        try_bind (try_lift (group_rows gb rows [])) (\<lambda>groups.
        try_bind (try_map (group_row columns gb aggregates) (map snd groups)) (\<lambda>out_rows.
          try_ok \<lparr>rs_columns = group_by @ map fst aggregates, rs_rows = out_rows\<rparr>))))"

subsection \<open>Plans\<close>

record table_stats =
  ts_row_count :: nat

datatype dispatch = Cpu | Gpu

datatype 'p plan = Plan (pl_root: 'p) (pl_estimated_rows: nat) (pl_dispatch: dispatch)

datatype plan_node =
    PScan string bool
  | PFilter sql_expr plan_node
  | PProject "string list" bool plan_node
  | PLimit nat plan_node
  | PSort "order_by list" plan_node
  | PAggregate "string list" "aggregate list" "sql_expr option" plan_node
  | PSubqueryScan "plan_node plan" string

definition VECTORIZE_ROW_THRESHOLD :: nat where
  "VECTORIZE_ROW_THRESHOLD = 1024"

definition GPU_ROW_THRESHOLD :: nat where
  "GPU_ROW_THRESHOLD = 1000000"

fun selectivity :: "'q sexpr \<Rightarrow> (nat \<times> nat) panics" where
  "selectivity (SCmp column op v) = Some (case op of CEq \<Rightarrow> (1, 10) | CNe \<Rightarrow> (9, 10) | _ \<Rightarrow> (1, 3))"
| "selectivity (SIsNull column negated) = Some (if negated then (19, 20) else (1, 20))"
| "selectivity (SLike column pattern) = Some (1, 5)"
| "selectivity (SInInt column vals) = Some (max (length vals) 1, 100)"
| "selectivity (SBetweenInt column low high) = Some (1, 3)"
| "selectivity (SCmpColumn l op r) = Some (if op = CEq then (1, 10) else (1, 3))"
| "selectivity (SAnd l r) = do {
     (a, b) \<leftarrow> selectivity l;
     (c, d) \<leftarrow> selectivity r;
     n \<leftarrow> checked_mul 64 a c;
     m \<leftarrow> checked_mul 64 b d;
     Some (max n 1, m)
   }"
| "selectivity (SOr l r) = do {
     (a, b) \<leftarrow> selectivity l;
     (c, d) \<leftarrow> selectivity r;
     ad \<leftarrow> checked_mul 64 a d;
     cb \<leftarrow> checked_mul 64 c b;
     s \<leftarrow> checked_add 64 ad cb;
     ac \<leftarrow> checked_mul 64 a c;
     n \<leftarrow> checked_sub s ac;
     m \<leftarrow> checked_mul 64 b d;
     Some (if m \<le> n then (1, 1) else (max n 1, m))
   }"
| "selectivity (SNot e) = do { (a, b) \<leftarrow> selectivity e; Some (max (b - a) 1, b) }"
| "selectivity (SExists q) = Some (1, 3)"
| "selectivity (SInSubquery column q) = Some (1, 3)"
| "selectivity (SScalarCmp column op q) = Some (1, 3)"
| "selectivity (SAgg func column) = Some (1, 3)"

definition div_ceil :: "nat \<Rightarrow> nat \<Rightarrow> nat panics" where
  "div_ceil a b = (if b = 0 then None else Some (if a mod b = 0 then a div b else a div b + 1))"

definition plan_filter :: "select_statement \<Rightarrow> plan_node \<times> nat \<Rightarrow> (plan_node \<times> nat) panics" where
  "plan_filter stmt acc = (case sel_filter stmt of
     None \<Rightarrow> Some acc
   | Some e \<Rightarrow> do {
       (num, den) \<leftarrow> selectivity e;
       prod \<leftarrow> checked_mul 64 (snd acc) num;
       est \<leftarrow> div_ceil prod den;
       Some (PFilter e (fst acc), est)
     })"

definition plan_aggregate :: "select_statement \<Rightarrow> plan_node \<times> nat \<Rightarrow> (plan_node \<times> nat) panics" where
  "plan_aggregate stmt acc =
     (if sel_group_by stmt \<noteq> [] \<or> sel_aggregates stmt \<noteq> []
      then do {
        est \<leftarrow> (if sel_group_by stmt \<noteq> [] then map_option (\<lambda>e. max e 1) (div_ceil (snd acc) 10) else Some (snd acc));
        Some (PAggregate (sel_group_by stmt) (sel_aggregates stmt) (sel_having stmt) (fst acc), est)
      }
      else Some acc)"

definition plan_order :: "select_statement \<Rightarrow> plan_node \<Rightarrow> plan_node" where
  "plan_order stmt node = (if sel_order_by stmt \<noteq> [] then PSort (sel_order_by stmt) node else node)"

definition plan_limit :: "select_statement \<Rightarrow> plan_node \<times> nat \<Rightarrow> plan_node \<times> nat" where
  "plan_limit stmt acc = (case sel_limit stmt of
     None \<Rightarrow> acc
   | Some n \<Rightarrow> (PLimit n (fst acc), min (snd acc) n))"

text \<open>\<open>gpu\<close> tells whether the feature of that name is enabled.\<close>

definition plan_select :: "bool \<Rightarrow> select_statement \<Rightarrow> table_stats \<Rightarrow> plan_node plan panics" where
  "plan_select gpu stmt stats = do {
     let scan = PScan (table_ref_name (sel_table stmt)) (VECTORIZE_ROW_THRESHOLD \<le> ts_row_count stats);
     filtered \<leftarrow> plan_filter stmt (scan, ts_row_count stats);
     (node, est) \<leftarrow> plan_aggregate stmt filtered;
     let (root, est') = plan_limit stmt (plan_order stmt (PProject (sel_columns stmt) (sel_star stmt) node), est);
     Some (Plan root est' (if gpu \<and> GPU_ROW_THRESHOLD \<le> ts_row_count stats then Gpu else Cpu))
   }"
subsection \<open>Execution\<close>

definition BATCH_SIZE :: nat where
  "BATCH_SIZE = 1024"

function (sequential) chunks :: "nat \<Rightarrow> 'a list \<Rightarrow> 'a list list" where
  "chunks n [] = []"
| "chunks 0 (x # xs) = []"
| "chunks (Suc n) (x # xs) = (x # take n xs) # chunks (Suc n) (drop n xs)"
  by pat_completeness auto
termination by (relation "measure (\<lambda>(n, xs). length xs)") auto

fun insert_by :: "('a \<Rightarrow> 'a \<Rightarrow> sql_ordering) \<Rightarrow> 'a \<Rightarrow> 'a list \<Rightarrow> 'a list" where
  "insert_by c x [] = [x]"
| "insert_by c x (y # ys) = (if c x y = Greater then y # insert_by c x ys else x # y # ys)"

definition sort_by :: "('a \<Rightarrow> 'a \<Rightarrow> sql_ordering) \<Rightarrow> 'a list \<Rightarrow> 'a list" where
  "sort_by c xs = foldr (insert_by c) xs []"

fun compare_rows :: "(nat \<times> bool) list \<Rightarrow> row \<Rightarrow> row \<Rightarrow> sql_ordering" where
  "compare_rows [] a b = Equal"
| "compare_rows ((i, desc) # keys) a b =
     (let ord = value_cmp (a ! i) (b ! i); ord = (if desc then reverse_ordering ord else ord) in
      if ord \<noteq> Equal then ord else compare_rows keys a b)"

definition sort_rows :: "(nat \<times> bool) list \<Rightarrow> row list \<Rightarrow> row list panics" where
  "sort_rows keys rows =
     (if length rows < 2 \<or> list_all (\<lambda>r. list_all (\<lambda>k. fst k < length r) keys) rows
      then Some (sort_by (compare_rows keys) rows) else None)"

definition sort_keys :: "string list \<Rightarrow> order_by list \<Rightarrow> (nat \<times> bool) list" where
  "sort_keys columns obs = map (\<lambda>ob.
     (case position (\<lambda>c. c = ob_column ob) columns of None \<Rightarrow> 0 | Some i \<Rightarrow> i, ob_descending ob)) obs"

definition unwrap_or_false :: "('e, bool) fallible \<Rightarrow> ('f, bool) fallible" where
  "unwrap_or_false m = (case m of None \<Rightarrow> None | Some (Inl e) \<Rightarrow> try_ok False | Some (Inr b) \<Rightarrow> try_ok b)"

definition pick_rows :: "nat list \<Rightarrow> row list \<Rightarrow> (exec_error, row list) fallible" where
  "pick_rows indices rows = try_map (\<lambda>r. try_lift (pick indices r)) rows"

fun execute_node :: "plan_node \<Rightarrow> table \<Rightarrow> (exec_error, result_set) fallible" where
  "execute_node (PScan name vectorized) t =
     try_ok \<lparr>rs_columns = tb_columns t, rs_rows = concat (chunks BATCH_SIZE (tb_rows t))\<rparr>"
| "execute_node (PFilter e input) t =
     try_bind (execute_node input t) (\<lambda>inner.
     try_bind (try_map (try_filter (eval_expr e (rs_columns inner))) (chunks BATCH_SIZE (rs_rows inner))) (\<lambda>batches.
       try_ok \<lparr>rs_columns = rs_columns inner, rs_rows = concat batches\<rparr>))"
| "execute_node (PProject columns star input) t =
     try_bind (execute_node input t) (\<lambda>inner.
       if star \<or> columns = [] then try_ok inner
       else try_bind (try_map (column_index (rs_columns inner)) columns) (\<lambda>indices.
         try_bind (pick_rows indices (rs_rows inner)) (\<lambda>rows.
           try_ok \<lparr>rs_columns = columns, rs_rows = rows\<rparr>)))"
| "execute_node (PLimit n input) t =
     try_bind (execute_node input t) (\<lambda>inner. try_ok (inner\<lparr>rs_rows := take n (rs_rows inner)\<rparr>))"
| "execute_node (PSort obs input) t =
     try_bind (execute_node input t) (\<lambda>inner.
     try_bind (try_lift (sort_rows (sort_keys (rs_columns inner) obs) (rs_rows inner))) (\<lambda>rows.
       try_ok (inner\<lparr>rs_rows := rows\<rparr>)))"
| "execute_node (PAggregate group_by aggregates having input) t =
     try_bind (execute_node input t) (\<lambda>inner.
     try_bind (aggregate_table (rs_columns inner) (rs_rows inner) group_by aggregates) (\<lambda>result.
       case having of
         None \<Rightarrow> try_ok result
       | Some hv \<Rightarrow>
           try_bind (try_filter (\<lambda>row. unwrap_or_false (eval_expr hv (rs_columns result) row)) (rs_rows result)) (\<lambda>rows.
             try_ok (result\<lparr>rs_rows := rows\<rparr>))))"
| "execute_node (PSubqueryScan (Plan root est disp) alias) t =
     try_bind (execute_node root t) (\<lambda>inner.
       try_ok \<lparr>rs_columns = map (\<lambda>c. alias @ ''.'' @ c) (rs_columns inner), rs_rows = rs_rows inner\<rparr>)"

definition execute_plan :: "plan_node plan \<Rightarrow> table \<Rightarrow> (exec_error, result_set) fallible" where
  "execute_plan plan t = execute_node (pl_root plan) t"

subsection \<open>The stable sort\<close>

text \<open>A comparator is a total preorder with \<open>Greater\<close> as the converse of \<open>Less\<close>.\<close>

definition total_preorder :: "('a \<Rightarrow> 'a \<Rightarrow> sql_ordering) \<Rightarrow> bool" where
  "total_preorder c \<longleftrightarrow>
     (\<forall>x y. c y x = reverse_ordering (c x y)) \<and> (\<forall>x y z. c x y \<noteq> Greater \<longrightarrow> c y z \<noteq> Greater \<longrightarrow> c x z \<noteq> Greater)"

lemma reverse_simps [simp]:
  "reverse_ordering r = Less \<longleftrightarrow> r = Greater" "reverse_ordering r = Greater \<longleftrightarrow> r = Less" "reverse_ordering r = Equal \<longleftrightarrow> r = Equal"
  by (cases r; simp add: reverse_ordering_def)+

lemma total_preorderD:
  assumes "total_preorder c"
  shows "c x y = Greater \<Longrightarrow> c y x = Less" and "c x y = Equal \<Longrightarrow> c y x = Equal"
    and "c x y \<noteq> Greater \<Longrightarrow> c y z \<noteq> Greater \<Longrightarrow> c x z \<noteq> Greater"
proof -
  have s: "c y x = reverse_ordering (c x y)" using assms unfolding total_preorder_def by blast
  show "c x y = Greater \<Longrightarrow> c y x = Less" by (subst s) simp
  show "c x y = Equal \<Longrightarrow> c y x = Equal" by (subst s) simp
  show "c x y \<noteq> Greater \<Longrightarrow> c y z \<noteq> Greater \<Longrightarrow> c x z \<noteq> Greater" using assms unfolding total_preorder_def by blast
qed

lemma mset_insert_by [simp]: "mset (insert_by c x ys) = add_mset x (mset ys)"
  by (induction ys) auto

lemma set_insert_by [simp]: "set (insert_by c x ys) = insert x (set ys)"
  by (induction ys) auto

lemma mset_sort_by: "mset (sort_by c xs) = mset xs"
  by (induction xs) (auto simp: sort_by_def)

lemma set_sort_by [simp]: "set (sort_by c xs) = set xs"
  by (metis mset_sort_by set_mset_mset)

lemma sorted_insert_by:
  assumes "total_preorder c" and "sorted_wrt (\<lambda>a b. c a b \<noteq> Greater) ys"
  shows "sorted_wrt (\<lambda>a b. c a b \<noteq> Greater) (insert_by c x ys)"
  using assms(2)
proof (induction ys)
  case (Cons y ys)
  show ?case
  proof (cases "c x y = Greater")
    case True
    with Cons total_preorderD(1) [OF assms(1) True] show ?thesis by auto
  next
    case False
    with Cons.prems total_preorderD(3) [OF assms(1) False] show ?thesis by auto
  qed
qed simp

lemma sorted_sort_by: "total_preorder c \<Longrightarrow> sorted_wrt (\<lambda>a b. c a b \<noteq> Greater) (sort_by c xs)"
  by (induction xs) (auto simp: sort_by_def sorted_insert_by)

text \<open>Stability: rows equal to a given one keep their order.\<close>

lemma insert_by_filter:
  assumes "total_preorder c"
  shows "filter (\<lambda>y. c k y = Equal) (insert_by c x ys) = filter (\<lambda>y. c k y = Equal) (x # ys)"
proof (induction ys)
  case (Cons y ys)
  have "\<not> (c k x = Equal \<and> c k y = Equal)" if g: "c x y = Greater"
  proof
    assume "c k x = Equal \<and> c k y = Equal"
    then have "c x k \<noteq> Greater" "c k y \<noteq> Greater" using total_preorderD(2) [OF assms] by auto
    from total_preorderD(3) [OF assms this] g show False by simp
  qed
  with Cons show ?case by auto
qed simp

lemma sort_by_stable:
  "total_preorder c \<Longrightarrow> filter (\<lambda>y. c k y = Equal) (sort_by c xs) = filter (\<lambda>y. c k y = Equal) xs"
  by (induction xs) (auto simp: sort_by_def insert_by_filter)

lemma compare_rows_preorder: "total_preorder (compare_rows keys)"
proof -
  have "compare_rows keys y x = reverse_ordering (compare_rows keys x y)" for x y
    by (induction keys x y rule: compare_rows.induct)
      (auto simp: Let_def ord_cmp_def reverse_ordering_def split: sql_ordering.splits)
  moreover have "compare_rows keys x y \<noteq> Greater \<Longrightarrow> compare_rows keys y z \<noteq> Greater \<Longrightarrow> compare_rows keys x z \<noteq> Greater" for x y z
    by (induction keys) (auto simp: Let_def split: if_splits)
  ultimately show ?thesis unfolding total_preorder_def by blast
qed

end
