(* ===== verification/Sql_Queries.thy ===== *)
theory Sql_Queries
  imports Sql_Executor
begin

text \<open>
  What the planner and the executor of the SQL engine compute: pattern matching against its declarative
  meaning, grouping as a partition of the rows, and the answer of a planned query. The last section
  shows queries whose answer is not the one SQL asks for.
\<close>

subsection \<open>Patterns\<close>

text \<open>A pattern cuts the text into one segment for each of its characters.\<close>

definition segment_ok :: "char \<Rightarrow> string \<Rightarrow> bool" where
  "segment_ok p s \<longleftrightarrow> (if p = CHR ''%'' then True else if p = CHR ''_'' then length s = 1 else s = [p])"

lemma like_recurse_segments:
  "like_recurse str pat \<longleftrightarrow> (\<exists>segs. str = concat segs \<and> list_all2 segment_ok pat segs)"
proof (induction str pat rule: like_recurse.induct)
  case (1 str)
  then show ?case by auto
next
  case (2 str c pat)
  have split: "(\<exists>segs. str = concat segs \<and> list_all2 segment_ok (c # pat) segs) \<longleftrightarrow>
      (\<exists>s segs. str = s @ concat segs \<and> segment_ok c s \<and> list_all2 segment_ok pat segs)"
    by (metis (no_types, lifting) concat.simps(2) list_all2_Cons1)
  consider "c = CHR ''%''" | "c = CHR ''_''" | "c \<noteq> CHR ''%''" "c \<noteq> CHR ''_''" by blast
  then show ?case
  proof cases
    case 1
    have "like_recurse str (c # pat) \<longleftrightarrow> (\<exists>i \<le> length str. \<exists>segs. drop i str = concat segs \<and> list_all2 segment_ok pat segs)"
      using 1 "2.IH"(1) by (auto simp: list_ex_iff Bex_def less_Suc_eq_le simp del: upt_Suc)
    also have "\<dots> \<longleftrightarrow> (\<exists>s segs. str = s @ concat segs \<and> list_all2 segment_ok pat segs)"
      by (metis append_eq_conv_conj append_take_drop_id le_add1 length_append)
    finally have "like_recurse str (c # pat) \<longleftrightarrow> (\<exists>s segs. str = s @ concat segs \<and> list_all2 segment_ok pat segs)" .
    moreover have "segment_ok c s" for s using 1 by (simp add: segment_ok_def)
    ultimately show ?thesis unfolding split by blast
  next
    case 2
    then have seg: "segment_ok c s \<longleftrightarrow> (\<exists>x. s = [x])" for s by (simp add: segment_ok_def length_Suc_conv)
    have "(\<exists>s segs. str = s @ concat segs \<and> (\<exists>x. s = [x]) \<and> list_all2 segment_ok pat segs) \<longleftrightarrow>
        (\<exists>x segs. str = x # concat segs \<and> list_all2 segment_ok pat segs)"
      by (metis append_Cons append_Nil)
    then show ?thesis unfolding split seg using 2 "2.IH"(2) by (cases str) auto
  next
    case 3
    then have seg: "segment_ok c s \<longleftrightarrow> s = [c]" for s by (simp add: segment_ok_def)
    show ?thesis unfolding split seg using 3 "2.IH"(3) by (cases str) auto
  qed
qed

text \<open>
  C19. The matcher of \<open>LIKE\<close> computes the meaning of patterns over bytes: the UTF-8 bytes of a text match exactly when they can be cut into
  consecutive segments, one for each byte of the pattern, where \<open>%\<close> takes any segment, an underscore a segment
  of one byte and every other byte itself. (An underscore does not match a character of more than one byte.)
\<close>

theorem like_match_exact:
  "like_match text pattern \<longleftrightarrow> (\<exists>segs. text = concat segs \<and> list_all2 segment_ok pattern segs)"
  unfolding like_match_def by (rule like_recurse_segments)

text \<open>The two bytes of an accented letter do not match one underscore, only two.\<close>

lemma underscore_is_a_byte: "\<not> like_match [CHR 0xC3, CHR 0xA9] ''_'' \<and> like_match [CHR 0xC3, CHR 0xA9] ''__''"
  by code_simp

subsection \<open>Batches\<close>

lemma concat_chunks: "0 < n \<Longrightarrow> concat (chunks n xs) = xs"
  by (induction n xs rule: chunks.induct) auto

lemma try_filter_batches:
  assumes "0 < n"
  shows "try_bind (try_map (try_filter p) (chunks n xs)) (\<lambda>bs. try_ok (concat bs)) = try_filter p xs"
  using assms
proof (induction n xs rule: chunks.induct)
  case (3 n x xs)
  let ?c = "x # take n xs"
  have "try_bind (try_map (try_filter p) (chunks (Suc n) (x # xs))) (\<lambda>bs. try_ok (concat bs)) =
      try_bind (try_filter p ?c) (\<lambda>a. try_bind (try_bind (try_map (try_filter p) (chunks (Suc n) (drop n xs)))
        (\<lambda>bs. try_ok (concat bs))) (\<lambda>b. try_ok (a @ b)))"
    by (simp add: try_bind_assoc)
  also have "\<dots> = try_filter p (?c @ drop n xs)"
    unfolding 3(1) [OF 3(2)] by (rule try_filter_append [symmetric])
  finally show ?case by simp
qed auto

subsection \<open>Grouping\<close>

lemma pick_map: "pick is r = (if \<forall>i \<in> set is. i < length r then Some (map ((!) r) is) else None)"
  by (induction "is") (auto simp: vec_get_def)

lemma group_rows_spec:
  assumes "group_rows gb rows groups = Some out" and "bt_wf groups"
  shows "bt_wf out \<and> (\<forall>key. bt_get out key =
     (let new = filter (\<lambda>r. pick gb r = Some key) rows in
      case bt_get groups key of None \<Rightarrow> if new = [] then None else Some new | Some old \<Rightarrow> Some (old @ new)))"
  using assms
proof (induction gb rows groups rule: group_rows.induct)
  case (1 gb groups)
  then show ?case by (simp split: option.split)
next
  case (2 gb r rs groups)
  from "2.prems"(1) obtain key where k: "pick gb r = Some key"
    "group_rows gb rs (push_row_group key r groups) = Some out" by (auto split: bind_splits)
  have wf: "bt_wf (push_row_group key r groups)" using "2.prems"(2) by (simp add: push_row_group_def bt_wf_insert)
  have get: "bt_get (push_row_group key r groups) =
      (bt_get groups)(key \<mapsto> (case bt_get groups key of None \<Rightarrow> [] | Some rs \<Rightarrow> rs) @ [r])"
    by (simp add: push_row_group_def bt_get_insert)
  from "2.IH" [OF k wf] k(1) show ?case
    by (auto simp: get Let_def split: option.splits)
qed

text \<open>
  C18. Grouping is a partition: when \<open>GROUP BY\<close> over known columns succeeds, the answer has one row for every
  combination of key values that occurs, in increasing order of the keys; each starts with its key, and its
  aggregates are those of exactly the rows with that key, in their order.
\<close>

theorem group_by_partitions:
  assumes "aggregate_table columns rows group_by aggregates = try_ok rs" and "group_by \<noteq> []"
  shows "\<exists>gb keys. try_map (column_index columns) group_by = try_ok gb \<and>
     sorted_wrt (<) keys \<and> set keys = {key. \<exists>r \<in> set rows. pick gb r = Some key} \<and>
     list_all2 (\<lambda>key out. \<exists>vals. aggregate_values columns (filter (\<lambda>r. pick gb r = Some key) rows) aggregates = try_ok vals \<and>
       out = key @ vals) keys (rs_rows rs)"
proof -
  from assms obtain gb groups out where gb: "try_map (column_index columns) group_by = try_ok gb"
    and g: "group_rows gb rows [] = Some groups"
    and out: "try_map (group_row columns gb aggregates) (map snd groups) = try_ok out" "rs_rows rs = out"
    by (auto simp: aggregate_table_def try_bind_ok try_lift_ok)
  from group_rows_spec [OF g] have wf: "bt_wf groups"
    and get: "\<And>key. bt_get groups key = (let new = filter (\<lambda>r. pick gb r = Some key) rows in if new = [] then None else Some new)"
    by (simp_all add: bt_wf_def bt_get_def)
  have entry: "rs' = filter (\<lambda>r. pick gb r = Some key) rows" "rs' \<noteq> []" if "(key, rs') \<in> set groups" for key rs'
    using get [of key] map_of_is_SomeI [OF bt_wf_distinct [OF wf] that] by (auto simp: bt_get_def Let_def split: if_splits)
  have keys: "set (map fst groups) = {key. \<exists>r \<in> set rows. pick gb r = Some key}"
  proof -
    have "key \<in> set (map fst groups) \<longleftrightarrow> bt_get groups key \<noteq> None" for key
      by (simp add: bt_get_def map_of_eq_None_iff)
    moreover have "bt_get groups key \<noteq> None \<longleftrightarrow> (\<exists>r \<in> set rows. pick gb r = Some key)" for key
      by (simp add: get Let_def filter_empty_conv)
    ultimately show ?thesis by blast
  qed
  have "list_all2 (\<lambda>g o'. group_row columns gb aggregates (snd g) = try_ok o') groups out"
    using out(1) by (simp add: try_map_ok list_all2_map1)
  then have "list_all2 (\<lambda>key out. \<exists>vals. aggregate_values columns (filter (\<lambda>r. pick gb r = Some key) rows) aggregates = try_ok vals \<and>
      out = key @ vals) (map fst groups) out"
    unfolding list_all2_map1
  proof (rule list.rel_mono_strong)
    fix g o' assume g: "g \<in> set groups" "group_row columns gb aggregates (snd g) = try_ok o'"
    obtain key rs' where gr: "g = (key, rs')" by (cases g)
    note e = entry [OF g(1) [unfolded gr]]
    from e(2) obtain r0 where r0: "vec_get rs' 0 = Some r0" "r0 \<in> set rs'" by (cases rs') (auto simp: vec_get_def)
    then have "pick gb r0 = Some key" using e(1) by simp
    with g(2) gr r0(1) e(1) show "\<exists>vals. aggregate_values columns (filter (\<lambda>r. pick gb r = Some (fst g)) rows) aggregates = try_ok vals \<and>
        o' = fst g @ vals"
      by (auto simp: group_row_def try_bind_ok)
  qed
  moreover have "sorted_wrt (<) (map fst groups)" using wf by (simp add: bt_wf_def)
  ultimately show ?thesis using gb keys out(2) by blast
qed
subsection \<open>Planned queries\<close>

text \<open>The answer of a query without grouping, row by row.\<close>

definition project_columns :: "select_statement \<Rightarrow> result_set \<Rightarrow> (exec_error, result_set) fallible" where
  "project_columns stmt inner =
     (if sel_star stmt \<or> sel_columns stmt = [] then try_ok inner
      else try_bind (try_map (column_index (rs_columns inner)) (sel_columns stmt)) (\<lambda>indices.
        try_bind (pick_rows indices (rs_rows inner)) (\<lambda>rows. try_ok \<lparr>rs_columns = sel_columns stmt, rs_rows = rows\<rparr>)))"

definition filter_rows :: "select_statement \<Rightarrow> table \<Rightarrow> (exec_error, row list) fallible" where
  "filter_rows stmt t = (case sel_filter stmt of
     None \<Rightarrow> try_ok (tb_rows t)
   | Some e \<Rightarrow> try_filter (eval_expr e (tb_columns t)) (tb_rows t))"

definition order_rows :: "select_statement \<Rightarrow> result_set \<Rightarrow> (exec_error, result_set) fallible" where
  "order_rows stmt inner =
     (if sel_order_by stmt = [] then try_ok inner
      else try_bind (try_lift (sort_rows (sort_keys (rs_columns inner) (sel_order_by stmt)) (rs_rows inner))) (\<lambda>rows.
        try_ok (inner\<lparr>rs_rows := rows\<rparr>)))"

definition limit_rows :: "select_statement \<Rightarrow> result_set \<Rightarrow> result_set" where
  "limit_rows stmt inner = (case sel_limit stmt of None \<Rightarrow> inner | Some n \<Rightarrow> inner\<lparr>rs_rows := take n (rs_rows inner)\<rparr>)"

lemma executed_rows:
  assumes "plan_select gpu stmt stats = Some plan" and "sel_group_by stmt = []" and "sel_aggregates stmt = []"
  shows "execute_plan plan t =
     try_bind (filter_rows stmt t) (\<lambda>kept.
     try_bind (project_columns stmt \<lparr>rs_columns = tb_columns t, rs_rows = kept\<rparr>) (\<lambda>projected.
     try_bind (order_rows stmt projected) (\<lambda>ordered. try_ok (limit_rows stmt ordered))))"
proof -
  have batch: "0 < BATCH_SIZE" by (simp add: BATCH_SIZE_def)
  have filtered: "execute_node (PFilter e (PScan n v)) t =
      try_bind (try_filter (eval_expr e (tb_columns t)) (tb_rows t)) (\<lambda>rows. try_ok \<lparr>rs_columns = tb_columns t, rs_rows = rows\<rparr>)" for e n v
    by (subst try_filter_batches [OF batch, symmetric]) (simp add: concat_chunks [OF batch] try_bind_assoc)
  define scan where "scan = PScan (table_ref_name (sel_table stmt)) (VECTORIZE_ROW_THRESHOLD \<le> ts_row_count stats)"
  define root where "root = (case sel_filter stmt of None \<Rightarrow> scan | Some e \<Rightarrow> PFilter e scan)"
  have root: "plan_filter stmt (scan, c) = Some f \<Longrightarrow> fst f = root" for c f
    by (auto simp: plan_filter_def root_def split: option.splits bind_splits)
  have agg: "plan_aggregate stmt f = Some f" for f using assms(2,3) by (simp add: plan_aggregate_def)
  from assms(1) obtain f where f: "plan_filter stmt (scan, ts_row_count stats) = Some f"
    by (auto simp: plan_select_def scan_def Let_def split: bind_splits)
  with assms(1) have plan: "pl_root plan =
      fst (plan_limit stmt (plan_order stmt (PProject (sel_columns stmt) (sel_star stmt) (fst f)), snd f))"
    by (auto simp: plan_select_def scan_def Let_def agg split: prod.splits)
  have inner: "execute_node root t = try_bind (filter_rows stmt t) (\<lambda>kept. try_ok \<lparr>rs_columns = tb_columns t, rs_rows = kept\<rparr>)"
    unfolding root_def scan_def
    by (cases "sel_filter stmt") (simp_all add: filter_rows_def concat_chunks [OF batch] filtered del: execute_node.simps(2))
  have project: "execute_node (PProject (sel_columns stmt) (sel_star stmt) root) t =
      try_bind (filter_rows stmt t) (\<lambda>kept. project_columns stmt \<lparr>rs_columns = tb_columns t, rs_rows = kept\<rparr>)"
    by (simp add: inner try_bind_assoc project_columns_def)
  have order: "execute_node (plan_order stmt n) t = try_bind (execute_node n t) (order_rows stmt)" for n
    by (simp add: plan_order_def order_rows_def [abs_def])
  have limit: "execute_node (fst (plan_limit stmt (n, e))) t = try_bind (execute_node n t) (\<lambda>r. try_ok (limit_rows stmt r))" for n e
    by (simp add: plan_limit_def limit_rows_def split: option.split)
  show ?thesis unfolding execute_plan_def plan root [OF f] limit order project by (simp add: try_bind_assoc)
qed

text \<open>What an ordered answer with a limit is: the first rows of a stable arrangement by the sort keys.\<close>

definition arranged :: "(nat \<times> bool) list \<Rightarrow> row list \<Rightarrow> row list \<Rightarrow> bool" where
  "arranged keys rows out \<longleftrightarrow> mset out = mset rows \<and>
     sorted_wrt (\<lambda>a b. compare_rows keys a b \<noteq> Greater) out \<and>
     (\<forall>k. filter (\<lambda>r. compare_rows keys k r = Equal) out = filter (\<lambda>r. compare_rows keys k r = Equal) rows)"

lemma sort_rows_arranged: "sort_rows keys rows = Some out \<Longrightarrow> arranged keys rows out"
  using compare_rows_preorder [of keys]
  by (auto simp: sort_rows_def arranged_def mset_sort_by sorted_sort_by sort_by_stable split: if_splits)

text \<open>
  C17. A planned query without grouping, executed in batches, answers what it asks: the rows on which the condition is
  true, restricted to the selected columns, arranged stably by the sort keys over those columns, and of these the
  first up to the limit.
\<close>

theorem planned_query_answers:
  assumes "plan_select gpu stmt stats = Some plan" and "execute_plan plan t = try_ok rs"
    and "sel_group_by stmt = []" and "sel_aggregates stmt = []"
  shows "\<exists>kept projected ordered.
     kept = filter (\<lambda>r. case sel_filter stmt of None \<Rightarrow> True | Some e \<Rightarrow> eval_expr e (tb_columns t) r = try_ok True) (tb_rows t) \<and>
     project_columns stmt \<lparr>rs_columns = tb_columns t, rs_rows = kept\<rparr> = try_ok projected \<and>
     (if sel_order_by stmt = [] then ordered = rs_rows projected
      else arranged (sort_keys (rs_columns projected) (sel_order_by stmt)) (rs_rows projected) ordered) \<and>
     rs = \<lparr>rs_columns = rs_columns projected, rs_rows = (case sel_limit stmt of None \<Rightarrow> ordered | Some n \<Rightarrow> take n ordered)\<rparr>"
proof -
  from assms(2) obtain kept projected ordered where k: "filter_rows stmt t = try_ok kept"
    and p: "project_columns stmt \<lparr>rs_columns = tb_columns t, rs_rows = kept\<rparr> = try_ok projected"
    and s: "order_rows stmt projected = try_ok ordered" and l: "rs = limit_rows stmt ordered"
    unfolding executed_rows [OF assms(1,3,4)] by (auto simp: try_bind_ok)
  have kept: "kept = filter (\<lambda>r. case sel_filter stmt of None \<Rightarrow> True | Some e \<Rightarrow> eval_expr e (tb_columns t) r = try_ok True) (tb_rows t)"
    using k by (auto simp: filter_rows_def try_filter_ok split: option.splits)
  from s have "rs_columns ordered = rs_columns projected"
    and "if sel_order_by stmt = [] then rs_rows ordered = rs_rows projected
      else arranged (sort_keys (rs_columns projected) (sel_order_by stmt)) (rs_rows projected) (rs_rows ordered)"
    by (auto simp: order_rows_def try_bind_ok try_lift_ok sort_rows_arranged split: if_splits)
  with l kept p show ?thesis
    by (intro exI [of _ kept] exI [of _ projected] exI [of _ "rs_rows ordered"])
      (auto simp: limit_rows_def split: option.splits)
qed
subsection \<open>Examples\<close>

definition people :: table where
  "people = \<lparr>tb_columns = [''id'', ''age'', ''team''],
     tb_rows = [[VInt 1, VInt 40, VText ''b''], [VInt 2, VNull, VText ''a''], [VInt 3, VInt 30, VText ''b'']]\<rparr>"

definition simple_select :: "string list \<Rightarrow> sql_expr option \<Rightarrow> order_by list \<Rightarrow> nat option \<Rightarrow> select_statement" where
  "simple_select columns filt order limit =
     SelectStatement columns (columns = []) (TNamed ''people'' None) filt [] [] [] order None limit None []"

lemma simple_select_sel [simp]:
  "sel_group_by (simple_select c f ord lim) = []" "sel_aggregates (simple_select c f ord lim) = []"
  "sel_order_by (simple_select c f ord lim) = ord" "sel_limit (simple_select c f ord lim) = lim"
  by (simp_all add: simple_select_def)

theorem group_by_partitions_witness:
  "\<exists>gb keys. try_map (column_index (tb_columns people)) [''team''] = try_ok gb \<and>
     sorted_wrt (<) keys \<and> set keys = {key. \<exists>r \<in> set (tb_rows people). pick gb r = Some key} \<and>
     list_all2 (\<lambda>key out. \<exists>vals. aggregate_values (tb_columns people)
        (filter (\<lambda>r. pick gb r = Some key) (tb_rows people)) [(''n'', ACount, ''*''), (''s'', ASum, ''age'')] = try_ok vals \<and>
       out = key @ vals) keys [[VText ''a'', VInt 1, VInt 0], [VText ''b'', VInt 2, VInt 70]]"
proof -
  have "aggregate_table (tb_columns people) (tb_rows people) [''team''] [(''n'', ACount, ''*''), (''s'', ASum, ''age'')] =
      try_ok \<lparr>rs_columns = [''team'', ''n'', ''s''], rs_rows = [[VText ''a'', VInt 1, VInt 0], [VText ''b'', VInt 2, VInt 70]]\<rparr>"
    by code_simp
  from group_by_partitions [OF this] show ?thesis by simp
qed

lemma people_planned:
  "plan_select False (simple_select [''id''] (Some (SCmp ''age'' CGt (LInt 10))) [\<lparr>ob_column = ''id'', ob_descending = True\<rparr>] (Some 1))
     \<lparr>ts_row_count = 3\<rparr> =
   Some (Plan (PLimit 1 (PSort [\<lparr>ob_column = ''id'', ob_descending = True\<rparr>]
     (PProject [''id''] False (PFilter (SCmp ''age'' CGt (LInt 10)) (PScan ''people'' False))))) 1 Cpu)"
  by (simp add: simple_select_def plan_select_def plan_filter_def plan_aggregate_def plan_order_def plan_limit_def
      VECTORIZE_ROW_THRESHOLD_def checked_mul_def fits_def div_ceil_def)

lemma people_answered:
  "execute_plan (Plan (PLimit 1 (PSort [\<lparr>ob_column = ''id'', ob_descending = True\<rparr>]
     (PProject [''id''] False (PFilter (SCmp ''age'' CGt (LInt 10)) (PScan ''people'' False))))) 1 Cpu) people =
   try_ok \<lparr>rs_columns = [''id''], rs_rows = [[VInt 3]]\<rparr>"
  by code_simp

theorem planned_query_answers_witness:
  "\<exists>(projected :: result_set) ordered. arranged (sort_keys (rs_columns projected) [\<lparr>ob_column = ''id'', ob_descending = True\<rparr>]) (rs_rows projected) ordered \<and>
     [[VInt 3]] = take 1 ordered"
proof -
  from planned_query_answers [OF people_planned people_answered simple_select_sel(1,2)]
  obtain projected :: result_set and ordered where p: "if [\<lparr>ob_column = ''id'', ob_descending = True\<rparr>] = [] then ordered = rs_rows projected
      else arranged (sort_keys (rs_columns projected) [\<lparr>ob_column = ''id'', ob_descending = True\<rparr>]) (rs_rows projected) ordered"
    and q: "\<lparr>rs_columns = [''id''], rs_rows = [[VInt 3]]\<rparr> =
      \<lparr>rs_columns = rs_columns projected, rs_rows = (case Some 1 of None \<Rightarrow> ordered | Some n \<Rightarrow> take n ordered)\<rparr>"
    unfolding simple_select_sel by (elim exE conjE) (rule that)
  show ?thesis
    by (rule exI [of _ projected], rule exI [of _ ordered]) (use p q in simp)
qed

subsection \<open>Answers that SQL does not give\<close>

text \<open>
  The sort runs on the projected columns: a sort key that was not selected silently becomes the first selected column.
\<close>

lemma order_by_unselected_column:
  "map_option (\<lambda>p. execute_plan p people)
     (plan_select False (simple_select [''id''] None [\<lparr>ob_column = ''age'', ob_descending = False\<rparr>] None) \<lparr>ts_row_count = 3\<rparr>) =
   Some (try_ok \<lparr>rs_columns = [''id''], rs_rows = [[VInt 1], [VInt 2], [VInt 3]]\<rparr>)"
  by code_simp

text \<open>The negation of an unknown comparison holds: a row without age satisfies \<open>NOT age > 10\<close>.\<close>

lemma not_of_null_holds:
  "eval_expr (SNot (SCmp ''age'' CGt (LInt 10))) (tb_columns people) [VInt 2, VNull, VText ''a''] = try_ok True"
  by code_simp

text \<open>Aggregates over no values are zero, and \<open>COUNT\<close> of a column counts its nulls.\<close>

lemma aggregates_of_nulls:
  "aggregate_values [''age''] [[VNull]] [(''c'', ACount, ''age''), (''s'', ASum, ''age''), (''a'', AAvg, ''age'')] =
     try_ok [VInt 1, VInt 0, VInt 0]"
  by code_simp

text \<open>The selectivity of a disjunction of long \<open>IN\<close> lists leaves the range of \<open>u64\<close>: planning panics.\<close>

lemma or_selectivity_panics:
  assumes "300 < length xs" and "300 < length ys"
  shows "selectivity (SOr (SInInt a xs) (SInInt b ys)) = None"
proof -
  let ?x = "length xs" and ?y = "length ys"
  have "?x * 100 + ?y * 100 < ?x * ?y"
  proof -
    have "?x * 200 \<le> ?x * ?y" "200 * ?y < ?x * ?y" using assms by auto
    then show ?thesis by linarith
  qed
  then show ?thesis using assms
    by (auto simp: checked_mul_def checked_add_def checked_sub_def fits_def split: bind_splits)
qed

end
