(* ===== verification/Sql_Rows.thy ===== *)
theory Sql_Rows
  imports Sql_Executor Zerocopy
begin

text \<open>
  The row codec of \<open>tpt-archon-relational/src/database.rs\<close>: tag, length, value. The decoder works on the bytes from its
  position on. \<open>String::from_utf8_lossy\<close> of the standard library keeps valid UTF-8 and puts the replacement character for
  every maximal invalid sequence.
\<close>

datatype db_error =
    DbUnknownColumn string
  | DbTypeMismatch
  | ColumnTypeMismatch string
  | ArityMismatch
  | NotAVectorColumn string
  | MissingParam
  | RowNotFound nat
  | CorruptRow nat
  | UnknownTable string
  | TransactionError string
  | TableAlreadyExists string
  | ViewAlreadyExists string
  | UnknownView string
  | RecursiveView string
  | Unsupported string
  | SubqueryCardinality string
  | DbExec exec_error

fun db_error_from :: "exec_error \<Rightarrow> db_error" where
  "db_error_from (UnknownColumn c) = DbUnknownColumn c"
| "db_error_from TypeMismatch = DbTypeMismatch"
| "db_error_from (GroupByColumnNotFound c) = DbUnknownColumn c"
| "db_error_from UnresolvedSubquery = Unsupported ''internal: subquery reached the pure evaluator unresolved''"

subsection \<open>Strings and bytes\<close>

definition string_bytes :: "string \<Rightarrow> bytes" where
  "string_bytes s = map of_char s"

definition bytes_string :: "bytes \<Rightarrow> string" where
  "bytes_string bs = map char_of bs"

lemma bytes_string_bytes [simp]: "bytes_string (string_bytes s) = s"
  by (simp add: bytes_string_def string_bytes_def o_def)

lemma length_string_bytes [simp]: "length (string_bytes s) = length s"
  by (simp add: string_bytes_def)

definition byte_at :: "bytes \<Rightarrow> nat \<Rightarrow> nat" where
  "byte_at bs i = (if i < length bs then bs ! i else 0)"

definition continuation :: "nat \<Rightarrow> bool" where
  "continuation b \<longleftrightarrow> 128 \<le> b \<and> b < 192"

definition second_of_three :: "nat \<Rightarrow> nat \<Rightarrow> bool" where
  "second_of_three a b \<longleftrightarrow> (if a = 224 then 160 \<le> b \<and> b < 192 else if a = 237 then 128 \<le> b \<and> b < 160 else continuation b)"

definition second_of_four :: "nat \<Rightarrow> nat \<Rightarrow> bool" where
  "second_of_four a b \<longleftrightarrow> (if a = 240 then 144 \<le> b \<and> b < 192 else if a = 244 then 128 \<le> b \<and> b < 144 else continuation b)"

text \<open>Whether a valid character starts here, and how many bytes it or the invalid sequence takes.\<close>

fun utf8_scan :: "nat \<Rightarrow> bytes \<Rightarrow> bool \<times> nat" where
  "utf8_scan a bs =
     (if a < 128 then (True, 1)
      else if 194 \<le> a \<and> a < 224 then (if continuation (byte_at bs 0) then (True, 2) else (False, 1))
      else if 224 \<le> a \<and> a < 240 then
        (if \<not> second_of_three a (byte_at bs 0) then (False, 1)
         else if \<not> continuation (byte_at bs 1) then (False, 2) else (True, 3))
      else if 240 \<le> a \<and> a < 245 then
        (if \<not> second_of_four a (byte_at bs 0) then (False, 1)
         else if \<not> continuation (byte_at bs 1) then (False, 2)
         else if \<not> continuation (byte_at bs 2) then (False, 3) else (True, 4))
      else (False, 1))"

lemma utf8_scan_pos: "0 < snd (utf8_scan a bs)"
  by simp

declare utf8_scan.simps [simp del]

function (sequential) utf8_lossy :: "bytes \<Rightarrow> bytes" where
  "utf8_lossy [] = []"
| "utf8_lossy (a # bs) =
     (if fst (utf8_scan a bs) then take (snd (utf8_scan a bs)) (a # bs) else [239, 191, 189]) @
     utf8_lossy (drop (snd (utf8_scan a bs)) (a # bs))"
  by pat_completeness auto
termination by (relation "measure length") (simp_all add: utf8_scan_pos)

function (sequential) utf8_ok :: "bytes \<Rightarrow> bool" where
  "utf8_ok [] = True"
| "utf8_ok (a # bs) \<longleftrightarrow> fst (utf8_scan a bs) \<and> utf8_ok (drop (snd (utf8_scan a bs)) (a # bs))"
  by pat_completeness auto
termination by (relation "measure length") (simp_all add: utf8_scan_pos)

lemma utf8_lossy_ok: "utf8_ok bs \<Longrightarrow> utf8_lossy bs = bs"
proof (induction bs rule: utf8_ok.induct)
  case (2 a bs)
  then show ?case by (simp del: drop_Cons' take_Cons')
qed simp

subsection \<open>Encoding\<close>

fun encode_value :: "sql_value \<Rightarrow> bytes" where
  "encode_value (VInt i) = 0 # to_le_bytes 8 (nat (i mod 2 ^ 64))"
| "encode_value (VText t) = 1 # to_le_bytes 4 (length t) @ string_bytes t"
| "encode_value (VVector v) = 2 # to_le_bytes 4 (length v) @ concat (map (to_le_bytes 4) v)"
| "encode_value VNull = [3]"

definition encode_row :: "row \<Rightarrow> bytes" where
  "encode_row vals = to_le_bytes 2 (length vals) @ concat (map encode_value vals)"

subsection \<open>Decoding\<close>

definition i64_from_bytes :: "bytes \<Rightarrow> int" where
  "i64_from_bytes bs = (let n = from_le_bytes bs in if n < 2 ^ 63 then int n else int n - 2 ^ 64)"

fun decode_f32s :: "nat \<Rightarrow> bytes \<Rightarrow> f32 list" where
  "decode_f32s 0 bs = []"
| "decode_f32s (Suc n) bs = from_le_bytes (take 4 bs) # decode_f32s n (drop 4 bs)"

definition decode_value :: "nat \<Rightarrow> bytes \<Rightarrow> db_error + (sql_value \<times> bytes)" where
  "decode_value tag bs =
     (if tag = 0 then
        (if length bs < 8 then Inl (CorruptRow 0) else Inr (VInt (i64_from_bytes (take 8 bs)), drop 8 bs))
      else if tag = 1 then
        (if length bs < 4 then Inl (CorruptRow 0)
         else let len = from_le_bytes (take 4 bs); rest = drop 4 bs in
           if length rest < len then Inl (CorruptRow 0)
           else Inr (VText (bytes_string (utf8_lossy (take len rest))), drop len rest))
      else if tag = 2 then
        (if length bs < 4 then Inl (CorruptRow 0)
         else let len = from_le_bytes (take 4 bs); rest = drop 4 bs in
           if length rest < len * 4 then Inl (CorruptRow 0)
           else Inr (VVector (decode_f32s len rest), drop (len * 4) rest))
      else if tag = 3 then Inr (VNull, bs)
      else Inr (VInt 0, bs))"

fun decode_values :: "nat \<Rightarrow> bytes \<Rightarrow> db_error + row" where
  "decode_values 0 bs = Inr []"
| "decode_values (Suc n) [] = Inl (CorruptRow 0)"
| "decode_values (Suc n) (tag # bs) =
     res_bind (decode_value tag bs) (\<lambda>(v, rest). res_bind (decode_values n rest) (\<lambda>vs. Inr (v # vs)))"

definition try_decode_row :: "bytes \<Rightarrow> db_error + row" where
  "try_decode_row bs =
     (if length bs < 2 then Inl (CorruptRow 0) else decode_values (from_le_bytes (take 2 bs)) (drop 2 bs))"

definition decode_row_validated :: "nat \<Rightarrow> bytes \<Rightarrow> nat \<Rightarrow> db_error + row" where
  "decode_row_validated row_id bs col_count =
     res_bind (try_decode_row bs) (\<lambda>row. if length row \<noteq> col_count then Inl (CorruptRow row_id) else Inr row)"

subsection \<open>Round trip\<close>

fun value_ok :: "sql_value \<Rightarrow> bool" where
  "value_ok (VInt i) \<longleftrightarrow> ifits 64 i"
| "value_ok (VText t) \<longleftrightarrow> length t < 2 ^ 32 \<and> utf8_ok (string_bytes t)"
| "value_ok (VVector v) \<longleftrightarrow> length v < 2 ^ 32 \<and> list_all (\<lambda>x. x < 2 ^ 32) v"
| "value_ok VNull = True"

definition row_ok :: "row \<Rightarrow> bool" where
  "row_ok r \<longleftrightarrow> length r < 2 ^ 16 \<and> list_all value_ok r"

lemma i64_round_trip: "ifits 64 i \<Longrightarrow> i64_from_bytes (to_le_bytes 8 (nat (i mod 2 ^ 64))) = i"
proof -
  assume i: "ifits 64 i"
  have b: "nat (i mod 2 ^ 64) < 256 ^ 8" by (simp add: nat_less_iff)
  have "i mod 2 ^ 64 = (if 0 \<le> i then i else i + 2 ^ 64)"
  proof (cases "0 \<le> i")
    case True
    with i show ?thesis by (simp add: ifits_def)
  next
    case False
    with i have "(i + 2 ^ 64) mod 2 ^ 64 = i + 2 ^ 64" by (simp add: ifits_def del: mod_add_self2)
    with False show ?thesis by simp
  qed
  then show ?thesis unfolding i64_from_bytes_def from_to_le_bytes [OF b] using i by (auto simp: ifits_def Let_def nat_less_iff)
qed

lemma decode_f32s_encoded:
  "list_all (\<lambda>x. x < 2 ^ 32) v \<Longrightarrow> decode_f32s (length v) (concat (map (to_le_bytes 4) v) @ rest) = v"
proof (induction v)
  case (Cons x v)
  have "x < 256 ^ 4" using Cons.prems by simp
  with Cons show ?case by (simp add: from_to_le_bytes del: to_le_bytes.simps)
qed simp

lemma length_concat_f32s: "length (concat (map (to_le_bytes 4) v)) = length v * 4"
  by (induction v) (simp_all del: to_le_bytes.simps)

lemma decode_encoded_value:
  assumes "value_ok v"
  shows "\<exists>tag body. encode_value v = tag # body \<and> decode_value tag (body @ rest) = Inr (v, rest)"
proof (cases v)
  case (VInt i)
  with assms i64_round_trip show ?thesis by (simp add: decode_value_def del: to_le_bytes.simps)
next
  case (VText t)
  with assms have "length t < 256 ^ 4" by simp
  with VText assms show ?thesis by (simp add: decode_value_def utf8_lossy_ok del: to_le_bytes.simps)
next
  case (VVector w)
  with assms have "length w < 256 ^ 4" by simp
  with VVector assms decode_f32s_encoded [of w rest] length_concat_f32s [of w] show ?thesis
    by (simp add: decode_value_def del: to_le_bytes.simps)
qed (simp add: decode_value_def)

lemma decode_encoded_values:
  "list_all value_ok vs \<Longrightarrow> decode_values (length vs) (concat (map encode_value vs) @ rest) = Inr vs"
proof (induction vs)
  case (Cons v vs)
  from decode_encoded_value [of v "concat (map encode_value vs) @ rest"] Cons.prems obtain tag body where
    "encode_value v = tag # body" "decode_value tag (body @ concat (map encode_value vs) @ rest) = Inr (v, concat (map encode_value vs) @ rest)"
    by auto
  with Cons show ?case by (simp add: res_bind_def)
qed simp

lemma decode_encode_row: "row_ok r \<Longrightarrow> try_decode_row (encode_row r @ rest) = Inr r"
proof -
  assume r: "row_ok r"
  then have "length r < 256 ^ 2" by (simp add: row_ok_def)
  with r decode_encoded_values [of r rest] show ?thesis
    by (simp add: try_decode_row_def encode_row_def row_ok_def del: to_le_bytes.simps)
qed

text \<open>
  C37. Rows survive storage: a row of fewer than 65536 values, with integers in range, texts of valid UTF-8 and
  vectors of bit patterns, both of less than four gigabytes, is decoded from its encoding unchanged.
\<close>

theorem row_codec_roundtrip:
  assumes "row_ok r"
  shows "decode_row_validated i (encode_row r) (length r) = Inr r"
  using decode_encode_row [OF assms, of "[]"] by (simp add: decode_row_validated_def res_bind_def)

definition sample_row :: row where
  "sample_row = [VInt (- 5), VText ''ab'', VVector [1065353216], VNull]"

theorem row_codec_roundtrip_witness:
  "decode_row_validated 7 (encode_row sample_row) (length sample_row) = Inr sample_row"
  by (rule row_codec_roundtrip) (simp add: sample_row_def row_ok_def ifits_def string_bytes_def utf8_scan.simps)

end
