(* ===== verification/Sql_Database.thy ===== *)
theory Sql_Database
  imports Sql_Rows Blink_Tree Mvcc
begin

text \<open>
  The database of \<open>archon\<close> (\<open>tpt-archon-relational/src/database.rs\<close>): tables stored in B-Link trees under row numbers, a
  version store per table, views, data definition, insert, update and delete, transactions, and queries with
  joins, subqueries, common table expressions and views.

  A statement returns the changed database also with an error. \<open>None\<close> is a panic. The calls between a
  query and its subqueries, views and common table expressions can nest without bound, as a view may refer to
  itself through another view: the first argument of \<open>run_select_scoped\<close> is the depth the stack allows, and
  \<open>None\<close> also stands for its overflow.

  The approximate index over embeddings and the ranking of embeddings compute with \<open>f32\<close> and are the parameter
  \<open>ops\<close>; the upkeep of the indexes is modelled. Building an index asserts that there is a vector, which its only caller
  has checked, and has no other panic (vectors of different lengths are cut to the shorter one), so \<open>vo_build\<close> is a total function.
\<close>

subsection \<open>Storage\<close>

record 'x vector_ops =
  vo_build :: "(nat \<times> f32 list) list \<Rightarrow> 'x"
  vo_insert :: "nat \<Rightarrow> f32 list \<Rightarrow> 'x \<Rightarrow> 'x"
  vo_remove :: "nat \<Rightarrow> 'x \<Rightarrow> 'x"
  vo_search :: "'x \<Rightarrow> f32 list \<Rightarrow> nat \<Rightarrow> nat \<Rightarrow> nat list panics"
  vo_topk :: "f32 list list \<Rightarrow> f32 list \<Rightarrow> nat \<Rightarrow> nat list panics"

definition MIN_ROWS_FOR_INDEX :: nat where
  "MIN_ROWS_FOR_INDEX = 1000"

definition DEFAULT_NPROBE :: nat where
  "DEFAULT_NPROBE = 8"

definition MVCC_LIVE :: nat where
  "MVCC_LIVE = 0"

definition MVCC_TOMBSTONE :: nat where
  "MVCC_TOMBSTONE = 1"

record schema =
  sc_columns :: "string list"
  sc_types :: "column_type list"

definition index_of :: "schema \<Rightarrow> string \<Rightarrow> nat option" where
  "index_of s name = position (\<lambda>c. c = name) (sc_columns s)"

record 'x table_storage =
  st_schema :: schema
  st_tree :: blink
  st_next_row_id :: nat
  st_mvcc :: mvcc_store
  st_vector_indexes :: "(string \<times> 'x) list"

record 'x database =
  db_tables :: "(string \<times> 'x table_storage) list"
  db_views :: "(string \<times> select_statement) list"
  db_in_transaction :: bool
  db_active_txns :: "(string \<times> mvcc_txn) list"

type_synonym ('x, 'a) db_result = "('x database \<times> (db_error + 'a)) panics"

definition new_storage :: "schema \<Rightarrow> 'x table_storage" where
  "new_storage s = \<lparr>st_schema = s, st_tree = blink_new, st_next_row_id = 0, st_mvcc = mvcc_new, st_vector_indexes = []\<rparr>"

definition db_empty :: "'x database" where
  "db_empty = \<lparr>db_tables = [], db_views = [], db_in_transaction = False, db_active_txns = []\<rparr>"

definition db_new :: "schema \<Rightarrow> 'x database" where
  "db_new s = db_empty\<lparr>db_tables := [(''t'', new_storage s)]\<rparr>"

definition db_table :: "'x database \<Rightarrow> string \<Rightarrow> 'x table_storage option" where
  "db_table db name = map_of (db_tables db) name"

text \<open>Writing through \<open>table_mut\<close>, and through the transaction of a table.\<close>

definition set_table :: "string \<Rightarrow> 'x table_storage \<Rightarrow> 'x database \<Rightarrow> 'x database" where
  "set_table name ts db = db\<lparr>db_tables := AList.update name ts (db_tables db)\<rparr>"

definition set_txn :: "string \<Rightarrow> mvcc_txn \<Rightarrow> 'x database \<Rightarrow> 'x database" where
  "set_txn name txn db = db\<lparr>db_active_txns := AList.update name txn (db_active_txns db)\<rparr>"

definition table_names :: "'x database \<Rightarrow> string list" where
  "table_names db = map fst (db_tables db)"

definition table_schema :: "'x database \<Rightarrow> string \<Rightarrow> schema option" where
  "table_schema db name = map_option st_schema (db_table db name)"

fun total_len :: "(string \<times> 'x table_storage) list \<Rightarrow> nat panics" where
  "total_len [] = Some 0"
| "total_len ((n, ts) # rest) = do { a \<leftarrow> blink_len (st_tree ts); b \<leftarrow> total_len rest; Some (a + b) }"

definition db_len :: "'x database \<Rightarrow> nat panics" where
  "db_len db = total_len (db_tables db)"

fun all_empty :: "(string \<times> 'x table_storage) list \<Rightarrow> bool panics" where
  "all_empty [] = Some True"
| "all_empty ((n, ts) # rest) = do { e \<leftarrow> blink_is_empty (st_tree ts); if e then all_empty rest else Some False }"

definition db_is_empty :: "'x database \<Rightarrow> bool panics" where
  "db_is_empty db = all_empty (db_tables db)"

definition ensure_txn :: "string \<Rightarrow> 'x database \<Rightarrow> 'x database" where
  "ensure_txn name db =
     (if map_of (db_active_txns db) name \<noteq> None then db
      else case db_table db name of
        None \<Rightarrow> db
      | Some ts \<Rightarrow> db\<lparr>db_active_txns := db_active_txns db @ [(name, mvcc_begin (st_mvcc ts))]\<rparr>)"

definition mvcc_wrap_row :: "row \<Rightarrow> bytes" where
  "mvcc_wrap_row vals = MVCC_LIVE # encode_row vals"

definition mvcc_wrap_tombstone :: bytes where
  "mvcc_wrap_tombstone = [MVCC_TOMBSTONE]"

subsection \<open>Vector index upkeep\<close>

fun maintain_indexes ::
    "'x vector_ops \<Rightarrow> schema \<Rightarrow> nat \<Rightarrow> row \<Rightarrow> (string \<times> 'x) list \<Rightarrow> (string \<times> 'x) list panics" where
  "maintain_indexes ops s i r [] = Some []"
| "maintain_indexes ops s i r ((col, idx) # rest) = do {
     v \<leftarrow> (case index_of s col of None \<Rightarrow> Some VNull | Some slot \<Rightarrow> vec_get r slot);
     more \<leftarrow> maintain_indexes ops s i r rest;
     Some ((col, case v of VVector w \<Rightarrow> vo_insert ops i w idx | _ \<Rightarrow> vo_remove ops i idx) # more)
   }"

definition maintain_vector_indexes_for_row ::
    "'x vector_ops \<Rightarrow> nat \<Rightarrow> row \<Rightarrow> 'x table_storage \<Rightarrow> 'x table_storage panics" where
  "maintain_vector_indexes_for_row ops i r ts =
     map_option (\<lambda>ix. ts\<lparr>st_vector_indexes := ix\<rparr>) (maintain_indexes ops (st_schema ts) i r (st_vector_indexes ts))"

definition maintain_vector_indexes_on_delete :: "'x vector_ops \<Rightarrow> nat \<Rightarrow> 'x table_storage \<Rightarrow> 'x table_storage" where
  "maintain_vector_indexes_on_delete ops i ts =
     ts\<lparr>st_vector_indexes := map (\<lambda>(col, idx). (col, vo_remove ops i idx)) (st_vector_indexes ts)\<rparr>"

text \<open>The rows of the tree in the order of their numbers.\<close>

definition stored_row :: "'x table_storage \<Rightarrow> nat \<Rightarrow> (db_error, row option) fallible" where
  "stored_row ts i =
     try_bind (try_lift (blink_get (st_tree ts) i)) (\<lambda>b. case b of
       None \<Rightarrow> try_ok None
     | Some bs \<Rightarrow> try_bind (Some (decode_row_validated i bs (length (sc_columns (st_schema ts))))) (\<lambda>r. try_ok (Some r)))"

fun collect_rows :: "(nat \<Rightarrow> (db_error, row option) fallible) \<Rightarrow> nat list \<Rightarrow> (db_error, (nat \<times> row) list) fallible" where
  "collect_rows f [] = try_ok []"
| "collect_rows f (i # is) =
     try_bind (f i) (\<lambda>r. try_bind (collect_rows f is) (\<lambda>rs. try_ok (case r of None \<Rightarrow> rs | Some x \<Rightarrow> (i, x) # rs)))"

definition pending_columns :: "'x table_storage \<Rightarrow> (nat \<times> string) list" where
  "pending_columns ts =
     (let s = st_schema ts in
      [(i, c). (i, c, t) \<leftarrow> enumerate 0 (zip (sc_columns s) (sc_types s)),
         t = CVector \<and> c \<notin> set (map fst (st_vector_indexes ts))])"

fun column_vectors :: "nat \<Rightarrow> (nat \<times> row) list \<Rightarrow> (nat \<times> f32 list) list panics" where
  "column_vectors slot [] = Some []"
| "column_vectors slot ((i, r) # rest) = do {
     v \<leftarrow> vec_get r slot;
     vs \<leftarrow> column_vectors slot rest;
     Some (case v of VVector w \<Rightarrow> (i, w) # vs | _ \<Rightarrow> vs)
   }"

fun build_indexes ::
    "'x vector_ops \<Rightarrow> (nat \<times> row) list \<Rightarrow> (nat \<times> string) list \<Rightarrow> (string \<times> 'x) list panics" where
  "build_indexes ops rows [] = Some []"
| "build_indexes ops rows ((slot, name) # rest) = do {
     vs \<leftarrow> column_vectors slot rows;
     more \<leftarrow> build_indexes ops rows rest;
     Some (if vs = [] then more else (name, vo_build ops vs) # more)
   }"

definition maybe_build_vector_indexes ::
    "'x vector_ops \<Rightarrow> 'x table_storage \<Rightarrow> ('x table_storage \<times> (db_error + unit)) panics" where
  "maybe_build_vector_indexes ops ts =
     (if st_next_row_id ts < MIN_ROWS_FOR_INDEX \<or> pending_columns ts = [] then Some (ts, Inr ())
      else case collect_rows (stored_row ts) [0..<st_next_row_id ts] of
        None \<Rightarrow> None
      | Some (Inl e) \<Rightarrow> Some (ts, Inl e)
      | Some (Inr rows) \<Rightarrow> do {
          new \<leftarrow> build_indexes ops rows (pending_columns ts);
          Some (ts\<lparr>st_vector_indexes := st_vector_indexes ts @ new\<rparr>, Inr ())
        })"

subsection \<open>Literals\<close>

definition literal_to_value :: "schema \<Rightarrow> nat \<Rightarrow> literal \<Rightarrow> (db_error, sql_value) fallible" where
  "literal_to_value s slot lit =
     try_bind (try_lift (vec_get (sc_types s) slot)) (\<lambda>expected.
       case (expected, lit) of
         (_, LNull) \<Rightarrow> try_ok VNull
       | (CInt, LInt i) \<Rightarrow> try_ok (VInt i)
       | (CText, LText t) \<Rightarrow> try_ok (VText t)
       | (CVector, LVector v) \<Rightarrow> try_ok (VVector v)
       | _ \<Rightarrow> try_bind (try_lift (vec_get (sc_columns s) slot)) (\<lambda>c. try_err (ColumnTypeMismatch c)))"

definition vec_set :: "nat \<Rightarrow> 'a \<Rightarrow> 'a list \<Rightarrow> 'a list panics" where
  "vec_set i x xs = (if i < length xs then Some (xs[i := x]) else None)"

subsection \<open>Correlated subqueries\<close>

definition column_resolves_locally :: "string \<Rightarrow> string list \<Rightarrow> bool" where
  "column_resolves_locally name own \<longleftrightarrow>
     name \<in> set own \<or> \<not> has_dot name \<and> list_ex (\<lambda>c. unqualified c = name) own"

text \<open>The parts of a name before and after its first dot.\<close>

definition split_dot :: "string \<Rightarrow> (string \<times> string) option" where
  "split_dot c = (if has_dot c
     then Some (takeWhile (\<lambda>x. x \<noteq> CHR ''.'') c, tl (dropWhile (\<lambda>x. x \<noteq> CHR ''.'') c)) else None)"

definition qualify :: "string \<Rightarrow> string \<Rightarrow> string" where
  "qualify q c = q @ ''.'' @ c"

fun from_columns :: "'q table_ref \<Rightarrow> string list \<Rightarrow> string list" where
  "from_columns (TNamed name alias) parent =
     (let qualifier = (case alias of Some a \<Rightarrow> a | None \<Rightarrow> name) in
      concat (map (\<lambda>c. case split_dot c of
          Some (base, rest) \<Rightarrow> if base = name \<or> alias = Some base then [qualify qualifier rest] else []
        | None \<Rightarrow> [qualify qualifier c]) parent))"
| "from_columns (TSubquery q alias) parent = parent"

definition join_columns :: "'q sql_join \<Rightarrow> string list \<Rightarrow> string list" where
  "join_columns j parent =
     (let name = table_ref_table_name (jn_table j); qualifier = table_ref_name (jn_table j) in
      concat (map (\<lambda>c. case split_dot c of
          Some (base, rest) \<Rightarrow> if base = name \<or> base = qualifier then [qualify qualifier rest] else []
        | None \<Rightarrow> []) parent))"

definition resolve_query_own_columns :: "select_statement \<Rightarrow> string list \<Rightarrow> string list" where
  "resolve_query_own_columns q parent =
     (let cols = from_columns (sel_table q) parent @ concat (map (\<lambda>j. join_columns j parent) (sel_joins q)) in
      if cols = [] then parent else cols)"

lemma filter_size: "sel_filter q = Some w \<Longrightarrow> size_sexpr size w < size q"
  by (cases q) simp

function (sequential) expr_references_outer :: "sql_expr \<Rightarrow> string list \<Rightarrow> bool" where
  "expr_references_outer (SCmp column op v) own = (\<not> column_resolves_locally column own)"
| "expr_references_outer (SCmpColumn l op r) own = (\<not> column_resolves_locally l own \<or> \<not> column_resolves_locally r own)"
| "expr_references_outer (SIsNull column negated) own = (\<not> column_resolves_locally column own)"
| "expr_references_outer (SLike column pattern) own = (\<not> column_resolves_locally column own)"
| "expr_references_outer (SInInt column vals) own = (\<not> column_resolves_locally column own)"
| "expr_references_outer (SBetweenInt column low high) own = (\<not> column_resolves_locally column own)"
| "expr_references_outer (SAnd l r) own = (expr_references_outer l own \<or> expr_references_outer r own)"
| "expr_references_outer (SOr l r) own = (expr_references_outer l own \<or> expr_references_outer r own)"
| "expr_references_outer (SNot e) own = expr_references_outer e own"
| "expr_references_outer (SAgg func column) own = False"
| "expr_references_outer (SExists q) own =
     (case sel_filter q of None \<Rightarrow> False | Some w \<Rightarrow> expr_references_outer w (resolve_query_own_columns q own))"
| "expr_references_outer (SInSubquery column q) own =
     (case sel_filter q of None \<Rightarrow> False | Some w \<Rightarrow> expr_references_outer w (resolve_query_own_columns q own))"
| "expr_references_outer (SScalarCmp column op q) own =
     (case sel_filter q of None \<Rightarrow> False | Some w \<Rightarrow> expr_references_outer w (resolve_query_own_columns q own))"
  by pat_completeness auto
termination
  by (relation "measure (\<lambda>(e, own). size_sexpr size e)") (auto dest: filter_size)

datatype cache_entry = Uncached | CacheExists bool | CacheIn "sql_value list" | CacheScalar sql_value

text \<open>The subquery nodes of a condition in the order in which \<open>walk_subqueries\<close> visits them.\<close>

fun walk_subqueries :: "'q sexpr \<Rightarrow> 'q sexpr list" where
  "walk_subqueries (SAnd l r) = walk_subqueries l @ walk_subqueries r"
| "walk_subqueries (SOr l r) = walk_subqueries l @ walk_subqueries r"
| "walk_subqueries (SNot e) = walk_subqueries e"
| "walk_subqueries (SExists q) = [SExists q]"
| "walk_subqueries (SInSubquery column q) = [SInSubquery column q]"
| "walk_subqueries (SScalarCmp column op q) = [SScalarCmp column op q]"
| "walk_subqueries _ = []"

type_synonym params = "f32 list list"
type_synonym ctes = "select_statement cte list"

text \<open>A query at the next depth of the stack: statement, parameters, enclosing rows, common table expressions.\<close>

type_synonym run_query = "select_statement \<Rightarrow> params \<Rightarrow> scope list \<Rightarrow> ctes \<Rightarrow> (db_error, result_set) fallible"

fun first_values :: "row list \<Rightarrow> sql_value list panics" where
  "first_values [] = Some []"
| "first_values (r # rs) = do { v \<leftarrow> vec_get r 0; vs \<leftarrow> first_values rs; Some (v # vs) }"

fun any_first :: "row list \<Rightarrow> sql_value \<Rightarrow> bool panics" where
  "any_first [] lhs = Some False"
| "any_first (r # rs) lhs = do { v \<leftarrow> vec_get r 0; if value_eq v lhs then Some True else any_first rs lhs }"

definition on_ok :: "(db_error, result_set) fallible \<Rightarrow> (result_set \<Rightarrow> cache_entry panics) \<Rightarrow> cache_entry panics" where
  "on_ok m f = (case m of None \<Rightarrow> None | Some (Inl e) \<Rightarrow> Some Uncached | Some (Inr rs) \<Rightarrow> f rs)"

fun cache_node :: "run_query \<Rightarrow> string list \<Rightarrow> params \<Rightarrow> ctes \<Rightarrow> sql_expr \<Rightarrow> cache_entry panics" where
  "cache_node run own ps ctes (SExists q) =
     (if expr_references_outer (SExists q) own then Some Uncached
      else on_ok (run q ps [] ctes) (\<lambda>rs. Some (CacheExists (rs_rows rs \<noteq> []))))"
| "cache_node run own ps ctes (SInSubquery column q) =
     (if expr_references_outer (SInSubquery [] q) own then Some Uncached
      else on_ok (run q ps [] ctes) (\<lambda>rs. map_option CacheIn (first_values (rs_rows rs))))"
| "cache_node run own ps ctes (SScalarCmp column op q) =
     (if expr_references_outer (SScalarCmp [] CEq q) own then Some Uncached
      else on_ok (run q ps [] ctes) (\<lambda>rs.
        if length (rs_rows rs) = 1 \<and> length (rs_columns rs) = 1
        then map_option CacheScalar (vec_get (hd (rs_rows rs)) 0) else Some Uncached))"
| "cache_node run own ps ctes _ = Some Uncached"

fun cache_nodes :: "run_query \<Rightarrow> string list \<Rightarrow> params \<Rightarrow> ctes \<Rightarrow> sql_expr list \<Rightarrow> cache_entry list panics" where
  "cache_nodes run own ps ctes [] = Some []"
| "cache_nodes run own ps ctes (n # ns) = do {
     c \<leftarrow> cache_node run own ps ctes n;
     cs \<leftarrow> cache_nodes run own ps ctes ns;
     Some (c # cs)
   }"

definition build_subquery_cache ::
    "run_query \<Rightarrow> sql_expr \<Rightarrow> string list \<Rightarrow> params \<Rightarrow> ctes \<Rightarrow> (db_error, cache_entry list) fallible" where
  "build_subquery_cache run e own ps ctes = try_lift (cache_nodes run own ps ctes (walk_subqueries e))"

subsection \<open>Conditions with subqueries\<close>

definition cache_get :: "cache_entry list \<Rightarrow> nat \<Rightarrow> cache_entry" where
  "cache_get cache i = (if i < length cache then cache ! i else Uncached)"

fun ordering_matches :: "cmp_op \<Rightarrow> sql_ordering \<Rightarrow> bool" where
  "ordering_matches CEq r \<longleftrightarrow> r = Equal"
| "ordering_matches CNe r \<longleftrightarrow> r \<noteq> Equal"
| "ordering_matches CLt r \<longleftrightarrow> r = Less"
| "ordering_matches CLe r \<longleftrightarrow> r \<noteq> Greater"
| "ordering_matches CGt r \<longleftrightarrow> r = Greater"
| "ordering_matches CGe r \<longleftrightarrow> r \<noteq> Less"

definition scalar_compare :: "cmp_op \<Rightarrow> sql_value \<Rightarrow> sql_value \<Rightarrow> bool" where
  "scalar_compare op lhs rhs \<longleftrightarrow> lhs \<noteq> VNull \<and> rhs \<noteq> VNull \<and> ordering_matches op (value_cmp lhs rhs)"

text \<open>The stack of enclosing rows has room for eight.\<close>

definition nested_query ::
    "run_query \<Rightarrow> select_statement \<Rightarrow> params \<Rightarrow> scope \<Rightarrow> scope list \<Rightarrow> ctes \<Rightarrow> (db_error, result_set) fallible" where
  "nested_query run q ps own outer ctes = (if 1 + length outer \<le> 8 then run q ps (own # outer) ctes else None)"

definition db_column_value :: "string \<Rightarrow> string list \<Rightarrow> row \<Rightarrow> scope list \<Rightarrow> (db_error, sql_value) fallible" where
  "db_column_value name columns row outer =
     try_bind (try_lift (find_value name columns row outer)) (try_some (DbUnknownColumn name))"

fun eval_where ::
    "run_query \<Rightarrow> string list \<Rightarrow> row \<Rightarrow> params \<Rightarrow> scope list \<Rightarrow> ctes \<Rightarrow> string list \<Rightarrow> cache_entry list \<Rightarrow>
       sql_expr \<Rightarrow> nat \<Rightarrow> (db_error, bool \<times> nat) fallible" where
  "eval_where run cols row ps outer ctes scols cache (SAnd l r) n =
     try_bind (eval_where run cols row ps outer ctes scols cache l n) (\<lambda>(a, n1).
       if a then eval_where run cols row ps outer ctes scols cache r n1 else try_ok (False, n1))"
| "eval_where run cols row ps outer ctes scols cache (SOr l r) n =
     try_bind (eval_where run cols row ps outer ctes scols cache l n) (\<lambda>(a, n1).
       if a then try_ok (True, n1) else eval_where run cols row ps outer ctes scols cache r n1)"
| "eval_where run cols row ps outer ctes scols cache (SNot e) n =
     try_bind (eval_where run cols row ps outer ctes scols cache e n) (\<lambda>(a, n1). try_ok (\<not> a, n1))"
| "eval_where run cols row ps outer ctes scols cache (SExists q) n =
     (case cache_get cache n of
        CacheExists b \<Rightarrow> try_ok (b, n + 1)
      | _ \<Rightarrow> try_bind (nested_query run q ps (scols, row) outer ctes) (\<lambda>rs. try_ok (rs_rows rs \<noteq> [], n + 1)))"
| "eval_where run cols row ps outer ctes scols cache (SInSubquery column q) n =
     try_bind (db_column_value column cols row outer) (\<lambda>lhs.
       case cache_get cache n of
         CacheIn vals \<Rightarrow> try_ok (list_ex (\<lambda>v. value_eq v lhs) vals, n + 1)
       | _ \<Rightarrow> try_bind (nested_query run q ps (scols, row) outer ctes) (\<lambda>rs.
           if length (rs_columns rs) \<noteq> 1
           then try_err (SubqueryCardinality (''IN subquery must return exactly one column, got '' @ nat_to_string (length (rs_columns rs))))
           else try_bind (try_lift (any_first (rs_rows rs) lhs)) (\<lambda>b. try_ok (b, n + 1))))"
| "eval_where run cols row ps outer ctes scols cache (SScalarCmp column op q) n =
     try_bind (db_column_value column cols row outer) (\<lambda>lhs.
       case cache_get cache n of
         CacheScalar rhs \<Rightarrow> try_ok (scalar_compare op lhs rhs, n + 1)
       | _ \<Rightarrow> try_bind (nested_query run q ps (scols, row) outer ctes) (\<lambda>rs.
           if length (rs_columns rs) \<noteq> 1 \<or> length (rs_rows rs) \<noteq> 1
           then try_err (SubqueryCardinality (''scalar subquery must return exactly one row and one column, got '' @
             nat_to_string (length (rs_rows rs)) @ '' row(s) and '' @ nat_to_string (length (rs_columns rs)) @ '' column(s)''))
           else try_bind (try_lift (vec_get (hd (rs_rows rs)) 0)) (\<lambda>rhs. try_ok (scalar_compare op lhs rhs, n + 1))))"
| "eval_where run cols row ps outer ctes scols cache e n =
     try_bind (try_map_err db_error_from (eval_expr_scoped e cols row outer)) (\<lambda>b. try_ok (b, n))"

subsection \<open>Scans\<close>

text \<open>
  The build and the process: the operations on embeddings, whether the feature \<open>gpu\<close> is enabled, how many queries the
  stack can nest.
\<close>

record 'x settings =
  se_ops :: "'x vector_ops"
  se_gpu :: bool
  se_depth :: nat

text \<open>The row a statement sees under a number: the buffered write of the transaction, else the row of the tree.\<close>

definition live_row :: "'x table_storage \<Rightarrow> mvcc_txn option \<Rightarrow> nat \<Rightarrow> (db_error, row option) fallible" where
  "live_row ts txn i =
     (case Option.bind txn (\<lambda>t. get_write t i) of
        Some buffered \<Rightarrow>
          try_bind (try_lift (vec_get buffered 0)) (\<lambda>tag.
            if tag = MVCC_TOMBSTONE then try_ok None
            else try_bind (Some (decode_row_validated i (tl buffered) (length (sc_columns (st_schema ts))))) (\<lambda>r. try_ok (Some r)))
      | None \<Rightarrow> stored_row ts i)"

definition db_txn :: "'x database \<Rightarrow> string \<Rightarrow> mvcc_txn option" where
  "db_txn db name = map_of (db_active_txns db) name"

definition row_matches ::
    "run_query \<Rightarrow> string list \<Rightarrow> cache_entry list \<Rightarrow> sql_expr option \<Rightarrow> row \<Rightarrow> (db_error, bool) fallible" where
  "row_matches run cols cache flt row = (case flt of
     None \<Rightarrow> try_ok True
   | Some e \<Rightarrow> try_bind (eval_where run cols row [] [] [] cols cache e 0) (\<lambda>(keep, n). try_ok keep))"

definition matching_row_ids ::
    "run_query \<Rightarrow> 'x database \<Rightarrow> string \<Rightarrow> sql_expr option \<Rightarrow> (db_error, nat list) fallible" where
  "matching_row_ids run db name flt =
     try_bind (try_some (UnknownTable name) (db_table db name)) (\<lambda>ts.
       let cols = sc_columns (st_schema ts) in
       try_bind (case flt of None \<Rightarrow> try_ok [] | Some e \<Rightarrow> build_subquery_cache run e cols [] []) (\<lambda>cache.
         try_filter (\<lambda>i. try_bind (live_row ts (db_txn db name) i) (\<lambda>r.
             case r of None \<Rightarrow> try_ok False | Some row \<Rightarrow> row_matches run cols cache flt row))
           [0..<st_next_row_id ts]))"

definition scan_table :: "'x database \<Rightarrow> string \<Rightarrow> (db_error, string list \<times> row list) fallible" where
  "scan_table db name =
     try_bind (try_some (UnknownTable name) (db_table db name)) (\<lambda>ts.
       try_bind (collect_rows (live_row ts (db_txn db name)) [0..<st_next_row_id ts]) (\<lambda>rows.
         try_ok (sc_columns (st_schema ts), map snd rows)))"

fun resolve_table_ref_with_ctes ::
    "run_query \<Rightarrow> 'x database \<Rightarrow> select_statement table_ref \<Rightarrow> ctes \<Rightarrow> (db_error, string list \<times> row list) fallible" where
  "resolve_table_ref_with_ctes run db (TNamed name alias) ctes =
     (case find (\<lambda>c. cte_name c = name) ctes of
        Some c \<Rightarrow> try_bind (run (cte_query c) [] [] ctes) (\<lambda>rs. try_ok (rs_columns rs, rs_rows rs))
      | None \<Rightarrow>
          (case map_of (db_views db) name of
             Some q \<Rightarrow> try_bind (run q [] [] []) (\<lambda>rs. try_ok (rs_columns rs, rs_rows rs))
           | None \<Rightarrow> scan_table db name))"
| "resolve_table_ref_with_ctes run db (TSubquery q alias) ctes =
     try_bind (run q [] [] ctes) (\<lambda>rs. try_ok (map (qualify alias) (rs_columns rs), rs_rows rs))"

definition resolve_table_ref ::
    "run_query \<Rightarrow> 'x database \<Rightarrow> select_statement table_ref \<Rightarrow> (db_error, string list \<times> row list) fallible" where
  "resolve_table_ref run db r = resolve_table_ref_with_ctes run db r []"

subsection \<open>Queries\<close>

definition names_table :: "'q table_ref \<Rightarrow> string \<Rightarrow> bool" where
  "names_table r name = (case r of TNamed n alias \<Rightarrow> n = name | TSubquery q alias \<Rightarrow> False)"

definition select_references_table :: "select_statement \<Rightarrow> string \<Rightarrow> bool" where
  "select_references_table stmt name \<longleftrightarrow>
     names_table (sel_table stmt) name \<or> list_ex (\<lambda>j. names_table (jn_table j) name) (sel_joins stmt)"

definition merge_ctes :: "ctes \<Rightarrow> ctes \<Rightarrow> ctes" where
  "merge_ctes own outer = fold (\<lambda>cte acc. filter (\<lambda>c. cte_name c \<noteq> cte_name cte) acc @ [cte]) own outer"

fun check_ctes :: "'x database \<Rightarrow> ctes \<Rightarrow> (db_error, unit) fallible" where
  "check_ctes db [] = try_ok ()"
| "check_ctes db (c # cs) =
     (if map_of (db_views db) (cte_name c) \<noteq> None then try_err (ViewAlreadyExists (cte_name c))
      else if db_table db (cte_name c) \<noteq> None then try_err (ViewAlreadyExists (cte_name c))
      else if select_references_table (cte_query c) (cte_name c) then try_err (RecursiveView (cte_name c))
      else check_ctes db cs)"

fun join_row :: "nat \<Rightarrow> nat \<Rightarrow> row \<Rightarrow> row list \<Rightarrow> row list panics" where
  "join_row li ri l [] = Some []"
| "join_row li ri l (j # js) = do {
     a \<leftarrow> vec_get l li;
     b \<leftarrow> vec_get j ri;
     more \<leftarrow> join_row li ri l js;
     Some (if value_eq a b then (l @ j) # more else more)
   }"

fun join_rows :: "nat \<Rightarrow> nat \<Rightarrow> row list \<Rightarrow> row list \<Rightarrow> row list panics" where
  "join_rows li ri [] js = Some []"
| "join_rows li ri (l # ls) js = do {
     xs \<leftarrow> join_row li ri l js;
     ys \<leftarrow> join_rows li ri ls js;
     Some (xs @ ys)
   }"

definition run_join ::
    "run_query \<Rightarrow> 'x database \<Rightarrow> ctes \<Rightarrow> select_statement sql_join \<Rightarrow> string list \<times> row list \<Rightarrow>
       (db_error, string list \<times> row list) fallible" where
  "run_join run db ctes j left =
     try_bind (resolve_table_ref_with_ctes run db (jn_table j) ctes) (\<lambda>(jcols, jrows).
     try_bind (try_some (DbUnknownColumn (jn_left_col j)) (position (\<lambda>c. c = jn_left_col j) (fst left))) (\<lambda>li.
     try_bind (try_some (DbUnknownColumn (jn_right_col j)) (position (\<lambda>c. c = jn_right_col j) jcols)) (\<lambda>ri.
     try_bind (try_lift (join_rows li ri (snd left) jrows)) (\<lambda>rows.
       try_ok (fst left @ map (qualify (table_ref_name (jn_table j))) jcols, rows)))))"

definition scope_names :: "string \<Rightarrow> string list \<Rightarrow> string list" where
  "scope_names qualifier cols = map (\<lambda>c. if has_dot c then c else qualify qualifier c) cols"

definition filter_table ::
    "run_query \<Rightarrow> params \<Rightarrow> scope list \<Rightarrow> ctes \<Rightarrow> string list \<Rightarrow> sql_expr option \<Rightarrow> table \<Rightarrow> (db_error, table) fallible" where
  "filter_table run ps outer ctes scols cond t = (case cond of
     None \<Rightarrow> try_ok t
   | Some e \<Rightarrow>
       try_bind (build_subquery_cache run e (tb_columns t) ps ctes) (\<lambda>cache.
       try_bind (try_filter (\<lambda>row. try_bind (eval_where run (tb_columns t) row ps outer ctes scols cache e 0)
           (\<lambda>(keep, n). try_ok keep)) (tb_rows t)) (\<lambda>rows.
         try_ok (t\<lparr>tb_rows := rows\<rparr>))))"

definition aggregate_step :: "select_statement \<Rightarrow> table \<Rightarrow> (db_error, table) fallible" where
  "aggregate_step stmt t =
     (if sel_group_by stmt \<noteq> [] \<or> sel_aggregates stmt \<noteq> []
      then try_bind (try_map_err db_error_from
             (aggregate_table (tb_columns t) (tb_rows t) (sel_group_by stmt) (sel_aggregates stmt))) (\<lambda>rs.
        try_ok \<lparr>tb_columns = rs_columns rs, tb_rows = rs_rows rs\<rparr>)
      else try_ok t)"

text \<open>What is left for the planner once rows are filtered and grouped.\<close>

definition plan_stmt :: "select_statement \<Rightarrow> select_statement" where
  "plan_stmt s = SelectStatement (sel_columns s) (sel_star s) (sel_table s) None (sel_joins s) [] []
     (sel_order_by s) (sel_order_by_cosine s) (sel_limit s) None (sel_with_ctes s)"

fun collect_vectors ::
    "('i \<Rightarrow> (db_error, row option) fallible) \<Rightarrow> (row \<Rightarrow> (db_error, bool) fallible) \<Rightarrow> nat \<Rightarrow> 'i list \<Rightarrow>
       (db_error, (f32 list \<times> row) list) fallible" where
  "collect_vectors get keep slot [] = try_ok []"
| "collect_vectors get keep slot (i # is) =
     try_bind (get i) (\<lambda>r. case r of
       None \<Rightarrow> collect_vectors get keep slot is
     | Some row \<Rightarrow> try_bind (keep row) (\<lambda>b.
         if \<not> b then collect_vectors get keep slot is
         else try_bind (try_lift (vec_get row slot)) (\<lambda>v.
           try_bind (collect_vectors get keep slot is) (\<lambda>more.
             try_ok (case v of VVector w \<Rightarrow> (w, row) # more | _ \<Rightarrow> more)))))"

definition topk_filter :: "run_query \<Rightarrow> select_statement \<Rightarrow> params \<Rightarrow> string list \<Rightarrow> row \<Rightarrow> (db_error, bool) fallible" where
  "topk_filter run stmt ps cols row = (case sel_filter stmt of
     None \<Rightarrow> try_ok True
   | Some e \<Rightarrow> try_bind (eval_where run cols row ps [] [] cols [] e 0) (\<lambda>(keep, n). try_ok keep))"

definition topk_result ::
    "'x vector_ops \<Rightarrow> select_statement \<Rightarrow> order_by_cosine \<Rightarrow> f32 list \<Rightarrow> string list \<Rightarrow> (f32 list \<times> row) list \<Rightarrow>
       (db_error, result_set) fallible" where
  "topk_result ops stmt ob query cols found =
     try_bind (try_lift (vo_topk ops (map fst found) query (oc_k ob))) (\<lambda>top.
     try_bind (try_map (\<lambda>i. try_lift (map_option snd (vec_get found i))) top) (\<lambda>rows.
       try_ok \<lparr>rs_columns = (if sel_star stmt \<or> sel_columns stmt = [] then cols else sel_columns stmt), rs_rows = rows\<rparr>))"

definition run_vector_topk ::
    "'x settings \<Rightarrow> run_query \<Rightarrow> 'x database \<Rightarrow> select_statement \<Rightarrow> order_by_cosine \<Rightarrow> params \<Rightarrow> (db_error, result_set) fallible" where
  "run_vector_topk se run db stmt ob ps =
     try_bind (try_lift (checked_sub (oc_param ob) 1)) (\<lambda>p.
     try_bind (try_some MissingParam (if p < length ps then Some (ps ! p) else None)) (\<lambda>query.
     case sel_table stmt of
       TSubquery q alias \<Rightarrow>
         try_bind (resolve_table_ref run db (sel_table stmt)) (\<lambda>(cols, rows).
         try_bind (try_some (DbUnknownColumn (oc_column ob)) (position (\<lambda>c. c = oc_column ob) cols)) (\<lambda>slot.
         try_bind (collect_vectors (\<lambda>r. try_ok (Some r)) (topk_filter run stmt ps cols) slot rows) (\<lambda>found.
           topk_result (se_ops se) stmt ob query cols found)))
     | TNamed name alias \<Rightarrow>
         try_bind (try_some (UnknownTable name) (db_table db name)) (\<lambda>ts.
         let cols = sc_columns (st_schema ts) in
         try_bind (try_some (DbUnknownColumn (oc_column ob)) (index_of (st_schema ts) (oc_column ob))) (\<lambda>slot.
         try_bind (try_lift (vec_get (sc_types (st_schema ts)) slot)) (\<lambda>t.
         if t \<noteq> CVector then try_err (NotAVectorColumn (oc_column ob))
         else try_bind (try_lift (case map_of (st_vector_indexes ts) (oc_column ob) of
             Some idx \<Rightarrow> vo_search (se_ops se) idx query (max (saturating_mul 64 (oc_k ob) 4) (oc_k ob)) DEFAULT_NPROBE
           | None \<Rightarrow> Some [0..<st_next_row_id ts])) (\<lambda>is.
         try_bind (collect_vectors (stored_row ts) (topk_filter run stmt ps cols) slot is) (\<lambda>found.
           topk_result (se_ops se) stmt ob query cols found)))))))"

definition run_select_body :: "'x settings \<Rightarrow> 'x database \<Rightarrow> run_query \<Rightarrow> run_query" where
  "run_select_body se db run stmt ps outer outer_ctes =
     (case sel_order_by_cosine stmt of
        Some ob \<Rightarrow> run_vector_topk se run db stmt ob ps
      | None \<Rightarrow>
          let ctes = merge_ctes (sel_with_ctes stmt) outer_ctes in
          try_bind (check_ctes db (sel_with_ctes stmt)) (\<lambda>_.
          try_bind (resolve_table_ref_with_ctes run db (sel_table stmt) ctes) (\<lambda>from.
          try_bind (try_fold (run_join run db ctes) (sel_joins stmt) from) (\<lambda>(cols, rows).
          let joined = fold table_insert rows (table_new cols) in
          try_bind (filter_table run ps outer ctes (scope_names (table_ref_name (sel_table stmt)) cols) (sel_filter stmt) joined) (\<lambda>filtered.
          try_bind (aggregate_step stmt filtered) (\<lambda>grouped.
          try_bind (filter_table run ps outer ctes (tb_columns grouped) (sel_having stmt) grouped) (\<lambda>kept.
          try_bind (try_lift (plan_select (se_gpu se) (plan_stmt stmt) \<lparr>ts_row_count = length (tb_rows kept)\<rparr>)) (\<lambda>plan.
            try_map_err db_error_from (execute_plan plan kept)))))))))"

primrec run_select_scoped :: "'x settings \<Rightarrow> 'x database \<Rightarrow> nat \<Rightarrow> run_query" where
  "run_select_scoped se db 0 = (\<lambda>stmt ps outer ctes. None)"
| "run_select_scoped se db (Suc n) = run_select_body se db (run_select_scoped se db n)"

definition run_select :: "'x settings \<Rightarrow> 'x database \<Rightarrow> select_statement \<Rightarrow> params \<Rightarrow> (db_error, result_set) fallible" where
  "run_select se db stmt ps = run_select_scoped se db (se_depth se) stmt ps [] []"

subsection \<open>Statements\<close>

text \<open>A step that may fail leaves the database as it was given; the next step starts from the one a statement returns.\<close>

definition db_try :: "'x database \<Rightarrow> (db_error, 'a) fallible \<Rightarrow> ('a \<Rightarrow> ('x, 'b) db_result) \<Rightarrow> ('x, 'b) db_result" where
  "db_try db m f = (case m of None \<Rightarrow> None | Some (Inl e) \<Rightarrow> Some (db, Inl e) | Some (Inr x) \<Rightarrow> f x)"

definition db_then :: "('x, 'a) db_result \<Rightarrow> ('x database \<Rightarrow> 'a \<Rightarrow> ('x, 'b) db_result) \<Rightarrow> ('x, 'b) db_result" where
  "db_then m f = (case m of None \<Rightarrow> None | Some (db, Inl e) \<Rightarrow> Some (db, Inl e) | Some (db, Inr x) \<Rightarrow> f db x)"

definition run_create_table :: "create_table_statement \<Rightarrow> 'x database \<Rightarrow> ('x, unit) db_result" where
  "run_create_table ct db =
     (if db_table db (ct_table ct) \<noteq> None then Some (db, Inl (TableAlreadyExists (ct_table ct)))
      else let s = \<lparr>sc_columns = ''id'' # map cd_name (ct_columns ct), sc_types = CInt # map cd_ctype (ct_columns ct)\<rparr> in
        Some (db\<lparr>db_tables := db_tables db @ [(ct_table ct, new_storage s)]\<rparr>, Inr ()))"

definition run_create_view :: "create_view_statement \<Rightarrow> 'x database \<Rightarrow> ('x, unit) db_result" where
  "run_create_view cv db =
     (if db_table db (cv_name cv) \<noteq> None \<or> map_of (db_views db) (cv_name cv) \<noteq> None
      then Some (db, Inl (ViewAlreadyExists (cv_name cv)))
      else if select_references_table (cv_query cv) (cv_name cv) then Some (db, Inl (RecursiveView (cv_name cv)))
      else Some (db\<lparr>db_views := db_views db @ [(cv_name cv, cv_query cv)]\<rparr>, Inr ()))"

definition run_drop_view :: "string \<Rightarrow> 'x database \<Rightarrow> ('x, unit) db_result" where
  "run_drop_view name db = (case position (\<lambda>v. fst v = name) (db_views db) of
     None \<Rightarrow> Some (db, Inl (UnknownView name))
   | Some pos \<Rightarrow> do {
       (gone, views) \<leftarrow> vec_remove pos (db_views db);
       Some (db\<lparr>db_views := views\<rparr>, Inr ())
     })"

text \<open>Every stored row re-encoded with its values changed, then written back.\<close>

fun reencode_rows ::
    "(row \<Rightarrow> row panics) \<Rightarrow> blink \<Rightarrow> nat list \<Rightarrow> (db_error, (nat \<times> bytes) list) fallible" where
  "reencode_rows f tree [] = try_ok []"
| "reencode_rows f tree (i # is) =
     try_bind (try_lift (blink_get tree i)) (\<lambda>b. case b of
       None \<Rightarrow> reencode_rows f tree is
     | Some bs \<Rightarrow>
         try_bind (Some (try_decode_row bs)) (\<lambda>vals.
         try_bind (try_lift (f vals)) (\<lambda>new.
         try_bind (reencode_rows f tree is) (\<lambda>more. try_ok ((i, encode_row new) # more)))))"

fun insert_all :: "(nat \<times> bytes) list \<Rightarrow> blink \<Rightarrow> blink panics" where
  "insert_all [] tree = Some tree"
| "insert_all ((i, bs) # rest) tree = do { t \<leftarrow> blink_insert tree i bs; insert_all rest t }"

definition rewrite_rows :: "(row \<Rightarrow> row panics) \<Rightarrow> 'x table_storage \<Rightarrow> (db_error, 'x table_storage) fallible" where
  "rewrite_rows f ts =
     try_bind (reencode_rows f (st_tree ts) [0..<st_next_row_id ts]) (\<lambda>rows.
     try_bind (try_lift (insert_all rows (st_tree ts))) (\<lambda>tree. try_ok (ts\<lparr>st_tree := tree\<rparr>)))"

definition add_column :: "column_def \<Rightarrow> 'x table_storage \<Rightarrow> (db_error, 'x table_storage) fallible" where
  "add_column col ts =
     (let s = st_schema ts in
      if cd_name col \<in> set (sc_columns s) then try_err (Unsupported (''column '' @ quoted (cd_name col) @ '' already exists''))
      else try_bind (rewrite_rows (\<lambda>vals. Some (vals @ [VNull])) ts) (\<lambda>ts'.
        try_ok (ts'\<lparr>st_schema := \<lparr>sc_columns = sc_columns s @ [cd_name col], sc_types = sc_types s @ [cd_ctype col]\<rparr>\<rparr>)))"

definition drop_column :: "string \<Rightarrow> 'x table_storage \<Rightarrow> (db_error, 'x table_storage) fallible" where
  "drop_column name ts =
     (let s = st_schema ts in
      try_bind (try_some (DbUnknownColumn name) (position (\<lambda>c. c = name) (sc_columns s))) (\<lambda>idx.
      if idx = 0 then try_err (Unsupported ''cannot drop the implicit id column'')
      else try_bind (rewrite_rows (\<lambda>vals. map_option snd (vec_remove idx vals)) ts) (\<lambda>ts'.
        try_bind (try_lift (vec_remove idx (sc_columns s))) (\<lambda>(c, columns).
        try_bind (try_lift (vec_remove idx (sc_types s))) (\<lambda>(t, types).
          try_ok (ts'\<lparr>st_schema := \<lparr>sc_columns = columns, sc_types = types\<rparr>\<rparr>))))))"

definition rename_column :: "string \<Rightarrow> string \<Rightarrow> 'x table_storage \<Rightarrow> (db_error, 'x table_storage) fallible" where
  "rename_column old_name new_name ts =
     (let s = st_schema ts in
      try_bind (try_some (DbUnknownColumn old_name) (position (\<lambda>c. c = old_name) (sc_columns s))) (\<lambda>idx.
      if idx = 0 then try_err (Unsupported ''cannot rename the implicit id column'')
      else if new_name \<in> set (sc_columns s) then try_err (Unsupported (''column '' @ quoted new_name @ '' already exists''))
      else try_ok (ts\<lparr>st_schema := s\<lparr>sc_columns := (sc_columns s)[idx := new_name]\<rparr>\<rparr>)))"

definition run_alter_table :: "alter_table_statement \<Rightarrow> 'x database \<Rightarrow> ('x, unit) db_result" where
  "run_alter_table al db =
     db_try db (try_some (UnknownTable (al_table al)) (db_table db (al_table al))) (\<lambda>ts.
     db_try db (case al_op al of
         AddColumn col \<Rightarrow> add_column col ts
       | DropColumn name \<Rightarrow> drop_column name ts
       | RenameColumn old_name new_name \<Rightarrow> rename_column old_name new_name ts) (\<lambda>ts'.
       Some (set_table (al_table al) ts' db, Inr ())))"

definition insert_columns :: "schema \<Rightarrow> insert_statement \<Rightarrow> (db_error, nat list) fallible" where
  "insert_columns s stmt =
     (if is_columns stmt = [] then try_ok [0..<length (sc_columns s)]
      else try_map (\<lambda>c. try_some (DbUnknownColumn c) (index_of s c)) (is_columns stmt))"

definition insert_values :: "schema \<Rightarrow> insert_statement \<Rightarrow> (db_error, nat list \<times> row) fallible" where
  "insert_values s stmt =
     try_bind (insert_columns s stmt) (\<lambda>cols.
     if length (is_values stmt) \<noteq> length cols then try_err ArityMismatch
     else try_bind (try_fold (\<lambda>(slot, lit) row. try_bind (literal_to_value s slot lit) (\<lambda>v. try_lift (vec_set slot v row)))
         (zip cols (is_values stmt)) (replicate (length (sc_columns s)) (VInt 0))) (\<lambda>row. try_ok (cols, row)))"

text \<open>Where a statement opens the transaction of a table.\<close>

definition open_txn :: "string \<Rightarrow> 'x database \<Rightarrow> 'x database" where
  "open_txn name db = (if db_in_transaction db then ensure_txn name db else db)"

text \<open>A row is written to the transaction of its table, or to its tree and indexes.\<close>

definition buffer_write :: "string \<Rightarrow> nat \<Rightarrow> bytes \<Rightarrow> 'x database \<Rightarrow> 'x database panics" where
  "buffer_write name i bs db = do { txn \<leftarrow> db_txn db name; Some (set_txn name (mvcc_write txn i bs) db) }"

definition store_row :: "'x vector_ops \<Rightarrow> nat \<Rightarrow> row \<Rightarrow> 'x table_storage \<Rightarrow> 'x table_storage panics" where
  "store_row ops i row ts = do {
     tree \<leftarrow> blink_insert (st_tree ts) i (encode_row row);
     maintain_vector_indexes_for_row ops i row (ts\<lparr>st_tree := tree\<rparr>)
   }"

definition erase_row :: "'x vector_ops \<Rightarrow> nat \<Rightarrow> 'x table_storage \<Rightarrow> 'x table_storage panics" where
  "erase_row ops i ts = do {
     (tree, old) \<leftarrow> blink_delete (st_tree ts) i;
     Some (maintain_vector_indexes_on_delete ops i (ts\<lparr>st_tree := tree\<rparr>))
   }"

definition run_insert_stmt :: "'x vector_ops \<Rightarrow> insert_statement \<Rightarrow> 'x database \<Rightarrow> ('x, unit) db_result" where
  "run_insert_stmt ops stmt db0 =
     (let name = is_table stmt; db = open_txn name db0 in
      db_try db (try_some (UnknownTable name) (db_table db name)) (\<lambda>ts.
      db_try db (insert_values (st_schema ts) stmt) (\<lambda>(cols, vals). do {
        let i = st_next_row_id ts;
        next \<leftarrow> checked_add 64 i 1;
        row \<leftarrow> (if 0 \<in> set cols then Some vals else vec_set 0 (VInt (wrap_i64 (int i))) vals);
        let ts1 = ts\<lparr>st_next_row_id := next\<rparr>;
        if db_in_transaction db
        then map_option (\<lambda>db'. (db', Inr ())) (buffer_write name i (mvcc_wrap_row row) (set_table name ts1 db))
        else do {
          ts2 \<leftarrow> store_row ops i row ts1;
          (ts3, r) \<leftarrow> maybe_build_vector_indexes ops ts2;
          Some (set_table name ts3 db, r)
        }
      })))"

definition assign_values :: "schema \<Rightarrow> sql_assignment list \<Rightarrow> row \<Rightarrow> (db_error, row) fallible" where
  "assign_values s assignments row0 =
     try_fold (\<lambda>a row. try_bind (try_some (DbUnknownColumn (sa_column a)) (index_of s (sa_column a))) (\<lambda>slot.
         if slot = 0 then try_ok row
         else try_bind (literal_to_value s slot (sa_value a)) (\<lambda>v. try_lift (vec_set slot v row)))) assignments row0"

text \<open>The row to update; \<open>None\<close> inside for one the transaction has deleted.\<close>

definition current_row :: "'x table_storage \<Rightarrow> mvcc_txn option \<Rightarrow> nat \<Rightarrow> (db_error, row option) fallible" where
  "current_row ts txn i =
     (case Option.bind txn (\<lambda>t. get_write t i) of
        Some buffered \<Rightarrow> live_row ts txn i
      | None \<Rightarrow> try_bind (stored_row ts i) (\<lambda>r. case r of None \<Rightarrow> try_err (RowNotFound i) | Some row \<Rightarrow> try_ok (Some row)))"

definition update_row :: "'x vector_ops \<Rightarrow> update_statement \<Rightarrow> nat \<Rightarrow> 'x database \<Rightarrow> ('x, unit) db_result" where
  "update_row ops stmt i db =
     (let name = us_table stmt in
      db_try db (try_some (UnknownTable name) (db_table db name)) (\<lambda>ts.
      db_try db (current_row ts (db_txn db name) i) (\<lambda>cur. case cur of
        None \<Rightarrow> Some (db, Inr ())
      | Some row0 \<Rightarrow>
          db_try db (assign_values (st_schema ts) (us_assignments stmt) row0) (\<lambda>row.
            if db_in_transaction db
            then map_option (\<lambda>db'. (db', Inr ())) (buffer_write name i (mvcc_wrap_row row) db)
            else map_option (\<lambda>ts'. (set_table name ts' db, Inr ())) (store_row ops i row ts)))))"

fun for_rows :: "(nat \<Rightarrow> 'x database \<Rightarrow> ('x, unit) db_result) \<Rightarrow> nat list \<Rightarrow> 'x database \<Rightarrow> ('x, unit) db_result" where
  "for_rows f [] db = Some (db, Inr ())"
| "for_rows f (i # is) db = db_then (f i db) (\<lambda>db' _. for_rows f is db')"

definition run_update :: "'x settings \<Rightarrow> update_statement \<Rightarrow> 'x database \<Rightarrow> ('x, unit) db_result" where
  "run_update se stmt db =
     db_try db (matching_row_ids (run_select_scoped se db (se_depth se)) db (us_table stmt) (us_filter stmt)) (\<lambda>matching.
       for_rows (update_row (se_ops se) stmt) matching (open_txn (us_table stmt) db))"

definition delete_row :: "'x vector_ops \<Rightarrow> string \<Rightarrow> nat \<Rightarrow> 'x database \<Rightarrow> ('x, unit) db_result" where
  "delete_row ops name i db =
     (if db_in_transaction db
      then map_option (\<lambda>db'. (db', Inr ())) (buffer_write name i mvcc_wrap_tombstone db)
      else do {
        ts \<leftarrow> db_table db name;
        ts' \<leftarrow> erase_row ops i ts;
        Some (set_table name ts' db, Inr ())
      })"

definition run_delete :: "'x settings \<Rightarrow> delete_statement \<Rightarrow> 'x database \<Rightarrow> ('x, unit) db_result" where
  "run_delete se stmt db0 =
     db_try db0 (matching_row_ids (run_select_scoped se db0 (se_depth se)) db0 (ds_table stmt) (ds_filter stmt)) (\<lambda>matching.
       let db = open_txn (ds_table stmt) db0 in
       db_try db (try_some (UnknownTable (ds_table stmt)) (db_table db (ds_table stmt))) (\<lambda>ts.
         for_rows (delete_row (se_ops se) (ds_table stmt)) matching db))"

subsection \<open>Transactions\<close>

fun commit_writes ::
    "'x vector_ops \<Rightarrow> (nat \<times> bytes) list \<Rightarrow> 'x table_storage \<Rightarrow> ('x table_storage \<times> (db_error + unit)) panics" where
  "commit_writes ops [] ts = maybe_build_vector_indexes ops ts"
| "commit_writes ops ((i, bs) # rest) ts = do {
     tag \<leftarrow> vec_get bs 0;
     if tag = MVCC_TOMBSTONE then do { ts' \<leftarrow> erase_row ops i ts; commit_writes ops rest ts' }
     else do {
       tree \<leftarrow> blink_insert (st_tree ts) i (tl bs);
       let ts1 = ts\<lparr>st_tree := tree\<rparr>;
       case decode_row_validated i (tl bs) (length (sc_columns (st_schema ts))) of
         Inl e \<Rightarrow> Some (ts1, Inl e)
       | Inr row \<Rightarrow> do { ts2 \<leftarrow> maintain_vector_indexes_for_row ops i row ts1; commit_writes ops rest ts2 }
     }
   }"

definition commit_table :: "'x vector_ops \<Rightarrow> string \<times> mvcc_txn \<Rightarrow> 'x database \<Rightarrow> ('x, unit) db_result" where
  "commit_table ops entry db = (case entry of (name, txn) \<Rightarrow> do {
     ts \<leftarrow> db_table db name;
     (store, r) \<leftarrow> mvcc_commit (st_mvcc ts) txn;
     case r of
       Inl CommitConflict \<Rightarrow> Some (db, Inl (TransactionError (''commit conflict on table '' @ quoted name)))
     | Inr t \<Rightarrow> do {
         (ts', res) \<leftarrow> commit_writes ops (writes_iter txn) (ts\<lparr>st_mvcc := store\<rparr>);
         Some (set_table name ts' db, res)
       }
   })"

fun commit_tables :: "'x vector_ops \<Rightarrow> (string \<times> mvcc_txn) list \<Rightarrow> 'x database \<Rightarrow> ('x, unit) db_result" where
  "commit_tables ops [] db = Some (db, Inr ())"
| "commit_tables ops (entry # rest) db = db_then (commit_table ops entry db) (\<lambda>db' _. commit_tables ops rest db')"

definition run_begin :: "'x database \<Rightarrow> ('x, unit) db_result" where
  "run_begin db =
     (if db_in_transaction db then Some (db, Inl (TransactionError ''transaction already in progress''))
      else Some (db\<lparr>db_in_transaction := True, db_active_txns := []\<rparr>, Inr ()))"

definition run_commit :: "'x vector_ops \<Rightarrow> 'x database \<Rightarrow> ('x, unit) db_result" where
  "run_commit ops db =
     (if \<not> db_in_transaction db then Some (db, Inl (TransactionError ''no active transaction''))
      else commit_tables ops (db_active_txns db) (db\<lparr>db_in_transaction := False, db_active_txns := []\<rparr>))"

definition run_rollback :: "'x database \<Rightarrow> ('x, unit) db_result" where
  "run_rollback db =
     (if \<not> db_in_transaction db then Some (db, Inl (TransactionError ''no active transaction''))
      else Some (db\<lparr>db_in_transaction := False, db_active_txns := []\<rparr>, Inr ()))"

definition empty_result_set :: result_set where
  "empty_result_set = \<lparr>rs_columns = [], rs_rows = []\<rparr>"

definition no_rows :: "('x, unit) db_result \<Rightarrow> ('x, result_set) db_result" where
  "no_rows m = db_then m (\<lambda>db _. Some (db, Inr empty_result_set))"

fun db_execute :: "'x settings \<Rightarrow> statement \<Rightarrow> params \<Rightarrow> 'x database \<Rightarrow> ('x, result_set) db_result" where
  "db_execute se (StSelect s) ps db = map_option (\<lambda>r. (db, r)) (run_select se db s ps)"
| "db_execute se (StInsert i) ps db = no_rows (run_insert_stmt (se_ops se) i db)"
| "db_execute se (StUpdate u) ps db = no_rows (run_update se u db)"
| "db_execute se (StDelete d) ps db = no_rows (run_delete se d db)"
| "db_execute se (StCreateTable ct) ps db = no_rows (run_create_table ct db)"
| "db_execute se (StCreateView cv) ps db = no_rows (run_create_view cv db)"
| "db_execute se (StDropView name) ps db = no_rows (run_drop_view name db)"
| "db_execute se (StAlterTable al) ps db = no_rows (run_alter_table al db)"
| "db_execute se StBegin ps db = no_rows (run_begin db)"
| "db_execute se StCommit ps db = no_rows (run_commit (se_ops se) db)"
| "db_execute se StRollback ps db = no_rows (run_rollback db)"

definition execute_checked :: "'x settings \<Rightarrow> statement \<Rightarrow> 'x database \<Rightarrow> ('x, result_set) db_result" where
  "execute_checked se stmt db = db_execute se stmt [] db"

end
