(* ===== verification/Sql_Storage.thy ===== *)
theory Sql_Storage
  imports Sql_Database
begin

text \<open>
  What the tables of the database hold. A table is abstracted to a map from row numbers to rows; the tree and the
  writes a transaction has buffered represent it. The invariant of all tables is kept by every statement, and
  statements that change rows are refined from operations on these maps.
\<close>

subsection \<open>Representation\<close>

definition schema_ok :: "schema \<Rightarrow> bool" where
  "schema_ok s \<longleftrightarrow> sc_columns s \<noteq> [] \<and> length (sc_types s) = length (sc_columns s) \<and> length (sc_columns s) < 2 ^ 16"

definition row_fits :: "schema \<Rightarrow> row \<Rightarrow> bool" where
  "row_fits s r \<longleftrightarrow> row_ok r \<and> length r = length (sc_columns s)"

type_synonym rows = "nat \<rightharpoonup> row"

definition rows_fit :: "schema \<Rightarrow> nat \<Rightarrow> rows \<Rightarrow> bool" where
  "rows_fit s n M \<longleftrightarrow> (\<forall>i r. M i = Some r \<longrightarrow> i < n \<and> row_fits s r)"

text \<open>The tree holds the encoded rows.\<close>

definition holds_rows :: "blink \<Rightarrow> rows \<Rightarrow> bool" where
  "holds_rows t M \<longleftrightarrow> (\<exists>m. blink_rel t m \<and> bt_get m = map_option encode_row \<circ> M)"

text \<open>A buffered write is a row or, for a deletion, none.\<close>

fun wrap_write :: "row option \<Rightarrow> bytes" where
  "wrap_write None = mvcc_wrap_tombstone"
| "wrap_write (Some r) = mvcc_wrap_row r"

definition writes_fit :: "schema \<Rightarrow> nat \<Rightarrow> (nat \<rightharpoonup> row option) \<Rightarrow> bool" where
  "writes_fit s n W \<longleftrightarrow> (\<forall>i x. W i = Some x \<longrightarrow> i < n \<and> (\<forall>r. x = Some r \<longrightarrow> row_fits s r))"

definition holds_writes :: "mvcc_txn \<Rightarrow> (nat \<rightharpoonup> row option) \<Rightarrow> bool" where
  "holds_writes t W \<longleftrightarrow> bt_wf (mt_writes t) \<and> bt_get (mt_writes t) = map_option wrap_write \<circ> W"

text \<open>A transaction that reads nothing through the version store and started at its clock cannot conflict.\<close>

definition txn_fresh :: "mvcc_store \<Rightarrow> mvcc_txn \<Rightarrow> bool" where
  "txn_fresh st t \<longleftrightarrow> mt_snapshot t = ms_clock st \<and> mt_reads t = []"

definition txn_rel :: "mvcc_store \<Rightarrow> mvcc_txn option \<Rightarrow> (nat \<rightharpoonup> row option) \<Rightarrow> bool" where
  "txn_rel st txn W \<longleftrightarrow> (case txn of None \<Rightarrow> W = Map.empty | Some t \<Rightarrow> txn_fresh st t \<and> holds_writes t W)"

definition table_rel :: "'x table_storage \<Rightarrow> rows \<Rightarrow> bool" where
  "table_rel ts M \<longleftrightarrow> schema_ok (st_schema ts) \<and> mvcc_inv (st_mvcc ts) \<and>
     rows_fit (st_schema ts) (st_next_row_id ts) M \<and> holds_rows (st_tree ts) M"

definition pending_rel :: "'x table_storage \<Rightarrow> mvcc_txn option \<Rightarrow> (nat \<rightharpoonup> row option) \<Rightarrow> bool" where
  "pending_rel ts txn W \<longleftrightarrow> txn_rel (st_mvcc ts) txn W \<and> writes_fit (st_schema ts) (st_next_row_id ts) W"

definition overlay :: "(nat \<rightharpoonup> row option) \<Rightarrow> rows \<Rightarrow> rows" where
  "overlay W M = (\<lambda>i. case W i of None \<Rightarrow> M i | Some x \<Rightarrow> x)"

lemma overlay_empty [simp]: "overlay Map.empty M = M"
  by (simp add: overlay_def)

lemma overlay_upd: "overlay (W(i \<mapsto> x)) M = (overlay W M)(i := x)"
  by (auto simp: overlay_def)

lemma overlay_fit: "rows_fit s n M \<Longrightarrow> writes_fit s n W \<Longrightarrow> rows_fit s n (overlay W M)"
  by (auto simp: rows_fit_def writes_fit_def overlay_def split: option.splits)

subsection \<open>Reading rows\<close>

lemma decode_fitting: "row_fits s r \<Longrightarrow> decode_row_validated i (encode_row r) (length (sc_columns s)) = Inr r"
  using decode_encode_row [of r "[]"] by (simp add: row_fits_def decode_row_validated_def res_bind_def)

lemma stored_row_rel:
  assumes "table_rel ts M"
  shows "stored_row ts i = try_ok (M i)"
proof -
  from assms obtain m where m: "blink_rel (st_tree ts) m" "bt_get m = map_option encode_row \<circ> M"
    by (auto simp: table_rel_def holds_rows_def)
  show ?thesis
  proof (cases "M i")
    case None
    with m show ?thesis by (simp add: stored_row_def blink_get_correct)
  next
    case (Some r)
    with assms have "row_fits (st_schema ts) r" by (auto simp: table_rel_def rows_fit_def)
    with m Some show ?thesis
      by (simp add: stored_row_def blink_get_correct decode_fitting try_ok_def [symmetric])
  qed
qed

lemma live_row_rel:
  assumes "table_rel ts M" and "pending_rel ts txn W"
  shows "live_row ts txn i = try_ok (overlay W M i)"
proof (cases "Option.bind txn (\<lambda>t. get_write t i)")
  case None
  with assms(2) have "W i = None"
    by (auto simp: pending_rel_def txn_rel_def holds_writes_def get_write_def split: option.splits)
  with None stored_row_rel [OF assms(1)] show ?thesis by (simp add: live_row_def overlay_def)
next
  case (Some bs)
  with assms(2) obtain x where x: "W i = Some x" "bs = wrap_write x"
    by (auto simp: pending_rel_def txn_rel_def holds_writes_def get_write_def split: option.splits)
  with assms(2) have fit: "\<And>r. x = Some r \<Longrightarrow> row_fits (st_schema ts) r" by (auto simp: pending_rel_def writes_fit_def)
  show ?thesis
    by (cases x) (use Some x fit in \<open>auto simp: live_row_def overlay_def vec_get_def mvcc_wrap_tombstone_def mvcc_wrap_row_def
        MVCC_TOMBSTONE_def MVCC_LIVE_def decode_fitting try_ok_def [symmetric]\<close>)
qed

lemma collect_rows_pure:
  "(\<And>i. i \<in> set is \<Longrightarrow> f i = try_ok (M i)) \<Longrightarrow>
   collect_rows f is = try_ok (concat (map (\<lambda>i. case M i of None \<Rightarrow> [] | Some r \<Rightarrow> [(i, r)]) is))"
  by (induction "is") (auto split: option.splits)

subsection \<open>Writing rows\<close>

lemma maintain_indexes_total:
  "length r = length (sc_columns s) \<Longrightarrow> \<exists>ix. maintain_indexes ops s i r xs = Some ix"
proof (induction xs)
  case (Cons x xs)
  obtain c idx where x: "x = (c, idx)" by (cases x)
  have "\<exists>v. (case index_of s c of None \<Rightarrow> Some VNull | Some slot \<Rightarrow> vec_get r slot) = Some v"
    using Cons.prems by (auto simp: index_of_def vec_get_def split: option.splits dest: position_less)
  with Cons x show ?case by auto
qed simp

text \<open>A step on a table that changes only its rows and its indexes.\<close>

definition same_meta :: "'x table_storage \<Rightarrow> 'x table_storage \<Rightarrow> bool" where
  "same_meta a b \<longleftrightarrow> st_schema a = st_schema b \<and> st_next_row_id a = st_next_row_id b \<and> st_mvcc a = st_mvcc b"

lemma same_meta_refl [simp]: "same_meta a a"
  by (simp add: same_meta_def)

lemma same_meta_trans: "same_meta a b \<Longrightarrow> same_meta b c \<Longrightarrow> same_meta a c"
  by (simp add: same_meta_def)

lemma maintain_total:
  assumes "row_fits (st_schema ts) r"
  shows "\<exists>ts'. maintain_vector_indexes_for_row ops i r ts = Some ts' \<and> same_meta ts ts' \<and> st_tree ts' = st_tree ts"
  using maintain_indexes_total [of r "st_schema ts" ops i "st_vector_indexes ts"] assms
  by (auto simp: maintain_vector_indexes_for_row_def row_fits_def same_meta_def)

lemma holds_rows_insert:
  assumes "holds_rows t M"
  shows "\<exists>t'. blink_insert t i (encode_row r) = Some t' \<and> holds_rows t' (M(i \<mapsto> r))"
proof -
  from assms obtain m where m: "blink_rel t m" "bt_get m = map_option encode_row \<circ> M" by (auto simp: holds_rows_def)
  from blink_insert_correct [OF m(1), of i "encode_row r"] obtain t' where
    "blink_insert t i (encode_row r) = Some t'" "blink_rel t' (bt_insert i (encode_row r) m)" by blast
  moreover have "bt_get (bt_insert i (encode_row r) m) = map_option encode_row \<circ> M(i \<mapsto> r)"
    by (auto simp: bt_get_insert m(2))
  ultimately show ?thesis by (auto simp: holds_rows_def)
qed

lemma holds_rows_delete:
  assumes "holds_rows t M"
  shows "\<exists>t' old. blink_delete t i = Some (t', old) \<and> holds_rows t' (M(i := None))"
proof -
  from assms obtain m where m: "blink_rel t m" "bt_get m = map_option encode_row \<circ> M" by (auto simp: holds_rows_def)
  from blink_delete_correct [OF m(1), of i] obtain t' where
    "blink_delete t i = Some (t', bt_get m i)" "blink_rel t' (bt_remove i m)" by blast
  moreover have "bt_get (bt_remove i m) = map_option encode_row \<circ> M(i := None)"
    by (auto simp: bt_get_remove m(2))
  ultimately show ?thesis by (auto simp: holds_rows_def)
qed

lemma table_rel_rows:
  assumes "table_rel ts M" and "same_meta ts ts'" and "holds_rows (st_tree ts') M'"
    and "rows_fit (st_schema ts) (st_next_row_id ts) M'"
  shows "table_rel ts' M'"
  using assms by (simp add: table_rel_def same_meta_def)

lemma rows_fit_upd: "rows_fit s n M \<Longrightarrow> i < n \<Longrightarrow> row_fits s r \<Longrightarrow> rows_fit s n (M(i \<mapsto> r))"
  by (simp add: rows_fit_def)

lemma rows_fit_del: "rows_fit s n M \<Longrightarrow> rows_fit s n (M(i := None))"
  by (simp add: rows_fit_def)

lemma store_row_rel:
  assumes "table_rel ts M" and "row_fits (st_schema ts) r" and "i < st_next_row_id ts"
  shows "\<exists>ts'. store_row ops i r ts = Some ts' \<and> same_meta ts ts' \<and> table_rel ts' (M(i \<mapsto> r))"
proof -
  from assms(1) have "holds_rows (st_tree ts) M" by (simp add: table_rel_def)
  from holds_rows_insert [OF this, of i r] obtain t where
    t: "blink_insert (st_tree ts) i (encode_row r) = Some t" "holds_rows t (M(i \<mapsto> r))" by blast
  from maintain_total [of "ts\<lparr>st_tree := t\<rparr>" r ops i] assms(2) obtain ts' where
    ts': "maintain_vector_indexes_for_row ops i r (ts\<lparr>st_tree := t\<rparr>) = Some ts'" "same_meta (ts\<lparr>st_tree := t\<rparr>) ts'" "st_tree ts' = t"
    by auto
  from ts'(2) have meta: "same_meta ts ts'" by (simp add: same_meta_def)
  from assms have "rows_fit (st_schema ts) (st_next_row_id ts) (M(i \<mapsto> r))"
    by (auto simp: table_rel_def intro: rows_fit_upd)
  with table_rel_rows [OF assms(1) meta, of "M(i \<mapsto> r)"] t(2) ts'(3) have "table_rel ts' (M(i \<mapsto> r))" by simp
  with t(1) ts'(1) meta show ?thesis by (simp add: store_row_def)
qed

lemma erase_row_rel:
  assumes "table_rel ts M"
  shows "\<exists>ts'. erase_row ops i ts = Some ts' \<and> same_meta ts ts' \<and> table_rel ts' (M(i := None))"
proof -
  from assms have "holds_rows (st_tree ts) M" by (simp add: table_rel_def)
  from holds_rows_delete [OF this, of i] obtain t old where
    t: "blink_delete (st_tree ts) i = Some (t, old)" "holds_rows t (M(i := None))" by blast
  let ?ts = "maintain_vector_indexes_on_delete ops i (ts\<lparr>st_tree := t\<rparr>)"
  have meta: "same_meta ts ?ts" by (simp add: same_meta_def maintain_vector_indexes_on_delete_def)
  have "table_rel ?ts (M(i := None))"
    by (rule table_rel_rows [OF assms meta])
      (use t(2) assms in \<open>auto simp: maintain_vector_indexes_on_delete_def table_rel_def intro: rows_fit_del\<close>)
  with t(1) meta show ?thesis by (simp add: erase_row_def)
qed

lemma column_vectors_total:
  "(\<And>i r. (i, r) \<in> set rows \<Longrightarrow> slot < length r) \<Longrightarrow> \<exists>vs. column_vectors slot rows = Some vs"
proof (induction rows)
  case (Cons x rows)
  obtain i r where x: "x = (i, r)" by (cases x)
  from Cons.IH Cons.prems obtain vs where "column_vectors slot rows = Some vs" by (meson list.set_intros(2))
  moreover from Cons.prems [of i r] x have "slot < length r" by simp
  ultimately show ?case using x by (simp add: vec_get_def)
qed simp

lemma build_indexes_total:
  "(\<And>i r slot c. (i, r) \<in> set rows \<Longrightarrow> (slot, c) \<in> set cols \<Longrightarrow> slot < length r) \<Longrightarrow> \<exists>ix. build_indexes ops rows cols = Some ix"
proof (induction cols)
  case (Cons x cols)
  obtain slot c where x: "x = (slot, c)" by (cases x)
  from Cons.IH Cons.prems obtain ix where "build_indexes ops rows cols = Some ix" by (meson list.set_intros(2))
  moreover obtain vs where "column_vectors slot rows = Some vs"
    using column_vectors_total [of rows slot] Cons.prems x by (meson list.set_intros(1))
  ultimately show ?case using x by auto
qed simp

lemma maybe_build_rel:
  assumes "table_rel ts M"
  shows "\<exists>ts'. maybe_build_vector_indexes ops ts = Some (ts', Inr ()) \<and> same_meta ts ts' \<and> table_rel ts' M"
proof (cases "st_next_row_id ts < MIN_ROWS_FOR_INDEX \<or> pending_columns ts = []")
  case True
  with assms show ?thesis by (auto simp: maybe_build_vector_indexes_def)
next
  case False
  let ?is = "[0..<st_next_row_id ts]"
  let ?rows = "concat (map (\<lambda>i. case M i of None \<Rightarrow> [] | Some r \<Rightarrow> [(i, r)]) ?is)"
  have rows: "collect_rows (stored_row ts) ?is = try_ok ?rows"
    by (rule collect_rows_pure) (simp add: stored_row_rel [OF assms])
  have "slot < length r" if "(i, r) \<in> set ?rows" "(slot, c) \<in> set (pending_columns ts)" for i r slot c
  proof -
    from that(1) have "M i = Some r" by (auto split: option.splits)
    with assms have "length r = length (sc_columns (st_schema ts))" by (auto simp: table_rel_def rows_fit_def row_fits_def)
    moreover from that(2) have "slot < length (sc_columns (st_schema ts))"
      by (auto simp: pending_columns_def Let_def in_set_enumerate_eq)
    ultimately show ?thesis by simp
  qed
  then obtain ix where "build_indexes ops ?rows (pending_columns ts) = Some ix"
    using build_indexes_total [of ?rows "pending_columns ts" ops] by meson
  with False rows assms show ?thesis
    by (auto simp: maybe_build_vector_indexes_def try_ok_def same_meta_def table_rel_def)
qed

subsection \<open>The database\<close>

definition table_ok :: "'x database \<Rightarrow> string \<Rightarrow> 'x table_storage \<Rightarrow> bool" where
  "table_ok db name ts \<longleftrightarrow> (\<exists>M W. table_rel ts M \<and> pending_rel ts (db_txn db name) W)"

definition db_inv :: "'x database \<Rightarrow> bool" where
  "db_inv db \<longleftrightarrow>
     distinct (map fst (db_active_txns db)) \<and>
     (\<forall>name ts. db_table db name = Some ts \<longrightarrow> table_ok db name ts) \<and>
     (\<forall>name. db_txn db name \<noteq> None \<longrightarrow> db_table db name \<noteq> None) \<and>
     (\<not> db_in_transaction db \<longrightarrow> db_active_txns db = [])"

text \<open>The rows that statements see, and the whole database as schemas, counters and maps.\<close>

definition table_view :: "'x database \<Rightarrow> string \<Rightarrow> rows" where
  "table_view db name i = (case db_table db name of
     None \<Rightarrow> None
   | Some ts \<Rightarrow> (case live_row ts (db_txn db name) i of Some (Inr r) \<Rightarrow> r | _ \<Rightarrow> None))"

type_synonym abs_database = "string \<rightharpoonup> schema \<times> nat \<times> rows"

definition abs_db :: "'x database \<Rightarrow> abs_database" where
  "abs_db db name = map_option (\<lambda>ts. (st_schema ts, st_next_row_id ts, table_view db name)) (db_table db name)"

lemma db_table_set [simp]: "db_table (set_table n ts db) = (db_table db)(n \<mapsto> ts)"
  by (simp add: db_table_def set_table_def update_conv' fun_eq_iff)

lemma db_txn_set [simp]: "db_txn (set_txn n t db) = (db_txn db)(n \<mapsto> t)"
  by (simp add: db_txn_def set_txn_def update_conv' fun_eq_iff)

lemma db_table_frame [simp]:
  "db_table (set_txn n t db) = db_table db" "db_txn (set_table n ts db) = db_txn db"
  "db_in_transaction (set_txn n t db) = db_in_transaction db" "db_in_transaction (set_table n ts db) = db_in_transaction db"
  "db_active_txns (set_table n ts db) = db_active_txns db" "db_views (set_table n ts db) = db_views db" "db_views (set_txn n t db) = db_views db"
  by (simp_all add: db_table_def db_txn_def set_table_def set_txn_def fun_eq_iff)

lemma table_view_rel:
  "db_table db name = Some ts \<Longrightarrow> table_rel ts M \<Longrightarrow> pending_rel ts (db_txn db name) W \<Longrightarrow> table_view db name = overlay W M"
  by (rule ext) (simp add: table_view_def live_row_rel, simp add: try_ok_def)

lemma table_view_cong:
  "db_table a name = db_table b name \<Longrightarrow> db_txn a name = db_txn b name \<Longrightarrow> table_view a name = table_view b name"
  by (rule ext) (simp add: table_view_def cong: option.case_cong)

lemma db_invD:
  assumes "db_inv db" and "db_table db name = Some ts"
  obtains M W where "table_rel ts M" "pending_rel ts (db_txn db name) W" "table_view db name = overlay W M"
proof -
  from assms have "table_ok db name ts" by (simp add: db_inv_def)
  then obtain M W where "table_rel ts M" "pending_rel ts (db_txn db name) W" unfolding table_ok_def by blast
  with assms(2) table_view_rel [OF assms(2)] that show ?thesis by blast
qed

text \<open>A step that touches one table keeps the invariant if that table is in order afterwards.\<close>

lemma db_inv_step:
  assumes "db_inv db" and "\<And>m. m \<noteq> name \<Longrightarrow> db_table db' m = db_table db m \<and> db_txn db' m = db_txn db m"
    and "db_table db' name = Some ts" and "table_rel ts M" and "pending_rel ts (db_txn db' name) W"
    and "distinct (map fst (db_active_txns db'))" and "\<not> db_in_transaction db' \<longrightarrow> db_active_txns db' = []"
  shows "db_inv db'"
  unfolding db_inv_def
proof (intro conjI allI impI)
  fix m us
  assume m: "db_table db' m = Some us"
  show "table_ok db' m us"
  proof (cases "m = name")
    case True
    with m assms(3-5) show ?thesis by (auto simp: table_ok_def)
  next
    case False
    with assms(1,2) m show ?thesis by (simp add: db_inv_def table_ok_def)
  qed
next
  fix m
  assume "db_txn db' m \<noteq> None"
  with assms(1-3) show "db_table db' m \<noteq> None" by (cases "m = name") (auto simp: db_inv_def)
qed (use assms(6,7) in auto)

lemma abs_db_step:
  assumes "\<And>m. m \<noteq> name \<Longrightarrow> db_table db' m = db_table db m \<and> db_txn db' m = db_txn db m"
    and "db_table db' name = Some ts" and "table_rel ts M" and "pending_rel ts (db_txn db' name) W"
  shows "abs_db db' = (abs_db db)(name \<mapsto> (st_schema ts, st_next_row_id ts, overlay W M))"
proof
  fix m
  show "abs_db db' m = ((abs_db db)(name \<mapsto> (st_schema ts, st_next_row_id ts, overlay W M))) m"
  proof (cases "m = name")
    case True
    with table_view_rel [OF assms(2-4)] assms(2) show ?thesis by (simp add: abs_db_def)
  next
    case False
    with assms(1) [OF False] table_view_cong [of db' m db] show ?thesis by (simp add: abs_db_def)
  qed
qed

lemma distinct_set_txn: "distinct (map fst (db_active_txns db)) \<Longrightarrow> distinct (map fst (db_active_txns (set_txn n t db)))"
  by (simp add: set_txn_def distinct_update)

subsection \<open>Opening a transaction\<close>

lemma open_txn_frame [simp]: "db_table (open_txn name db) = db_table db" "db_in_transaction (open_txn name db) = db_in_transaction db"
  "db_views (open_txn name db) = db_views db"
  by (auto simp: open_txn_def ensure_txn_def db_table_def fun_eq_iff split: option.splits)

lemma db_txn_open:
  "db_txn (open_txn name db) m =
     (if m = name \<and> db_in_transaction db \<and> db_txn db name = None then map_option (\<lambda>ts. mvcc_begin (st_mvcc ts)) (db_table db name)
      else db_txn db m)"
  by (auto simp: open_txn_def ensure_txn_def db_txn_def map_add_def split: option.splits)

lemma pending_rel_begin:
  assumes "table_rel ts M"
  shows "pending_rel ts (Some (mvcc_begin (st_mvcc ts))) Map.empty"
  by (simp add: pending_rel_def txn_rel_def txn_fresh_def holds_writes_def mvcc_begin_def writes_fit_def bt_wf_def bt_get_def fun_eq_iff)

lemma pending_rel_None: "pending_rel ts None W \<longleftrightarrow> W = Map.empty"
  by (auto simp: pending_rel_def txn_rel_def writes_fit_def)

lemma distinct_open_txn: "distinct (map fst (db_active_txns db)) \<Longrightarrow> distinct (map fst (db_active_txns (open_txn name db)))"
  by (auto simp: open_txn_def ensure_txn_def map_of_eq_None_iff split: option.splits)

lemma open_txn_inv:
  assumes "db_inv db"
  shows "db_inv (open_txn name db)" and "abs_db (open_txn name db) = abs_db db"
proof -
  let ?db = "open_txn name db"
  have other: "db_table ?db m = db_table db m \<and> db_txn ?db m = db_txn db m" if "m \<noteq> name" for m
    using that by (simp add: db_txn_open)
  have "db_inv ?db \<and> abs_db ?db = abs_db db"
  proof (cases "db_table db name")
    case None
    then have "?db = db" by (simp add: open_txn_def ensure_txn_def)
    with assms show ?thesis by simp
  next
    case (Some ts)
    from db_invD [OF assms Some] obtain M W where r: "table_rel ts M" "pending_rel ts (db_txn db name) W" "table_view db name = overlay W M"
      by blast
    have b: "pending_rel ts (db_txn ?db name) W"
      using r(1,2) Some pending_rel_begin [OF r(1)] by (auto simp: db_txn_open pending_rel_None)
    have ts: "db_table ?db name = Some ts" using Some by simp
    have d: "distinct (map fst (db_active_txns ?db))" using assms by (intro distinct_open_txn) (simp add: db_inv_def)
    have n: "\<not> db_in_transaction ?db \<longrightarrow> db_active_txns ?db = []"
      using assms open_txn_frame(2) [of name db] by (cases "db_in_transaction db") (simp_all add: db_inv_def open_txn_def)
    have "db_inv ?db" by (rule db_inv_step [OF assms other ts r(1) b]) (use d n in simp_all)
    moreover have "abs_db ?db = abs_db db"
      by (rule trans [OF abs_db_step [OF other ts r(1) b]]) (use Some r(3) in \<open>auto simp: abs_db_def fun_eq_iff\<close>)
    ultimately show ?thesis by blast
  qed
  then show "db_inv ?db" "abs_db ?db = abs_db db" by blast+
qed

subsection \<open>Rows written by statements\<close>

lemma pending_rel_write:
  assumes "pending_rel ts (Some txn) W" and "i < st_next_row_id ts" and "pred_option (row_fits (st_schema ts)) x"
  shows "pending_rel ts (Some (mvcc_write txn i (wrap_write x))) (W(i \<mapsto> x))"
  using assms
  by (auto simp: pending_rel_def txn_rel_def txn_fresh_def holds_writes_def mvcc_write_def bt_wf_insert bt_get_insert writes_fit_def)

text \<open>Writing a row, or its deletion, inside a transaction and outside.\<close>

lemma buffer_write_rel:
  assumes inv: "db_inv db" and "db_in_transaction db" and ts: "db_table db name = Some ts"
    and i: "i < st_next_row_id ts" and fit: "pred_option (row_fits (st_schema ts)) x" and "db_txn db name \<noteq> None"
  shows "\<exists>db'. buffer_write name i (wrap_write x) db = Some db' \<and> db_inv db' \<and> db_in_transaction db' \<and>
    db_txn db' name \<noteq> None \<and> db_table db' = db_table db \<and>
    abs_db db' = (abs_db db)(name \<mapsto> (st_schema ts, st_next_row_id ts, (table_view db name)(i := x)))"
proof -
  from db_invD [OF inv ts] obtain M W where r: "table_rel ts M" "pending_rel ts (db_txn db name) W" "table_view db name = overlay W M"
    by blast
  from assms(6) obtain txn where txn: "db_txn db name = Some txn" by blast
  let ?db = "set_txn name (mvcc_write txn i (wrap_write x)) db"
  have b: "pending_rel ts (db_txn ?db name) (W(i \<mapsto> x))"
    using pending_rel_write [of ts txn W i x] r(2) txn i fit by simp
  have other: "db_table ?db m = db_table db m \<and> db_txn ?db m = db_txn db m" if "m \<noteq> name" for m
    using that by simp
  have ts': "db_table ?db name = Some ts" using ts by simp
  have "db_inv ?db"
    by (rule db_inv_step [OF inv other ts' r(1) b]) (use assms(2) inv in \<open>simp_all add: distinct_set_txn db_inv_def\<close>)
  moreover have "abs_db ?db = (abs_db db)(name \<mapsto> (st_schema ts, st_next_row_id ts, (table_view db name)(i := x)))"
    by (rule trans [OF abs_db_step [OF other ts' r(1) b]]) (simp_all add: r(3) overlay_upd)
  ultimately show ?thesis using txn assms(2) by (simp add: buffer_write_def)
qed

lemma set_table_rel:
  assumes inv: "db_inv db" and "\<not> db_in_transaction db" and "table_rel ts M" and "db_table db name = Some ts0"
  shows "db_inv (set_table name ts db)"
    and "abs_db (set_table name ts db) = (abs_db db)(name \<mapsto> (st_schema ts, st_next_row_id ts, M))"
proof -
  from inv assms(2) have none: "db_active_txns db = []" by (simp add: db_inv_def)
  then have b: "pending_rel ts (db_txn (set_table name ts db) name) Map.empty" by (simp add: db_txn_def pending_rel_None)
  have other: "db_table (set_table name ts db) m = db_table db m \<and> db_txn (set_table name ts db) m = db_txn db m" if "m \<noteq> name" for m
    using that by simp
  have ts: "db_table (set_table name ts db) name = Some ts" by simp
  show "db_inv (set_table name ts db)"
    by (rule db_inv_step [OF inv other ts assms(3) b]) (use none in simp_all)
  show "abs_db (set_table name ts db) = (abs_db db)(name \<mapsto> (st_schema ts, st_next_row_id ts, M))"
    by (rule trans [OF abs_db_step [OF other ts assms(3) b]]) simp_all
qed

lemma no_txn_view:
  assumes "db_inv db" and "\<not> db_in_transaction db" and "db_table db name = Some ts" and "table_rel ts M"
  shows "table_view db name = M"
  using table_view_rel [OF assms(3,4), of Map.empty] assms(1,2) by (simp add: db_inv_def db_txn_def pending_rel_None)

subsection \<open>Values of statements\<close>

fun literal_ok :: "literal \<Rightarrow> bool" where
  "literal_ok (LInt i) = value_ok (VInt i)"
| "literal_ok (LText t) = value_ok (VText t)"
| "literal_ok (LVector v) = value_ok (VVector v)"
| "literal_ok LNull = True"

lemma literal_to_value_safe:
  assumes "schema_ok s" and "slot < length (sc_columns s)" and "literal_ok lit"
  shows "try_safe (literal_to_value s slot lit) value_ok"
proof -
  from assms have "vec_get (sc_types s) slot = Some (sc_types s ! slot)" "vec_get (sc_columns s) slot = Some (sc_columns s ! slot)"
    by (simp_all add: schema_ok_def vec_get_def)
  with assms(3) show ?thesis
    by (cases "sc_types s ! slot"; cases lit) (simp_all add: literal_to_value_def)
qed

lemma row_fits_set: "row_fits s r \<Longrightarrow> value_ok v \<Longrightarrow> row_fits s (r[i := v])"
  by (auto simp: row_fits_def row_ok_def list_all_iff dest!: set_update_subset_insert [THEN subsetD])

lemma index_of_less: "index_of s c = Some i \<Longrightarrow> i < length (sc_columns s)"
  by (simp add: index_of_def position_less)

lemma set_slot_safe:
  assumes "schema_ok s" and "slot < length (sc_columns s)" and "literal_ok lit" and "row_fits s r"
  shows "try_safe (try_bind (literal_to_value s slot lit) (\<lambda>v. try_lift (vec_set slot v r))) (row_fits s)"
  by (rule try_safe_bind [OF literal_to_value_safe [OF assms(1-3)]])
    (use assms(2,4) in \<open>simp add: vec_set_def row_fits_set, simp add: row_fits_def\<close>)

lemma insert_columns_safe: "try_safe (insert_columns s stmt) (list_all (\<lambda>i. i < length (sc_columns s)))"
proof (cases "is_columns stmt = []")
  case False
  have "try_safe (try_map (\<lambda>c. try_some (DbUnknownColumn c) (index_of s c)) (is_columns stmt))
      (\<lambda>ys. length ys = length (is_columns stmt) \<and> list_all (\<lambda>i. i < length (sc_columns s)) ys)"
    by (rule try_safe_map) (simp add: index_of_less)
  with False show ?thesis by (auto simp: insert_columns_def elim!: try_safe_cases)
qed (simp add: insert_columns_def list_all_iff)

lemma insert_values_safe:
  assumes "schema_ok s" and "list_all literal_ok (is_values stmt)"
  shows "try_safe (insert_values s stmt) (\<lambda>(cols, r). row_fits s r)"
  unfolding insert_values_def
proof (rule try_safe_bind [OF insert_columns_safe])
  fix cols
  assume cols: "list_all (\<lambda>i. i < length (sc_columns s)) cols"
  let ?f = "\<lambda>(slot, lit) row. try_bind (literal_to_value s slot lit) (\<lambda>v. try_lift (vec_set slot v row))"
  let ?r0 = "replicate (length (sc_columns s)) (VInt 0)"
  have "row_fits s ?r0" using assms(1) by (simp add: row_fits_def row_ok_def schema_ok_def list_all_iff ifits_def)
  moreover have "try_safe (?f x a) (row_fits s)" if x: "x \<in> set (zip cols (is_values stmt))" and a: "row_fits s a" for x a
  proof -
    obtain slot lit where sl: "x = (slot, lit)" by (cases x)
    with x have "slot \<in> set cols" "lit \<in> set (is_values stmt)" by (auto dest: set_zip_leftD set_zip_rightD)
    with cols assms have "slot < length (sc_columns s)" "literal_ok lit" by (auto simp: list_all_iff)
    from set_slot_safe [OF assms(1) this a] sl show ?thesis by simp
  qed
  ultimately have fold: "try_safe (try_fold ?f (zip cols (is_values stmt)) ?r0) (row_fits s)" by (rule try_safe_fold)
  show "try_safe (if length (is_values stmt) \<noteq> length cols then try_err ArityMismatch
      else try_bind (try_fold ?f (zip cols (is_values stmt)) ?r0) (\<lambda>row. try_ok (cols, row))) (\<lambda>(cols, r). row_fits s r)"
    using try_safe_bind [OF fold, of "\<lambda>row. try_ok (cols, row)" "\<lambda>(cols, r). row_fits s r"] by simp
qed

definition assignments_ok :: "update_statement \<Rightarrow> bool" where
  "assignments_ok stmt \<longleftrightarrow> list_all (\<lambda>a. literal_ok (sa_value a)) (us_assignments stmt)"

lemma assign_values_Cons:
  "assign_values s (a # as) row =
     try_bind (try_some (DbUnknownColumn (sa_column a)) (index_of s (sa_column a))) (\<lambda>slot.
       if slot = 0 then assign_values s as row
       else try_bind (literal_to_value s slot (sa_value a)) (\<lambda>v. try_bind (try_lift (vec_set slot v row)) (assign_values s as)))"
  by (cases "index_of s (sa_column a)") (auto simp: assign_values_def [abs_def] try_bind_assoc)

lemma assign_values_safe:
  assumes "schema_ok s" and "list_all (\<lambda>a. literal_ok (sa_value a)) as" and "row_fits s r"
  shows "try_safe (assign_values s as r) (row_fits s)"
  unfolding assign_values_def
proof (rule try_safe_fold [of "row_fits s"])
  fix a row
  assume "a \<in> set as" "row_fits s row"
  with assms show "try_safe (try_bind (try_some (DbUnknownColumn (sa_column a)) (index_of s (sa_column a))) (\<lambda>slot.
      if slot = 0 then try_ok row
      else try_bind (literal_to_value s slot (sa_value a)) (\<lambda>v. try_lift (vec_set slot v row)))) (row_fits s)"
    by (cases "index_of s (sa_column a)") (auto simp: list_all_iff index_of_less intro!: set_slot_safe)
qed (rule assms(3))

text \<open>Whether an assignment fails, and how, does not depend on the row.\<close>

lemma assign_values_uniform:
  "length r = length r' \<Longrightarrow> assign_values s as r = try_err e \<Longrightarrow> assign_values s as r' = try_err e"
proof (induction as arbitrary: r r')
  case Nil
  then show ?case by (simp add: assign_values_def)
next
  case (Cons a as)
  show ?case
  proof (cases "index_of s (sa_column a)")
    case None
    with Cons.prems show ?thesis by (simp add: assign_values_Cons)
  next
    case (Some slot)
    show ?thesis
    proof (cases "slot = 0")
      case True
      with Cons.prems Cons.IH [OF Cons.prems(1)] Some show ?thesis by (simp add: assign_values_Cons)
    next
      case False
      show ?thesis
      proof (cases "literal_to_value s slot (sa_value a)" rule: try_cases)
        case (ok v)
        with Cons.prems Some False have "slot < length r" "assign_values s as (r[slot := v]) = try_err e"
          by (auto simp: assign_values_Cons vec_set_def split: if_splits)
        with Cons.IH [of "r[slot := v]" "r'[slot := v]"] Cons.prems(1) have "slot < length r'" "assign_values s as (r'[slot := v]) = try_err e"
          by auto
        with ok Some False show ?thesis by (simp add: assign_values_Cons vec_set_def)
      qed (use Cons.prems Some False in \<open>simp_all add: assign_values_Cons\<close>)
    qed
  qed
qed

subsection \<open>Operations on the maps\<close>

definition spec_insert :: "insert_statement \<Rightarrow> abs_database \<Rightarrow> (db_error, abs_database) fallible" where
  "spec_insert stmt A =
     try_bind (try_some (UnknownTable (is_table stmt)) (A (is_table stmt))) (\<lambda>(s, n, rows).
     try_bind (insert_values s stmt) (\<lambda>(cols, vals).
       try_ok (A(is_table stmt \<mapsto> (s, n + 1, rows(n \<mapsto> (if 0 \<in> set cols then vals else vals[0 := VInt (wrap_i64 (int n))])))))))"

text \<open>All new rows are computed before any is replaced.\<close>

definition spec_update :: "update_statement \<Rightarrow> nat list \<Rightarrow> abs_database \<Rightarrow> (db_error, abs_database) fallible" where
  "spec_update stmt keys A =
     try_bind (try_some (UnknownTable (us_table stmt)) (A (us_table stmt))) (\<lambda>(s, n, rows).
     try_bind (try_map (\<lambda>i. try_bind (try_some (RowNotFound i) (rows i)) (assign_values s (us_assignments stmt))) keys) (\<lambda>new.
       try_ok (A(us_table stmt \<mapsto> (s, n, rows ++ map_of (zip keys new))))))"

definition spec_delete :: "delete_statement \<Rightarrow> nat list \<Rightarrow> abs_database \<Rightarrow> (db_error, abs_database) fallible" where
  "spec_delete stmt keys A =
     try_bind (try_some (UnknownTable (ds_table stmt)) (A (ds_table stmt))) (\<lambda>(s, n, rows).
       try_ok (A(ds_table stmt \<mapsto> (s, n, rows |` (- set keys)))))"

text \<open>A statement that fails leaves the maps as they were; one that succeeds changes them as specified.\<close>

definition refined ::
    "bool \<Rightarrow> abs_database \<Rightarrow> (db_error, abs_database) fallible \<Rightarrow> ('x, 'a) db_result \<Rightarrow> bool" where
  "refined mode A spec res \<longleftrightarrow> (case spec of
     None \<Rightarrow> res = None
   | Some (Inl e) \<Rightarrow> (\<exists>db'. res = Some (db', Inl e) \<and> db_inv db' \<and> db_in_transaction db' = mode \<and> abs_db db' = A)
   | Some (Inr B) \<Rightarrow> (\<exists>db' x. res = Some (db', Inr x) \<and> db_inv db' \<and> db_in_transaction db' = mode \<and> abs_db db' = B))"

lemma refined_simps [simp]:
  "refined mode A None res \<longleftrightarrow> res = None"
  "refined mode A (try_err e) res \<longleftrightarrow> (\<exists>db'. res = Some (db', Inl e) \<and> db_inv db' \<and> db_in_transaction db' = mode \<and> abs_db db' = A)"
  "refined mode A (try_ok B) res \<longleftrightarrow> (\<exists>db' x. res = Some (db', Inr x) \<and> db_inv db' \<and> db_in_transaction db' = mode \<and> abs_db db' = B)"
  by (simp_all add: refined_def try_ok_def try_err_def)

lemma db_try_simps [simp]:
  "db_try db None f = None" "db_try db (try_err e) f = Some (db, Inl e)" "db_try db (try_ok x) f = f x"
  by (simp_all add: db_try_def try_ok_def try_err_def)

lemma db_then_simps [simp]:
  "db_then None f = None" "db_then (Some (db, Inl e)) f = Some (db, Inl e)" "db_then (Some (db, Inr x)) f = f db x"
  by (simp_all add: db_then_def)

lemma refined_no_rows: "refined mode A spec res \<Longrightarrow> refined mode A spec (no_rows res)"
  by (cases spec rule: try_cases) (auto simp: no_rows_def)

subsection \<open>Insert\<close>

lemma abs_db_Some: "db_table db name = Some ts \<Longrightarrow> abs_db db name = Some (st_schema ts, st_next_row_id ts, table_view db name)"
  by (simp add: abs_db_def)

lemma abs_db_None: "db_table db name = None \<Longrightarrow> abs_db db name = None"
  by (simp add: abs_db_def)

lemma db_txn_opened:
  "db_in_transaction db \<Longrightarrow> db_table db name = Some ts \<Longrightarrow> db_txn (open_txn name db) name \<noteq> None"
  by (auto simp: db_txn_open)

lemma next_row_rel:
  assumes "table_rel ts M"
  shows "table_rel (ts\<lparr>st_next_row_id := st_next_row_id ts + 1\<rparr>) M"
  using assms by (auto simp: table_rel_def rows_fit_def less_Suc_eq)

lemma next_row_db:
  assumes "db_inv db" and "db_table db name = Some ts"
  defines "ts1 \<equiv> ts\<lparr>st_next_row_id := st_next_row_id ts + 1\<rparr>"
  shows "db_inv (set_table name ts1 db)"
    and "abs_db (set_table name ts1 db) = (abs_db db)(name \<mapsto> (st_schema ts, st_next_row_id ts + 1, table_view db name))"
    and "table_view (set_table name ts1 db) name = table_view db name"
proof -
  let ?db = "set_table name ts1 db"
  from db_invD [OF assms(1,2)] obtain M W where
    r: "table_rel ts M" "pending_rel ts (db_txn db name) W" "table_view db name = overlay W M" by blast
  have t: "table_rel ts1 M" using next_row_rel [OF r(1)] by (simp add: ts1_def)
  have b: "pending_rel ts1 (db_txn ?db name) W"
    using r(2) by (auto simp: pending_rel_def ts1_def writes_fit_def less_Suc_eq)
  have other: "db_table ?db m = db_table db m \<and> db_txn ?db m = db_txn db m" if "m \<noteq> name" for m using that by simp
  have ts: "db_table ?db name = Some ts1" by simp
  show "db_inv ?db"
    by (rule db_inv_step [OF assms(1) other ts t b]) (use assms(1) in \<open>simp_all add: db_inv_def\<close>)
  show "abs_db ?db = (abs_db db)(name \<mapsto> (st_schema ts, st_next_row_id ts + 1, table_view db name))"
    by (rule trans [OF abs_db_step [OF other ts t b]]) (simp_all add: r(3) ts1_def)
  show "table_view ?db name = table_view db name"
    using table_view_rel [OF ts t b] r(3) by simp
qed

definition room_for_rows :: "'x database \<Rightarrow> string \<Rightarrow> bool" where
  "room_for_rows db name = (case db_table db name of None \<Rightarrow> True | Some ts \<Rightarrow> st_next_row_id ts + 1 < 2 ^ 64)"

lemma run_insert_refines:
  assumes inv: "db_inv db" and lits: "list_all literal_ok (is_values stmt)" and room: "room_for_rows db (is_table stmt)"
  shows "refined (db_in_transaction db) (abs_db db) (spec_insert stmt (abs_db db)) (run_insert_stmt ops stmt db)"
proof (cases "db_table db (is_table stmt)")
  case None
  with open_txn_inv [OF inv] show ?thesis by (simp add: run_insert_stmt_def spec_insert_def abs_db_None Let_def)
next
  case (Some ts)
  let ?name = "is_table stmt"
  let ?db = "open_txn ?name db" and ?ts = "ts\<lparr>st_next_row_id := st_next_row_id ts + 1\<rparr>"
  note opened = open_txn_inv [OF inv, of ?name]
  have ts: "db_table ?db ?name = Some ts" using Some by simp
  have view: "table_view ?db ?name = table_view db ?name"
    using fun_cong [OF opened(2), of ?name] abs_db_Some [OF ts] abs_db_Some [OF Some] by simp
  have abs: "abs_db db ?name = Some (st_schema ts, st_next_row_id ts, table_view db ?name)" by (rule abs_db_Some [OF Some])
  from db_invD [OF opened(1) ts] obtain M W where r: "table_rel ts M" "pending_rel ts (db_txn ?db ?name) W" by blast
  then have schema: "schema_ok (st_schema ts)" by (simp add: table_rel_def)
  from insert_values_safe [OF schema lits] show ?thesis
  proof (cases rule: try_safe_cases)
    case (1 e)
    with ts abs opened show ?thesis by (simp add: run_insert_stmt_def spec_insert_def)
  next
    case (2 x)
    then obtain cols vals where v: "insert_values (st_schema ts) stmt = try_ok (cols, vals)" "row_fits (st_schema ts) vals"
      by (cases x) auto
    let ?v = "VInt (wrap_i64 (int (st_next_row_id ts)))"
    define r where "r = (if 0 \<in> set cols then vals else vals[0 := ?v])"
    have "value_ok ?v" by (simp add: wrap_i64_def ifits_def)
    with v(2) have fit: "row_fits (st_schema ts) r" by (simp add: r_def row_fits_set)
    have set0: "(if 0 \<in> set cols then Some vals else vec_set 0 ?v vals) = Some r"
      using v(2) schema by (simp add: r_def vec_set_def row_fits_def schema_ok_def)
    have next_id: "checked_add 64 (st_next_row_id ts) (Suc 0) = Some (Suc (st_next_row_id ts))"
      using room Some by (simp add: room_for_rows_def checked_add_def)
    have spec: "spec_insert stmt (abs_db db) =
        try_ok ((abs_db db)(?name \<mapsto> (st_schema ts, st_next_row_id ts + 1, (table_view db ?name)(st_next_row_id ts \<mapsto> r))))"
      using abs v(1) by (simp add: spec_insert_def r_def)
    have run: "run_insert_stmt ops stmt db =
        (if db_in_transaction db
         then map_option (\<lambda>db'. (db', Inr ())) (buffer_write ?name (st_next_row_id ts) (mvcc_wrap_row r) (set_table ?name ?ts ?db))
         else do {
           ts2 \<leftarrow> store_row ops (st_next_row_id ts) r ?ts;
           (ts3, x) \<leftarrow> maybe_build_vector_indexes ops ts2;
           Some (set_table ?name ts3 ?db, x)
         })"
      by (simp add: run_insert_stmt_def Let_def Some v(1) set0 next_id)
    show ?thesis
    proof (cases "db_in_transaction db")
      case True
      note bumped = next_row_db [OF opened(1) ts]
      have "\<exists>db'. buffer_write ?name (st_next_row_id ts) (wrap_write (Some r)) (set_table ?name ?ts ?db) = Some db' \<and>
          db_inv db' \<and> db_in_transaction db' \<and> db_txn db' ?name \<noteq> None \<and> db_table db' = db_table (set_table ?name ?ts ?db) \<and>
          abs_db db' = (abs_db (set_table ?name ?ts ?db))(?name \<mapsto>
            (st_schema ?ts, st_next_row_id ?ts, (table_view (set_table ?name ?ts ?db) ?name)(st_next_row_id ts := Some r)))"
        by (rule buffer_write_rel [OF bumped(1)]) (use True fit db_txn_opened [OF True Some] in simp_all)
      then obtain db' where "buffer_write ?name (st_next_row_id ts) (mvcc_wrap_row r) (set_table ?name ?ts ?db) = Some db'"
          "db_inv db'" "db_in_transaction db'"
          "abs_db db' = (abs_db db)(?name \<mapsto> (st_schema ts, st_next_row_id ts + 1, (table_view db ?name)(st_next_row_id ts \<mapsto> r)))"
        using bumped(2,3) view opened(2) by auto
      with True show ?thesis by (simp add: run spec)
    next
      case False
      have "db_in_transaction ?db = False" using False by simp
      with no_txn_view [OF opened(1) _ ts r(1)] view have M: "table_view db ?name = M" by simp
      from store_row_rel [OF next_row_rel [OF r(1)], of r "st_next_row_id ts" ops] fit obtain ts2 where
        ts2: "store_row ops (st_next_row_id ts) r ?ts = Some ts2" "same_meta ?ts ts2" "table_rel ts2 (M(st_next_row_id ts \<mapsto> r))" by auto
      from maybe_build_rel [OF ts2(3), of ops] obtain ts3 where
        ts3: "maybe_build_vector_indexes ops ts2 = Some (ts3, Inr ())" "same_meta ts2 ts3" "table_rel ts3 (M(st_next_row_id ts \<mapsto> r))" by blast
      have "st_schema ts3 = st_schema ts" "st_next_row_id ts3 = st_next_row_id ts + 1"
        using same_meta_trans [OF ts2(2) ts3(2)] by (simp_all add: same_meta_def)
      with set_table_rel [OF opened(1) _ ts3(3) ts] False opened(2) M ts2(1) ts3(1) show ?thesis by (simp add: run spec)
    qed
  qed
qed

subsection \<open>Update and delete\<close>

lemma matching_rows:
  assumes "db_inv db" and "matching_row_ids run db name flt = try_ok keys"
  obtains ts where "db_table db name = Some ts" "distinct keys" "\<And>i. i \<in> set keys \<Longrightarrow> i < st_next_row_id ts \<and> table_view db name i \<noteq> None"
proof -
  from assms(2) obtain ts cache where ts: "db_table db name = Some ts"
    and f: "try_filter (\<lambda>i. try_bind (live_row ts (db_txn db name) i) (\<lambda>r.
        case r of None \<Rightarrow> try_ok False | Some row \<Rightarrow> row_matches run (sc_columns (st_schema ts)) cache flt row)) [0..<st_next_row_id ts] = try_ok keys"
    by (auto simp: matching_row_ids_def Let_def try_bind_ok try_some_ok)
  from db_invD [OF assms(1) ts] obtain M W where r: "table_rel ts M" "pending_rel ts (db_txn db name) W" "table_view db name = overlay W M"
    by blast
  have view: "live_row ts (db_txn db name) i = try_ok (table_view db name i)" for i
    using live_row_rel [OF r(1,2)] r(3) by simp
  have "distinct keys" using f by (auto simp: try_filter_ok)
  moreover have "i < st_next_row_id ts \<and> table_view db name i \<noteq> None" if "i \<in> set keys" for i
    using f that by (auto simp: try_filter_ok view split: option.splits)
  ultimately show ?thesis using that ts by blast
qed

lemma current_row_rel:
  assumes "table_rel ts M" and "pending_rel ts txn W" and "overlay W M i = Some r"
  shows "current_row ts txn i = try_ok (Some r)"
proof (cases "Option.bind txn (\<lambda>t. get_write t i)")
  case None
  with assms(2) have "W i = None"
    by (auto simp: pending_rel_def txn_rel_def holds_writes_def get_write_def split: option.splits)
  with None assms(3) stored_row_rel [OF assms(1)] show ?thesis by (simp add: current_row_def overlay_def)
next
  case (Some bs)
  with live_row_rel [OF assms(1,2)] assms(3) show ?thesis by (simp add: current_row_def)
qed

text \<open>A loop step on a table: the table stays open for writing, and its map changes in one place.\<close>

definition writable :: "'x database \<Rightarrow> string \<Rightarrow> bool" where
  "writable db name \<longleftrightarrow> db_inv db \<and> (\<exists>ts. db_table db name = Some ts) \<and> (db_in_transaction db \<longrightarrow> db_txn db name \<noteq> None)"

definition changed :: "string \<Rightarrow> nat \<Rightarrow> row option \<Rightarrow> 'x database \<Rightarrow> 'x database \<Rightarrow> bool" where
  "changed name i x db db' \<longleftrightarrow> writable db' name \<and> db_in_transaction db' = db_in_transaction db \<and>
     (\<forall>s n rows. abs_db db name = Some (s, n, rows) \<longrightarrow> abs_db db' = (abs_db db)(name \<mapsto> (s, n, rows(i := x))))"

lemma writable_open: "db_inv db \<Longrightarrow> db_table db name = Some ts \<Longrightarrow> writable (open_txn name db) name"
  using db_txn_opened [of db name ts] by (auto simp: writable_def open_txn_inv)

lemma write_changed:
  assumes w: "writable db name" and ts: "db_table db name = Some ts" and i: "i < st_next_row_id ts"
    and fit: "pred_option (row_fits (st_schema ts)) x"
  shows "db_in_transaction db \<Longrightarrow> \<exists>db'. buffer_write name i (wrap_write x) db = Some db' \<and> changed name i x db db'"
    and "\<not> db_in_transaction db \<Longrightarrow> x = Some r \<Longrightarrow> \<exists>ts'. store_row ops i r ts = Some ts' \<and> changed name i x db (set_table name ts' db)"
    and "\<not> db_in_transaction db \<Longrightarrow> x = None \<Longrightarrow> \<exists>ts'. erase_row ops i ts = Some ts' \<and> changed name i x db (set_table name ts' db)"
proof -
  from w have inv: "db_inv db" by (simp add: writable_def)
  note abs = abs_db_Some [OF ts]
  show "\<exists>db'. buffer_write name i (wrap_write x) db = Some db' \<and> changed name i x db db'" if t: "db_in_transaction db"
  proof -
    from t w have "db_txn db name \<noteq> None" by (simp add: writable_def)
    from buffer_write_rel [OF inv t ts i fit this] ts abs t show ?thesis by (auto simp: changed_def writable_def)
  qed
  from db_invD [OF inv ts] obtain M W where r: "table_rel ts M" by blast
  have fin: "changed name i x db (set_table name ts' db)"
    if t: "\<not> db_in_transaction db" and "same_meta ts ts'" "table_rel ts' (M(i := x))" for ts'
    using set_table_rel [OF inv t that(3) ts] that(2) abs no_txn_view [OF inv t ts r] t
    by (auto simp: changed_def writable_def same_meta_def)
  show "\<exists>ts'. store_row ops i r ts = Some ts' \<and> changed name i x db (set_table name ts' db)"
    if "\<not> db_in_transaction db" "x = Some r"
    using store_row_rel [OF r _ i, of r ops] fit that fin by auto
  show "\<exists>ts'. erase_row ops i ts = Some ts' \<and> changed name i x db (set_table name ts' db)"
    if "\<not> db_in_transaction db" "x = None"
    using erase_row_rel [OF r, of ops i] that fin by auto
qed

lemma update_row_step:
  assumes w: "writable db (us_table stmt)" and abs: "abs_db db (us_table stmt) = Some (s, n, rows)" and row: "rows i = Some r0"
    and ok: "assignments_ok stmt"
  shows "assign_values s (us_assignments stmt) r0 = try_err e \<Longrightarrow> update_row ops stmt i db = Some (db, Inl e)"
    and "assign_values s (us_assignments stmt) r0 = try_ok r \<Longrightarrow>
      \<exists>db'. update_row ops stmt i db = Some (db', Inr ()) \<and> changed (us_table stmt) i (Some r) db db'"
    and "try_safe (assign_values s (us_assignments stmt) r0) (\<lambda>r. True)"
    and "length r0 = length (sc_columns s)"
proof -
  let ?name = "us_table stmt"
  from w have inv: "db_inv db" by (simp add: writable_def)
  from abs obtain ts where ts: "db_table db ?name = Some ts" and s: "s = st_schema ts" "rows = table_view db ?name"
    by (auto simp: abs_db_def)
  from db_invD [OF inv ts] obtain M W where
    m: "table_rel ts M" "pending_rel ts (db_txn db ?name) W" "table_view db ?name = overlay W M" by blast
  have cur: "current_row ts (db_txn db ?name) i = try_ok (Some r0)"
    by (rule current_row_rel [OF m(1,2)]) (use row s m(3) in simp)
  have "rows_fit (st_schema ts) (st_next_row_id ts) (overlay W M)"
    using m by (intro overlay_fit) (simp_all add: table_rel_def pending_rel_def)
  with row s m(3) have i: "i < st_next_row_id ts" and fit: "row_fits (st_schema ts) r0" by (auto simp: rows_fit_def)
  have safe: "try_safe (assign_values s (us_assignments stmt) r0) (row_fits s)"
    by (rule assign_values_safe) (use m(1) ok fit s in \<open>simp_all add: table_rel_def assignments_ok_def\<close>)
  then show "try_safe (assign_values s (us_assignments stmt) r0) (\<lambda>r. True)" by (auto elim!: try_safe_cases)
  show "length r0 = length (sc_columns s)" using fit s by (simp add: row_fits_def)
  show "update_row ops stmt i db = Some (db, Inl e)" if "assign_values s (us_assignments stmt) r0 = try_err e"
    using that ts cur s by (simp add: update_row_def Let_def)
  show "\<exists>db'. update_row ops stmt i db = Some (db', Inr ()) \<and> changed ?name i (Some r) db db'"
    if a: "assign_values s (us_assignments stmt) r0 = try_ok r"
  proof -
    have "pred_option (row_fits (st_schema ts)) (Some r)" using safe a s by simp
    note wr = write_changed [OF w ts i this]
    show ?thesis
    proof (cases "db_in_transaction db")
      case True
      with wr(1) ts cur a s show ?thesis by (auto simp: update_row_def Let_def)
    next
      case False
      with wr(2) [of r ops] ts cur a s show ?thesis by (auto simp: update_row_def Let_def)
    qed
  qed
qed

lemma delete_row_step:
  assumes w: "writable db name" and abs: "abs_db db name = Some (s, n, rows)" and i: "i < n"
  shows "\<exists>db'. delete_row ops name i db = Some (db', Inr ()) \<and> changed name i None db db'"
proof -
  from abs obtain ts where ts: "db_table db name = Some ts" "n = st_next_row_id ts" by (auto simp: abs_db_def)
  have "i < st_next_row_id ts" "pred_option (row_fits (st_schema ts)) None" using i ts(2) by simp_all
  note wr = write_changed [OF w ts(1) this]
  show ?thesis
  proof (cases "db_in_transaction db")
    case True
    with wr(1) ts show ?thesis by (auto simp: delete_row_def)
  next
    case False
    with wr(3) [of ops] ts show ?thesis by (auto simp: delete_row_def)
  qed
qed

lemma map_add_head:
  "i \<notin> dom m \<Longrightarrow> rows(i \<mapsto> r) ++ m = rows ++ m(i \<mapsto> r)"
  by (auto simp: map_add_def fun_eq_iff dom_def split: option.splits)

lemma update_rows_loop:
  assumes "writable db (us_table stmt)" and "abs_db db (us_table stmt) = Some (s, n, rows)" and "distinct keys" and "assignments_ok stmt"
    and "list_all2 (\<lambda>i r. \<exists>r0. rows i = Some r0 \<and> assign_values s (us_assignments stmt) r0 = try_ok r) keys new"
  shows "\<exists>db'. for_rows (update_row ops stmt) keys db = Some (db', Inr ()) \<and> db_inv db' \<and>
    db_in_transaction db' = db_in_transaction db \<and>
    abs_db db' = (abs_db db)(us_table stmt \<mapsto> (s, n, rows ++ map_of (zip keys new)))"
  using assms
proof (induction keys arbitrary: db rows new)
  case Nil
  then show ?case by (auto simp: writable_def fun_upd_idem)
next
  case (Cons i keys)
  let ?name = "us_table stmt"
  from Cons.prems(5) obtain r rest r0 where new: "new = r # rest" and r: "rows i = Some r0" "assign_values s (us_assignments stmt) r0 = try_ok r"
    and rest: "list_all2 (\<lambda>i r. \<exists>r0. rows i = Some r0 \<and> assign_values s (us_assignments stmt) r0 = try_ok r) keys rest"
    by (auto simp: list_all2_Cons1)
  from update_row_step(2) [OF Cons.prems(1,2) r(1) Cons.prems(4) r(2), of ops] obtain db1 where
    db1: "update_row ops stmt i db = Some (db1, Inr ())" "changed ?name i (Some r) db db1" by blast
  then have w: "writable db1 ?name" and mode: "db_in_transaction db1 = db_in_transaction db"
    and abs: "abs_db db1 = (abs_db db)(?name \<mapsto> (s, n, rows(i \<mapsto> r)))"
    using Cons.prems(2) by (auto simp: changed_def)
  have "list_all2 (\<lambda>j q. \<exists>r0. (rows(i \<mapsto> r)) j = Some r0 \<and> assign_values s (us_assignments stmt) r0 = try_ok q) keys rest"
    using rest Cons.prems(3) by (auto elim!: list.rel_mono_strong)
  moreover have "abs_db db1 ?name = Some (s, n, rows(i \<mapsto> r))" "distinct keys" using abs Cons.prems(3) by simp_all
  ultimately obtain db' where
    IH: "for_rows (update_row ops stmt) keys db1 = Some (db', Inr ())" "db_inv db'" "db_in_transaction db' = db_in_transaction db1"
    "abs_db db' = (abs_db db1)(?name \<mapsto> (s, n, rows(i \<mapsto> r) ++ map_of (zip keys rest)))"
    using Cons.IH [OF w _ _ Cons.prems(4), of "rows(i \<mapsto> r)" rest] by blast
  have i: "i \<notin> dom (map_of (zip keys rest))" using Cons.prems(3) by (auto dest!: map_of_SomeD set_zip_leftD)
  have "abs_db db' = (abs_db db)(?name \<mapsto> (s, n, rows ++ map_of (zip (i # keys) new)))"
    unfolding IH(4) abs new by (simp add: map_add_head [OF i])
  moreover have "for_rows (update_row ops stmt) (i # keys) db = Some (db', Inr ())" using db1(1) IH(1) by simp
  ultimately show ?case using IH(2,3) mode by metis
qed

lemma run_update_refines:
  assumes inv: "db_inv db" and ok: "assignments_ok stmt"
  shows "refined (db_in_transaction db) (abs_db db)
    (try_bind (matching_row_ids (run_select_scoped se db (se_depth se)) db (us_table stmt) (us_filter stmt))
      (\<lambda>keys. spec_update stmt keys (abs_db db)))
    (run_update se stmt db)"
proof (cases "matching_row_ids (run_select_scoped se db (se_depth se)) db (us_table stmt) (us_filter stmt)" rule: try_cases)
  case (err e)
  with inv show ?thesis by (simp add: run_update_def)
next
  case (ok keys)
  let ?name = "us_table stmt" and ?db = "open_txn (us_table stmt) db" and ?as = "us_assignments stmt"
  from matching_rows [OF inv ok] obtain ts where ts: "db_table db ?name = Some ts" and d: "distinct keys"
    and rows: "\<And>i. i \<in> set keys \<Longrightarrow> table_view db ?name i \<noteq> None" by metis
  let ?s = "st_schema ts" and ?rows = "table_view db ?name"
  have abs: "abs_db db ?name = Some (?s, st_next_row_id ts, ?rows)" by (rule abs_db_Some [OF ts])
  have w: "writable ?db ?name" by (rule writable_open [OF inv ts])
  have abs': "abs_db ?db ?name = Some (?s, st_next_row_id ts, ?rows)" using abs open_txn_inv(2) [OF inv] by simp
  define f where "f = (\<lambda>i. try_bind (try_some (RowNotFound i) (?rows i)) (assign_values ?s ?as))"
  have run: "run_update se stmt db = for_rows (update_row (se_ops se) stmt) keys ?db" using ok by (simp add: run_update_def)
  have spec: "spec_update stmt keys (abs_db db) =
      try_bind (try_map f keys) (\<lambda>new. try_ok ((abs_db db)(?name \<mapsto> (?s, st_next_row_id ts, ?rows ++ map_of (zip keys new)))))"
    using abs by (simp add: spec_update_def f_def)
  consider (bad) i rest e where "keys = i # rest" "f i = try_err e" | (good) new where "try_map f keys = try_ok new"
  proof (cases keys)
    case Nil
    then show thesis using good by simp
  next
    case (Cons i rest)
    from rows [of i] Cons obtain r0 where r0: "?rows i = Some r0" by auto
    note step = update_row_step [OF w abs' _ assms(2)]
    from step(3) [OF r0] show thesis
    proof (cases rule: try_safe_cases)
      case (1 e)
      with bad [OF Cons, of e] r0 show thesis by (simp add: f_def)
    next
      case (2 r)
      have "\<exists>x. f j = try_ok x" if j: "j \<in> set keys" for j
      proof -
        from rows [OF j] obtain q where q: "?rows j = Some q" by auto
        from step(4) [OF q] step(4) [OF r0] have "length q = length r0" by simp
        with assign_values_uniform [of q r0 ?s ?as] 2(1) have "assign_values ?s ?as q \<noteq> try_err e" for e by auto
        with step(3) [OF q] q show ?thesis by (auto simp: f_def elim!: try_safe_cases)
      qed
      then obtain g where "\<And>j. j \<in> set keys \<Longrightarrow> f j = try_ok (g j)" by metis
      then have "list_all2 (\<lambda>j x. f j = try_ok x) keys (map g keys)" by (simp add: list_all2_map2 list.rel_refl_strong)
      with good show thesis by (simp add: try_map_ok)
    qed
  qed
  then show ?thesis
  proof cases
    case bad
    from rows [of i] bad obtain r0 where r0: "?rows i = Some r0" by auto
    with bad have "assign_values ?s ?as r0 = try_err e" by (simp add: f_def)
    from update_row_step(1) [OF w abs' r0 assms(2) this] bad run spec ok show ?thesis
      using open_txn_inv [OF inv] by simp
  next
    case good
    then have "list_all2 (\<lambda>i r. \<exists>r0. ?rows i = Some r0 \<and> assign_values ?s ?as r0 = try_ok r) keys new"
      by (auto simp: try_map_ok f_def try_bind_ok try_some_ok elim!: list.rel_mono_strong)
    from update_rows_loop [OF w abs' d assms(2) this] good run spec ok show ?thesis
      using open_txn_inv [OF inv] by auto
  qed
qed (simp add: run_update_def)

lemma delete_rows_loop:
  assumes "writable db name" and "abs_db db name = Some (s, n, rows)" and "\<And>i. i \<in> set keys \<Longrightarrow> i < n"
  shows "\<exists>db'. for_rows (delete_row ops name) keys db = Some (db', Inr ()) \<and> db_inv db' \<and>
    db_in_transaction db' = db_in_transaction db \<and> abs_db db' = (abs_db db)(name \<mapsto> (s, n, rows |` (- set keys)))"
  using assms
proof (induction keys arbitrary: db rows)
  case Nil
  then show ?case by (auto simp: writable_def fun_upd_idem)
next
  case (Cons i keys)
  from delete_row_step [OF Cons.prems(1,2), of i ops] Cons.prems(3) obtain db1 where
    db1: "delete_row ops name i db = Some (db1, Inr ())" "changed name i None db db1" by auto
  then have w: "writable db1 name" and mode: "db_in_transaction db1 = db_in_transaction db"
    and abs: "abs_db db1 = (abs_db db)(name \<mapsto> (s, n, rows(i := None)))"
    using Cons.prems(2) by (auto simp: changed_def)
  have "abs_db db1 name = Some (s, n, rows(i := None))" "\<And>j. j \<in> set keys \<Longrightarrow> j < n" using abs Cons.prems(3) by simp_all
  from Cons.IH [OF w this] obtain db' where
    IH: "for_rows (delete_row ops name) keys db1 = Some (db', Inr ())" "db_inv db'" "db_in_transaction db' = db_in_transaction db1"
    "abs_db db' = (abs_db db1)(name \<mapsto> (s, n, rows(i := None) |` (- set keys)))" by blast
  have r: "rows(i := None) |` (- set keys) = rows |` (- set (i # keys))" by (auto simp: restrict_map_def fun_eq_iff)
  have "abs_db db' = (abs_db db)(name \<mapsto> (s, n, rows |` (- set (i # keys))))" unfolding IH(4) abs r by simp
  moreover have "for_rows (delete_row ops name) (i # keys) db = Some (db', Inr ())" using db1(1) IH(1) by simp
  ultimately show ?case using IH(2,3) mode by metis
qed

lemma run_delete_refines:
  assumes inv: "db_inv db"
  shows "refined (db_in_transaction db) (abs_db db)
    (try_bind (matching_row_ids (run_select_scoped se db (se_depth se)) db (ds_table stmt) (ds_filter stmt))
      (\<lambda>keys. spec_delete stmt keys (abs_db db)))
    (run_delete se stmt db)"
proof (cases "matching_row_ids (run_select_scoped se db (se_depth se)) db (ds_table stmt) (ds_filter stmt)" rule: try_cases)
  case (err e)
  with inv show ?thesis by (simp add: run_delete_def)
next
  case (ok keys)
  let ?name = "ds_table stmt" and ?db = "open_txn (ds_table stmt) db"
  from matching_rows [OF inv ok] obtain ts where ts: "db_table db ?name = Some ts"
    and keys: "\<And>i. i \<in> set keys \<Longrightarrow> i < st_next_row_id ts" by metis
  have abs: "abs_db db ?name = Some (st_schema ts, st_next_row_id ts, table_view db ?name)" by (rule abs_db_Some [OF ts])
  with open_txn_inv(2) [OF inv] have abs': "abs_db ?db ?name = Some (st_schema ts, st_next_row_id ts, table_view db ?name)" by simp
  from delete_rows_loop [OF writable_open [OF inv ts] abs' keys, of keys "se_ops se"] ok ts abs show ?thesis
    using open_txn_inv [OF inv] by (auto simp: run_delete_def spec_delete_def Let_def)
qed (simp add: run_delete_def)

end
