(* ===== verification/Sql_Transactions.thy ===== *)
theory Sql_Transactions
  imports Sql_Storage
begin

text \<open>
  Statements on whole tables and transactions of the database: creating and altering tables, commit and rollback. The invariant
  holds in every reachable database; statements are refined from operations on maps of rows; a commit makes
  exactly the rows permanent that its transaction saw; after a rollback every table reads as at its beginning.
\<close>

subsection \<open>Create and alter\<close>

definition spec_create :: "create_table_statement \<Rightarrow> abs_database \<Rightarrow> (db_error, abs_database) fallible" where
  "spec_create ct A =
     (if A (ct_table ct) \<noteq> None then try_err (TableAlreadyExists (ct_table ct))
      else try_ok (A(ct_table ct \<mapsto>
        (\<lparr>sc_columns = ''id'' # map cd_name (ct_columns ct), sc_types = CInt # map cd_ctype (ct_columns ct)\<rparr>, 0, Map.empty))))"

text \<open>A new schema, and what happens to each row.\<close>

definition remove_at :: "nat \<Rightarrow> 'a list \<Rightarrow> 'a list" where
  "remove_at i xs = take i xs @ drop (Suc i) xs"

fun spec_change :: "alter_table_op \<Rightarrow> schema \<Rightarrow> (db_error, schema \<times> (row \<Rightarrow> row)) fallible" where
  "spec_change (AddColumn col) s =
     (if cd_name col \<in> set (sc_columns s) then try_err (Unsupported (''column '' @ quoted (cd_name col) @ '' already exists''))
      else try_ok (\<lparr>sc_columns = sc_columns s @ [cd_name col], sc_types = sc_types s @ [cd_ctype col]\<rparr>, \<lambda>r. r @ [VNull]))"
| "spec_change (DropColumn name) s =
     try_bind (try_some (DbUnknownColumn name) (index_of s name)) (\<lambda>i.
       if i = 0 then try_err (Unsupported ''cannot drop the implicit id column'')
       else try_ok (\<lparr>sc_columns = remove_at i (sc_columns s), sc_types = remove_at i (sc_types s)\<rparr>, remove_at i))"
| "spec_change (RenameColumn old_name new_name) s =
     try_bind (try_some (DbUnknownColumn old_name) (index_of s old_name)) (\<lambda>i.
       if i = 0 then try_err (Unsupported ''cannot rename the implicit id column'')
       else if new_name \<in> set (sc_columns s) then try_err (Unsupported (''column '' @ quoted new_name @ '' already exists''))
       else try_ok (s\<lparr>sc_columns := (sc_columns s)[i := new_name]\<rparr>, \<lambda>r. r))"

definition spec_alter :: "alter_table_statement \<Rightarrow> abs_database \<Rightarrow> (db_error, abs_database) fallible" where
  "spec_alter al A =
     try_bind (try_some (UnknownTable (al_table al)) (A (al_table al))) (\<lambda>(s, n, rows).
     try_bind (spec_change (al_op al) s) (\<lambda>(s', g).
       try_ok (A(al_table al \<mapsto> (s', n, map_option g \<circ> rows)))))"

lemma run_create_refines:
  assumes inv: "db_inv db" and width: "Suc (length (ct_columns ct)) < 2 ^ 16"
  shows "refined (db_in_transaction db) (abs_db db) (spec_create ct (abs_db db)) (run_create_table ct db)"
proof (cases "db_table db (ct_table ct)")
  case (Some ts)
  with inv abs_db_Some [OF Some] show ?thesis by (simp add: run_create_table_def spec_create_def)
next
  case None
  let ?name = "ct_table ct"
  let ?s = "\<lparr>sc_columns = ''id'' # map cd_name (ct_columns ct), sc_types = CInt # map cd_ctype (ct_columns ct)\<rparr>"
  let ?db = "db\<lparr>db_tables := db_tables db @ [(?name, new_storage ?s)]\<rparr>"
  have tables: "db_table ?db m = (if m = ?name then Some (new_storage ?s) else db_table db m)" for m
    using None by (auto simp: db_table_def map_add_def split: option.splits)
  have txns: "db_txn ?db = db_txn db" by (simp add: db_txn_def fun_eq_iff)
  have other: "db_table ?db m = db_table db m \<and> db_txn ?db m = db_txn db m" if "m \<noteq> ?name" for m
    using that by (simp add: tables txns)
  have ts: "db_table ?db ?name = Some (new_storage ?s)" by (simp add: tables)
  have r: "table_rel (new_storage ?s) Map.empty"
    using width blink_rel_new mvcc_inv_new
    by (auto simp: table_rel_def new_storage_def schema_ok_def rows_fit_def holds_rows_def bt_get_def fun_eq_iff intro!: exI [of _ "[]"])
  have "db_txn db ?name = None" using inv None by (auto simp: db_inv_def)
  then have b: "pending_rel (new_storage ?s) (db_txn ?db ?name) Map.empty" by (simp add: txns pending_rel_None)
  have "db_inv ?db"
    by (rule db_inv_step [OF inv other ts r b]) (use inv in \<open>simp_all add: db_inv_def\<close>)
  moreover have "abs_db ?db = (abs_db db)(?name \<mapsto> (?s, 0, Map.empty))"
    by (rule trans [OF abs_db_step [OF other ts r b]]) (simp_all add: new_storage_def)
  ultimately show ?thesis using None abs_db_None [OF None] by (simp add: run_create_table_def spec_create_def Let_def)
qed

lemma reencode_rows_rel:
  assumes m: "blink_rel tree m" "bt_get m = map_option encode_row \<circ> M"
    and rows: "\<And>i r. M i = Some r \<Longrightarrow> row_ok r \<and> f r = Some (g r)"
  shows "reencode_rows f tree js = try_ok (concat (map (\<lambda>i. case M i of None \<Rightarrow> [] | Some r \<Rightarrow> [(i, encode_row (g r))]) js))"
proof (induction js)
  case (Cons i js)
  show ?case
  proof (cases "M i")
    case None
    with Cons m show ?thesis by (simp add: blink_get_correct)
  next
    case (Some r)
    with rows decode_encode_row [of r "[]"] have "Some (try_decode_row (encode_row r)) = try_ok r" "f r = Some (g r)"
      by (simp_all add: try_ok_def)
    with Cons m Some show ?thesis by (simp add: blink_get_correct)
  qed
qed simp

lemma insert_all_rel:
  assumes "holds_rows t M'"
  shows "\<exists>t'. insert_all (concat (map (\<lambda>i. case M i of None \<Rightarrow> [] | Some r \<Rightarrow> [(i, encode_row (g r))]) js)) t = Some t' \<and>
    holds_rows t' (\<lambda>i. if i \<in> set js \<and> M i \<noteq> None then map_option g (M i) else M' i)"
  using assms
proof (induction js arbitrary: t M')
  case (Cons i js)
  show ?case
  proof (cases "M i")
    case None
    then have "(\<lambda>j. if j \<in> set (i # js) \<and> M j \<noteq> None then map_option g (M j) else M' j) =
        (\<lambda>j. if j \<in> set js \<and> M j \<noteq> None then map_option g (M j) else M' j)" by (intro ext) auto
    with Cons.IH [OF Cons.prems] None show ?thesis by simp
  next
    case (Some r)
    from holds_rows_insert [OF Cons.prems, of i "g r"] obtain t1 where
      t1: "blink_insert t i (encode_row (g r)) = Some t1" "holds_rows t1 (M'(i \<mapsto> g r))" by blast
    have "(\<lambda>j. if j \<in> set (i # js) \<and> M j \<noteq> None then map_option g (M j) else M' j) =
        (\<lambda>j. if j \<in> set js \<and> M j \<noteq> None then map_option g (M j) else (M'(i \<mapsto> g r)) j)" using Some by (intro ext) auto
    with Cons.IH [OF t1(2)] t1(1) Some show ?thesis by simp
  qed
qed simp

lemma rewrite_rows_rel:
  assumes t: "table_rel ts M" and f: "\<And>r. row_fits (st_schema ts) r \<Longrightarrow> f r = Some (g r)"
  shows "\<exists>tree. rewrite_rows f ts = try_ok (ts\<lparr>st_tree := tree\<rparr>) \<and> holds_rows tree (map_option g \<circ> M)"
proof -
  let ?js = "[0..<st_next_row_id ts]"
  from t obtain m where m: "blink_rel (st_tree ts) m" "bt_get m = map_option encode_row \<circ> M"
    by (auto simp: table_rel_def holds_rows_def)
  have fits: "i < st_next_row_id ts \<and> row_fits (st_schema ts) r" if "M i = Some r" for i r
    using t that by (simp add: table_rel_def rows_fit_def)
  have enc: "reencode_rows f (st_tree ts) ?js = try_ok (concat (map (\<lambda>i. case M i of None \<Rightarrow> [] | Some r \<Rightarrow> [(i, encode_row (g r))]) ?js))"
    by (rule reencode_rows_rel [OF m]) (use fits f in \<open>auto simp: row_fits_def\<close>)
  have "holds_rows (st_tree ts) M" using m by (auto simp: holds_rows_def)
  from insert_all_rel [OF this, where M = M and g = g and js = ?js] obtain tree where
    tree: "insert_all (concat (map (\<lambda>i. case M i of None \<Rightarrow> [] | Some r \<Rightarrow> [(i, encode_row (g r))]) ?js)) (st_tree ts) = Some tree"
      "holds_rows tree (\<lambda>i. if i \<in> set ?js \<and> M i \<noteq> None then map_option g (M i) else M i)" by blast
  have "(\<lambda>i. if i \<in> set ?js \<and> M i \<noteq> None then map_option g (M i) else M i) = map_option g \<circ> M"
  proof
    fix x
    show "(if x \<in> set ?js \<and> M x \<noteq> None then map_option g (M x) else M x) = (map_option g \<circ> M) x"
      by (cases "M x") (use fits [of x] in auto)
  qed
  with tree enc show ?thesis by (auto simp: rewrite_rows_def)
qed

lemma length_remove_at: "i < length xs \<Longrightarrow> length (remove_at i xs) = length xs - 1"
  by (simp add: remove_at_def)

text \<open>What an alteration does to a table, and that its rows fit the new schema.\<close>

lemma alter_rel:
  assumes t: "table_rel ts M" and width: "Suc (length (sc_columns (st_schema ts))) < 2 ^ 16"
    and res: "res = (case a of AddColumn col \<Rightarrow> add_column col ts | DropColumn name \<Rightarrow> drop_column name ts
      | RenameColumn old_name new_name \<Rightarrow> rename_column old_name new_name ts)"
  shows "(\<exists>e. spec_change a (st_schema ts) = try_err e \<and> res = try_err e) \<or>
    (\<exists>s g tree. spec_change a (st_schema ts) = try_ok (s, g) \<and> res = try_ok (ts\<lparr>st_tree := tree, st_schema := s\<rparr>) \<and>
      holds_rows tree (map_option g \<circ> M) \<and> schema_ok s \<and> (\<forall>r. row_fits (st_schema ts) r \<longrightarrow> row_fits s (g r)))"
proof (cases a)
  case (AddColumn col)
  show ?thesis
  proof (cases "cd_name col \<in> set (sc_columns (st_schema ts))")
    case False
    from rewrite_rows_rel [OF t, of "\<lambda>vals. Some (vals @ [VNull])" "\<lambda>r. r @ [VNull]"] obtain tree where
      "rewrite_rows (\<lambda>vals. Some (vals @ [VNull])) ts = try_ok (ts\<lparr>st_tree := tree\<rparr>)" "holds_rows tree (map_option (\<lambda>r. r @ [VNull]) \<circ> M)"
      by auto
    with AddColumn False res t width show ?thesis
      by (auto simp: add_column_def Let_def schema_ok_def table_rel_def row_fits_def row_ok_def)
  qed (use AddColumn res in \<open>simp add: add_column_def Let_def\<close>)
next
  case (DropColumn name)
  show ?thesis
  proof (cases "index_of (st_schema ts) name")
    case None
    with DropColumn res show ?thesis by (simp add: drop_column_def Let_def index_of_def)
  next
    case (Some i)
    then have i: "i < length (sc_columns (st_schema ts))" by (rule index_of_less)
    then have types: "i < length (sc_types (st_schema ts))" using t by (simp add: table_rel_def schema_ok_def)
    show ?thesis
    proof (cases "i = 0")
      case True
      with DropColumn res Some show ?thesis by (simp add: drop_column_def Let_def index_of_def)
    next
      case False
      have "row_fits (st_schema ts) r \<Longrightarrow> map_option snd (vec_remove i r) = Some (remove_at i r)" for r
        using i by (simp add: row_fits_def vec_remove_def remove_at_def)
      with rewrite_rows_rel [OF t, of "\<lambda>r. map_option snd (vec_remove i r)" "remove_at i"] obtain tree where
        tree: "rewrite_rows (\<lambda>r. map_option snd (vec_remove i r)) ts = try_ok (ts\<lparr>st_tree := tree\<rparr>)" "holds_rows tree (map_option (remove_at i) \<circ> M)"
        by auto
      let ?s = "\<lparr>sc_columns = remove_at i (sc_columns (st_schema ts)), sc_types = remove_at i (sc_types (st_schema ts))\<rparr>"
      have "res = try_ok (ts\<lparr>st_tree := tree, st_schema := ?s\<rparr>)" "spec_change a (st_schema ts) = try_ok (?s, remove_at i)"
        using DropColumn res Some False i types tree(1) by (simp_all add: drop_column_def Let_def index_of_def vec_remove_def remove_at_def)
      moreover have "schema_ok ?s"
        using t False i types width by (auto simp: schema_ok_def table_rel_def length_remove_at) (simp add: remove_at_def)
      moreover have "row_fits ?s (remove_at i r)" if "row_fits (st_schema ts) r" for r
        using that i by (auto simp: row_fits_def row_ok_def length_remove_at list_all_iff) (auto simp: remove_at_def dest: in_set_takeD in_set_dropD)
      ultimately show ?thesis using tree(2) by blast
    qed
  qed
next
  case (RenameColumn old_name new_name)
  have "holds_rows (st_tree ts) M" "schema_ok (st_schema ts)" using t by (simp_all add: table_rel_def)
  with RenameColumn res show ?thesis
    by (cases "index_of (st_schema ts) old_name")
      (auto simp: rename_column_def Let_def index_of_def schema_ok_def row_fits_def option.map_ident comp_def intro!: exI [of _ "st_tree ts"])
qed

lemma run_alter_refines:
  assumes inv: "db_inv db" and none: "db_txn db (al_table al) = None"
    and width: "\<And>s. table_schema db (al_table al) = Some s \<Longrightarrow> Suc (length (sc_columns s)) < 2 ^ 16"
  shows "refined (db_in_transaction db) (abs_db db) (spec_alter al (abs_db db)) (run_alter_table al db)"
proof (cases "db_table db (al_table al)")
  case None
  with inv show ?thesis by (simp add: run_alter_table_def spec_alter_def abs_db_None)
next
  case (Some ts)
  let ?name = "al_table al"
  from db_invD [OF inv Some] obtain M W where t: "table_rel ts M" and "pending_rel ts (db_txn db ?name) W" "table_view db ?name = overlay W M"
    by blast
  with none have view: "table_view db ?name = M" by (simp add: pending_rel_None)
  have abs: "abs_db db ?name = Some (st_schema ts, st_next_row_id ts, M)" using abs_db_Some [OF Some] view by simp
  let ?res = "case al_op al of AddColumn col \<Rightarrow> add_column col ts | DropColumn name \<Rightarrow> drop_column name ts
      | RenameColumn old_name new_name \<Rightarrow> rename_column old_name new_name ts"
  have "Suc (length (sc_columns (st_schema ts))) < 2 ^ 16" using width Some by (simp add: table_schema_def)
  from alter_rel [OF t this refl, of "al_op al"] consider
      (bad) e where "spec_change (al_op al) (st_schema ts) = try_err e" "?res = try_err e"
    | (good) s g tree where "spec_change (al_op al) (st_schema ts) = try_ok (s, g)" "?res = try_ok (ts\<lparr>st_tree := tree, st_schema := s\<rparr>)"
      "holds_rows tree (map_option g \<circ> M)" "schema_ok s" "\<And>r. row_fits (st_schema ts) r \<Longrightarrow> row_fits s (g r)" by blast
  then show ?thesis
  proof cases
    case bad
    with inv Some abs show ?thesis by (simp add: run_alter_table_def spec_alter_def)
  next
    case good
    let ?ts = "ts\<lparr>st_tree := tree, st_schema := s\<rparr>"
    let ?db = "set_table ?name ?ts db"
    have t': "table_rel ?ts (map_option g \<circ> M)" using t good(3-5) by (auto simp: table_rel_def rows_fit_def)
    have b: "pending_rel ?ts (db_txn ?db ?name) Map.empty" using none by (simp add: pending_rel_None)
    have other: "db_table ?db m = db_table db m \<and> db_txn ?db m = db_txn db m" if "m \<noteq> ?name" for m using that by simp
    have ts: "db_table ?db ?name = Some ?ts" by simp
    have "db_inv ?db" by (rule db_inv_step [OF inv other ts t' b]) (use inv in \<open>simp_all add: db_inv_def\<close>)
    moreover have "abs_db ?db = (abs_db db)(?name \<mapsto> (s, st_next_row_id ts, map_option g \<circ> M))"
      by (rule trans [OF abs_db_step [OF other ts t' b]]) simp_all
    ultimately show ?thesis using Some abs good(1,2) by (simp add: run_alter_table_def spec_alter_def)
  qed
qed

subsection \<open>Commit\<close>

lemma latest_not_ahead: "mvcc_inv st \<Longrightarrow> latest_commit_ts st k = Some t \<Longrightarrow> t \<le> ms_clock st"
  by (auto simp: mvcc_inv_def chain_ok_def latest_commit_ts_def last_version_def bind_eq_Some_conv split: if_splits)

lemma fresh_not_stale: "mvcc_inv st \<Longrightarrow> txn_fresh st t \<Longrightarrow> \<not> stale st t k"
  by (auto simp: stale_def txn_fresh_def split: option.splits dest: latest_not_ahead)

lemma fresh_commits:
  assumes "mvcc_inv st" and "txn_fresh st t" and "bt_wf (mt_writes t)" and "ms_clock st + 1 < 2 ^ 64"
  shows "\<exists>st' ts. mvcc_commit st t = Some (st', Inr ts) \<and> mvcc_inv st'"
proof -
  have "\<not> list_ex (stale st t) (mt_reads t @ bt_keys (mt_writes t))"
    using fresh_not_stale [OF assms(1,2)] by (simp add: list_ex_iff)
  then obtain st' where "mvcc_commit st t = Some (st', Inr (ms_clock st + 1))"
    using assms(4) by (simp add: mvcc_commit_def checked_add_def)
  with commit_inv [OF assms(1) _ assms(3)] show ?thesis by blast
qed

text \<open>Buffered writes one after the other.\<close>

definition apply_writes :: "(nat \<times> row option) list \<Rightarrow> rows \<Rightarrow> rows" where
  "apply_writes xs M = fold (\<lambda>(i, x) M. M(i := x)) xs M"

lemma apply_writes_overlay: "distinct (map fst xs) \<Longrightarrow> apply_writes xs M = overlay (map_of xs) M"
proof (induction xs arbitrary: M)
  case (Cons x xs)
  obtain i v where x: "x = (i, v)" by (cases x)
  have "i \<notin> dom (map_of xs)" using Cons.prems x by (simp add: dom_map_of_conv_image_fst)
  then have "overlay (map_of xs) (M(i := v)) = overlay ((map_of xs)(i \<mapsto> v)) M"
    by (auto simp: overlay_def fun_eq_iff split: option.splits)
  with Cons x show ?case by (simp add: apply_writes_def fun_upd_def)
qed (simp add: apply_writes_def)

lemma commit_writes_rel:
  assumes "table_rel ts M" and "\<And>i x. (i, x) \<in> set xs \<Longrightarrow> i < st_next_row_id ts \<and> pred_option (row_fits (st_schema ts)) x"
  shows "\<exists>ts'. commit_writes ops (map (\<lambda>(i, x). (i, wrap_write x)) xs) ts = Some (ts', Inr ()) \<and> same_meta ts ts' \<and>
    table_rel ts' (apply_writes xs M)"
  using assms
proof (induction xs arbitrary: ts M)
  case Nil
  with maybe_build_rel [OF Nil(1), of ops] show ?case by (simp add: apply_writes_def)
next
  case (Cons p xs)
  obtain i x where p: "p = (i, x)" by (cases p)
  with Cons.prems(2) [of i x] have i: "i < st_next_row_id ts" "pred_option (row_fits (st_schema ts)) x" by simp_all
  have "\<exists>ts1. commit_writes ops (map (\<lambda>(i, x). (i, wrap_write x)) (p # xs)) ts = commit_writes ops (map (\<lambda>(i, x). (i, wrap_write x)) xs) ts1 \<and>
      same_meta ts ts1 \<and> table_rel ts1 (M(i := x))"
  proof (cases x)
    case None
    with erase_row_rel [OF Cons.prems(1), of ops i] p show ?thesis
      by (auto simp: mvcc_wrap_tombstone_def vec_get_def)
  next
    case (Some r)
    with i(2) have fit: "row_fits (st_schema ts) r" by simp
    from store_row_rel [OF Cons.prems(1) fit i(1), of ops] obtain ts1 where
      "store_row ops i r ts = Some ts1" "same_meta ts ts1" "table_rel ts1 (M(i \<mapsto> r))" by blast
    with Some p decode_fitting [OF fit, of i] show ?thesis
      by (auto simp: mvcc_wrap_row_def vec_get_def MVCC_LIVE_def MVCC_TOMBSTONE_def store_row_def bind_eq_Some_conv)
  qed
  then obtain ts1 where ts1: "commit_writes ops (map (\<lambda>(i, x). (i, wrap_write x)) (p # xs)) ts = commit_writes ops (map (\<lambda>(i, x). (i, wrap_write x)) xs) ts1"
    "same_meta ts ts1" "table_rel ts1 (M(i := x))" by blast
  have "j < st_next_row_id ts1 \<and> pred_option (row_fits (st_schema ts1)) y" if "(j, y) \<in> set xs" for j y
    using Cons.prems(2) [of j y] that ts1(2) by (simp add: same_meta_def)
  from Cons.IH [OF ts1(3) this] obtain ts' where
    ts': "commit_writes ops (map (\<lambda>(i, x). (i, wrap_write x)) xs) ts1 = Some (ts', Inr ())" "same_meta ts1 ts'"
      "table_rel ts' (apply_writes xs (M(i := x)))" by blast
  have "apply_writes (p # xs) M = apply_writes xs (M(i := x))" by (simp add: apply_writes_def p)
  with ts'(3) ts1(1) ts'(1) same_meta_trans [OF ts1(2) ts'(2)] show ?case by metis
qed

lemma writes_of_txn:
  assumes "holds_writes t W"
  obtains xs where "writes_iter t = map (\<lambda>(i, x). (i, wrap_write x)) xs" "distinct (map fst xs)" "map_of xs = W"
proof -
  let ?xs = "map (\<lambda>(i, bs). (i, the (W i))) (mt_writes t)"
  from assms have d: "distinct (map fst (mt_writes t))" and get: "map_of (mt_writes t) = map_option wrap_write \<circ> W"
    by (auto simp: holds_writes_def bt_wf_def bt_get_def strict_sorted_iff fun_eq_iff)
  have w: "\<exists>x. W i = Some x \<and> bs = wrap_write x" if "(i, bs) \<in> set (mt_writes t)" for i bs
  proof -
    have "map_of (mt_writes t) i = Some bs" using d that by simp
    with get show ?thesis by (auto simp: fun_eq_iff)
  qed
  have "map (\<lambda>p. (fst p, wrap_write (the (W (fst p))))) (mt_writes t) = mt_writes t"
    by (rule map_idI) (use w in fastforce)
  then have eq: "mt_writes t = map (\<lambda>(i, x). (i, wrap_write x)) ?xs" by (simp add: comp_def split_beta)
  have fst: "map fst ?xs = map fst (mt_writes t)" by (auto simp: split_beta)
  have get': "map_of ?xs = W"
  proof
    fix i
    show "map_of ?xs i = W i"
    proof (cases "W i")
      case None
      with get have "map_of (mt_writes t) i = None" by (simp add: fun_eq_iff)
      then have "i \<notin> set (map fst ?xs)" unfolding fst by (simp add: map_of_eq_None_iff)
      with None show ?thesis by (simp only: map_of_eq_None_iff set_map not_False_eq_True)
    next
      case (Some x)
      with get have "map_of (mt_writes t) i = Some (wrap_write x)" by (simp add: fun_eq_iff)
      then have "(i, the (W i)) \<in> set ?xs" by (force dest: map_of_SomeD)
      with d fst Some show ?thesis by (simp only: map_of_eq_Some_iff option.sel)
    qed
  qed
  have "distinct (map fst ?xs)" unfolding fst by (rule d)
  with that [of ?xs] eq get' show ?thesis unfolding writes_iter_def by blast
qed

lemma commit_table_step:
  assumes inv: "db_inv db" and mode: "\<not> db_in_transaction db" and ts: "db_table db name = Some ts" and t: "table_rel ts M"
    and b: "pending_rel ts (Some txn) W" and clock: "ms_clock (st_mvcc ts) + 1 < 2 ^ 64"
  shows "\<exists>ts'. commit_table ops (name, txn) db = Some (set_table name ts' db, Inr ()) \<and> db_inv (set_table name ts' db) \<and>
    table_rel ts' (overlay W M) \<and> st_schema ts' = st_schema ts \<and> st_next_row_id ts' = st_next_row_id ts"
proof -
  from b have w: "txn_fresh (st_mvcc ts) txn" "holds_writes txn W" and fit: "writes_fit (st_schema ts) (st_next_row_id ts) W"
    by (auto simp: pending_rel_def txn_rel_def)
  from w(2) have "bt_wf (mt_writes txn)" by (simp add: holds_writes_def)
  with fresh_commits [OF _ w(1) _ clock] t obtain st c where st: "mvcc_commit (st_mvcc ts) txn = Some (st, Inr c)" "mvcc_inv st"
    by (auto simp: table_rel_def)
  from writes_of_txn [OF w(2)] obtain xs where xs: "writes_iter txn = map (\<lambda>(i, x). (i, wrap_write x)) xs" "distinct (map fst xs)" "map_of xs = W"
    by blast
  let ?ts = "ts\<lparr>st_mvcc := st\<rparr>"
  have t': "table_rel ?ts M" using t st(2) by (simp add: table_rel_def)
  have ws: "i < st_next_row_id ?ts \<and> pred_option (row_fits (st_schema ?ts)) x" if "(i, x) \<in> set xs" for i x
    using that fit xs(2,3) by (auto simp: writes_fit_def split: option.splits) (cases x; auto)
  have "\<exists>ts'. commit_writes ops (map (\<lambda>(i, x). (i, wrap_write x)) xs) ?ts = Some (ts', Inr ()) \<and> same_meta ?ts ts' \<and>
      table_rel ts' (apply_writes xs M)" by (rule commit_writes_rel [OF t']) (rule ws)
  then obtain ts' where
    "commit_writes ops (writes_iter txn) ?ts = Some (ts', Inr ())" "same_meta ?ts ts'" "table_rel ts' (overlay W M)"
    using xs apply_writes_overlay [OF xs(2), of M] by auto
  with st(1) ts set_table_rel(1) [OF inv mode _ ts] show ?thesis by (auto simp: commit_table_def same_meta_def)
qed

definition clocks_ok :: "'x database \<Rightarrow> bool" where
  "clocks_ok db \<longleftrightarrow> list_all (\<lambda>(name, ts). ms_clock (st_mvcc ts) + 1 < 2 ^ 64) (db_tables db)"

lemma clocks_okD: "clocks_ok db \<Longrightarrow> db_table db name = Some ts \<Longrightarrow> ms_clock (st_mvcc ts) + 1 < 2 ^ 64"
  by (auto simp: clocks_ok_def list_all_iff db_table_def dest!: map_of_SomeD)

lemma commit_tables_rel:
  assumes "db_inv db" and "\<not> db_in_transaction db" and "distinct (map fst txns)"
    and "\<And>name txn. (name, txn) \<in> set txns \<Longrightarrow>
      \<exists>ts M W. db_table db name = Some ts \<and> table_rel ts M \<and> pending_rel ts (Some txn) W \<and> ms_clock (st_mvcc ts) + 1 < 2 ^ 64"
  shows "\<exists>db'. commit_tables ops txns db = Some (db', Inr ()) \<and> db_inv db' \<and> \<not> db_in_transaction db' \<and>
    abs_db db' = abs_db (db\<lparr>db_active_txns := txns\<rparr>)"
  using assms
proof (induction txns arbitrary: db)
  case Nil
  then have "db\<lparr>db_active_txns := []\<rparr> = db" by (cases db) (simp add: db_inv_def)
  with Nil show ?case by simp
next
  case (Cons e txns)
  obtain name txn where e: "e = (name, txn)" by (cases e)
  with Cons.prems(4) [of name txn] obtain ts M W where ts: "db_table db name = Some ts" and r: "table_rel ts M" "pending_rel ts (Some txn) W"
    and clock: "ms_clock (st_mvcc ts) + 1 < 2 ^ 64" by auto
  from commit_table_step [OF Cons.prems(1,2) ts r clock, of ops] obtain ts' where
    step: "commit_table ops e db = Some (set_table name ts' db, Inr ())" "db_inv (set_table name ts' db)" "table_rel ts' (overlay W M)"
      "st_schema ts' = st_schema ts" "st_next_row_id ts' = st_next_row_id ts" unfolding e by blast
  let ?db = "set_table name ts' db"
  have new: "name \<notin> fst ` set txns" "distinct (map fst txns)" using Cons.prems(3) e by auto
  have "\<exists>ts M W. db_table ?db m = Some ts \<and> table_rel ts M \<and> pending_rel ts (Some u) W \<and> ms_clock (st_mvcc ts) + 1 < 2 ^ 64"
    if "(m, u) \<in> set txns" for m u
  proof -
    from that new(1) have "m \<noteq> name" by force
    with Cons.prems(4) [of m u] that show ?thesis by simp
  qed
  from Cons.IH [OF step(2) _ new(2) this] Cons.prems(2) obtain db' where
    db': "commit_tables ops txns ?db = Some (db', Inr ())" "db_inv db'" "\<not> db_in_transaction db'"
      "abs_db db' = abs_db (?db\<lparr>db_active_txns := txns\<rparr>)" by auto
  have "abs_db (?db\<lparr>db_active_txns := txns\<rparr>) m = abs_db (db\<lparr>db_active_txns := e # txns\<rparr>) m" for m
  proof (cases "m = name")
    case True
    let ?a = "?db\<lparr>db_active_txns := txns\<rparr>" and ?b = "db\<lparr>db_active_txns := e # txns\<rparr>"
    have "map_of txns name = None" using new(1) by (simp add: map_of_eq_None_iff)
    then have "db_table ?a name = Some ts'" "pending_rel ts' (db_txn ?a name) Map.empty"
      by (simp_all add: db_table_def db_txn_def set_table_def update_conv' pending_rel_None)
    moreover have "db_table ?b name = Some ts" "pending_rel ts (db_txn ?b name) W"
      using ts r(2) e by (simp_all add: db_table_def db_txn_def)
    ultimately show ?thesis
      using True table_view_rel [of ?a name ts' "overlay W M" Map.empty] table_view_rel [of ?b name ts M W] step(3-5) r(1)
      by (simp add: abs_db_Some)
  next
    case False
    with e have "db_table (?db\<lparr>db_active_txns := txns\<rparr>) m = db_table (db\<lparr>db_active_txns := e # txns\<rparr>) m"
      "db_txn (?db\<lparr>db_active_txns := txns\<rparr>) m = db_txn (db\<lparr>db_active_txns := e # txns\<rparr>) m"
      by (simp_all add: db_table_def db_txn_def set_table_def update_conv')
    with table_view_cong [OF this] show ?thesis by (simp add: abs_db_def)
  qed
  then have "abs_db db' = abs_db (db\<lparr>db_active_txns := e # txns\<rparr>)" using db'(4) by (simp add: fun_eq_iff)
  with step(1) db'(1-3) show ?case by auto
qed

lemma run_commit_rel:
  assumes inv: "db_inv db" and mode: "db_in_transaction db" and clocks: "clocks_ok db"
  shows "\<exists>db'. run_commit ops db = Some (db', Inr ()) \<and> db_inv db' \<and> \<not> db_in_transaction db' \<and> abs_db db' = abs_db db"
proof -
  let ?db = "db\<lparr>db_in_transaction := False, db_active_txns := []\<rparr>"
  have tables: "db_table ?db = db_table db" by (simp add: db_table_def fun_eq_iff)
  have ok: "\<exists>M W. table_rel ts M \<and> pending_rel ts (db_txn db name) W" if "db_table db name = Some ts" for name ts
    using db_invD [OF inv that] by blast
  have "db_inv ?db"
    unfolding db_inv_def tables using ok by (auto simp: db_txn_def table_ok_def pending_rel_None)
  moreover have "\<exists>ts M W. db_table ?db name = Some ts \<and> table_rel ts M \<and> pending_rel ts (Some txn) W \<and> ms_clock (st_mvcc ts) + 1 < 2 ^ 64"
    if "(name, txn) \<in> set (db_active_txns db)" for name txn
  proof -
    have txn: "db_txn db name = Some txn" using that inv by (simp add: db_inv_def db_txn_def)
    with inv obtain ts where ts: "db_table db name = Some ts" by (auto simp: db_inv_def)
    with ok [OF ts] txn clocks_okD [OF clocks ts] show ?thesis by (auto simp: tables)
  qed
  moreover have "distinct (map fst (db_active_txns db))" using inv by (simp add: db_inv_def)
  ultimately obtain db' where db': "commit_tables ops (db_active_txns db) ?db = Some (db', Inr ())" "db_inv db'" "\<not> db_in_transaction db'"
    "abs_db db' = abs_db (?db\<lparr>db_active_txns := db_active_txns db\<rparr>)"
    using commit_tables_rel [of ?db "db_active_txns db" ops] by auto
  have "table_view (?db\<lparr>db_active_txns := db_active_txns db\<rparr>) m = table_view db m" for m
    by (rule table_view_cong) (simp_all add: db_table_def db_txn_def)
  then have "abs_db (?db\<lparr>db_active_txns := db_active_txns db\<rparr>) = abs_db db"
    by (intro ext) (simp add: abs_db_def db_table_def)
  with db' mode show ?thesis by (auto simp: run_commit_def)
qed

subsection \<open>All statements\<close>

text \<open>
  What the statements of a client respect: values of the range of their types, fewer than 65535 columns,
  \<open>2 ^ 64\<close> rows and commits, and no \<open>ALTER TABLE\<close> on a table that the open transaction has written to.
\<close>

definition statement_ok :: "'x database \<Rightarrow> statement \<Rightarrow> bool" where
  "statement_ok db st = (case st of
     StInsert i \<Rightarrow> list_all literal_ok (is_values i) \<and> room_for_rows db (is_table i)
   | StUpdate u \<Rightarrow> assignments_ok u
   | StCreateTable ct \<Rightarrow> Suc (length (ct_columns ct)) < 2 ^ 16
   | StAlterTable al \<Rightarrow> db_txn db (al_table al) = None \<and>
       pred_option (\<lambda>s. Suc (length (sc_columns s)) < 2 ^ 16) (table_schema db (al_table al))
   | StCommit \<Rightarrow> clocks_ok db
   | _ \<Rightarrow> True)"

fun changes_tables :: "statement \<Rightarrow> bool" where
  "changes_tables (StInsert i) = True"
| "changes_tables (StUpdate u) = True"
| "changes_tables (StDelete d) = True"
| "changes_tables (StCreateTable ct) = True"
| "changes_tables (StAlterTable al) = True"
| "changes_tables _ = False"

fun spec_execute ::
    "(string \<Rightarrow> sql_expr option \<Rightarrow> (db_error, nat list) fallible) \<Rightarrow> statement \<Rightarrow> abs_database \<Rightarrow> (db_error, abs_database) fallible" where
  "spec_execute match (StInsert i) A = spec_insert i A"
| "spec_execute match (StUpdate u) A = try_bind (match (us_table u) (us_filter u)) (\<lambda>keys. spec_update u keys A)"
| "spec_execute match (StDelete d) A = try_bind (match (ds_table d) (ds_filter d)) (\<lambda>keys. spec_delete d keys A)"
| "spec_execute match (StCreateTable ct) A = spec_create ct A"
| "spec_execute match (StAlterTable al) A = spec_alter al A"
| "spec_execute match _ A = try_ok A"

lemma execute_refines:
  assumes "db_inv db" and "statement_ok db st" and "changes_tables st"
  shows "refined (db_in_transaction db) (abs_db db)
    (spec_execute (matching_row_ids (run_select_scoped se db (se_depth se)) db) st (abs_db db)) (db_execute se st ps db)"
proof (cases st)
  case (StAlterTable al)
  with assms show ?thesis by (auto simp: statement_ok_def intro!: refined_no_rows run_alter_refines)
qed (use assms in \<open>auto simp: statement_ok_def intro!: refined_no_rows
    run_insert_refines run_update_refines run_delete_refines run_create_refines\<close>)

lemma db_inv_frame:
  assumes "db_inv db" and "db_tables db' = db_tables db" and "db_active_txns db' = []"
  shows "db_inv db'"
proof -
  have t: "db_table db' = db_table db" using assms(2) by (simp add: db_table_def fun_eq_iff)
  have "table_ok db' name ts" if "db_table db name = Some ts" for name ts
    using db_invD [OF assms(1) that] assms(3) by (auto simp: table_ok_def db_txn_def pending_rel_None)
  with assms(3) t show ?thesis by (auto simp: db_inv_def db_txn_def)
qed

lemma db_inv_views: "db_inv db \<Longrightarrow> db_inv (db\<lparr>db_views := vs\<rparr>)"
proof -
  have "db_table (db\<lparr>db_views := vs\<rparr>) = db_table db" "db_txn (db\<lparr>db_views := vs\<rparr>) = db_txn db"
    by (simp_all add: db_table_def db_txn_def fun_eq_iff)
  then show "db_inv db \<Longrightarrow> db_inv (db\<lparr>db_views := vs\<rparr>)" by (auto simp: db_inv_def table_ok_def)
qed

lemma no_rows_Some: "no_rows m = Some (db', r) \<Longrightarrow> \<exists>q. m = Some (db', q)"
  by (auto simp: no_rows_def db_then_def split: option.splits sum.splits)

lemma refined_inv: "refined mode A spec (Some (db', r)) \<Longrightarrow> db_inv db'"
  by (cases spec rule: try_cases) auto

lemma db_inv_execute:
  assumes "db_inv db" and "statement_ok db st" and "db_execute se st ps db = Some (db', r)"
  shows "db_inv db'"
proof (cases "changes_tables st")
  case True
  from execute_refines [OF assms(1,2) True, of se ps] assms(3) show ?thesis by (auto dest: refined_inv)
next
  case False
  show ?thesis
  proof (cases st)
    case (StCreateView cv)
    with assms(1,3) show ?thesis
      by (auto simp: run_create_view_def db_inv_views dest!: no_rows_Some split: if_splits)
  next
    case (StDropView name)
    with assms(1,3) show ?thesis
      by (auto simp: run_drop_view_def db_inv_views bind_eq_Some_conv dest!: no_rows_Some split: option.splits)
  next
    case StBegin
    with assms(1,3) show ?thesis
      by (auto simp: run_begin_def dest!: no_rows_Some split: if_splits intro: db_inv_frame)
  next
    case StRollback
    with assms(1,3) show ?thesis
      by (auto simp: run_rollback_def dest!: no_rows_Some split: if_splits intro: db_inv_frame)
  next
    case StCommit
    with assms obtain q where q: "run_commit (se_ops se) db = Some (db', q)" by (auto dest: no_rows_Some)
    show ?thesis
    proof (cases "db_in_transaction db")
      case True
      with run_commit_rel [OF assms(1) True, of "se_ops se"] StCommit assms(2) q show ?thesis by (auto simp: statement_ok_def)
    next
      case False
      with q assms(1) show ?thesis by (simp add: run_commit_def)
    qed
  qed (use assms False in auto)
qed

inductive reachable_db :: "'x settings \<Rightarrow> 'x database \<Rightarrow> bool" for se :: "'x settings" where
  reach_empty: "reachable_db se db_empty"
| reach_new: "schema_ok s \<Longrightarrow> reachable_db se (db_new s)"
| reach_step: "reachable_db se db \<Longrightarrow> statement_ok db st \<Longrightarrow> db_execute se st ps db = Some (db', r) \<Longrightarrow> reachable_db se db'"

lemma db_inv_empty: "db_inv db_empty"
  by (simp add: db_inv_def db_empty_def db_table_def db_txn_def)

lemma db_inv_new: "schema_ok s \<Longrightarrow> db_inv (db_new s)"
proof -
  assume s: "schema_ok s"
  have "table_rel (new_storage s) Map.empty"
    using s blink_rel_new mvcc_inv_new
    by (auto simp: table_rel_def new_storage_def rows_fit_def holds_rows_def bt_get_def fun_eq_iff intro!: exI [of _ "[]"])
  then show ?thesis
    by (auto simp: db_inv_def db_new_def db_empty_def db_table_def db_txn_def table_ok_def pending_rel_None)
qed

lemma reachable_inv: "reachable_db se db \<Longrightarrow> db_inv db"
  by (induction rule: reachable_db.induct) (auto intro: db_inv_empty db_inv_new db_inv_execute)

lemma scan_table_rel:
  assumes "db_inv db" and "db_table db name = Some ts"
  shows "\<exists>rows. scan_table db name = try_ok (sc_columns (st_schema ts), rows) \<and>
    list_all (\<lambda>r. length r = length (sc_columns (st_schema ts))) rows"
proof -
  from db_invD [OF assms] obtain M W where r: "table_rel ts M" "pending_rel ts (db_txn db name) W" by blast
  let ?rows = "concat (map (\<lambda>i. case overlay W M i of None \<Rightarrow> [] | Some r \<Rightarrow> [(i, r)]) [0..<st_next_row_id ts])"
  have "collect_rows (live_row ts (db_txn db name)) [0..<st_next_row_id ts] = try_ok ?rows"
    by (rule collect_rows_pure) (simp add: live_row_rel [OF r])
  moreover have "rows_fit (st_schema ts) (st_next_row_id ts) (overlay W M)"
    using r by (intro overlay_fit) (simp_all add: table_rel_def pending_rel_def)
  then have "list_all (\<lambda>r. length r = length (sc_columns (st_schema ts))) (map snd ?rows)"
    by (auto simp: list_all_iff rows_fit_def row_fits_def split: option.splits)
  ultimately show ?thesis using assms(2) by (simp add: scan_table_def)
qed

subsection \<open>Rollback\<close>

text \<open>Two databases with the same schemas and trees; row numbers may have been used up in between.\<close>

definition same_data :: "'x database \<Rightarrow> 'x database \<Rightarrow> bool" where
  "same_data db db' \<longleftrightarrow> (\<forall>name. rel_option (\<lambda>a b. st_schema a = st_schema b \<and> st_tree a = st_tree b \<and>
     st_next_row_id a \<le> st_next_row_id b) (db_table db name) (db_table db' name))"

lemma same_data_refl: "db_table db' = db_table db \<Longrightarrow> same_data db db'"
  by (simp add: same_data_def option.rel_refl)

lemma same_data_trans: "same_data a b \<Longrightarrow> same_data b c \<Longrightarrow> same_data a c"
  unfolding same_data_def by (rule allI, erule_tac x = name in allE, erule_tac x = name in allE) (auto elim!: option.rel_cases)

definition keeps_data :: "'x database \<Rightarrow> 'x database \<Rightarrow> bool" where
  "keeps_data db db' \<longleftrightarrow> db_in_transaction db' = db_in_transaction db \<and> same_data db db'"

lemma keeps_data_frame: "db_in_transaction db' = db_in_transaction db \<Longrightarrow> db_table db' = db_table db \<Longrightarrow> keeps_data db db'"
  by (simp add: keeps_data_def same_data_refl)

lemma keeps_data_trans: "keeps_data a b \<Longrightarrow> keeps_data b c \<Longrightarrow> keeps_data a c"
  by (auto simp: keeps_data_def intro: same_data_trans)

lemma db_try_Some:
  "db_try db m f = Some (db', r) \<longleftrightarrow> (\<exists>e. m = try_err e \<and> db' = db \<and> r = Inl e) \<or> (\<exists>x. m = try_ok x \<and> f x = Some (db', r))"
  by (cases m rule: try_cases) auto

lemma buffer_write_frame: "buffer_write name i bs db = Some db' \<Longrightarrow> db_table db' = db_table db \<and> db_in_transaction db' = db_in_transaction db"
  by (auto simp: buffer_write_def bind_eq_Some_conv)

lemma for_rows_keeps:
  assumes "\<And>i a b q. db_in_transaction a \<Longrightarrow> f i a = Some (b, q) \<Longrightarrow> keeps_data a b"
  shows "db_in_transaction db \<Longrightarrow> for_rows f js db = Some (db', r) \<Longrightarrow> keeps_data db db'"
proof (induction js arbitrary: db)
  case Nil
  then show ?case by (auto intro: keeps_data_frame)
next
  case (Cons i js)
  then obtain b q where b: "f i db = Some (b, q)" by (auto simp: db_then_def split: option.splits)
  from assms [OF Cons.prems(1) b] have k: "keeps_data db b" .
  then have "db_in_transaction b" using Cons.prems(1) by (simp add: keeps_data_def)
  with Cons b k show ?case by (cases q) (auto intro: keeps_data_trans)
qed

lemma insert_keeps_data:
  assumes "db_in_transaction db" and "run_insert_stmt ops stmt db = Some (db', r)"
  shows "keeps_data db db'"
proof -
  let ?name = "is_table stmt"
  let ?db = "open_txn ?name db"
  from assms consider "db' = ?db" | ts n where "db_table db ?name = Some ts" "n = st_next_row_id ts + 1"
      "db_table db' = db_table (set_table ?name (ts\<lparr>st_next_row_id := n\<rparr>) ?db)" "db_in_transaction db'"
    by (fastforce simp: run_insert_stmt_def Let_def db_try_Some try_some_ok bind_eq_Some_conv checked_add_def
        dest!: buffer_write_frame split: if_splits prod.splits)
  then show ?thesis
  proof cases
    case 1
    then show ?thesis by (simp add: keeps_data_frame)
  next
    case 2
    then show ?thesis using assms(1) by (auto simp: keeps_data_def same_data_def intro: option.rel_refl)
  qed
qed

lemma update_row_keeps: "db_in_transaction a \<Longrightarrow> update_row ops stmt i a = Some (b, q) \<Longrightarrow> keeps_data a b"
  by (auto simp: update_row_def Let_def db_try_Some keeps_data_frame split: option.splits dest!: buffer_write_frame)

lemma delete_row_keeps: "db_in_transaction a \<Longrightarrow> delete_row ops name i a = Some (b, q) \<Longrightarrow> keeps_data a b"
  by (auto simp: delete_row_def keeps_data_frame dest!: buffer_write_frame)

text \<open>Statements that read or change rows.\<close>

fun row_statement :: "statement \<Rightarrow> bool" where
  "row_statement (StSelect s) = True"
| "row_statement (StInsert i) = True"
| "row_statement (StUpdate u) = True"
| "row_statement (StDelete d) = True"
| "row_statement _ = False"

lemma open_txn_keeps: "keeps_data (open_txn name db) db' \<Longrightarrow> keeps_data db db'"
  by (rule keeps_data_trans [of db "open_txn name db"]) (simp_all add: keeps_data_frame)

lemma for_rows_open_keeps:
  assumes "\<And>i a b q. db_in_transaction a \<Longrightarrow> f i a = Some (b, q) \<Longrightarrow> keeps_data a b"
    and "db_in_transaction db" and "for_rows f js (open_txn name db) = Some (db', r)"
  shows "keeps_data db db'"
  by (rule open_txn_keeps [of name]) (rule for_rows_keeps [OF assms(1) _ assms(3)], use assms(2) in simp_all)

lemma execute_keeps_data:
  assumes "db_in_transaction db" and "row_statement st" and "db_execute se st ps db = Some (db', r)"
  shows "keeps_data db db'"
proof (cases st)
  case (StUpdate u)
  with assms(3) obtain q where q: "run_update se u db = Some (db', q)" by (auto dest: no_rows_Some)
  then show ?thesis unfolding run_update_def db_try_Some
    by (auto simp: keeps_data_frame for_rows_open_keeps [OF update_row_keeps assms(1)])
next
  case (StDelete d)
  with assms(3) obtain q where q: "run_delete se d db = Some (db', q)" by (auto dest: no_rows_Some)
  then show ?thesis unfolding run_delete_def Let_def db_try_Some
    by (auto simp: keeps_data_frame for_rows_open_keeps [OF delete_row_keeps assms(1)])
next
  case (StInsert i)
  with assms(3) obtain q where q: "run_insert_stmt (se_ops se) i db = Some (db', q)" by (auto dest: no_rows_Some)
  show ?thesis by (rule insert_keeps_data [OF assms(1) q])
qed (use assms in \<open>auto simp: keeps_data_frame\<close>)

fun run_session :: "'x settings \<Rightarrow> (statement \<times> params) list \<Rightarrow> 'x database \<Rightarrow> 'x database panics" where
  "run_session se [] db = Some db"
| "run_session se ((st, ps) # rest) db = do { (db', r) \<leftarrow> db_execute se st ps db; run_session se rest db' }"

lemma run_session_append: "run_session se (xs @ ys) db = Option.bind (run_session se xs db) (run_session se ys)"
proof (induction xs arbitrary: db)
  case (Cons x xs)
  then show ?case by (cases x; cases "db_execute se (fst x) (snd x) db") auto
qed simp

lemma session_keeps_data:
  "db_in_transaction db \<Longrightarrow> list_all (\<lambda>(st, ps). row_statement st) sts \<Longrightarrow> run_session se sts db = Some db' \<Longrightarrow> keeps_data db db'"
proof (induction sts arbitrary: db)
  case Nil
  then show ?case by (simp add: keeps_data_frame)
next
  case (Cons x sts)
  obtain st ps where x: "x = (st, ps)" by (cases x)
  from Cons.prems x obtain b q where b: "db_execute se st ps db = Some (b, q)" "run_session se sts b = Some db'"
    by (auto simp: bind_eq_Some_conv)
  have k: "keeps_data db b" using execute_keeps_data [OF Cons.prems(1) _ b(1)] Cons.prems(2) x by simp
  then have "db_in_transaction b" using Cons.prems(1) by (simp add: keeps_data_def)
  with Cons.IH [OF this _ b(2)] Cons.prems(2) x k show ?case by (auto intro: keeps_data_trans)
qed

lemma same_data_scan:
  assumes inv: "db_inv db" and none: "db_active_txns db = []" "db_active_txns db' = []" and same: "same_data db db'"
  shows "scan_table db' name = scan_table db name"
proof (cases "db_table db name")
  case None
  with same [unfolded same_data_def, THEN spec, of name] have "db_table db' name = None" by simp
  with None show ?thesis by (simp add: scan_table_def)
next
  case (Some ts)
  with same [unfolded same_data_def, THEN spec, of name] obtain ts' where ts': "db_table db' name = Some ts'" "st_schema ts' = st_schema ts" "st_tree ts' = st_tree ts"
    "st_next_row_id ts \<le> st_next_row_id ts'" by (auto simp: option_rel_Some1)
  from db_invD [OF inv Some] obtain M where t: "table_rel ts M" by blast
  let ?n = "st_next_row_id ts" and ?n' = "st_next_row_id ts'"
  let ?f = "\<lambda>i. case M i of None \<Rightarrow> [] | Some r \<Rightarrow> [(i, r)]"
  have txn: "db_txn db name = None" "db_txn db' name = None" using none by (simp_all add: db_txn_def)
  have "stored_row ts' i = stored_row ts i" for i unfolding stored_row_def ts'(2,3) by (rule refl)
  then have live: "live_row ts None i = try_ok (M i)" "live_row ts' None i = try_ok (M i)" for i
    using stored_row_rel [OF t, of i] by (simp_all add: live_row_def)
  have "M i = None" if "?n \<le> i" for i
    using t that by (cases "M i") (fastforce simp: table_rel_def rows_fit_def)+
  then have "concat (map ?f [?n..<?n']) = []" by simp
  moreover have "[0..<?n'] = [0..<?n] @ [?n..<?n']" using ts'(4) by (metis le_add_diff_inverse less_eq_nat.simps(1) upt_add_eq_append)
  ultimately have "collect_rows (live_row ts' None) [0..<?n'] = collect_rows (live_row ts None) [0..<?n]"
    using collect_rows_pure [of "[0..<?n']" "live_row ts' None" M] collect_rows_pure [of "[0..<?n]" "live_row ts None" M] live by simp
  with Some ts' txn show ?thesis by (simp add: scan_table_def)
qed

subsection \<open>Properties\<close>

text \<open>
  C3. Statements that change tables do to them what the specification on maps of row numbers to rows says, inside a transaction
  (where rows are buffered) and outside (where they go to the tree). INSERT adds one row under the next number; UPDATE computes all new rows
  and then replaces them; DELETE removes the matching rows; CREATE TABLE adds an empty table; ALTER TABLE changes every row
  with the schema. A statement that fails leaves every table as it was. \<open>matching_row_ids\<close> tells which rows the
  condition selects. A statement never panics unless its condition does. The hypotheses: the database satisfies \<open>db_inv\<close> (which every
  reachable database does), and \<open>statement_ok\<close>: literals fit their encoding, there is a row number left and fewer than
  \<open>2 ^ 16\<close> columns, and ALTER TABLE is not run on a table that the open transaction has touched. The last
  condition is needed: there the code loses the correspondence (\<open>alter_inside_transaction\<close> and \<open>commit_after_alter_fails\<close> of \<open>Sql_Anomalies\<close>).
\<close>

theorem statement_refines:
  assumes "db_inv db" and "statement_ok db st" and "changes_tables st"
  shows "refined (db_in_transaction db) (abs_db db)
    (spec_execute (matching_row_ids (run_select_scoped se db (se_depth se)) db) st (abs_db db)) (db_execute se st ps db)"
  by (rule execute_refines [OF assms])

text \<open>
  C13. In every database that statements within \<open>statement_ok\<close> produce, every table can be read: the scan returns rows
  of the width of the schema, and never a corrupt row or a panic. The statements exclude ALTER TABLE on a table that the open
  transaction has touched: with it the table becomes unreadable (\<open>commit_after_alter_fails\<close> of \<open>Sql_Anomalies\<close>).
\<close>

theorem reachable_tables_scan:
  assumes "reachable_db se db" and "db_table db name = Some ts"
  shows "\<exists>rows. scan_table db name = try_ok (sc_columns (st_schema ts), rows) \<and>
    list_all (\<lambda>r. length r = length (sc_columns (st_schema ts))) rows"
  by (rule scan_table_rel [OF reachable_inv [OF assms(1)] assms(2)])

text \<open>
  C4. COMMIT succeeds, without a conflict, in a database with an open transaction that statements within \<open>statement_ok\<close>
  have produced, and afterwards every table holds exactly what the statements of the transaction saw, now in the trees. The
  statements exclude ALTER TABLE on a table that the open transaction has touched, after which COMMIT does fail
  (\<open>commit_after_alter_fails\<close> of \<open>Sql_Anomalies\<close>), and the version clocks of the tables must have a next value in 64 bits.
\<close>

theorem commit_publishes:
  assumes "reachable_db se db" and "db_in_transaction db" and "clocks_ok db"
  shows "\<exists>db'. db_execute se StCommit ps db = Some (db', Inr empty_result_set) \<and> \<not> db_in_transaction db' \<and>
    db_active_txns db' = [] \<and> abs_db db' = abs_db db"
proof -
  from run_commit_rel [OF reachable_inv [OF assms(1)] assms(2,3), of "se_ops se"] obtain db' where
    "run_commit (se_ops se) db = Some (db', Inr ())" "db_inv db'" "\<not> db_in_transaction db'" "abs_db db' = abs_db db" by blast
  then show ?thesis by (auto simp: no_rows_def db_inv_def)
qed

text \<open>
  C5. After BEGIN, any sequence of queries and changes of rows, successful or not, and ROLLBACK, every table reads as before BEGIN.
\<close>

theorem rollback_restores:
  assumes "reachable_db se db" and "\<not> db_in_transaction db" and "list_all (\<lambda>(st, ps). row_statement st) sts"
    and "run_session se ((StBegin, []) # sts @ [(StRollback, [])]) db = Some db'"
  shows "\<not> db_in_transaction db' \<and> scan_table db' name = scan_table db name"
proof -
  let ?begun = "db\<lparr>db_in_transaction := True, db_active_txns := []\<rparr>"
  have inv: "db_inv db" by (rule reachable_inv [OF assms(1)])
  have "db_execute se StBegin [] db = Some (?begun, Inr empty_result_set)"
    using assms(2) by (simp add: run_begin_def no_rows_def)
  with assms(4) obtain db1 where db1: "run_session se sts ?begun = Some db1" "run_session se [(StRollback, [])] db1 = Some db'"
    by (auto simp: run_session_append bind_eq_Some_conv)
  have k: "keeps_data ?begun db1" by (rule session_keeps_data [OF _ assms(3) db1(1)]) simp
  then have db': "db' = db1\<lparr>db_in_transaction := False, db_active_txns := []\<rparr>"
    using db1(2) by (simp add: keeps_data_def run_rollback_def no_rows_def)
  have "db_table ?begun = db_table db" "db_table db' = db_table db1" by (simp_all add: db' db_table_def fun_eq_iff)
  with k have "same_data db db'" by (simp add: keeps_data_def same_data_def)
  with same_data_scan [OF inv, of db' name] inv assms(2) db' show ?thesis by (simp add: db_inv_def)
qed

subsection \<open>A sample database\<close>

definition sample_settings :: "unit settings" where
  "sample_settings = \<lparr>se_ops = \<lparr>vo_build = \<lambda>_. (), vo_insert = \<lambda>_ _ _. (), vo_remove = \<lambda>_ _. (),
     vo_search = \<lambda>_ _ _ _. Some [], vo_topk = \<lambda>_ _ _. Some []\<rparr>, se_gpu = False, se_depth = 4\<rparr>"

definition sample_schema :: schema where
  "sample_schema = \<lparr>sc_columns = [''id'', ''name''], sc_types = [CInt, CText]\<rparr>"

definition sample_db :: "unit database" where
  "sample_db = db_new sample_schema"

definition sample_insert :: insert_statement where
  "sample_insert = \<lparr>is_table = ''t'', is_columns = [''name''], is_values = [LText ''ab'']\<rparr>"

lemma sample_schema_ok: "schema_ok sample_schema"
  by (simp add: schema_ok_def sample_schema_def)

lemma sample_reachable: "reachable_db sample_settings sample_db"
  unfolding sample_db_def by (rule reach_new [OF sample_schema_ok])

lemma sample_insert_ok: "statement_ok sample_db (StInsert sample_insert)"
  by (simp add: statement_ok_def sample_insert_def sample_db_def db_new_def db_empty_def db_table_def new_storage_def
      room_for_rows_def string_bytes_def utf8_scan.simps)

theorem statement_refines_witness:
  "refined False (abs_db sample_db) (spec_insert sample_insert (abs_db sample_db))
     (db_execute sample_settings (StInsert sample_insert) [] sample_db)"
  using statement_refines [OF _ sample_insert_ok, of sample_settings "[]"] reachable_inv [OF sample_reachable]
  by (simp add: sample_db_def db_new_def db_empty_def)

text \<open>The database after BEGIN and the insertion.\<close>

definition sample_begun :: "unit database" where
  "sample_begun = sample_db\<lparr>db_in_transaction := True\<rparr>"

definition sample_txn :: mvcc_txn where
  "sample_txn = mvcc_write (mvcc_begin mvcc_new) 0 (mvcc_wrap_row [VInt 0, VText ''ab''])"

definition sample_written :: "unit database" where
  "sample_written = \<lparr>db_tables = [(''t'', (new_storage sample_schema)\<lparr>st_next_row_id := 1\<rparr>)], db_views = [],
     db_in_transaction = True, db_active_txns = [(''t'', sample_txn)]\<rparr>"

lemmas sample_defs = sample_begun_def sample_db_def db_new_def db_empty_def new_storage_def sample_schema_def sample_insert_def

lemma sample_begin: "db_execute sample_settings StBegin [] sample_db = Some (sample_begun, Inr empty_result_set)"
  by (simp add: sample_defs run_begin_def no_rows_def)

lemma sample_write: "db_execute sample_settings (StInsert sample_insert) [] sample_begun = Some (sample_written, Inr empty_result_set)"
  by (simp add: sample_defs sample_written_def sample_txn_def run_insert_stmt_def no_rows_def open_txn_def ensure_txn_def db_table_def db_txn_def
      insert_values_def insert_columns_def index_of_def literal_to_value_def vec_get_def vec_set_def checked_add_def
      buffer_write_def set_table_def set_txn_def wrap_i64_def Let_def)

lemma sample_written_reachable: "reachable_db sample_settings sample_written"
proof -
  have "reachable_db sample_settings sample_begun"
    by (rule reach_step [OF sample_reachable _ sample_begin]) (simp add: statement_ok_def)
  moreover have "statement_ok sample_begun (StInsert sample_insert)"
    using sample_insert_ok by (simp add: statement_ok_def sample_begun_def room_for_rows_def db_table_def)
  ultimately show ?thesis by (rule reach_step [OF _ _ sample_write])
qed

theorem reachable_tables_scan_witness:
  "\<exists>rows. scan_table sample_written ''t'' = try_ok ([''id'', ''name''], rows) \<and> list_all (\<lambda>r. length r = Suc (Suc 0)) rows"
  using reachable_tables_scan [OF sample_written_reachable, of "''t''" "(new_storage sample_schema)\<lparr>st_next_row_id := 1\<rparr>"]
  by (simp add: sample_written_def db_table_def new_storage_def sample_schema_def)

theorem commit_publishes_witness:
  "\<exists>db'. db_execute sample_settings StCommit [] sample_written = Some (db', Inr empty_result_set) \<and> \<not> db_in_transaction db' \<and>
     db_active_txns db' = [] \<and> abs_db db' = abs_db sample_written"
  by (rule commit_publishes [OF sample_written_reachable])
    (simp_all add: sample_written_def clocks_ok_def new_storage_def mvcc_new_def)

theorem rollback_restores_witness:
  "\<exists>db'. run_session sample_settings [(StBegin, []), (StInsert sample_insert, []), (StRollback, [])] sample_db = Some db' \<and>
     \<not> db_in_transaction db' \<and> scan_table db' ''t'' = scan_table sample_db ''t''"
proof -
  let ?db = "sample_written\<lparr>db_in_transaction := False, db_active_txns := []\<rparr>"
  have "db_execute sample_settings StRollback [] sample_written = Some (?db, Inr empty_result_set)"
    by (simp add: sample_written_def run_rollback_def no_rows_def)
  then have "run_session sample_settings ((StBegin, []) # [(StInsert sample_insert, [])] @ [(StRollback, [])]) sample_db = Some ?db"
    by (simp add: sample_begin sample_write del: db_execute.simps)
  moreover from rollback_restores [OF sample_reachable _ _ this, of "''t''"]
  have "\<not> db_in_transaction ?db \<and> scan_table ?db ''t'' = scan_table sample_db ''t''"
    by (simp add: sample_db_def db_new_def db_empty_def)
  ultimately show ?thesis by auto
qed

end
