(* ===== verification/Sql_Anomalies.thy ===== *)
theory Sql_Anomalies
  imports Sql_Transactions
begin

text \<open>
  Behaviours of the database that differ from what its comments or SQL say, each shown on the model.
\<close>

text \<open>
  The cache of subquery results is numbered in the order of the condition, but the counter of the evaluation advances only at the
  subqueries it visits. After a conjunction that stops at its first part, the next subquery reads the entry of
  the one skipped: here \<open>EXISTS q2\<close> has no row and yet holds.
\<close>

lemma skipped_subquery_shifts_cache:
  assumes "sel_filter q1 = None" and "sel_filter q2 = None"
    and "run q1 [] [] [] = try_ok \<lparr>rs_columns = [''a''], rs_rows = [[VInt 1]]\<rparr>" and "run q2 [] [] [] = try_ok \<lparr>rs_columns = [''a''], rs_rows = []\<rparr>"
  defines "e \<equiv> SOr (SAnd (SCmp ''id'' CEq (LInt 5)) (SExists q1)) (SExists q2)"
  shows "build_subquery_cache run e [''id''] [] [] = try_ok [CacheExists True, CacheExists False]"
    and "eval_where run [''id''] [VInt 7] [] [] [] [''id''] [CacheExists True, CacheExists False] e 0 = try_ok (True, 1)"
  using assms(1-4)
  by (simp_all add: e_def build_subquery_cache_def on_ok_def try_ok_def [symmetric] cache_get_def column_value_def find_value_def
      lookup_in_def vec_get_def or_else_def cmp_literal_def)
    (simp_all add: try_ok_def)

text \<open>
  Views are checked for a reference to themselves only. Two views that refer to each other can be created, and a query
  of either never returns, whatever the size of the stack.
\<close>

definition select_all :: "string \<Rightarrow> select_statement" where
  "select_all name = SelectStatement [] True (TNamed name None) None [] [] [] [] None None None []"

definition view_statement :: "string \<Rightarrow> string \<Rightarrow> statement" where
  "view_statement name target = StCreateView \<lparr>cv_name = name, cv_query = select_all target\<rparr>"

definition cyclic_db :: "unit database" where
  "cyclic_db = db_empty\<lparr>db_views := [(''v'', select_all ''w''), (''w'', select_all ''v'')]\<rparr>"

lemma cyclic_views_accepted:
  "run_session sample_settings [(view_statement ''v'' ''w'', []), (view_statement ''w'' ''v'', [])] db_empty = Some cyclic_db"
  by (simp add: view_statement_def run_create_view_def select_references_table_def names_table_def select_all_def
      db_empty_def db_table_def cyclic_db_def no_rows_def)

lemma cyclic_views_overflow:
  "run_select_scoped se cyclic_db n (select_all ''v'') [] [] [] = None \<and>
   run_select_scoped se cyclic_db n (select_all ''w'') [] [] [] = None"
proof (induction n)
  case (Suc n)
  have s: "sel_order_by_cosine (select_all x) = None" "sel_with_ctes (select_all x) = []" "sel_table (select_all x) = TNamed x None" for x
    by (simp_all add: select_all_def)
  from Suc show ?case by (simp add: run_select_body_def s merge_ctes_def) (simp add: cyclic_db_def)
qed simp

text \<open>
  \<open>ALTER TABLE\<close> re-encodes the rows of the tree and not those that the open transaction has buffered. The next \<open>COMMIT\<close>
  puts a row of the old width into the tree and then fails; the table can no longer be read.
\<close>

definition sample_alter :: alter_table_statement where
  "sample_alter = \<lparr>al_table = ''t'', al_op = AddColumn \<lparr>cd_name = ''age'', cd_ctype = CInt\<rparr>\<rparr>"

definition sample_altered :: "unit database" where
  "sample_altered = sample_written\<lparr>db_tables := [(''t'', (new_storage \<lparr>sc_columns = [''id'', ''name'', ''age''], sc_types = [CInt, CText, CInt]\<rparr>)
     \<lparr>st_next_row_id := 1\<rparr>)]\<rparr>"

lemma blink_get_new: "blink_get blink_new i = Some None"
  using blink_get_correct [OF blink_rel_new, of i] by (simp add: bt_get_def)

lemma alter_inside_transaction:
  "db_execute sample_settings (StAlterTable sample_alter) [] sample_written = Some (sample_altered, Inr empty_result_set)"
  by (simp add: sample_alter_def sample_altered_def sample_written_def sample_schema_def new_storage_def run_alter_table_def db_table_def
      add_column_def rewrite_rows_def blink_get_new set_table_def no_rows_def)

lemma narrow_row_corrupt:
  "row_ok r \<Longrightarrow> length r \<noteq> n \<Longrightarrow> decode_row_validated i (encode_row r) n = Inl (CorruptRow i)"
  using decode_encode_row [of r "[]"] by (simp add: decode_row_validated_def res_bind_def)

lemma commit_after_alter_fails:
  "\<exists>db'. db_execute sample_settings StCommit [] sample_altered = Some (db', Inl (CorruptRow 0)) \<and> scan_table db' ''t'' = try_err (CorruptRow 0)"
proof -
  let ?r = "[VInt 0, VText ''ab'']"
  let ?s = "\<lparr>sc_columns = [''id'', ''name'', ''age''], sc_types = [CInt, CText, CInt]\<rparr>"
  have ok: "row_ok ?r" by (simp add: row_ok_def ifits_def string_bytes_def utf8_scan.simps)
  have bad: "decode_row_validated 0 (encode_row ?r) (Suc (Suc (Suc 0))) = Inl (CorruptRow 0)"
    using narrow_row_corrupt [OF ok] by simp
  from blink_insert_correct [OF blink_rel_new, of 0 "encode_row ?r"] obtain t where
    t: "blink_insert blink_new 0 (encode_row ?r) = Some t" "blink_rel t [(0, encode_row ?r)]" by auto
  let ?db = "\<lparr>db_tables = [(''t'', \<lparr>st_schema = ?s, st_tree = t, st_next_row_id = 1,
      st_mvcc = \<lparr>ms_versions = [(0, [\<lparr>ver_commit_ts = 1, ver_value = mvcc_wrap_row ?r\<rparr>])], ms_clock = 1\<rparr>, st_vector_indexes = []\<rparr>)],
    db_views = [], db_in_transaction = False, db_active_txns = []\<rparr> :: unit database"
  have "db_execute sample_settings StCommit [] sample_altered = Some (?db, Inl (CorruptRow 0))"
    using t(1) bad
    by (simp add: sample_altered_def sample_written_def sample_txn_def new_storage_def run_commit_def no_rows_def commit_table_def db_table_def
        mvcc_commit_def mvcc_write_def mvcc_begin_def mvcc_new_def bt_keys_def stale_def latest_commit_ts_def last_version_def bt_get_def
        push_version_def checked_add_def writes_iter_def vec_get_def mvcc_wrap_row_def MVCC_LIVE_def MVCC_TOMBSTONE_def set_table_def)
  moreover have "scan_table ?db ''t'' = try_err (CorruptRow 0)"
    using blink_get_correct [OF t(2), of 0] bad
    by (simp add: scan_table_def db_table_def db_txn_def live_row_def stored_row_def bt_get_def try_err_def [symmetric])
  ultimately show ?thesis by blast
qed

text \<open>An assignment to the column \<open>id\<close> is skipped without an error, though an \<open>INSERT\<close> may set it.\<close>

lemma update_of_id_ignored: "assign_values sample_schema [\<lparr>sa_column = ''id'', sa_value = LInt 9\<rparr>] r = try_ok r"
  by (simp add: assign_values_def sample_schema_def index_of_def)

text \<open>Joins compare with the equality of values, under which null equals null.\<close>

lemma null_joins_null: "join_row 0 0 [VNull] [[VNull]] = Some [[VNull, VNull]]"
  by (simp add: vec_get_def)

text \<open>A similarity query names the selected columns and returns rows of the whole table.\<close>

lemma topk_rows_unprojected:
  assumes "vo_topk ops [v] query 1 = Some [0]" and "sel_star stmt = False" and "sel_columns stmt = [''name'']" and "oc_k ob = 1"
  shows "topk_result ops stmt ob query [''id'', ''name'', ''v''] [(v, [VInt 0, VText ''ab'', VVector v])] =
    try_ok \<lparr>rs_columns = [''name''], rs_rows = [[VInt 0, VText ''ab'', VVector v]]\<rparr>"
  using assms by (simp add: topk_result_def vec_get_def)

end
