(* ===== verification/Parsing.thy ===== *)
theory Parsing
  imports Fallible
begin

text \<open>
  What the recursive-descent parsers of the repository share. A parser takes the state of its reader and returns a value with the
  state after it, or an error; \<open>None\<close> is a panic. The locale \<open>reader\<close> holds the rules by which a parser is
  shown to return: each state has an amount of input left, and a parser that succeeds has consumed some of it.
  Sources are lists of Unicode scalar values, as \<open>str::chars\<close> gives them.
\<close>

type_synonym ('s, 'e, 'a) parsing = "'s \<Rightarrow> ('e, 'a \<times> 's) fallible"

definition pret :: "'a \<Rightarrow> ('s, 'e, 'a) parsing" where
  "pret x s = try_ok (x, s)"

definition reject :: "'e \<Rightarrow> ('s, 'e, 'a) parsing" where
  "reject e s = try_err e"

definition pbind :: "('s, 'e, 'a) parsing \<Rightarrow> ('a \<Rightarrow> ('s, 'e, 'b) parsing) \<Rightarrow> ('s, 'e, 'b) parsing" where
  "pbind p f s = try_bind (p s) (\<lambda>(x, s'). f x s')"

definition never :: "('s, 'e, 'a) parsing" where
  "never s = None"

text \<open>A loop or a nested phrase of a parser of tokens, bounded by the number of tokens left.\<close>

definition bounded :: "(nat \<Rightarrow> ('t list, 'e, 'a) parsing) \<Rightarrow> ('t list, 'e, 'a) parsing" where
  "bounded p ts = p (Suc (length ts)) ts"

text \<open>With this congruence a program is evaluated step by step, its continuations last.\<close>

lemma try_bind_weak_cong: "m = m' \<Longrightarrow> try_bind m f = try_bind m' f"
  by simp

named_theorems parse_intro

subsection \<open>Parsers that return\<close>

locale reader =
  fixes good :: "'s \<Rightarrow> bool" and left :: "'s \<Rightarrow> nat"
begin

text \<open>The parser returns, with an error or with less than \<open>n\<close> left.\<close>

definition parses :: "nat \<Rightarrow> ('s, 'e, 'a) parsing \<Rightarrow> 's \<Rightarrow> bool" where
  "parses n p s \<longleftrightarrow> try_safe (p s) (\<lambda>(x, s'). good s' \<and> left s' < n)"

text \<open>With less than \<open>n\<close> left, the parser returns and has consumed something.\<close>

definition consumes :: "nat \<Rightarrow> ('s, 'e, 'a) parsing \<Rightarrow> bool" where
  "consumes n p \<longleftrightarrow> (\<forall>s. good s \<longrightarrow> left s < n \<longrightarrow> parses (left s) p s)"

lemma parses_ret: "good s \<Longrightarrow> left s < n \<Longrightarrow> parses n (pret x) s"
  by (simp add: parses_def pret_def)

lemma parses_reject: "parses n (reject e) s"
  by (simp add: parses_def reject_def)

lemma parses_bind:
  assumes "parses k p s" and "\<And>x s'. good s' \<Longrightarrow> left s' < k \<Longrightarrow> parses n (f x) s'"
  shows "parses n (pbind p f) s"
  unfolding parses_def pbind_def
  by (rule try_safe_bind [OF assms(1) [unfolded parses_def]]) (use assms(2) in \<open>auto simp: parses_def\<close>)

lemma parses_mono: "parses k p s \<Longrightarrow> k \<le> n \<Longrightarrow> parses n p s"
  by (auto simp: parses_def elim!: try_safe_cases)

lemma parses_if: "(b \<Longrightarrow> parses n p s) \<Longrightarrow> (\<not> b \<Longrightarrow> parses n q s) \<Longrightarrow> parses n (if b then p else q) s"
  by simp

lemma parses_case_option: "(z = None \<Longrightarrow> parses n p s) \<Longrightarrow> (\<And>x. z = Some x \<Longrightarrow> parses n (f x) s) \<Longrightarrow> parses n (case_option p f z) s"
  by (cases z) simp_all

lemma parses_bind_ret: "parses n (f x) s \<Longrightarrow> parses n (pbind (pret x) f) s"
  by (simp add: parses_def pbind_def pret_def)

lemma parses_bind_assoc: "parses n (pbind p (\<lambda>y. pbind (g y) f)) s \<Longrightarrow> parses n (pbind (pbind p g) f) s"
  by (auto simp: parses_def pbind_def try_bind_assoc case_prod_unfold)

lemma parses_bind_if: "(b \<Longrightarrow> parses n (pbind p f) s) \<Longrightarrow> (\<not> b \<Longrightarrow> parses n (pbind q f) s) \<Longrightarrow> parses n (pbind (if b then p else q) f) s"
  by simp

lemmas parses_intros = parses_ret parses_reject parses_if parses_case_option parses_bind_ret parses_bind_assoc parses_bind_if

lemma consumesI: "(\<And>s. good s \<Longrightarrow> left s < n \<Longrightarrow> parses (left s) p s) \<Longrightarrow> consumes n p"
  by (simp add: consumes_def)

lemma consumes_0: "consumes 0 p"
  by (simp add: consumes_def)

lemma consumes_less: "consumes n p \<Longrightarrow> k \<le> n \<Longrightarrow> consumes k p"
  by (simp add: consumes_def)

lemma consumes_bind:
  assumes "consumes m p" and "good s" and "left s < m" and "\<And>x s'. good s' \<Longrightarrow> left s' < left s \<Longrightarrow> parses n (f x) s'"
  shows "parses n (pbind p f) s"
  using assms by (intro parses_bind [of "left s" p]) (simp_all add: consumes_def)

lemma consumes_parses: "consumes m p \<Longrightarrow> good s \<Longrightarrow> left s < m \<Longrightarrow> left s \<le> n \<Longrightarrow> parses n p s"
  by (auto simp: consumes_def intro: parses_mono)

text \<open>However much is left, the parser returns and has consumed something.\<close>

definition moves :: "('s, 'e, 'a) parsing \<Rightarrow> bool" where
  "moves p \<longleftrightarrow> (\<forall>n. consumes n p)"

lemma movesI: "(\<And>s. good s \<Longrightarrow> parses (left s) p s) \<Longrightarrow> moves p"
  by (simp add: moves_def consumes_def)

lemma moves_consumes: "moves p \<Longrightarrow> consumes n p"
  by (simp add: moves_def)

lemma moves_bind: "moves p \<Longrightarrow> good s \<Longrightarrow> (\<And>x s'. good s' \<Longrightarrow> left s' < left s \<Longrightarrow> parses n (f x) s') \<Longrightarrow> parses n (pbind p f) s"
  by (rule consumes_bind [where m = "Suc (left s)", OF moves_consumes]) simp_all

lemma moves_parses: "moves p \<Longrightarrow> good s \<Longrightarrow> left s \<le> n \<Longrightarrow> parses n p s"
  by (rule consumes_parses [where m = "Suc (left s)", OF moves_consumes]) simp_all

lemma parses_total: "parses n p s \<Longrightarrow> \<exists>r. p s = Some r"
  unfolding parses_def by (erule try_safe_cases) (auto simp: try_ok_def try_err_def)

end

subsection \<open>Characters\<close>

type_synonym uchar = nat

definition code :: "char \<Rightarrow> uchar" where
  "code c = of_char c"

definition codes :: "string \<Rightarrow> uchar list" where
  "codes s = map of_char s"

text \<open>Unicode \<open>White_Space\<close> (\<open>char::is_whitespace\<close>), ASCII letters and digits.\<close>

definition is_whitespace :: "uchar \<Rightarrow> bool" where
  "is_whitespace c \<longleftrightarrow> 9 \<le> c \<and> c \<le> 13 \<or> 8192 \<le> c \<and> c \<le> 8202 \<or> c \<in> {32, 133, 160, 5760, 8232, 8233, 8239, 8287, 12288}"

definition is_digit :: "uchar \<Rightarrow> bool" where
  "is_digit c \<longleftrightarrow> 48 \<le> c \<and> c \<le> 57"

definition is_letter :: "uchar \<Rightarrow> bool" where
  "is_letter c \<longleftrightarrow> 65 \<le> c \<and> c \<le> 90 \<or> 97 \<le> c \<and> c \<le> 122"

text \<open>A scalar value in UTF-8, as it stands in a string.\<close>

definition utf8 :: "uchar \<Rightarrow> string" where
  "utf8 c =
     (if c < 128 then [char_of c]
      else if c < 2048 then [char_of (192 + c div 64), char_of (128 + c mod 64)]
      else if c < 65536 then [char_of (224 + c div 4096), char_of (128 + c div 64 mod 64), char_of (128 + c mod 64)]
      else [char_of (240 + c div 262144), char_of (128 + c div 4096 mod 64), char_of (128 + c div 64 mod 64), char_of (128 + c mod 64)])"

definition utf8s :: "uchar list \<Rightarrow> string" where
  "utf8s cs = concat (map utf8 cs)"

text \<open>The value of decimal digits.\<close>

definition decimal :: "uchar list \<Rightarrow> int" where
  "decimal ds = foldl (\<lambda>v d. 10 * v + (int d - 48)) 0 ds"

end
