(* ===== verification/Sql_Parser.thy ===== *)
theory Sql_Parser
  imports Sql_Executor Parsing
begin

text \<open>
  The SQL tokenizer and parser (\<open>tpt-archon-relational/src/parser.rs\<close>). A parser takes a position in the text and returns a value
  with the next position, or an error; \<open>None\<close> is a panic. A token that was read too far is put back by
  moving the position, as in the code, by the length the token would have when printed.

  Recursion goes through nested conditions and queries, and loops read on until a token ends them; both take a bound
  that decreases. \<open>parse_total\<close> shows that the length of the text is always enough. The bound is not the call stack, which is
  not modelled: the code recurses without a limit on the depth. The parsing of
  decimal fractions as \<open>f32\<close> is the parameter \<open>src_f32\<close>.
\<close>

subsection \<open>Parsers\<close>

datatype parse_error = ParseError string

record source =
  src_text :: string
  src_f32 :: "string \<Rightarrow> f32 option"

type_synonym 'a parser = "(nat, parse_error, 'a) parsing"

definition pfail :: "string \<Rightarrow> 'a parser" where
  "pfail msg pos = try_err (ParseError msg)"

subsection \<open>Tokens\<close>

datatype tok =
    TkIdent string
  | TkInt int
  | TkFloat f32
  | TkText string
  | TkStar
  | TkComma
  | TkDot
  | TkOp cmp_op
  | TkParam
  | TkLParen
  | TkRParen
  | TkLBracket
  | TkEof

definition ascii_whitespace :: "char \<Rightarrow> bool" where
  "ascii_whitespace c \<longleftrightarrow> c \<in> {CHR '' '', CHR 0x09, CHR 0x0A, CHR 0x0C, CHR 0x0D}"

definition ascii_digit :: "char \<Rightarrow> bool" where
  "ascii_digit c \<longleftrightarrow> 48 \<le> (of_char c :: nat) \<and> (of_char c :: nat) \<le> 57"

definition ascii_alphabetic :: "char \<Rightarrow> bool" where
  "ascii_alphabetic c \<longleftrightarrow> 65 \<le> (of_char c :: nat) \<and> (of_char c :: nat) \<le> 90 \<or> 97 \<le> (of_char c :: nat) \<and> (of_char c :: nat) \<le> 122"

definition ident_char :: "char \<Rightarrow> bool" where
  "ident_char c \<longleftrightarrow> ascii_alphabetic c \<or> ascii_digit c \<or> c = CHR ''_''"

text \<open>The first position from \<open>pos\<close> on whose byte does not satisfy \<open>P\<close>, the text between two positions, the byte at one.\<close>

definition skip :: "source \<Rightarrow> (char \<Rightarrow> bool) \<Rightarrow> nat \<Rightarrow> nat" where
  "skip src P pos = pos + length (takeWhile P (drop pos (src_text src)))"

definition slice :: "source \<Rightarrow> nat \<Rightarrow> nat \<Rightarrow> string" where
  "slice src a b = take (b - a) (drop a (src_text src))"

definition byte_is :: "source \<Rightarrow> nat \<Rightarrow> (char \<Rightarrow> bool) \<Rightarrow> bool" where
  "byte_is src pos P \<longleftrightarrow> pos < length (src_text src) \<and> P (src_text src ! pos)"

definition digits_value :: "string \<Rightarrow> int" where
  "digits_value ds = foldl (\<lambda>v c. 10 * v + (int (of_char c) - 48)) 0 ds"

definition parse_i64 :: "string \<Rightarrow> int option" where
  "parse_i64 t =
     (let neg = (t \<noteq> [] \<and> hd t = CHR ''-''); ds = (if neg then tl t else t); v = (if neg then - digits_value ds else digits_value ds) in
      if ds = [] \<or> \<not> ifits 64 v then None else Some v)"

text \<open>Where a number ends, and whether it has a fraction.\<close>

definition number_end :: "source \<Rightarrow> nat \<Rightarrow> nat \<times> bool" where
  "number_end src pos =
     (let p = skip src ascii_digit (if byte_is src pos (\<lambda>c. c = CHR ''-'') then pos + 1 else pos) in
      if byte_is src p (\<lambda>c. c = CHR ''.'') \<and> byte_is src (p + 1) ascii_digit
      then let q = skip src ascii_digit (p + 1) in if byte_is src q ascii_alphabetic then (p, False) else (q, True)
      else (p, False))"

definition lex_number :: "source \<Rightarrow> tok parser" where
  "lex_number src pos =
     (let (p, is_float) = number_end src pos; t = slice src pos p in
      if is_float then (case src_f32 src t of None \<Rightarrow> pfail ''invalid float'' p | Some f \<Rightarrow> pret (TkFloat f) p)
      else (case parse_i64 t of None \<Rightarrow> pfail ''invalid integer'' p | Some v \<Rightarrow> pret (TkInt v) p))"

definition lex_text :: "source \<Rightarrow> tok parser" where
  "lex_text src start =
     (let p = skip src (\<lambda>c. c \<noteq> CHR 0x27) start in
      if length (src_text src) \<le> p then pfail ''unterminated text literal'' p
      else pret (TkText (slice src start p)) (p + 1))"

text \<open>A byte as a character of Latin-1, printed in UTF-8.\<close>

definition byte_as_char :: "char \<Rightarrow> string" where
  "byte_as_char c = (let n = of_char c :: nat in if n < 128 then [c] else [char_of (192 + n div 64), char_of (128 + n mod 64)])"

definition lex_at :: "source \<Rightarrow> char \<Rightarrow> tok parser" where
  "lex_at src c pos =
     (if c = CHR ''*'' then pret TkStar (pos + 1)
      else if c = CHR '','' then pret TkComma (pos + 1)
      else if c = CHR ''('' then pret TkLParen (pos + 1)
      else if c = CHR '')'' then pret TkRParen (pos + 1)
      else if c = CHR ''.'' then pret TkDot (pos + 1)
      else if c = CHR ''['' then pret TkLBracket (pos + 1)
      else if c = CHR ''='' then pret (TkOp CEq) (pos + 1)
      else if c = CHR ''<'' then
        (if byte_is src (pos + 1) (\<lambda>d. d = CHR ''='') then pret (TkOp CLe) (pos + 2)
         else if byte_is src (pos + 1) (\<lambda>d. d = CHR ''>'') then pret (TkOp CNe) (pos + 2)
         else pret (TkOp CLt) (pos + 1))
      else if c = CHR ''>'' then
        (if byte_is src (pos + 1) (\<lambda>d. d = CHR ''='') then pret (TkOp CGe) (pos + 2) else pret (TkOp CGt) (pos + 1))
      else if c = CHR ''!'' then
        (if byte_is src (pos + 1) (\<lambda>d. d = CHR ''='') then pret (TkOp CNe) (pos + 2)
         else pfail (''unexpected '' @ quoted ''!'') pos)
      else if c = CHR ''?'' then pret TkParam (pos + 1)
      else if c = CHR 0x27 then lex_text src (pos + 1)
      else if ascii_digit c \<or> c = CHR ''-'' then lex_number src pos
      else if ascii_alphabetic c \<or> c = CHR ''_'' then
        (let p = skip src ident_char pos in pret (TkIdent (slice src pos p)) p)
      else pfail (''unexpected character '' @ quoted (byte_as_char c)) pos)"

definition next_tok :: "source \<Rightarrow> tok parser" where
  "next_tok src pos0 =
     (let pos = skip src ascii_whitespace pos0 in
      if length (src_text src) \<le> pos then pret TkEof pos else lex_at src (src_text src ! pos) pos)"

definition lower :: "char \<Rightarrow> char" where
  "lower c = (if 65 \<le> (of_char c :: nat) \<and> (of_char c :: nat) \<le> 90 then char_of (of_char c + 32 :: nat) else c)"

definition eq_ignore_case :: "string \<Rightarrow> string \<Rightarrow> bool" where
  "eq_ignore_case a b \<longleftrightarrow> map lower a = map lower b"

definition is_word :: "tok \<Rightarrow> string \<Rightarrow> bool" where
  "is_word t k = (case t of TkIdent w \<Rightarrow> eq_ignore_case w k | _ \<Rightarrow> False)"

definition is_kw :: "string \<Rightarrow> bool" where
  "is_kw s \<longleftrightarrow> map lower s \<in> set [''select'', ''insert'', ''update'', ''delete'', ''from'', ''where'', ''set'', ''order'', ''limit'', ''group'',
     ''having'', ''join'', ''on'', ''create'', ''view'', ''drop'', ''begin'', ''commit'', ''rollback'', ''not'', ''exists'']"

fun tok_length :: "tok \<Rightarrow> nat" where
  "tok_length (TkIdent s) = length s"
| "tok_length (TkInt v) = length (int_to_string v)"
| "tok_length (TkFloat f) = 0"
| "tok_length (TkText s) = length s + 2"
| "tok_length (TkOp op) = (if op \<in> {CLe, CNe, CGe} then 2 else 1)"
| "tok_length TkEof = 0"
| "tok_length _ = 1"

definition push_back :: "tok \<Rightarrow> unit parser" where
  "push_back t pos = try_lift (map_option (\<lambda>p. ((), p)) (checked_sub pos (tok_length t)))"

subsection \<open>Expectations\<close>

definition expect_tok :: "source \<Rightarrow> tok \<Rightarrow> string \<Rightarrow> unit parser" where
  "expect_tok src expected what = pbind (next_tok src) (\<lambda>t. if t = expected then pret () else pfail (''expected '' @ what))"

definition expect_kw :: "source \<Rightarrow> string \<Rightarrow> unit parser" where
  "expect_kw src expected = pbind (next_tok src) (\<lambda>t. if is_word t expected then pret () else pfail (''expected '' @ expected))"

definition expect_int :: "source \<Rightarrow> string \<Rightarrow> int parser" where
  "expect_int src what = pbind (next_tok src) (\<lambda>t. case t of TkInt v \<Rightarrow> pret v | _ \<Rightarrow> pfail (''expected integer '' @ what))"

primrec expect_ident_loop :: "source \<Rightarrow> nat \<Rightarrow> string \<Rightarrow> string parser" where
  "expect_ident_loop src 0 what = never"
| "expect_ident_loop src (Suc n) what =
     pbind (next_tok src) (\<lambda>t. case t of
       TkIdent name \<Rightarrow> pbind (next_tok src) (\<lambda>t'.
         if t' = TkDot then pbind (expect_ident_loop src n (''field name after '' @ quoted ''.'')) (\<lambda>fld. pret (name @ ''.'' @ fld))
         else pbind (push_back t') (\<lambda>_. pret name))
     | _ \<Rightarrow> pfail (''expected '' @ what))"

definition rounds :: "source \<Rightarrow> nat" where
  "rounds src = Suc (length (src_text src))"

definition expect_ident :: "source \<Rightarrow> string \<Rightarrow> string parser" where
  "expect_ident src what = expect_ident_loop src (rounds src) what"

text \<open>Items separated by commas: up to a closing parenthesis, or as long as commas follow.\<close>

primrec paren_list :: "source \<Rightarrow> 'a parser \<Rightarrow> string \<Rightarrow> nat \<Rightarrow> 'a list parser" where
  "paren_list src item msg 0 = never"
| "paren_list src item msg (Suc n) =
     pbind item (\<lambda>x. pbind (next_tok src) (\<lambda>t.
       if t = TkComma then pbind (paren_list src item msg n) (\<lambda>xs. pret (x # xs))
       else if t = TkRParen then pret [x] else pfail msg))"

primrec comma_list :: "source \<Rightarrow> 'a parser \<Rightarrow> nat \<Rightarrow> 'a list parser" where
  "comma_list src item 0 = never"
| "comma_list src item (Suc n) =
     pbind item (\<lambda>x. pbind (next_tok src) (\<lambda>t.
       if t = TkComma then pbind (comma_list src item n) (\<lambda>xs. pret (x # xs))
       else pbind (push_back t) (\<lambda>_. pret [x])))"

subsection \<open>Literals\<close>

text \<open>The white space that \<open>str::trim\<close> removes, in UTF-8.\<close>

definition white1 :: "nat \<Rightarrow> bool" where
  "white1 a \<longleftrightarrow> 9 \<le> a \<and> a \<le> 13 \<or> a = 32"

definition white2 :: "nat \<Rightarrow> nat \<Rightarrow> bool" where
  "white2 a b \<longleftrightarrow> a = 194 \<and> (b = 133 \<or> b = 160)"

definition white3 :: "nat \<Rightarrow> nat \<Rightarrow> nat \<Rightarrow> bool" where
  "white3 a b c \<longleftrightarrow> a = 225 \<and> b = 154 \<and> c = 128 \<or> a = 226 \<and> b = 128 \<and> (128 \<le> c \<and> c \<le> 138 \<or> c \<in> {168, 169, 175}) \<or>
     a = 226 \<and> b = 129 \<and> c = 159 \<or> a = 227 \<and> b = 128 \<and> c = 128"

fun trim_start :: "string \<Rightarrow> string" where
  "trim_start (a # b # c # s) =
     (if white1 (of_char a) then trim_start (b # c # s)
      else if white2 (of_char a) (of_char b) then trim_start (c # s)
      else if white3 (of_char a) (of_char b) (of_char c) then trim_start s else a # b # c # s)"
| "trim_start [a, b] =
     (if white1 (of_char a) then trim_start [b] else if white2 (of_char a) (of_char b) then [] else [a, b])"
| "trim_start [a] = (if white1 (of_char a) then [] else [a])"
| "trim_start [] = []"

fun trim_rev :: "string \<Rightarrow> string" where
  "trim_rev (c # b # a # s) =
     (if white1 (of_char c) then trim_rev (b # a # s)
      else if white2 (of_char b) (of_char c) then trim_rev (a # s)
      else if white3 (of_char a) (of_char b) (of_char c) then trim_rev s else c # b # a # s)"
| "trim_rev [c, b] =
     (if white1 (of_char c) then trim_rev [b] else if white2 (of_char b) (of_char c) then [] else [c, b])"
| "trim_rev [c] = (if white1 (of_char c) then [] else [c])"
| "trim_rev [] = []"

definition trim :: "string \<Rightarrow> string" where
  "trim s = rev (trim_rev (rev (trim_start s)))"

primrec vector_loop :: "source \<Rightarrow> nat \<Rightarrow> f32 list \<Rightarrow> literal parser" where
  "vector_loop src 0 vals = never"
| "vector_loop src (Suc n) vals = (\<lambda>pos0.
     let pos = skip src ascii_whitespace pos0 in
     if length (src_text src) \<le> pos then pfail ''unterminated vector literal'' pos
     else if src_text src ! pos = CHR '']'' then pret (LVector vals) (pos + 1)
     else let p = skip src (\<lambda>c. c \<noteq> CHR '','' \<and> c \<noteq> CHR '']'') pos in
       case src_f32 src (trim (slice src pos p)) of
         None \<Rightarrow> pfail ''invalid vector element'' p
       | Some f \<Rightarrow>
           let q = skip src ascii_whitespace p in
           vector_loop src n (vals @ [f]) (if byte_is src q (\<lambda>c. c = CHR '','') then q + 1 else q))"

definition parse_vector_literal :: "source \<Rightarrow> literal parser" where
  "parse_vector_literal src = vector_loop src (rounds src) []"

definition parse_literal :: "source \<Rightarrow> literal parser" where
  "parse_literal src = pbind (next_tok src) (\<lambda>t. case t of
     TkInt v \<Rightarrow> pret (LInt v)
   | TkText s \<Rightarrow> pret (LText s)
   | TkLBracket \<Rightarrow> parse_vector_literal src
   | TkIdent w \<Rightarrow> if eq_ignore_case w ''null'' then pret LNull else pfail ''expected a value''
   | _ \<Rightarrow> pfail ''expected a value'')"

subsection \<open>Conditions\<close>

text \<open>The parsers for nested conditions and queries are arguments.\<close>

type_synonym expr_parser = "sql_expr parser"
type_synonym select_parser = "select_statement parser"

definition agg_func :: "string \<Rightarrow> aggregate_func option" where
  "agg_func w = (let l = map lower w in
     if l = ''count'' then Some ACount else if l = ''sum'' then Some ASum else if l = ''avg'' then Some AAvg
     else if l = ''min'' then Some AMin else if l = ''max'' then Some AMax else None)"

text \<open>The argument of an aggregate, after its opening parenthesis.\<close>

definition agg_column :: "source \<Rightarrow> string parser" where
  "agg_column src = pbind (next_tok src) (\<lambda>t.
     if t = TkStar then pbind (expect_tok src TkRParen (quoted '')'')) (\<lambda>_. pret ''*'')
     else pbind (push_back t) (\<lambda>_. pbind (expect_ident src ''column in aggregate'') (\<lambda>c.
       pbind (expect_tok src TkRParen (quoted '')'')) (\<lambda>_. pret c))))"

definition parse_agg :: "source \<Rightarrow> aggregate_func \<Rightarrow> expr_parser" where
  "parse_agg src func =
     pbind (expect_tok src TkLParen (quoted ''('' @ '' after aggregate function'')) (\<lambda>_.
     pbind (agg_column src) (\<lambda>col.
     pbind (next_tok src) (\<lambda>t. case t of
       TkOp op \<Rightarrow> pbind (parse_literal src) (\<lambda>v. pret (SCmp (agg_default_alias func col) op v))
     | _ \<Rightarrow> pbind (push_back t) (\<lambda>_. pret (SAgg func col)))))"

text \<open>The rest of a name that may be qualified.\<close>

definition qualified_rest :: "source \<Rightarrow> string \<Rightarrow> string parser" where
  "qualified_rest src name = pbind (next_tok src) (\<lambda>t.
     if t = TkDot then pbind (expect_ident src (''field name after '' @ quoted ''.'')) (\<lambda>fld. pret (name @ ''.'' @ fld))
     else pbind (push_back t) (\<lambda>_. pret name))"

definition parse_is :: "source \<Rightarrow> string \<Rightarrow> expr_parser" where
  "parse_is src col = pbind (next_tok src) (\<lambda>t.
     if is_word t ''not'' then pbind (expect_kw src ''null'') (\<lambda>_. pret (SIsNull col True))
     else if is_word t ''null'' then pret (SIsNull col False)
     else pfail ''expected NULL or NOT NULL after IS'')"

definition parse_like :: "source \<Rightarrow> string \<Rightarrow> expr_parser" where
  "parse_like src col = pbind (next_tok src) (\<lambda>t. case t of
     TkText p \<Rightarrow> pret (SLike col p) | _ \<Rightarrow> pfail ''expected pattern string after LIKE'')"

definition parse_between :: "source \<Rightarrow> string \<Rightarrow> expr_parser" where
  "parse_between src col =
     pbind (expect_int src ''BETWEEN low'') (\<lambda>low. pbind (expect_kw src ''and'') (\<lambda>_.
     pbind (expect_int src ''BETWEEN high'') (\<lambda>high. pret (SBetweenInt col low high))))"

text \<open>A query up to its closing parenthesis, the word SELECT read.\<close>

definition closed_select :: "source \<Rightarrow> select_parser \<Rightarrow> string \<Rightarrow> select_parser" where
  "closed_select src ps what = pbind ps (\<lambda>q. pbind (expect_tok src TkRParen (quoted '')'' @ '' after '' @ what)) (\<lambda>_. pret q))"

definition parse_in :: "source \<Rightarrow> select_parser \<Rightarrow> string \<Rightarrow> expr_parser" where
  "parse_in src ps col =
     pbind (expect_tok src TkLParen (quoted ''('' @ '' after IN'')) (\<lambda>_. pbind (next_tok src) (\<lambda>t.
     if is_word t ''select'' then pbind (closed_select src ps ''IN subquery'') (\<lambda>q. pret (SInSubquery col q))
     else pbind (push_back t) (\<lambda>_.
       pbind (paren_list src (expect_int src ''value in IN list'') (''expected '' @ quoted '','' @ '' or '' @ quoted '')'' @ '' in IN list'') (rounds src))
         (\<lambda>vals. pret (SInInt col vals)))))"

definition parse_comparison :: "source \<Rightarrow> select_parser \<Rightarrow> string \<Rightarrow> cmp_op \<Rightarrow> expr_parser" where
  "parse_comparison src ps col op = pbind (next_tok src) (\<lambda>t. case t of
     TkIdent w \<Rightarrow>
       if eq_ignore_case w ''null''
       then (case op of CEq \<Rightarrow> pret (SIsNull col False) | CNe \<Rightarrow> pret (SIsNull col True)
             | _ \<Rightarrow> pfail ''comparison with NULL requires IS / IS NOT'')
       else pbind (qualified_rest src w) (\<lambda>right. pret (SCmpColumn col op right))
   | TkInt v \<Rightarrow> pret (SCmp col op (LInt v))
   | TkText s \<Rightarrow> pret (SCmp col op (LText s))
   | TkLParen \<Rightarrow> pbind (expect_kw src ''select'') (\<lambda>_. pbind (closed_select src ps ''scalar subquery'') (\<lambda>q. pret (SScalarCmp col op q)))
   | _ \<Rightarrow> pfail ''expected value after operator'')"

definition parse_column_expr :: "source \<Rightarrow> select_parser \<Rightarrow> string \<Rightarrow> expr_parser" where
  "parse_column_expr src ps w =
     (if is_kw w then pfail (''unexpected keyword '' @ quoted w @ '' in expression'')
      else pbind (qualified_rest src w) (\<lambda>col. pbind (next_tok src) (\<lambda>t.
        if is_word t ''is'' then parse_is src col
        else if is_word t ''like'' then parse_like src col
        else if is_word t ''between'' then parse_between src col
        else if is_word t ''in'' then parse_in src ps col
        else (case t of TkOp op \<Rightarrow> parse_comparison src ps col op | _ \<Rightarrow> pfail ''expected operator or IS after column name''))))"

definition parse_primary_expr :: "source \<Rightarrow> expr_parser \<Rightarrow> select_parser \<Rightarrow> expr_parser" where
  "parse_primary_expr src pe ps = pbind (next_tok src) (\<lambda>t. case t of
     TkIdent w \<Rightarrow>
       if eq_ignore_case w ''exists''
       then pbind (expect_tok src TkLParen (quoted ''('' @ '' after EXISTS'')) (\<lambda>_. pbind (expect_kw src ''select'') (\<lambda>_.
         pbind (closed_select src ps ''EXISTS subquery'') (\<lambda>q. pret (SExists q))))
       else (case agg_func w of Some func \<Rightarrow> parse_agg src func | None \<Rightarrow> parse_column_expr src ps w)
   | TkLParen \<Rightarrow> pbind pe (\<lambda>e. pbind (expect_tok src TkRParen (quoted '')'')) (\<lambda>_. pret e))
   | _ \<Rightarrow> pfail (''expected column name or '' @ quoted ''('' @ '' in expression''))"

primrec parse_not :: "source \<Rightarrow> expr_parser \<Rightarrow> select_parser \<Rightarrow> nat \<Rightarrow> expr_parser" where
  "parse_not src pe ps 0 = never"
| "parse_not src pe ps (Suc n) = pbind (next_tok src) (\<lambda>t.
     if is_word t ''not'' then pbind (parse_not src pe ps n) (\<lambda>e. pret (SNot e))
     else pbind (push_back t) (\<lambda>_. parse_primary_expr src pe ps))"

text \<open>A chain of operands joined by a word, associated to the left.\<close>

primrec chain_loop :: "source \<Rightarrow> string \<Rightarrow> (sql_expr \<Rightarrow> sql_expr \<Rightarrow> sql_expr) \<Rightarrow> expr_parser \<Rightarrow> nat \<Rightarrow> sql_expr \<Rightarrow> expr_parser" where
  "chain_loop src w join operand 0 left = never"
| "chain_loop src w join operand (Suc n) left = pbind (next_tok src) (\<lambda>t.
     if is_word t w then pbind operand (\<lambda>right. chain_loop src w join operand n (join left right))
     else pbind (push_back t) (\<lambda>_. pret left))"

definition parse_and :: "source \<Rightarrow> expr_parser \<Rightarrow> select_parser \<Rightarrow> expr_parser" where
  "parse_and src pe ps =
     pbind (parse_not src pe ps (rounds src)) (chain_loop src ''and'' SAnd (parse_not src pe ps (rounds src)) (rounds src))"

definition parse_or :: "source \<Rightarrow> expr_parser \<Rightarrow> select_parser \<Rightarrow> expr_parser" where
  "parse_or src pe ps = pbind (parse_and src pe ps) (chain_loop src ''or'' SOr (parse_and src pe ps) (rounds src))"

subsection \<open>Queries\<close>

definition parse_table_ref :: "source \<Rightarrow> select_parser \<Rightarrow> select_statement table_ref parser" where
  "parse_table_ref src ps = pbind (next_tok src) (\<lambda>t. case t of
     TkLParen \<Rightarrow> pbind (next_tok src) (\<lambda>t1.
       if \<not> is_word t1 ''select'' then pfail ''expected SELECT in subquery''
       else pbind (closed_select src ps ''subquery'') (\<lambda>q. pbind (next_tok src) (\<lambda>t2.
         if is_word t2 ''as'' then pbind (expect_ident src ''subquery alias'') (\<lambda>alias. pret (TSubquery q alias))
         else pbind (push_back t2) (\<lambda>_. pfail ''subquery must have an AS alias''))))
   | TkIdent name \<Rightarrow> pbind (next_tok src) (\<lambda>t1.
       if is_word t1 ''as'' then pbind (expect_ident src ''table alias'') (\<lambda>alias. pret (TNamed name (Some alias)))
       else pbind (push_back t1) (\<lambda>_. pret (TNamed name None)))
   | _ \<Rightarrow> pfail (''expected table name or '' @ quoted ''(''))"

definition agg_name :: "aggregate_func \<Rightarrow> string" where
  "agg_name f = (case f of ACount \<Rightarrow> ''count'' | ASum \<Rightarrow> ''sum'' | AAvg \<Rightarrow> ''avg'' | AMin \<Rightarrow> ''min'' | AMax \<Rightarrow> ''max'')"

text \<open>One selected column, the first token of which is read: its name and, for an aggregate, the aggregate.\<close>

type_synonym sel_item = "string \<times> aggregate option"

definition agg_item :: "source \<Rightarrow> aggregate_func \<Rightarrow> sel_item parser" where
  "agg_item src func = pbind (agg_column src) (\<lambda>inner. pbind (next_tok src) (\<lambda>t.
     pbind (if is_word t ''as'' then expect_ident src ''alias'' else pbind (push_back t) (\<lambda>_. pret (agg_name func))) (\<lambda>alias.
     pbind (next_tok src) (\<lambda>t1. pbind (push_back t1) (\<lambda>_. pret (alias, Some (alias, func, inner)))))))"

definition plain_item :: "source \<Rightarrow> string \<Rightarrow> sel_item parser" where
  "plain_item src name = pbind (next_tok src) (\<lambda>t.
     pbind (if t = TkDot then pbind (expect_ident src (''field name after '' @ quoted ''.'')) (\<lambda>fld.
              pbind (next_tok src) (\<lambda>t1. pret (name @ ''.'' @ fld, t1)))
            else pret (name, t)) (\<lambda>(col, t1).
       if is_word t1 ''as'' then pbind (expect_ident src ''alias'') (\<lambda>alias. pret (alias, None))
       else pbind (push_back t1) (\<lambda>_. pret (col, None))))"

definition select_item :: "source \<Rightarrow> tok \<Rightarrow> sel_item parser" where
  "select_item src t = (case t of
     TkIdent name \<Rightarrow>
       (case agg_func name of
          Some func \<Rightarrow> pbind (next_tok src) (\<lambda>t1.
            if t1 = TkLParen then agg_item src func else pbind (push_back t1) (\<lambda>_. pret (name, None)))
        | None \<Rightarrow> plain_item src name)
   | _ \<Rightarrow> pfail ''expected column name'')"

text \<open>The selected columns from the given token on, and the token after them.\<close>

primrec select_items :: "source \<Rightarrow> nat \<Rightarrow> tok \<Rightarrow> (sel_item list \<times> tok) parser" where
  "select_items src 0 t = never"
| "select_items src (Suc n) t = pbind (select_item src t) (\<lambda>item. pbind (next_tok src) (\<lambda>t1.
     if t1 = TkComma
     then pbind (next_tok src) (\<lambda>t2. pbind (select_items src n t2) (\<lambda>(items, t3). pret (item # items, t3)))
     else pret ([item], t1)))"

primrec parse_joins :: "source \<Rightarrow> select_parser \<Rightarrow> nat \<Rightarrow> select_statement sql_join list parser" where
  "parse_joins src ps 0 = never"
| "parse_joins src ps (Suc n) = pbind (next_tok src) (\<lambda>t.
     if is_word t ''join''
     then pbind (parse_table_ref src ps) (\<lambda>r. pbind (expect_kw src ''on'') (\<lambda>_.
       pbind (expect_ident src ''left column'') (\<lambda>left. pbind (expect_tok src (TkOp CEq) (quoted ''='' @ '' in ON clause'')) (\<lambda>_.
       pbind (expect_ident src ''right column'') (\<lambda>right. pbind (parse_joins src ps n) (\<lambda>js.
         pret (Join JInner r left right # js)))))))
     else pbind (push_back t) (\<lambda>_. pret []))"

record clauses =
  cl_filter :: "sql_expr option"
  cl_group_by :: "string list"
  cl_having :: "sql_expr option"
  cl_order_by :: "order_by list"
  cl_cosine :: "order_by_cosine option"
  cl_limit :: "nat option"

definition no_clauses :: clauses where
  "no_clauses = \<lparr>cl_filter = None, cl_group_by = [], cl_having = None, cl_order_by = [], cl_cosine = None, cl_limit = None\<rparr>"

text \<open>The direction after a sort column.\<close>

definition direction :: "source \<Rightarrow> bool parser" where
  "direction src = pbind (next_tok src) (\<lambda>t.
     if is_word t ''asc'' then pret False else if is_word t ''desc'' then pret True else pbind (push_back t) (\<lambda>_. pret False))"

primrec more_order_by :: "source \<Rightarrow> nat \<Rightarrow> order_by list parser" where
  "more_order_by src 0 = never"
| "more_order_by src (Suc n) = pbind (next_tok src) (\<lambda>t.
     if t = TkComma
     then pbind (next_tok src) (\<lambda>t1. case t1 of
       TkIdent name \<Rightarrow> pbind (direction src) (\<lambda>desc. pbind (more_order_by src n) (\<lambda>obs.
         pret (\<lparr>ob_column = name, ob_descending = desc\<rparr> # obs)))
     | _ \<Rightarrow> pfail ''expected column name in ORDER BY'')
     else pbind (push_back t) (\<lambda>_. pret []))"

text \<open>The cast of an \<open>i64\<close> to \<open>u64\<close>.\<close>

definition as_u64 :: "int \<Rightarrow> nat" where
  "as_u64 v = nat (v mod 2 ^ 64)"

definition parse_cosine :: "source \<Rightarrow> order_by_cosine parser" where
  "parse_cosine src =
     pbind (expect_tok src TkLParen (quoted ''('' @ '' after cosine'')) (\<lambda>_.
     pbind (expect_ident src ''embedding column'') (\<lambda>column.
     pbind (expect_tok src TkComma (quoted '','' @ '' in cosine(...)'')) (\<lambda>_.
     pbind (next_tok src) (\<lambda>t. if t \<noteq> TkParam then pfail (''expected '' @ quoted ''?'' @ '' query vector'') else
     pbind (expect_tok src TkRParen (quoted '')'' @ '' after cosine(...)'')) (\<lambda>_.
     pbind (expect_kw src ''limit'') (\<lambda>_.
     pbind (expect_int src ''LIMIT k'') (\<lambda>k. pret \<lparr>oc_column = column, oc_param = 1, oc_k = as_u64 k\<rparr>)))))))"

definition parse_order :: "source \<Rightarrow> clauses \<Rightarrow> clauses parser" where
  "parse_order src cl =
     pbind (expect_kw src ''by'') (\<lambda>_. pbind (next_tok src) (\<lambda>t. case t of
       TkIdent name \<Rightarrow>
         if eq_ignore_case name ''cosine'' then pbind (parse_cosine src) (\<lambda>ob. pret (cl\<lparr>cl_cosine := Some ob\<rparr>))
         else pbind (direction src) (\<lambda>desc. pbind (more_order_by src (rounds src)) (\<lambda>obs.
           pret (cl\<lparr>cl_order_by := cl_order_by cl @ \<lparr>ob_column = name, ob_descending = desc\<rparr> # obs\<rparr>)))
     | _ \<Rightarrow> pfail ''only ORDER BY <col> and ORDER BY cosine(...) are supported''))"

definition parse_limit :: "source \<Rightarrow> clauses \<Rightarrow> clauses parser" where
  "parse_limit src cl =
     (if cl_limit cl \<noteq> None then pfail ''duplicate LIMIT''
      else pbind (next_tok src) (\<lambda>t. case t of
        TkInt v \<Rightarrow> if 0 \<le> v then pret (cl\<lparr>cl_limit := Some (nat v)\<rparr>) else pfail ''expected non-negative LIMIT''
      | _ \<Rightarrow> pfail ''expected non-negative LIMIT''))"

text \<open>One clause, by the token it begins with; \<open>None\<close> for a token that begins none.\<close>

definition parse_clause :: "source \<Rightarrow> expr_parser \<Rightarrow> clauses \<Rightarrow> tok \<Rightarrow> clauses parser option" where
  "parse_clause src pe cl t =
     (if is_word t ''where'' then Some (if cl_filter cl \<noteq> None then pfail ''duplicate WHERE''
        else pbind pe (\<lambda>e. pret (cl\<lparr>cl_filter := Some e\<rparr>)))
      else if is_word t ''group'' then Some (pbind (expect_kw src ''by'') (\<lambda>_.
        pbind (comma_list src (expect_ident src ''column in GROUP BY'') (rounds src)) (\<lambda>cols. pret (cl\<lparr>cl_group_by := cl_group_by cl @ cols\<rparr>))))
      else if is_word t ''having'' then Some (if cl_having cl \<noteq> None then pfail ''duplicate HAVING''
        else pbind pe (\<lambda>e. pret (cl\<lparr>cl_having := Some e\<rparr>)))
      else if is_word t ''order'' then Some (parse_order src cl)
      else if is_word t ''limit'' then Some (parse_limit src cl)
      else None)"

text \<open>The clauses from the given token on; the token that ends them is put back.\<close>

primrec parse_clauses :: "source \<Rightarrow> expr_parser \<Rightarrow> nat \<Rightarrow> clauses \<Rightarrow> tok \<Rightarrow> clauses parser" where
  "parse_clauses src pe 0 cl t = never"
| "parse_clauses src pe (Suc n) cl t = (case parse_clause src pe cl t of
     None \<Rightarrow> pbind (push_back t) (\<lambda>_. pret cl)
   | Some p \<Rightarrow> pbind p (\<lambda>cl'. pbind (next_tok src) (parse_clauses src pe n cl')))"

definition select_list :: "source \<Rightarrow> (bool \<times> sel_item list \<times> tok) parser" where
  "select_list src = pbind (next_tok src) (\<lambda>t.
     if t = TkStar then pbind (next_tok src) (\<lambda>t1. pret (True, [], t1))
     else pbind (select_items src (rounds src) t) (\<lambda>(items, t1). pret (False, items, t1)))"

definition parse_select_body :: "source \<Rightarrow> expr_parser \<Rightarrow> select_parser \<Rightarrow> select_parser" where
  "parse_select_body src pe ps =
     pbind (select_list src) (\<lambda>(star, items, t).
     if \<not> is_word t ''from'' then pfail ''expected FROM'' else
     pbind (parse_table_ref src ps) (\<lambda>r.
     pbind (parse_joins src ps (rounds src)) (\<lambda>js.
     pbind (next_tok src) (\<lambda>t1.
     pbind (parse_clauses src pe (rounds src) no_clauses t1) (\<lambda>cl.
       pret (SelectStatement (map fst items) star r (cl_filter cl) js (cl_group_by cl)
         (List.map_filter snd items) (cl_order_by cl) (cl_cosine cl) (cl_limit cl) (cl_having cl) []))))))"

fun parse_expr :: "source \<Rightarrow> nat \<Rightarrow> expr_parser"
and parse_select_inner :: "source \<Rightarrow> nat \<Rightarrow> select_parser" where
  "parse_expr src 0 pos = None"
| "parse_expr src (Suc n) pos = parse_or src (parse_expr src n) (parse_select_inner src n) pos"
| "parse_select_inner src 0 pos = None"
| "parse_select_inner src (Suc n) pos = parse_select_body src (parse_expr src n) (parse_select_inner src n) pos"

subsection \<open>Statements\<close>

definition expr_of :: "source \<Rightarrow> expr_parser" where
  "expr_of src = parse_expr src (rounds src)"

definition select_of :: "source \<Rightarrow> select_parser" where
  "select_of src = parse_select_inner src (rounds src)"

definition at_end :: "source \<Rightarrow> string \<Rightarrow> 'a \<Rightarrow> 'a parser" where
  "at_end src msg x = pbind (next_tok src) (\<lambda>t. if t \<noteq> TkEof then pfail msg else pret x)"

definition trailing :: string where
  "trailing = ''trailing tokens after statement''"

definition comma_or_paren :: string where
  "comma_or_paren = ''expected '' @ quoted '','' @ '' or '' @ quoted '')''"

definition parse_create_view :: "source \<Rightarrow> create_view_statement parser" where
  "parse_create_view src =
     pbind (expect_ident src ''view name'') (\<lambda>name. pbind (expect_kw src ''as'') (\<lambda>_. pbind (next_tok src) (\<lambda>t.
     if is_word t ''select''
     then pbind (select_of src) (\<lambda>q. at_end src trailing \<lparr>cv_name = name, cv_query = q\<rparr>)
     else pfail ''expected SELECT after CREATE VIEW ... AS'')))"

text \<open>The optional dimension of a vector column, which is skipped.\<close>

definition skip_dimension :: "source \<Rightarrow> unit parser" where
  "skip_dimension src pos =
     (if byte_is src pos (\<lambda>c. c = CHR ''['')
      then let p = skip src (\<lambda>c. c \<noteq> CHR '']'') (pos + 1) in pret () (if p < length (src_text src) then p + 1 else p)
      else pret () pos)"

definition parse_column_def :: "source \<Rightarrow> column_def parser" where
  "parse_column_def src = pbind (expect_ident src ''column name'') (\<lambda>name. pbind (next_tok src) (\<lambda>t.
     if is_word t ''int'' \<or> is_word t ''integer'' then pret \<lparr>cd_name = name, cd_ctype = CInt\<rparr>
     else if is_word t ''text'' then pret \<lparr>cd_name = name, cd_ctype = CText\<rparr>
     else if is_word t ''vector'' then pbind (skip_dimension src) (\<lambda>_. pret \<lparr>cd_name = name, cd_ctype = CVector\<rparr>)
     else pfail ''expected column type (INT, TEXT, VECTOR)''))"

definition parse_create_table :: "source \<Rightarrow> create_table_statement parser" where
  "parse_create_table src =
     pbind (expect_kw src ''table'') (\<lambda>_. pbind (expect_ident src ''table name'') (\<lambda>name.
     pbind (expect_tok src TkLParen (quoted ''('')) (\<lambda>_.
     pbind (paren_list src (parse_column_def src) comma_or_paren (rounds src)) (\<lambda>cols. pret \<lparr>ct_table = name, ct_columns = cols\<rparr>))))"

definition parse_insert :: "source \<Rightarrow> insert_statement parser" where
  "parse_insert src =
     pbind (expect_kw src ''into'') (\<lambda>_. pbind (expect_ident src ''table name'') (\<lambda>name. pbind (next_tok src) (\<lambda>t.
     pbind (if t = TkLParen
       then pbind (paren_list src (expect_ident src ''column name'') comma_or_paren (rounds src)) (\<lambda>cols.
         pbind (next_tok src) (\<lambda>t1. pret (cols, t1)))
       else pret ([], t)) (\<lambda>(cols, t1).
     if \<not> is_word t1 ''values'' then pfail ''expected VALUES'' else
     pbind (expect_tok src TkLParen (quoted ''('' @ '' before values'')) (\<lambda>_.
     pbind (paren_list src (parse_literal src) comma_or_paren (rounds src)) (\<lambda>vals.
       at_end src trailing \<lparr>is_table = name, is_columns = cols, is_values = vals\<rparr>))))))"

definition parse_assignment :: "source \<Rightarrow> sql_assignment parser" where
  "parse_assignment src =
     pbind (expect_ident src ''column name'') (\<lambda>c. pbind (expect_tok src (TkOp CEq) (quoted ''='' @ '' in assignment'')) (\<lambda>_.
     pbind (parse_literal src) (\<lambda>v. pret \<lparr>sa_column = c, sa_value = v\<rparr>)))"

definition parse_update :: "source \<Rightarrow> update_statement parser" where
  "parse_update src =
     pbind (expect_ident src ''table name'') (\<lambda>name. pbind (expect_kw src ''set'') (\<lambda>_.
     pbind (comma_list src (parse_assignment src) (rounds src)) (\<lambda>as. pbind (next_tok src) (\<lambda>t.
     pbind (if is_word t ''where'' then pbind (expr_of src) (\<lambda>e. pret (Some e)) else pbind (push_back t) (\<lambda>_. pret None)) (\<lambda>flt.
       at_end src ''trailing tokens'' \<lparr>us_table = name, us_assignments = as, us_filter = flt\<rparr>)))))"

text \<open>A token after the table that is not WHERE is dropped.\<close>

definition parse_delete :: "source \<Rightarrow> delete_statement parser" where
  "parse_delete src =
     pbind (expect_kw src ''from'') (\<lambda>_. pbind (expect_ident src ''table name'') (\<lambda>name. pbind (next_tok src) (\<lambda>t.
     pbind (if is_word t ''where'' then pbind (expr_of src) (\<lambda>e. pret (Some e)) else pret None) (\<lambda>flt.
       at_end src trailing \<lparr>ds_table = name, ds_filter = flt\<rparr>))))"

definition parse_cte :: "source \<Rightarrow> select_statement cte parser" where
  "parse_cte src =
     pbind (expect_ident src ''CTE name'') (\<lambda>name. pbind (expect_kw src ''as'') (\<lambda>_.
     pbind (expect_tok src TkLParen (quoted ''('' @ '' after AS in CTE'')) (\<lambda>_. pbind (next_tok src) (\<lambda>t.
     if \<not> is_word t ''select'' then pfail ''expected SELECT in CTE''
     else pbind (closed_select src (select_of src) ''CTE subquery'') (\<lambda>q. pret (Cte name q))))))"

definition parse_with_clause :: "source \<Rightarrow> select_statement cte list parser" where
  "parse_with_clause src = comma_list src (parse_cte src) (rounds src)"

text \<open>The dimension in ALTER TABLE; without one the code puts the word VECTOR itself back.\<close>

definition alter_dimension :: "source \<Rightarrow> unit parser" where
  "alter_dimension src = pbind (next_tok src) (\<lambda>t.
     if t = TkLBracket
     then (\<lambda>pos. let p = skip src ascii_digit pos in pret () (if byte_is src p (\<lambda>c. c = CHR '']'') then p + 1 else p))
     else push_back (TkIdent ''vector''))"

definition parse_add_column :: "source \<Rightarrow> alter_table_op parser" where
  "parse_add_column src =
     pbind (expect_kw src ''column'') (\<lambda>_. pbind (expect_ident src ''column name'') (\<lambda>name. pbind (next_tok src) (\<lambda>t.
     if is_word t ''int'' then pret (AddColumn \<lparr>cd_name = name, cd_ctype = CInt\<rparr>)
     else if is_word t ''text'' then pret (AddColumn \<lparr>cd_name = name, cd_ctype = CText\<rparr>)
     else if is_word t ''vector'' then pbind (alter_dimension src) (\<lambda>_. pret (AddColumn \<lparr>cd_name = name, cd_ctype = CVector\<rparr>))
     else pfail ''expected column type (INT, TEXT, VECTOR)'')))"

definition parse_alter_table :: "source \<Rightarrow> alter_table_statement parser" where
  "parse_alter_table src =
     pbind (expect_ident src ''table name'') (\<lambda>name. pbind (next_tok src) (\<lambda>t.
     pbind (if is_word t ''add'' then parse_add_column src
       else if is_word t ''drop'' then pbind (expect_kw src ''column'') (\<lambda>_. pbind (expect_ident src ''column name'') (\<lambda>c. pret (DropColumn c)))
       else if is_word t ''rename'' then pbind (expect_kw src ''column'') (\<lambda>_. pbind (expect_ident src ''old column name'') (\<lambda>old.
         pbind (expect_kw src ''to'') (\<lambda>_. pbind (expect_ident src ''new column name'') (\<lambda>new. pret (RenameColumn old new)))))
       else pfail ''expected ADD, DROP, or RENAME after ALTER TABLE'') (\<lambda>a. pret \<lparr>al_table = name, al_op = a\<rparr>)))"

definition with_ctes :: "select_statement cte list \<Rightarrow> select_statement \<Rightarrow> select_statement" where
  "with_ctes ctes s = SelectStatement (sel_columns s) (sel_star s) (sel_table s) (sel_filter s) (sel_joins s) (sel_group_by s)
     (sel_aggregates s) (sel_order_by s) (sel_order_by_cosine s) (sel_limit s) (sel_having s) ctes"

definition parse_full_select :: "source \<Rightarrow> select_statement cte list \<Rightarrow> select_parser" where
  "parse_full_select src ctes = pbind (select_of src) (\<lambda>s. at_end src trailing (with_ctes ctes s))"

definition parse_create :: "source \<Rightarrow> statement parser" where
  "parse_create src = pbind (next_tok src) (\<lambda>t.
     if is_word t ''table'' then pbind (push_back t) (\<lambda>_. pbind (parse_create_table src) (\<lambda>ct. pret (StCreateTable ct)))
     else if is_word t ''view'' then pbind (parse_create_view src) (\<lambda>cv. pret (StCreateView cv))
     else pfail ''expected TABLE or VIEW after CREATE'')"

definition parse_drop :: "source \<Rightarrow> statement parser" where
  "parse_drop src = pbind (next_tok src) (\<lambda>t.
     if is_word t ''view'' then pbind (expect_ident src ''view name'') (\<lambda>name. at_end src trailing (StDropView name))
     else pfail ''expected VIEW after DROP'')"

definition statement_at :: "source \<Rightarrow> statement parser" where
  "statement_at src = pbind (next_tok src) (\<lambda>t.
     if is_word t ''with'' then pbind (parse_with_clause src) (\<lambda>ctes. pbind (next_tok src) (\<lambda>t1.
       if \<not> is_word t1 ''select'' then pfail ''expected SELECT after WITH''
       else pbind (parse_full_select src ctes) (\<lambda>s. pret (StSelect s))))
     else if is_word t ''select'' then pbind (select_of src) (\<lambda>s. at_end src trailing (StSelect s))
     else if is_word t ''insert'' then pbind (parse_insert src) (\<lambda>i. pret (StInsert i))
     else if is_word t ''update'' then pbind (parse_update src) (\<lambda>u. pret (StUpdate u))
     else if is_word t ''delete'' then pbind (parse_delete src) (\<lambda>d. pret (StDelete d))
     else if is_word t ''create'' then parse_create src
     else if is_word t ''drop'' then parse_drop src
     else if is_word t ''alter'' then pbind (expect_kw src ''table'') (\<lambda>_.
       pbind (parse_alter_table src) (\<lambda>al. at_end src trailing (StAlterTable al)))
     else if is_word t ''begin'' then pret StBegin
     else if is_word t ''commit'' then pret StCommit
     else if is_word t ''rollback'' then pret StRollback
     else pfail ''expected SELECT, INSERT, UPDATE, DELETE, CREATE TABLE, CREATE VIEW, DROP VIEW, ALTER TABLE, BEGIN, COMMIT, or ROLLBACK'')"

text \<open>From the beginning of the text; the final position is dropped.\<close>

definition parsed :: "'a parser \<Rightarrow> (parse_error, 'a) fallible" where
  "parsed p = try_bind (p 0) (\<lambda>(x, pos). try_ok x)"

definition parse_statement :: "source \<Rightarrow> (parse_error, statement) fallible" where
  "parse_statement src = parsed (statement_at src)"

definition parse_select :: "source \<Rightarrow> (parse_error, select_statement) fallible" where
  "parse_select src = parsed (pbind (next_tok src) (\<lambda>t.
     pbind (if is_word t ''with'' then parse_with_clause src else pbind (push_back t) (\<lambda>_. pret [])) (\<lambda>ctes.
     pbind (next_tok src) (\<lambda>t1.
     if \<not> is_word t1 ''select'' then pfail ''expected SELECT'' else parse_full_select src ctes))))"

end
