(* ===== verification/Sql_Parser_Total.thy ===== *)
theory Sql_Parser_Total
  imports Sql_Parser
begin

text \<open>
  The SQL parser always returns. Every parser moves forward in the text: what is put back after reading ahead is at most what was read, and
  every nested condition or query and every round of a loop begins after at least one more byte. So the length
  of the text bounds the depth of the recursion and the rounds of each loop.
\<close>

abbreviation (input) text_length :: "source \<Rightarrow> nat" where
  "text_length src \<equiv> length (src_text src)"

text \<open>The parser returns, with an error or at a position from \<open>lo\<close> on.\<close>

definition returns :: "source \<Rightarrow> nat \<Rightarrow> 'a parser \<Rightarrow> nat \<Rightarrow> bool" where
  "returns src lo p pos \<longleftrightarrow> try_safe (p pos) (\<lambda>(x, q). lo \<le> q \<and> q \<le> text_length src)"

lemma returns_ret [parse_intro]: "lo \<le> pos \<Longrightarrow> pos \<le> text_length src \<Longrightarrow> returns src lo (pret x) pos"
  by (simp add: returns_def pret_def)

lemma returns_fail [parse_intro]: "returns src lo (pfail msg) pos"
  by (simp add: returns_def pfail_def)

lemma returns_bind:
  assumes "returns src mid p pos" and "\<And>x q. mid \<le> q \<Longrightarrow> q \<le> text_length src \<Longrightarrow> returns src lo (f x) q"
  shows "returns src lo (pbind p f) pos"
  unfolding returns_def pbind_def
  by (rule try_safe_bind [OF assms(1) [unfolded returns_def]]) (use assms(2) in \<open>auto simp: returns_def\<close>)

lemma returns_weaken: "returns src hi p pos \<Longrightarrow> lo \<le> hi \<Longrightarrow> returns src lo p pos"
  by (auto simp: returns_def elim!: try_safe_cases)

lemma returns_if [parse_intro]: "(b \<Longrightarrow> returns src lo p pos) \<Longrightarrow> (\<not> b \<Longrightarrow> returns src lo q pos) \<Longrightarrow> returns src lo (if b then p else q) pos"
  by simp

subsection \<open>Tokens\<close>

lemma skip_bounds: "pos \<le> text_length src \<Longrightarrow> pos \<le> skip src P pos \<and> skip src P pos \<le> text_length src"
  using length_takeWhile_le [of P "drop pos (src_text src)"] by (simp add: skip_def)

lemma skip_moves: "byte_is src pos P \<Longrightarrow> pos < skip src P pos"
  by (simp add: skip_def byte_is_def Cons_nth_drop_Suc [symmetric])

lemma length_slice: "b \<le> text_length src \<Longrightarrow> length (slice src a b) = b - a"
  by (simp add: slice_def)

lemma nat_to_string_length: "0 < k \<Longrightarrow> n < 10 ^ k \<Longrightarrow> length (nat_to_string n) \<le> k"
proof (induction k arbitrary: n)
  case (Suc k)
  show ?case
  proof (cases "n < 10")
    case True
    then show ?thesis by (simp add: nat_to_string.simps [of n])
  next
    case False
    then have "n div 10 < 10 ^ k" "0 < k" using Suc.prems by (auto simp: less_mult_imp_div_less mult.commute intro: ccontr)
    with Suc.IH [of "n div 10"] False show ?thesis by (simp add: nat_to_string.simps [of n])
  qed
qed simp

lemma digits_value_bound:
  "list_all ascii_digit ds \<Longrightarrow> 0 \<le> digits_value ds \<and> digits_value ds < 10 ^ length ds"
proof (induction ds rule: rev_induct)
  case (snoc c ds)
  then have c: "48 \<le> (of_char c :: nat)" "(of_char c :: nat) \<le> 57" by (simp_all add: ascii_digit_def)
  then have "0 \<le> int (of_char c) - 48" "int (of_char c) - 48 \<le> 9" by linarith+
  with snoc show ?case by (simp add: digits_value_def)
qed (simp add: digits_value_def)

lemma parse_i64_length:
  assumes "parse_i64 t = Some v" and "list_all ascii_digit (if t \<noteq> [] \<and> hd t = CHR ''-'' then tl t else t)"
  shows "length (int_to_string v) \<le> length t"
proof -
  define neg ds where "neg = (t \<noteq> [] \<and> hd t = CHR ''-'')" and "ds = (if neg then tl t else t)"
  from assms(1) have ds: "ds \<noteq> []" and v: "v = (if neg then - digits_value ds else digits_value ds)"
    by (auto simp: parse_i64_def Let_def neg_def ds_def split: if_splits)
  have b: "0 \<le> digits_value ds" "digits_value ds < 10 ^ length ds"
    using digits_value_bound [of ds] assms(2) by (simp_all add: ds_def neg_def)
  then have n: "nat (digits_value ds) < 10 ^ length ds" by (simp add: nat_less_iff)
  have len: "length t = (if neg then Suc (length ds) else length ds)" by (auto simp: ds_def neg_def)
  have k: "length (nat_to_string (nat (digits_value ds))) \<le> length ds" using nat_to_string_length [OF _ n] ds by simp
  show ?thesis
  proof (cases neg)
    case True
    then have "int_to_string v = (if digits_value ds = 0 then nat_to_string 0 else ''-'' @ nat_to_string (nat (digits_value ds)))"
      using v b(1) by (simp add: int_to_string_def)
    with True k len show ?thesis by (auto simp: nat_to_string.simps [of 0])
  next
    case False
    then have "int_to_string v = nat_to_string (nat (digits_value ds))" using v b(1) by (simp add: int_to_string_def)
    with False k len show ?thesis by simp
  qed
qed

text \<open>A token read from \<open>pos\<close> to \<open>q\<close>: putting it back never goes before \<open>pos\<close>.\<close>

definition tok_at :: "source \<Rightarrow> nat \<Rightarrow> tok \<Rightarrow> nat \<Rightarrow> bool" where
  "tok_at src pos t q \<longleftrightarrow> pos \<le> q \<and> q \<le> text_length src \<and> (t \<noteq> TkEof \<longrightarrow> pos < q) \<and> pos + tok_length t \<le> q"

lemma takeWhile_slice: "list_all P (slice src pos (skip src P pos))"
proof -
  have "slice src pos (skip src P pos) = takeWhile P (drop pos (src_text src))"
    unfolding slice_def skip_def add_diff_cancel_left' by (rule takeWhile_eq_take [symmetric])
  then show ?thesis by (auto simp: list_all_iff dest: set_takeWhileD)
qed

lemma number_end_bounds:
  assumes "pos < text_length src" and "ascii_digit (src_text src ! pos) \<or> src_text src ! pos = CHR ''-''" and "number_end src pos = (p, f)"
  shows "pos < p \<and> p \<le> text_length src"
    and "\<not> f \<Longrightarrow> p = skip src ascii_digit (if src_text src ! pos = CHR ''-'' then pos + 1 else pos)"
proof -
  define s where "s = (if src_text src ! pos = CHR ''-'' then pos + 1 else pos)"
  have s: "s \<le> text_length src" "pos \<le> s" using assms(1) by (auto simp: s_def)
  have "pos < skip src ascii_digit s"
  proof (cases "src_text src ! pos = CHR ''-''")
    case True
    then show ?thesis using skip_bounds [OF s(1), of ascii_digit] by (simp add: s_def)
  next
    case False
    with assms(1,2) show ?thesis by (auto simp: s_def byte_is_def intro!: skip_moves)
  qed
  moreover have e: "number_end src pos = (let p = skip src ascii_digit s in
      if byte_is src p (\<lambda>c. c = CHR ''.'') \<and> byte_is src (p + 1) ascii_digit
      then let q = skip src ascii_digit (p + 1) in if byte_is src q ascii_alphabetic then (p, False) else (q, True) else (p, False))"
    using assms(1) by (simp add: number_end_def s_def byte_is_def)
  ultimately show "pos < p \<and> p \<le> text_length src"
    using assms(3) skip_bounds [OF s(1), of ascii_digit] skip_bounds [of "skip src ascii_digit s + 1" src ascii_digit]
    by (auto simp: Let_def byte_is_def split: if_splits)
  show "\<not> f \<Longrightarrow> p = skip src ascii_digit (if src_text src ! pos = CHR ''-'' then pos + 1 else pos)"
    using assms(3) e by (auto simp: Let_def s_def split: if_splits)
qed

lemma lex_number_at:
  assumes "pos < text_length src" and "ascii_digit (src_text src ! pos) \<or> src_text src ! pos = CHR ''-''"
  shows "try_safe (lex_number src pos) (\<lambda>(t, q). t \<noteq> TkEof \<and> tok_at src pos t q)"
proof -
  obtain p f where e: "number_end src pos = (p, f)" by (cases "number_end src pos")
  note b = number_end_bounds [OF assms e]
  have "length (int_to_string v) \<le> p - pos" if "\<not> f" "parse_i64 (slice src pos p) = Some v" for v
  proof -
    let ?c = "src_text src ! pos"
    have split: "slice src pos p = ?c # slice src (pos + 1) p"
      using b(1) assms(1) by (simp add: slice_def Cons_nth_drop_Suc [symmetric] take_Cons' Suc_diff_Suc)
    have "list_all ascii_digit (if slice src pos p \<noteq> [] \<and> hd (slice src pos p) = CHR ''-'' then tl (slice src pos p) else slice src pos p)"
    proof (cases "?c = CHR ''-''")
      case True
      then have "list_all ascii_digit (slice src (pos + 1) p)"
        using b(2) [OF that(1)] takeWhile_slice [of ascii_digit src "pos + 1"] by simp
      with True show ?thesis by (simp add: split)
    next
      case False
      then have "list_all ascii_digit (slice src pos p)" using b(2) [OF that(1)] takeWhile_slice [of ascii_digit src pos] by simp
      with False show ?thesis by (simp add: split)
    qed
    from parse_i64_length [OF that(2) this] length_slice [of p src pos] b(1) show ?thesis by simp
  qed
  with e b(1) show ?thesis
    by (auto simp: lex_number_def Let_def pret_def pfail_def tok_at_def split: option.splits)
qed

lemma lex_text_at:
  assumes "pos < text_length src"
  shows "try_safe (lex_text src (pos + 1)) (\<lambda>(t, q). t \<noteq> TkEof \<and> tok_at src pos t q)"
proof -
  have "pos + 1 \<le> text_length src" using assms by simp
  from skip_bounds [OF this, of "\<lambda>c. c \<noteq> CHR 0x27"] show ?thesis
    by (auto simp: lex_text_def Let_def pret_def pfail_def tok_at_def length_slice)
qed

lemma lex_at_at:
  assumes "pos < text_length src"
  shows "try_safe (lex_at src (src_text src ! pos) pos) (\<lambda>(t, q). t \<noteq> TkEof \<and> tok_at src pos t q)"
proof -
  let ?c = "src_text src ! pos"
  have ident: "pos < skip src ident_char pos \<and> skip src ident_char pos \<le> text_length src" if "ascii_alphabetic ?c \<or> ?c = CHR ''_''"
    using skip_moves [of src pos ident_char] skip_bounds [of pos src ident_char] assms that by (auto simp: byte_is_def ident_char_def)
  have op: "tok_at src pos (TkOp c) (pos + 2)" if "byte_is src (pos + 1) P" for c P
    using that by (auto simp: tok_at_def byte_is_def)
  show ?thesis
    unfolding lex_at_def
    using assms ident lex_number_at [OF assms] lex_text_at [OF assms] op
    by (auto simp: pret_def pfail_def tok_at_def length_slice Let_def)
qed

lemma next_tok_at:
  assumes "pos \<le> text_length src"
  shows "try_safe (next_tok src pos) (\<lambda>(t, q). tok_at src pos t q)"
proof -
  let ?p = "skip src ascii_whitespace pos"
  have b: "pos \<le> ?p" "?p \<le> text_length src" using skip_bounds [OF assms] by blast+
  show ?thesis
  proof (cases "text_length src \<le> ?p")
    case True
    with b show ?thesis by (simp add: next_tok_def Let_def pret_def tok_at_def)
  next
    case False
    then have "try_safe (lex_at src (src_text src ! ?p) ?p) (\<lambda>(t, q). t \<noteq> TkEof \<and> tok_at src ?p t q)" by (intro lex_at_at) simp
    with False b show ?thesis by (auto simp: next_tok_def Let_def tok_at_def elim!: try_safe_cases)
  qed
qed

lemma returns_tok [parse_intro]:
  assumes "pos \<le> text_length src"
    and "\<And>t q. tok_at src pos t q \<Longrightarrow> pos \<le> q \<Longrightarrow> q \<le> text_length src \<Longrightarrow> t = TkEof \<or> pos < q \<Longrightarrow> returns src lo (f t) q"
  shows "returns src lo (pbind (next_tok src) f) pos"
  unfolding returns_def pbind_def
  by (rule try_safe_bind [OF next_tok_at [OF assms(1)]]) (use assms(2) in \<open>auto simp: returns_def tok_at_def\<close>)

lemma returns_push_back [parse_intro]:
  assumes "tok_at src pos t q" and "\<And>p. pos \<le> p \<Longrightarrow> p \<le> text_length src \<Longrightarrow> returns src lo (f ()) p"
  shows "returns src lo (pbind (push_back t) f) q"
  using assms by (auto simp: returns_def pbind_def push_back_def checked_sub_def tok_at_def)

lemma is_word_Eof [simp]: "\<not> is_word TkEof w"
  by (simp add: is_word_def)

lemma returns_case_tok [parse_intro]:
  assumes "\<And>s. t = TkIdent s \<Longrightarrow> returns src lo (f1 s) pos" and "\<And>v. t = TkInt v \<Longrightarrow> returns src lo (f2 v) pos"
    and "\<And>f. t = TkFloat f \<Longrightarrow> returns src lo (f3 f) pos" and "\<And>s. t = TkText s \<Longrightarrow> returns src lo (f4 s) pos"
    and "t = TkStar \<Longrightarrow> returns src lo f5 pos" and "t = TkComma \<Longrightarrow> returns src lo f6 pos" and "t = TkDot \<Longrightarrow> returns src lo f7 pos"
    and "\<And>c. t = TkOp c \<Longrightarrow> returns src lo (f8 c) pos" and "t = TkParam \<Longrightarrow> returns src lo f9 pos"
    and "t = TkLParen \<Longrightarrow> returns src lo f10 pos" and "t = TkRParen \<Longrightarrow> returns src lo f11 pos"
    and "t = TkLBracket \<Longrightarrow> returns src lo f12 pos" and "t = TkEof \<Longrightarrow> returns src lo f13 pos"
  shows "returns src lo (case_tok f1 f2 f3 f4 f5 f6 f7 f8 f9 f10 f11 f12 f13 t) pos"
  using assms by (cases t) simp_all

lemma returns_case_option [parse_intro]:
  "(z = None \<Longrightarrow> returns src lo p pos) \<Longrightarrow> (\<And>x. z = Some x \<Longrightarrow> returns src lo (f x) pos) \<Longrightarrow> returns src lo (case_option p f z) pos"
  by (cases z) simp_all

lemma returns_nested [parse_intro]:
  "returns src lo (f x) pos \<Longrightarrow> returns src lo (pbind (pret x) f) pos"
  "returns src lo (pbind p (\<lambda>y. pbind (g y) f)) pos \<Longrightarrow> returns src lo (pbind (pbind p g) f) pos"
  "returns src lo (pbind (pfail msg) f) pos"
  by (auto simp: returns_def pbind_def pret_def pfail_def try_bind_def try_ok_def try_err_def try_safe_def split: option.splits sum.splits)

lemma returns_nested_if [parse_intro]:
  "(b \<Longrightarrow> returns src lo (pbind p f) pos) \<Longrightarrow> (\<not> b \<Longrightarrow> returns src lo (pbind q f) pos) \<Longrightarrow> returns src lo (pbind (if b then p else q) f) pos"
  by simp

lemma returns_case_pair [parse_intro]: "returns src lo (f a b) pos \<Longrightarrow> returns src lo (case (a, b) of (x, y) \<Rightarrow> f x y) pos"
  by simp

subsection \<open>Parsers that read at least one byte\<close>

text \<open>With fewer than \<open>n\<close> bytes left, the parser returns and has moved forward.\<close>

definition advances :: "source \<Rightarrow> nat \<Rightarrow> 'a parser \<Rightarrow> bool" where
  "advances src n p \<longleftrightarrow> (\<forall>pos. pos \<le> text_length src \<longrightarrow> text_length src - pos < n \<longrightarrow> returns src (Suc pos) p pos)"

lemma advancesI: "(\<And>pos. pos \<le> text_length src \<Longrightarrow> text_length src - pos < n \<Longrightarrow> returns src (Suc pos) p pos) \<Longrightarrow> advances src n p"
  by (simp add: advances_def)

lemma advances_bind:
  assumes "advances src n p" and "text_length src - pos < n" and "pos \<le> text_length src"
    and "\<And>x q. pos < q \<Longrightarrow> q \<le> text_length src \<Longrightarrow> returns src lo (f x) q"
  shows "returns src lo (pbind p f) pos"
  using assms by (intro returns_bind [of src "Suc pos" p]) (simp_all add: advances_def)

lemma advances_returns: "advances src n p \<Longrightarrow> text_length src - pos < n \<Longrightarrow> pos \<le> text_length src \<Longrightarrow> lo \<le> Suc pos \<Longrightarrow> returns src lo p pos"
  by (auto simp: advances_def intro: returns_weaken [of src "Suc pos"])

abbreviation always_advances :: "source \<Rightarrow> 'a parser \<Rightarrow> bool" where
  "always_advances src p \<equiv> advances src (rounds src) p"

lemma always_bind:
  "always_advances src p \<Longrightarrow> pos \<le> text_length src \<Longrightarrow> (\<And>x q. pos < q \<Longrightarrow> q \<le> text_length src \<Longrightarrow> returns src lo (f x) q) \<Longrightarrow> returns src lo (pbind p f) pos"
  by (erule advances_bind) (simp_all add: rounds_def)

lemma always_returns: "always_advances src p \<Longrightarrow> pos \<le> text_length src \<Longrightarrow> lo \<le> Suc pos \<Longrightarrow> returns src lo p pos"
  by (erule advances_returns) (simp_all add: rounds_def)

lemma expect_moves: "always_advances src (expect_tok src t what)" if "t \<noteq> TkEof" for t
  unfolding expect_tok_def using that by (intro advancesI parse_intro) auto

lemma expect_kw_moves: "always_advances src (expect_kw src w)"
  unfolding expect_kw_def by (intro advancesI parse_intro) auto

lemma expect_int_moves: "always_advances src (expect_int src what)"
  unfolding expect_int_def by (intro advancesI parse_intro) auto

lemmas sql_expect_steps [parse_intro] =
  always_bind [OF expect_kw_moves] always_bind [OF expect_int_moves] always_returns [OF expect_int_moves] always_bind [OF expect_moves]

lemma advances_0: "advances src 0 p"
  by (simp add: advances_def)

lemma expect_ident_loop_advances: "advances src n (expect_ident_loop src n what)"
proof (induction n arbitrary: what)
  case (Suc n)
  show ?case unfolding expect_ident_loop.simps by (intro advancesI parse_intro advances_bind [OF Suc.IH]) (assumption | force)+
qed (rule advances_0)

lemma expect_ident_moves: "always_advances src (expect_ident src what)"
  unfolding expect_ident_def by (rule expect_ident_loop_advances)

lemmas ident_steps [parse_intro] = always_bind [OF expect_ident_moves] always_returns [OF expect_ident_moves]

lemma paren_list_advances:
  assumes "always_advances src item"
  shows "advances src n (paren_list src item msg n)"
proof (induction n)
  case (Suc n)
  show ?case unfolding paren_list.simps by (intro advancesI parse_intro always_bind [OF assms] advances_bind [OF Suc.IH]) (assumption | force)+
qed (rule advances_0)

lemma comma_list_advances:
  assumes "always_advances src item"
  shows "advances src n (comma_list src item n)"
proof (induction n)
  case (Suc n)
  show ?case unfolding comma_list.simps by (intro advancesI parse_intro always_bind [OF assms] advances_bind [OF Suc.IH]) (assumption | force)+
qed (rule advances_0)

lemmas list_steps = paren_list_advances [where n = "rounds src" for src, THEN always_bind]
  comma_list_advances [where n = "rounds src" for src, THEN always_bind]

lemma vector_loop_advances: "advances src n (vector_loop src n vals)"
proof (induction n arbitrary: vals)
  case (Suc n)
  show ?case
  proof (rule advancesI)
    fix pos
    assume pos: "pos \<le> text_length src" "text_length src - pos < Suc n"
    define a where "a = skip src ascii_whitespace pos"
    define b where "b = skip src (\<lambda>c. c \<noteq> CHR '','' \<and> c \<noteq> CHR '']'') a"
    define c where "c = skip src ascii_whitespace b"
    have a: "pos \<le> a" "a \<le> text_length src" using skip_bounds [OF pos(1)] by (auto simp: a_def)
    have b: "a \<le> b" "b \<le> text_length src" using skip_bounds [OF a(2)] by (auto simp: b_def)
    have c: "b \<le> c" "c \<le> text_length src" using skip_bounds [OF b(2)] by (auto simp: c_def)
    have step: "a < (if byte_is src c (\<lambda>c. c = CHR '','') then c + 1 else c)" if "a < text_length src" "src_text src ! a \<noteq> CHR '']''"
    proof (cases "src_text src ! a = CHR '',''")
      case True
      then have "b = a" "c = a" using that(1)
        by (simp_all add: b_def c_def skip_def ascii_whitespace_def Cons_nth_drop_Suc [symmetric])
      with True that(1) show ?thesis by (simp add: byte_is_def)
    next
      case False
      then have "a < b" using that unfolding b_def by (intro skip_moves) (simp add: byte_is_def)
      with c show ?thesis by simp
    qed
    have le: "(if byte_is src c (\<lambda>c. c = CHR '','') then c + 1 else c) \<le> text_length src" using c by (auto simp: byte_is_def)
    have "returns src (Suc pos) (vector_loop src n vs) (if byte_is src c (\<lambda>c. c = CHR '','') then c + 1 else c)"
      if "a < text_length src" "src_text src ! a \<noteq> CHR '']''" for vs
      using step [OF that] le a pos that by (intro advances_returns [OF Suc.IH]) linarith+
    with a b show "returns src (Suc pos) (vector_loop src (Suc n) vals) pos"
      by (auto simp: Let_def a_def [symmetric] b_def [symmetric] c_def [symmetric] returns_def pfail_def pret_def split: option.splits)
  qed
qed (rule advances_0)

lemma parse_literal_moves: "always_advances src (parse_literal src)"
  unfolding parse_literal_def parse_vector_literal_def
  by (intro advancesI parse_intro always_returns [OF vector_loop_advances]) (assumption | force)+

lemmas literal_steps [parse_intro] = always_bind [OF parse_literal_moves]
subsection \<open>Conditions\<close>

lemma agg_column_moves: "always_advances src (agg_column src)"
  unfolding agg_column_def by (intro advancesI parse_intro) (assumption | force)+

lemmas agg_column_steps [parse_intro] = always_bind [OF agg_column_moves]

lemma parse_agg_moves: "always_advances src (parse_agg src func)"
  unfolding parse_agg_def by (intro advancesI parse_intro) (assumption | force)+

lemma qualified_rest_bind [parse_intro]:
  assumes "pos \<le> text_length src" and "\<And>x q. pos \<le> q \<Longrightarrow> q \<le> text_length src \<Longrightarrow> returns src lo (f x) q"
  shows "returns src lo (pbind (qualified_rest src w) f) pos"
proof (rule returns_bind [of src pos])
  show "returns src pos (qualified_rest src w) pos"
    unfolding qualified_rest_def using assms(1) by (intro parse_intro) (assumption | force)+
qed (rule assms(2))

lemma parse_is_moves: "always_advances src (parse_is src col)"
  unfolding parse_is_def by (intro advancesI parse_intro) (assumption | force)+

lemma parse_like_moves: "always_advances src (parse_like src col)"
  unfolding parse_like_def by (intro advancesI parse_intro) (assumption | force)+

lemma parse_between_moves: "always_advances src (parse_between src col)"
  unfolding parse_between_def by (intro advancesI parse_intro) (assumption | force)+

lemmas condition_steps [parse_intro] = always_returns [OF parse_agg_moves] always_returns [OF parse_is_moves]
  always_returns [OF parse_like_moves] always_returns [OF parse_between_moves]

lemma closed_select_advances:
  assumes "advances src n ps"
  shows "advances src n (closed_select src ps what)"
  unfolding closed_select_def by (intro advancesI parse_intro advances_bind [OF assms]) (assumption | force)+

lemma parse_in_advances:
  assumes "advances src n ps"
  shows "advances src n (parse_in src ps col)"
  unfolding parse_in_def
  by (intro advancesI parse_intro advances_bind [OF closed_select_advances [OF assms]] list_steps [OF expect_int_moves]) (assumption | force)+

lemma parse_comparison_advances:
  assumes "advances src n ps"
  shows "advances src n (parse_comparison src ps col op)"
  unfolding parse_comparison_def
  by (intro advancesI parse_intro advances_bind [OF closed_select_advances [OF assms]]; (assumption | force split: cmp_op.split intro: parse_intro)?)

text \<open>A column expression follows a name that has been read, and its operator is read before anything nested.\<close>

lemma parse_column_expr_returns:
  assumes "advances src n ps" and "pos \<le> text_length src" and "text_length src - pos < n"
  shows "returns src pos (parse_column_expr src ps w) pos"
  unfolding parse_column_expr_def
  by (intro parse_intro advances_returns [OF parse_in_advances [OF assms(1)]] advances_returns [OF parse_comparison_advances [OF assms(1)]])
    (use assms(2,3) in \<open>(assumption | force)+\<close>)

lemma parse_primary_expr_advances:
  assumes "advances src n pe" and "advances src n ps"
  shows "advances src (Suc n) (parse_primary_expr src pe ps)"
  unfolding parse_primary_expr_def
  by (intro advancesI parse_intro advances_bind [OF assms(1)] advances_bind [OF closed_select_advances [OF assms(2)]]
      returns_weaken [OF parse_column_expr_returns [OF assms(2)]]) (assumption | force)+
lemma parse_not_returns:
  assumes "advances src n pe" and "advances src n ps"
  shows "pos \<le> text_length src \<Longrightarrow> text_length src - pos < k \<Longrightarrow> text_length src - pos < Suc n \<Longrightarrow> returns src (Suc pos) (parse_not src pe ps k) pos"
proof (induction k arbitrary: pos)
  case (Suc k)
  have ih: "returns src lo (pbind (parse_not src pe ps k) f) q"
    if "pos < q" "q \<le> text_length src" "\<And>x r. q < r \<Longrightarrow> r \<le> text_length src \<Longrightarrow> returns src lo (f x) r" for lo f q
    using that Suc by (intro returns_bind [OF Suc.IH]) simp_all
  show ?case
    unfolding parse_not.simps
    by (intro parse_intro ih advances_returns [OF parse_primary_expr_advances [OF assms]]) (use Suc.prems in \<open>(assumption | force)+\<close>)
qed simp

lemma parse_not_advances: "advances src n pe \<Longrightarrow> advances src n ps \<Longrightarrow> advances src (Suc n) (parse_not src pe ps (rounds src))"
  by (rule advancesI) (rule parse_not_returns, simp_all add: rounds_def)

lemma chain_loop_returns:
  assumes "advances src n operand"
  shows "pos \<le> text_length src \<Longrightarrow> text_length src - pos < k \<Longrightarrow> text_length src - pos < n \<Longrightarrow> returns src pos (chain_loop src w join operand k e) pos"
proof (induction k arbitrary: pos e)
  case (Suc k)
  have ih: "returns src lo (chain_loop src w join operand k e') q" if "pos < q" "q \<le> text_length src" "lo \<le> q" for lo e' q
    using that Suc.prems by (intro returns_weaken [OF Suc.IH]) simp_all
  show ?case
    unfolding chain_loop.simps by (intro parse_intro ih advances_bind [OF assms]) (use Suc.prems in \<open>(assumption | force)+\<close>)
qed simp

lemma chain_advances:
  assumes "advances src n operand"
  shows "advances src n (pbind operand (chain_loop src w join operand (rounds src)))"
  by (intro advancesI advances_bind [OF assms] returns_weaken [OF chain_loop_returns [OF assms]]) (simp_all add: rounds_def)

lemma parse_or_advances: "advances src n pe \<Longrightarrow> advances src n ps \<Longrightarrow> advances src (Suc n) (parse_or src pe ps)"
  unfolding parse_or_def parse_and_def by (intro chain_advances parse_not_advances)

subsection \<open>Queries\<close>

lemma parse_table_ref_advances:
  assumes "advances src n ps"
  shows "advances src (Suc n) (parse_table_ref src ps)"
  unfolding parse_table_ref_def
  by (intro advancesI parse_intro advances_bind [OF closed_select_advances [OF assms]]) (assumption | force)+

lemma agg_item_moves: "always_advances src (agg_item src func)"
  unfolding agg_item_def by (intro advancesI parse_intro) (assumption | force)+

lemma plain_item_returns: "pos \<le> text_length src \<Longrightarrow> returns src pos (plain_item src name) pos"
  unfolding plain_item_def by (intro parse_intro) (assumption | force)+

lemma select_item_bind [parse_intro]:
  assumes "pos \<le> text_length src" and "\<And>x q. pos \<le> q \<Longrightarrow> q \<le> text_length src \<Longrightarrow> returns src lo (f x) q"
  shows "returns src lo (pbind (select_item src t) f) pos"
proof (rule returns_bind [of src pos])
  show "returns src pos (select_item src t) pos"
    unfolding select_item_def using assms(1) by (intro parse_intro plain_item_returns always_returns [OF agg_item_moves]) (assumption | force)+
qed (rule assms(2))

lemma select_items_returns:
  "pos \<le> text_length src \<Longrightarrow> text_length src - pos < k \<Longrightarrow> returns src pos (select_items src k t) pos"
proof (induction k arbitrary: pos t)
  case (Suc k)
  have ih: "returns src lo (pbind (select_items src k t2) f) q"
    if "pos < q" "q \<le> text_length src" "\<And>x r. q \<le> r \<Longrightarrow> r \<le> text_length src \<Longrightarrow> returns src lo (f x) r" for lo f q t2
    using that Suc by (intro returns_bind [OF Suc.IH]) simp_all
  show ?case
    unfolding select_items.simps
    by (intro parse_intro ih) (use Suc.prems in \<open>(assumption | force intro: parse_intro split: prod.split)+\<close>)
qed simp

lemma select_list_bind [parse_intro]:
  assumes "pos \<le> text_length src" and "\<And>x q. pos \<le> q \<Longrightarrow> q \<le> text_length src \<Longrightarrow> returns src lo (f x) q"
  shows "returns src lo (pbind (select_list src) f) pos"
proof (rule returns_bind [of src pos])
  have items: "returns src lo (pbind (select_items src (rounds src) t) f) q"
    if "q \<le> text_length src" "\<And>x r. q \<le> r \<Longrightarrow> r \<le> text_length src \<Longrightarrow> returns src lo (f x) r"
    for lo t q and f :: "sel_item list \<times> tok \<Rightarrow> (bool \<times> sel_item list \<times> tok) parser"
    using that by (intro returns_bind [OF select_items_returns]) (simp_all add: rounds_def)
  show "returns src pos (select_list src) pos"
    unfolding select_list_def
    by (intro parse_intro items) (use assms(1) in \<open>(assumption | force intro: parse_intro split: prod.split)+\<close>)
qed (rule assms(2))
lemma parse_joins_returns:
  assumes "advances src n ps"
  shows "pos \<le> text_length src \<Longrightarrow> text_length src - pos < k \<Longrightarrow> text_length src - pos < Suc n \<Longrightarrow> returns src pos (parse_joins src ps k) pos"
proof (induction k arbitrary: pos)
  case (Suc k)
  have ih: "returns src lo (pbind (parse_joins src ps k) f) q"
    if "pos < q" "q \<le> text_length src" "\<And>x r. q \<le> r \<Longrightarrow> r \<le> text_length src \<Longrightarrow> returns src lo (f x) r" for lo q
      and f :: "select_statement sql_join list \<Rightarrow> select_statement sql_join list parser"
    using that Suc by (intro returns_bind [OF Suc.IH]) simp_all
  show ?case
    unfolding parse_joins.simps
    by (intro parse_intro ih advances_bind [OF parse_table_ref_advances [OF assms]]) (use Suc.prems in \<open>(assumption | force)+\<close>)
qed simp

lemma direction_bind [parse_intro]:
  assumes "pos \<le> text_length src" and "\<And>x q. pos \<le> q \<Longrightarrow> q \<le> text_length src \<Longrightarrow> returns src lo (f x) q"
  shows "returns src lo (pbind (direction src) f) pos"
proof (rule returns_bind [of src pos])
  show "returns src pos (direction src) pos"
    unfolding direction_def using assms(1) by (intro parse_intro) (assumption | force)+
qed (rule assms(2))

lemma more_order_by_returns:
  "pos \<le> text_length src \<Longrightarrow> text_length src - pos < k \<Longrightarrow> returns src pos (more_order_by src k) pos"
proof (induction k arbitrary: pos)
  case (Suc k)
  have ih: "returns src lo (pbind (more_order_by src k) f) q"
    if "pos < q" "q \<le> text_length src" "\<And>x r. q \<le> r \<Longrightarrow> r \<le> text_length src \<Longrightarrow> returns src lo (f x) r"
    for lo q and f :: "order_by list \<Rightarrow> order_by list parser"
    using that Suc by (intro returns_bind [OF Suc.IH]) simp_all
  show ?case unfolding more_order_by.simps by (intro parse_intro ih) (use Suc.prems in \<open>(assumption | force)+\<close>)
qed simp

lemma parse_cosine_moves: "always_advances src (parse_cosine src)"
  unfolding parse_cosine_def by (intro advancesI parse_intro) (assumption | force)+

lemma parse_order_moves: "always_advances src (parse_order src cl)"
proof -
  have more: "returns src lo (pbind (more_order_by src (rounds src)) f) q"
    if "q \<le> text_length src" "\<And>x r. q \<le> r \<Longrightarrow> r \<le> text_length src \<Longrightarrow> returns src lo (f x) r" for lo q and f :: "order_by list \<Rightarrow> clauses parser"
    using that by (intro returns_bind [OF more_order_by_returns]) (simp_all add: rounds_def)
  show ?thesis
    unfolding parse_order_def by (intro advancesI parse_intro more always_bind [OF parse_cosine_moves]) (assumption | force)+
qed

lemma parse_limit_moves: "always_advances src (parse_limit src cl)"
  unfolding parse_limit_def by (intro advancesI parse_intro) (assumption | force)+

lemma parse_clause_advances:
  assumes "advances src n pe" and "parse_clause src pe cl t = Some p"
  shows "pos \<le> text_length src \<Longrightarrow> text_length src - pos < n \<Longrightarrow> returns src pos p pos"
proof -
  assume pos: "pos \<le> text_length src" "text_length src - pos < n"
  have "returns src pos (pbind pe (\<lambda>e. pret (f e))) pos" for f :: "sql_expr \<Rightarrow> clauses"
    by (intro parse_intro advances_bind [OF assms(1)]) (use pos in auto)
  moreover have "returns src pos (pbind (expect_kw src w) (\<lambda>_. pbind (comma_list src (expect_ident src m) (rounds src)) (\<lambda>cols. pret (f cols)))) pos"
    for f :: "string list \<Rightarrow> clauses" and w m
    by (intro parse_intro list_steps [OF expect_ident_moves]) (use pos in auto)
  ultimately show "returns src pos p pos"
    using assms(2) pos always_returns [OF parse_order_moves, of pos src pos cl] always_returns [OF parse_limit_moves, of pos src pos cl]
    by (auto simp: parse_clause_def returns_fail split: if_splits)
qed

lemma parse_clause_Eof [simp]: "parse_clause src pe cl TkEof = None"
  by (simp add: parse_clause_def)

lemma parse_clauses_returns:
  assumes "advances src n pe"
  shows "tok_at src lo t pos \<Longrightarrow> text_length src - lo < k \<Longrightarrow> text_length src - lo < Suc n \<Longrightarrow> returns src lo (parse_clauses src pe k cl t) pos"
proof (induction k arbitrary: lo t pos cl)
  case (Suc k)
  show ?case
  proof (cases "parse_clause src pe cl t")
    case None
    then show ?thesis using Suc.prems by (auto intro!: returns_push_back [OF Suc.prems(1)] returns_ret)
  next
    case (Some p)
    have less: "lo < pos" "pos \<le> text_length src" using Suc.prems(1) Some by (cases "t = TkEof"; simp add: tok_at_def)+
    have "returns src lo (parse_clauses src pe k cl' t') r" if "pos \<le> q" "tok_at src q t' r" for q r cl' t'
    proof (rule returns_weaken [OF Suc.IH [OF that(2)]])
      have "q \<le> text_length src" using that(2) by (simp add: tok_at_def)
      with that(1) less Suc.prems(2,3) show "text_length src - q < k" "text_length src - q < Suc n" "lo \<le> q" by linarith+
    qed
    then have "returns src lo (pbind (next_tok src) (parse_clauses src pe k cl')) q" if "pos \<le> q" "q \<le> text_length src" for q cl'
      using that by (intro returns_tok) blast+
    with Some less Suc.prems(3) show ?thesis by (auto intro!: returns_bind [OF parse_clause_advances [OF assms Some]])
  qed
qed simp
lemma parse_select_body_advances:
  assumes "advances src n pe" and "advances src n ps"
  shows "advances src (Suc n) (parse_select_body src pe ps)"
proof (rule advancesI)
  fix pos
  assume pos: "pos \<le> text_length src" "text_length src - pos < Suc n"
  have joins: "returns src lo (pbind (parse_joins src ps (rounds src)) f) q"
    if "pos \<le> q" "q \<le> text_length src" "\<And>x r. q \<le> r \<Longrightarrow> r \<le> text_length src \<Longrightarrow> returns src lo (f x) r"
    for lo q and f :: "select_statement sql_join list \<Rightarrow> select_parser"
    using that pos by (intro returns_bind [OF parse_joins_returns [OF assms(2)]]) (simp_all add: rounds_def)
  have clauses: "returns src lo (pbind (parse_clauses src pe (rounds src) cl t) f) q"
    if "tok_at src p t q" "pos \<le> p" "p \<le> text_length src" "\<And>x r. p \<le> r \<Longrightarrow> r \<le> text_length src \<Longrightarrow> returns src lo (f x) r"
    for lo p q cl t and f :: "clauses \<Rightarrow> select_parser"
    using that pos by (intro returns_bind [OF parse_clauses_returns [OF assms(1) that(1)]]) (simp_all add: rounds_def)
  show "returns src (Suc pos) (parse_select_body src pe ps) pos"
    unfolding parse_select_body_def case_prod_unfold
    by (intro parse_intro joins clauses advances_bind [OF parse_table_ref_advances [OF assms(2)]]) (use pos in \<open>(assumption | force)+\<close>)
qed

text \<open>The recursion is never deeper than the bytes that are left.\<close>

lemma recursion_advances: "advances src n (parse_expr src n)" "advances src n (parse_select_inner src n)"
proof (induction n)
  case 0
  { case 1 show ?case by (rule advances_0) }
  { case 2 show ?case by (rule advances_0) }
next
  case (Suc n)
  have "parse_expr src (Suc n) = parse_or src (parse_expr src n) (parse_select_inner src n)"
    "parse_select_inner src (Suc n) = parse_select_body src (parse_expr src n) (parse_select_inner src n)"
    by (simp_all add: fun_eq_iff)
  moreover note parse_or_advances [OF Suc] parse_select_body_advances [OF Suc]
  ultimately show "advances src (Suc n) (parse_expr src (Suc n))" "advances src (Suc n) (parse_select_inner src (Suc n))" by simp_all
qed

subsection \<open>Statements\<close>

lemma expr_of_moves: "always_advances src (expr_of src)"
  unfolding expr_of_def by (rule recursion_advances)

lemma select_of_moves: "always_advances src (select_of src)"
  unfolding select_of_def by (rule recursion_advances)

lemma at_end_returns [parse_intro]: "pos \<le> text_length src \<Longrightarrow> lo \<le> pos \<Longrightarrow> returns src lo (at_end src msg x) pos"
  unfolding at_end_def by (intro parse_intro) (assumption | force)+

lemmas sql_nested_steps [parse_intro] = always_bind [OF expr_of_moves] always_bind [OF select_of_moves]
  always_bind [OF closed_select_advances [OF select_of_moves]]

lemma parse_create_view_moves: "always_advances src (parse_create_view src)"
  unfolding parse_create_view_def by (intro advancesI parse_intro) (assumption | force)+

lemma skip_dimension_bind [parse_intro]:
  assumes "pos \<le> text_length src" and "\<And>x q. pos \<le> q \<Longrightarrow> q \<le> text_length src \<Longrightarrow> returns src lo (f x) q"
  shows "returns src lo (pbind (skip_dimension src) f) pos"
proof (rule returns_bind [of src pos])
  show "returns src pos (skip_dimension src) pos"
    using assms(1) skip_bounds [of "pos + 1" src "\<lambda>c. c \<noteq> CHR '']''"]
    by (auto simp: returns_def skip_dimension_def byte_is_def Let_def pret_def)
qed (rule assms(2))

lemma parse_column_def_moves: "always_advances src (parse_column_def src)"
  unfolding parse_column_def_def by (intro advancesI parse_intro) (assumption | force)+

lemma parse_create_table_moves: "always_advances src (parse_create_table src)"
  unfolding parse_create_table_def by (intro advancesI parse_intro list_steps [OF parse_column_def_moves]) (assumption | force)+

lemma parse_insert_moves: "always_advances src (parse_insert src)"
  unfolding parse_insert_def
  by (intro advancesI parse_intro list_steps [OF expect_ident_moves] list_steps [OF parse_literal_moves]) (assumption | force)+

lemma parse_assignment_moves: "always_advances src (parse_assignment src)"
  unfolding parse_assignment_def by (intro advancesI parse_intro) (assumption | force)+

lemma parse_update_moves: "always_advances src (parse_update src)"
  unfolding parse_update_def by (intro advancesI parse_intro list_steps [OF parse_assignment_moves]) (assumption | force)+

lemma parse_delete_moves: "always_advances src (parse_delete src)"
  unfolding parse_delete_def by (intro advancesI parse_intro) (assumption | force)+

lemma parse_cte_moves: "always_advances src (parse_cte src)"
  unfolding parse_cte_def by (intro advancesI parse_intro) (assumption | force)+

lemma parse_with_clause_moves: "always_advances src (parse_with_clause src)"
  unfolding parse_with_clause_def by (rule comma_list_advances [OF parse_cte_moves])
text \<open>
  Without a dimension the word \<open>vector\<close> is put back after the token that follows it. The six bytes it takes are no more than
  what was read since the type began.
\<close>

lemma vector_word_length: "is_word t ''vector'' \<Longrightarrow> tok_length t = 6"
  by (cases t) (auto simp: is_word_def eq_ignore_case_def dest: arg_cong [where f = length])

lemma alter_dimension_bind:
  assumes "tok_at src lo t pos" and "is_word t ''vector''" and "\<And>q. lo \<le> q \<Longrightarrow> q \<le> text_length src \<Longrightarrow> returns src lo (f ()) q"
  shows "returns src lo (pbind (alter_dimension src) f) pos"
proof (rule returns_bind [of src lo])
  have pos: "lo + 6 \<le> pos" "pos \<le> text_length src" using assms(1) vector_word_length [OF assms(2)] by (auto simp: tok_at_def)
  have word: "returns src lo (push_back (TkIdent ''vector'')) q" if "pos \<le> q" "q \<le> text_length src" for q
    using that pos by (auto simp: returns_def push_back_def checked_sub_def)
  have digits: "returns src lo (\<lambda>pos. let p = skip src ascii_digit pos in pret () (if byte_is src p (\<lambda>c. c = CHR '']'') then p + 1 else p)) q"
    if "pos \<le> q" "q \<le> text_length src" for q
    using that pos skip_bounds [OF that(2), of ascii_digit] by (auto simp: returns_def Let_def pret_def byte_is_def)
  show "returns src lo (alter_dimension src) pos"
    unfolding alter_dimension_def by (intro returns_tok returns_if digits word) (use pos in auto)
qed (use assms(3) in simp)

lemma parse_add_column_moves: "always_advances src (parse_add_column src)"
  unfolding parse_add_column_def by (intro advancesI parse_intro alter_dimension_bind [THEN returns_weaken]) (assumption | force)+

lemma parse_alter_table_moves: "always_advances src (parse_alter_table src)"
  unfolding parse_alter_table_def by (intro advancesI parse_intro always_bind [OF parse_add_column_moves]) (assumption | force)+

lemma parse_full_select_moves: "always_advances src (parse_full_select src ctes)"
  unfolding parse_full_select_def by (intro advancesI parse_intro) (assumption | force)+

lemma parse_create_moves: "always_advances src (parse_create src)"
  unfolding parse_create_def
  by (intro advancesI parse_intro always_bind [OF parse_create_table_moves] always_bind [OF parse_create_view_moves]) (assumption | force)+

lemma parse_drop_moves: "always_advances src (parse_drop src)"
  unfolding parse_drop_def by (intro advancesI parse_intro) (assumption | force)+

lemmas statement_steps = always_bind [OF parse_with_clause_moves] always_bind [OF parse_full_select_moves] always_bind [OF parse_insert_moves]
  always_bind [OF parse_update_moves] always_bind [OF parse_delete_moves] always_bind [OF parse_alter_table_moves]
  always_returns [OF parse_create_moves] always_returns [OF parse_drop_moves] always_returns [OF parse_full_select_moves]

lemma statement_at_returns: "returns src 0 (statement_at src) 0"
  unfolding statement_at_def by (intro parse_intro statement_steps) (assumption | force)+

lemma parsed_returns: "returns src 0 p 0 \<Longrightarrow> \<exists>r. parsed p = Some r"
  unfolding returns_def parsed_def by (erule try_safe_cases) (auto simp: try_bind_def try_ok_def try_err_def)


lemma parse_select_total: "\<exists>r. parse_select src = Some r"
proof -
  have "returns src 0 (pbind (next_tok src) (\<lambda>t.
     pbind (if is_word t ''with'' then parse_with_clause src else pbind (push_back t) (\<lambda>_. pret [])) (\<lambda>ctes.
     pbind (next_tok src) (\<lambda>t1.
     if \<not> is_word t1 ''select'' then pfail ''expected SELECT'' else parse_full_select src ctes)))) 0"
    by (intro parse_intro statement_steps) (assumption | force)+
  then show ?thesis unfolding parse_select_def by (rule parsed_returns)
qed
subsection \<open>What the parser accepts\<close>

definition plain_source :: "string \<Rightarrow> source" where
  "plain_source t = \<lparr>src_text = t, src_f32 = (\<lambda>_. None)\<rparr>"

text \<open>The token after the table of a DELETE is dropped when it is not WHERE, so a misspelt WHERE alone deletes every row.\<close>

lemma delete_drops_token:
  "parse_statement (plain_source ''DELETE FROM t w'') = try_ok (StDelete \<lparr>ds_table = ''t'', ds_filter = None\<rparr>)"
  by code_simp

text \<open>A vector column cannot be added without a dimension: the word VECTOR is put back and then refused as a trailing token.\<close>

lemma add_vector_refused:
  "parse_statement (plain_source ''ALTER TABLE t ADD COLUMN v VECTOR'') = try_err (ParseError trailing)"
  by code_simp

text \<open>An integer is put back by its printed length, so leading zeros move the position into the number.\<close>

lemma in_list_loses_sign:
  "parse_statement (plain_source ''SELECT a FROM t WHERE a IN (-007)'') =
     try_ok (StSelect (SelectStatement [''a''] False (TNamed ''t'' None) (Some (SInInt ''a'' [7])) [] [] [] [] None None None []))"
  by code_simp

text \<open>Statements that end a transaction or create a table do not look at what follows them.\<close>

lemma trailing_accepted:
  "parse_statement (plain_source ''COMMIT x'') = try_ok StCommit"
  "parse_statement (plain_source ''CREATE TABLE t (a INT) x'') = try_ok (StCreateTable \<lparr>ct_table = ''t'', ct_columns = [\<lparr>cd_name = ''a'', cd_ctype = CInt\<rparr>]\<rparr>)"
  by code_simp+

text \<open>The bound of a similarity query is cast to an unsigned number, so a negative one is very large.\<close>

lemma cosine_limit_wraps: "as_u64 (- 1) = 2 ^ 64 - 1"
  by (simp add: as_u64_def)

end
