(* ===== verification/Telos_Parser.thy ===== *)
theory Telos_Parser
  imports Telos_Syntax Parsing
begin

text \<open>
  The tokenizer and the parser of \<open>telos\<close> (\<open>telos-parser/src/lexer.rs\<close>, \<open>span.rs\<close>, \<open>parser.rs\<close>). The state of the parser is the list of tokens
  from its position on; the line index is an argument. Nested types, patterns, expressions and statements and the
  rounds of loops take a bound, which is the number of tokens left.
\<close>

subsection \<open>Tokens\<close>

datatype (plugins only: code size) token =
    TtIdent string | TtInt int
  | TtAt | TtLParen | TtRParen | TtLBrace | TtRBrace | TtLSquare | TtRSquare
  | TtComma | TtColon | TtDot | TtSemicolon | TtAssign | TtPlusAssign | TtMinusAssign
  | TtPlus | TtMinus | TtStar | TtSlash | TtEqEq | TtNe | TtLt | TtLe | TtGt | TtGe | TtAnd | TtOr
  | TtArrow | TtFatArrow | TtQuestion | TtDotDot | TtUnderScore
  | KwModule | KwInvariant | KwFunc | KwRequires | KwEnsures | KwMutate | KwState | KwOld | KwLet | KwMut
  | KwIf | KwElse | KwMatch | KwStruct | KwEnum | KwForall | KwIn | KwPure | KwReturn | KwResult | KwOk | KwErr
  | TtEof

text \<open>The text of a token, and how an error message shows it.\<close>

fun token_text :: "token \<Rightarrow> string" where
  "token_text (TtIdent s) = s"
| "token_text (TtInt n) = int_to_string n"
| "token_text TtAt = ''@''"
| "token_text TtLParen = ''(''"
| "token_text TtRParen = '')''"
| "token_text TtLBrace = ''{''"
| "token_text TtRBrace = ''}''"
| "token_text TtLSquare = ''[''"
| "token_text TtRSquare = '']''"
| "token_text TtComma = '',''"
| "token_text TtColon = '':''"
| "token_text TtDot = ''.''"
| "token_text TtDotDot = ''..''"
| "token_text TtSemicolon = '';''"
| "token_text TtAssign = ''=''"
| "token_text TtPlusAssign = ''+=''"
| "token_text TtMinusAssign = ''-=''"
| "token_text TtPlus = ''+''"
| "token_text TtMinus = ''-''"
| "token_text TtStar = ''*''"
| "token_text TtSlash = ''/''"
| "token_text TtEqEq = ''==''"
| "token_text TtNe = ''!=''"
| "token_text TtLt = ''<''"
| "token_text TtLe = ''<=''"
| "token_text TtGt = ''>''"
| "token_text TtGe = ''>=''"
| "token_text TtAnd = ''&&''"
| "token_text TtOr = ''||''"
| "token_text TtArrow = ''->''"
| "token_text TtFatArrow = ''=>''"
| "token_text TtQuestion = ''?''"
| "token_text TtUnderScore = ''_''"
| "token_text KwModule = ''module''"
| "token_text KwInvariant = ''invariant''"
| "token_text KwFunc = ''func''"
| "token_text KwRequires = ''requires''"
| "token_text KwEnsures = ''ensures''"
| "token_text KwMutate = ''mutate''"
| "token_text KwState = ''state''"
| "token_text KwOld = ''old''"
| "token_text KwLet = ''let''"
| "token_text KwMut = ''mut''"
| "token_text KwIf = ''if''"
| "token_text KwElse = ''else''"
| "token_text KwMatch = ''match''"
| "token_text KwStruct = ''struct''"
| "token_text KwEnum = ''enum''"
| "token_text KwForall = ''forall''"
| "token_text KwIn = ''in''"
| "token_text KwPure = ''pure''"
| "token_text KwReturn = ''return''"
| "token_text KwResult = ''Result''"
| "token_text KwOk = ''Ok''"
| "token_text KwErr = ''Err''"
| "token_text TtEof = ''end of file''"

definition ticked :: "string \<Rightarrow> string" where
  "ticked s = ''`'' @ s @ ''`''"

definition token_display :: "token \<Rightarrow> string" where
  "token_display t = (case t of TtIdent s \<Rightarrow> ''identifier '' @ ticked s | TtInt n \<Rightarrow> ''integer '' @ ticked (int_to_string n) | _ \<Rightarrow> ticked (token_text t))"

definition keyword_list :: "token list" where
  "keyword_list = [KwModule, KwInvariant, KwFunc, KwRequires, KwEnsures, KwMutate, KwState, KwOld, KwLet, KwMut, KwIf, KwElse, KwMatch,
     KwStruct, KwEnum, KwForall, KwIn, KwPure, KwReturn, KwResult, KwOk, KwErr, TtUnderScore]"

definition word_token :: "string \<Rightarrow> token" where
  "word_token s = (case List.find (\<lambda>k. token_text k = s) keyword_list of Some k \<Rightarrow> k | None \<Rightarrow> TtIdent s)"

definition pair_list :: "token list" where
  "pair_list = [TtPlusAssign, TtMinusAssign, TtEqEq, TtNe, TtLe, TtGe, TtAnd, TtOr, TtArrow, TtFatArrow, TtDotDot]"

definition single_list :: "token list" where
  "single_list = [TtAt, TtLParen, TtRParen, TtLBrace, TtRBrace, TtLSquare, TtRSquare, TtComma, TtColon, TtDot, TtSemicolon, TtAssign,
     TtPlus, TtMinus, TtStar, TtSlash, TtLt, TtGt, TtQuestion]"

text \<open>The operator of two characters, or of one, that the text begins with.\<close>

definition pair_token :: "uchar list \<Rightarrow> token option" where
  "pair_token cs = List.find (\<lambda>t. codes (token_text t) = take 2 cs) pair_list"

definition single_token :: "uchar \<Rightarrow> token option" where
  "single_token c = List.find (\<lambda>t. codes (token_text t) = [c]) single_list"

type_synonym spanned = "token \<times> nat \<times> nat"

definition word_char :: "uchar \<Rightarrow> bool" where
  "word_char c \<longleftrightarrow> is_letter c \<or> is_digit c \<or> c = code (CHR ''_'')"

definition lex_cons :: "spanned \<Rightarrow> (string, spanned list) fallible \<Rightarrow> (string, spanned list) fallible" where
  "lex_cons t r = try_bind r (\<lambda>ts. try_ok (t # ts))"

definition out_of_range :: "string \<Rightarrow> string" where
  "out_of_range s = ''line/col: integer literal '' @ ticked s @ '' out of range''"

definition unexpected_character :: "uchar \<Rightarrow> nat \<Rightarrow> string" where
  "unexpected_character c i = ''unexpected character '' @ ticked (utf8 c) @ '' at offset '' @ nat_to_string i"

function lex_from :: "nat \<Rightarrow> uchar list \<Rightarrow> (string, spanned list) fallible" where
  "lex_from i [] = try_ok [(TtEof, i, i)]"
| "lex_from i (c # cs) =
     (if is_whitespace c then lex_from (i + 1) cs
      else if c = code (CHR ''/'') \<and> take 1 cs = codes ''/'' then
        (let k = length (takeWhile (\<lambda>d. d \<noteq> 10) cs) in lex_from (i + 1 + k) (drop k cs))
      else if is_letter c \<or> c = code (CHR ''_'') then
        (let k = length (takeWhile word_char cs) in
         lex_cons (word_token (utf8s (c # take k cs)), i, i + 1 + k) (lex_from (i + 1 + k) (drop k cs)))
      else if is_digit c then
        (let k = length (takeWhile is_digit cs); v = decimal (c # take k cs) in
         if ifits 64 v then lex_cons (TtInt v, i, i + 1 + k) (lex_from (i + 1 + k) (drop k cs))
         else try_err (out_of_range (utf8s (c # take k cs))))
      else case pair_token (c # cs) of
        Some t \<Rightarrow> lex_cons (t, i, i + 2) (lex_from (i + 2) (tl cs))
      | None \<Rightarrow> (case single_token c of
          Some t \<Rightarrow> lex_cons (t, i, i + 1) (lex_from (i + 1) cs)
        | None \<Rightarrow> try_err (unexpected_character c i)))"
  by pat_completeness auto

termination
  by (relation "measure (\<lambda>(i, cs). length cs)") auto

definition lex_telos :: "uchar list \<Rightarrow> (string, spanned list) fallible" where
  "lex_telos src = lex_from 0 src"

definition int_to_literal :: "token \<Rightarrow> tliteral option" where
  "int_to_literal t = (case t of TtInt n \<Rightarrow> Some (LitInt n) | _ \<Rightarrow> None)"

subsection \<open>Lines and columns\<close>

definition line_index :: "uchar list \<Rightarrow> nat list" where
  "line_index src = 0 # map Suc (filter (\<lambda>i. src ! i = 10) [0..<length src])"

text \<open>The binary search finds the offset, or where it would be inserted.\<close>

definition line_col :: "nat list \<Rightarrow> nat \<Rightarrow> (nat \<times> nat) panics" where
  "line_col starts offset =
     (let idx = (case position (\<lambda>s. s = offset) starts of Some i \<Rightarrow> i
        | None \<Rightarrow> saturating_sub (length (takeWhile (\<lambda>s. s < offset) starts)) 1) in
      Option.bind (vec_get starts idx) (\<lambda>start. Option.bind (checked_sub offset start) (\<lambda>d. Some (idx + 1, d + 1))))"

definition span_at :: "nat list \<Rightarrow> nat \<Rightarrow> span panics" where
  "span_at starts offset = map_option (\<lambda>(line, col). \<lparr>sp_line = line, sp_col = col\<rparr>) (line_col starts offset)"
subsection \<open>Reading tokens\<close>

type_synonym 'a tparser = "(spanned list, string, 'a) parsing"

definition tpeek :: "token tparser" where
  "tpeek ts = (case ts of [] \<Rightarrow> None | (t, _) # _ \<Rightarrow> try_ok (t, ts))"

definition tadvance :: "token tparser" where
  "tadvance ts = (case ts of [] \<Rightarrow> None | (t, _) # rest \<Rightarrow> try_ok (t, rest))"

definition current_span :: "nat list \<Rightarrow> span tparser" where
  "current_span li ts = (case ts of [] \<Rightarrow> None | (_, start, _) # _ \<Rightarrow> try_lift (map_option (\<lambda>sp. (sp, ts)) (span_at li start)))"

definition found :: "string \<Rightarrow> token \<Rightarrow> string" where
  "found what got = ''expected '' @ what @ '', found '' @ token_display got"

definition texpect :: "token \<Rightarrow> unit tparser" where
  "texpect t = pbind tpeek (\<lambda>got. if got = t then pbind tadvance (\<lambda>_. pret ()) else reject (found (token_display t) got))"

definition texpect_ident :: "string tparser" where
  "texpect_ident = pbind tpeek (\<lambda>got. case got of TtIdent s \<Rightarrow> pbind tadvance (\<lambda>_. pret s) | _ \<Rightarrow> reject (found ''identifier'' got))"

definition expect_ident_or_keyword :: "string tparser" where
  "expect_ident_or_keyword = pbind tpeek (\<lambda>got. case got of
     TtIdent s \<Rightarrow> pbind tadvance (\<lambda>_. pret s)
   | KwState \<Rightarrow> pbind tadvance (\<lambda>_. pret ''state'')
   | _ \<Rightarrow> reject (found ''identifier'' got))"

definition at_expr_start :: "token \<Rightarrow> bool" where
  "at_expr_start t = (case t of TtInt _ \<Rightarrow> True | TtIdent _ \<Rightarrow> True
     | _ \<Rightarrow> t \<in> set [KwOld, TtLParen, TtMinus, KwIf, KwMatch, KwForall, KwResult, KwOk, KwErr])"

definition skip_one :: "token \<Rightarrow> unit tparser" where
  "skip_one t = pbind tpeek (\<lambda>got. if got = t then pbind tadvance (\<lambda>_. pret ()) else pret ())"

text \<open>The loops of the parser: items up to a closing token, items separated by commas.\<close>

primrec until_loop :: "token \<Rightarrow> 'a tparser \<Rightarrow> nat \<Rightarrow> 'a list tparser" where
  "until_loop close item 0 = never"
| "until_loop close item (Suc n) = pbind tpeek (\<lambda>t.
     if t = close then pret [] else pbind item (\<lambda>x. pbind (until_loop close item n) (\<lambda>xs. pret (x # xs))))"

primrec sep_loop :: "'a tparser \<Rightarrow> nat \<Rightarrow> 'a list tparser" where
  "sep_loop item 0 = never"
| "sep_loop item (Suc n) = pbind item (\<lambda>x. pbind tpeek (\<lambda>t.
     if t = TtComma then pbind tadvance (\<lambda>_. pbind (sep_loop item n) (\<lambda>xs. pret (x # xs))) else pret [x]))"

definition items_until :: "token \<Rightarrow> 'a tparser \<Rightarrow> 'a list tparser" where
  "items_until close item = pbind (bounded (until_loop close item)) (\<lambda>xs. pbind (texpect close) (\<lambda>_. pret xs))"

text \<open>Items separated by commas before a closing token, which may also come at once.\<close>

definition maybe_items :: "token \<Rightarrow> 'a tparser \<Rightarrow> 'a list tparser" where
  "maybe_items close item = pbind tpeek (\<lambda>t.
     pbind (if t \<noteq> close then bounded (sep_loop item) else pret []) (\<lambda>xs. pbind (texpect close) (\<lambda>_. pret xs)))"

subsection \<open>Types and patterns\<close>

definition type_step :: "ttype tparser \<Rightarrow> ttype tparser" where
  "type_step pt = pbind tpeek (\<lambda>t. case t of
     KwResult \<Rightarrow> pbind tadvance (\<lambda>_. pbind (texpect TtLt) (\<lambda>_. pbind pt (\<lambda>ok. pbind (texpect TtComma) (\<lambda>_. pbind pt (\<lambda>err.
       pbind (texpect TtGt) (\<lambda>_. pret (TyGeneric ''Result'' [ok, err])))))))
   | TtLParen \<Rightarrow> pbind tadvance (\<lambda>_. pbind (bounded (sep_loop pt)) (\<lambda>elems. pbind (texpect TtRParen) (\<lambda>_.
       pret (case elems of [e] \<Rightarrow> e | _ \<Rightarrow> TyTuple elems))))
   | TtLSquare \<Rightarrow> pbind tadvance (\<lambda>_. pbind pt (\<lambda>elem. pbind tpeek (\<lambda>s.
       if s = TtSemicolon
       then pbind tadvance (\<lambda>_. pbind tpeek (\<lambda>l. case l of
           TtInt n \<Rightarrow> pbind tadvance (\<lambda>_. pbind (texpect TtRSquare) (\<lambda>_. pret (TyArray elem (nat (n mod 2 ^ 64)))))
         | _ \<Rightarrow> reject (found ''array length'' l)))
       else pbind (texpect TtRSquare) (\<lambda>_. pret (TySlice elem)))))
   | TtIdent name \<Rightarrow> pbind tadvance (\<lambda>_. pbind tpeek (\<lambda>s.
       if s = TtLt
       then pbind tadvance (\<lambda>_. pbind (bounded (sep_loop pt)) (\<lambda>args. pbind (texpect TtGt) (\<lambda>_. pret (TyGeneric name args))))
       else pret (TyNamed name)))
   | _ \<Rightarrow> reject (found ''type'' t))"

primrec type_loop :: "nat \<Rightarrow> ttype tparser" where
  "type_loop 0 ts = None"
| "type_loop (Suc n) ts = type_step (type_loop n) ts"

definition tparse_type :: "ttype tparser" where
  "tparse_type = bounded type_loop"

definition pattern_step :: "tpattern tparser \<Rightarrow> tpattern tparser" where
  "pattern_step pp = pbind tpeek (\<lambda>t. case t of
     TtInt n \<Rightarrow> pbind tadvance (\<lambda>_. pret (PatLiteral n))
   | TtMinus \<Rightarrow> pbind tadvance (\<lambda>_. pbind tpeek (\<lambda>s. case s of
       TtInt n \<Rightarrow> pbind tadvance (\<lambda>_ ts. try_lift (map_option (\<lambda>v. (PatLiteral v, ts)) (ichecked_neg 64 n)))
     | _ \<Rightarrow> reject (''expected integer after '' @ ticked ''-'' @ '' in pattern'')))
   | TtIdent name \<Rightarrow> pbind tadvance (\<lambda>_. pbind tpeek (\<lambda>s.
       if s = TtLParen
       then pbind tadvance (\<lambda>_. pbind (maybe_items TtRParen pp) (\<lambda>fs. pret (PatConstructor name fs)))
       else pret (PatVar name)))
   | TtUnderScore \<Rightarrow> pbind tadvance (\<lambda>_. pret PatWildcard)
   | _ \<Rightarrow> reject (found ''pattern'' t))"

primrec pattern_loop :: "nat \<Rightarrow> tpattern tparser" where
  "pattern_loop 0 ts = None"
| "pattern_loop (Suc n) ts = pattern_step (pattern_loop n) ts"

definition tparse_pattern :: "tpattern tparser" where
  "tparse_pattern = bounded pattern_loop"

subsection \<open>Expressions\<close>

fun pretty_simple :: "texpr \<Rightarrow> string" where
  "pretty_simple (TInt n) = int_to_string n"
| "pretty_simple (TVar v) = v"
| "pretty_simple (TField base field) = base @ ''.'' @ field"
| "pretty_simple (TOld e) = ''old('' @ pretty_simple e @ '')''"
| "pretty_simple (TUnary _ _) = ''<expr>''"
| "pretty_simple (TBin _ _ _) = ''<expr>''"
| "pretty_simple (TCall f _) = f @ ''(...)''"
| "pretty_simple (TMethodCall r meth _) = pretty_simple r @ ''.'' @ meth @ ''(...)''"
| "pretty_simple (TIndex r _) = pretty_simple r @ ''[...]''"
| "pretty_simple (TIf _ _ _) = ''<if-expr>''"
| "pretty_simple (TMatch _ _) = ''<match-expr>''"
| "pretty_simple (TTry e) = pretty_simple e @ ''?''"
| "pretty_simple (TForall _ _ _ _) = ''<forall>''"
| "pretty_simple (TAggregate op _) = op_name op @ ''(...)''"
| "pretty_simple (TRange _ _) = ''<range>''"

text \<open>The parser for nested expressions is an argument.\<close>

type_synonym texpr_parser = "texpr tparser"

definition parse_if_expr :: "texpr_parser \<Rightarrow> texpr_parser" where
  "parse_if_expr pe = pbind (texpect KwIf) (\<lambda>_. pbind pe (\<lambda>c. pbind (texpect TtLBrace) (\<lambda>_. pbind pe (\<lambda>a. pbind (texpect TtRBrace) (\<lambda>_.
     pbind (texpect KwElse) (\<lambda>_. pbind (texpect TtLBrace) (\<lambda>_. pbind pe (\<lambda>b. pbind (texpect TtRBrace) (\<lambda>_. pret (TIf c a b))))))))))"

definition expr_arm :: "texpr_parser \<Rightarrow> (tpattern \<times> texpr) tparser" where
  "expr_arm pe ts = (pbind tparse_pattern (\<lambda>pat. pbind (texpect TtFatArrow) (\<lambda>_. pbind pe (\<lambda>e. pbind (skip_one TtComma) (\<lambda>_. pret (pat, e)))))) ts"

definition parse_match_expr :: "texpr_parser \<Rightarrow> texpr_parser" where
  "parse_match_expr pe = pbind (texpect KwMatch) (\<lambda>_. pbind pe (\<lambda>s. pbind (texpect TtLBrace) (\<lambda>_.
     pbind (items_until TtRBrace (expr_arm pe)) (\<lambda>arms. pret (TMatch s arms)))))"

definition parse_forall_expr :: "texpr_parser \<Rightarrow> texpr_parser" where
  "parse_forall_expr pe = pbind (texpect KwForall) (\<lambda>_. pbind texpect_ident (\<lambda>v. pbind (texpect TtColon) (\<lambda>_. pbind tparse_type (\<lambda>ty.
     pbind tpeek (\<lambda>t. pbind (if t = KwIn then pbind tadvance (\<lambda>_. pbind pe (\<lambda>d. pret (Some d))) else pret None) (\<lambda>domain.
     pbind (texpect TtLBrace) (\<lambda>_. pbind pe (\<lambda>body. pbind (texpect TtRBrace) (\<lambda>_. pret (TForall v ty domain body))))))))))"

definition in_parens :: "texpr_parser \<Rightarrow> texpr_parser" where
  "in_parens pe = pbind (texpect TtLParen) (\<lambda>_. pbind pe (\<lambda>e. pbind (texpect TtRParen) (\<lambda>_. pret e)))"

definition aggregate_op_of :: "string \<Rightarrow> aggregate_op option" where
  "aggregate_op_of s = List.find (\<lambda>a. op_name a = s) [AggSum, AggMin, AggMax, AggCount]"

definition parse_name :: "texpr_parser \<Rightarrow> string \<Rightarrow> texpr_parser" where
  "parse_name pe s = pbind tpeek (\<lambda>t. case (aggregate_op_of s, t = TtLParen) of
     (Some op, True) \<Rightarrow> pbind (texpect TtLParen) (\<lambda>_. pbind (maybe_items TtRParen pe) (\<lambda>args. pret (TAggregate op args)))
   | _ \<Rightarrow> if t = TtDot then pbind tadvance (\<lambda>_. pbind texpect_ident (\<lambda>f. pret (TField s f))) else pret (TVar s))"

definition tparse_primary :: "texpr_parser \<Rightarrow> texpr_parser" where
  "tparse_primary pe ts = (pbind tpeek (\<lambda>t. case t of
     TtInt n \<Rightarrow> pbind tadvance (\<lambda>_. pret (TInt n))
   | KwOld \<Rightarrow> pbind tadvance (\<lambda>_. pbind (in_parens pe) (\<lambda>e. pret (TOld e)))
   | TtLParen \<Rightarrow> pbind tadvance (\<lambda>_. pbind pe (\<lambda>e. pbind (texpect TtRParen) (\<lambda>_. pret e)))
   | KwIf \<Rightarrow> parse_if_expr pe
   | KwMatch \<Rightarrow> parse_match_expr pe
   | KwForall \<Rightarrow> parse_forall_expr pe
   | KwResult \<Rightarrow> pbind tadvance (\<lambda>_. pret (TVar ''Result''))
   | KwOk \<Rightarrow> pbind tadvance (\<lambda>_. pbind (in_parens pe) (\<lambda>e. pret (TCall ''Ok'' [e])))
   | KwErr \<Rightarrow> pbind tadvance (\<lambda>_. pbind (in_parens pe) (\<lambda>e. pret (TCall ''Err'' [e])))
   | TtIdent s \<Rightarrow> pbind tadvance (\<lambda>_. parse_name pe s)
   | _ \<Rightarrow> reject (found ''expression'' t))) ts"

text \<open>What a call and a field selection make of the expression before them.\<close>

definition apply_call :: "texpr \<Rightarrow> texpr list \<Rightarrow> texpr_parser" where
  "apply_call e args = (case e of
     TVar name \<Rightarrow> pret (TCall name args)
   | TField base field \<Rightarrow> pret (TMethodCall (TVar base) field args)
   | TMethodCall r meth _ \<Rightarrow> pret (TCall (pretty_simple r @ ''.'' @ meth) args)
   | _ \<Rightarrow> reject (''cannot call non-function expression '' @ ticked (pretty_simple e)))"

definition apply_field :: "texpr \<Rightarrow> string \<Rightarrow> texpr" where
  "apply_field e field = (case e of TVar name \<Rightarrow> TField name field | _ \<Rightarrow> TMethodCall e field [])"

primrec postfix_loop :: "texpr_parser \<Rightarrow> nat \<Rightarrow> texpr \<Rightarrow> texpr_parser" where
  "postfix_loop pe 0 e = never"
| "postfix_loop pe (Suc n) e = pbind tpeek (\<lambda>t. case t of
     TtLParen \<Rightarrow> pbind tadvance (\<lambda>_. pbind (maybe_items TtRParen pe) (\<lambda>args. pbind (apply_call e args) (postfix_loop pe n)))
   | TtDot \<Rightarrow> pbind tadvance (\<lambda>_. pbind texpect_ident (\<lambda>f. postfix_loop pe n (apply_field e f)))
   | TtLSquare \<Rightarrow> pbind tadvance (\<lambda>_. pbind pe (\<lambda>i. pbind (texpect TtRSquare) (\<lambda>_. postfix_loop pe n (TIndex e i))))
   | TtQuestion \<Rightarrow> pbind tadvance (\<lambda>_. postfix_loop pe n (TTry e))
   | TtDotDot \<Rightarrow> pbind tadvance (\<lambda>_. pbind pe (\<lambda>hi. postfix_loop pe n (TRange e hi)))
   | _ \<Rightarrow> pret e)"

definition parse_postfix :: "texpr_parser \<Rightarrow> texpr_parser" where
  "parse_postfix pe ts = (pbind (tparse_primary pe) (\<lambda>e. bounded (\<lambda>n. postfix_loop pe n e))) ts"

primrec unary_loop :: "texpr_parser \<Rightarrow> nat \<Rightarrow> texpr_parser" where
  "unary_loop pe 0 = never"
| "unary_loop pe (Suc n) = pbind tpeek (\<lambda>t.
     if t = TtMinus then pbind tadvance (\<lambda>_. pbind (unary_loop pe n) (\<lambda>e. pret (TUnary TNeg e))) else parse_postfix pe)"

definition parse_unary :: "texpr_parser \<Rightarrow> texpr_parser" where
  "parse_unary pe ts = (bounded (unary_loop pe)) ts"

text \<open>A chain of binary operators of one level, associated to the left.\<close>

primrec binary_loop :: "(token \<Rightarrow> tbinop option) \<Rightarrow> texpr_parser \<Rightarrow> nat \<Rightarrow> texpr \<Rightarrow> texpr_parser" where
  "binary_loop ops operand 0 lhs = never"
| "binary_loop ops operand (Suc n) lhs = pbind tpeek (\<lambda>t. case ops t of
     None \<Rightarrow> pret lhs
   | Some op \<Rightarrow> pbind tadvance (\<lambda>_. pbind operand (\<lambda>rhs. binary_loop ops operand n (TBin op lhs rhs))))"

definition binary_level :: "(token \<Rightarrow> tbinop option) \<Rightarrow> texpr_parser \<Rightarrow> texpr_parser" where
  "binary_level ops operand = pbind operand (\<lambda>lhs. bounded (\<lambda>n. binary_loop ops operand n lhs))"

definition mul_op :: "token \<Rightarrow> tbinop option" where
  "mul_op t = (if t = TtStar then Some TMul else if t = TtSlash then Some TDiv else None)"

definition add_op :: "token \<Rightarrow> tbinop option" where
  "add_op t = (if t = TtPlus then Some TAdd else if t = TtMinus then Some TSub else None)"

definition relation_op :: "token \<Rightarrow> tbinop option" where
  "relation_op t = (case t of TtEqEq \<Rightarrow> Some TEq | TtNe \<Rightarrow> Some TNe | TtLt \<Rightarrow> Some TLt | TtLe \<Rightarrow> Some TLe | TtGt \<Rightarrow> Some TGt | TtGe \<Rightarrow> Some TGe | _ \<Rightarrow> None)"

definition and_op :: "token \<Rightarrow> tbinop option" where
  "and_op t = (if t = TtAnd then Some TAnd else None)"

definition or_op :: "token \<Rightarrow> tbinop option" where
  "or_op t = (if t = TtOr then Some TOr else None)"

definition parse_mul :: "texpr_parser \<Rightarrow> texpr_parser" where
  "parse_mul pe ts = (binary_level mul_op (parse_unary pe)) ts"

definition parse_add :: "texpr_parser \<Rightarrow> texpr_parser" where
  "parse_add pe ts = (binary_level add_op (parse_mul pe)) ts"

definition parse_cmp :: "texpr_parser \<Rightarrow> texpr_parser" where
  "parse_cmp pe ts = (pbind (parse_add pe) (\<lambda>lhs. pbind tpeek (\<lambda>t. case relation_op t of
     None \<Rightarrow> pret lhs
   | Some op \<Rightarrow> pbind tadvance (\<lambda>_. pbind (parse_add pe) (\<lambda>rhs. pret (TBin op lhs rhs)))))) ts"

definition tparse_and :: "texpr_parser \<Rightarrow> texpr_parser" where
  "tparse_and pe ts = (binary_level and_op (parse_cmp pe)) ts"

definition tparse_or :: "texpr_parser \<Rightarrow> texpr_parser" where
  "tparse_or pe ts = (binary_level or_op (tparse_and pe)) ts"

primrec expr_loop :: "nat \<Rightarrow> texpr_parser" where
  "expr_loop 0 ts = None"
| "expr_loop (Suc n) ts = tparse_or (expr_loop n) ts"

definition tparse_expr :: texpr_parser where
  "tparse_expr = bounded expr_loop"

subsection \<open>Statements\<close>

definition assign_op_of :: "token \<Rightarrow> assign_op option" where
  "assign_op_of t = (case t of TtAssign \<Rightarrow> Some AssignSet | TtPlusAssign \<Rightarrow> Some AssignAdd | TtMinusAssign \<Rightarrow> Some AssignSub | _ \<Rightarrow> None)"

definition tparse_assign :: "assign tparser" where
  "tparse_assign = pbind tparse_expr (\<lambda>target. pbind tpeek (\<lambda>t. case assign_op_of t of
     None \<Rightarrow> reject (found ''assignment operator'' t)
   | Some op \<Rightarrow> pbind tadvance (\<lambda>_. pbind tparse_expr (\<lambda>v. pbind (skip_one TtSemicolon) (\<lambda>_.
       pret \<lparr>as_target = target, as_op = op, as_value = v\<rparr>)))))"

type_synonym tstmt_parser = "tstmt tparser"

definition stmt_block :: "tstmt_parser \<Rightarrow> tstmt list tparser" where
  "stmt_block ps = pbind (texpect TtLBrace) (\<lambda>_. items_until TtRBrace ps)"

definition parse_if_stmt_as_stmt :: "tstmt_parser \<Rightarrow> tstmt_parser" where
  "parse_if_stmt_as_stmt ps = pbind (texpect KwIf) (\<lambda>_. pbind tparse_expr (\<lambda>c. pbind (stmt_block ps) (\<lambda>then_body. pbind tpeek (\<lambda>t.
     pbind (if t = KwElse then pbind tadvance (\<lambda>_. pbind (stmt_block ps) (\<lambda>b. pret (Some b))) else pret None) (\<lambda>else_body.
       pret (SIf c then_body else_body))))))"

definition stmt_arm :: "tstmt_parser \<Rightarrow> (tpattern \<times> tstmt list) tparser" where
  "stmt_arm ps = pbind tparse_pattern (\<lambda>pat. pbind (texpect TtFatArrow) (\<lambda>_. pbind tpeek (\<lambda>t.
     if t = TtLBrace then pbind (stmt_block ps) (\<lambda>body. pret (pat, body)) else pbind ps (\<lambda>s. pret (pat, [s])))))"

definition parse_match_stmt :: "tstmt_parser \<Rightarrow> tstmt_parser" where
  "parse_match_stmt ps = pbind (texpect KwMatch) (\<lambda>_. pbind tparse_expr (\<lambda>s. pbind (texpect TtLBrace) (\<lambda>_.
     pbind (items_until TtRBrace (stmt_arm ps)) (\<lambda>arms. pret (SMatch s arms)))))"

definition parse_let :: tstmt_parser where
  "parse_let = pbind tadvance (\<lambda>_. pbind texpect_ident (\<lambda>name. pbind tpeek (\<lambda>t.
     pbind (if t = TtColon then pbind tadvance (\<lambda>_. pbind tparse_type (\<lambda>ty. pret (Some ty))) else pret None) (\<lambda>ty.
     pbind (texpect TtAssign) (\<lambda>_. pbind tparse_expr (\<lambda>v. pbind (skip_one TtSemicolon) (\<lambda>_. pret (SLet name ty v))))))))"

definition parse_return :: tstmt_parser where
  "parse_return = pbind tadvance (\<lambda>_. pbind tpeek (\<lambda>t.
     if t = TtSemicolon then pbind tadvance (\<lambda>_. pret (SReturn None))
     else if at_expr_start t then pbind tparse_expr (\<lambda>e. pbind (skip_one TtSemicolon) (\<lambda>_. pret (SReturn (Some e))))
     else pbind (skip_one TtSemicolon) (\<lambda>_. pret (SReturn None))))"

definition parse_expr_stmt :: tstmt_parser where
  "parse_expr_stmt = pbind tparse_expr (\<lambda>e. pbind tpeek (\<lambda>t. case assign_op_of t of
     Some op \<Rightarrow> pbind tadvance (\<lambda>_. pbind tparse_expr (\<lambda>v. pbind (skip_one TtSemicolon) (\<lambda>_.
       pret (SAssign \<lparr>as_target = e, as_op = op, as_value = v\<rparr>))))
   | None \<Rightarrow> pbind (skip_one TtSemicolon) (\<lambda>_. pret (SAssign \<lparr>as_target = e, as_op = AssignSet, as_value = TInt 0\<rparr>))))"

definition stmt_step :: "tstmt_parser \<Rightarrow> tstmt_parser" where
  "stmt_step ps = pbind tpeek (\<lambda>t. case t of
     KwMutate \<Rightarrow> pbind tadvance (\<lambda>_. pbind (texpect KwState) (\<lambda>_. pbind (texpect TtLBrace) (\<lambda>_.
       pbind (items_until TtRBrace tparse_assign) (\<lambda>as. pret (SMutateState as)))))
   | KwLet \<Rightarrow> parse_let
   | KwIf \<Rightarrow> parse_if_stmt_as_stmt ps
   | KwMatch \<Rightarrow> parse_match_stmt ps
   | KwReturn \<Rightarrow> parse_return
   | _ \<Rightarrow> parse_expr_stmt)"

primrec stmt_loop :: "nat \<Rightarrow> tstmt_parser" where
  "stmt_loop 0 ts = None"
| "stmt_loop (Suc n) ts = stmt_step (stmt_loop n) ts"

definition tparse_stmt :: tstmt_parser where
  "tparse_stmt = bounded stmt_loop"

subsection \<open>Modules\<close>

definition parse_arg :: "targ tparser" where
  "parse_arg = pbind texpect_ident (\<lambda>key. pbind tpeek (\<lambda>t.
     if t = TtAssign
     then pbind tadvance (\<lambda>_. pbind tpeek (\<lambda>l. case l of
         TtInt n \<Rightarrow> pbind tadvance (\<lambda>_. pret (ArgKv key (LitInt n)))
       | TtIdent s \<Rightarrow> pbind tadvance (\<lambda>_. pret (ArgKv key (LitIdent s)))
       | _ \<Rightarrow> reject (found ''literal in attribute'' l)))
     else pret (ArgFlag key)))"

definition parse_attribute :: "attribute tparser" where
  "parse_attribute = pbind (texpect TtAt) (\<lambda>_. pbind expect_ident_or_keyword (\<lambda>name. pbind tpeek (\<lambda>t.
     pbind (if t = TtLParen then pbind tadvance (\<lambda>_. maybe_items TtRParen parse_arg) else pret []) (\<lambda>args.
       pret \<lparr>at_name = name, at_args = args\<rparr>))))"

primrec attribute_loop :: "nat \<Rightarrow> attribute list tparser" where
  "attribute_loop 0 = never"
| "attribute_loop (Suc n) = pbind tpeek (\<lambda>t.
     if t = TtAt then pbind parse_attribute (\<lambda>a. pbind (attribute_loop n) (\<lambda>as. pret (a # as))) else pret [])"

definition spanned_constraint :: "nat list \<Rightarrow> (span \<times> texpr) tparser" where
  "spanned_constraint li = pbind (current_span li) (\<lambda>sp. pbind tparse_expr (\<lambda>e. pbind (skip_one TtSemicolon) (\<lambda>_. pret (sp, e))))"

definition parse_invariant :: "nat list \<Rightarrow> invariant tparser" where
  "parse_invariant li = pbind (current_span li) (\<lambda>sp. pbind (texpect KwInvariant) (\<lambda>_. pbind texpect_ident (\<lambda>name. pbind (texpect TtLBrace) (\<lambda>_.
     pbind (items_until TtRBrace (spanned_constraint li)) (\<lambda>cs.
       pret \<lparr>in_name = name, in_constraints = map snd cs, in_span = sp, in_constraint_spans = map fst cs\<rparr>)))))"

definition parse_field :: "field_def tparser" where
  "parse_field = pbind texpect_ident (\<lambda>name. pbind (texpect TtColon) (\<lambda>_. pbind tparse_type (\<lambda>ty. pbind (skip_one TtComma) (\<lambda>_.
     pret \<lparr>fd_name = name, fd_ty = ty\<rparr>))))"

definition parse_struct_def :: "struct_decl tparser" where
  "parse_struct_def = pbind (texpect KwStruct) (\<lambda>_. pbind texpect_ident (\<lambda>name. pbind (texpect TtLBrace) (\<lambda>_.
     pbind (items_until TtRBrace parse_field) (\<lambda>fs. pret \<lparr>sd_name = name, sd_fields = fs\<rparr>))))"

definition parse_variant :: "variant_def tparser" where
  "parse_variant = pbind texpect_ident (\<lambda>name. pbind tpeek (\<lambda>t.
     pbind (if t = TtLBrace then pbind tadvance (\<lambda>_. items_until TtRBrace parse_field) else pret []) (\<lambda>fs.
     pbind (skip_one TtComma) (\<lambda>_. pret \<lparr>va_name = name, va_fields = fs\<rparr>))))"

definition parse_enum_def :: "enum_decl tparser" where
  "parse_enum_def = pbind (texpect KwEnum) (\<lambda>_. pbind texpect_ident (\<lambda>name. pbind (texpect TtLBrace) (\<lambda>_.
     pbind (items_until TtRBrace parse_variant) (\<lambda>vs. pret \<lparr>ed_name = name, ed_variants = vs\<rparr>))))"

definition parse_param :: "param tparser" where
  "parse_param = pbind tpeek (\<lambda>t.
     pbind (if t = KwMut then pbind tadvance (\<lambda>_. pret ParamMutable) else pret ParamImmutable) (\<lambda>m.
     pbind texpect_ident (\<lambda>name. pbind (texpect TtColon) (\<lambda>_. pbind tparse_type (\<lambda>ty.
       pret \<lparr>pa_name = name, pa_ty = ty, pa_mutability = m\<rparr>)))))"

text \<open>The contract of a function: each clause with the kind of its keyword and its place.\<close>

primrec contract_loop :: "nat list \<Rightarrow> nat \<Rightarrow> (bool \<times> span \<times> texpr) list tparser" where
  "contract_loop li 0 = never"
| "contract_loop li (Suc n) = pbind tpeek (\<lambda>t.
     if t = KwRequires \<or> t = KwEnsures
     then pbind tadvance (\<lambda>_. pbind (current_span li) (\<lambda>sp. pbind tparse_expr (\<lambda>e. pbind (contract_loop li n) (\<lambda>cs.
       pret ((t = KwRequires, sp, e) # cs)))))
     else pret [])"

definition parse_body :: "(tstmt list \<times> bool) tparser" where
  "parse_body = pbind tpeek (\<lambda>t.
     if t = TtSemicolon then pbind tadvance (\<lambda>_. pret ([], True)) else pbind (stmt_block tparse_stmt) (\<lambda>b. pret (b, False)))"

definition parse_func :: "nat list \<Rightarrow> attribute list \<Rightarrow> tfunc tparser" where
  "parse_func li as = pbind (current_span li) (\<lambda>sp. pbind (texpect KwFunc) (\<lambda>_. pbind texpect_ident (\<lambda>name. pbind (texpect TtLParen) (\<lambda>_.
     pbind (maybe_items TtRParen parse_param) (\<lambda>params. pbind tpeek (\<lambda>t.
     pbind (if t = TtArrow then pbind tadvance (\<lambda>_. pbind tparse_type (\<lambda>ty. pret (Some ty))) else pret None) (\<lambda>rt.
     pbind (bounded (contract_loop li)) (\<lambda>cs. pbind parse_body (\<lambda>(body, elided).
       let req = filter fst cs; ens = filter (\<lambda>c. \<not> fst c) cs in
       pret \<lparr>fn_attributes = as, fn_name = name, fn_params = params, fn_return_ty = rt,
         fn_requires = map (snd \<circ> snd) req, fn_ensures = map (snd \<circ> snd) ens, fn_body = body, fn_elided = elided, fn_span = sp,
         fn_requires_spans = map (fst \<circ> snd) req, fn_ensures_spans = map (fst \<circ> snd) ens\<rparr>)))))))))"

definition no_attributes :: "string \<Rightarrow> attribute list \<Rightarrow> 'a tparser \<Rightarrow> 'a tparser" where
  "no_attributes what as p = (if as \<noteq> [] then reject (''attributes are not supported on '' @ ticked what @ '' items'') else p)"

definition parse_item :: "nat list \<Rightarrow> titem tparser" where
  "parse_item li = pbind (bounded attribute_loop) (\<lambda>as. pbind tpeek (\<lambda>t. case t of
     KwInvariant \<Rightarrow> no_attributes ''invariant'' as (pbind (parse_invariant li) (\<lambda>i. pret (ItInvariant i)))
   | KwFunc \<Rightarrow> pbind (parse_func li as) (\<lambda>f. pret (ItFunc f))
   | KwStruct \<Rightarrow> no_attributes ''struct'' as (pbind parse_struct_def (\<lambda>d. pret (ItStruct d)))
   | KwEnum \<Rightarrow> no_attributes ''enum'' as (pbind parse_enum_def (\<lambda>d. pret (ItEnum d)))
   | _ \<Rightarrow> reject (found (ticked ''invariant'' @ '', '' @ ticked ''func'' @ '', '' @ ticked ''struct'' @ '', or '' @ ticked ''enum'') t)))"

definition parse_module :: "nat list \<Rightarrow> tmodule tparser" where
  "parse_module li = pbind (bounded attribute_loop) (\<lambda>as. pbind (texpect KwModule) (\<lambda>_. pbind texpect_ident (\<lambda>name. pbind (texpect TtLBrace) (\<lambda>_.
     pbind (items_until TtRBrace (parse_item li)) (\<lambda>items. pret \<lparr>mo_attributes = as, mo_name = name, mo_items = items\<rparr>)))))"

text \<open>From source text to modules.\<close>

definition parse_source :: "uchar list \<Rightarrow> (string, tmodule list) fallible" where
  "parse_source src = try_bind (lex_telos src) (\<lambda>tokens.
     try_bind (bounded (until_loop TtEof (parse_module (line_index src))) tokens) (\<lambda>(ms, rest). try_ok ms))"

end
