(* ===== verification/Telos_Parser_Total.thy ===== *)
theory Telos_Parser_Total
  imports Telos_Parser
begin

text \<open>
  The \<open>telos\<close> parser returns on every source. The tokenizer ends the list of tokens with one that no parser consumes, and every
  nested phrase and every round of a loop consumes at least one token.
\<close>

subsection \<open>Lists of tokens\<close>

fun token_fits :: "token \<Rightarrow> bool" where
  "token_fits (TtInt n) \<longleftrightarrow> 0 \<le> n \<and> n < 2 ^ 63"
| "token_fits _ \<longleftrightarrow> True"

definition ends :: "spanned list \<Rightarrow> bool" where
  "ends ts \<longleftrightarrow> ts \<noteq> [] \<and> fst (last ts) = TtEof \<and> list_all (\<lambda>t. token_fits (fst t)) ts"

definition head_tok :: "spanned list \<Rightarrow> token" where
  "head_tok ts = fst (hd ts)"

interpretation telos: reader ends length .

lemmas telos_intros [parse_intro] = telos.parses_intros

lemma reads_peek [parse_intro]: "ends ts \<Longrightarrow> telos.parses n (f (head_tok ts)) ts \<Longrightarrow> telos.parses n (pbind tpeek f) ts"
  by (cases ts) (auto simp: telos.parses_def pbind_def tpeek_def ends_def head_tok_def)

lemma reads_advance [parse_intro]:
  assumes "ends ts" and "head_tok ts \<noteq> TtEof" and "\<And>ts'. ends ts' \<Longrightarrow> length ts' < length ts \<Longrightarrow> telos.parses n (f (head_tok ts)) ts'"
  shows "telos.parses n (pbind tadvance f) ts"
proof -
  obtain t s rest where ts: "ts = (t, s) # rest" using assms(1) by (cases ts) (auto simp: ends_def)
  with assms(1,2) have "ends rest" by (auto simp: ends_def head_tok_def split: if_splits)
  with assms(3) [of rest] show ?thesis by (simp add: ts telos.parses_def pbind_def tadvance_def head_tok_def)
qed

lemma reads_case_token [parse_intro]:
  assumes "\<And>x. t = TtIdent x \<Longrightarrow> telos.parses n (f0 x) ts" and "\<And>x. t = TtInt x \<Longrightarrow> telos.parses n (f1 x) ts"
    and "t = TtAt \<Longrightarrow> telos.parses n f2 ts" and "t = TtLParen \<Longrightarrow> telos.parses n f3 ts"
    and "t = TtRParen \<Longrightarrow> telos.parses n f4 ts" and "t = TtLBrace \<Longrightarrow> telos.parses n f5 ts"
    and "t = TtRBrace \<Longrightarrow> telos.parses n f6 ts" and "t = TtLSquare \<Longrightarrow> telos.parses n f7 ts"
    and "t = TtRSquare \<Longrightarrow> telos.parses n f8 ts" and "t = TtComma \<Longrightarrow> telos.parses n f9 ts"
    and "t = TtColon \<Longrightarrow> telos.parses n f10 ts" and "t = TtDot \<Longrightarrow> telos.parses n f11 ts"
    and "t = TtSemicolon \<Longrightarrow> telos.parses n f12 ts" and "t = TtAssign \<Longrightarrow> telos.parses n f13 ts"
    and "t = TtPlusAssign \<Longrightarrow> telos.parses n f14 ts" and "t = TtMinusAssign \<Longrightarrow> telos.parses n f15 ts"
    and "t = TtPlus \<Longrightarrow> telos.parses n f16 ts" and "t = TtMinus \<Longrightarrow> telos.parses n f17 ts"
    and "t = TtStar \<Longrightarrow> telos.parses n f18 ts" and "t = TtSlash \<Longrightarrow> telos.parses n f19 ts"
    and "t = TtEqEq \<Longrightarrow> telos.parses n f20 ts" and "t = TtNe \<Longrightarrow> telos.parses n f21 ts"
    and "t = TtLt \<Longrightarrow> telos.parses n f22 ts" and "t = TtLe \<Longrightarrow> telos.parses n f23 ts"
    and "t = TtGt \<Longrightarrow> telos.parses n f24 ts" and "t = TtGe \<Longrightarrow> telos.parses n f25 ts"
    and "t = TtAnd \<Longrightarrow> telos.parses n f26 ts" and "t = TtOr \<Longrightarrow> telos.parses n f27 ts"
    and "t = TtArrow \<Longrightarrow> telos.parses n f28 ts" and "t = TtFatArrow \<Longrightarrow> telos.parses n f29 ts"
    and "t = TtQuestion \<Longrightarrow> telos.parses n f30 ts" and "t = TtDotDot \<Longrightarrow> telos.parses n f31 ts"
    and "t = TtUnderScore \<Longrightarrow> telos.parses n f32 ts" and "t = KwModule \<Longrightarrow> telos.parses n f33 ts"
    and "t = KwInvariant \<Longrightarrow> telos.parses n f34 ts" and "t = KwFunc \<Longrightarrow> telos.parses n f35 ts"
    and "t = KwRequires \<Longrightarrow> telos.parses n f36 ts" and "t = KwEnsures \<Longrightarrow> telos.parses n f37 ts"
    and "t = KwMutate \<Longrightarrow> telos.parses n f38 ts" and "t = KwState \<Longrightarrow> telos.parses n f39 ts"
    and "t = KwOld \<Longrightarrow> telos.parses n f40 ts" and "t = KwLet \<Longrightarrow> telos.parses n f41 ts"
    and "t = KwMut \<Longrightarrow> telos.parses n f42 ts" and "t = KwIf \<Longrightarrow> telos.parses n f43 ts"
    and "t = KwElse \<Longrightarrow> telos.parses n f44 ts" and "t = KwMatch \<Longrightarrow> telos.parses n f45 ts"
    and "t = KwStruct \<Longrightarrow> telos.parses n f46 ts" and "t = KwEnum \<Longrightarrow> telos.parses n f47 ts"
    and "t = KwForall \<Longrightarrow> telos.parses n f48 ts" and "t = KwIn \<Longrightarrow> telos.parses n f49 ts"
    and "t = KwPure \<Longrightarrow> telos.parses n f50 ts" and "t = KwReturn \<Longrightarrow> telos.parses n f51 ts"
    and "t = KwResult \<Longrightarrow> telos.parses n f52 ts" and "t = KwOk \<Longrightarrow> telos.parses n f53 ts"
    and "t = KwErr \<Longrightarrow> telos.parses n f54 ts" and "t = TtEof \<Longrightarrow> telos.parses n f55 ts"
  shows "telos.parses n (case_token f0 f1 f2 f3 f4 f5 f6 f7 f8 f9 f10 f11 f12 f13 f14 f15 f16 f17 f18 f19 f20 f21 f22 f23 f24 f25 f26 f27 f28 f29 f30 f31 f32 f33 f34 f35 f36 f37 f38 f39 f40 f41 f42 f43 f44 f45 f46 f47 f48 f49 f50 f51 f52 f53 f54 f55 t) ts"
  using assms by (cases t) simp_all

lemma texpect_moves: "t \<noteq> TtEof \<Longrightarrow> telos.moves (texpect t)"
  unfolding texpect_def by (intro telos.movesI parse_intro) auto

lemma texpect_ident_moves: "telos.moves texpect_ident"
  unfolding texpect_ident_def by (intro telos.movesI parse_intro) auto

lemma expect_ident_or_keyword_moves: "telos.moves expect_ident_or_keyword"
  unfolding expect_ident_or_keyword_def by (intro telos.movesI parse_intro) auto

lemmas expect_steps [parse_intro] = telos.moves_bind [OF texpect_moves] telos.moves_bind [OF texpect_ident_moves]
  telos.moves_bind [OF expect_ident_or_keyword_moves]

lemma skip_one_bind [parse_intro]:
  assumes "ends ts" and "t \<noteq> TtEof" and "\<And>ts'. ends ts' \<Longrightarrow> length ts' \<le> length ts \<Longrightarrow> telos.parses n (f ()) ts'"
  shows "telos.parses n (pbind (skip_one t) f) ts"
  unfolding skip_one_def by (intro parse_intro) (use assms in auto)

text \<open>A loop that may stop at once.\<close>

lemma until_loop_reads:
  assumes "telos.consumes m item"
  shows "ends ts \<Longrightarrow> length ts < k \<Longrightarrow> length ts < m \<Longrightarrow> telos.parses (Suc (length ts)) (until_loop close item k) ts"
proof (induction k arbitrary: ts)
  case (Suc k)
  have ih: "telos.parses n (pbind (until_loop close item k) f) ts'"
    if "ends ts'" "length ts' < length ts" "\<And>x ts''. ends ts'' \<Longrightarrow> length ts'' \<le> length ts' \<Longrightarrow> telos.parses n (f x) ts''" for n ts' f
    using that Suc.prems by (intro telos.parses_bind [OF Suc.IH]) auto
  show ?case unfolding until_loop.simps by (intro parse_intro telos.consumes_bind [OF assms] ih) (use Suc.prems in auto)
qed simp

lemma items_until_consumes:
  assumes "telos.consumes m item" and "close \<noteq> TtEof"
  shows "telos.consumes m (items_until close item)"
proof (rule telos.consumesI)
  fix ts :: "spanned list"
  assume ts: "ends ts" "length ts < m"
  then have "telos.parses (Suc (length ts)) (bounded (until_loop close item)) ts"
    unfolding bounded_def telos.parses_def using until_loop_reads [OF assms(1) ts(1), of "Suc (length ts)" close] by (simp add: telos.parses_def)
  then show "telos.parses (length ts) (items_until close item) ts"
    unfolding items_until_def by (rule telos.parses_bind) (intro parse_intro, use assms(2) in auto)
qed

lemma sep_loop_reads:
  assumes "telos.consumes m item"
  shows "ends ts \<Longrightarrow> length ts < k \<Longrightarrow> length ts < m \<Longrightarrow> telos.parses (length ts) (sep_loop item k) ts"
proof (induction k arbitrary: ts)
  case (Suc k)
  have ih: "telos.parses n (pbind (sep_loop item k) f) ts'"
    if "ends ts'" "length ts' < length ts" "\<And>x ts''. ends ts'' \<Longrightarrow> length ts'' < length ts' \<Longrightarrow> telos.parses n (f x) ts''" for n ts' f
    using that Suc.prems by (intro telos.parses_bind [OF Suc.IH]) auto
  show ?case unfolding sep_loop.simps by (intro parse_intro telos.consumes_bind [OF assms] ih) (use Suc.prems in auto)
qed simp

lemma sep_loop_consumes: "telos.consumes m item \<Longrightarrow> telos.consumes m (bounded (sep_loop item))"
  by (rule telos.consumesI) (use sep_loop_reads [of m item _ "Suc (length _)"] in \<open>auto simp: telos.parses_def bounded_def\<close>)

lemma maybe_items_consumes:
  assumes "telos.consumes m item" and "close \<noteq> TtEof"
  shows "telos.consumes m (maybe_items close item)"
  unfolding maybe_items_def by (intro telos.consumesI parse_intro telos.consumes_bind [OF sep_loop_consumes [OF assms(1)]]) (use assms(2) in auto)

text \<open>A phrase that may nest: with the bound as large as the tokens left, it returns.\<close>

lemma bounded_moves: "(\<And>n. telos.consumes n (p n)) \<Longrightarrow> telos.moves (bounded p)"
  by (rule telos.movesI) (simp add: telos.parses_def bounded_def telos.consumes_def)

subsection \<open>Types and patterns\<close>

lemma type_step_consumes:
  assumes "telos.consumes n pt"
  shows "telos.consumes (Suc n) (type_step pt)"
  unfolding type_step_def
  by (intro telos.consumesI parse_intro telos.consumes_bind [OF assms] telos.consumes_bind [OF sep_loop_consumes [OF assms]]) auto

lemma type_loop_consumes: "telos.consumes n (type_loop n)"
proof (induction n)
  case (Suc n)
  have "type_loop (Suc n) = type_step (type_loop n)" by (simp add: fun_eq_iff)
  with type_step_consumes [OF Suc] show ?case by simp
qed (rule telos.consumes_0)

lemma pattern_step_consumes:
  assumes "telos.consumes n pp"
  shows "telos.consumes (Suc n) (pattern_step pp)"
proof -
  have neg: "telos.parses m (pbind tadvance (\<lambda>_ ts. try_lift (map_option (\<lambda>v. (PatLiteral v, ts)) (ichecked_neg 64 k)))) ts"
    if "ends ts" "head_tok ts = TtInt k" "length ts \<le> m" for ts m k
  proof -
    have "token_fits (TtInt k)" using that(1,2) by (cases ts) (auto simp: ends_def head_tok_def)
    then have "ichecked_neg 64 k = Some (- k)" by (simp add: ichecked_neg_def ichecked_def ifits_def)
    then show ?thesis using that by (intro reads_advance) (auto simp: telos.parses_def)
  qed
  show ?thesis
    unfolding pattern_step_def
    by (intro telos.consumesI neg parse_intro telos.consumes_bind [OF maybe_items_consumes [OF assms]]) auto
qed

lemma pattern_loop_consumes: "telos.consumes n (pattern_loop n)"
proof (induction n)
  case (Suc n)
  have "pattern_loop (Suc n) = pattern_step (pattern_loop n)" by (simp add: fun_eq_iff)
  with pattern_step_consumes [OF Suc] show ?case by simp
qed (rule telos.consumes_0)

lemma tparse_type_moves: "telos.moves tparse_type"
  unfolding tparse_type_def by (rule bounded_moves [OF type_loop_consumes])

lemma tparse_pattern_moves: "telos.moves tparse_pattern"
  unfolding tparse_pattern_def by (rule bounded_moves [OF pattern_loop_consumes])

lemmas nested_steps [parse_intro] = telos.moves_bind [OF tparse_type_moves] telos.moves_bind [OF tparse_pattern_moves]

subsection \<open>Expressions\<close>

text \<open>The levels of the expression grammar as functions.\<close>

lemma tparse_primary_eq: "tparse_primary pe = pbind tpeek (\<lambda>t. case t of
     TtInt n \<Rightarrow> pbind tadvance (\<lambda>_. pret (TInt n))
   | KwOld \<Rightarrow> pbind tadvance (\<lambda>_. pbind (in_parens pe) (\<lambda>e. pret (TOld e)))
   | TtLParen \<Rightarrow> pbind tadvance (\<lambda>_. pbind pe (\<lambda>e. pbind (texpect TtRParen) (\<lambda>_. pret e)))
   | KwIf \<Rightarrow> parse_if_expr pe
   | KwMatch \<Rightarrow> parse_match_expr pe
   | KwForall \<Rightarrow> parse_forall_expr pe
   | KwResult \<Rightarrow> pbind tadvance (\<lambda>_. pret (TVar ''Result''))
   | KwOk \<Rightarrow> pbind tadvance (\<lambda>_. pbind (in_parens pe) (\<lambda>e. pret (TCall ''Ok'' [e])))
   | KwErr \<Rightarrow> pbind tadvance (\<lambda>_. pbind (in_parens pe) (\<lambda>e. pret (TCall ''Err'' [e])))
   | TtIdent s \<Rightarrow> pbind tadvance (\<lambda>_. parse_name pe s)
   | _ \<Rightarrow> reject (found ''expression'' t))"
  by (simp add: fun_eq_iff tparse_primary_def)

lemma parse_postfix_eq: "parse_postfix pe = pbind (tparse_primary pe) (\<lambda>e. bounded (\<lambda>n. postfix_loop pe n e))"
  by (simp add: fun_eq_iff parse_postfix_def)

lemma parse_unary_eq: "parse_unary pe = bounded (unary_loop pe)"
  by (simp add: fun_eq_iff parse_unary_def)

lemma parse_mul_eq: "parse_mul pe = binary_level mul_op (parse_unary pe)"
  by (simp add: fun_eq_iff parse_mul_def)

lemma parse_add_eq: "parse_add pe = binary_level add_op (parse_mul pe)"
  by (simp add: fun_eq_iff parse_add_def)

lemma parse_cmp_eq: "parse_cmp pe = pbind (parse_add pe) (\<lambda>lhs. pbind tpeek (\<lambda>t. case relation_op t of
     None \<Rightarrow> pret lhs
   | Some op \<Rightarrow> pbind tadvance (\<lambda>_. pbind (parse_add pe) (\<lambda>rhs. pret (TBin op lhs rhs)))))"
  by (simp add: fun_eq_iff parse_cmp_def)

lemma tparse_and_eq: "tparse_and pe = binary_level and_op (parse_cmp pe)"
  by (simp add: fun_eq_iff tparse_and_def)

lemma tparse_or_eq: "tparse_or pe = binary_level or_op (tparse_and pe)"
  by (simp add: fun_eq_iff tparse_or_def)

lemma expr_arm_eq: "expr_arm pe = pbind tparse_pattern (\<lambda>pat. pbind (texpect TtFatArrow) (\<lambda>_. pbind pe (\<lambda>e. pbind (skip_one TtComma) (\<lambda>_. pret (pat, e)))))"
  by (simp add: fun_eq_iff expr_arm_def)

lemma parse_if_expr_consumes:
  assumes "telos.consumes n pe"
  shows "telos.consumes (Suc n) (parse_if_expr pe)"
  unfolding parse_if_expr_def by (intro telos.consumesI parse_intro telos.consumes_bind [OF assms]) auto

lemma expr_arm_consumes:
  assumes "telos.consumes n pe"
  shows "telos.consumes n (expr_arm pe)"
  unfolding expr_arm_eq by (intro telos.consumesI parse_intro telos.consumes_bind [OF assms]) auto

lemma parse_match_expr_consumes:
  assumes "telos.consumes n pe"
  shows "telos.consumes (Suc n) (parse_match_expr pe)"
  unfolding parse_match_expr_def
  by (intro telos.consumesI parse_intro telos.consumes_bind [OF assms] telos.consumes_bind [OF items_until_consumes [OF expr_arm_consumes [OF assms]]]) auto

lemma parse_forall_expr_consumes:
  assumes "telos.consumes n pe"
  shows "telos.consumes (Suc n) (parse_forall_expr pe)"
  unfolding parse_forall_expr_def by (intro telos.consumesI parse_intro telos.consumes_bind [OF assms]) auto

lemma in_parens_consumes:
  assumes "telos.consumes n pe"
  shows "telos.consumes n (in_parens pe)"
  unfolding in_parens_def by (intro telos.consumesI parse_intro telos.consumes_bind [OF assms]) auto

lemma parse_name_reads:
  assumes "telos.consumes n pe" and "ends ts" and "length ts < n"
  shows "telos.parses (Suc (length ts)) (parse_name pe s) ts"
proof (cases "aggregate_op_of s")
  case None
  then show ?thesis unfolding parse_name_def by (simp, intro parse_intro) (use assms(2) in auto)
next
  case (Some op)
  show ?thesis
  proof (cases "head_tok ts = TtLParen")
    case True
    with Some show ?thesis
      unfolding parse_name_def
      by (intro reads_peek) (simp_all add: assms(2), intro parse_intro telos.consumes_bind [OF maybe_items_consumes [OF assms(1)]], use assms(2,3) in auto)
  next
    case False
    with Some show ?thesis
      unfolding parse_name_def by (intro reads_peek) (simp_all add: assms(2), (intro impI conjI parse_intro)?, use assms(2) in auto)
  qed
qed

lemma tparse_primary_consumes:
  assumes "telos.consumes n pe"
  shows "telos.consumes (Suc n) (tparse_primary pe)"
  unfolding tparse_primary_eq
  by (intro telos.consumesI parse_intro telos.consumes_bind [OF assms] telos.consumes_bind [OF in_parens_consumes [OF assms]]
      telos.parses_mono [OF parse_name_reads [OF assms]] telos.consumes_parses [OF parse_if_expr_consumes [OF assms]]
      telos.consumes_parses [OF parse_match_expr_consumes [OF assms]] telos.consumes_parses [OF parse_forall_expr_consumes [OF assms]]) auto

lemma apply_call_bind:
  assumes "ends ts" and "\<And>x. telos.parses n (f x) ts"
  shows "telos.parses n (pbind (apply_call e args) f) ts"
  using assms by (auto simp: apply_call_def telos.parses_def pbind_def pret_def reject_def split: texpr.split)

lemma postfix_loop_reads:
  assumes "telos.consumes n pe"
  shows "ends ts \<Longrightarrow> length ts < k \<Longrightarrow> length ts < Suc n \<Longrightarrow> telos.parses (Suc (length ts)) (postfix_loop pe k e) ts"
proof (induction k arbitrary: ts e)
  case (Suc k)
  have ih: "telos.parses m (postfix_loop pe k e') ts'" if "ends ts'" "length ts' < length ts" "length ts' < m" for m ts' e'
    using that Suc.prems by (intro telos.parses_mono [OF Suc.IH]) auto
  show ?case
    unfolding postfix_loop.simps
    by (intro parse_intro ih telos.consumes_bind [OF assms] telos.consumes_bind [OF maybe_items_consumes [OF assms]] apply_call_bind) (use Suc.prems in auto)
qed simp

lemma parse_postfix_consumes:
  assumes "telos.consumes n pe"
  shows "telos.consumes (Suc n) (parse_postfix pe)"
proof (rule telos.consumesI)
  fix ts :: "spanned list"
  assume ts: "ends ts" "length ts < Suc n"
  have "telos.parses (length ts) (bounded (\<lambda>n. postfix_loop pe n e)) ts'" if "ends ts'" "length ts' < length ts" for e ts'
    using telos.parses_mono [OF postfix_loop_reads [OF assms that(1), of "Suc (length ts')" e], of "length ts"] that ts(2)
    by (simp add: telos.parses_def bounded_def)
  then show "telos.parses (length ts) (parse_postfix pe) ts"
    unfolding parse_postfix_eq by (intro telos.consumes_bind [OF tparse_primary_consumes [OF assms] ts])
qed

lemma unary_loop_reads:
  assumes "telos.consumes n pe"
  shows "ends ts \<Longrightarrow> length ts < k \<Longrightarrow> length ts < Suc n \<Longrightarrow> telos.parses (length ts) (unary_loop pe k) ts"
proof (induction k arbitrary: ts)
  case (Suc k)
  have ih: "telos.parses m (pbind (unary_loop pe k) f) ts'"
    if "ends ts'" "length ts' < length ts" "\<And>x ts''. ends ts'' \<Longrightarrow> length ts'' < length ts' \<Longrightarrow> telos.parses m (f x) ts''" for m ts' f
    using that Suc.prems by (intro telos.parses_bind [OF Suc.IH]) auto
  show ?case
    unfolding unary_loop.simps by (intro parse_intro ih telos.consumes_parses [OF parse_postfix_consumes [OF assms]]) (use Suc.prems in auto)
qed simp

lemma parse_unary_consumes: "telos.consumes n pe \<Longrightarrow> telos.consumes (Suc n) (parse_unary pe)"
  by (rule telos.consumesI) (use unary_loop_reads [of n pe _ "Suc (length _)"] in \<open>auto simp: telos.parses_def bounded_def parse_unary_eq\<close>)

lemma binary_loop_reads:
  assumes "telos.consumes n operand" and "ops TtEof = None"
  shows "ends ts \<Longrightarrow> length ts < k \<Longrightarrow> length ts < n \<Longrightarrow> telos.parses (Suc (length ts)) (binary_loop ops operand k lhs) ts"
proof (induction k arbitrary: ts lhs)
  case (Suc k)
  have ih: "telos.parses m (binary_loop ops operand k e) ts'" if "ends ts'" "length ts' < length ts" "length ts' < m" for m ts' e
    using that Suc.prems by (intro telos.parses_mono [OF Suc.IH]) auto
  show ?case
    unfolding binary_loop.simps by (intro parse_intro ih telos.consumes_bind [OF assms(1)]) (use Suc.prems assms(2) in auto)
qed simp

lemma binary_level_consumes:
  assumes "telos.consumes n operand" and "ops TtEof = None"
  shows "telos.consumes n (binary_level ops operand)"
proof (rule telos.consumesI)
  fix ts :: "spanned list"
  assume ts: "ends ts" "length ts < n"
  have "telos.parses (length ts) (bounded (\<lambda>n. binary_loop ops operand n e)) ts'" if "ends ts'" "length ts' < length ts" for e ts'
    using telos.parses_mono [OF binary_loop_reads [where ops = ops, OF assms that(1), of "Suc (length ts')" e], of "length ts"] that ts(2)
    by (simp add: telos.parses_def bounded_def)
  then show "telos.parses (length ts) (binary_level ops operand) ts"
    unfolding binary_level_def by (intro telos.consumes_bind [OF assms(1) ts])
qed

lemma parse_add_consumes: "telos.consumes n pe \<Longrightarrow> telos.consumes (Suc n) (parse_add pe)"
  unfolding parse_add_eq parse_mul_eq by (intro binary_level_consumes parse_unary_consumes) (simp_all add: mul_op_def add_op_def)

lemma relation_op_Eof: "relation_op TtEof = None"
  by (simp add: relation_op_def)

lemma parse_cmp_consumes:
  assumes "telos.consumes n pe"
  shows "telos.consumes (Suc n) (parse_cmp pe)"
  unfolding parse_cmp_eq
  by (intro telos.consumesI parse_intro telos.consumes_bind [OF parse_add_consumes [OF assms]]) (auto simp: relation_op_Eof)

lemma tparse_or_consumes: "telos.consumes n pe \<Longrightarrow> telos.consumes (Suc n) (tparse_or pe)"
  unfolding tparse_or_eq tparse_and_eq by (intro binary_level_consumes parse_cmp_consumes) (simp_all add: and_op_def or_op_def)

lemma expr_loop_consumes: "telos.consumes n (expr_loop n)"
proof (induction n)
  case (Suc n)
  have "expr_loop (Suc n) = tparse_or (expr_loop n)" by (simp add: fun_eq_iff)
  with tparse_or_consumes [OF Suc] show ?case by simp
qed (rule telos.consumes_0)

lemma tparse_expr_moves: "telos.moves tparse_expr"
  unfolding tparse_expr_def by (rule bounded_moves [OF expr_loop_consumes])

lemmas expr_steps [parse_intro] = telos.moves_bind [OF tparse_expr_moves]

subsection \<open>Statements\<close>

lemma assign_op_Eof: "assign_op_of TtEof = None"
  by (simp add: assign_op_of_def)

lemma tparse_assign_moves: "telos.moves tparse_assign"
  unfolding tparse_assign_def by (intro telos.movesI parse_intro) (auto simp: assign_op_Eof)

lemma stmt_block_consumes:
  assumes "telos.consumes n ps"
  shows "telos.consumes (Suc n) (stmt_block ps)"
  unfolding stmt_block_def by (intro telos.consumesI parse_intro telos.consumes_parses [OF items_until_consumes [OF assms]]) auto

lemma parse_if_stmt_consumes:
  assumes "telos.consumes n ps"
  shows "telos.consumes (Suc n) (parse_if_stmt_as_stmt ps)"
  unfolding parse_if_stmt_as_stmt_def
  by (intro telos.consumesI parse_intro telos.consumes_bind [OF stmt_block_consumes [OF assms]]) auto

lemma stmt_arm_consumes:
  assumes "telos.consumes n ps"
  shows "telos.consumes n (stmt_arm ps)"
  unfolding stmt_arm_def
  by (intro telos.consumesI parse_intro telos.consumes_bind [OF assms] telos.consumes_bind [OF stmt_block_consumes [OF assms]]) auto

lemma parse_match_stmt_consumes:
  assumes "telos.consumes n ps"
  shows "telos.consumes (Suc n) (parse_match_stmt ps)"
  unfolding parse_match_stmt_def
  by (intro telos.consumesI parse_intro telos.consumes_bind [OF items_until_consumes [OF stmt_arm_consumes [OF assms]]]) auto

lemma parse_let_reads: "ends ts \<Longrightarrow> head_tok ts \<noteq> TtEof \<Longrightarrow> telos.parses (length ts) parse_let ts"
  unfolding parse_let_def by (intro parse_intro) auto

lemma parse_return_reads: "ends ts \<Longrightarrow> head_tok ts \<noteq> TtEof \<Longrightarrow> telos.parses (length ts) parse_return ts"
  unfolding parse_return_def by (intro parse_intro) auto

lemma parse_expr_stmt_moves: "telos.moves parse_expr_stmt"
  unfolding parse_expr_stmt_def by (intro telos.movesI parse_intro) (auto simp: assign_op_Eof)

lemma stmt_step_consumes:
  assumes "telos.consumes n ps"
  shows "telos.consumes (Suc n) (stmt_step ps)"
  unfolding stmt_step_def
  by (intro telos.consumesI parse_intro parse_let_reads parse_return_reads telos.moves_parses [OF parse_expr_stmt_moves]
      telos.consumes_bind [OF items_until_consumes [OF telos.moves_consumes [OF tparse_assign_moves, of n]]]
      telos.consumes_parses [OF parse_if_stmt_consumes [OF assms]] telos.consumes_parses [OF parse_match_stmt_consumes [OF assms]]) auto

lemma stmt_loop_consumes: "telos.consumes n (stmt_loop n)"
proof (induction n)
  case (Suc n)
  have "stmt_loop (Suc n) = stmt_step (stmt_loop n)" by (simp add: fun_eq_iff)
  with stmt_step_consumes [OF Suc] show ?case by simp
qed (rule telos.consumes_0)

lemma tparse_stmt_moves: "telos.moves tparse_stmt"
  unfolding tparse_stmt_def by (rule bounded_moves [OF stmt_loop_consumes])

subsection \<open>Modules\<close>

lemma items_until_moves: "telos.moves item \<Longrightarrow> close \<noteq> TtEof \<Longrightarrow> telos.moves (items_until close item)"
  unfolding telos.moves_def by (simp add: items_until_consumes)

lemma maybe_items_moves: "telos.moves item \<Longrightarrow> close \<noteq> TtEof \<Longrightarrow> telos.moves (maybe_items close item)"
  unfolding telos.moves_def by (simp add: maybe_items_consumes)

lemma parse_arg_moves: "telos.moves parse_arg"
  unfolding parse_arg_def by (intro telos.movesI parse_intro) auto

lemma parse_attribute_moves: "telos.moves parse_attribute"
  unfolding parse_attribute_def by (intro telos.movesI parse_intro telos.moves_bind [OF maybe_items_moves [OF parse_arg_moves]]) auto

lemma attribute_loop_reads: "ends ts \<Longrightarrow> length ts < k \<Longrightarrow> telos.parses (Suc (length ts)) (attribute_loop k) ts"
proof (induction k arbitrary: ts)
  case (Suc k)
  have ih: "telos.parses m (pbind (attribute_loop k) f) ts'"
    if "ends ts'" "length ts' < length ts" "\<And>x ts''. ends ts'' \<Longrightarrow> length ts'' \<le> length ts' \<Longrightarrow> telos.parses m (f x) ts''" for m ts' f
    using that Suc.prems by (intro telos.parses_bind [OF Suc.IH]) auto
  show ?case unfolding attribute_loop.simps by (intro parse_intro ih telos.moves_bind [OF parse_attribute_moves]) (use Suc.prems in auto)
qed simp

lemma bounded_bind:
  assumes "telos.parses (Suc (length ts)) (p (Suc (length ts))) ts" and "\<And>x ts'. ends ts' \<Longrightarrow> length ts' \<le> length ts \<Longrightarrow> telos.parses m (f x) ts'"
  shows "telos.parses m (pbind (bounded p) f) ts"
  by (rule telos.parses_bind [of "Suc (length ts)"]) (use assms in \<open>auto simp: bounded_def telos.parses_def\<close>)

lemma line_index_hd: "\<exists>rest. line_index src = 0 # rest"
  by (simp add: line_index_def)

text \<open>The line of an offset: there is always a first line, at 0.\<close>

lemma span_at_total: "\<exists>sp. span_at (0 # starts) offset = Some sp"
proof (cases "position (\<lambda>s. s = offset) (0 # starts)")
  case None
  define idx where "idx = length (takeWhile (\<lambda>s. s < offset) (0 # starts)) - 1"
  have off: "0 < offset" using None by (auto split: if_splits)
  have idx: "idx < length (takeWhile (\<lambda>s. s < offset) (0 # starts))" using off by (simp add: idx_def)
  have "takeWhile (\<lambda>s. s < offset) (0 # starts) ! idx < offset" using set_takeWhileD [OF nth_mem [OF idx]] by blast
  then have "(0 # starts) ! idx < offset" using takeWhile_nth [OF idx] by metis
  moreover have "idx < length (0 # starts)" using idx length_takeWhile_le [of "\<lambda>s. s < offset" "0 # starts"] by (rule less_le_trans)
  moreover have "idx = length (takeWhile (\<lambda>s. s < offset) starts)" using off by (simp add: idx_def)
  ultimately show ?thesis
    using None by (simp add: span_at_def line_col_def Let_def saturating_sub_def vec_get_def checked_sub_def)
next
  case (Some i)
  then show ?thesis
    using position_SomeD [OF Some] by (simp add: span_at_def line_col_def Let_def vec_get_def checked_sub_def)
qed

lemma current_span_bind:
  assumes "ends ts" and "\<And>sp. telos.parses n (f sp) ts"
  shows "telos.parses n (pbind (current_span (line_index src)) f) ts"
proof -
  obtain rest where li: "line_index src = 0 # rest" using line_index_hd by blast
  obtain t s e ts' where ts: "ts = (t, s, e) # ts'" using assms(1) by (cases ts) (auto simp: ends_def)
  from span_at_total obtain sp where "span_at (0 # rest) s = Some sp" by blast
  with assms(2) [of sp] show ?thesis by (simp add: ts li telos.parses_def pbind_def current_span_def)
qed

lemma spanned_constraint_moves: "telos.moves (spanned_constraint (line_index src))"
  unfolding spanned_constraint_def by (intro telos.movesI current_span_bind parse_intro) auto

lemma parse_invariant_moves: "telos.moves (parse_invariant (line_index src))"
  unfolding parse_invariant_def
  by (intro telos.movesI current_span_bind parse_intro telos.moves_bind [OF items_until_moves [OF spanned_constraint_moves]]) auto

lemma parse_field_moves: "telos.moves parse_field"
  unfolding parse_field_def by (intro telos.movesI parse_intro) auto

lemma parse_struct_def_moves: "telos.moves parse_struct_def"
  unfolding parse_struct_def_def by (intro telos.movesI parse_intro telos.moves_bind [OF items_until_moves [OF parse_field_moves]]) auto

lemma parse_variant_moves: "telos.moves parse_variant"
  unfolding parse_variant_def by (intro telos.movesI parse_intro telos.moves_bind [OF items_until_moves [OF parse_field_moves]]) auto

lemma parse_enum_def_moves: "telos.moves parse_enum_def"
  unfolding parse_enum_def_def by (intro telos.movesI parse_intro telos.moves_bind [OF items_until_moves [OF parse_variant_moves]]) auto

lemma parse_param_moves: "telos.moves parse_param"
  unfolding parse_param_def by (intro telos.movesI parse_intro) auto

lemma contract_loop_reads:
  "ends ts \<Longrightarrow> length ts < k \<Longrightarrow> telos.parses (Suc (length ts)) (contract_loop (line_index src) k) ts"
proof (induction k arbitrary: ts)
  case (Suc k)
  have ih: "telos.parses m (pbind (contract_loop (line_index src) k) f) ts'"
    if "ends ts'" "length ts' < length ts" "\<And>x ts''. ends ts'' \<Longrightarrow> length ts'' \<le> length ts' \<Longrightarrow> telos.parses m (f x) ts''" for m ts' f
    using that Suc.prems by (intro telos.parses_bind [OF Suc.IH]) auto
  show ?case unfolding contract_loop.simps by (intro parse_intro current_span_bind ih) (use Suc.prems in auto)
qed simp

lemma stmt_block_moves: "telos.moves (stmt_block tparse_stmt)"
proof (rule telos.movesI)
  fix ts :: "spanned list"
  assume "ends ts"
  then show "telos.parses (length ts) (stmt_block tparse_stmt) ts"
    by (rule telos.consumes_parses [OF stmt_block_consumes [OF telos.moves_consumes [OF tparse_stmt_moves, of "length ts"]]]) simp_all
qed

lemma parse_body_moves: "telos.moves parse_body"
  unfolding parse_body_def by (intro telos.movesI parse_intro telos.moves_bind [OF stmt_block_moves]) auto

lemma parse_func_moves: "telos.moves (parse_func (line_index src) as)"
  unfolding parse_func_def case_prod_unfold Let_def
  by (intro telos.movesI current_span_bind parse_intro telos.moves_bind [OF maybe_items_moves [OF parse_param_moves]]
      bounded_bind contract_loop_reads telos.moves_bind [OF parse_body_moves]) auto

lemma parse_item_moves: "telos.moves (parse_item (line_index src))"
  unfolding parse_item_def no_attributes_def
  by (intro telos.movesI bounded_bind attribute_loop_reads parse_intro telos.moves_bind [OF parse_invariant_moves] telos.moves_bind [OF parse_func_moves]
      telos.moves_bind [OF parse_struct_def_moves] telos.moves_bind [OF parse_enum_def_moves]) auto

lemma parse_module_moves: "telos.moves (parse_module (line_index src))"
  unfolding parse_module_def
  by (intro telos.movesI bounded_bind attribute_loop_reads parse_intro telos.moves_bind [OF items_until_moves [OF parse_item_moves]]) auto

subsection \<open>Sources\<close>

lemma find_in_set: "List.find P xs = Some x \<Longrightarrow> x \<in> set xs"
  by (auto simp: find_Some_iff)

lemma word_token_fits: "token_fits (word_token s)"
proof (cases "List.find (\<lambda>k. token_text k = s) keyword_list")
  case (Some k)
  then have "k \<in> set keyword_list" by (rule find_in_set)
  with Some show ?thesis by (auto simp: word_token_def keyword_list_def)
qed (simp add: word_token_def)

lemma decimal_nonneg: "list_all is_digit ds \<Longrightarrow> 0 \<le> decimal ds"
  by (induction ds rule: rev_induct) (auto simp: decimal_def is_digit_def)

lemma pair_token_fits: "pair_token cs = Some t \<Longrightarrow> token_fits t"
  unfolding pair_token_def by (drule find_in_set) (auto simp: pair_list_def)

lemma single_token_fits: "single_token c = Some t \<Longrightarrow> token_fits t"
  unfolding single_token_def by (drule find_in_set) (auto simp: single_list_def)

lemma ends_cons: "token_fits (fst t) \<Longrightarrow> ends ts \<Longrightarrow> ends (t # ts)"
  by (auto simp: ends_def)

lemma lex_cons_safe: "token_fits (fst t) \<Longrightarrow> try_safe r ends \<Longrightarrow> try_safe (lex_cons t r) ends"
  unfolding lex_cons_def by (rule try_safe_bind [of _ ends]) (simp_all add: ends_cons)

lemma lex_from_safe: "try_safe (lex_from i cs) ends"
proof (induction i cs rule: lex_from.induct)
  case (1 i)
  then show ?case by (simp add: ends_def)
next
  case (2 i c cs)
  have digits: "0 \<le> decimal (c # take (length (takeWhile is_digit cs)) cs)" if "is_digit c"
    using that by (intro decimal_nonneg) (auto simp: takeWhile_eq_take [symmetric] list_all_iff dest: set_takeWhileD)
  show ?case
    using 2 by (simp add: Let_def ifits_def digits lex_cons_safe word_token_fits pair_token_fits single_token_fits split: option.split)
qed

text \<open>
  C16. Parsing a \<open>telos\<close> source always returns: no text makes the tokenizer or the parser panic or loop, and its recursion is never deeper
  than there are tokens; it gives the modules or an error.
\<close>

theorem parse_source_total: "\<exists>r. parse_source src = Some r"
proof (cases "lex_telos src" rule: try_cases)
  case (ok tokens)
  then have e: "ends tokens" using lex_from_safe [of 0 src] by (simp add: lex_telos_def)
  have "telos.parses (Suc (length tokens)) (until_loop TtEof (parse_module (line_index src)) (Suc (length tokens))) tokens"
    by (rule until_loop_reads [OF telos.moves_consumes [OF parse_module_moves, of "Suc (length tokens)"] e]) simp_all
  from telos.parses_total [OF this] ok show ?thesis
    by (auto simp: parse_source_def bounded_def try_bind_def try_ok_def split: sum.splits)
next
  case panic
  then show ?thesis using lex_from_safe [of 0 src] by (simp add: lex_telos_def)
qed (simp add: parse_source_def try_err_def try_bind_def)

end
