(* ===== verification/Telos_Parser_Grammar.thy ===== *)
theory Telos_Parser_Grammar
  imports Telos_Parser_Total
begin

text \<open>
  The grammar of \<open>telos\<close> expressions (\<open>telos-parser/src/grammar.ebnf\<close>) as inductive derivations of a syntax tree from a list of
  tokens, level by level, and the proof that the recursive-descent parser reads every derived list as its tree. It follows that no
  list has two trees. The rules have what the parser adds to the written grammar (unary minus, ranges, array types, \<open>Result\<close> as a
  name); a call is of a name or of a field of a name, as the parser rejects or rewrites the others. \<open>yields\<close> says what a parser makes of given tokens, whatever follows them within a set.
\<close>

subsection \<open>What a parser makes of given tokens\<close>

definition yields :: "token set \<Rightarrow> 'a tparser \<Rightarrow> token list \<Rightarrow> 'a \<Rightarrow> bool" where
  "yields F p toks x \<longleftrightarrow>
     (\<forall>ts rest. map fst ts = toks \<longrightarrow> rest \<noteq> [] \<longrightarrow> head_tok rest \<in> F \<longrightarrow> p (ts @ rest) = try_ok (x, rest))"

lemma yieldsD: "yields F p toks x \<Longrightarrow> map fst ts = toks \<Longrightarrow> rest \<noteq> [] \<Longrightarrow> head_tok rest \<in> F \<Longrightarrow> p (ts @ rest) = try_ok (x, rest)"
  by (simp add: yields_def)

lemma yields_weaken: "yields F p toks x \<Longrightarrow> G \<subseteq> F \<Longrightarrow> yields G p toks x"
  by (auto simp: yields_def)

lemma yields_ret: "yields F (pret x) [] x"
  by (simp add: yields_def pret_def)

lemma head_tok_append: "head_tok (ts @ rest) = (if ts = [] then head_tok rest else fst (hd ts))"
  by (simp add: head_tok_def)

text \<open>Two parsers in a row: the first must accept what the second begins with.\<close>

lemma yields_bind:
  assumes p: "yields F p a x" and f: "yields G (f x) b y" and first: "b \<noteq> [] \<Longrightarrow> hd b \<in> F" and empty: "b = [] \<Longrightarrow> G \<subseteq> F"
  shows "yields G (pbind p f) (a @ b) y"
  unfolding yields_def
proof (intro allI impI)
  fix ts rest :: "spanned list"
  assume ts: "map fst ts = a @ b" and rest: "rest \<noteq> []" "head_tok rest \<in> G"
  then obtain u v where uv: "ts = u @ v" "map fst u = a" "map fst v = b" by (auto simp: map_eq_append_conv)
  have "head_tok (v @ rest) \<in> F"
    using uv(3) first empty rest(2) by (cases v) (auto simp: head_tok_def)
  then have "p (u @ (v @ rest)) = try_ok (x, v @ rest)" using yieldsD [OF p uv(2)] rest(1) by simp
  moreover have "f x (v @ rest) = try_ok (y, rest)" by (rule yieldsD [OF f uv(3) rest])
  ultimately show "pbind p f (ts @ rest) = try_ok (y, rest)" by (simp add: uv(1) pbind_def)
qed

lemma yields_peek: "yields G (f t) (t # toks) y \<Longrightarrow> yields G (pbind tpeek f) (t # toks) y"
  unfolding yields_def
proof (intro allI impI)
  fix ts rest :: "spanned list"
  assume f: "\<forall>ts rest. map fst ts = t # toks \<longrightarrow> rest \<noteq> [] \<longrightarrow> head_tok rest \<in> G \<longrightarrow> f t (ts @ rest) = try_ok (y, rest)"
    and ts: "map fst ts = t # toks" "rest \<noteq> []" "head_tok rest \<in> G"
  have "pbind tpeek f (ts @ rest) = f t (ts @ rest)" using ts(1) by (auto simp: pbind_def tpeek_def Cons_eq_map_conv)
  with f ts show "pbind tpeek f (ts @ rest) = try_ok (y, rest)" by simp
qed

lemma yields_peek_end: "(\<And>t. t \<in> G \<Longrightarrow> yields G (f t) [] y) \<Longrightarrow> yields G (pbind tpeek f) [] y"
  by (auto simp: yields_def pbind_def tpeek_def head_tok_def split: list.split)

lemma yields_advance: "yields G (f t) toks y \<Longrightarrow> yields G (pbind tadvance f) (t # toks) y"
  by (auto simp: yields_def pbind_def tadvance_def Cons_eq_map_conv)

lemma yields_expect: "yields G (f ()) toks y \<Longrightarrow> yields G (pbind (texpect t) f) (t # toks) y"
  by (auto simp: yields_def pbind_def texpect_def tpeek_def tadvance_def pret_def Cons_eq_map_conv)

lemma yields_ident: "yields G (f s) toks y \<Longrightarrow> yields G (pbind texpect_ident f) (TtIdent s # toks) y"
  by (auto simp: yields_def pbind_def texpect_ident_def tpeek_def tadvance_def pret_def Cons_eq_map_conv)

lemma yields_bounded: "(\<And>k. length toks < k \<Longrightarrow> yields F (p k) toks x) \<Longrightarrow> yields F (bounded p) toks x"
  by (force simp: yields_def bounded_def dest: arg_cong [where f = length])

lemma pbind_pret [simp]: "pbind (pret x) f = f x"
  by (simp add: fun_eq_iff pbind_def pret_def)

lemma yields_assoc: "yields G (pbind p (\<lambda>x. pbind (f x) g)) toks y \<Longrightarrow> yields G (pbind (pbind p f) g) toks y"
  by (simp add: yields_def pbind_def try_bind_assoc case_prod_unfold)

subsection \<open>The grammar\<close>

fun commas :: "token list list \<Rightarrow> token list" where
  "commas [] = []"
| "commas [a] = a"
| "commas (a # as) = a @ TtComma # commas as"

inductive spells_type :: "token list \<Rightarrow> ttype \<Rightarrow> bool" where
  type_name: "spells_type [TtIdent s] (TyNamed s)"
| type_generic: "list_all2 spells_type as args \<Longrightarrow> args \<noteq> [] \<Longrightarrow> spells_type (TtIdent s # TtLt # commas as @ [TtGt]) (TyGeneric s args)"
| type_result: "spells_type a t \<Longrightarrow> spells_type b u \<Longrightarrow> spells_type (KwResult # TtLt # a @ TtComma # b @ [TtGt]) (TyGeneric ''Result'' [t, u])"
| type_tuple: "list_all2 spells_type as elems \<Longrightarrow> 2 \<le> length elems \<Longrightarrow> spells_type (TtLParen # commas as @ [TtRParen]) (TyTuple elems)"
| type_array: "spells_type a t \<Longrightarrow> n < 2 ^ 64 \<Longrightarrow> spells_type (TtLSquare # a @ [TtSemicolon, TtInt (int n), TtRSquare]) (TyArray t n)"
| type_slice: "spells_type a t \<Longrightarrow> spells_type (TtLSquare # a @ [TtRSquare]) (TySlice t)"

inductive spells_pattern :: "token list \<Rightarrow> tpattern \<Rightarrow> bool" where
  pattern_int: "spells_pattern [TtInt n] (PatLiteral n)"
| pattern_minus: "ifits 64 (- n) \<Longrightarrow> spells_pattern [TtMinus, TtInt n] (PatLiteral (- n))"
| pattern_name: "spells_pattern [TtIdent s] (PatVar s)"
| pattern_constructor: "list_all2 spells_pattern as fs \<Longrightarrow> spells_pattern (TtIdent s # TtLParen # commas as @ [TtRParen]) (PatConstructor s fs)"
| pattern_any: "spells_pattern [TtUnderScore] PatWildcard"

text \<open>The levels of binding, from the tightest to the loosest.\<close>

datatype level = LvPrimary | LvPostfix | LvUnary | LvMul | LvAdd | LvCmp | LvAnd | LvOr | LvExpr

fun tighter :: "level \<Rightarrow> level" where
  "tighter LvMul = LvUnary" | "tighter LvAdd = LvMul" | "tighter LvCmp = LvAdd" | "tighter LvAnd = LvCmp" | "tighter LvOr = LvAnd"
| "tighter LvExpr = LvOr" | "tighter LvUnary = LvPostfix" | "tighter LvPostfix = LvPrimary" | "tighter LvPrimary = LvPrimary"

fun op_token :: "tbinop \<Rightarrow> token" where
  "op_token TAdd = TtPlus" | "op_token TSub = TtMinus" | "op_token TMul = TtStar" | "op_token TDiv = TtSlash"
| "op_token TEq = TtEqEq" | "op_token TNe = TtNe" | "op_token TLt = TtLt" | "op_token TLe = TtLe"
| "op_token TGt = TtGt" | "op_token TGe = TtGe" | "op_token TAnd = TtAnd" | "op_token TOr = TtOr"

fun op_level :: "tbinop \<Rightarrow> level" where
  "op_level TMul = LvMul" | "op_level TDiv = LvMul" | "op_level TAdd = LvAdd" | "op_level TSub = LvAdd"
| "op_level TAnd = LvAnd" | "op_level TOr = LvOr" | "op_level _ = LvCmp"

text \<open>A name takes a field that follows it, and the name of an aggregate takes its arguments.\<close>

definition after_primary :: "token list \<Rightarrow> token set" where
  "after_primary a = {t. \<forall>s. a = [TtIdent s] \<longrightarrow> t \<noteq> TtDot \<and> (t = TtLParen \<longrightarrow> aggregate_op_of s = None)}"

text \<open>
  \<open>operands\<close> and \<open>suffixes\<close> are the repetitions of the grammar: the tree of what is already read, the tokens that go on, and the tree of
  the whole, so that operators of one level associate to the left.
\<close>

inductive spells :: "level \<Rightarrow> token list \<Rightarrow> texpr \<Rightarrow> bool"
  and operands :: "level \<Rightarrow> texpr \<Rightarrow> token list \<Rightarrow> texpr \<Rightarrow> bool"
  and suffixes :: "texpr \<Rightarrow> token list \<Rightarrow> texpr \<Rightarrow> bool"
  and spells_arms :: "token list \<Rightarrow> (tpattern \<times> texpr) list \<Rightarrow> bool"
where
  int_lit: "spells LvPrimary [TtInt n] (TInt n)"
| name: "spells LvPrimary [TtIdent s] (TVar s)"
| field: "spells LvPrimary [TtIdent b, TtDot, TtIdent f] (TField b f)"
| result: "spells LvPrimary [KwResult] (TVar ''Result'')"
| paren: "spells LvExpr a e \<Longrightarrow> spells LvPrimary (TtLParen # a @ [TtRParen]) e"
| old: "spells LvExpr a e \<Longrightarrow> spells LvPrimary (KwOld # TtLParen # a @ [TtRParen]) (TOld e)"
| ok: "spells LvExpr a e \<Longrightarrow> spells LvPrimary (KwOk # TtLParen # a @ [TtRParen]) (TCall ''Ok'' [e])"
| err: "spells LvExpr a e \<Longrightarrow> spells LvPrimary (KwErr # TtLParen # a @ [TtRParen]) (TCall ''Err'' [e])"
| if_else: "spells LvExpr a c \<Longrightarrow> spells LvExpr b x \<Longrightarrow> spells LvExpr d y \<Longrightarrow>
    spells LvPrimary (KwIf # a @ TtLBrace # b @ TtRBrace # KwElse # TtLBrace # d @ [TtRBrace]) (TIf c x y)"
| matching: "spells LvExpr a s \<Longrightarrow> spells_arms b arms \<Longrightarrow> spells LvPrimary (KwMatch # a @ TtLBrace # b @ [TtRBrace]) (TMatch s arms)"
| for_all: "spells_type a ty \<Longrightarrow> spells LvExpr b x \<Longrightarrow>
    spells LvPrimary (KwForall # TtIdent v # TtColon # a @ TtLBrace # b @ [TtRBrace]) (TForall v ty None x)"
| for_all_in: "spells_type a ty \<Longrightarrow> spells LvExpr c d \<Longrightarrow> spells LvExpr b x \<Longrightarrow>
    spells LvPrimary (KwForall # TtIdent v # TtColon # a @ KwIn # c @ TtLBrace # b @ [TtRBrace]) (TForall v ty (Some d) x)"
| aggregate: "list_all2 (spells LvExpr) as args \<Longrightarrow> spells LvPrimary (TtIdent (op_name op) # TtLParen # commas as @ [TtRParen]) (TAggregate op args)"
| postfix: "spells LvPrimary a x \<Longrightarrow> suffixes x b e \<Longrightarrow> b = [] \<or> hd b \<in> after_primary a \<Longrightarrow> spells LvPostfix (a @ b) e"
| unary: "spells LvPostfix a e \<Longrightarrow> spells LvUnary (replicate k TtMinus @ a) ((TUnary TNeg ^^ k) e)"
| binary: "L \<in> {LvMul, LvAdd, LvAnd, LvOr} \<Longrightarrow> spells (tighter L) a x \<Longrightarrow> operands L x b e \<Longrightarrow> spells L (a @ b) e"
| no_comparison: "spells LvAdd a e \<Longrightarrow> spells LvCmp a e"
| comparison: "spells LvAdd a l \<Longrightarrow> spells LvAdd b r \<Longrightarrow> op_level op = LvCmp \<Longrightarrow> spells LvCmp (a @ op_token op # b) (TBin op l r)"
| no_range: "spells LvOr a e \<Longrightarrow> spells LvExpr a e"
| range: "spells LvPrimary a x \<Longrightarrow> suffixes x b lo \<Longrightarrow> b = [] \<or> hd b \<in> after_primary a \<Longrightarrow> spells LvExpr c hi \<Longrightarrow>
    spells LvExpr (a @ b @ TtDotDot # c) (TRange lo hi)"
| no_operand: "operands L e [] e"
| operand: "op_level op = L \<Longrightarrow> spells (tighter L) a r \<Longrightarrow> operands L (TBin op l r) b e \<Longrightarrow> operands L l (op_token op # a @ b) e"
| no_suffix: "suffixes e [] e"
| question: "suffixes (TTry x) b e \<Longrightarrow> suffixes x (TtQuestion # b) e"
| index: "spells LvExpr a i \<Longrightarrow> suffixes (TIndex x i) b e \<Longrightarrow> suffixes x (TtLSquare # a @ TtRSquare # b) e"
| call: "list_all2 (spells LvExpr) as args \<Longrightarrow> suffixes (TCall f args) b e \<Longrightarrow> suffixes (TVar f) (TtLParen # commas as @ TtRParen # b) e"
| method_call: "list_all2 (spells LvExpr) as args \<Longrightarrow> suffixes (TMethodCall (TVar r) m args) b e \<Longrightarrow>
    suffixes (TField r m) (TtLParen # commas as @ TtRParen # b) e"
| name_field: "suffixes (TField x f) b e \<Longrightarrow> suffixes (TVar x) (TtDot # TtIdent f # b) e"
| bare_method: "(\<And>v. x \<noteq> TVar v) \<Longrightarrow> suffixes (TMethodCall x f []) b e \<Longrightarrow> suffixes x (TtDot # TtIdent f # b) e"
| no_arm: "spells_arms [] []"
| arm_comma: "spells_pattern a p \<Longrightarrow> spells LvExpr b e \<Longrightarrow> spells_arms c arms \<Longrightarrow> spells_arms (a @ TtFatArrow # b @ TtComma # c) ((p, e) # arms)"
| arm: "spells_pattern a p \<Longrightarrow> spells LvExpr b e \<Longrightarrow> spells_arms c arms \<Longrightarrow> c = [] \<or> hd c \<noteq> TtMinus \<Longrightarrow>
    spells_arms (a @ TtFatArrow # b @ c) ((p, e) # arms)"

subsection \<open>Lists of phrases\<close>

lemma commas_length: "length as \<le> Suc (length (commas as))"
  by (induction as rule: commas.induct) auto

lemma commas_element: "a \<in> set as \<Longrightarrow> length a \<le> length (commas as)"
  by (induction as rule: commas.induct) auto

lemma commas_hd: "as \<noteq> [] \<Longrightarrow> hd as \<noteq> [] \<Longrightarrow> commas as \<noteq> [] \<and> hd (commas as) = hd (hd as)"
  by (cases as rule: commas.cases) auto

text \<open>The lists of phrases a derivation holds for are no longer than their texts.\<close>

lemma phrases_shorter:
  "list_all2 (\<lambda>a x. Q a x \<and> (\<forall>n. length a < n \<longrightarrow> P n a x)) as xs \<Longrightarrow> length (commas as) < n \<Longrightarrow> list_all2 (P n) as xs"
  by (erule list.rel_mono_strong) (meson commas_element le_less_trans)

lemma sep_loop_yields:
  assumes "TtComma \<in> F" and "G \<subseteq> F - {TtComma}"
  shows "as \<noteq> [] \<Longrightarrow> list_all2 (yields F item) as xs \<Longrightarrow> length as \<le> k \<Longrightarrow> yields G (sep_loop item k) (commas as) xs"
proof (induction as arbitrary: k xs)
  case (Cons a as)
  from Cons.prems(3) obtain k' where k: "k = Suc k'" by (cases k) auto
  from Cons.prems(2) obtain x ys where xs: "xs = x # ys" and x: "yields F item a x" and ys: "list_all2 (yields F item) as ys"
    by (auto simp: list_all2_Cons1)
  show ?case
  proof (cases as)
    case Nil
    have "yields G (pbind item (\<lambda>x. pbind tpeek (\<lambda>t.
        if t = TtComma then pbind tadvance (\<lambda>_. pbind (sep_loop item k') (\<lambda>xs. pret (x # xs))) else pret [x]))) (a @ []) [x]"
      using assms(2) by (intro yields_bind [OF x] yields_peek_end) (auto intro: yields_ret)
    with Nil ys show ?thesis by (simp add: k xs)
  next
    case (Cons z zs)
    have "yields G (sep_loop item k') (commas as) ys" using Cons.IH [OF _ ys] Cons.prems(3) Cons k by auto
    then have "yields G (pbind (sep_loop item k') (\<lambda>xs. pret (x # xs))) (commas as @ []) (x # ys)"
      by (rule yields_bind) (auto intro: yields_ret)
    then have "yields G (pbind item (\<lambda>x. pbind tpeek (\<lambda>t.
        if t = TtComma then pbind tadvance (\<lambda>_. pbind (sep_loop item k') (\<lambda>xs. pret (x # xs))) else pret [x])))
        (a @ TtComma # commas as) (x # ys)"
      using assms(1) by (intro yields_bind [OF x] yields_peek) (simp_all add: yields_advance)
    with Cons show ?thesis by (simp add: k xs)
  qed
qed simp

lemma sep_items_yields:
  assumes "TtComma \<in> F" and "c \<in> F" and "c \<noteq> TtComma" and "as \<noteq> []" and "list_all2 (yields F item) as xs" and "yields G (f xs) (c # b) y"
  shows "yields G (pbind (bounded (sep_loop item)) f) (commas as @ c # b) y"
proof -
  have "yields {c} (bounded (sep_loop item)) (commas as) xs"
    using assms commas_length [of as] by (intro yields_bounded sep_loop_yields [of F]) auto
  then show ?thesis using assms(6) by (rule yields_bind) auto
qed

lemma maybe_items_yields:
  assumes "TtComma \<in> F" and "close \<in> F" and "close \<noteq> TtComma"
    and "list_all2 (\<lambda>a x. yields F item a x \<and> a \<noteq> [] \<and> hd a \<noteq> close) as xs" and f: "yields G (f xs) b y"
  shows "yields G (pbind (maybe_items close item) f) (commas as @ close # b) y"
proof -
  have items: "list_all2 (yields F item) as xs" using assms(4) by (auto elim: list.rel_mono_strong)
  have "yields UNIV (maybe_items close item) (commas as @ [close]) xs"
  proof (cases "as = []")
    case True
    then show ?thesis using items
      unfolding maybe_items_def by simp (rule yields_peek, simp, rule yields_expect, rule yields_ret)
  next
    case False
    have "hd as \<noteq> [] \<and> hd (hd as) \<noteq> close" using False assms(4) by (cases as) (auto simp: list_all2_Cons1)
    then obtain t ts where hd: "commas as = t # ts" "t \<noteq> close" using commas_hd [OF False] by (cases "commas as") auto
    have "yields UNIV (pbind (bounded (sep_loop item)) (\<lambda>xs. pbind (texpect close) (\<lambda>_. pret xs))) (commas as @ [close]) xs"
      by (rule sep_items_yields [OF assms(1-3) False items]) (rule yields_expect, rule yields_ret)
    with hd show ?thesis unfolding maybe_items_def by (auto intro!: yields_peek)
  qed
  from yields_bind [of UNIV _ "commas as @ [close]", OF this, of G f b y] f show ?thesis by simp
qed

lemmas yields_steps = yields_peek yields_advance yields_expect yields_ident yields_ret yields_assoc

subsection \<open>Types and patterns\<close>

lemma type_loop_Suc: "type_loop (Suc n) = type_step (type_loop n)"
  by (simp add: fun_eq_iff)

lemma pattern_loop_Suc: "pattern_loop (Suc n) = pattern_step (pattern_loop n)"
  by (simp add: fun_eq_iff)

lemma less_SucE': "k < n \<Longrightarrow> (\<And>m. n = Suc m \<Longrightarrow> k \<le> m \<Longrightarrow> P) \<Longrightarrow> P"
  by (cases n) auto

lemma type_yields: "spells_type a t \<Longrightarrow> \<forall>n. length a < n \<longrightarrow> yields (- {TtLt}) (type_loop n) a t"
proof (induction rule: spells_type.induct)
  case (type_name s)
  show ?case
  proof (intro allI impI, erule less_SucE')
    fix n m
    assume n: "n = Suc m"
    show "yields (- {TtLt}) (type_loop n) [TtIdent s] (TyNamed s)" unfolding n type_loop_Suc type_step_def
      by (intro yields_peek) (simp, intro yields_advance yields_peek_end, auto intro: yields_ret)
  qed
next
  case (type_generic as args s)
  show ?case
  proof (intro allI impI, erule less_SucE')
    fix n m
    assume n: "n = Suc m" and len: "length (TtIdent s # TtLt # commas as @ [TtGt]) \<le> m"
    have "list_all2 (yields (- {TtLt}) (type_loop m)) as args"
      by (rule phrases_shorter [OF type_generic(1)]) (use len in simp)
    moreover have "as \<noteq> []" using type_generic(1,2) by auto
    ultimately have "yields (- {TtLt}) (pbind (bounded (sep_loop (type_loop m))) (\<lambda>args. pbind (texpect TtGt) (\<lambda>_. pret (TyGeneric s args))))
        (commas as @ TtGt # []) (TyGeneric s args)"
      by (intro sep_items_yields [where F = "- {TtLt}"] yields_expect) (auto intro: yields_ret)
    then show "yields (- {TtLt}) (type_loop n) (TtIdent s # TtLt # commas as @ [TtGt]) (TyGeneric s args)"
      unfolding n type_loop_Suc type_step_def by (intro yields_peek) (simp, intro yields_advance yields_peek, simp, intro yields_advance)
  qed
next
  case (type_result a t b u)
  show ?case
  proof (intro allI impI, erule less_SucE')
    fix n m
    assume n: "n = Suc m" and len: "length (KwResult # TtLt # a @ TtComma # b @ [TtGt]) \<le> m"
    have ab: "yields (- {TtLt}) (type_loop m) a t" "yields (- {TtLt}) (type_loop m) b u" using type_result.IH len by auto
    show "yields (- {TtLt}) (type_loop n) (KwResult # TtLt # a @ TtComma # b @ [TtGt]) (TyGeneric ''Result'' [t, u])"
      unfolding n type_loop_Suc type_step_def
      by (intro yields_peek) (simp, intro yields_advance yields_expect yields_bind [OF ab(1)] yields_bind [OF ab(2)] yields_ret, simp_all)
  qed
next
  case (type_tuple as elems)
  show ?case
  proof (intro allI impI, erule less_SucE')
    fix n m
    assume n: "n = Suc m" and len: "length (TtLParen # commas as @ [TtRParen]) \<le> m"
    have all: "list_all2 (yields (- {TtLt}) (type_loop m)) as elems"
      by (rule phrases_shorter [OF type_tuple(1)]) (use len in simp)
    obtain u v w where e: "elems = u # v # w" using type_tuple(2) by (cases elems; cases "tl elems") auto
    then have "as \<noteq> []" using all by auto
    have "yields (- {TtLt}) (pbind (bounded (sep_loop (type_loop m))) (\<lambda>elems. pbind (texpect TtRParen) (\<lambda>_.
         pret (case elems of [e] \<Rightarrow> e | _ \<Rightarrow> TyTuple elems)))) (commas as @ TtRParen # []) (TyTuple elems)"
      by (intro sep_items_yields [OF _ _ _ \<open>as \<noteq> []\<close> all] yields_expect) (auto simp: e intro: yields_ret)
    then show "yields (- {TtLt}) (type_loop n) (TtLParen # commas as @ [TtRParen]) (TyTuple elems)"
      unfolding n type_loop_Suc type_step_def by (intro yields_peek) (simp, intro yields_advance)
  qed
next
  case (type_array a t k)
  have k: "nat (int k mod 18446744073709551616) = k" using type_array by (simp add: nat_eq_iff)
  show ?case
  proof (intro allI impI, erule less_SucE')
    fix n m
    assume n: "n = Suc m" and len: "length (TtLSquare # a @ [TtSemicolon, TtInt (int k), TtRSquare]) \<le> m"
    have t: "yields (- {TtLt}) (type_loop m) a t" using type_array.IH len by auto
    show "yields (- {TtLt}) (type_loop n) (TtLSquare # a @ [TtSemicolon, TtInt (int k), TtRSquare]) (TyArray t k)"
      unfolding n type_loop_Suc type_step_def
      by (intro yields_peek) (simp, intro yields_advance yields_bind [OF t], (rule yields_steps | simp add: k)+)
  qed
next
  case (type_slice a t)
  show ?case
  proof (intro allI impI, erule less_SucE')
    fix n m
    assume n: "n = Suc m" and len: "length (TtLSquare # a @ [TtRSquare]) \<le> m"
    have t: "yields (- {TtLt}) (type_loop m) a t" using type_slice.IH len by auto
    show "yields (- {TtLt}) (type_loop n) (TtLSquare # a @ [TtRSquare]) (TySlice t)"
      unfolding n type_loop_Suc type_step_def
      by (intro yields_peek) (simp, intro yields_advance yields_bind [OF t], (rule yields_steps | simp)+)
  qed
qed

lemma pattern_start: "spells_pattern a p \<Longrightarrow> a \<noteq> [] \<and> hd a \<in> {TtMinus, TtUnderScore} \<union> range TtInt \<union> range TtIdent"
  by (cases rule: spells_pattern.cases) auto

lemma pattern_yields: "spells_pattern a p \<Longrightarrow> \<forall>n. length a < n \<longrightarrow> yields (- {TtLParen}) (pattern_loop n) a p"
proof (induction rule: spells_pattern.induct)
  case (pattern_minus v)
  have neg: "yields (- {TtLParen}) (\<lambda>ts. try_lift (map_option (\<lambda>v. (PatLiteral v, ts)) (ichecked_neg 64 v))) [] (PatLiteral (- v))"
    using pattern_minus by (simp add: yields_def ichecked_neg_def ichecked_def)
  show ?case
  proof (intro allI impI, erule less_SucE')
    fix n m
    assume n: "n = Suc m"
    show "yields (- {TtLParen}) (pattern_loop n) [TtMinus, TtInt v] (PatLiteral (- v))"
      unfolding n pattern_loop_Suc pattern_step_def by (rule yields_steps neg | simp)+
  qed
next
  case (pattern_constructor as fs s)
  show ?case
  proof (intro allI impI, erule less_SucE')
    fix n m
    assume n: "n = Suc m" and len: "length (TtIdent s # TtLParen # commas as @ [TtRParen]) \<le> m"
    have "list_all2 (\<lambda>a p. yields (- {TtLParen}) (pattern_loop m) a p) as fs"
      by (rule phrases_shorter [OF pattern_constructor(1)]) (use len in simp)
    with pattern_constructor(1) have "list_all2 (\<lambda>a p. yields (- {TtLParen}) (pattern_loop m) a p \<and> a \<noteq> [] \<and> hd a \<noteq> TtRParen) as fs"
      using pattern_start by (fastforce simp: list_all2_conv_all_nth)
    then have "yields (- {TtLParen}) (pbind (maybe_items TtRParen (pattern_loop m)) (\<lambda>fs. pret (PatConstructor s fs)))
        (commas as @ TtRParen # []) (PatConstructor s fs)"
      by (intro maybe_items_yields [where F = "- {TtLParen}"]) (auto intro: yields_ret)
    then show "yields (- {TtLParen}) (pattern_loop n) (TtIdent s # TtLParen # commas as @ [TtRParen]) (PatConstructor s fs)"
      unfolding n pattern_loop_Suc pattern_step_def by (intro yields_peek) (simp, intro yields_advance yields_peek, simp, intro yields_advance)
  qed
next
  case (pattern_name s)
  show ?case
  proof (intro allI impI, erule less_SucE')
    fix n m
    assume n: "n = Suc m"
    show "yields (- {TtLParen}) (pattern_loop n) [TtIdent s] (PatVar s)" unfolding n pattern_loop_Suc pattern_step_def
      by (intro yields_peek) (simp, intro yields_advance yields_peek_end, auto intro: yields_ret)
  qed
qed (auto elim!: less_SucE' simp del: pattern_loop.simps simp: pattern_loop_Suc pattern_step_def intro!: yields_peek yields_advance yields_ret)

lemma tparse_type_yields: "spells_type a t \<Longrightarrow> yields (- {TtLt}) tparse_type a t"
  unfolding tparse_type_def by (rule yields_bounded) (simp add: type_yields)

lemma tparse_pattern_yields: "spells_pattern a p \<Longrightarrow> yields (- {TtLParen}) tparse_pattern a p"
  unfolding tparse_pattern_def by (rule yields_bounded) (simp add: pattern_yields)

subsection \<open>The levels of the grammar\<close>

text \<open>The tokens at which each level stops.\<close>

definition post_free :: "token set" where
  "post_free = - {TtLParen, TtDot, TtLSquare, TtQuestion, TtDotDot}"

definition mul_free :: "token set" where
  "mul_free = post_free \<inter> {t. mul_op t = None}"

definition add_free :: "token set" where
  "add_free = mul_free \<inter> {t. add_op t = None}"

definition cmp_free :: "token set" where
  "cmp_free = add_free \<inter> {t. relation_op t = None}"

definition and_free :: "token set" where
  "and_free = cmp_free \<inter> {t. and_op t = None}"

definition stops :: "token set" where
  "stops = and_free \<inter> {t. or_op t = None}"

lemmas free_defs = stops_def and_free_def cmp_free_def add_free_def mul_free_def post_free_def
lemmas op_defs = mul_op_def add_op_def relation_op_def and_op_def or_op_def

lemma stops_simps [simp]: "TtRParen \<in> stops" "TtComma \<in> stops" "TtRSquare \<in> stops" "TtLBrace \<in> stops" "TtRBrace \<in> stops"
  by (simp_all add: free_defs op_defs)

lemma operators_free [simp]:
  "TtStar \<in> post_free" "TtSlash \<in> post_free" "TtPlus \<in> mul_free" "TtMinus \<in> mul_free" "TtAnd \<in> cmp_free" "TtOr \<in> and_free"
  "TtEqEq \<in> add_free" "TtNe \<in> add_free" "TtLt \<in> add_free" "TtLe \<in> add_free" "TtGt \<in> add_free" "TtGe \<in> add_free"
  by (simp_all add: free_defs op_defs)

lemma postfix_end: "e = e' \<Longrightarrow> yields post_free (postfix_loop pe (Suc k) e) [] e'"
  unfolding postfix_loop.simps by (rule yields_peek_end) (auto simp: post_free_def intro: yields_ret split: token.split)

lemma binary_end: "yields (F \<inter> {t. ops t = None}) (binary_loop ops operand (Suc k) e) [] e"
  unfolding binary_loop.simps by (rule yields_peek_end) (auto intro: yields_ret)

lemma binary_loop_yields:
  assumes "yields F operand a r" and "yields (F \<inter> {t. ops t = None}) (binary_loop ops operand k (TBin op l r)) b e"
    and "ops t = Some op" and "b \<noteq> [] \<Longrightarrow> hd b \<in> F"
  shows "yields (F \<inter> {t. ops t = None}) (binary_loop ops operand (Suc k) l) (t # a @ b) e"
proof -
  have "yields (F \<inter> {t. ops t = None}) (pbind operand (\<lambda>rhs. binary_loop ops operand k (TBin op l rhs))) (a @ b) e"
    using assms by (intro yields_bind [OF assms(1)]) auto
  then show ?thesis
    unfolding binary_loop.simps(2) by (intro yields_peek) (simp del: binary_loop.simps add: assms(3) yields_advance)
qed

lemma binary_level_yields:
  assumes "yields F operand a x" and "\<And>k. length b < k \<Longrightarrow> yields (F \<inter> {t. ops t = None}) (binary_loop ops operand k x) b e"
    and "b \<noteq> [] \<Longrightarrow> hd b \<in> F"
  shows "yields (F \<inter> {t. ops t = None}) (binary_level ops operand) (a @ b) e"
  unfolding binary_level_def using assms(3) by (intro yields_bind [OF assms(1)] yields_bounded assms(2)) auto

lemma cmp_single:
  assumes "yields add_free (parse_add pe) toks e"
  shows "yields cmp_free (parse_cmp pe) toks e"
proof -
  have "yields cmp_free (parse_cmp pe) (toks @ []) e"
    unfolding parse_cmp_eq by (intro yields_bind [OF assms] yields_peek_end) (auto simp: cmp_free_def intro: yields_ret)
  then show ?thesis by simp
qed

lemma cmp_pair:
  assumes l: "yields add_free (parse_add pe) a l" and r: "yields add_free (parse_add pe) b r" and op: "relation_op t = Some op" "t \<in> add_free"
  shows "yields cmp_free (parse_cmp pe) (a @ t # b) (TBin op l r)"
proof -
  have "yields cmp_free (pbind (parse_add pe) (\<lambda>rhs. pret (TBin op l rhs))) (b @ []) (TBin op l r)"
    using r by (rule yields_bind) (auto simp: cmp_free_def intro: yields_ret)
  then show ?thesis
    unfolding parse_cmp_eq using op by (intro yields_bind [OF l] yields_peek) (simp_all add: yields_advance)
qed

lemma unary_loop_yields:
  assumes "yields F (parse_postfix pe) toks e" and "toks \<noteq> []" and "hd toks \<noteq> TtMinus"
  shows "k < n \<Longrightarrow> yields F (unary_loop pe n) (replicate k TtMinus @ toks) ((TUnary TNeg ^^ k) e)"
proof (induction k arbitrary: n)
  case 0
  then obtain m where "n = Suc m" by (cases n) auto
  then show ?case using assms by (cases toks) (auto intro!: yields_peek)
next
  case (Suc k)
  then obtain m where n: "n = Suc m" "k < m" by (cases n) auto
  have "yields F (pbind (unary_loop pe m) (\<lambda>e. pret (TUnary TNeg e))) ((replicate k TtMinus @ toks) @ []) ((TUnary TNeg ^^ Suc k) e)"
    using Suc.IH [OF n(2)] by (rule yields_bind) (auto intro: yields_ret)
  then show ?case unfolding n unary_loop.simps(2) by (simp del: unary_loop.simps, intro yields_peek) (simp del: unary_loop.simps add: yields_advance)
qed

subsection \<open>Primary expressions and what follows them\<close>

lemma nested_yields:
  assumes "yields stops pe toks e" and "t \<in> stops" and "yields G (f e) (t # b) y"
  shows "yields G (pbind pe f) (toks @ t # b) y"
  using assms(2) by (intro yields_bind [OF assms(1)] assms(3)) auto

lemma paren_primary:
  assumes "yields stops pe toks e"
  shows "yields G (tparse_primary pe) (TtLParen # toks @ [TtRParen]) e"
  unfolding tparse_primary_eq
  by (intro yields_peek) (simp, intro yields_advance nested_yields [OF assms] yields_expect yields_ret, simp)

lemma in_parens_yields:
  assumes "yields stops pe toks e" and "yields G (f e) b y"
  shows "yields G (pbind (in_parens pe) f) (TtLParen # toks @ TtRParen # b) y"
  unfolding in_parens_def by (intro yields_assoc yields_expect nested_yields [OF assms(1)]) (simp_all add: assms(2))

lemma name_primary: "yields G (parse_name pe s) toks e \<Longrightarrow> yields G (tparse_primary pe) (TtIdent s # toks) e"
  unfolding tparse_primary_eq by (intro yields_peek) (simp add: yields_advance)

lemma single_primary:
  "yields G (tparse_primary pe) [TtInt n] (TInt n)" "yields G (tparse_primary pe) [KwResult] (TVar ''Result'')"
  unfolding tparse_primary_eq by (intro yields_peek, simp, intro yields_advance yields_ret)+

lemma var_primary: "yields (after_primary [TtIdent s]) (tparse_primary pe) [TtIdent s] (TVar s)"
proof (intro name_primary)
  show "yields (after_primary [TtIdent s]) (parse_name pe s) [] (TVar s)"
    unfolding parse_name_def by (rule yields_peek_end) (auto simp: after_primary_def intro: yields_ret split: option.split)
qed

lemma field_primary: "yields G (tparse_primary pe) [TtIdent b, TtDot, TtIdent f] (TField b f)"
  by (intro name_primary)
    (auto simp: parse_name_def intro!: yields_peek yields_advance yields_ident yields_ret split: option.split)

lemma wrapped_primary:
  assumes "yields stops pe toks e"
  shows "yields G (tparse_primary pe) (KwOld # TtLParen # toks @ [TtRParen]) (TOld e)"
    "yields G (tparse_primary pe) (KwOk # TtLParen # toks @ [TtRParen]) (TCall ''Ok'' [e])"
    "yields G (tparse_primary pe) (KwErr # TtLParen # toks @ [TtRParen]) (TCall ''Err'' [e])"
  unfolding tparse_primary_eq by (intro yields_peek, simp, intro yields_advance in_parens_yields [OF assms] yields_ret)+

lemma if_primary:
  assumes "yields stops pe a c" and "yields stops pe b x" and "yields stops pe d y"
  shows "yields G (tparse_primary pe) (KwIf # a @ TtLBrace # b @ TtRBrace # KwElse # TtLBrace # d @ [TtRBrace]) (TIf c x y)"
  unfolding tparse_primary_eq parse_if_expr_def
  by (intro yields_peek) (simp, intro yields_expect nested_yields [OF assms(1)] nested_yields [OF assms(2)] nested_yields [OF assms(3)] yields_ret, simp_all)

lemma aggregate_op_name: "aggregate_op_of (op_name op) = Some op"
  by (cases op) (simp_all add: aggregate_op_of_def)

text \<open>An argument in a list: read up to a stop, and not beginning like the end of the list.\<close>

definition reads_argument :: "texpr_parser \<Rightarrow> token list \<Rightarrow> texpr \<Rightarrow> bool" where
  "reads_argument pe a e \<longleftrightarrow> yields stops pe a e \<and> a \<noteq> [] \<and> hd a \<noteq> TtRParen"

lemma args_yields:
  assumes "list_all2 (reads_argument pe) as args" and "yields G (f args) b y"
  shows "yields G (pbind (maybe_items TtRParen pe) f) (commas as @ TtRParen # b) y"
  using assms by (intro maybe_items_yields [where F = stops]) (auto simp: reads_argument_def elim!: list.rel_mono_strong)

lemma aggregate_primary:
  assumes "list_all2 (reads_argument pe) as args"
  shows "yields G (tparse_primary pe) (TtIdent (op_name op) # TtLParen # commas as @ [TtRParen]) (TAggregate op args)"
  by (intro name_primary)
    (simp add: parse_name_def, intro yields_peek, simp add: aggregate_op_name, intro yields_expect args_yields [OF assms] yields_ret)

lemma forall_body:
  assumes "yields stops pe b x"
  shows "yields G (pbind (texpect TtLBrace) (\<lambda>_. pbind pe (\<lambda>body. pbind (texpect TtRBrace) (\<lambda>_. pret (TForall v ty d body)))))
    (TtLBrace # b @ [TtRBrace]) (TForall v ty d x)"
  by (intro yields_expect nested_yields [OF assms] yields_ret) simp_all

lemma forall_primary:
  assumes ty: "spells_type a ty" and b: "yields stops pe b x"
  shows "yields G (tparse_primary pe) (KwForall # TtIdent v # TtColon # a @ TtLBrace # b @ [TtRBrace]) (TForall v ty None x)"
  unfolding tparse_primary_eq parse_forall_expr_def
  by (intro yields_peek, simp, intro yields_expect yields_ident yields_bind [OF tparse_type_yields [OF ty]] yields_peek)
    (simp_all add: forall_body [OF b])

lemma forall_in_primary:
  assumes ty: "spells_type a ty" and d: "yields stops pe c d" and b: "yields stops pe b x"
  shows "yields G (tparse_primary pe) (KwForall # TtIdent v # TtColon # a @ KwIn # c @ TtLBrace # b @ [TtRBrace]) (TForall v ty (Some d) x)"
  unfolding tparse_primary_eq parse_forall_expr_def
  by (intro yields_peek, simp, intro yields_expect yields_ident yields_bind [OF tparse_type_yields [OF ty]] yields_peek)
    (auto intro!: yields_assoc yields_advance nested_yields [OF d] forall_body [OF b])

subsection \<open>Arms of a match\<close>

lemma arm_yields:
  assumes "spells_pattern a p" and e: "yields stops pe b e"
  shows "yields UNIV (expr_arm pe) (a @ TtFatArrow # b @ [TtComma]) (p, e)" (is ?comma)
    and "yields (stops - {TtComma}) (expr_arm pe) (a @ TtFatArrow # b) (p, e)" (is ?bare)
proof -
  have p: "yields (- {TtLParen}) tparse_pattern a p" by (rule tparse_pattern_yields [OF assms(1)])
  show ?comma
    unfolding expr_arm_eq
    by (intro yields_bind [OF p] yields_expect nested_yields [OF e])
      (auto simp: skip_one_def intro!: yields_assoc yields_peek yields_advance yields_ret)
  have "yields (stops - {TtComma}) (pbind (skip_one TtComma) (\<lambda>_. pret (p, e))) [] (p, e)"
    unfolding skip_one_def by (rule yields_assoc, rule yields_peek_end) (simp add: yields_ret)
  then have "yields (stops - {TtComma}) (pbind pe (\<lambda>e. pbind (skip_one TtComma) (\<lambda>_. pret (p, e)))) (b @ []) (p, e)"
    by (intro yields_bind [OF e]) auto
  then show ?bare
    unfolding expr_arm_eq by (intro yields_bind [OF p] yields_expect) auto
qed

lemma arms_end: "yields {TtRBrace} (until_loop TtRBrace item (Suc k)) [] []"
  by (auto intro!: yields_peek_end yields_ret)

lemma arms_cons:
  assumes "yields F item a x" and "a \<noteq> []" and "hd a \<noteq> TtRBrace" and "yields {TtRBrace} (until_loop TtRBrace item k) c xs"
    and "TtRBrace \<in> F" and "c \<noteq> [] \<Longrightarrow> hd c \<in> F"
  shows "yields {TtRBrace} (until_loop TtRBrace item (Suc k)) (a @ c) (x # xs)"
proof -
  have "yields {TtRBrace} (pbind (until_loop TtRBrace item k) (\<lambda>xs. pret (x # xs))) (c @ []) (x # xs)"
    using assms(4) by (rule yields_bind) (auto intro: yields_ret)
  then have "yields {TtRBrace} (pbind item (\<lambda>x. pbind (until_loop TtRBrace item k) (\<lambda>xs. pret (x # xs)))) (a @ c) (x # xs)"
    using assms(5,6) by (intro yields_bind [OF assms(1)]) auto
  with assms(2,3) show ?thesis by (cases a) (auto intro!: yields_peek)
qed

lemma match_primary:
  assumes s: "yields stops pe a s" and arms: "\<And>k. length b < k \<Longrightarrow> yields {TtRBrace} (until_loop TtRBrace (expr_arm pe) k) b arms"
  shows "yields G (tparse_primary pe) (KwMatch # a @ TtLBrace # b @ [TtRBrace]) (TMatch s arms)"
proof -
  have "yields {TtRBrace} (bounded (until_loop TtRBrace (expr_arm pe))) b arms" by (rule yields_bounded [OF arms])
  then have "yields G (pbind (bounded (until_loop TtRBrace (expr_arm pe))) (\<lambda>xs. pbind (texpect TtRBrace) (\<lambda>_. pret (TMatch s xs)))) (b @ [TtRBrace]) (TMatch s arms)"
    by (rule yields_bind) (auto intro: yields_expect yields_ret)
  then have "yields G (pbind (items_until TtRBrace (expr_arm pe)) (\<lambda>arms. pret (TMatch s arms))) (b @ [TtRBrace]) (TMatch s arms)"
    unfolding items_until_def by (simp add: yields_def pbind_def try_bind_assoc case_prod_unfold pret_def)
  then show ?thesis
    unfolding tparse_primary_eq parse_match_expr_def by (intro yields_peek) (simp, intro yields_expect nested_yields [OF s], simp_all)
qed

subsection \<open>Suffixes\<close>

lemma question_step: "yields G (postfix_loop pe k (TTry x)) c y \<Longrightarrow> yields G (postfix_loop pe (Suc k) x) (TtQuestion # c) y"
  unfolding postfix_loop.simps by (intro yields_peek) (simp add: yields_advance)

lemma field_step: "yields G (postfix_loop pe k (apply_field x f)) c y \<Longrightarrow> yields G (postfix_loop pe (Suc k) x) (TtDot # TtIdent f # c) y"
  unfolding postfix_loop.simps by (intro yields_peek) (simp add: yields_advance yields_ident)

lemma index_step:
  assumes "yields stops pe a i" and "yields G (postfix_loop pe k (TIndex x i)) c y"
  shows "yields G (postfix_loop pe (Suc k) x) (TtLSquare # a @ TtRSquare # c) y"
  unfolding postfix_loop.simps
  by (intro yields_peek) (simp, intro yields_advance nested_yields [OF assms(1)] yields_expect assms(2), simp)

lemma call_step:
  assumes "list_all2 (reads_argument pe) as args" and "apply_call x args = pret z" and "yields G (postfix_loop pe k z) c y"
  shows "yields G (postfix_loop pe (Suc k) x) (TtLParen # commas as @ TtRParen # c) y"
  unfolding postfix_loop.simps
  by (intro yields_peek) (simp, intro yields_advance args_yields [OF assms(1)], simp add: assms(2,3))

lemma stops_post: "stops \<subseteq> post_free"
  by (auto simp: free_defs)

lemma range_step:
  assumes "yields stops pe a hi"
  shows "yields stops (postfix_loop pe (Suc (Suc k)) x) (TtDotDot # a) (TRange x hi)"
proof -
  have "yields stops (pbind pe (\<lambda>hi. postfix_loop pe (Suc k) (TRange x hi))) (a @ []) (TRange x hi)"
    by (rule yields_bind [OF assms]) (simp_all del: postfix_loop.simps add: yields_weaken [OF postfix_end stops_post])
  then show ?thesis
    unfolding postfix_loop.simps(2) [of pe "Suc k"] by (intro yields_peek) (simp del: postfix_loop.simps add: yields_advance)
qed

lemma postfix_yields:
  assumes "yields F (tparse_primary pe) a x" and "\<And>k. length b < k \<Longrightarrow> yields G (postfix_loop pe k x) b e"
    and "b \<noteq> [] \<Longrightarrow> hd b \<in> F" and "b = [] \<Longrightarrow> G \<subseteq> F"
  shows "yields G (parse_postfix pe) (a @ b) e"
  unfolding parse_postfix_eq using assms(3,4) by (intro yields_bind [OF assms(1)] yields_bounded assms(2))

subsection \<open>Derivations are read\<close>

fun parser_at :: "level \<Rightarrow> texpr_parser \<Rightarrow> texpr_parser" where
  "parser_at LvPrimary pe = tparse_primary pe"
| "parser_at LvPostfix pe = parse_postfix pe"
| "parser_at LvUnary pe = parse_unary pe"
| "parser_at LvMul pe = parse_mul pe"
| "parser_at LvAdd pe = parse_add pe"
| "parser_at LvCmp pe = parse_cmp pe"
| "parser_at LvAnd pe = tparse_and pe"
| "parser_at LvOr pe = tparse_or pe"
| "parser_at LvExpr pe = pe"

fun follow :: "level \<Rightarrow> token list \<Rightarrow> token set" where
  "follow LvPrimary a = after_primary a"
| "follow LvMul a = mul_free"
| "follow LvAdd a = add_free"
| "follow LvCmp a = cmp_free"
| "follow LvAnd a = and_free"
| "follow LvOr a = stops"
| "follow LvExpr a = stops"
| "follow _ a = post_free"

fun ops_at :: "level \<Rightarrow> token \<Rightarrow> tbinop option" where
  "ops_at LvMul = mul_op"
| "ops_at LvAdd = add_op"
| "ops_at LvCmp = relation_op"
| "ops_at LvAnd = and_op"
| "ops_at LvOr = or_op"
| "ops_at _ = (\<lambda>_. None)"

lemma ops_at_token: "ops_at (op_level op) (op_token op) = Some op" "op_token op \<in> follow (tighter (op_level op)) a"
  by (cases op; simp add: op_defs free_defs)+

lemma post_after: "post_free \<subseteq> after_primary a"
  by (auto simp: post_free_def after_primary_def)

lemma binary_parser:
  assumes "L \<in> {LvMul, LvAdd, LvAnd, LvOr}"
  shows "parser_at L pe = binary_level (ops_at L) (parser_at (tighter L) pe)" "follow L a = follow (tighter L) c \<inter> {t. ops_at L t = None}"
  using assms by (auto simp: parse_mul_eq parse_add_eq tparse_and_eq tparse_or_eq stops_def and_free_def add_free_def mul_free_def)

lemma expr_loop_Suc: "expr_loop (Suc n) = tparse_or (expr_loop n)"
  by (simp add: fun_eq_iff)

lemma operands_start: "operands L x b e \<Longrightarrow> b \<noteq> [] \<Longrightarrow> hd b \<in> follow (tighter L) a"
  by (erule operands.cases) (auto intro: ops_at_token(2))

lemma suffixes_start: "suffixes x b e \<Longrightarrow> b \<noteq> [] \<Longrightarrow> hd b \<in> {TtQuestion, TtLSquare, TtLParen, TtDot}"
  by (erule suffixes.cases) auto

lemma arms_start:
  assumes "spells_arms c arms" and "c \<noteq> []"
  shows "hd c \<in> {TtMinus, TtUnderScore} \<union> range TtInt \<union> range TtIdent"
proof -
  obtain a p b where "spells_pattern a p" "c = a @ b" using assms by (cases rule: spells_arms.cases) auto
  then show ?thesis using pattern_start [of a p] by (simp add: hd_append)
qed

definition starts :: "level \<Rightarrow> token list \<Rightarrow> bool" where
  "starts L a \<longleftrightarrow> a \<noteq> [] \<and> hd a \<noteq> TtRParen \<and> (L \<in> {LvPrimary, LvPostfix} \<longrightarrow> hd a \<noteq> TtMinus)"

lemma spells_start:
  "spells L a e \<Longrightarrow> starts L a" "operands L x b e \<Longrightarrow> True" "suffixes x b e \<Longrightarrow> True" "spells_arms c arms \<Longrightarrow> True"
proof (induction rule: spells_operands_suffixes_spells_arms.inducts)
  case (unary a e k)
  then show ?case by (cases k) (auto simp: starts_def)
qed (auto simp: starts_def)

text \<open>
  What is shown of each derivation: the parser of its level, with enough rounds for what is nested in it, reads its tokens as its tree.
\<close>

definition read_as :: "level \<Rightarrow> token list \<Rightarrow> texpr \<Rightarrow> bool" where
  "read_as L a e \<longleftrightarrow> (\<forall>n. length a < (if L = LvExpr then n else Suc n) \<longrightarrow> yields (follow L a) (parser_at L (expr_loop n)) a e)"

definition reads_operands :: "level \<Rightarrow> texpr \<Rightarrow> token list \<Rightarrow> texpr \<Rightarrow> bool" where
  "reads_operands L x b e \<longleftrightarrow> (\<forall>n k. L \<in> {LvMul, LvAdd, LvAnd, LvOr} \<longrightarrow> length b \<le> n \<longrightarrow> length b < k \<longrightarrow>
     yields (follow L []) (binary_loop (ops_at L) (parser_at (tighter L) (expr_loop n)) k x) b e)"

definition reads_suffixes :: "texpr \<Rightarrow> token list \<Rightarrow> texpr \<Rightarrow> bool" where
  "reads_suffixes x b e \<longleftrightarrow> (\<forall>n k G c y. length b \<le> n \<longrightarrow> length b + length c < k \<longrightarrow>
     (\<forall>k. length c < k \<longrightarrow> yields G (postfix_loop (expr_loop n) k e) c y) \<longrightarrow> yields G (postfix_loop (expr_loop n) k x) (b @ c) y)"

definition reads_arms :: "token list \<Rightarrow> (tpattern \<times> texpr) list \<Rightarrow> bool" where
  "reads_arms c arms \<longleftrightarrow> (\<forall>n k. length c \<le> n \<longrightarrow> length c < k \<longrightarrow> yields {TtRBrace} (until_loop TtRBrace (expr_arm (expr_loop n)) k) c arms)"

lemma reads_nested: "read_as LvExpr a e \<Longrightarrow> length a < n \<Longrightarrow> yields stops (expr_loop n) a e"
  by (simp add: read_as_def)

lemma reads_arguments:
  assumes "list_all2 (\<lambda>a e. spells LvExpr a e \<and> read_as LvExpr a e) as args" and "length (commas as) < n"
  shows "list_all2 (reads_argument (expr_loop n)) as args"
proof -
  have "reads_argument (expr_loop n) a e" if "a \<in> set as" "spells LvExpr a e" "read_as LvExpr a e" for a e
    using spells_start(1) [OF that(2)] reads_nested [OF that(3)] commas_element [OF that(1)] assms(2)
    by (simp add: reads_argument_def starts_def)
  then show ?thesis using assms(1) by (auto elim!: list.rel_mono_strong)
qed

lemma reads_binary:
  assumes L: "L \<in> {LvMul, LvAdd, LvAnd, LvOr}" and "spells (tighter L) a x" "read_as (tighter L) a x" "operands L x b e" "reads_operands L x b e"
  shows "read_as L (a @ b) e"
proof -
  have "yields (follow L (a @ b)) (parser_at L (expr_loop n)) (a @ b) e" if n: "length (a @ b) \<le> n" for n
  proof -
    have "tighter L \<noteq> LvExpr" using L by auto
    then have "yields (follow (tighter L) a) (parser_at (tighter L) (expr_loop n)) a x" using assms(3) n by (simp add: read_as_def)
    moreover have "yields (follow (tighter L) a \<inter> {t. ops_at L t = None}) (binary_loop (ops_at L) (parser_at (tighter L) (expr_loop n)) k x) b e"
      if "length b < k" for k
      using assms(5) L n that by (simp only: reads_operands_def binary_parser(2) [OF L, of "[]" a]) simp
    ultimately show ?thesis
      unfolding binary_parser(1) [OF L] binary_parser(2) [OF L, of "a @ b" a]
      by (rule binary_level_yields) (use operands_start [OF assms(4)] in auto)
  qed
  moreover have "L \<noteq> LvExpr" using L by auto
  ultimately show ?thesis by (simp add: read_as_def less_Suc_eq_le)
qed

lemma reads_operand:
  assumes "op_level op = L" and "read_as (tighter L) a r" and "operands L (TBin op l r) b e" and "reads_operands L (TBin op l r) b e"
  shows "reads_operands L l (op_token op # a @ b) e"
  unfolding reads_operands_def
proof (intro allI impI)
  fix n k
  assume L: "L \<in> {LvMul, LvAdd, LvAnd, LvOr}" and n: "length (op_token op # a @ b) \<le> n" and k: "length (op_token op # a @ b) < k"
  obtain m where m: "k = Suc m" "length b < m" using k by (cases k) auto
  have "tighter L \<noteq> LvExpr" using L by auto
  then have a: "yields (follow (tighter L) a) (parser_at (tighter L) (expr_loop n)) a r" using assms(2) n by (simp add: read_as_def)
  have b: "yields (follow (tighter L) a \<inter> {t. ops_at L t = None}) (binary_loop (ops_at L) (parser_at (tighter L) (expr_loop n)) m (TBin op l r)) b e"
    using assms(4) L n m(2) by (simp only: reads_operands_def binary_parser(2) [OF L, of "[]" a]) simp
  show "yields (follow L []) (binary_loop (ops_at L) (parser_at (tighter L) (expr_loop n)) k l) (op_token op # a @ b) e"
    unfolding m(1) binary_parser(2) [OF L, of "[]" a]
    using ops_at_token(1) [of op] assms(1) operands_start [OF assms(3), of a] by (intro binary_loop_yields [OF a b]) auto
qed

lemma reads_postfix:
  assumes "read_as LvPrimary a x" and "suffixes x b e" and "reads_suffixes x b e" and "b = [] \<or> hd b \<in> after_primary a"
  shows "read_as LvPostfix (a @ b) e"
proof -
  have "yields post_free (parse_postfix (expr_loop n)) (a @ b) e" if n: "length (a @ b) \<le> n" for n
  proof (rule postfix_yields)
    show "yields (after_primary a) (tparse_primary (expr_loop n)) a x" using assms(1) n by (simp add: read_as_def)
    show "yields post_free (postfix_loop (expr_loop n) k x) b e" if "length b < k" for k
    proof -
      have "yields post_free (postfix_loop (expr_loop n) k e) [] e" if "0 < k" for k
        using that by (metis postfix_end gr0_conv_Suc)
      then show ?thesis
        using assms(3) n that unfolding reads_suffixes_def by (elim allE [of _ n] allE [of _ k] allE [of _ post_free] allE [of _ "[]"] allE [of _ e]) simp
    qed
  qed (use assms(4) post_after in auto)
  then show ?thesis by (simp add: read_as_def less_Suc_eq_le)
qed

lemma reads_unary:
  assumes "spells LvPostfix a e" and "read_as LvPostfix a e"
  shows "read_as LvUnary (replicate k TtMinus @ a) ((TUnary TNeg ^^ k) e)"
proof -
  have "yields post_free (parse_unary (expr_loop n)) (replicate k TtMinus @ a) ((TUnary TNeg ^^ k) e)" if "length a \<le> n" for n
  proof -
    have "yields post_free (parse_postfix (expr_loop n)) a e" using assms(2) that by (simp add: read_as_def)
    then show ?thesis
      unfolding parse_unary_eq using spells_start(1) [OF assms(1)] by (intro yields_bounded unary_loop_yields) (auto simp: starts_def)
  qed
  then show ?thesis by (simp add: read_as_def)
qed

lemma stops_free: "stops \<subseteq> {t. mul_op t = None}" "stops \<subseteq> {t. add_op t = None}" "stops \<subseteq> {t. relation_op t = None}"
  "stops \<subseteq> {t. and_op t = None}" "stops \<subseteq> {t. or_op t = None}"
  by (auto simp: stops_def and_free_def cmp_free_def add_free_def mul_free_def)

lemma level_stops:
  assumes "yields stops operand toks e" and "stops \<subseteq> {t. ops t = None}"
  shows "yields stops (binary_level ops operand) toks e"
proof -
  have "stops \<inter> {t. ops t = None} = stops" using assms(2) by auto
  with binary_level_yields [of stops operand toks e "[]" ops e] assms(1) binary_end [of stops ops operand _ e] show ?thesis
    by (simp del: binary_loop.simps) (metis gr0_conv_Suc)
qed

text \<open>A range ends only where the whole expression ends.\<close>

lemma range_yields:
  assumes p: "yields stops (parse_postfix pe) toks e" and start: "toks \<noteq> []" "hd toks \<noteq> TtMinus"
  shows "yields stops (tparse_or pe) toks e"
proof -
  have u: "yields stops (parse_unary pe) toks e"
    unfolding parse_unary_eq using unary_loop_yields [OF p start, of 0] by (intro yields_bounded) auto
  have ad: "yields stops (parse_add pe) toks e"
    unfolding parse_add_eq parse_mul_eq by (intro level_stops u stops_free)
  have "yields stops (parse_cmp pe) (toks @ []) e"
    unfolding parse_cmp_eq
  proof (intro yields_bind [OF ad] yields_peek_end)
    fix t
    assume "t \<in> stops"
    then have "relation_op t = None" using stops_free(3) by blast
    then show "yields stops (case relation_op t of None \<Rightarrow> pret e | Some op \<Rightarrow> pbind tadvance (\<lambda>_. pbind (parse_add pe) (\<lambda>rhs. pret (TBin op e rhs)))) [] e"
      by (simp add: yields_ret)
  qed auto
  then show ?thesis
    unfolding tparse_or_eq tparse_and_eq by (intro level_stops stops_free) simp
qed

lemma reads_range:
  assumes "spells LvPrimary a x" "read_as LvPrimary a x" and "reads_suffixes x b lo" and "b = [] \<or> hd b \<in> after_primary a" and "read_as LvExpr c hi"
  shows "read_as LvExpr (a @ b @ TtDotDot # c) (TRange lo hi)"
proof -
  have "yields stops (expr_loop n) (a @ b @ TtDotDot # c) (TRange lo hi)" if len: "length (a @ b @ TtDotDot # c) < n" for n
  proof -
    obtain m where n: "n = Suc m" and m: "length (a @ b @ TtDotDot # c) \<le> m" using len by (cases n) auto
    have c: "yields stops (expr_loop m) c hi" using assms(5) m by (simp add: read_as_def)
    have "yields stops (parse_postfix (expr_loop m)) (a @ b @ TtDotDot # c) (TRange lo hi)"
    proof (rule postfix_yields)
      show "yields (after_primary a) (tparse_primary (expr_loop m)) a x" using assms(2) m by (simp add: read_as_def)
      show "yields stops (postfix_loop (expr_loop m) k x) (b @ TtDotDot # c) (TRange lo hi)" if "length (b @ TtDotDot # c) < k" for k
      proof -
        have "yields stops (postfix_loop (expr_loop m) k lo) (TtDotDot # c) (TRange lo hi)" if "length (TtDotDot # c) < k" for k
        proof -
          from that obtain j where "k = Suc (Suc j)" by (cases k; cases "k - 1") auto
          with range_step [OF c, of j lo] show ?thesis by simp
        qed
        then show ?thesis using assms(3) m that unfolding reads_suffixes_def by simp
      qed
    qed (use assms(4) in \<open>auto simp: hd_append after_primary_def\<close>)
    from range_yields [OF this] spells_start(1) [OF assms(1)] show ?thesis
      by (simp add: n expr_loop_Suc starts_def del: expr_loop.simps)
  qed
  then show ?thesis by (simp add: read_as_def)
qed

lemma reads_comparison:
  assumes "read_as LvAdd a l" and "read_as LvAdd b r" and "op_level op = LvCmp"
  shows "read_as LvCmp (a @ op_token op # b) (TBin op l r)"
  using assms cmp_pair [of _ a l b r "op_token op" op] ops_at_token [of op] by (simp add: read_as_def)

lemma reads_expr: "read_as LvOr a e \<Longrightarrow> read_as LvExpr a e"
  by (auto simp: read_as_def expr_loop_Suc simp del: expr_loop.simps elim!: less_SucE')

text \<open>One more suffix: the rounds left after it are enough for the rest.\<close>

lemma reads_suffix:
  assumes "reads_suffixes z b e" and "\<And>n k G c y. length a \<le> n \<Longrightarrow> yields G (postfix_loop (expr_loop n) k z) c y \<Longrightarrow>
      yields G (postfix_loop (expr_loop n) (Suc k) x) (a @ c) y" and "a \<noteq> []"
  shows "reads_suffixes x (a @ b) e"
  unfolding reads_suffixes_def
proof (intro allI impI)
  fix n k G c y
  assume n: "length (a @ b) \<le> n" and k: "length (a @ b) + length c < k" and c: "\<forall>k. length c < k \<longrightarrow> yields G (postfix_loop (expr_loop n) k e) c y"
  from k assms(3) obtain m where m: "k = Suc m" "length b + length c < m" by (cases k; cases a) auto
  then have "yields G (postfix_loop (expr_loop n) m z) (b @ c) y" using assms(1) n c unfolding reads_suffixes_def by simp
  from assms(2) [OF _ this] n m(1) show "yields G (postfix_loop (expr_loop n) k x) ((a @ b) @ c) y" by simp
qed

lemma reads_call:
  assumes "list_all2 (\<lambda>a e. spells LvExpr a e \<and> read_as LvExpr a e) as args" and "apply_call x args = pret z" and "reads_suffixes z b e"
  shows "reads_suffixes x (TtLParen # commas as @ TtRParen # b) e"
proof -
  have "reads_suffixes x ((TtLParen # commas as @ [TtRParen]) @ b) e"
  proof (rule reads_suffix [OF assms(3)])
    fix n k G c y
    assume n: "length (TtLParen # commas as @ [TtRParen]) \<le> n" and c: "yields G (postfix_loop (expr_loop n) k z) c y"
    from call_step [OF reads_arguments [OF assms(1)] assms(2) c] n
    show "yields G (postfix_loop (expr_loop n) (Suc k) x) ((TtLParen # commas as @ [TtRParen]) @ c) y" by simp
  qed simp
  then show ?thesis by simp
qed

lemma reads_index:
  assumes "read_as LvExpr a i" and "reads_suffixes (TIndex x i) b e"
  shows "reads_suffixes x (TtLSquare # a @ TtRSquare # b) e"
proof -
  have "reads_suffixes x ((TtLSquare # a @ [TtRSquare]) @ b) e"
  proof (rule reads_suffix [OF assms(2)])
    fix n k G c y
    assume n: "length (TtLSquare # a @ [TtRSquare]) \<le> n" and c: "yields G (postfix_loop (expr_loop n) k (TIndex x i)) c y"
    from index_step [OF reads_nested [OF assms(1)] c] n
    show "yields G (postfix_loop (expr_loop n) (Suc k) x) ((TtLSquare # a @ [TtRSquare]) @ c) y" by simp
  qed simp
  then show ?thesis by simp
qed

lemma reads_question: "reads_suffixes (TTry x) b e \<Longrightarrow> reads_suffixes x (TtQuestion # b) e"
  using reads_suffix [of "TTry x" b e "[TtQuestion]" x] question_step by simp

lemma reads_field: "reads_suffixes (apply_field x f) b e \<Longrightarrow> reads_suffixes x (TtDot # TtIdent f # b) e"
  using reads_suffix [of "apply_field x f" b e "[TtDot, TtIdent f]" x] field_step by simp

lemma apply_simps [simp]:
  "apply_field (TVar y) f = TField y f" "(\<And>v. x \<noteq> TVar v) \<Longrightarrow> apply_field x f = TMethodCall x f []"
  "apply_call (TVar f) args = pret (TCall f args)" "apply_call (TField r m) args = pret (TMethodCall (TVar r) m args)"
  by (auto simp: apply_field_def apply_call_def split: texpr.split)

lemma reads_arm_comma:
  assumes "spells_pattern a p" and "read_as LvExpr b e" and "reads_arms c arms"
  shows "reads_arms (a @ TtFatArrow # b @ TtComma # c) ((p, e) # arms)"
  unfolding reads_arms_def
proof (intro allI impI)
  fix n k
  assume n: "length (a @ TtFatArrow # b @ TtComma # c) \<le> n" and k: "length (a @ TtFatArrow # b @ TtComma # c) < k"
  obtain m where m: "k = Suc m" "length c < m" using k by (cases k) auto
  have c: "yields {TtRBrace} (until_loop TtRBrace (expr_arm (expr_loop n)) m) c arms" using assms(3) n m(2) by (simp add: reads_arms_def)
  have b: "yields stops (expr_loop n) b e" using reads_nested [OF assms(2)] n by simp
  show "yields {TtRBrace} (until_loop TtRBrace (expr_arm (expr_loop n)) k) (a @ TtFatArrow # b @ TtComma # c) ((p, e) # arms)"
    using arms_cons [OF arm_yields(1) [OF assms(1) b] _ _ c] pattern_start [OF assms(1)] by (auto simp: m(1) hd_append simp del: until_loop.simps)
qed

lemma reads_arm:
  assumes "spells_pattern a p" and "read_as LvExpr b e" and "spells_arms c arms" "reads_arms c arms" and "c = [] \<or> hd c \<noteq> TtMinus"
  shows "reads_arms (a @ TtFatArrow # b @ c) ((p, e) # arms)"
  unfolding reads_arms_def
proof (intro allI impI)
  fix n k
  assume n: "length (a @ TtFatArrow # b @ c) \<le> n" and k: "length (a @ TtFatArrow # b @ c) < k"
  obtain m where m: "k = Suc m" "length c < m" using k by (cases k) auto
  have c: "yields {TtRBrace} (until_loop TtRBrace (expr_arm (expr_loop n)) m) c arms" using assms(4) n m(2) by (simp add: reads_arms_def)
  have b: "yields stops (expr_loop n) b e" using reads_nested [OF assms(2)] n by simp
  have "hd c \<in> stops - {TtComma}" if "c \<noteq> []"
    using arms_start [OF assms(3) that] assms(5) that by (auto simp: free_defs op_defs)
  then show "yields {TtRBrace} (until_loop TtRBrace (expr_arm (expr_loop n)) k) (a @ TtFatArrow # b @ c) ((p, e) # arms)"
    using arms_cons [OF arm_yields(2) [OF assms(1) b] _ _ c] pattern_start [OF assms(1)] by (auto simp: m(1) hd_append simp del: until_loop.simps)
qed

text \<open>Primary expressions: what is nested is read with one round less.\<close>

lemma reads_primary:
  "(\<And>n. length a \<le> n \<Longrightarrow> yields (after_primary a) (tparse_primary (expr_loop n)) a e) \<Longrightarrow> read_as LvPrimary a e"
  by (simp add: read_as_def)

lemma derivations_read:
  "spells L a e \<Longrightarrow> read_as L a e" "operands L x b e \<Longrightarrow> reads_operands L x b e"
  "suffixes x b e \<Longrightarrow> reads_suffixes x b e" "spells_arms c arms \<Longrightarrow> reads_arms c arms"
proof (induction rule: spells_operands_suffixes_spells_arms.inducts)
  case (matching a s b arms)
  show ?case
  proof (intro reads_primary match_primary)
    fix n k
    assume n: "length (KwMatch # a @ TtLBrace # b @ [TtRBrace]) \<le> n"
    show "yields stops (expr_loop n) a s" using reads_nested [OF matching.IH(1)] n by simp
    show "length b < k \<Longrightarrow> yields {TtRBrace} (until_loop TtRBrace (expr_arm (expr_loop n)) k) b arms"
      using matching.IH(2) n by (simp add: reads_arms_def)
  qed
next
  case (no_operand L e)
  have "yields (follow L []) (binary_loop (ops_at L) p k e) [] e" if "L \<in> {LvMul, LvAdd, LvAnd, LvOr}" "0 < k" for p k
    unfolding binary_parser(2) [OF that(1), of "[]" "[]"] using that(2) by (metis binary_end gr0_conv_Suc)
  then show ?case by (auto simp: reads_operands_def)
next
  case no_arm
  show ?case unfolding reads_arms_def by (metis arms_end gr0_conv_Suc list.size(3))
next
  case (aggregate as args op)
  then show ?case by (intro reads_primary aggregate_primary reads_arguments) auto
next
  case (no_comparison a e)
  then show ?case using cmp_single by (auto simp: read_as_def)
next
  case (no_suffix e)
  show ?case by (simp add: reads_suffixes_def)
qed (auto intro!: reads_primary single_primary var_primary field_primary paren_primary wrapped_primary if_primary forall_primary forall_in_primary
    intro: reads_nested reads_postfix reads_unary reads_binary reads_comparison reads_expr reads_range reads_operand reads_question reads_index
    reads_call reads_field reads_arm_comma reads_arm)

lemma tparse_expr_yields: "spells LvExpr a e \<Longrightarrow> yields stops tparse_expr a e"
  unfolding tparse_expr_def using derivations_read(1) [of LvExpr a e] by (intro yields_bounded reads_nested)

subsection \<open>The parser reads what the grammar derives\<close>


text \<open>No list of tokens has two derivations of different trees.\<close>

lemma grammar_unambiguous:
  assumes "spells LvExpr toks e" and "spells LvExpr toks e'"
  shows "e = e'"
proof -
  let ?ts = "map (\<lambda>t. (t, 0, 0)) toks"
  have "tparse_expr (?ts @ [(TtEof, 0, 0)]) = try_ok (x, [(TtEof, 0, 0)])" if "spells LvExpr toks x" for x
    by (rule yieldsD [OF tparse_expr_yields [OF that]]) (simp_all add: comp_def head_tok_def free_defs op_defs)
  from this [OF assms(1)] this [OF assms(2)] show ?thesis by simp
qed

text \<open>A phrase of a level is one of every looser level, and an operator takes a phrase of its own level on its left.\<close>

lemma looser:
  "spells LvPrimary a e \<Longrightarrow> spells LvPostfix a e" "spells LvPostfix a e \<Longrightarrow> spells LvUnary a e" "spells LvUnary a e \<Longrightarrow> spells LvMul a e"
  "spells LvMul a e \<Longrightarrow> spells LvAdd a e" "spells LvAdd a e \<Longrightarrow> spells LvCmp a e" "spells LvCmp a e \<Longrightarrow> spells LvAnd a e"
  "spells LvAnd a e \<Longrightarrow> spells LvOr a e" "spells LvOr a e \<Longrightarrow> spells LvExpr a e"
  using postfix [of a e "[]" e] unary [of a e 0] binary [of LvMul a e "[]" e] binary [of LvAdd a e "[]" e] binary [of LvAnd a e "[]" e]
    binary [of LvOr a e "[]" e] no_comparison no_range by (simp_all add: no_suffix no_operand)

lemma operands_snoc:
  "spells L' a' e' \<Longrightarrow> True"
  "operands L x b l \<Longrightarrow> op_level op = L \<Longrightarrow> spells (tighter L) c r \<Longrightarrow> operands L x (b @ op_token op # c) (TBin op l r)"
  "suffixes x' b' y' \<Longrightarrow> True" "spells_arms c' arms' \<Longrightarrow> True"
proof (induction arbitrary: op c r rule: spells_operands_suffixes_spells_arms.inducts)
  case (no_operand L e)
  then show ?case using operand [of op L c r e "[]" "TBin op e r"] by (simp add: spells_operands_suffixes_spells_arms.no_operand)
next
  case (operand op' L a r' l b e)
  then show ?case using spells_operands_suffixes_spells_arms.operand [of op' L a r' l "b @ op_token op # c"] by simp
qed simp_all

lemma left_associative:
  assumes "spells L a l" and "op_level op = L" and "L \<noteq> LvCmp" and "spells (tighter L) b r"
  shows "spells L (a @ op_token op # b) (TBin op l r)"
proof -
  have L: "L \<in> {LvMul, LvAdd, LvAnd, LvOr}" using assms(2,3) by (cases op) auto
  from assms(1) L obtain a' x c where "a = a' @ c" "spells (tighter L) a' x" "operands L x c l"
    by (cases rule: spells.cases) auto
  then show ?thesis using operands_snoc(2) [OF _ assms(2,4)] binary [OF L] by fastforce
qed

definition spelled :: "token list \<Rightarrow> spanned list" where
  "spelled toks = map (\<lambda>t. (t, 0, 0)) toks"

lemma map_fst_spelled: "map fst (spelled toks) = toks"
  by (simp add: spelled_def comp_def)


subsection \<open>Sources that are read otherwise\<close>

definition expr_of_text :: "string \<Rightarrow> (string, texpr) fallible" where
  "expr_of_text s = try_bind (lex_telos (codes s)) (\<lambda>ts. try_bind (tparse_expr ts) (\<lambda>(e, rest). try_ok e))"

definition stmt_of_text :: "string \<Rightarrow> (string, tstmt) fallible" where
  "stmt_of_text s = try_bind (lex_telos (codes s)) (\<lambda>ts. try_bind (tparse_stmt ts) (\<lambda>(st, rest). try_ok st))"

text \<open>Evaluation of the tokenizer and the parser on a given text.\<close>

lemmas lexer_eval = lex_telos_def codes_def code_def is_whitespace_def is_letter_def is_digit_def word_char_def word_token_def keyword_list_def
  pair_token_def pair_list_def single_token_def single_list_def lex_cons_def utf8s_def utf8_def decimal_def ifits_def char_of_def bit_Suc_0_iff

lemmas parser_eval = pbind_def pret_def reject_def tpeek_def tadvance_def texpect_def texpect_ident_def skip_one_def bounded_def items_until_def
  maybe_items_def tparse_expr_def tparse_or_def tparse_and_def parse_cmp_def parse_add_def parse_mul_def parse_unary_def parse_postfix_def
  tparse_primary_def binary_level_def parse_name_def apply_call_def apply_field_def op_defs aggregate_op_of_def
  tparse_stmt_def stmt_step_def parse_expr_stmt_def assign_op_of_def

text \<open>A call of the result of a method call drops the arguments of the first call.\<close>

lemma chained_call_drops_arguments: "expr_of_text ''a.b(c)(d)'' = try_ok (TCall ''a.b'' [TVar ''d''])"
  by (simp add: expr_of_text_def lexer_eval parser_eval cong: try_bind_weak_cong)

text \<open>An expression that stands as a statement becomes an assignment of 0 to it.\<close>

lemma expression_statement_assigns_zero:
  "stmt_of_text ''w.x;'' = try_ok (SAssign \<lparr>as_target = TField ''w'' ''x'', as_op = AssignSet, as_value = TInt 0\<rparr>)"
  by (simp add: stmt_of_text_def lexer_eval parser_eval cong: try_bind_weak_cong)

end
