(* ===== verification/Spec2Isabelle.thy ===== *)
theory Spec2Isabelle
  imports Rewards Treasury Mandates Escrow Streaming Node Mvcc Capability Scheduler Storage_Engine
    Page_Cache Blink_Tree Eidos_Calls Eidos_Codegen Telos_Pool Telos_End_To_End Sql_Queries Sql_Anomalies Sql_Parser_Total
    Telos_Parser_Grammar
begin

text \<open>
  A verification library for \<open>tpt-oikos\<close>: the settlement layer \<open>koinon\<close> with the node that composes it,
  the storage kernel \<open>archon\<close>, the refinement checker of \<open>eidos\<close> with its solver, and the contract verifier
  of \<open>telos\<close> with its own. All paths are below \<open>src/pillars/\<close>.

  \<^bold>\<open>Conventions.\<close> Each Rust struct is a record, each enum a datatype, each function one HOL function that
  takes the state and returns it updated. Unsigned integers are naturals and signed ones integers with the
  width written out at each checked, saturating or plain operation (\<open>Prelude\<close>). \<open>Result\<close> is a sum with the
  error on the left; an operation that fails after it has changed the state returns the changed state.
  A panic is \<open>None\<close> of the type \<open>panics\<close>; release builds of the program do not trap overflow, and where a
  theorem shows \<open>Some\<close> both kinds of build agree. A \<open>HashMap\<close> is an association list in iteration order,
  a \<open>BTreeMap\<close> one sorted by key (\<open>Rust_Maps\<close>, with the contract \<open>kv_map\<close> that both meet). A component
  driven by its clients is a step function with an invariant (\<open>component\<close>, \<open>monotone_component\<close>,
  \<open>total_component\<close>), and its properties are about all runs of \<open>run_ops\<close>.

  \<^bold>\<open>Settlement (koinon).\<close>
  \<^item> \<open>Ledger\<close>: \<open>koinon-ledger\<close> token amounts, accounts, emission, genesis, elastic supply.
  \<^item> \<open>Conservation\<close>: \<open>TotalValueConservation\<close>; every run keeps the supply cap, transfers between the account classes
    keep the full equation, mint and burn alone break it.
  \<^item> \<open>Fees\<close>: \<open>koinon-gas\<close> and \<open>koinon-fee\<close>; a split adds up to the fee, gas is exact up to saturation.
  \<^item> \<open>Rewards\<close>: \<open>koinon-rewards\<close>; conservation in every reachable state, the default schedule, panics.
  \<^item> \<open>Staking\<close>: \<open>koinon-staking\<close>; the total is the sum of the stakes, distribution never overpays, slashing.
  \<^item> \<open>Treasury\<close>: \<open>koinon-treasury\<close>; balance plus executed amounts is constant, decisions are final.
  \<^item> \<open>Mandates\<close>: \<open>koinon-mandates\<close>; spending stays in budget, enforcement agrees with booking.
  \<^item> \<open>Escrow\<close> and \<open>Streaming\<close>: \<open>koinon-escrow\<close>; an escrow settles once, a stream never overpays.
  \<^item> \<open>Dag\<close> and \<open>Settlement\<close>: \<open>koinon-dag\<close>; insertion keeps the graph acyclic, the depth recursion ends and
    gives a layering, settled transactions have settled parents and no double spend if batches have none.
  \<^item> \<open>Node\<close>: \<open>tpt-oikos-node\<close>, the composition of rewards, staking and the DAG; the invariant of every
    reachable state, progress of settlement, and the double spend that one batch lets through.

  \<^bold>\<open>Storage (archon).\<close>
  \<^item> \<open>Zerocopy\<close>, \<open>Wal\<close>: byte buffers, record frames with their CRC, the log; round trip of a record, and
    recovery of exactly the durable prefix from a log cut at any byte.
  \<^item> \<open>Block_Device\<close>: the device trait as the locale \<open>block_device\<close>, interpreted on the in-memory device.
  \<^item> \<open>Buffer_Pool\<close>: the page cache over any such device; proved once inside the locale, it behaves as
    an array of blocks.
  \<^item> \<open>Storage_Engine\<close>: log and pool together; writes and commits, recovery, the pins that reads leak.
  \<^item> \<open>Capability\<close>, \<open>Page_Cache\<close>: capabilities, message channels, and pages reached through capabilities.
  \<^item> \<open>Scheduler\<close>: the cooperative run queue; completion for tasks that finish (locale \<open>finishing_tasks\<close>).
  \<^item> \<open>Mvcc\<close>: the versioned store; serializability of any interleaving of transactions.
  \<^item> \<open>Blink_Tree\<close>: the B-Link tree index in its node arena; any sequence of its operations returns what a
    sorted association list returns (the locale \<open>simulation\<close> of \<open>Prelude\<close>).

  \<^bold>\<open>SQL (archon, tpt-archon-relational).\<close> A function that may fail and may panic is \<open>fallible\<close> (\<open>Fallible\<close>).
  \<^item> \<open>Sql_Syntax\<close>, \<open>Sql_Parser\<close>: the syntax trees, the tokenizer and the parser of \<open>parser.rs\<close>. \<open>Sql_Parser_Total\<close>: parsing returns on every
    text, and texts that are read otherwise than they are written.
  \<^item> \<open>Sql_Executor\<close>: values, conditions, plans, grouping, sorting and aggregates (\<open>executor.rs\<close>, \<open>planner.rs\<close>). \<open>Sql_Queries\<close>: pattern matching
    agrees with the declarative reading of LIKE, grouping partitions the rows, a planned query returns the
    rows that satisfy its condition in the order asked for. Texts are their UTF-8 bytes.
  \<^item> \<open>Sql_Rows\<close>: the codec of rows, with its round trip.
  \<^item> \<open>Sql_Database\<close>: \<open>database.rs\<close>, tables in B-Link trees, views, subqueries, joins, every statement, transactions that buffer their writes.
  \<^item> \<open>Sql_Storage\<close>, \<open>Sql_Transactions\<close>: a table as a map from row numbers to rows, the invariant of every reachable database, the
    refinement of the statements that change tables, what COMMIT publishes and ROLLBACK restores. The statements are those of
    \<open>statement_ok\<close>, which leaves out ALTER TABLE on a table that the open transaction has touched.
  \<^item> \<open>Sql_Anomalies\<close>: statements whose outcome is not the one SQL or the comments promise.

  \<^bold>\<open>Verification (eidos).\<close>
  \<^item> \<open>F64\<close>, \<open>Exact_Rational\<close>: doubles as bit patterns, and the exact rationals of the solver.
  \<^item> \<open>Linear_Solver\<close>: \<open>eidos-verifier\<close>; entailments it proves are true over the reals, refutation
    decides unless it gives up, counterexamples are real.
  \<^item> \<open>Eidos_Syntax\<close>, \<open>Eidos_Kernel\<close>: \<open>eidos-parser/src/ast.rs\<close> and \<open>eidos-kernel\<close>, the checker that calls the solver.
  \<^item> \<open>Eidos_Safety\<close>: a meaning for the language over the reals and the class of code in which accepted functions
    never divide by zero and meet their contracts; accepted code outside that class that does divide by zero. The meaning uses exact
    numbers where the generated code uses \<open>f64\<close>, does not run the bodies of lambdas and calls an ill-typed operand stuck, which counts as safe.
  \<^item> \<open>Eidos_Erasure\<close>, \<open>Eidos_Codegen\<close>: \<open>eidos-erasure\<close> and \<open>eidos-codegen\<close>; erasure keeps the outcome of the code, so the core
    of an accepted function does not divide by zero; generation fails exactly on cores it cannot lower, and the
    brackets of its text match.
  \<^item> \<open>Eidos_Calls\<close>: the call graph search of the termination check is exact and returns on every graph.

  \<^bold>\<open>Verification (telos).\<close>
  \<^item> \<open>Telos_Linear\<close>, \<open>Telos_Solver\<close>, \<open>Telos_Model\<close>: \<open>telos-ir/src/ir.rs\<close> and \<open>telos-verifier/src/solver.rs\<close>, linear constraints, the
    Fourier-Motzkin refutation and the search for a model.
  \<^item> \<open>Telos_Verify\<close>: \<open>verify.rs\<close>; passed problems are valid, refutation decides rational satisfiability, the search ends
    and counterexamples are genuine when the variables are bounded.
  \<^item> \<open>Telos_Pool\<close>: \<open>cluster.rs\<close>; every interleaving of the workers ends with the results in order, unless one panics.
  \<^item> \<open>Telos_Syntax\<close>, \<open>Telos_Extract\<close>: \<open>telos-parser/src/ast.rs\<close> and \<open>telos-ir/src/extract.rs\<close>, from modules to problems.
  \<^item> \<open>Telos_Parser\<close>: \<open>lexer.rs\<close>, \<open>span.rs\<close> and \<open>parser.rs\<close> of \<open>telos-parser\<close>, from text to modules. \<open>Telos_Parser_Total\<close>: parsing returns on every source, by the
    rules of the locale \<open>reader\<close> (\<open>Parsing\<close>). \<open>Telos_Parser_Grammar\<close>: the grammar of
    expressions (\<open>grammar.ebnf\<close>) as derivations; the parser reads what the grammar derives, with its precedences, and the grammar is unambiguous.
  \<^item> \<open>Telos_Sound\<close>, \<open>Telos_End_To_End\<close>: a meaning for bodies and contracts, the fragment in which a verified function keeps its
    contract, and accepted functions outside the fragment that violate theirs. Bodies run over unbounded integers, as the verifier reasons;
    the generated Rust has \<open>i64\<close> and may overflow.

  \<^bold>\<open>Recursion and fuel.\<close> Loops over a list are structural. The scans of the log are \<open>function\<close>s with a measure on the
  bytes left. The depth recursion of the DAG has fuel, one more than the number of nodes, and is
  proved to return. The solver, the scheduler loop, the loops of the tree and the call graph search are
  \<open>partial_function\<close>s in the option monad, where \<open>None\<close> is a call that does not return, and are proved to
  return. The SQL parser carries a bound, one more than the length of the text, on the depth of its recursion and on the rounds of each
  loop, the parser of \<open>telos\<close> one more than the tokens left; both are proved to be enough. These bounds are not the call stack: both parsers recurse
  without a limit on the depth, and their theorems do not cover a stack overflow on deeply nested input. Views and subqueries are evaluated under a bound on the depth of the call stack, a
  parameter, where \<open>None\<close> is a stack overflow. The resolution of type aliases is one too, and does not return on a cyclic alias; so is the model search
  of \<open>telos\<close>, which does not return on a zero coefficient.

  \<^bold>\<open>Not modelled.\<close> Everything that is input and output only (command lines, HTTP, sockets, the database binding of
  \<open>koinon-node\<close>, the file block device), floating-point computations of the elastic supply, the
  vector index and the ranking of vectors (parameters of the database, like the reading of decimal fractions), EXPLAIN, the parser of \<open>eidos\<close> and the code generators of \<open>telos\<close>, the rendering of \<open>chora\<close>, and the
  Go service \<open>identity\<close>. The manifest lists them one by one.
\<close>

end
